(* ===== verification/Prelude.thy ===== *)
theory Prelude
  imports Main "HOL-Library.Monad_Syntax" "HOL-Library.Sublist" "HOL-Library.Word"
begin

text \<open>
  What the component theories share: the fact collections of the development, the
  C-level vocabulary (bytes, NUL-terminated strings, checked array access, unsigned
  32-bit wrap-around on \<^typ>\<open>nat\<close>) and the generic lemmas about it.

  A C \<^verbatim>\<open>char\<close> or \<^verbatim>\<open>unsigned char\<close> is a HOL \<^typ>\<open>char\<close>, which is one byte.
  A computation that the C standard leaves undefined (an access outside an array, a
  failed assertion, a loop that does not end) is \<^term>\<open>None\<close> in the option monad, or
  \<open>Inl\<close> of a \<open>cfault\<close> where the kind of failure matters.
\<close>

section \<open>Fact collections\<close>

named_theorems c_array_simps \<open>checked array access\<close>
named_theorems c_string_simps \<open>NUL-terminated strings\<close>
named_theorems wrap_simps \<open>wrap-around of unsigned integers\<close>

section \<open>Faults\<close>

datatype cfault = AssertFailed | OutOfBounds | UseAfterFree | Undefined | Fatal

type_synonym 'a res = "cfault + 'a"

definition res_bind :: "'a res \<Rightarrow> ('a \<Rightarrow> 'b res) \<Rightarrow> 'b res" where
  "res_bind m f = (case m of Inl e \<Rightarrow> Inl e | Inr x \<Rightarrow> f x)"

lemma res_bind_simps [simp]:
  "res_bind (Inl e) f = Inl e"
  "res_bind (Inr x) f = f x"
  by (simp_all add: res_bind_def)

lemma res_bind_cong [fundef_cong]:
  "m = m' \<Longrightarrow> (\<And>x. m' = Inr x \<Longrightarrow> f x = g x) \<Longrightarrow> res_bind m f = res_bind m' g"
  by (cases m) auto

lemma res_bind_Inr_iff: "res_bind m f = Inr y \<longleftrightarrow> (\<exists>x. m = Inr x \<and> f x = Inr y)"
  by (cases m) auto

definition c_assert :: "bool \<Rightarrow> unit res" where
  "c_assert b = (if b then Inr () else Inl AssertFailed)"

lemma c_assert_simps [simp]:
  "c_assert True = Inr ()" "c_assert False = Inl AssertFailed"
  by (simp_all add: c_assert_def)

section \<open>Unsigned 32-bit arithmetic on natural numbers\<close>

definition wrap32 :: "nat \<Rightarrow> nat" where
  "wrap32 n = n mod 4294967296"

lemma wrap32_less [wrap_simps]: "wrap32 n < 4294967296"
  by (simp add: wrap32_def)

lemma wrap32_id [wrap_simps, simp]: "n < 4294967296 \<Longrightarrow> wrap32 n = n"
  by (simp add: wrap32_def)

section \<open>Checked array access\<close>

definition nth_opt :: "'a list \<Rightarrow> nat \<Rightarrow> 'a option" where
  "nth_opt xs i = (if i < length xs then Some (xs ! i) else None)"

definition upd_opt :: "'a list \<Rightarrow> nat \<Rightarrow> ('a \<Rightarrow> 'a) \<Rightarrow> 'a list option" where
  "upd_opt xs i f = (if i < length xs then Some (xs[i := f (xs ! i)]) else None)"

lemma nth_opt_in [c_array_simps, simp]: "i < length xs \<Longrightarrow> nth_opt xs i = Some (xs ! i)"
  by (simp add: nth_opt_def)

lemma nth_opt_SomeD: "nth_opt xs i = Some x \<Longrightarrow> i < length xs \<and> x = xs ! i"
  by (simp add: nth_opt_def split: if_splits)

lemma upd_opt_in [c_array_simps, simp]:
  "i < length xs \<Longrightarrow> upd_opt xs i f = Some (xs[i := f (xs ! i)])"
  by (simp add: upd_opt_def)

section \<open>C strings\<close>

abbreviation NUL :: char where "NUL \<equiv> CHR 0x00"

text \<open>The string a buffer holds: its bytes up to the first NUL.\<close>

definition cstr :: "string \<Rightarrow> string" where
  "cstr = takeWhile (\<lambda>c. c \<noteq> NUL)"

lemma cstr_id [c_string_simps]: "NUL \<notin> set s \<Longrightarrow> cstr s = s"
  unfolding cstr_def by (auto simp: takeWhile_eq_all_conv)

lemma cstr_append_NUL [c_string_simps]: "NUL \<notin> set s \<Longrightarrow> cstr (s @ NUL # t) = s"
  unfolding cstr_def by (subst takeWhile_append2) auto

lemma NUL_notin_cstr [c_string_simps, simp]: "NUL \<notin> set (cstr s)"
  unfolding cstr_def by (auto dest: set_takeWhileD)

lemma cstr_idem [simp]: "cstr (cstr s) = cstr s"
  by (simp add: cstr_id)

text \<open>\<^verbatim>\<open>strcmp (a, b) == 0\<close> on the buffers \<open>a\<close> and \<open>b\<close>.\<close>

definition strcmp_eq :: "string \<Rightarrow> string \<Rightarrow> bool" where
  "strcmp_eq a b \<longleftrightarrow> cstr a = cstr b"

text \<open>\<^verbatim>\<open>toupper\<close> in the C locale.\<close>

definition toupper :: "char \<Rightarrow> char" where
  "toupper c = (if 97 \<le> (of_char c :: nat) \<and> (of_char c :: nat) \<le> 122
                then char_of ((of_char c :: nat) - 32) else c)"

definition tolower :: "char \<Rightarrow> char" where
  "tolower c = (if 65 \<le> (of_char c :: nat) \<and> (of_char c :: nat) \<le> 90
                then char_of ((of_char c :: nat) + 32) else c)"

text \<open>Conversion of a wider integer to \<^verbatim>\<open>int\<close>.\<close>

definition trunc32 :: "int \<Rightarrow> int" where
  "trunc32 v = (v + 2147483648) mod 4294967296 - 2147483648"

lemma trunc32_id: "- 2147483648 \<le> v \<Longrightarrow> v < 2147483648 \<Longrightarrow> trunc32 v = v"
  by (simp add: trunc32_def)

text \<open>Numbers of request methods (\<^verbatim>\<open>src/enums.h\<close>).\<close>

definition METHOD_GET :: nat where "METHOD_GET = 1"
definition METHOD_HEAD :: nat where "METHOD_HEAD = 4"

text \<open>The character classes of the C locale.\<close>

definition isblank_c :: "char \<Rightarrow> bool" where
  "isblank_c c \<longleftrightarrow> c = CHR '' '' \<or> c = CHR 0x09"

definition isdigit_c :: "char \<Rightarrow> bool" where
  "isdigit_c c \<longleftrightarrow> 48 \<le> (of_char c :: nat) \<and> (of_char c :: nat) \<le> 57"

definition isspace_c :: "char \<Rightarrow> bool" where
  "isspace_c c \<longleftrightarrow> c = CHR '' '' \<or> (9 \<le> (of_char c :: nat) \<and> (of_char c :: nat) \<le> 13)"

text \<open>The value of a string of decimal digits.\<close>

definition digits_val :: "string \<Rightarrow> nat" where
  "digits_val ds = foldl (\<lambda>v c. 10 * v + (of_char c - 48)) 0 ds"

lemma digits_val_snoc: "digits_val (ds @ [c]) = 10 * digits_val ds + (of_char c - 48)"
  by (simp add: digits_val_def)

text \<open>\<^verbatim>\<open>strstr\<close>: the offset of the first occurrence of the second string in the first.\<close>

fun strstr :: "string \<Rightarrow> string \<Rightarrow> nat option" where
  "strstr [] p = (if p = [] then Some 0 else None)"
| "strstr (c # s) p = (if prefix p (c # s) then Some 0 else map_option Suc (strstr s p))"

text \<open>The 256 values of an \<^verbatim>\<open>unsigned char\<close> loop variable, in order.\<close>

definition alphabet :: "char list" where
  "alphabet = map char_of [0..<256::nat]"

lemma set_alphabet [simp]: "set alphabet = UNIV"
proof -
  have "c \<in> set alphabet" for c :: char
  proof -
    have "c = char_of (of_char c :: nat)" by simp
    moreover have "(of_char c :: nat) < 256" by simp
    ultimately show ?thesis unfolding alphabet_def by (metis atLeastLessThan_iff imageI le0 list.set_map set_upt)
  qed
  then show ?thesis by blast
qed

lemma distinct_alphabet [simp]: "distinct alphabet"
proof -
  have "inj_on (char_of :: nat \<Rightarrow> char) {0..<256}"
    by (rule inj_onI) (metis atLeastLessThan_iff mod_less of_char_of)
  then show ?thesis by (simp add: alphabet_def distinct_map)
qed

section \<open>Loops with early failure\<close>

text \<open>A \<^verbatim>\<open>for\<close> loop over the elements of a list whose body may fail.\<close>

fun foldM :: "('a \<Rightarrow> 's \<Rightarrow> 's option) \<Rightarrow> 'a list \<Rightarrow> 's \<Rightarrow> 's option" where
  "foldM f [] s = Some s"
| "foldM f (x # xs) s = f x s \<bind> foldM f xs"

lemma foldM_append: "foldM f (xs @ ys) s = foldM f xs s \<bind> foldM f ys"
proof (induction xs arbitrary: s)
  case (Cons x xs)
  then show ?case by (cases "f x s") simp_all
qed simp

text \<open>
  The loop rule: an invariant indexed by the elements already visited, kept by the body
  (which then does not fail), holds at the end, and the loop does not fail.
\<close>

lemma foldM_rule:
  assumes "I [] s"
    and "\<And>xs x ys s. zs = xs @ x # ys \<Longrightarrow> I xs s \<Longrightarrow> \<exists>s'. f x s = Some s' \<and> I (xs @ [x]) s'"
  shows "\<exists>s'. foldM f zs s = Some s' \<and> I zs s'"
proof -
  have "\<exists>s'. foldM f ys s = Some s' \<and> I (xs @ ys) s'" if "zs = xs @ ys" "I xs s" for xs ys s
    using that
  proof (induction ys arbitrary: xs s)
    case Nil
    then show ?case by simp
  next
    case (Cons y ys)
    from assms(2)[OF Cons.prems] obtain s1 where s1: "f y s = Some s1" "I (xs @ [y]) s1" by blast
    have "\<exists>s'. foldM f ys s1 = Some s' \<and> I ((xs @ [y]) @ ys) s'"
      by (rule Cons.IH) (use Cons.prems s1 in auto)
    with s1 show ?case by auto
  qed
  from this[of "[]" zs s] assms(1) show ?thesis by simp
qed

section \<open>Lists\<close>

lemma suffix_ConsD2: "suffix xs (y # ys) \<Longrightarrow> xs \<noteq> y # ys \<Longrightarrow> suffix xs ys"
  by (auto simp: suffix_Cons)

lemma suffix_same_length: "suffix xs zs \<Longrightarrow> suffix ys zs \<Longrightarrow> length xs = length ys \<Longrightarrow> xs = ys"
  by (metis suffix_length_suffix suffix_order.antisym order_refl)

lemma map_update_same: "f y = f (xs ! i) \<Longrightarrow> map f (xs[i := y]) = map f xs"
  by (metis list_update_id map_update)

lemma ball_list_update: "\<forall>x\<in>set xs. P x \<Longrightarrow> P y \<Longrightarrow> \<forall>x\<in>set (xs[i := y]). P x"
  using set_update_subset_insert by fastforce

lemma suffix_snoc_snoc: "suffix (xs @ [x]) (ys @ [y]) \<longleftrightarrow> x = y \<and> suffix xs ys"
  by auto

section \<open>Byte arrays\<close>

text \<open>Reading a byte or several bytes of an array, and writing into it.\<close>

definition get_byte :: "string \<Rightarrow> nat \<Rightarrow> nat res" where
  "get_byte buf i = (if i < length buf then Inr (of_char (buf ! i)) else Inl OutOfBounds)"

definition get_bytes :: "nat \<Rightarrow> nat \<Rightarrow> string \<Rightarrow> string res" where
  "get_bytes i n buf = (if length buf < i + n then Inl OutOfBounds else Inr (take n (drop i buf)))"

definition put_bytes :: "nat \<Rightarrow> string \<Rightarrow> string \<Rightarrow> string res" where
  "put_bytes i bs nm = (if length nm < i + length bs then Inl OutOfBounds else Inr (take i nm @ bs @ drop (i + length bs) nm))"

end
