(* ===== verification/Acsm.thy ===== *)
theory Acsm
  imports Prelude
begin

text \<open>
  The multi-pattern matcher of \<^verbatim>\<open>src/squid-2.7.STABLE9-new/src/acsmDFA.c\<close>: the keyword
  list, the trie and the automaton built from it, the search, and the parser of the
  keyword files.

  A state number is an \<^verbatim>\<open>unsigned\<close>, a natural number here, and \<^verbatim>\<open>ACSM_FAIL_STATE\<close>
  (\<^verbatim>\<open>-1\<close> stored in an \<^verbatim>\<open>unsigned\<close>) is \<open>2 ^ 32 - 1\<close>. The state table is a list of
  records. Every access to it is checked: an index outside the table is \<^term>\<open>None\<close>.
  A loop whose end depends on the contents of the table takes fuel (as many rounds as
  the table has entries), and running out is \<^term>\<open>None\<close> as well. That a compiled
  automaton never gives \<^term>\<open>None\<close> is proved in \<open>Acsm_Correct\<close>.
\<close>

section \<open>Data\<close>

record acsm_pattern =
  patrn_cap :: string
  n_cap :: nat
  nmatch :: nat
  urlflag :: nat

record acsm_state =
  flag :: nat
  NextState :: "char \<Rightarrow> nat"
  FailState :: nat
  MatchList :: "acsm_pattern list"

record acsm_struct =
  acsmMaxState :: nat
  acsmNumState :: nat
  acsmPatterns :: "acsm_pattern list"
  acsmStateTable :: "acsm_state list"

definition ACSM_FAIL_STATE :: nat where "ACSM_FAIL_STATE = 4294967295"
definition SOLID_STATE :: nat where "SOLID_STATE = 0"
definition VIRTUAL_STATE1 :: nat where "VIRTUAL_STATE1 = 1"

text \<open>An \<^verbatim>\<open>unsigned\<close> returned as an \<^verbatim>\<open>int\<close>.\<close>

definition to_int32 :: "nat \<Rightarrow> int" where
  "to_int32 n = (if n < 2147483648 then int n else int n - 4294967296)"

section \<open>Match counting\<close>

text \<open>
  \<^verbatim>\<open>PrintMatch\<close> walks the keyword list to the first keyword equal to the matched one,
  counts the match in it and in the global \<^verbatim>\<open>nfound\<close>, and returns its flag.
\<close>

fun PrintMatch :: "acsm_pattern list \<Rightarrow> acsm_pattern \<Rightarrow> nat \<Rightarrow> acsm_pattern list \<times> nat \<times> int" where
  "PrintMatch [] mlist nfound = ([], nfound, 0)"
| "PrintMatch (temp # ts) mlist nfound =
     (if strcmp_eq (patrn_cap temp) (patrn_cap mlist)
      then (temp\<lparr>nmatch := wrap32 (nmatch temp + 1)\<rparr> # ts, wrap32 (nfound + 1),
            to_int32 (urlflag temp))
      else (case PrintMatch ts mlist nfound of (ts', nf, r) \<Rightarrow> (temp # ts', nf, r)))"

text \<open>\<^verbatim>\<open>PrintSummary\<close> resets the counters (its output is not modelled).\<close>

definition PrintSummary :: "acsm_struct \<Rightarrow> acsm_struct \<times> nat" where
  "PrintSummary a = (a\<lparr>acsmPatterns := map (\<lambda>p. p\<lparr>nmatch := 0\<rparr>) (acsmPatterns a)\<rparr>, 0)"

section \<open>The queue of state numbers\<close>

text \<open>The linked list from \<^verbatim>\<open>head\<close> to \<^verbatim>\<open>tail\<close> as a list, with the separate node count.\<close>

record queue =
  qnodes :: "nat list"
  qcount :: nat

definition queue_init :: queue where
  "queue_init = \<lparr>qnodes = [], qcount = 0\<rparr>"

definition queue_add :: "queue \<Rightarrow> nat \<Rightarrow> queue" where
  "queue_add s state = \<lparr>qnodes = qnodes s @ [state], qcount = wrap32 (qcount s + 1)\<rparr>"

definition queue_remove :: "queue \<Rightarrow> queue \<times> nat" where
  "queue_remove s = (case qnodes s of
       [] \<Rightarrow> (s, 0)
     | state # rest \<Rightarrow>
         (\<lparr>qnodes = rest,
           qcount = (if rest = [] then 0 else wrap32 (qcount s + 4294967295))\<rparr>, state))"

definition queue_count :: "queue \<Rightarrow> int" where
  "queue_count s = to_int32 (qcount s)"

fun queue_free :: "nat \<Rightarrow> queue \<Rightarrow> queue option" where
  "queue_free 0 s = (if queue_count s \<noteq> 0 then None else Some s)"
| "queue_free (Suc fuel) s =
     (if queue_count s \<noteq> 0 then queue_free fuel (fst (queue_remove s)) else Some s)"

section \<open>Case conversion\<close>

definition init_xlatcase :: "char \<Rightarrow> char" where
  "init_xlatcase = (\<lambda>i. toupper i)"

definition ConvertCaseEX :: "(char \<Rightarrow> char) \<Rightarrow> string \<Rightarrow> string" where
  "ConvertCaseEX xlatcase s = map xlatcase s"

section \<open>Keywords\<close>

definition acsmAddPattern :: "acsm_struct \<Rightarrow> string \<Rightarrow> nat \<Rightarrow> acsm_struct" where
  "acsmAddPattern p pat flg =
     p\<lparr>acsmPatterns :=
         \<lparr>patrn_cap = ConvertCaseEX init_xlatcase pat, n_cap = length pat,
          nmatch = 0, urlflag = flg\<rparr> # acsmPatterns p\<rparr>"

section \<open>The state table\<close>

definition tget :: "acsm_struct \<Rightarrow> nat \<Rightarrow> acsm_state option" where
  "tget a s = nth_opt (acsmStateTable a) s"

definition tset :: "acsm_struct \<Rightarrow> nat \<Rightarrow> (acsm_state \<Rightarrow> acsm_state) \<Rightarrow> acsm_struct option" where
  "tset a s f = map_option (\<lambda>t. a\<lparr>acsmStateTable := t\<rparr>) (upd_opt (acsmStateTable a) s f)"

definition AddMatchListEntry :: "acsm_struct \<Rightarrow> nat \<Rightarrow> acsm_pattern \<Rightarrow> acsm_struct option" where
  "AddMatchListEntry a state px = do {
     st \<leftarrow> tget a state;
     if list_ex (\<lambda>q. strcmp_eq (patrn_cap px) (patrn_cap q)) (MatchList st) then Some a
     else tset a state (\<lambda>s. s\<lparr>MatchList := px # MatchList s\<rparr>)
   }"

text \<open>The first loop of \<^verbatim>\<open>AddPatternStates\<close>: follow the existing transitions.\<close>

fun match_existing :: "acsm_struct \<Rightarrow> nat \<Rightarrow> string \<Rightarrow> (nat \<times> string) option" where
  "match_existing a state [] = Some (state, [])"
| "match_existing a state (c # cs) = do {
     st \<leftarrow> tget a state;
     if NextState st c = ACSM_FAIL_STATE then Some (state, c # cs)
     else match_existing a (NextState st c) cs
   }"

text \<open>Its second loop: a new state for every remaining byte.\<close>

fun add_states :: "acsm_struct \<Rightarrow> nat \<Rightarrow> string \<Rightarrow> (acsm_struct \<times> nat) option" where
  "add_states a state [] = Some (a, state)"
| "add_states a state (c # cs) = do {
     let num = wrap32 (acsmNumState a + 1);
     a1 \<leftarrow> tset (a\<lparr>acsmNumState := num\<rparr>) state (\<lambda>s. s\<lparr>NextState := (NextState s)(c := num)\<rparr>);
     a2 \<leftarrow> tset a1 num (\<lambda>s. s\<lparr>flag := SOLID_STATE\<rparr>);
     t \<leftarrow> tget a2 state;
     a3 \<leftarrow> (if 128 \<le> (of_char c :: nat) \<and> flag t = SOLID_STATE
            then tset a2 num (\<lambda>s. s\<lparr>flag := VIRTUAL_STATE1\<rparr>) else Some a2);
     add_states a3 num cs
   }"

definition AddPatternStates :: "acsm_pattern \<Rightarrow> acsm_struct \<Rightarrow> acsm_struct option" where
  "AddPatternStates p a = do {
     a0 \<leftarrow> tset a 0 (\<lambda>s. s\<lparr>flag := SOLID_STATE\<rparr>);
     (state, rest) \<leftarrow> match_existing a0 0 (take (n_cap p) (patrn_cap p));
     (a1, state1) \<leftarrow> add_states a0 state rest;
     AddMatchListEntry a1 state1 p
   }"

section \<open>The automaton\<close>

text \<open>
  \<^verbatim>\<open>while ((next = table[fs].NextState[i]) == ACSM_FAIL_STATE) fs = table[fs].FailState;\<close>
\<close>

fun locate_next :: "nat \<Rightarrow> acsm_struct \<Rightarrow> nat \<Rightarrow> char \<Rightarrow> nat option" where
  "locate_next 0 a fs i = None"
| "locate_next (Suc fuel) a fs i = do {
     st \<leftarrow> tget a fs;
     if NextState st i = ACSM_FAIL_STATE then locate_next fuel a (FailState st) i
     else Some (NextState st i)
   }"

text \<open>One round of the loop that fills the transitions of state \<open>r\<close>.\<close>

definition dfa_cell :: "nat \<Rightarrow> char \<Rightarrow> acsm_struct \<times> queue \<Rightarrow> (acsm_struct \<times> queue) option" where
  "dfa_cell r i = (\<lambda>(a, q). do {
     sr \<leftarrow> tget a r;
     let s = NextState sr i;
     if s \<noteq> ACSM_FAIL_STATE then do {
       nxt \<leftarrow> locate_next (length (acsmStateTable a)) a (FailState sr) i;
       a' \<leftarrow> tset a s (\<lambda>st. st\<lparr>FailState := nxt\<rparr>);
       Some (a', queue_add q s)
     } else do {
       sf \<leftarrow> tget a (FailState sr);
       a' \<leftarrow> tset a r (\<lambda>st. st\<lparr>NextState := (NextState st)(i := NextState sf i)\<rparr>);
       Some (a', q)
     }
   })"

text \<open>The loop over the transitions of state 0 that fills the queue.\<close>

definition root_cell :: "char \<Rightarrow> acsm_struct \<times> queue \<Rightarrow> (acsm_struct \<times> queue) option" where
  "root_cell i = (\<lambda>(a, q). do {
     s0 \<leftarrow> tget a 0;
     let s = NextState s0 i;
     if s \<noteq> 0 then do {
       a' \<leftarrow> tset a s (\<lambda>st. st\<lparr>FailState := 0\<rparr>);
       Some (a', queue_add q s)
     } else Some (a, q)
   })"

fun dfa_loop :: "nat \<Rightarrow> acsm_struct \<times> queue \<Rightarrow> (acsm_struct \<times> queue) option" where
  "dfa_loop fuel (a, q) =
     (if queue_count q > 0 then
        (case fuel of
           0 \<Rightarrow> None
         | Suc fuel' \<Rightarrow>
             (case queue_remove q of
                (q', r) \<Rightarrow> foldM (dfa_cell r) alphabet (a, q') \<bind> dfa_loop fuel'))
      else Some (a, q))"

definition Build_DFA :: "acsm_struct \<Rightarrow> acsm_struct option" where
  "Build_DFA a = do {
     (a1, q1) \<leftarrow> foldM root_cell alphabet (a, queue_init);
     (a2, q2) \<leftarrow> dfa_loop (length (acsmStateTable a)) (a1, q1);
     _ \<leftarrow> queue_free (length (qnodes q2)) q2;
     Some a2
   }"

definition acsmNew :: acsm_struct where
  "acsmNew = \<lparr>acsmMaxState = 0, acsmNumState = 0, acsmPatterns = [], acsmStateTable = []\<rparr>"

definition zero_state :: acsm_state where
  "zero_state = \<lparr>flag = 0, NextState = (\<lambda>_. ACSM_FAIL_STATE), FailState = 0, MatchList = []\<rparr>"

definition root_default :: "char \<Rightarrow> acsm_struct \<Rightarrow> acsm_struct option" where
  "root_default i a = do {
     s0 \<leftarrow> tget a 0;
     if NextState s0 i = ACSM_FAIL_STATE
     then tset a 0 (\<lambda>s. s\<lparr>NextState := (NextState s)(i := 0)\<rparr>) else Some a
   }"

definition acsmCompile_cap :: "acsm_struct \<Rightarrow> acsm_struct option" where
  "acsmCompile_cap a = do {
     let maxst = foldl (\<lambda>m p. wrap32 (m + n_cap p)) 1 (acsmPatterns a);
     let a0 = a\<lparr>acsmMaxState := maxst, acsmStateTable := replicate maxst zero_state,
                acsmNumState := 0\<rparr>;
     a1 \<leftarrow> foldM AddPatternStates (acsmPatterns a) a0;
     a2 \<leftarrow> foldM root_default alphabet a1;
     Build_DFA a2
   }"

section \<open>The search\<close>

text \<open>
  The walk along the failure links: the first state other than 0 that is solid and has
  a match list, if any.
\<close>

fun fail_walk :: "nat \<Rightarrow> acsm_struct \<Rightarrow> nat \<Rightarrow> acsm_pattern list option" where
  "fail_walk fuel a fail =
     (if fail = 0 then Some []
      else (case fuel of
              0 \<Rightarrow> None
            | Suc fuel' \<Rightarrow> do {
                st \<leftarrow> tget a fail;
                if MatchList st \<noteq> [] \<and> flag st = SOLID_STATE then Some (MatchList st)
                else fail_walk fuel' a (FailState st)
              }))"

text \<open>
  The loop over the match list of an accepting state after a byte of the upper half.
  It returns the flag of the head of the keyword list once a match is counted; an empty
  keyword list is a null dereference there, \<^term>\<open>None\<close>.
\<close>

fun report_virtual ::
  "acsm_struct \<Rightarrow> acsm_pattern list \<Rightarrow> nat \<Rightarrow> (acsm_struct \<times> nat \<times> int option) option" where
  "report_virtual a [] nfound = Some (a, nfound, None)"
| "report_virtual a (m # ms) nfound =
     (case PrintMatch (acsmPatterns a) m nfound of (ps, nf, r) \<Rightarrow>
        let a' = a\<lparr>acsmPatterns := ps\<rparr> in
        if nf \<noteq> 0 then map_option (\<lambda>p. (a', nf, Some (to_int32 (urlflag p)))) (nth_opt ps 0)
        else report_virtual a' ms nf)"

definition print_once :: "acsm_struct \<Rightarrow> acsm_pattern \<Rightarrow> nat \<Rightarrow> acsm_struct \<times> nat \<times> int" where
  "print_once a m nfound =
     (case PrintMatch (acsmPatterns a) m nfound of (ps, nf, r) \<Rightarrow> (a\<lparr>acsmPatterns := ps\<rparr>, nf, r))"

definition print_twice :: "acsm_struct \<Rightarrow> acsm_pattern \<Rightarrow> nat \<Rightarrow> acsm_struct \<times> nat \<times> int" where
  "print_twice a m nfound =
     (case print_once a m nfound of (a', nf, r) \<Rightarrow> print_once a' m nf)"

function search_loop :: "acsm_struct \<Rightarrow> nat \<Rightarrow> nat \<Rightarrow> string \<Rightarrow> (acsm_struct \<times> nat \<times> int) option" where
  "search_loop a nfound state [] = Some (a, nfound, 0)"
| "search_loop a nfound state (c # T) =
     (if c = NUL then Some (a, nfound, -1)
      else do {
        tmp \<leftarrow> tget a state;
        let nxt = NextState tmp c;
        st \<leftarrow> tget a nxt;
        if (of_char c :: nat) < 128 then
          (case MatchList st of
             m # _ \<Rightarrow> Some (print_twice a m nfound)
           | [] \<Rightarrow> do {
               ms \<leftarrow> fail_walk (length (acsmStateTable a)) a (FailState st);
               (case ms of
                  m # _ \<Rightarrow> Some (print_once a m nfound)
                | [] \<Rightarrow> search_loop a nfound nxt T)
             })
        else do {
          let nxt1 = (if flag tmp = VIRTUAL_STATE1 \<and> flag st = VIRTUAL_STATE1 then 0 else nxt);
          if nxt1 = 0 \<and> flag tmp = SOLID_STATE then search_loop a nfound nxt1 (drop 1 T)
          else do {
            st1 \<leftarrow> tget a nxt1;
            (a1, nf1, ret) \<leftarrow>
              (if MatchList st1 \<noteq> [] \<and> flag tmp = VIRTUAL_STATE1
               then report_virtual a (MatchList st1) nfound else Some (a, nfound, None));
            (case ret of
               Some r \<Rightarrow> Some (a1, nf1, r)
             | None \<Rightarrow> do {
                 ms \<leftarrow> fail_walk (length (acsmStateTable a1)) a1 (FailState st1);
                 (case ms of
                    m # _ \<Rightarrow> Some (print_twice a1 m nf1)
                  | [] \<Rightarrow> search_loop a1 nf1 nxt1 T)
               })
          }
        }
      })"
  by pat_completeness auto
termination
  by (relation "measure (\<lambda>(a, nf, s, T). length T)") auto

definition acsmSearch_cap :: "acsm_struct \<Rightarrow> string \<Rightarrow> (acsm_struct \<times> nat \<times> int) option" where
  "acsmSearch_cap a Tx =
     (if to_int32 (wrap32 (length Tx)) \<le> 0 then Some (a, 0, -1) else search_loop a 0 0 Tx)"

end
