(* ===== verification/Acsm_Spec.thy ===== *)
theory Acsm_Spec
  imports Acsm
begin

text \<open>
  The specification of multi-pattern search that the automaton of \<open>Acsm\<close> implements, and
  the theory of longest suffixes behind it: \<open>lsuf P w\<close> is the longest suffix of \<open>w\<close> with
  property \<open>P\<close>. The transition function of the automaton on a word \<open>w\<close> of the trie is
  \<open>lsuf W (w @ [c])\<close>, its failure function \<open>lsuf W (tl w)\<close>.
\<close>

section \<open>Longest suffixes\<close>

fun lsuf :: "('a list \<Rightarrow> bool) \<Rightarrow> 'a list \<Rightarrow> 'a list" where
  "lsuf P [] = []"
| "lsuf P (x # xs) = (if P (x # xs) then x # xs else lsuf P xs)"

lemma lsuf_suffix: "suffix (lsuf P w) w"
  by (induction w) (auto intro: suffix_ConsI)

lemma lsuf_length: "length (lsuf P w) \<le> length w"
  using lsuf_suffix by (rule suffix_length_le)

lemma lsuf_tl_shorter: "w \<noteq> [] \<Longrightarrow> length (lsuf P (tl w)) < length w"
  using lsuf_length [of P "tl w"] by (cases w) auto

lemma lsuf_sat: "P [] \<Longrightarrow> P (lsuf P w)"
  by (induction w) auto

lemma lsuf_sat_nonempty: "lsuf P w \<noteq> [] \<Longrightarrow> P (lsuf P w)"
  by (induction w) (auto split: if_splits)

lemma lsuf_id: "P w \<Longrightarrow> lsuf P w = w"
  by (cases w) auto

lemma lsuf_not: "\<not> P w \<Longrightarrow> lsuf P w = lsuf P (tl w)"
  by (cases w) auto

lemma lsuf_longest: "suffix v w \<Longrightarrow> P v \<Longrightarrow> suffix v (lsuf P w)"
  by (induction w) (auto simp: suffix_Cons)

lemma suffix_lsuf_iff: "P v \<Longrightarrow> suffix v (lsuf P w) \<longleftrightarrow> suffix v w"
  using lsuf_longest lsuf_suffix suffix_order.trans by blast

text \<open>The law of the transition function: only the longest suffix in a prefix-closed set matters.\<close>

lemma lsuf_snoc:
  assumes "\<And>u c. P (u @ [c]) \<Longrightarrow> P u"
  shows "lsuf P (lsuf P w @ [c]) = lsuf P (w @ [c])"
proof (induction w)
  case (Cons x w)
  show ?case
  proof (cases "P (x # w)")
    case False
    with assms have "\<not> P ((x # w) @ [c])" by blast
    with False Cons show ?thesis by simp
  qed simp
qed simp

text \<open>
  Going to the longest proper suffix in \<open>P\<close> does not skip a suffix in a subset \<open>Q\<close>
  of \<open>P\<close>: the failure links visit every keyword that ends at the current position.
\<close>

lemma lsuf_fail:
  assumes "\<And>u. Q u \<Longrightarrow> P u" and "\<not> Q w"
  shows "lsuf Q (lsuf P (tl w)) = lsuf Q w"
proof -
  have *: "lsuf Q (lsuf P v) = lsuf Q v" for v
    using assms(1) by (induction v) auto
  show ?thesis using assms(2) * lsuf_not by metis
qed

lemma lsuf_lsuf: "(\<And>u. Q u \<Longrightarrow> P u) \<Longrightarrow> lsuf Q (lsuf P v) = lsuf Q v"
  by (induction v) auto

section \<open>The specification of the search\<close>

text \<open>The keyword found when the bytes \<open>t\<close> have been read: the longest that ends there.\<close>

definition keyword :: "acsm_pattern list \<Rightarrow> string \<Rightarrow> bool" where
  "keyword ps w \<longleftrightarrow> list_ex (\<lambda>p. patrn_cap p = w) ps"

lemma keyword_iff: "keyword ps w \<longleftrightarrow> (\<exists>p\<in>set ps. patrn_cap p = w)"
  by (auto simp: keyword_def list_ex_iff)

text \<open>The flag of a keyword: that of the first entry of the list that holds it.\<close>

fun flag_of :: "acsm_pattern list \<Rightarrow> string \<Rightarrow> int" where
  "flag_of [] w = 0"
| "flag_of (p # ps) w = (if patrn_cap p = w then to_int32 (urlflag p) else flag_of ps w)"

text \<open>
  \<open>first_match ps t u\<close>: scanning \<open>u\<close> after the bytes \<open>t\<close>, the longest keyword that ends
  at the first position where some keyword ends.
\<close>

fun first_match :: "acsm_pattern list \<Rightarrow> string \<Rightarrow> string \<Rightarrow> string option" where
  "first_match ps t [] = None"
| "first_match ps t (c # u) =
     (let w = lsuf (keyword ps) (t @ [c]) in
      if w \<noteq> [] then Some w else first_match ps (t @ [c]) u)"

text \<open>What \<open>first_match\<close> finds, in terms of occurrences.\<close>

definition ends_at :: "string \<Rightarrow> string \<Rightarrow> nat \<Rightarrow> bool" where
  "ends_at w t k \<longleftrightarrow> 0 < k \<and> k \<le> length t \<and> suffix w (take k t)"

lemma first_match_None_iff_aux:
  assumes "\<And>p. p \<in> set ps \<Longrightarrow> patrn_cap p \<noteq> []"
  shows "first_match ps t u = None \<longleftrightarrow>
    (\<forall>p\<in>set ps. \<forall>k. length t < k \<and> k \<le> length (t @ u) \<longrightarrow> \<not> suffix (patrn_cap p) (take k (t @ u)))"
proof (induction u arbitrary: t)
  case Nil
  then show ?case by auto
next
  case (Cons c u)
  let ?w = "lsuf (keyword ps) (t @ [c])"
  have split: "(length t < k \<and> k \<le> length (t @ c # u)) =
      (k = Suc (length t) \<or> length (t @ [c]) < k \<and> k \<le> length ((t @ [c]) @ u))" for k
    by auto
  have here: "?w = [] \<longleftrightarrow> (\<forall>p\<in>set ps. \<not> suffix (patrn_cap p) (t @ [c]))"
  proof
    assume "?w = []"
    then have "suffix v (t @ [c]) \<Longrightarrow> keyword ps v \<Longrightarrow> v = []" for v
      using lsuf_longest [of v "t @ [c]" "keyword ps"] by simp
    then show "\<forall>p\<in>set ps. \<not> suffix (patrn_cap p) (t @ [c])"
      using assms by (meson keyword_iff)
  next
    assume *: "\<forall>p\<in>set ps. \<not> suffix (patrn_cap p) (t @ [c])"
    show "?w = []"
      using * lsuf_suffix lsuf_sat_nonempty by (metis keyword_iff)
  qed
  have tk: "take (Suc (length t)) (t @ c # u) = t @ [c]" by simp
  have "first_match ps t (c # u) = None \<longleftrightarrow> ?w = [] \<and> first_match ps (t @ [c]) u = None"
    by (simp add: Let_def)
  also have "\<dots> \<longleftrightarrow> (\<forall>p\<in>set ps. \<not> suffix (patrn_cap p) (t @ [c])) \<and>
     (\<forall>p\<in>set ps. \<forall>k. length (t @ [c]) < k \<and> k \<le> length ((t @ [c]) @ u) \<longrightarrow>
        \<not> suffix (patrn_cap p) (take k ((t @ [c]) @ u)))"
    by (simp only: here Cons.IH)
  also have "\<dots> \<longleftrightarrow> (\<forall>p\<in>set ps. \<forall>k. length t < k \<and> k \<le> length (t @ c # u) \<longrightarrow>
       \<not> suffix (patrn_cap p) (take k (t @ c # u)))"
    unfolding split using tk by auto
  finally show ?case .
qed

lemma sublist_iff_ends_at:
  "w \<noteq> [] \<Longrightarrow> sublist w t \<longleftrightarrow> (\<exists>k. ends_at w t k)"
proof -
  assume w: "w \<noteq> []"
  show ?thesis
  proof
    assume "sublist w t"
    then obtain xs ys where t: "t = xs @ w @ ys" by (auto simp: sublist_def)
    have "ends_at w t (length (xs @ w))" using w by (auto simp: ends_at_def t suffix_def)
    then show "\<exists>k. ends_at w t k" ..
  next
    assume "\<exists>k. ends_at w t k"
    then obtain k xs where "take k t = xs @ w" by (auto simp: ends_at_def suffix_def)
    then have "t = xs @ w @ drop k t" by (metis append.assoc append_take_drop_id)
    then show "sublist w t" by (metis sublist_appendI)
  qed
qed

lemma first_match_None_iff:
  assumes "\<And>p. p \<in> set ps \<Longrightarrow> patrn_cap p \<noteq> []"
  shows "first_match ps [] t = None \<longleftrightarrow> (\<forall>p\<in>set ps. \<not> sublist (patrn_cap p) t)"
  using first_match_None_iff_aux [OF assms, where t = "[]" and u = t]
    sublist_iff_ends_at [OF assms, of _ t]
  by (auto simp: ends_at_def)

lemma first_match_SomeD:
  "first_match ps t u = Some w \<Longrightarrow>
     \<exists>k. length t < k \<and> k \<le> length (t @ u) \<and> suffix w (take k (t @ u)) \<and> keyword ps w"
proof (induction u arbitrary: t)
  case (Cons c u)
  let ?w = "lsuf (keyword ps) (t @ [c])"
  show ?case
  proof (cases "?w = []")
    case True
    with Cons.prems have "first_match ps (t @ [c]) u = Some w" by (simp add: Let_def)
    from Cons.IH [OF this] obtain k where
      "length (t @ [c]) < k" "k \<le> length ((t @ [c]) @ u)"
      "suffix w (take k ((t @ [c]) @ u))" "keyword ps w" by blast
    then show ?thesis by (intro exI [of _ k]) auto
  next
    case False
    with Cons.prems have w: "w = ?w" by (simp add: Let_def)
    have "take (Suc (length t)) (t @ c # u) = t @ [c]" by simp
    then show ?thesis using w lsuf_suffix [of "keyword ps" "t @ [c]"] lsuf_sat_nonempty [OF False]
      by (intro exI [of _ "Suc (length t)"]) simp
  qed
qed simp

end
