(* ===== verification/Acsm_Trie.thy ===== *)
theory Acsm_Trie
  imports Acsm_Spec
begin

text \<open>
  The first phase of \<^verbatim>\<open>acsmCompile_cap\<close>: \<^verbatim>\<open>AddPatternStates\<close> builds the trie of the
  keywords. The state numbers are tied to the words of the trie by the list \<open>labs\<close> of
  state labels: \<open>labs ! s\<close> is the word spelled by the path from state 0 to state \<open>s\<close>.
\<close>

section \<open>State labels\<close>

fun pos :: "'a list \<Rightarrow> 'a \<Rightarrow> nat" where
  "pos [] w = 0"
| "pos (x # xs) w = (if x = w then 0 else Suc (pos xs w))"

lemma pos_less [simp]: "w \<in> set xs \<Longrightarrow> pos xs w < length xs"
  by (induction xs) auto

lemma nth_pos [simp]: "w \<in> set xs \<Longrightarrow> xs ! pos xs w = w"
  by (induction xs) auto

lemma pos_nth [simp]: "distinct xs \<Longrightarrow> i < length xs \<Longrightarrow> pos xs (xs ! i) = i"
  by (induction xs arbitrary: i) (auto simp: nth_Cons split: nat.splits)

lemma pos_append_left [simp]: "w \<in> set xs \<Longrightarrow> pos (xs @ ys) w = pos xs w"
  by (induction xs) auto

lemma pos_snoc_new [simp]: "w \<notin> set xs \<Longrightarrow> pos (xs @ [w]) w = length xs"
  by (induction xs) auto

lemma pos_inj: "v \<in> set xs \<Longrightarrow> w \<in> set xs \<Longrightarrow> pos xs v = pos xs w \<Longrightarrow> v = w"
  by (metis nth_pos)

definition trans :: "string list \<Rightarrow> string \<Rightarrow> nat" where
  "trans labs w = (if w \<in> set labs then pos labs w else ACSM_FAIL_STATE)"

definition labels :: "string list \<Rightarrow> bool" where
  "labels labs \<longleftrightarrow> distinct labs \<and> labs \<noteq> [] \<and> hd labs = [] \<and>
     (\<forall>w c. w @ [c] \<in> set labs \<longrightarrow> w \<in> set labs)"

lemma labels_nth0: "labels labs \<Longrightarrow> labs ! 0 = []"
  by (auto simp: labels_def hd_conv_nth)

lemma labels_Nil_in: "labels labs \<Longrightarrow> [] \<in> set labs"
  using labels_def list.set_sel(1) by metis

lemma labels_pos_Nil: "labels labs \<Longrightarrow> pos labs [] = 0"
  by (cases labs) (auto simp: labels_def)

lemma labels_pos_eq_0: "labels labs \<Longrightarrow> w \<in> set labs \<Longrightarrow> pos labs w = 0 \<longleftrightarrow> w = []"
  using labels_pos_Nil labels_Nil_in pos_inj by metis

lemma labels_prefix_closed: "labels labs \<Longrightarrow> w @ v \<in> set labs \<Longrightarrow> w \<in> set labs"
proof (induction v rule: rev_induct)
  case (snoc c v)
  then have "(w @ v) @ [c] \<in> set labs" by simp
  with snoc.prems(1) have "w @ v \<in> set labs" unfolding labels_def by blast
  with snoc show ?case by simp
qed simp

lemma labels_snoc:
  assumes "labels labs" "w \<in> set labs" "w @ [c] \<notin> set labs"
  shows "labels (labs @ [w @ [c]])"
  using assms by (auto simp: labels_def)

section \<open>The trie invariant\<close>

definition trie_rel :: "acsm_struct \<Rightarrow> string list \<Rightarrow> bool" where
  "trie_rel a labs \<longleftrightarrow> labels labs \<and> length labs = Suc (acsmNumState a) \<and>
     length labs \<le> length (acsmStateTable a) \<and>
     length (acsmStateTable a) < ACSM_FAIL_STATE \<and>
     (\<forall>s < length labs. \<forall>c. NextState (acsmStateTable a ! s) c = trans labs (labs ! s @ [c])) \<and>
     (\<forall>s < length (acsmStateTable a). length labs \<le> s \<longrightarrow>
        NextState (acsmStateTable a ! s) = (\<lambda>_. ACSM_FAIL_STATE))"

text \<open>What the construction of the trie leaves alone.\<close>

definition same_frame :: "acsm_struct \<Rightarrow> acsm_struct \<Rightarrow> bool" where
  "same_frame a b \<longleftrightarrow> acsmPatterns b = acsmPatterns a \<and>
     map MatchList (acsmStateTable b) = map MatchList (acsmStateTable a) \<and>
     map FailState (acsmStateTable b) = map FailState (acsmStateTable a)"

lemma same_frame_refl [simp]: "same_frame a a"
  by (simp add: same_frame_def)

lemma same_frame_trans: "same_frame a b \<Longrightarrow> same_frame b c \<Longrightarrow> same_frame a c"
  by (simp add: same_frame_def)

lemma same_frame_length: "same_frame a b \<Longrightarrow> length (acsmStateTable b) = length (acsmStateTable a)"
  unfolding same_frame_def using map_eq_imp_length_eq by blast

lemma same_frame_MatchList:
  assumes "same_frame a b" and "s < length (acsmStateTable a)"
  shows "MatchList (acsmStateTable b ! s) = MatchList (acsmStateTable a ! s)"
  using assms same_frame_length [OF assms(1)] unfolding same_frame_def by (metis nth_map)

definition all_solid :: "acsm_struct \<Rightarrow> bool" where
  "all_solid a \<longleftrightarrow> (\<forall>st \<in> set (acsmStateTable a). flag st = SOLID_STATE)"

definition ascii :: "string \<Rightarrow> bool" where
  "ascii w \<longleftrightarrow> list_all (\<lambda>c. (of_char c :: nat) < 128) w"

lemma ascii_simps [simp]:
  "ascii []" "ascii (c # w) \<longleftrightarrow> (of_char c :: nat) < 128 \<and> ascii w"
  "ascii (v @ w) \<longleftrightarrow> ascii v \<and> ascii w"
  by (simp_all add: ascii_def)

lemma trie_rel_next:
  "trie_rel a labs \<Longrightarrow> s < length labs \<Longrightarrow>
     NextState (acsmStateTable a ! s) c = trans labs (labs ! s @ [c])"
  by (simp add: trie_rel_def)

lemma trans_eq_FAIL:
  assumes "trie_rel a labs"
  shows "trans labs w = ACSM_FAIL_STATE \<longleftrightarrow> w \<notin> set labs"
proof -
  have "pos labs w \<noteq> ACSM_FAIL_STATE" if "w \<in> set labs"
    using pos_less [OF that] assms by (auto simp: trie_rel_def)
  then show ?thesis by (auto simp: trans_def)
qed

text \<open>The first loop of \<^verbatim>\<open>AddPatternStates\<close> finds the longest prefix in the trie.\<close>

lemma match_existing_ok:
  assumes "trie_rel a labs" "s < length labs"
  shows "\<exists>s' u rest. match_existing a s cs = Some (s', rest) \<and> cs = u @ rest \<and>
           s' < length labs \<and> labs ! s' = labs ! s @ u \<and>
           (rest \<noteq> [] \<longrightarrow> labs ! s' @ [hd rest] \<notin> set labs)"
  using assms(2)
proof (induction cs arbitrary: s)
  case (Cons c cs)
  have s: "s < length (acsmStateTable a)" using assms(1) Cons.prems by (simp add: trie_rel_def)
  let ?w = "labs ! s @ [c]"
  have nx: "NextState (acsmStateTable a ! s) c = trans labs ?w"
    using assms(1) Cons.prems by (rule trie_rel_next)
  show ?case
  proof (cases "?w \<in> set labs")
    case True
    then have "pos labs ?w < length labs" by simp
    from Cons.IH [OF this] obtain s' u rest where IH:
      "match_existing a (pos labs ?w) cs = Some (s', rest)" "cs = u @ rest" "s' < length labs"
      "labs ! s' = labs ! pos labs ?w @ u" "rest \<noteq> [] \<longrightarrow> labs ! s' @ [hd rest] \<notin> set labs"
      by blast
    have "trans labs ?w \<noteq> ACSM_FAIL_STATE" using True trans_eq_FAIL [OF assms(1)] by simp
    then have "match_existing a s (c # cs) = Some (s', rest)"
      using s nx IH(1) True by (simp add: tget_def trans_def)
    moreover have "labs ! s' = labs ! s @ c # u" using IH(4) True by simp
    ultimately show ?thesis using IH by (intro exI [of _ s'] exI [of _ "c # u"] exI [of _ rest]) simp
  next
    case False
    then have "trans labs ?w = ACSM_FAIL_STATE" by (simp add: trans_def)
    then have "match_existing a s (c # cs) = Some (s, c # cs)" using s nx by (simp add: tget_def)
    with False Cons.prems show ?thesis
      by (intro exI [of _ s] exI [of _ "[]"] exI [of _ "c # cs"]) simp
  qed
qed simp

text \<open>One round of the second loop.\<close>

definition add_one :: "acsm_struct \<Rightarrow> nat \<Rightarrow> char \<Rightarrow> acsm_struct" where
  "add_one a s c =
     (let num = Suc (acsmNumState a);
          t1 = (acsmStateTable a)[s := (acsmStateTable a ! s)
                 \<lparr>NextState := (NextState (acsmStateTable a ! s))(c := num)\<rparr>];
          fl = (if 128 \<le> (of_char c :: nat) \<and> flag (acsmStateTable a ! s) = SOLID_STATE
                then VIRTUAL_STATE1 else SOLID_STATE)
      in a\<lparr>acsmNumState := num, acsmStateTable := t1[num := (t1 ! num)\<lparr>flag := fl\<rparr>]\<rparr>)"

lemma add_states_Cons:
  assumes "s < length (acsmStateTable a)" "Suc (acsmNumState a) < length (acsmStateTable a)"
    and "s \<noteq> Suc (acsmNumState a)" "length (acsmStateTable a) < ACSM_FAIL_STATE"
  shows "add_states a s (c # cs) = add_states (add_one a s c) (Suc (acsmNumState a)) cs"
  using assms
  by (auto simp: tset_def tget_def add_one_def Let_def ACSM_FAIL_STATE_def)

lemma trie_rel_add_one:
  assumes tr: "trie_rel a labs" and s: "s < length labs"
    and new: "labs ! s @ [c] \<notin> set labs" and room: "length labs < length (acsmStateTable a)"
  shows "trie_rel (add_one a s c) (labs @ [labs ! s @ [c]])"
proof -
  let ?t = "acsmStateTable a" and ?num = "Suc (acsmNumState a)" and ?L = "labs @ [labs ! s @ [c]]"
  let ?t' = "acsmStateTable (add_one a s c)"
  have lab: "labels labs" and num: "length labs = ?num" using tr by (auto simp: trie_rel_def)
  have sn: "s \<noteq> ?num" using s num by simp
  have lab': "labels ?L" using labels_snoc [OF lab _ new] s by simp
  have len: "length ?t' = length ?t" by (simp add: add_one_def Let_def)
  have ns: "NextState (?t' ! i) = (if i = s then (NextState (?t ! s))(c := ?num) else NextState (?t ! i))"
    if "i < length ?t" for i
    using that sn room num by (auto simp: add_one_def Let_def nth_list_update)
  have tr_eq: "trans ?L (labs ! i @ [d]) = (if i = s \<and> d = c then ?num else trans labs (labs ! i @ [d]))"
    if "i < length labs" for i d
  proof (cases "labs ! i @ [d] \<in> set labs")
    case True
    with new show ?thesis by (auto simp: trans_def)
  next
    case False
    have "labs ! i = labs ! s \<longleftrightarrow> i = s"
      using lab that s by (simp add: labels_def nth_eq_iff_index_eq)
    with False new num show ?thesis by (auto simp: trans_def)
  qed
  have old: "NextState (?t' ! i) d = trans ?L (?L ! i @ [d])" if "i < length labs" for i d
    using that ns [of i] room tr_eq [OF that] trie_rel_next [OF tr that]
    by (auto simp: nth_append)
  have fresh: "NextState (?t' ! i) = (\<lambda>_. ACSM_FAIL_STATE)" if "length labs \<le> i" "i < length ?t" for i
    using that ns [of i] s tr by (auto simp: trie_rel_def)
  have "(labs ! s @ [c]) @ [d] \<notin> set ?L" for d
  proof
    assume "(labs ! s @ [c]) @ [d] \<in> set ?L"
    then have "(labs ! s @ [c]) @ [d] \<in> set labs" by auto
    with lab new show False unfolding labels_def by blast
  qed
  then have last: "trans ?L (?L ! length labs @ [d]) = ACSM_FAIL_STATE" for d
    by (simp add: trans_def)
  show ?thesis
    unfolding trie_rel_def
  proof (intro conjI allI impI)
    show "NextState (?t' ! i) d = trans ?L (?L ! i @ [d])" if "i < length ?L" for i d
    proof (cases "i < length labs")
      case True
      then show ?thesis by (rule old)
    next
      case False
      with that have "i = length labs" by simp
      with fresh [of i] room last show ?thesis by simp
    qed
    show "NextState (?t' ! i) = (\<lambda>_. ACSM_FAIL_STATE)" if "i < length ?t'" "length ?L \<le> i" for i
      using that fresh [of i] len by simp
    show "length ?L = Suc (acsmNumState (add_one a s c))"
      using num by (simp add: add_one_def Let_def)
  qed (use lab' room len tr in \<open>simp_all add: trie_rel_def\<close>)
qed

lemma table_add_one:
  "acsmStateTable (add_one a s c) =
     (let num = Suc (acsmNumState a);
          t1 = (acsmStateTable a)[s := (acsmStateTable a ! s)
                 \<lparr>NextState := (NextState (acsmStateTable a ! s))(c := num)\<rparr>]
      in t1[num := (t1 ! num)\<lparr>flag :=
           (if 128 \<le> (of_char c :: nat) \<and> flag (acsmStateTable a ! s) = SOLID_STATE
            then VIRTUAL_STATE1 else SOLID_STATE)\<rparr>])"
  by (simp add: add_one_def Let_def)

lemma same_frame_add_one: "same_frame a (add_one a s c)"
  unfolding same_frame_def table_add_one Let_def
  by (simp add: map_update_same) (simp add: add_one_def Let_def)

lemma all_solid_add_one:
  assumes "all_solid a" "(of_char c :: nat) < 128"
  shows "all_solid (add_one a s c)"
proof -
  let ?fl = "if 128 \<le> (of_char c :: nat) \<and> flag (acsmStateTable a ! s) = SOLID_STATE
             then VIRTUAL_STATE1 else SOLID_STATE"
  let ?y = "(acsmStateTable a ! s)
     \<lparr>NextState := (NextState (acsmStateTable a ! s))(c := Suc (acsmNumState a))\<rparr>"
  have fl: "?fl = SOLID_STATE" using assms(2) by simp
  have all: "\<forall>st\<in>set (acsmStateTable a). flag st = SOLID_STATE"
    using assms(1) unfolding all_solid_def .
  have one: "\<forall>st\<in>set ((acsmStateTable a)[s := ?y]). flag st = SOLID_STATE"
  proof (cases "s < length (acsmStateTable a)")
    case True
    with all have "flag ?y = SOLID_STATE" by simp
    with all show ?thesis by (rule ball_list_update)
  next
    case False
    with all show ?thesis by (simp add: list_update_beyond)
  qed
  show ?thesis
    unfolding all_solid_def table_add_one Let_def fl
    by (rule ball_list_update [OF one]) simp
qed

lemma add_states_ok:
  assumes "trie_rel a labs" "s < length labs"
    and "rest \<noteq> [] \<longrightarrow> labs ! s @ [hd rest] \<notin> set labs"
    and "length labs + length rest \<le> length (acsmStateTable a)"
  shows "\<exists>a' s' labs'. add_states a s rest = Some (a', s') \<and> trie_rel a' labs' \<and>
     prefix labs labs' \<and> s' < length labs' \<and> labs' ! s' = labs ! s @ rest \<and>
     set labs' = set labs \<union> {labs ! s @ v | v. prefix v rest} \<and>
     length labs' = length labs + length rest \<and>
     same_frame a a' \<and> (all_solid a \<and> ascii rest \<longrightarrow> all_solid a')"
  using assms
proof (induction rest arbitrary: a s labs)
  case Nil
  then show ?case by (intro exI [of _ a] exI [of _ s] exI [of _ labs]) (auto simp: nth_mem)
next
  case (Cons c rest)
  let ?w = "labs ! s @ [c]" and ?a = "add_one a s c" and ?s = "Suc (acsmNumState a)"
  let ?L = "labs @ [?w]"
  have num: "length labs = ?s" and lt: "length (acsmStateTable a) < ACSM_FAIL_STATE"
    using Cons.prems(1) by (auto simp: trie_rel_def)
  have new: "?w \<notin> set labs" using Cons.prems(3) by simp
  have tr: "trie_rel ?a ?L"
    using Cons.prems new by (intro trie_rel_add_one) simp_all
  have step: "add_states a s (c # rest) = add_states ?a ?s rest"
    using Cons.prems num lt by (intro add_states_Cons) simp_all
  have new': "?w @ [d] \<notin> set ?L" for d
  proof
    assume "?w @ [d] \<in> set ?L"
    then have "?w @ [d] \<in> set labs" by auto
    with Cons.prems(1) new show False unfolding trie_rel_def labels_def by blast
  qed
  have at: "?L ! ?s = ?w" using num by (metis nth_append_length)
  have "\<exists>a' s' labs'. add_states ?a ?s rest = Some (a', s') \<and> trie_rel a' labs' \<and>
     prefix ?L labs' \<and> s' < length labs' \<and> labs' ! s' = ?L ! ?s @ rest \<and>
     set labs' = set ?L \<union> {?L ! ?s @ v | v. prefix v rest} \<and>
     length labs' = length ?L + length rest \<and>
     same_frame ?a a' \<and> (all_solid ?a \<and> ascii rest \<longrightarrow> all_solid a')"
    by (rule Cons.IH [OF tr])
       (use Cons.prems num at new' same_frame_length [OF same_frame_add_one] in simp_all)
  then obtain a' s' labs' where IH: "add_states ?a ?s rest = Some (a', s')" "trie_rel a' labs'"
     "prefix ?L labs'" "s' < length labs'" "labs' ! s' = ?w @ rest"
     "set labs' = set ?L \<union> {?w @ v | v. prefix v rest}" "length labs' = length ?L + length rest"
     "same_frame ?a a'" "all_solid ?a \<and> ascii rest \<longrightarrow> all_solid a'"
    unfolding at by blast
  have "set labs' = set labs \<union> {labs ! s @ v | v. prefix v (c # rest)}"
    unfolding IH(6) using Cons.prems(2) by (auto simp: prefix_Cons)
  moreover have "prefix labs labs'" using IH(3) by (meson append_prefixD)
  moreover have "same_frame a a'" using same_frame_add_one IH(8) by (rule same_frame_trans)
  moreover have "all_solid a \<and> ascii (c # rest) \<longrightarrow> all_solid a'"
    using all_solid_add_one IH(9) by simp
  ultimately show ?case using IH step
    by (intro exI [of _ a'] exI [of _ s'] exI [of _ labs']) simp
qed

section \<open>The keywords of the trie\<close>

definition wf_pattern :: "acsm_pattern \<Rightarrow> bool" where
  "wf_pattern p \<longleftrightarrow> n_cap p = length (patrn_cap p) \<and> NUL \<notin> set (patrn_cap p)"

lemma wf_pattern_strcmp:
  "wf_pattern p \<Longrightarrow> wf_pattern q \<Longrightarrow>
     strcmp_eq (patrn_cap p) (patrn_cap q) \<longleftrightarrow> patrn_cap p = patrn_cap q"
  by (simp add: wf_pattern_def strcmp_eq_def cstr_id)

text \<open>A state has a match list exactly when its label is a keyword, and then of that keyword.\<close>

definition match_rel :: "acsm_struct \<Rightarrow> string list \<Rightarrow> acsm_pattern list \<Rightarrow> bool" where
  "match_rel a labs ps \<longleftrightarrow>
     (\<forall>p\<in>set ps. patrn_cap p \<in> set labs) \<and>
     (\<forall>s < length (acsmStateTable a). MatchList (acsmStateTable a ! s) \<noteq> [] \<longleftrightarrow>
        s < length labs \<and> keyword ps (labs ! s)) \<and>
     (\<forall>s < length (acsmStateTable a). \<forall>m\<in>set (MatchList (acsmStateTable a ! s)).
        patrn_cap m = labs ! s \<and> wf_pattern m)"

lemma match_rel_frame:
  assumes "match_rel a labs ps" "same_frame a b" "prefix labs labs'" "distinct labs'"
  shows "match_rel b labs' ps"
proof -
  have len: "length (acsmStateTable b) = length (acsmStateTable a)"
    using assms(2) by (rule same_frame_length)
  obtain zs where L: "labs' = labs @ zs" using assms(3) by (auto simp: prefix_def)
  have mls: "MatchList (acsmStateTable b ! s) = MatchList (acsmStateTable a ! s)"
    if "s < length (acsmStateTable a)" for s
    using assms(2) that by (rule same_frame_MatchList)
  have in_labs: "patrn_cap p \<in> set labs" if "p \<in> set ps" for p
    using assms(1) that by (simp add: match_rel_def)
  have kw: "s < length labs' \<and> keyword ps (labs' ! s) \<longleftrightarrow> s < length labs \<and> keyword ps (labs ! s)" for s
  proof (cases "s < length labs")
    case True
    then show ?thesis by (simp add: L nth_append)
  next
    case False
    have "labs' ! s \<notin> set labs" if "s < length labs'"
      using that False assms(4) by (auto simp: L nth_append)
    then show ?thesis using False in_labs unfolding keyword_iff by metis
  qed
  have lab: "labs' ! s = labs ! s" if "MatchList (acsmStateTable a ! s) \<noteq> []" "s < length (acsmStateTable a)" for s
    using assms(1) that by (auto simp: match_rel_def L nth_append)
  show ?thesis
    unfolding match_rel_def len
    using assms(1) mls kw lab by (auto simp: match_rel_def L)
qed

lemma match_rel_solid0:
  assumes "match_rel a labs ps"
  shows "match_rel (a\<lparr>acsmStateTable := (acsmStateTable a)[0 := (acsmStateTable a ! 0)\<lparr>flag := f\<rparr>]\<rparr>) labs ps"
    (is "match_rel ?b labs ps")
proof -
  have "MatchList (acsmStateTable ?b ! s) = MatchList (acsmStateTable a ! s)"
    if "s < length (acsmStateTable a)" for s
    using that by (cases s) (simp_all add: nth_list_update)
  with assms show ?thesis by (simp add: match_rel_def)
qed

lemma trie_rel_solid0:
  assumes "trie_rel a labs"
  shows "trie_rel (a\<lparr>acsmStateTable := (acsmStateTable a)[0 := (acsmStateTable a ! 0)\<lparr>flag := f\<rparr>]\<rparr>) labs"
    (is "trie_rel ?b labs")
proof -
  have "NextState (acsmStateTable ?b ! s) = NextState (acsmStateTable a ! s)"
    if "s < length (acsmStateTable a)" for s
    using that by (cases s) (simp_all add: nth_list_update)
  with assms show ?thesis by (simp add: trie_rel_def)
qed

lemma AddMatchListEntry_ok:
  assumes tr: "trie_rel a labs" and mr: "match_rel a labs ps"
    and s: "s < length labs" "labs ! s = patrn_cap p" and wf: "wf_pattern p"
  shows "\<exists>a'. AddMatchListEntry a s p = Some a' \<and> trie_rel a' labs \<and> match_rel a' labs (ps @ [p]) \<and>
     acsmPatterns a' = acsmPatterns a \<and> map flag (acsmStateTable a') = map flag (acsmStateTable a) \<and>
     map FailState (acsmStateTable a') = map FailState (acsmStateTable a)"
proof -
  let ?t = "acsmStateTable a" and ?ms = "MatchList (acsmStateTable a ! s)"
  have lt: "s < length ?t" using tr s by (simp add: trie_rel_def)
  have dist: "distinct labs" using tr by (simp add: trie_rel_def labels_def)
  have inl: "patrn_cap p \<in> set labs" using s nth_mem by metis
  have ms: "m \<in> set ?ms \<Longrightarrow> patrn_cap m = patrn_cap p \<and> wf_pattern m" for m
    using mr lt s by (auto simp: match_rel_def)
  then have "\<forall>q\<in>set ?ms. strcmp_eq (patrn_cap p) (patrn_cap q)" by (simp add: strcmp_eq_def)
  then have dup: "list_ex (\<lambda>q. strcmp_eq (patrn_cap p) (patrn_cap q)) ?ms \<longleftrightarrow> ?ms \<noteq> []"
    unfolding list_ex_iff by (metis all_not_in_conv set_empty)
  have kw: "keyword (ps @ [p]) (labs ! i) \<longleftrightarrow> keyword ps (labs ! i) \<or> i = s" if "i < length labs" for i
    using s dist that by (auto simp: keyword_iff nth_eq_iff_index_eq)
  show ?thesis
  proof (cases "?ms = []")
    case False
    then have eq: "AddMatchListEntry a s p = Some a"
      using lt dup by (simp add: AddMatchListEntry_def tget_def)
    have "keyword ps (labs ! s)" using mr False lt by (auto simp: match_rel_def)
    then have "match_rel a labs (ps @ [p])"
      using mr s kw inl by (auto simp: match_rel_def)
    with eq tr show ?thesis by simp
  next
    case True
    let ?b = "a\<lparr>acsmStateTable := ?t[s := (?t ! s)\<lparr>MatchList := [p]\<rparr>]\<rparr>"
    have eq: "AddMatchListEntry a s p = Some ?b"
      using True lt dup by (simp add: AddMatchListEntry_def tget_def tset_def)
    have mls: "MatchList (acsmStateTable ?b ! i) = (if i = s then [p] else MatchList (?t ! i))"
      if "i < length ?t" for i
      using that lt by (simp add: nth_list_update)
    have NS: "NextState (acsmStateTable ?b ! i) = NextState (?t ! i)" if "i < length ?t" for i
      using that lt by (simp add: nth_list_update)
    have "trie_rel ?b labs" using tr NS by (simp add: trie_rel_def)
    moreover have "match_rel ?b labs (ps @ [p])"
      using mr mls s kw wf inl by (auto simp: match_rel_def keyword_iff)
    moreover have "map flag (acsmStateTable ?b) = map flag ?t"
      "map FailState (acsmStateTable ?b) = map FailState ?t"
      by (simp_all add: map_update_same)
    ultimately show ?thesis using eq by simp
  qed
qed

lemma all_solid_map: "map flag (acsmStateTable a') = map flag (acsmStateTable a) \<Longrightarrow> all_solid a \<Longrightarrow> all_solid a'"
  unfolding all_solid_def by (metis (no_types, lifting) image_iff list.set_map)

text \<open>One keyword added to the trie.\<close>

lemma AddPatternStates_ok:
  assumes tr: "trie_rel a labs" and mr: "match_rel a labs ps" and wf: "wf_pattern p"
    and room: "length labs + length (patrn_cap p) \<le> length (acsmStateTable a)"
  shows "\<exists>a' labs'. AddPatternStates p a = Some a' \<and> trie_rel a' labs' \<and>
     match_rel a' labs' (ps @ [p]) \<and>
     set labs' = set labs \<union> {v. prefix v (patrn_cap p)} \<and>
     length labs' \<le> length labs + length (patrn_cap p) \<and> acsmPatterns a' = acsmPatterns a \<and>
     map FailState (acsmStateTable a') = map FailState (acsmStateTable a) \<and>
     (all_solid a \<and> ascii (patrn_cap p) \<longrightarrow> all_solid a')"
proof -
  let ?t = "acsmStateTable a"
  let ?a0 = "a\<lparr>acsmStateTable := ?t[0 := (?t ! 0)\<lparr>flag := SOLID_STATE\<rparr>]\<rparr>"
  have pos: "0 < length ?t" and lab: "labels labs" and len0: "0 < length labs"
    using tr by (auto simp: trie_rel_def labels_def)
  have tr0: "trie_rel ?a0 labs" using tr by (rule trie_rel_solid0)
  have mr0: "match_rel ?a0 labs ps" using mr by (rule match_rel_solid0)
  from match_existing_ok [OF tr0 len0, of "patrn_cap p"] obtain s u rest where m:
    "match_existing ?a0 0 (patrn_cap p) = Some (s, rest)" "patrn_cap p = u @ rest"
    "s < length labs" "labs ! s = u" "rest \<noteq> [] \<longrightarrow> labs ! s @ [hd rest] \<notin> set labs"
    unfolding labels_nth0 [OF lab] append_Nil by blast
  have room': "length labs + length rest \<le> length (acsmStateTable ?a0)" using room m(2) by simp
  from add_states_ok [OF tr0 m(3) m(5) room'] obtain a1 s1 labs1 where ad:
    "add_states ?a0 s rest = Some (a1, s1)" "trie_rel a1 labs1" "prefix labs labs1"
    "s1 < length labs1" "labs1 ! s1 = patrn_cap p"
    "set labs1 = set labs \<union> {u @ v | v. prefix v rest}"
    "length labs1 = length labs + length rest" "same_frame ?a0 a1"
    "all_solid ?a0 \<and> ascii rest \<longrightarrow> all_solid a1"
    unfolding m(2) m(4) [symmetric] by metis
  have mr1: "match_rel a1 labs1 ps"
    using mr0 ad(8,3) by (rule match_rel_frame) (use ad(2) in \<open>simp add: trie_rel_def labels_def\<close>)
  from AddMatchListEntry_ok [OF ad(2) mr1 ad(4,5) wf] obtain a2 where e:
    "AddMatchListEntry a1 s1 p = Some a2" "trie_rel a2 labs1" "match_rel a2 labs1 (ps @ [p])"
    "acsmPatterns a2 = acsmPatterns a1" "map flag (acsmStateTable a2) = map flag (acsmStateTable a1)"
    "map FailState (acsmStateTable a2) = map FailState (acsmStateTable a1)" by blast
  have run: "AddPatternStates p a = Some a2"
    using pos m(1) ad(1) e(1) wf by (simp add: AddPatternStates_def tset_def wf_pattern_def)
  have "v \<in> set labs" if "prefix v u" for v
    using that labels_prefix_closed [OF lab] m(3,4) nth_mem by (metis prefixE)
  then have sets: "set labs1 = set labs \<union> {v. prefix v (patrn_cap p)}"
    unfolding ad(6) m(2) by (auto simp: prefix_append)
  have fail: "map FailState (acsmStateTable a2) = map FailState ?t"
    using e(6) ad(8) by (simp add: same_frame_def map_update_same)
  have sol: "all_solid a \<and> ascii (patrn_cap p) \<longrightarrow> all_solid a2"
  proof
    assume h: "all_solid a \<and> ascii (patrn_cap p)"
    then have "\<forall>st\<in>set ?t. flag st = SOLID_STATE" by (simp add: all_solid_def)
    then have "\<forall>st\<in>set (?t[0 := (?t ! 0)\<lparr>flag := SOLID_STATE\<rparr>]). flag st = SOLID_STATE"
      by (rule ball_list_update) simp
    then have "all_solid ?a0" by (simp add: all_solid_def)
    with ad(9) h m(2) have "all_solid a1" by simp
    with e(5) show "all_solid a2" by (rule all_solid_map)
  qed
  have "acsmPatterns a2 = acsmPatterns a" using e(4) ad(8) by (simp add: same_frame_def)
  moreover have "length labs1 \<le> length labs + length (patrn_cap p)" using ad(7) m(2) by simp
  ultimately show ?thesis using run e(2,3) sets fail sol by blast
qed

section \<open>The whole trie\<close>

definition words :: "acsm_pattern list \<Rightarrow> string set" where
  "words ps = {v. v = [] \<or> (\<exists>p\<in>set ps. prefix v (patrn_cap p))}"

lemma words_snoc: "words (ps @ [p]) = words ps \<union> {v. prefix v (patrn_cap p)}"
  by (auto simp: words_def)

definition keyword_bytes :: "acsm_pattern list \<Rightarrow> nat" where
  "keyword_bytes ps = sum_list (map (\<lambda>p. length (patrn_cap p)) ps)"

definition trie_inv :: "acsm_struct \<Rightarrow> acsm_pattern list \<Rightarrow> acsm_struct \<Rightarrow> bool" where
  "trie_inv a0 ps a \<longleftrightarrow> (\<exists>labs. trie_rel a labs \<and> match_rel a labs ps \<and> set labs = words ps \<and>
     length labs \<le> Suc (keyword_bytes ps)) \<and> acsmPatterns a = acsmPatterns a0 \<and>
     map FailState (acsmStateTable a) = map FailState (acsmStateTable a0) \<and>
     ((\<forall>p\<in>set ps. ascii (patrn_cap p)) \<longrightarrow> all_solid a)"

lemma trie_inv_step:
  assumes inv: "trie_inv a0 ps a" and wf: "wf_pattern p"
    and room: "Suc (keyword_bytes (ps @ [p])) \<le> length (acsmStateTable a0)"
  shows "\<exists>a'. AddPatternStates p a = Some a' \<and> trie_inv a0 (ps @ [p]) a'"
proof -
  from inv obtain labs where l: "trie_rel a labs" "match_rel a labs ps" "set labs = words ps"
    "length labs \<le> Suc (keyword_bytes ps)" by (auto simp: trie_inv_def)
  have "length (acsmStateTable a) = length (acsmStateTable a0)"
    using inv unfolding trie_inv_def using map_eq_imp_length_eq by blast
  with l(4) room have "length labs + length (patrn_cap p) \<le> length (acsmStateTable a)"
    by (simp add: keyword_bytes_def)
  from AddPatternStates_ok [OF l(1,2) wf this] obtain a' labs' where r:
    "AddPatternStates p a = Some a'" "trie_rel a' labs'" "match_rel a' labs' (ps @ [p])"
    "set labs' = set labs \<union> {v. prefix v (patrn_cap p)}"
    "length labs' \<le> length labs + length (patrn_cap p)" "acsmPatterns a' = acsmPatterns a"
    "map FailState (acsmStateTable a') = map FailState (acsmStateTable a)"
    "all_solid a \<and> ascii (patrn_cap p) \<longrightarrow> all_solid a'" by blast
  have "set labs' = words (ps @ [p])" using r(4) l(3) by (simp add: words_snoc)
  moreover have "length labs' \<le> Suc (keyword_bytes (ps @ [p]))"
    using r(5) l(4) by (simp add: keyword_bytes_def)
  ultimately have "trie_inv a0 (ps @ [p]) a'"
    using r inv unfolding trie_inv_def by auto
  with r(1) show ?thesis by blast
qed

lemma trie_build:
  assumes "trie_inv a0 [] a0" and "\<forall>p\<in>set ps. wf_pattern p"
    and "Suc (keyword_bytes ps) \<le> length (acsmStateTable a0)"
  shows "\<exists>a'. foldM AddPatternStates ps a0 = Some a' \<and> trie_inv a0 ps a'"
proof (rule foldM_rule)
  show "trie_inv a0 [] a0" by (rule assms(1))
next
  fix xs x ys s
  assume ps: "ps = xs @ x # ys" and inv: "trie_inv a0 xs s"
  show "\<exists>s'. AddPatternStates x s = Some s' \<and> trie_inv a0 (xs @ [x]) s'"
    using inv by (rule trie_inv_step) (use assms ps in \<open>simp_all add: keyword_bytes_def\<close>)
qed

text \<open>The table \<^verbatim>\<open>acsmCompile_cap\<close> allocates: state 0 and no transitions.\<close>

lemma trie_init:
  assumes "0 < n" "n < ACSM_FAIL_STATE" "acsmStateTable a = replicate n zero_state"
    and "acsmNumState a = 0"
  shows "trie_inv a [] a"
proof -
  have "trie_rel a [[]]"
    using assms by (auto simp: trie_rel_def labels_def trans_def zero_state_def)
  moreover have "match_rel a [[]] []"
    using assms by (simp add: match_rel_def zero_state_def keyword_def)
  ultimately show ?thesis
    using assms by (auto simp: trie_inv_def words_def keyword_bytes_def all_solid_def zero_state_def
      SOLID_STATE_def intro!: exI [of _ "[[]]"])
qed

end
