(* ===== verification/Acsm_Dfa.thy ===== *)
theory Acsm_Dfa
  imports Acsm_Trie
begin

text \<open>
  The second phase of \<^verbatim>\<open>acsmCompile_cap\<close>: \<^verbatim>\<open>Build_DFA\<close> completes the transitions and sets
  the failure links by a breadth-first walk over the trie. The cells \<open>(w, c)\<close> of the
  transition table that are final are tracked in a set \<open>D\<close>, the words whose failure link
  is set in a set \<open>F\<close>.
\<close>

section \<open>Transition and failure function on words\<close>

definition delta :: "string list \<Rightarrow> string \<Rightarrow> char \<Rightarrow> string" where
  "delta labs w c = lsuf (\<lambda>v. v \<in> set labs) (w @ [c])"

definition failw :: "string list \<Rightarrow> string \<Rightarrow> string" where
  "failw labs w = lsuf (\<lambda>v. v \<in> set labs) (tl w)"

lemma delta_in [simp]: "labels labs \<Longrightarrow> delta labs w c \<in> set labs"
  unfolding delta_def by (rule lsuf_sat) (rule labels_Nil_in)

lemma failw_in [simp]: "labels labs \<Longrightarrow> failw labs w \<in> set labs"
  unfolding failw_def by (rule lsuf_sat) (rule labels_Nil_in)

lemma failw_shorter: "w \<noteq> [] \<Longrightarrow> length (failw labs w) < length w"
  unfolding failw_def by (rule lsuf_tl_shorter)

lemma delta_child: "w @ [c] \<in> set labs \<Longrightarrow> delta labs w c = w @ [c]"
  unfolding delta_def by (rule lsuf_id)

lemma delta_snoc:
  assumes "labels labs"
  shows "delta labs (lsuf (\<lambda>v. v \<in> set labs) w) c = lsuf (\<lambda>v. v \<in> set labs) (w @ [c])"
  unfolding delta_def by (rule lsuf_snoc) (use assms in \<open>auto simp: labels_def\<close>)

lemma delta_fail:
  assumes "labels labs" "w \<noteq> []" "w @ [c] \<notin> set labs"
  shows "delta labs (failw labs w) c = delta labs w c"
proof -
  have "delta labs (failw labs w) c = lsuf (\<lambda>v. v \<in> set labs) (tl w @ [c])"
    unfolding failw_def using assms(1) by (rule delta_snoc)
  also have "\<dots> = delta labs w c"
    unfolding delta_def using assms(2,3) lsuf_not [of "\<lambda>v. v \<in> set labs" "w @ [c]"] by simp
  finally show ?thesis .
qed

lemma failw_child:
  assumes "labels labs" "w \<noteq> []"
  shows "failw labs (w @ [c]) = delta labs (failw labs w) c"
proof -
  have "delta labs (failw labs w) c = lsuf (\<lambda>v. v \<in> set labs) (tl w @ [c])"
    unfolding failw_def using assms(1) by (rule delta_snoc)
  then show ?thesis using assms(2) by (simp add: failw_def)
qed

lemma delta_root: "labels labs \<Longrightarrow> delta labs [] c = (if [c] \<in> set labs then [c] else [])"
  by (simp add: delta_def)

section \<open>The table invariant\<close>

definition dfa_rel :: "string list \<Rightarrow> (string \<times> char) set \<Rightarrow> string set \<Rightarrow> acsm_struct \<Rightarrow> bool" where
  "dfa_rel labs D F a \<longleftrightarrow> labels labs \<and> length labs \<le> length (acsmStateTable a) \<and>
     length (acsmStateTable a) < 2147483648 \<and>
     (\<forall>w\<in>set labs. \<forall>c. NextState (acsmStateTable a ! pos labs w) c =
        (if (w, c) \<in> D then pos labs (delta labs w c) else trans labs (w @ [c]))) \<and>
     (\<forall>w\<in>F. w \<in> set labs \<and> FailState (acsmStateTable a ! pos labs w) = pos labs (failw labs w))"

definition dfa_frame :: "acsm_struct \<Rightarrow> acsm_struct \<Rightarrow> bool" where
  "dfa_frame a b \<longleftrightarrow> acsmPatterns b = acsmPatterns a \<and>
     map MatchList (acsmStateTable b) = map MatchList (acsmStateTable a) \<and>
     map flag (acsmStateTable b) = map flag (acsmStateTable a)"

lemma dfa_frame_refl [simp]: "dfa_frame a a"
  by (simp add: dfa_frame_def)

lemma dfa_frame_trans: "dfa_frame a b \<Longrightarrow> dfa_frame b c \<Longrightarrow> dfa_frame a c"
  by (simp add: dfa_frame_def)

lemma dfa_frame_length: "dfa_frame a b \<Longrightarrow> length (acsmStateTable b) = length (acsmStateTable a)"
  unfolding dfa_frame_def using map_eq_imp_length_eq by blast

lemma dfa_rel_labels: "dfa_rel labs D F a \<Longrightarrow> labels labs"
  by (simp add: dfa_rel_def)

lemma dfa_rel_lt: "dfa_rel labs D F a \<Longrightarrow> w \<in> set labs \<Longrightarrow> pos labs w < length (acsmStateTable a)"
  unfolding dfa_rel_def by (meson order_less_le_trans pos_less)

lemma dfa_rel_pos_FAIL: "dfa_rel labs D F a \<Longrightarrow> w \<in> set labs \<Longrightarrow> pos labs w \<noteq> ACSM_FAIL_STATE"
  using dfa_rel_lt [of labs D F a w] by (auto simp: dfa_rel_def ACSM_FAIL_STATE_def)

lemma dfa_rel_next:
  "dfa_rel labs D F a \<Longrightarrow> w \<in> set labs \<Longrightarrow> NextState (acsmStateTable a ! pos labs w) c =
     (if (w, c) \<in> D then pos labs (delta labs w c) else trans labs (w @ [c]))"
  by (simp add: dfa_rel_def)

lemma dfa_rel_fail:
  "dfa_rel labs D F a \<Longrightarrow> w \<in> F \<Longrightarrow> FailState (acsmStateTable a ! pos labs w) = pos labs (failw labs w)"
  by (simp add: dfa_rel_def)

text \<open>Setting one final transition.\<close>

lemma dfa_rel_set_next:
  assumes rel: "dfa_rel labs D F a" and w: "w \<in> set labs"
  shows "\<exists>b. tset a (pos labs w) (\<lambda>st. st\<lparr>NextState := (NextState st)(c := pos labs (delta labs w c))\<rparr>) = Some b \<and>
     dfa_rel labs (insert (w, c) D) F b \<and> dfa_frame a b"
proof -
  let ?t = "acsmStateTable a" and ?i = "pos labs w"
  let ?y = "(?t ! ?i)\<lparr>NextState := (NextState (?t ! ?i))(c := pos labs (delta labs w c))\<rparr>"
  let ?b = "a\<lparr>acsmStateTable := ?t[?i := ?y]\<rparr>"
  have lt: "?i < length ?t" using dfa_rel_lt rel w .
  have nx: "NextState (?t[?i := ?y] ! pos labs v) =
      (if v = w then (NextState (?t ! ?i))(c := pos labs (delta labs w c)) else NextState (?t ! pos labs v))"
    if "v \<in> set labs" for v
    using that w lt pos_inj [OF that w] by (auto simp: nth_list_update)
  have fl: "FailState (?t[?i := ?y] ! j) = FailState (?t ! j)" if "j < length ?t" for j
    using that lt by (simp add: nth_list_update)
  have "dfa_rel labs (insert (w, c) D) F ?b"
    unfolding dfa_rel_def
  proof (intro conjI ballI allI)
    show "NextState (acsmStateTable ?b ! pos labs v) d =
        (if (v, d) \<in> insert (w, c) D then pos labs (delta labs v d) else trans labs (v @ [d]))"
      if "v \<in> set labs" for v d
      using nx [OF that] dfa_rel_next [OF rel that, of d] by auto
    show "FailState (acsmStateTable ?b ! pos labs v) = pos labs (failw labs v)" if "v \<in> F" for v
      using rel that fl [of "pos labs v"] dfa_rel_lt [OF rel] by (auto simp: dfa_rel_def)
  qed (use rel in \<open>auto simp: dfa_rel_def\<close>)
  moreover have "dfa_frame a ?b"
    unfolding dfa_frame_def by (simp add: map_update_same)
  moreover have "tset a ?i (\<lambda>st. st\<lparr>NextState := (NextState st)(c := pos labs (delta labs w c))\<rparr>) = Some ?b"
    using lt by (simp add: tset_def)
  ultimately show ?thesis by blast
qed

text \<open>Setting one failure link.\<close>

lemma dfa_rel_set_fail:
  assumes rel: "dfa_rel labs D F a" and w: "w \<in> set labs" and n: "n = pos labs (failw labs w)"
  shows "\<exists>b. tset a (pos labs w) (\<lambda>st. st\<lparr>FailState := n\<rparr>) = Some b \<and>
     dfa_rel labs D (insert w F) b \<and> dfa_frame a b"
proof -
  let ?t = "acsmStateTable a" and ?i = "pos labs w"
  let ?y = "(?t ! ?i)\<lparr>FailState := n\<rparr>"
  let ?b = "a\<lparr>acsmStateTable := ?t[?i := ?y]\<rparr>"
  have lt: "?i < length ?t" using dfa_rel_lt rel w .
  have nx: "NextState (?t[?i := ?y] ! j) = NextState (?t ! j)" if "j < length ?t" for j
    using that lt by (simp add: nth_list_update)
  have fl: "FailState (?t[?i := ?y] ! pos labs v) = (if v = w then n else FailState (?t ! pos labs v))"
    if "v \<in> set labs" for v
    using that w lt pos_inj [OF that w] by (auto simp: nth_list_update)
  have "dfa_rel labs D (insert w F) ?b"
    unfolding dfa_rel_def
  proof (intro conjI ballI allI)
    show "NextState (acsmStateTable ?b ! pos labs v) d =
        (if (v, d) \<in> D then pos labs (delta labs v d) else trans labs (v @ [d]))"
      if "v \<in> set labs" for v d
      using nx [OF dfa_rel_lt [OF rel that]] dfa_rel_next [OF rel that, of d] by simp
    show "FailState (acsmStateTable ?b ! pos labs v) = pos labs (failw labs v)" if "v \<in> insert w F" for v
      using rel that fl [of v] w n by (auto simp: dfa_rel_def)
  qed (use rel w in \<open>auto simp: dfa_rel_def\<close>)
  moreover have "dfa_frame a ?b"
    unfolding dfa_frame_def by (simp add: map_update_same)
  moreover have "tset a ?i (\<lambda>st. st\<lparr>FailState := n\<rparr>) = Some ?b"
    using lt by (simp add: tset_def)
  ultimately show ?thesis by blast
qed

lemma dfa_rel_insert_child:
  assumes rel: "dfa_rel labs D F a" and "w @ [c] \<in> set labs"
  shows "dfa_rel labs (insert (w, c) D) F a"
  using assms delta_child [OF assms(2)] by (auto simp: dfa_rel_def trans_def)

section \<open>One transition\<close>

lemma dfa_cell_ok:
  assumes rel: "dfa_rel labs D F a" and r: "r \<in> set labs" "r \<noteq> []" "(r, i) \<notin> D" "r \<in> F"
    and known: "(failw labs r, i) \<in> D" and that: "r' = pos labs r"
  shows "\<exists>b. dfa_cell r' i (a, q) = Some (b, if r @ [i] \<in> set labs then queue_add q (pos labs (r @ [i])) else q) \<and>
     dfa_rel labs (insert (r, i) D) (if r @ [i] \<in> set labs then insert (r @ [i]) F else F) b \<and> dfa_frame a b"
proof -
  note lab = dfa_rel_labels [OF rel]
  let ?t = "acsmStateTable a" and ?f = "failw labs r"
  have tr: "tget a r' = Some (?t ! pos labs r)"
    using dfa_rel_lt [OF rel r(1)] that by (simp add: tget_def)
  have fs: "FailState (?t ! pos labs r) = pos labs ?f" using rel r(4) by (rule dfa_rel_fail)
  have tf: "tget a (pos labs ?f) = Some (?t ! pos labs ?f)"
    using dfa_rel_lt [OF rel failw_in [OF lab]] by (simp add: tget_def)
  have nf: "NextState (?t ! pos labs ?f) i = pos labs (delta labs ?f i)"
    using dfa_rel_next [OF rel failw_in [OF lab]] known by simp
  have nr: "NextState (?t ! pos labs r) i = trans labs (r @ [i])"
    using dfa_rel_next [OF rel r(1)] r(3) by simp
  show ?thesis
  proof (cases "r @ [i] \<in> set labs")
    case True
    let ?s = "pos labs (r @ [i])"
    have s: "NextState (?t ! pos labs r) i = ?s" and nF: "?s \<noteq> ACSM_FAIL_STATE"
      using nr True dfa_rel_pos_FAIL [OF rel True] by (simp_all add: trans_def)
    obtain n where n: "length ?t = Suc n" using dfa_rel_lt [OF rel r(1)] by (cases "length ?t") auto
    have "locate_next (length ?t) a (pos labs ?f) i = Some (pos labs (delta labs ?f i))"
      using tf nf dfa_rel_pos_FAIL [OF rel delta_in [OF lab]] by (simp add: n)
    moreover from dfa_rel_set_fail [OF rel True] failw_child [OF lab r(2), of i] obtain b where b:
      "tset a ?s (\<lambda>st. st\<lparr>FailState := pos labs (delta labs ?f i)\<rparr>) = Some b"
      "dfa_rel labs D (insert (r @ [i]) F) b" "dfa_frame a b" by metis
    ultimately have "dfa_cell r' i (a, q) = Some (b, queue_add q ?s)"
      using tr s nF fs by (simp add: dfa_cell_def Let_def)
    with b dfa_rel_insert_child [OF b(2) True] True show ?thesis by auto
  next
    case False
    have FL: "NextState (?t ! pos labs r) i = ACSM_FAIL_STATE" using nr False by (simp add: trans_def)
    have d: "pos labs (delta labs ?f i) = pos labs (delta labs r i)"
      using delta_fail [OF lab r(2) False] by simp
    from dfa_rel_set_next [OF rel r(1), of i] obtain b where b:
      "tset a (pos labs r) (\<lambda>st. st\<lparr>NextState := (NextState st)(i := pos labs (delta labs r i))\<rparr>) = Some b"
      "dfa_rel labs (insert (r, i) D) F b" "dfa_frame a b" by blast
    have "dfa_cell r' i (a, q) = Some (b, q)"
      using tr FL fs tf nf d b(1) that by (simp add: dfa_cell_def Let_def)
    with b False show ?thesis by auto
  qed
qed

section \<open>The breadth-first walk\<close>

definition qrel :: "string list \<Rightarrow> string list \<Rightarrow> queue \<Rightarrow> bool" where
  "qrel labs Q q \<longleftrightarrow> qnodes q = map (pos labs) Q \<and> qcount q = length Q"

lemma qrel_add:
  assumes "qrel labs Q q" "Suc (length Q) < 2147483648"
  shows "qrel labs (Q @ [w]) (queue_add q (pos labs w))"
  using assms by (simp add: qrel_def queue_add_def)

lemma qrel_count: "qrel labs Q q \<Longrightarrow> length Q < 2147483648 \<Longrightarrow> queue_count q = int (length Q)"
  by (simp add: qrel_def queue_count_def to_int32_def)

lemma qrel_remove:
  assumes "qrel labs (w # Q) q" "Suc (length Q) < 2147483648"
  shows "\<exists>q'. queue_remove q = (q', pos labs w) \<and> qrel labs Q q'"
proof -
  have "wrap32 (Suc (length Q) + 4294967295) = length Q"
    using assms(2) by (simp add: wrap32_def)
  with assms(1) show ?thesis by (auto simp: qrel_def queue_remove_def)
qed

definition kids :: "string list \<Rightarrow> string \<Rightarrow> char list \<Rightarrow> string list" where
  "kids labs r cs = map (\<lambda>c. r @ [c]) (filter (\<lambda>c. r @ [c] \<in> set labs) cs)"

lemma kids_simps [simp]:
  "kids labs r [] = []"
  "kids labs r (cs @ [c]) = kids labs r cs @ (if r @ [c] \<in> set labs then [r @ [c]] else [])"
  by (simp_all add: kids_def)

lemma set_kids: "set (kids labs r cs) = {r @ [c] | c. c \<in> set cs \<and> r @ [c] \<in> set labs}"
  by (auto simp: kids_def)

lemma distinct_kids: "distinct cs \<Longrightarrow> distinct (kids labs r cs)"
  by (auto simp: kids_def distinct_map inj_on_def)

lemma length_distinct_labels:
  "distinct Q \<Longrightarrow> set Q \<subseteq> set labs \<Longrightarrow> length Q \<le> length labs"
  by (metis card_length card_mono distinct_card finite_set order_trans)

text \<open>The loop over the alphabet for the state of word \<open>r\<close>.\<close>

definition row_inv ::
  "string list \<Rightarrow> string set \<Rightarrow> string \<Rightarrow> string list \<Rightarrow> acsm_struct \<Rightarrow> char list \<Rightarrow> acsm_struct \<times> queue \<Rightarrow> bool" where
  "row_inv labs P r Q a0 cs = (\<lambda>(a, q).
     dfa_rel labs (P \<times> UNIV \<union> {r} \<times> set cs) (P \<union> set (r # Q) \<union> set (kids labs r cs)) a \<and>
     qrel labs (Q @ kids labs r cs) q \<and> dfa_frame a0 a)"

lemma row_step:
  assumes inv: "row_inv labs P r Q a0 xs s" and al: "alphabet = xs @ x # ys"
    and r: "r \<in> set labs" "r \<noteq> []" "r \<notin> P" and f: "failw labs r \<in> P"
    and Q: "distinct (Q @ kids labs r alphabet)" "set Q \<subseteq> set labs"
  shows "\<exists>s'. dfa_cell (pos labs r) x s = Some s' \<and> row_inv labs P r Q a0 (xs @ [x]) s'"
proof -
  obtain a q where s: "s = (a, q)" by (cases s)
  let ?D = "P \<times> UNIV \<union> {r} \<times> set xs" and ?F = "P \<union> set (r # Q) \<union> set (kids labs r xs)"
  have rel: "dfa_rel labs ?D ?F a" and qr: "qrel labs (Q @ kids labs r xs) q" and fr: "dfa_frame a0 a"
    using inv by (auto simp: row_inv_def s)
  have "x \<notin> set xs" using al distinct_alphabet by (metis distinct_append not_distinct_conv_prefix)
  with r have nin: "(r, x) \<notin> ?D" by auto
  from dfa_cell_ok [OF rel r(1,2) nin, of "pos labs r" q] f obtain b where b:
    "dfa_cell (pos labs r) x (a, q) =
       Some (b, if r @ [x] \<in> set labs then queue_add q (pos labs (r @ [x])) else q)"
    "dfa_rel labs (insert (r, x) ?D) (if r @ [x] \<in> set labs then insert (r @ [x]) ?F else ?F) b"
    "dfa_frame a b" by auto
  have D: "insert (r, x) ?D = P \<times> UNIV \<union> {r} \<times> set (xs @ [x])" by auto
  have F: "(if r @ [x] \<in> set labs then insert (r @ [x]) ?F else ?F) =
      P \<union> set (r # Q) \<union> set (kids labs r (xs @ [x]))" by auto
  have "qrel labs (Q @ kids labs r (xs @ [x]))
      (if r @ [x] \<in> set labs then queue_add q (pos labs (r @ [x])) else q)"
  proof (cases "r @ [x] \<in> set labs")
    case True
    have "kids labs r alphabet = kids labs r (xs @ [x]) @ kids labs r ys"
      unfolding al by (simp add: kids_def)
    with Q(1) have "distinct (Q @ kids labs r (xs @ [x]))" by auto
    moreover have "set (Q @ kids labs r (xs @ [x])) \<subseteq> set labs" using Q(2) by (auto simp: set_kids)
    ultimately have "length (Q @ kids labs r (xs @ [x])) \<le> length labs" by (rule length_distinct_labels)
    also have "length labs < 2147483648" using rel by (simp add: dfa_rel_def)
    finally have "Suc (length (Q @ kids labs r xs)) < 2147483648" using True by simp
    with qr qrel_add [OF qr, of "r @ [x]"] True show ?thesis by simp
  qed (use qr in simp)
  then have "row_inv labs P r Q a0 (xs @ [x])
      (b, if r @ [x] \<in> set labs then queue_add q (pos labs (r @ [x])) else q)"
    using b(2) dfa_frame_trans [OF fr b(3)] unfolding row_inv_def D F by simp
  with b(1) show ?thesis unfolding s by blast
qed

definition bfs :: "string list \<Rightarrow> string set \<Rightarrow> string list \<Rightarrow> acsm_struct \<Rightarrow> bool" where
  "bfs labs P Q a \<longleftrightarrow> dfa_rel labs (P \<times> UNIV) (P \<union> set Q) a \<and> distinct Q \<and> set Q \<inter> P = {} \<and>
     set Q \<subseteq> set labs \<and> P \<subseteq> set labs \<and> [] \<in> P \<and>
     (\<forall>w \<in> P \<union> set Q. w \<noteq> [] \<longrightarrow> butlast w \<in> P) \<and>
     sorted (map length Q) \<and> (\<forall>q\<in>set Q. length q \<le> Suc (length (hd Q))) \<and>
     (\<forall>w \<in> set labs. w \<in> P \<or> (\<exists>q\<in>set Q. prefix q w))"

lemma bfs_fail_done:
  assumes "bfs labs P (r # Q) a"
  shows "failw labs r \<in> P"
proof (rule ccontr)
  assume n: "failw labs r \<notin> P"
  have lab: "labels labs" using assms by (auto simp: bfs_def dfa_rel_def)
  have "r \<noteq> []" using assms by (auto simp: bfs_def)
  from n assms lab obtain q where q: "q \<in> set (r # Q)" "prefix q (failw labs r)"
    unfolding bfs_def by (meson failw_in)
  have "length r \<le> length q" using assms q(1) by (auto simp: bfs_def)
  moreover have "length q \<le> length (failw labs r)" using q(2) by (rule prefix_length_le)
  ultimately show False using failw_shorter [OF \<open>r \<noteq> []\<close>, of labs] by simp
qed

lemma bfs_next:
  assumes b: "bfs labs P (r # Q) a"
    and rel: "dfa_rel labs (insert r P \<times> UNIV) (insert r P \<union> set (Q @ kids labs r alphabet)) a'"
  shows "bfs labs (insert r P) (Q @ kids labs r alphabet) a'"
proof -
  let ?K = "kids labs r alphabet"
  have rP: "r \<notin> P" and par: "\<And>w. w \<in> P \<union> set (r # Q) \<Longrightarrow> w \<noteq> [] \<Longrightarrow> butlast w \<in> P"
    using b by (auto simp: bfs_def)
  have K: "set ?K = {r @ [c] | c. r @ [c] \<in> set labs}" by (auto simp: set_kids)
  have fresh: "r @ [c] \<notin> P \<union> set (r # Q)" for c
    using par [of "r @ [c]"] rP by auto
  have dist: "distinct (Q @ ?K)"
    using b fresh by (auto simp: bfs_def K distinct_kids)
  have disj: "set (Q @ ?K) \<inter> insert r P = {}"
    using b fresh by (auto simp: bfs_def K)
  have ge: "length q \<le> Suc (length r)" "length r \<le> length q" if "q \<in> set Q" for q
    using b that by (auto simp: bfs_def)
  have "sorted (map length Q)" using b by (simp add: bfs_def)
  moreover have "sorted (map length ?K)" by (simp add: kids_def o_def map_replicate_const)
  ultimately have srt: "sorted (map length (Q @ ?K))"
    using ge by (auto simp: sorted_append K)
  have two: "length q \<le> Suc (length (hd (Q @ ?K)))" if "q \<in> set (Q @ ?K)" for q
  proof (cases Q)
    case Nil
    with that have "?K \<noteq> []" by auto
    then have "hd ?K \<in> set ?K" by (rule hd_in_set)
    with Nil that show ?thesis by (auto simp: K)
  next
    case (Cons x xs)
    with that ge show ?thesis by (fastforce simp: K)
  qed
  have cover: "w \<in> insert r P \<or> (\<exists>q\<in>set (Q @ ?K). prefix q w)" if w: "w \<in> set labs" for w
  proof (cases "prefix r w \<and> w \<noteq> r")
    case True
    then obtain zs where zs: "w = r @ zs" "zs \<noteq> []" by (auto simp: prefix_def)
    then obtain c v where "w = (r @ [c]) @ v" by (cases zs) auto
    moreover from \<open>w = (r @ [c]) @ v\<close> w b have "r @ [c] \<in> set labs"
      using labels_prefix_closed unfolding bfs_def dfa_rel_def by metis
    then have "r @ [c] \<in> set (Q @ ?K)" by (auto simp: K)
    ultimately show ?thesis by (metis prefixI)
  next
    case False
    with b w show ?thesis by (auto simp: bfs_def)
  qed
  show ?thesis
    unfolding bfs_def
    using rel dist disj srt two cover b par by (auto simp: bfs_def K)
qed

lemma bfs_step:
  assumes b: "bfs labs P (r # Q) a" and q: "qrel labs Q q"
  shows "\<exists>a' q'. foldM (dfa_cell (pos labs r)) alphabet (a, q) = Some (a', q') \<and>
     bfs labs (insert r P) (Q @ kids labs r alphabet) a' \<and>
     qrel labs (Q @ kids labs r alphabet) q' \<and> dfa_frame a a'"
proof -
  let ?K = "kids labs r alphabet"
  have r: "r \<in> set labs" "r \<noteq> []" "r \<notin> P" using b by (auto simp: bfs_def)
  have f: "failw labs r \<in> P" using b by (rule bfs_fail_done)
  have par: "\<And>w. w \<in> P \<union> set (r # Q) \<Longrightarrow> w \<noteq> [] \<Longrightarrow> butlast w \<in> P"
    using b by (auto simp: bfs_def)
  have "r @ [c] \<notin> set Q" for c using par [of "r @ [c]"] r(3) by auto
  then have Q: "distinct (Q @ ?K)" "set Q \<subseteq> set labs"
    using b by (auto simp: bfs_def set_kids distinct_kids)
  have "\<exists>s'. foldM (dfa_cell (pos labs r)) alphabet (a, q) = Some s' \<and> row_inv labs P r Q a alphabet s'"
  proof (rule foldM_rule)
    show "row_inv labs P r Q a [] (a, q)" using b q by (simp add: row_inv_def bfs_def)
    show "\<exists>s'. dfa_cell (pos labs r) x s = Some s' \<and> row_inv labs P r Q a (xs @ [x]) s'"
      if "alphabet = xs @ x # ys" "row_inv labs P r Q a xs s" for xs x ys s
      using that(2,1) r f Q by (rule row_step)
  qed
  then obtain a' q' where s: "foldM (dfa_cell (pos labs r)) alphabet (a, q) = Some (a', q')"
    "row_inv labs P r Q a alphabet (a', q')" by (metis surj_pair)
  have D: "P \<times> UNIV \<union> {r} \<times> set alphabet = insert r P \<times> UNIV" by auto
  have F: "P \<union> set (r # Q) \<union> set ?K = insert r P \<union> set (Q @ ?K)" by auto
  have "dfa_rel labs (insert r P \<times> UNIV) (insert r P \<union> set (Q @ ?K)) a'"
    using s(2) unfolding row_inv_def D F by simp
  from bfs_next [OF b this] s show ?thesis by (auto simp: row_inv_def)
qed

lemma bfs_empty: "bfs labs P [] a \<Longrightarrow> P = set labs"
  by (auto simp: bfs_def)

lemma dfa_loop_done:
  assumes "bfs labs P [] a" "qrel labs [] q"
  shows "dfa_loop fuel (a, q) = Some (a, q) \<and> dfa_rel labs (set labs \<times> UNIV) (set labs) a"
proof -
  have "P = set labs" using assms(1) by (rule bfs_empty)
  moreover have "queue_count q = 0" using qrel_count [OF assms(2)] by simp
  ultimately show ?thesis using assms(1) by (simp add: bfs_def)
qed

lemma dfa_loop_ok:
  assumes "bfs labs P Q a" "qrel labs Q q" "card (set labs - P) \<le> fuel"
  shows "\<exists>a' q'. dfa_loop fuel (a, q) = Some (a', q') \<and>
     dfa_rel labs (set labs \<times> UNIV) (set labs) a' \<and> dfa_frame a a' \<and> qrel labs [] q'"
  using assms
proof (induction fuel arbitrary: P Q a q)
  case (0 P Q a q)
  have "set labs \<subseteq> P" using 0(3) by simp
  moreover have "set Q \<subseteq> set labs" "set Q \<inter> P = {}" "P \<subseteq> set labs" using 0(1) by (simp_all add: bfs_def)
  ultimately have "set Q = {}" by (metis Int_absorb2 order_trans)
  then have "Q = []" by simp
  with 0(1,2) dfa_loop_done [of labs P a q 0] show ?case by auto
next
  case (Suc fuel P Q a q)
  show ?case
  proof (cases Q)
    case Nil
    with Suc.prems(1,2) dfa_loop_done [of labs P a q "Suc fuel"] show ?thesis by auto
  next
    case (Cons r Q')
    have lab: "length labs < 2147483648" and dist: "distinct Q" "set Q \<subseteq> set labs"
      using Suc.prems(1) by (auto simp: bfs_def dfa_rel_def)
    have "length Q \<le> length labs" using dist by (rule length_distinct_labels)
    with lab have len: "length Q < 2147483648" by simp
    have cnt: "queue_count q > 0"
      using qrel_count [OF Suc.prems(2) len] Cons by simp
    from qrel_remove [of labs r Q' q] Suc.prems(2) Cons len obtain q1 where q1:
      "queue_remove q = (q1, pos labs r)" "qrel labs Q' q1" by auto
    from bfs_step [OF Suc.prems(1) [unfolded Cons] q1(2)] obtain a2 q2 where st:
      "foldM (dfa_cell (pos labs r)) alphabet (a, q1) = Some (a2, q2)"
      "bfs labs (insert r P) (Q' @ kids labs r alphabet) a2"
      "qrel labs (Q' @ kids labs r alphabet) q2" "dfa_frame a a2" by blast
    have "r \<in> set labs - P" using Suc.prems(1) Cons by (auto simp: bfs_def)
    then have "card (set labs - insert r P) < card (set labs - P)"
      by (intro psubset_card_mono) auto
    with Suc.prems(3) have "card (set labs - insert r P) \<le> fuel" by simp
    from Suc.IH [OF st(2,3) this] obtain a' q' where IH:
      "dfa_loop fuel (a2, q2) = Some (a', q')" "dfa_rel labs (set labs \<times> UNIV) (set labs) a'"
      "dfa_frame a2 a'" "qrel labs [] q'" by blast
    have "dfa_loop (Suc fuel) (a, q) = Some (a', q')" using cnt q1(1) st(1) IH(1) by simp
    with IH dfa_frame_trans [OF st(4)] show ?thesis by blast
  qed
qed

section \<open>The transitions of state 0\<close>

lemma root_default_ok:
  assumes rel: "dfa_rel labs {} {} a"
  shows "\<exists>b. foldM root_default alphabet a = Some b \<and> dfa_rel labs ({[]} \<times> UNIV) {} b \<and>
     dfa_frame a b \<and> map FailState (acsmStateTable b) = map FailState (acsmStateTable a)"
proof -
  let ?I = "\<lambda>cs b. dfa_rel labs ({[]} \<times> set cs) {} b \<and> dfa_frame a b \<and>
     map FailState (acsmStateTable b) = map FailState (acsmStateTable a)"
  have "\<exists>b. foldM root_default alphabet a = Some b \<and> ?I alphabet b"
  proof (rule foldM_rule)
    show "?I [] a" using rel by simp
    fix cs x ys s
    assume al: "alphabet = cs @ x # ys" and I: "?I cs s"
    note rel = conjunct1 [OF I] and lab = dfa_rel_labels [OF conjunct1 [OF I]]
    have nil: "[] \<in> set labs" "pos labs [] = 0" using lab labels_Nil_in labels_pos_Nil by auto
    have lt: "0 < length (acsmStateTable s)" using dfa_rel_lt [OF rel nil(1)] nil(2) by simp
    have "x \<notin> set cs" using al distinct_alphabet by (metis distinct_append not_distinct_conv_prefix)
    then have nx: "NextState (acsmStateTable s ! 0) x = trans labs [x]"
      using dfa_rel_next [OF rel nil(1), of x] nil(2) by simp
    have D: "insert ([], x) ({[]} \<times> set cs) = {[]} \<times> set (cs @ [x])" by auto
    show "\<exists>s'. root_default x s = Some s' \<and> ?I (cs @ [x]) s'"
    proof (cases "[x] \<in> set labs")
      case True
      then have "NextState (acsmStateTable s ! 0) x \<noteq> ACSM_FAIL_STATE"
        using nx dfa_rel_pos_FAIL [OF rel True] by (simp add: trans_def)
      then have "root_default x s = Some s" using lt by (simp add: root_default_def tget_def)
      moreover have "dfa_rel labs ({[]} \<times> set (cs @ [x])) {} s"
        unfolding D [symmetric] using dfa_rel_insert_child [OF rel, of "[]" x] True by simp
      ultimately show ?thesis using I by blast
    next
      case False
      then have FL: "NextState (acsmStateTable s ! 0) x = ACSM_FAIL_STATE" using nx by (simp add: trans_def)
      have d: "pos labs (delta labs [] x) = 0" using False lab nil(2) by (simp add: delta_root)
      from dfa_rel_set_next [OF rel nil(1), of x] obtain b where b:
        "tset s 0 (\<lambda>st. st\<lparr>NextState := (NextState st)(x := 0)\<rparr>) = Some b"
        "dfa_rel labs ({[]} \<times> set (cs @ [x])) {} b" "dfa_frame s b"
        unfolding nil(2) d D by blast
      have "b = s\<lparr>acsmStateTable := (acsmStateTable s)[0 := (acsmStateTable s ! 0)
          \<lparr>NextState := (NextState (acsmStateTable s ! 0))(x := 0)\<rparr>]\<rparr>"
        using b(1) lt by (simp add: tset_def)
      then have "map FailState (acsmStateTable b) = map FailState (acsmStateTable s)"
        by (simp add: map_update_same)
      moreover have "root_default x s = Some b" using lt FL b(1) by (simp add: root_default_def tget_def)
      ultimately show ?thesis using b I dfa_frame_trans by auto
    qed
  qed
  then show ?thesis by simp
qed

lemma root_cells_ok:
  assumes rel: "dfa_rel labs ({[]} \<times> UNIV) {} a" and z: "FailState (acsmStateTable a ! 0) = 0"
  shows "\<exists>b q. foldM root_cell alphabet (a, queue_init) = Some (b, q) \<and>
     bfs labs {[]} (kids labs [] alphabet) b \<and> qrel labs (kids labs [] alphabet) q \<and> dfa_frame a b"
proof -
  let ?I = "\<lambda>cs (b, q). dfa_rel labs ({[]} \<times> UNIV) ({[]} \<union> set (kids labs [] cs)) b \<and>
     qrel labs (kids labs [] cs) q \<and> dfa_frame a b"
  note lab = dfa_rel_labels [OF rel]
  have nil: "[] \<in> set labs" "pos labs [] = 0" using lab labels_Nil_in labels_pos_Nil by auto
  have "\<exists>s. foldM root_cell alphabet (a, queue_init) = Some s \<and> ?I alphabet s"
  proof (rule foldM_rule)
    show "?I [] (a, queue_init)"
      using rel z nil by (simp add: dfa_rel_def qrel_def queue_init_def failw_def)
    fix cs x ys s
    assume al: "alphabet = cs @ x # ys" and I: "?I cs s"
    obtain c q where s: "s = (c, q)" by (cases s)
    have rl: "dfa_rel labs ({[]} \<times> UNIV) ({[]} \<union> set (kids labs [] cs)) c"
      and qr: "qrel labs (kids labs [] cs) q" and fr: "dfa_frame a c" using I by (auto simp: s)
    have lt: "0 < length (acsmStateTable c)" using dfa_rel_lt [OF rl nil(1)] nil(2) by simp
    have nx: "NextState (acsmStateTable c ! 0) x = pos labs (delta labs [] x)"
      using dfa_rel_next [OF rl nil(1), of x] nil(2) by simp
    show "\<exists>s'. root_cell x s = Some s' \<and> ?I (cs @ [x]) s'"
    proof (cases "[x] \<in> set labs")
      case True
      have n0: "pos labs [x] \<noteq> 0" using labels_pos_eq_0 [OF lab True] by simp
      have zero: "0 = pos labs (failw labs [x])" using nil(2) by (simp add: failw_def)
      from dfa_rel_set_fail [OF rl True zero] obtain b where b:
        "tset c (pos labs [x]) (\<lambda>st. st\<lparr>FailState := 0\<rparr>) = Some b"
        "dfa_rel labs ({[]} \<times> UNIV) (insert [x] ({[]} \<union> set (kids labs [] cs))) b"
        "dfa_frame c b" by blast
      have nxt: "NextState (acsmStateTable c ! 0) x = pos labs [x]"
        using nx lab True by (simp add: delta_root)
      have run: "root_cell x (c, q) = Some (b, queue_add q (pos labs [x]))"
        using lt nxt n0 b(1) by (simp add: root_cell_def tget_def Let_def)
      have "length (kids labs [] (cs @ [x])) \<le> length labs"
      proof (rule length_distinct_labels)
        have "distinct (cs @ [x])" using al distinct_alphabet
          by (metis append.assoc append_Cons append_Nil distinct_append)
        then show "distinct (kids labs [] (cs @ [x]))" by (rule distinct_kids)
      qed (auto simp: set_kids)
      also have "length labs < 2147483648" using rl by (simp add: dfa_rel_def)
      finally have "qrel labs (kids labs [] (cs @ [x])) (queue_add q (pos labs [x]))"
        using qrel_add [OF qr, of "[x]"] True by simp
      moreover have "insert [x] ({[]} \<union> set (kids labs [] cs)) = {[]} \<union> set (kids labs [] (cs @ [x]))"
        using True by auto
      ultimately show ?thesis using run b(2) dfa_frame_trans [OF fr b(3)] by (auto simp: s)
    next
      case False
      have "NextState (acsmStateTable c ! 0) x = 0" using nx False lab nil by (simp add: delta_root)
      then have "root_cell x (c, q) = Some (c, q)"
        using lt by (simp add: root_cell_def tget_def Let_def)
      with False rl qr fr show ?thesis by (auto simp: s)
    qed
  qed
  then obtain b q where s: "foldM root_cell alphabet (a, queue_init) = Some (b, q)"
    and rl: "dfa_rel labs ({[]} \<times> UNIV) ({[]} \<union> set (kids labs [] alphabet)) b"
    and qr: "qrel labs (kids labs [] alphabet) q" and fr: "dfa_frame a b" by auto
  let ?K = "kids labs [] alphabet"
  have K: "set ?K = {[c] | c. [c] \<in> set labs}" by (auto simp: set_kids)
  have cover: "w = [] \<or> (\<exists>q\<in>set ?K. prefix q w)" if "w \<in> set labs" for w
  proof (cases w)
    case (Cons c v)
    with that have "[c] @ v \<in> set labs" by simp
    then have "[c] \<in> set labs" by (rule labels_prefix_closed [OF lab])
    with Cons show ?thesis by (force simp: K prefix_Cons)
  qed simp
  have len1: "length q = 1" if "q \<in> set ?K" for q using that by (auto simp: K)
  have "distinct ?K" by (rule distinct_kids) simp
  moreover have "sorted (map length ?K)" by (simp add: kids_def o_def map_replicate_const)
  ultimately have "bfs labs {[]} ?K b"
    unfolding bfs_def using rl nil(1) cover by (auto simp: K)
  with s qr fr show ?thesis by blast
qed

end
