(* ===== verification/Acsm_Correct.thy ===== *)
theory Acsm_Correct
  imports Acsm_Dfa
begin

text \<open>
  The matcher as a whole: \<^verbatim>\<open>acsmCompile_cap\<close> terminates without leaving the table it
  allocates and gives an automaton that represents the keyword list (\<open>compiled\<close>), and
  \<^verbatim>\<open>acsmSearch_cap\<close> on such an automaton implements \<open>first_match\<close>.
\<close>

section \<open>The compiled automaton\<close>

definition pkey :: "acsm_pattern \<Rightarrow> string \<times> nat \<times> nat" where
  "pkey p = (patrn_cap p, n_cap p, urlflag p)"

text \<open>The keyword list up to the match counters, which searches change.\<close>

definition same_keywords :: "acsm_pattern list \<Rightarrow> acsm_pattern list \<Rightarrow> bool" where
  "same_keywords ps qs \<longleftrightarrow> map pkey ps = map pkey qs"

definition compiled :: "acsm_pattern list \<Rightarrow> acsm_struct \<Rightarrow> bool" where
  "compiled ps a \<longleftrightarrow> same_keywords (acsmPatterns a) ps \<and>
     (\<exists>labs. set labs = words ps \<and> dfa_rel labs (set labs \<times> UNIV) (set labs) a \<and>
        match_rel a labs ps) \<and>
     ((\<forall>p\<in>set ps. ascii (patrn_cap p)) \<longrightarrow> all_solid a)"

lemma foldl_max_state:
  assumes "\<forall>p\<in>set ps. wf_pattern p" "m + keyword_bytes ps < 4294967296"
  shows "foldl (\<lambda>m p. wrap32 (m + n_cap p)) m ps = m + keyword_bytes ps"
  using assms
  by (induction ps arbitrary: m) (simp_all add: keyword_bytes_def wf_pattern_def)

lemma match_rel_dfa_frame:
  assumes "match_rel a labs ps" "dfa_frame a b"
  shows "match_rel b labs ps"
proof -
  have "MatchList (acsmStateTable b ! s) = MatchList (acsmStateTable a ! s)"
    if "s < length (acsmStateTable a)" for s
    using assms(2) that dfa_frame_length [OF assms(2)] unfolding dfa_frame_def by (metis nth_map)
  with assms(1) dfa_frame_length [OF assms(2)] show ?thesis by (simp add: match_rel_def)
qed

lemma trie_rel_dfa_rel:
  assumes "trie_rel a labs" "length (acsmStateTable a) < 2147483648"
  shows "dfa_rel labs {} {} a"
proof -
  have "NextState (acsmStateTable a ! pos labs w) c = trans labs (w @ [c])" if "w \<in> set labs" for w c
    using trie_rel_next [OF assms(1), of "pos labs w" c] that by simp
  with assms show ?thesis by (simp add: dfa_rel_def trie_rel_def)
qed

lemma Build_DFA_ok:
  assumes rel: "dfa_rel labs ({[]} \<times> UNIV) {} a" and z: "FailState (acsmStateTable a ! 0) = 0"
  shows "\<exists>b. Build_DFA a = Some b \<and> dfa_rel labs (set labs \<times> UNIV) (set labs) b \<and> dfa_frame a b"
proof -
  from root_cells_ok [OF rel z] obtain b q where b:
    "foldM root_cell alphabet (a, queue_init) = Some (b, q)"
    "bfs labs {[]} (kids labs [] alphabet) b" "qrel labs (kids labs [] alphabet) q" "dfa_frame a b"
    by blast
  have "card (set labs - {[]}) \<le> length labs"
    by (meson card_length card_mono Diff_subset finite_set order_trans)
  also have "\<dots> \<le> length (acsmStateTable a)" using rel by (simp add: dfa_rel_def)
  finally have "card (set labs - {[]}) \<le> length (acsmStateTable a)" .
  from dfa_loop_ok [OF b(2,3) this] obtain c q' where c:
    "dfa_loop (length (acsmStateTable a)) (b, q) = Some (c, q')"
    "dfa_rel labs (set labs \<times> UNIV) (set labs) c" "dfa_frame b c" "qrel labs [] q'" by blast
  have "queue_count q' = 0" "qnodes q' = []"
    using qrel_count [OF c(4)] c(4) by (simp_all add: qrel_def)
  then have "Build_DFA a = Some c" using b(1) c(1) by (simp add: Build_DFA_def)
  with c dfa_frame_trans [OF b(4)] show ?thesis by blast
qed

lemma compile_ok:
  assumes wf: "\<forall>p\<in>set (acsmPatterns a). wf_pattern p"
    and small: "Suc (keyword_bytes (acsmPatterns a)) < 2147483648"
  shows "\<exists>b. acsmCompile_cap a = Some b \<and> compiled (acsmPatterns a) b \<and> acsmPatterns b = acsmPatterns a"
proof -
  let ?ps = "acsmPatterns a" and ?n = "Suc (keyword_bytes (acsmPatterns a))"
  let ?a0 = "a\<lparr>acsmMaxState := ?n, acsmStateTable := replicate ?n zero_state, acsmNumState := 0\<rparr>"
  have max: "foldl (\<lambda>m p. wrap32 (m + n_cap p)) 1 ?ps = ?n"
    using foldl_max_state [OF wf, of 1] small by simp
  have compile: "acsmCompile_cap a =
      foldM AddPatternStates ?ps ?a0 \<bind> (\<lambda>a1. foldM root_default alphabet a1 \<bind> Build_DFA)"
    unfolding acsmCompile_cap_def Let_def max ..
  have "trie_inv ?a0 [] ?a0"
    by (rule trie_init [of ?n]) (use small in \<open>simp_all add: ACSM_FAIL_STATE_def\<close>)
  from trie_build [OF this wf] obtain a1 where a1:
    "foldM AddPatternStates ?ps ?a0 = Some a1" "trie_inv ?a0 ?ps a1" by auto
  from a1(2) obtain labs where l: "trie_rel a1 labs" "match_rel a1 labs ?ps" "set labs = words ?ps"
    by (auto simp: trie_inv_def)
  have F: "map FailState (acsmStateTable a1) = replicate ?n 0"
    using a1(2) by (simp add: trie_inv_def zero_state_def)
  then have "length (acsmStateTable a1) = ?n" by (metis length_map length_replicate)
  then have rel: "dfa_rel labs {} {} a1" using trie_rel_dfa_rel [OF l(1)] small by simp
  from root_default_ok [OF rel] obtain a2 where a2: "foldM root_default alphabet a1 = Some a2"
    "dfa_rel labs ({[]} \<times> UNIV) {} a2" "dfa_frame a1 a2"
    "map FailState (acsmStateTable a2) = map FailState (acsmStateTable a1)" by blast
  have "FailState (acsmStateTable a2 ! 0) = map FailState (acsmStateTable a2) ! 0"
    using a2(4) F by (intro nth_map [symmetric]) (metis length_map length_replicate zero_less_Suc)
  then have z: "FailState (acsmStateTable a2 ! 0) = 0" using a2(4) F by simp
  from Build_DFA_ok [OF a2(2) z] obtain b where b: "Build_DFA a2 = Some b"
    "dfa_rel labs (set labs \<times> UNIV) (set labs) b" "dfa_frame a2 b" by blast
  have fr: "dfa_frame a1 b" using a2(3) b(3) by (rule dfa_frame_trans)
  have pats: "acsmPatterns b = ?ps" using fr a1(2) by (simp add: dfa_frame_def trie_inv_def)
  have sol: "all_solid b" if "\<forall>p\<in>set ?ps. ascii (patrn_cap p)"
    using that a1(2) fr all_solid_map [of b a1] by (simp add: trie_inv_def dfa_frame_def)
  have "compiled ?ps b"
    unfolding compiled_def
    using pats sol b(2) l(3) match_rel_dfa_frame [OF l(2) fr] by (auto simp: same_keywords_def)
  moreover have "acsmCompile_cap a = Some b"
    unfolding compile a1(1) using a2(1) b(1) by simp
  ultimately show ?thesis using pats by blast
qed

section \<open>Reporting a match\<close>

lemma same_keywords_flag_of: "same_keywords ps qs \<Longrightarrow> flag_of ps w = flag_of qs w"
proof -
  have "map pkey ps = map pkey qs \<Longrightarrow> flag_of ps w = flag_of qs w"
  proof (induction ps arbitrary: qs)
    case (Cons p ps)
    then show ?case by (cases qs) (auto simp: pkey_def)
  qed simp
  then show "same_keywords ps qs \<Longrightarrow> ?thesis" by (simp add: same_keywords_def)
qed

lemma same_keywords_wf:
  assumes "same_keywords ps qs" "\<forall>p\<in>set qs. wf_pattern p"
  shows "\<forall>p\<in>set ps. wf_pattern p"
proof
  fix p assume "p \<in> set ps"
  then have "pkey p \<in> set (map pkey qs)" using assms(1) by (metis same_keywords_def image_eqI list.set_map)
  then obtain q where "q \<in> set qs" "pkey q = pkey p" by auto
  with assms(2) show "wf_pattern p" by (auto simp: pkey_def wf_pattern_def)
qed

lemma PrintMatch_ok:
  assumes "\<forall>p\<in>set ps. wf_pattern p" "wf_pattern m"
  shows "\<exists>qs nf'. PrintMatch ps m nf = (qs, nf', flag_of ps (patrn_cap m)) \<and> same_keywords qs ps"
  using assms(1)
proof (induction ps)
  case Nil
  then show ?case by (simp add: same_keywords_def)
next
  case (Cons p ps)
  then obtain qs nf' where "PrintMatch ps m nf = (qs, nf', flag_of ps (patrn_cap m))" "same_keywords qs ps"
    by auto
  then show ?case
    using Cons.prems assms(2) by (auto simp: wf_pattern_strcmp same_keywords_def pkey_def)
qed

definition same_matcher :: "acsm_struct \<Rightarrow> acsm_struct \<Rightarrow> bool" where
  "same_matcher a b \<longleftrightarrow> acsmStateTable b = acsmStateTable a \<and>
     same_keywords (acsmPatterns b) (acsmPatterns a)"

lemma same_matcher_refl [simp]: "same_matcher a a"
  by (simp add: same_matcher_def same_keywords_def)

lemma compiled_same_matcher: "compiled ps a \<Longrightarrow> same_matcher a b \<Longrightarrow> compiled ps b"
  unfolding compiled_def same_matcher_def same_keywords_def dfa_rel_def match_rel_def all_solid_def
  by simp

lemma print_once_ok:
  assumes "compiled ps a" "\<forall>p\<in>set ps. wf_pattern p" "wf_pattern m"
  shows "\<exists>b nf'. print_once a m nf = (b, nf', flag_of ps (patrn_cap m)) \<and> same_matcher a b"
proof -
  have sk: "same_keywords (acsmPatterns a) ps" using assms(1) by (simp add: compiled_def)
  from PrintMatch_ok [OF same_keywords_wf [OF sk assms(2)] assms(3), of nf] obtain qs nf' where
    "PrintMatch (acsmPatterns a) m nf = (qs, nf', flag_of (acsmPatterns a) (patrn_cap m))"
    "same_keywords qs (acsmPatterns a)" by blast
  then show ?thesis
    using same_keywords_flag_of [OF sk] by (simp add: print_once_def same_matcher_def)
qed

lemma print_twice_ok:
  assumes "compiled ps a" "\<forall>p\<in>set ps. wf_pattern p" "wf_pattern m"
  shows "\<exists>b nf'. print_twice a m nf = (b, nf', flag_of ps (patrn_cap m)) \<and> same_matcher a b"
proof -
  from print_once_ok [OF assms, of nf] obtain b nf1 where b:
    "print_once a m nf = (b, nf1, flag_of ps (patrn_cap m))" "same_matcher a b" by blast
  from print_once_ok [OF compiled_same_matcher [OF assms(1) b(2)] assms(2,3), of nf1] obtain c nf2 where
    "print_once b m nf1 = (c, nf2, flag_of ps (patrn_cap m))" "same_matcher b c" by blast
  with b show ?thesis by (simp add: print_twice_def same_matcher_def same_keywords_def)
qed

section \<open>The failure walk\<close>

lemma labels_depth:
  assumes "labels labs" "w \<in> set labs"
  shows "length w < length labs"
proof -
  have "set (prefixes w) \<subseteq> set labs"
    using labels_prefix_closed [OF assms(1)] assms(2) by (auto simp: prefix_def)
  then have "length (prefixes w) \<le> length labs"
    by (intro length_distinct_labels distinct_prefixes)
  then show ?thesis by simp
qed

lemma match_rel_MatchList:
  assumes "match_rel a labs ps" "w \<in> set labs" "pos labs w < length (acsmStateTable a)"
  shows "MatchList (acsmStateTable a ! pos labs w) \<noteq> [] \<longleftrightarrow> keyword ps w"
    and "m \<in> set (MatchList (acsmStateTable a ! pos labs w)) \<Longrightarrow> patrn_cap m = w \<and> wf_pattern m"
  using assms by (auto simp: match_rel_def)

lemma keyword_in_words: "keyword ps w \<Longrightarrow> w \<in> words ps"
  by (auto simp: keyword_iff words_def)

text \<open>The walk from the state of \<open>w\<close> finds the longest keyword that is a suffix of \<open>w\<close>.\<close>

lemma fail_walk_ok:
  assumes rel: "dfa_rel labs D (set labs) a" and mr: "match_rel a labs ps" and sol: "all_solid a"
    and W: "set labs = words ps" and ne: "\<not> keyword ps []"
    and w: "w \<in> set labs" and fuel: "length w \<le> fuel"
  shows "\<exists>ms. fail_walk fuel a (pos labs w) = Some ms \<and>
     (case ms of [] \<Rightarrow> lsuf (keyword ps) w = []
      | m # _ \<Rightarrow> lsuf (keyword ps) w = patrn_cap m \<and> patrn_cap m \<noteq> [] \<and> wf_pattern m)"
  using w fuel
proof (induction fuel arbitrary: w)
  case (0 w)
  then show ?case using labels_pos_Nil [OF dfa_rel_labels [OF rel]] by simp
next
  case (Suc fuel w)
  note lab = dfa_rel_labels [OF rel]
  show ?case
  proof (cases "w = []")
    case True
    then show ?thesis using labels_pos_Nil [OF lab] by simp
  next
    case False
    let ?st = "acsmStateTable a ! pos labs w"
    have p0: "pos labs w \<noteq> 0" using labels_pos_eq_0 [OF lab Suc.prems(1)] False by simp
    have lt: "pos labs w < length (acsmStateTable a)" using dfa_rel_lt [OF rel Suc.prems(1)] .
    have fl: "flag ?st = SOLID_STATE" using sol lt by (simp add: all_solid_def)
    note mls = match_rel_MatchList [OF mr Suc.prems(1) lt]
    show ?thesis
    proof (cases "keyword ps w")
      case True
      with mls(1) obtain m ms where ms: "MatchList ?st = m # ms" by (cases "MatchList ?st") auto
      have "fail_walk (Suc fuel) a (pos labs w) = Some (m # ms)"
        using p0 lt fl ms by (simp add: tget_def)
      moreover have "patrn_cap m = w \<and> wf_pattern m" using mls(2) ms by simp
      ultimately show ?thesis using lsuf_id [of "keyword ps" w] True False by simp
    next
      case nk: False
      have "FailState ?st = pos labs (failw labs w)" using rel Suc.prems(1) by (rule dfa_rel_fail)
      then have step: "fail_walk (Suc fuel) a (pos labs w) = fail_walk fuel a (pos labs (failw labs w))"
        using p0 lt nk mls(1) by (simp add: tget_def)
      have len: "length (failw labs w) \<le> fuel" using failw_shorter [OF False, of labs] Suc.prems(2) by simp
      have "lsuf (keyword ps) (failw labs w) = lsuf (keyword ps) w"
        unfolding failw_def by (rule lsuf_fail) (use keyword_in_words W nk in auto)
      with Suc.IH [OF failw_in [OF lab] len] show ?thesis unfolding step by (simp only:)
    qed
  qed
qed

section \<open>The search\<close>

lemma search_loop_ok:
  assumes comp: "compiled ps a" and wf: "\<forall>p\<in>set ps. wf_pattern p"
    and asc: "\<forall>p\<in>set ps. ascii (patrn_cap p)" and ne: "\<forall>p\<in>set ps. patrn_cap p \<noteq> []"
    and labs: "set labs = words ps" "dfa_rel labs (set labs \<times> UNIV) (set labs) a" "match_rel a labs ps"
    and u: "ascii u" "NUL \<notin> set u" and s: "s = pos labs (lsuf (\<lambda>v. v \<in> set labs) t)"
  shows "\<exists>b nf'. search_loop a nf s u =
       Some (b, nf', case first_match ps t u of None \<Rightarrow> 0 | Some w \<Rightarrow> flag_of ps w) \<and> same_matcher a b"
  using u s
proof (induction u arbitrary: s t)
  case (Cons c u)
  note lab = dfa_rel_labels [OF labs(2)]
  let ?W = "\<lambda>v. v \<in> set labs" and ?T = "acsmStateTable a" and ?K = "keyword ps"
  let ?v = "lsuf ?W t" and ?v' = "lsuf ?W (t @ [c])"
  have sol: "all_solid a" using comp asc by (simp add: compiled_def)
  have nk: "\<not> ?K []" using ne by (auto simp: keyword_iff)
  have v: "?v \<in> set labs" using labels_Nil_in [OF lab] lsuf_sat [of ?W t] by simp
  have v': "?v' \<in> set labs" using labels_Nil_in [OF lab] lsuf_sat [of ?W "t @ [c]"] by simp
  have ts: "tget a s = Some (?T ! pos labs ?v)"
    using dfa_rel_lt [OF labs(2) v] Cons.prems(3) by (simp add: tget_def)
  have nx: "NextState (?T ! pos labs ?v) c = pos labs ?v'"
    using dfa_rel_next [OF labs(2) v, of c] delta_snoc [OF lab, of t c] v by simp
  have lt': "pos labs ?v' < length ?T" using dfa_rel_lt [OF labs(2) v'] .
  then have ts': "tget a (pos labs ?v') = Some (?T ! pos labs ?v')" by (simp add: tget_def)
  note mls = match_rel_MatchList [OF labs(3) v' lt']
  have kw: "lsuf ?K ?v' = lsuf ?K (t @ [c])"
    by (rule lsuf_lsuf) (use keyword_in_words labs(1) in auto)
  have c: "c \<noteq> NUL" "(of_char c :: nat) < 128" using Cons.prems by auto
  show ?case
  proof (cases "?K ?v'")
    case True
    with mls(1) obtain m ms where ms: "MatchList (?T ! pos labs ?v') = m # ms"
      by (cases "MatchList (?T ! pos labs ?v')") auto
    have m: "patrn_cap m = ?v'" "wf_pattern m" using mls(2) ms by auto
    have "first_match ps t (c # u) = Some ?v'"
      using kw lsuf_id [of ?K ?v'] True nk by (auto simp: Let_def)
    moreover have "search_loop a nf s (c # u) = Some (print_twice a m nf)"
      using c ts nx ts' ms by (simp add: Let_def)
    ultimately show ?thesis using print_twice_ok [OF comp wf m(2), of nf] m(1) by auto
  next
    case False
    have none: "MatchList (?T ! pos labs ?v') = []" using mls(1) False by blast
    have fs: "FailState (?T ! pos labs ?v') = pos labs (failw labs ?v')"
      using labs(2) v' by (rule dfa_rel_fail)
    have "length (failw labs ?v') < length labs" using labels_depth [OF lab] lab by simp
    then have fuel: "length (failw labs ?v') \<le> length ?T" using labs(2) by (simp add: dfa_rel_def)
    from fail_walk_ok [OF labs(2,3) sol labs(1) nk failw_in [OF lab] fuel] obtain ms where ms:
      "fail_walk (length ?T) a (pos labs (failw labs ?v')) = Some ms"
      "case ms of [] \<Rightarrow> lsuf ?K (failw labs ?v') = []
       | m # _ \<Rightarrow> lsuf ?K (failw labs ?v') = patrn_cap m \<and> patrn_cap m \<noteq> [] \<and> wf_pattern m"
      by blast
    have same: "lsuf ?K (failw labs ?v') = lsuf ?K (t @ [c])"
      unfolding failw_def using lsuf_fail [of ?K ?W ?v'] keyword_in_words labs(1) False kw by auto
    have run: "search_loop a nf s (c # u) =
        (case ms of m # _ \<Rightarrow> Some (print_once a m nf) | [] \<Rightarrow> search_loop a nf (pos labs ?v') u)"
      using c ts nx ts' none fs ms(1) by (simp add: Let_def del: fail_walk.simps)
    show ?thesis
    proof (cases ms)
      case Nil
      with ms(2) same have "first_match ps t (c # u) = first_match ps (t @ [c]) u" by (simp add: Let_def)
      with run Nil Cons.IH [of "pos labs ?v'" "t @ [c]"] Cons.prems show ?thesis by auto
    next
      case (Cons m ms')
      with ms(2) same have "first_match ps t (c # u) = Some (patrn_cap m)" "wf_pattern m"
        by (auto simp: Let_def)
      with run Cons print_once_ok [OF comp wf, of m nf] show ?thesis by auto
    qed
  qed
qed simp

lemma search_ok:
  assumes comp: "compiled ps a" and wf: "\<forall>p\<in>set ps. wf_pattern p"
    and asc: "\<forall>p\<in>set ps. ascii (patrn_cap p)" and ne: "\<forall>p\<in>set ps. patrn_cap p \<noteq> []"
    and u: "ascii u" "NUL \<notin> set u" "u \<noteq> []" "length u < 2147483648"
  shows "\<exists>b nf. acsmSearch_cap a u =
       Some (b, nf, case first_match ps [] u of None \<Rightarrow> 0 | Some w \<Rightarrow> flag_of ps w) \<and>
     same_matcher a b"
proof -
  from comp obtain labs where l: "set labs = words ps"
    "dfa_rel labs (set labs \<times> UNIV) (set labs) a" "match_rel a labs ps" unfolding compiled_def by blast
  have "0 = pos labs (lsuf (\<lambda>v. v \<in> set labs) [])"
    using labels_pos_Nil [OF dfa_rel_labels [OF l(2)]] by simp
  from search_loop_ok [OF comp wf asc ne l u(1,2) this, of 0]
  show ?thesis using u(3,4) by (simp add: acsmSearch_cap_def to_int32_def)
qed

end
