(* ===== verification/Keyword_File.thy ===== *)
theory Keyword_File
  imports Acsm_Correct
begin

text \<open>
  The keyword files: \<^verbatim>\<open>acsm_parse_line\<close>, \<^verbatim>\<open>acsmDFA\<close>, \<^verbatim>\<open>init_acsm\<close> and \<^verbatim>\<open>acsm_changed\<close> of
  \<^verbatim>\<open>src/squid-2.7.STABLE9-new/src/acsmDFA.c\<close>.

  The line buffer keeps its old bytes behind the terminator of a shorter line, and the
  scan for the blank after the keyword does not stop at the terminator; both are modelled
  on the 1024 bytes of the buffer. The flag is copied to an array of 3 bytes, so a flag of
  3 digits has no terminator and \<^verbatim>\<open>atoi\<close> reads on into the bytes behind the array: the
  parameter \<open>frame\<close>. A scan that leaves the buffer is \<^const>\<open>OutOfBounds\<close>, the use of the
  pointer \<^verbatim>\<open>k\<close> before it is set is \<^const>\<open>Undefined\<close>.
\<close>

section \<open>Library functions\<close>

definition LEN :: nat where "LEN = 1024"

text \<open>\<^verbatim>\<open>fgets\<close>: at most \<open>n\<close> bytes, up to and with the newline.\<close>

fun fgets :: "nat \<Rightarrow> string \<Rightarrow> string \<times> string" where
  "fgets 0 s = ([], s)"
| "fgets (Suc n) [] = ([], [])"
| "fgets (Suc n) (c # s) =
     (if c = CHR 0x0A then ([c], s) else (case fgets n s of (l, r) \<Rightarrow> (c # l, r)))"

text \<open>\<^verbatim>\<open>atoi\<close> of the string in a buffer, stored in an \<^verbatim>\<open>unsigned\<close>; \<^verbatim>\<open>strtol\<close> saturates.\<close>

definition atoi_u32 :: "string \<Rightarrow> nat" where
  "atoi_u32 buf =
     (let s = dropWhile isspace_c (cstr buf);
          neg = (s \<noteq> [] \<and> hd s = CHR ''-'');
          s' = (if s \<noteq> [] \<and> (hd s = CHR ''-'' \<or> hd s = CHR ''+'') then tl s else s);
          v = int (digits_val (takeWhile isdigit_c s'));
          w = (if neg then max (- 9223372036854775808) (- v) else min 9223372036854775807 v)
      in nat (w mod 4294967296))"

section \<open>One line\<close>

text \<open>The first position from \<open>i\<close> on whose byte satisfies \<open>P\<close>, if inside the buffer.\<close>

definition scan :: "(char \<Rightarrow> bool) \<Rightarrow> string \<Rightarrow> nat \<Rightarrow> nat option" where
  "scan P buf i =
     (let j = i + length (takeWhile (\<lambda>c. \<not> P c) (drop i buf))
      in if j < length buf then Some j else None)"

definition ends_flag :: "char \<Rightarrow> bool" where
  "ends_flag c \<longleftrightarrow> c = NUL \<or> isblank_c c \<or> c = CHR 0x0A \<or> c = CHR 0x0D"

text \<open>
  The body of the loop. The result says whether the loop goes on (a flag that is not a
  number ends the whole function), the pointer \<^verbatim>\<open>k\<close> as an offset, and the keyword list.
\<close>

definition parse_line ::
  "string \<Rightarrow> string \<Rightarrow> nat option \<Rightarrow> acsm_struct \<Rightarrow> (bool \<times> nat option \<times> acsm_struct) res" where
  "parse_line frame buf k a =
     (if 257 \<le> length (cstr buf) \<or> cstr buf = [] \<or> hd (cstr buf) = CHR ''#'' then Inr (True, k, a)
      else (case scan isblank_c buf 0 of
          None \<Rightarrow> Inl OutOfBounds
        | Some p \<Rightarrow>
            (let keychar = cstr (take p buf) in
             (case scan (\<lambda>c. c = NUL \<or> isdigit_c c) buf (p + 1) of
                None \<Rightarrow> Inl OutOfBounds
              | Some q1 \<Rightarrow>
                  (let k' = (if buf ! q1 \<noteq> NUL then Some q1 else k) in
                   (case scan (\<lambda>c. \<not> isdigit_c c) buf q1 of
                      None \<Rightarrow> Inl OutOfBounds
                    | Some q \<Rightarrow>
                        if \<not> ends_flag (buf ! q) then Inr (False, k', a)
                        else (case k' of
                            None \<Rightarrow> Inl Undefined
                          | Some kk \<Rightarrow>
                              if q < kk then Inl OutOfBounds
                              else (let s = (if q - kk \<le> 3 then cstr (take (q - kk) (drop kk buf)) else [])
                                    in Inr (True, k', acsmAddPattern a keychar
                                         (atoi_u32 (s @ replicate (3 - length s) NUL @ frame)))))))))))"

section \<open>The file\<close>

lemma fgets_shorter: "s \<noteq> [] \<Longrightarrow> 0 < n \<Longrightarrow> length (snd (fgets n s)) < length s"
proof -
  have le: "length (snd (fgets n s)) \<le> length s" for n s
    by (induction n s rule: fgets.induct) (auto split: prod.splits)
  assume "s \<noteq> []" "0 < n"
  then obtain c t m where "s = c # t" "n = Suc m" by (cases s; cases n) auto
  with le [of m t] show ?thesis by (auto split: prod.splits)
qed

function parse_lines ::
  "string \<Rightarrow> string \<Rightarrow> nat option \<Rightarrow> string \<Rightarrow> acsm_struct \<Rightarrow> acsm_struct res" where
  "parse_lines frame buf k content a =
     (if content = [] then Inr a
      else (case fgets (LEN - 1) content of (l, rest) \<Rightarrow>
        (let buf' = l @ [NUL] @ drop (Suc (length l)) buf in
         (case parse_line frame buf' k a of
            Inl e \<Rightarrow> Inl e
          | Inr (go, k', a') \<Rightarrow> if go then parse_lines frame buf' k' rest a' else Inr a'))))"
  by pat_completeness auto
termination
proof (relation "measure (\<lambda>(frame, buf, k, content, a). length content)", goal_cases)
  case (2 frame buf k content a l rest)
  from 2(2) have "rest = snd (fgets (LEN - 1) content)" by (metis snd_conv)
  moreover have "length (snd (fgets (LEN - 1) content)) < length content"
    using 2(1) by (rule fgets_shorter) (simp add: LEN_def)
  ultimately show ?case by simp
qed simp

declare parse_lines.simps [simp del]

text \<open>
  \<^verbatim>\<open>acsm_parse_line\<close> on the contents of the file; \<^term>\<open>None\<close> is a file that cannot be
  opened.
\<close>

definition acsm_parse_line :: "string \<Rightarrow> string option \<Rightarrow> acsm_struct \<Rightarrow> (acsm_struct \<times> int) res" where
  "acsm_parse_line frame urlFile acsm =
     (case urlFile of
        None \<Rightarrow> Inr (acsm, -1)
      | Some content \<Rightarrow>
          map_sum id (\<lambda>a. (a, 0)) (parse_lines frame (replicate LEN NUL) None content acsm))"

definition acsmDFA :: "acsm_struct \<Rightarrow> (acsm_struct \<times> int) option" where
  "acsmDFA a = map_option (\<lambda>b. (b, 0)) (acsmCompile_cap a)"

definition init_acsm ::
  "string \<Rightarrow> nat \<Rightarrow> string option \<Rightarrow> acsm_struct option list \<Rightarrow> (acsm_struct option list \<times> int) res" where
  "init_acsm frame n fileName acsm_cap =
     (if length acsm_cap \<le> n then Inl OutOfBounds
      else (case acsm_parse_line frame fileName acsmNew of
          Inl e \<Rightarrow> Inl e
        | Inr (a, _) \<Rightarrow>
            (case acsmDFA a of
               None \<Rightarrow> Inl OutOfBounds
             | Some (b, ret) \<Rightarrow> Inr (acsm_cap[n := Some b], ret))))"

definition acsm_changed_at :: "nat \<Rightarrow> acsm_struct option list \<Rightarrow> acsm_struct option list option" where
  "acsm_changed_at i acsm_cap = do {
     (b, ret) \<leftarrow> acsmDFA acsmNew;
     upd_opt acsm_cap i (\<lambda>_. Some b)
   }"

definition acsm_changed :: "acsm_struct option list \<Rightarrow> acsm_struct option list option" where
  "acsm_changed acsm_cap = foldM acsm_changed_at [0..<2] acsm_cap"

section \<open>A well-formed line\<close>

definition good_entry :: "string \<times> string \<Rightarrow> bool" where
  "good_entry e \<longleftrightarrow> (case e of (key, ds) \<Rightarrow>
     key \<noteq> [] \<and> hd key \<noteq> CHR ''#'' \<and>
     list_all (\<lambda>c. c \<noteq> NUL \<and> c \<noteq> CHR 0x0A \<and> \<not> isblank_c c) key \<and>
     ds \<noteq> [] \<and> length ds \<le> 3 \<and> list_all isdigit_c ds \<and> length key + length ds < 255)"

definition entry_line :: "string \<times> string \<Rightarrow> string" where
  "entry_line e = fst e @ [CHR 0x20] @ snd e @ [CHR 0x0A]"

text \<open>
  The bytes behind the flag array do not prolong the number; they only matter for a flag of three digits,
  which fills the array and leaves no room for a terminator.
\<close>

definition quiet_frame :: "string \<Rightarrow> bool" where
  "quiet_frame frame \<longleftrightarrow> (frame = [] \<or> \<not> isdigit_c (hd frame))"

definition flags_end :: "string \<Rightarrow> (string \<times> string) list \<Rightarrow> bool" where
  "flags_end frame es \<longleftrightarrow> (\<forall>e \<in> set es. length (snd e) = 3 \<longrightarrow> quiet_frame frame)"

lemma isdigit_not [simp]:
  "isdigit_c c \<Longrightarrow> c \<noteq> NUL" "isdigit_c c \<Longrightarrow> \<not> isspace_c c" "isdigit_c c \<Longrightarrow> \<not> isblank_c c"
  "isdigit_c c \<Longrightarrow> c \<noteq> CHR ''-''" "isdigit_c c \<Longrightarrow> c \<noteq> CHR ''+''" "isdigit_c c \<Longrightarrow> c \<noteq> CHR 0x0A"
  by (auto simp: isdigit_c_def isspace_c_def isblank_c_def)

lemma isdigit_ends [simp]: "\<not> isdigit_c NUL" "\<not> isdigit_c (CHR 0x0A)"
  by (simp_all add: isdigit_c_def)

lemma digits_notin:
  assumes "list_all isdigit_c ds"
  shows "NUL \<notin> set ds" "CHR 0x0A \<notin> set ds"
  using assms isdigit_ends unfolding list_all_iff by blast+

lemma scan_append:
  assumes "list_all (\<lambda>c. \<not> P c) xs" "P y"
  shows "scan P (ws @ xs @ y # zs) (length ws) = Some (length ws + length xs)"
proof -
  have "takeWhile (\<lambda>c. \<not> P c) (xs @ y # zs) = xs"
    using assms by (induction xs) auto
  then show ?thesis by (simp add: scan_def Let_def)
qed

lemma digits_val_bound: "list_all isdigit_c ds \<Longrightarrow> digits_val ds < 10 ^ length ds"
proof (induction ds rule: rev_induct)
  case Nil
  then show ?case by (simp add: digits_val_def)
next
  case (snoc d ds)
  then have "digits_val ds < 10 ^ length ds" "of_char d - 48 < (10 :: nat)"
    by (auto simp: isdigit_c_def)
  then show ?case by (simp add: digits_val_snoc)
qed

lemma atoi_flag:
  assumes "list_all isdigit_c ds" "ds \<noteq> []" "length ds \<le> 3" "length ds = 3 \<longrightarrow> quiet_frame frame"
  shows "atoi_u32 (ds @ replicate (3 - length ds) NUL @ frame) = digits_val ds"
proof -
  have nn: "NUL \<notin> set ds" using assms(1) by (auto simp: list_all_iff)
  obtain d ds' where d: "ds = d # ds'" using assms(2) by (cases ds) auto
  let ?buf = "ds @ replicate (3 - length ds) NUL @ frame"
  have "\<exists>t. cstr ?buf = ds @ t \<and> (t = [] \<or> \<not> isdigit_c (hd t))"
  proof (cases "length ds < 3")
    case True
    then have "?buf = ds @ NUL # replicate (2 - length ds) NUL @ frame"
      by (metis Suc_diff_Suc append_Cons numeral_2_eq_2 numeral_3_eq_3 replicate_Suc diff_Suc_Suc
          Suc_diff_le less_Suc_eq_le)
    then show ?thesis using cstr_append_NUL [OF nn] by auto
  next
    case False
    then have "cstr ?buf = ds @ cstr frame"
      using assms(3) takeWhile_append2 [of ds "\<lambda>c. c \<noteq> NUL" frame] nn
      unfolding cstr_def by fastforce
    moreover have "cstr frame = [] \<or> \<not> isdigit_c (hd (cstr frame))"
      using assms(3,4) False by (cases frame) (auto simp: quiet_frame_def cstr_def)
    ultimately show ?thesis by blast
  qed
  then obtain t where t: "cstr ?buf = ds @ t" "t = [] \<or> \<not> isdigit_c (hd t)" by blast
  have dd: "isdigit_c d" using assms(1) d by simp
  have tw: "takeWhile isdigit_c (ds @ t) = ds"
    using assms(1) t(2) by (cases t) (auto simp: list_all_iff takeWhile_append2)
  have "dropWhile isspace_c (cstr ?buf) = ds @ t" using t(1) d dd by simp
  moreover have "hd (ds @ t) \<noteq> CHR ''-''" "hd (ds @ t) \<noteq> CHR ''+''" using d dd by auto
  moreover have "digits_val ds < 4294967296"
  proof -
    have "digits_val ds < 10 ^ length ds" using assms(1) by (rule digits_val_bound)
    also have "\<dots> \<le> 10 ^ 3" using assms(3) by (intro power_increasing) auto
    finally show ?thesis by simp
  qed
  ultimately show ?thesis using tw d by (simp add: atoi_u32_def Let_def)
qed

text \<open>
  A buffer whose first blank ends the bytes \<open>pre\<close> and is followed by a flag: the keyword
  is \<open>pre\<close> up to its first NUL, wherever the line itself ends.
\<close>

lemma parse_line_raw:
  assumes b: "buf = pre @ CHR 0x20 # ds @ CHR 0x0A # rest"
    and pre: "list_all (\<lambda>c. \<not> isblank_c c) pre"
    and ds: "ds \<noteq> []" "length ds \<le> 3" "list_all isdigit_c ds"
    and first: "length (cstr buf) < 257" "cstr buf \<noteq> []" "hd (cstr buf) \<noteq> CHR ''#''"
  shows "parse_line frame buf k a = Inr (True, Some (length pre + 1),
     acsmAddPattern a (cstr pre) (atoi_u32 (ds @ replicate (3 - length ds) NUL @ frame)))"
proof -
  have s1: "scan isblank_c buf 0 = Some (length pre)"
    using scan_append [of isblank_c pre "CHR 0x20" "[]" "ds @ CHR 0x0A # rest"] pre
    unfolding b by (simp only: append_Nil list.size add_0 isblank_c_def simp_thms)
  obtain d ds' where d: "ds = d # ds'" "isdigit_c d" using ds by (cases ds) auto
  have b2: "buf = (pre @ [CHR 0x20]) @ [] @ d # ds' @ CHR 0x0A # rest" by (simp add: b d)
  have s2: "scan (\<lambda>c. c = NUL \<or> isdigit_c c) buf (length pre + 1) = Some (length pre + 1)"
    using scan_append [of "\<lambda>c. c = NUL \<or> isdigit_c c" "[]" d "pre @ [CHR 0x20]"] d(2) by (simp add: b2)
  have s3: "scan (\<lambda>c. \<not> isdigit_c c) buf (length pre + 1) = Some (length pre + 1 + length ds)"
    using scan_append [of "\<lambda>c. \<not> isdigit_c c" ds "CHR 0x0A" "pre @ [CHR 0x20]" rest] ds(3)
    by (simp add: b)
  have at1: "buf ! (length pre + 1) = d" by (simp add: b2 nth_append)
  have at2: "buf ! (length pre + 1 + length ds) = CHR 0x0A" by (simp add: b nth_append)
  have tk: "take (length pre) buf = pre" by (simp add: b)
  have fl: "cstr (take (length ds) (drop (length pre + 1) buf)) = ds"
    using digits_notin [OF ds(3)] by (simp add: b cstr_id)
  show ?thesis
    unfolding parse_line_def s1
    using first s2 s3 at1 at2 tk fl d(2) ds(2) by (simp add: Let_def ends_flag_def)
qed

lemma parse_line_flag:
  assumes "buf = pre @ CHR 0x20 # ds @ CHR 0x0A # rest" "list_all (\<lambda>c. \<not> isblank_c c) pre"
    and ds: "ds \<noteq> []" "length ds \<le> 3" "list_all isdigit_c ds"
    and "length (cstr buf) < 257" "cstr buf \<noteq> []" "hd (cstr buf) \<noteq> CHR ''#''"
    and fr: "length ds = 3 \<longrightarrow> quiet_frame frame"
  shows "parse_line frame buf k a =
     Inr (True, Some (length pre + 1), acsmAddPattern a (cstr pre) (digits_val ds))"
  using parse_line_raw [OF assms(1-8), of frame k a] atoi_flag [OF ds(3,1,2) fr] by simp

lemma good_entryD:
  assumes "good_entry (key, ds)"
  shows "key \<noteq> []" "hd key \<noteq> CHR ''#''" "NUL \<notin> set key" "CHR 0x0A \<notin> set key"
    "list_all (\<lambda>c. \<not> isblank_c c) key" "ds \<noteq> []" "length ds \<le> 3" "list_all isdigit_c ds"
    "length key + length ds < 255"
  using assms unfolding good_entry_def list_all_iff prod.case by (simp_all only: simp_thms) blast+

lemma parse_line_ok:
  assumes e: "good_entry (key, ds)" and fr: "length ds = 3 \<longrightarrow> quiet_frame frame"
    and buf: "buf = entry_line (key, ds) @ NUL # rest"
  shows "parse_line frame buf k a =
     Inr (True, Some (length key + 1), acsmAddPattern a key (digits_val ds))"
proof -
  note ed = good_entryD [OF e]
  have "NUL \<notin> set (entry_line (key, ds))"
    using ed(3) digits_notin [OF ed(8)] by (simp add: entry_line_def)
  then have cs: "cstr buf = entry_line (key, ds)" unfolding buf by (rule cstr_append_NUL)
  have "parse_line frame buf k a =
      Inr (True, Some (length key + 1), acsmAddPattern a (cstr key) (digits_val ds))"
    by (rule parse_line_flag [OF _ ed(5-8) _ _ _ fr, where rest = "NUL # rest"])
       (use ed(1,2,9) in \<open>simp_all add: cs, simp_all add: buf entry_line_def\<close>)
  then show ?thesis using ed(3) by (simp add: cstr_id)
qed

text \<open>An empty line over the bytes of a well-formed one.\<close>

lemma parse_line_stale:
  assumes e: "good_entry (c1 # c2 # key, ds)" and fr: "length ds = 3 \<longrightarrow> quiet_frame frame"
    and buf: "buf = CHR 0x0A # NUL # key @ CHR 0x20 # ds @ CHR 0x0A # rest"
  shows "parse_line frame buf k a =
     Inr (True, Some (length key + 3), acsmAddPattern a [CHR 0x0A] (digits_val ds))"
proof -
  note ed = good_entryD [OF e]
  have cs: "cstr (CHR 0x0A # NUL # t) = [CHR 0x0A]" for t by (simp add: cstr_def)
  have "parse_line frame buf k a = Inr (True, Some (length (CHR 0x0A # NUL # key) + 1),
      acsmAddPattern a (cstr (CHR 0x0A # NUL # key)) (digits_val ds))"
    by (rule parse_line_flag [OF _ _ ed(6-8) _ _ _ fr])
       (use ed(5) in \<open>simp_all add: buf cs, simp add: isblank_c_def\<close>)
  then show ?thesis by (simp add: cs)
qed

section \<open>A well-formed file\<close>

lemma fgets_line:
  assumes "CHR 0x0A \<notin> set l" "length l < n"
  shows "fgets n (l @ CHR 0x0A # rest) = (l @ [CHR 0x0A], rest)"
  using assms
proof (induction l arbitrary: n)
  case Nil
  then obtain m where "n = Suc m" by (cases n) auto
  then show ?case by simp
next
  case (Cons c l)
  then obtain m where "n = Suc m" by (cases n) auto
  with Cons show ?case by (auto simp del: fgets.simps(1))
qed

fun add_entries :: "(string \<times> string) list \<Rightarrow> acsm_struct \<Rightarrow> acsm_struct" where
  "add_entries [] a = a"
| "add_entries (e # es) a = add_entries es (acsmAddPattern a (fst e) (digits_val (snd e)))"

lemma fgets_entry:
  assumes "good_entry e"
  shows "fgets (LEN - 1) (entry_line e @ t) = (entry_line e, t)"
proof -
  obtain key ds where e: "e = (key, ds)" by (cases e)
  note ed = good_entryD [OF assms [unfolded e]]
  let ?l = "key @ [CHR 0x20] @ ds"
  have "CHR 0x0A \<notin> set ?l" "length ?l < LEN - 1"
    using ed(4,9) digits_notin [OF ed(8)] by (simp_all add: LEN_def)
  from fgets_line [OF this, of t] show ?thesis by (simp add: entry_line_def e)
qed

lemma parse_lines_step:
  assumes "content \<noteq> []" "fgets (LEN - 1) content = (l, rest)"
    and "parse_line frame (l @ [NUL] @ drop (Suc (length l)) buf) k a = Inr (True, k', a')"
  shows "parse_lines frame buf k content a =
     parse_lines frame (l @ [NUL] @ drop (Suc (length l)) buf) k' rest a'"
  by (subst parse_lines.simps)
     (use assms in \<open>simp only: if_False case_prod_conv Let_def sum.case if_True\<close>)

lemma parse_lines_ok:
  assumes "list_all good_entry es" "flags_end frame es"
  shows "parse_lines frame buf k (concat (map entry_line es)) a = Inr (add_entries es a)"
  using assms
proof (induction es arbitrary: buf k a)
  case Nil
  then show ?case by (simp add: parse_lines.simps)
next
  case (Cons e es)
  obtain key ds where e: "e = (key, ds)" by (cases e)
  have g: "good_entry (key, ds)" and fr: "length ds = 3 \<longrightarrow> quiet_frame frame" and rest: "flags_end frame es"
    using Cons.prems e by (auto simp: flags_end_def)
  let ?buf = "entry_line e @ [NUL] @ drop (Suc (length (entry_line e))) buf"
  have "parse_line frame ?buf k a = Inr (True, Some (length key + 1), acsmAddPattern a key (digits_val ds))"
    unfolding e by (rule parse_line_ok [OF g fr]) simp
  from parse_lines_step [OF _ fgets_entry [OF g] this [unfolded e]]
  have "parse_lines frame buf k (entry_line e @ concat (map entry_line es)) a =
      parse_lines frame ?buf (Some (length key + 1)) (concat (map entry_line es))
        (acsmAddPattern a key (digits_val ds))"
    unfolding e by (simp add: entry_line_def)
  also have "\<dots> = Inr (add_entries es (acsmAddPattern a key (digits_val ds)))"
    using Cons.IH Cons.prems rest by simp
  finally show ?case by (simp add: e)
qed

end
