(* ===== verification/Keyword_Matcher.thy ===== *)
theory Keyword_Matcher
  imports Keyword_File
begin

text \<open>
  The contract between the matcher of \<^verbatim>\<open>acsmDFA.c\<close> and the code that consults it (the
  key functions of \<^verbatim>\<open>store_key_md5.c\<close>): the locale \<open>matcher\<close>, what a client may
  conclude from it, its interpretation on the compiled automaton, and the properties of
  the matcher as a whole, from the text of a keyword file to the flag a search returns.
\<close>

section \<open>What a search promises\<close>

definition answer :: "acsm_pattern list \<Rightarrow> string \<Rightarrow> int" where
  "answer ps u = (case first_match ps [] u of None \<Rightarrow> 0 | Some w \<Rightarrow> flag_of ps w)"

definition good_text :: "string \<Rightarrow> bool" where
  "good_text u \<longleftrightarrow> ascii u \<and> NUL \<notin> set u \<and> u \<noteq> [] \<and> length u < 2147483648"

definition good_keywords :: "acsm_pattern list \<Rightarrow> bool" where
  "good_keywords ps \<longleftrightarrow> list_all (\<lambda>p. wf_pattern p \<and> ascii (patrn_cap p) \<and> patrn_cap p \<noteq> []) ps"

text \<open>A run of searches, each on the matcher the one before left.\<close>

fun search_all ::
  "('m \<Rightarrow> string \<Rightarrow> ('m \<times> nat \<times> int) option) \<Rightarrow> string list \<Rightarrow> 'm \<Rightarrow> ('m \<times> int list) option" where
  "search_all srch [] m = Some (m, [])"
| "search_all srch (u # us) m = do {
     (m', _, r) \<leftarrow> srch m u;
     (m'', rs) \<leftarrow> search_all srch us m';
     Some (m'', r # rs)
   }"

locale matcher =
  fixes srch :: "'m \<Rightarrow> string \<Rightarrow> ('m \<times> nat \<times> int) option"
    and serves :: "acsm_pattern list \<Rightarrow> 'm \<Rightarrow> bool"
  assumes serves_good: "serves ps m \<Longrightarrow> good_keywords ps"
    and srch_answer: "serves ps m \<Longrightarrow> good_text u \<Longrightarrow>
      \<exists>m' nf. srch m u = Some (m', nf, answer ps u) \<and> serves ps m'"
begin

lemma srch_all_answers:
  "serves ps m \<Longrightarrow> list_all good_text us \<Longrightarrow>
     \<exists>m'. search_all srch us m = Some (m', map (answer ps) us) \<and> serves ps m'"
proof (induction us arbitrary: m)
  case (Cons u us)
  from Cons.prems(2) have "good_text u" by simp
  from srch_answer [OF Cons.prems(1) this] obtain m' nf where
    "srch m u = Some (m', nf, answer ps u)" "serves ps m'" by blast
  with Cons.IH [of m'] Cons.prems(2) show ?case by auto
qed simp

lemma srch_zero_iff:
  assumes "serves ps m" "good_text u" "\<forall>p\<in>set ps. flag_of ps (patrn_cap p) \<noteq> 0"
  shows "(\<exists>m' nf. srch m u = Some (m', nf, 0)) \<longleftrightarrow> (\<forall>p\<in>set ps. \<not> sublist (patrn_cap p) u)"
proof -
  obtain m' nf where s: "srch m u = Some (m', nf, answer ps u)" using srch_answer assms(1,2) by blast
  have ne: "patrn_cap p \<noteq> []" if "p \<in> set ps" for p
    using serves_good [OF assms(1)] that by (auto simp: good_keywords_def list_all_iff)
  have "answer ps u = 0 \<longleftrightarrow> first_match ps [] u = None"
  proof (cases "first_match ps [] u")
    case (Some w)
    from first_match_SomeD [OF this] have "keyword ps w" by blast
    with assms(3) Some show ?thesis by (auto simp: answer_def keyword_iff)
  qed (simp add: answer_def)
  with s first_match_None_iff [OF ne] show ?thesis by auto
qed

end

section \<open>The automaton keeps the promise\<close>

definition serves :: "acsm_pattern list \<Rightarrow> acsm_struct \<Rightarrow> bool" where
  "serves ps a \<longleftrightarrow> compiled ps a \<and> good_keywords ps"

lemma good_keywordsD:
  assumes "good_keywords ps"
  shows "\<forall>p\<in>set ps. wf_pattern p" "\<forall>p\<in>set ps. ascii (patrn_cap p)" "\<forall>p\<in>set ps. patrn_cap p \<noteq> []"
  using assms by (auto simp: good_keywords_def list_all_iff)

interpretation acsm: matcher acsmSearch_cap serves
proof unfold_locales
  fix ps m assume "serves ps m"
  then show "good_keywords ps" by (simp add: serves_def)
next
  fix ps m u assume s: "serves ps m" and u: "good_text u"
  then have c: "compiled ps m" and g: "good_keywords ps" by (simp_all add: serves_def)
  from search_ok [OF c good_keywordsD [OF g]] u obtain b nf where
    "acsmSearch_cap m u = Some (b, nf, answer ps u)" "same_matcher m b"
    unfolding good_text_def answer_def by blast
  with compiled_same_matcher [OF c] g show
    "\<exists>m' nf. acsmSearch_cap m u = Some (m', nf, answer ps u) \<and> serves ps m'"
    unfolding serves_def by blast
qed

lemma compile_serves:
  assumes "good_keywords (acsmPatterns a)" "Suc (keyword_bytes (acsmPatterns a)) < 2147483648"
  shows "\<exists>b. acsmCompile_cap a = Some b \<and> serves (acsmPatterns a) b"
  using compile_ok [OF good_keywordsD(1) [OF assms(1)] assms(2)] assms(1)
  unfolding serves_def by blast

section \<open>From the file to the keywords\<close>

definition entry_pattern :: "string \<times> string \<Rightarrow> acsm_pattern" where
  "entry_pattern e =
     \<lparr>patrn_cap = map toupper (fst e), n_cap = length (fst e), nmatch = 0, urlflag = digits_val (snd e)\<rparr>"

lemma acsmPatterns_add_entries:
  "acsmPatterns (add_entries es a) = rev (map entry_pattern es) @ acsmPatterns a"
  by (induction es arbitrary: a)
     (simp_all add: acsmAddPattern_def entry_pattern_def ConvertCaseEX_def init_xlatcase_def)

text \<open>The keywords of a list of entries, the last entry first.\<close>

definition file_keywords :: "(string \<times> string) list \<Rightarrow> acsm_pattern list" where
  "file_keywords es = rev (map entry_pattern es)"

lemma of_char_toupper:
  "(of_char (toupper c) :: nat) =
     (if 97 \<le> (of_char c :: nat) \<and> (of_char c :: nat) \<le> 122 then of_char c - 32 else of_char c)"
  unfolding toupper_def by (auto simp: less_imp_diff_less)

lemma toupper_ascii: "(of_char c :: nat) < 128 \<Longrightarrow> (of_char (toupper c) :: nat) < 128"
  unfolding of_char_toupper by (auto intro: less_imp_diff_less)

lemma toupper_NUL: "toupper c = NUL \<longleftrightarrow> c = NUL"
proof -
  have "toupper c = NUL \<longleftrightarrow> (of_char (toupper c) :: nat) = of_char NUL" by (metis char_of_char)
  also have "\<dots> \<longleftrightarrow> (of_char c :: nat) = of_char NUL" unfolding of_char_toupper by simp
  also have "\<dots> \<longleftrightarrow> c = NUL" by (metis char_of_char)
  finally show ?thesis .
qed

definition good_file :: "(string \<times> string) list \<Rightarrow> bool" where
  "good_file es \<longleftrightarrow> list_all (\<lambda>e. good_entry e \<and> ascii (fst e)) es \<and> length es < 1000000"

lemma entry_pattern_good:
  assumes "good_entry e" "ascii (fst e)"
  shows "wf_pattern (entry_pattern e) \<and> ascii (patrn_cap (entry_pattern e)) \<and> patrn_cap (entry_pattern e) \<noteq> []"
proof -
  obtain key ds where e: "e = (key, ds)" by (cases e)
  have "NUL \<notin> set key" "key \<noteq> []" using assms(1) e unfolding good_entry_def list_all_iff by auto
  moreover have "ascii (map toupper key)"
    using assms(2) e toupper_ascii by (simp add: ascii_def list_all_iff)
  ultimately show ?thesis
    by (auto simp: e entry_pattern_def wf_pattern_def toupper_NUL dest: sym)
qed

lemma good_file_keywords: "good_file es \<Longrightarrow> good_keywords (file_keywords es)"
  using entry_pattern_good
  by (auto simp: good_file_def good_keywords_def file_keywords_def list_all_iff)

lemma good_file_bytes: "good_file es \<Longrightarrow> Suc (keyword_bytes (file_keywords es)) < 2147483648"
proof -
  assume g: "good_file es"
  have "keyword_bytes (file_keywords es) \<le> sum_list (map (\<lambda>_. 255) es)"
    unfolding keyword_bytes_def file_keywords_def rev_map [symmetric] map_map sum_list_rev comp_def
  proof (rule sum_list_mono)
    fix e assume "e \<in> set es"
    then have "good_entry e" using g by (auto simp: good_file_def list_all_iff)
    then show "length (patrn_cap (entry_pattern e)) \<le> 255"
      by (cases e) (simp add: good_entry_def entry_pattern_def)
  qed
  moreover have "sum_list (map (\<lambda>_. 255) es) = length es * (255::nat)" by (simp add: sum_list_triv)
  ultimately show ?thesis using g by (simp add: good_file_def)
qed

definition file_text :: "(string \<times> string) list \<Rightarrow> string" where
  "file_text es = concat (map entry_line es)"

lemma init_acsm_serves:
  assumes "good_file es" "flags_end frame es" "n < length acsm_cap"
  shows "\<exists>b. init_acsm frame n (Some (file_text es)) acsm_cap = Inr (acsm_cap[n := Some b], 0) \<and>
     serves (file_keywords es) b"
proof -
  have ok: "list_all good_entry es" using assms(1) by (auto simp: good_file_def list_all_iff)
  have p: "acsm_parse_line frame (Some (file_text es)) acsmNew = Inr (add_entries es acsmNew, 0)"
    using parse_lines_ok [OF ok assms(2)] by (simp add: acsm_parse_line_def file_text_def)
  have k: "acsmPatterns (add_entries es acsmNew) = file_keywords es"
    by (simp add: acsmPatterns_add_entries acsmNew_def file_keywords_def)
  from compile_serves [of "add_entries es acsmNew"] k good_file_keywords [OF assms(1)]
    good_file_bytes [OF assms(1)]
  obtain b where "acsmCompile_cap (add_entries es acsmNew) = Some b" "serves (file_keywords es) b"
    by auto
  with p assms(3) show ?thesis by (auto simp: init_acsm_def acsmDFA_def)
qed

section \<open>Properties\<close>


definition demo_file :: "(string \<times> string) list" where
  "demo_file = [(''/youku/'', ''100''), (''letv-uts'', ''101'')]"

lemma demo_file_good: "good_file demo_file" "flags_end [NUL] demo_file" "(0 :: nat) < length [None, None]"
  by (simp_all add: good_file_def demo_file_def good_entry_def isblank_c_def isdigit_c_def flags_end_def quiet_frame_def)


text \<open>
  The compiled automaton finds a keyword exactly when one occurs: for keywords with
  flags other than 0, a search returns 0 if and only if no keyword is a substring of
  the text.
\<close>

theorem search_zero_iff_no_keyword:
  assumes "serves ps a" "good_text u" "\<forall>p\<in>set ps. flag_of ps (patrn_cap p) \<noteq> 0"
  shows "(\<exists>b nf. acsmSearch_cap a u = Some (b, nf, 0)) \<longleftrightarrow> (\<forall>p\<in>set ps. \<not> sublist (patrn_cap p) u)"
  using assms by (rule acsm.srch_zero_iff)

lemma demo_file_flags:
  "\<forall>p\<in>set (file_keywords demo_file). flag_of (file_keywords demo_file) (patrn_cap p) \<noteq> 0"
  by (simp add: file_keywords_def demo_file_def entry_pattern_def digits_val_def to_int32_def toupper_def)

theorem search_zero_iff_no_keyword_witness:
  "\<exists>a. serves (file_keywords demo_file) a \<and>
     ((\<exists>b nf. acsmSearch_cap a ''GET /LETV-UTS/1'' = Some (b, nf, 0)) \<longleftrightarrow>
      (\<forall>p\<in>set (file_keywords demo_file). \<not> sublist (patrn_cap p) ''GET /LETV-UTS/1''))"
proof -
  obtain a where "serves (file_keywords demo_file) a"
    using init_acsm_serves [OF demo_file_good] by blast
  moreover have "good_text ''GET /LETV-UTS/1''" by (simp add: good_text_def)
  ultimately show ?thesis using search_zero_iff_no_keyword demo_file_flags by blast
qed

text \<open>
  Compilation of arbitrary byte patterns (not only ASCII) is total: it ends, no write
  leaves the allocated table, and the states of the result are exactly the prefixes of
  the keywords, each state's transitions leading to the longest suffix that is a prefix.
\<close>

theorem compile_total_and_exact:
  assumes "\<forall>p\<in>set (acsmPatterns a). wf_pattern p"
    and "Suc (keyword_bytes (acsmPatterns a)) < 2147483648"
  shows "\<exists>b labs. acsmCompile_cap a = Some b \<and> set labs = words (acsmPatterns a) \<and>
     dfa_rel labs (set labs \<times> UNIV) (set labs) b \<and> match_rel b labs (acsmPatterns a)"
  using compile_ok [OF assms] unfolding compiled_def by blast

theorem compile_total_and_exact_witness:
  "\<exists>b labs. acsmCompile_cap (acsmAddPattern acsmNew [CHR ''a'', CHR 0xE4] 1) = Some b \<and>
     set labs = words (acsmPatterns (acsmAddPattern acsmNew [CHR ''a'', CHR 0xE4] 1)) \<and>
     dfa_rel labs (set labs \<times> UNIV) (set labs) b \<and>
     match_rel b labs (acsmPatterns (acsmAddPattern acsmNew [CHR ''a'', CHR 0xE4] 1))"
  by (rule compile_total_and_exact)
     (auto simp: acsmAddPattern_def acsmNew_def wf_pattern_def keyword_bytes_def ConvertCaseEX_def
       init_xlatcase_def toupper_NUL dest: sym)

text \<open>
  The line scanner of \<^verbatim>\<open>acsm_parse_line\<close> does not stop at the end of the line: an
  empty line after an entry (of a keyword of at least two bytes) is read together with
  the stale bytes of the buffer and adds the keyword made of a newline alone, with the
  flag of the entry before it.
\<close>

theorem blank_line_adds_newline_keyword:
  assumes e: "good_entry (key, ds)" and two: "2 \<le> length key" and fr: "quiet_frame frame"
  shows "acsm_parse_line frame (Some (entry_line (key, ds) @ [CHR 0x0A])) acsmNew =
     Inr (acsmAddPattern (acsmAddPattern acsmNew key (digits_val ds)) [CHR 0x0A] (digits_val ds), 0)"
proof -
  obtain c1 c2 k where key: "key = c1 # c2 # k" using two by (cases key; cases "tl key") auto
  let ?line = "entry_line (key, ds)" and ?nl = "CHR 0x0A"
  let ?buf = "\<lambda>l buf. l @ [NUL] @ drop (Suc (length l)) buf"
  have f1: "fgets (LEN - 1) (?line @ [?nl]) = (?line, [?nl])" using e by (rule fgets_entry)
  have f2: "fgets (LEN - 1) [?nl] = ([?nl], [])" using fgets_line [of "[]" "LEN - 1" "[]"] by (simp add: LEN_def)
  let ?b1 = "?buf ?line (replicate LEN NUL)" and ?a1 = "acsmAddPattern acsmNew key (digits_val ds)"
  have p1: "parse_line frame ?b1 None acsmNew = Inr (True, Some (length key + 1), ?a1)"
    by (rule parse_line_ok [OF e]) (simp_all add: fr)
  have p2: "parse_line frame (?buf [?nl] ?b1) (Some (length key + 1)) ?a1 =
      Inr (True, Some (length k + 3), acsmAddPattern ?a1 [?nl] (digits_val ds))"
    by (rule parse_line_stale [OF e [unfolded key]]) (simp_all add: fr key entry_line_def)
  have "parse_lines frame (replicate LEN NUL) None (?line @ [?nl]) acsmNew = parse_lines frame ?b1 (Some (length key + 1)) [?nl] ?a1"
    by (rule parse_lines_step [OF _ f1 p1]) simp
  also have "\<dots> = parse_lines frame (?buf [?nl] ?b1) (Some (length k + 3)) [] (acsmAddPattern ?a1 [?nl] (digits_val ds))"
    by (rule parse_lines_step [OF _ f2 p2]) simp
  also have "\<dots> = Inr (acsmAddPattern ?a1 [?nl] (digits_val ds))" by (subst parse_lines.simps) simp
  finally show ?thesis by (simp add: acsm_parse_line_def)
qed

theorem blank_line_adds_newline_keyword_witness:
  "acsm_parse_line [NUL] (Some (entry_line (''/youku/'', ''100'') @ [CHR 0x0A])) acsmNew =
     Inr (acsmAddPattern (acsmAddPattern acsmNew ''/youku/'' (digits_val ''100'')) [CHR 0x0A] (digits_val ''100''), 0)"
  by (rule blank_line_adds_newline_keyword)
     (simp_all add: good_entry_def isblank_c_def isdigit_c_def quiet_frame_def)

text \<open>
  A flag of three digits is read together with the digits on the stack behind its array.
\<close>

lemma atoi_reads_on:
  assumes "list_all isdigit_c ds" "length ds = 3" "frame = f @ NUL # rest" "list_all isdigit_c f" "length f \<le> 6"
  shows "atoi_u32 (ds @ replicate (3 - length ds) NUL @ frame) = digits_val (ds @ f)"
proof -
  have all: "list_all isdigit_c (ds @ f)" using assms(1,4) by simp
  have b: "ds @ replicate (3 - length ds) NUL @ frame = (ds @ f) @ NUL # rest" by (simp add: assms(2,3))
  have c: "cstr ((ds @ f) @ NUL # rest) = ds @ f" by (rule cstr_append_NUL) (rule digits_notin(1) [OF all])
  obtain d ds' where d: "ds = d # ds'" "isdigit_c d" using assms(1,2) by (cases ds) auto
  have tw: "takeWhile isdigit_c f = f" using all by (simp add: list_all_iff takeWhile_eq_all_conv)
  have "list_all isdigit_c ds'" using assms(1) d by simp
  moreover have "digits_val (ds @ f) < 4294967296"
  proof -
    have "digits_val (ds @ f) < 10 ^ length (ds @ f)" using all by (rule digits_val_bound)
    also have "\<dots> \<le> 10 ^ 9" using assms(2,5) by (intro power_increasing) auto
    finally show ?thesis by simp
  qed
  ultimately show ?thesis unfolding b using c d by (simp add: atoi_u32_def Let_def tw list_all_iff)
qed

theorem three_digit_flag_reads_on:
  assumes e: "good_entry (key, ds)" "length ds = 3" and f: "frame = f @ NUL # rest" "list_all isdigit_c f" "length f \<le> 6"
  shows "acsm_parse_line frame (Some (entry_line (key, ds))) acsmNew =
     Inr (acsmAddPattern acsmNew key (digits_val (ds @ f)), 0)"
proof -
  note ed = good_entryD [OF e(1)]
  let ?buf = "entry_line (key, ds) @ [NUL] @ drop (Suc (length (entry_line (key, ds)))) (replicate LEN NUL)"
  have "NUL \<notin> set (entry_line (key, ds))" using ed(3) digits_notin [OF ed(8)] by (simp add: entry_line_def)
  then have cs: "cstr ?buf = entry_line (key, ds)" using cstr_append_NUL by simp
  have first: "length (cstr ?buf) < 257" "cstr ?buf \<noteq> []" "hd (cstr ?buf) \<noteq> CHR ''#''"
    unfolding cs using ed(1,2,9) by (simp_all add: entry_line_def)
  have "parse_line frame ?buf None acsmNew = Inr (True, Some (length key + 1),
      acsmAddPattern acsmNew (cstr key) (atoi_u32 (ds @ replicate (3 - length ds) NUL @ frame)))"
    by (rule parse_line_raw [OF _ ed(5-8) first]) (simp add: entry_line_def)
  then have p: "parse_line frame ?buf None acsmNew = Inr (True, Some (length key + 1), acsmAddPattern acsmNew key (digits_val (ds @ f)))"
    using atoi_reads_on [OF ed(8) e(2) f] ed(3) by (simp add: cstr_id)
  have g: "fgets (LEN - 1) (entry_line (key, ds)) = (entry_line (key, ds), [])" using fgets_entry [OF e(1), of "[]"] by simp
  have "parse_lines frame (replicate LEN NUL) None (entry_line (key, ds)) acsmNew =
      parse_lines frame ?buf (Some (length key + 1)) [] (acsmAddPattern acsmNew key (digits_val (ds @ f)))"
    by (rule parse_lines_step [OF _ g p]) (simp add: entry_line_def)
  also have "\<dots> = Inr (acsmAddPattern acsmNew key (digits_val (ds @ f)))" by (subst parse_lines.simps) simp
  finally show ?thesis by (simp add: acsm_parse_line_def)
qed

theorem three_digit_flag_reads_on_witness:
  "acsm_parse_line (''7'' @ [NUL]) (Some (entry_line (''/youku/'', ''100''))) acsmNew =
     Inr (acsmAddPattern acsmNew ''/youku/'' 1007, 0)"
  using three_digit_flag_reads_on [of "''/youku/''" "''100''" "''7'' @ [NUL]" "''7''" "[]"]
  by (simp add: good_entry_def isblank_c_def isdigit_c_def digits_val_def)

end
