(* ===== verification/Videoreg.thy ===== *)
theory Videoreg
  imports Prelude
begin

text \<open>
  The video identifiers of \<^verbatim>\<open>src/libvideoreg/src/videoreg.c\<close>: \<^verbatim>\<open>youkuExtractID\<close>,
  \<^verbatim>\<open>letvExtractID\<close> and the driver \<^verbatim>\<open>selectFunc\<close>.

  A URL is the list of its bytes without the terminator, a pointer into it an offset
  (\<^verbatim>\<open>strstr\<close> gives the first one). The identifier buffer is the list of its bytes. A copy
  of negative length, a write behind the buffer and a read behind the terminator are
  \<^const>\<open>OutOfBounds\<close>.
\<close>

section \<open>Pointers into the URL\<close>

text \<open>
  \<^verbatim>\<open>while ((*p++) != '/' && *p != 0);\<close> from offset \<open>p\<close> on; at the terminator the second
  test reads the byte behind it.
\<close>

fun skip_slash :: "string \<Rightarrow> nat \<Rightarrow> nat res" where
  "skip_slash [] p = Inl OutOfBounds"
| "skip_slash (c # r) p = (if c = CHR ''/'' \<or> r = [] then Inr (p + 1) else skip_slash r (p + 1))"

text \<open>
  \<^verbatim>\<open>strncpy (id, url + start, n); id[n + 1] = 0;\<close> with \<^verbatim>\<open>n = stop - start\<close>.
\<close>

definition copy_id :: "string \<Rightarrow> nat \<Rightarrow> nat \<Rightarrow> string \<Rightarrow> string res" where
  "copy_id url start stop idbuf =
     (if stop < start \<or> length idbuf \<le> stop - start + 1 then Inl OutOfBounds
      else (let n = stop - start; src = take n (drop start url)
            in Inr ((src @ replicate (n - length src) NUL @ drop n idbuf)[n + 1 := NUL])))"

section \<open>The sites\<close>

definition youkuExtractID :: "string \<Rightarrow> string \<Rightarrow> (nat \<times> string) res" where
  "youkuExtractID url idbuf =
     (if strstr url ''/youku/'' \<noteq> None \<and> strstr url ''.flv?nk='' \<noteq> None then Inr (0, idbuf)
      else if strstr url ''/youku/'' \<noteq> None \<and> strstr url ''.mp4?nk='' \<noteq> None then Inr (0, idbuf)
      else (case (strstr url ''/youku/'',
                  case strstr url ''.flv'' of Some e \<Rightarrow> Some e | None \<Rightarrow> strstr url ''.mp4'') of
          (Some youkubegin, Some youkuIDend) \<Rightarrow>
            (case skip_slash (drop (youkubegin + 7) url) (youkubegin + 7) of
               Inl e \<Rightarrow> Inl e
             | Inr youkuIDstart \<Rightarrow>
                 if int youkuIDend + 4 - int youkuIDstart > 1024 then Inr (0, idbuf)
                 else map_sum (\<lambda>e. e) (\<lambda>i. (1, i)) (copy_id url youkuIDstart (youkuIDend + 4) idbuf))
        | _ \<Rightarrow> Inr (0, idbuf)))"

definition letvExtractID :: "string \<Rightarrow> string \<Rightarrow> (nat \<times> string) res" where
  "letvExtractID url idbuf =
     (if strstr url ''/letv-uts/'' = None then Inr (0, idbuf)
      else (case (strstr url ''ver_'', strstr url ''.ts'') of
          (Some letvIDstart, Some letvIDend) \<Rightarrow>
            map_sum (\<lambda>e. e) (\<lambda>i. (1, i)) (copy_id url letvIDstart (letvIDend + 3) idbuf)
        | _ \<Rightarrow> Inr (0, idbuf)))"

text \<open>The function table has 999 entries, all but the first two empty.\<close>

definition pf :: "nat \<Rightarrow> (string \<Rightarrow> string \<Rightarrow> (nat \<times> string) res) option" where
  "pf i = (if i = 0 then Some youkuExtractID else if i = 1 then Some letvExtractID else None)"

definition selectFunc :: "string \<Rightarrow> string \<Rightarrow> nat \<Rightarrow> (nat \<times> string) res" where
  "selectFunc url idbuf flag =
     (if flag < 100 \<or> 999 < flag then Inr (0, idbuf)
      else (case pf (flag - 100) of Some f \<Rightarrow> f url idbuf | None \<Rightarrow> Inr (0, idbuf)))"

section \<open>Lemmas\<close>

lemma strstr_Some_iff: "strstr s p \<noteq> None \<longleftrightarrow> sublist p s"
proof (induction s)
  case (Cons c s)
  then show ?case by (auto simp: sublist_Cons_right)
qed (auto simp: sublist_def)

lemma strstr_prefix: "strstr s p = Some i \<Longrightarrow> prefix p (drop i s) \<and> i + length p \<le> length s"
proof (induction s arbitrary: i)
  case (Cons c s)
  show ?case
  proof (cases "prefix p (c # s)")
    case True
    with Cons.prems show ?thesis using prefix_length_le by fastforce
  next
    case False
    with Cons.prems obtain j where "strstr s p = Some j" "i = Suc j" by auto
    with Cons.IH show ?thesis by auto
  qed
qed (auto split: if_splits)

lemma strstr_first: "strstr s p = Some i \<Longrightarrow> j < i \<Longrightarrow> \<not> prefix p (drop j s)"
proof (induction s arbitrary: i j)
  case (Cons c s)
  show ?case
  proof (cases "prefix p (c # s)")
    case True
    with Cons.prems show ?thesis by simp
  next
    case False
    with Cons.prems obtain k where "strstr s p = Some k" "i = Suc k" by auto
    with Cons False show ?thesis by (cases j) auto
  qed
qed (auto split: if_splits)

lemma skip_slash_bounds:
  "skip_slash r p = Inr q \<Longrightarrow> p < q \<and> q \<le> p + length r"
proof (induction r arbitrary: p)
  case (Cons c r)
  then show ?case by (fastforce split: if_splits)
qed simp

text \<open>Behind the first slash, or at the end of the URL.\<close>

lemma skip_slash_eq:
  "CHR ''/'' \<notin> set w \<Longrightarrow> skip_slash (w @ CHR ''/'' # r) p = Inr (p + length w + 1)"
  by (induction w arbitrary: p) auto

lemma skip_slash_none:
  "CHR ''/'' \<notin> set w \<Longrightarrow> w \<noteq> [] \<Longrightarrow> skip_slash w p = Inr (p + length w)"
  by (induction w arbitrary: p) auto

lemma map_sum_Inr_iff:
  "map_sum (\<lambda>e. e) (\<lambda>i. (1, i)) x = Inr (r, i) \<longleftrightarrow> r = (1 :: nat) \<and> x = Inr i"
  "map_sum (\<lambda>e. e) (Pair (Suc 0)) x = Inr (r, i) \<longleftrightarrow> r = 1 \<and> x = Inr i"
  by (cases x; auto)+

lemma copy_id_zeroed:
  assumes "start \<le> stop" "stop \<le> length url" "stop - start + 1 < N" "NUL \<notin> set url"
  shows "\<exists>i. copy_id url start stop (replicate N NUL) = Inr i \<and>
     cstr i = take (stop - start) (drop start url) \<and> length i = N"
proof -
  let ?n = "stop - start" and ?s = "take (stop - start) (drop start url)"
  have s: "length ?s = ?n" "NUL \<notin> set ?s"
    using assms by (auto dest: in_set_takeD in_set_dropD)
  have "?s @ drop ?n (replicate N NUL) = ?s @ NUL # replicate (N - ?n - 1) NUL"
    using assms(3) by (simp add: Suc_diff_Suc [symmetric] replicate_Suc [symmetric] del: replicate_Suc)
  then have "(?s @ replicate (?n - length ?s) NUL @ drop ?n (replicate N NUL))[?n + 1 := NUL] =
      ?s @ NUL # (replicate (N - ?n - 1) NUL)[0 := NUL]"
    using s(1) by (simp add: list_update_append)
  moreover have "(replicate (N - ?n - 1) NUL)[0 := NUL] = replicate (N - ?n - 1) NUL"
    by (cases "N - ?n - 1") auto
  ultimately have "copy_id url start stop (replicate N NUL) = Inr (?s @ NUL # replicate (N - ?n - 1) NUL)"
    using assms unfolding copy_id_def Let_def by simp
  then show ?thesis using cstr_append_NUL [OF s(2)] s(1) assms(3) by auto
qed

text \<open>
  Every run of \<^verbatim>\<open>selectFunc\<close> that returns reports an identifier that is a substring of
  the URL, and on a flag outside 100..101 it leaves the buffer alone.
\<close>

lemma selectFunc_result:
  assumes "NUL \<notin> set url" "selectFunc url (replicate 2048 NUL) flag = Inr (r, i)"
  shows "(r = 0 \<and> i = replicate 2048 NUL) \<or>
     (r = 1 \<and> flag \<in> {100, 101} \<and> sublist (cstr i) url \<and> length (cstr i) < 2047)"
proof -
  have copy: "sublist (cstr j) url \<and> length (cstr j) < 2047"
    if c: "copy_id url a b (replicate 2048 NUL) = Inr j" and b: "b \<le> length url" for a b j
  proof -
    have ab: "a \<le> b" "b - a + 1 < 2048" using c by (auto simp: copy_id_def split: if_splits)
    from copy_id_zeroed [OF ab(1) b ab(2) assms(1)] c have "cstr j = take (b - a) (drop a url)" by auto
    moreover have "sublist (take (b - a) (drop a url)) url"
      using sublist_order.order_trans [OF sublist_take sublist_drop] .
    ultimately show ?thesis using ab(2) by simp
  qed
  have youku: ?thesis if "youkuExtractID url (replicate 2048 NUL) = Inr (r, i)" "flag = 100"
  proof (cases "r = 0")
    case True
    with that(1) show ?thesis unfolding youkuExtractID_def
      by (auto simp: map_sum_Inr_iff split: if_splits option.splits sum.splits prod.splits)
  next
    case False
    with that(1) obtain a e where *: "copy_id url a (e + 4) (replicate 2048 NUL) = Inr i" "r = 1"
      "strstr url ''.flv'' = Some e \<or> strstr url ''.mp4'' = Some e"
      unfolding youkuExtractID_def
      by (fastforce split: if_splits option.splits sum.splits prod.splits simp: map_sum_Inr_iff)
    from *(3) have "e + 4 \<le> length url" using strstr_prefix by fastforce
    with copy * that(2) show ?thesis by blast
  qed
  have letv: ?thesis if "letvExtractID url (replicate 2048 NUL) = Inr (r, i)" "flag = 101"
  proof (cases "r = 0")
    case True
    with that(1) show ?thesis unfolding letvExtractID_def
      by (auto simp: map_sum_Inr_iff split: if_splits option.splits sum.splits prod.splits)
  next
    case False
    with that(1) obtain a e where *: "copy_id url a (e + 3) (replicate 2048 NUL) = Inr i" "r = 1"
      "strstr url ''.ts'' = Some e"
      unfolding letvExtractID_def
      by (fastforce split: if_splits option.splits sum.splits prod.splits simp: map_sum_Inr_iff)
    from *(3) have "e + 3 \<le> length url" using strstr_prefix by fastforce
    with copy * that(2) show ?thesis by blast
  qed
  show ?thesis
    using assms(2) youku letv unfolding selectFunc_def pf_def by (auto split: if_splits)
qed

lemma selectFunc_bound:
  "NUL \<notin> set url \<Longrightarrow> selectFunc url (replicate 2048 NUL) flag = Inr (r, i) \<Longrightarrow> r \<noteq> 0 \<Longrightarrow>
     sublist (cstr i) url \<and> length (cstr i) < 2047"
  using selectFunc_result by blast

section \<open>Properties\<close>

lemmas strstr_eval = strstr.simps Cons_prefix_Cons append_Cons append_Nil

text \<open>
  The identifier of a Youku URL is the path behind its session component, up to the suffix: when
  \<^verbatim>\<open>/youku/\<close> first occurs behind \<open>host\<close>, and \<^verbatim>\<open>.flv\<close> (or \<^verbatim>\<open>.mp4\<close>, if there is no \<^verbatim>\<open>.flv\<close>) first
  occurs behind \<open>name\<close>, the buffer holds the name and the suffix; no byte outside the two buffers is
  touched.
\<close>

definition suffix_at :: "string \<Rightarrow> nat option" where
  "suffix_at url = (case strstr url ''.flv'' of Some e \<Rightarrow> Some e | None \<Rightarrow> strstr url ''.mp4'')"

lemma youku_id_is_file_name:
  assumes url: "url = host @ ''/youku/'' @ tok @ ''/'' @ name @ suf @ query" and suf: "length suf = 4"
    and first: "strstr url ''/youku/'' = Some (length host)"
      "suffix_at url = Some (length host + 7 + length tok + 1 + length name)"
    and nonk: "\<not> sublist ''.flv?nk='' url" "\<not> sublist ''.mp4?nk='' url"
    and tok: "CHR ''/'' \<notin> set tok" and small: "length name \<le> 1020" and nn: "NUL \<notin> set url"
  shows "\<exists>i. youkuExtractID url (replicate 2048 NUL) = Inr (1, i) \<and> cstr i = name @ suf"
proof -
  let ?b = "length host" and ?s = "length host + 7 + length tok + 1"
  have "drop (?b + 7) url = tok @ CHR ''/'' # name @ suf @ query" by (simp add: url)
  then have sk: "skip_slash (drop (?b + 7) url) (?b + 7) = Inr ?s"
    using skip_slash_eq [OF tok] by simp
  let ?e = "?s + length name"
  have len: "?e + 4 \<le> length url" by (simp add: url suf)
  have "?s \<le> ?e + 4" "?e + 4 - ?s + 1 < 2048" "?e + 4 - ?s = length name + 4" using small by simp_all
  with copy_id_zeroed [of ?s "?e + 4" url 2048] len nn obtain i where
    i: "copy_id url ?s (?e + 4) (replicate 2048 NUL) = Inr i" "cstr i = take (length name + 4) (drop ?s url)"
    by metis
  have "length (host @ ''/youku/'' @ tok @ ''/'') = ?s" by simp
  moreover have "url = (host @ ''/youku/'' @ tok @ ''/'') @ name @ suf @ query" by (simp add: url)
  ultimately have "drop ?s url = name @ suf @ query" by (metis append_eq_conv_conj)
  then have "cstr i = name @ suf" using i(2) suf by simp
  moreover have "youkuExtractID url (replicate 2048 NUL) = Inr (1, i)"
    unfolding youkuExtractID_def suffix_at_def [symmetric]
    using first nonk sk i(1) small strstr_Some_iff [of url] by (auto simp: ac_simps)
  ultimately show ?thesis by blast
qed

text \<open>URLs with the query parameter \<^verbatim>\<open>nk\<close> behind the suffix are left alone.\<close>

lemma youku_id_nk:
  assumes "sublist ''.flv?nk='' url \<or> sublist ''.mp4?nk='' url"
  shows "youkuExtractID url idbuf = Inr (0, idbuf)"
  using assms strstr_Some_iff [of url] unfolding youkuExtractID_def by (auto split: option.split)

text \<open>
  A Youku URL without a further slash behind \<^verbatim>\<open>/youku/\<close> and whose suffix ends it
  gives the empty identifier, and reports success: all such URLs share one identifier.
\<close>

theorem youku_id_without_slash_is_empty:
  assumes url: "url = host @ ''/youku/'' @ name @ ''.flv''"
    and first: "strstr url ''/youku/'' = Some (length host)"
      "strstr url ''.flv'' = Some (length host + 7 + length name)"
    and nonk: "\<not> sublist ''.flv?nk='' url" "\<not> sublist ''.mp4?nk='' url"
    and name: "CHR ''/'' \<notin> set name" and nn: "NUL \<notin> set url"
  shows "\<exists>i. youkuExtractID url (replicate 2048 NUL) = Inr (1, i) \<and> cstr i = []"
proof -
  have "drop (length host + 7) url = name @ ''.flv''" by (simp add: url)
  then have sk: "skip_slash (drop (length host + 7) url) (length host + 7) = Inr (length url)"
    using skip_slash_none [of "name @ ''.flv''" "length host + 7"] name by (simp add: url)
  from copy_id_zeroed [of "length url" "length url" url 2048] nn obtain i where
    i: "copy_id url (length url) (length url) (replicate 2048 NUL) = Inr i" "cstr i = []" by auto
  have "length host + 7 + length name + 4 = length url" by (simp add: url)
  with i(1) have "youkuExtractID url (replicate 2048 NUL) = Inr (1, i)"
    unfolding youkuExtractID_def
    using first nonk sk strstr_Some_iff [of url] by auto
  with i(2) show ?thesis by blast
qed

theorem youku_id_without_slash_is_empty_witness:
  "\<exists>i. youkuExtractID (''a'' @ ''/youku/'' @ ''03'' @ ''.flv'') (replicate 2048 NUL) = Inr (1, i) \<and> cstr i = []"
  by (rule youku_id_without_slash_is_empty [OF refl])
     (simp_all add: strstr_Some_iff [symmetric] del: strstr_Some_iff)

end
