(* ===== verification/Md5.thy ===== *)
theory Md5
  imports Prelude
begin

text \<open>
  The message digest of \<^verbatim>\<open>src/squid-2.7.STABLE9-new/lib/md5.c\<close>: \<^verbatim>\<open>SQUID_MD5Init\<close>,
  \<^verbatim>\<open>SQUID_MD5Update\<close>, \<^verbatim>\<open>SQUID_MD5Final\<close> and \<^verbatim>\<open>SQUID_MD5Transform\<close>, on a little-endian
  machine (where \<^verbatim>\<open>byteSwap\<close> is empty).

  The context's input buffer is an array of 16 words that the code fills byte by byte;
  it is the list of its 64 bytes here, and \<open>le_words\<close> reads the words of a block. The
  64 steps of the transformation are a table of the function, the word, the constant and
  the shift of each \<^verbatim>\<open>MD5STEP\<close>; the four registers rotate by one place per step, as the
  arguments of the macro do.

  The reference is the padding scheme applied to the whole message at once
  (\<open>md5_reference\<close>); the buffered code is shown to compute it for every way of cutting
  a message into pieces.
\<close>

unbundle bit_operations_syntax

section \<open>The transformation\<close>

type_synonym u32 = "32 word"
type_synonym md5_buf = "u32 \<times> u32 \<times> u32 \<times> u32"

definition F1 :: "u32 \<Rightarrow> u32 \<Rightarrow> u32 \<Rightarrow> u32" where
  "F1 x y z = z XOR (x AND (y XOR z))"

definition F2 :: "u32 \<Rightarrow> u32 \<Rightarrow> u32 \<Rightarrow> u32" where
  "F2 x y z = F1 z x y"

definition F3 :: "u32 \<Rightarrow> u32 \<Rightarrow> u32 \<Rightarrow> u32" where
  "F3 x y z = x XOR y XOR z"

definition F4 :: "u32 \<Rightarrow> u32 \<Rightarrow> u32 \<Rightarrow> u32" where
  "F4 x y z = y XOR (x OR NOT z)"

definition MD5STEP ::
  "(u32 \<Rightarrow> u32 \<Rightarrow> u32 \<Rightarrow> u32) \<Rightarrow> u32 \<Rightarrow> u32 \<Rightarrow> u32 \<Rightarrow> u32 \<Rightarrow> u32 \<Rightarrow> nat \<Rightarrow> u32" where
  "MD5STEP f w x y z inp s =
     (let w' = w + (f x y z + inp) in (push_bit s w' OR drop_bit (32 - s) w') + x)"

definition md5_steps :: "((u32 \<Rightarrow> u32 \<Rightarrow> u32 \<Rightarrow> u32) \<times> nat \<times> u32 \<times> nat) list" where
  "md5_steps = [
      (F1, 0, 0xd76aa478, 7), (F1, 1, 0xe8c7b756, 12), (F1, 2, 0x242070db, 17), (F1, 3, 0xc1bdceee, 22),
      (F1, 4, 0xf57c0faf, 7), (F1, 5, 0x4787c62a, 12), (F1, 6, 0xa8304613, 17), (F1, 7, 0xfd469501, 22),
      (F1, 8, 0x698098d8, 7), (F1, 9, 0x8b44f7af, 12), (F1, 10, 0xffff5bb1, 17), (F1, 11, 0x895cd7be, 22),
      (F1, 12, 0x6b901122, 7), (F1, 13, 0xfd987193, 12), (F1, 14, 0xa679438e, 17), (F1, 15, 0x49b40821, 22),
      (F2, 1, 0xf61e2562, 5), (F2, 6, 0xc040b340, 9), (F2, 11, 0x265e5a51, 14), (F2, 0, 0xe9b6c7aa, 20),
      (F2, 5, 0xd62f105d, 5), (F2, 10, 0x02441453, 9), (F2, 15, 0xd8a1e681, 14), (F2, 4, 0xe7d3fbc8, 20),
      (F2, 9, 0x21e1cde6, 5), (F2, 14, 0xc33707d6, 9), (F2, 3, 0xf4d50d87, 14), (F2, 8, 0x455a14ed, 20),
      (F2, 13, 0xa9e3e905, 5), (F2, 2, 0xfcefa3f8, 9), (F2, 7, 0x676f02d9, 14), (F2, 12, 0x8d2a4c8a, 20),
      (F3, 5, 0xfffa3942, 4), (F3, 8, 0x8771f681, 11), (F3, 11, 0x6d9d6122, 16), (F3, 14, 0xfde5380c, 23),
      (F3, 1, 0xa4beea44, 4), (F3, 4, 0x4bdecfa9, 11), (F3, 7, 0xf6bb4b60, 16), (F3, 10, 0xbebfbc70, 23),
      (F3, 13, 0x289b7ec6, 4), (F3, 0, 0xeaa127fa, 11), (F3, 3, 0xd4ef3085, 16), (F3, 6, 0x04881d05, 23),
      (F3, 9, 0xd9d4d039, 4), (F3, 12, 0xe6db99e5, 11), (F3, 15, 0x1fa27cf8, 16), (F3, 2, 0xc4ac5665, 23),
      (F4, 0, 0xf4292244, 6), (F4, 7, 0x432aff97, 10), (F4, 14, 0xab9423a7, 15), (F4, 5, 0xfc93a039, 21),
      (F4, 12, 0x655b59c3, 6), (F4, 3, 0x8f0ccc92, 10), (F4, 10, 0xffeff47d, 15), (F4, 1, 0x85845dd1, 21),
      (F4, 8, 0x6fa87e4f, 6), (F4, 15, 0xfe2ce6e0, 10), (F4, 6, 0xa3014314, 15), (F4, 13, 0x4e0811a1, 21),
      (F4, 4, 0xf7537e82, 6), (F4, 11, 0xbd3af235, 10), (F4, 2, 0x2ad7d2bb, 15), (F4, 9, 0xeb86d391, 21)]"

text \<open>One step: the register it changes comes first and moves behind the one it feeds.\<close>

fun md5_step ::
  "u32 list \<Rightarrow> (u32 \<Rightarrow> u32 \<Rightarrow> u32 \<Rightarrow> u32) \<times> nat \<times> u32 \<times> nat \<Rightarrow> md5_buf \<Rightarrow> md5_buf" where
  "md5_step inp (f, k, t, s) (w, x, y, z) = (z, MD5STEP f w x y z (inp ! k + t) s, x, y)"

text \<open>The words of a block of bytes, least significant byte first.\<close>

fun le_words :: "string \<Rightarrow> u32 list" where
  "le_words (a # b # c # d # s) =
     of_nat (of_char a + 2 ^ 8 * of_char b + 2 ^ 16 * of_char c + 2 ^ 24 * of_char d) # le_words s"
| "le_words _ = []"

definition le_bytes :: "u32 \<Rightarrow> string" where
  "le_bytes w = map (\<lambda>i. char_of (unat w div 256 ^ i)) [0..<4]"

definition SQUID_MD5Transform :: "md5_buf \<Rightarrow> string \<Rightarrow> md5_buf" where
  "SQUID_MD5Transform buf inp =
     (case fold (md5_step (le_words inp)) md5_steps buf of
        (a, b, c, d) \<Rightarrow> (case buf of (a0, b0, c0, d0) \<Rightarrow> (a0 + a, b0 + b, c0 + c, d0 + d)))"

section \<open>The context\<close>

record MD5Context =
  md5buf :: md5_buf
  bytes0 :: u32
  bytes1 :: u32
  md5in :: string

definition md5_iv :: md5_buf where
  "md5_iv = (0x67452301, 0xefcdab89, 0x98badcfe, 0x10325476)"

text \<open>The input buffer is not initialised; its old bytes are a parameter.\<close>

definition SQUID_MD5Init :: "string \<Rightarrow> MD5Context" where
  "SQUID_MD5Init stale = \<lparr>md5buf = md5_iv, bytes0 = 0, bytes1 = 0, md5in = stale\<rparr>"

text \<open>The loop over the 64-byte chunks.\<close>

function md5_blocks :: "md5_buf \<Rightarrow> string \<Rightarrow> md5_buf \<times> string" where
  "md5_blocks buf s =
     (if 64 \<le> length s then md5_blocks (SQUID_MD5Transform buf (take 64 s)) (drop 64 s) else (buf, s))"
  by pat_completeness auto
termination
  by (relation "measure (\<lambda>(buf, s). length s)") auto

declare md5_blocks.simps [simp del]

definition SQUID_MD5Update :: "MD5Context \<Rightarrow> string \<Rightarrow> MD5Context" where
  "SQUID_MD5Update ctx s =
     (let len = length s;
          t = bytes0 ctx;
          b0 = t + of_nat len;
          ctx1 = ctx\<lparr>bytes0 := b0, bytes1 := (if b0 < t then bytes1 ctx + 1 else bytes1 ctx)\<rparr>;
          room = 64 - unat (t AND 0x3f);
          kept = take (64 - room) (md5in ctx)
      in if room > len then ctx1\<lparr>md5in := kept @ s @ drop (64 - room + len) (md5in ctx)\<rparr>
         else (let first = kept @ take room s;
                   buf1 = SQUID_MD5Transform (md5buf ctx) first
               in (case md5_blocks buf1 (drop room s) of
                     (buf2, rest) \<Rightarrow>
                       ctx1\<lparr>md5buf := buf2,
                            md5in := rest @ drop (length rest)
                              (if 64 \<le> length s - room
                               then take 64 (drop (length s - length rest - 64) s) else first)\<rparr>)))"

definition le_bytes2 :: "u32 \<Rightarrow> u32 \<Rightarrow> string" where
  "le_bytes2 lo hi = le_bytes lo @ le_bytes hi"

text \<open>The 16 bytes of the digest; the context is not used again.\<close>

definition SQUID_MD5Final :: "MD5Context \<Rightarrow> string" where
  "SQUID_MD5Final ctx =
     (let n = unat (bytes0 ctx AND 0x3f);
          head = take n (md5in ctx) @ [CHR 0x80];
          lenbytes = le_bytes2 (push_bit 3 (bytes0 ctx)) (push_bit 3 (bytes1 ctx) OR drop_bit 29 (bytes0 ctx));
          buf1 = (if n < 56
                  then SQUID_MD5Transform (md5buf ctx) (head @ replicate (55 - n) NUL @ lenbytes)
                  else SQUID_MD5Transform
                         (SQUID_MD5Transform (md5buf ctx) (head @ replicate (63 - n) NUL))
                         (replicate 56 NUL @ lenbytes))
      in (case buf1 of (a, b, c, d) \<Rightarrow> concat (map le_bytes [a, b, c, d])))"

section \<open>The reference\<close>

definition md5_pad :: "string \<Rightarrow> string" where
  "md5_pad m =
     m @ [CHR 0x80] @ replicate (nat ((55 - int (length m)) mod 64)) NUL @
     map (\<lambda>i. char_of ((8 * length m) div 256 ^ i)) [0..<8]"

definition md5_reference :: "string \<Rightarrow> string" where
  "md5_reference m =
     (case fst (md5_blocks md5_iv (md5_pad m)) of (a, b, c, d) \<Rightarrow> concat (map le_bytes [a, b, c, d]))"

section \<open>Chunks\<close>

lemma md5_blocks_short: "length s < 64 \<Longrightarrow> md5_blocks b s = (b, s)"
  by (subst md5_blocks.simps) simp

lemma md5_blocks_one:
  "length x = 64 \<Longrightarrow> md5_blocks b (x @ s) = md5_blocks (SQUID_MD5Transform b x) s"
  by (subst md5_blocks.simps) simp

lemma md5_blocks_rest: "length (snd (md5_blocks b s)) = length s mod 64"
proof (induction b s rule: md5_blocks.induct)
  case (1 b s)
  show ?case
  proof (cases "64 \<le> length s")
    case True
    with 1 show ?thesis by (subst md5_blocks.simps) (simp add: le_mod_geq)
  qed (simp add: md5_blocks_short)
qed

lemma md5_blocks_append:
  "md5_blocks b (m @ s) = (case md5_blocks b m of (b', r) \<Rightarrow> md5_blocks b' (r @ s))"
proof (induction b m rule: md5_blocks.induct)
  case (1 b m)
  show ?case
  proof (cases "64 \<le> length m")
    case True
    have "md5_blocks b (m @ s) = md5_blocks (SQUID_MD5Transform b (take 64 m)) (drop 64 m @ s)"
      using True by (subst md5_blocks.simps) simp
    also have "\<dots> = (case md5_blocks (SQUID_MD5Transform b (take 64 m)) (drop 64 m) of
        (b', r) \<Rightarrow> md5_blocks b' (r @ s))" using 1 True by simp
    also have "md5_blocks (SQUID_MD5Transform b (take 64 m)) (drop 64 m) = md5_blocks b m"
      using True by (subst (2) md5_blocks.simps) simp
    finally show ?thesis .
  qed (simp add: md5_blocks_short)
qed

section \<open>The state of a digest in progress\<close>

text \<open>The context after the bytes \<open>m\<close>: byte count, absorbed blocks and pending bytes.\<close>

definition digesting :: "string \<Rightarrow> MD5Context \<Rightarrow> bool" where
  "digesting m ctx \<longleftrightarrow>
     length (md5in ctx) = 64 \<and>
     unat (bytes0 ctx) = length m mod 2 ^ 32 \<and>
     unat (bytes1 ctx) = length m div 2 ^ 32 mod 2 ^ 32 \<and>
     md5_blocks md5_iv m = (md5buf ctx, take (length m mod 64) (md5in ctx))"

lemma unat_and_63: "unat (w AND (0x3f :: u32)) = unat w mod 64"
proof -
  have "w AND 0x3f = take_bit 6 w" by (simp add: take_bit_eq_mask mask_eq_decr_exp)
  then show ?thesis by (simp add: take_bit_eq_mod unat_mod)
qed

lemma digesting_room: "digesting m ctx \<Longrightarrow> unat (bytes0 ctx AND 0x3f) = length m mod 64"
  by (simp add: digesting_def unat_and_63 mod_mod_cancel)

lemma digesting_init: "length stale = 64 \<Longrightarrow> digesting [] (SQUID_MD5Init stale)"
  by (simp add: digesting_def SQUID_MD5Init_def md5_blocks_short)

text \<open>The carry from the low to the high count.\<close>

lemma count_carry:
  fixes b0 b1 :: u32
  assumes "unat b0 = n mod 2 ^ 32" "unat b1 = n div 2 ^ 32 mod 2 ^ 32" "k < 2 ^ 32"
  shows "unat (b0 + of_nat k) = (n + k) mod 2 ^ 32"
    and "unat (if b0 + of_nat k < b0 then b1 + 1 else b1) = (n + k) div 2 ^ 32 mod 2 ^ 32"
proof -
  have k: "unat (of_nat k :: u32) = k" using assms(3) by (simp add: unat_of_nat)
  show 1: "unat (b0 + of_nat k) = (n + k) mod 2 ^ 32"
    using assms(1) k by (simp add: unat_word_ariths mod_simps)
  let ?r = "n mod 2 ^ 32" and ?q = "n div 2 ^ 32"
  have n: "n = 2 ^ 32 * ?q + ?r" by simp
  have less: "b0 + of_nat k < b0 \<longleftrightarrow> (n + k) mod 2 ^ 32 < ?r"
    unfolding word_less_nat_alt 1 assms(1) ..
  have sum: "(n + k) div 2 ^ 32 = ?q + (?r + k) div 2 ^ 32" "(n + k) mod 2 ^ 32 = (?r + k) mod 2 ^ 32"
  proof -
    have "(2 ^ 32 * ?q + (?r + k)) div 2 ^ 32 = ?q + (?r + k) div 2 ^ 32" by (rule div_mult_self4) simp
    then show "(n + k) div 2 ^ 32 = ?q + (?r + k) div 2 ^ 32" using n by (metis add.assoc)
    show "(n + k) mod 2 ^ 32 = (?r + k) mod 2 ^ 32" by (simp add: mod_simps)
  qed
  show "unat (if b0 + of_nat k < b0 then b1 + 1 else b1) = (n + k) div 2 ^ 32 mod 2 ^ 32"
  proof (cases "?r + k < 2 ^ 32")
    case True
    then have "\<not> b0 + of_nat k < b0" unfolding less sum by simp
    moreover have "(?r + k) div 2 ^ 32 = 0" using True by (rule div_less)
    ultimately show ?thesis unfolding sum(1) using assms(2) by simp
  next
    case False
    have "?r < 2 ^ 32" by simp
    with False assms(3) have c: "(?r + k) div 2 ^ 32 = 1" "(?r + k) mod 2 ^ 32 = ?r + k - 2 ^ 32"
      by (simp_all add: div_nat_eqI mod_nat_eqI)
    then have "b0 + of_nat k < b0" unfolding less sum c(2) using assms(3) False by linarith
    then show ?thesis unfolding sum(1) c(1) using assms(2) by (simp add: unat_word_ariths mod_simps)
  qed
qed

lemma md5_sel:
  "bytes0 (c\<lparr>bytes0 := x, bytes1 := y, md5buf := b, md5in := i\<rparr>) = x"
  "bytes1 (c\<lparr>bytes0 := x, bytes1 := y, md5buf := b, md5in := i\<rparr>) = y"
  "md5buf (c\<lparr>bytes0 := x, bytes1 := y, md5buf := b, md5in := i\<rparr>) = b"
  "md5in (c\<lparr>bytes0 := x, bytes1 := y, md5buf := b, md5in := i\<rparr>) = i"
  by simp_all

lemma digesting_update:
  assumes d: "digesting m ctx" and len: "length s < 2 ^ 32"
  shows "digesting (m @ s) (SQUID_MD5Update ctx s)"
proof -
  let ?k = "length m mod 64"
  let ?r = "take ?k (md5in ctx)"
  have k: "?k < 64" "length (md5in ctx) = 64" "length ?r = ?k" using d by (simp_all add: digesting_def)
  have room: "64 - (64 - ?k) = ?k" "64 - unat (bytes0 ctx AND 0x3f) = 64 - ?k"
    using k digesting_room [OF d] by simp_all
  have blocks: "md5_blocks md5_iv (m @ s) = md5_blocks (md5buf ctx) (?r @ s)"
    using d md5_blocks_append [of md5_iv m s] by (simp add: digesting_def)
  let ?b1 = "if bytes0 ctx + of_nat (length s) < bytes0 ctx then bytes1 ctx + 1 else bytes1 ctx"
  have counts: "unat (bytes0 ctx + of_nat (length s)) = length (m @ s) mod 2 ^ 32"
    "unat ?b1 = length (m @ s) div 2 ^ 32 mod 2 ^ 32"
    using count_carry [OF _ _ len, of "bytes0 ctx" "length m" "bytes1 ctx"] d
    by (simp_all add: digesting_def)
  show ?thesis
  proof (cases "length s < 64 - ?k")
    case True
    let ?ctx = "ctx\<lparr>bytes0 := bytes0 ctx + of_nat (length s), bytes1 := ?b1,
      md5in := ?r @ s @ drop (?k + length s) (md5in ctx)\<rparr>"
    have u: "SQUID_MD5Update ctx s = ?ctx"
      using True unfolding SQUID_MD5Update_def Let_def room by simp
    have m: "length (m @ s) mod 64 = ?k + length s"
      using True by (metis length_append less_diff_conv add.commute mod_add_left_eq mod_less)
    have "md5_blocks md5_iv (m @ s) = (md5buf ctx, ?r @ s)"
      unfolding blocks using True k by (intro md5_blocks_short) simp
    moreover have "take (?k + length s) (?r @ s @ drop (?k + length s) (md5in ctx)) = ?r @ s"
      using k by simp
    moreover have "length (?r @ s @ drop (?k + length s) (md5in ctx)) = 64"
      using True k by simp
    moreover have "md5in ?ctx = ?r @ s @ drop (?k + length s) (md5in ctx)" "md5buf ?ctx = md5buf ctx"
      "bytes0 ?ctx = bytes0 ctx + of_nat (length s)" "bytes1 ?ctx = ?b1" by simp_all
    ultimately show ?thesis
      unfolding digesting_def u m using counts by (simp only: simp_thms)
  next
    case False
    let ?f = "?r @ take (64 - ?k) s"
    obtain buf2 rest where br: "md5_blocks (SQUID_MD5Transform (md5buf ctx) ?f) (drop (64 - ?k) s) = (buf2, rest)"
      by (cases "md5_blocks (SQUID_MD5Transform (md5buf ctx) ?f) (drop (64 - ?k) s)")
    have f: "length ?f = 64" using False k by simp
    have split: "?r @ s = ?f @ drop (64 - ?k) s" by simp
    have b: "md5_blocks md5_iv (m @ s) = (buf2, rest)"
      unfolding blocks split md5_blocks_one [OF f] br ..
    have lr: "length rest = length (m @ s) mod 64" using md5_blocks_rest [of md5_iv "m @ s"] b by simp
    let ?prev = "if 64 \<le> length s - (64 - ?k)
                 then take 64 (drop (length s - length rest - 64) s) else ?f"
    have u: "SQUID_MD5Update ctx s = ctx\<lparr>bytes0 := bytes0 ctx + of_nat (length s), bytes1 := ?b1,
        md5buf := buf2, md5in := rest @ drop (length rest) ?prev\<rparr>"
      using False unfolding SQUID_MD5Update_def Let_def room by (simp add: br)
    have rl: "length rest < 64" "length rest = (length s - (64 - ?k)) mod 64"
      using md5_blocks_rest [of "SQUID_MD5Transform (md5buf ctx) ?f" "drop (64 - ?k) s"] br by simp_all
    have "length ?prev = 64"
    proof (cases "64 \<le> length s - (64 - ?k)")
      case True
      let ?L = "length s - (64 - ?k)"
      have "1 \<le> ?L div 64" using True by (simp add: div_le_mono [of 64, simplified])
      then have "?L mod 64 + 64 \<le> ?L" using div_mult_mod_eq [of ?L 64] by linarith
      then have "length rest + 64 \<le> length s"
        using rl(2) diff_le_self [of "length s" "64 - ?k"] by linarith
      with True show ?thesis by simp
    qed (use f in simp)
    then have "length (rest @ drop (length rest) ?prev) = 64" using rl by simp
    moreover have "take (length (m @ s) mod 64) (rest @ drop (length rest) ?prev) = rest"
      unfolding lr [symmetric] by simp
    moreover have "bytes0 (SQUID_MD5Update ctx s) = bytes0 ctx + of_nat (length s)"
      "bytes1 (SQUID_MD5Update ctx s) = ?b1" "md5buf (SQUID_MD5Update ctx s) = buf2"
      "md5in (SQUID_MD5Update ctx s) = rest @ drop (length rest) ?prev"
      unfolding u by (rule md5_sel)+
    ultimately show ?thesis unfolding digesting_def using counts b by (simp only: simp_thms)
  qed
qed

section \<open>Finishing\<close>

lemma length_le_bytes [simp]: "length (le_bytes w) = 4"
  by (simp add: le_bytes_def)

lemma char_of_mod: "n mod 256 = n' mod 256 \<Longrightarrow> (char_of n :: char) = char_of (n' :: nat)"
  by (metis char_of_mod_256)

text \<open>The bit count of the last block: eight bytes of eight times the length.\<close>

lemma le_bytes_nth: "i < 4 \<Longrightarrow> le_bytes w ! i = char_of (unat w div 256 ^ i)"
  by (simp add: le_bytes_def)

lemma unat_high_count:
  fixes b0 b1 :: u32
  assumes "unat b0 = n mod 2 ^ 32" "unat b1 = n div 2 ^ 32 mod 2 ^ 32"
  shows "unat (push_bit 3 b0) = 8 * n mod 2 ^ 32"
    and "unat (push_bit 3 b1 OR drop_bit 29 b0) = 8 * n div 2 ^ 32 mod 2 ^ 32"
proof -
  have p: "unat (push_bit 3 w) = 8 * unat w mod 2 ^ 32" for w :: u32
    by (simp add: push_bit_eq_mult unat_word_ariths mult.commute)
  show "unat (push_bit 3 b0) = 8 * n mod 2 ^ 32"
    unfolding p assms(1) by (simp add: mod_simps)
  have "push_bit 3 b1 AND drop_bit 29 b0 = 0"
  proof (rule bit_eqI)
    fix i assume "possible_bit TYPE(u32) i"
    show "bit (push_bit 3 b1 AND drop_bit 29 b0) i = bit 0 i"
      using bit_imp_le_length [of b0 "29 + i"] by (auto simp: bit_and_iff bit_push_bit_iff bit_drop_bit_eq)
  qed
  then have "push_bit 3 b1 OR drop_bit 29 b0 = push_bit 3 b1 + drop_bit 29 b0"
    by (rule disjunctive_add_eq_or [symmetric])
  moreover have "unat (drop_bit 29 b0) = n mod 2 ^ 32 div 2 ^ 29"
    by (simp add: assms(1) drop_bit_eq_div unat_div)
  ultimately have "unat (push_bit 3 b1 OR drop_bit 29 b0) =
      (8 * unat b1 + n mod 2 ^ 32 div 2 ^ 29) mod 2 ^ 32"
    by (simp add: unat_word_ariths p mod_simps)
  also have "\<dots> = (8 * (n div 2 ^ 32) + n mod 2 ^ 32 div 2 ^ 29) mod 2 ^ 32"
    unfolding assms(2) by (metis mod_add_left_eq mod_mult_right_eq)
  also have "8 * (n div 2 ^ 32) + n mod 2 ^ 32 div 2 ^ 29 = 8 * n div 2 ^ 32"
  proof -
    define q r where "q = n div 2 ^ 32" and "r = n mod 2 ^ 32"
    have n: "8 * n = 2 ^ 32 * (8 * q) + 8 * r"
    proof -
      have "n = q * 2 ^ 32 + r" unfolding q_def r_def by simp
      then show ?thesis by simp
    qed
    have "8 * n div 2 ^ 32 = 8 * q + 8 * r div 2 ^ 32" unfolding n by (rule div_mult_self4) simp
    also have "8 * r div 2 ^ 32 = r div 2 ^ 29"
      using div_mult_mult1 [of 8 r "2 ^ 29"] by simp
    finally show ?thesis by (simp only: q_def r_def)
  qed
  finally show "unat (push_bit 3 b1 OR drop_bit 29 b0) = 8 * n div 2 ^ 32 mod 2 ^ 32" .
qed

lemma count_bytes:
  fixes lo hi :: u32
  assumes "unat lo = n mod 2 ^ 32" "unat hi = n div 2 ^ 32 mod 2 ^ 32"
  shows "le_bytes2 lo hi = map (\<lambda>i. char_of (n div 256 ^ i)) [0..<8]"
proof -
  have d: "n mod 2 ^ 32 div 256 ^ i mod 256 = n div 256 ^ i mod 256" if "i < 4" for i n :: nat
  proof -
    have e: "(2 :: nat) ^ 32 = 256 ^ i * 256 ^ (4 - i)" using that by (simp flip: power_add)
    have "n mod 2 ^ 32 div 256 ^ i = n div 256 ^ i mod 256 ^ (4 - i)"
      unfolding e mod_mult2_eq by simp
    moreover have "256 dvd (256 :: nat) ^ (4 - i)" using that by (simp add: dvd_power)
    ultimately show ?thesis by (simp add: mod_mod_cancel)
  qed
  have lo: "le_bytes lo = map (\<lambda>i. char_of (n div 256 ^ i)) [0..<4]"
    unfolding le_bytes_def assms(1) by (intro map_cong refl char_of_mod d) simp
  have "le_bytes hi = map (\<lambda>i. char_of (n div 2 ^ 32 div 256 ^ i)) [0..<4]"
    unfolding le_bytes_def assms(2) by (intro map_cong refl char_of_mod d) simp
  also have "\<dots> = map (\<lambda>i. char_of (n div 256 ^ (i + 4))) [0..<4]"
    by (simp add: div_mult2_eq [symmetric] power_add mult.commute del: upt_rec_numeral)
  also have "\<dots> = map (\<lambda>i. char_of (n div 256 ^ i)) [4..<8]"
    by (simp add: upt_rec)
  finally show ?thesis
    using lo upt_add_eq_append [of 0 4 4] by (simp add: le_bytes2_def del: upt_rec_numeral)
qed

lemma pad_length:
  assumes "n = k mod 64"
  shows "nat ((55 - int k) mod 64) = (if n < 56 then 55 - n else 119 - n)"
proof -
  have k: "(55 - int k) mod 64 = (55 - int n) mod 64" unfolding assms by (simp add: zmod_int mod_simps)
  show ?thesis
  proof (cases "n < 56")
    case True
    then show ?thesis unfolding k by (simp add: nat_diff_distrib)
  next
    case False
    have "n < 64" unfolding assms by simp
    have "(55 - int n) mod 64 = 119 - int n"
    proof -
      have "(55 - int n) mod 64 = (119 - int n) mod 64" using mod_add_self2 [of "55 - int n" 64] by simp
      also have "\<dots> = 119 - int n" using False \<open>n < 64\<close> by (intro mod_pos_pos_trivial) simp_all
      finally show ?thesis .
    qed
    then show ?thesis unfolding k using False by simp
  qed
qed

lemma digesting_final:
  assumes d: "digesting m ctx"
  shows "SQUID_MD5Final ctx = md5_reference m"
proof -
  let ?n = "length m mod 64"
  let ?r = "take ?n (md5in ctx)"
  let ?len = "map (\<lambda>i. char_of ((8 * length m) div 256 ^ i)) [0..<8] :: string"
  have n: "?n < 64" "length ?r = ?n" using d by (simp_all add: digesting_def)
  have cnt: "unat (bytes0 ctx AND 0x3f) = ?n" using d by (rule digesting_room)
  have len: "le_bytes2 (push_bit 3 (bytes0 ctx)) (push_bit 3 (bytes1 ctx) OR drop_bit 29 (bytes0 ctx)) = ?len"
    using d unat_high_count [of "bytes0 ctx" "length m" "bytes1 ctx"]
    by (intro count_bytes) (simp_all only: digesting_def)
  have start: "md5_blocks md5_iv (m @ t) = md5_blocks (md5buf ctx) (?r @ t)" for t
    using d md5_blocks_append [of md5_iv m t] by (simp add: digesting_def)
  have two: "fst (md5_blocks b (x @ y)) = SQUID_MD5Transform (SQUID_MD5Transform b x) y"
    if "length x = 64" "length y = 64" for b x y
    using that md5_blocks_one [of y _ "[]"] by (simp add: md5_blocks_one md5_blocks_short)
  have one: "fst (md5_blocks b x) = SQUID_MD5Transform b x" if "length x = 64" for b x
    using that md5_blocks_one [of x b "[]"] by (simp add: md5_blocks_short)
  have "fst (md5_blocks md5_iv (md5_pad m)) =
      (if ?n < 56
       then SQUID_MD5Transform (md5buf ctx) ((?r @ [CHR 0x80]) @ replicate (55 - ?n) NUL @ ?len)
       else SQUID_MD5Transform (SQUID_MD5Transform (md5buf ctx) ((?r @ [CHR 0x80]) @ replicate (63 - ?n) NUL))
              (replicate 56 NUL @ ?len))"
  proof (cases "?n < 56")
    case True
    then show ?thesis unfolding md5_pad_def start pad_length [OF refl]
      using n by (subst one) (simp_all del: upt_rec_numeral)
  next
    case False
    then have "replicate (119 - ?n) NUL = replicate (63 - ?n) NUL @ replicate 56 NUL"
      using n by (simp add: replicate_add [symmetric])
    with False show ?thesis unfolding md5_pad_def start pad_length [OF refl]
      using n two [of "(?r @ [CHR 0x80]) @ replicate (63 - ?n) NUL" "replicate 56 NUL @ ?len" "md5buf ctx"]
      by (simp del: upt_rec_numeral)
  qed
  then show ?thesis
    unfolding SQUID_MD5Final_def md5_reference_def Let_def cnt len by simp
qed

section \<open>The interface of a buffered digest\<close>

locale stream_digest =
  fixes init :: "string \<Rightarrow> 'c"
    and upd :: "'c \<Rightarrow> string \<Rightarrow> 'c"
    and fin :: "'c \<Rightarrow> string"
    and absorbed :: "string \<Rightarrow> 'c \<Rightarrow> bool"
    and hash :: "string \<Rightarrow> string"
  assumes absorbed_init: "length stale = 64 \<Longrightarrow> absorbed [] (init stale)"
    and absorbed_upd: "absorbed m c \<Longrightarrow> length s < 2 ^ 32 \<Longrightarrow> absorbed (m @ s) (upd c s)"
    and fin_hash: "absorbed m c \<Longrightarrow> fin c = hash m"
begin

lemma absorbed_upds:
  "absorbed m c \<Longrightarrow> list_all (\<lambda>s. length s < 2 ^ 32) ss \<Longrightarrow> absorbed (m @ concat ss) (foldl upd c ss)"
proof (induction ss arbitrary: m c)
  case (Cons s ss)
  from Cons.prems absorbed_upd have "absorbed (m @ s) (upd c s)" by simp
  from Cons.IH [OF this] Cons.prems(2) show ?case by simp
qed simp

lemma fin_pieces:
  "length stale = 64 \<Longrightarrow> list_all (\<lambda>s. length s < 2 ^ 32) ss \<Longrightarrow>
     fin (foldl upd (init stale) ss) = hash (concat ss)"
  using absorbed_upds [OF absorbed_init] fin_hash by fastforce

end

interpretation md5: stream_digest SQUID_MD5Init SQUID_MD5Update SQUID_MD5Final digesting md5_reference
  by unfold_locales (fact digesting_init digesting_update digesting_final)+

text \<open>
  C31. The buffered digest computes the reference for every way of cutting the message
  into pieces: initialise, update with each piece, finish is the padding and
  compression of the concatenation, with the 64-bit count carried across the two
  32-bit halves and the message's partial blocks kept in the context. The bytes the
  uninitialised input buffer starts with do not matter.
\<close>

theorem md5_pieces_refine_reference:
  assumes "length stale = 64" "list_all (\<lambda>s. length s < 2 ^ 32) ss"
  shows "SQUID_MD5Final (foldl SQUID_MD5Update (SQUID_MD5Init stale) ss) = md5_reference (concat ss)"
  using assms by (rule md5.fin_pieces)

theorem md5_pieces_refine_reference_witness:
  "SQUID_MD5Final (foldl SQUID_MD5Update (SQUID_MD5Init (replicate 64 (CHR 0xFF))) [''ab'', ''c'']) =
     md5_reference ''abc''"
  using md5_pieces_refine_reference [of "replicate 64 (CHR 0xFF)" "[''ab'', ''c'']"] by simp

section \<open>A test vector\<close>

lemma empty_pad: "md5_pad [] = CHR 0x80 # replicate 63 NUL"
proof -
  have "[NUL, NUL, NUL, NUL, NUL, NUL, NUL, NUL] = replicate 8 NUL" by (simp add: numeral_eq_Suc)
  then have "replicate 55 NUL @ [NUL, NUL, NUL, NUL, NUL, NUL, NUL, NUL] = replicate (55 + 8) NUL"
    unfolding replicate_add by simp
  then show ?thesis by (simp add: md5_pad_def upt_rec char_of_def)
qed

lemma zero_words: "le_words (replicate (4 * n) NUL) = replicate n 0"
proof (induction n)
  case (Suc n)
  have "replicate (4 * Suc n) NUL = NUL # NUL # NUL # NUL # replicate (4 * n) NUL"
    by (simp add: numeral_eq_Suc)
  with Suc show ?case by simp
qed simp

lemma empty_words: "le_words (CHR 0x80 # replicate 63 NUL) = 0x80 # replicate 15 0"
proof -
  have "replicate 63 NUL = NUL # NUL # NUL # replicate (4 * 15) NUL"
    using replicate_Suc [of 60 NUL] replicate_Suc [of 61 NUL] replicate_Suc [of 62 NUL] by simp
  then show ?thesis using zero_words [of 15] by simp
qed

lemma empty_word_nth: "k < 16 \<Longrightarrow> (0x80 # replicate 15 (0::u32)) ! k = (if k = 0 then 0x80 else 0)"
  by (cases k) auto

lemmas md5_unroll = md5_steps_def md5_iv_def MD5STEP_def F1_def F2_def F3_def F4_def Let_def

lemma empty_transform: "SQUID_MD5Transform md5_iv (md5_pad []) = (0xd98c1dd4, 0x04b2008f, 0x980980e9, 0x7e42f8ec)"
  unfolding SQUID_MD5Transform_def empty_pad empty_words
  by (simp add: md5_unroll empty_word_nth del: nth_Cons_0 nth_Cons_numeral replicate.simps)

text \<open>
  The digest of the empty message is the published test vector of the algorithm
  (RFC 1321): all 64 steps of the transformation and the padding are evaluated.
\<close>

theorem md5_empty:
  "map (of_char :: char \<Rightarrow> nat) (SQUID_MD5Final (SQUID_MD5Init (replicate 64 NUL))) =
   [0xd4, 0x1d, 0x8c, 0xd9, 0x8f, 0x00, 0xb2, 0x04, 0xe9, 0x80, 0x09, 0x98, 0xec, 0xf8, 0x42, 0x7e]"
proof -
  have "md5_blocks md5_iv (md5_pad []) = (SQUID_MD5Transform md5_iv (md5_pad []), [])"
    using md5_blocks_one [of "md5_pad []" md5_iv "[]"] by (simp add: md5_blocks_short empty_pad)
  then have "SQUID_MD5Final (SQUID_MD5Init (replicate 64 NUL)) =
      concat (map le_bytes [0xd98c1dd4, 0x04b2008f, 0x980980e9, 0x7e42f8ec])"
    using digesting_final [OF digesting_init, of "replicate 64 NUL"]
    by (simp add: md5_reference_def empty_transform)
  then show ?thesis by (simp add: le_bytes_def upt_rec)
qed

end
