(* ===== verification/StoreKey.thy ===== *)
theory StoreKey
  imports Keyword_Matcher Videoreg Md5
begin

text \<open>
  The cache keys of \<^verbatim>\<open>src/squid-2.7.STABLE9-new/src/store_key_md5.c\<close>. The public key of
  an object is the digest of its method and its URL; where the matcher recognises a video
  URL, the identifier of the video takes the place of the URL, so that all the URLs of one
  video share one cache entry.

  The two matchers of \<^verbatim>\<open>acsm_cap\<close> are state (a search counts matches in them). The
  uninitialised bytes of a digest context are the parameter \<open>stale\<close>. A query string that
  does not fit its array of 2048 bytes with its terminator is \<^const>\<open>OutOfBounds\<close>, a
  missing matcher \<^const>\<open>Undefined\<close>.
\<close>

section \<open>Keys as text and as table indices\<close>

definition hex_digit :: "nat \<Rightarrow> char" where
  "hex_digit n = (if n < 10 then char_of (48 + n) else char_of (55 + n))"

definition storeKeyText :: "string \<Rightarrow> string" where
  "storeKeyText key =
     concat (map (\<lambda>c. [hex_digit (of_char c div 16), hex_digit (of_char c mod 16)]) (take 16 key))"

definition hex_value :: "char \<Rightarrow> nat option" where
  "hex_value c =
     (let n = of_char c :: nat in
      if 48 \<le> n \<and> n \<le> 57 then Some (n - 48)
      else if 65 \<le> n \<and> n \<le> 70 then Some (n - 55)
      else if 97 \<le> n \<and> n \<le> 102 then Some (n - 87) else None)"

text \<open>
  \<^verbatim>\<open>strtol (t, NULL, 16)\<close> of a string of two bytes, as an \<^verbatim>\<open>unsigned char\<close>: two digits, a
  digit behind a blank or a sign, a digit alone, or 0.
\<close>

definition strtol2 :: "char \<Rightarrow> char \<Rightarrow> nat" where
  "strtol2 a b =
     (case hex_value a of
        Some x \<Rightarrow> (case hex_value b of Some y \<Rightarrow> 16 * x + y | None \<Rightarrow> x)
      | None \<Rightarrow>
          if isspace_c a then (case hex_value b of Some y \<Rightarrow> y | None \<Rightarrow> 0)
          else if a = CHR ''+'' then (case hex_value b of Some y \<Rightarrow> y | None \<Rightarrow> 0)
          else if a = CHR ''-'' then (case hex_value b of Some y \<Rightarrow> (256 - y) mod 256 | None \<Rightarrow> 0)
          else 0)"

fun scan_pairs :: "nat \<Rightarrow> string \<Rightarrow> string res" where
  "scan_pairs 0 buf = Inr []"
| "scan_pairs (Suc n) (a # b # buf) =
     map_sum (\<lambda>e. e) (\<lambda>s. char_of (strtol2 a b) # s) (scan_pairs n buf)"
| "scan_pairs (Suc n) _ = Inl OutOfBounds"

definition storeKeyScan :: "string \<Rightarrow> string res" where
  "storeKeyScan buf = scan_pairs 16 buf"

fun cmp_bytes :: "nat \<Rightarrow> string \<Rightarrow> string \<Rightarrow> int" where
  "cmp_bytes 0 A B = 0"
| "cmp_bytes (Suc n) (a # A) (b # B) =
     (if (of_char a :: nat) < of_char b then -1
      else if (of_char a :: nat) > of_char b then 1 else cmp_bytes n A B)"
| "cmp_bytes (Suc n) _ _ = 0"

definition storeKeyHashCmp :: "string \<Rightarrow> string \<Rightarrow> int" where
  "storeKeyHashCmp a b = cmp_bytes 16 a b"

definition storeKeyHashHash :: "string \<Rightarrow> u32 \<Rightarrow> u32" where
  "storeKeyHashHash key n =
     (let i = (of_nat (of_char (key ! 0)) :: u32) OR push_bit 8 (of_nat (of_char (key ! 1)))
              OR push_bit 16 (of_nat (of_char (key ! 2))) OR push_bit 24 (of_nat (of_char (key ! 3)))
      in i AND (n - 1))"

text \<open>The doubling loop; an \<^verbatim>\<open>int\<close> that would pass \<open>2 ^ 31\<close> is undefined.\<close>

fun bucket_loop :: "nat \<Rightarrow> nat \<Rightarrow> nat \<Rightarrow> nat option" where
  "bucket_loop fuel n nbuckets =
     (if nbuckets \<le> n then Some n
      else (case fuel of
          0 \<Rightarrow> None
        | Suc f \<Rightarrow> if 2 * n < 2147483648 then bucket_loop f (2 * n) nbuckets else None))"

declare bucket_loop.simps [simp del]

definition storeKeyHashBuckets :: "nat \<Rightarrow> nat option" where
  "storeKeyHashBuckets nbuckets = bucket_loop 31 8192 nbuckets"

definition storeKeyNull :: "string \<Rightarrow> bool" where
  "storeKeyNull key \<longleftrightarrow> take 16 key = replicate 16 NUL"

section \<open>Digest keys\<close>

type_synonym matchers = "acsm_struct option list"

definition md5_digest :: "string \<Rightarrow> string list \<Rightarrow> string" where
  "md5_digest stale pieces = SQUID_MD5Final (foldl SQUID_MD5Update (SQUID_MD5Init stale) pieces)"

definition storeKeyPrivate :: "string \<Rightarrow> string \<Rightarrow> u32 \<Rightarrow> int \<Rightarrow> string res" where
  "storeKeyPrivate stale url mth num =
     res_bind (c_assert (num > 0)) (\<lambda>_.
       Inr (md5_digest stale [le_bytes (word_of_int num), le_bytes mth, url]))"

definition MAX_LEN :: nat where "MAX_LEN = 2048"

definition search_cap :: "nat \<Rightarrow> matchers \<Rightarrow> string \<Rightarrow> (matchers \<times> int) res" where
  "search_cap n acsm_cap q =
     (case nth_opt acsm_cap n of
        None \<Rightarrow> Inl OutOfBounds
      | Some None \<Rightarrow> Inl Undefined
      | Some (Some a) \<Rightarrow>
          (case acsmSearch_cap a q of
             None \<Rightarrow> Inl OutOfBounds
           | Some (a', _, ret) \<Rightarrow> Inr (acsm_cap[n := Some a'], ret)))"

text \<open>The \<^verbatim>\<open>else\<close> branch both key functions share: the keyword search and the identifier.\<close>

definition video_id :: "matchers \<Rightarrow> string \<Rightarrow> string \<Rightarrow> (matchers \<times> string) res" where
  "video_id acsm_cap url q =
     res_bind (search_cap 0 acsm_cap q) (\<lambda>(caps, ret).
       if ret - 100 \<ge> 0 then
         res_bind (selectFunc url (replicate MAX_LEN NUL) (nat ret)) (\<lambda>(r, videoID).
           Inr (caps, if r \<noteq> 0 then cstr videoID else url))
       else Inr (caps, url))"

definition storeKeyPublic ::
  "string \<Rightarrow> matchers \<Rightarrow> string \<Rightarrow> nat \<Rightarrow> (matchers \<times> string) res" where
  "storeKeyPublic stale acsm_cap url mth =
     (if MAX_LEN \<le> length url then Inl OutOfBounds
      else (let q = ConvertCaseEX init_xlatcase url in
        res_bind (search_cap 1 acsm_cap q) (\<lambda>(caps, ret).
          res_bind (if 0 < ret \<and> ret < 100 then Inr (caps, url) else video_id caps url q)
            (\<lambda>(caps', name). Inr (caps', md5_digest stale [[char_of mth], name])))))"

record request =
  req_method :: nat
  store_url :: "string option"
  canonical :: string
  vary_headers :: "string option"
  vary_encoding :: "string option"
  urlgroup :: "string option"

definition vary_pieces :: "request \<Rightarrow> string list" where
  "vary_pieces request =
     (case vary_headers request of
        None \<Rightarrow> []
      | Some h \<Rightarrow> [[NUL, CHR ''V''], h] @
          (case vary_encoding request of None \<Rightarrow> [] | Some e \<Rightarrow> [[NUL, CHR ''E''], e])) @
     (case urlgroup request of None \<Rightarrow> [] | Some g \<Rightarrow> [[NUL, CHR ''G''], g])"

definition storeKeyPublicByRequestMethod ::
  "string \<Rightarrow> matchers \<Rightarrow> request \<Rightarrow> nat \<Rightarrow> (matchers \<times> string) res" where
  "storeKeyPublicByRequestMethod stale acsm_cap request mth =
     (let url = (case store_url request of Some u \<Rightarrow> u | None \<Rightarrow> canonical request) in
      if length url = MAX_LEN then Inl OutOfBounds
      else (let q = (if length url \<le> MAX_LEN then ConvertCaseEX init_xlatcase url else []) in
        res_bind (if length url \<le> MAX_LEN then search_cap 1 acsm_cap q else Inr (acsm_cap, -1))
          (\<lambda>(caps, ret).
            res_bind (if 0 < ret \<and> ret < 100 then Inr (caps, url) else video_id caps url q)
              (\<lambda>(caps', name).
                Inr (caps', md5_digest stale ([[char_of mth], name] @ vary_pieces request))))))"

definition storeKeyPublicByRequest ::
  "string \<Rightarrow> matchers \<Rightarrow> request \<Rightarrow> (matchers \<times> string) res" where
  "storeKeyPublicByRequest stale acsm_cap request =
     storeKeyPublicByRequestMethod stale acsm_cap request (req_method request)"

definition storeKeyDup :: "string \<Rightarrow> string" where
  "storeKeyDup key = take 16 key"

definition storeKeyCopy :: "string \<Rightarrow> string \<Rightarrow> string" where
  "storeKeyCopy dst src = take 16 src @ drop 16 dst"

section \<open>Text and scan\<close>

lemma hex_value_digit: "n < 16 \<Longrightarrow> hex_value (hex_digit n) = Some n"
  by (auto simp: hex_value_def hex_digit_def Let_def)

lemma strtol2_digits:
  "x < 16 \<Longrightarrow> y < 16 \<Longrightarrow> strtol2 (hex_digit x) (hex_digit y) = 16 * x + y"
  by (simp add: strtol2_def hex_value_digit)

lemma scan_pairs_text:
  "length key = n \<Longrightarrow>
     scan_pairs n (concat (map (\<lambda>c. [hex_digit (of_char c div 16), hex_digit (of_char c mod 16)]) key) @ rest)
       = Inr key"
proof (induction key arbitrary: n)
  case (Cons c key)
  have b: "(of_char c :: nat) div 16 < 16" by (simp add: div_less_iff_less_mult)
  obtain m where "n = Suc m" "length key = m" using Cons.prems by auto
  with Cons.IH [of m] strtol2_digits [OF b, of "of_char c mod 16"] show ?case by simp
qed simp

lemma cmp_bytes_zero_iff:
  "length A = n \<Longrightarrow> length B = n \<Longrightarrow> cmp_bytes n A B = 0 \<longleftrightarrow> A = B"
proof (induction n A B rule: cmp_bytes.induct)
  case (2 n a A b B)
  have "a = b \<longleftrightarrow> (of_char a :: nat) = of_char b" by (metis char_of_char)
  with 2 show ?case by (cases "(of_char a :: nat)" "of_char b :: nat" rule: linorder_cases) auto
qed auto

lemma cmp_bytes_antisym: "cmp_bytes n B A = - cmp_bytes n A B"
  by (induction n A B rule: cmp_bytes.induct) auto

lemma cmp_bytes_Cons_neg:
  "cmp_bytes (Suc n) (a # A) (b # B) < 0 \<longleftrightarrow>
     (of_char a :: nat) < of_char b \<or> (of_char a :: nat) = of_char b \<and> cmp_bytes n A B < 0"
  by auto

lemma cmp_bytes_trans:
  "length A = n \<Longrightarrow> length B = n \<Longrightarrow> length C = n \<Longrightarrow>
     cmp_bytes n A B < 0 \<Longrightarrow> cmp_bytes n B C < 0 \<Longrightarrow> cmp_bytes n A C < 0"
proof (induction n arbitrary: A B C)
  case (Suc n)
  obtain a A' where a: "A = a # A'" "length A' = n" using Suc.prems(1) by (cases A) auto
  obtain b B' where b: "B = b # B'" "length B' = n" using Suc.prems(2) by (cases B) auto
  obtain c C' where c: "C = c # C'" "length C' = n" using Suc.prems(3) by (cases C) auto
  note abc = a(1) b(1) c(1) a(2) b(2) c(2)
  note IH = Suc.IH [OF abc(4-6)]
  from Suc.prems(4,5) IH show ?case
    unfolding abc(1-3) cmp_bytes_Cons_neg by (metis less_trans)
qed simp

section \<open>Buckets\<close>

lemma bucket_loop_ok:
  "nbuckets \<le> n * 2 ^ fuel \<Longrightarrow> n * 2 ^ fuel < 2147483648 \<Longrightarrow>
     \<exists>k. bucket_loop fuel n nbuckets = Some (n * 2 ^ k) \<and> nbuckets \<le> n * 2 ^ k \<and>
       (k = 0 \<or> n * 2 ^ (k - 1) < nbuckets)"
proof (induction fuel arbitrary: n)
  case 0
  then show ?case by (auto simp: bucket_loop.simps intro!: exI [of _ 0])
next
  case (Suc f)
  show ?case
  proof (cases "nbuckets \<le> n")
    case True
    then show ?thesis by (auto simp: bucket_loop.simps intro!: exI [of _ 0])
  next
    case False
    have "2 * n * 2 ^ f < 2147483648" "nbuckets \<le> 2 * n * 2 ^ f" using Suc.prems by (simp_all add: ac_simps)
    moreover have "2 * n \<le> 2 * n * 2 ^ f" by simp
    ultimately have lt: "2 * n < 2147483648" by linarith
    from Suc.IH [of "2 * n"] Suc.prems obtain k where
      k: "bucket_loop f (2 * n) nbuckets = Some (2 * n * 2 ^ k)" "nbuckets \<le> 2 * n * 2 ^ k"
        "k = 0 \<or> 2 * n * 2 ^ (k - 1) < nbuckets" by (auto simp: ac_simps)
    have "n * 2 ^ k < nbuckets" using k(3) False by (cases k) (auto simp: ac_simps)
    moreover have "bucket_loop (Suc f) n nbuckets = Some (n * 2 ^ Suc k)"
      using False lt k(1) by (subst bucket_loop.simps) (simp add: ac_simps)
    ultimately show ?thesis using k(2) by (intro exI [of _ "Suc k"]) (simp add: ac_simps)
  qed
qed

lemma bucket_loop_mono:
  "bucket_loop f n nb = Some r \<Longrightarrow> f \<le> g \<Longrightarrow> bucket_loop g n nb = Some r"
proof (induction f arbitrary: n g)
  case 0
  then show ?case by (cases g) (auto simp: bucket_loop.simps split: if_splits)
next
  case (Suc f)
  then obtain g' where g: "g = Suc g'" "f \<le> g'" by (cases g) auto
  from Suc.prems(1) Suc.IH [OF _ g(2)] show ?case
    unfolding g(1) by (subst bucket_loop.simps, subst (asm) bucket_loop.simps) (auto split: if_splits)
qed

section \<open>The name an object is cached under\<close>

definition matchers_serve :: "acsm_pattern list \<Rightarrow> acsm_pattern list \<Rightarrow> matchers \<Rightarrow> bool" where
  "matchers_serve ex kw caps \<longleftrightarrow>
     (\<exists>a0 a1. caps = [Some a0, Some a1] \<and> serves kw a0 \<and> serves ex a1)"

text \<open>
  The specification: the URL itself if the exclusions name it (a flag of 1 to 99) or no
  keyword with a flag of at least 100 occurs in it, else what the site's function makes
  of it.
\<close>

definition cache_name :: "acsm_pattern list \<Rightarrow> acsm_pattern list \<Rightarrow> string \<Rightarrow> string res" where
  "cache_name ex kw url =
     (let q = map toupper url in
      if 0 < answer ex q \<and> answer ex q < 100 then Inr url
      else if answer kw q \<ge> 100 then
        res_bind (selectFunc url (replicate MAX_LEN NUL) (nat (answer kw q)))
          (\<lambda>(r, videoID). Inr (if r \<noteq> 0 then cstr videoID else url))
      else Inr url)"

definition good_url :: "string \<Rightarrow> bool" where
  "good_url url \<longleftrightarrow> ascii url \<and> NUL \<notin> set url \<and> url \<noteq> [] \<and> length url < MAX_LEN"

lemma good_url_query: "good_url url \<Longrightarrow> good_text (map toupper url)"
proof -
  assume u: "good_url url"
  have "NUL \<notin> set (map toupper url)" using u unfolding good_url_def set_map by (metis imageE toupper_NUL)
  moreover have "ascii (map toupper url)"
    using u toupper_ascii by (simp add: good_url_def ascii_def list_all_iff)
  ultimately show ?thesis using u by (simp add: good_url_def good_text_def MAX_LEN_def)
qed

lemma search_cap_serves:
  assumes "matchers_serve ex kw caps" "good_text q"
  shows "\<exists>caps'. search_cap 0 caps q = Inr (caps', answer kw q) \<and> matchers_serve ex kw caps'"
    and "\<exists>caps'. search_cap 1 caps q = Inr (caps', answer ex q) \<and> matchers_serve ex kw caps'"
proof -
  obtain a0 a1 where c: "caps = [Some a0, Some a1]" "serves kw a0" "serves ex a1"
    using assms(1) by (auto simp: matchers_serve_def)
  from acsm.srch_answer [OF c(2) assms(2)] obtain b0 n0 where
    "acsmSearch_cap a0 q = Some (b0, n0, answer kw q)" "serves kw b0" by blast
  then show "\<exists>caps'. search_cap 0 caps q = Inr (caps', answer kw q) \<and> matchers_serve ex kw caps'"
    using c by (simp add: search_cap_def matchers_serve_def)
  from acsm.srch_answer [OF c(3) assms(2)] obtain b1 n1 where
    "acsmSearch_cap a1 q = Some (b1, n1, answer ex q)" "serves ex b1" by blast
  then show "\<exists>caps'. search_cap 1 caps q = Inr (caps', answer ex q) \<and> matchers_serve ex kw caps'"
    using c by (simp add: search_cap_def matchers_serve_def)
qed

lemma video_id_serves:
  assumes "matchers_serve ex kw caps" "good_text q"
  shows "\<exists>caps'. matchers_serve ex kw caps' \<and> video_id caps url q =
     (if answer kw q \<ge> 100 then
        res_bind (selectFunc url (replicate MAX_LEN NUL) (nat (answer kw q)))
          (\<lambda>(r, videoID). Inr (caps', if r \<noteq> 0 then cstr videoID else url))
      else Inr (caps', url))"
  using search_cap_serves(1) [OF assms] by (auto simp: video_id_def)

lemma md5_digest_ok:
  "length stale = 64 \<Longrightarrow> list_all (\<lambda>s. length s < 2 ^ 32) pieces \<Longrightarrow>
     md5_digest stale pieces = md5_reference (concat pieces)"
  unfolding md5_digest_def by (rule md5.fin_pieces)

lemma cache_name_length:
  assumes "good_url url" "cache_name ex kw url = Inr name"
  shows "length name < 2 ^ 32"
proof -
  have nn: "NUL \<notin> set url" and len: "length url < 2048" using assms(1) by (auto simp: good_url_def MAX_LEN_def)
  have vid: "length (cstr i) < 2048" if "selectFunc url (replicate MAX_LEN NUL) f = Inr (r, i)" "r \<noteq> 0" for f r i
    using selectFunc_bound [OF nn, of f r i] that by (simp add: MAX_LEN_def)
  have "length name < 2048"
    using assms(2) len vid unfolding cache_name_def Let_def
    by (fastforce simp: res_bind_Inr_iff split: if_splits)
  then show ?thesis by simp
qed

lemma storeKeyPublic_ok:
  assumes m: "matchers_serve ex kw caps" and u: "good_url url" and st: "length stale = 64"
  shows "\<exists>caps'. matchers_serve ex kw caps' \<and> storeKeyPublic stale caps url mth =
     res_bind (cache_name ex kw url) (\<lambda>name. Inr (caps', md5_reference (char_of mth # name)))"
proof -
  let ?q = "map toupper url"
  have q: "good_text ?q" using u by (rule good_url_query)
  have conv: "ConvertCaseEX init_xlatcase url = ?q" by (simp add: ConvertCaseEX_def init_xlatcase_def)
  have len: "\<not> MAX_LEN \<le> length url" using u by (simp add: good_url_def)
  obtain caps1 where s1: "search_cap 1 caps ?q = Inr (caps1, answer ex ?q)" "matchers_serve ex kw caps1"
    using search_cap_serves(2) [OF m q] by blast
  obtain caps2 where v: "matchers_serve ex kw caps2" "video_id caps1 url ?q =
     (if answer kw ?q \<ge> 100 then
        res_bind (selectFunc url (replicate MAX_LEN NUL) (nat (answer kw ?q)))
          (\<lambda>(r, videoID). Inr (caps2, if r \<noteq> 0 then cstr videoID else url))
      else Inr (caps2, url))" using video_id_serves [OF s1(2) q] by blast
  define caps3 where "caps3 = (if 0 < answer ex ?q \<and> answer ex ?q < 100 then caps1 else caps2)"
  have run: "storeKeyPublic stale caps url mth =
      res_bind (cache_name ex kw url) (\<lambda>name. Inr (caps3, md5_digest stale [[char_of mth], name]))"
    unfolding storeKeyPublic_def conv Let_def s1(1) cache_name_def v(2) caps3_def using len
    by (auto simp: v(2) res_bind_def split: sum.splits prod.splits)
  also have "\<dots> = res_bind (cache_name ex kw url) (\<lambda>name. Inr (caps3, md5_reference (char_of mth # name)))"
  proof (cases "cache_name ex kw url")
    case (Inr name)
    then have "length name < 2 ^ 32" using cache_name_length [OF u] by blast
    with Inr md5_digest_ok [OF st, of "[[char_of mth], name]"] show ?thesis by simp
  qed simp
  finally show ?thesis using s1(2) v(1) unfolding caps3_def by auto
qed

lemma storeKeyHashHash_less: "k < 32 \<Longrightarrow> storeKeyHashHash a (2 ^ k) < 2 ^ k"
proof -
  assume "k < 32"
  have "storeKeyHashHash a (2 ^ k) = storeKeyHashHash a (2 ^ k) AND mask k"
    by (simp add: storeKeyHashHash_def Let_def mask_eq_decr_exp ac_simps)
  also have "\<dots> < 2 ^ k" by (rule and_mask_less') (use \<open>k < 32\<close> in simp)
  finally show ?thesis .
qed

lemma storeKeyHashCmp_zero: "length a = 16 \<Longrightarrow> length b = 16 \<Longrightarrow> storeKeyHashCmp a b = 0 \<longleftrightarrow> a = b"
  unfolding storeKeyHashCmp_def by (rule cmp_bytes_zero_iff)

lemma length_md5_reference: "length (md5_reference m) = 16"
  by (simp add: md5_reference_def le_bytes_def split: prod.split)

lemma storeKeyHashBuckets_ok:
  assumes "nbuckets \<le> 2 ^ 30"
  shows "\<exists>k\<ge>13. storeKeyHashBuckets nbuckets = Some (2 ^ k) \<and> nbuckets \<le> 2 ^ k \<and>
     (k = 13 \<or> 2 ^ (k - 1) < nbuckets)"
proof -
  have "\<exists>k. bucket_loop 17 8192 nbuckets = Some (8192 * 2 ^ k) \<and> nbuckets \<le> 8192 * 2 ^ k \<and>
     (k = 0 \<or> 8192 * 2 ^ (k - 1) < nbuckets)"
    using assms by (intro bucket_loop_ok) simp_all
  then obtain k where k: "bucket_loop 17 8192 nbuckets = Some (8192 * 2 ^ k)" "nbuckets \<le> 8192 * 2 ^ k"
    "k = 0 \<or> 8192 * 2 ^ (k - 1) < nbuckets" by blast
  have p: "8192 * 2 ^ j = (2 :: nat) ^ (13 + j)" for j by (simp add: power_add)
  from k(1) have "storeKeyHashBuckets nbuckets = Some (8192 * 2 ^ k)"
    unfolding storeKeyHashBuckets_def by (rule bucket_loop_mono [of 17 _ _ _ 31]) simp
  moreover have "k = 0 \<or> 2 ^ (13 + k - 1) < nbuckets" using k(3) p [of "k - 1"] by (cases k) simp_all
  ultimately show ?thesis using k(2) p [of k] by (intro exI [of _ "13 + k"]) auto
qed

section \<open>Properties\<close>

text \<open>
  C2. The public key of a URL implements its specification. The two matchers are
  compiled from an exclusion list and a keyword list, and the URL is ASCII, not empty and without NUL.
  If it is shorter than the 2048 bytes of the query buffer, \<^verbatim>\<open>storeKeyPublic\<close> faults only if the
  site's function does, otherwise returns the reference digest of the method byte and
  the name the specification gives the object, and leaves matchers that serve the same
  lists, so that keys never depend on earlier lookups. A longer URL overflows the query buffer, as its length
  is not checked.
\<close>

theorem storeKeyPublic_refines_cache_name:
  assumes "matchers_serve ex kw caps" "ascii url" "NUL \<notin> set url" "url \<noteq> []" "length stale = 64"
  shows "if length url < 2048
    then \<exists>caps'. matchers_serve ex kw caps' \<and> storeKeyPublic stale caps url mth =
      res_bind (cache_name ex kw url) (\<lambda>name. Inr (caps', md5_reference (char_of mth # name)))
    else storeKeyPublic stale caps url mth = Inl OutOfBounds"
  using storeKeyPublic_ok [OF assms(1) _ assms(5), of url mth] assms(2-4)
  by (simp add: good_url_def MAX_LEN_def storeKeyPublic_def)

definition demo_exclusions :: "(string \<times> string) list" where
  "demo_exclusions = [(''/youku/ad'', ''1'')]"

lemma demo_matchers:
  "\<exists>caps. matchers_serve (file_keywords demo_exclusions) (file_keywords demo_file) caps"
proof -
  have g: "good_file demo_exclusions" "flags_end [NUL] demo_exclusions" "(0 :: nat) < length [None]"
    by (simp_all add: good_file_def demo_exclusions_def good_entry_def isblank_c_def isdigit_c_def flags_end_def)
  obtain a1 where a1: "serves (file_keywords demo_exclusions) a1"
    using init_acsm_serves [OF g] by blast
  obtain a0 where "serves (file_keywords demo_file) a0"
    using init_acsm_serves [OF demo_file_good] by blast
  then have "matchers_serve (file_keywords demo_exclusions) (file_keywords demo_file) [Some a0, Some a1]"
    using a1 by (simp add: matchers_serve_def)
  then show ?thesis ..
qed

theorem storeKeyPublic_refines_cache_name_witness:
  "\<exists>caps caps'. matchers_serve (file_keywords demo_exclusions) (file_keywords demo_file) caps \<and>
     matchers_serve (file_keywords demo_exclusions) (file_keywords demo_file) caps' \<and>
     storeKeyPublic (replicate 64 NUL) caps ''a/youku/6/03.flv'' 1 =
     res_bind (cache_name (file_keywords demo_exclusions) (file_keywords demo_file) ''a/youku/6/03.flv'')
       (\<lambda>name. Inr (caps', md5_reference (char_of (1 :: nat) # name)))"
proof -
  obtain caps where c: "matchers_serve (file_keywords demo_exclusions) (file_keywords demo_file) caps"
    using demo_matchers by blast
  have "ascii ''a/youku/6/03.flv''" "NUL \<notin> set ''a/youku/6/03.flv''" by simp_all
  from storeKeyPublic_refines_cache_name [OF c this, of "replicate 64 NUL" 1] c show ?thesis by auto
qed

text \<open>
  A URL of the video \<open>video\<close>: the name that follows the first path component behind \<^verbatim>\<open>/youku/\<close>, with its
  suffix, and no \<^verbatim>\<open>nk\<close> parameter behind the suffix.
\<close>

definition youku_url :: "string \<Rightarrow> string \<Rightarrow> bool" where
  "youku_url video url \<longleftrightarrow>
     (\<exists>host tok name suf query. video = name @ suf \<and> suf \<in> {''.flv'', ''.mp4''} \<and>
        url = host @ ''/youku/'' @ tok @ ''/'' @ name @ suf @ query \<and>
        strstr url ''/youku/'' = Some (length host) \<and>
        suffix_at url = Some (length host + 7 + length tok + 1 + length name) \<and>
        CHR ''/'' \<notin> set tok \<and> length name \<le> 1020) \<and>
     \<not> sublist ''.flv?nk='' url \<and> \<not> sublist ''.mp4?nk='' url"

definition nk_url :: "string \<Rightarrow> bool" where
  "nk_url url \<longleftrightarrow> sublist ''.flv?nk='' url \<or> sublist ''.mp4?nk='' url"

text \<open>The matchers recognise the URL as one of Youku, and it is not excluded.\<close>

definition recognised :: "acsm_pattern list \<Rightarrow> acsm_pattern list \<Rightarrow> string \<Rightarrow> bool" where
  "recognised ex kw url \<longleftrightarrow> good_url url \<and> answer kw (map toupper url) = 100 \<and>
     \<not> (0 < answer ex (map toupper url) \<and> answer ex (map toupper url) < 100)"

lemma youku_cache_name:
  assumes "youku_url video url" "recognised ex kw url"
  shows "cache_name ex kw url = Inr video"
proof -
  obtain host tok name suf query where u: "url = host @ ''/youku/'' @ tok @ ''/'' @ name @ suf @ query" "length suf = 4"
    "strstr url ''/youku/'' = Some (length host)"
    "suffix_at url = Some (length host + 7 + length tok + 1 + length name)"
    "\<not> sublist ''.flv?nk='' url" "\<not> sublist ''.mp4?nk='' url" "CHR ''/'' \<notin> set tok" "length name \<le> 1020" "video = name @ suf"
    using assms(1) unfolding youku_url_def by fastforce
  have nn: "NUL \<notin> set url" using assms(2) by (simp add: recognised_def good_url_def)
  from youku_id_is_file_name [OF u(1-8) nn] obtain i where
    "youkuExtractID url (replicate 2048 NUL) = Inr (1, i)" "cstr i = video" unfolding u(9) by blast
  then have "selectFunc url (replicate MAX_LEN NUL) 100 = Inr (1, i)" "cstr i = video"
    by (simp_all add: selectFunc_def pf_def MAX_LEN_def)
  then show ?thesis using assms(2) by (auto simp: cache_name_def recognised_def Let_def)
qed

lemma nk_cache_name:
  assumes "nk_url url" "recognised ex kw url"
  shows "cache_name ex kw url = Inr url"
proof -
  have "selectFunc url (replicate MAX_LEN NUL) 100 = Inr (0, replicate MAX_LEN NUL)"
    using assms(1) youku_id_nk by (simp add: selectFunc_def pf_def nk_url_def)
  then show ?thesis using assms(2) by (auto simp: cache_name_def recognised_def Let_def)
qed

lemma public_key_of_name:
  assumes "matchers_serve ex kw caps" "length stale = 64" "recognised ex kw url" "cache_name ex kw url = Inr name"
  shows "\<exists>caps'. matchers_serve ex kw caps' \<and> storeKeyPublic stale caps url mth = Inr (caps', md5_reference (char_of mth # name))"
  using storeKeyPublic_ok [OF assms(1) _ assms(2), of url mth] assms(3,4) by (auto simp: recognised_def)

text \<open>
  C3. One video, one cache entry: two Youku URLs of the same video (the name with its suffix
  \<^verbatim>\<open>.flv\<close> or \<^verbatim>\<open>.mp4\<close>, of at most 1024 bytes, that follows the first path component behind \<^verbatim>\<open>/youku/\<close>) have the same
  public key, although their hosts, session components and queries differ. The URLs are ASCII and
  shorter than 2048 bytes, the keyword matcher recognises them with flag 100 and they are not excluded; the
  suffix of the name is the one the code looks for, the first \<^verbatim>\<open>.flv\<close> of the URL or, if there is none at all, the first \<^verbatim>\<open>.mp4\<close>,
  and \<^verbatim>\<open>/youku/\<close> is its first occurrence too. A URL that has \<^verbatim>\<open>.flv?nk=\<close> or \<^verbatim>\<open>.mp4?nk=\<close> is excepted: it is
  not rewritten, and its key is the digest of the whole URL.
\<close>

theorem same_video_same_key:
  assumes m: "matchers_serve ex kw caps" and st: "length stale = 64"
    and u: "youku_url video url" "recognised ex kw url"
    and v: "youku_url video url'" "recognised ex kw url'"
    and w: "nk_url nk" "recognised ex kw nk"
  shows "\<exists>caps1 caps2 caps3 key. storeKeyPublic stale caps url mth = Inr (caps1, key) \<and>
     storeKeyPublic stale caps1 url' mth = Inr (caps2, key) \<and>
     storeKeyPublic stale caps2 nk mth = Inr (caps3, md5_reference (char_of mth # nk))"
proof -
  obtain caps1 where c1: "matchers_serve ex kw caps1"
    "storeKeyPublic stale caps url mth = Inr (caps1, md5_reference (char_of mth # video))"
    using public_key_of_name [OF m st u(2) youku_cache_name [OF u]] by blast
  obtain caps2 where c2: "matchers_serve ex kw caps2"
    "storeKeyPublic stale caps1 url' mth = Inr (caps2, md5_reference (char_of mth # video))"
    using public_key_of_name [OF c1(1) st v(2) youku_cache_name [OF v]] by blast
  obtain caps3 where "storeKeyPublic stale caps2 nk mth = Inr (caps3, md5_reference (char_of mth # nk))"
    using public_key_of_name [OF c2(1) st w(2) nk_cache_name [OF w]] by blast
  with c1(2) c2(2) show ?thesis by blast
qed

lemma youku_urlI:
  assumes "url = host @ ''/youku/'' @ tok @ ''/'' @ name @ suf @ query" "suf \<in> {''.flv'', ''.mp4''}"
    "strstr url ''/youku/'' = Some (length host)"
    "suffix_at url = Some (length host + 7 + length tok + 1 + length name)"
    "CHR ''/'' \<notin> set tok" "strstr url ''.flv?nk='' = None" "strstr url ''.mp4?nk='' = None"
    "length name \<le> 1020"
  shows "youku_url (name @ suf) url"
  unfolding youku_url_def using assms strstr_Some_iff by blast

lemma demo_urls:
  "youku_url ''03.mp4'' ''a/youku/6/03.mp4''" "youku_url ''03.mp4'' ''b/youku/77/03.mp4?x''" "nk_url ''a/youku/6/03.mp4?nk=1''"
proof -
  show "youku_url ''03.mp4'' ''a/youku/6/03.mp4''"
    using youku_urlI [of "''a/youku/6/03.mp4''" "''a''" "''6''" "''03''" "''.mp4''" "[]"] by (simp add: suffix_at_def)
  show "youku_url ''03.mp4'' ''b/youku/77/03.mp4?x''"
    using youku_urlI [of "''b/youku/77/03.mp4?x''" "''b''" "''77''" "''03''" "''.mp4''" "''?x''"] by (simp add: suffix_at_def)
  have "strstr ''a/youku/6/03.mp4?nk=1'' ''.mp4?nk='' \<noteq> None" by simp
  then show "nk_url ''a/youku/6/03.mp4?nk=1''" unfolding nk_url_def strstr_Some_iff by blast
qed

lemmas keyword_eval = answer_def file_keywords_def demo_file_def demo_exclusions_def entry_pattern_def
  digits_val_def to_int32_def keyword_def Let_def toupper_def char_of_def

lemma demo_answers:
  "answer (file_keywords demo_file) (map toupper ''a/youku/6/03.mp4'') = 100"
  "answer (file_keywords demo_file) (map toupper ''b/youku/77/03.mp4?x'') = 100"
  "answer (file_keywords demo_file) (map toupper ''a/youku/6/03.mp4?nk=1'') = 100"
  "answer (file_keywords demo_exclusions) (map toupper ''a/youku/6/03.mp4'') = 0"
  "answer (file_keywords demo_exclusions) (map toupper ''b/youku/77/03.mp4?x'') = 0"
  "answer (file_keywords demo_exclusions) (map toupper ''a/youku/6/03.mp4?nk=1'') = 0"
  by (simp_all add: keyword_eval)

lemma demo_recognised:
  "recognised (file_keywords demo_exclusions) (file_keywords demo_file) ''a/youku/6/03.mp4''"
  "recognised (file_keywords demo_exclusions) (file_keywords demo_file) ''b/youku/77/03.mp4?x''"
  "recognised (file_keywords demo_exclusions) (file_keywords demo_file) ''a/youku/6/03.mp4?nk=1''"
  unfolding recognised_def demo_answers by (simp_all add: good_url_def MAX_LEN_def)

theorem same_video_same_key_witness:
  "\<exists>caps caps1 caps2 caps3 key. storeKeyPublic (replicate 64 NUL) caps ''a/youku/6/03.mp4'' 1 = Inr (caps1, key) \<and>
     storeKeyPublic (replicate 64 NUL) caps1 ''b/youku/77/03.mp4?x'' 1 = Inr (caps2, key) \<and>
     storeKeyPublic (replicate 64 NUL) caps2 ''a/youku/6/03.mp4?nk=1'' 1 =
       Inr (caps3, md5_reference (char_of (1 :: nat) # ''a/youku/6/03.mp4?nk=1''))"
proof -
  obtain caps where c: "matchers_serve (file_keywords demo_exclusions) (file_keywords demo_file) caps"
    using demo_matchers by blast
  show ?thesis
    by (rule exI, rule same_video_same_key [OF c _ demo_urls(1) demo_recognised(1) demo_urls(2) demo_recognised(2)
          demo_urls(3) demo_recognised(3)]) simp
qed

text \<open>
  A request and its URL agree on the key: for a request without \<^verbatim>\<open>Vary\<close> headers and URL
  group whose URL is shorter than the query buffer, \<^verbatim>\<open>storeKeyPublicByRequest\<close> and
  \<^verbatim>\<open>storeKeyPublic\<close> behave alike (same faults, same key, same matchers afterwards), so that
  an object stored under one is found under the other.
\<close>

theorem request_key_agrees_with_url_key:
  assumes "vary_headers r = None" "urlgroup r = None"
    and "length (case store_url r of Some u \<Rightarrow> u | None \<Rightarrow> canonical r) < MAX_LEN"
  shows "storeKeyPublicByRequest stale caps r =
     storeKeyPublic stale caps (case store_url r of Some u \<Rightarrow> u | None \<Rightarrow> canonical r) (req_method r)"
  using assms
  unfolding storeKeyPublicByRequest_def storeKeyPublicByRequestMethod_def storeKeyPublic_def
    vary_pieces_def Let_def
  by simp

theorem request_key_agrees_with_url_key_witness:
  "storeKeyPublicByRequest [] [None] \<lparr>req_method = 1, store_url = Some ''a/b'', canonical = ''c'',
     vary_headers = None, vary_encoding = Some ''gzip'', urlgroup = None\<rparr> =
   storeKeyPublic [] [None] (case Some ''a/b'' of Some u \<Rightarrow> u | None \<Rightarrow> ''c'') 1"
  using request_key_agrees_with_url_key [of "\<lparr>req_method = 1, store_url = Some ''a/b'', canonical = ''c'',
     vary_headers = None, vary_encoding = Some ''gzip'', urlgroup = None\<rparr>" "[]" "[None]"]
  by (simp add: MAX_LEN_def)

text \<open>
  Keys survive their textual form: scanning the text of a 16-byte key gives the key
  back, and the text has 32 characters.
\<close>

theorem storeKeyScan_storeKeyText:
  assumes "length key = 16"
  shows "storeKeyScan (storeKeyText key @ rest) = Inr key \<and> length (storeKeyText key) = 32"
proof -
  have "length (concat (map (\<lambda>c. [hex_digit (of_char c div 16), hex_digit (of_char c mod 16)]) k)) = 2 * length k"
    for k by (induction k) simp_all
  then show ?thesis
    using assms scan_pairs_text [OF assms, of rest] by (simp add: storeKeyScan_def storeKeyText_def)
qed

theorem storeKeyScan_storeKeyText_witness:
  "storeKeyScan (storeKeyText (replicate 16 (CHR 0xA7)) @ []) = Inr (replicate 16 (CHR 0xA7)) \<and>
     length (storeKeyText (replicate 16 (CHR 0xA7))) = 32"
  using storeKeyScan_storeKeyText [of "replicate 16 (CHR 0xA7)" "[]"] by simp

text \<open>
  \<^verbatim>\<open>storeKeyHashCmp\<close> is a strict total order on keys: 0 exactly for equal keys,
  antisymmetric and transitive; \<^verbatim>\<open>storeKeyHashHash\<close> stays below a table size that is a
  power of two.
\<close>

theorem storeKeyHashCmp_order:
  assumes "length a = 16" "length b = 16" "length c = 16"
  shows "(storeKeyHashCmp a b = 0 \<longleftrightarrow> a = b) \<and> storeKeyHashCmp b a = - storeKeyHashCmp a b \<and>
     (storeKeyHashCmp a b < 0 \<longrightarrow> storeKeyHashCmp b c < 0 \<longrightarrow> storeKeyHashCmp a c < 0) \<and>
     (k < 32 \<longrightarrow> storeKeyHashHash a (2 ^ k) < 2 ^ k)"
  using assms cmp_bytes_zero_iff [of a 16 b] cmp_bytes_antisym [of 16 b a] cmp_bytes_trans [of a 16 b c]
    storeKeyHashHash_less [of k a]
  unfolding storeKeyHashCmp_def by blast

theorem storeKeyHashCmp_order_witness:
  "(storeKeyHashCmp (replicate 16 NUL) (replicate 16 (CHR ''a'')) = 0 \<longleftrightarrow>
      replicate 16 NUL = replicate 16 (CHR ''a'')) \<and>
    storeKeyHashCmp (replicate 16 (CHR ''a'')) (replicate 16 NUL) =
      - storeKeyHashCmp (replicate 16 NUL) (replicate 16 (CHR ''a'')) \<and>
    storeKeyHashHash (replicate 16 NUL) (2 ^ 13) < 2 ^ 13"
  using storeKeyHashCmp_order [of "replicate 16 NUL" "replicate 16 (CHR ''a'')" "replicate 16 NUL" 13]
  by simp

text \<open>
  \<^verbatim>\<open>storeKeyHashBuckets\<close> returns (without overflow) for every request of at most
  \<open>2 ^ 30\<close> buckets, with the least power of two that is at least 8192 and at least the
  request.
\<close>

theorem storeKeyHashBuckets_power_of_two:
  assumes "nbuckets \<le> 2 ^ 30"
  shows "\<exists>k\<ge>13. storeKeyHashBuckets nbuckets = Some (2 ^ k) \<and> nbuckets \<le> 2 ^ k \<and>
     (k = 13 \<or> 2 ^ (k - 1) < nbuckets)"
  using assms by (rule storeKeyHashBuckets_ok)

theorem storeKeyHashBuckets_power_of_two_witness:
  "\<exists>k\<ge>13. storeKeyHashBuckets 100000 = Some (2 ^ k) \<and> (100000 :: nat) \<le> 2 ^ k \<and>
     (k = 13 \<or> 2 ^ (k - 1) < (100000 :: nat))"
  by (rule storeKeyHashBuckets_power_of_two) simp

end
