(* ===== verification/Hash_Table.thy ===== *)
theory Hash_Table
  imports Prelude "HOL-Library.Multiset"
begin

text \<open>
  The chained hash tables of \<^verbatim>\<open>lib/hash.c\<close>, used for the store index and most other lookups.

  A \<^verbatim>\<open>hash_link\<close> is an address; its key is read from the store \<open>keys\<close> (\<^term>\<open>None\<close> is a null key). The
  chain of a bucket, linked by the \<^verbatim>\<open>next\<close> pointers, is the list of its addresses, so the
  successor of a link is found in the chain that contains it; a link that is in no chain has
  no meaningful successor. The functions \<open>hash\<close> and \<open>cmp\<close> stored in the table are arguments
  of the operations that call them; the locale \<open>hash_keys\<close> states what they must satisfy.

  The theorems say that a table implements a finite map, and that a traversal visits every
  link once, even when links are removed during it. \<^verbatim>\<open>hashPrime\<close>, which compares logarithms in
  floating point to propose a table size, is not modelled.
\<close>

unbundle bit_operations_syntax

section \<open>Hash functions for strings\<close>

text \<open>A byte as the \<^verbatim>\<open>unsigned int\<close> that the signed \<^verbatim>\<open>char\<close> is converted to.\<close>

definition uchar :: "char \<Rightarrow> 32 word" where
  "uchar c = (if (of_char c :: nat) < 128 then of_nat (of_char c) else of_nat (of_char c) - 256)"

fun string_loop :: "string \<Rightarrow> 32 word \<Rightarrow> 32 word \<Rightarrow> 32 word \<times> 32 word" where
  "string_loop [] n j = (n, j)"
| "string_loop (c # s) n j = string_loop s (n XOR (271 * uchar c)) (j + 1)"

definition hash_string :: "string \<Rightarrow> 32 word \<Rightarrow> 32 word" where
  "hash_string s sz = (case string_loop s 0 0 of (n, j) \<Rightarrow> (n XOR (j * 271)) mod sz)"

definition HASH4 :: "32 word \<Rightarrow> char \<Rightarrow> 32 word" where
  "HASH4 h c = push_bit 5 h + h + uchar c"

text \<open>
  The unrolled loop: first the bytes beyond a multiple of eight, by falling through the cases
  of the \<^verbatim>\<open>switch\<close>, then eight bytes per iteration.
\<close>

fun hash4_steps :: "nat \<Rightarrow> 32 word \<times> string \<Rightarrow> 32 word \<times> string" where
  "hash4_steps 0 hk = hk"
| "hash4_steps (Suc n) (h, key) = hash4_steps n (HASH4 h (hd key), tl key)"

fun hash4_loop :: "nat \<Rightarrow> 32 word \<times> string \<Rightarrow> 32 word \<times> string" where
  "hash4_loop 0 hk = hk"
| "hash4_loop (Suc loop) hk = hash4_loop loop (hash4_steps 8 hk)"

definition hash4 :: "string \<Rightarrow> 32 word \<Rightarrow> 32 word" where
  "hash4 key sz = fst (hash4_loop (length key div 8) (hash4_steps (length key mod 8) (0, key))) mod sz"

section \<open>The table\<close>

record hash_table =
  buckets :: "nat list list"
  tsize :: "32 word"
  current_slot :: nat
  next_link :: "nat option"
  tcount :: int

definition hash_create :: "32 word \<Rightarrow> hash_table" where
  "hash_create hash_sz =
     (let n = (if hash_sz = 0 then 7951 else hash_sz)
      in \<lparr>buckets = replicate (unat n) [], tsize = n, current_slot = 0, next_link = None, tcount = 0\<rparr>)"

text \<open>The bucket of a key; a hash function that leaves the table is an access out of bounds.\<close>

definition bucket_of :: "('k \<Rightarrow> 32 word \<Rightarrow> 32 word) \<Rightarrow> hash_table \<Rightarrow> 'k \<Rightarrow> nat res" where
  "bucket_of hash hid k =
     (let b = unat (hash k (tsize hid)) in if b < length (buckets hid) then Inr b else Inl OutOfBounds)"

text \<open>The key of a link as the argument of the hash function; a null key is not expected there.\<close>

definition key_of :: "(nat \<Rightarrow> 'k option) \<Rightarrow> nat \<Rightarrow> 'k res" where
  "key_of keys lnk = (case keys lnk of None \<Rightarrow> Inl Undefined | Some k \<Rightarrow> Inr k)"

definition hash_join :: "('k \<Rightarrow> 32 word \<Rightarrow> 32 word) \<Rightarrow> (nat \<Rightarrow> 'k option) \<Rightarrow> hash_table \<Rightarrow> nat \<Rightarrow> hash_table res" where
  "hash_join hash keys hid lnk =
     res_bind (key_of keys lnk) (\<lambda>k.
     res_bind (bucket_of hash hid k) (\<lambda>i.
       Inr (hid\<lparr>buckets := (buckets hid)[i := lnk # buckets hid ! i], tcount := tcount hid + 1\<rparr>)))"

fun walk :: "('k \<Rightarrow> 'k \<Rightarrow> int) \<Rightarrow> (nat \<Rightarrow> 'k option) \<Rightarrow> 'k \<Rightarrow> nat list \<Rightarrow> nat option res" where
  "walk cmp keys k [] = Inr None"
| "walk cmp keys k (walker # rest) =
     (case keys walker of
        None \<Rightarrow> Inr None
      | Some k' \<Rightarrow>
          if cmp k k' = 0 then Inr (Some walker)
          else if rest \<noteq> [] \<and> hd rest = walker then Inl AssertFailed
          else walk cmp keys k rest)"

definition hash_lookup ::
  "('k \<Rightarrow> 32 word \<Rightarrow> 32 word) \<Rightarrow> ('k \<Rightarrow> 'k \<Rightarrow> int) \<Rightarrow> (nat \<Rightarrow> 'k option) \<Rightarrow> hash_table \<Rightarrow> 'k \<Rightarrow> nat option res" where
  "hash_lookup hash cmp keys hid k =
     res_bind (bucket_of hash hid k) (\<lambda>b. walk cmp keys k (buckets hid ! b))"

text \<open>The loop of \<^verbatim>\<open>hash_next_bucket\<close>, which is entered with a null \<^verbatim>\<open>next\<close>: the new slot and link.\<close>

function next_bucket :: "nat list list \<Rightarrow> nat \<Rightarrow> nat \<times> nat option" where
  "next_bucket bs slot =
     (if Suc slot < length bs
      then (case bs ! Suc slot of [] \<Rightarrow> next_bucket bs (Suc slot) | l # _ \<Rightarrow> (Suc slot, Some l))
      else (Suc slot, None))"
  by pat_completeness auto

termination next_bucket
  by (relation "measure (\<lambda>(bs, slot). length bs - slot)") auto

declare next_bucket.simps [simp del]

definition hash_next_bucket :: "hash_table \<Rightarrow> hash_table" where
  "hash_next_bucket hid =
     (if next_link hid \<noteq> None then hid
      else case next_bucket (buckets hid) (current_slot hid) of
             (slot, l) \<Rightarrow> hid\<lparr>current_slot := slot, next_link := l\<rparr>)"

definition head_of :: "nat list \<Rightarrow> nat option" where
  "head_of ls = (case ls of [] \<Rightarrow> None | l # _ \<Rightarrow> Some l)"

definition hash_first :: "hash_table \<Rightarrow> hash_table res" where
  "hash_first hid =
     (if next_link hid \<noteq> None then Inl AssertFailed
      else if buckets hid = [] then Inl OutOfBounds
      else Inr (hash_next_bucket (hid\<lparr>current_slot := 0, next_link := head_of (buckets hid ! 0)\<rparr>)))"

text \<open>The \<^verbatim>\<open>next\<close> pointer of a link: the rest of the chain behind it.\<close>

definition link_next :: "nat list list \<Rightarrow> nat \<Rightarrow> nat option res" where
  "link_next bs l =
     (case find (\<lambda>b. l \<in> set b) bs of
        None \<Rightarrow> Inl Undefined
      | Some b \<Rightarrow> Inr (head_of (tl (dropWhile (\<lambda>x. x \<noteq> l) b))))"

definition hash_next :: "hash_table \<Rightarrow> (hash_table \<times> nat option) res" where
  "hash_next hid =
     (case next_link hid of
        None \<Rightarrow> Inr (hid, None)
      | Some this \<Rightarrow>
          res_bind (link_next (buckets hid) this) (\<lambda>n.
            Inr (hash_next_bucket (hid\<lparr>next_link := n\<rparr>), Some this)))"

definition hash_last :: "hash_table \<Rightarrow> hash_table" where
  "hash_last hid = hid\<lparr>next_link := None, current_slot := 0\<rparr>"

definition hash_remove_link ::
  "('k \<Rightarrow> 32 word \<Rightarrow> 32 word) \<Rightarrow> (nat \<Rightarrow> 'k option) \<Rightarrow> hash_table \<Rightarrow> nat \<Rightarrow> hash_table res" where
  "hash_remove_link hash keys hid hl =
     res_bind (key_of keys hl) (\<lambda>k.
     res_bind (bucket_of hash hid k) (\<lambda>i.
       if hl \<notin> set (buckets hid ! i) then Inl AssertFailed
       else let bs = (buckets hid)[i := remove1 hl (buckets hid ! i)];
                hid' = hid\<lparr>buckets := bs, tcount := tcount hid - 1\<rparr>
            in if next_link hid = Some hl
               then res_bind (link_next (buckets hid) hl) (\<lambda>n. Inr (hash_next_bucket (hid'\<lparr>next_link := n\<rparr>)))
               else Inr hid'))"

definition hash_get_bucket :: "hash_table \<Rightarrow> nat \<Rightarrow> nat option" where
  "hash_get_bucket hid bucket = (if bucket \<ge> unat (tsize hid) then None else head_of (buckets hid ! bucket))"

text \<open>The links \<^verbatim>\<open>hashFreeItems\<close> collects and then frees, in this order.\<close>

fun collect :: "nat \<Rightarrow> hash_table \<Rightarrow> (hash_table \<times> nat list) res" where
  "collect n hid =
     res_bind (hash_next hid) (\<lambda>(hid', l).
       case l of
         None \<Rightarrow> Inr (hid', [])
       | Some x \<Rightarrow>
           (case n of
              0 \<Rightarrow> Inr (hid', [])
            | Suc m \<Rightarrow> res_bind (collect m hid') (\<lambda>(hid'', ls). Inr (hid'', x # ls))))"

declare collect.simps [simp del]

definition hashFreeItems :: "hash_table \<Rightarrow> (hash_table \<times> nat list) res" where
  "hashFreeItems hid = res_bind (hash_first hid) (collect (nat (tcount hid)))"

section \<open>The hash functions read every byte once\<close>

lemma hash4_steps_fold:
  "n \<le> length key \<Longrightarrow> hash4_steps n (h, key) = (foldl HASH4 h (take n key), drop n key)"
proof (induction n arbitrary: h key)
  case (Suc n)
  then show ?case by (cases key) simp_all
qed simp

lemma hash4_loop_fold:
  "length key = 8 * n \<Longrightarrow> hash4_loop n (h, key) = (foldl HASH4 h key, [])"
proof (induction n arbitrary: h key)
  case (Suc n)
  have "foldl HASH4 (foldl HASH4 h (take 8 key)) (drop 8 key) = foldl HASH4 h key"
    by (metis append_take_drop_id foldl_append)
  then show ?case using Suc hash4_steps_fold [of 8 key h] by simp
qed simp

lemma hash4_fold: "hash4 key sz = foldl HASH4 0 key mod sz"
proof -
  have "foldl HASH4 (foldl HASH4 0 (take (length key mod 8) key)) (drop (length key mod 8) key) = foldl HASH4 0 key"
    by (metis append_take_drop_id foldl_append)
  moreover have "length (drop (length key mod 8) key) = 8 * (length key div 8)"
    by (simp add: minus_mod_eq_mult_div)
  ultimately show ?thesis
    using hash4_loop_fold hash4_steps_fold [of "length key mod 8" key 0] by (simp add: hash4_def)
qed

section \<open>Well-formed tables\<close>

definition links :: "hash_table \<Rightarrow> nat list" where
  "links hid = concat (buckets hid)"

definition table_ok :: "('k \<Rightarrow> 32 word \<Rightarrow> 32 word) \<Rightarrow> (nat \<Rightarrow> 'k option) \<Rightarrow> hash_table \<Rightarrow> bool" where
  "table_ok hash keys hid \<longleftrightarrow>
     length (buckets hid) = unat (tsize hid) \<and> buckets hid \<noteq> [] \<and> distinct (links hid) \<and>
     tcount hid = int (length (links hid)) \<and>
     (\<forall>i < length (buckets hid). \<forall>l\<in>set (buckets hid ! i). \<exists>k. keys l = Some k \<and> unat (hash k (tsize hid)) = i)"

lemma create_ok: "table_ok hash keys (hash_create n)"
proof -
  have "0 < unat (if n = 0 then 7951 else n)" by (simp add: unat_gt_0)
  then show ?thesis by (auto simp: table_ok_def hash_create_def links_def Let_def)
qed

lemma bucket_distinct: "distinct (concat bs) \<Longrightarrow> i < length bs \<Longrightarrow> distinct (bs ! i)"
  by (simp add: distinct_concat_iff)

lemma bucket_unique:
  assumes "distinct (concat bs)" "i < length bs" "j < length bs" "l \<in> set (bs ! i)" "l \<in> set (bs ! j)"
  shows "i = j"
proof (rule ccontr)
  assume "i \<noteq> j"
  have split: "bs = take i bs @ bs ! i # drop (Suc i) bs" using assms(2) by (simp add: id_take_nth_drop)
  then have "distinct (concat (take i bs) @ bs ! i @ concat (drop (Suc i) bs))"
    using assms(1) by (metis concat.simps(2) concat_append)
  moreover have "l \<in> set (concat (take i bs)) \<or> l \<in> set (concat (drop (Suc i) bs))"
  proof (cases "j < i")
    case True
    then have "bs ! j \<in> set (take i bs)" using assms(3) by (metis length_take min_less_iff_conj nth_mem nth_take)
    then show ?thesis using assms(5) by auto
  next
    case False
    then have "drop (Suc i) bs ! (j - Suc i) = bs ! j" "j - Suc i < length (drop (Suc i) bs)"
      using \<open>i \<noteq> j\<close> assms(3) by (simp_all add: nth_drop less_diff_iff)
    then have "bs ! j \<in> set (drop (Suc i) bs)" by (metis nth_mem)
    then show ?thesis using assms(5) by auto
  qed
  ultimately show False using assms(4) by auto
qed

lemma find_bucket:
  assumes "distinct (concat bs)" "i < length bs" "l \<in> set (bs ! i)"
  shows "find (\<lambda>b. l \<in> set b) bs = Some (bs ! i)"
proof -
  have "\<exists>b\<in>set bs. l \<in> set b" using assms(2,3) nth_mem by blast
  then have "find (\<lambda>b. l \<in> set b) bs \<noteq> None" by (auto simp: find_None_iff)
  then obtain b where b: "find (\<lambda>b. l \<in> set b) bs = Some b" by blast
  then obtain j where "j < length bs" "l \<in> set (bs ! j)" "b = bs ! j" by (auto simp: find_Some_iff)
  with b bucket_unique [OF assms(1,2) _ assms(3)] show ?thesis by metis
qed

section \<open>Traversal\<close>

text \<open>The links a traversal has still to return, and that its position is in the table.\<close>

definition remaining :: "hash_table \<Rightarrow> nat list" where
  "remaining hid =
     (case next_link hid of
        None \<Rightarrow> []
      | Some l \<Rightarrow> dropWhile (\<lambda>x. x \<noteq> l) (buckets hid ! current_slot hid) @ concat (drop (Suc (current_slot hid)) (buckets hid)))"

definition pos_ok :: "hash_table \<Rightarrow> bool" where
  "pos_ok hid \<longleftrightarrow>
     (\<forall>l. next_link hid = Some l \<longrightarrow> current_slot hid < length (buckets hid) \<and> l \<in> set (buckets hid ! current_slot hid))"

lemma concat_drop_Cons: "i < length bs \<Longrightarrow> concat (drop i bs) = bs ! i @ concat (drop (Suc i) bs)"
  by (metis Cons_nth_drop_Suc concat.simps(2))

lemma next_bucket_spec:
  "case next_bucket bs slot of
     (slot', None) \<Rightarrow> concat (drop (Suc slot) bs) = []
   | (slot', Some x) \<Rightarrow> slot' < length bs \<and> bs ! slot' \<noteq> [] \<and> x = hd (bs ! slot') \<and>
       concat (drop (Suc slot) bs) = bs ! slot' @ concat (drop (Suc slot') bs)"
proof (induction bs slot rule: next_bucket.induct)
  case (1 bs slot)
  show ?case
  proof (cases "Suc slot < length bs")
    case True
    then show ?thesis
      using 1 concat_drop_Cons [OF True] by (subst next_bucket.simps) (auto split: list.splits)
  next
    case False
    then show ?thesis by (subst next_bucket.simps) simp
  qed
qed

lemma remaining_next_bucket:
  assumes "next_link hid = None"
  shows "remaining (hash_next_bucket hid) = concat (drop (Suc (current_slot hid)) (buckets hid)) \<and> pos_ok (hash_next_bucket hid)"
proof -
  obtain slot l where n: "next_bucket (buckets hid) (current_slot hid) = (slot, l)" by (cases "next_bucket (buckets hid) (current_slot hid)")
  then have h: "hash_next_bucket hid = hid\<lparr>current_slot := slot, next_link := l\<rparr>"
    using assms by (simp add: hash_next_bucket_def)
  note spec = next_bucket_spec [where bs = "buckets hid" and slot = "current_slot hid", unfolded n]
  show ?thesis
  proof (cases l)
    case None
    then show ?thesis using spec by (simp add: h remaining_def pos_ok_def)
  next
    case (Some x)
    then obtain r where "buckets hid ! slot = x # r" "slot < length (buckets hid)"
      "concat (drop (Suc (current_slot hid)) (buckets hid)) = buckets hid ! slot @ concat (drop (Suc slot) (buckets hid))"
      using spec by (cases "buckets hid ! slot") auto
    then show ?thesis by (simp add: h Some remaining_def pos_ok_def)
  qed
qed

lemma next_bucket_frame:
  "buckets (hash_next_bucket hid) = buckets hid" "tsize (hash_next_bucket hid) = tsize hid"
  "tcount (hash_next_bucket hid) = tcount hid"
  by (simp_all add: hash_next_bucket_def split: prod.splits)

text \<open>Setting the position to the head of a part of a chain, then to the next bucket if it is empty.\<close>

lemma remaining_move:
  fixes hid :: hash_table
  assumes "distinct (bs ! slot)" "slot < length bs" "suffix r (bs ! slot)"
  defines "h \<equiv> hid\<lparr>buckets := bs, current_slot := slot, next_link := head_of r\<rparr>"
  shows "remaining (hash_next_bucket h) = r @ concat (drop (Suc slot) bs) \<and> pos_ok (hash_next_bucket h)"
proof (cases r)
  case Nil
  then show ?thesis using remaining_next_bucket [of h] by (simp add: h_def head_of_def)
next
  case (Cons x xs)
  then obtain ys where b: "bs ! slot = ys @ x # xs" using assms(3) by (auto simp: suffix_def)
  then have "x \<notin> set ys" using assms(1) by auto
  then have "dropWhile (\<lambda>y. y \<noteq> x) (bs ! slot) = x # xs" unfolding b by (subst dropWhile_append2) auto
  then show ?thesis using assms(2) b Cons
    by (simp add: h_def head_of_def hash_next_bucket_def remaining_def pos_ok_def)
qed

lemma hash_first_ok:
  assumes "table_ok hash keys hid" "next_link hid = None"
  shows "\<exists>hid'. hash_first hid = Inr hid' \<and> remaining hid' = links hid \<and> pos_ok hid' \<and> table_ok hash keys hid' \<and>
    buckets hid' = buckets hid"
proof -
  have b1: "0 < length (buckets hid)" using assms(1) unfolding table_ok_def by (metis length_greater_0_conv)
  then have "distinct (buckets hid ! 0)"
    using assms(1) bucket_distinct [of "buckets hid" 0] unfolding table_ok_def links_def by blast
  note b = b1 this
  let ?h = "hid\<lparr>current_slot := 0, next_link := head_of (buckets hid ! 0)\<rparr>"
  have "remaining (hash_next_bucket ?h) = links hid" "pos_ok (hash_next_bucket ?h)"
    using remaining_move [OF b(2,1), of "buckets hid ! 0" hid] concat_drop_Cons [OF b(1)] by (simp_all add: links_def)
  then show ?thesis using assms b by (auto simp: hash_first_def next_bucket_frame table_ok_def links_def)
qed

lemma hash_next_ok:
  assumes "table_ok hash keys hid" "pos_ok hid"
  shows "\<exists>hid' l. hash_next hid = Inr (hid', l) \<and> table_ok hash keys hid' \<and> pos_ok hid' \<and> buckets hid' = buckets hid \<and>
    (case remaining hid of [] \<Rightarrow> l = None | x # xs \<Rightarrow> l = Some x \<and> remaining hid' = xs)"
proof (cases "next_link hid")
  case None
  then show ?thesis using assms by (simp add: hash_next_def remaining_def)
next
  case (Some this)
  let ?bs = "buckets hid" and ?slot = "current_slot hid"
  have s: "?slot < length ?bs" "this \<in> set (?bs ! ?slot)" using assms(2) Some by (auto simp: pos_ok_def)
  have d: "distinct (concat ?bs)" using assms(1) by (simp add: table_ok_def links_def)
  obtain ys zs where b: "?bs ! ?slot = ys @ this # zs" "this \<notin> set ys" using s(2) by (meson split_list_first)
  then have dw: "dropWhile (\<lambda>x. x \<noteq> this) (?bs ! ?slot) = this # zs" by (subst b(1), subst dropWhile_append2) auto
  have n: "link_next ?bs this = Inr (head_of zs)" using find_bucket [OF d s] dw by (simp add: link_next_def)
  have "remaining (hash_next_bucket (hid\<lparr>next_link := head_of zs\<rparr>)) = zs @ concat (drop (Suc ?slot) ?bs)"
    "pos_ok (hash_next_bucket (hid\<lparr>next_link := head_of zs\<rparr>))"
    using remaining_move [OF bucket_distinct [OF d s(1)] s(1), of zs hid] b(1) by (auto simp: suffix_def)
  then show ?thesis using assms(1) Some n dw
    by (auto simp: hash_next_def remaining_def next_bucket_frame table_ok_def links_def)
qed

lemma concat_remove1:
  assumes "distinct (concat bs)" "i < length bs" "x \<in> set (bs ! i)"
  shows "concat (bs[i := remove1 x (bs ! i)]) = remove1 x (concat bs)"
proof -
  have c: "concat bs = concat (take i bs) @ bs ! i @ concat (drop (Suc i) bs)"
    using assms(2) by (metis concat.simps(2) concat_append id_take_nth_drop)
  then have "x \<notin> set (concat (take i bs))" using assms(1,3) by auto
  then have "remove1 x (concat bs) = concat (take i bs) @ remove1 x (bs ! i) @ concat (drop (Suc i) bs)"
    using assms(3) unfolding c by (simp add: remove1_append del: set_concat)
  then show ?thesis using assms(2) by (simp add: upd_conv_take_nth_drop)
qed

lemma dropWhile_remove1:
  "distinct xs \<Longrightarrow> l \<in> set xs \<Longrightarrow> l \<noteq> x \<Longrightarrow> dropWhile (\<lambda>y. y \<noteq> l) (remove1 x xs) = remove1 x (dropWhile (\<lambda>y. y \<noteq> l) xs)"
proof (induction xs)
  case (Cons y ys)
  have "x \<notin> set (dropWhile (\<lambda>z. z \<noteq> l) ys)" if "x = y" using Cons.prems(1) that by (auto dest: set_dropWhileD)
  then show ?case using Cons by (auto simp: remove1_idem)
qed simp

text \<open>
  Removing a link during a traversal removes it from what is still to be visited and leaves
  the rest of the traversal as it was.
\<close>

lemma remaining_remove1:
  assumes d: "distinct (concat bs)" and i: "i < length bs" "hl \<in> set (bs ! i)"
    and s: "slot < length bs" "l \<in> set (bs ! slot)" and ne: "l \<noteq> hl"
  defines "bs' \<equiv> bs[i := remove1 hl (bs ! i)]"
  shows "dropWhile (\<lambda>x. x \<noteq> l) (bs' ! slot) @ concat (drop (Suc slot) bs') =
    remove1 hl (dropWhile (\<lambda>x. x \<noteq> l) (bs ! slot) @ concat (drop (Suc slot) bs))"
proof -
  let ?a = "dropWhile (\<lambda>x. x \<noteq> l) (bs ! slot)" and ?b = "concat (drop (Suc slot) bs)"
  have in_a: "hl \<in> set ?a \<Longrightarrow> i = slot"
    using bucket_unique [OF d i(1) s(1) i(2)] by (auto dest: set_dropWhileD)
  have in_b: "slot < i" if "hl \<in> set ?b"
  proof -
    from that obtain b where "b \<in> set (drop (Suc slot) bs)" "hl \<in> set b" by auto
    then obtain j where "j < length (drop (Suc slot) bs)" "hl \<in> set (drop (Suc slot) bs ! j)" by (metis in_set_conv_nth)
    then have "Suc slot + j < length bs" "hl \<in> set (bs ! (Suc slot + j))" by (simp_all add: nth_drop)
    from bucket_unique [OF d i(1) this(1) i(2) this(2)] show ?thesis by simp
  qed
  consider "i < slot" | "i = slot" | "slot < i" by linarith
  then show ?thesis
  proof cases
    case 1
    then have "bs' ! slot = bs ! slot" "drop (Suc slot) bs' = drop (Suc slot) bs" by (simp_all add: bs'_def)
    moreover have "hl \<notin> set (?a @ ?b)" using in_a in_b 1 by auto
    ultimately show ?thesis using remove1_idem [of hl "?a @ ?b"] by simp
  next
    case 2
    then have "drop (Suc slot) bs' = drop (Suc slot) bs" "bs' ! slot = remove1 hl (bs ! slot)"
      using s(1) by (simp_all add: bs'_def)
    moreover have "dropWhile (\<lambda>x. x \<noteq> l) (remove1 hl (bs ! slot)) = remove1 hl ?a"
      by (rule dropWhile_remove1 [OF bucket_distinct [OF d s(1)] s(2) ne])
    moreover have "hl \<notin> set ?b" using in_b 2 by auto
    ultimately show ?thesis by (simp add: remove1_append remove1_idem del: set_concat)
  next
    case 3
    then have "bs' ! slot = bs ! slot" by (simp add: bs'_def)
    moreover have "hl \<notin> set ?a" using in_a 3 by auto
    moreover have "drop (Suc slot) bs' = (drop (Suc slot) bs)[i - Suc slot := remove1 hl (bs ! i)]"
      using 3 by (simp add: bs'_def drop_update_swap)
    moreover have "concat ((drop (Suc slot) bs)[i - Suc slot := remove1 hl (drop (Suc slot) bs ! (i - Suc slot))]) = remove1 hl ?b"
    proof (rule concat_remove1)
      show "distinct ?b" using d by (metis append_take_drop_id concat_append distinct_append)
    qed (use 3 i in \<open>simp_all add: nth_drop\<close>)
    ultimately show ?thesis using 3 i(1) by (simp add: remove1_append nth_drop del: set_concat)
  qed
qed

lemma hash_remove_ok:
  assumes "table_ok hash keys hid" "pos_ok hid" "hl \<in> set (links hid)"
  shows "\<exists>hid'. hash_remove_link hash keys hid hl = Inr hid' \<and> table_ok hash keys hid' \<and> pos_ok hid' \<and>
    tsize hid' = tsize hid \<and> links hid' = remove1 hl (links hid) \<and> remaining hid' = remove1 hl (remaining hid)"
proof -
  let ?bs = "buckets hid"
  have d: "distinct (concat ?bs)" using assms(1) by (simp add: table_ok_def links_def)
  obtain i where i: "i < length ?bs" "hl \<in> set (?bs ! i)" 
    using assms(3) unfolding links_def set_concat by (metis UN_E in_set_conv_nth)
  obtain k where k: "keys hl = Some k" "unat (hash k (tsize hid)) = i"
    using assms(1) i unfolding table_ok_def by blast
  define bs' where "bs' = ?bs[i := remove1 hl (?bs ! i)]"
  define h where "h = hid\<lparr>buckets := bs', tcount := tcount hid - 1\<rparr>"
  have c: "concat bs' = remove1 hl (concat ?bs)" unfolding bs'_def by (rule concat_remove1 [OF d i])
  have "length (concat bs') = length (concat ?bs) - 1"
    using assms(3) unfolding c links_def by (simp add: length_remove1 del: set_concat)
  then have "int (length (concat bs')) = int (length (concat ?bs)) - 1"
    using assms(3) by (cases "concat ?bs") (auto simp: links_def)
  moreover have "set (bs' ! j) \<subseteq> set (?bs ! j)" for j
    by (cases "j = i") (auto simp: bs'_def i(1) dest: notin_set_remove1 set_remove1_subset [THEN subsetD])
  moreover have "length bs' = length ?bs" "bs' \<noteq> []" using assms(1) by (auto simp: bs'_def table_ok_def)
  ultimately have t: "table_ok hash keys h"
    using assms(1) d unfolding table_ok_def h_def links_def by (auto simp: c subset_iff)
  have rm: "hash_remove_link hash keys hid hl =
      (if next_link hid = Some hl
       then res_bind (link_next ?bs hl) (\<lambda>n. Inr (hash_next_bucket (h\<lparr>next_link := n\<rparr>))) else Inr h)"
    using i k by (simp add: hash_remove_link_def key_of_def bucket_of_def Let_def h_def bs'_def)
  have lk: "links h = remove1 hl (links hid)" by (simp add: links_def h_def c)
  show ?thesis
  proof (cases "next_link hid = Some hl")
    case True
    then have "i = current_slot hid" using assms(2) bucket_unique [OF d i(1) _ i(2)] by (auto simp: pos_ok_def)
    obtain ys zs where b: "?bs ! i = ys @ hl # zs" "hl \<notin> set ys" using i(2) by (meson split_list_first)
    then have dw: "dropWhile (\<lambda>x. x \<noteq> hl) (?bs ! i) = hl # zs" by (subst b(1), subst dropWhile_append2) auto
    have n: "link_next ?bs hl = Inr (head_of zs)" using find_bucket [OF d i] dw by (simp add: link_next_def)
    have b': "bs' ! i = ys @ zs" using b i(1) by (simp add: bs'_def remove1_append)
    have "distinct (bs' ! i)" using bucket_distinct [OF d i(1)] b b' by simp
    moreover have "i < length bs'" using i(1) by (simp add: bs'_def)
    moreover have "h\<lparr>buckets := bs', current_slot := i, next_link := head_of zs\<rparr> = h\<lparr>next_link := head_of zs\<rparr>"
      using \<open>i = current_slot hid\<close> by (simp add: h_def)
    ultimately have m: "remaining (hash_next_bucket (h\<lparr>next_link := head_of zs\<rparr>)) = zs @ concat (drop (Suc i) bs')"
      "pos_ok (hash_next_bucket (h\<lparr>next_link := head_of zs\<rparr>))"
      using remaining_move [of bs' i zs h] b' by (simp_all add: suffix_def)
    have "drop (Suc i) bs' = drop (Suc i) ?bs" by (simp add: bs'_def)
    then have "remaining (hash_next_bucket (h\<lparr>next_link := head_of zs\<rparr>)) = remove1 hl (remaining hid)"
      using m(1) True dw \<open>i = current_slot hid\<close> by (simp add: remaining_def)
    moreover have "table_ok hash keys (hash_next_bucket (h\<lparr>next_link := head_of zs\<rparr>))" "tsize h = tsize hid"
      using t by (simp_all add: table_ok_def next_bucket_frame links_def h_def)
    ultimately show ?thesis using m(2) lk by (simp add: rm True n next_bucket_frame links_def)
  next
    case False
    have "remaining h = remove1 hl (remaining hid) \<and> pos_ok h"
    proof (cases "next_link hid")
      case None
      then show ?thesis by (simp add: remaining_def pos_ok_def h_def)
    next
      case (Some l)
      then have l: "current_slot hid < length ?bs" "l \<in> set (?bs ! current_slot hid)" "l \<noteq> hl"
        using assms(2) False by (auto simp: pos_ok_def)
      have "l \<in> set (bs' ! current_slot hid)"
        using l by (cases "current_slot hid = i") (simp_all add: bs'_def in_set_remove1)
      then show ?thesis using remaining_remove1 [OF d i l] l(1) Some
        by (simp add: remaining_def pos_ok_def h_def bs'_def)
    qed
    then show ?thesis using t lk by (simp add: rm False h_def)
  qed
qed

lemma remaining_suffix:
  assumes "pos_ok hid"
  shows "suffix (remaining hid) (links hid)"
proof (cases "next_link hid")
  case (Some l)
  let ?bs = "buckets hid" and ?s = "current_slot hid"
  have s: "?s < length ?bs" using assms Some by (simp add: pos_ok_def)
  have "links hid = concat (take ?s ?bs) @ takeWhile (\<lambda>x. x \<noteq> l) (?bs ! ?s) @ remaining hid"
    using s Some by (simp add: links_def remaining_def) (metis append_assoc concat.simps(2) concat_append id_take_nth_drop takeWhile_dropWhile_id)
  then show ?thesis by (metis append_assoc suffixI)
qed (simp add: remaining_def)

text \<open>
  A visitor of all links that removes the links \<open>rm\<close> selects as it sees them, with fuel for
  the loop.
\<close>

fun visit ::
  "('k \<Rightarrow> 32 word \<Rightarrow> 32 word) \<Rightarrow> (nat \<Rightarrow> 'k option) \<Rightarrow> (nat \<Rightarrow> bool) \<Rightarrow> nat \<Rightarrow> hash_table \<Rightarrow> (hash_table \<times> nat list) res option" where
  "visit hash keys rm 0 hid = None"
| "visit hash keys rm (Suc n) hid =
     (case hash_next hid of
        Inl flt \<Rightarrow> Some (Inl flt)
      | Inr (h, None) \<Rightarrow> Some (Inr (h, []))
      | Inr (h, Some l) \<Rightarrow>
          (case (if rm l then hash_remove_link hash keys h l else Inr h) of
             Inl flt \<Rightarrow> Some (Inl flt)
           | Inr h' \<Rightarrow> map_option (\<lambda>r. res_bind r (\<lambda>(h'', ls). Inr (h'', l # ls))) (visit hash keys rm n h')))"

lemma visit_ok:
  assumes "table_ok hash keys hid" "pos_ok hid" "length (remaining hid) < n"
  shows "\<exists>h'. visit hash keys rm n hid = Some (Inr (h', remaining hid)) \<and> table_ok hash keys h' \<and>
    set (links h') = set (links hid) - {l \<in> set (remaining hid). rm l}"
  using assms
proof (induction n arbitrary: hid)
  case (Suc n)
  obtain h l where h: "hash_next hid = Inr (h, l)" "table_ok hash keys h" "pos_ok h" "buckets h = buckets hid"
    "case remaining hid of [] \<Rightarrow> l = None | x # xs \<Rightarrow> l = Some x \<and> remaining h = xs"
    using hash_next_ok [OF Suc.prems(1,2)] by blast
  have lh: "links h = links hid" using h(4) by (simp add: links_def)
  have dl: "distinct (links hid)" using Suc.prems(1) by (simp add: table_ok_def)
  have sub: "suffix (remaining hid) (links hid)" by (rule remaining_suffix [OF Suc.prems(2)])
  show ?case
  proof (cases "remaining hid")
    case Nil
    then show ?thesis using h by (simp add: links_def)
  next
    case (Cons x xs)
    then have l: "l = Some x" "remaining h = xs" using h(5) by auto
    have x: "x \<in> set (links hid)" "x \<notin> set xs" "distinct xs"
      using sub dl unfolding Cons by (auto simp: suffix_def)
    show ?thesis
    proof (cases "rm x")
      case True
      obtain h1 where h1: "hash_remove_link hash keys h x = Inr h1" "table_ok hash keys h1" "pos_ok h1"
        "links h1 = remove1 x (links hid)" "remaining h1 = xs"
        using hash_remove_ok [OF h(2,3), of x] x l(2) by (auto simp: lh remove1_idem)
      from Suc.IH [OF h1(2,3)] Suc.prems(3) Cons h1(5) obtain h' where
        "visit hash keys rm n h1 = Some (Inr (h', xs))" "table_ok hash keys h'"
        "set (links h') = set (links h1) - {l \<in> set xs. rm l}" by auto
      then show ?thesis using h(1) l h1(1) True dl x by (intro exI [of _ h']) (auto simp: Cons h1(4))
    next
      case False
      from Suc.IH [OF h(2,3)] Suc.prems(3) Cons l(2) obtain h' where
        "visit hash keys rm n h = Some (Inr (h', xs))" "table_ok hash keys h'"
        "set (links h') = set (links h) - {l \<in> set xs. rm l}" by auto
      then show ?thesis using h(1) l False by (intro exI [of _ h']) (auto simp: Cons lh)
    qed
  qed
qed simp

lemma collect_ok:
  "table_ok hash keys hid \<Longrightarrow> pos_ok hid \<Longrightarrow> length (remaining hid) \<le> n \<Longrightarrow>
    \<exists>h'. collect n hid = Inr (h', remaining hid) \<and> buckets h' = buckets hid"
proof (induction n arbitrary: hid)
  case 0
  then obtain h where "hash_next hid = Inr (h, None)" "buckets h = buckets hid" using hash_next_ok [OF 0(1,2)] by auto
  then show ?case using 0 by (subst collect.simps) simp
next
  case (Suc n)
  obtain h l where h: "hash_next hid = Inr (h, l)" "table_ok hash keys h" "pos_ok h" "buckets h = buckets hid"
    "case remaining hid of [] \<Rightarrow> l = None | x # xs \<Rightarrow> l = Some x \<and> remaining h = xs"
    using hash_next_ok [OF Suc.prems(1,2)] by blast
  show ?case
  proof (cases "remaining hid")
    case Nil
    then show ?thesis using h by (subst collect.simps) simp
  next
    case (Cons x xs)
    then obtain h' where "collect n h = Inr (h', xs)" "buckets h' = buckets hid"
      using Suc.IH [OF h(2,3)] h(4,5) Suc.prems(3) by auto
    then show ?thesis using h(1,5) Cons by (subst collect.simps) simp
  qed
qed

text \<open>\<^verbatim>\<open>hashFreeItems\<close> frees every link of the table once.\<close>

lemma hashFreeItems_all:
  assumes "table_ok hash keys hid" "next_link hid = None"
  shows "\<exists>h'. hashFreeItems hid = Inr (h', links hid)"
proof -
  obtain h where h: "hash_first hid = Inr h" "remaining h = links hid" "pos_ok h" "table_ok hash keys h"
    using hash_first_ok [OF assms] by blast
  then show ?thesis using collect_ok [OF h(4,3), of "nat (tcount hid)"] assms(1)
    by (auto simp: hashFreeItems_def table_ok_def)
qed

section \<open>Tables as maps\<close>

text \<open>
  What a table requires of the functions it is created with: the hash value of a key lies
  below the size, and the comparison says 0 exactly for equal keys. Under these laws a table
  is a map from keys to links, in which the link joined last is found.
\<close>

locale hash_keys =
  fixes hash :: "'k \<Rightarrow> 32 word \<Rightarrow> 32 word"
    and cmp :: "'k \<Rightarrow> 'k \<Rightarrow> int"
    and valid_key :: "'k \<Rightarrow> bool"
    and valid_size :: "32 word \<Rightarrow> bool"
  assumes hash_less: "valid_key k \<Longrightarrow> valid_size n \<Longrightarrow> hash k n < n"
    and cmp_zero: "valid_key a \<Longrightarrow> valid_key b \<Longrightarrow> cmp a b = 0 \<longleftrightarrow> a = b"
begin

definition good :: "(nat \<Rightarrow> 'k option) \<Rightarrow> hash_table \<Rightarrow> bool" where
  "good keys hid \<longleftrightarrow> table_ok hash keys hid \<and> valid_size (tsize hid) \<and>
     (\<forall>l\<in>set (links hid). \<forall>k. keys l = Some k \<longrightarrow> valid_key k)"

definition found :: "(nat \<Rightarrow> 'k option) \<Rightarrow> hash_table \<Rightarrow> 'k \<Rightarrow> nat option" where
  "found keys hid k = find (\<lambda>l. keys l = Some k) (buckets hid ! unat (hash k (tsize hid)))"

lemma bucket_less: "good keys hid \<Longrightarrow> valid_key k \<Longrightarrow> unat (hash k (tsize hid)) < length (buckets hid)"
  using hash_less [of k "tsize hid"] by (simp add: good_def table_ok_def unat_mono)

lemma walk_find:
  "distinct ls \<Longrightarrow> \<forall>l\<in>set ls. \<exists>k. keys l = Some k \<and> valid_key k \<Longrightarrow> valid_key k \<Longrightarrow>
     walk cmp keys k ls = Inr (find (\<lambda>l. keys l = Some k) ls)"
proof (induction ls)
  case (Cons l ls)
  then obtain k' where k': "keys l = Some k'" "valid_key k'" by auto
  have "\<not> (ls \<noteq> [] \<and> hd ls = l)" using Cons.prems(1) by (cases ls) auto
  then show ?case using Cons k' cmp_zero [OF Cons.prems(3) k'(2)] by auto
qed simp

lemma lookup_found:
  assumes "good keys hid" "valid_key k"
  shows "hash_lookup hash cmp keys hid k = Inr (found keys hid k)"
proof -
  let ?b = "unat (hash k (tsize hid))"
  have b: "?b < length (buckets hid)" by (rule bucket_less [OF assms])
  have t: "table_ok hash keys hid" using assms(1) by (simp add: good_def)
  have "\<forall>l\<in>set (buckets hid ! ?b). \<exists>k. keys l = Some k \<and> valid_key k"
  proof
    fix l
    assume l: "l \<in> set (buckets hid ! ?b)"
    then obtain k' where "keys l = Some k'" using t b unfolding table_ok_def by blast
    moreover have "l \<in> set (links hid)" using l b nth_mem by (fastforce simp: links_def)
    ultimately show "\<exists>k. keys l = Some k \<and> valid_key k" using assms(1) by (auto simp: good_def)
  qed
  then have "walk cmp keys k (buckets hid ! ?b) = Inr (found keys hid k)"
    using walk_find bucket_distinct [of "buckets hid" ?b] t b assms(2) by (simp add: found_def table_ok_def links_def)
  then show ?thesis using b by (simp add: hash_lookup_def bucket_of_def Let_def)
qed

lemma found_None_iff:
  assumes "good keys hid" "valid_key k"
  shows "found keys hid k = None \<longleftrightarrow> (\<forall>l\<in>set (links hid). keys l \<noteq> Some k)"
proof
  assume n: "found keys hid k = None"
  show "\<forall>l\<in>set (links hid). keys l \<noteq> Some k"
  proof
    fix l
    assume "l \<in> set (links hid)"
    then obtain i where i: "i < length (buckets hid)" "l \<in> set (buckets hid ! i)"
      unfolding links_def set_concat by (metis UN_E in_set_conv_nth)
    then obtain k' where "keys l = Some k'" "unat (hash k' (tsize hid)) = i"
      using assms(1) unfolding good_def table_ok_def by blast
    with n i show "keys l \<noteq> Some k" by (auto simp: found_def find_None_iff)
  qed
next
  assume "\<forall>l\<in>set (links hid). keys l \<noteq> Some k"
  then show "found keys hid k = None"
    using bucket_less [OF assms] nth_mem by (fastforce simp: found_def find_None_iff links_def)
qed

lemma found_SomeD:
  "good keys hid \<Longrightarrow> valid_key k \<Longrightarrow> found keys hid k = Some l \<Longrightarrow> l \<in> set (links hid) \<and> keys l = Some k"
  using bucket_less [of keys hid k] nth_mem by (fastforce simp: found_def find_Some_iff links_def)

lemma join_good:
  assumes "good keys hid" "l \<notin> set (links hid)" "keys l = Some k" "valid_key k"
  shows "\<exists>h. hash_join hash keys hid l = Inr h \<and> good keys h \<and> set (links h) = insert l (set (links hid)) \<and>
    found keys h k = Some l \<and> (\<forall>k'. valid_key k' \<and> k' \<noteq> k \<longrightarrow> found keys h k' = found keys hid k')"
proof -
  let ?b = "unat (hash k (tsize hid))" and ?bs = "buckets hid"
  define bs where "bs = ?bs[?b := l # ?bs ! ?b]"
  define h where "h = hid\<lparr>buckets := bs, tcount := tcount hid + 1\<rparr>"
  have b: "?b < length ?bs" by (rule bucket_less [OF assms(1,4)])
  have j: "hash_join hash keys hid l = Inr h"
    using b assms(3) by (simp add: hash_join_def key_of_def bucket_of_def Let_def h_def bs_def)
  have c: "mset (concat bs) = add_mset l (mset (concat ?bs))"
  proof -
    have "concat bs = concat (take ?b ?bs) @ (l # ?bs ! ?b) @ concat (drop (Suc ?b) ?bs)"
      using b by (simp add: bs_def upd_conv_take_nth_drop)
    moreover have "concat ?bs = concat (take ?b ?bs) @ ?bs ! ?b @ concat (drop (Suc ?b) ?bs)"
      using b by (metis concat.simps(2) concat_append id_take_nth_drop)
    ultimately show ?thesis by (metis mset_append mset.simps(2) union_mset_add_mset_left union_mset_add_mset_right)
  qed
  have st: "set (concat bs) = insert l (set (concat ?bs))" using arg_cong [OF c, of set_mset] by simp
  have len: "length (concat bs) = Suc (length (concat ?bs))" using arg_cong [OF c, of size] by simp
  have "distinct (concat bs)" using assms(1,2) len st unfolding good_def table_ok_def links_def
    by (simp add: distinct_card card_insert_if card_distinct del: set_concat)
  moreover have "\<forall>i < length bs. \<forall>x\<in>set (bs ! i). \<exists>k. keys x = Some k \<and> unat (hash k (tsize hid)) = i"
    using assms(1,3) b unfolding good_def table_ok_def bs_def
    by (auto simp: nth_list_update simp del: split_paired_All)
  ultimately have "table_ok hash keys h"
    using assms(1) len unfolding good_def table_ok_def h_def links_def by (simp add: bs_def)
  moreover have "\<forall>x\<in>set (links h). \<forall>k. keys x = Some k \<longrightarrow> valid_key k"
    using assms st unfolding good_def links_def h_def by (simp del: set_concat)
  ultimately have "good keys h" using assms(1) by (simp add: good_def h_def)
  moreover have "found keys h k = Some l" using b assms(3) by (simp add: found_def h_def bs_def)
  moreover have "found keys h k' = found keys hid k'" if "k' \<noteq> k" for k'
    using that assms(3) b by (simp add: found_def h_def bs_def nth_list_update)
  ultimately show ?thesis using j st by (simp add: links_def h_def del: set_concat)
qed

lemma create_good: "valid_size (if n = 0 then 7951 else n) \<Longrightarrow> good keys (hash_create n)"
  using create_ok [of hash keys n] by (simp add: good_def hash_create_def links_def Let_def)

end

section \<open>Tables with string keys\<close>

text \<open>\<^verbatim>\<open>strcmp\<close> on strings without their terminators.\<close>

fun strcmp :: "string \<Rightarrow> string \<Rightarrow> int" where
  "strcmp [] [] = 0"
| "strcmp [] (b # B) = - int (of_char b)"
| "strcmp (a # A) [] = int (of_char a)"
| "strcmp (a # A) (b # B) = (if a = b then strcmp A B else int (of_char a) - int (of_char b))"

lemma of_char_zero: "(of_char c :: nat) = 0 \<longleftrightarrow> c = NUL"
proof -
  have "(of_char NUL :: nat) = 0" by simp
  then show ?thesis by (metis of_char_eq_iff)
qed

lemma strcmp_zero: "NUL \<notin> set a \<Longrightarrow> NUL \<notin> set b \<Longrightarrow> strcmp a b = 0 \<longleftrightarrow> a = b"
  by (induction a b rule: strcmp.induct) (auto simp: of_char_zero)

interpretation strings: hash_keys hash_string strcmp "\<lambda>s. NUL \<notin> set s" "\<lambda>n. 0 < n"
  by unfold_locales (auto simp: hash_string_def strcmp_zero word_mod_less_divisor split: prod.split)

interpretation strings4: hash_keys hash4 strcmp "\<lambda>s. NUL \<notin> set s" "\<lambda>n. 0 < n"
  by unfold_locales (auto simp: hash4_def strcmp_zero word_mod_less_divisor)

section \<open>Properties\<close>

text \<open>
  C33. A traversal sees everything once, even under deletion: on a well-formed table,
  \<^verbatim>\<open>hash_first\<close> and repeated calls of \<^verbatim>\<open>hash_next\<close> return every link exactly once, bucket by bucket,
  and end, although the caller removes any of the links it has just been given from the table;
  the links that were not removed are left.
\<close>

theorem hash_traversal_with_removal:
  assumes "table_ok hash keys hid" "next_link hid = None"
  shows "\<exists>h h'. hash_first hid = Inr h \<and>
    visit hash keys rm (Suc (length (links hid))) h = Some (Inr (h', links hid)) \<and> distinct (links hid) \<and>
    table_ok hash keys h' \<and> set (links h') = {l \<in> set (links hid). \<not> rm l}"
proof -
  obtain h where h: "hash_first hid = Inr h" "remaining h = links hid" "pos_ok h" "table_ok hash keys h"
    "buckets h = buckets hid" using hash_first_ok [OF assms] by blast
  moreover have "links h = links hid" using h(5) by (simp add: links_def)
  moreover have "distinct (links hid)" using assms(1) by (simp add: table_ok_def)
  ultimately show ?thesis using visit_ok [OF h(4,3), of "Suc (length (links hid))" rm] by fastforce
qed

definition demo_keys :: "nat \<Rightarrow> string option" where
  "demo_keys = [1 \<mapsto> ''a'', 2 \<mapsto> ''b'', 3 \<mapsto> ''c'']"

lemma demo_table:
  "\<exists>h. table_ok hash_string demo_keys h \<and> next_link h = None \<and> set (links h) = {1, 2}"
proof -
  have "strings.good demo_keys (hash_create 7)" "links (hash_create 7) = []"
    using strings.create_good [of 7 demo_keys] by (simp_all add: links_def hash_create_def)
  then obtain h1 where h1: "hash_join hash_string demo_keys (hash_create 7) 1 = Inr h1" "strings.good demo_keys h1" "set (links h1) = {1}"
    using strings.join_good [of demo_keys "hash_create 7" 1 "''a''"] by (auto simp: demo_keys_def)
  then obtain h2 where h2: "hash_join hash_string demo_keys h1 2 = Inr h2" "strings.good demo_keys h2" "set (links h2) = {1, 2}"
    using strings.join_good [of demo_keys h1 2 "''b''"] by (auto simp: demo_keys_def)
  have "next_link h1 = None" "next_link h2 = next_link h1"
    using h1(1) h2(1) by (auto simp: hash_join_def res_bind_Inr_iff hash_create_def)
  then show ?thesis using h2(2,3) by (auto simp: strings.good_def)
qed

theorem hash_traversal_with_removal_witness:
  "\<exists>hid h h'. set (links hid) = {1, 2} \<and> hash_first hid = Inr h \<and>
    visit hash_string demo_keys (\<lambda>l. l = 1) (Suc (length (links hid))) h = Some (Inr (h', links hid)) \<and> set (links h') = {2}"
proof -
  obtain hid where t: "table_ok hash_string demo_keys hid" "next_link hid = None" "set (links hid) = {1, 2}"
    using demo_table by blast
  have "{l \<in> {1, 2 :: nat}. l \<noteq> 1} = {2}" by auto
  then show ?thesis using hash_traversal_with_removal [OF t(1,2), of "\<lambda>l. l = 1"] t(3) by metis
qed

end
