(* ===== verification/Store_Index.thy ===== *)
theory Store_Index
  imports StoreKey Hash_Table
begin

text \<open>
  The index of the store: the functions of \<^verbatim>\<open>src/store.c\<close> that put entries into the hash table
  \<^verbatim>\<open>store_table\<close> under their keys, take them out and look them up, composed of the hash tables of
  \<^theory_text>\<open>Hash_Table\<close> and the keys of \<^theory_text>\<open>StoreKey\<close>.

  An entry is an address; \<open>hash_key\<close> is the field \<^verbatim>\<open>e->hash.key\<close> (\<^term>\<open>None\<close>: null). The writing of a
  deletion to the swap log is recorded in \<open>swap_log\<close>. A request that varies carries
  \<^verbatim>\<open>req->vary\<close>, whose only field read here is the text of a key.
\<close>

section \<open>The operations\<close>

record entry_info =
  e_mem :: "(string \<times> u32) option"
  e_swap_filen :: int
  e_private :: bool

record store_state =
  store_table :: hash_table
  hash_key :: "nat \<Rightarrow> string option"
  entries :: "nat \<Rightarrow> entry_info"
  key_counter :: int
  swap_log :: "nat list"
  acsm_caps :: matchers

text \<open>\<^verbatim>\<open>storeInitHashValues\<close> and the creation of the table in \<^verbatim>\<open>storeInit\<close>.\<close>

definition storeInitHashValues :: "nat \<Rightarrow> nat \<Rightarrow> nat \<Rightarrow> nat \<Rightarrow> nat option" where
  "storeInitHashValues maxSize memMaxSize avgObjectSize objectsPerBucket =
     storeKeyHashBuckets ((maxSize + memMaxSize div 1024) div avgObjectSize div objectsPerBucket)"

definition store_table_create :: "nat \<Rightarrow> hash_table" where
  "store_table_create store_hash_buckets = hash_create (of_nat store_hash_buckets)"

definition storeHashInsert :: "nat \<Rightarrow> string \<Rightarrow> store_state \<Rightarrow> store_state res" where
  "storeHashInsert e key st =
     (let st = st\<lparr>hash_key := (hash_key st)(e \<mapsto> storeKeyDup key)\<rparr>
      in res_bind (hash_join storeKeyHashHash (hash_key st) (store_table st) e)
           (\<lambda>t. Inr (st\<lparr>store_table := t\<rparr>)))"

definition storeHashDelete :: "nat \<Rightarrow> store_state \<Rightarrow> store_state res" where
  "storeHashDelete e st =
     res_bind (hash_remove_link storeKeyHashHash (hash_key st) (store_table st) e)
       (\<lambda>t. Inr (st\<lparr>store_table := t, hash_key := (hash_key st)(e := None)\<rparr>))"

definition storeGet :: "string \<Rightarrow> store_state \<Rightarrow> nat option res" where
  "storeGet key st = hash_lookup storeKeyHashHash storeKeyHashCmp (hash_key st) (store_table st) key"

definition storeGetPublic :: "string \<Rightarrow> string \<Rightarrow> nat \<Rightarrow> store_state \<Rightarrow> (store_state \<times> nat option) res" where
  "storeGetPublic stale uri mth st =
     res_bind (storeKeyPublic stale (acsm_caps st) uri mth) (\<lambda>(caps, key).
     res_bind (storeGet key st) (\<lambda>e. Inr (st\<lparr>acsm_caps := caps\<rparr>, e)))"

text \<open>\<open>vary\<close> is \<^verbatim>\<open>req->vary\<close> with its \<^verbatim>\<open>key\<close>, both of which may be null.\<close>

definition storeGetPublicByRequestMethod ::
  "string \<Rightarrow> request \<Rightarrow> string option option \<Rightarrow> nat \<Rightarrow> store_state \<Rightarrow> (store_state \<times> nat option) res" where
  "storeGetPublicByRequestMethod stale req vary mth st =
     (case vary of
        Some (Some k) \<Rightarrow> res_bind (storeKeyScan k) (\<lambda>key. res_bind (storeGet key st) (\<lambda>e. Inr (st, e)))
      | Some None \<Rightarrow> Inr (st, None)
      | None \<Rightarrow>
          res_bind (storeKeyPublicByRequestMethod stale (acsm_caps st) req mth) (\<lambda>(caps, key).
          res_bind (storeGet key st) (\<lambda>e. Inr (st\<lparr>acsm_caps := caps\<rparr>, e))))"

definition storeGetPublicByRequest ::
  "string \<Rightarrow> request \<Rightarrow> string option option \<Rightarrow> store_state \<Rightarrow> (store_state \<times> nat option) res" where
  "storeGetPublicByRequest stale req vary st =
     res_bind (storeGetPublicByRequestMethod stale req vary (req_method req) st) (\<lambda>(st', e).
       if e = None \<and> req_method req = METHOD_HEAD
       then storeGetPublicByRequestMethod stale req vary METHOD_GET st'
       else Inr (st', e))"

text \<open>The counter of private keys; it starts again at 1 when the \<^verbatim>\<open>int\<close> would become negative.\<close>

definition getKeyCounter :: "store_state \<Rightarrow> store_state \<times> int" where
  "getKeyCounter st =
     (let c = (if key_counter st + 1 \<ge> 2147483648 then 1 else key_counter st + 1)
      in (st\<lparr>key_counter := c\<rparr>, c))"

definition storeSetPrivateKey :: "string \<Rightarrow> nat \<Rightarrow> store_state \<Rightarrow> store_state res" where
  "storeSetPrivateKey stale e st =
     (if hash_key st e \<noteq> None \<and> e_private (entries st e) then Inr st
      else res_bind
        (if hash_key st e \<noteq> None
         then storeHashDelete e (if e_swap_filen (entries st e) > - 1 then st\<lparr>swap_log := swap_log st @ [e]\<rparr> else st)
         else Inr st)
        (\<lambda>st1. case getKeyCounter st1 of (st2, num) \<Rightarrow>
          res_bind (case e_mem (entries st2 e) of
                      Some (url, mth) \<Rightarrow> storeKeyPrivate stale url mth num
                    | None \<Rightarrow> storeKeyPrivate stale ''JUNK'' 0 num) (\<lambda>newkey.
          res_bind (storeGet newkey st2) (\<lambda>old.
          if old \<noteq> None then Inl AssertFailed
          else storeHashInsert e newkey
                 (st2\<lparr>entries := (entries st2)(e := (entries st2 e)\<lparr>e_private := True\<rparr>)\<rparr>)))))"

section \<open>The store's keys in a hash table\<close>

interpretation store_keys: hash_keys storeKeyHashHash storeKeyHashCmp "\<lambda>k. length k = 16" "\<lambda>n. \<exists>k < 32. n = 2 ^ k"
  by unfold_locales (auto simp: storeKeyHashHash_less storeKeyHashCmp_zero)

definition index_ok :: "store_state \<Rightarrow> bool" where
  "index_ok st \<longleftrightarrow> store_keys.good (hash_key st) (store_table st)"

lemma table_create_good:
  assumes "nbuckets \<le> 2 ^ 30" "storeKeyHashBuckets nbuckets = Some n"
  shows "store_keys.good keys (store_table_create n)"
proof -
  obtain k where k: "n = 2 ^ k" using storeKeyHashBuckets_ok [OF assms(1)] assms(2) by auto
  have "k < 32"
  proof (rule ccontr)
    assume "\<not> k < 32"
    then have "(2 :: nat) ^ 31 \<le> 2 ^ (k - 1)" by (intro power_increasing) simp_all
    moreover have "k \<noteq> 13" using \<open>\<not> k < 32\<close> by simp
    moreover from storeKeyHashBuckets_ok [OF assms(1)] obtain j where j: "Some n = Some (2 ^ j)" "j = 13 \<or> 2 ^ (j - 1) < nbuckets"
      using assms(2) by auto
    moreover have "j = k" using j(1) k by simp
    ultimately show False using assms(1) by auto
  qed
  then have "(of_nat n :: 32 word) = 2 ^ k" "(2 ^ k :: 32 word) \<noteq> 0" by (simp_all add: k)
  then show ?thesis using \<open>k < 32\<close> store_keys.create_good [of "of_nat n" keys] by (auto simp: store_table_create_def)
qed

lemma good_keys_cong:
  assumes "\<forall>l\<in>set (links t). keys l = keys' l"
  shows "store_keys.good keys t = store_keys.good keys' t"
proof -
  have "l \<in> set (links t)" if "i < length (buckets t)" "l \<in> set (buckets t ! i)" for i l
    using that nth_mem by (fastforce simp: links_def)
  then show ?thesis using assms unfolding store_keys.good_def table_ok_def by auto
qed

lemma storeGet_found:
  "index_ok st \<Longrightarrow> length key = 16 \<Longrightarrow> storeGet key st = Inr (store_keys.found (hash_key st) (store_table st) key)"
  by (simp add: storeGet_def index_ok_def store_keys.lookup_found)

text \<open>Inserting an entry: it is found under its key, and the other keys are not affected.\<close>

lemma storeHashInsert_ok:
  assumes "index_ok st" "e \<notin> set (links (store_table st))" "length key = 16"
  shows "\<exists>st'. storeHashInsert e key st = Inr st' \<and> index_ok st' \<and> acsm_caps st' = acsm_caps st \<and>
    storeGet key st' = Inr (Some e) \<and>
    (\<forall>key'. length key' = 16 \<and> key' \<noteq> key \<longrightarrow> storeGet key' st' = storeGet key' st)"
proof -
  define keys where "keys = (hash_key st)(e \<mapsto> key)"
  have same: "\<forall>l\<in>set (links (store_table st)). hash_key st l = keys l" using assms(2) by (auto simp: keys_def)
  have g: "store_keys.good keys (store_table st)" using assms(1) good_keys_cong [OF same] by (simp add: index_ok_def)
  obtain t where t: "hash_join storeKeyHashHash keys (store_table st) e = Inr t" "store_keys.good keys t"
    "store_keys.found keys t key = Some e"
    "\<forall>k'. length k' = 16 \<and> k' \<noteq> key \<longrightarrow> store_keys.found keys t k' = store_keys.found keys (store_table st) k'"
    using store_keys.join_good [OF g assms(2), of key] assms(3) by (auto simp: keys_def)
  let ?st' = "st\<lparr>hash_key := keys, store_table := t\<rparr>"
  have i: "index_ok ?st'" using t(2) by (simp add: index_ok_def)
  have "storeHashInsert e key st = Inr ?st'"
    using t(1) assms(3) by (simp add: storeHashInsert_def storeKeyDup_def Let_def keys_def)
  moreover have "storeGet key ?st' = Inr (Some e)" using storeGet_found [OF i assms(3)] t(3) by simp
  moreover have "storeGet key' ?st' = storeGet key' st" if "length key' = 16" "key' \<noteq> key" for key'
  proof -
    have "find (\<lambda>l. keys l = Some key') b = find (\<lambda>l. hash_key st l = Some key') b" if "set b \<subseteq> set (links (store_table st))" for b
      using that same by (intro find_cong) auto
    moreover have "set (buckets (store_table st) ! unat (storeKeyHashHash key' (tsize (store_table st)))) \<subseteq> set (links (store_table st))"
      using store_keys.bucket_less [OF g, of key'] that(1) nth_mem by (fastforce simp: links_def)
    ultimately have "store_keys.found keys (store_table st) key' = store_keys.found (hash_key st) (store_table st) key'"
      by (simp add: store_keys.found_def)
    then show ?thesis using storeGet_found [OF i that(1)] storeGet_found [OF assms(1) that(1)] t(4) that by simp
  qed
  ultimately show ?thesis using i by (intro exI [of _ ?st']) simp
qed

end
