(* ===== verification/Heap.thy ===== *)
theory Heap
  imports Prelude "HOL-Library.Multiset"
begin

text \<open>
  The binary heap of \<^verbatim>\<open>src/squid-2.7.STABLE9-new/lib/heap.c\<close>, which orders the objects of
  the heap replacement policies.

  The caller keeps pointers to heap nodes, and the nodes know their place in the array, so
  the model has an explicit store of nodes: \<open>hstore\<close> maps an address to a node (absent
  once freed), \<open>hnodes\<close> is the array of pointers (\<^term>\<open>None\<close> for \<^verbatim>\<open>NULL\<close>), and \<open>hnext\<close>
  the next address \<^verbatim>\<open>xmalloc\<close> returns. A key is a \<^verbatim>\<open>double\<close> that is not a NaN: a type of
  class \<open>linorder\<close>. The key generator is a parameter, as in the code. An access to
  a freed node, a failed assertion and a loop that runs out of fuel are \<^term>\<open>None\<close>; the
  fuel is the number of nodes, and theory \<open>Heap_Correct\<close> shows that it is enough.
\<close>

section \<open>Data\<close>

record ('k, 'd) heap_node =
  hkey :: 'k
  hid :: nat
  hdata :: 'd

record ('k, 'd) heap =
  hsize :: nat
  hlast :: nat
  hage :: 'k
  hnodes :: "nat option list"
  hstore :: "nat \<Rightarrow> ('k, 'd) heap_node option"
  hnext :: nat

definition Left :: "nat \<Rightarrow> nat" where "Left x = 2 * x + 1"
definition Right :: "nat \<Rightarrow> nat" where "Right x = 2 * x + 2"

text \<open>\<^verbatim>\<open>((int)((x)-1)/2)\<close>; for 0 the division of -1 truncates to 0.\<close>

definition Parent :: "nat \<Rightarrow> nat" where "Parent x = (x - 1) div 2"

definition new_heap :: "int \<Rightarrow> 'k \<Rightarrow> ('k, 'd) heap" where
  "new_heap initSize zero =
     (let n = (if initSize \<le> 0 then 32 else nat initSize)
      in \<lparr>hsize = n, hlast = 0, hage = zero, hnodes = replicate n None,
          hstore = (\<lambda>_. None), hnext = 0\<rparr>)"

section \<open>Private functions\<close>

definition heap_node_exist :: "('k, 'd) heap \<Rightarrow> nat \<Rightarrow> bool" where
  "heap_node_exist hp i \<longleftrightarrow> i < hlast hp \<and> i < length (hnodes hp) \<and> hnodes hp ! i \<noteq> None"

text \<open>The node the array points to at an index, with its address.\<close>

definition node_at :: "('k, 'd) heap \<Rightarrow> nat \<Rightarrow> (nat \<times> ('k, 'd) heap_node) option" where
  "node_at hp i = do {
     p \<leftarrow> nth_opt (hnodes hp) i;
     a \<leftarrow> p;
     n \<leftarrow> hstore hp a;
     Some (a, n)
   }"

definition heap_swap_element :: "('k, 'd) heap \<Rightarrow> nat \<Rightarrow> nat \<Rightarrow> ('k, 'd) heap option" where
  "heap_swap_element hp elm1 elm2 = do {
     n1 \<leftarrow> hstore hp elm1;
     n2 \<leftarrow> hstore hp elm2;
     let id1 = hid n2;
     let id2 = hid n1;
     let st1 = (hstore hp)(elm1 := Some (n1\<lparr>hid := id1\<rparr>));
     m2 \<leftarrow> st1 elm2;
     let st2 = st1(elm2 := Some (m2\<lparr>hid := id2\<rparr>));
     m1 \<leftarrow> st2 elm1;
     ns1 \<leftarrow> upd_opt (hnodes hp) (hid m1) (\<lambda>_. Some elm1);
     ns2 \<leftarrow> upd_opt ns1 id2 (\<lambda>_. Some elm2);
     Some (hp\<lparr>hstore := st2, hnodes := ns2\<rparr>)
   }"

fun heap_ify_up :: "nat \<Rightarrow> ('k :: linorder, 'd) heap \<Rightarrow> nat \<Rightarrow> ('k, 'd) heap option" where
  "heap_ify_up fuel hp elm = do {
     e \<leftarrow> hstore hp elm;
     if hid e = 0 then Some hp
     else do {
       (pa, p) \<leftarrow> node_at hp (Parent (hid e));
       if hkey p \<le> hkey e then Some hp
       else (case fuel of
           0 \<Rightarrow> None
         | Suc f \<Rightarrow> do {
             hp' \<leftarrow> heap_swap_element hp pa elm;
             heap_ify_up f hp' elm
           })
     }
   }"

fun heap_ify_down :: "nat \<Rightarrow> ('k :: linorder, 'd) heap \<Rightarrow> nat \<Rightarrow> ('k, 'd) heap option" where
  "heap_ify_down fuel hp elm = do {
     e \<leftarrow> hstore hp elm;
     let left = Left (hid e);
     let right = Right (hid e);
     if \<not> heap_node_exist hp left
     then (if heap_node_exist hp right then None else Some hp)
     else do {
       (la, l) \<leftarrow> node_at hp left;
       (ka, k) \<leftarrow>
         (if \<not> heap_node_exist hp right then Some (la, l)
          else do {
            (ra, r) \<leftarrow> node_at hp right;
            Some (if hkey r < hkey l then (ra, r) else (la, l))
          });
       if hkey e \<le> hkey k then Some hp
       else (case fuel of
           0 \<Rightarrow> None
         | Suc f \<Rightarrow> do {
             hp' \<leftarrow> heap_swap_element hp ka elm;
             heap_ify_down f hp' elm
           })
     }
   }"

declare heap_ify_up.simps [simp del] heap_ify_down.simps [simp del]

definition heap_should_grow :: "('k, 'd) heap \<Rightarrow> bool" where
  "heap_should_grow hp \<longleftrightarrow> hsize hp \<le> hlast hp"

definition heap_grow :: "('k, 'd) heap \<Rightarrow> ('k, 'd) heap" where
  "heap_grow hp =
     (let newSize = (if hsize hp > 10000 then hsize hp * 3 div 2 else hsize hp * 2)
      in hp\<lparr>hnodes := hnodes hp @ replicate (newSize - hsize hp) None, hsize := newSize\<rparr>)"

section \<open>Public functions\<close>

definition heap_gen_key :: "('d \<Rightarrow> 'k \<Rightarrow> 'k) \<Rightarrow> ('k, 'd) heap \<Rightarrow> 'd \<Rightarrow> 'k" where
  "heap_gen_key gen_key hp dat = gen_key dat (hage hp)"

definition heap_insert ::
  "('d \<Rightarrow> 'k :: linorder \<Rightarrow> 'k) \<Rightarrow> ('k, 'd) heap \<Rightarrow> 'd \<Rightarrow> (('k, 'd) heap \<times> nat) option" where
  "heap_insert gen_key hp dat = do {
     let elm = hnext hp;
     let key = heap_gen_key gen_key hp dat;
     let hp1 = (if heap_should_grow hp then heap_grow hp else hp);
     ns \<leftarrow> upd_opt (hnodes hp1) (hlast hp1) (\<lambda>_. Some elm);
     let hp2 = hp1\<lparr>hnodes := ns,
                    hstore := (hstore hp1)(elm := Some \<lparr>hkey = key, hid = hlast hp1, hdata = dat\<rparr>),
                    hlast := hlast hp1 + 1, hnext := Suc elm\<rparr>;
     hp3 \<leftarrow> heap_ify_up (hlast hp2) hp2 elm;
     Some (hp3, elm)
   }"

definition heap_extractlast :: "('k, 'd) heap \<Rightarrow> (('k, 'd) heap \<times> 'd) option" where
  "heap_extractlast hp =
     (if hlast hp = 0 \<or> \<not> heap_node_exist hp (hlast hp - 1) then None
      else do {
        (a, n) \<leftarrow> node_at hp (hlast hp - 1);
        Some (hp\<lparr>hlast := hlast hp - 1, hstore := (hstore hp)(a := None)\<rparr>, hdata n)
      })"

text \<open>\<^verbatim>\<open>if (elm->key < parent->key) ify_up; ify_down;\<close>\<close>

definition heap_fix :: "('k :: linorder, 'd) heap \<Rightarrow> nat \<Rightarrow> ('k, 'd) heap option" where
  "heap_fix hp elm = do {
     e \<leftarrow> hstore hp elm;
     (pa, p) \<leftarrow> node_at hp (Parent (hid e));
     hp1 \<leftarrow> (if hkey e < hkey p then heap_ify_up (hlast hp) hp elm else Some hp);
     heap_ify_down (hlast hp) hp1 elm
   }"

definition heap_delete :: "('k :: linorder, 'd) heap \<Rightarrow> nat \<Rightarrow> (('k, 'd) heap \<times> 'd) option" where
  "heap_delete hp elm = do {
     e \<leftarrow> hstore hp elm;
     let data = hdata e;
     if hlast hp = 0 \<or> \<not> heap_node_exist hp (hlast hp - 1) then None
     else do {
       (lastNode, _) \<leftarrow> node_at hp (hlast hp - 1);
       hp1 \<leftarrow> heap_swap_element hp lastNode elm;
       (hp2, _) \<leftarrow> heap_extractlast hp1;
       hp3 \<leftarrow> (if elm = lastNode then Some hp2
               else if hlast hp2 > 0 then heap_fix hp2 lastNode else Some hp2);
       Some (hp3, data)
     }
   }"

definition heap_extractmin :: "('k :: linorder, 'd) heap \<Rightarrow> (('k, 'd) heap \<times> 'd option) option" where
  "heap_extractmin hp =
     (if hlast hp = 0 then Some (hp, None)
      else do {
        (a, n) \<leftarrow> node_at hp 0;
        (hp', _) \<leftarrow> heap_delete hp a;
        Some (hp', Some (hdata n))
      })"

definition heap_update ::
  "('d \<Rightarrow> 'k :: linorder \<Rightarrow> 'k) \<Rightarrow> ('k, 'd) heap \<Rightarrow> nat \<Rightarrow> 'd \<Rightarrow> (('k, 'd) heap \<times> 'd) option" where
  "heap_update gen_key hp elm dat = do {
     e \<leftarrow> hstore hp elm;
     let hp1 = hp\<lparr>hstore := (hstore hp)(elm := Some (e\<lparr>hkey := heap_gen_key gen_key hp dat, hdata := dat\<rparr>))\<rparr>;
     hp2 \<leftarrow> heap_fix hp1 elm;
     Some (hp2, hdata e)
   }"

definition heap_peep :: "('k, 'd) heap \<Rightarrow> nat \<Rightarrow> 'd option" where
  "heap_peep hp n =
     (if heap_node_exist hp n then map_option (\<lambda>(a, e). hdata e) (node_at hp n) else None)"

definition heap_peepkey :: "('k, 'd) heap \<Rightarrow> nat \<Rightarrow> 'k option" where
  "heap_peepkey hp n =
     (if heap_node_exist hp n then map_option (\<lambda>(a, e). hkey e) (node_at hp n) else None)"

definition heap_peepmin :: "('k, 'd) heap \<Rightarrow> 'd option" where
  "heap_peepmin hp = heap_peep hp 0"

definition heap_peepminkey :: "('k, 'd) heap \<Rightarrow> 'k option" where
  "heap_peepminkey hp = heap_peepkey hp 0"

definition heap_nodes :: "('k, 'd) heap \<Rightarrow> nat" where
  "heap_nodes hp = hlast hp"

definition heap_empty :: "('k, 'd) heap \<Rightarrow> bool" where
  "heap_empty hp \<longleftrightarrow> hlast hp = 0"

text \<open>The test of one inner node, and the loop of \<^verbatim>\<open>verify_heap_property\<close> over them.\<close>

definition kid_ok :: "('k :: linorder, 'd) heap \<Rightarrow> nat \<Rightarrow> nat \<Rightarrow> bool option" where
  "kid_ok hp i kid =
     (if heap_node_exist hp kid then do {
        (_, n) \<leftarrow> node_at hp i;
        (_, k) \<leftarrow> node_at hp kid;
        Some (\<not> hkey n > hkey k)
      } else Some True)"

fun verify_from :: "('k :: linorder, 'd) heap \<Rightarrow> nat list \<Rightarrow> bool option" where
  "verify_from hp [] = Some True"
| "verify_from hp (i # is) = do {
     l \<leftarrow> kid_ok hp i (Left i);
     r \<leftarrow> kid_ok hp i (Right i);
     if l \<and> r then verify_from hp is else Some False
   }"

definition verify_heap_property :: "('k :: linorder, 'd) heap \<Rightarrow> bool option" where
  "verify_heap_property hp = verify_from hp [0..<hlast hp div 2]"

end
