(* ===== verification/Heap_Correct.thy ===== *)
theory Heap_Correct
  imports Heap
begin

text \<open>
  Correctness of the heap. The array of nodes and the store represent a list of entries
  (address, key, data), relation \<open>hrep\<close>; the two sift loops are analysed on the function
  from positions to keys, then every public operation is shown to keep the representation
  and the heap order and to change the entries as documented. The interface is the
  locale \<open>priority_queue\<close>.
\<close>

section \<open>Positions\<close>

lemma Parent_less: "0 < j \<Longrightarrow> Parent j < j"
  by (simp add: Parent_def)

lemma Parent_eq_iff: "0 < j \<Longrightarrow> Parent j = i \<longleftrightarrow> j = Left i \<or> j = Right i"
  unfolding Parent_def Left_def Right_def by presburger

lemma Left_Right [simp]: "Parent (Left i) = i" "Parent (Right i) = i" "0 < Left i" "0 < Right i"
  "i < Left i" "i < Right i" "Left i < Right i"
  by (simp_all add: Parent_def Left_def Right_def)

section \<open>Order on positions\<close>

definition edges :: "nat \<Rightarrow> (nat \<Rightarrow> bool) \<Rightarrow> (nat \<Rightarrow> 'k :: linorder) \<Rightarrow> bool" where
  "edges n P k \<longleftrightarrow> (\<forall>j. 0 < j \<and> j < n \<and> P j \<longrightarrow> k (Parent j) \<le> k j)"

definition bridge :: "nat \<Rightarrow> nat \<Rightarrow> (nat \<Rightarrow> 'k :: linorder) \<Rightarrow> bool" where
  "bridge n i k \<longleftrightarrow> (0 < i \<longrightarrow> (\<forall>j. 0 < j \<and> j < n \<and> Parent j = i \<longrightarrow> k (Parent i) \<le> k j))"

abbreviation ordered :: "nat \<Rightarrow> (nat \<Rightarrow> 'k :: linorder) \<Rightarrow> bool" where
  "ordered n k \<equiv> edges n (\<lambda>_. True) k"

definition up_ok :: "nat \<Rightarrow> nat \<Rightarrow> (nat \<Rightarrow> 'k :: linorder) \<Rightarrow> bool" where
  "up_ok n i k \<longleftrightarrow> edges n (\<lambda>j. j \<noteq> i) k \<and> bridge n i k"

definition down_ok :: "nat \<Rightarrow> nat \<Rightarrow> (nat \<Rightarrow> 'k :: linorder) \<Rightarrow> bool" where
  "down_ok n i k \<longleftrightarrow> edges n (\<lambda>j. Parent j \<noteq> i) k \<and> bridge n i k"

definition hole :: "nat \<Rightarrow> nat \<Rightarrow> (nat \<Rightarrow> 'k :: linorder) \<Rightarrow> bool" where
  "hole n i k \<longleftrightarrow> edges n (\<lambda>j. j \<noteq> i \<and> Parent j \<noteq> i) k \<and> bridge n i k"

lemma edgesD: "edges n P k \<Longrightarrow> 0 < j \<Longrightarrow> j < n \<Longrightarrow> P j \<Longrightarrow> k (Parent j) \<le> k j"
  by (simp add: edges_def)

lemma ordered_bridge:
  assumes "ordered n k" "i < n" shows "bridge n i k"
  unfolding bridge_def
proof (intro impI allI)
  fix j assume "0 < i" "0 < j \<and> j < n \<and> Parent j = i"
  then have "k (Parent i) \<le> k i" "k (Parent j) \<le> k j" "Parent j = i"
    using edgesD [OF assms(1)] assms(2) by blast+
  then show "k (Parent i) \<le> k j" by simp
qed

lemma ordered_down_ok: "ordered n k \<Longrightarrow> i < n \<Longrightarrow> down_ok n i k"
  using ordered_bridge by (auto simp: down_ok_def edges_def)

lemma up_ok_done:
  assumes "up_ok n i k" "i = 0 \<or> k (Parent i) \<le> k i" shows "ordered n k"
  using assms unfolding up_ok_def edges_def by blast

lemma up_ok_swap:
  assumes u: "up_ok n i k" and i: "0 < i" "i < n" and lt: "k i < k (Parent i)"
  shows "up_ok n (Parent i) (k(Parent i := k i, i := k (Parent i)))"
proof -
  let ?p = "Parent i" and ?k = "k(Parent i := k i, i := k (Parent i))"
  have e: "k (Parent j) \<le> k j" if "0 < j" "j < n" "j \<noteq> i" for j
    using u that by (auto simp: up_ok_def edges_def)
  have b: "k ?p \<le> k j" if "0 < j" "j < n" "Parent j = i" for j
    using u i that by (auto simp: up_ok_def bridge_def)
  have pi: "?p < i" using i(1) by (rule Parent_less)
  have "edges n (\<lambda>j. j \<noteq> ?p) ?k"
    unfolding edges_def
  proof (intro allI impI)
    fix j assume j: "0 < j \<and> j < n \<and> j \<noteq> ?p"
    have less: "Parent j < j" using j Parent_less [of j] by simp
    consider "j = i" | "j \<noteq> i" "Parent j = i" | "j \<noteq> i" "Parent j = ?p" | "j \<noteq> i" "Parent j \<noteq> i" "Parent j \<noteq> ?p"
      by blast
    then show "?k (Parent j) \<le> ?k j"
    proof cases
      case 1
      then show ?thesis using pi lt by simp
    next
      case 2
      then show ?thesis using j b [of j] less by simp
    next
      case 3
      have "k ?p \<le> k j" using e [of j] 3 j by simp
      then show ?thesis using 3 j pi lt by simp
    next
      case 4
      then show ?thesis using j e [of j] by simp
    qed
  qed
  moreover have "bridge n ?p ?k"
    unfolding bridge_def
  proof (intro impI allI)
    fix j assume p: "0 < ?p" and j: "0 < j \<and> j < n \<and> Parent j = ?p"
    have pp: "Parent ?p < ?p" using p by (rule Parent_less)
    have "k (Parent ?p) \<le> k ?p" using e [OF p] pi i by simp
    then show "?k (Parent ?p) \<le> ?k j"
      using j pp pi e [of j] Parent_less [of j] by (cases "j = i") auto
  qed
  ultimately show ?thesis unfolding up_ok_def ..
qed

lemma down_ok_done:
  assumes "down_ok n i k" "\<And>j. 0 < j \<Longrightarrow> j < n \<Longrightarrow> Parent j = i \<Longrightarrow> k i \<le> k j" shows "ordered n k"
  using assms unfolding down_ok_def edges_def by blast

lemma down_ok_swap:
  assumes d: "down_ok n i k" and c: "0 < c" "c < n" "Parent c = i" and lt: "k c < k i"
    and least: "\<And>j. 0 < j \<Longrightarrow> j < n \<Longrightarrow> Parent j = i \<Longrightarrow> k c \<le> k j"
  shows "down_ok n c (k(i := k c, c := k i))"
proof -
  let ?k = "k(i := k c, c := k i)"
  have ic: "i < c" using Parent_less [OF c(1)] c(3) by simp
  have e: "k (Parent j) \<le> k j" if "0 < j" "j < n" "Parent j \<noteq> i" for j
    using d that by (auto simp: down_ok_def edges_def)
  have b: "k (Parent i) \<le> k c" if "0 < i"
    using d c that by (auto simp: down_ok_def bridge_def)
  have "edges n (\<lambda>j. Parent j \<noteq> c) ?k"
    unfolding edges_def
  proof (intro allI impI)
    fix j assume j: "0 < j \<and> j < n \<and> Parent j \<noteq> c"
    have less: "Parent j < j" using j Parent_less [of j] by simp
    consider "j = c" | "j \<noteq> c" "Parent j = i" | "j = i" | "j \<noteq> c" "j \<noteq> i" "Parent j \<noteq> i" by blast
    then show "?k (Parent j) \<le> ?k j"
    proof cases
      case 1
      then show ?thesis using ic c lt by simp
    next
      case 2
      then show ?thesis using j ic least [of j] less by simp
    next
      case 3
      then have "k (Parent i) \<le> k c" "Parent i < i" using b j less by simp_all
      then show ?thesis using 3 ic by simp
    next
      case 4
      then show ?thesis using j e [of j] by simp
    qed
  qed
  moreover have "bridge n c ?k"
    unfolding bridge_def
  proof (intro impI allI)
    fix j assume j: "0 < j \<and> j < n \<and> Parent j = c"
    then have "k (Parent j) \<le> k j" using e [of j] ic by simp
    then show "?k (Parent c) \<le> ?k j" using j c ic Parent_less [of j] by auto
  qed
  ultimately show ?thesis unfolding down_ok_def ..
qed

lemma hole_up_ok:
  assumes "hole n i k" "k i < k (Parent i)" shows "up_ok n i k"
proof -
  have "0 < i" using assms(2) by (cases i) (auto simp: Parent_def)
  then have "k i \<le> k j" if "0 < j" "j < n" "Parent j = i" for j
  proof -
    have "k (Parent i) \<le> k j" using assms(1) \<open>0 < i\<close> that unfolding hole_def bridge_def by blast
    with assms(2) show ?thesis by simp
  qed
  then show ?thesis using assms(1) unfolding hole_def up_ok_def edges_def by metis
qed

lemma hole_down_ok:
  assumes "hole n i k" "\<not> k i < k (Parent i)" shows "down_ok n i k"
  using assms unfolding hole_def down_ok_def edges_def by (metis not_less)

lemma ordered_min: "ordered n k \<Longrightarrow> i < n \<Longrightarrow> k 0 \<le> k i"
proof (induction i rule: less_induct)
  case (less i)
  show ?case
  proof (cases "i = 0")
    case False
    then have "Parent i < i" by (simp add: Parent_less)
    with less have "k 0 \<le> k (Parent i)" by simp
    also have "\<dots> \<le> k i" using less.prems False edgesD by blast
    finally show ?thesis .
  qed simp
qed

section \<open>The entries of a heap\<close>

type_synonym ('k, 'd) entry = "nat \<times> 'k \<times> 'd"

abbreviation ekey :: "('k, 'd) entry \<Rightarrow> 'k" where "ekey e \<equiv> fst (snd e)"
abbreviation edata :: "('k, 'd) entry \<Rightarrow> 'd" where "edata e \<equiv> snd (snd e)"

definition enode :: "('k, 'd) entry \<Rightarrow> nat \<Rightarrow> ('k, 'd) heap_node" where
  "enode e i = \<lparr>hkey = ekey e, hid = i, hdata = edata e\<rparr>"

lemma enode_sel [simp]: "hkey (enode e i) = ekey e" "hid (enode e i) = i" "hdata (enode e i) = edata e"
  "(enode e i)\<lparr>hid := j\<rparr> = enode e j"
  by (simp_all add: enode_def)

definition hrep :: "('k, 'd) heap \<Rightarrow> ('k, 'd) entry list \<Rightarrow> bool" where
  "hrep hp es \<longleftrightarrow>
     length es = hlast hp \<and> hlast hp \<le> length (hnodes hp) \<and> hsize hp = length (hnodes hp) \<and> 0 < hsize hp \<and>
     distinct (map fst es) \<and>
     (\<forall>i < length es. hnodes hp ! i = Some (fst (es ! i)) \<and> hstore hp (fst (es ! i)) = Some (enode (es ! i) i)) \<and>
     dom (hstore hp) = set (map fst es) \<and> (\<forall>a \<in> set (map fst es). a < hnext hp)"

lemma hrep_length: "hrep hp es \<Longrightarrow> hlast hp = length es"
  by (simp add: hrep_def)

lemma hrep_store: "hrep hp es \<Longrightarrow> i < length es \<Longrightarrow> hstore hp (fst (es ! i)) = Some (enode (es ! i) i)"
  by (simp add: hrep_def)

lemma hrep_at: "hrep hp es \<Longrightarrow> i < length es \<Longrightarrow> node_at hp i = Some (fst (es ! i), enode (es ! i) i)"
  by (simp add: hrep_def node_at_def)

lemma hrep_exist: "hrep hp es \<Longrightarrow> heap_node_exist hp i \<longleftrightarrow> i < length es"
  by (auto simp: hrep_def heap_node_exist_def)

definition same_heap :: "('k, 'd) heap \<Rightarrow> ('k, 'd) heap \<Rightarrow> bool" where
  "same_heap hp hp' \<longleftrightarrow> hlast hp' = hlast hp \<and> hsize hp' = hsize hp \<and> hage hp' = hage hp \<and> hnext hp' = hnext hp"

lemma same_heap_refl [simp]: "same_heap hp hp"
  by (simp add: same_heap_def)

lemma same_heap_trans: "same_heap a b \<Longrightarrow> same_heap b c \<Longrightarrow> same_heap a c"
  by (simp add: same_heap_def)

abbreviation swp :: "'a list \<Rightarrow> nat \<Rightarrow> nat \<Rightarrow> 'a list" where
  "swp xs i j \<equiv> xs[i := xs ! j, j := xs ! i]"

lemma distinct_fst_nth:
  "distinct (map fst es) \<Longrightarrow> i < length es \<Longrightarrow> j < length es \<Longrightarrow> fst (es ! i) = fst (es ! j) \<longleftrightarrow> i = j"
  by (metis length_map nth_eq_iff_index_eq nth_map)

lemma mset_swp: "i < length xs \<Longrightarrow> j < length xs \<Longrightarrow> mset (swp xs i j) = mset xs"
  by (rule mset_swap)

lemma heap_swap_ok:
  assumes r: "hrep hp es" and i: "i < length es" and j: "j < length es"
  shows "\<exists>hp'. heap_swap_element hp (fst (es ! i)) (fst (es ! j)) = Some hp' \<and> hrep hp' (swp es i j) \<and> same_heap hp hp'"
proof -
  let ?a = "fst (es ! i)" and ?b = "fst (es ! j)"
  let ?st = "(hstore hp)(?a := Some (enode (es ! i) j), ?b := Some (enode (es ! j) i))"
  let ?ns = "(hnodes hp)[j := Some ?a, i := Some ?b]"
  have s: "hstore hp ?a = Some (enode (es ! i) i)" "hstore hp ?b = Some (enode (es ! j) j)"
    using hrep_store [OF r] i j by blast+
  have dist: "distinct (map fst es)" and len: "length es \<le> length (hnodes hp)" using r by (simp_all add: hrep_def)
  note inj = distinct_fst_nth [OF dist]
  have ab: "?a = ?b \<longleftrightarrow> i = j" using inj i j by blast
  have run: "heap_swap_element hp ?a ?b = Some (hp\<lparr>hstore := ?st, hnodes := ?ns\<rparr>)"
    unfolding heap_swap_element_def s using i j len ab
    by (cases "i = j") (simp_all add: Let_def s)
  have nth: "(hnodes hp)[j := Some ?a, i := Some ?b] ! x = Some (fst (swp es i j ! x))"
    "?st (fst (swp es i j ! x)) = Some (enode (swp es i j ! x) x)" if "x < length es" for x
    using that i j len r inj [OF that i] inj [OF that j]
    by (auto simp: nth_list_update hrep_def)
  have set: "set (map fst (swp es i j)) = set (map fst es)" using mset_swp [OF i j] by (metis mset_map set_mset_mset)
  have "distinct (map fst (swp es i j))"
    using dist mset_swp [OF i j] by (metis mset_eq_imp_distinct_iff mset_map)
  moreover have "dom ?st = set (map fst (swp es i j))"
    unfolding set using r i j by (auto simp: hrep_def)
  ultimately have "hrep (hp\<lparr>hstore := ?st, hnodes := ?ns\<rparr>) (swp es i j)"
    unfolding hrep_def using r nth set by (auto simp: hrep_def)
  with run show ?thesis by (auto simp: same_heap_def)
qed

abbreviation ekeys :: "('k, 'd) entry list \<Rightarrow> nat \<Rightarrow> 'k" where
  "ekeys es i \<equiv> ekey (es ! i)"

lemma ekeys_swp:
  "i < length es \<Longrightarrow> j < length es \<Longrightarrow> x < length es \<Longrightarrow>
     ekeys (swp es i j) x = ((ekeys es)(i := ekeys es j, j := ekeys es i)) x"
  by (simp add: nth_list_update)

lemma edges_cong: "(\<And>x. x < n \<Longrightarrow> k x = k' x) \<Longrightarrow> edges n P k \<longleftrightarrow> edges n P k'"
  unfolding edges_def by (metis Parent_less less_trans)

lemma bridge_cong: "i < n \<Longrightarrow> (\<And>x. x < n \<Longrightarrow> k x = k' x) \<Longrightarrow> bridge n i k \<longleftrightarrow> bridge n i k'"
  unfolding bridge_def by (metis Parent_less less_trans)

lemma up_ok_cong: "i < n \<Longrightarrow> (\<And>x. x < n \<Longrightarrow> k x = k' x) \<Longrightarrow> up_ok n i k \<longleftrightarrow> up_ok n i k'"
  unfolding up_ok_def using edges_cong bridge_cong by metis

lemma down_ok_cong: "i < n \<Longrightarrow> (\<And>x. x < n \<Longrightarrow> k x = k' x) \<Longrightarrow> down_ok n i k \<longleftrightarrow> down_ok n i k'"
  unfolding down_ok_def using edges_cong bridge_cong by metis

section \<open>The sift loops\<close>

text \<open>What a loop that restores the order achieves.\<close>

definition restores :: "('k :: linorder, 'd) heap \<Rightarrow> ('k, 'd) entry list \<Rightarrow> ('k, 'd) heap option \<Rightarrow> bool" where
  "restores hp es res \<longleftrightarrow> (\<exists>hp' es'. res = Some hp' \<and> hrep hp' es' \<and> ordered (length es') (ekeys es') \<and>
     mset es' = mset es \<and> same_heap hp hp')"

lemma restoresI:
  "hrep hp' es' \<Longrightarrow> ordered (length es') (ekeys es') \<Longrightarrow> mset es' = mset es \<Longrightarrow> same_heap hp hp' \<Longrightarrow>
     restores hp es (Some hp')"
  unfolding restores_def by blast

lemma restores_step:
  "restores hp1 es1 res \<Longrightarrow> mset es1 = mset es \<Longrightarrow> same_heap hp hp1 \<Longrightarrow> restores hp es res"
  unfolding restores_def using same_heap_trans by metis

lemma heap_ify_up_ok:
  "hrep hp es \<Longrightarrow> i < length es \<Longrightarrow> up_ok (length es) i (ekeys es) \<Longrightarrow> i \<le> fuel \<Longrightarrow>
     restores hp es (heap_ify_up fuel hp (fst (es ! i)))"
proof (induction i arbitrary: hp es fuel rule: less_induct)
  case (less i)
  note r = less.prems(1) and i = less.prems(2) and u = less.prems(3)
  have s: "hstore hp (fst (es ! i)) = Some (enode (es ! i) i)" using hrep_store [OF r i] .
  show ?case
  proof (cases "i = 0")
    case True
    then show ?thesis
      using s r up_ok_done [OF u] by (subst heap_ify_up.simps) (auto intro!: restoresI)
  next
    case False
    let ?p = "Parent i"
    have p: "?p < i" "?p < length es" using False i Parent_less [of i] by auto
    have at: "node_at hp ?p = Some (fst (es ! ?p), enode (es ! ?p) ?p)" using hrep_at [OF r p(2)] .
    show ?thesis
    proof (cases "ekeys es ?p \<le> ekeys es i")
      case True
      then show ?thesis
        using s at False r up_ok_done [OF u] by (subst heap_ify_up.simps) (auto intro!: restoresI)
    next
      case gt: False
      obtain f where f: "fuel = Suc f" using less.prems(4) False by (cases fuel) auto
      obtain hp' where sw: "heap_swap_element hp (fst (es ! ?p)) (fst (es ! i)) = Some hp'"
        "hrep hp' (swp es ?p i)" "same_heap hp hp'" using heap_swap_ok [OF r p(2) i] by blast
      have "up_ok (length es) ?p ((ekeys es)(?p := ekeys es i, i := ekeys es ?p))"
        using up_ok_swap [OF u] False i gt by simp
      then have "up_ok (length es) ?p (ekeys (swp es ?p i))"
        using ekeys_swp [OF p(2) i] by (subst up_ok_cong [OF p(2)]) (auto simp del: fun_upd_apply)
      with less.IH [OF p(1) sw(2), of f] p f less.prems(4)
      have "restores hp' (swp es ?p i) (heap_ify_up f hp' (fst (swp es ?p i ! ?p)))" by simp
      moreover have "fst (swp es ?p i ! ?p) = fst (es ! i)" using p i by (simp add: nth_list_update)
      ultimately have "restores hp' (swp es ?p i) (heap_ify_up f hp' (fst (es ! i)))" by simp
      then have "restores hp es (heap_ify_up f hp' (fst (es ! i)))"
        by (rule restores_step [OF _ mset_swp [OF p(2) i] sw(3)])
      moreover have "heap_ify_up fuel hp (fst (es ! i)) = heap_ify_up f hp' (fst (es ! i))"
        using s at False gt f sw(1) by (subst heap_ify_up.simps) simp
      ultimately show ?thesis by simp
    qed
  qed
qed

text \<open>The child the code compares with: the right one only if its key is strictly smaller.\<close>

definition kid :: "nat \<Rightarrow> (nat \<Rightarrow> 'k :: linorder) \<Rightarrow> nat \<Rightarrow> nat" where
  "kid n k i = (if Right i < n \<and> k (Right i) < k (Left i) then Right i else Left i)"

lemma kid_props:
  assumes "Left i < n"
  shows "0 < kid n k i" "kid n k i < n" "Parent (kid n k i) = i" "i < kid n k i"
    and "0 < j \<Longrightarrow> j < n \<Longrightarrow> Parent j = i \<Longrightarrow> k (kid n k i) \<le> k j"
  using assms by (auto simp: kid_def Parent_eq_iff)

lemma heap_ify_down_ok:
  "hrep hp es \<Longrightarrow> i < length es \<Longrightarrow> down_ok (length es) i (ekeys es) \<Longrightarrow> length es - i \<le> fuel \<Longrightarrow>
     restores hp es (heap_ify_down fuel hp (fst (es ! i)))"
proof (induction "length es - i" arbitrary: i hp es fuel rule: less_induct)
  case less
  note r = less.prems(1) and i = less.prems(2) and d = less.prems(3)
  let ?n = "length es"
  have s: "hstore hp (fst (es ! i)) = Some (enode (es ! i) i)" using hrep_store [OF r i] .
  note ex = hrep_exist [OF r]
  show ?case
  proof (cases "Left i < ?n")
    case False
    then have no: "\<not> Left i < ?n" "\<not> Right i < ?n" by (simp_all add: Left_def Right_def)
    then have "ordered ?n (ekeys es)" by (intro down_ok_done [OF d]) (metis Parent_eq_iff)
    moreover have "heap_ify_down fuel hp (fst (es ! i)) = Some hp"
      using no ex by (subst heap_ify_down.simps) (simp add: s)
    ultimately show ?thesis using r by (auto intro!: restoresI)
  next
    case True
    let ?c = "kid ?n (ekeys es) i"
    note c = kid_props [where k = "ekeys es", OF True]
    have chosen: "(if \<not> heap_node_exist hp (Right i) then Some (fst (es ! Left i), enode (es ! Left i) (Left i))
        else node_at hp (Right i) \<bind> (\<lambda>(ra, ri). Some (if hkey ri < hkey (enode (es ! Left i) (Left i))
          then (ra, ri) else (fst (es ! Left i), enode (es ! Left i) (Left i))))) =
        Some (fst (es ! ?c), enode (es ! ?c) ?c)"
      using ex hrep_at [OF r, of "Right i"] by (auto simp: kid_def)
    have run: "heap_ify_down fuel hp (fst (es ! i)) =
        (if ekeys es i \<le> ekeys es ?c then Some hp
         else (case fuel of 0 \<Rightarrow> None
           | Suc f \<Rightarrow> heap_swap_element hp (fst (es ! ?c)) (fst (es ! i)) \<bind> (\<lambda>hp'. heap_ify_down f hp' (fst (es ! i)))))"
      using True ex hrep_at [OF r True] chosen by (subst heap_ify_down.simps) (simp add: s)
    show ?thesis
    proof (cases "ekeys es i \<le> ekeys es ?c")
      case le: True
      have "ordered ?n (ekeys es)" by (rule down_ok_done [OF d]) (rule order_trans [OF le c(5)])
      then show ?thesis using run le r by (auto intro!: restoresI)
    next
      case gt: False
      obtain f where f: "fuel = Suc f" using less.prems(4) i by (cases fuel) auto
      obtain hp' where sw: "heap_swap_element hp (fst (es ! ?c)) (fst (es ! i)) = Some hp'"
        "hrep hp' (swp es ?c i)" "same_heap hp hp'" using heap_swap_ok [OF r c(2) i] by blast
      have "down_ok ?n ?c ((ekeys es)(i := ekeys es ?c, ?c := ekeys es i))"
        using c(5) gt by (intro down_ok_swap [OF d c(1-3)]) auto
      moreover have "(ekeys es)(i := ekeys es ?c, ?c := ekeys es i) = (ekeys es)(?c := ekeys es i, i := ekeys es ?c)"
        using c(4) by (simp add: fun_upd_twist)
      ultimately have "down_ok ?n ?c (ekeys (swp es ?c i))"
        using ekeys_swp [OF c(2) i] by (subst down_ok_cong [OF c(2)]) (auto simp del: fun_upd_apply)
      moreover have "length (swp es ?c i) - ?c < ?n - i" "length (swp es ?c i) - ?c \<le> f"
        using c(2,4) i f less.prems(4) by simp_all
      ultimately have "restores hp' (swp es ?c i) (heap_ify_down f hp' (fst (swp es ?c i ! ?c)))"
        using c(2) by (intro less.hyps [OF _ sw(2)]) simp_all
      moreover have "fst (swp es ?c i ! ?c) = fst (es ! i)" using c i by (simp add: nth_list_update)
      ultimately have "restores hp' (swp es ?c i) (heap_ify_down f hp' (fst (es ! i)))" by simp
      then have "restores hp es (heap_ify_down f hp' (fst (es ! i)))"
        by (rule restores_step [OF _ mset_swp [OF c(2) i] sw(3)])
      then show ?thesis using run gt f sw(1) by simp
    qed
  qed
qed

lemma heap_fix_ok:
  assumes r: "hrep hp es" and i: "i < length es" and h: "hole (length es) i (ekeys es)"
  shows "restores hp es (heap_fix hp (fst (es ! i)))"
proof -
  let ?n = "length es"
  have n: "hlast hp = ?n" using r by (rule hrep_length)
  have s: "hstore hp (fst (es ! i)) = Some (enode (es ! i) i)" using hrep_store [OF r i] .
  have p: "Parent i < ?n" using i by (simp add: Parent_def)
  have run: "heap_fix hp (fst (es ! i)) =
      (if ekeys es i < ekeys es (Parent i) then heap_ify_up ?n hp (fst (es ! i)) else Some hp)
        \<bind> (\<lambda>hp1. heap_ify_down ?n hp1 (fst (es ! i)))"
    unfolding heap_fix_def s using hrep_at [OF r p] n by simp
  show ?thesis
  proof (cases "ekeys es i < ekeys es (Parent i)")
    case True
    have "restores hp es (heap_ify_up ?n hp (fst (es ! i)))"
      using heap_ify_up_ok [OF r i hole_up_ok [OF h True]] i by simp
    then obtain hp' es' where up: "heap_ify_up ?n hp (fst (es ! i)) = Some hp'" "hrep hp' es'"
      "ordered (length es') (ekeys es')" "mset es' = mset es" "same_heap hp hp'"
      unfolding restores_def by blast
    have len: "length es' = ?n" using up(4) by (metis size_mset)
    have "es ! i \<in> set es'" using i up(4) by (metis mset_eq_setD nth_mem)
    then obtain j where j: "j < length es'" "es' ! j = es ! i" by (metis in_set_conv_nth)
    have "restores hp' es' (heap_ify_down ?n hp' (fst (es' ! j)))"
      using ordered_down_ok [OF up(3) j(1)] len by (intro heap_ify_down_ok [OF up(2) j(1)]) simp_all
    then have "restores hp es (heap_ify_down ?n hp' (fst (es ! i)))"
      using restores_step up(4,5) j(2) by metis
    then show ?thesis using run True up(1) by simp
  next
    case False
    then show ?thesis
      using run heap_ify_down_ok [OF r i hole_down_ok [OF h False], of ?n] by simp
  qed
qed

section \<open>The public operations\<close>

text \<open>A well-formed heap with its entries.\<close>

definition heap_rel :: "('k :: linorder, 'd) heap \<Rightarrow> ('k, 'd) entry multiset \<Rightarrow> bool" where
  "heap_rel hp M \<longleftrightarrow> (\<exists>es. hrep hp es \<and> ordered (length es) (ekeys es) \<and> M = mset es)"

lemma restores_heap_rel:
  assumes "restores hp es res" shows "\<exists>hp'. res = Some hp' \<and> heap_rel hp' (mset es) \<and> same_heap hp hp'"
  using assms unfolding restores_def heap_rel_def by metis

lemma new_heap_rel: "heap_rel (new_heap n zero) {#}"
  unfolding heap_rel_def by (rule exI [of _ "[]"]) (auto simp: hrep_def new_heap_def Let_def edges_def)

lemma heap_grow_rep: "hrep hp es \<Longrightarrow> hrep (heap_grow hp) es \<and> length es < length (hnodes (heap_grow hp))"
  by (auto simp: hrep_def heap_grow_def Let_def nth_append)

lemma ordered_snoc:
  assumes "ordered (length es) (ekeys es)"
  shows "up_ok (length (es @ [e])) (length es) (ekeys (es @ [e]))"
proof -
  have "edges (length (es @ [e])) (\<lambda>j. j \<noteq> length es) (ekeys (es @ [e]))"
    unfolding edges_def
  proof (intro allI impI)
    fix j assume j: "0 < j \<and> j < length (es @ [e]) \<and> j \<noteq> length es"
    then have "j < length es" "Parent j < length es" using Parent_less [of j] by auto
    then show "ekeys (es @ [e]) (Parent j) \<le> ekeys (es @ [e]) j"
      using edgesD [OF assms, of j] j by (simp add: nth_append)
  qed
  moreover have "bridge (length (es @ [e])) (length es) (ekeys (es @ [e]))"
    unfolding bridge_def
  proof (intro impI allI)
    fix j assume "0 < j \<and> j < length (es @ [e]) \<and> Parent j = length es"
    then show "ekeys (es @ [e]) (Parent (length es)) \<le> ekeys (es @ [e]) j" using Parent_less [of j] by simp
  qed
  ultimately show ?thesis unfolding up_ok_def ..
qed

lemma heap_insert_ok:
  assumes "heap_rel hp M"
  shows "\<exists>hp'. heap_insert gen_key hp dat = Some (hp', hnext hp) \<and>
     heap_rel hp' (add_mset (hnext hp, gen_key dat (hage hp), dat) M) \<and> hage hp' = hage hp \<and>
     hnext hp \<notin> fst ` set_mset M"
proof -
  obtain es where r: "hrep hp es" and o: "ordered (length es) (ekeys es)" and M: "M = mset es"
    using assms unfolding heap_rel_def by blast
  define hp1 where "hp1 = (if heap_should_grow hp then heap_grow hp else hp)"
  have r1: "hrep hp1 es" "length es < length (hnodes hp1)" "hage hp1 = hage hp" "hnext hp1 = hnext hp"
    using heap_grow_rep [OF r] r
    by (auto simp: hp1_def heap_should_grow_def hrep_def heap_grow_def Let_def)
  let ?e = "(hnext hp, gen_key dat (hage hp), dat)"
  let ?hp2 = "hp1\<lparr>hnodes := (hnodes hp1)[length es := Some (hnext hp)],
      hstore := (hstore hp1)(hnext hp := Some (enode ?e (length es))), hlast := length es + 1, hnext := Suc (hnext hp)\<rparr>"
  have fresh: "hnext hp \<notin> set (map fst es)" using r by (auto simp: hrep_def)
  have r2: "hrep ?hp2 (es @ [?e])"
    using r1 fresh unfolding hrep_def
    by (auto simp: nth_append less_Suc_eq nth_list_update)
       (metis fst_conv imageI nth_mem)
  have "restores ?hp2 (es @ [?e]) (heap_ify_up (length es + 1) ?hp2 (fst ((es @ [?e]) ! length es)))"
    using ordered_snoc [OF o] by (intro heap_ify_up_ok [OF r2]) simp_all
  from restores_heap_rel [OF this] obtain hp3 where hp3:
    "heap_ify_up (length es + 1) ?hp2 (hnext hp) = Some hp3" "heap_rel hp3 (mset (es @ [?e]))"
    "same_heap ?hp2 hp3" by auto
  have "heap_insert gen_key hp dat = Some (hp3, hnext hp)"
    unfolding heap_insert_def hp1_def [symmetric] Let_def heap_gen_key_def
    using hp3(1) r1 hrep_length [OF r1(1)] by (simp add: enode_def)
  moreover have "hage hp3 = hage hp" using hp3(3) r1(3) by (simp add: same_heap_def)
  ultimately show ?thesis using hp3(2) M fresh by auto
qed

lemma ordered_mono: "ordered n k \<Longrightarrow> m \<le> n \<Longrightarrow> ordered m k"
  by (auto simp: edges_def)

lemma ordered_hole:
  assumes "ordered n k" "i < n" shows "hole n i (k(i := v))"
proof -
  have "edges n (\<lambda>j. j \<noteq> i \<and> Parent j \<noteq> i) (k(i := v))" using assms(1) by (simp add: edges_def)
  moreover have "bridge n i (k(i := v))"
    using ordered_bridge [OF assms] Parent_less unfolding bridge_def by (metis fun_upd_other less_irrefl)
  ultimately show ?thesis unfolding hole_def ..
qed

lemma hole_cong: "i < n \<Longrightarrow> (\<And>x. x < n \<Longrightarrow> k x = k' x) \<Longrightarrow> hole n i k \<longleftrightarrow> hole n i k'"
  unfolding hole_def using edges_cong [of n k k'] bridge_cong [of i n k k'] by simp

lemma heap_extractlast_ok:
  assumes r: "hrep hp es" and ne: "es \<noteq> []"
  shows "\<exists>hp'. heap_extractlast hp = Some (hp', edata (last es)) \<and> hrep hp' (butlast es) \<and>
     hage hp' = hage hp \<and> hnext hp' = hnext hp"
proof -
  let ?n = "length es - 1"
  have n: "hlast hp = length es" "?n < length es" using hrep_length [OF r] ne by simp_all
  have l: "last es = es ! ?n" using ne by (simp add: last_conv_nth)
  let ?hp = "hp\<lparr>hlast := ?n, hstore := (hstore hp)(fst (es ! ?n) := None)\<rparr>"
  have "heap_extractlast hp = Some (?hp, edata (last es))"
    using n hrep_exist [OF r] hrep_at [OF r n(2)] ne by (simp add: heap_extractlast_def l)
  moreover have "hrep ?hp (butlast es)"
  proof -
    have dist: "distinct (map fst es)" using r by (simp add: hrep_def)
    have es: "es = butlast es @ [es ! ?n]" using ne l by (metis append_butlast_last_id)
    have notin: "fst (es ! ?n) \<notin> set (map fst (butlast es))" "distinct (map fst (butlast es))"
      using dist by (subst (asm) es, simp)+
    have st: "set (map fst es) = insert (fst (es ! ?n)) (set (map fst (butlast es)))"
      by (subst (1) es) simp
    have "hnodes hp ! x = Some (fst (butlast es ! x)) \<and>
        ((hstore hp)(fst (es ! ?n) := None)) (fst (butlast es ! x)) = Some (enode (butlast es ! x) x)"
      if "x < length (butlast es)" for x
    proof -
      have "fst (butlast es ! x) \<noteq> fst (es ! ?n)" using that notin(1) by (metis image_eqI list.set_map nth_mem)
      then show ?thesis using that r by (simp add: hrep_def nth_butlast)
    qed
    then show ?thesis using r notin st by (auto simp: hrep_def dest: in_set_butlastD)
  qed
  ultimately show ?thesis by auto
qed

lemma mset_butlast_swp:
  assumes "i < length es"
  shows "mset (butlast (swp es (length es - 1) i)) = mset es - {#es ! i#}"
proof -
  let ?n = "length es - 1" and ?s = "swp es (length es - 1) i"
  have n: "?n < length es" "?s \<noteq> []" using assms by auto
  have "last ?s = es ! i"
    using n assms by (subst last_conv_nth) (auto simp: nth_list_update)
  then have "mset ?s = add_mset (es ! i) (mset (butlast ?s))"
    using n by (metis append_butlast_last_id mset_append mset.simps(2) mset.simps(1) add_mset_add_single)
  then show ?thesis using mset_swp [OF n(1) assms] by (metis add_mset_remove_trivial)
qed

lemma butlast_swp_nth:
  assumes "i < length es" "x < length es - 1"
  shows "butlast (swp es (length es - 1) i) ! x = (if x = i then last es else es ! x)"
proof -
  have "last es = es ! (length es - 1)" using assms by (intro last_conv_nth) auto
  then show ?thesis using assms by (auto simp: nth_butlast nth_list_update)
qed

lemma heap_delete_ok:
  assumes "heap_rel hp M" "(a, k, d) \<in># M"
  shows "\<exists>hp'. heap_delete hp a = Some (hp', d) \<and> heap_rel hp' (M - {#(a, k, d)#}) \<and>
     hage hp' = hage hp \<and> hnext hp' = hnext hp"
proof -
  obtain es where r: "hrep hp es" and o: "ordered (length es) (ekeys es)" and M: "M = mset es"
    using assms(1) unfolding heap_rel_def by blast
  obtain i where i: "i < length es" "es ! i = (a, k, d)" using assms(2) M by (auto simp: in_set_conv_nth)
  let ?n = "length es - 1" and ?b = "butlast (swp es (length es - 1) i)"
  have n: "?n < length es" "hlast hp = length es" using i(1) hrep_length [OF r] by simp_all
  obtain hp1 where sw: "heap_swap_element hp (fst (es ! ?n)) a = Some hp1" "hrep hp1 (swp es ?n i)" "same_heap hp hp1"
    using heap_swap_ok [OF r n(1) i(1)] i(2) by auto
  have "swp es ?n i \<noteq> []" using i by auto
  from heap_extractlast_ok [OF sw(2) this] obtain hp2 d' where ex: "heap_extractlast hp1 = Some (hp2, d')"
    "hrep hp2 ?b" "hage hp2 = hage hp" "hnext hp2 = hnext hp"
    using sw(3) unfolding same_heap_def by metis
  have len2: "hlast hp2 = ?n" using hrep_length [OF ex(2)] by simp
  have s: "hstore hp a = Some (enode (es ! i) i)" using hrep_store [OF r i(1)] i(2) by simp
  have run: "heap_delete hp a =
      (if a = fst (es ! ?n) then Some hp2 else if ?n > 0 then heap_fix hp2 (fst (es ! ?n)) else Some hp2)
        \<bind> (\<lambda>hp3. Some (hp3, d))"
  proof -
    have "(hlast hp = 0 \<or> \<not> heap_node_exist hp (hlast hp - 1)) = False"
      unfolding hrep_exist [OF r] n(2) using i(1) by (cases es) simp_all
    moreover have "node_at hp (hlast hp - 1) = Some (fst (es ! ?n), enode (es ! ?n) ?n)"
      using n(2) hrep_at [OF r n(1)] by simp
    moreover have "hdata (enode (es ! i) i) = d" using i(2) by simp
    ultimately show ?thesis
      unfolding heap_delete_def s Let_def using sw(1) ex(1) len2
      by (simp only: Option.bind.bind_lunit if_False prod.case)
  qed
  have ms: "mset ?b = M - {#(a, k, d)#}" using mset_butlast_swp [OF i(1)] i(2) M by simp
  have keys: "ekeys ?b x = ((ekeys es)(i := ekey (last es))) x" if "x < ?n" for x
    using butlast_swp_nth [OF i(1) that] by simp
  have dist: "a = fst (es ! ?n) \<longleftrightarrow> i = ?n"
    using distinct_fst_nth [of es i ?n] i n r by (auto simp: hrep_def)
  show ?thesis
  proof (cases "i = ?n")
    case True
    have "ordered ?n (ekeys ?b)"
    proof (subst edges_cong)
      show "ordered ?n (ekeys es)" using o by (rule ordered_mono) simp
    qed (use keys True in simp)
    then have "heap_rel hp2 (mset ?b)" unfolding heap_rel_def using ex(2) by auto
    then show ?thesis using run dist True ex ms by auto
  next
    case False
    then have lt: "i < ?n" using i by simp
    have "hole ?n i (ekeys ?b)"
    proof (subst hole_cong [OF lt])
      show "hole ?n i ((ekeys es)(i := ekey (last es)))"
        using lt by (intro ordered_hole ordered_mono [OF o]) simp_all
    qed (rule keys)
    then have "restores hp2 ?b (heap_fix hp2 (fst (?b ! i)))"
      using lt by (intro heap_fix_ok [OF ex(2)]) simp_all
    moreover have "?b ! i = es ! ?n"
      using butlast_swp_nth [OF i(1) lt] last_conv_nth [of es] i(1) by fastforce
    ultimately obtain hp3 where "heap_fix hp2 (fst (es ! ?n)) = Some hp3" "heap_rel hp3 (mset ?b)" "same_heap hp2 hp3"
      using restores_heap_rel by metis
    then show ?thesis using run dist False ex ms lt by (auto simp: same_heap_def)
  qed
qed

lemma heap_extractmin_empty: "heap_rel hp {#} \<Longrightarrow> heap_extractmin hp = Some (hp, None)"
  by (auto simp: heap_rel_def heap_extractmin_def hrep_def)

lemma heap_extractmin_ok:
  assumes "heap_rel hp M" "M \<noteq> {#}"
  shows "\<exists>a k d hp'. (a, k, d) \<in># M \<and> (\<forall>e \<in># M. k \<le> ekey e) \<and>
     heap_extractmin hp = Some (hp', Some d) \<and> heap_rel hp' (M - {#(a, k, d)#}) \<and>
     hage hp' = hage hp \<and> hnext hp' = hnext hp"
proof -
  obtain es where r: "hrep hp es" and o: "ordered (length es) (ekeys es)" and M: "M = mset es"
    using assms(1) unfolding heap_rel_def by blast
  have ne: "0 < length es" using assms(2) M by simp
  obtain a k d where e: "es ! 0 = (a, k, d)" by (cases "es ! 0")
  have mem: "(a, k, d) \<in># M" using M e ne by (metis nth_mem set_mset_mset)
  have "k \<le> ekey e'" if "e' \<in># M" for e'
  proof -
    from that M obtain j where "j < length es" "es ! j = e'" by (auto simp: in_set_conv_nth)
    then show ?thesis using ordered_min [OF o, of j] e by simp
  qed
  moreover obtain hp' where del: "heap_delete hp a = Some (hp', d)" "heap_rel hp' (M - {#(a, k, d)#})"
    "hage hp' = hage hp" "hnext hp' = hnext hp" using heap_delete_ok [OF assms(1) mem] by blast
  moreover have "node_at hp 0 = Some (a, enode (a, k, d) 0)" "hlast hp \<noteq> 0"
    using hrep_at [OF r ne] e hrep_length [OF r] ne by simp_all
  then have "heap_extractmin hp = Some (hp', Some d)"
    using del(1) by (simp add: heap_extractmin_def)
  ultimately show ?thesis using mem by blast
qed

lemma heap_update_ok:
  assumes "heap_rel hp M" "(a, k, d) \<in># M"
  shows "\<exists>hp'. heap_update gen_key hp a dat = Some (hp', d) \<and>
     heap_rel hp' (add_mset (a, gen_key dat (hage hp), dat) (M - {#(a, k, d)#})) \<and>
     hage hp' = hage hp \<and> hnext hp' = hnext hp"
proof -
  obtain es where r: "hrep hp es" and o: "ordered (length es) (ekeys es)" and M: "M = mset es"
    using assms(1) unfolding heap_rel_def by blast
  obtain i where i: "i < length es" "es ! i = (a, k, d)" using assms(2) M by (auto simp: in_set_conv_nth)
  let ?e = "(a, gen_key dat (hage hp), dat)"
  let ?hp = "hp\<lparr>hstore := (hstore hp)(a := Some (enode ?e i))\<rparr>" and ?es = "es[i := ?e]"
  have s: "hstore hp a = Some (enode (es ! i) i)" using hrep_store [OF r i(1)] i(2) by simp
  have fsts: "map fst ?es = map fst es" using i by (simp add: map_update_same)
  have inj: "fst (es ! x) = a \<longleftrightarrow> x = i" if "x < length es" for x
    using distinct_fst_nth [of es x i] that i r by (auto simp: hrep_def)
  have "hnodes hp ! x = Some (fst (?es ! x)) \<and> ((hstore hp)(a := Some (enode ?e i))) (fst (?es ! x)) = Some (enode (?es ! x) x)"
    if "x < length es" for x
    using that i r inj [OF that] by (auto simp: nth_list_update hrep_def)
  moreover have "dom ((hstore hp)(a := Some (enode ?e i))) = dom (hstore hp)" using s by auto
  ultimately have r': "hrep ?hp ?es" using r unfolding hrep_def fsts by auto
  have "hole (length ?es) i (ekeys ?es)"
  proof -
    have "hole (length es) i ((ekeys es)(i := gen_key dat (hage hp)))" using o i(1) by (rule ordered_hole)
    then show ?thesis using i(1) by (subst hole_cong) (auto simp: nth_list_update)
  qed
  then have "restores ?hp ?es (heap_fix ?hp (fst (?es ! i)))"
    using i(1) by (intro heap_fix_ok [OF r']) simp_all
  from restores_heap_rel [OF this] i(1) obtain hp' where hp': "heap_fix ?hp a = Some hp'"
    "heap_rel hp' (mset ?es)" "same_heap ?hp hp'" by auto
  have "mset ?es = add_mset ?e (M - {#(a, k, d)#})" using i M by (simp add: mset_update)
  moreover have "heap_update gen_key hp a dat = Some (hp', d)"
    using hp'(1) unfolding heap_update_def s heap_gen_key_def Let_def by (simp add: i(2) enode_def)
  ultimately show ?thesis using hp'(2,3) by (auto simp: same_heap_def)
qed

section \<open>The checker\<close>

lemma kid_ok_eq:
  assumes "hrep hp es" "i < length es" "i < c"
  shows "kid_ok hp i c = Some (c < length es \<longrightarrow> ekeys es i \<le> ekeys es c)"
  using hrep_exist [OF assms(1)] hrep_at [OF assms(1)] assms(2) by (auto simp: kid_ok_def not_less)

lemma verify_from_eq:
  assumes "hrep hp es" "\<forall>i\<in>set is. i < length es"
  shows "verify_from hp is = Some (\<forall>i\<in>set is. \<forall>c\<in>{Left i, Right i}. c < length es \<longrightarrow> ekeys es i \<le> ekeys es c)"
  using assms(2)
proof (induction "is")
  case (Cons i "is")
  then have "kid_ok hp i (Left i) = Some (Left i < length es \<longrightarrow> ekeys es i \<le> ekeys es (Left i))"
    "kid_ok hp i (Right i) = Some (Right i < length es \<longrightarrow> ekeys es i \<le> ekeys es (Right i))"
    using kid_ok_eq [OF assms(1)] by simp_all
  with Cons show ?case by auto
qed simp

lemma verify_heap_property_ok:
  assumes "hrep hp es"
  shows "verify_heap_property hp = Some (ordered (length es) (ekeys es))"
proof -
  let ?n = "length es"
  have "(\<forall>i\<in>set [0..<?n div 2]. \<forall>c\<in>{Left i, Right i}. c < ?n \<longrightarrow> ekeys es i \<le> ekeys es c) \<longleftrightarrow>
      ordered ?n (ekeys es)" (is "?L \<longleftrightarrow> ?R")
  proof
    assume l: ?L
    show ?R unfolding edges_def
    proof (intro allI impI)
      fix j assume j: "0 < j \<and> j < ?n \<and> True"
      then have "Parent j \<in> set [0..<?n div 2]" by (auto simp: Parent_def)
      moreover have "j \<in> {Left (Parent j), Right (Parent j)}" using j Parent_eq_iff [of j "Parent j"] by auto
      ultimately show "ekeys es (Parent j) \<le> ekeys es j" using l j by blast
    qed
  next
    assume ?R
    then show ?L using edgesD [of ?n "\<lambda>_. True" "ekeys es"] by (metis Left_Right(1-4) insertE singletonD)
  qed
  moreover have "verify_heap_property hp = Some ?L"
    unfolding verify_heap_property_def hrep_length [OF assms]
    by (rule verify_from_eq [OF assms]) auto
  ultimately show ?thesis by simp
qed

section \<open>The interface of a priority queue\<close>

text \<open>Extracting until the queue is empty.\<close>

fun drain :: "('q \<Rightarrow> ('q \<times> 'd option) option) \<Rightarrow> nat \<Rightarrow> 'q \<Rightarrow> 'd list option" where
  "drain ext 0 q = Some []"
| "drain ext (Suc n) q = (case ext q of
       None \<Rightarrow> None
     | Some (q', None) \<Rightarrow> Some []
     | Some (q', Some x) \<Rightarrow> map_option ((#) x) (drain ext n q'))"

text \<open>
  What a replacement policy relies on: entries have a handle, a key and data; insertion
  returns a fresh handle, removal by handle removes that entry, and the extracted data
  belong to an entry of least key.
\<close>

locale priority_queue =
  fixes rel :: "'q \<Rightarrow> (nat \<times> 'k :: linorder \<times> 'd) multiset \<Rightarrow> bool"
    and ins :: "'q \<Rightarrow> 'd \<Rightarrow> ('q \<times> nat) option"
    and del :: "'q \<Rightarrow> nat \<Rightarrow> ('q \<times> 'd) option"
    and ext :: "'q \<Rightarrow> ('q \<times> 'd option) option"
    and keyof :: "'q \<Rightarrow> 'd \<Rightarrow> 'k"
  assumes ins_rel: "rel q M \<Longrightarrow> \<exists>q' a. ins q x = Some (q', a) \<and> a \<notin> fst ` set_mset M \<and>
      rel q' (add_mset (a, keyof q x, x) M)"
    and del_rel: "rel q M \<Longrightarrow> (a, k, x) \<in># M \<Longrightarrow>
      \<exists>q'. del q a = Some (q', x) \<and> rel q' (M - {#(a, k, x)#})"
    and ext_empty: "rel q {#} \<Longrightarrow> ext q = Some (q, None)"
    and ext_min: "rel q M \<Longrightarrow> M \<noteq> {#} \<Longrightarrow> \<exists>a k x q'. (a, k, x) \<in># M \<and> (\<forall>e \<in># M. k \<le> fst (snd e)) \<and>
      ext q = Some (q', Some x) \<and> rel q' (M - {#(a, k, x)#})"
begin

lemma drain_sorted:
  "rel q M \<Longrightarrow> size M \<le> n \<Longrightarrow>
     \<exists>es. mset es = M \<and> sorted (map (\<lambda>e. fst (snd e)) es) \<and> drain ext n q = Some (map (\<lambda>e. snd (snd e)) es)"
proof (induction n arbitrary: q M)
  case 0
  then show ?case by (intro exI [of _ "[]"]) simp
next
  case (Suc n)
  show ?case
  proof (cases "M = {#}")
    case True
    then show ?thesis using ext_empty Suc.prems(1) by (intro exI [of _ "[]"]) simp
  next
    case False
    from ext_min [OF Suc.prems(1) False] obtain a k x q' where e:
      "(a, k, x) \<in># M" "\<forall>e \<in># M. k \<le> fst (snd e)" "ext q = Some (q', Some x)" "rel q' (M - {#(a, k, x)#})"
      by blast
    have "size (M - {#(a, k, x)#}) \<le> n" using e(1) Suc.prems(2) by (simp add: size_Diff_singleton)
    from Suc.IH [OF e(4) this] obtain es where es: "mset es = M - {#(a, k, x)#}"
      "sorted (map (\<lambda>e. fst (snd e)) es)" "drain ext n q' = Some (map (\<lambda>e. snd (snd e)) es)" by blast
    have "mset ((a, k, x) # es) = M" using es(1) e(1) by simp
    moreover have "\<forall>e \<in> set es. k \<le> fst (snd e)"
      using e(2) es(1) by (metis in_diffD set_mset_mset)
    ultimately show ?thesis using es(2,3) e(3) by (intro exI [of _ "(a, k, x) # es"]) simp
  qed
qed

end

interpretation heap: priority_queue heap_rel "heap_insert gen_key" heap_delete heap_extractmin
  "\<lambda>hp x. gen_key x (hage hp)"
  for gen_key :: "'d \<Rightarrow> 'k :: linorder \<Rightarrow> 'k"
proof unfold_locales
  fix q :: "('k, 'd) heap" and M x
  assume "heap_rel q M"
  from heap_insert_ok [OF this, of gen_key x]
  show "\<exists>q' a. heap_insert gen_key q x = Some (q', a) \<and> a \<notin> fst ` set_mset M \<and>
      heap_rel q' (add_mset (a, gen_key x (hage q), x) M)" by blast
next
  fix q :: "('k, 'd) heap" and M a k x
  assume "heap_rel q M" "(a, k, x) \<in># M"
  from heap_delete_ok [OF this]
  show "\<exists>q'. heap_delete q a = Some (q', x) \<and> heap_rel q' (M - {#(a, k, x)#})" by blast
next
  fix q :: "('k, 'd) heap"
  assume "heap_rel q {#}"
  then show "heap_extractmin q = Some (q, None)" by (rule heap_extractmin_empty)
next
  fix q :: "('k, 'd) heap" and M
  assume "heap_rel q M" "M \<noteq> {#}"
  from heap_extractmin_ok [OF this]
  show "\<exists>a k x q'. (a, k, x) \<in># M \<and> (\<forall>e \<in># M. k \<le> fst (snd e)) \<and>
      heap_extractmin q = Some (q', Some x) \<and> heap_rel q' (M - {#(a, k, x)#})" by blast
qed

section \<open>Properties\<close>

text \<open>
  C32. The heap implements a priority queue with handles: on a well-formed heap holding the
  entries \<open>M\<close>, insertion succeeds (growing the array if needed), returns a handle that was
  not in use and adds exactly one entry; deletion of a handle, wherever it sits in the
  array, succeeds, returns its data and removes exactly that entry; every node pointer the
  caller holds stays valid. The loops end and no freed node is read.
\<close>

theorem heap_insert_delete_correct:
  fixes hp :: "('k :: linorder, 'd) heap"
  assumes "heap_rel hp M"
  shows "(\<exists>hp'. heap_insert gen_key hp dat = Some (hp', hnext hp) \<and> hnext hp \<notin> fst ` set_mset M \<and>
       heap_rel hp' (add_mset (hnext hp, gen_key dat (hage hp), dat) M)) \<and>
     (\<forall>a k d. (a, k, d) \<in># M \<longrightarrow>
       (\<exists>hp'. heap_delete hp a = Some (hp', d) \<and> heap_rel hp' (M - {#(a, k, d)#})))"
  using heap_insert_ok [OF assms] heap_delete_ok [OF assms] by blast

theorem heap_insert_delete_correct_witness:
  "(\<exists>hp'. heap_insert (\<lambda>d a. d + a) (new_heap 1 0 :: (int, int) heap) 5 = Some (hp', hnext (new_heap 1 (0::int) :: (int, int) heap)) \<and>
      hnext (new_heap 1 (0::int) :: (int, int) heap) \<notin> fst ` set_mset ({#} :: (nat \<times> int \<times> int) multiset) \<and>
      heap_rel hp' (add_mset (hnext (new_heap 1 (0::int) :: (int, int) heap), 5 + hage (new_heap 1 (0::int) :: (int, int) heap), 5) {#}))"
  using heap_insert_delete_correct [OF new_heap_rel [of 1 "0 :: int"], of "\<lambda>d a. d + a" "5 :: int"] by blast

text \<open>
  Extraction takes a least key: on a non-empty heap \<^verbatim>\<open>heap_extractmin\<close> returns the data of
  an entry whose key is at most every key of the heap and removes that entry, on an empty
  one \<^verbatim>\<open>NULL\<close>; so emptying a heap of \<open>size M\<close> entries lists the data by ascending keys.
\<close>

theorem heap_extractmin_sorted:
  fixes hp :: "('k :: linorder, 'd) heap"
  assumes "heap_rel hp M"
  shows "\<exists>es. mset es = M \<and> sorted (map ekey es) \<and>
     drain heap_extractmin (size M) hp = Some (map edata es)"
  using heap.drain_sorted [OF assms order_refl] .

text \<open>
  \<^verbatim>\<open>heap_update\<close> re-keys one entry: the entry keeps its handle and gets the new data and
  the key generated from it, all others are untouched, the heap order is restored in
  either direction and the old data are returned.
\<close>

theorem heap_update_correct:
  fixes hp :: "('k :: linorder, 'd) heap"
  assumes "heap_rel hp M" "(a, k, d) \<in># M"
  shows "\<exists>hp'. heap_update gen_key hp a dat = Some (hp', d) \<and>
     heap_rel hp' (add_mset (a, gen_key dat (hage hp), dat) (M - {#(a, k, d)#}))"
  using heap_update_ok [OF assms] by blast

text \<open>
  \<^verbatim>\<open>verify_heap_property\<close>, which looks at the children of the first half of the array
  only, decides the heap order: on an array that represents the entries \<open>es\<close> it answers
  whether every entry's key is at least its parent's, and never reads an absent node.
\<close>

theorem verify_heap_property_decides:
  fixes hp :: "('k :: linorder, 'd) heap"
  assumes "hrep hp es"
  shows "verify_heap_property hp = Some (\<forall>j. 0 < j \<and> j < length es \<longrightarrow> ekey (es ! Parent j) \<le> ekey (es ! j))"
  using verify_heap_property_ok [OF assms] by (simp add: edges_def)

lemma demo_heap_ex:
  "\<exists>hp. heap_rel hp {#(0, 5, 5 :: int)#} \<and> hage hp = (0 :: int)"
  using heap_insert_ok [OF new_heap_rel [of 1 "0 :: int"], of "\<lambda>d a. d + a" 5]
  by (auto simp: new_heap_def Let_def)

theorem heap_extractmin_sorted_witness:
  "\<exists>hp es. heap_rel hp {#(0, 5 :: int, 5 :: int)#} \<and> mset es = {#(0 :: nat, 5 :: int, 5 :: int)#} \<and> sorted (map ekey es) \<and>
     drain heap_extractmin (size {#(0 :: nat, 5 :: int, 5 :: int)#}) hp = Some (map edata es)"
proof -
  obtain hp :: "(int, int) heap" where hp: "heap_rel hp {#(0, 5, 5)#}" using demo_heap_ex by blast
  obtain es where "mset es = {#(0 :: nat, 5 :: int, 5 :: int)#}" "sorted (map ekey es)"
    "drain heap_extractmin (size {#(0 :: nat, 5 :: int, 5 :: int)#}) hp = Some (map edata es)"
    using heap_extractmin_sorted [OF hp] by (elim exE conjE)
  with hp show ?thesis by (intro exI [of _ hp] exI [of _ es] conjI)
qed

theorem heap_update_correct_witness:
  "\<exists>hp hp'. heap_update (\<lambda>d a. d) hp 0 (7 :: int) = Some (hp', 5) \<and>
     heap_rel hp' (add_mset (0, 7 :: int, 7) ({#(0, 5, 5)#} - {#(0, 5, 5)#}))"
proof -
  obtain hp :: "(int, int) heap" where "heap_rel hp {#(0, 5, 5)#}" using demo_heap_ex by blast
  from heap_update_correct [OF this, of 0 5 5 "\<lambda>d a. d" 7] show ?thesis by auto
qed

text \<open>A heap of two nodes in the wrong order, which no operation produces.\<close>

definition broken_heap :: "(int, int) heap" where
  "broken_heap = \<lparr>hsize = 2, hlast = 2, hage = 0, hnodes = [Some 0, Some 1],
     hstore = [0 \<mapsto> enode (0, 5, 5) 0, 1 \<mapsto> enode (1, 3, 3) 1], hnext = 2\<rparr>"

lemma broken_heap_rep: "hrep broken_heap [(0, 5, 5), (1, 3, 3)]"
  by (auto simp: hrep_def broken_heap_def less_Suc_eq numeral_2_eq_2)

theorem verify_heap_property_decides_witness:
  "verify_heap_property broken_heap = Some False"
  using verify_heap_property_decides [OF broken_heap_rep] by (auto simp: Parent_def intro!: exI [of _ 1])

end
