(* ===== verification/Rfc1738.thy ===== *)
theory Rfc1738
  imports Prelude
begin

text \<open>
  URL escaping of \<^verbatim>\<open>src/squid-2.7.STABLE9-new/lib/rfc1738.c\<close>. \<^verbatim>\<open>rfc1738_do_escape\<close> writes to
  a static buffer that is only replaced when a longer URL comes; its size is part of the
  state, and every byte written is checked against it. \<^verbatim>\<open>rfc1738_unescape\<close> rewrites a
  string in place with a write index behind the read index.
\<close>

section \<open>Escaping\<close>

definition rfc1738_unsafe_chars :: "nat list" where
  "rfc1738_unsafe_chars =
     [0x3C, 0x3E, 0x22, 0x23, 0x7B, 0x7D, 0x7C, 0x5C, 0x5E, 0x7E, 0x5B, 0x5D, 0x60, 0x27, 0x20]"

definition rfc1738_reserved_chars :: "nat list" where
  "rfc1738_reserved_chars = [0x3b, 0x2f, 0x3f, 0x3a, 0x40, 0x3d, 0x26]"

definition do_escape :: "int \<Rightarrow> char \<Rightarrow> bool" where
  "do_escape encode_reserved p \<longleftrightarrow>
     (let c = of_char p :: nat in
      c \<in> set rfc1738_unsafe_chars \<or>
      (encode_reserved \<ge> 0 \<and> c = 0x25) \<or>
      (encode_reserved > 0 \<and> c \<in> set rfc1738_reserved_chars) \<or>
      c \<le> 0x1F \<or> c = 0x7F \<or> c \<ge> 0x80)"

definition hex_upper :: "nat \<Rightarrow> char" where
  "hex_upper n = (if n < 10 then char_of (48 + n) else char_of (55 + n))"

text \<open>\<^verbatim>\<open>sprintf (q, "%%%02X", c)\<close>.\<close>

definition triplet :: "char \<Rightarrow> string" where
  "triplet c = [CHR ''%'', hex_upper (of_char c div 16), hex_upper (of_char c mod 16)]"

text \<open>
  The loop with the number of bytes already written; \<^verbatim>\<open>sprintf\<close> writes a terminator behind
  the triplet.
\<close>

fun escape_loop :: "int \<Rightarrow> nat \<Rightarrow> nat \<Rightarrow> string \<Rightarrow> string option" where
  "escape_loop er bufsize q [] = (if q < bufsize then Some [] else None)"
| "escape_loop er bufsize q (p # url) =
     (if do_escape er p
      then (if q + 3 < bufsize
            then map_option (\<lambda>r. triplet p @ r) (escape_loop er bufsize (q + 3) url) else None)
      else (if q < bufsize
            then map_option (\<lambda>r. p # r) (escape_loop er bufsize (q + 1) url) else None))"

text \<open>The static buffer: its size once it is allocated.\<close>

type_synonym escape_state = "nat option"

definition rfc1738_do_escape :: "string \<Rightarrow> int \<Rightarrow> escape_state \<Rightarrow> (escape_state \<times> string) option" where
  "rfc1738_do_escape url encode_reserved st =
     (let bufsize = (case st of
            None \<Rightarrow> length url * 3 + 1
          | Some n \<Rightarrow> if length url * 3 > n then length url * 3 + 1 else n)
      in map_option (\<lambda>r. (Some bufsize, r)) (escape_loop encode_reserved bufsize 0 url))"

definition rfc1738_escape :: "string \<Rightarrow> escape_state \<Rightarrow> (escape_state \<times> string) option" where
  "rfc1738_escape url = rfc1738_do_escape url 0"

definition rfc1738_escape_unescaped :: "string \<Rightarrow> escape_state \<Rightarrow> (escape_state \<times> string) option" where
  "rfc1738_escape_unescaped url = rfc1738_do_escape url (-1)"

definition rfc1738_escape_part :: "string \<Rightarrow> escape_state \<Rightarrow> (escape_state \<times> string) option" where
  "rfc1738_escape_part url = rfc1738_do_escape url 1"

section \<open>Unescaping\<close>

definition fromhex :: "char \<Rightarrow> int" where
  "fromhex ch =
     (let n = of_char ch :: nat in
      if 48 \<le> n \<and> n \<le> 57 then int (n - 48)
      else if 97 \<le> n \<and> n \<le> 102 then int (n - 97) + 10
      else if 65 \<le> n \<and> n \<le> 70 then int (n - 65) + 10 else -1)"

text \<open>
  What one round finds at index \<open>j\<close>: the byte it stores and the number of bytes it skips.
\<close>

definition unescape_at :: "string \<Rightarrow> nat \<Rightarrow> (char \<times> nat) option" where
  "unescape_at s j = do {
     c \<leftarrow> nth_opt s j;
     if c \<noteq> CHR ''%'' then Some (c, 0)
     else do {
       d \<leftarrow> nth_opt s (j + 1);
       if d = CHR ''%'' then Some (c, 1)
       else if fromhex d < 0 then Some (c, 0)
       else do {
         e \<leftarrow> nth_opt s (j + 2);
         if fromhex e < 0 then Some (c, 0)
         else (let x = 16 * fromhex d + fromhex e in
               if 0 < x \<and> x \<le> 255 then Some (char_of (nat x), 2) else Some (c, 0))
       }
     }
   }"

text \<open>
  The loop: the byte at \<open>j\<close> is stored at \<open>i\<close> before the following bytes are read.
\<close>

function unescape_loop :: "nat \<Rightarrow> nat \<Rightarrow> string \<Rightarrow> string option" where
  "unescape_loop i j s =
     (if length s \<le> j \<or> length s \<le> i then None
      else if s ! j = NUL then Some (s[i := NUL])
      else (case unescape_at (s[i := s ! j]) j of
          None \<Rightarrow> None
        | Some (c, n) \<Rightarrow> unescape_loop (i + 1) (j + n + 1) (s[i := c])))"
  by pat_completeness auto
termination
  by (relation "measure (\<lambda>(i, j, s). length s - j)") auto

declare unescape_loop.simps [simp del]

definition rfc1738_unescape :: "string \<Rightarrow> string option" where
  "rfc1738_unescape s = unescape_loop 0 0 s"

section \<open>Reference functions\<close>

definition escape_text :: "int \<Rightarrow> string \<Rightarrow> string" where
  "escape_text er url = concat (map (\<lambda>p. if do_escape er p then triplet p else [p]) url)"

lemma escape_text_simps [simp]:
  "escape_text er [] = []"
  "escape_text er (p # url) = (if do_escape er p then triplet p else [p]) @ escape_text er url"
  by (simp_all add: escape_text_def)

lemma length_triplet [simp]: "length (triplet c) = 3"
  by (simp add: triplet_def)

lemma escape_loop_ok:
  "q + 3 * length url < bufsize \<Longrightarrow> escape_loop er bufsize q url = Some (escape_text er url)"
proof (induction url arbitrary: q)
  case (Cons p url)
  then show ?case by simp
qed simp

text \<open>The size of the buffer is one more than a multiple of three.\<close>

definition escape_inv :: "escape_state \<Rightarrow> bool" where
  "escape_inv st \<longleftrightarrow> (case st of None \<Rightarrow> True | Some n \<Rightarrow> n mod 3 = 1)"

lemma do_escape_ok:
  assumes "escape_inv st"
  shows "\<exists>st'. rfc1738_do_escape url er st = Some (st', escape_text er url) \<and> escape_inv st'"
proof -
  define n where "n = (case st of None \<Rightarrow> length url * 3 + 1
    | Some n \<Rightarrow> if length url * 3 > n then length url * 3 + 1 else n)"
  have "(length url * 3 + 1) mod 3 = 1" by presburger
  then have "n mod 3 = 1" using assms unfolding n_def escape_inv_def by (auto split: option.splits)
  moreover have "3 * length url \<le> n" by (auto simp: n_def split: option.splits)
  ultimately have "3 * length url < n" by presburger
  then have "escape_loop er n 0 url = Some (escape_text er url)" by (intro escape_loop_ok) simp
  with \<open>n mod 3 = 1\<close> show ?thesis
    unfolding rfc1738_do_escape_def Let_def n_def [symmetric] by (simp add: escape_inv_def)
qed

fun unescape_text :: "string \<Rightarrow> string" where
  "unescape_text [] = []"
| "unescape_text (c # s) =
     (case unescape_at (c # s @ [NUL, NUL]) 0 of
        None \<Rightarrow> []
      | Some (x, n) \<Rightarrow> x # unescape_text (drop n s))"

lemma fromhex_NUL [simp]: "fromhex NUL = -1"
  by (simp add: fromhex_def Let_def)

lemma nth_opt_drop: "nth_opt (drop j s) k = nth_opt s (j + k)"
  by (cases "j + k < length s") (auto simp: nth_opt_def)

lemma unescape_at_drop: "unescape_at s j = unescape_at (drop j s) 0"
  unfolding unescape_at_def nth_opt_drop by (simp only: add_0_right add_0_left)

lemma unescape_at_NUL: "unescape_at (c # r @ NUL # t) 0 = unescape_at (c # r @ [NUL, NUL]) 0"
proof (cases r)
  case Nil
  then show ?thesis by (simp add: unescape_at_def nth_opt_def)
next
  case (Cons d r')
  then show ?thesis by (cases r') (auto simp: unescape_at_def nth_opt_def numeral_2_eq_2)
qed

lemma unescape_at_skips:
  assumes "NUL \<notin> set r"
  shows "\<exists>x n. unescape_at (c # r @ [NUL, NUL]) 0 = Some (x, n) \<and> n \<le> length r"
proof (cases r)
  case Nil
  then show ?thesis by (simp add: unescape_at_def nth_opt_def)
next
  case (Cons d r')
  then show ?thesis by (cases r') (auto simp: unescape_at_def nth_opt_def numeral_2_eq_2 Let_def)
qed

lemma unescape_loop_ok:
  "i \<le> j \<Longrightarrow> drop j s = r @ NUL # t \<Longrightarrow> NUL \<notin> set r \<Longrightarrow>
     \<exists>u. unescape_loop i j s = Some (take i s @ unescape_text r @ NUL # u)"
proof (induction "length r" arbitrary: i j s r rule: less_induct)
  case less
  have "j < length s" using less.prems(2) by (metis drop_all not_le append_is_Nil_conv list.distinct(1))
  then have ij: "j < length s" "i < length s" using less.prems(1) by simp_all
  show ?case
  proof (cases r)
    case Nil
    then have "s ! j = NUL" using less.prems(2) ij by (metis append_Nil hd_drop_conv_nth list.sel(1))
    then have "unescape_loop i j s = Some (s[i := NUL])" using ij by (subst unescape_loop.simps) simp
    then show ?thesis using Nil ij by (simp add: upd_conv_take_nth_drop)
  next
    case (Cons c r')
    have sj: "s ! j = c" using less.prems(2) ij Cons by (metis append_Cons hd_drop_conv_nth list.sel(1))
    have same: "drop j (s[i := s ! j]) = drop j s" using less.prems(1) ij by (cases "i = j") auto
    have "NUL \<notin> set r'" "c \<noteq> NUL" using less.prems(3) Cons by auto
    from unescape_at_skips [OF this(1), of c] obtain x n where
      xn: "unescape_at (c # r' @ [NUL, NUL]) 0 = Some (x, n)" "n \<le> length r'" by blast
    have at: "unescape_at (s[i := s ! j]) j = Some (x, n)"
      using unescape_at_drop [of "s[i := s ! j]" j] same less.prems(2) Cons unescape_at_NUL [of c r' t] xn(1) by simp
    have step: "unescape_loop i j s = unescape_loop (i + 1) (j + n + 1) (s[i := x])"
      using ij sj \<open>c \<noteq> NUL\<close> at by (subst unescape_loop.simps) simp
    have "drop (j + n + 1) (s[i := x]) = drop (n + 1) (drop j s)"
      using less.prems(1) by (simp add: add.commute)
    also have "\<dots> = drop n r' @ NUL # t" using less.prems(2) Cons xn(2) by simp
    finally have d: "drop (j + n + 1) (s[i := x]) = drop n r' @ NUL # t" .
    have "length (drop n r') < length r" using Cons by simp
    moreover have "i + 1 \<le> j + n + 1" "NUL \<notin> set (drop n r')"
      using less.prems(1) \<open>NUL \<notin> set r'\<close> by (auto dest: in_set_dropD)
    ultimately obtain u where
      "unescape_loop (i + 1) (j + n + 1) (s[i := x]) =
         Some (take (i + 1) (s[i := x]) @ unescape_text (drop n r') @ NUL # u)"
      using less.hyps d by blast
    moreover have "take (i + 1) (s[i := x]) = take i s @ [x]" using ij by (simp add: take_Suc_conv_app_nth)
    ultimately show ?thesis using step xn(1) Cons by simp
  qed
qed

lemma hex_upper_fromhex: "n < 16 \<Longrightarrow> fromhex (hex_upper n) = int n"
  by (auto simp: fromhex_def hex_upper_def Let_def)

lemma hex_upper_not_percent: "n < 16 \<Longrightarrow> hex_upper n \<noteq> CHR ''%''"
  using hex_upper_fromhex [of n] by (auto simp: fromhex_def Let_def)

lemma unescape_triplet:
  assumes "c \<noteq> NUL"
  shows "unescape_text (triplet c @ s) = c # unescape_text s"
proof -
  let ?n = "of_char c :: nat"
  have b: "?n div 16 < 16" "?n mod 16 < 16" by (simp_all add: div_less_iff_less_mult)
  have "?n \<noteq> 0"
  proof
    assume "?n = 0"
    then have "c = char_of (0 :: nat)" by (metis char_of_char)
    then show False using assms by (simp add: char_of_def)
  qed
  moreover have "16 * int (?n div 16) + int (?n mod 16) = int ?n"
    by (metis mult_div_mod_eq of_nat_add of_nat_mult of_nat_numeral)
  moreover have le: "?n \<le> 255"
  proof -
    have "?n < 256" by simp
    then show ?thesis by linarith
  qed
  ultimately show ?thesis
    using b hex_upper_fromhex [OF b(1)] hex_upper_fromhex [OF b(2)] hex_upper_not_percent [OF b(1)]
    by (simp add: triplet_def unescape_at_def nth_opt_def Let_def numeral_2_eq_2) (use le in blast)
qed

lemma unescape_escape:
  assumes "0 \<le> er" "NUL \<notin> set url"
  shows "unescape_text (escape_text er url) = url"
  using assms(2)
proof (induction url)
  case (Cons p url)
  show ?case
  proof (cases "do_escape er p")
    case True
    with Cons show ?thesis using unescape_triplet [of p "escape_text er url"] by auto
  next
    case False
    then have "p \<noteq> CHR ''%''" using assms(1) by (auto simp: do_escape_def Let_def)
    with Cons False show ?thesis by (simp add: unescape_at_def nth_opt_def)
  qed
qed simp

lemma escape_text_append: "escape_text er (u @ v) = escape_text er u @ escape_text er v"
  by (simp add: escape_text_def)

lemma of_hex_upper: "n < 16 \<Longrightarrow> (of_char (hex_upper n) :: nat) = (if n < 10 then 48 + n else 55 + n)"
  by (simp add: hex_upper_def)

lemma hex_upper_safe: "n < 16 \<Longrightarrow> \<not> do_escape (-1) (hex_upper n) \<and> hex_upper n \<noteq> NUL"
proof -
  assume n: "n < 16"
  have "\<not> do_escape (-1) (hex_upper n)"
    using n of_hex_upper [OF n] by (auto simp: do_escape_def Let_def rfc1738_unsafe_chars_def)
  moreover have "hex_upper n \<noteq> NUL" using hex_upper_fromhex [OF n] by auto
  ultimately show ?thesis ..
qed

lemma triplet_safe: "\<forall>c\<in>set (triplet p). \<not> do_escape (-1) c \<and> c \<noteq> NUL"
proof -
  have "(of_char p :: nat) div 16 < 16" "(of_char p :: nat) mod 16 < 16" by (simp_all add: div_less_iff_less_mult)
  moreover have "\<not> do_escape (-1) (CHR ''%'')" by (simp add: do_escape_def rfc1738_unsafe_chars_def Let_def)
  ultimately show ?thesis using hex_upper_safe by (simp add: triplet_def)
qed

lemma safe_mono: "\<not> do_escape er p \<Longrightarrow> \<not> do_escape (-1) p"
  by (auto simp: do_escape_def Let_def)

lemma NUL_notin_escape: "NUL \<notin> set (escape_text er url)"
proof (induction url)
  case (Cons p url)
  have "do_escape er NUL" by (simp add: do_escape_def Let_def)
  then have "NUL \<notin> set (if do_escape er p then triplet p else [p])"
    using triplet_safe [of p] by auto
  with Cons show ?case by simp
qed simp

section \<open>Properties\<close>

fun escape_calls :: "(string \<times> int) list \<Rightarrow> escape_state \<Rightarrow> string list option" where
  "escape_calls [] st = Some []"
| "escape_calls ((url, er) # cs) st = do {
     (st', r) \<leftarrow> rfc1738_do_escape url er st;
     rs \<leftarrow> escape_calls cs st';
     Some (r # rs)
   }"

lemma escape_calls_inv:
  "escape_inv st \<Longrightarrow> escape_calls cs st = Some (map (\<lambda>(url, er). escape_text er url) cs)"
proof (induction cs arbitrary: st)
  case (Cons c cs)
  obtain url er where c: "c = (url, er)" by (cases c)
  from do_escape_ok [OF Cons.prems, of url er] obtain st' where
    "rfc1738_do_escape url er st = Some (st', escape_text er url)" "escape_inv st'" by blast
  with Cons.IH c show ?case by simp
qed simp

text \<open>
  The escape buffer is always large enough: although it is only enlarged when three
  times the length exceeds its size, its size is always one more than a multiple of three,
  so that every byte and the terminator fit, for every sequence of calls, and the result is
  the text with exactly the unsafe bytes replaced by triplets.
\<close>

theorem rfc1738_escape_in_bounds:
  "escape_calls cs None = Some (map (\<lambda>(url, er). escape_text er url) cs)"
  by (rule escape_calls_inv) (simp add: escape_inv_def)

text \<open>
  Unescaping inverts escaping: \<^verbatim>\<open>rfc1738_unescape\<close>, run in place on the escaped form of a
  string (with reserved characters escaped or not) and its terminator, ends, stays inside
  the string and leaves the original string there.
\<close>

theorem rfc1738_unescape_escape:
  assumes "NUL \<notin> set url" "0 \<le> er" "escape_inv st"
  shows "\<exists>st' e s. rfc1738_do_escape url er st = Some (st', e) \<and>
     rfc1738_unescape (e @ [NUL]) = Some s \<and> cstr s = url"
proof -
  let ?e = "escape_text er url"
  obtain st' where e: "rfc1738_do_escape url er st = Some (st', ?e)" using do_escape_ok [OF assms(3)] by blast
  have "NUL \<notin> set ?e" using assms(1) NUL_notin_escape by blast
  then obtain u where "unescape_loop 0 0 (?e @ [NUL]) = Some (unescape_text ?e @ NUL # u)"
    using unescape_loop_ok [of 0 0 "?e @ [NUL]" ?e "[]"] by auto
  then show ?thesis
    using e unescape_escape [OF assms(2,1)] cstr_append_NUL [OF assms(1)] by (simp add: rfc1738_unescape_def)
qed

theorem rfc1738_unescape_escape_witness:
  "\<exists>st' e s. rfc1738_do_escape ''a b%'' 0 (Some 4) = Some (st', e) \<and>
     rfc1738_unescape (e @ [NUL]) = Some s \<and> cstr s = ''a b%''"
  by (rule rfc1738_unescape_escape) (simp_all add: escape_inv_def)

text \<open>
  Escaping an already escaped URL with \<^verbatim>\<open>rfc1738_escape_unescaped\<close> changes nothing:
  every byte of the result of any escape mode is safe, so that the function is idempotent.
\<close>

theorem rfc1738_escape_unescaped_idempotent:
  "escape_text (-1) (escape_text er url) = escape_text er url"
proof (induction url)
  case (Cons p url)
  have "escape_text (-1) (if do_escape er p then triplet p else [p]) = (if do_escape er p then triplet p else [p])"
    using triplet_safe [of p] safe_mono [of er p] by (auto simp: triplet_def)
  with Cons show ?case by (simp add: escape_text_append)
qed simp

end
