(* ===== verification/Base64.thy ===== *)
theory Base64
  imports Prelude
begin

text \<open>
  The Base64 codec of \<^verbatim>\<open>src/squid-2.7.STABLE9-new/lib/base64.c\<close>: the value table, the decoder
  (which skips foreign bytes and reads \<^verbatim>\<open>=\<close> as 0) and the two encoders, with the bounds of
  their static result arrays of 8192 bytes. A result is the list of the bytes written
  before the terminator.
\<close>

definition BASE64_RESULT_SZ :: nat where "BASE64_RESULT_SZ = 8192"

definition base64_code :: string where
  "base64_code = ''ABCDEFGHIJKLMNOPQRSTUVWXYZabcdefghijklmnopqrstuvwxyz0123456789+/''"

definition base64_init :: "int list" where
  "base64_init =
     (foldl (\<lambda>t i. t[of_char (base64_code ! i) := int i]) (replicate 256 (-1)) [0..<64])[61 := 0]"

definition base64_value :: "char \<Rightarrow> int" where
  "base64_value c = base64_init ! of_char c"

fun decode_loop :: "nat \<Rightarrow> nat \<Rightarrow> string \<Rightarrow> string \<Rightarrow> string" where
  "decode_loop val c out [] = out"
| "decode_loop val c out (p # ps) =
     (if \<not> length out + 4 < BASE64_RESULT_SZ then out
      else if base64_value p < 0 then decode_loop val c out ps
      else (let val' = val * 64 + nat (base64_value p) in
            if c + 1 < 4 then decode_loop val' (c + 1) out ps
            else decode_loop 0 0
                   (out @ [char_of (val' div 65536), char_of (val' div 256 mod 256), char_of (val' mod 256)]) ps))"

definition base64_decode :: "string \<Rightarrow> string" where
  "base64_decode p = decode_loop 0 0 [] p"

definition code :: "nat \<Rightarrow> char" where
  "code n = base64_code ! n"

definition encode_end :: "nat \<Rightarrow> nat \<Rightarrow> string" where
  "encode_end bits char_count =
     (if char_count = 0 then []
      else (let b = bits * 2 ^ (16 - 8 * char_count) in
            [code (b div 2 ^ 18), code (b div 2 ^ 12 mod 64)] @
            (if char_count = 1 then ''=='' else [code (b div 2 ^ 6 mod 64), CHR ''='']) ))"

fun encode_loop :: "nat \<Rightarrow> nat \<Rightarrow> string \<Rightarrow> string \<Rightarrow> string" where
  "encode_loop bits char_count out [] = out @ encode_end bits char_count"
| "encode_loop bits char_count out (c # s) =
     (if \<not> length out < BASE64_RESULT_SZ - 5 then out @ encode_end bits char_count
      else (let b = bits + of_char c in
            if char_count + 1 = 3
            then encode_loop 0 0 (out @ [code (b div 2 ^ 18), code (b div 2 ^ 12 mod 64),
                                         code (b div 2 ^ 6 mod 64), code (b mod 64)]) s
            else encode_loop (b * 256) (char_count + 1) out s))"

definition base64_encode :: "string \<Rightarrow> string" where
  "base64_encode decoded_str = encode_loop 0 0 [] (cstr decoded_str)"

definition base64_encode_bin :: "string \<Rightarrow> nat \<Rightarrow> string" where
  "base64_encode_bin data len = encode_loop 0 0 [] (take len data)"

section \<open>The value table\<close>

lemma length_base64_code: "length base64_code = 64"
  by (simp add: base64_code_def)

lemma distinct_base64_code: "distinct base64_code"
  by (simp add: base64_code_def)

lemma foldl_positions:
  assumes "distinct (map p [0..<n])" "\<forall>i<n. p i < length t"
  shows "length (foldl (\<lambda>t i. t[p i := f i]) t [0..<n]) = length t \<and>
     (\<forall>i<n. foldl (\<lambda>t i. t[p i := f i]) t [0..<n] ! p i = f i)"
  using assms
proof (induction n)
  case (Suc n)
  then have "\<forall>i<n. p i \<noteq> p n" by (simp add: image_iff) (metis atLeastLessThan_iff le0)
  with Suc show ?case by (auto simp: less_Suc_eq nth_list_update)
qed simp

lemma base64_value_code: "n < 64 \<Longrightarrow> base64_value (code n) = int n"
proof -
  assume n: "n < 64"
  let ?p = "\<lambda>i. of_char (base64_code ! i) :: nat"
  have inj: "inj_on (of_char :: char \<Rightarrow> nat) A" for A by (rule inj_onI) (metis char_of_char)
  have "distinct (map of_char base64_code :: nat list)"
    using distinct_base64_code inj by (simp add: distinct_map)
  moreover have "map ?p [0..<64] = map of_char base64_code"
    using length_base64_code by (intro nth_equalityI) simp_all
  ultimately have "distinct (map ?p [0..<64])" by simp
  then have t: "foldl (\<lambda>t i. t[?p i := int i]) (replicate 256 (-1)) [0..<64] ! ?p n = int n"
    using foldl_positions [of ?p 64 "replicate 256 (-1)" int] n by simp
  have "CHR ''='' \<notin> set base64_code" by (simp add: base64_code_def)
  then have "base64_code ! n \<noteq> CHR ''=''" using n length_base64_code by (metis nth_mem)
  then have "?p n \<noteq> 61" using of_char_eq_iff [of "base64_code ! n" "CHR ''=''"] by simp
  with t show ?thesis by (simp add: base64_value_def base64_init_def code_def)
qed

lemma base64_value_pad: "base64_value (CHR ''='') = 0"
proof -
  have "length (foldl (\<lambda>t i. t[of_char (base64_code ! i) := int i]) ts is) = length ts" for ts "is"
    by (induction "is" arbitrary: ts) simp_all
  then show ?thesis by (simp add: base64_value_def base64_init_def)
qed

section \<open>Quanta\<close>

lemma quantum_digits:
  fixes n :: nat
  shows "((n div 2 ^ 18 * 64 + n div 2 ^ 12 mod 64) * 64 + n div 2 ^ 6 mod 64) * 64 + n mod 64 = n"
proof -
  have d: "n div 2 ^ 18 = n div 64 div 64 div 64" "n div 2 ^ 12 = n div 64 div 64" "n div 2 ^ 6 = n div 64"
    by (simp_all add: div_mult2_eq [symmetric])
  show ?thesis unfolding d by (simp add: div_mult_mod_eq)
qed

text \<open>Four characters with the values \<open>x1 .. x4\<close> decode to the three bytes of their quantum.\<close>

lemma decode_four:
  assumes "length out + 4 < BASE64_RESULT_SZ"
    and "base64_value c1 = int x1" "base64_value c2 = int x2" "base64_value c3 = int x3" "base64_value c4 = int x4"
    and "n = ((x1 * 64 + x2) * 64 + x3) * 64 + x4"
  shows "decode_loop 0 0 out (c1 # c2 # c3 # c4 # ps) =
     decode_loop 0 0 (out @ [char_of (n div 65536), char_of (n div 256 mod 256), char_of (n mod 256)]) ps"
  using assms by (simp add: Let_def)

lemma decode_quantum:
  assumes "length out + 4 < BASE64_RESULT_SZ" "n < 2 ^ 24"
  shows "decode_loop 0 0 out (code (n div 2 ^ 18) # code (n div 2 ^ 12 mod 64) # code (n div 2 ^ 6 mod 64) # code (n mod 64) # ps) =
     decode_loop 0 0 (out @ [char_of (n div 65536), char_of (n div 256 mod 256), char_of (n mod 256)]) ps"
proof (rule decode_four [OF assms(1)])
  have "n div 2 ^ 18 < 64" using assms(2) by (simp add: div_less_iff_less_mult)
  then show "base64_value (code (n div 2 ^ 18)) = int (n div 2 ^ 18)" by (rule base64_value_code)
  show "base64_value (code (n div 2 ^ 12 mod 64)) = int (n div 2 ^ 12 mod 64)"
    "base64_value (code (n div 2 ^ 6 mod 64)) = int (n div 2 ^ 6 mod 64)"
    "base64_value (code (n mod 64)) = int (n mod 64)" by (rule base64_value_code, simp)+
  show "n = ((n div 2 ^ 18 * 64 + n div 2 ^ 12 mod 64) * 64 + n div 2 ^ 6 mod 64) * 64 + n mod 64"
    by (rule quantum_digits [symmetric])
qed

lemma three_bytes:
  fixes a b c :: nat
  assumes "a < 256" "b < 256" "c < 256"
  shows "((a * 256) + b) * 256 + c < 2 ^ 24" "((a * 256 + b) * 256 + c) div 65536 = a"
    "((a * 256 + b) * 256 + c) div 256 mod 256 = b" "((a * 256 + b) * 256 + c) mod 256 = c"
proof -
  show "((a * 256) + b) * 256 + c < 2 ^ 24" using assms by simp
  have d: "((a * 256 + b) * 256 + c) div 256 = a * 256 + b" using assms by simp
  have "((a * 256 + b) * 256 + c) div 65536 = ((a * 256 + b) * 256 + c) div 256 div 256"
    by (simp add: div_mult2_eq [symmetric])
  then show "((a * 256 + b) * 256 + c) div 65536 = a" unfolding d using assms by simp
  show "((a * 256 + b) * 256 + c) div 256 mod 256 = b" unfolding d using assms by simp
  show "((a * 256 + b) * 256 + c) mod 256 = c"
    unfolding mod_mult_self3 using assms(3) by (rule mod_less)
qed

section \<open>The round trip\<close>

text \<open>Encoding without the bound of the result array.\<close>

fun encode_text :: "string \<Rightarrow> string" where
  "encode_text [] = []"
| "encode_text [a] = encode_end (of_char a * 256) 1"
| "encode_text [a, b] = encode_end ((of_char a * 256 + of_char b) * 256) 2"
| "encode_text (a # b # c # s) =
     (let n = (of_char a * 256 + of_char b) * 256 + of_char c in
      [code (n div 2 ^ 18), code (n div 2 ^ 12 mod 64), code (n div 2 ^ 6 mod 64), code (n mod 64)]) @ encode_text s"

lemma encode_loop_text:
  "length out + 2 * length s < BASE64_RESULT_SZ - 5 \<Longrightarrow> encode_loop 0 0 out s = out @ encode_text s"
  by (induction s arbitrary: out rule: encode_text.induct)
     (simp_all add: Let_def encode_end_def numeral_2_eq_2)

definition padding :: "string \<Rightarrow> string" where
  "padding s = replicate ((3 - length s mod 3) mod 3) NUL"

lemma of_char_256 [simp]: "(of_char a :: nat) < 256"
  by simp

lemma padding_step: "padding (a # b # c # s) = padding s"
proof -
  have "length (a # b # c # s) = length s + 3" by simp
  then show ?thesis by (simp only: padding_def mod_add_self2)
qed

text \<open>The last quantum, with \<open>k\<close> bytes and padding.\<close>

lemma decode_tail:
  assumes out: "length out + 4 < BASE64_RESULT_SZ" and b: "b = NUL \<or> cs = [code (n div 2 ^ 6 mod 64), CHR ''='']"
    and n: "n = (of_char a * 256 + of_char b) * 256"
    and cs: "cs = ''=='' \<or> cs = [code (n div 2 ^ 6 mod 64), CHR ''='']"
  shows "decode_loop 0 0 out ([code (n div 2 ^ 18), code (n div 2 ^ 12 mod 64)] @ cs) = out @ [a, b, NUL]"
proof -
  note t = three_bytes [of "of_char a" "of_char b" 0, unfolded add_0_right, folded n, OF of_char_256 of_char_256]
  have "n div 2 ^ 18 < 64" using t(1) by (simp add: div_less_iff_less_mult)
  then have v: "base64_value (code (n div 2 ^ 18)) = int (n div 2 ^ 18)" by (rule base64_value_code)
  have v2: "base64_value (code (n div 2 ^ 12 mod 64)) = int (n div 2 ^ 12 mod 64)" by (rule base64_value_code) simp
  have v3: "base64_value (code (n div 2 ^ 6 mod 64)) = int (n div 2 ^ 6 mod 64)" by (rule base64_value_code) simp
  have n4: "n = 64 * ((of_char a * 256 + of_char b) * 4)" by (simp add: n)
  have z: "n mod 64 = 0" unfolding n4 by (rule mod_mult_self1_is_0)
  have z6: "n div 2 ^ 6 mod 64 = 0" if "b = NUL"
  proof -
    have "n = 64 * (64 * (of_char a * 16))" using that by (simp add: n)
    then show ?thesis by simp
  qed
  have digits: "n = ((n div 2 ^ 18 * 64 + n div 2 ^ 12 mod 64) * 64 + n div 2 ^ 6 mod 64) * 64 + 0"
    using quantum_digits [of n] z by simp
  have pad: "base64_value (CHR ''='') = int 0" by (simp add: base64_value_pad)
  obtain c3 where c3: "cs = [c3, CHR ''='']" "base64_value c3 = int (n div 2 ^ 6 mod 64)"
  proof (cases "cs = [code (n div 2 ^ 6 mod 64), CHR ''='']")
    case True
    then show ?thesis using that v3 by blast
  next
    case False
    then have "b = NUL" "cs = ''==''" using b cs by blast+
    then show ?thesis using that [of "CHR ''=''"] pad z6 by metis
  qed
  have "decode_loop 0 0 out ([code (n div 2 ^ 18), code (n div 2 ^ 12 mod 64)] @ cs) =
      decode_loop 0 0 (out @ [char_of (n div 65536), char_of (n div 256 mod 256), char_of (n mod 256)]) []"
    unfolding c3(1) append_Cons append_Nil by (rule decode_four [OF out v v2 c3(2) pad digits])
  also have "\<dots> = out @ [a, b, NUL]"
  proof -
    have "char_of (0 :: nat) = NUL" by (simp add: char_of_def)
    then show ?thesis using t(2-4) by simp
  qed
  finally show ?thesis .
qed

lemma decode_encode_text:
  "length out + length s + 4 < BASE64_RESULT_SZ \<Longrightarrow>
     decode_loop 0 0 out (encode_text s) = out @ s @ padding s"
proof (induction s arbitrary: out rule: encode_text.induct)
  case 1
  then show ?case by (simp add: padding_def)
next
  case (2 a)
  have "encode_text [a] = [code (((of_char a * 256 + of_char NUL) * 256) div 2 ^ 18),
      code (((of_char a * 256 + of_char NUL) * 256) div 2 ^ 12 mod 64)] @ ''==''"
    by (simp add: encode_end_def Let_def)
  with decode_tail [of out NUL "''==''" _ a] 2 show ?case by (simp add: padding_def numeral_2_eq_2)
next
  case (3 a b)
  let ?n = "(of_char a * 256 + of_char b) * 256 :: nat"
  have "encode_text [a, b] = [code (?n div 2 ^ 18), code (?n div 2 ^ 12 mod 64)] @ [code (?n div 2 ^ 6 mod 64), CHR ''='']"
    by (simp add: encode_end_def Let_def)
  with decode_tail [of out b "[code (?n div 2 ^ 6 mod 64), CHR ''='']" ?n a] 3
  show ?case by (simp add: padding_def)
next
  case (4 a b c s)
  note t = three_bytes [of "of_char a" "of_char b" "of_char c"]
  let ?n = "(of_char a * 256 + of_char b) * 256 + of_char c :: nat"
  have "decode_loop 0 0 out (encode_text (a # b # c # s)) =
      decode_loop 0 0 (out @ [char_of (?n div 65536), char_of (?n div 256 mod 256), char_of (?n mod 256)]) (encode_text s)"
    using decode_quantum [of out ?n "encode_text s"] t(1) 4(2) by (simp add: Let_def)
  also have "[char_of (?n div 65536), char_of (?n div 256 mod 256), char_of (?n mod 256)] = [a, b, c]"
    using t(2-4) by (simp only: of_char_256 char_of_char)
  finally show ?case using 4(1) [of "out @ [a, b, c]"] 4(2) by (simp add: padding_step)
qed

section \<open>Properties\<close>

text \<open>
  Decoding inverts encoding: for up to 4000 bytes (for which no result array limits the
  loops) \<^verbatim>\<open>base64_decode\<close> of \<^verbatim>\<open>base64_encode_bin\<close> is the data followed by the zero bytes of
  the padding, and for a string \<^verbatim>\<open>base64_encode\<close> and \<^verbatim>\<open>base64_decode\<close> give it back.
\<close>

theorem base64_round_trip:
  assumes "length s \<le> 4000"
  shows "base64_decode (base64_encode_bin s (length s)) = s @ replicate ((3 - length s mod 3) mod 3) NUL \<and>
     (NUL \<notin> set s \<longrightarrow> cstr (base64_decode (base64_encode s)) = s)"
proof -
  have e: "encode_loop 0 0 [] s = encode_text s"
    using assms encode_loop_text [of "[]" s] by (simp add: BASE64_RESULT_SZ_def)
  have d: "decode_loop 0 0 [] (encode_text s) = s @ padding s"
    using assms decode_encode_text [of "[]" s] by (simp add: BASE64_RESULT_SZ_def)
  have "cstr (s @ padding s) = s" if "NUL \<notin> set s"
    using cstr_append_NUL [OF that] cstr_id [OF that]
    by (cases "(3 - length s mod 3) mod 3") (simp_all add: padding_def)
  then show ?thesis
    using e d cstr_id [of s] by (simp add: base64_decode_def base64_encode_bin_def base64_encode_def padding_def)
qed

theorem base64_round_trip_witness:
  "base64_decode (base64_encode_bin ''user:pw'' (length ''user:pw'')) =
     ''user:pw'' @ replicate ((3 - length ''user:pw'' mod 3) mod 3) NUL \<and>
   cstr (base64_decode (base64_encode ''user:pw'')) = ''user:pw''"
  using base64_round_trip [of "''user:pw''"] by simp

text \<open>
  The encoders and the decoder never write outside their result arrays: the bytes
  written leave room for the terminator, whatever the input is.
\<close>

theorem base64_result_bounds:
  "length (base64_decode p) < BASE64_RESULT_SZ \<and> length (base64_encode s) < BASE64_RESULT_SZ \<and>
     length (base64_encode_bin d n) < BASE64_RESULT_SZ"
proof -
  have dec: "length (decode_loop val c out ps) < BASE64_RESULT_SZ" if "length out < BASE64_RESULT_SZ" for val c out ps
    using that by (induction val c out ps rule: decode_loop.induct) (auto simp: Let_def)
  have en: "length (encode_end b k) \<le> 4" for b k by (simp add: encode_end_def Let_def)
  have dv: "k = 8188 \<or> k \<le> 8184" if "4 dvd k" "k \<le> 8188" for k :: nat
    using that by presburger
  have enc: "length (encode_loop b k out s) < BASE64_RESULT_SZ"
    if "4 dvd length out" "length out \<le> 8188" "length out = 8188 \<longrightarrow> k = 0" for b k out s
    using that
  proof (induction b k out s rule: encode_loop.induct)
    case (1 b k out)
    then show ?case using en [of b k] dv [of "length out"] by (auto simp: BASE64_RESULT_SZ_def encode_end_def)
  next
    case (2 b k out c s)
    show ?case
    proof (cases "length out < BASE64_RESULT_SZ - 5")
      case True
      then have "length out \<le> 8184" using dv [OF 2(3,4)] by (simp add: BASE64_RESULT_SZ_def)
      moreover have "4 dvd Suc (Suc (Suc (Suc (length out))))" using 2(3) by presburger
      ultimately show ?thesis using 2 True by (simp add: Let_def)
    next
      case False
      then have "length out = 8188" using dv [OF 2(3,4)] by (simp add: BASE64_RESULT_SZ_def)
      then show ?thesis using 2(5) by (simp add: BASE64_RESULT_SZ_def encode_end_def)
    qed
  qed
  show ?thesis
    using dec [of "[]"] enc [of "[]"]
    by (simp add: base64_decode_def base64_encode_def base64_encode_bin_def BASE64_RESULT_SZ_def)
qed

end
