(* ===== verification/Stmem.thy ===== *)
theory Stmem
  imports Prelude
begin

text \<open>
  The in-memory object store of \<^verbatim>\<open>src/squid-2.7.STABLE9-new/src/stmem.c\<close>: a chain of pages
  that holds the bytes of an object from \<^verbatim>\<open>origin_offset\<close> on. The chain from \<^verbatim>\<open>head\<close> to
  \<^verbatim>\<open>tail\<close> is a list of nodes; a node is its filled bytes and its use count. The global
  \<^verbatim>\<open>store_mem_size\<close> is an argument and a result. Pages that are still in use when the chain
  drops them survive with one use less and are returned.
\<close>

definition SM_PAGE_SIZE :: nat where "SM_PAGE_SIZE = 4096"

record mem_node =
  mdata :: string
  uses :: nat

abbreviation mlen :: "mem_node \<Rightarrow> nat" where "mlen p \<equiv> length (mdata p)"

record mem_hdr =
  chain :: "mem_node list"
  origin_offset :: nat

section \<open>Operations\<close>

definition stmemNodeFree :: "mem_node \<Rightarrow> mem_node option" where
  "stmemNodeFree p = (if uses p = 0 then None else Some (p\<lparr>uses := uses p - 1\<rparr>))"

definition stmemNodeGet :: "mem_node \<Rightarrow> mem_node \<times> string" where
  "stmemNodeGet p = (p\<lparr>uses := uses p + 1\<rparr>, mdata p)"

definition survivors :: "mem_node option \<Rightarrow> mem_node list" where
  "survivors r = (case r of None \<Rightarrow> [] | Some p \<Rightarrow> [p])"

fun free_chain :: "mem_node list \<Rightarrow> int \<Rightarrow> int \<times> mem_node list" where
  "free_chain [] sz = (sz, [])"
| "free_chain (p # ps) sz =
     (case free_chain ps (sz - int SM_PAGE_SIZE) of (sz', live) \<Rightarrow> (sz', survivors (stmemNodeFree p) @ live))"

definition stmemFree :: "mem_hdr \<Rightarrow> int \<Rightarrow> mem_hdr \<times> int \<times> mem_node list" where
  "stmemFree mem sz =
     (case free_chain (chain mem) sz of
        (sz', live) \<Rightarrow> (\<lparr>chain = [], origin_offset = 0\<rparr>, sz', live))"

text \<open>The loop of \<^verbatim>\<open>stmemFreeDataUpto\<close>; the last node of the chain is kept.\<close>

fun free_upto :: "mem_node list \<Rightarrow> nat \<Rightarrow> nat \<Rightarrow> int \<Rightarrow> mem_node list \<times> nat \<times> int \<times> mem_node list \<times> bool" where
  "free_upto [] cur target sz = ([], cur, sz, [], False)"
| "free_upto (p # ps) cur target sz =
     (if cur + mlen p \<le> target then
        (if ps = [] then ([p], cur, sz, [], True)
         else (case free_upto ps (cur + mlen p) target (sz - int SM_PAGE_SIZE) of
                 (ch, cur', sz', live, kept) \<Rightarrow> (ch, cur', sz', survivors (stmemNodeFree p) @ live, kept)))
      else (p # ps, cur, sz, [], False))"

definition stmemFreeDataUpto :: "mem_hdr \<Rightarrow> nat \<Rightarrow> int \<Rightarrow> (mem_hdr \<times> nat \<times> int \<times> mem_node list) res" where
  "stmemFreeDataUpto mem target sz =
     (case free_upto (chain mem) (origin_offset mem) target sz of
        (ch, cur, sz', live, kept) \<Rightarrow>
          if kept \<or> cur < target \<or> cur = target
          then Inr (\<lparr>chain = ch, origin_offset = cur\<rparr>, cur, sz', live) else Inl AssertFailed)"

fun append_pages :: "nat \<Rightarrow> mem_node list \<Rightarrow> string \<Rightarrow> int \<Rightarrow> mem_node list \<times> int" where
  "append_pages 0 ch data sz = (ch, sz)"
| "append_pages (Suc fuel) ch data sz =
     (if data = [] then (ch, sz)
      else append_pages fuel (ch @ [\<lparr>mdata = take SM_PAGE_SIZE data, uses = 0\<rparr>])
             (drop SM_PAGE_SIZE data) (sz + int SM_PAGE_SIZE))"

definition stmemAppend :: "mem_hdr \<Rightarrow> string \<Rightarrow> int \<Rightarrow> mem_hdr \<times> int" where
  "stmemAppend mem data sz =
     (let (ch, rest) =
        (if chain mem \<noteq> [] \<and> mlen (last (chain mem)) < SM_PAGE_SIZE
         then (let t = last (chain mem); n = min (SM_PAGE_SIZE - mlen t) (length data)
               in (butlast (chain mem) @ [t\<lparr>mdata := mdata t @ take n data\<rparr>], drop n data))
         else (chain mem, data));
        (ch', sz') = append_pages (length data) ch rest sz
      in (mem\<lparr>chain := ch'\<rparr>, sz'))"

text \<open>The seek loop of \<^verbatim>\<open>stmemCopy\<close>.\<close>

fun seek :: "mem_node list \<Rightarrow> nat \<Rightarrow> nat \<Rightarrow> (nat \<times> mem_node \<times> mem_node list) option" where
  "seek [] t_off offset = None"
| "seek (p # ps) t_off offset =
     (if t_off + mlen p < offset then seek ps (t_off + mlen p) offset else Some (t_off, p, ps))"

fun copy_rest :: "mem_node list \<Rightarrow> nat \<Rightarrow> string" where
  "copy_rest [] to_go = []"
| "copy_rest (p # ps) to_go =
     (if to_go = 0 then []
      else if to_go > mlen p then mdata p @ copy_rest ps (to_go - mlen p)
      else take to_go (mdata p))"

definition stmemCopy :: "mem_hdr \<Rightarrow> nat \<Rightarrow> nat \<Rightarrow> string res" where
  "stmemCopy mem offset sz =
     (if chain mem = [] then Inr []
      else if sz = 0 then Inl AssertFailed
      else (case seek (chain mem) (origin_offset mem) offset of
          None \<Rightarrow> Inr []
        | Some (t_off, p, ps) \<Rightarrow>
            if offset < t_off then Inl OutOfBounds
            else (let into = offset - t_off; n = min sz (mlen p - into)
                  in Inr (take n (drop into (mdata p)) @ copy_rest ps (sz - n)))))"

section \<open>The bytes a chain holds\<close>

definition contents :: "mem_node list \<Rightarrow> string" where
  "contents ch = concat (map mdata ch)"

lemma contents_simps [simp]:
  "contents [] = []" "contents (p # ch) = mdata p @ contents ch" "contents (xs @ ys) = contents xs @ contents ys"
  by (simp_all add: contents_def)

text \<open>Pages are not empty and at most full, and all but the last one are full.\<close>

definition pages_ok :: "mem_node list \<Rightarrow> bool" where
  "pages_ok ch \<longleftrightarrow> (\<forall>p\<in>set ch. 0 < mlen p \<and> mlen p \<le> SM_PAGE_SIZE) \<and>
     (\<forall>p\<in>set (butlast ch). mlen p = SM_PAGE_SIZE)"

lemma append_pages_ok:
  "length data \<le> fuel \<Longrightarrow> (ch = [] \<or> mlen (last ch) = SM_PAGE_SIZE \<or> data = []) \<Longrightarrow> pages_ok ch \<Longrightarrow>
     append_pages fuel ch data sz = (ch', sz') \<Longrightarrow>
     contents ch' = contents ch @ data \<and> pages_ok ch' \<and>
     sz' - sz = int SM_PAGE_SIZE * (int (length ch') - int (length ch))"
proof (induction fuel arbitrary: ch data sz)
  case (Suc fuel)
  show ?case
  proof (cases "data = []")
    case False
    let ?p = "\<lparr>mdata = take SM_PAGE_SIZE data, uses = 0\<rparr>"
    have pos: "0 < SM_PAGE_SIZE" by (simp add: SM_PAGE_SIZE_def)
    have full: "mlen ?p = SM_PAGE_SIZE \<or> drop SM_PAGE_SIZE data = []" by auto
    have "\<forall>p\<in>set ch. mlen p = SM_PAGE_SIZE"
    proof (cases "ch = []")
      case ne: False
      then have "mlen (last ch) = SM_PAGE_SIZE" using Suc.prems(2) False by simp
      moreover have "\<forall>p\<in>set (butlast ch). mlen p = SM_PAGE_SIZE" using Suc.prems(3) by (simp add: pages_ok_def)
      ultimately show ?thesis using ne
        by (metis append_butlast_last_id Un_iff empty_iff empty_set insert_iff list.simps(15) set_append)
    qed simp
    then have ok: "pages_ok (ch @ [?p])"
      using Suc.prems(3) False pos by (auto simp: pages_ok_def)
    have "length (drop SM_PAGE_SIZE data) \<le> fuel" using Suc.prems(1) False pos by auto
    moreover have "append_pages fuel (ch @ [?p]) (drop SM_PAGE_SIZE data) (sz + int SM_PAGE_SIZE) = (ch', sz')"
      using Suc.prems(4) False by simp
    ultimately have "contents ch' = contents (ch @ [?p]) @ drop SM_PAGE_SIZE data \<and> pages_ok ch' \<and>
        sz' - (sz + int SM_PAGE_SIZE) = int SM_PAGE_SIZE * (int (length ch') - int (length (ch @ [?p])))"
      using Suc.IH ok full by (metis last_snoc)
    then show ?thesis by (auto simp: algebra_simps)
  qed (use Suc.prems in simp)
qed simp

lemma stmemAppend_ok:
  assumes "pages_ok (chain mem)" "stmemAppend mem data sz = (mem', sz')"
  shows "contents (chain mem') = contents (chain mem) @ data" "pages_ok (chain mem')"
    "origin_offset mem' = origin_offset mem"
    "sz' - sz = int SM_PAGE_SIZE * (int (length (chain mem')) - int (length (chain mem)))"
proof -
  let ?room = "chain mem \<noteq> [] \<and> mlen (last (chain mem)) < SM_PAGE_SIZE"
  have "contents (chain mem') = contents (chain mem) @ data \<and> pages_ok (chain mem') \<and>
    origin_offset mem' = origin_offset mem \<and>
    sz' - sz = int SM_PAGE_SIZE * (int (length (chain mem')) - int (length (chain mem)))"
  proof (cases ?room)
    case True
    let ?t = "last (chain mem)"
    let ?n = "min (SM_PAGE_SIZE - mlen ?t) (length data)"
    let ?t' = "?t\<lparr>mdata := mdata ?t @ take ?n data\<rparr>"
    let ?ch = "butlast (chain mem) @ [?t']"
    have ch: "chain mem = butlast (chain mem) @ [?t]" using True by simp
    have tin: "?t \<in> set (chain mem)" using True by simp
    have "pages_ok ?ch"
      using assms(1) tin True by (auto simp: pages_ok_def dest: in_set_butlastD)
    moreover have "mlen (last ?ch) = SM_PAGE_SIZE \<or> drop ?n data = []" using True by (auto simp: min_def)
    moreover obtain ch2 s2 where run: "append_pages (length data) ?ch (drop ?n data) sz = (ch2, s2)"
      by (cases "append_pages (length data) ?ch (drop ?n data) sz")
    ultimately have "contents ch2 = contents ?ch @ drop ?n data \<and> pages_ok ch2 \<and>
        s2 - sz = int SM_PAGE_SIZE * (int (length ch2) - int (length ?ch))"
      by (intro append_pages_ok) auto
    moreover have "contents ?ch @ drop ?n data = contents (chain mem) @ data"
      by (subst (3) ch) simp
    moreover have "length ?ch = length (chain mem)" using True by simp
    moreover have "mem' = mem\<lparr>chain := ch2\<rparr>" "sz' = s2"
      using assms(2) True run by (auto simp: stmemAppend_def Let_def)
    ultimately show ?thesis by simp
  next
    case False
    obtain ch2 s2 where run: "append_pages (length data) (chain mem) data sz = (ch2, s2)"
      by (cases "append_pages (length data) (chain mem) data sz")
    have "chain mem = [] \<or> mlen (last (chain mem)) = SM_PAGE_SIZE"
      using False assms(1) last_in_set [of "chain mem"] unfolding pages_ok_def by (meson le_neq_implies_less)
    then have "contents ch2 = contents (chain mem) @ data \<and> pages_ok ch2 \<and>
        s2 - sz = int SM_PAGE_SIZE * (int (length ch2) - int (length (chain mem)))"
      by (intro append_pages_ok [OF _ _ assms(1) run]) auto
    moreover have "mem' = mem\<lparr>chain := ch2\<rparr>" "sz' = s2"
      using assms(2) False run by (auto simp: stmemAppend_def Let_def split: if_splits)
    ultimately show ?thesis by simp
  qed
  then show "contents (chain mem') = contents (chain mem) @ data" "pages_ok (chain mem')"
    "origin_offset mem' = origin_offset mem"
    "sz' - sz = int SM_PAGE_SIZE * (int (length (chain mem')) - int (length (chain mem)))" by blast+
qed

section \<open>Reading\<close>

lemma copy_rest_eq: "copy_rest ch n = take n (contents ch)"
  by (induction ch n rule: copy_rest.induct) auto

lemma seek_ok:
  "t_off \<le> offset \<Longrightarrow> (case seek ch t_off offset of
     None \<Rightarrow> t_off + length (contents ch) < offset \<or> ch = []
   | Some (t, p, ps) \<Rightarrow> t \<le> offset \<and> offset \<le> t + mlen p \<and>
       drop (offset - t_off) (contents ch) = drop (offset - t) (contents (p # ps)))"
proof (induction ch arbitrary: t_off)
  case (Cons p ps)
  show ?case
  proof (cases "t_off + mlen p < offset")
    case True
    then have "drop (offset - t_off) (contents (p # ps)) = drop (offset - (t_off + mlen p)) (contents ps)"
      by simp
    with Cons.IH [of "t_off + mlen p"] True show ?thesis by (auto split: option.splits)
  next
    case False
    with Cons.prems show ?thesis by simp
  qed
qed simp

lemma stmemCopy_ok:
  assumes "origin_offset mem \<le> offset" "0 < sz"
  shows "stmemCopy mem offset sz =
     Inr (take sz (drop (offset - origin_offset mem) (contents (chain mem))))"
proof (cases "seek (chain mem) (origin_offset mem) offset")
  case None
  with seek_ok [OF assms(1), of "chain mem"] assms(2) show ?thesis by (auto simp: stmemCopy_def)
next
  case (Some r)
  obtain t p ps where r: "r = (t, p, ps)" by (cases r)
  with Some seek_ok [OF assms(1), of "chain mem"] have s: "t \<le> offset" "offset \<le> t + mlen p"
    "drop (offset - origin_offset mem) (contents (chain mem)) = drop (offset - t) (contents (p # ps))" by auto
  have ne: "chain mem \<noteq> []" using Some by auto
  let ?into = "offset - t"
  have "take (min sz (mlen p - ?into)) (drop ?into (mdata p)) @ take (sz - min sz (mlen p - ?into)) (contents ps) =
      take sz (drop ?into (mdata p) @ contents ps)"
    using s by (cases "sz \<le> mlen p - ?into") auto
  moreover have "drop ?into (contents (p # ps)) = drop ?into (mdata p) @ contents ps" using s by simp
  ultimately show ?thesis
    using s ne assms(2) Some r by (simp add: stmemCopy_def Let_def copy_rest_eq)
qed

section \<open>Releasing a prefix\<close>

lemma free_upto_ok:
  "cur \<le> target \<Longrightarrow> free_upto ch cur target sz = (ch', cur', sz', live, kept) \<Longrightarrow>
     cur \<le> cur' \<and> cur' \<le> target \<and> contents ch' = drop (cur' - cur) (contents ch) \<and>
     cur' - cur \<le> length (contents ch) \<and> suffix ch' ch \<and>
     sz' = sz - int SM_PAGE_SIZE * (int (length ch) - int (length ch'))"
proof (induction ch arbitrary: cur sz live)
  case (Cons p ps)
  show ?case
  proof (cases "cur + mlen p \<le> target \<and> ps \<noteq> []")
    case True
    obtain live' where run: "free_upto ps (cur + mlen p) target (sz - int SM_PAGE_SIZE) = (ch', cur', sz', live', kept)"
      using Cons.prems(2) True by (auto split: prod.splits)
    from Cons.IH [OF _ run] True have
      "cur + mlen p \<le> cur'" "cur' \<le> target" "contents ch' = drop (cur' - (cur + mlen p)) (contents ps)"
      "cur' - (cur + mlen p) \<le> length (contents ps)" "suffix ch' ps"
      "sz' = sz - int SM_PAGE_SIZE - int SM_PAGE_SIZE * (int (length ps) - int (length ch'))" by auto
    then show ?thesis by (auto simp: suffix_Cons algebra_simps)
  next
    case False
    then show ?thesis using Cons.prems by (auto split: if_splits)
  qed
qed auto

lemma stmemFreeDataUpto_ok:
  assumes "origin_offset mem \<le> target"
  shows "\<exists>mem' sz' live. stmemFreeDataUpto mem target sz = Inr (mem', origin_offset mem', sz', live) \<and>
     origin_offset mem \<le> origin_offset mem' \<and> origin_offset mem' \<le> target \<and>
     contents (chain mem') = drop (origin_offset mem' - origin_offset mem) (contents (chain mem)) \<and>
     suffix (chain mem') (chain mem) \<and>
     sz' = sz - int SM_PAGE_SIZE * (int (length (chain mem)) - int (length (chain mem')))"
proof -
  obtain ch cur sz' live kept where run:
    "free_upto (chain mem) (origin_offset mem) target sz = (ch, cur, sz', live, kept)"
    by (cases "free_upto (chain mem) (origin_offset mem) target sz")
  from free_upto_ok [OF assms run] have *: "origin_offset mem \<le> cur" "cur \<le> target"
    "contents ch = drop (cur - origin_offset mem) (contents (chain mem))" "suffix ch (chain mem)"
    "sz' = sz - int SM_PAGE_SIZE * (int (length (chain mem)) - int (length ch))" by auto
  then show ?thesis
    using run by (intro exI [of _ "\<lparr>chain = ch, origin_offset = cur\<rparr>"] exI) (auto simp: stmemFreeDataUpto_def)
qed

lemma pages_ok_suffix: "suffix ch' ch \<Longrightarrow> pages_ok ch \<Longrightarrow> pages_ok ch'"
  unfolding suffix_def pages_ok_def by (auto simp: butlast_append split: if_splits)

section \<open>Properties\<close>

fun append_all :: "string list \<Rightarrow> mem_hdr \<times> int \<Rightarrow> mem_hdr \<times> int" where
  "append_all [] s = s"
| "append_all (d # ds) (mem, sz) = append_all ds (stmemAppend mem d sz)"

lemma append_all_ok:
  "pages_ok (chain mem) \<Longrightarrow> append_all ds (mem, sz) = (mem', sz') \<Longrightarrow>
     contents (chain mem') = contents (chain mem) @ concat ds \<and> pages_ok (chain mem') \<and>
     origin_offset mem' = origin_offset mem \<and>
     sz' - sz = int SM_PAGE_SIZE * (int (length (chain mem')) - int (length (chain mem)))"
proof (induction ds arbitrary: mem sz)
  case (Cons d ds)
  obtain m1 s1 where a: "stmemAppend mem d sz = (m1, s1)" by (cases "stmemAppend mem d sz")
  note ok = stmemAppend_ok [OF Cons.prems(1) a]
  have "append_all ds (m1, s1) = (mem', sz')" using Cons.prems(2) a by simp
  from Cons.IH [OF ok(2) this] ok show ?case by (auto simp: algebra_simps)
qed simp

text \<open>
  C36. The page chain refines a flat byte sequence: after appending any pieces to an empty
  object, \<^verbatim>\<open>stmemCopy\<close> at an offset returns exactly the bytes of the concatenation from
  there on, cut to the size of the buffer; all pages but the last are full, and the
  global memory counter has grown by one page size per page.
\<close>

theorem stmem_append_copy:
  assumes "append_all ds (\<lparr>chain = [], origin_offset = 0\<rparr>, sz) = (mem, sz')" "0 < n"
  shows "stmemCopy mem offset n = Inr (take n (drop offset (concat ds))) \<and>
     pages_ok (chain mem) \<and> sz' = sz + int SM_PAGE_SIZE * int (length (chain mem))"
proof -
  have "pages_ok (chain \<lparr>chain = [], origin_offset = 0\<rparr>)" by (simp add: pages_ok_def)
  from append_all_ok [OF this assms(1)] have *: "contents (chain mem) = concat ds" "pages_ok (chain mem)"
    "origin_offset mem = 0" "sz' - sz = int SM_PAGE_SIZE * int (length (chain mem))" by simp_all
  with stmemCopy_ok [of mem offset n] assms(2) show ?thesis by simp
qed

theorem stmem_append_copy_witness:
  "\<exists>mem sz'. append_all [''ab'', ''cd''] (\<lparr>chain = [], origin_offset = 0\<rparr>, 0) = (mem, sz') \<and>
     stmemCopy mem 1 2 = Inr (take 2 (drop 1 (concat [''ab'', ''cd'']))) \<and>
     pages_ok (chain mem) \<and> sz' = 0 + int SM_PAGE_SIZE * int (length (chain mem))"
proof -
  obtain mem sz' where a: "append_all [''ab'', ''cd''] (\<lparr>chain = [], origin_offset = 0\<rparr>, 0) = (mem, sz')"
    by (cases "append_all [''ab'', ''cd''] (\<lparr>chain = [], origin_offset = 0\<rparr>, 0)")
  from stmem_append_copy [OF a, of 2 1] a show ?thesis by auto
qed

text \<open>
  Releasing the data up to an offset loses nothing behind it: \<^verbatim>\<open>stmemFreeDataUpto\<close> with a
  target at or behind the origin never fails its assertion, moves the origin forward but
  not past the target, keeps the page invariant, gives back one page size per dropped
  page, and every read at or behind the target returns the same bytes as before.
\<close>

theorem stmemFreeDataUpto_keeps_tail:
  assumes "origin_offset mem \<le> target" "pages_ok (chain mem)"
  shows "\<exists>mem' sz' live. stmemFreeDataUpto mem target sz = Inr (mem', origin_offset mem', sz', live) \<and>
     origin_offset mem' \<le> target \<and> pages_ok (chain mem') \<and>
     sz' = sz - int SM_PAGE_SIZE * (int (length (chain mem)) - int (length (chain mem'))) \<and>
     (\<forall>offset n. target \<le> offset \<and> 0 < n \<longrightarrow> stmemCopy mem' offset n = stmemCopy mem offset n)"
proof -
  obtain mem' sz' live where f: "stmemFreeDataUpto mem target sz = Inr (mem', origin_offset mem', sz', live)"
    "origin_offset mem \<le> origin_offset mem'" "origin_offset mem' \<le> target"
    "contents (chain mem') = drop (origin_offset mem' - origin_offset mem) (contents (chain mem))"
    "suffix (chain mem') (chain mem)"
    "sz' = sz - int SM_PAGE_SIZE * (int (length (chain mem)) - int (length (chain mem')))"
    using stmemFreeDataUpto_ok [OF assms(1)] by blast
  have "stmemCopy mem' offset n = stmemCopy mem offset n" if "target \<le> offset" "0 < n" for offset n
    using that f(2-4) assms(1) stmemCopy_ok [of mem' offset n] stmemCopy_ok [of mem offset n] by simp
  with f pages_ok_suffix [OF f(5) assms(2)] show ?thesis by blast
qed

theorem stmemFreeDataUpto_keeps_tail_witness:
  "\<exists>mem' sz' live. stmemFreeDataUpto \<lparr>chain = [\<lparr>mdata = ''ab'', uses = 0\<rparr>], origin_offset = 5\<rparr> 6 4096 =
       Inr (mem', origin_offset mem', sz', live) \<and> origin_offset mem' \<le> 6 \<and> pages_ok (chain mem') \<and>
     sz' = 4096 - int SM_PAGE_SIZE * (int (length (chain \<lparr>chain = [\<lparr>mdata = ''ab'', uses = 0\<rparr>], origin_offset = 5\<rparr>)) - int (length (chain mem'))) \<and>
     (\<forall>offset n. 6 \<le> offset \<and> 0 < n \<longrightarrow>
        stmemCopy mem' offset n = stmemCopy \<lparr>chain = [\<lparr>mdata = ''ab'', uses = 0\<rparr>], origin_offset = 5\<rparr> offset n)"
  by (rule stmemFreeDataUpto_keeps_tail) (simp_all add: pages_ok_def SM_PAGE_SIZE_def)

end
