(* ===== verification/Filemap.thy ===== *)
theory Filemap
  imports Prelude
begin

text \<open>
  The map of swap file numbers of \<^verbatim>\<open>src/squid-2.7.STABLE9-new/src/filemap.c\<close>: a growing
  array of 64-bit words with one bit per file. A failed assertion (a map beyond
  \<^verbatim>\<open>FILEMAP_MAX_SIZE\<close>) and an access outside the array are \<^term>\<open>None\<close>.
\<close>

unbundle bit_operations_syntax

section \<open>Data\<close>

record fileMap =
  max_n_files :: nat
  n_files_in_map :: int
  nwords :: nat
  file_map :: "64 word list"

definition FILEMAP_MAX_SIZE :: nat where "FILEMAP_MAX_SIZE = 16777216"
definition FM_INITIAL_NUMBER :: nat where "FM_INITIAL_NUMBER = 16384"
definition ALL_ONES :: "64 word" where "ALL_ONES = 0xFFFFFFFFFFFFFFFF"

definition bitmask :: "nat \<Rightarrow> 64 word" where
  "bitmask file_number = push_bit (file_number mod 64) 1"

section \<open>Operations\<close>

definition file_map_create :: fileMap where
  "file_map_create =
     \<lparr>max_n_files = FM_INITIAL_NUMBER, n_files_in_map = 0, nwords = FM_INITIAL_NUMBER div 64,
      file_map = replicate (FM_INITIAL_NUMBER div 64) 0\<rparr>"

definition file_map_grow :: "fileMap \<Rightarrow> fileMap option" where
  "file_map_grow fm =
     (let m = max_n_files fm * 2 in
      if m \<le> FILEMAP_MAX_SIZE
      then Some (fm\<lparr>max_n_files := m, nwords := m div 64,
                    file_map := take (m div 64) (file_map fm) @ replicate (m div 64 - length (file_map fm)) 0\<rparr>)
      else None)"

fun grow_to :: "nat \<Rightarrow> fileMap \<Rightarrow> nat \<Rightarrow> fileMap option" where
  "grow_to fuel fm file_number =
     (if file_number < max_n_files fm then Some fm
      else (case fuel of 0 \<Rightarrow> None | Suc f \<Rightarrow> file_map_grow fm \<bind> (\<lambda>fm'. grow_to f fm' file_number)))"

declare grow_to.simps [simp del]

definition file_map_bit_set :: "fileMap \<Rightarrow> nat \<Rightarrow> (fileMap \<times> nat) option" where
  "file_map_bit_set fm file_number = do {
     fm1 \<leftarrow> grow_to 32 fm file_number;
     ws \<leftarrow> upd_opt (file_map fm1) (file_number div 64) (\<lambda>w. w OR bitmask file_number);
     Some (fm1\<lparr>file_map := ws, n_files_in_map := n_files_in_map fm1 + 1\<rparr>, file_number)
   }"

definition file_map_bit_reset :: "fileMap \<Rightarrow> nat \<Rightarrow> fileMap option" where
  "file_map_bit_reset fm file_number = do {
     ws \<leftarrow> upd_opt (file_map fm) (file_number div 64) (\<lambda>w. w AND NOT (bitmask file_number));
     Some (fm\<lparr>file_map := ws, n_files_in_map := n_files_in_map fm - 1\<rparr>)
   }"

definition file_map_bit_test :: "fileMap \<Rightarrow> nat \<Rightarrow> bool" where
  "file_map_bit_test fm file_number \<longleftrightarrow>
     file_number < max_n_files fm \<and> file_map fm ! (file_number div 64) AND bitmask file_number \<noteq> 0"

text \<open>The search for a word that is not full, and for a free bit of a word.\<close>

fun find_word :: "nat \<Rightarrow> fileMap \<Rightarrow> nat \<Rightarrow> nat" where
  "find_word 0 fm word = word"
| "find_word (Suc c) fm word =
     (if file_map fm ! word \<noteq> ALL_ONES then word else find_word c fm ((word + 1) mod nwords fm))"

definition find_bit :: "fileMap \<Rightarrow> nat \<Rightarrow> nat option" where
  "find_bit fm word = find (\<lambda>s. \<not> file_map_bit_test fm s) (map (\<lambda>b. word * 64 + b) [0..<64])"

fun file_map_allocate :: "nat \<Rightarrow> fileMap \<Rightarrow> nat \<Rightarrow> (fileMap \<times> nat) option" where
  "file_map_allocate fuel fm suggestion =
     (let s = (if suggestion \<ge> max_n_files fm then 0 else suggestion) in
      if \<not> file_map_bit_test fm s then Some (fm, s)
      else (case find_bit fm (find_word (nwords fm) fm (s div 64)) of
          Some s' \<Rightarrow> Some (fm, s')
        | None \<Rightarrow> (case fuel of
              0 \<Rightarrow> None
            | Suc f \<Rightarrow> file_map_grow fm \<bind> (\<lambda>fm'. file_map_allocate f fm' (max_n_files fm' div 2)))))"

declare file_map_allocate.simps [simp del]

section \<open>Words\<close>

lemma and_bitmask_iff: "w AND bitmask k \<noteq> 0 \<longleftrightarrow> bit w (k mod 64)"
  by (simp add: bitmask_def bit_iff_and_push_bit_not_eq_0)

lemma bit_bitmask: "bit (bitmask k) i \<longleftrightarrow> i = k mod 64"
  by (auto simp: bitmask_def bit_exp_iff)

lemma bit_or_bitmask: "i < 64 \<Longrightarrow> bit (w OR bitmask k) i \<longleftrightarrow> bit w i \<or> i = k mod 64"
  by (auto simp: bit_or_iff bit_bitmask)

lemma bit_andnot_bitmask: "i < 64 \<Longrightarrow> bit (w AND NOT (bitmask k)) i \<longleftrightarrow> bit w i \<and> i \<noteq> k mod 64"
  by (auto simp: bit_and_iff bit_not_iff bit_bitmask)

lemma not_all_ones: "w \<noteq> ALL_ONES \<Longrightarrow> \<exists>i<64. \<not> bit w i"
proof (rule ccontr)
  assume "w \<noteq> ALL_ONES" "\<not> (\<exists>i<64. \<not> bit w i)"
  then have all: "\<forall>i<64. bit w i" by blast
  have "ALL_ONES = (- 1 :: 64 word)" by (simp add: ALL_ONES_def)
  moreover have "w = - 1" by (rule bit_word_eqI) (use all in \<open>simp add: bit_minus_1_iff\<close>)
  ultimately show False using \<open>w \<noteq> ALL_ONES\<close> by simp
qed

section \<open>The invariant and the set of used numbers\<close>

definition fm_inv :: "fileMap \<Rightarrow> bool" where
  "fm_inv fm \<longleftrightarrow> length (file_map fm) = nwords fm \<and> max_n_files fm = 64 * nwords fm \<and>
     0 < nwords fm \<and> max_n_files fm \<le> FILEMAP_MAX_SIZE"

definition used :: "fileMap \<Rightarrow> nat set" where
  "used fm = {k. file_map_bit_test fm k}"

lemma used_iff:
  "fm_inv fm \<Longrightarrow> k \<in> used fm \<longleftrightarrow> k < max_n_files fm \<and> bit (file_map fm ! (k div 64)) (k mod 64)"
  by (simp add: used_def file_map_bit_test_def and_bitmask_iff)

lemma fm_inv_create: "fm_inv file_map_create \<and> used file_map_create = {}"
proof -
  have i: "fm_inv file_map_create"
    by (simp add: fm_inv_def file_map_create_def FM_INITIAL_NUMBER_def FILEMAP_MAX_SIZE_def)
  moreover have "k \<notin> used file_map_create" for k
    unfolding used_iff [OF i] by (auto simp: file_map_create_def FM_INITIAL_NUMBER_def less_mult_imp_div_less)
  ultimately show ?thesis by blast
qed

lemma file_map_grow_ok:
  assumes "fm_inv fm" "max_n_files fm * 2 \<le> FILEMAP_MAX_SIZE"
  shows "\<exists>fm'. file_map_grow fm = Some fm' \<and> fm_inv fm' \<and> used fm' = used fm \<and>
     max_n_files fm' = 2 * max_n_files fm \<and> n_files_in_map fm' = n_files_in_map fm"
proof -
  define fm' where "fm' = fm\<lparr>max_n_files := max_n_files fm * 2, nwords := nwords fm * 2,
      file_map := file_map fm @ replicate (nwords fm) 0\<rparr>"
  have run: "file_map_grow fm = Some fm'"
    using assms by (simp add: file_map_grow_def Let_def fm'_def fm_inv_def)
  have i: "fm_inv fm'" using assms by (simp add: fm_inv_def fm'_def)
  have "k \<in> used fm' \<longleftrightarrow> k \<in> used fm" for k
    unfolding used_iff [OF i] used_iff [OF assms(1)] using assms(1)
    by (auto simp: fm'_def fm_inv_def nth_append less_mult_imp_div_less nth_Cons' split: if_splits)
  then have "used fm' = used fm" by blast
  with run i show ?thesis by (simp add: fm'_def)
qed

lemma grow_to_ok:
  assumes "fm_inv fm" "file_number < FILEMAP_MAX_SIZE" "FILEMAP_MAX_SIZE = max_n_files fm * 2 ^ j" "j \<le> fuel"
  shows "\<exists>fm'. grow_to fuel fm file_number = Some fm' \<and> fm_inv fm' \<and> used fm' = used fm \<and>
     file_number < max_n_files fm' \<and> n_files_in_map fm' = n_files_in_map fm \<and>
     (\<exists>i\<le>j. max_n_files fm' = max_n_files fm * 2 ^ i)"
  using assms
proof (induction fuel arbitrary: fm j)
  case 0
  then show ?case by (subst grow_to.simps) simp
next
  case (Suc fuel)
  show ?case
  proof (cases "file_number < max_n_files fm")
    case True
    then show ?thesis using Suc.prems by (subst grow_to.simps) (auto intro: exI [of _ 0])
  next
    case False
    then obtain j' where j: "j = Suc j'" using Suc.prems(2,3) by (cases j) auto
    have "max_n_files fm * 2 \<le> FILEMAP_MAX_SIZE" unfolding Suc.prems(3) j by simp
    from file_map_grow_ok [OF Suc.prems(1) this] obtain fm1 where g: "file_map_grow fm = Some fm1" "fm_inv fm1"
      "used fm1 = used fm" "max_n_files fm1 = 2 * max_n_files fm" "n_files_in_map fm1 = n_files_in_map fm" by blast
    have "FILEMAP_MAX_SIZE = max_n_files fm1 * 2 ^ j'" using Suc.prems(3) g(4) j by simp
    from Suc.IH [OF g(2) Suc.prems(2) this] Suc.prems(4) j obtain fm' i where
      "grow_to fuel fm1 file_number = Some fm'" "fm_inv fm'" "used fm' = used fm1"
      "file_number < max_n_files fm'" "n_files_in_map fm' = n_files_in_map fm1" "i \<le> j'"
      "max_n_files fm' = max_n_files fm1 * 2 ^ i" by auto
    then show ?thesis using g False j
      by (subst grow_to.simps) (auto intro!: exI [of _ "Suc i"])
  qed
qed

text \<open>The maps that arise from the initial one by doubling.\<close>

definition fm_ok :: "fileMap \<Rightarrow> bool" where
  "fm_ok fm \<longleftrightarrow> fm_inv fm \<and> (\<exists>j\<le>10. FILEMAP_MAX_SIZE = max_n_files fm * 2 ^ j)"

lemma fm_ok_create: "fm_ok file_map_create"
proof -
  have "FILEMAP_MAX_SIZE = max_n_files file_map_create * 2 ^ 10"
    by (simp add: file_map_create_def FM_INITIAL_NUMBER_def FILEMAP_MAX_SIZE_def)
  then show ?thesis using fm_inv_create unfolding fm_ok_def by blast
qed

lemma set_bit_used:
  assumes i: "fm_inv fm" and k: "k < max_n_files fm"
    and w: "\<And>i. i < 64 \<Longrightarrow> bit (f (file_map fm ! (k div 64))) i \<longleftrightarrow>
      (if i = k mod 64 then b else bit (file_map fm ! (k div 64)) i)"
  shows "fm_inv (fm\<lparr>file_map := (file_map fm)[k div 64 := f (file_map fm ! (k div 64))], n_files_in_map := n\<rparr>)"
    "used (fm\<lparr>file_map := (file_map fm)[k div 64 := f (file_map fm ! (k div 64))], n_files_in_map := n\<rparr>) =
       (if b then insert k (used fm) else used fm - {k})"
proof -
  let ?fm = "fm\<lparr>file_map := (file_map fm)[k div 64 := f (file_map fm ! (k div 64))], n_files_in_map := n\<rparr>"
  show inv: "fm_inv ?fm" using i by (simp add: fm_inv_def)
  have len: "k div 64 < length (file_map fm)"
    using i k by (simp add: fm_inv_def less_mult_imp_div_less mult.commute)
  have "x \<in> used ?fm \<longleftrightarrow> (if x = k then b else x \<in> used fm)" for x
  proof (cases "x div 64 = k div 64")
    case True
    then have e: "x mod 64 = k mod 64 \<longleftrightarrow> x = k" by (metis div_mult_mod_eq)
    have "bit ((file_map fm)[k div 64 := f (file_map fm ! (k div 64))] ! (x div 64)) (x mod 64) \<longleftrightarrow>
        (if x = k then b else bit (file_map fm ! (x div 64)) (x mod 64))"
      unfolding True using len w [of "x mod 64"] e by simp
    then show ?thesis unfolding used_iff [OF inv] used_iff [OF i] using k by simp
  next
    case False
    then show ?thesis unfolding used_iff [OF inv] used_iff [OF i] using len by auto
  qed
  then show "used ?fm = (if b then insert k (used fm) else used fm - {k})"
    unfolding set_eq_iff by (cases b) simp_all
qed

lemma file_map_bit_set_ok:
  assumes "fm_ok fm" "k < FILEMAP_MAX_SIZE"
  shows "\<exists>fm'. file_map_bit_set fm k = Some (fm', k) \<and> fm_ok fm' \<and> used fm' = insert k (used fm) \<and>
     n_files_in_map fm' = n_files_in_map fm + 1"
proof -
  obtain j where i: "fm_inv fm" and j: "j \<le> 10" "FILEMAP_MAX_SIZE = max_n_files fm * 2 ^ j"
    using assms(1) by (auto simp: fm_ok_def)
  from grow_to_ok [OF i assms(2) j(2), of 32] j(1) obtain fm1 i' where g: "grow_to 32 fm k = Some fm1" "fm_inv fm1"
    "used fm1 = used fm" "k < max_n_files fm1" "n_files_in_map fm1 = n_files_in_map fm" "i' \<le> j"
    "max_n_files fm1 = max_n_files fm * 2 ^ i'" by auto
  let ?fm = "fm1\<lparr>file_map := (file_map fm1)[k div 64 := file_map fm1 ! (k div 64) OR bitmask k], n_files_in_map := n_files_in_map fm1 + 1\<rparr>"
  note sb = set_bit_used [OF g(2,4), of "\<lambda>w. w OR bitmask k" True]
  have s: "fm_inv ?fm" "used ?fm = insert k (used fm1)"
    using sb by (simp_all add: bit_or_bitmask)
  have len: "k div 64 < length (file_map fm1)"
    using g(2,4) by (simp add: fm_inv_def less_mult_imp_div_less mult.commute)
  have "FILEMAP_MAX_SIZE = max_n_files fm1 * 2 ^ (j - i')"
    unfolding g(7) j(2) using g(6) by (simp add: mult.assoc flip: power_add)
  then have "fm_ok ?fm" using s(1) j(1) by (auto simp: fm_ok_def intro!: exI [of _ "j - i'"])
  moreover have "file_map_bit_set fm k = Some (?fm, k)"
    using g(1) len by (simp add: file_map_bit_set_def)
  ultimately show ?thesis using s(2) g(3,5) by simp
qed

lemma file_map_bit_reset_ok:
  assumes "fm_ok fm" "k < max_n_files fm"
  shows "\<exists>fm'. file_map_bit_reset fm k = Some fm' \<and> fm_ok fm' \<and> used fm' = used fm - {k} \<and>
     n_files_in_map fm' = n_files_in_map fm - 1"
proof -
  have i: "fm_inv fm" using assms(1) by (simp add: fm_ok_def)
  let ?fm = "fm\<lparr>file_map := (file_map fm)[k div 64 := file_map fm ! (k div 64) AND NOT (bitmask k)], n_files_in_map := n_files_in_map fm - 1\<rparr>"
  note sb = set_bit_used [OF i assms(2), of "\<lambda>w. w AND NOT (bitmask k)" False]
  have s: "fm_inv ?fm" "used ?fm = used fm - {k}" using sb by (simp_all add: bit_andnot_bitmask)
  have "k div 64 < length (file_map fm)"
    using i assms(2) by (simp add: fm_inv_def less_mult_imp_div_less mult.commute)
  then show ?thesis using s assms(1) by (auto simp: file_map_bit_reset_def fm_ok_def)
qed

section \<open>Allocation\<close>

lemma all_ones_bit: "i < 64 \<Longrightarrow> bit ALL_ONES i"
proof -
  assume i: "i < 64"
  have e: "ALL_ONES = (- 1 :: 64 word)" by (simp add: ALL_ONES_def)
  have "bit (- 1 :: 64 word) i" unfolding bit_minus_1_iff using i by simp
  then show "bit ALL_ONES i" unfolding e .
qed

lemma rotate_cover:
  fixes w v n :: nat
  assumes "w < n" "v < n"
  shows "\<exists>d<n. (w + d) mod n = v"
proof (cases "w \<le> v")
  case True
  then show ?thesis using assms by (intro exI [of _ "v - w"]) auto
next
  case False
  then have "(w + (n + v - w)) mod n = v" using assms by simp
  then show ?thesis using False assms by (intro exI [of _ "n + v - w"]) auto
qed

lemma find_word_less: "word < nwords fm \<Longrightarrow> find_word c fm word < nwords fm"
  by (induction c fm word rule: find_word.induct) auto

text \<open>A full round that ends on a full word has seen full words only.\<close>

lemma find_word_full:
  "word < nwords fm \<Longrightarrow> file_map fm ! find_word c fm word = ALL_ONES \<Longrightarrow>
     \<forall>d<c. file_map fm ! ((word + d) mod nwords fm) = ALL_ONES"
proof (induction c fm word rule: find_word.induct)
  case (2 c fm word)
  show ?case
  proof (cases "file_map fm ! word = ALL_ONES")
    case True
    have "(word + 1) mod nwords fm < nwords fm" using 2(2) by simp
    with 2 True have IH: "\<forall>d<c. file_map fm ! (((word + 1) mod nwords fm + d) mod nwords fm) = ALL_ONES" by simp
    show ?thesis
    proof (intro allI impI)
      fix d assume d: "d < Suc c"
      show "file_map fm ! ((word + d) mod nwords fm) = ALL_ONES"
      proof (cases d)
        case 0
        then show ?thesis using True 2(2) by simp
      next
        case (Suc d')
        then show ?thesis using IH [rule_format, of d'] d by (simp add: mod_simps)
      qed
    qed
  qed (use 2 in simp)
qed simp

lemma find_bit_Some:
  assumes "find_bit fm w = Some s"
  shows "s \<notin> used fm" "s div 64 = w"
  using assms unfolding find_bit_def used_def by (auto simp: find_Some_iff)

lemma find_bit_None:
  assumes "fm_inv fm" "w < nwords fm" "find_bit fm w = None"
  shows "file_map fm ! w = ALL_ONES"
proof (rule ccontr)
  assume "file_map fm ! w \<noteq> ALL_ONES"
  then obtain i where i: "i < 64" "\<not> bit (file_map fm ! w) i" using not_all_ones by blast
  have "w * 64 + i \<in> used fm" using assms(3) i(1) by (auto simp: find_bit_def used_def find_None_iff)
  then show False unfolding used_iff [OF assms(1)] using i by simp
qed

lemma file_map_allocate_ok:
  assumes ok: "fm_ok fm" and room: "used fm \<noteq> {..<FILEMAP_MAX_SIZE}"
  shows "\<exists>fm' n. file_map_allocate 1 fm s0 = Some (fm', n) \<and> fm_ok fm' \<and> used fm' = used fm \<and>
     n_files_in_map fm' = n_files_in_map fm \<and> n < max_n_files fm' \<and> n \<notin> used fm"
proof -
  have i: "fm_inv fm" using ok by (simp add: fm_ok_def)
  define s where "s = (if s0 \<ge> max_n_files fm then 0 else s0)"
  have s: "s < max_n_files fm" using i by (auto simp: s_def fm_inv_def)
  show ?thesis
  proof (cases "file_map_bit_test fm s")
    case False
    then have "file_map_allocate 1 fm s0 = Some (fm, s)"
      by (subst file_map_allocate.simps) (simp add: s_def Let_def)
    moreover have "s \<notin> used fm" using False by (simp add: used_def)
    ultimately show ?thesis using ok s by blast
  next
    case True
    let ?w = "find_word (nwords fm) fm (s div 64)"
    have w: "s div 64 < nwords fm" using i s by (simp add: fm_inv_def less_mult_imp_div_less mult.commute)
    then have w': "?w < nwords fm" by (rule find_word_less)
    show ?thesis
    proof (cases "find_bit fm ?w")
      case (Some s')
      have "s' < max_n_files fm"
      proof -
        have "s' < ?w * 64 + 64" using find_bit_Some(2) [OF Some] by (metis dividend_less_div_times mult.commute add.commute zero_less_numeral)
        also have "\<dots> \<le> nwords fm * 64" using w' by (metis Suc_leI mult_Suc mult_le_mono1 add.commute)
        finally show ?thesis using i by (simp add: fm_inv_def)
      qed
      moreover have "file_map_allocate 1 fm s0 = Some (fm, s')"
        using True Some by (subst file_map_allocate.simps) (simp add: s_def Let_def)
      ultimately show ?thesis using ok find_bit_Some(1) [OF Some] by blast
    next
      case None
      have "file_map fm ! ?w = ALL_ONES" using find_bit_None [OF i w' None] .
      from find_word_full [OF w this] have full: "file_map fm ! ((s div 64 + d) mod nwords fm) = ALL_ONES" if "d < nwords fm" for d
        using that by blast
      have all: "file_map fm ! v = ALL_ONES" if "v < nwords fm" for v
        using rotate_cover [OF w that] full by metis
      have "used fm = {..<max_n_files fm}"
      proof -
        have "bit ALL_ONES (k mod 64)" for k :: nat
          by (rule all_ones_bit) simp
        then show ?thesis unfolding set_eq_iff used_iff [OF i]
          using all i by (auto simp: fm_inv_def less_mult_imp_div_less mult.commute)
      qed
      then have small: "max_n_files fm < FILEMAP_MAX_SIZE" using room i by (auto simp: fm_inv_def le_less)
      obtain j where j: "j \<le> 10" "FILEMAP_MAX_SIZE = max_n_files fm * 2 ^ j" using ok by (auto simp: fm_ok_def)
      then obtain j' where j': "j = Suc j'" using small by (cases j) auto
      have "max_n_files fm * 2 \<le> FILEMAP_MAX_SIZE" unfolding j(2) j' by simp
      from file_map_grow_ok [OF i this] obtain fm1 where g: "file_map_grow fm = Some fm1" "fm_inv fm1"
        "used fm1 = used fm" "max_n_files fm1 = 2 * max_n_files fm" "n_files_in_map fm1 = n_files_in_map fm" by blast
      have "fm_ok fm1" using g j j' by (auto simp: fm_ok_def intro!: exI [of _ j'])
      moreover have new: "max_n_files fm \<notin> used fm" "max_n_files fm < max_n_files fm1"
        using g(4) i by (auto simp: used_iff [OF i] fm_inv_def)
      moreover have "file_map_allocate 0 fm1 (max_n_files fm1 div 2) = Some (fm1, max_n_files fm)"
        using new g(3,4) by (subst file_map_allocate.simps) (auto simp: Let_def used_def)
      ultimately show ?thesis
        using True None g by (subst file_map_allocate.simps) (auto simp: s_def [symmetric] Let_def)
    qed
  qed
qed

section \<open>The interface of a number allocator\<close>

locale number_pool =
  fixes ok :: "'p \<Rightarrow> bool"
    and taken :: "'p \<Rightarrow> nat set"
    and alloc :: "'p \<Rightarrow> nat \<Rightarrow> ('p \<times> nat) option"
    and mark :: "'p \<Rightarrow> nat \<Rightarrow> ('p \<times> nat) option"
    and limit :: nat
  assumes taken_below: "ok p \<Longrightarrow> taken p \<subseteq> {..<limit}"
    and alloc_fresh: "ok p \<Longrightarrow> taken p \<noteq> {..<limit} \<Longrightarrow>
      \<exists>p' n. alloc p s = Some (p', n) \<and> ok p' \<and> taken p' = taken p \<and> n < limit \<and> n \<notin> taken p"
    and mark_taken: "ok p \<Longrightarrow> n < limit \<Longrightarrow> \<exists>p'. mark p n = Some (p', n) \<and> ok p' \<and> taken p' = insert n (taken p)"
begin

lemma allocate_and_mark:
  assumes "ok p" "taken p \<noteq> {..<limit}"
  shows "\<exists>p1 p2 n. alloc p s = Some (p1, n) \<and> mark p1 n = Some (p2, n) \<and> ok p2 \<and>
     n \<notin> taken p \<and> taken p2 = insert n (taken p)"
proof -
  from alloc_fresh [OF assms, of s] obtain p1 n where a: "alloc p s = Some (p1, n)" "ok p1"
    "taken p1 = taken p" "n < limit" "n \<notin> taken p" by blast
  from mark_taken [OF a(2,4)] a show ?thesis by auto
qed

text \<open>As long as numbers are left, a run of allocations hands out pairwise different ones.\<close>

lemma run_distinct:
  "ok p \<Longrightarrow> card (taken p) + length ss \<le> limit \<Longrightarrow>
     \<exists>p' ns. foldM (\<lambda>s (q, ns). alloc q s \<bind> (\<lambda>(q1, n). mark q1 n \<bind> (\<lambda>(q2, m). Some (q2, ns @ [m])))) ss (p, acc) =
       Some (p', acc @ ns) \<and> length ns = length ss \<and> distinct ns \<and> set ns \<inter> taken p = {} \<and>
       ok p' \<and> taken p' = taken p \<union> set ns"
proof (induction ss arbitrary: p acc)
  case Nil
  then show ?case by simp
next
  case (Cons s ss)
  have fin: "finite (taken p)" using taken_below [OF Cons.prems(1)] finite_subset by blast
  have "taken p \<noteq> {..<limit}"
  proof
    assume "taken p = {..<limit}"
    then have "card (taken p) = limit" by simp
    with Cons.prems(2) show False by simp
  qed
  from allocate_and_mark [OF Cons.prems(1) this, of s] obtain p1 p2 n where st:
    "alloc p s = Some (p1, n)" "mark p1 n = Some (p2, n)" "ok p2" "n \<notin> taken p" "taken p2 = insert n (taken p)"
    by blast
  have "card (taken p2) + length ss \<le> limit" using st(4,5) fin Cons.prems(2) by simp
  from Cons.IH [OF st(3) this, of "acc @ [n]"] obtain p' ns where r:
    "foldM (\<lambda>s (q, ns). alloc q s \<bind> (\<lambda>(q1, n). mark q1 n \<bind> (\<lambda>(q2, m). Some (q2, ns @ [m])))) ss (p2, acc @ [n]) =
       Some (p', (acc @ [n]) @ ns)"
    "length ns = length ss" "distinct ns" "set ns \<inter> taken p2 = {}" "ok p'" "taken p' = taken p2 \<union> set ns" by blast
  have "n \<notin> set ns" "set ns \<inter> taken p = {}" using r(4) st(5) by auto
  then show ?case
    using st(1,2,4,5) r by (intro exI [of _ p'] exI [of _ "n # ns"]) simp
qed

end

interpretation files: number_pool fm_ok used "file_map_allocate 1" file_map_bit_set FILEMAP_MAX_SIZE
proof unfold_locales
  fix p assume "fm_ok p"
  then have "fm_inv p" by (simp add: fm_ok_def)
  then show "used p \<subseteq> {..<FILEMAP_MAX_SIZE}" using used_iff by (auto simp: fm_inv_def)
next
  fix p s assume a: "fm_ok p" "used p \<noteq> {..<FILEMAP_MAX_SIZE}"
  from file_map_allocate_ok [OF this, of s] obtain p' n where
    *: "file_map_allocate 1 p s = Some (p', n)" "fm_ok p'" "used p' = used p" "n < max_n_files p'" "n \<notin> used p" by blast
  then have "n < FILEMAP_MAX_SIZE" by (auto simp: fm_ok_def fm_inv_def)
  with * show "\<exists>p' n. file_map_allocate 1 p s = Some (p', n) \<and> fm_ok p' \<and> used p' = used p \<and>
      n < FILEMAP_MAX_SIZE \<and> n \<notin> used p" by blast
next
  fix p n assume "fm_ok p" "n < FILEMAP_MAX_SIZE"
  from file_map_bit_set_ok [OF this]
  show "\<exists>p'. file_map_bit_set p n = Some (p', n) \<and> fm_ok p' \<and> used p' = insert n (used p)" by blast
qed

section \<open>Properties\<close>

definition allocate_run :: "nat list \<Rightarrow> fileMap \<times> nat list \<Rightarrow> (fileMap \<times> nat list) option" where
  "allocate_run = foldM (\<lambda>s (q, ns). file_map_allocate 1 q s \<bind>
     (\<lambda>(q1, n). file_map_bit_set q1 n \<bind> (\<lambda>(q2, m). Some (q2, ns @ [m]))))"

text \<open>
  C34. File numbers are handed out at most once: starting from a map in which \<open>k\<close> numbers are
  used, any run of allocate-and-set steps (with arbitrary suggestions) succeeds as long as
  the total stays within \<^verbatim>\<open>FILEMAP_MAX_SIZE\<close>, growing the map as needed, and returns pairwise
  different numbers none of which was in use; afterwards exactly these are used in addition.
\<close>

theorem file_numbers_unique:
  assumes "fm_ok fm" "card (used fm) + length ss \<le> FILEMAP_MAX_SIZE"
  shows "\<exists>fm' ns. allocate_run ss (fm, []) = Some (fm', ns) \<and> length ns = length ss \<and> distinct ns \<and>
     set ns \<inter> used fm = {} \<and> fm_ok fm' \<and> used fm' = used fm \<union> set ns"
  using files.run_distinct [OF assms, of "[]"] unfolding allocate_run_def by simp

theorem file_numbers_unique_witness:
  "\<exists>fm' ns. allocate_run [0, 0, 70] (file_map_create, []) = Some (fm', ns) \<and> length ns = length [0 :: nat, 0, 70] \<and> distinct ns \<and>
     set ns \<inter> used file_map_create = {} \<and> fm_ok fm' \<and> used fm' = used file_map_create \<union> set ns"
  by (rule file_numbers_unique [OF fm_ok_create]) (simp add: fm_inv_create FILEMAP_MAX_SIZE_def)

text \<open>
  The bits are independent: on a map that came about by the operations, setting a number
  changes the answer of \<^verbatim>\<open>file_map_bit_test\<close> for that number only (growing the map keeps all
  bits), resetting an existing one as well, and the file count follows.
\<close>

theorem file_map_bits_independent:
  assumes "fm_ok fm" "k < FILEMAP_MAX_SIZE"
  shows "(\<exists>fm'. file_map_bit_set fm k = Some (fm', k) \<and> fm_ok fm' \<and>
       (\<forall>x. file_map_bit_test fm' x \<longleftrightarrow> x = k \<or> file_map_bit_test fm x) \<and>
       n_files_in_map fm' = n_files_in_map fm + 1) \<and>
     (file_map_bit_test fm k \<longrightarrow> (\<exists>fm'. file_map_bit_reset fm k = Some fm' \<and> fm_ok fm' \<and>
       (\<forall>x. file_map_bit_test fm' x \<longleftrightarrow> x \<noteq> k \<and> file_map_bit_test fm x) \<and>
       n_files_in_map fm' = n_files_in_map fm - 1))"
proof
  show "\<exists>fm'. file_map_bit_set fm k = Some (fm', k) \<and> fm_ok fm' \<and>
       (\<forall>x. file_map_bit_test fm' x \<longleftrightarrow> x = k \<or> file_map_bit_test fm x) \<and>
       n_files_in_map fm' = n_files_in_map fm + 1"
    using file_map_bit_set_ok [OF assms] by (auto simp: used_def set_eq_iff)
  show "file_map_bit_test fm k \<longrightarrow> (\<exists>fm'. file_map_bit_reset fm k = Some fm' \<and> fm_ok fm' \<and>
       (\<forall>x. file_map_bit_test fm' x \<longleftrightarrow> x \<noteq> k \<and> file_map_bit_test fm x) \<and>
       n_files_in_map fm' = n_files_in_map fm - 1)"
  proof
    assume "file_map_bit_test fm k"
    then have "k < max_n_files fm" by (simp add: file_map_bit_test_def)
    from file_map_bit_reset_ok [OF assms(1) this]
    show "\<exists>fm'. file_map_bit_reset fm k = Some fm' \<and> fm_ok fm' \<and>
       (\<forall>x. file_map_bit_test fm' x \<longleftrightarrow> x \<noteq> k \<and> file_map_bit_test fm x) \<and>
       n_files_in_map fm' = n_files_in_map fm - 1"
      by (auto simp: used_def set_eq_iff)
  qed
qed

theorem file_map_bits_independent_witness:
  "\<exists>fm'. file_map_bit_set file_map_create 20000 = Some (fm', 20000) \<and> fm_ok fm' \<and>
       (\<forall>x. file_map_bit_test fm' x \<longleftrightarrow> x = 20000 \<or> file_map_bit_test file_map_create x) \<and>
       n_files_in_map fm' = n_files_in_map file_map_create + 1"
  by (rule file_map_bits_independent [OF fm_ok_create, THEN conjunct1]) (simp add: FILEMAP_MAX_SIZE_def)

end
