(* ===== verification/CacheDigest.thy ===== *)
theory CacheDigest
  imports Prelude
begin

text \<open>
  The cache digest of \<^verbatim>\<open>src/squid-2.7.STABLE9-new/src/CacheDigest.c\<close>: a bit mask in which
  every cache key turns on the four bits that the words of its MD5 select (a Bloom filter),
  sent to peers as a summary of the cache.

  A mask is a list of bytes, 8-bit words; a test or a set outside of it is \<^term>\<open>None\<close>.
  The counters of the report functions are modelled, their text output is not.
\<close>

unbundle bit_operations_syntax

section \<open>Bits of a byte array\<close>

definition CBIT_BIT :: "nat \<Rightarrow> 8 word" where
  "CBIT_BIT b = push_bit (b mod 8) 1"

definition CBIT_TEST :: "8 word list \<Rightarrow> nat \<Rightarrow> bool option" where
  "CBIT_TEST dmask b = map_option (\<lambda>w. w AND CBIT_BIT b \<noteq> 0) (nth_opt dmask (b div 8))"

definition CBIT_SET :: "8 word list \<Rightarrow> nat \<Rightarrow> 8 word list option" where
  "CBIT_SET dmask b = upd_opt dmask (b div 8) (\<lambda>w. w OR CBIT_BIT b)"

section \<open>Data\<close>

record CacheDigest =
  dmask :: "8 word list"
  mask_size :: nat
  capacity :: nat
  bits_per_entry :: nat
  dcount :: nat
  del_count :: nat

record CacheDigestStats =
  bit_count :: nat
  bit_on_count :: nat
  bseq_len_sum :: nat
  bseq_count :: nat

record cd_guess_stats =
  true_hits :: nat
  true_misses :: nat
  false_hits :: nat
  false_misses :: nat
  close_hits :: nat

section \<open>Operations\<close>

definition cacheDigestCalcMaskSize :: "nat \<Rightarrow> nat \<Rightarrow> nat" where
  "cacheDigestCalcMaskSize cap bpe = (cap * bpe + 7) div 8"

text \<open>The size is computed with \<^verbatim>\<open>int\<close> arithmetic; an overflow is undefined.\<close>

definition cacheDigestInit :: "CacheDigest \<Rightarrow> nat \<Rightarrow> nat \<Rightarrow> CacheDigest res" where
  "cacheDigestInit cd cap bpe =
     (if cap * bpe + 7 \<ge> 2147483648 then Inl Undefined
      else if \<not> (cap > 0 \<and> bpe > 0) then Inl AssertFailed
      else (let m = cacheDigestCalcMaskSize cap bpe in
            if m = 0 then Inl AssertFailed
            else Inr (cd\<lparr>capacity := cap, bits_per_entry := bpe, mask_size := m, dmask := replicate m 0\<rparr>)))"

definition cacheDigestCreate :: "nat \<Rightarrow> nat \<Rightarrow> CacheDigest res" where
  "cacheDigestCreate cap bpe =
     cacheDigestInit \<lparr>dmask = [], mask_size = 0, capacity = 0, bits_per_entry = 0, dcount = 0, del_count = 0\<rparr> cap bpe"

definition cacheDigestClone :: "CacheDigest \<Rightarrow> CacheDigest res" where
  "cacheDigestClone cd =
     res_bind (cacheDigestCreate (capacity cd) (bits_per_entry cd)) (\<lambda>clone.
       if mask_size cd \<noteq> mask_size clone then Inl AssertFailed
       else Inr (clone\<lparr>dcount := dcount cd, del_count := del_count cd, dmask := dmask cd\<rparr>))"

definition cacheDigestClear :: "CacheDigest \<Rightarrow> CacheDigest" where
  "cacheDigestClear cd = cd\<lparr>dcount := 0, del_count := 0, dmask := replicate (mask_size cd) 0\<rparr>"

definition cacheDigestChangeCap :: "CacheDigest \<Rightarrow> nat \<Rightarrow> CacheDigest res" where
  "cacheDigestChangeCap cd new_cap = cacheDigestInit cd new_cap (bits_per_entry cd)"

text \<open>The four words of a key, each in network byte order, modulo the number of bits.\<close>

definition key_word :: "string \<Rightarrow> nat \<Rightarrow> nat" where
  "key_word key i =
     of_char (key ! (4 * i)) * 2 ^ 24 + of_char (key ! (4 * i + 1)) * 2 ^ 16 +
     of_char (key ! (4 * i + 2)) * 2 ^ 8 + of_char (key ! (4 * i + 3))"

definition cacheDigestHashKey :: "CacheDigest \<Rightarrow> string \<Rightarrow> nat list" where
  "cacheDigestHashKey cd key = map (\<lambda>i. key_word key i mod (mask_size cd * 8)) [0, 1, 2, 3]"

fun test_bits :: "8 word list \<Rightarrow> nat list \<Rightarrow> bool option" where
  "test_bits m [] = Some True"
| "test_bits m (b # bs) = do { t \<leftarrow> CBIT_TEST m b; if t then test_bits m bs else Some False }"

definition cacheDigestTest :: "CacheDigest \<Rightarrow> string \<Rightarrow> bool option" where
  "cacheDigestTest cd key = test_bits (dmask cd) (cacheDigestHashKey cd key)"

text \<open>The bits that are off are turned on and counted.\<close>

fun set_bits :: "8 word list \<Rightarrow> nat list \<Rightarrow> nat \<Rightarrow> (8 word list \<times> nat) option" where
  "set_bits m [] n = Some (m, n)"
| "set_bits m (b # bs) n = do {
     t \<leftarrow> CBIT_TEST m b;
     if t then set_bits m bs n
     else do { m' \<leftarrow> CBIT_SET m b; set_bits m' bs (n + 1) }
   }"

definition cacheDigestAdd :: "CacheDigest \<Rightarrow> string \<Rightarrow> (CacheDigest \<times> nat) option" where
  "cacheDigestAdd cd key = do {
     (m, n) \<leftarrow> set_bits (dmask cd) (cacheDigestHashKey cd key) 0;
     Some (cd\<lparr>dmask := m, dcount := dcount cd + 1\<rparr>, n)
   }"

definition cacheDigestDel :: "CacheDigest \<Rightarrow> string \<Rightarrow> CacheDigest" where
  "cacheDigestDel cd key = cd\<lparr>del_count := del_count cd + 1\<rparr>"

text \<open>
  The loop of \<^verbatim>\<open>cacheDigestStats\<close> over the bits from the last to the first. The flag of the
  current sequence starts with 1.
\<close>

fun stats_loop :: "8 word list \<Rightarrow> nat \<Rightarrow> nat \<Rightarrow> nat \<Rightarrow> nat \<Rightarrow> nat \<Rightarrow> bool \<Rightarrow> (nat \<times> nat \<times> nat) option" where
  "stats_loop m 0 on ssum scnt clen ctype = Some (on, ssum, scnt)"
| "stats_loop m (Suc pos) on ssum scnt clen ctype = do {
     is_on \<leftarrow> CBIT_TEST m pos;
     let on' = (if is_on then on + 1 else on);
     if is_on \<noteq> ctype \<or> pos = 0
     then stats_loop m pos on' (ssum + clen) (scnt + 1) 1 is_on
     else stats_loop m pos on' ssum scnt (clen + 1) ctype
   }"

definition cacheDigestStats :: "CacheDigest \<Rightarrow> CacheDigestStats option" where
  "cacheDigestStats cd = do {
     (on, ssum, scnt) \<leftarrow> stats_loop (dmask cd) (mask_size cd * 8) 0 0 0 0 True;
     Some \<lparr>bit_count = mask_size cd * 8, bit_on_count = on, bseq_len_sum = ssum, bseq_count = scnt\<rparr>
   }"

definition cacheDigestGuessStatsUpdate :: "cd_guess_stats \<Rightarrow> bool \<Rightarrow> bool \<Rightarrow> cd_guess_stats" where
  "cacheDigestGuessStatsUpdate stats real_hit guess_hit =
     (if real_hit
      then (if guess_hit then stats\<lparr>true_hits := true_hits stats + 1\<rparr>
            else stats\<lparr>false_misses := false_misses stats + 1\<rparr>)
      else (if guess_hit then stats\<lparr>false_hits := false_hits stats + 1\<rparr>
            else stats\<lparr>true_misses := true_misses stats + 1\<rparr>))"

section \<open>Bits\<close>

definition bit_on :: "8 word list \<Rightarrow> nat \<Rightarrow> bool" where
  "bit_on m b \<longleftrightarrow> bit (m ! (b div 8)) (b mod 8)"

lemma and_CBIT_iff: "w AND CBIT_BIT b \<noteq> 0 \<longleftrightarrow> bit w (b mod 8)"
  by (simp add: CBIT_BIT_def bit_iff_and_push_bit_not_eq_0)

lemma CBIT_TEST_ok: "b < length m * 8 \<Longrightarrow> CBIT_TEST m b = Some (bit_on m b)"
  by (simp add: CBIT_TEST_def bit_on_def and_CBIT_iff less_mult_imp_div_less)

lemma CBIT_SET_ok:
  assumes "b < length m * 8"
  shows "\<exists>m'. CBIT_SET m b = Some m' \<and> length m' = length m \<and> (\<forall>x. bit_on m' x \<longleftrightarrow> x = b \<or> bit_on m x)"
proof -
  let ?m = "m[b div 8 := m ! (b div 8) OR CBIT_BIT b]"
  have len: "b div 8 < length m" using assms by (simp add: less_mult_imp_div_less)
  have bb: "bit (CBIT_BIT b) i \<longleftrightarrow> i = b mod 8" for i by (auto simp: CBIT_BIT_def bit_exp_iff)
  have "bit_on ?m x \<longleftrightarrow> x = b \<or> bit_on m x" for x
  proof (cases "x div 8 = b div 8")
    case True
    then have "x mod 8 = b mod 8 \<longleftrightarrow> x = b" by (metis div_mult_mod_eq)
    then show ?thesis using True len by (auto simp: bit_on_def bit_or_iff bb)
  next
    case False
    then show ?thesis by (auto simp: bit_on_def)
  qed
  with len show ?thesis by (simp add: CBIT_SET_def)
qed

lemma test_bits_ok: "\<forall>b\<in>set bs. b < length m * 8 \<Longrightarrow> test_bits m bs = Some (\<forall>b\<in>set bs. bit_on m b)"
  by (induction bs) (auto simp: CBIT_TEST_ok)

lemma set_bits_ok:
  "\<forall>b\<in>set bs. b < length m * 8 \<Longrightarrow>
     \<exists>m' k. set_bits m bs n = Some (m', n + k) \<and> length m' = length m \<and>
       (\<forall>x. bit_on m' x \<longleftrightarrow> x \<in> set bs \<or> bit_on m x) \<and> k = card {b \<in> set bs. \<not> bit_on m b}"
proof (induction bs arbitrary: m n)
  case (Cons b bs)
  show ?case
  proof (cases "bit_on m b")
    case True
    with Cons.IH [of m n] Cons.prems obtain m' where
      "set_bits m bs n = Some (m', n + card {b \<in> set bs. \<not> bit_on m b})" "length m' = length m"
      "\<forall>x. bit_on m' x \<longleftrightarrow> x \<in> set bs \<or> bit_on m x" by auto
    moreover have "{x \<in> set (b # bs). \<not> bit_on m x} = {b \<in> set bs. \<not> bit_on m b}" using True by auto
    ultimately show ?thesis using True Cons.prems by (auto simp: CBIT_TEST_ok)
  next
    case False
    obtain m1 where m1: "CBIT_SET m b = Some m1" "length m1 = length m" "\<forall>x. bit_on m1 x \<longleftrightarrow> x = b \<or> bit_on m x"
      using CBIT_SET_ok [of b m] Cons.prems by auto
    with Cons.IH [of m1 "n + 1"] Cons.prems obtain m' where
      m': "set_bits m1 bs (n + 1) = Some (m', n + 1 + card {b \<in> set bs. \<not> bit_on m1 b})" "length m' = length m1"
      "\<forall>x. bit_on m' x \<longleftrightarrow> x \<in> set bs \<or> bit_on m1 x" by auto
    have "{x \<in> set (b # bs). \<not> bit_on m x} = insert b {x \<in> set bs. \<not> bit_on m1 x}" using False m1(3) by auto
    then have "card {x \<in> set (b # bs). \<not> bit_on m x} = Suc (card {x \<in> set bs. \<not> bit_on m1 x})"
      using m1(3) by simp
    with False m1 m' Cons.prems show ?thesis by (auto simp: CBIT_TEST_ok)
  qed
qed simp

section \<open>Well-formed digests\<close>

definition cd_ok :: "CacheDigest \<Rightarrow> bool" where
  "cd_ok cd \<longleftrightarrow> length (dmask cd) = mask_size cd \<and> 0 < mask_size cd"

lemma hash_bound: "cd_ok cd \<Longrightarrow> \<forall>b\<in>set (cacheDigestHashKey cd key). b < length (dmask cd) * 8"
  by (auto simp: cd_ok_def cacheDigestHashKey_def)

lemma cacheDigestTest_ok:
  "cd_ok cd \<Longrightarrow> cacheDigestTest cd key = Some (\<forall>b\<in>set (cacheDigestHashKey cd key). bit_on (dmask cd) b)"
  using test_bits_ok [OF hash_bound] by (simp add: cacheDigestTest_def)

lemma cacheDigestTest_cong:
  "dmask c = dmask d \<Longrightarrow> mask_size c = mask_size d \<Longrightarrow> cacheDigestTest c k = cacheDigestTest d k"
  by (simp add: cacheDigestTest_def cacheDigestHashKey_def)

lemma cacheDigestAdd_ok:
  assumes "cd_ok cd"
  shows "\<exists>cd' n. cacheDigestAdd cd key = Some (cd', n) \<and> cd_ok cd' \<and> mask_size cd' = mask_size cd \<and>
     (\<forall>x. bit_on (dmask cd') x \<longleftrightarrow> x \<in> set (cacheDigestHashKey cd key) \<or> bit_on (dmask cd) x) \<and>
     dcount cd' = dcount cd + 1 \<and> n \<le> 4 \<and> (n = 0 \<longleftrightarrow> cacheDigestTest cd key = Some True)"
proof -
  let ?bs = "cacheDigestHashKey cd key"
  from set_bits_ok [OF hash_bound [OF assms], of key 0] obtain m k where
    s: "set_bits (dmask cd) ?bs 0 = Some (m, k)" "length m = length (dmask cd)"
    "\<forall>x. bit_on m x \<longleftrightarrow> x \<in> set ?bs \<or> bit_on (dmask cd) x" "k = card {b \<in> set ?bs. \<not> bit_on (dmask cd) b}" by auto
  have "k \<le> card (set ?bs)" unfolding s(4) by (intro card_mono) auto
  also have "\<dots> \<le> length ?bs" by (rule card_length)
  finally have k: "k \<le> 4" by (simp add: cacheDigestHashKey_def)
  have "k = 0 \<longleftrightarrow> (\<forall>b\<in>set ?bs. bit_on (dmask cd) b)" unfolding s(4) by (auto simp: card_eq_0_iff)
  then show ?thesis
    using s k assms cacheDigestTest_ok [OF assms, of key]
    by (auto simp: cacheDigestAdd_def cd_ok_def)
qed

lemma cacheDigestCreate_ok:
  assumes "0 < cap" "0 < bpe" "cap * bpe + 7 < 2147483648"
  shows "\<exists>cd. cacheDigestCreate cap bpe = Inr cd \<and> cd_ok cd \<and> (\<forall>x < mask_size cd * 8. \<not> bit_on (dmask cd) x) \<and>
     capacity cd = cap \<and> bits_per_entry cd = bpe \<and> mask_size cd = cacheDigestCalcMaskSize cap bpe \<and> cap * bpe \<le> mask_size cd * 8"
proof -
  let ?m = "cacheDigestCalcMaskSize cap bpe"
  have "0 < cap * bpe" using assms by simp
  then have m: "0 < ?m" "cap * bpe \<le> ?m * 8" unfolding cacheDigestCalcMaskSize_def by presburger+
  then show ?thesis
    using assms by (auto simp: cacheDigestCreate_def cacheDigestInit_def Let_def cd_ok_def bit_on_def less_mult_imp_div_less)
qed

section \<open>The interface of an approximate set\<close>

locale approximate_set =
  fixes ok :: "'d \<Rightarrow> bool"
    and member :: "'d \<Rightarrow> 'k \<Rightarrow> bool"
    and add :: "'d \<Rightarrow> 'k \<Rightarrow> 'd option"
  assumes add_member: "ok d \<Longrightarrow> \<exists>d'. add d k = Some d' \<and> ok d' \<and> member d' k \<and> (\<forall>x. member d x \<longrightarrow> member d' x)"
begin

lemma no_false_negative:
  "ok d \<Longrightarrow> \<exists>d'. foldM (\<lambda>k d. add d k) ks d = Some d' \<and> ok d' \<and>
     (\<forall>k\<in>set ks. member d' k) \<and> (\<forall>x. member d x \<longrightarrow> member d' x)"
proof (induction ks arbitrary: d)
  case (Cons k ks)
  from add_member [OF Cons.prems, of k] obtain d1 where
    d1: "add d k = Some d1" "ok d1" "member d1 k" "\<forall>x. member d x \<longrightarrow> member d1 x" by blast
  from Cons.IH [OF d1(2)] obtain d' where
    "foldM (\<lambda>k d. add d k) ks d1 = Some d'" "ok d'" "\<forall>k\<in>set ks. member d' k" "\<forall>x. member d1 x \<longrightarrow> member d' x" by blast
  with d1 show ?case by auto
qed simp

end

definition digest_add :: "CacheDigest \<Rightarrow> string \<Rightarrow> CacheDigest option" where
  "digest_add cd key = map_option fst (cacheDigestAdd cd key)"

interpretation digest: approximate_set cd_ok "\<lambda>cd key. cacheDigestTest cd key = Some True" digest_add
proof unfold_locales
  fix cd key assume ok: "cd_ok cd"
  from cacheDigestAdd_ok [OF ok, of key] obtain cd' n where a: "cacheDigestAdd cd key = Some (cd', n)"
    "cd_ok cd'" "mask_size cd' = mask_size cd"
    "\<forall>x. bit_on (dmask cd') x \<longleftrightarrow> x \<in> set (cacheDigestHashKey cd key) \<or> bit_on (dmask cd) x" by blast
  have h: "cacheDigestHashKey cd' k = cacheDigestHashKey cd k" for k using a(3) by (simp add: cacheDigestHashKey_def)
  have "cacheDigestTest cd' key = Some True" "\<forall>x. cacheDigestTest cd x = Some True \<longrightarrow> cacheDigestTest cd' x = Some True"
    using cacheDigestTest_ok [OF a(2)] cacheDigestTest_ok [OF ok] a(4) h by auto
  with a show "\<exists>d'. digest_add cd key = Some d' \<and> cd_ok d' \<and> cacheDigestTest d' key = Some True \<and>
      (\<forall>x. cacheDigestTest cd x = Some True \<longrightarrow> cacheDigestTest d' x = Some True)"
    by (simp add: digest_add_def)
qed

section \<open>Statistics\<close>

lemma card_less_Suc: "card {b. b < Suc p \<and> P b} = card {b. b < p \<and> P b} + (if P p then 1 else 0)"
proof -
  have "{b. b < Suc p \<and> P b} = (if P p then insert p {b. b < p \<and> P b} else {b. b < p \<and> P b})"
    by (auto simp: less_Suc_eq)
  then show ?thesis by simp
qed

lemma stats_loop_ok:
  "pos \<le> length m * 8 \<Longrightarrow> \<exists>c. stats_loop m pos on ssum scnt clen ctype =
     Some (on + card {b. b < pos \<and> bit_on m b}, (if pos = 0 then ssum else ssum + clen + pos - 1), c)"
proof (induction pos arbitrary: on ssum scnt clen ctype)
  case (Suc pos)
  have t: "CBIT_TEST m pos = Some (bit_on m pos)" using Suc.prems by (intro CBIT_TEST_ok) simp
  let ?on = "if bit_on m pos then on + 1 else on"
  have on: "?on + card {b. b < pos \<and> bit_on m b} = on + card {b. b < Suc pos \<and> bit_on m b}"
    by (simp add: card_less_Suc)
  show ?case
  proof (cases "bit_on m pos \<noteq> ctype \<or> pos = 0")
    case True
    obtain c where "stats_loop m pos ?on (ssum + clen) (scnt + 1) 1 (bit_on m pos) =
        Some (?on + card {b. b < pos \<and> bit_on m b}, (if pos = 0 then ssum + clen else ssum + clen + 1 + pos - 1), c)"
      using Suc.IH [of ?on "ssum + clen" "scnt + 1" 1 "bit_on m pos"] Suc.prems by auto
    then show ?thesis unfolding on using t True by (auto simp: Let_def)
  next
    case False
    obtain c where "stats_loop m pos ?on ssum scnt (clen + 1) ctype =
        Some (?on + card {b. b < pos \<and> bit_on m b}, (if pos = 0 then ssum else ssum + (clen + 1) + pos - 1), c)"
      using Suc.IH [of ?on ssum scnt "clen + 1" ctype] Suc.prems by auto
    then show ?thesis unfolding on using t False by (auto simp: Let_def)
  qed
qed simp

section \<open>Properties\<close>

text \<open>
  C35. A digest has no false negatives: after any sequence of additions to a well-formed
  digest (all of which succeed without leaving the mask), the test of every added key, and of
  every key that tested positive before, is positive. Deletion attempts change no answer.
\<close>

theorem digest_no_false_negatives:
  assumes "cd_ok cd"
  shows "\<exists>cd'. foldM (\<lambda>k d. digest_add d k) ks cd = Some cd' \<and> cd_ok cd' \<and>
     (\<forall>k\<in>set ks. cacheDigestTest cd' k = Some True) \<and>
     (\<forall>k. cacheDigestTest cd k = Some True \<longrightarrow> cacheDigestTest cd' k = Some True) \<and>
     (\<forall>k x. cacheDigestTest (cacheDigestDel cd' x) k = cacheDigestTest cd' k)"
proof -
  have "cacheDigestTest (cacheDigestDel d x) k = cacheDigestTest d k" for d x k
    by (simp add: cacheDigestTest_def cacheDigestDel_def cacheDigestHashKey_def)
  with digest.no_false_negative [OF assms, of ks] show ?thesis by blast
qed

lemma demo_digest: "\<exists>cd. cacheDigestCreate 100 5 = Inr cd \<and> cd_ok cd"
  using cacheDigestCreate_ok [of 100 5] by auto

theorem digest_no_false_negatives_witness:
  "\<exists>cd cd'. cacheDigestCreate 100 5 = Inr cd \<and> foldM (\<lambda>k d. digest_add d k) [replicate 16 (CHR ''x'')] cd = Some cd' \<and>
     (\<forall>k\<in>set [replicate 16 (CHR ''x'')]. cacheDigestTest cd' k = Some True)"
  using demo_digest digest_no_false_negatives [of _ "[replicate 16 (CHR ''x'')]"] by blast

text \<open>
  Creation, clearing and cloning: a digest is created, without overflow, with at least
  the requested number of bits, a fresh or cleared digest contains no key, and a clone of a
  digest with the size its capacity asks for answers every test alike.
\<close>

theorem digest_create_clear_clone:
  assumes "0 < cap" "0 < bpe" "cap * bpe + 7 < 2147483648"
  shows "\<exists>cd. cacheDigestCreate cap bpe = Inr cd \<and> cap * bpe \<le> 8 * mask_size cd \<and>
     (\<forall>k. cacheDigestTest cd k = Some False) \<and>
     (\<forall>cd'. cd_ok cd' \<and> capacity cd' = cap \<and> bits_per_entry cd' = bpe \<and> mask_size cd' = mask_size cd \<longrightarrow>
        (\<forall>k. cacheDigestTest (cacheDigestClear cd') k = Some False) \<and>
        (\<exists>c. cacheDigestClone cd' = Inr c \<and> dcount c = dcount cd' \<and>
           (\<forall>k. cacheDigestTest c k = cacheDigestTest cd' k)))"
proof -
  obtain cd where cd: "cacheDigestCreate cap bpe = Inr cd" "cd_ok cd" "\<forall>x < mask_size cd * 8. \<not> bit_on (dmask cd) x"
    "cap * bpe \<le> mask_size cd * 8" using cacheDigestCreate_ok [OF assms] by blast
  have empty: "cacheDigestTest d k = Some False" if "cd_ok d" "\<forall>x < mask_size d * 8. \<not> bit_on (dmask d) x" for d k
  proof -
    have "\<exists>b\<in>set (cacheDigestHashKey d k). \<not> bit_on (dmask d) b"
      using hash_bound [OF that(1), of k] that by (auto simp: cacheDigestHashKey_def cd_ok_def)
    then show ?thesis using cacheDigestTest_ok [OF that(1), of k] by auto
  qed
  have clear: "cacheDigestTest (cacheDigestClear d) k = Some False" if "cd_ok d" for d k
    using that by (intro empty) (auto simp: cacheDigestClear_def cd_ok_def bit_on_def less_mult_imp_div_less)
  have clone: "\<exists>c. cacheDigestClone d = Inr c \<and> dcount c = dcount d \<and> (\<forall>k. cacheDigestTest c k = cacheDigestTest d k)"
    if "capacity d = cap" "bits_per_entry d = bpe" "mask_size d = mask_size cd" for d
  proof -
    let ?c = "cd\<lparr>dcount := dcount d, del_count := del_count d, dmask := dmask d\<rparr>"
    have "cacheDigestClone d = Inr ?c" using that cd(1) by (simp add: cacheDigestClone_def)
    moreover have "cacheDigestTest ?c k = cacheDigestTest d k" for k
      using that(3) by (intro cacheDigestTest_cong) simp_all
    ultimately show ?thesis by auto
  qed
  show ?thesis using cd empty [OF cd(2,3)] clear clone by (intro exI [of _ cd]) (simp add: mult.commute)
qed

theorem digest_create_clear_clone_witness:
  "\<exists>cd. cacheDigestCreate 100 5 = Inr cd \<and> 100 * 5 \<le> 8 * mask_size cd \<and> (\<forall>k. cacheDigestTest cd k = Some False)"
  using digest_create_clear_clone [of 100 5] by auto

text \<open>
  The statistics of a mask: the count of bits that are on is exact, but the sum of the
  lengths of the bit sequences is always one less than the number of bits, since the length
  of the last sequence is added before its last bit is counted.
\<close>

theorem digest_stats:
  assumes "cd_ok cd"
  shows "\<exists>st. cacheDigestStats cd = Some st \<and> bit_count st = 8 * mask_size cd \<and>
     bit_on_count st = card {b. b < 8 * mask_size cd \<and> bit_on (dmask cd) b} \<and>
     bseq_len_sum st = bit_count st - 1"
proof -
  have "mask_size cd * 8 \<le> length (dmask cd) * 8" "mask_size cd * 8 \<noteq> 0" using assms by (simp_all add: cd_ok_def)
  with stats_loop_ok [of "mask_size cd * 8" "dmask cd" 0 0 0 0 True] obtain c where
    "stats_loop (dmask cd) (mask_size cd * 8) 0 0 0 0 True =
       Some (card {b. b < mask_size cd * 8 \<and> bit_on (dmask cd) b}, mask_size cd * 8 - 1, c)" by auto
  then show ?thesis by (simp add: cacheDigestStats_def mult.commute)
qed

theorem digest_stats_witness:
  "\<exists>cd st. cacheDigestStats cd = Some st \<and> bit_count st = 8 * mask_size cd \<and>
     bit_on_count st = card {b. b < 8 * mask_size cd \<and> bit_on (dmask cd) b} \<and> bseq_len_sum st = bit_count st - 1"
  using digest_stats demo_digest by blast

end
