(* ===== verification/Arrays.thy ===== *)
theory Arrays
  imports Prelude
begin

text \<open>
  The growing arrays of pointers of \<^verbatim>\<open>lib/Array.c\<close> and the stacks of \<^verbatim>\<open>lib/Stack.c\<close>, which are
  arrays used from their end (\<^verbatim>\<open>stackPush\<close> is \<^verbatim>\<open>arrayAppend\<close>).

  A slot of the array is an option, \<^term>\<open>None\<close> being the null pointer. The list \<open>aitems\<close> has
  one slot per allocated pointer; it is empty when the C pointer \<^verbatim>\<open>items\<close> is null. The
  operations are compared with those on lists through \<open>holds\<close>, and the locale \<open>stack\<close> states
  what the users of stacks rely on.
\<close>

section \<open>The operations\<close>

record 'a Array =
  capacity :: nat
  acount :: nat
  aitems :: "'a option list"

definition arrayInit :: "'a Array" where
  "arrayInit = \<lparr>capacity = 0, acount = 0, aitems = []\<rparr>"

definition arrayCreate :: "'a Array" where
  "arrayCreate = arrayInit"

text \<open>\<^verbatim>\<open>arrayClean\<close> frees the slots and leaves the counters as they are.\<close>

definition arrayClean :: "'a Array \<Rightarrow> 'a Array" where
  "arrayClean a = a\<lparr>aitems := []\<rparr>"

text \<open>
  The new capacity is the old one plus the required one rounded up to 16; the slots from the
  count on are cleared. An array that was cleaned but still counts elements would get
  uninitialised slots for them: a fault of the model.
\<close>

definition arrayGrow :: "'a Array \<Rightarrow> nat \<Rightarrow> 'a Array res" where
  "arrayGrow a min_capacity =
     (if \<not> capacity a < min_capacity then Inl AssertFailed
      else let delta = (min_capacity + 15) div 16 * 16;
               cap = capacity a + delta
           in if aitems a = [] \<and> acount a > 0 then Inl Undefined
              else Inr (a\<lparr>capacity := cap,
                     aitems := take (acount a) (aitems a) @ replicate (cap - acount a) None\<rparr>))"

definition arrayAppend :: "'a Array \<Rightarrow> 'a option \<Rightarrow> 'a Array res" where
  "arrayAppend a obj =
     res_bind (if acount a \<ge> capacity a then arrayGrow a (acount a + 1) else Inr a)
       (\<lambda>a. if acount a < length (aitems a)
             then Inr (a\<lparr>aitems := (aitems a)[acount a := obj], acount := acount a + 1\<rparr>)
             else Inl OutOfBounds)"

text \<open>The \<^verbatim>\<open>memmove\<close> of the slots from the position on by one slot, then the store.\<close>

definition arrayInsert :: "'a Array \<Rightarrow> 'a option \<Rightarrow> int \<Rightarrow> 'a Array res" where
  "arrayInsert a obj position =
     res_bind (if acount a \<ge> capacity a then arrayGrow a (acount a + 1) else Inr a)
       (\<lambda>a. let p = (if position > int (acount a) then int (acount a) else position)
             in if p < 0 \<or> \<not> acount a < length (aitems a) then Inl OutOfBounds
                else let n = nat p;
                         moved = take n (aitems a) @ [aitems a ! n] @ take (acount a - n) (drop n (aitems a)) @
                           drop (acount a + 1) (aitems a)
                     in Inr (a\<lparr>aitems := moved[n := obj], acount := acount a + 1\<rparr>))"

definition arrayPreAppend :: "'a Array \<Rightarrow> nat \<Rightarrow> 'a Array res" where
  "arrayPreAppend a app_count =
     (if acount a + app_count > capacity a then arrayGrow a (acount a + app_count) else Inr a)"

definition arrayShrink :: "'a Array \<Rightarrow> int \<Rightarrow> 'a Array res" where
  "arrayShrink a new_count =
     (if new_count \<le> int (capacity a) \<and> new_count \<ge> 0 then Inr (a\<lparr>acount := nat new_count\<rparr>)
      else Inl AssertFailed)"

text \<open>A null pointer is returned for an empty stack as well as for a null element.\<close>

definition stackPop :: "'a Array \<Rightarrow> ('a Array \<times> 'a option) res" where
  "stackPop s =
     (if acount s = 0 then Inr (s, None)
      else if acount s \<le> length (aitems s)
      then Inr (s\<lparr>acount := acount s - 1\<rparr>, aitems s ! (acount s - 1))
      else Inl OutOfBounds)"

definition stackTop :: "'a Array \<Rightarrow> 'a option res" where
  "stackTop s =
     (if acount s = 0 then Inr None
      else if acount s \<le> length (aitems s) then Inr (aitems s ! (acount s - 1))
      else Inl OutOfBounds)"

section \<open>Arrays represent lists\<close>

definition holds :: "'a Array \<Rightarrow> 'a list \<Rightarrow> bool" where
  "holds a xs \<longleftrightarrow> acount a = length xs \<and> length (aitems a) = capacity a \<and> acount a \<le> capacity a \<and>
     take (acount a) (aitems a) = map Some xs"

lemma holds_init: "holds arrayInit []"
  by (simp add: holds_def arrayInit_def)

lemma holds_count: "holds a xs \<Longrightarrow> acount a = length xs"
  by (simp add: holds_def)

lemma holds_nth: "holds a xs \<Longrightarrow> i < length xs \<Longrightarrow> i < length (aitems a) \<and> aitems a ! i = Some (xs ! i)"
  unfolding holds_def by (metis length_take min.absorb2 nth_map nth_take order_less_le_trans)

lemma holds_unique: "holds a xs \<Longrightarrow> holds a ys \<Longrightarrow> xs = ys"
  unfolding holds_def by (metis map_injective inj_Some)

text \<open>Growing keeps the elements and gives the capacity asked for.\<close>

lemma arrayGrow_holds:
  assumes "holds a xs" "capacity a < n"
  shows "\<exists>a'. arrayGrow a n = Inr a' \<and> holds a' xs \<and> n \<le> capacity a'"
proof -
  have "n \<le> (n + 15) div 16 * 16" by presburger
  moreover have "aitems a = [] \<Longrightarrow> acount a = 0" using assms(1) by (auto simp: holds_def)
  ultimately show ?thesis
    using assms by (auto simp: arrayGrow_def holds_def Let_def)
qed

lemma room_holds:
  assumes "holds a xs"
  shows "\<exists>a'. (if acount a \<ge> capacity a then arrayGrow a (acount a + 1) else Inr a) = Inr a' \<and>
    holds a' xs \<and> length xs < capacity a'"
  using arrayGrow_holds [OF assms, of "acount a + 1"] assms holds_count [OF assms]
  by (auto simp: Suc_le_eq)

lemma arrayAppend_holds:
  assumes "holds a xs"
  shows "\<exists>a'. arrayAppend a (Some x) = Inr a' \<and> holds a' (xs @ [x])"
proof -
  obtain a1 where a1: "(if acount a \<ge> capacity a then arrayGrow a (acount a + 1) else Inr a) = Inr a1"
    "holds a1 xs" "length xs < capacity a1" using room_holds [OF assms] by blast
  then have "holds (a1\<lparr>aitems := (aitems a1)[acount a1 := Some x], acount := acount a1 + 1\<rparr>) (xs @ [x])"
    by (auto simp: holds_def take_Suc_conv_app_nth)
  with a1 show ?thesis by (auto simp: arrayAppend_def holds_def)
qed

lemma arrayInsert_holds:
  assumes "holds a xs" "0 \<le> i"
  shows "\<exists>a'. arrayInsert a (Some x) i = Inr a' \<and> holds a' (take (nat i) xs @ x # drop (nat i) xs)"
proof -
  obtain a1 where a1: "(if acount a \<ge> capacity a then arrayGrow a (acount a + 1) else Inr a) = Inr a1"
    "holds a1 xs" "length xs < capacity a1" using room_holds [OF assms(1)] by blast
  define n where "n = min (nat i) (length xs)"
  have c: "acount a1 = length xs" "length (aitems a1) = capacity a1" "take (length xs) (aitems a1) = map Some xs"
    using a1(2) by (auto simp: holds_def)
  have n: "n \<le> length xs" "take (nat i) xs = take n xs" "drop (nat i) xs = drop n xs"
    by (auto simp: n_def min_def)
  have d: "take (length xs - n) (drop n (aitems a1)) = map Some (drop n xs)"
    using c(3) by (metis drop_map drop_take)
  have t: "take n (aitems a1) = map Some (take n xs)"
    using c(3) n(1) by (metis min.absorb1 take_map take_take)
  let ?m = "take n (aitems a1) @ [aitems a1 ! n] @ take (length xs - n) (drop n (aitems a1)) @
    drop (length xs + 1) (aitems a1)"
  have m: "?m[n := Some x] = map Some (take n xs @ x # drop n xs) @ drop (length xs + 1) (aitems a1)"
    using n(1) a1(3) c(2) by (simp add: d t list_update_append)
  have e: "arrayInsert a (Some x) i = Inr (a1\<lparr>aitems := ?m[n := Some x], acount := acount a1 + 1\<rparr>)"
  proof (cases "i > int (length xs)")
    case True
    then have "n = length xs" by (simp add: n_def)
    with True show ?thesis using a1(3) c by (simp add: arrayInsert_def a1(1) Let_def)
  next
    case False
    then have "n = nat i" using assms(2) by (simp add: n_def)
    with False show ?thesis using a1(3) assms(2) c by (simp add: arrayInsert_def a1(1) Let_def)
  qed
  have "holds (a1\<lparr>aitems := ?m[n := Some x], acount := acount a1 + 1\<rparr>) (take n xs @ x # drop n xs)"
    using a1(3) c(1,2) n(1) unfolding m by (simp add: holds_def Suc_diff_le)
  with e n show ?thesis by auto
qed

lemma arrayPreAppend_holds:
  "holds a xs \<Longrightarrow> \<exists>a'. arrayPreAppend a n = Inr a' \<and> holds a' xs"
  using arrayGrow_holds [of a xs "acount a + n"] by (auto simp: arrayPreAppend_def)

lemma arrayShrink_holds:
  assumes "holds a xs" "0 \<le> n" "n \<le> int (length xs)"
  shows "\<exists>a'. arrayShrink a n = Inr a' \<and> holds a' (take (nat n) xs)"
proof -
  have "take (nat n) (aitems a) = map Some (take (nat n) xs)"
    using assms unfolding holds_def by (metis min.absorb1 nat_le_iff take_map take_take)
  then show ?thesis using assms by (auto simp: arrayShrink_def holds_def min_def)
qed

lemma stackPop_holds:
  assumes "holds a (xs @ [x])"
  shows "\<exists>a'. stackPop a = Inr (a', Some x) \<and> holds a' xs"
  using assms holds_nth [OF assms, of "length xs"] by (auto simp: stackPop_def holds_def take_Suc_conv_app_nth)

lemma stackTop_holds:
  "holds a (xs @ [x]) \<Longrightarrow> stackTop a = Inr (Some x)"
  using holds_nth [of a "xs @ [x]" "length xs"] by (auto simp: stackTop_def holds_def)

lemma stack_empty:
  "holds a [] \<Longrightarrow> stackPop a = Inr (a, None)" "holds a [] \<Longrightarrow> stackTop a = Inr None"
  by (simp_all add: stackPop_def stackTop_def holds_def)

section \<open>The interface of stacks\<close>

text \<open>
  What the users of a stack rely on, for a relation between stacks and the lists of their
  elements, bottom first. The client lemmas are the two loops the code runs over stacks:
  pushing a sequence and popping until the stack is empty.
\<close>

locale stack =
  fixes repr :: "'s \<Rightarrow> 'a list \<Rightarrow> bool"
    and empty :: 's
    and push :: "'s \<Rightarrow> 'a \<Rightarrow> 's res"
    and pop :: "'s \<Rightarrow> ('s \<times> 'a option) res"
    and top_elem :: "'s \<Rightarrow> 'a option res"
  assumes empty_repr: "repr empty []"
    and push_repr: "repr s xs \<Longrightarrow> \<exists>s'. push s x = Inr s' \<and> repr s' (xs @ [x])"
    and pop_repr: "repr s (xs @ [x]) \<Longrightarrow> \<exists>s'. pop s = Inr (s', Some x) \<and> repr s' xs"
    and pop_empty: "repr s [] \<Longrightarrow> pop s = Inr (s, None)"
    and top_repr: "repr s (xs @ [x]) \<Longrightarrow> top_elem s = Inr (Some x)"
    and top_empty: "repr s [] \<Longrightarrow> top_elem s = Inr None"
begin

fun push_all :: "'s \<Rightarrow> 'a list \<Rightarrow> 's res" where
  "push_all s [] = Inr s"
| "push_all s (x # xs) = res_bind (push s x) (\<lambda>s'. push_all s' xs)"

lemma push_all_repr: "repr s ys \<Longrightarrow> \<exists>s'. push_all s xs = Inr s' \<and> repr s' (ys @ xs)"
proof (induction xs arbitrary: s ys)
  case (Cons x xs)
  obtain s1 where s1: "push s x = Inr s1" "repr s1 (ys @ [x])" using push_repr [OF Cons.prems] by blast
  from Cons.IH [OF s1(2)] s1(1) show ?case by auto
qed simp

lemma top_pop:
  assumes "repr s xs"
  shows "\<exists>t s'. top_elem s = Inr t \<and> pop s = Inr (s', t) \<and> repr s' (butlast xs) \<and> (t = None \<longleftrightarrow> xs = [])"
proof (cases xs rule: rev_cases)
  case Nil
  then show ?thesis using assms pop_empty top_empty by auto
next
  case (snoc ys y)
  then show ?thesis using assms pop_repr [of s ys y] top_repr [of s ys y] by auto
qed

end

interpretation arr: stack holds arrayInit "\<lambda>s x. arrayAppend s (Some x)" stackPop stackTop
  by unfold_locales
    (auto simp: holds_init stack_empty stackTop_holds intro: arrayAppend_holds stackPop_holds)

section \<open>Properties\<close>

text \<open>
  An array of pointers refines a list: on an array that holds the elements \<open>xs\<close>,
  appending, inserting at a position (which is cut to the count), reserving room, shrinking
  and popping succeed and give arrays that hold what the list operations give; no slot
  outside the allocated ones is touched.
\<close>

theorem array_refines_list:
  assumes "holds a xs" "0 \<le> i"
  shows "(\<exists>a'. arrayAppend a (Some x) = Inr a' \<and> holds a' (xs @ [x])) \<and>
    (\<exists>a'. arrayInsert a (Some x) i = Inr a' \<and> holds a' (take (nat i) xs @ x # drop (nat i) xs)) \<and>
    (\<exists>a'. arrayPreAppend a n = Inr a' \<and> holds a' xs) \<and>
    (\<exists>a'. arrayShrink a (min i (int (length xs))) = Inr a' \<and> holds a' (take (nat i) xs)) \<and>
    (\<exists>a' t. stackTop a = Inr t \<and> stackPop a = Inr (a', t) \<and> holds a' (butlast xs) \<and> (t = None \<longleftrightarrow> xs = []))"
proof (intro conjI)
  have "nat (min i (int (length xs))) = min (nat i) (length xs)" using assms(2) by auto
  then have "take (nat (min i (int (length xs)))) xs = take (nat i) xs" by (simp add: min_def)
  with arrayShrink_holds [OF assms(1), of "min i (int (length xs))"] assms(2)
  show "\<exists>a'. arrayShrink a (min i (int (length xs))) = Inr a' \<and> holds a' (take (nat i) xs)" by auto
  show "\<exists>a' t. stackTop a = Inr t \<and> stackPop a = Inr (a', t) \<and> holds a' (butlast xs) \<and> (t = None \<longleftrightarrow> xs = [])"
    using arr.top_pop [OF assms(1)] by blast
qed (rule arrayAppend_holds [OF assms(1)] arrayInsert_holds [OF assms] arrayPreAppend_holds [OF assms(1)])+

theorem array_refines_list_witness:
  "\<exists>a a'. arrayAppend arrayInit (Some (7 :: int)) = Inr a \<and> holds a [7] \<and>
     arrayInsert a (Some 3) 0 = Inr a' \<and> holds a' [3, 7]"
proof -
  obtain a where a: "arrayAppend arrayInit (Some (7 :: int)) = Inr a" "holds a [7]"
    using array_refines_list [OF holds_init, of 0 "7 :: int"] by auto
  with array_refines_list [OF a(2), of 0 "3 :: int"] show ?thesis by auto
qed

end
