(* ===== verification/Squid_String.thy ===== *)
theory Squid_String
  imports Prelude
begin

text \<open>
  The counted strings of \<^verbatim>\<open>src/String.c\<close>. A string has the size of its buffer and its length as
  \<^verbatim>\<open>unsigned short\<close> and a pointer to the buffer. Of the buffer, the model keeps the bytes that have
  been written, up to the terminator; a write beyond its size is \<^const>\<open>OutOfBounds\<close>. The operations are
  compared with those on lists of characters through \<open>string_holds\<close>: \<open>str_append\<close> is what the other
  components use.
\<close>

section \<open>The operations\<close>

record squid_string =
  s_size :: nat
  s_len :: nat
  s_buf :: "string option"

definition StringNull :: squid_string where
  "StringNull = \<lparr>s_size = 0, s_len = 0, s_buf = None\<rparr>"

text \<open>The size of the buffer that \<^verbatim>\<open>memAllocString\<close> returns: that of the smallest pool that is large enough.\<close>

definition memAllocString :: "nat \<Rightarrow> nat" where
  "memAllocString net_size = (if net_size \<le> 36 then 36 else if net_size \<le> 128 then 128 else if net_size \<le> 512 then 512 else net_size)"

text \<open>The size of the new buffer.\<close>

definition stringInitBuf :: "nat \<Rightarrow> nat res" where
  "stringInitBuf sz = (let gross = memAllocString sz in res_bind (c_assert (gross < 65536)) (\<lambda>_. Inr gross))"

definition stringLimitInit :: "string \<Rightarrow> nat \<Rightarrow> squid_string res" where
  "stringLimitInit str len =
     res_bind (stringInitBuf (len + 1)) (\<lambda>size.
       Inr \<lparr>s_size = size, s_len = len mod 65536, s_buf = Some (take len str @ [NUL])\<rparr>)"

definition stringInit :: "string option \<Rightarrow> squid_string res" where
  "stringInit str = (case str of None \<Rightarrow> Inr StringNull | Some s \<Rightarrow> stringLimitInit s (length s))"

definition stringDup :: "squid_string \<Rightarrow> squid_string res" where
  "stringDup s = stringInit (map_option cstr (s_buf s))"

definition stringClean :: "squid_string \<Rightarrow> squid_string" where
  "stringClean s = StringNull"

definition stringReset :: "squid_string \<Rightarrow> string option \<Rightarrow> squid_string res" where
  "stringReset s str = stringInit str"

text \<open>
  \<^verbatim>\<open>stringAppend\<close>: in place if there is room, with \<^verbatim>\<open>strncat\<close>, otherwise in a new buffer. The new length is
  stored in an \<^verbatim>\<open>unsigned short\<close> before the new buffer is allocated with that length.
\<close>

definition stringAppend :: "squid_string \<Rightarrow> string \<Rightarrow> nat \<Rightarrow> squid_string res" where
  "stringAppend s str len =
     (if s_len s + len < s_size s
      then Inr (s\<lparr>s_buf := map_option (\<lambda>b. cstr b @ cstr (take len str) @ [NUL]) (s_buf s), s_len := s_len s + len\<rparr>)
      else let n = (s_len s + len) mod 65536
           in res_bind (stringInitBuf (n + 1)) (\<lambda>size.
                if s_buf s \<noteq> None \<and> size < s_len s \<or> len \<noteq> 0 \<and> size < s_len s + len then Inl OutOfBounds
                else let b = (case s_buf s of None \<Rightarrow> [] | Some b \<Rightarrow> take (s_len s) b) @ take len str
                     in Inr \<lparr>s_size = size, s_len = n, s_buf = Some (take n b @ [NUL])\<rparr>))"

section \<open>Strings as lists\<close>

text \<open>The string holds the characters \<open>v\<close>.\<close>

definition string_holds :: "squid_string \<Rightarrow> string \<Rightarrow> bool" where
  "string_holds s v \<longleftrightarrow>
     NUL \<notin> set v \<and> (s = StringNull \<and> v = [] \<or> s_buf s = Some (v @ [NUL]) \<and> s_len s = length v \<and> length v < s_size s \<and> s_size s < 65536)"

definition str_limit :: nat where
  "str_limit = 65535"

text \<open>What an operation does that makes a string of the characters \<open>v\<close>.\<close>

definition str_make :: "string \<Rightarrow> string res" where
  "str_make v = (if length v < str_limit then Inr v else Inl AssertFailed)"

definition str_append :: "string \<Rightarrow> string \<Rightarrow> string res" where
  "str_append v t =
     (if length v + length t < str_limit then Inr (v @ t)
      else if (length v + length t) mod 65536 = str_limit then Inl AssertFailed else Inl OutOfBounds)"

text \<open>The concrete operation \<open>m\<close> does what the operation \<open>a\<close> on lists does.\<close>

definition string_refines :: "squid_string res \<Rightarrow> string res \<Rightarrow> bool" where
  "string_refines m a \<longleftrightarrow>
     (case (m, a) of (Inl f, Inl g) \<Rightarrow> f = g | (Inr s, Inr v) \<Rightarrow> string_holds s v \<and> s_buf s \<noteq> None | _ \<Rightarrow> False)"

lemma string_refines_iff:
  "string_refines m (Inr v) \<longleftrightarrow> (\<exists>s. m = Inr s \<and> string_holds s v \<and> s_buf s \<noteq> None)"
  "string_refines m (Inl f) \<longleftrightarrow> m = Inl f"
  by (cases m; auto simp: string_refines_def)+

lemma memAllocString_ge: "n \<le> memAllocString n"
  by (simp add: memAllocString_def)

lemma stringInitBuf_eq: "stringInitBuf n = (if n < 65536 then Inr (memAllocString n) else Inl AssertFailed)"
  by (auto simp: stringInitBuf_def memAllocString_def Let_def c_assert_def)

lemma memAllocString_less: "n < 65536 \<Longrightarrow> memAllocString n < 65536"
  by (simp add: memAllocString_def)

lemma stringLimitInit_refines:
  assumes "NUL \<notin> set (take n v)" "n \<le> length v"
  shows "string_refines (stringLimitInit v n) (str_make (take n v))"
proof (cases "n < str_limit")
  case True
  hence "string_holds \<lparr>s_size = memAllocString (n + 1), s_len = n, s_buf = Some (take n v @ [NUL])\<rparr> (take n v)"
    using assms memAllocString_ge [of "n + 1"] memAllocString_less [of "n + 1"] by (simp add: string_holds_def str_limit_def)
  thus ?thesis using True assms(2) by (simp add: stringLimitInit_def stringInitBuf_eq str_make_def str_limit_def string_refines_iff)
next
  case False
  thus ?thesis using assms(2) by (simp add: stringLimitInit_def stringInitBuf_eq str_make_def str_limit_def string_refines_iff)
qed

lemma stringDup_holds:
  assumes "string_holds s v" "s \<noteq> StringNull"
  shows "\<exists>d. stringDup s = Inr d \<and> string_holds d v"
proof -
  have b: "s_buf s = Some (v @ [NUL])" "NUL \<notin> set v" "length v < str_limit" using assms by (auto simp: string_holds_def str_limit_def)
  have "string_refines (stringLimitInit v (length v)) (Inr v)"
    using stringLimitInit_refines [of "length v" v] b(2,3) by (simp add: str_make_def)
  thus ?thesis using b by (auto simp: stringDup_def stringInit_def cstr_append_NUL string_refines_iff)
qed

text \<open>Both branches of \<^const>\<open>stringAppend\<close>.\<close>

lemma append_in_place:
  assumes "string_holds s v" "NUL \<notin> set t" "length v + length t < s_size s"
  shows "string_refines (stringAppend s t (length t)) (str_append v t)"
proof -
  have s: "s_buf s = Some (v @ [NUL])" "s_len s = length v" "s_size s < 65536" "NUL \<notin> set v"
    using assms(1,3) by (auto simp: string_holds_def StringNull_def)
  have "stringAppend s t (length t) = Inr (s\<lparr>s_buf := Some (v @ t @ [NUL]), s_len := length v + length t\<rparr>)"
    using s assms(2,3) by (simp add: stringAppend_def cstr_append_NUL cstr_id)
  moreover have "string_holds (s\<lparr>s_buf := Some (v @ t @ [NUL]), s_len := length v + length t\<rparr>) (v @ t)"
    using s assms(2,3) by (simp add: string_holds_def)
  ultimately show ?thesis using s(3) assms(3) by (simp add: str_append_def str_limit_def string_refines_iff)
qed

lemma append_moves:
  assumes "string_holds s v" "NUL \<notin> set t" "\<not> length v + length t < s_size s"
  shows "string_refines (stringAppend s t (length t)) (str_append v t)"
proof -
  let ?l = "length v + length t" let ?n = "(length v + length t) mod 65536"
  have len: "s_len s = length v" and v: "NUL \<notin> set v" "length v < 65536" using assms(1) by (auto simp: string_holds_def StringNull_def)
  have b: "(case s_buf s of None \<Rightarrow> [] | Some b \<Rightarrow> take (length v) b) = v" using assms(1) by (auto simp: string_holds_def StringNull_def)
  have eq: "stringAppend s t (length t) = res_bind (stringInitBuf (?n + 1)) (\<lambda>size.
      if s_buf s \<noteq> None \<and> size < length v \<or> length t \<noteq> 0 \<and> size < ?l then Inl OutOfBounds
      else Inr \<lparr>s_size = size, s_len = ?n, s_buf = Some (take ?n (v @ t) @ [NUL])\<rparr>)"
    unfolding stringAppend_def len if_not_P [OF assms(3)] Let_def b take_all [OF order_refl] by (rule refl)
  have "?l = 65535 \<Longrightarrow> ?n = 65535" by simp
  then consider "?l < str_limit" | "?l \<ge> str_limit" "?n = str_limit" | "?l \<ge> 65536" "?n \<noteq> str_limit"
    unfolding str_limit_def by linarith
  thus ?thesis
  proof cases
    case 1
    hence l: "?n = ?l" "?l + 1 < 65536" by (simp_all add: str_limit_def)
    have "?l < memAllocString (?l + 1)" using memAllocString_ge [of "?l + 1"] by simp
    hence "stringAppend s t (length t) = Inr \<lparr>s_size = memAllocString (?l + 1), s_len = ?l, s_buf = Some (v @ t @ [NUL])\<rparr>"
      unfolding eq l(1) stringInitBuf_eq using l(2) by simp
    moreover have "string_holds \<lparr>s_size = memAllocString (?l + 1), s_len = ?l, s_buf = Some (v @ t @ [NUL])\<rparr> (v @ t)"
      using v assms(2) \<open>?l < memAllocString (?l + 1)\<close> memAllocString_less [OF l(2)] by (simp add: string_holds_def)
    ultimately show ?thesis using 1 by (simp add: str_append_def string_refines_iff)
  next
    case 2
    thus ?thesis unfolding eq by (simp add: stringInitBuf_eq str_append_def str_limit_def string_refines_iff)
  next
    case 3
    hence n: "?n + 1 < 65536" "length t \<noteq> 0" using v(2) mod_less_divisor [of 65536 ?l] by (auto simp: str_limit_def)
    hence "memAllocString (?n + 1) < ?l" using memAllocString_less [of "?n + 1"] 3(1) by linarith
    thus ?thesis using 3 n unfolding eq by (simp add: stringInitBuf_eq str_append_def str_limit_def string_refines_iff)
  qed
qed

section \<open>Properties\<close>

text \<open>
  C14. Appending to a string: as long as fewer than 65535 characters result, \<^const>\<open>stringAppend\<close> makes the string of
  both parts, in place or in a new buffer. Beyond that the length wraps around: the assertion fails if
  the wrapped length is 65535, and otherwise the copy is written behind the end of a buffer that was
  allocated for the wrapped length.
\<close>

theorem stringAppend_refines_append:
  assumes "string_holds s v" "NUL \<notin> set t"
  shows "string_refines (stringAppend s t (length t)) (str_append v t)"
  using append_in_place [OF assms] append_moves [OF assms] by blast

theorem stringAppend_refines_append_witness:
  "string_refines (stringAppend \<lparr>s_size = 36, s_len = 3, s_buf = Some (''abc'' @ [NUL])\<rparr> ''de'' 2) (Inr ''abcde'')"
  using stringAppend_refines_append [of "\<lparr>s_size = 36, s_len = 3, s_buf = Some (''abc'' @ [NUL])\<rparr>" "''abc''" "''de''"]
  by (simp add: string_holds_def str_append_def str_limit_def numeral_2_eq_2)

end
