(* ===== verification/Header_Tools.thy ===== *)
theory Header_Tools
  imports Squid_String
begin

text \<open>
  Parsing helpers of \<^verbatim>\<open>src/HttpHeaderTools.c\<close>: numbers (\<^verbatim>\<open>httpHeaderParseInt\<close>,
  \<^verbatim>\<open>httpHeaderParseSize\<close>) and lists of items in a header value (\<^verbatim>\<open>strListGetItem\<close> and its
  users), and the decimal output of \<^verbatim>\<open>printf\<close> that inverts them.

  A \<^verbatim>\<open>const char *\<close> into a string is the suffix of the string it points to, without the
  terminator; the null character is what stands behind the suffix.
\<close>

section \<open>Numbers\<close>

text \<open>
  \<^verbatim>\<open>strtoll\<close> in base 10: \<^term>\<open>None\<close> when no digit is found (the end pointer is the start),
  otherwise the value, which may be outside \<^verbatim>\<open>int64_t\<close> (then \<^verbatim>\<open>errno\<close> is set).
\<close>

definition strtoll :: "string \<Rightarrow> int option" where
  "strtoll s =
     (let s1 = dropWhile isspace_c s;
          neg = (s1 \<noteq> [] \<and> hd s1 = CHR ''-'');
          s2 = (if s1 \<noteq> [] \<and> (hd s1 = CHR ''-'' \<or> hd s1 = CHR ''+'') then tl s1 else s1);
          ds = takeWhile isdigit_c s2
      in if ds = [] then None else Some (if neg then - int (digits_val ds) else int (digits_val ds)))"

text \<open>\<^verbatim>\<open>atoi\<close>, as \<^verbatim>\<open>strtol\<close> with saturation and a conversion to \<^verbatim>\<open>int\<close>.\<close>

definition atoi :: "string \<Rightarrow> int" where
  "atoi s = (case strtoll s of
     None \<Rightarrow> 0
   | Some v \<Rightarrow> trunc32 (max (- 9223372036854775808) (min 9223372036854775807 v)))"

definition int64_ok :: "int \<Rightarrow> bool" where
  "int64_ok v \<longleftrightarrow> - 9223372036854775808 \<le> v \<and> v \<le> 9223372036854775807"

definition int32_ok :: "int \<Rightarrow> bool" where
  "int32_ok v \<longleftrightarrow> - 2147483648 \<le> v \<and> v \<le> 2147483647"

text \<open>
  Both functions return the success flag and the value stored through the pointer: on failure
  it is \<^term>\<open>- 1 :: int\<close>. The value of \<^verbatim>\<open>strtol\<close> must survive the conversion to \<^verbatim>\<open>int\<close>.
\<close>

definition httpHeaderParseInt :: "string \<Rightarrow> bool \<times> int" where
  "httpHeaderParseInt start =
     (case strtoll start of
        None \<Rightarrow> (False, - 1)
      | Some v \<Rightarrow> if \<not> int64_ok v \<or> \<not> int32_ok v then (False, - 1) else (True, v))"

definition httpHeaderParseSize :: "string \<Rightarrow> bool \<times> int" where
  "httpHeaderParseSize start =
     (case strtoll start of
        None \<Rightarrow> (False, - 1)
      | Some v \<Rightarrow> if \<not> int64_ok v then (False, - 1) else (True, v))"

text \<open>Signed 64-bit arithmetic: a result that does not fit is undefined.\<close>

definition off_t :: "int \<Rightarrow> int res" where
  "off_t v = (if int64_ok v then Inr v else Inl Undefined)"

section \<open>Decimal output\<close>

definition digit_char :: "nat \<Rightarrow> char" where
  "digit_char d = char_of (48 + d)"

fun show_nat :: "nat \<Rightarrow> string" where
  "show_nat n = (if n < 10 then [digit_char n] else show_nat (n div 10) @ [digit_char (n mod 10)])"

declare show_nat.simps [simp del]

text \<open>\<^verbatim>\<open>printf\<close> with \<^verbatim>\<open>%lld\<close> or \<^verbatim>\<open>%ld\<close>.\<close>

definition show_int :: "int \<Rightarrow> string" where
  "show_int i = (if i < 0 then CHR ''-'' # show_nat (nat (- i)) else show_nat (nat i))"

lemma of_char_digit [simp]: "d < 10 \<Longrightarrow> (of_char (digit_char d) :: nat) = 48 + d"
  by (simp add: digit_char_def)

lemma isdigit_digit_char [simp]: "d < 10 \<Longrightarrow> isdigit_c (digit_char d)"
  by (simp add: isdigit_c_def)

lemma show_nat_digits: "\<forall>c\<in>set (show_nat n). isdigit_c c"
proof (induction n rule: show_nat.induct)
  case (1 n)
  then show ?case by (subst show_nat.simps) auto
qed

lemma show_nat_not_Nil [simp]: "show_nat n \<noteq> []"
  by (subst show_nat.simps) simp

lemma digits_val_show_nat [simp]: "digits_val (show_nat n) = n"
proof (induction n rule: show_nat.induct)
  case (1 n)
  show ?case
  proof (cases "n < 10")
    case True
    then show ?thesis by (subst show_nat.simps) (simp add: digits_val_def)
  next
    case False
    then show ?thesis using 1 by (subst show_nat.simps) (simp add: digits_val_snoc)
  qed
qed

lemma hd_digit:
  assumes "isdigit_c c"
  shows "\<not> isspace_c c" "c \<noteq> CHR ''-''" "c \<noteq> CHR ''+''" "c \<noteq> CHR ''*''" "c \<noteq> CHR '',''" "c \<noteq> CHR 0x22" "c \<noteq> CHR ''/''"
  using assms by (auto simp: isdigit_c_def isspace_c_def)

lemma takeWhile_show_nat:
  assumes "t = [] \<or> \<not> isdigit_c (hd t)"
  shows "takeWhile isdigit_c (show_nat n @ t) = show_nat n"
proof -
  have "takeWhile isdigit_c (show_nat n @ t) = show_nat n @ takeWhile isdigit_c t"
    using show_nat_digits [of n] by (intro takeWhile_append2) blast
  moreover have "takeWhile isdigit_c t = []" using assms by (cases t) auto
  ultimately show ?thesis by simp
qed

text \<open>Reading what was printed gives the number back, whatever follows it.\<close>

lemma strtoll_show_nat:
  assumes "t = [] \<or> \<not> isdigit_c (hd t)"
  shows "strtoll (show_nat n @ t) = Some (int n)"
proof -
  obtain c cs where c: "show_nat n = c # cs" by (cases "show_nat n") auto
  then have "isdigit_c c" using show_nat_digits [of n] by simp
  then have "dropWhile isspace_c (show_nat n @ t) = show_nat n @ t" "hd (show_nat n @ t) \<noteq> CHR ''-''"
    "hd (show_nat n @ t) \<noteq> CHR ''+''" using hd_digit by (auto simp: c)
  then show ?thesis using takeWhile_show_nat [OF assms, of n] by (simp add: strtoll_def Let_def)
qed

lemma parseSize_show_int:
  assumes "0 \<le> i" "int64_ok i" "t = [] \<or> \<not> isdigit_c (hd t)"
  shows "httpHeaderParseSize (show_int i @ t) = (True, i)"
  using assms by (simp add: httpHeaderParseSize_def show_int_def strtoll_show_nat)

section \<open>Lists of items\<close>

text \<open>
  The loop that looks for the end of an item: outside quotes for a quote, the delimiter or a
  comma, inside quotes for a quote or a backslash, which hides the character behind it.
\<close>

definition item_stop :: "char \<Rightarrow> bool \<Rightarrow> char \<Rightarrow> bool" where
  "item_stop del quoted c \<longleftrightarrow>
     (if quoted then c = CHR 0x22 \<or> c = CHR 0x5C else c = CHR 0x22 \<or> c = del \<or> c = CHR '','')"

function item_end :: "char \<Rightarrow> bool \<Rightarrow> string \<Rightarrow> string" where
  "item_end del quoted s =
     (case dropWhile (\<lambda>c. \<not> item_stop del quoted c) s of
        [] \<Rightarrow> []
      | c # r \<Rightarrow>
          if c = CHR 0x22 then item_end del (\<not> quoted) r
          else if quoted \<and> c = CHR 0x5C then item_end del quoted (drop 1 r)
          else c # r)"
  by pat_completeness auto

lemma dropWhile_Cons_length: "dropWhile P s = c # r \<Longrightarrow> length r < length s"
  using length_dropWhile_le [of P s] by simp

termination item_end
proof (relation "measure (\<lambda>(del, quoted, s). length s)", goal_cases)
  case (2 del quoted s c r)
  then show ?case using dropWhile_Cons_length [of _ s c r] by simp
next
  case (3 del quoted s c r)
  then show ?case using dropWhile_Cons_length [of _ s c r] by fastforce
qed simp

declare item_end.simps [simp del]

lemma item_end_suffix: "suffix (item_end del quoted s) s"
proof (induction del quoted s rule: item_end.induct)
  case (1 del quoted s)
  have d: "suffix (dropWhile (\<lambda>c. \<not> item_stop del quoted c) s) s" by (rule suffix_dropWhile)
  show ?case
  proof (cases "dropWhile (\<lambda>c. \<not> item_stop del quoted c) s")
    case Nil
    then have "item_end del quoted s = []" by (simp only: item_end.simps [of del quoted s] list.case)
    then show ?thesis by simp
  next
    case (Cons c r)
    have r: "suffix r s" using d Cons suffix_ConsD by metis
    then have r': "suffix (drop 1 r) s" by (metis suffix_drop suffix_order.trans)
    have q: "suffix (item_end del (\<not> quoted) r) s" if "c = CHR 0x22"
      using 1(1) [OF Cons that] r by (rule suffix_order.trans)
    have b: "suffix (item_end del quoted (drop 1 r)) s" if "c \<noteq> CHR 0x22" "quoted \<and> c = CHR 0x5C"
      using 1(2) [OF Cons that] r' by (rule suffix_order.trans)
    show ?thesis by (subst item_end.simps) (use d q b in \<open>simp add: Cons\<close>)
  qed
qed

text \<open>
  The next item from a position on: the item as a pointer with its length, and the new
  position. \<^term>\<open>None\<close> is the result 0: nothing but white space and delimiters is left, or an
  item of length 0 is found.
\<close>

definition rtrim :: "string \<Rightarrow> string" where
  "rtrim s = rev (dropWhile isspace_c (rev s))"

definition item_sep :: "char \<Rightarrow> char \<Rightarrow> bool" where
  "item_sep del c \<longleftrightarrow> c = CHR '' '' \<or> c = del \<or> c = CHR '','' \<or> c = CHR 0x09 \<or> c = CHR 0x0D \<or> c = CHR 0x0A"

definition strListGetItem :: "char \<Rightarrow> string \<Rightarrow> (string \<times> nat \<times> string) option" where
  "strListGetItem del pos =
     (let item = dropWhile (item_sep del) pos;
          pos' = item_end del False item;
          len = length (rtrim (take (length item - length pos') item))
      in if len > 0 then Some (item, len, pos') else None)"

lemma length_rtrim: "length (rtrim s) \<le> length s"
  by (simp add: rtrim_def) (metis length_dropWhile_le length_rev)

lemma strListGetItem_shorter:
  assumes "strListGetItem del pos = Some (item, len, pos')"
  shows "length pos' < length pos"
proof -
  let ?item = "dropWhile (item_sep del) pos"
  have "0 < length (rtrim (take (length ?item - length pos') ?item))" "pos' = item_end del False ?item"
    using assms by (auto simp: strListGetItem_def Let_def split: if_splits)
  then have "0 < length ?item - length pos'"
    using length_rtrim [of "take (length ?item - length pos') ?item"] unfolding length_take by linarith
  then have "length pos' < length ?item" by simp
  then show ?thesis using length_dropWhile_le [of "item_sep del" pos]
    by simp
qed

text \<open>All items of a list, as the callers visit them.\<close>

function list_items :: "char \<Rightarrow> string \<Rightarrow> (string \<times> nat) list" where
  "list_items del pos =
     (case strListGetItem del pos of
        None \<Rightarrow> []
      | Some (item, len, pos') \<Rightarrow> (item, len) # list_items del pos')"
  by pat_completeness auto

termination list_items
  by (relation "measure (\<lambda>(del, pos). length pos)") (auto dest: strListGetItem_shorter)

declare list_items.simps [simp del]

lemma list_items_step:
  "strListGetItem del pos = None \<Longrightarrow> list_items del pos = []"
  "strListGetItem del pos = Some (item, len, pos') \<Longrightarrow> list_items del pos = (item, len) # list_items del pos'"
  by (subst list_items.simps; simp)+

lemma strListGetItem_Nil [simp]: "strListGetItem del [] = None"
  by (simp add: strListGetItem_def item_end.simps rtrim_def)

text \<open>\<^verbatim>\<open>strncasecmp (a, b, n) == 0\<close> on strings.\<close>

definition strncaseeq :: "string \<Rightarrow> string \<Rightarrow> nat \<Rightarrow> bool" where
  "strncaseeq a b n \<longleftrightarrow> map toupper (take n a) = map toupper (take n b)"

definition strListIsMember :: "string \<Rightarrow> string \<Rightarrow> char \<Rightarrow> bool" where
  "strListIsMember list m del =
     (\<exists>(item, ilen) \<in> set (list_items del list). length m = ilen \<and> strncaseeq item m ilen)"

definition strListAdd :: "string \<Rightarrow> string \<Rightarrow> char \<Rightarrow> string res" where
  "strListAdd str item del =
     res_bind (if str \<noteq> [] then str_append str [del, CHR '' ''] else Inr str) (\<lambda>s. str_append s item)"

definition strListAddUnique :: "string \<Rightarrow> string \<Rightarrow> char \<Rightarrow> string res" where
  "strListAddUnique str item del = (if \<not> strListIsMember str item del then strListAdd str item del else Inr str)"

definition strIsSubstr :: "string \<Rightarrow> string \<Rightarrow> nat" where
  "strIsSubstr list s =
     (case strstr list s of
        None \<Rightarrow> 0
      | Some p \<Rightarrow> if strstr (drop (p + 1) list) s \<noteq> None then 2 else 1)"

section \<open>Plain items\<close>

text \<open>
  A plain item has none of the characters the scanner treats specially and no white space at
  its ends. A list that is put together from plain items with commas is taken apart again.
\<close>

definition plain :: "char \<Rightarrow> string \<Rightarrow> bool" where
  "plain del s \<longleftrightarrow> s \<noteq> [] \<and> (\<forall>c\<in>set s. c \<noteq> CHR 0x22 \<and> c \<noteq> del \<and> c \<noteq> CHR '','') \<and>
     \<not> isspace_c (hd s) \<and> \<not> isspace_c (last s)"

lemma item_end_plain:
  assumes "plain del s" "t = [] \<or> hd t = del \<or> hd t = CHR '',''" "del \<noteq> CHR 0x22"
  shows "item_end del False (s @ t) = t"
proof -
  have "\<forall>c\<in>set s. \<not> item_stop del False c" using assms(1) by (simp add: plain_def item_stop_def)
  then have "dropWhile (\<lambda>c. \<not> item_stop del False c) (s @ t) = dropWhile (\<lambda>c. \<not> item_stop del False c) t"
    by (intro dropWhile_append2) blast
  also have "\<dots> = t" using assms(2) by (cases t) (auto simp: item_stop_def)
  finally have "item_end del False (s @ t) = (case t of [] \<Rightarrow> [] | c # r \<Rightarrow>
      if c = CHR 0x22 then item_end del (\<not> False) r
      else if False \<and> c = CHR 0x5C then item_end del False (drop 1 r) else c # r)"
    by (simp only: item_end.simps [of del False "s @ t"])
  then show ?thesis using assms(2,3) by (cases t) auto
qed

lemma rtrim_plain: "plain del s \<Longrightarrow> rtrim s = s"
  by (cases s rule: rev_cases) (auto simp: plain_def rtrim_def)

lemma strListGetItem_plain:
  assumes "plain del s" "t = [] \<or> hd t = del \<or> hd t = CHR '',''" "del \<noteq> CHR 0x22"
    and "\<forall>c\<in>set ws. item_sep del c"
  shows "strListGetItem del (ws @ s @ t) = Some (s @ t, length s, t)"
proof -
  obtain c r where s: "s = c # r" using assms(1) by (cases s) (auto simp: plain_def)
  have "\<not> isspace_c c" "c \<noteq> del" "c \<noteq> CHR '',''" using assms(1) by (auto simp: plain_def s)
  then have "\<not> item_sep del c" by (auto simp: isspace_c_def item_sep_def)
  then have "dropWhile (item_sep del) (ws @ s @ t) = s @ t"
    using assms(4) by (subst dropWhile_append2) (auto simp: s)
  then show ?thesis
    using item_end_plain [OF assms(1-3)] rtrim_plain [OF assms(1)] s by (simp add: strListGetItem_def Let_def)
qed

end
