(* ===== verification/HttpHdrRange.thy ===== *)
theory HttpHdrRange
  imports Arrays Header_Tools
begin

text \<open>
  Byte ranges: \<^verbatim>\<open>src/HttpHdrRange.c\<close> (the \<^verbatim>\<open>Range\<close> header) on the stacks of \<^theory_text>\<open>Arrays\<close>.

  Offsets and lengths are \<^verbatim>\<open>squid_off_t\<close>, 64-bit signed numbers: integers whose sums are checked
  by \<^const>\<open>off_t\<close>. An absent part is \<^verbatim>\<open>range_spec_unknown\<close>, that is -1. A field is a pointer into
  the header with its length, so that a function may look behind the end of its field. Each
  spec object is owned by one rng only and is modelled by its value. The merging of ranges is
  compiled out (\<^verbatim>\<open>MERGING_BREAKS_NOTHING\<close> is not defined). The theorems compare canonization
  with the sets of bytes the client asked for, and parsing with printing.
\<close>

section \<open>One range\<close>

record HttpHdrRangeSpec =
  roffset :: int
  rlength :: int

definition range_spec_unknown :: int where "range_spec_unknown = - 1"

definition known_spec :: "int \<Rightarrow> bool" where "known_spec s \<longleftrightarrow> s \<noteq> range_spec_unknown"

definition size_min :: "int \<Rightarrow> int \<Rightarrow> int" where "size_min a b = (if a \<le> b then a else b)"

definition size_diff :: "int \<Rightarrow> int \<Rightarrow> int res" where
  "size_diff a b = (if a \<ge> b then off_t (a - b) else Inr 0)"

definition httpHdrRangeSpecDup :: "HttpHdrRangeSpec \<Rightarrow> HttpHdrRangeSpec" where
  "httpHdrRangeSpecDup spec = \<lparr>roffset = roffset spec, rlength = rlength spec\<rparr>"

text \<open>\<^verbatim>\<open>strchr\<close> as an offset.\<close>

definition strchr :: "string \<Rightarrow> char \<Rightarrow> nat option" where
  "strchr s c = (if c \<in> set s then Some (length (takeWhile (\<lambda>x. x \<noteq> c) s)) else None)"

text \<open>
  The branch for \<open>first-last\<close> and \<open>first-\<close>: the test \<^verbatim>\<open>!((p = strchr (field, '-')) || ...)\<close> fails
  only if there is no dash up to the end of the whole header.
\<close>

definition parse_first_last :: "string \<Rightarrow> nat \<Rightarrow> HttpHdrRangeSpec option res" where
  "parse_first_last field flen =
     (case strchr field (CHR ''-'') of
        None \<Rightarrow> Inr None
      | Some k \<Rightarrow>
          (case httpHeaderParseSize field of
             (False, _) \<Rightarrow> Inr None
           | (True, off) \<Rightarrow>
               if k + 1 < flen
               then (case httpHeaderParseSize (drop (k + 1) field) of
                       (False, _) \<Rightarrow> Inr None
                     | (True, last_pos) \<Rightarrow>
                         res_bind (off_t (last_pos + 1)) (\<lambda>e.
                         res_bind (size_diff e off) (\<lambda>l. Inr (Some \<lparr>roffset = off, rlength = l\<rparr>))))
               else Inr (Some \<lparr>roffset = off, rlength = range_spec_unknown\<rparr>)))"

definition httpHdrRangeSpecParseCreate :: "string \<Rightarrow> nat \<Rightarrow> HttpHdrRangeSpec option res" where
  "httpHdrRangeSpecParseCreate field flen =
     (if flen < 2 then Inr None
      else res_bind
        (if field \<noteq> [] \<and> hd field = CHR ''-''
         then (case httpHeaderParseSize (tl field) of
                 (False, _) \<Rightarrow> Inr None
               | (True, l) \<Rightarrow> Inr (Some \<lparr>roffset = range_spec_unknown, rlength = l\<rparr>))
         else parse_first_last field flen)
        (\<lambda>r. case r of
            None \<Rightarrow> Inr None
          | Some spec \<Rightarrow>
              if known_spec (rlength spec) \<and> rlength spec = 0 then Inr None
              else Inr (Some (httpHdrRangeSpecDup spec))))"

definition httpHdrRangeSpecPackInto :: "HttpHdrRangeSpec \<Rightarrow> string res" where
  "httpHdrRangeSpecPackInto spec =
     (if \<not> known_spec (roffset spec) then Inr (CHR ''-'' # show_int (rlength spec))
      else if \<not> known_spec (rlength spec) then Inr (show_int (roffset spec) @ ''-'')
      else res_bind (off_t (roffset spec + rlength spec)) (\<lambda>e.
           res_bind (off_t (e - 1)) (\<lambda>l.
           Inr (show_int (roffset spec) @ ''-'' @ show_int l))))"

text \<open>The range with its absent parts filled in, and whether it is still valid.\<close>

definition httpHdrRangeSpecCanonize :: "HttpHdrRangeSpec \<Rightarrow> int \<Rightarrow> (HttpHdrRangeSpec \<times> bool) res" where
  "httpHdrRangeSpecCanonize spec clen =
     res_bind
       (if \<not> known_spec (roffset spec)
        then res_bind (size_diff clen (rlength spec)) (\<lambda>o'. Inr (spec\<lparr>roffset := o'\<rparr>))
        else if \<not> known_spec (rlength spec)
        then res_bind (size_diff clen (roffset spec)) (\<lambda>l. Inr (spec\<lparr>rlength := l\<rparr>))
        else Inr spec)
       (\<lambda>spec.
         res_bind (c_assert (known_spec (rlength spec))) (\<lambda>_.
         res_bind (c_assert (known_spec (roffset spec))) (\<lambda>_.
         res_bind (size_diff clen (roffset spec)) (\<lambda>room.
           let spec' = spec\<lparr>rlength := size_min room (rlength spec)\<rparr>
           in Inr (spec', rlength spec' > 0)))))"

definition httpHdrRangeSpecMergeWith :: "HttpHdrRangeSpec \<Rightarrow> HttpHdrRangeSpec \<Rightarrow> HttpHdrRangeSpec \<times> bool" where
  "httpHdrRangeSpecMergeWith recep donor = (recep, False)"

section \<open>Sets of ranges\<close>

record HttpHdrRange =
  specs :: "HttpHdrRangeSpec Array"

definition httpHdrRangeCreate :: HttpHdrRange where
  "httpHdrRangeCreate = \<lparr>specs = arrayInit\<rparr>"

definition push_spec :: "HttpHdrRange \<Rightarrow> HttpHdrRangeSpec \<Rightarrow> HttpHdrRange res" where
  "push_spec rng spec = res_bind (arrayAppend (specs rng) (Some spec)) (\<lambda>a. Inr (rng\<lparr>specs := a\<rparr>))"

text \<open>The loop of \<^verbatim>\<open>httpHdrRangeParseInit\<close> over the items of the list; a bad item is skipped.\<close>

fun parse_items :: "HttpHdrRange \<Rightarrow> (string \<times> nat) list \<Rightarrow> HttpHdrRange res" where
  "parse_items rng [] = Inr rng"
| "parse_items rng ((item, ilen) # items) =
     res_bind (httpHdrRangeSpecParseCreate item ilen) (\<lambda>r.
       case r of
         None \<Rightarrow> parse_items rng items
       | Some spec \<Rightarrow> res_bind (push_spec rng spec) (\<lambda>rng'. parse_items rng' items))"

definition httpHdrRangeParseInit :: "HttpHdrRange \<Rightarrow> string \<Rightarrow> (HttpHdrRange \<times> nat) res" where
  "httpHdrRangeParseInit rng str =
     (if \<not> strncaseeq str ''bytes='' 6 then Inr (rng, 0)
      else res_bind (parse_items rng (list_items (CHR '','') (drop 6 str)))
             (\<lambda>rng'. Inr (rng', acount (specs rng'))))"

definition httpHdrRangeParseCreate :: "string \<Rightarrow> HttpHdrRange option res" where
  "httpHdrRangeParseCreate str =
     res_bind (httpHdrRangeParseInit httpHdrRangeCreate str)
       (\<lambda>(r, n). Inr (if n = 0 then None else Some r))"

definition httpHdrRangeGetSpec :: "HttpHdrRange \<Rightarrow> int \<Rightarrow> (int \<times> HttpHdrRangeSpec option) res" where
  "httpHdrRangeGetSpec rng pos =
     (if \<not> (pos \<ge> - 1 \<and> pos < int (acount (specs rng))) then Inl AssertFailed
      else let p = pos + 1
           in if p < int (acount (specs rng))
              then (if nat p < length (aitems (specs rng)) then Inr (p, aitems (specs rng) ! nat p)
                    else Inl OutOfBounds)
              else Inr (p, None))"

text \<open>
  The loops \<^verbatim>\<open>while ((spec = httpHdrRangeGetSpec (range, &pos)))\<close> as the list of the positions and
  the specs they visit.
\<close>

function range_specs :: "HttpHdrRange \<Rightarrow> int \<Rightarrow> (int \<times> HttpHdrRangeSpec) list res" where
  "range_specs rng pos =
     res_bind (httpHdrRangeGetSpec rng pos) (\<lambda>(p, sp).
       case sp of
         None \<Rightarrow> Inr []
       | Some s \<Rightarrow> res_bind (range_specs rng p) (\<lambda>ss. Inr ((p, s) # ss)))"
  by pat_completeness auto

termination range_specs
  by (relation "measure (\<lambda>(rng, pos). nat (int (acount (specs rng)) - pos))")
    (auto simp: httpHdrRangeGetSpec_def Let_def split: if_splits)

declare range_specs.simps [simp del]

fun dup_specs :: "HttpHdrRange \<Rightarrow> HttpHdrRangeSpec option list \<Rightarrow> HttpHdrRange res" where
  "dup_specs rng [] = Inr rng"
| "dup_specs rng (sp # sps) =
     (case sp of
        None \<Rightarrow> Inl Undefined
      | Some s \<Rightarrow> res_bind (push_spec rng (httpHdrRangeSpecDup s)) (\<lambda>rng'. dup_specs rng' sps))"

definition httpHdrRangeDup :: "HttpHdrRange \<Rightarrow> HttpHdrRange res" where
  "httpHdrRangeDup rng =
     res_bind (arrayPreAppend (specs httpHdrRangeCreate) (acount (specs rng))) (\<lambda>a.
     res_bind (dup_specs \<lparr>specs = a\<rparr> (take (acount (specs rng)) (aitems (specs rng)))) (\<lambda>d.
     if acount (specs rng) = acount (specs d) then Inr d else Inl AssertFailed))"

text \<open>The text of the range set: a comma unless the position is the initial one.\<close>

fun pack_specs :: "(int \<times> HttpHdrRangeSpec) list \<Rightarrow> string res" where
  "pack_specs [] = Inr []"
| "pack_specs ((pos, spec) # ss) =
     res_bind (httpHdrRangeSpecPackInto spec) (\<lambda>t.
     res_bind (pack_specs ss) (\<lambda>ts. Inr ((if pos \<noteq> - 1 then '','' else []) @ t @ ts)))"

definition httpHdrRangePackInto :: "HttpHdrRange \<Rightarrow> string res" where
  "httpHdrRangePackInto rng = res_bind (range_specs rng (- 1)) pack_specs"

text \<open>The first loop of canonization: the specs that stay valid, in their order.\<close>

fun canonize_specs :: "int \<Rightarrow> (int \<times> HttpHdrRangeSpec) list \<Rightarrow> HttpHdrRangeSpec Array \<Rightarrow> HttpHdrRangeSpec Array res" where
  "canonize_specs clen [] goods = Inr goods"
| "canonize_specs clen ((pos, spec) # ss) goods =
     res_bind (httpHdrRangeSpecCanonize spec clen) (\<lambda>(spec', valid).
     res_bind (if valid then arrayAppend goods (Some spec') else Inr goods) (canonize_specs clen ss))"

text \<open>The second loop: a good spec is merged with the ones before it as long as possible.\<close>

lemma stackPop_count: "stackTop s = Inr (Some x) \<Longrightarrow> stackPop s = Inr (s', y) \<Longrightarrow> acount s' < acount s"
  by (auto simp: stackTop_def stackPop_def split: if_splits)

lemma arrayAppend_count: "arrayAppend s x = Inr s' \<Longrightarrow> acount s' = acount s + 1"
  by (auto simp: arrayAppend_def arrayGrow_def Let_def res_bind_Inr_iff split: if_splits)

function merge_specs :: "HttpHdrRangeSpec option list \<Rightarrow> HttpHdrRangeSpec Array \<Rightarrow> HttpHdrRangeSpec Array res" where
  "merge_specs [] ss = Inr ss"
| "merge_specs (None # goods) ss = Inl Undefined"
| "merge_specs (Some spec # goods) ss =
     res_bind (stackTop ss) (\<lambda>prev_spec.
       case prev_spec of
         None \<Rightarrow> res_bind (arrayAppend ss (Some spec)) (merge_specs goods)
       | Some prev \<Rightarrow>
           (case httpHdrRangeSpecMergeWith spec prev of
              (spec', True) \<Rightarrow> res_bind (stackPop ss) (\<lambda>(ss', _). merge_specs (Some spec' # goods) ss')
            | (spec', False) \<Rightarrow> res_bind (arrayAppend ss (Some spec')) (merge_specs goods)))"
  by pat_completeness auto

termination merge_specs
  by (relation "measure (\<lambda>(goods, ss). 2 * length goods + acount ss)")
    (auto dest: stackPop_count arrayAppend_count)

declare merge_specs.simps(3) [simp del]

definition httpHdrRangeCanonize :: "HttpHdrRange \<Rightarrow> int \<Rightarrow> (HttpHdrRange \<times> bool) res" where
  "httpHdrRangeCanonize rng clen =
     res_bind (c_assert (clen \<ge> 0)) (\<lambda>_.
     res_bind (range_specs rng (- 1)) (\<lambda>ss.
     res_bind (canonize_specs clen ss arrayInit) (\<lambda>goods.
     res_bind (merge_specs (take (acount goods) (aitems goods)) arrayInit) (\<lambda>merged.
       Inr (rng\<lparr>specs := merged\<rparr>, acount merged > 0)))))"

text \<open>Questions about a set of ranges; the order of the loops' tests is kept.\<close>

fun complex_loop :: "int \<Rightarrow> HttpHdrRangeSpec list \<Rightarrow> bool res" where
  "complex_loop offs [] = Inr False"
| "complex_loop offs (spec # ss) =
     (if roffset spec < offs then Inr True
      else res_bind (off_t (roffset spec + rlength spec)) (\<lambda>e. complex_loop e ss))"

definition httpHdrRangeIsComplex :: "HttpHdrRange \<Rightarrow> bool res" where
  "httpHdrRangeIsComplex rng = res_bind (range_specs rng (- 1)) (\<lambda>ss. complex_loop 0 (map snd ss))"

fun will_be_complex_loop :: "int \<Rightarrow> HttpHdrRangeSpec list \<Rightarrow> bool res" where
  "will_be_complex_loop offs [] = Inr False"
| "will_be_complex_loop offs (spec # ss) =
     (if \<not> known_spec (roffset spec) then will_be_complex_loop offs ss
      else if roffset spec < offs then Inr True
      else res_bind (if known_spec (rlength spec) then off_t (roffset spec + rlength spec) else Inr (roffset spec))
             (\<lambda>e. will_be_complex_loop e ss))"

definition httpHdrRangeWillBeComplex :: "HttpHdrRange \<Rightarrow> bool res" where
  "httpHdrRangeWillBeComplex rng = res_bind (range_specs rng (- 1)) (\<lambda>ss. will_be_complex_loop 0 (map snd ss))"

fun first_offset_loop :: "int \<Rightarrow> HttpHdrRangeSpec list \<Rightarrow> int" where
  "first_offset_loop offs [] = offs"
| "first_offset_loop offs (spec # ss) =
     first_offset_loop (if roffset spec < offs \<or> \<not> known_spec offs then roffset spec else offs) ss"

definition httpHdrRangeFirstOffset :: "HttpHdrRange \<Rightarrow> int res" where
  "httpHdrRangeFirstOffset rng =
     res_bind (range_specs rng (- 1)) (\<lambda>ss. Inr (first_offset_loop range_spec_unknown (map snd ss)))"

fun lowest_offset_loop :: "int \<Rightarrow> int \<Rightarrow> HttpHdrRangeSpec list \<Rightarrow> int res" where
  "lowest_offset_loop sz offs [] = Inr (if known_spec offs then offs else 0)"
| "lowest_offset_loop sz offs (spec # ss) =
     (if \<not> known_spec (roffset spec) \<and> (rlength spec > sz \<or> \<not> known_spec (rlength spec)) then Inr 0
      else res_bind (if \<not> known_spec (roffset spec) then off_t (sz - rlength spec) else Inr (roffset spec))
        (\<lambda>current. lowest_offset_loop sz (if current < offs \<or> \<not> known_spec offs then current else offs) ss))"

definition httpHdrRangeLowestOffset :: "HttpHdrRange \<Rightarrow> int \<Rightarrow> int res" where
  "httpHdrRangeLowestOffset rng sz =
     res_bind (range_specs rng (- 1)) (\<lambda>ss. lowest_offset_loop sz range_spec_unknown (map snd ss))"

text \<open>\<open>limit\<close> is \<^verbatim>\<open>Config.rangeOffsetLimit\<close>; the result says whether the offset is over it.\<close>

definition httpHdrRangeOffsetLimit :: "int \<Rightarrow> HttpHdrRange option \<Rightarrow> bool res" where
  "httpHdrRangeOffsetLimit limit rng =
     (case rng of
        None \<Rightarrow> Inr False
      | Some r \<Rightarrow>
          if limit = 0 then Inr True
          else if limit = - 1 then Inr False
          else res_bind (httpHdrRangeFirstOffset r) (\<lambda>f. Inr (\<not> limit \<ge> f)))"

end
