(* ===== verification/Range_Correct.thy ===== *)
theory Range_Correct
  imports HttpHdrRange
begin

text \<open>
  The byte ranges of \<^theory_text>\<open>HttpHdrRange\<close>: canonization selects the bytes the client asked for,
  printing and parsing are inverse, and what happens to a suffix range of length -1.
\<close>

section \<open>Walking over a range set\<close>

abbreviation holds_specs :: "HttpHdrRange \<Rightarrow> HttpHdrRangeSpec list \<Rightarrow> bool" where
  "holds_specs r ss \<equiv> holds (specs r) ss"

lemma range_specs_from:
  assumes "holds_specs r ss" "i \<le> length ss"
  shows "range_specs r (int i - 1) = Inr (map (\<lambda>j. (int j, ss ! j)) [i..<length ss])"
  using assms(2)
proof (induction "length ss - i" arbitrary: i)
  case 0
  then have i: "i = length ss" by simp
  have "httpHdrRangeGetSpec r (int i - 1) = Inr (int i, None)"
    using holds_count [OF assms(1)] by (simp add: httpHdrRangeGetSpec_def Let_def i)
  then show ?case by (subst range_specs.simps) (simp add: i)
next
  case (Suc n)
  then have i: "i < length ss" by simp
  have "httpHdrRangeGetSpec r (int i - 1) = Inr (int i, Some (ss ! i))"
    using holds_nth [OF assms(1) i] holds_count [OF assms(1)] i by (simp add: httpHdrRangeGetSpec_def Let_def)
  moreover have "range_specs r (int i) = Inr (map (\<lambda>j. (int j, ss ! j)) [Suc i..<length ss])"
    using Suc(1) [of "Suc i"] Suc(2) i by simp
  ultimately show ?case by (subst range_specs.simps) (simp add: i upt_conv_Cons)
qed

text \<open>Every loop over a range set visits its specs in order.\<close>

lemma range_specs_all:
  assumes "holds_specs r ss"
  shows "range_specs r (- 1) = Inr (map (\<lambda>j. (int j, ss ! j)) [0..<length ss])"
  using range_specs_from [OF assms, of 0] by simp

lemma map_snd_enum: "map snd (map (\<lambda>j. (int j, ss ! j)) [0..<length ss]) = ss"
  by (simp add: comp_def map_nth)

section \<open>Canonization\<close>

text \<open>
  A spec as a client may sensibly ask for it: a suffix of a positive length, the rest from an
  offset on, or a non-empty interval whose end is representable.
\<close>

definition sane :: "HttpHdrRangeSpec \<Rightarrow> bool" where
  "sane s \<longleftrightarrow> (roffset s = - 1 \<and> 0 < rlength s \<and> int64_ok (rlength s)) \<or>
     (0 \<le> roffset s \<and> int64_ok (roffset s) \<and>
       (rlength s = - 1 \<or> 0 < rlength s \<and> int64_ok (roffset s + rlength s)))"

text \<open>The bytes of a body of length \<open>clen\<close> that a spec selects (RFC 2616, section 14.35).\<close>

definition requested :: "int \<Rightarrow> HttpHdrRangeSpec \<Rightarrow> int set" where
  "requested clen s =
     {b. 0 \<le> b \<and> b < clen \<and>
        (if roffset s = - 1 then clen - rlength s \<le> b
         else roffset s \<le> b \<and> (rlength s = - 1 \<or> b < roffset s + rlength s))}"

definition interval :: "HttpHdrRangeSpec \<Rightarrow> int set" where
  "interval s = {roffset s ..< roffset s + rlength s}"

lemma size_diff_ok: "0 \<le> b \<Longrightarrow> int64_ok a \<Longrightarrow> size_diff a b = Inr (max 0 (a - b))"
  by (auto simp: size_diff_def off_t_def int64_ok_def)

lemma spec_canonize_value:
  assumes "sane s" "0 \<le> clen" "int64_ok clen"
  shows "httpHdrRangeSpecCanonize s clen =
    (let off = (if roffset s = - 1 then max 0 (clen - rlength s) else roffset s);
         len = min (max 0 (clen - off)) (if rlength s = - 1 then max 0 (clen - off) else rlength s)
     in Inr (\<lparr>roffset = off, rlength = len\<rparr>, len > 0))"
proof -
  obtain off len where s: "s = \<lparr>roffset = off, rlength = len\<rparr>" by (cases s) simp
  have m: "max 0 x \<noteq> - 1" for x :: int by linarith
  consider "off = - 1" "0 < len" | "0 \<le> off" "len = - 1" | "0 \<le> off" "0 < len"
    using assms(1) by (auto simp: sane_def s)
  then show ?thesis
  proof cases
    case 1
    then have "len \<noteq> - 1" by simp
    with 1 m show ?thesis using assms(2,3)
      by (auto simp: s httpHdrRangeSpecCanonize_def known_spec_def range_spec_unknown_def size_diff_ok size_min_def c_assert_def Let_def)
  qed (use assms(2,3) m in \<open>auto simp: s httpHdrRangeSpecCanonize_def known_spec_def range_spec_unknown_def
    size_diff_ok size_min_def c_assert_def Let_def\<close>)
qed

text \<open>Canonizing one spec computes the interval of the requested bytes.\<close>

lemma spec_canonize_ok:
  assumes "sane s" "0 \<le> clen" "int64_ok clen"
  shows "\<exists>s'. httpHdrRangeSpecCanonize s clen = Inr (s', requested clen s \<noteq> {}) \<and>
    interval s' = requested clen s"
proof -
  define off where "off = (if roffset s = - 1 then max 0 (clen - rlength s) else roffset s)"
  define len where "len = min (max 0 (clen - off)) (if rlength s = - 1 then max 0 (clen - off) else rlength s)"
  have e: "httpHdrRangeSpecCanonize s clen = Inr (\<lparr>roffset = off, rlength = len\<rparr>, len > 0)"
    using spec_canonize_value [OF assms] by (simp add: Let_def off_def len_def)
  have "{off ..< off + len} = requested clen s"
    using assms by (auto simp: sane_def requested_def off_def len_def)
  then have i: "interval \<lparr>roffset = off, rlength = len\<rparr> = requested clen s" by (simp add: interval_def)
  then have "len > 0 \<longleftrightarrow> requested clen s \<noteq> {}" by (auto simp: interval_def)
  with e i show ?thesis by auto
qed

lemma canonize_specs_ok:
  assumes "\<forall>p\<in>set ps. sane (snd p)" "0 \<le> clen" "int64_ok clen" "holds goods gs"
  shows "\<exists>goods' gs'. canonize_specs clen ps goods = Inr goods' \<and> holds goods' (gs @ gs') \<and>
    map interval gs' = filter (\<lambda>B. B \<noteq> {}) (map (requested clen) (map snd ps))"
  using assms(1,4)
proof (induction ps arbitrary: goods gs)
  case (Cons p ps)
  obtain pos s where p: "p = (pos, s)" by (cases p)
  obtain s' where s': "httpHdrRangeSpecCanonize s clen = Inr (s', requested clen s \<noteq> {})"
    "interval s' = requested clen s" using spec_canonize_ok [of s clen] Cons.prems(1) assms(2,3) by (auto simp: p)
  show ?case
  proof (cases "requested clen s = {}")
    case True
    then show ?thesis using Cons.IH [OF _ Cons.prems(2)] Cons.prems(1) s' by (auto simp: p)
  next
    case False
    obtain g1 where g1: "arrayAppend goods (Some s') = Inr g1" "holds g1 (gs @ [s'])"
      using arrayAppend_holds [OF Cons.prems(2)] by blast
    then obtain goods' gs' where "canonize_specs clen ps g1 = Inr goods'" "holds goods' ((gs @ [s']) @ gs')"
      "map interval gs' = filter (\<lambda>B. B \<noteq> {}) (map (requested clen) (map snd ps))"
      using Cons.IH [OF _ g1(2)] Cons.prems(1) by auto
    then show ?thesis using False g1(1) s' by (intro exI [of _ goods'] exI [of _ "s' # gs'"]) (simp add: p)
  qed
qed simp

lemma merge_specs_step:
  "merge_specs (Some g # gs) ss =
     res_bind (stackTop ss) (\<lambda>_. res_bind (arrayAppend ss (Some g)) (merge_specs gs))"
  by (subst merge_specs.simps(3), rule res_bind_cong) (auto simp: httpHdrRangeSpecMergeWith_def split: option.split)

lemma merge_specs_ok:
  "holds ss xs \<Longrightarrow> \<exists>ss'. merge_specs (map Some gs) ss = Inr ss' \<and> holds ss' (xs @ gs)"
proof (induction gs arbitrary: ss xs)
  case (Cons g gs)
  obtain t where t: "stackTop ss = Inr t" using arr.top_pop [OF Cons.prems] by blast
  obtain s1 where s1: "arrayAppend ss (Some g) = Inr s1" "holds s1 (xs @ [g])"
    using arrayAppend_holds [OF Cons.prems] by blast
  then have "merge_specs (map Some (g # gs)) ss = merge_specs (map Some gs) s1"
    using t by (simp add: merge_specs_step)
  then show ?case using Cons.IH [OF s1(2)] by simp
qed simp

lemma canonize_ok:
  assumes "holds_specs r ss" "\<forall>s\<in>set ss. sane s" "0 \<le> clen" "int64_ok clen"
  shows "\<exists>r' ss'. httpHdrRangeCanonize r clen = Inr (r', ss' \<noteq> []) \<and> holds_specs r' ss' \<and>
    map interval ss' = filter (\<lambda>B. B \<noteq> {}) (map (requested clen) ss)"
proof -
  let ?ps = "map (\<lambda>j. (int j, ss ! j)) [0..<length ss]"
  have "\<forall>p\<in>set ?ps. sane (snd p)" using assms(2) by auto
  then obtain goods gs where g: "canonize_specs clen ?ps arrayInit = Inr goods" "holds goods gs"
    "map interval gs = filter (\<lambda>B. B \<noteq> {}) (map (requested clen) ss)"
    using canonize_specs_ok [OF _ assms(3,4) holds_init, of ?ps] by (auto simp: map_snd_enum simp del: map_map)
  obtain m where m: "merge_specs (map Some gs) arrayInit = Inr m" "holds m gs"
    using merge_specs_ok [OF holds_init, of gs] by auto
  have "take (acount goods) (aitems goods) = map Some gs" using g(2) unfolding holds_def by blast
  then have "httpHdrRangeCanonize r clen = Inr (r\<lparr>specs := m\<rparr>, acount m > 0)"
    using assms(3) g(1) m(1) by (simp add: httpHdrRangeCanonize_def range_specs_all [OF assms(1)])
  then show ?thesis using g(3) m(2) holds_count [OF m(2)]
    by (intro exI [of _ "r\<lparr>specs := m\<rparr>"] exI [of _ gs]) simp
qed

section \<open>Printing and parsing\<close>

lemma strchr_show_nat: "strchr (show_nat n @ CHR ''-'' # t) (CHR ''-'') = Some (length (show_nat n))"
proof -
  have "\<forall>c\<in>set (show_nat n). c \<noteq> CHR ''-''" using show_nat_digits hd_digit(2) by blast
  then have "takeWhile (\<lambda>x. x \<noteq> CHR ''-'') (show_nat n @ CHR ''-'' # t) = show_nat n"
    by (subst takeWhile_append2) auto
  then show ?thesis by (simp add: strchr_def)
qed

lemma not_digit_sep [simp]: "\<not> isdigit_c (CHR ''-'')" "\<not> isdigit_c (CHR '','')" "\<not> isdigit_c (CHR ''/'')"
  by (simp_all add: isdigit_c_def)

lemma hd_show_nat: "hd (show_nat n @ t) \<noteq> CHR ''-''" "hd (show_nat n @ t) \<noteq> CHR ''*''"
  using show_nat_digits [of n] hd_digit show_nat_not_Nil [of n] by (cases "show_nat n"; auto)+

lemma plain_dashed:
  assumes "\<forall>c\<in>set s. isdigit_c c \<or> c = CHR ''-''" "s \<noteq> []"
  shows "plain (CHR '','') s"
proof -
  have d: "c \<noteq> CHR 0x22 \<and> c \<noteq> CHR '','' \<and> \<not> isspace_c c" if "c \<in> set s" for c
    using assms(1) that hd_digit [of c] by (cases "c = CHR ''-''") (auto simp: isspace_c_def)
  then show ?thesis using assms(2) hd_in_set [of s] last_in_set [of s] by (auto simp: plain_def)
qed

text \<open>The text of a spec and what the parser makes of it, inside a longer header.\<close>

definition spec_text :: "HttpHdrRangeSpec \<Rightarrow> string" where
  "spec_text s =
     (if roffset s = - 1 then CHR ''-'' # show_nat (nat (rlength s))
      else if rlength s = - 1 then show_nat (nat (roffset s)) @ ''-''
      else show_nat (nat (roffset s)) @ ''-'' @ show_nat (nat (roffset s + rlength s - 1)))"

lemma pack_sane: "sane s \<Longrightarrow> httpHdrRangeSpecPackInto s = Inr (spec_text s)"
  by (auto simp: sane_def httpHdrRangeSpecPackInto_def spec_text_def known_spec_def range_spec_unknown_def
    show_int_def off_t_def int64_ok_def)

lemma spec_text_plain: "plain (CHR '','') (spec_text s)"
  using show_nat_digits by (intro plain_dashed) (auto simp: spec_text_def)

lemma spec_text_size: "2 \<le> length (spec_text s)"
proof -
  have "0 < length (show_nat n)" for n by simp
  then have "1 \<le> length (show_nat n)" for n by (simp add: Suc_leI)
  then show ?thesis by (auto simp: spec_text_def intro: trans_le_add1)
qed

lemma parse_spec_text:
  assumes "sane s" "rest = [] \<or> hd rest = CHR '',''"
  shows "httpHdrRangeSpecParseCreate (spec_text s @ rest) (length (spec_text s)) = Inr (Some s)"
proof -
  obtain off len where s: "s = \<lparr>roffset = off, rlength = len\<rparr>" by (cases s) simp
  have rest: "rest = [] \<or> \<not> isdigit_c (hd rest)" using assms(2) by auto
  have size: "\<not> length (spec_text s) < 2" using spec_text_size [of s] by simp
  have num: "httpHeaderParseSize (show_nat (nat i) @ t) = (True, i)"
    if "0 \<le> i" "int64_ok i" "t = [] \<or> \<not> isdigit_c (hd t)" for i t
    using parseSize_show_int [OF that] that(1) by (simp add: show_int_def)
  consider "off = - 1" "0 < len" "int64_ok len" | "0 \<le> off" "int64_ok off" "len = - 1"
    | "0 \<le> off" "int64_ok off" "0 < len" "int64_ok (off + len)"
    using assms(1) by (auto simp: sane_def s)
  then show ?thesis
  proof cases
    case 1
    then show ?thesis using size num [of len rest] rest
      by (simp add: httpHdrRangeSpecParseCreate_def spec_text_def s range_spec_unknown_def httpHdrRangeSpecDup_def)
  next
    case 2
    then have t: "spec_text s = show_nat (nat off) @ ''-''" by (simp add: spec_text_def s)
    have "httpHeaderParseSize (show_nat (nat off) @ CHR ''-'' # rest) = (True, off)" using 2 num by simp
    then have "parse_first_last (spec_text s @ rest) (length (spec_text s)) = Inr (Some \<lparr>roffset = off, rlength = len\<rparr>)"
      using strchr_show_nat [of "nat off" rest] 2(3) unfolding t by (simp add: parse_first_last_def range_spec_unknown_def)
    then show ?thesis using size hd_show_nat(1) [of "nat off" "CHR ''-'' # rest"] 2(3)
      by (simp add: httpHdrRangeSpecParseCreate_def t) (simp add: s known_spec_def range_spec_unknown_def httpHdrRangeSpecDup_def)
  next
    case 3
    let ?l = "off + len - 1"
    have t: "spec_text s = show_nat (nat off) @ CHR ''-'' # show_nat (nat ?l)" using 3 by (simp add: spec_text_def s)
    have p: "httpHeaderParseSize (show_nat (nat off) @ CHR ''-'' # show_nat (nat ?l) @ rest) = (True, off)"
      using 3(1,2) num [of off "CHR ''-'' # show_nat (nat ?l) @ rest"] by simp
    have q: "httpHeaderParseSize (show_nat (nat ?l) @ rest) = (True, ?l)"
      using 3 num [of ?l rest] rest by (simp add: int64_ok_def)
    have "size_diff (off + len) off = Inr len" using 3 by (simp add: size_diff_def off_t_def int64_ok_def)
    then have "parse_first_last (spec_text s @ rest) (length (spec_text s)) = Inr (Some \<lparr>roffset = off, rlength = len\<rparr>)"
      using strchr_show_nat [of "nat off" "show_nat (nat ?l) @ rest"] p q 3 unfolding t
      by (simp add: parse_first_last_def off_t_def)
    then show ?thesis using size hd_show_nat(1) [of "nat off" "CHR ''-'' # show_nat (nat ?l) @ rest"] 3(3)
      by (simp add: httpHdrRangeSpecParseCreate_def t) (simp add: s known_spec_def range_spec_unknown_def httpHdrRangeSpecDup_def)
  qed
qed

definition set_text :: "HttpHdrRangeSpec list \<Rightarrow> string" where
  "set_text ss = concat (map (\<lambda>s. CHR '','' # spec_text s) ss)"

lemma set_text_start: "set_text ss = [] \<or> hd (set_text ss) = CHR '',''"
  by (cases ss) (simp_all add: set_text_def)

lemma pack_specs_text:
  "\<forall>p\<in>set ps. sane (snd p) \<and> fst p \<noteq> - 1 \<Longrightarrow> pack_specs ps = Inr (set_text (map snd ps))"
  by (induction ps) (auto simp: pack_sane set_text_def)

lemma list_items_text:
  "list_items (CHR '','') (set_text ss) =
     map (\<lambda>i. (spec_text (ss ! i) @ set_text (drop (Suc i) ss), length (spec_text (ss ! i)))) [0..<length ss]"
proof (induction ss)
  case Nil
  then show ?case by (simp add: set_text_def list_items_step)
next
  case (Cons s ss)
  have "strListGetItem (CHR '','') ('','' @ spec_text s @ set_text ss) =
    Some (spec_text s @ set_text ss, length (spec_text s), set_text ss)"
    using set_text_start [of ss] by (intro strListGetItem_plain [OF spec_text_plain]) (auto simp: item_sep_def)
  then have "list_items (CHR '','') (set_text (s # ss)) =
    (spec_text s @ set_text ss, length (spec_text s)) # list_items (CHR '','') (set_text ss)"
    by (simp add: set_text_def list_items_step)
  then show ?case unfolding Cons by (simp add: upt_conv_Cons map_Suc_upt [symmetric] del: upt_Suc)
qed

lemma push_spec_holds: "holds_specs r xs \<Longrightarrow> \<exists>r'. push_spec r s = Inr r' \<and> holds_specs r' (xs @ [s])"
  using arrayAppend_holds [of "specs r" xs s] by (auto simp: push_spec_def)

lemma parse_items_ok:
  assumes "\<forall>(i, s)\<in>set (zip items ss). httpHdrRangeSpecParseCreate (fst i) (snd i) = Inr (Some s)"
    "length items = length ss" "holds_specs r xs"
  shows "\<exists>r'. parse_items r items = Inr r' \<and> holds_specs r' (xs @ ss)"
  using assms(2,1,3)
proof (induction items ss arbitrary: r xs rule: list_induct2)
  case (Cons i items s ss)
  obtain r1 where r1: "push_spec r s = Inr r1" "holds_specs r1 (xs @ [s])" using push_spec_holds [OF Cons.prems(2)] by blast
  have "\<exists>r'. parse_items r1 items = Inr r' \<and> holds_specs r' ((xs @ [s]) @ ss)"
    by (rule Cons.IH) (use Cons.prems(1) r1(2) in auto)
  then show ?case using Cons.prems(1) r1(1) by (cases i) auto
qed simp

lemma parse_set_text:
  assumes "\<forall>s\<in>set ss. sane s" "holds_specs r []"
  shows "\<exists>r'. httpHdrRangeParseInit r (''bytes='' @ set_text ss) = Inr (r', length ss) \<and> holds_specs r' ss"
proof -
  let ?f = "\<lambda>i. (spec_text (ss ! i) @ set_text (drop (Suc i) ss), length (spec_text (ss ! i)))"
  have "\<exists>r'. parse_items r (map ?f [0..<length ss]) = Inr r' \<and> holds_specs r' ([] @ ss)"
  proof (rule parse_items_ok [OF _ _ assms(2)])
    show "\<forall>(i, s)\<in>set (zip (map ?f [0..<length ss]) ss). httpHdrRangeSpecParseCreate (fst i) (snd i) = Inr (Some s)"
      using assms(1) parse_spec_text set_text_start by (auto simp: set_zip)
  qed simp
  then obtain r' where "parse_items r (list_items (CHR '','') (set_text ss)) = Inr r'" "holds_specs r' ss"
    by (auto simp: list_items_text)
  moreover have "strncaseeq (''bytes='' @ set_text ss) ''bytes='' 6" by (simp add: strncaseeq_def)
  ultimately show ?thesis using holds_count [of "specs r'" ss] by (simp add: httpHdrRangeParseInit_def)
qed

section \<open>Order and offsets\<close>

text \<open>
  On canonized ranges \<^verbatim>\<open>httpHdrRangeIsComplex\<close> answers whether the ranges are not strictly
  ascending and disjoint.
\<close>

lemma complex_loop_iff:
  assumes "\<forall>s\<in>set ss. 0 \<le> roffset s \<and> 0 < rlength s \<and> int64_ok (roffset s + rlength s)"
  shows "complex_loop e ss = Inr (\<not> ((\<forall>s\<in>set ss. e \<le> roffset s) \<and>
    sorted_wrt (\<lambda>a b. roffset a + rlength a \<le> roffset b) ss))"
  using assms
proof (induction ss arbitrary: e)
  case (Cons s ss)
  then have IH: "complex_loop (roffset s + rlength s) ss = Inr (\<not> ((\<forall>t\<in>set ss. roffset s + rlength s \<le> roffset t) \<and>
    sorted_wrt (\<lambda>a b. roffset a + rlength a \<le> roffset b) ss))" by simp
  show ?case
  proof (cases "e \<le> roffset s")
    case True
    then have "e \<le> roffset t" if "roffset s + rlength s \<le> roffset t" for t
      using that Cons.prems by (metis add_increasing2 dual_order.trans less_imp_le list.set_intros(1) order_refl)
    then show ?thesis using Cons.prems True by (auto simp: IH off_t_def)
  qed auto
qed simp

lemma isComplex_iff:
  assumes "holds_specs r ss" "\<forall>s\<in>set ss. 0 \<le> roffset s \<and> 0 < rlength s \<and> int64_ok (roffset s + rlength s)"
  shows "httpHdrRangeIsComplex r = Inr (\<not> sorted_wrt (\<lambda>a b. roffset a + rlength a \<le> roffset b) ss)"
  using assms(2) by (simp add: httpHdrRangeIsComplex_def range_specs_all [OF assms(1)] map_snd_enum complex_loop_iff
    del: map_map)

lemma first_offset_snoc:
  "first_offset_loop e (ss @ [s]) =
     (let f = first_offset_loop e ss in if roffset s < f \<or> \<not> known_spec f then roffset s else f)"
  by (induction ss arbitrary: e) (simp_all add: Let_def)

lemma first_offset_ge: "\<forall>s\<in>set ss. - 1 \<le> roffset s \<Longrightarrow> - 1 \<le> e \<Longrightarrow> - 1 \<le> first_offset_loop e ss"
  by (induction ss arbitrary: e) simp_all

lemma first_offset_known:
  "0 \<le> e \<Longrightarrow> \<forall>t\<in>set xs. 0 \<le> roffset t \<Longrightarrow> first_offset_loop e xs = Min (insert e (roffset ` set xs))"
proof (induction xs arbitrary: e)
  case (Cons x xs)
  have e: "(if roffset x < e \<or> \<not> known_spec e then roffset x else e) = min e (roffset x)"
    using Cons.prems by (auto simp: known_spec_def range_spec_unknown_def)
  have "first_offset_loop e (x # xs) = Min (insert (min e (roffset x)) (roffset ` set xs))"
    using Cons.IH [of "min e (roffset x)"] Cons.prems by (simp only: first_offset_loop.simps e) simp
  also have "\<dots> = Min (insert e (roffset ` set (x # xs)))"
    by (cases "set xs = {}") (simp_all add: min.assoc)
  finally show ?case .
qed simp

lemma first_offset_Min:
  "\<forall>t\<in>set (x # xs). 0 \<le> roffset t \<Longrightarrow> first_offset_loop (- 1) (x # xs) = Min (roffset ` set (x # xs))"
  using first_offset_known [of "roffset x" xs] by (simp add: known_spec_def range_spec_unknown_def)

section \<open>Properties\<close>

text \<open>
  C22. Canonization selects exactly the bytes the client asked for: for a set of sane ranges
  and a body of \<open>clen\<close> bytes, \<^verbatim>\<open>httpHdrRangeCanonize\<close> runs without a failed assertion or an
  overflow, keeps the order, drops the ranges that select nothing, and every range it keeps is
  a non-empty interval of the body equal to the bytes the original range selects; its result
  says whether any range is left.
\<close>

theorem range_canonize_selects_requested:
  assumes "holds_specs r ss" "\<forall>s\<in>set ss. sane s" "0 \<le> clen" "int64_ok clen"
  shows "\<exists>r' ss'. httpHdrRangeCanonize r clen = Inr (r', ss' \<noteq> []) \<and> holds_specs r' ss' \<and>
    map interval ss' = filter (\<lambda>B. B \<noteq> {}) (map (requested clen) ss)"
  by (rule canonize_ok [OF assms])

theorem range_canonize_selects_requested_witness:
  "\<exists>r r' ss'. httpHdrRangeParseInit httpHdrRangeCreate ''bytes=,0-4,-2,90-'' = Inr (r, 3) \<and>
     httpHdrRangeCanonize r 10 = Inr (r', ss' \<noteq> []) \<and> holds_specs r' ss' \<and>
     map interval ss' = [{0, 1, 2, 3, 4}, {8, 9}]"
proof -
  let ?ss = "[\<lparr>roffset = 0, rlength = 5\<rparr>, \<lparr>roffset = - 1, rlength = 2\<rparr>, \<lparr>roffset = 90, rlength = - 1\<rparr>]"
  have sane: "\<forall>s\<in>set ?ss. sane s" by (simp add: sane_def int64_ok_def)
  have "''bytes='' @ set_text ?ss = ''bytes=,0-4,-2,90-''"
    by code_simp
  moreover have "holds_specs httpHdrRangeCreate []" by (simp add: httpHdrRangeCreate_def holds_init)
  ultimately obtain r where r: "httpHdrRangeParseInit httpHdrRangeCreate ''bytes=,0-4,-2,90-'' = Inr (r, 3)" "holds_specs r ?ss"
    using parse_set_text [OF sane, of httpHdrRangeCreate] by auto
  have q: "requested 10 \<lparr>roffset = 0, rlength = 5\<rparr> = {0, 1, 2, 3, 4}" "requested 10 \<lparr>roffset = - 1, rlength = 2\<rparr> = {8, 9}"
    "requested 10 \<lparr>roffset = 90, rlength = - 1\<rparr> = {}" by (auto simp: requested_def)
  have "\<exists>r' ss'. httpHdrRangeCanonize r 10 = Inr (r', ss' \<noteq> []) \<and> holds_specs r' ss' \<and>
    map interval ss' = filter (\<lambda>B. B \<noteq> {}) (map (requested 10) ?ss)"
    by (rule range_canonize_selects_requested [OF r(2) sane]) (simp_all add: int64_ok_def)
  then show ?thesis using r(1) by (simp add: q)
qed

text \<open>
  Printing a set of ranges and parsing it give the set back: behind \<^verbatim>\<open>bytes=\<close>, the text
  \<^verbatim>\<open>httpHdrRangePackInto\<close> produces (which starts with a comma, as the test for the first
  position never holds) is parsed by \<^verbatim>\<open>httpHdrRangeParseInit\<close> to the same specs in the same
  order.
\<close>

theorem range_round_trip:
  assumes "holds_specs r ss" "\<forall>s\<in>set ss. sane s"
  shows "\<exists>txt r'. httpHdrRangePackInto r = Inr txt \<and> (ss \<noteq> [] \<longrightarrow> hd txt = CHR '','') \<and>
    httpHdrRangeParseInit httpHdrRangeCreate (''bytes='' @ txt) = Inr (r', length ss) \<and> holds_specs r' ss"
proof -
  have "httpHdrRangePackInto r = Inr (set_text ss)"
    using pack_specs_text [of "map (\<lambda>j. (int j, ss ! j)) [0..<length ss]"] assms(2)
    by (simp add: httpHdrRangePackInto_def range_specs_all [OF assms(1)] map_snd_enum del: map_map)
  moreover have "holds_specs httpHdrRangeCreate []" by (simp add: httpHdrRangeCreate_def holds_init)
  moreover have "ss \<noteq> [] \<longrightarrow> hd (set_text ss) = CHR '',''" by (cases ss) (simp_all add: set_text_def)
  ultimately show ?thesis using parse_set_text [OF assms(2), of httpHdrRangeCreate] by auto
qed

theorem range_round_trip_witness:
  "\<exists>r txt r'. holds_specs r [\<lparr>roffset = 7, rlength = - 1\<rparr>] \<and> httpHdrRangePackInto r = Inr txt \<and> hd txt = CHR '','' \<and>
    httpHdrRangeParseInit httpHdrRangeCreate (''bytes='' @ txt) = Inr (r', 1) \<and>
    holds_specs r' [\<lparr>roffset = 7, rlength = - 1\<rparr>]"
proof -
  have "\<exists>r. holds_specs r [\<lparr>roffset = 7, rlength = - 1\<rparr>]"
    using push_spec_holds [of httpHdrRangeCreate "[]"] by (auto simp: httpHdrRangeCreate_def holds_init)
  then obtain r where "holds_specs r [\<lparr>roffset = 7, rlength = - 1\<rparr>]" by blast
  with range_round_trip [OF this] show ?thesis by (auto simp: sane_def int64_ok_def)
qed

text \<open>
  The request header \<^verbatim>\<open>Range: bytes=--1\<close> stops the proxy: it is parsed to a suffix range
  whose length -1 is the mark for an unknown length, so the check for a zero length lets it
  pass, and canonizing it against a body of any length fails the assertion that the length is
  known.
\<close>

theorem range_minus_one_aborts:
  assumes "0 \<le> clen" "clen < 9223372036854775807"
  shows "\<exists>r. httpHdrRangeParseCreate ''bytes=--1'' = Inr (Some r) \<and> httpHdrRangeCanonize r clen = Inl AssertFailed"
proof -
  let ?s = "\<lparr>roffset = - 1, rlength = - 1\<rparr>"
  have "plain (CHR '','') ''--1''" by (simp add: plain_def isspace_c_def)
  then have i: "strListGetItem (CHR '','') ''--1'' = Some (''--1'', 3, [])"
    using strListGetItem_plain [of "CHR '',''" "''--1''" "[]" "[]"] by simp
  then have l: "list_items (CHR '','') ''--1'' = [(''--1'', 3)]" by (simp add: list_items_step)
  have "strtoll ''-1'' = Some (- 1)"
    by (simp add: strtoll_def isspace_c_def isdigit_c_def digits_val_def)
  then have p: "httpHdrRangeSpecParseCreate ''--1'' 3 = Inr (Some ?s)"
    by (simp add: httpHdrRangeSpecParseCreate_def httpHeaderParseSize_def int64_ok_def range_spec_unknown_def
      known_spec_def httpHdrRangeSpecDup_def)
  obtain r where r: "push_spec httpHdrRangeCreate ?s = Inr r" "holds_specs r [?s]"
    using push_spec_holds [of httpHdrRangeCreate "[]" ?s] by (auto simp: httpHdrRangeCreate_def holds_init)
  have "httpHdrRangeParseCreate ''bytes=--1'' = Inr (Some r)"
    using holds_count [OF r(2)] by (simp add: httpHdrRangeParseCreate_def httpHdrRangeParseInit_def strncaseeq_def l p r(1))
  moreover have "httpHdrRangeSpecCanonize ?s clen = Inl AssertFailed"
    using assms by (simp add: httpHdrRangeSpecCanonize_def known_spec_def range_spec_unknown_def size_diff_def off_t_def int64_ok_def)
  then have "httpHdrRangeCanonize r clen = Inl AssertFailed"
    using assms(1) by (simp add: httpHdrRangeCanonize_def range_specs_all [OF r(2)])
  ultimately show ?thesis by blast
qed

theorem range_minus_one_aborts_witness:
  "\<exists>r. httpHdrRangeParseCreate ''bytes=--1'' = Inr (Some r) \<and> httpHdrRangeCanonize r 1000 = Inl AssertFailed"
  by (rule range_minus_one_aborts) simp_all

text \<open>
  The limit on the first offset can be passed: the first offset is documented as the
  lowest known one, and for ranges with known offsets it is their minimum, but a suffix range
  at the end of the set makes it unknown, that is -1, which is below every limit, whatever the
  offsets of the other ranges are.
\<close>

theorem range_first_offset:
  assumes "holds_specs r (ss @ [s])" "\<forall>t\<in>set (ss @ [s]). - 1 \<le> roffset t"
  shows "(roffset s = - 1 \<and> 0 < limit \<longrightarrow>
      httpHdrRangeFirstOffset r = Inr (- 1) \<and> httpHdrRangeOffsetLimit limit (Some r) = Inr False) \<and>
    ((\<forall>t\<in>set (ss @ [s]). 0 \<le> roffset t) \<longrightarrow>
      httpHdrRangeFirstOffset r = Inr (Min (roffset ` set (ss @ [s]))))"
proof -
  have f: "httpHdrRangeFirstOffset r = Inr (first_offset_loop (- 1) (ss @ [s]))"
    using range_specs_all [OF assms(1)] map_snd_enum [of "ss @ [s]"]
    by (simp add: httpHdrRangeFirstOffset_def range_spec_unknown_def del: map_map)
  have u: "httpHdrRangeFirstOffset r = Inr (- 1) \<and> httpHdrRangeOffsetLimit limit (Some r) = Inr False"
    if "roffset s = - 1" "0 < limit"
    using that first_offset_ge [of ss "- 1"] assms(2) f
    by (auto simp: first_offset_snoc Let_def httpHdrRangeOffsetLimit_def known_spec_def range_spec_unknown_def)
  have "httpHdrRangeFirstOffset r = Inr (Min (roffset ` set (ss @ [s])))" if "\<forall>t\<in>set (ss @ [s]). 0 \<le> roffset t"
    using f first_offset_Min [of "hd (ss @ [s])" "tl (ss @ [s])"] that by (cases "ss @ [s]") auto
  with u show ?thesis by blast
qed

theorem range_first_offset_witness:
  "\<exists>r. holds_specs r [\<lparr>roffset = 5000000, rlength = - 1\<rparr>, \<lparr>roffset = - 1, rlength = 1\<rparr>] \<and>
     httpHdrRangeOffsetLimit 1000 (Some r) = Inr False"
proof -
  let ?a = "\<lparr>roffset = 5000000, rlength = - 1\<rparr>" and ?b = "\<lparr>roffset = - 1, rlength = 1\<rparr>"
  obtain r1 where "holds_specs r1 [?a]"
    using push_spec_holds [of httpHdrRangeCreate "[]"] by (auto simp: httpHdrRangeCreate_def holds_init)
  then obtain r where "holds_specs r ([?a] @ [?b])" using push_spec_holds [of r1 "[?a]"] by auto
  with range_first_offset [OF this, of 1000] show ?thesis by auto
qed

end
