(* ===== verification/HttpHdrContRange.thy ===== *)
theory HttpHdrContRange
  imports Range_Correct
begin

text \<open>
  The \<^verbatim>\<open>Content-Range\<close> header: \<^verbatim>\<open>src/HttpHdrContRange.c\<close>. Its \<^verbatim>\<open>range_spec_unknown\<close> is \<^verbatim>\<open>(size_t) -1\<close>,
  which compares equal to the 64-bit -1. The theorems relate printing and parsing.
\<close>

section \<open>The operations\<close>

record HttpHdrContRange =
  cspec :: HttpHdrRangeSpec
  elength :: int

definition unknown_spec :: HttpHdrRangeSpec where
  "unknown_spec = \<lparr>roffset = range_spec_unknown, rlength = range_spec_unknown\<rparr>"

text \<open>The result is the spec, or \<^term>\<open>None\<close> for the return value 0.\<close>

definition httpHdrRangeRespSpecParseInit :: "string \<Rightarrow> nat \<Rightarrow> HttpHdrRangeSpec option res" where
  "httpHdrRangeRespSpecParseInit field flen =
     (if flen < 2 then Inr None
      else if field \<noteq> [] \<and> hd field = CHR ''*'' then Inr (Some unknown_spec)
      else (case strchr field (CHR ''-'') of
          None \<Rightarrow> Inr None
        | Some k \<Rightarrow>
            if \<not> k < flen then Inr None
            else (case httpHeaderParseSize field of
                (False, _) \<Rightarrow> Inr None
              | (True, off) \<Rightarrow>
                  res_bind
                    (if k + 1 < flen
                     then (case httpHeaderParseSize (drop (k + 1) field) of
                             (False, _) \<Rightarrow> Inr None
                           | (True, last_pos) \<Rightarrow>
                               res_bind (off_t (last_pos + 1)) (\<lambda>e.
                               res_bind (size_diff e off) (\<lambda>l. Inr (Some l))))
                     else Inr (Some range_spec_unknown))
                    (\<lambda>l. case l of
                        None \<Rightarrow> Inr None
                      | Some len \<Rightarrow>
                          if known_spec len \<and> len = 0 then Inr None
                          else Inr (Some \<lparr>roffset = off, rlength = len\<rparr>)))))"

definition httpHdrRangeRespSpecPackInto :: "HttpHdrRangeSpec \<Rightarrow> string res" where
  "httpHdrRangeRespSpecPackInto spec =
     (if \<not> known_spec (roffset spec) \<or> \<not> known_spec (rlength spec) then Inr ''*''
      else res_bind (off_t (roffset spec + rlength spec)) (\<lambda>e.
           res_bind (off_t (e - 1)) (\<lambda>l.
           Inr (''bytes '' @ show_int (roffset spec) @ ''-'' @ show_int l))))"

definition httpHdrContRangeCreate :: HttpHdrContRange where
  "httpHdrContRangeCreate = \<lparr>cspec = unknown_spec, elength = range_spec_unknown\<rparr>"

definition httpHdrContRangeParseInit :: "HttpHdrContRange \<Rightarrow> string \<Rightarrow> HttpHdrContRange option res" where
  "httpHdrContRangeParseInit rng str =
     (if \<not> strncaseeq str ''bytes '' 6 then Inr None
      else let str = drop 6 str
           in case strchr str (CHR ''/'') of
                None \<Rightarrow> Inr None
              | Some k \<Rightarrow>
                  res_bind
                    (if hd str = CHR ''*'' then Inr (Some unknown_spec) else httpHdrRangeRespSpecParseInit str k)
                    (\<lambda>sp. case sp of
                        None \<Rightarrow> Inr None
                      | Some s \<Rightarrow>
                          let p = drop (k + 1) str
                          in if p \<noteq> [] \<and> hd p = CHR ''*''
                             then Inr (Some (rng\<lparr>cspec := s, elength := range_spec_unknown\<rparr>))
                             else (case httpHeaderParseSize p of
                                 (False, _) \<Rightarrow> Inr None
                               | (True, l) \<Rightarrow> Inr (Some (rng\<lparr>cspec := s, elength := l\<rparr>)))))"

definition httpHdrContRangeParseCreate :: "string \<Rightarrow> HttpHdrContRange option res" where
  "httpHdrContRangeParseCreate str = httpHdrContRangeParseInit httpHdrContRangeCreate str"

definition httpHdrContRangeDup :: "HttpHdrContRange \<Rightarrow> HttpHdrContRange" where
  "httpHdrContRangeDup rng = \<lparr>cspec = cspec rng, elength = elength rng\<rparr>"

definition httpHdrContRangePackInto :: "HttpHdrContRange \<Rightarrow> string res" where
  "httpHdrContRangePackInto rng =
     res_bind (httpHdrRangeRespSpecPackInto (cspec rng)) (\<lambda>t.
       Inr (t @ (if \<not> known_spec (elength rng) then ''/*'' else CHR ''/'' # show_int (elength rng))))"

definition httpHdrContRangeSet :: "HttpHdrContRange \<Rightarrow> HttpHdrRangeSpec \<Rightarrow> int \<Rightarrow> HttpHdrContRange res" where
  "httpHdrContRangeSet cr spec ent_len =
     (if ent_len \<ge> 0 then Inr (cr\<lparr>cspec := spec, elength := ent_len\<rparr>) else Inl AssertFailed)"

section \<open>Printing and parsing\<close>

definition interval_spec :: "HttpHdrRangeSpec \<Rightarrow> bool" where
  "interval_spec s \<longleftrightarrow> 0 \<le> roffset s \<and> 0 < rlength s \<and> int64_ok (roffset s + rlength s)"

lemma resp_spec_text:
  assumes "interval_spec s"
  shows "httpHdrRangeRespSpecPackInto s =
    Inr (''bytes '' @ show_nat (nat (roffset s)) @ ''-'' @ show_nat (nat (roffset s + rlength s - 1)))"
  using assms by (auto simp: interval_spec_def httpHdrRangeRespSpecPackInto_def known_spec_def range_spec_unknown_def
    show_int_def off_t_def int64_ok_def)

lemma parse_resp_spec:
  assumes "interval_spec s"
  defines "t \<equiv> show_nat (nat (roffset s)) @ ''-'' @ show_nat (nat (roffset s + rlength s - 1))"
  shows "httpHdrRangeRespSpecParseInit (t @ CHR ''/'' # u) (length t) = Inr (Some s)"
proof -
  obtain off len where s: "s = \<lparr>roffset = off, rlength = len\<rparr>" by (cases s) simp
  let ?l = "off + len - 1"
  have a: "0 \<le> off" "0 < len" "int64_ok (off + len)" "int64_ok off" "int64_ok ?l"
    using assms(1) by (auto simp: interval_spec_def s int64_ok_def)
  have t: "t = show_nat (nat off) @ CHR ''-'' # show_nat (nat ?l)" by (simp add: t_def s)
  have sz: "\<not> length t < 2" using length_greater_0_conv [of "show_nat (nat off)"] by (simp add: t)
  have n: "httpHeaderParseSize (show_nat (nat i) @ v) = (True, i)"
    if "0 \<le> i" "int64_ok i" "\<not> isdigit_c (hd v)" for i v
    using parseSize_show_int [of i v] that by (simp add: show_int_def)
  have p: "httpHeaderParseSize (show_nat (nat off) @ CHR ''-'' # show_nat (nat ?l) @ CHR ''/'' # u) = (True, off)"
    and q: "httpHeaderParseSize (show_nat (nat ?l) @ CHR ''/'' # u) = (True, ?l)"
    using a by (auto intro!: n)
  have d: "size_diff (off + len) off = Inr len" using a by (simp add: size_diff_def off_t_def int64_ok_def)
  have "httpHdrRangeRespSpecParseInit (t @ CHR ''/'' # u) (length t) = Inr (Some \<lparr>roffset = off, rlength = len\<rparr>)"
    using sz p q d a(2,3) strchr_show_nat [of "nat off" "show_nat (nat ?l) @ CHR ''/'' # u"]
      hd_show_nat(2) [of "nat off" "CHR ''-'' # show_nat (nat ?l) @ CHR ''/'' # u"]
    unfolding t by (simp add: httpHdrRangeRespSpecParseInit_def off_t_def)
  then show ?thesis by (simp add: s)
qed

lemma strchr_slash:
  assumes "\<forall>c\<in>set t. isdigit_c c \<or> c = CHR ''-''"
  shows "strchr (t @ CHR ''/'' # u) (CHR ''/'') = Some (length t)"
proof -
  have "c \<noteq> CHR ''/''" if "c \<in> set t" for c using assms that hd_digit(7) by (cases "c = CHR ''-''") auto
  then have "takeWhile (\<lambda>x. x \<noteq> CHR ''/'') (t @ CHR ''/'' # u) = t" by (subst takeWhile_append2) auto
  then show ?thesis by (simp add: strchr_def)
qed

section \<open>Properties\<close>

text \<open>
  A content range survives its header: the text \<^verbatim>\<open>httpHdrContRangePackInto\<close> prints for a
  non-empty interval and a known or unknown entity length is parsed back to the same range.
  For an unknown interval (an answer to a request that cannot be satisfied) the text lacks the
  unit \<^verbatim>\<open>bytes\<close> and is refused by the parser.
\<close>

theorem content_range_round_trip:
  assumes "elength cr = - 1 \<or> 0 \<le> elength cr \<and> int64_ok (elength cr)"
  shows "(interval_spec (cspec cr) \<longrightarrow>
      (\<exists>t. httpHdrContRangePackInto cr = Inr t \<and> httpHdrContRangeParseCreate t = Inr (Some cr))) \<and>
    (cspec cr = unknown_spec \<longrightarrow>
      (\<exists>t. httpHdrContRangePackInto cr = Inr t \<and> httpHdrContRangeParseCreate t = Inr None))"
proof -
  let ?e = "if elength cr = - 1 then ''*'' else show_nat (nat (elength cr))"
  have pack: "httpHdrContRangePackInto cr = Inr (x @ CHR ''/'' # ?e)" if "httpHdrRangeRespSpecPackInto (cspec cr) = Inr x" for x
    using assms that by (auto simp: httpHdrContRangePackInto_def known_spec_def range_spec_unknown_def show_int_def)
  have "\<exists>t. httpHdrContRangePackInto cr = Inr t \<and> httpHdrContRangeParseCreate t = Inr (Some cr)"
    if i: "interval_spec (cspec cr)"
  proof -
    let ?s = "cspec cr"
    let ?t = "show_nat (nat (roffset ?s)) @ ''-'' @ show_nat (nat (roffset ?s + rlength ?s - 1))"
    have c: "strchr (?t @ CHR ''/'' # ?e) (CHR ''/'') = Some (length ?t)"
      using show_nat_digits by (intro strchr_slash) auto
    have h: "hd (?t @ CHR ''/'' # ?e) \<noteq> CHR ''*''" by (simp only: append_assoc hd_show_nat(2) not_False_eq_True)
    have e: "?e \<noteq> [] \<and> (hd ?e = CHR ''*'' \<longleftrightarrow> elength cr = - 1)" using hd_show_nat(2) [of "nat (elength cr)" "[]"] by auto
    have n: "elength cr \<noteq> - 1 \<Longrightarrow> httpHeaderParseSize ?e = (True, elength cr)"
      using assms parseSize_show_int [of "elength cr" "[]"] by (auto simp: show_int_def)
    have "httpHdrContRangeParseInit httpHdrContRangeCreate (''bytes '' @ ?t @ CHR ''/'' # ?e) =
      Inr (Some (httpHdrContRangeCreate\<lparr>cspec := ?s, elength := elength cr\<rparr>))"
      unfolding httpHdrContRangeParseInit_def Let_def
      using c h e n parse_resp_spec [OF i, of ?e] by (cases "elength cr = - 1")
        (simp_all add: strncaseeq_def range_spec_unknown_def)
    then have "httpHdrContRangeParseCreate ((''bytes '' @ ?t) @ CHR ''/'' # ?e) = Inr (Some cr)"
      by (simp add: httpHdrContRangeParseCreate_def httpHdrContRangeCreate_def)
    then show ?thesis using pack [OF resp_spec_text [OF i]] by blast
  qed
  moreover have "\<exists>t. httpHdrContRangePackInto cr = Inr t \<and> httpHdrContRangeParseCreate t = Inr None"
    if "cspec cr = unknown_spec"
  proof -
    have "httpHdrRangeRespSpecPackInto (cspec cr) = Inr ''*''"
      using that by (simp add: httpHdrRangeRespSpecPackInto_def unknown_spec_def known_spec_def)
    moreover have "toupper (CHR ''*'') \<noteq> toupper (CHR ''b'')" by code_simp
    then have "\<not> strncaseeq (''*'' @ CHR ''/'' # ?e) ''bytes '' 6" by (simp add: strncaseeq_def)
    ultimately show ?thesis using pack by (simp add: httpHdrContRangeParseCreate_def httpHdrContRangeParseInit_def)
  qed
  ultimately show ?thesis by blast
qed

theorem content_range_round_trip_witness:
  "\<exists>t. httpHdrContRangePackInto \<lparr>cspec = \<lparr>roffset = 21010, rlength = 26012\<rparr>, elength = 47022\<rparr> = Inr t \<and>
     httpHdrContRangeParseCreate t = Inr (Some \<lparr>cspec = \<lparr>roffset = 21010, rlength = 26012\<rparr>, elength = 47022\<rparr>)"
  using content_range_round_trip [of "\<lparr>cspec = \<lparr>roffset = 21010, rlength = 26012\<rparr>, elength = 47022\<rparr>"]
  by (simp add: interval_spec_def int64_ok_def)

end
