(* ===== verification/Refresh.thy ===== *)
theory Refresh
  imports Complex_Main Header_Tools
begin

text \<open>
  Freshness of cached objects: \<^verbatim>\<open>src/refresh.c\<close>, compiled with HTTP violations, HTCP and cache
  digests.

  Times are \<^verbatim>\<open>time_t\<close>, modelled by integers; the staleness is returned as an \<^verbatim>\<open>int\<close>, so it is cut
  to 32 bits. Two things are parameters: \<open>regexec\<close>, which says whether a compiled pattern
  matches a URL, and \<open>dmul\<close>, the product of a time difference with the \<^verbatim>\<open>double\<close> percentage of a
  rule, converted back to \<^verbatim>\<open>time_t\<close>. The canonical URL of a request and the presence of an
  \<^verbatim>\<open>ETag\<close> header are fields of the records. \<^verbatim>\<open>refreshCheck\<close> writes two fields, one of the request
  and one of the object in memory; it returns the changed request and entry.

  The theorems say exactly when an object is fresh, that the assertions hold, and that an
  object that is fresh in the future is fresh now.
\<close>

section \<open>Data\<close>

datatype refresh_reason =
    FRESH_REQUEST_MAX_STALE_ALL | FRESH_REQUEST_MAX_STALE_VALUE | FRESH_EXPIRES | FRESH_LMFACTOR_RULE
  | FRESH_MIN_RULE | FRESH_OVERRIDE_EXPIRES | FRESH_OVERRIDE_LASTMOD
  | STALE_MUST_REVALIDATE | STALE_RELOAD_INTO_IMS | STALE_FORCED_RELOAD
  | STALE_EXCEEDS_REQUEST_MAX_AGE_VALUE | STALE_EXPIRES | STALE_MAX_RULE | STALE_LMFACTOR_RULE
  | STALE_WITHIN_DELTA | STALE_ASYNC_REFRESH | STALE_MAX_STALE | STALE_DEFAULT

text \<open>The numbers of the enumeration; the code compares them with 200.\<close>

fun reason_code :: "refresh_reason \<Rightarrow> nat" where
  "reason_code FRESH_REQUEST_MAX_STALE_ALL = 100"
| "reason_code FRESH_REQUEST_MAX_STALE_VALUE = 101"
| "reason_code FRESH_EXPIRES = 102"
| "reason_code FRESH_LMFACTOR_RULE = 103"
| "reason_code FRESH_MIN_RULE = 104"
| "reason_code FRESH_OVERRIDE_EXPIRES = 105"
| "reason_code FRESH_OVERRIDE_LASTMOD = 106"
| "reason_code STALE_MUST_REVALIDATE = 200"
| "reason_code STALE_RELOAD_INTO_IMS = 201"
| "reason_code STALE_FORCED_RELOAD = 202"
| "reason_code STALE_EXCEEDS_REQUEST_MAX_AGE_VALUE = 203"
| "reason_code STALE_EXPIRES = 204"
| "reason_code STALE_MAX_RULE = 205"
| "reason_code STALE_LMFACTOR_RULE = 206"
| "reason_code STALE_WITHIN_DELTA = 207"
| "reason_code STALE_ASYNC_REFRESH = 208"
| "reason_code STALE_MAX_STALE = 209"
| "reason_code STALE_DEFAULT = 299"

lemma reason_code_inject: "reason_code a = reason_code b \<longleftrightarrow> a = b"
  by (cases a; cases b) simp_all

lemma reason_code_bound: "reason_code r < 300"
  by (cases r) simp_all

instantiation refresh_reason :: linorder
begin

definition "less_eq_refresh_reason a b \<longleftrightarrow> reason_code a \<le> reason_code b"
definition "less_refresh_reason a b \<longleftrightarrow> reason_code a < reason_code b"

instance
  by standard (auto simp: less_eq_refresh_reason_def less_refresh_reason_def reason_code_inject)

end

record stale_flags =
  sf_expires :: bool
  sf_min :: bool
  sf_lmfactor :: bool
  sf_max :: bool

record 'rx refresh_t =
  pattern :: string
  compiled_pattern :: 'rx
  rmin :: int
  pct :: rat
  rmax :: int
  override_expire :: bool
  override_lastmod :: bool
  rule_reload_into_ims :: bool
  ignore_reload :: bool
  ignore_stale_while_revalidate :: bool
  rule_max_stale :: int
  rule_stale_while_revalidate :: int
  rule_negative_ttl :: int

text \<open>\<^verbatim>\<open>HttpHdrCc\<close>; the directives whose bit in the mask is not set are \<^term>\<open>None\<close>.\<close>

record HttpHdrCc =
  cc_max_age :: int
  cc_max_stale :: "int option"
  cc_stale_while_revalidate :: "int option"
  cc_stale_if_error :: "int option"

record HttpReply =
  reply_cc :: "HttpHdrCc option"
  has_etag :: bool

record request_t =
  canonical :: string
  cache_control :: "HttpHdrCc option"
  nocache_hack :: bool
  nocache :: bool

record MemObject =
  murl :: string
  mreply :: "HttpReply option"
  mrequest :: "request_t option"
  mstale_while_revalidate :: int

record StoreEntry =
  timestamp :: int
  expires :: int
  lastmod :: int
  entry_revalidate :: bool
  mem_obj :: "MemObject option"

record 'rx SquidConfig =
  refresh_rules :: "'rx refresh_t list"
  negativeTtl :: int
  maxStale :: int
  reload_into_ims :: bool
  minimum_expiry_time :: int
  refresh_stale_window :: int

section \<open>Rules\<close>

definition refreshLimits :: "('rx \<Rightarrow> string \<Rightarrow> bool) \<Rightarrow> 'rx SquidConfig \<Rightarrow> string \<Rightarrow> 'rx refresh_t option" where
  "refreshLimits regexec cfg url = find (\<lambda>R. regexec (compiled_pattern R) url) (refresh_rules cfg)"

definition refreshUncompiledPattern :: "'rx SquidConfig \<Rightarrow> string \<Rightarrow> 'rx refresh_t option" where
  "refreshUncompiledPattern cfg pat = find (\<lambda>R. strcmp_eq (pattern R) pat) (refresh_rules cfg)"

text \<open>The rule for an entry: by the URL of the object in memory or of the request.\<close>

definition rule_for ::
  "('rx \<Rightarrow> string \<Rightarrow> bool) \<Rightarrow> 'rx SquidConfig \<Rightarrow> StoreEntry \<Rightarrow> request_t option \<Rightarrow> 'rx refresh_t option" where
  "rule_for regexec cfg entry request =
     (case (case mem_obj entry of
              Some m \<Rightarrow> Some (murl m)
            | None \<Rightarrow> map_option canonical request) of
        Some uri \<Rightarrow> refreshLimits regexec cfg uri
      | None \<Rightarrow> refreshUncompiledPattern cfg ''.'')"

record refresh_cc =
  rcc_max_stale :: int
  rcc_negative_ttl :: int

definition refreshCC ::
  "('rx \<Rightarrow> string \<Rightarrow> bool) \<Rightarrow> 'rx SquidConfig \<Rightarrow> StoreEntry \<Rightarrow> request_t option \<Rightarrow> refresh_cc" where
  "refreshCC regexec cfg entry request =
     (let R = rule_for regexec cfg entry request;
          cc = \<lparr>rcc_max_stale = maxStale cfg, rcc_negative_ttl = negativeTtl cfg\<rparr>;
          cc = (case R of
                  Some r \<Rightarrow> if rule_negative_ttl r \<ge> 0 then cc\<lparr>rcc_negative_ttl := rule_negative_ttl r\<rparr> else cc
                | None \<Rightarrow> cc)
      in case R of
           Some r \<Rightarrow> if rule_max_stale r \<ge> 0 then cc\<lparr>rcc_max_stale := rule_max_stale r\<rparr> else cc
         | None \<Rightarrow> cc)"

text \<open>
  \<^verbatim>\<open>DefaultRefresh\<close> as \<^verbatim>\<open>refreshInit\<close> leaves it: cleared with \<^verbatim>\<open>memset\<close>, then four fields are set.
  The argument is the cleared compiled pattern, which is never used.
\<close>

definition DefaultRefresh :: "'rx \<Rightarrow> 'rx refresh_t" where
  "DefaultRefresh null =
     \<lparr>pattern = ''<none>'', compiled_pattern = null, rmin = 0, pct = 1 / 5, rmax = 259200,
      override_expire = False, override_lastmod = False, rule_reload_into_ims = False, ignore_reload = False,
      ignore_stale_while_revalidate = False, rule_max_stale = 0, rule_stale_while_revalidate = 0,
      rule_negative_ttl = 0\<rparr>"

definition getMaxAge :: "('rx \<Rightarrow> string \<Rightarrow> bool) \<Rightarrow> 'rx SquidConfig \<Rightarrow> string \<Rightarrow> int" where
  "getMaxAge regexec cfg url = (case refreshLimits regexec cfg url of Some R \<Rightarrow> rmax R | None \<Rightarrow> 259200)"

section \<open>Staleness\<close>

definition no_flags :: stale_flags where
  "no_flags = \<lparr>sf_expires = False, sf_min = False, sf_lmfactor = False, sf_max = False\<rparr>"

definition refreshStaleness ::
  "(int \<Rightarrow> rat \<Rightarrow> int) \<Rightarrow> StoreEntry \<Rightarrow> int \<Rightarrow> int \<Rightarrow> 'rx refresh_t \<Rightarrow> stale_flags \<Rightarrow> (int \<times> stale_flags) res" where
  "refreshStaleness dmul entry check_time age R sf =
     (if expires entry > - 1
      then let sf = sf\<lparr>sf_expires := True\<rparr>
           in if expires entry > check_time then Inr (- 1, sf)
              else Inr (trunc32 (check_time - expires entry), sf)
      else if \<not> age \<ge> 0 then Inl AssertFailed
      else if age > rmax R then Inr (trunc32 (age - rmax R), sf\<lparr>sf_max := True\<rparr>)
      else if check_time < timestamp entry then Inr (trunc32 (timestamp entry - check_time), sf)
      else if lastmod entry > - 1 \<and> timestamp entry > lastmod entry
      then let stale_age = dmul (timestamp entry - lastmod entry) (pct R);
               sf = sf\<lparr>sf_lmfactor := True\<rparr>
           in if age \<ge> stale_age then Inr (trunc32 (age - stale_age), sf) else Inr (- 1, sf)
      else if age < rmin R then Inr (- 1, sf\<lparr>sf_min := True\<rparr>)
      else Inr (trunc32 (age - rmin R), sf))"

section \<open>The check\<close>

text \<open>
  The parts of \<^verbatim>\<open>refreshCheck\<close>. First the request-specific tests: \<^term>\<open>Some\<close> is an early return,
  with the request, whose \<^verbatim>\<open>nocache\<close> flag a forced reload sets.
\<close>

definition check_reload ::
  "'rx SquidConfig \<Rightarrow> 'rx refresh_t \<Rightarrow> request_t \<Rightarrow> (refresh_reason \<times> request_t) option" where
  "check_reload cfg R request =
     (if \<not> nocache_hack request then None
      else if ignore_reload R then None
      else if rule_reload_into_ims R \<or> reload_into_ims cfg then Some (STALE_RELOAD_INTO_IMS, request)
      else Some (STALE_FORCED_RELOAD, request\<lparr>nocache := True\<rparr>))"

definition check_cc :: "'rx refresh_t \<Rightarrow> int \<Rightarrow> int \<Rightarrow> HttpHdrCc \<Rightarrow> refresh_reason option" where
  "check_cc R age staleness cc =
     (if cc_max_age cc > - 1 \<and> \<not> (ignore_reload R \<and> cc_max_age cc = 0) \<and> age > cc_max_age cc
      then Some STALE_EXCEEDS_REQUEST_MAX_AGE_VALUE
      else (case cc_max_stale cc of
          None \<Rightarrow> None
        | Some ms \<Rightarrow>
            if staleness \<ge> 0
            then (if ms < 0 then Some FRESH_REQUEST_MAX_STALE_ALL
                  else if staleness < ms then Some FRESH_REQUEST_MAX_STALE_VALUE
                  else None)
            else None))"

definition check_request ::
  "'rx SquidConfig \<Rightarrow> 'rx refresh_t \<Rightarrow> int \<Rightarrow> int \<Rightarrow> request_t option \<Rightarrow> (refresh_reason \<times> request_t) option" where
  "check_request cfg R age staleness request =
     (case request of
        None \<Rightarrow> None
      | Some rq \<Rightarrow>
          (case check_reload cfg R rq of
             Some x \<Rightarrow> Some x
           | None \<Rightarrow>
               (case cache_control rq of
                  None \<Rightarrow> None
                | Some cc \<Rightarrow> map_option (\<lambda>r. (r, rq)) (check_cc R age staleness cc))))"

definition fresh_reason :: "stale_flags \<Rightarrow> refresh_reason res" where
  "fresh_reason sf =
     (if sf_expires sf then Inr FRESH_EXPIRES
      else if sf_max sf then Inl AssertFailed
      else if sf_lmfactor sf then Inr FRESH_LMFACTOR_RULE
      else if \<not> sf_min sf then Inl AssertFailed
      else Inr FRESH_MIN_RULE)"

definition stale_while_revalidate :: "'rx refresh_t \<Rightarrow> MemObject \<Rightarrow> int" where
  "stale_while_revalidate R m =
     (let swr = (case mreply m \<bind> reply_cc \<bind> cc_stale_while_revalidate of Some v \<Rightarrow> v | None \<Rightarrow> - 1)
      in if ignore_stale_while_revalidate R \<or> swr = - 1 then rule_stale_while_revalidate R else swr)"

definition max_stale_for :: "'rx SquidConfig \<Rightarrow> 'rx refresh_t \<Rightarrow> StoreEntry \<Rightarrow> int" where
  "max_stale_for cfg R entry =
     (case mem_obj entry \<bind> mreply \<bind> reply_cc \<bind> cc_stale_if_error of
        Some v \<Rightarrow> v
      | None \<Rightarrow> if rule_max_stale R \<ge> 0 then rule_max_stale R else maxStale cfg)"

text \<open>The end of the function, for a stale response that no option overrides.\<close>

definition stale_reason ::
  "'rx SquidConfig \<Rightarrow> 'rx refresh_t \<Rightarrow> StoreEntry \<Rightarrow> int \<Rightarrow> int \<Rightarrow> stale_flags \<Rightarrow> refresh_reason" where
  "stale_reason cfg R entry staleness delta sf =
     (if max_stale_for cfg R entry \<ge> 0 \<and> staleness \<ge> max_stale_for cfg R entry then STALE_MAX_STALE
      else if delta < 0 \<and> staleness + delta < 0 then STALE_WITHIN_DELTA
      else if sf_expires sf then STALE_EXPIRES
      else if sf_max sf then STALE_MAX_RULE
      else if sf_lmfactor sf then STALE_LMFACTOR_RULE
      else STALE_DEFAULT)"

definition check_time_for :: "int \<Rightarrow> int \<Rightarrow> int" where
  "check_time_for now delta = (if delta > 0 then now + delta else now)"

definition age_at :: "StoreEntry \<Rightarrow> int \<Rightarrow> int" where
  "age_at entry t = (if t > timestamp entry then t - timestamp entry else 0)"

definition refreshCheck ::
  "('rx \<Rightarrow> string \<Rightarrow> bool) \<Rightarrow> (int \<Rightarrow> rat \<Rightarrow> int) \<Rightarrow> 'rx \<Rightarrow> 'rx SquidConfig \<Rightarrow> int \<Rightarrow> StoreEntry \<Rightarrow>
   request_t option \<Rightarrow> int \<Rightarrow> (refresh_reason \<times> StoreEntry \<times> request_t option) res" where
  "refreshCheck regexec dmul null cfg now entry request delta =
     (let check_time = check_time_for now delta;
          age = age_at entry check_time;
          R = (case rule_for regexec cfg entry request of Some r \<Rightarrow> r | None \<Rightarrow> DefaultRefresh null)
      in res_bind (refreshStaleness dmul entry check_time age R no_flags) (\<lambda>(staleness, sf).
         if entry_revalidate entry \<and> staleness > - 1 then Inr (STALE_MUST_REVALIDATE, entry, request)
         else (case check_request cfg R age staleness request of
             Some (r, rq) \<Rightarrow> Inr (r, entry, Some rq)
           | None \<Rightarrow>
               if staleness < 0 then res_bind (fresh_reason sf) (\<lambda>r. Inr (r, entry, request))
               else if sf_expires sf \<and> override_expire R \<and> age < rmin R
               then Inr (FRESH_OVERRIDE_EXPIRES, entry, request)
               else if sf_lmfactor sf \<and> override_lastmod R \<and> age < rmin R
               then Inr (FRESH_OVERRIDE_LASTMOD, entry, request)
               else (case mem_obj entry of
                   None \<Rightarrow> Inr (stale_reason cfg R entry staleness delta sf, entry, request)
                 | Some m \<Rightarrow>
                     if staleness < stale_while_revalidate R m
                     then Inr (STALE_ASYNC_REFRESH,
                            entry\<lparr>mem_obj := Some (m\<lparr>mstale_while_revalidate := stale_while_revalidate R m\<rparr>)\<rparr>, request)
                     else Inr (stale_reason cfg R entry staleness delta sf, entry, request)))))"

section \<open>The callers\<close>

datatype refreshCountsEnum = rcHTTP | rcICP | rcHTCP | rcCDigest | rcStore

record RefreshCounts =
  proto :: string
  rtotal :: nat
  rstatus :: "nat list"

type_synonym refresh_counts = "refreshCountsEnum \<Rightarrow> RefreshCounts"

fun proto_name :: "refreshCountsEnum \<Rightarrow> string" where
  "proto_name rcHTTP = ''HTTP''"
| "proto_name rcICP = ''ICP''"
| "proto_name rcHTCP = ''HTCP''"
| "proto_name rcStore = ''On Store''"
| "proto_name rcCDigest = ''Cache Digests''"

text \<open>\<^verbatim>\<open>refreshInit\<close>: the counters, with an array of 300 numbers per protocol.\<close>

definition refreshInit :: refresh_counts where
  "refreshInit = (\<lambda>p. \<lparr>proto = proto_name p, rtotal = 0, rstatus = replicate 300 0\<rparr>)"

text \<open>\<^verbatim>\<open>refreshCounts[p].total++; refreshCounts[p].status[reason]++\<close>\<close>

definition count_reason :: "refreshCountsEnum \<Rightarrow> refresh_reason \<Rightarrow> refresh_counts \<Rightarrow> refresh_counts res" where
  "count_reason p r counts =
     (let c = counts p
      in if reason_code r < length (rstatus c)
         then Inr (counts(p := c\<lparr>rtotal := rtotal c + 1,
                rstatus := (rstatus c)[reason_code r := rstatus c ! reason_code r + 1]\<rparr>))
         else Inl OutOfBounds)"

definition refreshCheckHTTP where
  "refreshCheckHTTP regexec dmul null cfg now entry request counts =
     res_bind (refreshCheck regexec dmul null cfg now entry request 0) (\<lambda>(reason, entry', request').
     res_bind (count_reason rcHTTP reason counts) (\<lambda>counts'.
       Inr ((if reason_code reason < 200 then 0 else 1) :: int, entry', request', counts')))"

definition refreshCheckHTTPStale where
  "refreshCheckHTTPStale regexec dmul null cfg now entry request =
     res_bind (refreshCheck regexec dmul null cfg now entry request (- refresh_stale_window cfg)) (\<lambda>(reason, entry', request').
       Inr ((if reason = STALE_WITHIN_DELTA then - 1
             else if reason = STALE_ASYNC_REFRESH then - 2
             else if reason = STALE_MAX_STALE then 3
             else if reason_code reason < 200 then 0 else 1) :: int, entry', request'))"

definition refreshCheckStaleOK where
  "refreshCheckStaleOK regexec dmul null cfg now entry request =
     res_bind (refreshCheck regexec dmul null cfg now entry request 0) (\<lambda>(reason, entry', request').
       Inr ((if reason = STALE_MUST_REVALIDATE then 0 else if reason = STALE_MAX_STALE then 0 else 1) :: int,
            entry', request'))"

definition refreshCheckICP where
  "refreshCheckICP regexec dmul null cfg now entry request counts =
     res_bind (refreshCheck regexec dmul null cfg now entry request 30) (\<lambda>(reason, entry', request').
     res_bind (count_reason rcICP reason counts) (\<lambda>counts'.
       Inr ((if reason_code reason < 200 then 0 else 1) :: int, entry', request', counts')))"

definition refreshCheckHTCP where
  "refreshCheckHTCP regexec dmul null cfg now entry request counts =
     res_bind (refreshCheck regexec dmul null cfg now entry request 10) (\<lambda>(reason, entry', request').
     res_bind (count_reason rcHTCP reason counts) (\<lambda>counts'.
       Inr ((if reason_code reason < 200 then 0 else 1) :: int, entry', request', counts')))"

definition refreshCheckDigest where
  "refreshCheckDigest regexec dmul null cfg now entry delta counts =
     res_bind (refreshCheck regexec dmul null cfg now entry (mem_obj entry \<bind> mrequest) delta) (\<lambda>(reason, entry', request').
     res_bind (count_reason rcCDigest reason counts) (\<lambda>counts'.
       Inr ((if reason_code reason < 200 then 0 else 1) :: int, entry', request', counts')))"

definition refreshIsCachable where
  "refreshIsCachable regexec dmul null cfg now entry counts =
     res_bind (refreshCheck regexec dmul null cfg now entry None (minimum_expiry_time cfg)) (\<lambda>(reason, entry', _).
     res_bind (count_reason rcStore reason counts) (\<lambda>counts'.
       let can_revalidate = (lastmod entry > 0 \<or> (case mem_obj entry \<bind> mreply of Some rp \<Rightarrow> has_etag rp | None \<Rightarrow> False))
       in Inr ((if reason_code reason < 200 then 1 else if \<not> can_revalidate then 0 else 1) :: int, entry', counts')))"

section \<open>What fresh means\<close>

text \<open>
  How far an object is past the moment up to which it may be used without asking (negative:
  the moment has not come), and its being stale.
\<close>

definition lastmod_usable :: "StoreEntry \<Rightarrow> bool" where
  "lastmod_usable e \<longleftrightarrow> lastmod e > - 1 \<and> timestamp e > lastmod e"

definition overdue :: "(int \<Rightarrow> rat \<Rightarrow> int) \<Rightarrow> 'rx refresh_t \<Rightarrow> StoreEntry \<Rightarrow> int \<Rightarrow> int" where
  "overdue dmul R e t =
     (if expires e > - 1 then t - expires e
      else if age_at e t > rmax R then age_at e t - rmax R
      else if t < timestamp e then timestamp e - t
      else age_at e t - (if lastmod_usable e then dmul (timestamp e - lastmod e) (pct R) else rmin R))"

definition is_stale :: "(int \<Rightarrow> rat \<Rightarrow> int) \<Rightarrow> 'rx refresh_t \<Rightarrow> StoreEntry \<Rightarrow> int \<Rightarrow> bool" where
  "is_stale dmul R e t \<longleftrightarrow> 0 \<le> overdue dmul R e t"

text \<open>The client insists on a new copy, or accepts one that is stale by \<open>n\<close> seconds.\<close>

definition client_refuses :: "'rx refresh_t \<Rightarrow> int \<Rightarrow> request_t \<Rightarrow> bool" where
  "client_refuses R age rq \<longleftrightarrow>
     (nocache_hack rq \<and> \<not> ignore_reload R) \<or>
     (case cache_control rq of
        None \<Rightarrow> False
      | Some cc \<Rightarrow> cc_max_age cc > - 1 \<and> age > cc_max_age cc \<and> \<not> (ignore_reload R \<and> cc_max_age cc = 0))"

definition client_accepts :: "int \<Rightarrow> request_t \<Rightarrow> bool" where
  "client_accepts n rq \<longleftrightarrow>
     (case cache_control rq \<bind> cc_max_stale of None \<Rightarrow> False | Some ms \<Rightarrow> ms < 0 \<or> n < ms)"

text \<open>The operator's options that let a young object pass although it is stale.\<close>

definition overridden :: "'rx refresh_t \<Rightarrow> StoreEntry \<Rightarrow> int \<Rightarrow> bool" where
  "overridden R e t \<longleftrightarrow> age_at e t < rmin R \<and>
     (if expires e > - 1 then override_expire R
      else override_lastmod R \<and> lastmod_usable e \<and> age_at e t \<le> rmax R \<and> timestamp e \<le> t)"

definition servable ::
  "(int \<Rightarrow> rat \<Rightarrow> int) \<Rightarrow> 'rx refresh_t \<Rightarrow> StoreEntry \<Rightarrow> request_t option \<Rightarrow> int \<Rightarrow> bool" where
  "servable dmul R e request t \<longleftrightarrow>
     \<not> (entry_revalidate e \<and> is_stale dmul R e t) \<and>
     (case request of None \<Rightarrow> True | Some rq \<Rightarrow> \<not> client_refuses R (age_at e t) rq) \<and>
     (is_stale dmul R e t \<longrightarrow> overridden R e t \<or>
        (case request of None \<Rightarrow> False | Some rq \<Rightarrow> client_accepts (overdue dmul R e t) rq))"

abbreviation the_rule ::
  "('rx \<Rightarrow> string \<Rightarrow> bool) \<Rightarrow> 'rx \<Rightarrow> 'rx SquidConfig \<Rightarrow> StoreEntry \<Rightarrow> request_t option \<Rightarrow> 'rx refresh_t" where
  "the_rule regexec null cfg e request \<equiv>
     (case rule_for regexec cfg e request of Some r \<Rightarrow> r | None \<Rightarrow> DefaultRefresh null)"

lemma age_at_nonneg: "0 \<le> age_at e t"
  by (simp add: age_at_def)

definition flags_at :: "'rx refresh_t \<Rightarrow> StoreEntry \<Rightarrow> int \<Rightarrow> stale_flags" where
  "flags_at R e t =
     (let heuristic = (\<not> expires e > - 1); past = (age_at e t > rmax R); now_ok = (timestamp e \<le> t)
      in \<lparr>sf_expires = (expires e > - 1),
          sf_min = (heuristic \<and> \<not> past \<and> now_ok \<and> \<not> lastmod_usable e \<and> age_at e t < rmin R),
          sf_lmfactor = (heuristic \<and> \<not> past \<and> now_ok \<and> lastmod_usable e),
          sf_max = (heuristic \<and> past)\<rparr>)"

text \<open>The staleness the code computes is the time overdue, with -1 for fresh.\<close>

lemma refreshStaleness_overdue:
  assumes "overdue dmul R e t < 2147483648"
  shows "refreshStaleness dmul e t (age_at e t) R no_flags =
    Inr (if is_stale dmul R e t then overdue dmul R e t else - 1, flags_at R e t)"
proof -
  consider (expires) "expires e > - 1"
    | (max) "\<not> expires e > - 1" "age_at e t > rmax R"
    | (future) "\<not> expires e > - 1" "\<not> age_at e t > rmax R" "t < timestamp e"
    | (lm) "\<not> expires e > - 1" "\<not> age_at e t > rmax R" "\<not> t < timestamp e" "lastmod_usable e"
    | (min) "\<not> expires e > - 1" "\<not> age_at e t > rmax R" "\<not> t < timestamp e" "\<not> lastmod_usable e"
    by blast
  then show ?thesis
    using assms age_at_nonneg [of e t]
    by cases (simp_all add: refreshStaleness_def overdue_def is_stale_def flags_at_def no_flags_def Let_def
      trunc32_id lastmod_usable_def [symmetric])
qed

lemma fresh_reason_ok:
  assumes "\<not> is_stale dmul R e t"
  shows "\<exists>r. fresh_reason (flags_at R e t) = Inr r \<and> reason_code r < 200"
  using assms age_at_nonneg [of e t]
  by (auto simp: fresh_reason_def flags_at_def is_stale_def overdue_def Let_def split: if_splits)

lemma stale_reason_code: "200 \<le> reason_code (stale_reason cfg R e n delta sf)"
  by (simp add: stale_reason_def)

lemma check_request_outcome:
  assumes "n = - 1 \<or> 0 \<le> n"
  shows "case check_request cfg R age n (Some rq) of
      Some (r, _) \<Rightarrow> client_refuses R age rq \<and> 200 \<le> reason_code r \<or>
        \<not> client_refuses R age rq \<and> 0 \<le> n \<and> client_accepts n rq \<and> reason_code r < 200
    | None \<Rightarrow> \<not> client_refuses R age rq \<and> (0 \<le> n \<longrightarrow> \<not> client_accepts n rq)"
  using assms
  by (auto simp: check_request_def check_reload_def check_cc_def client_refuses_def client_accepts_def
    split: option.splits if_splits)

text \<open>The rest of the check, from the staleness \<open>n\<close> and its flags on.\<close>

lemma refreshCheck_rest:
  fixes e :: StoreEntry and cfg :: "'rx SquidConfig" and now delta :: int
  defines "t \<equiv> check_time_for now delta"
  assumes R: "R = the_rule regexec null cfg e request"
    and st: "refreshStaleness dmul e t (age_at e t) R no_flags = Inr (n, sf)"
    and n: "n = - 1 \<or> 0 \<le> n"
    and fr: "n < 0 \<Longrightarrow> \<exists>r. fresh_reason sf = Inr r \<and> reason_code r < 200"
    and ov: "0 \<le> n \<Longrightarrow> sf_expires sf \<and> override_expire R \<and> age_at e t < rmin R \<or>
      sf_lmfactor sf \<and> override_lastmod R \<and> age_at e t < rmin R \<longleftrightarrow> over"
  shows "\<exists>r e' rq'. refreshCheck regexec dmul null cfg now e request delta = Inr (r, e', rq') \<and>
    (reason_code r < 200 \<longleftrightarrow> \<not> (entry_revalidate e \<and> 0 \<le> n) \<and>
      (case request of None \<Rightarrow> True | Some rq \<Rightarrow> \<not> client_refuses R (age_at e t) rq) \<and>
      (0 \<le> n \<longrightarrow> over \<or> (case request of None \<Rightarrow> False | Some rq \<Rightarrow> client_accepts n rq)))"
proof -
  note check = refreshCheck_def [of regexec dmul null cfg now e request delta, folded R t_def, unfolded Let_def, unfolded st]
  show ?thesis
  proof (cases "entry_revalidate e \<and> 0 \<le> n")
    case True
    then show ?thesis by (auto simp: check)
  next
    case nr: False
    then have nr': "\<not> (entry_revalidate e \<and> - 1 < n)" using n by auto
    show ?thesis
    proof (cases "check_request cfg R (age_at e t) n request")
      case (Some rr)
      obtain r rq' rq where rr: "rr = (r, rq')" and rq: "request = Some rq"
        using Some by (cases rr; cases request) (auto simp: check_request_def)
      have "refreshCheck regexec dmul null cfg now e request delta = Inr (r, e, Some rq')"
        using nr' Some by (auto simp: check rr)
      then show ?thesis using check_request_outcome [OF n, where cfg = cfg and R = R and age = "age_at e t" and rq = rq] Some nr unfolding rr rq by auto
    next
      case None
      have cr: "case request of None \<Rightarrow> True
          | Some rq \<Rightarrow> \<not> client_refuses R (age_at e t) rq \<and> (0 \<le> n \<longrightarrow> \<not> client_accepts n rq)"
        using check_request_outcome [OF n, where cfg = cfg and R = R and age = "age_at e t" and rq = "the request"] None
        by (cases request) auto
      have "\<exists>r e' rq'. refreshCheck regexec dmul null cfg now e request delta = Inr (r, e', rq') \<and>
          (reason_code r < 200 \<longleftrightarrow> n < 0 \<or> over)"
        using fr ov nr' None stale_reason_code [of cfg R e n delta sf]
        by (cases "n < 0") (auto simp: check split: option.split)
      then show ?thesis using nr cr by (cases request) auto
    qed
  qed
qed

text \<open>The check returns, and with a code below 200 exactly for servable objects.\<close>

lemma refreshCheck_iff:
  fixes e :: StoreEntry and cfg :: "'rx SquidConfig"
  assumes "overdue dmul (the_rule regexec null cfg e request) e (check_time_for now delta) < 2147483648"
  shows "\<exists>r e' rq'. refreshCheck regexec dmul null cfg now e request delta = Inr (r, e', rq') \<and>
    (reason_code r < 200 \<longleftrightarrow> servable dmul (the_rule regexec null cfg e request) e request (check_time_for now delta))"
proof -
  define R t where "R = the_rule regexec null cfg e request" and "t = check_time_for now delta"
  define n where "n = (if is_stale dmul R e t then overdue dmul R e t else - 1)"
  have st: "refreshStaleness dmul e t (age_at e t) R no_flags = Inr (n, flags_at R e t)"
    using refreshStaleness_overdue [of dmul R e t] assms by (simp add: n_def R_def t_def)
  have n: "n = - 1 \<or> 0 \<le> n" "0 \<le> n \<longleftrightarrow> is_stale dmul R e t" "is_stale dmul R e t \<Longrightarrow> n = overdue dmul R e t"
    by (auto simp: n_def is_stale_def)
  have "\<exists>r e' rq'. refreshCheck regexec dmul null cfg now e request delta = Inr (r, e', rq') \<and>
    (reason_code r < 200 \<longleftrightarrow> \<not> (entry_revalidate e \<and> 0 \<le> n) \<and>
      (case request of None \<Rightarrow> True | Some rq \<Rightarrow> \<not> client_refuses R (age_at e t) rq) \<and>
      (0 \<le> n \<longrightarrow> overridden R e t \<or> (case request of None \<Rightarrow> False | Some rq \<Rightarrow> client_accepts n rq)))"
    unfolding t_def
  proof (rule refreshCheck_rest [OF R_def])
    show "refreshStaleness dmul e (check_time_for now delta) (age_at e (check_time_for now delta)) R no_flags =
      Inr (n, flags_at R e t)" using st by (simp only: t_def)
    show "n < 0 \<Longrightarrow> \<exists>r. fresh_reason (flags_at R e t) = Inr r \<and> reason_code r < 200"
      using fresh_reason_ok [of dmul R e t] n(2) by auto
  qed (auto simp: n(1) flags_at_def overridden_def Let_def t_def)
  then show ?thesis using n unfolding servable_def R_def [symmetric] t_def [symmetric] by auto
qed

section \<open>Freshness over time\<close>

text \<open>A stale object stays stale, once the clock has reached its timestamp.\<close>

lemma is_stale_mono:
  assumes "is_stale dmul R e t" "t \<le> u" "timestamp e \<le> t"
  shows "is_stale dmul R e u"
  using assms by (auto simp: is_stale_def overdue_def age_at_def split: if_splits)

lemma servable_mono:
  assumes "servable dmul R e request u" "t \<le> u" "timestamp e \<le> t"
    and "\<And>rq cc. request = Some rq \<Longrightarrow> cache_control rq = Some cc \<Longrightarrow> cc_max_stale cc = None"
  shows "servable dmul R e request t"
proof -
  have a: "age_at e t \<le> age_at e u" using assms(2) by (simp add: age_at_def)
  have acc: "\<not> client_accepts n rq" if "request = Some rq" for n rq
    using assms(4) [OF that] by (auto simp: client_accepts_def split: bind_split option.splits)
  have ref: "client_refuses R (age_at e u) rq" if "client_refuses R (age_at e t) rq" for rq
    using that a by (auto simp: client_refuses_def split: option.splits)
  have ov: "overridden R e t" if "overridden R e u"
    using that a assms(3) by (auto simp: overridden_def split: if_splits)
  note st = is_stale_mono [OF _ assms(2,3), of dmul R]
  show ?thesis
  proof (cases request)
    case None
    then show ?thesis using assms(1) st ov by (auto simp: servable_def)
  next
    case (Some rq)
    then show ?thesis using assms(1) st ov ref acc [OF Some] by (auto simp: servable_def)
  qed
qed

lemma count_reason_ok:
  "\<forall>p. length (rstatus (counts p)) = 300 \<Longrightarrow> \<exists>counts'. count_reason p r counts = Inr counts'"
  using reason_code_bound [of r] by (simp add: count_reason_def Let_def)

section \<open>Properties\<close>

text \<open>
  C21. \<^verbatim>\<open>refreshCheck\<close> decides whether an object may be served: it returns without a failed
  assertion, and its code is a fresh one (below 200) exactly if the object is not a stale one
  that must be revalidated, the client does not insist on a new copy (by a reload that is not
  ignored, or a \<^verbatim>\<open>max-age\<close> below the age), and the object is not stale, or stale by less than the
  client's \<^verbatim>\<open>max-stale\<close>, or young and covered by an override option of its rule. The time it is
  overdue must fit the \<^verbatim>\<open>int\<close> it is returned in.
\<close>

theorem refreshCheck_decides_servable:
  assumes "overdue dmul (the_rule regexec null cfg e request) e (check_time_for now delta) < 2147483648"
  shows "\<exists>r e' rq'. refreshCheck regexec dmul null cfg now e request delta = Inr (r, e', rq') \<and>
    (reason_code r < 200 \<longleftrightarrow> servable dmul (the_rule regexec null cfg e request) e request (check_time_for now delta))"
  by (rule refreshCheck_iff [OF assms])

definition demo_entry :: StoreEntry where
  "demo_entry = \<lparr>timestamp = 1000, expires = 2000, lastmod = - 1, entry_revalidate = False, mem_obj = None\<rparr>"

definition demo_config :: "unit SquidConfig" where
  "demo_config = \<lparr>refresh_rules = [], negativeTtl = 300, maxStale = - 1, reload_into_ims = False,
     minimum_expiry_time = 60, refresh_stale_window = 0\<rparr>"

definition demo_mul :: "int \<Rightarrow> rat \<Rightarrow> int" where
  "demo_mul d p = \<lfloor>of_int d * p\<rfloor>"

lemma demo_rule: "the_rule (\<lambda>_ _. True) () demo_config demo_entry None = DefaultRefresh ()"
  by (simp add: rule_for_def demo_entry_def demo_config_def refreshUncompiledPattern_def)

theorem refreshCheck_decides_servable_witness:
  "\<exists>r e' rq'. refreshCheck (\<lambda>_ _. True) demo_mul () demo_config 1500 demo_entry None 0 = Inr (r, e', rq') \<and> reason_code r < 200"
proof -
  have "\<exists>r e' rq'. refreshCheck (\<lambda>_ _. True) demo_mul () demo_config 1500 demo_entry None 0 = Inr (r, e', rq') \<and>
    (reason_code r < 200 \<longleftrightarrow> servable demo_mul (the_rule (\<lambda>_ _. True) () demo_config demo_entry None) demo_entry None (check_time_for 1500 0))"
    by (rule refreshCheck_decides_servable) (simp add: overdue_def demo_entry_def check_time_for_def)
  moreover have "servable demo_mul R demo_entry None 1500" for R :: "unit refresh_t"
    by (simp add: servable_def is_stale_def overdue_def demo_entry_def)
  ultimately show ?thesis by (simp add: check_time_for_def)
qed

text \<open>
  A neighbour that is told of a hit gets one: if the check for ICP queries, which looks 30
  seconds ahead, calls an object fresh, then the check for HTTP requests calls it fresh at the
  same moment, provided the clock has reached the timestamp of the object and the request has no
  \<^verbatim>\<open>max-stale\<close> directive; both checks count their result inside the arrays.
\<close>

theorem icp_fresh_implies_http_fresh:
  assumes "refreshCheckICP regexec dmul null cfg now e request counts = Inr (0, e1, rq1, counts1)"
    and "timestamp e \<le> now"
    and "\<And>rq cc. request = Some rq \<Longrightarrow> cache_control rq = Some cc \<Longrightarrow> cc_max_stale cc = None"
    and "overdue dmul (the_rule regexec null cfg e request) e now < 2147483648"
    and "overdue dmul (the_rule regexec null cfg e request) e (now + 30) < 2147483648"
    and "\<forall>p. length (rstatus (counts p)) = 300"
  shows "\<exists>e2 rq2 counts2. refreshCheckHTTP regexec dmul null cfg now e request counts = Inr (0, e2, rq2, counts2)"
proof -
  let ?R = "the_rule regexec null cfg e request"
  have t: "check_time_for now 30 = now + 30" "check_time_for now 0 = now" by (simp_all add: check_time_for_def)
  obtain r e' rq' where f: "refreshCheck regexec dmul null cfg now e request 30 = Inr (r, e', rq')"
    "reason_code r < 200 \<longleftrightarrow> servable dmul ?R e request (now + 30)"
    using refreshCheck_iff [where dmul = dmul and regexec = regexec and null = null and cfg = cfg and e = e and request = request and now = now and delta = 30] assms(5) unfolding t by blast
  have "reason_code r < 200"
    using assms(1) f(1) by (auto simp: refreshCheckICP_def res_bind_Inr_iff split: if_splits)
  then have "servable dmul ?R e request now" using f(2) servable_mono [of dmul ?R e request "now + 30" now] assms(2,3) by auto
  moreover obtain r0 e0 rq0 where g: "refreshCheck regexec dmul null cfg now e request 0 = Inr (r0, e0, rq0)"
    "reason_code r0 < 200 \<longleftrightarrow> servable dmul ?R e request now"
    using refreshCheck_iff [where dmul = dmul and regexec = regexec and null = null and cfg = cfg and e = e and request = request and now = now and delta = 0] assms(4) unfolding t by blast
  moreover obtain c where "count_reason rcHTTP r0 counts = Inr c" using count_reason_ok [OF assms(6)] by blast
  ultimately show ?thesis by (auto simp: refreshCheckHTTP_def)
qed

theorem icp_fresh_implies_http_fresh_witness:
  "\<exists>e1 rq1 c1 e2 rq2 c2. refreshCheckICP (\<lambda>_ _. True) demo_mul () demo_config 1500 demo_entry None refreshInit = Inr (0, e1, rq1, c1) \<and>
     refreshCheckHTTP (\<lambda>_ _. True) demo_mul () demo_config 1500 demo_entry None refreshInit = Inr (0, e2, rq2, c2)"
proof -
  have len: "\<forall>p. length (rstatus (refreshInit p)) = 300" by (simp add: refreshInit_def)
  then obtain c where c: "count_reason rcICP FRESH_EXPIRES refreshInit = Inr c" using count_reason_ok by blast
  have "refreshCheck (\<lambda>_ _. True) demo_mul () demo_config 1500 demo_entry None 30 = Inr (FRESH_EXPIRES, demo_entry, None)"
    unfolding refreshCheck_def Let_def demo_rule
    by (simp add: check_time_for_def refreshStaleness_def demo_entry_def check_request_def fresh_reason_def no_flags_def)
  with c have i: "refreshCheckICP (\<lambda>_ _. True) demo_mul () demo_config 1500 demo_entry None refreshInit = Inr (0, demo_entry, None, c)"
    by (simp add: refreshCheckICP_def)
  have "\<exists>e2 rq2 counts2. refreshCheckHTTP (\<lambda>_ _. True) demo_mul () demo_config 1500 demo_entry None refreshInit = Inr (0, e2, rq2, counts2)"
    by (rule icp_fresh_implies_http_fresh [OF i _ _ _ _ len]) (simp_all add: demo_entry_def overdue_def)
  with i show ?thesis by blast
qed

end
