(* ===== verification/Cbdata.thy ===== *)
theory Cbdata
  imports Header_Tools
begin

text \<open>
  The registry of callback data, \<^verbatim>\<open>src/cbdata.c\<close> (without \<^verbatim>\<open>HASHED_CBDATA\<close>, where the header stands
  in front of the data): objects that are passed to callbacks are reference counted, and an
  object that is freed while callbacks are pending only becomes invalid.

  The heap maps addresses to headers; an address that is not in it was never handed out or
  has been given back. The cookie in the header is correct exactly for the objects in the heap,
  so the test of the cookie is the test that the object exists: a read of a header that was
  given back is \<^const>\<open>UseAfterFree\<close>. Addresses are never reused by the model. The destructor of
  a type is an uninterpreted name; its calls are recorded in \<open>freed\<close>.
\<close>

section \<open>The operations\<close>

record cbdata =
  cvalid :: bool
  locks :: nat
  ctype :: nat

text \<open>An entry of \<^verbatim>\<open>cbdata_index\<close>: the label of the pool, if it is created, and the destructor.\<close>

record cbdata_index =
  pool :: "string option"
  free_func :: "string option"

record cbdata_state =
  cells :: "nat \<Rightarrow> cbdata option"
  cbdata_types :: "cbdata_index list"
  cbdataCount :: int
  next_cell :: nat
  freed :: "(string \<times> nat) list"

definition cbdata_start :: cbdata_state where
  "cbdata_start = \<lparr>cells = (\<lambda>_. None), cbdata_types = [], cbdataCount = 0, next_cell = 0, freed = []\<rparr>"

definition cbdataInitType :: "nat \<Rightarrow> string \<Rightarrow> string option \<Rightarrow> cbdata_state \<Rightarrow> cbdata_state" where
  "cbdataInitType type name ff s =
     (let index = cbdata_types s @ replicate (type + 1 - length (cbdata_types s)) \<lparr>pool = None, free_func = None\<rparr>
      in if pool (index ! type) \<noteq> None then s\<lparr>cbdata_types := index\<rparr>
         else s\<lparr>cbdata_types := index[type := \<lparr>pool = Some (''cbdata '' @ name @ '' ('' @ show_nat type @ '')''), free_func = ff\<rparr>]\<rparr>)"

definition cbdataAddType :: "nat \<Rightarrow> string \<Rightarrow> string option \<Rightarrow> cbdata_state \<Rightarrow> nat \<times> cbdata_state" where
  "cbdataAddType type name ff s =
     (if type \<noteq> 0 then (type, s)
      else (length (cbdata_types s), cbdataInitType (length (cbdata_types s)) name ff s))"

text \<open>The header of an object; the cookie is right as long as the object exists.\<close>

definition header :: "cbdata_state \<Rightarrow> nat \<Rightarrow> cbdata res" where
  "header s p = (case cells s p of None \<Rightarrow> Inl UseAfterFree | Some c \<Rightarrow> Inr c)"

definition cbdataInternalAlloc :: "nat \<Rightarrow> cbdata_state \<Rightarrow> (cbdata_state \<times> nat) res" where
  "cbdataInternalAlloc type s =
     (if \<not> (type > 0 \<and> type < length (cbdata_types s)) then Inl AssertFailed
      else let p = next_cell s
           in Inr (s\<lparr>cells := (cells s)(p \<mapsto> \<lparr>cvalid = True, locks = 0, ctype = type\<rparr>),
                     cbdataCount := cbdataCount s + 1, next_cell := p + 1\<rparr>, p))"

text \<open>The common end of \<^verbatim>\<open>cbdataInternalFree\<close> and \<^verbatim>\<open>cbdataUnlock\<close>: destructor, then the memory.\<close>

definition release :: "nat \<Rightarrow> cbdata \<Rightarrow> cbdata_state \<Rightarrow> cbdata_state res" where
  "release p c s =
     (if \<not> ctype c < length (cbdata_types s) then Inl OutOfBounds
      else Inr (s\<lparr>cbdataCount := cbdataCount s - 1,
             freed := (case free_func (cbdata_types s ! ctype c) of
                         Some f \<Rightarrow> freed s @ [(f, p)] | None \<Rightarrow> freed s),
             cells := (cells s)(p := None)\<rparr>))"

definition cbdataInternalFree :: "nat \<Rightarrow> cbdata_state \<Rightarrow> cbdata_state res" where
  "cbdataInternalFree p s =
     res_bind (header s p) (\<lambda>c.
     res_bind (c_assert (cvalid c)) (\<lambda>_.
       let c = c\<lparr>cvalid := False\<rparr>; s = s\<lparr>cells := (cells s)(p \<mapsto> c)\<rparr>
       in if locks c \<noteq> 0 then Inr s else release p c s))"

definition cbdataLocked :: "nat \<Rightarrow> cbdata_state \<Rightarrow> nat res" where
  "cbdataLocked p s =
     res_bind (header s p) (\<lambda>c.
     res_bind (c_assert (locks c \<noteq> 0 \<or> cvalid c)) (\<lambda>_. Inr (locks c)))"

text \<open>The three operations that accept a null pointer.\<close>

definition cbdataLock :: "nat option \<Rightarrow> cbdata_state \<Rightarrow> cbdata_state res" where
  "cbdataLock ptr s =
     (case ptr of
        None \<Rightarrow> Inr s
      | Some p \<Rightarrow>
          res_bind (header s p) (\<lambda>c.
          res_bind (c_assert (locks c \<noteq> 0 \<or> cvalid c)) (\<lambda>_.
            Inr (s\<lparr>cells := (cells s)(p \<mapsto> c\<lparr>locks := locks c + 1\<rparr>)\<rparr>))))"

definition cbdataUnlock :: "nat option \<Rightarrow> cbdata_state \<Rightarrow> cbdata_state res" where
  "cbdataUnlock ptr s =
     (case ptr of
        None \<Rightarrow> Inr s
      | Some p \<Rightarrow>
          res_bind (header s p) (\<lambda>c.
          res_bind (c_assert (locks c > 0)) (\<lambda>_.
            let c = c\<lparr>locks := locks c - 1\<rparr>; s = s\<lparr>cells := (cells s)(p \<mapsto> c)\<rparr>
            in if cvalid c \<or> locks c \<noteq> 0 then Inr s else release p c s)))"

definition cbdataValid :: "nat option \<Rightarrow> cbdata_state \<Rightarrow> bool res" where
  "cbdataValid ptr s =
     (case ptr of
        None \<Rightarrow> Inr True
      | Some p \<Rightarrow>
          res_bind (header s p) (\<lambda>c.
          res_bind (c_assert (locks c > 0)) (\<lambda>_. Inr (cvalid c))))"

section \<open>The invariant of the registry\<close>

text \<open>
  Every object is valid or locked (an invalid object without locks is given back at once),
  has a type of the index and an address that was handed out, and the counter counts them.
\<close>

definition cb_ok :: "cbdata_state \<Rightarrow> bool" where
  "cb_ok s \<longleftrightarrow> finite (dom (cells s)) \<and> cbdataCount s = int (card (dom (cells s))) \<and>
     (\<forall>p c. cells s p = Some c \<longrightarrow> p < next_cell s \<and> ctype c < length (cbdata_types s) \<and> (cvalid c \<or> 0 < locks c))"

definition lock_count :: "cbdata_state \<Rightarrow> nat \<Rightarrow> nat option" where
  "lock_count s p = map_option locks (cells s p)"

definition is_valid :: "cbdata_state \<Rightarrow> nat \<Rightarrow> bool" where
  "is_valid s p \<longleftrightarrow> (\<exists>c. cells s p = Some c \<and> cvalid c)"

lemma cb_ok_start: "cb_ok cbdata_start"
  by (simp add: cb_ok_def cbdata_start_def)

lemma cb_ok_cell:
  "cb_ok s \<Longrightarrow> cells s p = Some c \<Longrightarrow> ctype c < length (cbdata_types s) \<and> (cvalid c \<or> 0 < locks c) \<and> p < next_cell s"
  by (simp add: cb_ok_def)

lemma cb_ok_types:
  "cb_ok s \<Longrightarrow> cb_ok (cbdataInitType type name ff s) \<and> cells (cbdataInitType type name ff s) = cells s"
  by (fastforce simp: cb_ok_def cbdataInitType_def Let_def)

lemma alloc_ok:
  assumes "cb_ok s" "0 < type" "type < length (cbdata_types s)"
  shows "\<exists>s' p. cbdataInternalAlloc type s = Inr (s', p) \<and> cb_ok s' \<and> lock_count s p = None \<and>
    lock_count s' = (lock_count s)(p := Some 0) \<and> is_valid s' = (is_valid s)(p := True)"
proof -
  let ?p = "next_cell s"
  have "cells s ?p = None" using cb_ok_cell [OF assms(1), of ?p] by (cases "cells s ?p") auto
  then have n: "?p \<notin> dom (cells s)" by auto
  show ?thesis
    using assms n \<open>cells s ?p = None\<close>
    by (auto simp: cbdataInternalAlloc_def cb_ok_def lock_count_def is_valid_def fun_eq_iff less_SucI Let_def)
qed

text \<open>Replacing a header by another one of the same type, and giving it back.\<close>

lemma cb_ok_update:
  assumes "cb_ok s" "cells s p = Some c" "ctype c' = ctype c" "cvalid c' \<or> 0 < locks c'"
  shows "cb_ok (s\<lparr>cells := (cells s)(p \<mapsto> c')\<rparr>)"
proof -
  have "insert p (dom (cells s)) = dom (cells s)" using assms(2) by auto
  then show ?thesis using assms by (auto simp: cb_ok_def)
qed

lemma release_ok:
  assumes "cb_ok s" "cells s p = Some c" "ctype c' = ctype c"
  shows "\<exists>s'. release p c' (s\<lparr>cells := (cells s)(p \<mapsto> c')\<rparr>) = Inr s' \<and> cb_ok s' \<and> cells s' = (cells s)(p := None) \<and>
    cbdata_types s' = cbdata_types s \<and> next_cell s' = next_cell s"
proof -
  have p: "p \<in> dom (cells s)" using assms(2) by auto
  then have "card (dom (cells s)) = Suc (card (dom (cells s) - {p}))"
    using assms(1) unfolding cb_ok_def by (metis card_Suc_Diff1)
  then show ?thesis using assms by (auto simp: release_def cb_ok_def)
qed

lemma free_ok:
  assumes "cb_ok s" "is_valid s p" "lock_count s p = Some n"
  shows "\<exists>s'. cbdataInternalFree p s = Inr s' \<and> cb_ok s' \<and>
    lock_count s' = (lock_count s)(p := (if n = 0 then None else Some n)) \<and> is_valid s' = (is_valid s)(p := False) \<and>
    cbdata_types s' = cbdata_types s"
proof -
  obtain c where c: "cells s p = Some c" "cvalid c" "locks c = n"
    using assms(2,3) by (auto simp: is_valid_def lock_count_def)
  show ?thesis
  proof (cases "n = 0")
    case True
    then obtain s' where "release p (c\<lparr>cvalid := False\<rparr>) (s\<lparr>cells := (cells s)(p \<mapsto> c\<lparr>cvalid := False\<rparr>)\<rparr>) = Inr s'"
      "cb_ok s'" "cells s' = (cells s)(p := None)" "cbdata_types s' = cbdata_types s"
      using release_ok [OF assms(1) c(1), of "c\<lparr>cvalid := False\<rparr>"] by auto
    then show ?thesis using c True
      by (auto simp: cbdataInternalFree_def header_def lock_count_def is_valid_def fun_eq_iff)
  next
    case False
    then show ?thesis using c cb_ok_update [OF assms(1) c(1), of "c\<lparr>cvalid := False\<rparr>"]
      by (auto simp: cbdataInternalFree_def header_def lock_count_def is_valid_def fun_eq_iff)
  qed
qed

lemma lock_ok:
  assumes "cb_ok s" "lock_count s p = Some n"
  shows "\<exists>s'. cbdataLock (Some p) s = Inr s' \<and> cb_ok s' \<and> lock_count s' = (lock_count s)(p := Some (Suc n)) \<and>
    is_valid s' = is_valid s \<and> cbdata_types s' = cbdata_types s"
proof -
  obtain c where c: "cells s p = Some c" "locks c = n" using assms(2) by (auto simp: lock_count_def)
  then have "locks c \<noteq> 0 \<or> cvalid c" using cb_ok_cell [OF assms(1) c(1)] by auto
  then show ?thesis using c cb_ok_update [OF assms(1) c(1), of "c\<lparr>locks := locks c + 1\<rparr>"]
    by (auto simp: cbdataLock_def header_def lock_count_def is_valid_def fun_eq_iff)
qed

lemma unlock_ok:
  assumes "cb_ok s" "lock_count s p = Some (Suc n)"
  shows "\<exists>s'. cbdataUnlock (Some p) s = Inr s' \<and> cb_ok s' \<and>
    lock_count s' = (lock_count s)(p := (if is_valid s p \<or> n \<noteq> 0 then Some n else None)) \<and>
    is_valid s' = is_valid s \<and> cbdata_types s' = cbdata_types s"
proof -
  obtain c where c: "cells s p = Some c" "locks c = Suc n" using assms(2) by (auto simp: lock_count_def)
  let ?c = "c\<lparr>locks := n\<rparr>"
  show ?thesis
  proof (cases "cvalid c \<or> n \<noteq> 0")
    case True
    then have "cb_ok (s\<lparr>cells := (cells s)(p \<mapsto> ?c)\<rparr>)" by (intro cb_ok_update [OF assms(1) c(1)]) auto
    then show ?thesis using c True by (auto simp: cbdataUnlock_def header_def lock_count_def is_valid_def fun_eq_iff)
  next
    case False
    then obtain s' where "release p ?c (s\<lparr>cells := (cells s)(p \<mapsto> ?c)\<rparr>) = Inr s'" "cb_ok s'"
      "cells s' = (cells s)(p := None)" "cbdata_types s' = cbdata_types s"
      using release_ok [OF assms(1) c(1), of ?c] by auto
    then show ?thesis using c False by (auto simp: cbdataUnlock_def header_def lock_count_def is_valid_def fun_eq_iff)
  qed
qed

lemma valid_ok:
  "lock_count s p = Some (Suc n) \<Longrightarrow> cbdataValid (Some p) s = Inr (is_valid s p)"
  by (auto simp: cbdataValid_def header_def lock_count_def is_valid_def)

section \<open>The interface of the registry\<close>

text \<open>
  What a subsystem that keeps pointers to callback data relies on. The lock count of an
  object is \<^term>\<open>None\<close> when the object does not exist. The client lemma is about giving up a whole
  list of references, as at shutdown.
\<close>

locale callback_registry =
  fixes ok :: "'s \<Rightarrow> bool"
    and count :: "'s \<Rightarrow> nat \<Rightarrow> nat option"
    and valid :: "'s \<Rightarrow> nat \<Rightarrow> bool"
    and lock :: "nat option \<Rightarrow> 's \<Rightarrow> 's res"
    and unlock :: "nat option \<Rightarrow> 's \<Rightarrow> 's res"
    and check :: "nat option \<Rightarrow> 's \<Rightarrow> bool res"
  assumes null: "lock None s = Inr s" "unlock None s = Inr s" "check None s = Inr True"
    and lock_law: "ok s \<Longrightarrow> count s p = Some n \<Longrightarrow>
      \<exists>s'. lock (Some p) s = Inr s' \<and> ok s' \<and> count s' = (count s)(p := Some (Suc n)) \<and> valid s' = valid s"
    and unlock_law: "ok s \<Longrightarrow> count s p = Some (Suc n) \<Longrightarrow>
      \<exists>s'. unlock (Some p) s = Inr s' \<and> ok s' \<and>
        count s' = (count s)(p := (if valid s p \<or> n \<noteq> 0 then Some n else None)) \<and> valid s' = valid s"
    and check_law: "count s p = Some (Suc n) \<Longrightarrow> check (Some p) s = Inr (valid s p)"
begin

text \<open>Enough locks are held for the references in a list.\<close>

definition held :: "'s \<Rightarrow> nat \<Rightarrow> nat" where
  "held s p = (case count s p of None \<Rightarrow> 0 | Some n \<Rightarrow> n)"

definition covers :: "'s \<Rightarrow> nat option list \<Rightarrow> (nat \<Rightarrow> nat) \<Rightarrow> bool" where
  "covers s refs ext \<longleftrightarrow> (\<forall>p. held s p = count_list refs (Some p) + ext p)"

lemma covers_lock:
  assumes "ok s" "covers s refs ext" "case arg of None \<Rightarrow> True | Some p \<Rightarrow> count s p \<noteq> None"
  shows "\<exists>s'. lock arg s = Inr s' \<and> ok s' \<and> valid s' = valid s \<and> covers s' (arg # refs) ext"
proof (cases arg)
  case None
  then show ?thesis using assms by (simp add: null covers_def)
next
  case (Some p)
  then obtain n where n: "count s p = Some n" using assms(3) by auto
  from lock_law [OF assms(1) n] obtain s' where s': "lock (Some p) s = Inr s'" "ok s'" "valid s' = valid s"
    "count s' = (count s)(p := Some (Suc n))" by blast
  have "held s' q = held s q + (if q = p then 1 else 0)" for q by (simp add: held_def s'(4) n)
  then have "covers s' (arg # refs) ext" using assms(2) by (auto simp: covers_def Some)
  with s' show ?thesis by (auto simp: Some)
qed

lemma covers_unlock:
  assumes "ok s" "covers s (xs @ arg # ys) ext"
  shows "\<exists>v s'. check arg s = Inr v \<and> (case arg of None \<Rightarrow> v | Some p \<Rightarrow> v = valid s p) \<and>
    unlock arg s = Inr s' \<and> ok s' \<and> valid s' = valid s \<and> covers s' (xs @ ys) ext"
proof (cases arg)
  case None
  then show ?thesis using assms by (auto simp: null covers_def)
next
  case (Some p)
  have h: "held s q = count_list (xs @ ys) (Some q) + ext q + (if q = p then 1 else 0)" for q
    using assms(2) by (simp add: covers_def Some)
  then obtain n where n: "count s p = Some (Suc n)" "n = count_list (xs @ ys) (Some p) + ext p"
    using h [of p] by (cases "count s p") (auto simp: held_def)
  from unlock_law [OF assms(1) n(1)] obtain s' where s': "unlock (Some p) s = Inr s'" "ok s'" "valid s' = valid s"
    "count s' = (count s)(p := (if valid s p \<or> n \<noteq> 0 then Some n else None))" by blast
  have "held s' q = (if q = p then n else held s q)" for q by (simp add: held_def s'(4))
  then have "covers s' (xs @ ys) ext" using h n(2) by (simp add: covers_def)
  then show ?thesis using s' check_law [OF n(1)] by (simp add: Some)
qed

fun unlock_all :: "nat option list \<Rightarrow> 's \<Rightarrow> 's res" where
  "unlock_all [] s = Inr s"
| "unlock_all (r # rs) s = res_bind (unlock r s) (unlock_all rs)"

lemma unlock_all_ok:
  "ok s \<Longrightarrow> covers s refs ext \<Longrightarrow> \<exists>s'. unlock_all refs s = Inr s' \<and> ok s' \<and> covers s' [] ext"
proof (induction refs arbitrary: s)
  case (Cons r rs)
  from covers_unlock [OF Cons.prems(1), of "[]" r rs ext] Cons.prems(2)
  obtain s1 where "unlock r s = Inr s1" "ok s1" "covers s1 rs ext" by auto
  with Cons.IH show ?case by auto
qed simp

end

interpretation cb: callback_registry cb_ok lock_count is_valid cbdataLock cbdataUnlock cbdataValid
proof unfold_locales
  fix s p n
  assume "cb_ok s" "lock_count s p = Some n"
  from lock_ok [OF this]
  show "\<exists>s'. cbdataLock (Some p) s = Inr s' \<and> cb_ok s' \<and> lock_count s' = (lock_count s)(p := Some (Suc n)) \<and> is_valid s' = is_valid s"
    by blast
next
  fix s p n
  assume "cb_ok s" "lock_count s p = Some (Suc n)"
  from unlock_ok [OF this]
  show "\<exists>s'. cbdataUnlock (Some p) s = Inr s' \<and> cb_ok s' \<and>
    lock_count s' = (lock_count s)(p := (if is_valid s p \<or> n \<noteq> 0 then Some n else None)) \<and> is_valid s' = is_valid s"
    by blast
qed (auto simp: cbdataLock_def cbdataUnlock_def cbdataValid_def [of None] valid_ok)

end
