(* ===== verification/Events.thy ===== *)
theory Events
  imports Complex_Main "HOL-Library.Multiset" Cbdata
begin

text \<open>
  The event queue of \<^verbatim>\<open>src/event.c\<close> on top of the registry of \<^theory_text>\<open>Cbdata\<close>.

  The linked list \<^verbatim>\<open>tasks\<close> is a list of entries. A handler function is a name of an arbitrary
  type and its argument an address of the registry or null. Times, \<^verbatim>\<open>double\<close> in the code, are
  rational numbers. A handler may call every operation of the program, so \<^verbatim>\<open>eventRun\<close> takes what
  the handlers do as a parameter, and its loop, which ends only if they behave, has fuel.

  The handlers and the rest of the program are also modelled as a transition system: one
  rule per operation, with the conditions the callers respect, and the iterations of \<^verbatim>\<open>eventRun\<close>
  as separate steps between which anything may happen. In all reachable states no object is
  touched after it was given back, and no handler gets an invalid object.
\<close>

section \<open>The operations\<close>

record 'f ev_entry =
  func :: 'f
  arg :: "nat option"
  ev_name :: string
  when_due :: rat
  weight :: int
  ev_id :: int

record 'f ev_state =
  tasks :: "'f ev_entry list"
  run_id :: int
  last_event_ran :: "string option"
  current_dtime :: rat
  registry :: cbdata_state

text \<open>The insertion after the last event with the same or an earlier time.\<close>

definition insert_event :: "'f ev_entry \<Rightarrow> 'f ev_entry list \<Rightarrow> 'f ev_entry list" where
  "insert_event event ts =
     takeWhile (\<lambda>e. \<not> when_due e > when_due event) ts @ event # dropWhile (\<lambda>e. \<not> when_due e > when_due event) ts"

definition eventAdd :: "string \<Rightarrow> 'f \<Rightarrow> nat option \<Rightarrow> rat \<Rightarrow> int \<Rightarrow> 'f ev_state \<Rightarrow> 'f ev_state res" where
  "eventAdd name f a delay wt st =
     res_bind (cbdataLock a (registry st)) (\<lambda>reg.
       let event = \<lparr>func = f, arg = a, ev_name = name, when_due = current_dtime st + delay, weight = wt, ev_id = run_id st\<rparr>
       in Inr (st\<lparr>registry := reg, tasks := insert_event event (tasks st)\<rparr>))"

text \<open>\<open>rnd\<close> is the number between 0 and 1 that \<^verbatim>\<open>drand48\<close> returns.\<close>

definition eventAddIsh :: "rat \<Rightarrow> string \<Rightarrow> 'f \<Rightarrow> nat option \<Rightarrow> rat \<Rightarrow> int \<Rightarrow> 'f ev_state \<Rightarrow> 'f ev_state res" where
  "eventAddIsh rnd name f a delta_ish wt st =
     (let two_third = 2 * delta_ish / 3;
          delay = (if delta_ish \<ge> 3 then two_third + rnd * two_third else delta_ish)
      in eventAdd name f a delay wt st)"

text \<open>Whether an entry is the one a call of \<^verbatim>\<open>eventDelete\<close> looks for; a null argument matches all.\<close>

definition matches :: "'f \<Rightarrow> nat option \<Rightarrow> 'f ev_entry \<Rightarrow> bool" where
  "matches f a e \<longleftrightarrow> func e = f \<and> (a = None \<or> arg e = a)"

text \<open>The result says whether \<^verbatim>\<open>debug_trap\<close> was called: nothing was found for an argument.\<close>

definition eventDelete :: "'f \<Rightarrow> nat option \<Rightarrow> 'f ev_state \<Rightarrow> ('f ev_state \<times> bool) res" where
  "eventDelete f a st =
     (case dropWhile (\<lambda>e. \<not> matches f a e) (tasks st) of
        [] \<Rightarrow> Inr (st, a \<noteq> None)
      | e # rest \<Rightarrow>
          res_bind (cbdataUnlock (arg e) (registry st)) (\<lambda>reg.
            Inr (st\<lparr>registry := reg, tasks := takeWhile (\<lambda>e. \<not> matches f a e) (tasks st) @ rest\<rparr>, False)))"

text \<open>
  One iteration of the loop of \<^verbatim>\<open>eventRun\<close>: \<^term>\<open>None\<close> is a \<^verbatim>\<open>break\<close>; otherwise the state in which the
  handler is called, the call, if the object is still valid, and the weight so far.
\<close>

definition run_iter :: "int \<Rightarrow> 'f ev_state \<Rightarrow> ('f ev_state \<times> ('f \<times> nat option) option \<times> int) option res" where
  "run_iter wt st =
     (case tasks st of
        [] \<Rightarrow> Inr None
      | e # rest \<Rightarrow>
          if when_due e > current_dtime st \<or> ev_id e = run_id st \<or> wt \<noteq> 0 then Inr None
          else res_bind (cbdataValid (arg e) (registry st)) (\<lambda>valid.
               res_bind (cbdataUnlock (arg e) (registry st)) (\<lambda>reg.
                 let st = st\<lparr>tasks := rest, registry := reg\<rparr>
                 in Inr (Some (if valid
                               then (st\<lparr>last_event_ran := Some (ev_name e)\<rparr>, Some (func e, arg e), wt + weight e)
                               else (st, None, wt))))))"

text \<open>The loop; \<^term>\<open>None\<close> means that the fuel was used up.\<close>

fun run_loop ::
  "nat \<Rightarrow> ('f \<Rightarrow> nat option \<Rightarrow> 'f ev_state \<Rightarrow> 'f ev_state res) \<Rightarrow> int \<Rightarrow> 'f ev_state \<Rightarrow> 'f ev_state res option" where
  "run_loop 0 handler wt st = None"
| "run_loop (Suc fuel) handler wt st =
     (case run_iter wt st of
        Inl flt \<Rightarrow> Some (Inl flt)
      | Inr None \<Rightarrow> Some (Inr st)
      | Inr (Some (st', call, wt')) \<Rightarrow>
          (case (case call of None \<Rightarrow> Inr st' | Some (f, a) \<Rightarrow> handler f a st') of
             Inl flt \<Rightarrow> Some (Inl flt)
           | Inr st'' \<Rightarrow> run_loop fuel handler wt' st''))"

definition due :: "'f ev_state \<Rightarrow> bool" where
  "due st \<longleftrightarrow> tasks st \<noteq> [] \<and> \<not> when_due (hd (tasks st)) > current_dtime st"

definition eventRun ::
  "nat \<Rightarrow> ('f \<Rightarrow> nat option \<Rightarrow> 'f ev_state \<Rightarrow> 'f ev_state res) \<Rightarrow> 'f ev_state \<Rightarrow> 'f ev_state res option" where
  "eventRun fuel handler st =
     (if \<not> due st then Some (Inr st)
      else run_loop fuel handler 0 (st\<lparr>run_id := run_id st + 1\<rparr>))"

text \<open>The loop of \<^verbatim>\<open>eventCleanup\<close> over the list: the entries that stay, and the registry.\<close>

fun cleanup_loop :: "'f ev_entry list \<Rightarrow> cbdata_state \<Rightarrow> ('f ev_entry list \<times> cbdata_state) res" where
  "cleanup_loop [] reg = Inr ([], reg)"
| "cleanup_loop (e # ts) reg =
     res_bind (cbdataValid (arg e) reg) (\<lambda>valid.
       if valid then res_bind (cleanup_loop ts reg) (\<lambda>(ts', reg'). Inr (e # ts', reg'))
       else res_bind (cbdataUnlock (arg e) reg) (cleanup_loop ts))"

definition eventCleanup :: "'f ev_state \<Rightarrow> 'f ev_state res" where
  "eventCleanup st =
     res_bind (cleanup_loop (tasks st) (registry st)) (\<lambda>(ts, reg). Inr (st\<lparr>tasks := ts, registry := reg\<rparr>))"

definition eventNextTime :: "'f ev_state \<Rightarrow> int" where
  "eventNextTime st =
     (case tasks st of [] \<Rightarrow> 10000 | e # _ \<Rightarrow> \<lceil>(when_due e - current_dtime st) * 1000\<rceil>)"

fun free_events :: "'f ev_entry list \<Rightarrow> cbdata_state \<Rightarrow> cbdata_state res" where
  "free_events [] reg = Inr reg"
| "free_events (e # ts) reg = res_bind (cbdataUnlock (arg e) reg) (free_events ts)"

definition eventFreeMemory :: "'f ev_state \<Rightarrow> 'f ev_state res" where
  "eventFreeMemory st =
     res_bind (free_events (tasks st) (registry st)) (\<lambda>reg. Inr (st\<lparr>tasks := [], registry := reg\<rparr>))"

definition eventFind :: "'f \<Rightarrow> nat option \<Rightarrow> 'f ev_state \<Rightarrow> bool" where
  "eventFind f a st \<longleftrightarrow> (\<exists>e\<in>set (tasks st). func e = f \<and> arg e = a)"

section \<open>The program as a transition system\<close>

text \<open>
  A world: the queue, the references to callback data that other parts of the program hold
  (they are not recorded by the program itself), and whether \<^verbatim>\<open>eventRun\<close> is active, with its
  weight.
\<close>

record 'f world =
  ev :: "'f ev_state"
  ext :: "nat \<Rightarrow> nat"
  running :: "int option"

definition known :: "'f world \<Rightarrow> nat option \<Rightarrow> bool" where
  "known w a \<longleftrightarrow> (case a of None \<Rightarrow> True | Some p \<Rightarrow> lock_count (registry (ev w)) p \<noteq> None)"

inductive step :: "'f world \<Rightarrow> 'f world \<Rightarrow> bool" where
  add: "known w a \<Longrightarrow> eventAdd name f a delay wt (ev w) = Inr st \<Longrightarrow> step w (w\<lparr>ev := st\<rparr>)"
| delete: "eventDelete f a (ev w) = Inr (st, trapped) \<Longrightarrow> step w (w\<lparr>ev := st\<rparr>)"
| cleanup: "eventCleanup (ev w) = Inr st \<Longrightarrow> step w (w\<lparr>ev := st\<rparr>)"
| alloc: "cbdataInternalAlloc type (registry (ev w)) = Inr (reg, p) \<Longrightarrow> step w (w\<lparr>ev := (ev w)\<lparr>registry := reg\<rparr>\<rparr>)"
| free: "is_valid (registry (ev w)) p \<Longrightarrow> cbdataInternalFree p (registry (ev w)) = Inr reg \<Longrightarrow>
    step w (w\<lparr>ev := (ev w)\<lparr>registry := reg\<rparr>\<rparr>)"
| lock: "known w (Some p) \<Longrightarrow> cbdataLock (Some p) (registry (ev w)) = Inr reg \<Longrightarrow>
    step w (w\<lparr>ev := (ev w)\<lparr>registry := reg\<rparr>, ext := (ext w)(p := ext w p + 1)\<rparr>)"
| unlock: "0 < ext w p \<Longrightarrow> cbdataUnlock (Some p) (registry (ev w)) = Inr reg \<Longrightarrow>
    step w (w\<lparr>ev := (ev w)\<lparr>registry := reg\<rparr>, ext := (ext w)(p := ext w p - 1)\<rparr>)"
| tick: "current_dtime (ev w) \<le> t \<Longrightarrow> step w (w\<lparr>ev := (ev w)\<lparr>current_dtime := t\<rparr>\<rparr>)"
| begin_run: "running w = None \<Longrightarrow> due (ev w) \<Longrightarrow>
    step w (w\<lparr>ev := (ev w)\<lparr>run_id := run_id (ev w) + 1\<rparr>, running := Some 0\<rparr>)"
| iterate: "running w = Some wt \<Longrightarrow> run_iter wt (ev w) = Inr (Some (st, call, wt')) \<Longrightarrow>
    step w (w\<lparr>ev := st, running := Some wt'\<rparr>)"
| end_run: "running w = Some wt \<Longrightarrow> run_iter wt (ev w) = Inr None \<Longrightarrow> step w (w\<lparr>running := None\<rparr>)"

definition start_world :: "cbdata_index list \<Rightarrow> 'f world" where
  "start_world types =
     \<lparr>ev = \<lparr>tasks = [], run_id = 0, last_event_ran = None, current_dtime = 0,
            registry = cbdata_start\<lparr>cbdata_types := types\<rparr>\<rparr>,
      ext = (\<lambda>_. 0), running = None\<rparr>"

inductive reachable :: "cbdata_index list \<Rightarrow> 'f world \<Rightarrow> bool" for types where
  start: "reachable types (start_world types)"
| more: "reachable types w \<Longrightarrow> step w w' \<Longrightarrow> reachable types w'"

section \<open>The invariant\<close>

text \<open>
  The locks of an object are the pending events that refer to it plus the other references;
  the queue is ordered by time, and no entry is from a later run.
\<close>

definition ev_inv :: "'f world \<Rightarrow> bool" where
  "ev_inv w \<longleftrightarrow> cb_ok (registry (ev w)) \<and> cb.covers (registry (ev w)) (map arg (tasks (ev w))) (ext w) \<and>
     sorted (map when_due (tasks (ev w))) \<and> (\<forall>e\<in>set (tasks (ev w)). ev_id e \<le> run_id (ev w))"

lemma covers_perm: "mset rs = mset rs' \<Longrightarrow> cb.covers s rs x = cb.covers s rs' x"
  unfolding cb.covers_def by (metis count_mset)

lemma insert_event_mset: "mset (insert_event e ts) = add_mset e (mset ts)"
  by (simp add: insert_event_def) (metis mset_append takeWhile_dropWhile_id union_mset_add_mset_right)

lemma set_insert_event: "set (insert_event e ts) = insert e (set ts)"
  by (metis insert_event_mset set_mset_add_mset_insert set_mset_mset)

lemma sorted_insert_event:
  "sorted (map when_due ts) \<Longrightarrow> sorted (map when_due (insert_event e ts))"
proof (induction ts)
  case (Cons t ts)
  then show ?case by (auto simp: insert_event_def set_insert_event [unfolded insert_event_def] dest: set_takeWhileD set_dropWhileD)
qed (simp add: insert_event_def)

lemma add_inv:
  assumes "ev_inv w" "known w a"
  shows "\<exists>st. eventAdd name f a delay wt (ev w) = Inr st \<and> ev_inv (w\<lparr>ev := st\<rparr>)"
proof -
  let ?st = "ev w"
  let ?e = "\<lparr>func = f, arg = a, ev_name = name, when_due = current_dtime ?st + delay, weight = wt, ev_id = run_id ?st\<rparr>"
  from assms obtain reg where reg: "cbdataLock a (registry ?st) = Inr reg" "cb_ok reg"
    "cb.covers reg (a # map arg (tasks ?st)) (ext w)"
    using cb.covers_lock [of "registry ?st" "map arg (tasks ?st)" "ext w" a] by (auto simp: ev_inv_def known_def)
  have "mset (map arg (insert_event ?e (tasks ?st))) = mset (a # map arg (tasks ?st))"
    by (simp add: insert_event_mset)
  then have "cb.covers reg (map arg (insert_event ?e (tasks ?st))) (ext w)" using reg(3) covers_perm by blast
  then show ?thesis using assms(1) reg
    by (auto simp: eventAdd_def ev_inv_def set_insert_event sorted_insert_event)
qed

text \<open>Taking an entry out of the queue, wherever it is, and unlocking its argument.\<close>

lemma remove_inv:
  assumes "ev_inv w" "tasks (ev w) = xs @ e # ys"
  shows "\<exists>v reg. cbdataValid (arg e) (registry (ev w)) = Inr v \<and>
    (case arg e of None \<Rightarrow> v | Some p \<Rightarrow> v = is_valid (registry (ev w)) p) \<and>
    cbdataUnlock (arg e) (registry (ev w)) = Inr reg \<and> is_valid reg = is_valid (registry (ev w)) \<and>
    ev_inv (w\<lparr>ev := (ev w)\<lparr>tasks := xs @ ys, registry := reg\<rparr>\<rparr>)"
proof -
  have "cb.covers (registry (ev w)) (map arg xs @ arg e # map arg ys) (ext w)" "cb_ok (registry (ev w))"
    using assms by (simp_all add: ev_inv_def)
  from cb.covers_unlock [OF this(2,1)] obtain v reg where "cbdataValid (arg e) (registry (ev w)) = Inr v"
    "case arg e of None \<Rightarrow> v | Some p \<Rightarrow> v = is_valid (registry (ev w)) p"
    "cbdataUnlock (arg e) (registry (ev w)) = Inr reg" "cb_ok reg" "is_valid reg = is_valid (registry (ev w))"
    "cb.covers reg (map arg xs @ map arg ys) (ext w)" by blast
  moreover have "sorted (map when_due (xs @ ys))" using assms by (simp add: ev_inv_def sorted_append)
  ultimately show ?thesis using assms by (intro exI [of _ v] exI [of _ reg]) (simp add: ev_inv_def)
qed

lemma delete_inv:
  assumes "ev_inv w"
  shows "\<exists>st b. eventDelete f a (ev w) = Inr (st, b) \<and> ev_inv (w\<lparr>ev := st\<rparr>)"
proof (cases "dropWhile (\<lambda>e. \<not> matches f a e) (tasks (ev w))")
  case Nil
  then show ?thesis using assms unfolding eventDelete_def Nil by (auto simp: ev_inv_def)
next
  case (Cons e rest)
  let ?xs = "takeWhile (\<lambda>e. \<not> matches f a e) (tasks (ev w))"
  have t: "tasks (ev w) = ?xs @ e # rest" using Cons by (metis takeWhile_dropWhile_id)
  from remove_inv [OF assms t] obtain reg where "cbdataUnlock (arg e) (registry (ev w)) = Inr reg"
    "ev_inv (w\<lparr>ev := (ev w)\<lparr>tasks := ?xs @ rest, registry := reg\<rparr>\<rparr>)" by blast
  then show ?thesis unfolding eventDelete_def Cons by (auto simp: ev_inv_def)
qed

lemma cleanup_loop_inv:
  assumes "ev_inv w" "tasks (ev w) = xs @ ts"
  shows "\<exists>ts' reg. cleanup_loop ts (registry (ev w)) = Inr (ts', reg) \<and>
    ev_inv (w\<lparr>ev := (ev w)\<lparr>tasks := xs @ ts', registry := reg\<rparr>\<rparr>)"
  using assms
proof (induction ts arbitrary: w xs)
  case Nil
  then show ?case by (simp add: ev_inv_def)
next
  case (Cons e ts)
  from remove_inv [OF Cons.prems] obtain v reg where v: "cbdataValid (arg e) (registry (ev w)) = Inr v"
    "cbdataUnlock (arg e) (registry (ev w)) = Inr reg"
    "ev_inv (w\<lparr>ev := (ev w)\<lparr>tasks := xs @ ts, registry := reg\<rparr>\<rparr>)" by blast
  show ?case
  proof (cases v)
    case True
    have "tasks (ev w) = (xs @ [e]) @ ts" using Cons.prems(2) by simp
    from Cons.IH [OF Cons.prems(1) this] v(1) True show ?thesis by (auto simp: ev_inv_def)
  next
    case False
    from Cons.IH [OF v(3), of xs] v(1,2) False show ?thesis by (auto simp: ev_inv_def)
  qed
qed

lemma cleanup_inv:
  assumes "ev_inv w"
  shows "\<exists>st. eventCleanup (ev w) = Inr st \<and> ev_inv (w\<lparr>ev := st\<rparr>)"
  using cleanup_loop_inv [OF assms, of "[]" "tasks (ev w)"] by (auto simp: eventCleanup_def)

text \<open>One iteration does not fail, and a handler is called on a valid object only.\<close>

lemma iter_inv:
  assumes "ev_inv w"
  shows "case run_iter wt (ev w) of
      Inl flt \<Rightarrow> False
    | Inr None \<Rightarrow> True
    | Inr (Some (st, call, wt')) \<Rightarrow> ev_inv (w\<lparr>ev := st\<rparr>) \<and>
        (case call of Some (f, Some p) \<Rightarrow> is_valid (registry st) p | _ \<Rightarrow> True)"
proof (cases "tasks (ev w)")
  case Nil
  then show ?thesis by (simp add: run_iter_def)
next
  case (Cons e rest)
  from remove_inv [OF assms, of "[]" e rest] Cons obtain v reg where
    v: "cbdataValid (arg e) (registry (ev w)) = Inr v" "cbdataUnlock (arg e) (registry (ev w)) = Inr reg"
      "case arg e of None \<Rightarrow> v | Some p \<Rightarrow> v = is_valid (registry (ev w)) p" "is_valid reg = is_valid (registry (ev w))"
    and i: "ev_inv (w\<lparr>ev := (ev w)\<lparr>tasks := rest, registry := reg\<rparr>\<rparr>)" by auto
  have "ev_inv (w\<lparr>ev := (ev w)\<lparr>tasks := rest, registry := reg, last_event_ran := n\<rparr>\<rparr>)" for n
    using i by (simp add: ev_inv_def)
  then show ?thesis using v i by (auto simp: run_iter_def Cons split: option.splits)
qed

lemma covers_fun_upd:
  "cb.covers s rs x \<Longrightarrow> lock_count s' = (lock_count s)(p := Some (cb.held s p + n)) \<Longrightarrow> cb.covers s' rs (x(p := x p + n))"
  by (auto simp: cb.covers_def cb.held_def)

lemma step_inv:
  assumes "step w w'" "ev_inv w"
  shows "ev_inv w'"
  using assms
proof (induction rule: step.induct)
  case (add w a name f delay wt st)
  then show ?case using add_inv [of w a name f delay wt] by auto
next
  case (delete f a w st trapped)
  then show ?case using delete_inv [of w f a] by auto
next
  case (cleanup w st)
  then show ?case using cleanup_inv [of w] by auto
next
  case (alloc type w reg p)
  then have "0 < type" "type < length (cbdata_types (registry (ev w)))"
    by (auto simp: cbdataInternalAlloc_def split: if_splits)
  with alloc obtain n where "cb_ok reg" "lock_count (registry (ev w)) n = None"
    "lock_count reg = (lock_count (registry (ev w)))(n := Some 0)"
    using alloc_ok [of "registry (ev w)" type] by (auto simp: ev_inv_def)
  moreover have "cb.held reg q = cb.held (registry (ev w)) q" for q using calculation(2,3) by (simp add: cb.held_def)
  ultimately show ?case using alloc(2) by (simp add: ev_inv_def cb.covers_def)
next
  case (free w p reg)
  obtain n where n: "lock_count (registry (ev w)) p = Some n" using free(1) by (auto simp: is_valid_def lock_count_def)
  with free have "cb_ok reg" "lock_count reg = (lock_count (registry (ev w)))(p := (if n = 0 then None else Some n))"
    using free_ok [of "registry (ev w)" p n] by (auto simp: ev_inv_def)
  moreover have "cb.held reg q = cb.held (registry (ev w)) q" for q using n calculation(2) by (simp add: cb.held_def)
  ultimately show ?case using free(3) by (simp add: ev_inv_def cb.covers_def)
next
  case (lock w p reg)
  then obtain n where n: "lock_count (registry (ev w)) p = Some n" by (auto simp: known_def)
  with lock have "cb_ok reg" "lock_count reg = (lock_count (registry (ev w)))(p := Some (Suc n))"
    using lock_ok [of "registry (ev w)" p n] by (auto simp: ev_inv_def)
  then show ?case using lock(3) covers_fun_upd [of "registry (ev w)" _ "ext w" reg p 1] n
    by (simp add: ev_inv_def cb.held_def)
next
  case (unlock w p reg)
  have "cb.held (registry (ev w)) p = count_list (map arg (tasks (ev w))) (Some p) + ext w p"
    using unlock(3) by (simp add: ev_inv_def cb.covers_def)
  then obtain n where n: "lock_count (registry (ev w)) p = Some (Suc n)" "Suc n = count_list (map arg (tasks (ev w))) (Some p) + ext w p"
    using unlock(1) by (cases "lock_count (registry (ev w)) p") (auto simp: cb.held_def gr0_conv_Suc)
  with unlock have r: "cb_ok reg"
    "lock_count reg = (lock_count (registry (ev w)))(p := (if is_valid (registry (ev w)) p \<or> n \<noteq> 0 then Some n else None))"
    using unlock_ok [of "registry (ev w)" p n] by (auto simp: ev_inv_def)
  have "cb.held reg q = (if q = p then n else cb.held (registry (ev w)) q)" for q by (simp add: cb.held_def r(2))
  then show ?case using unlock n(2) r(1) by (auto simp: ev_inv_def cb.covers_def)
next
  case (iterate w wt st call wt')
  then show ?case using iter_inv [of w wt] by (simp add: ev_inv_def)
qed (auto simp: ev_inv_def)

lemma reachable_inv: "reachable types w \<Longrightarrow> ev_inv w"
proof (induction rule: reachable.induct)
  case start
  then show ?case by (simp add: start_world_def ev_inv_def cb.covers_def cb.held_def cb_ok_def cbdata_start_def lock_count_def)
next
  case (more w w')
  then show ?case by (blast intro: step_inv)
qed

lemma free_events_ok:
  "cb_ok reg \<Longrightarrow> cb.covers reg (map arg ts) x \<Longrightarrow> \<exists>reg'. free_events ts reg = Inr reg' \<and> cb_ok reg' \<and> cb.covers reg' [] x"
proof -
  have "free_events ts reg = cb.unlock_all (map arg ts) reg" for reg
  proof (induction ts arbitrary: reg)
    case (Cons e ts)
    show ?case unfolding free_events.simps list.map cb.unlock_all.simps by (rule res_bind_cong) (auto simp: Cons)
  qed simp
  then show "cb_ok reg \<Longrightarrow> cb.covers reg (map arg ts) x \<Longrightarrow> ?thesis" using cb.unlock_all_ok [of reg "map arg ts" x] by simp
qed

lemma pending_locked:
  assumes "ev_inv w" "Some p \<in> set (map arg (tasks (ev w)))"
  shows "\<exists>n. lock_count (registry (ev w)) p = Some (Suc n)"
proof -
  have "0 < count_list (map arg (tasks (ev w))) (Some p)"
    using assms(2) by (metis count_list_0_iff gr0I)
  then have "0 < cb.held (registry (ev w)) p" using assms(1) by (simp add: ev_inv_def cb.covers_def)
  then show ?thesis by (cases "lock_count (registry (ev w)) p") (auto simp: cb.held_def gr0_conv_Suc)
qed

section \<open>The run ends\<close>

text \<open>The entries from earlier runs; only they are executed by the current one.\<close>

definition old :: "'f ev_state \<Rightarrow> nat" where
  "old st = length (filter (\<lambda>e. ev_id e \<noteq> run_id st) (tasks st))"

definition polite :: "('f \<Rightarrow> nat option \<Rightarrow> 'f ev_state \<Rightarrow> 'f ev_state res) \<Rightarrow> bool" where
  "polite handler \<longleftrightarrow> (\<forall>f a st st'. handler f a st = Inr st' \<longrightarrow> run_id st' = run_id st \<and> old st' \<le> old st)"

lemma old_mset: "old st = size (filter_mset (\<lambda>e. ev_id e \<noteq> run_id st) (mset (tasks st)))"
  by (simp add: old_def flip: size_mset)

lemma eventAdd_old: "eventAdd name f a d wt st = Inr st' \<Longrightarrow> run_id st' = run_id st \<and> old st' = old st"
  by (auto simp: eventAdd_def res_bind_Inr_iff old_mset insert_event_mset Let_def)

lemma eventDelete_old: "eventDelete f a st = Inr (st', b) \<Longrightarrow> run_id st' = run_id st \<and> old st' \<le> old st"
proof (cases "dropWhile (\<lambda>e. \<not> matches f a e) (tasks st)")
  case Nil
  then show "eventDelete f a st = Inr (st', b) \<Longrightarrow> ?thesis" unfolding eventDelete_def Nil by simp
next
  case (Cons e rest)
  have t: "tasks st = takeWhile (\<lambda>e. \<not> matches f a e) (tasks st) @ e # rest"
    using Cons by (metis takeWhile_dropWhile_id)
  have "old (st\<lparr>registry := reg, tasks := takeWhile (\<lambda>e. \<not> matches f a e) (tasks st) @ rest\<rparr>) \<le> old st" for reg
    using arg_cong [OF t, of "\<lambda>ts. length (filter (\<lambda>e. ev_id e \<noteq> run_id st) ts)"] by (simp add: old_def)
  then show "eventDelete f a st = Inr (st', b) \<Longrightarrow> ?thesis"
    unfolding eventDelete_def Cons by (auto simp: res_bind_Inr_iff)
qed

lemma run_iter_old:
  "run_iter wt st = Inr (Some (st', call, wt')) \<Longrightarrow> run_id st' = run_id st \<and> old st = Suc (old st')"
  by (auto simp: run_iter_def old_def res_bind_Inr_iff Let_def split: list.splits if_splits)

lemma run_loop_ends:
  assumes "polite handler" "old st < fuel"
  shows "\<exists>r. run_loop fuel handler wt st = Some r"
  using assms(2)
proof (induction fuel arbitrary: wt st)
  case (Suc fuel)
  show ?case
  proof (cases "run_iter wt st")
    case (Inr res)
    then show ?thesis
    proof (cases res)
      case (Some x)
      obtain st1 call wt1 where x: "x = (st1, call, wt1)" by (cases x)
      have st1: "run_id st1 = run_id st" "old st = Suc (old st1)" 
        using run_iter_old [of wt st st1 call wt1] Inr Some x by simp_all
      have "old st2 \<le> old st1" if "(case call of None \<Rightarrow> Inr st1 | Some (f, a) \<Rightarrow> handler f a st1) = Inr st2" for st2
        using that assms(1) by (cases call) (auto simp: polite_def)
      then show ?thesis using Suc.prems st1(2) Suc.IH Inr Some x
        by (cases "case call of None \<Rightarrow> Inr st1 | Some (f, a) \<Rightarrow> handler f a st1") fastforce+
    qed simp
  qed simp
qed simp

section \<open>Properties\<close>

text \<open>
  C5. No callback on dead data: in every state the program can reach by adding, deleting,
  cleaning and running events and by allocating, locking, unlocking and freeing callback data,
  in any order and also from within handlers, the object of every pending event still exists,
  the queue is ordered by time, and the operations on the queue run without touching memory
  that was given back and without a failed assertion; a handler is called with a null argument
  or with an object that has not been freed.
\<close>

theorem no_callback_on_dead_data:
  assumes "reachable types w"
  shows "(\<forall>e\<in>set (tasks (ev w)). known w (arg e)) \<and> sorted (map when_due (tasks (ev w))) \<and>
    (case run_iter wt (ev w) of
       Inl flt \<Rightarrow> False
     | Inr None \<Rightarrow> True
     | Inr (Some (st, call, _)) \<Rightarrow> (case call of Some (f, Some p) \<Rightarrow> is_valid (registry st) p | _ \<Rightarrow> True)) \<and>
    (\<exists>st b. eventDelete f a (ev w) = Inr (st, b)) \<and> (\<exists>st. eventCleanup (ev w) = Inr st) \<and>
    (\<exists>st. eventFreeMemory (ev w) = Inr st) \<and>
    (known w a \<longrightarrow> (\<exists>st. eventAdd name f a delay wt (ev w) = Inr st))"
proof -
  note inv = reachable_inv [OF assms]
  have "known w (arg e)" if "e \<in> set (tasks (ev w))" for e
    using pending_locked [OF inv] that by (cases "arg e") (force simp: known_def)+
  moreover have "sorted (map when_due (tasks (ev w)))" using inv by (simp add: ev_inv_def)
  moreover have "\<exists>st. eventFreeMemory (ev w) = Inr st"
    using free_events_ok [of "registry (ev w)" "tasks (ev w)" "ext w"] inv by (auto simp: eventFreeMemory_def ev_inv_def)
  moreover have "case run_iter wt (ev w) of
       Inl flt \<Rightarrow> False
     | Inr None \<Rightarrow> True
     | Inr (Some (st, call, _)) \<Rightarrow> (case call of Some (f, Some p) \<Rightarrow> is_valid (registry st) p | _ \<Rightarrow> True)"
    using iter_inv [OF inv, of wt] by (auto split: sum.splits option.splits)
  moreover have "\<exists>st b. eventDelete f a (ev w) = Inr (st, b)" "\<exists>st. eventCleanup (ev w) = Inr st"
    "known w a \<Longrightarrow> \<exists>st. eventAdd name f a delay wt (ev w) = Inr st"
    using delete_inv [OF inv] cleanup_inv [OF inv] add_inv [OF inv] by blast+
  ultimately show ?thesis by blast
qed

text \<open>Two types, and an object that is freed while an event for it is pending.\<close>

definition demo_types :: "cbdata_index list" where
  "demo_types = [\<lparr>pool = None, free_func = None\<rparr>, \<lparr>pool = Some ''cbdata peer (1)'', free_func = Some ''peerDestroy''\<rparr>]"

lemma demo_reachable:
  "\<exists>w :: string world. reachable demo_types w \<and> map arg (tasks (ev w)) = [Some 0] \<and> \<not> is_valid (registry (ev w)) 0"
proof -
  let ?w0 = "start_world demo_types :: string world"
  obtain r1 where r1: "cbdataInternalAlloc 1 (registry (ev ?w0)) = Inr (r1, 0)"
    "cells r1 = [0 \<mapsto> \<lparr>cvalid = True, locks = 0, ctype = 1\<rparr>]"
    by (simp add: cbdataInternalAlloc_def start_world_def demo_types_def cbdata_start_def)
  define w1 where "w1 = ?w0\<lparr>ev := (ev ?w0)\<lparr>registry := r1\<rparr>\<rparr>"
  have s1: "reachable demo_types w1" unfolding w1_def by (rule reachable.more [OF reachable.start step.alloc [OF r1(1)]])
  have k: "known w1 (Some 0)" by (simp add: w1_def known_def lock_count_def r1(2))
  define r2 where "r2 = r1\<lparr>cells := [0 \<mapsto> \<lparr>cvalid = True, locks = 1, ctype = 1\<rparr>]\<rparr>"
  define e where "e = \<lparr>func = ''peerCheck'', arg = Some (0 :: nat), ev_name = ''check'', when_due = 10, weight = 1, ev_id = 0\<rparr>"
  define st2 where "st2 = (ev w1)\<lparr>registry := r2, tasks := [e]\<rparr>"
  have "eventAdd ''check'' ''peerCheck'' (Some 0) 10 1 (ev w1) = Inr st2"
    by (simp add: eventAdd_def cbdataLock_def header_def w1_def r1(2) st2_def r2_def e_def start_world_def insert_event_def)
  from step.add [OF k this] have s2: "reachable demo_types (w1\<lparr>ev := st2\<rparr>)" by (rule reachable.more [OF s1])
  define r3 where "r3 = r2\<lparr>cells := [0 \<mapsto> \<lparr>cvalid = False, locks = 1, ctype = 1\<rparr>]\<rparr>"
  have "is_valid (registry (ev (w1\<lparr>ev := st2\<rparr>))) 0" by (simp add: is_valid_def st2_def r2_def)
  moreover have "cbdataInternalFree 0 (registry (ev (w1\<lparr>ev := st2\<rparr>))) = Inr r3"
    by (simp add: cbdataInternalFree_def header_def st2_def r2_def r3_def)
  ultimately have "reachable demo_types (w1\<lparr>ev := st2\<lparr>registry := r3\<rparr>\<rparr>)"
    using reachable.more [OF s2 step.free] by simp
  then show ?thesis
    by (intro exI [of _ "w1\<lparr>ev := st2\<lparr>registry := r3\<rparr>\<rparr>"]) (simp add: st2_def e_def r3_def is_valid_def)
qed

theorem no_callback_on_dead_data_witness:
  "\<exists>w :: string world. map arg (tasks (ev w)) = [Some 0] \<and> \<not> is_valid (registry (ev w)) 0 \<and>
     (\<exists>st b. eventDelete ''peerCheck'' (Some 0) (ev w) = Inr (st, b)) \<and> (\<exists>st. eventFreeMemory (ev w) = Inr st)"
proof -
  obtain w :: "string world" where w: "reachable demo_types w" "map arg (tasks (ev w)) = [Some 0]" "\<not> is_valid (registry (ev w)) 0"
    using demo_reachable by (elim exE conjE)
  note facts = no_callback_on_dead_data [OF w(1), of 0 "''peerCheck''" "Some 0"]
  have "(\<exists>st b. eventDelete ''peerCheck'' (Some 0) (ev w) = Inr (st, b)) \<and> (\<exists>st. eventFreeMemory (ev w) = Inr st)"
    by (intro conjI) (rule facts [THEN conjunct2, THEN conjunct2, THEN conjunct2, THEN conjunct1],
      rule facts [THEN conjunct2, THEN conjunct2, THEN conjunct2, THEN conjunct2, THEN conjunct2, THEN conjunct1])
  with w(2,3) show ?thesis by (intro exI [of _ w]) (simp only: simp_thms)
qed

text \<open>
  C37. \<^verbatim>\<open>eventRun\<close> ends: if the handlers only add events (which then belong to the current run)
  and delete events, as many iterations as there are events are enough, even if every handler
  schedules itself again for the present moment.
\<close>

theorem eventRun_terminates:
  assumes "polite handler"
  shows "\<exists>r. eventRun (Suc (length (tasks st))) handler st = Some r"
proof -
  let ?st = "st\<lparr>run_id := run_id st + 1\<rparr>"
  have "old ?st < Suc (length (tasks st))" by (simp add: old_def le_imp_less_Suc)
  from run_loop_ends [OF assms this] show ?thesis by (simp add: eventRun_def)
qed

lemma polite_again: "polite (\<lambda>f a. eventAdd ''again'' f a 0 0)"
  by (simp add: polite_def eventAdd_old)

theorem eventRun_terminates_witness:
  "\<exists>r. eventRun 2 (\<lambda>f a. eventAdd ''again'' f a 0 0)
     \<lparr>tasks = [\<lparr>func = ''tick'', arg = None, ev_name = ''tick'', when_due = 5, weight = 0, ev_id = 0\<rparr>],
      run_id = 0, last_event_ran = None, current_dtime = 7, registry = cbdata_start\<rparr> = Some r"
  using eventRun_terminates [OF polite_again, of "\<lparr>tasks = [\<lparr>func = ''tick'', arg = None, ev_name = ''tick'',
    when_due = 5, weight = 0, ev_id = 0\<rparr>], run_id = 0, last_event_ran = None, current_dtime = 7, registry = cbdata_start\<rparr>"]
  by (simp add: numeral_2_eq_2)

end
