(* ===== verification/Dlink.thy ===== *)
theory Dlink
  imports Prelude
begin

text \<open>
  The doubly linked lists of \<^verbatim>\<open>src/tools.c\<close>, which keep the entries of the LRU replacement policy
  in order. The nodes live in a store of addresses, so that aliasing between the neighbours of
  a node is part of the model; \<open>dlist\<close> relates the store to the sequence of its addresses, and
  each operation is shown to be the operation on that sequence, with every other node untouched.
\<close>

section \<open>Nodes and operations\<close>

record 'd dlink_node =
  ddata :: "'d option"
  dprev :: "nat option"
  dnext :: "nat option"

record dlink_list =
  dhead :: "nat option"
  dtail :: "nat option"

type_synonym 'd nodes = "nat \<Rightarrow> 'd dlink_node option"

definition node :: "'d nodes \<Rightarrow> nat \<Rightarrow> 'd dlink_node res" where
  "node h m = (case h m of None \<Rightarrow> Inl UseAfterFree | Some n \<Rightarrow> Inr n)"

definition upd_node :: "('d dlink_node \<Rightarrow> 'd dlink_node) \<Rightarrow> nat \<Rightarrow> 'd nodes \<Rightarrow> 'd nodes res" where
  "upd_node f m h = res_bind (node h m) (\<lambda>n. Inr (h(m \<mapsto> f n)))"

text \<open>\<^verbatim>\<open>if (p) p->field = ...\<close>\<close>

definition upd_opt_node :: "('d dlink_node \<Rightarrow> 'd dlink_node) \<Rightarrow> nat option \<Rightarrow> 'd nodes \<Rightarrow> 'd nodes res" where
  "upd_opt_node f p h = (case p of None \<Rightarrow> Inr h | Some m \<Rightarrow> upd_node f m h)"

definition dlinkAdd :: "'d \<Rightarrow> nat \<Rightarrow> 'd nodes \<times> dlink_list \<Rightarrow> ('d nodes \<times> dlink_list) res" where
  "dlinkAdd data m = (\<lambda>(h, lst).
     res_bind (upd_node (\<lambda>_. \<lparr>ddata = Some data, dprev = None, dnext = dhead lst\<rparr>) m h) (\<lambda>h.
     res_bind (upd_opt_node (\<lambda>n. n\<lparr>dprev := Some m\<rparr>) (dhead lst) h) (\<lambda>h.
       let lst = lst\<lparr>dhead := Some m\<rparr>
       in Inr (h, if dtail lst = None then lst\<lparr>dtail := Some m\<rparr> else lst))))"

definition dlinkAddTail :: "'d \<Rightarrow> nat \<Rightarrow> 'd nodes \<times> dlink_list \<Rightarrow> ('d nodes \<times> dlink_list) res" where
  "dlinkAddTail data m = (\<lambda>(h, lst).
     res_bind (upd_node (\<lambda>_. \<lparr>ddata = Some data, dprev = dtail lst, dnext = None\<rparr>) m h) (\<lambda>h.
     res_bind (upd_opt_node (\<lambda>n. n\<lparr>dnext := Some m\<rparr>) (dtail lst) h) (\<lambda>h.
       let lst = lst\<lparr>dtail := Some m\<rparr>
       in Inr (h, if dhead lst = None then lst\<lparr>dhead := Some m\<rparr> else lst))))"

text \<open>The fields of the node are read again after each assignment, which may have changed them.\<close>

definition dlinkDelete :: "nat \<Rightarrow> 'd nodes \<times> dlink_list \<Rightarrow> ('d nodes \<times> dlink_list) res" where
  "dlinkDelete m = (\<lambda>(h, lst).
     res_bind (node h m) (\<lambda>n.
     res_bind (upd_opt_node (\<lambda>x. x\<lparr>dprev := dprev n\<rparr>) (dnext n) h) (\<lambda>h.
     res_bind (node h m) (\<lambda>n.
     res_bind (upd_opt_node (\<lambda>x. x\<lparr>dnext := dnext n\<rparr>) (dprev n) h) (\<lambda>h.
     res_bind (node h m) (\<lambda>n.
       let lst = (if dhead lst = Some m then lst\<lparr>dhead := dnext n\<rparr> else lst);
           lst = (if dtail lst = Some m then lst\<lparr>dtail := dprev n\<rparr> else lst)
       in Inr (h(m \<mapsto> n\<lparr>dprev := None, dnext := None\<rparr>), lst)))))))"

section \<open>The sequence of a list\<close>

definition first_or :: "nat list \<Rightarrow> nat option \<Rightarrow> nat option" where
  "first_or xs q = (case xs of [] \<Rightarrow> q | x # _ \<Rightarrow> Some x)"

definition last_or :: "nat list \<Rightarrow> nat option \<Rightarrow> nat option" where
  "last_or xs p = (if xs = [] then p else Some (last xs))"

lemma first_or_simps [simp]: "first_or [] q = q" "first_or (x # xs) q = Some x"
  "first_or (xs @ ys) q = first_or xs (first_or ys q)"
  by (simp_all add: first_or_def split: list.splits)

lemma first_or_Some [simp]: "first_or xs (Some a) \<noteq> None"
  by (simp add: first_or_def split: list.splits)

lemma last_or_simps [simp]: "last_or [] p = p" "last_or (x # xs) p = last_or xs (Some x)"
  "last_or (xs @ ys) p = last_or ys (last_or xs p)"
  by (simp_all add: last_or_def)

text \<open>
  The nodes at \<open>xs\<close> carry the data \<open>ds\<close>, each points at its neighbours, and the ends
  point at \<open>p\<close> and \<open>q\<close>.
\<close>

fun dseg :: "'d nodes \<Rightarrow> nat option \<Rightarrow> (nat \<times> 'd) list \<Rightarrow> nat option \<Rightarrow> bool" where
  "dseg h p [] q \<longleftrightarrow> True"
| "dseg h p ((x, d) # xs) q \<longleftrightarrow>
     h x = Some \<lparr>ddata = Some d, dprev = p, dnext = first_or (map fst xs) q\<rparr> \<and> dseg h (Some x) xs q"

lemma dseg_append:
  "dseg h p (xs @ ys) q \<longleftrightarrow> dseg h p xs (first_or (map fst ys) q) \<and> dseg h (last_or (map fst xs) p) ys q"
  by (induction h p xs q rule: dseg.induct) auto

lemma dseg_frame: "a \<notin> fst ` set xs \<Longrightarrow> dseg (h(a := v)) p xs q \<longleftrightarrow> dseg h p xs q"
  by (induction h p xs q rule: dseg.induct) auto

lemma dseg_cong: "(\<And>a. a \<in> fst ` set xs \<Longrightarrow> h a = h' a) \<Longrightarrow> dseg h p xs q \<longleftrightarrow> dseg h' p xs q"
  by (induction h p xs q rule: dseg.induct) auto

definition dlist :: "'d nodes \<Rightarrow> dlink_list \<Rightarrow> (nat \<times> 'd) list \<Rightarrow> bool" where
  "dlist h lst xs \<longleftrightarrow> distinct (map fst xs) \<and> dseg h None xs None \<and>
     dhead lst = first_or (map fst xs) None \<and> dtail lst = last_or (map fst xs) None"

text \<open>Nothing but the nodes of the list and the given node differs.\<close>

definition frame :: "nat set \<Rightarrow> 'd nodes \<Rightarrow> 'd nodes \<Rightarrow> bool" where
  "frame A h h' \<longleftrightarrow> (\<forall>a. a \<notin> A \<longrightarrow> h' a = h a) \<and> dom h' = dom h"

lemma dlist_empty [simp]: "dlist h \<lparr>dhead = None, dtail = None\<rparr> []"
  by (simp add: dlist_def)

lemma dlist_in_dom: "dlist h lst xs \<Longrightarrow> fst ` set xs \<subseteq> dom h"
proof -
  have "dseg h p xs q \<Longrightarrow> fst ` set xs \<subseteq> dom h" for p q
    by (induction h p xs q rule: dseg.induct) auto
  from this [of None None] show "dlist h lst xs \<Longrightarrow> fst ` set xs \<subseteq> dom h" by (simp add: dlist_def)
qed

lemma dlist_node:
  assumes "dlist h lst (xs @ (m, d) # ys)"
  shows "h m = Some \<lparr>ddata = Some d, dprev = last_or (map fst xs) None, dnext = first_or (map fst ys) None\<rparr>"
  using assms by (simp add: dlist_def dseg_append)

section \<open>The operations on sequences\<close>

lemma dlinkAddTail_ok:
  assumes "dlist h lst xs" "m \<in> dom h" "m \<notin> fst ` set xs"
  shows "\<exists>h' lst'. dlinkAddTail d m (h, lst) = Inr (h', lst') \<and> dlist h' lst' (xs @ [(m, d)]) \<and>
    frame (insert m (fst ` set xs)) h h'"
proof (cases xs rule: rev_exhaust)
  case Nil
  then show ?thesis using assms
    by (auto simp: dlinkAddTail_def upd_node_def upd_opt_node_def node_def dlist_def frame_def)
next
  case (snoc ys y)
  obtain a e where y: "y = (a, e)" by (cases y)
  let ?h = "h(m \<mapsto> \<lparr>ddata = Some d, dprev = Some a, dnext = None\<rparr>)"
  let ?h' = "?h(a \<mapsto> \<lparr>ddata = Some e, dprev = last_or (map fst ys) None, dnext = Some m\<rparr>)"
  have ha: "h a = Some \<lparr>ddata = Some e, dprev = last_or (map fst ys) None, dnext = None\<rparr>"
    using dlist_node [of h lst ys a e "[]"] assms(1) snoc y by simp
  have dis: "a \<notin> fst ` set ys" "m \<notin> fst ` set ys" "m \<noteq> a" using assms snoc y by (auto simp: dlist_def)
  have "dlinkAddTail d m (h, lst) = Inr (?h', lst\<lparr>dtail := Some m\<rparr>)"
    using assms ha dis snoc y by (auto simp: dlinkAddTail_def upd_node_def upd_opt_node_def node_def dlist_def)
  moreover have "dlist ?h' (lst\<lparr>dtail := Some m\<rparr>) (xs @ [(m, d)])"
    using assms(1,3) dis snoc y by (auto simp: dlist_def dseg_append dseg_frame)
  moreover have "frame (insert m (fst ` set xs)) h ?h'" using assms(2) ha snoc y by (auto simp: frame_def)
  ultimately show ?thesis by blast
qed

lemma dlinkAdd_ok:
  assumes "dlist h lst xs" "m \<in> dom h" "m \<notin> fst ` set xs"
  shows "\<exists>h' lst'. dlinkAdd d m (h, lst) = Inr (h', lst') \<and> dlist h' lst' ((m, d) # xs) \<and>
    frame (insert m (fst ` set xs)) h h'"
proof (cases xs)
  case Nil
  then show ?thesis using assms
    by (auto simp: dlinkAdd_def upd_node_def upd_opt_node_def node_def dlist_def frame_def)
next
  case (Cons y ys)
  obtain a e where y: "y = (a, e)" by (cases y)
  let ?h' = "h(m \<mapsto> \<lparr>ddata = Some d, dprev = None, dnext = Some a\<rparr>,
    a \<mapsto> \<lparr>ddata = Some e, dprev = Some m, dnext = first_or (map fst ys) None\<rparr>)"
  have ha: "h a = Some \<lparr>ddata = Some e, dprev = None, dnext = first_or (map fst ys) None\<rparr>"
    using dlist_node [of h lst "[]" a e ys] assms(1) Cons y by simp
  have dis: "a \<notin> fst ` set ys" "m \<notin> fst ` set ys" "m \<noteq> a" using assms Cons y by (auto simp: dlist_def)
  have "dlinkAdd d m (h, lst) = Inr (?h', lst\<lparr>dhead := Some m\<rparr>)"
    using assms ha dis Cons y by (auto simp: dlinkAdd_def upd_node_def upd_opt_node_def node_def dlist_def last_or_def)
  moreover have "dlist ?h' (lst\<lparr>dhead := Some m\<rparr>) ((m, d) # xs)"
    using assms(1,3) dis Cons y by (auto simp: dlist_def dseg_frame last_or_def)
  moreover have "frame (insert m (fst ` set xs)) h ?h'" using assms(2) ha Cons y by (auto simp: frame_def)
  ultimately show ?thesis by blast
qed

text \<open>Deleting keeps the data of the node, so that it can be linked again.\<close>

lemma dlinkDelete_ok:
  assumes "dlist h lst (xs @ (m, d) # ys)"
  shows "\<exists>h' lst'. dlinkDelete m (h, lst) = Inr (h', lst') \<and> dlist h' lst' (xs @ ys) \<and>
    h' m = Some \<lparr>ddata = Some d, dprev = None, dnext = None\<rparr> \<and> frame (insert m (fst ` set (xs @ ys))) h h'"
proof -
  let ?p = "last_or (map fst xs) None" and ?q = "first_or (map fst ys) None"
  have hm: "h m = Some \<lparr>ddata = Some d, dprev = ?p, dnext = ?q\<rparr>" by (rule dlist_node [OF assms])
  have dis: "distinct (map fst xs)" "distinct (map fst ys)" "m \<notin> fst ` set xs" "m \<notin> fst ` set ys"
    "fst ` set xs \<inter> fst ` set ys = {}" using assms by (auto simp: dlist_def)
  have sg: "dseg h None xs (Some m)" "dseg h (Some m) ys None" "dhead lst = first_or (map fst xs) (Some m)"
    "dtail lst = last_or (map fst ys) (Some m)" using assms by (simp_all add: dlist_def dseg_append)
  obtain h1 where h1: "upd_opt_node (\<lambda>x. x\<lparr>dprev := ?p\<rparr>) ?q h = Inr h1" "h1 m = h m" "dseg h1 None xs (Some m)"
    "dseg h1 ?p ys None" "frame (fst ` set ys) h h1"
  proof (cases ys)
    case Nil
    then show ?thesis using that [of h] sg by (simp add: upd_opt_node_def frame_def)
  next
    case (Cons y zs)
    obtain b e where y: "y = (b, e)" by (cases y)
    show ?thesis
      using that [of "h(b \<mapsto> \<lparr>ddata = Some e, dprev = ?p, dnext = first_or (map fst zs) None\<rparr>)"] sg dis Cons y
      by (auto simp: upd_opt_node_def upd_node_def node_def dseg_frame frame_def)
  qed
  obtain h2 where h2: "upd_opt_node (\<lambda>x. x\<lparr>dnext := ?q\<rparr>) ?p h1 = Inr h2" "h2 m = h m" "dseg h2 None xs ?q"
    "dseg h2 ?p ys None" "frame (fst ` set xs) h1 h2"
  proof (cases xs rule: rev_exhaust)
    case Nil
    then show ?thesis using that [of h1] h1 by (simp add: upd_opt_node_def frame_def)
  next
    case (snoc zs y)
    obtain a e where y: "y = (a, e)" by (cases y)
    show ?thesis
      using that [of "h1(a \<mapsto> \<lparr>ddata = Some e, dprev = last_or (map fst zs) None, dnext = ?q\<rparr>)"] h1 dis snoc y
      by (auto simp: upd_opt_node_def upd_node_def node_def dseg_append dseg_frame frame_def)
  qed
  let ?h3 = "h2(m \<mapsto> \<lparr>ddata = Some d, dprev = None, dnext = None\<rparr>)"
  let ?lst = "\<lparr>dhead = first_or (map fst xs) ?q, dtail = last_or (map fst ys) ?p\<rparr>"
  have "first_or (map fst xs) (Some m) = Some m \<longleftrightarrow> xs = []" "last_or (map fst ys) (Some m) = Some m \<longleftrightarrow> ys = []"
    using dis(3,4) by (auto simp: first_or_def last_or_def last_map split: list.splits)
  then have "dlinkDelete m (h, lst) = Inr (?h3, ?lst)"
    using hm h1(1,2) h2(1,2) sg(3,4) by (cases lst) (auto simp: dlinkDelete_def node_def last_or_def first_or_def neq_Nil_conv split: list.splits)
  moreover have "dlist ?h3 ?lst (xs @ ys)"
    using h2 dis by (simp add: dlist_def dseg_append dseg_frame)
  moreover have "frame (insert m (fst ` set (xs @ ys))) h ?h3"
    using h1(5) h2(2,5) hm by (auto simp: frame_def image_Un)
  ultimately show ?thesis by simp
qed

end
