(* ===== verification/Removal_Policy.thy ===== *)
theory Removal_Policy
  imports Complex_Main Dlink
begin

text \<open>
  What the replacement policies share (\<^verbatim>\<open>src/structs.h\<close>, \<^verbatim>\<open>src/repl/\<close>): the part of a store entry they
  look at, the policy nodes inside it, and the interface \<^verbatim>\<open>RemovalPolicy\<close>, a table of functions in
  the code and the locale \<open>removal_policy\<close> here. The client of the interface is the
  maintenance of a cache directory, \<^verbatim>\<open>storeUfsDirMaintain\<close>, whose guarantees are proved once in the
  locale; the theories of the two policies interpret it.

  A policy keeps a pointer to its own node in the entry, either in \<^verbatim>\<open>entry->repl\<close> or in
  \<^verbatim>\<open>entry->mem_obj->repl\<close>, and finds out with the first entry which of the two it is.
\<close>

section \<open>Entries and policy nodes\<close>

datatype swap_status_t = SWAPOUT_NONE | SWAPOUT_WRITING | SWAPOUT_DONE

datatype store_status_t = STORE_OK | STORE_PENDING

text \<open>\<open>mem_repl\<close> is \<^term>\<open>None\<close> when the entry has no memory object.\<close>

record store_entry =
  repl :: "nat option"
  mem_repl :: "nat option option"
  lastref :: int
  swap_file_sz :: nat
  refcount :: nat
  lock_count :: nat
  store_status :: store_status_t
  swap_status :: swap_status_t
  entry_special :: bool
  key_private :: bool

type_synonym entries = "nat \<Rightarrow> store_entry option"

definition storeEntryLocked :: "store_entry \<Rightarrow> bool" where
  "storeEntryLocked e \<longleftrightarrow>
     lock_count e \<noteq> 0 \<or> swap_status e = SWAPOUT_WRITING \<or> store_status e = STORE_PENDING \<or>
     (entry_special e \<and> \<not> key_private e)"

definition get_entry :: "nat \<Rightarrow> entries \<Rightarrow> store_entry res" where
  "get_entry e es = (case es e of None \<Rightarrow> Inl UseAfterFree | Some x \<Rightarrow> Inr x)"

definition entry_locked :: "nat \<Rightarrow> entries \<Rightarrow> bool res" where
  "entry_locked e es = res_bind (get_entry e es) (\<lambda>x. Inr (storeEntryLocked x))"

text \<open>The two places a \<^verbatim>\<open>RemovalPolicyNode\<close> may have, and its \<^verbatim>\<open>data\<close> there.\<close>

datatype place = Repl | MemRepl

datatype heap_entry_type = TYPE_UNKNOWN | TYPE_STORE_ENTRY | TYPE_STORE_MEM

fun place_data :: "place \<Rightarrow> store_entry \<Rightarrow> nat option res" where
  "place_data Repl x = Inr (repl x)"
| "place_data MemRepl x = (case mem_repl x of None \<Rightarrow> Inl UseAfterFree | Some d \<Rightarrow> Inr d)"

fun put_data :: "place \<Rightarrow> nat option \<Rightarrow> store_entry \<Rightarrow> store_entry" where
  "put_data Repl v x = x\<lparr>repl := v\<rparr>"
| "put_data MemRepl v x = x\<lparr>mem_repl := Some v\<rparr>"

definition node_data :: "place \<Rightarrow> nat \<Rightarrow> entries \<Rightarrow> nat option res" where
  "node_data pl e es = res_bind (get_entry e es) (place_data pl)"

definition set_node_data :: "place \<Rightarrow> nat \<Rightarrow> nat option \<Rightarrow> entries \<Rightarrow> entries res" where
  "set_node_data pl e v es =
     res_bind (node_data pl e es) (\<lambda>_. res_bind (get_entry e es) (\<lambda>x. Inr (es(e \<mapsto> put_data pl v x))))"

text \<open>
  \<^verbatim>\<open>repl_guessType\<close> and \<^verbatim>\<open>heap_guessType\<close>: the address of the node is compared with the two places.
  A node that is in neither place is fatal, which cannot happen for the places of the model.
\<close>

definition guessType :: "nat \<Rightarrow> place \<Rightarrow> entries \<Rightarrow> heap_entry_type res" where
  "guessType e pl es =
     res_bind (get_entry e es) (\<lambda>x.
       case pl of
         Repl \<Rightarrow> Inr TYPE_STORE_ENTRY
       | MemRepl \<Rightarrow> if mem_repl x \<noteq> None then Inr TYPE_STORE_MEM else Inl AssertFailed)"

definition SET_POLICY_NODE :: "heap_entry_type \<Rightarrow> nat \<Rightarrow> nat option \<Rightarrow> entries \<Rightarrow> entries res" where
  "SET_POLICY_NODE type e v es =
     (case type of
        TYPE_STORE_ENTRY \<Rightarrow> set_node_data Repl e v es
      | TYPE_STORE_MEM \<Rightarrow> set_node_data MemRepl e v es
      | TYPE_UNKNOWN \<Rightarrow> Inr es)"

fun type_of :: "place \<Rightarrow> heap_entry_type" where
  "type_of Repl = TYPE_STORE_ENTRY"
| "type_of MemRepl = TYPE_STORE_MEM"

text \<open>The entry exists and has a node in the place; the value of the node.\<close>

definition has_data :: "place \<Rightarrow> entries \<Rightarrow> nat \<Rightarrow> nat option \<Rightarrow> bool" where
  "has_data pl es e v \<longleftrightarrow> node_data pl e es = Inr v"

lemma has_data_entry: "has_data pl es e v \<Longrightarrow> \<exists>x. es e = Some x \<and> place_data pl x = Inr v"
  by (auto simp: has_data_def node_data_def get_entry_def split: option.splits)

lemma has_data_unique: "has_data pl es e v \<Longrightarrow> has_data pl es e w \<Longrightarrow> v = w"
  by (simp add: has_data_def)

lemma has_data_frame [simp]: "e \<noteq> e' \<Longrightarrow> has_data pl (es(e := x)) e' v = has_data pl es e' v"
  by (simp add: has_data_def node_data_def get_entry_def)

lemma place_put [simp]: "place_data pl x = Inr v \<Longrightarrow> place_data pl (put_data pl w x) = Inr w"
  by (cases pl) auto

lemma put_data_sel [simp]: "lock_count (put_data pl v x) = lock_count x" "storeEntryLocked (put_data pl v x) = storeEntryLocked x"
  "entry_special (put_data pl v x) = entry_special x" "lastref (put_data pl v x) = lastref x"
  by (cases pl; simp add: storeEntryLocked_def)+

lemma set_node_data_ok:
  assumes "has_data pl es e v"
  shows "\<exists>x. es e = Some x \<and> set_node_data pl e w es = Inr (es(e \<mapsto> put_data pl w x)) \<and>
    has_data pl (es(e \<mapsto> put_data pl w x)) e w"
  using has_data_entry [OF assms] assms
  by (auto simp: set_node_data_def has_data_def node_data_def get_entry_def)

lemma SET_POLICY_NODE_type [simp]: "SET_POLICY_NODE (type_of pl) e v es = set_node_data pl e v es"
  by (cases pl) (simp_all add: SET_POLICY_NODE_def)

lemma guessType_ok: "has_data pl es e v \<Longrightarrow> guessType e pl es = Inr (type_of pl)"
  by (cases pl) (auto simp: guessType_def has_data_def node_data_def get_entry_def split: option.splits)

definition is_locked :: "entries \<Rightarrow> nat \<Rightarrow> bool" where
  "is_locked es e \<longleftrightarrow> (\<exists>x. es e = Some x \<and> storeEntryLocked x)"

lemma entry_locked_ok: "has_data pl es e v \<Longrightarrow> entry_locked e es = Inr (is_locked es e)"
  by (auto simp: entry_locked_def is_locked_def get_entry_def dest!: has_data_entry)

lemma is_locked_put [simp]: "es e = Some x \<Longrightarrow> is_locked (es(e \<mapsto> put_data pl v x)) = is_locked es"
  by (auto simp: is_locked_def fun_eq_iff)

section \<open>Maintenance of a cache directory\<close>

record swap_dir =
  cur_size :: int
  low_size :: int
  max_size :: int
  n_files_in_map :: nat

definition FILEMAP_MAX :: nat where
  "FILEMAP_MAX = 2 ^ 24 - 65536"

text \<open>
  The fraction \<^verbatim>\<open>f\<close>, clipped to the unit interval. With \<^verbatim>\<open>max_size = low_size\<close> the division of the
  code gives an infinity, which is clipped, or, for \<^verbatim>\<open>cur_size = low_size\<close>, not a number, whose
  conversion to \<^verbatim>\<open>int\<close> is undefined.
\<close>

definition fill_level :: "swap_dir \<Rightarrow> rat res" where
  "fill_level sd =
     (if max_size sd = low_size sd
      then if cur_size sd = low_size sd then Inl Undefined
           else Inr (if cur_size sd < low_size sd then 0 else 1)
      else let f = of_int (cur_size sd - low_size sd) / of_int (max_size sd - low_size sd)
           in Inr (if f < 0 then 0 else if f > 1 then 1 else f))"

definition dir_has_room :: "swap_dir \<Rightarrow> bool" where
  "dir_has_room sd \<longleftrightarrow> cur_size sd < low_size sd \<and> n_files_in_map sd < FILEMAP_MAX"

text \<open>
  The loop of \<^verbatim>\<open>storeUfsDirMaintain\<close>, with the entries it released. The counter is
  \<^verbatim>\<open>max_remove - removed\<close>; \<open>PurgeNext\<close> is the function of the policy's table, \<open>release\<close> is
  \<^verbatim>\<open>storeRelease\<close>, and \<open>sd\<close> reads the directory from the state of the program.
\<close>

fun maintain_loop ::
  "('w \<Rightarrow> 'p \<Rightarrow> ('p \<times> 'w \<times> nat option) res) \<Rightarrow> ('p \<Rightarrow> swap_dir) \<Rightarrow> (nat \<Rightarrow> 'p \<Rightarrow> 'p res) \<Rightarrow>
   nat \<Rightarrow> 'w \<Rightarrow> 'p \<Rightarrow> ('p \<times> 'w \<times> nat list) res" where
  "maintain_loop PurgeNext sd release 0 w p = Inr (p, w, [])"
| "maintain_loop PurgeNext sd release (Suc left) w p =
     (if dir_has_room (sd p) then Inr (p, w, [])
      else res_bind (PurgeNext w p) (\<lambda>(p, w, r).
        case r of
          None \<Rightarrow> Inr (p, w, [])
        | Some e \<Rightarrow>
            res_bind (release e p) (\<lambda>p.
            res_bind (maintain_loop PurgeNext sd release left w p) (\<lambda>(p, w, es). Inr (p, w, e # es)))))"

definition storeUfsDirMaintain ::
  "(int \<Rightarrow> 'p \<Rightarrow> ('p \<times> 'w) res) \<Rightarrow> ('w \<Rightarrow> 'p \<Rightarrow> ('p \<times> 'w \<times> nat option) res) \<Rightarrow> ('w \<Rightarrow> 'p \<Rightarrow> 'p res) \<Rightarrow>
   ('p \<Rightarrow> swap_dir) \<Rightarrow> (nat \<Rightarrow> 'p \<Rightarrow> 'p res) \<Rightarrow> bool \<Rightarrow> 'p \<Rightarrow> ('p \<times> nat list) res" where
  "storeUfsDirMaintain PurgeInit PurgeNext PurgeDone sd release store_dirs_rebuilding p =
     (if store_dirs_rebuilding then Inr (p, [])
      else res_bind (fill_level (sd p)) (\<lambda>f.
        let max_scan = \<lfloor>f * 400 + 100\<rfloor>; max_remove = \<lfloor>f * 70 + 10\<rfloor>
        in res_bind (PurgeInit max_scan p) (\<lambda>(p, w).
           res_bind (maintain_loop PurgeNext sd release (nat max_remove) w p) (\<lambda>(p, w, es).
           res_bind (PurgeDone w p) (\<lambda>p. Inr (p, es))))))"

section \<open>The interface\<close>

text \<open>
  \<open>ok p S\<close>: outside a walk the policy manages exactly the entries \<open>S\<close>. \<open>walking p w S\<close>: the same
  while a purge walker is active. The laws of the walker: it hands out an unlocked entry that it
  managed, and forgets it, or ends the walk; and when the walk is over the policy still manages
  everything that was not handed out.
\<close>

locale removal_policy =
  fixes ok :: "'p \<Rightarrow> nat set \<Rightarrow> bool"
    and walking :: "'p \<Rightarrow> 'w \<Rightarrow> nat set \<Rightarrow> bool"
    and addable :: "'p \<Rightarrow> nat \<Rightarrow> bool"
    and locked :: "'p \<Rightarrow> nat \<Rightarrow> bool"
    and Add :: "nat \<Rightarrow> 'p \<Rightarrow> 'p res"
    and Remove :: "nat \<Rightarrow> 'p \<Rightarrow> 'p res"
    and PurgeInit :: "int \<Rightarrow> 'p \<Rightarrow> ('p \<times> 'w) res"
    and PurgeNext :: "'w \<Rightarrow> 'p \<Rightarrow> ('p \<times> 'w \<times> nat option) res"
    and PurgeDone :: "'w \<Rightarrow> 'p \<Rightarrow> 'p res"
  assumes add: "ok p S \<Longrightarrow> addable p e \<Longrightarrow> \<exists>p'. Add e p = Inr p' \<and> ok p' (insert e S)"
    and remove: "ok p S \<Longrightarrow> e \<in> S \<Longrightarrow> \<exists>p'. Remove e p = Inr p' \<and> ok p' (S - {e})"
    and purge_init: "ok p S \<Longrightarrow> \<exists>p' w. PurgeInit n p = Inr (p', w) \<and> walking p' w S \<and> (\<forall>x. locked p' x = locked p x)"
    and purge_next: "walking p w S \<Longrightarrow> \<exists>p' w' r. PurgeNext w p = Inr (p', w', r) \<and>
      (case r of None \<Rightarrow> walking p' w' S | Some e \<Rightarrow> e \<in> S \<and> \<not> locked p e \<and> walking p' w' (S - {e})) \<and>
      (\<forall>x. locked p' x = locked p x)"
    and purge_done: "walking p w S \<Longrightarrow> \<exists>p'. PurgeDone w p = Inr p' \<and> ok p' S"
begin

text \<open>What the maintenance needs of \<^verbatim>\<open>storeRelease\<close>: it leaves the other entries and the walk alone.\<close>

definition releases :: "(nat \<Rightarrow> 'p \<Rightarrow> 'p res) \<Rightarrow> bool" where
  "releases release \<longleftrightarrow> (\<forall>p w S e. walking p w S \<longrightarrow> e \<notin> S \<longrightarrow>
     (\<exists>p'. release e p = Inr p' \<and> walking p' w S \<and> (\<forall>x \<in> S. locked p' x = locked p x)))"

lemma maintain_loop_ok:
  assumes "releases release" "walking p w S"
  shows "\<exists>p' w' es. maintain_loop PurgeNext sd release n w p = Inr (p', w', es) \<and>
    distinct es \<and> set es \<subseteq> {e \<in> S. \<not> locked p e} \<and> length es \<le> n \<and> walking p' w' (S - set es)"
  using assms(2)
proof (induction n arbitrary: p w S)
  case (Suc n)
  show ?case
  proof (cases "dir_has_room (sd p)")
    case True
    then show ?thesis using Suc.prems by simp
  next
    case False
    obtain p1 w1 r where nx: "PurgeNext w p = Inr (p1, w1, r)" "\<forall>x. locked p1 x = locked p x"
      "case r of None \<Rightarrow> walking p1 w1 S | Some e \<Rightarrow> e \<in> S \<and> \<not> locked p e \<and> walking p1 w1 (S - {e})"
      using purge_next [OF Suc.prems] by blast
    show ?thesis
    proof (cases r)
      case None
      then show ?thesis using nx False by simp
    next
      case (Some e)
      with nx have e: "e \<in> S" "\<not> locked p e" "walking p1 w1 (S - {e})" by simp_all
      obtain p2 where p2: "release e p1 = Inr p2" "walking p2 w1 (S - {e})" "\<forall>x \<in> S - {e}. locked p2 x = locked p1 x"
        using assms(1) e(3) unfolding releases_def by blast
      obtain p3 w3 es where r3: "maintain_loop PurgeNext sd release n w1 p2 = Inr (p3, w3, es)" "distinct es"
        "set es \<subseteq> {x \<in> S - {e}. \<not> locked p2 x}" "length es \<le> n" "walking p3 w3 (S - {e} - set es)"
        using Suc.IH [OF p2(2)] by blast
      have "set (e # es) \<subseteq> {x \<in> S. \<not> locked p x}" using r3(3) p2(3) nx(2) e by fastforce
      moreover have "S - {e} - set es = S - set (e # es)" by auto
      ultimately show ?thesis using nx(1) Some False p2(1) r3 by (auto intro!: exI [of _ p3] exI [of _ w3])
    qed
  qed
qed simp

lemma maintain_ok:
  assumes "releases release" "ok p S" "fill_level (sd p) = Inr f"
  shows "\<exists>p' es. storeUfsDirMaintain PurgeInit PurgeNext PurgeDone sd release False p = Inr (p', es) \<and>
    distinct es \<and> set es \<subseteq> {e \<in> S. \<not> locked p e} \<and> length es \<le> 80 \<and> ok p' (S - set es)"
proof -
  obtain p1 w1 where i: "PurgeInit \<lfloor>f * 400 + 100\<rfloor> p = Inr (p1, w1)" "walking p1 w1 S" "\<forall>x. locked p1 x = locked p x"
    using purge_init [OF assms(2)] by blast
  obtain p2 w2 es where l: "maintain_loop PurgeNext sd release (nat \<lfloor>f * 70 + 10\<rfloor>) w1 p1 = Inr (p2, w2, es)"
    "distinct es" "set es \<subseteq> {e \<in> S. \<not> locked p1 e}" "length es \<le> nat \<lfloor>f * 70 + 10\<rfloor>" "walking p2 w2 (S - set es)"
    using maintain_loop_ok [OF assms(1) i(2)] by blast
  obtain p3 where d: "PurgeDone w2 p2 = Inr p3" "ok p3 (S - set es)" using purge_done [OF l(5)] by blast
  have "f \<le> 1" using assms(3) by (auto simp: fill_level_def Let_def split: if_splits)
  then have "nat \<lfloor>f * 70 + 10\<rfloor> \<le> 80" by linarith
  then show ?thesis using assms(3) i l d by (simp add: storeUfsDirMaintain_def)
qed

end

end
