(* ===== verification/Repl_Lru.thy ===== *)
theory Repl_Lru
  imports Removal_Policy
begin

text \<open>
  The LRU replacement policy, \<^verbatim>\<open>src/repl/lru/store_repl_lru.c\<close>: a doubly linked list in the order of
  use, a walker, and the purge walker, which hands out unlocked entries from the front and moves
  locked ones to the end. Nodes come from a pool that never hands out an address twice. The
  policy refines a plain list of entries, and interprets the interface of \<open>Removal_Policy\<close>.
\<close>

section \<open>The policy\<close>

record lru_state =
  ents :: entries
  lnodes :: "nat nodes"
  next_node :: nat
  lru_list :: dlink_list
  lcount :: int
  nwalkers :: int
  ltype :: heap_entry_type

definition createRemovalPolicy_lru :: "entries \<Rightarrow> lru_state" where
  "createRemovalPolicy_lru es =
     \<lparr>ents = es, lnodes = (\<lambda>_. None), next_node = 0, lru_list = \<lparr>dhead = None, dtail = None\<rparr>,
      lcount = 0, nwalkers = 0, ltype = TYPE_UNKNOWN\<rparr>"

definition lru_add :: "nat \<Rightarrow> place \<Rightarrow> lru_state \<Rightarrow> lru_state res" where
  "lru_add entry pl st =
     res_bind (node_data pl entry (ents st)) (\<lambda>d.
     res_bind (c_assert (d = None)) (\<lambda>_.
     let lru_node = next_node st;
         h = (lnodes st)(lru_node \<mapsto> \<lparr>ddata = None, dprev = None, dnext = None\<rparr>)
     in res_bind (set_node_data pl entry (Some lru_node) (ents st)) (\<lambda>es.
        res_bind (dlinkAddTail entry lru_node (h, lru_list st)) (\<lambda>(h, lst).
        res_bind (if ltype st = TYPE_UNKNOWN then guessType entry pl es else Inr (ltype st)) (\<lambda>t.
          Inr (st\<lparr>ents := es, lnodes := h, next_node := Suc lru_node, lru_list := lst,
                  lcount := lcount st + 1, ltype := t\<rparr>))))))"

definition lru_remove :: "nat \<Rightarrow> place \<Rightarrow> lru_state \<Rightarrow> lru_state res" where
  "lru_remove entry pl st =
     res_bind (node_data pl entry (ents st)) (\<lambda>d.
       case d of
         None \<Rightarrow> Inr st
       | Some lru_node \<Rightarrow>
           res_bind (node (lnodes st) lru_node) (\<lambda>n.
             if ddata n = None then Inr st
             else res_bind (c_assert (ddata n = Some entry)) (\<lambda>_.
                  res_bind (set_node_data pl entry None (ents st)) (\<lambda>es.
                  res_bind (dlinkDelete lru_node (lnodes st, lru_list st)) (\<lambda>(h, lst).
                    Inr (st\<lparr>ents := es, lnodes := h(lru_node := None), lru_list := lst, lcount := lcount st - 1\<rparr>))))))"

definition lru_referenced :: "nat \<Rightarrow> place \<Rightarrow> lru_state \<Rightarrow> lru_state res" where
  "lru_referenced entry pl st =
     res_bind (node_data pl entry (ents st)) (\<lambda>d.
       case d of
         None \<Rightarrow> Inr st
       | Some lru_node \<Rightarrow>
           res_bind (dlinkDelete lru_node (lnodes st, lru_list st)) (\<lambda>hl.
           res_bind (dlinkAddTail entry lru_node hl) (\<lambda>(h, lst).
             Inr (st\<lparr>lnodes := h, lru_list := lst\<rparr>))))"

section \<open>Walkers\<close>

text \<open>The walker is its \<^verbatim>\<open>current\<close> pointer.\<close>

definition lru_walkInit :: "lru_state \<Rightarrow> lru_state \<times> nat option" where
  "lru_walkInit st = (st\<lparr>nwalkers := nwalkers st + 1\<rparr>, dhead (lru_list st))"

definition lru_walkNext :: "nat option \<Rightarrow> lru_state \<Rightarrow> (nat option \<times> nat option) res" where
  "lru_walkNext current st =
     (case current of
        None \<Rightarrow> Inr (None, None)
      | Some lru_node \<Rightarrow> res_bind (node (lnodes st) lru_node) (\<lambda>n. Inr (dnext n, ddata n)))"

definition lru_walkDone :: "lru_state \<Rightarrow> lru_state res" where
  "lru_walkDone st = res_bind (c_assert (nwalkers st > 0)) (\<lambda>_. Inr (st\<lparr>nwalkers := nwalkers st - 1\<rparr>))"

record purge_walker =
  current :: "nat option"
  start :: "nat option"
  scanned :: int
  max_scan :: int
  plocked :: int

definition lru_purgeInit :: "int \<Rightarrow> lru_state \<Rightarrow> (lru_state \<times> purge_walker) res" where
  "lru_purgeInit n st =
     Inr (st\<lparr>nwalkers := nwalkers st + 1\<rparr>,
          \<lparr>current = dhead (lru_list st), start = dhead (lru_list st), scanned = 0, max_scan = n, plocked = 0\<rparr>)"

text \<open>The jumps back to \<^verbatim>\<open>try_again\<close> end because every pass counts \<^verbatim>\<open>scanned\<close> up to \<^verbatim>\<open>max_scan\<close>.\<close>

function lru_purgeNext :: "purge_walker \<Rightarrow> lru_state \<Rightarrow> (lru_state \<times> purge_walker \<times> nat option) res" where
  "lru_purgeNext w st =
     (case current w of
        None \<Rightarrow> Inr (st, w, None)
      | Some lru_node \<Rightarrow>
          if scanned w \<ge> max_scan w then Inr (st, w, None)
          else res_bind (node (lnodes st) lru_node) (\<lambda>n.
               let w' = w\<lparr>scanned := scanned w + 1, current := (if dnext n = start w then None else dnext n)\<rparr>
               in case ddata n of
                    None \<Rightarrow> Inl UseAfterFree
                  | Some entry \<Rightarrow>
                      res_bind (dlinkDelete lru_node (lnodes st, lru_list st)) (\<lambda>(h, lst).
                      res_bind (entry_locked entry (ents st)) (\<lambda>lk.
                        if lk
                        then res_bind (dlinkAddTail entry lru_node (h, lst)) (\<lambda>(h, lst).
                               lru_purgeNext (w'\<lparr>plocked := plocked w + 1\<rparr>) (st\<lparr>lnodes := h, lru_list := lst\<rparr>))
                        else res_bind (SET_POLICY_NODE (ltype st) entry None (ents st)) (\<lambda>es.
                               Inr (st\<lparr>ents := es, lnodes := h(lru_node := None), lru_list := lst, lcount := lcount st - 1\<rparr>,
                                    w', Some entry))))))"
  by pat_completeness auto
termination
  by (relation "measure (\<lambda>(w, st). nat (max_scan w - scanned w))") auto

declare lru_purgeNext.simps [simp del]

definition lru_purgeDone :: "purge_walker \<Rightarrow> lru_state \<Rightarrow> lru_state res" where
  "lru_purgeDone w st = res_bind (c_assert (nwalkers st > 0)) (\<lambda>_. Inr (st\<lparr>nwalkers := nwalkers st - 1\<rparr>))"

text \<open>\<^verbatim>\<open>lru_free\<close>: the assertions demand an active walker and a remaining entry.\<close>

definition lru_free :: "lru_state \<Rightarrow> unit res" where
  "lru_free st = res_bind (c_assert (nwalkers st \<noteq> 0)) (\<lambda>_. c_assert (lcount st \<noteq> 0))"

section \<open>The invariant\<close>

text \<open>
  The list of nodes with their entries: the nodes are exactly the allocated ones, the count is
  right, and the entries of the list are exactly those that point at a node.
\<close>

definition lru_ok :: "place \<Rightarrow> lru_state \<Rightarrow> (nat \<times> nat) list \<Rightarrow> bool" where
  "lru_ok pl st xs \<longleftrightarrow>
     dlist (lnodes st) (lru_list st) xs \<and> distinct (map snd xs) \<and> lcount st = int (length xs) \<and>
     (\<forall>(m, e) \<in> set xs. has_data pl (ents st) e (Some m)) \<and>
     (\<forall>e m. has_data pl (ents st) e (Some m) \<longrightarrow> e \<in> snd ` set xs) \<and>
     (ltype st = type_of pl \<or> ltype st = TYPE_UNKNOWN \<and> xs = []) \<and>
     dom (lnodes st) = fst ` set xs \<and> (\<forall>m \<in> fst ` set xs. m < next_node st) \<and> 0 \<le> nwalkers st"

lemma lru_okI:
  assumes "dlist (lnodes st) (lru_list st) xs" "distinct (map snd xs)" "lcount st = int (length xs)"
    "\<And>m e. (m, e) \<in> set xs \<Longrightarrow> has_data pl (ents st) e (Some m)"
    "\<And>e m. has_data pl (ents st) e (Some m) \<Longrightarrow> e \<in> snd ` set xs"
    "ltype st = type_of pl \<or> ltype st = TYPE_UNKNOWN \<and> xs = []"
    "dom (lnodes st) = fst ` set xs" "\<And>m. m \<in> fst ` set xs \<Longrightarrow> m < next_node st" "0 \<le> nwalkers st"
  shows "lru_ok pl st xs"
  using assms unfolding lru_ok_def by blast

lemma lru_okD:
  assumes "lru_ok pl st xs"
  shows "dlist (lnodes st) (lru_list st) xs" "distinct (map snd xs)" "lcount st = int (length xs)"
    "\<And>m e. (m, e) \<in> set xs \<Longrightarrow> has_data pl (ents st) e (Some m)"
    "\<And>e m. has_data pl (ents st) e (Some m) \<Longrightarrow> e \<in> snd ` set xs"
    "dom (lnodes st) = fst ` set xs" "\<And>m. m \<in> fst ` set xs \<Longrightarrow> m < next_node st" "0 \<le> nwalkers st"
    "distinct (map fst xs)"
  using assms unfolding lru_ok_def dlist_def by blast+

lemma lru_ok_type: "lru_ok pl st xs \<Longrightarrow> xs \<noteq> [] \<Longrightarrow> ltype st = type_of pl"
  by (auto simp: lru_ok_def)

lemma lru_create_ok:
  assumes "\<And>e m. \<not> has_data pl es e (Some m)" shows "lru_ok pl (createRemovalPolicy_lru es) []"
  using assms by (auto simp: lru_ok_def createRemovalPolicy_lru_def)

lemma lru_ok_walkers: "lru_ok pl st xs \<Longrightarrow> 0 \<le> n \<Longrightarrow> lru_ok pl (st\<lparr>nwalkers := n\<rparr>) xs"
  by (auto simp: lru_ok_def)

lemma lru_ok_fresh: "lru_ok pl st xs \<Longrightarrow> next_node st \<notin> fst ` set xs"
  using lru_okD(7) by blast

lemma lru_ok_absent: "lru_ok pl st xs \<Longrightarrow> has_data pl (ents st) e None \<Longrightarrow> e \<notin> snd ` set xs"
  using lru_okD(4) has_data_unique by fastforce

lemma lru_ok_memberE:
  assumes "lru_ok pl st xs" "e \<in> snd ` set xs"
  obtains as m bs where "xs = as @ (m, e) # bs" "has_data pl (ents st) e (Some m)"
    "e \<notin> snd ` set as" "e \<notin> snd ` set bs" "m \<notin> fst ` set as" "m \<notin> fst ` set bs"
proof -
  obtain m where m: "(m, e) \<in> set xs" using assms(2) by auto
  then obtain as bs where xs: "xs = as @ (m, e) # bs" by (meson split_list)
  show thesis using that [OF xs] lru_okD(2,4,9) [OF assms(1)] m xs by auto
qed

section \<open>The operations on the list\<close>

lemma lru_add_ok:
  assumes "lru_ok pl st xs" "has_data pl (ents st) e None"
  shows "\<exists>st'. lru_add e pl st = Inr st' \<and> lru_ok pl st' (xs @ [(next_node st, e)])"
proof -
  let ?m = "next_node st"
  let ?h = "(lnodes st)(?m \<mapsto> \<lparr>ddata = None, dprev = None, dnext = None\<rparr>)"
  note I = lru_okD [OF assms(1)]
  have f: "?m \<notin> fst ` set xs" by (rule lru_ok_fresh [OF assms(1)])
  have "dlist ?h (lru_list st) xs" using I(1) f by (simp add: dlist_def dseg_frame)
  from dlinkAddTail_ok [OF this _ f, of e] obtain h lst where a: "dlinkAddTail e ?m (?h, lru_list st) = Inr (h, lst)"
    "dlist h lst (xs @ [(?m, e)])" "frame (insert ?m (fst ` set xs)) ?h h" by auto
  obtain x where x: "ents st e = Some x" "set_node_data pl e (Some ?m) (ents st) = Inr ((ents st)(e \<mapsto> put_data pl (Some ?m) x))"
    "has_data pl ((ents st)(e \<mapsto> put_data pl (Some ?m) x)) e (Some ?m)"
    using set_node_data_ok [OF assms(2)] by blast
  let ?es = "(ents st)(e \<mapsto> put_data pl (Some ?m) x)"
  have eq: "has_data pl ?es e' v = has_data pl (ents st) e' v" if "e' \<noteq> e" for e' v using that by simp
  have t: "(if ltype st = TYPE_UNKNOWN then guessType e pl ?es else Inr (ltype st)) = Inr (type_of pl)"
    using guessType_ok [OF x(3)] assms(1) by (auto simp: lru_ok_def)
  let ?st = "st\<lparr>ents := ?es, lnodes := h, next_node := Suc ?m, lru_list := lst, lcount := lcount st + 1, ltype := type_of pl\<rparr>"
  have "lru_add e pl st = Inr ?st"
    using assms(2) x(2) a(1) t by (simp add: lru_add_def has_data_def Let_def)
  moreover have "lru_ok pl ?st (xs @ [(?m, e)])"
  proof (rule lru_okI, goal_cases)
    case (4 m e')
    then show ?case using I(4) x(3) lru_ok_absent [OF assms] eq by (cases "e' = e") force+
  next
    case (5 e' m)
    then show ?case using I(5) eq [of e' "Some m"] by (cases "e' = e") auto
  next
    case 7
    then show ?case using a(3) I(6) by (simp add: frame_def)
  next
    case (8 m)
    then show ?case using I(7) by fastforce
  qed (use a(2) I lru_ok_absent [OF assms] in auto)
  ultimately show ?thesis by blast
qed

text \<open>Taking a node out, common to \<^verbatim>\<open>lru_remove\<close> and \<^verbatim>\<open>lru_purgeNext\<close>.\<close>

lemma unlink_ok:
  assumes "lru_ok pl st (as @ (m, e) # bs)"
  shows "\<exists>h lst es. dlinkDelete m (lnodes st, lru_list st) = Inr (h, lst) \<and>
    set_node_data pl e None (ents st) = Inr es \<and> is_locked es = is_locked (ents st) \<and>
    lru_ok pl (st\<lparr>ents := es, lnodes := h(m := None), lru_list := lst, lcount := lcount st - 1\<rparr>) (as @ bs) \<and>
    (\<forall>x v. x \<noteq> e \<longrightarrow> has_data pl es x v = has_data pl (ents st) x v) \<and> has_data pl es e None"
proof -
  note I = lru_okD [OF assms]
  obtain h lst where d: "dlinkDelete m (lnodes st, lru_list st) = Inr (h, lst)" "dlist h lst (as @ bs)"
    "h m = Some \<lparr>ddata = Some e, dprev = None, dnext = None\<rparr>" "frame (insert m (fst ` set (as @ bs))) (lnodes st) h"
    using dlinkDelete_ok [OF I(1)] by blast
  have "has_data pl (ents st) e (Some m)" by (rule I(4)) simp
  from set_node_data_ok [OF this] obtain x where x: "ents st e = Some x"
    "set_node_data pl e None (ents st) = Inr ((ents st)(e \<mapsto> put_data pl None x))"
    "has_data pl ((ents st)(e \<mapsto> put_data pl None x)) e None" by blast
  let ?es = "(ents st)(e \<mapsto> put_data pl None x)"
  have m: "m \<notin> fst ` set (as @ bs)" "e \<notin> snd ` set (as @ bs)" using I(2,9) by auto
  have eq: "has_data pl ?es e' v = has_data pl (ents st) e' v" if "e' \<noteq> e" for e' v using that by simp
  have "lru_ok pl (st\<lparr>ents := ?es, lnodes := h(m := None), lru_list := lst, lcount := lcount st - 1\<rparr>) (as @ bs)"
  proof (rule lru_okI, goal_cases)
    case 1
    then show ?case using d(2) m by (simp add: dlist_def dseg_append dseg_frame image_Un)
  next
    case (4 m' e')
    then have "e' \<noteq> e" using m by force
    then show ?case using I(4) [of m' e'] 4 by auto
  next
    case (5 e' m')
    then show ?case using I(5) [of e' m'] has_data_unique [OF x(3), of "Some m'"] by (cases "e' = e") auto
  next
    case 7
    have "dom (h(m := None)) = dom (lnodes st) - {m}" using d(4) by (simp add: frame_def)
    then show ?case using I(6) m by auto
  qed (use I lru_ok_type [OF assms] in auto)
  then show ?thesis using d(1) x eq by (auto intro!: exI [of _ h] exI [of _ lst] exI [of _ ?es])
qed

text \<open>Moving a node to the end, common to \<^verbatim>\<open>lru_referenced\<close> and \<^verbatim>\<open>lru_purgeNext\<close>.\<close>

lemma move_ok:
  assumes "lru_ok pl st (as @ (m, e) # bs)"
  shows "\<exists>h lst h' lst'. dlinkDelete m (lnodes st, lru_list st) = Inr (h, lst) \<and>
    dlinkAddTail e m (h, lst) = Inr (h', lst') \<and>
    lru_ok pl (st\<lparr>lnodes := h', lru_list := lst'\<rparr>) (as @ bs @ [(m, e)])"
proof -
  note I = lru_okD [OF assms]
  obtain h lst where d: "dlinkDelete m (lnodes st, lru_list st) = Inr (h, lst)" "dlist h lst (as @ bs)"
    "h m = Some \<lparr>ddata = Some e, dprev = None, dnext = None\<rparr>" "frame (insert m (fst ` set (as @ bs))) (lnodes st) h"
    using dlinkDelete_ok [OF I(1)] by blast
  have "m \<notin> fst ` set (as @ bs)" using I(9) by auto
  from dlinkAddTail_ok [OF d(2) _ this, of e] d(3) obtain h' lst' where
    a: "dlinkAddTail e m (h, lst) = Inr (h', lst')" "dlist h' lst' (as @ bs @ [(m, e)])"
    "frame (insert m (fst ` set (as @ bs))) h h'" by auto
  have "dom h' = fst ` set (as @ (m, e) # bs)" using a(3) d(4) I(6) by (simp add: frame_def)
  then have "lru_ok pl (st\<lparr>lnodes := h', lru_list := lst'\<rparr>) (as @ bs @ [(m, e)])"
    using a(2) assms by (simp add: lru_ok_def)
  then show ?thesis using d(1) a(1) by blast
qed

lemma lru_remove_ok:
  assumes "lru_ok pl st (as @ (m, e) # bs)"
  shows "\<exists>st'. lru_remove e pl st = Inr st' \<and> lru_ok pl st' (as @ bs)"
proof -
  have "has_data pl (ents st) e (Some m)" by (rule lru_okD(4) [OF assms]) simp
  moreover have "lnodes st m = Some \<lparr>ddata = Some e, dprev = last_or (map fst as) None, dnext = first_or (map fst bs) None\<rparr>"
    by (rule dlist_node [OF lru_okD(1) [OF assms]])
  ultimately show ?thesis using unlink_ok [OF assms] by (auto simp: lru_remove_def has_data_def node_def)
qed

lemma lru_remove_absent: "has_data pl (ents st) e None \<Longrightarrow> lru_remove e pl st = Inr st"
  by (simp add: lru_remove_def has_data_def)

lemma lru_referenced_ok:
  assumes "lru_ok pl st (as @ (m, e) # bs)"
  shows "\<exists>st'. lru_referenced e pl st = Inr st' \<and> lru_ok pl st' (as @ bs @ [(m, e)])"
proof -
  have "has_data pl (ents st) e (Some m)" by (rule lru_okD(4) [OF assms]) simp
  then show ?thesis using move_ok [OF assms] by (auto simp: lru_referenced_def has_data_def)
qed

section \<open>The purge walker\<close>

lemma purge_node:
  assumes "lru_ok pl st (as @ (m, e) # bs)"
  shows "node (lnodes st) m = Inr \<lparr>ddata = Some e, dprev = last_or (map fst as) None, dnext = first_or (map fst bs) None\<rparr>"
    "entry_locked e (ents st) = Inr (is_locked (ents st) e)"
  using dlist_node [OF lru_okD(1) [OF assms]] entry_locked_ok [OF lru_okD(4) [OF assms, of m e]]
  by (simp_all add: node_def)

definition advance :: "nat option \<Rightarrow> purge_walker \<Rightarrow> purge_walker" where
  "advance nxt w = w\<lparr>scanned := scanned w + 1, current := (if nxt = start w then None else nxt)\<rparr>"

lemma advance_sel [simp]: "scanned (advance n w) = scanned w + 1" "start (advance n w) = start w"
  "max_scan (advance n w) = max_scan w" "current (advance n w) = (if n = start w then None else n)"
  by (simp_all add: advance_def)

lemma purge_locked:
  assumes "lru_ok pl st (as @ (m, e) # bs)" "current w = Some m" "scanned w < max_scan w" "is_locked (ents st) e"
  shows "\<exists>w' st'. lru_purgeNext w st = lru_purgeNext w' st' \<and> lru_ok pl st' (as @ bs @ [(m, e)]) \<and>
    ents st' = ents st \<and> nwalkers st' = nwalkers st \<and>
    w' = (advance (first_or (map fst bs) None) w)\<lparr>plocked := plocked w + 1\<rparr>"
proof -
  obtain h lst h' lst' where "dlinkDelete m (lnodes st, lru_list st) = Inr (h, lst)"
    "dlinkAddTail e m (h, lst) = Inr (h', lst')" "lru_ok pl (st\<lparr>lnodes := h', lru_list := lst'\<rparr>) (as @ bs @ [(m, e)])"
    using move_ok [OF assms(1)] by blast
  then show ?thesis using assms(2-4) purge_node [OF assms(1)]
    by (subst lru_purgeNext.simps) (auto simp: advance_def Let_def intro!: exI [of _ "st\<lparr>lnodes := h', lru_list := lst'\<rparr>"])
qed

lemma purge_unlocked:
  assumes "lru_ok pl st (as @ (m, e) # bs)" "current w = Some m" "scanned w < max_scan w" "\<not> is_locked (ents st) e"
  shows "\<exists>st'. lru_purgeNext w st = Inr (st', advance (first_or (map fst bs) None) w, Some e) \<and>
    lru_ok pl st' (as @ bs) \<and> is_locked (ents st') = is_locked (ents st) \<and> nwalkers st' = nwalkers st"
proof -
  have "ltype st = type_of pl" using lru_ok_type [OF assms(1)] by simp
  moreover obtain h lst es where "dlinkDelete m (lnodes st, lru_list st) = Inr (h, lst)"
    "set_node_data pl e None (ents st) = Inr es" "is_locked es = is_locked (ents st)"
    "lru_ok pl (st\<lparr>ents := es, lnodes := h(m := None), lru_list := lst, lcount := lcount st - 1\<rparr>) (as @ bs)"
    using unlink_ok [OF assms(1)] by blast
  ultimately show ?thesis using assms(2-4) purge_node [OF assms(1)]
    by (subst lru_purgeNext.simps)
      (auto simp: advance_def Let_def intro!: exI [of _ "st\<lparr>ents := es, lnodes := h(m := None), lru_list := lst, lcount := lcount st - 1\<rparr>"])
qed

lemma purge_stops: "current w = None \<or> max_scan w \<le> scanned w \<Longrightarrow> lru_purgeNext w st = Inr (st, w, None)"
  by (subst lru_purgeNext.simps) (auto split: option.split)

text \<open>A walker that points at a node of the list stays inside the list, whatever it meets.\<close>

definition lru_walking :: "place \<Rightarrow> lru_state \<Rightarrow> purge_walker \<Rightarrow> nat set \<Rightarrow> bool" where
  "lru_walking pl st w S \<longleftrightarrow> (\<exists>xs. lru_ok pl st xs \<and> S = snd ` set xs \<and> 0 < nwalkers st \<and>
     (current w = None \<or> current w \<in> Some ` fst ` set xs))"

lemma advance_inside:
  assumes "first_or (map fst bs) None = None \<or> first_or (map fst bs) None \<in> Some ` A"
  shows "current (advance (first_or (map fst bs) None) w) = None \<or> current (advance (first_or (map fst bs) None) w) \<in> Some ` A"
  using assms by auto

lemma first_or_inside: "first_or (map fst bs) None = None \<or> first_or (map fst bs) None \<in> Some ` fst ` set (as @ bs @ cs)"
  by (cases bs) auto

lemma lru_purgeNext_walking:
  assumes "lru_walking pl st w S"
  shows "\<exists>st' w' r. lru_purgeNext w st = Inr (st', w', r) \<and>
    (case r of None \<Rightarrow> lru_walking pl st' w' S | Some e \<Rightarrow> e \<in> S \<and> \<not> is_locked (ents st) e \<and> lru_walking pl st' w' (S - {e})) \<and>
    is_locked (ents st') = is_locked (ents st)"
  using assms
proof (induction "nat (max_scan w - scanned w)" arbitrary: w st rule: less_induct)
  case less
  show ?case
  proof (cases "current w = None \<or> max_scan w \<le> scanned w")
    case True
    then show ?thesis using purge_stops less.prems by auto
  next
    case False
    from less.prems False obtain xs m where xs: "lru_ok pl st xs" "S = snd ` set xs" "0 < nwalkers st"
      "current w = Some m" "m \<in> fst ` set xs" by (auto simp: lru_walking_def)
    then obtain e as bs where split: "xs = as @ (m, e) # bs" by (metis (no_types) imageE prod.collapse split_list)
    note ok = xs(1)[unfolded split]
    show ?thesis
    proof (cases "is_locked (ents st) e")
      case True
      from purge_locked [OF ok xs(4) _ True] False obtain w' st' where n: "lru_purgeNext w st = lru_purgeNext w' st'"
        "lru_ok pl st' (as @ bs @ [(m, e)])" "ents st' = ents st" "nwalkers st' = nwalkers st"
        "w' = (advance (first_or (map fst bs) None) w)\<lparr>plocked := plocked w + 1\<rparr>" by auto
      have "S = snd ` set (as @ bs @ [(m, e)])" using xs(2) split by auto
      moreover have "current w' = None \<or> current w' \<in> Some ` fst ` set (as @ bs @ [(m, e)])"
        using advance_inside [OF first_or_inside [of bs as "[(m, e)]"]] n(5) by simp
      ultimately have "lru_walking pl st' w' S"
        using n(2,4) xs(3) unfolding lru_walking_def by metis
      moreover have "nat (max_scan w' - scanned w') < nat (max_scan w - scanned w)" using n(5) False by simp
      ultimately show ?thesis using less.hyps [of w' st'] unfolding n(1) n(3) by blast
    next
      case unl: False
      from purge_unlocked [OF ok xs(4) _ unl] False obtain st' where n:
        "lru_purgeNext w st = Inr (st', advance (first_or (map fst bs) None) w, Some e)"
        "lru_ok pl st' (as @ bs)" "is_locked (ents st') = is_locked (ents st)" "nwalkers st' = nwalkers st" by auto
      have S: "S - {e} = snd ` set (as @ bs)" "e \<in> S" using xs(2) split lru_okD(2) [OF ok] by auto
      have "current (advance (first_or (map fst bs) None) w) = None \<or>
          current (advance (first_or (map fst bs) None) w) \<in> Some ` fst ` set (as @ bs)"
        using advance_inside [OF first_or_inside [of bs as "[]"]] by simp
      then have "lru_walking pl st' (advance (first_or (map fst bs) None) w) (S - {e})"
        using n(2,4) xs(3) S(1) unfolding lru_walking_def by metis
      then show ?thesis using n(1,3) unl S(2) by simp
    qed
  qed
qed

definition lru_manages :: "place \<Rightarrow> lru_state \<Rightarrow> nat set \<Rightarrow> bool" where
  "lru_manages pl st S \<longleftrightarrow> (\<exists>xs. lru_ok pl st xs \<and> S = snd ` set xs)"

interpretation lru: removal_policy "lru_manages pl" "lru_walking pl" "\<lambda>st e. has_data pl (ents st) e None"
  "\<lambda>st. is_locked (ents st)" "\<lambda>e. lru_add e pl" "\<lambda>e. lru_remove e pl" lru_purgeInit lru_purgeNext lru_purgeDone
  for pl
proof (unfold_locales, goal_cases)
  case (1 p S e)
  then obtain xs where "lru_ok pl p xs" "S = snd ` set xs" by (auto simp: lru_manages_def)
  with lru_add_ok [OF this(1) 1(2)] show ?case unfolding lru_manages_def by fastforce
next
  case (2 p S e)
  then obtain xs where xs: "lru_ok pl p xs" "S = snd ` set xs" by (auto simp: lru_manages_def)
  then obtain as m bs where s: "xs = as @ (m, e) # bs" "e \<notin> snd ` set as" "e \<notin> snd ` set bs"
    using 2(2) by (auto elim!: lru_ok_memberE)
  then have "S - {e} = snd ` set (as @ bs)" using xs(2) by auto
  then show ?case using lru_remove_ok [OF xs(1)[unfolded s(1)]] unfolding lru_manages_def by metis
next
  case (3 p S n)
  then obtain xs where xs: "lru_ok pl p xs" "S = snd ` set xs" by (auto simp: lru_manages_def)
  have "dhead (lru_list p) = first_or (map fst xs) None" "0 \<le> nwalkers p"
    using xs(1) by (auto simp: lru_ok_def dlist_def)
  then show ?case using lru_ok_walkers [OF xs(1), of "nwalkers p + 1"] xs(2) first_or_inside [of xs "[]" "[]"]
    by (auto simp: lru_purgeInit_def lru_walking_def)
next
  case (4 p w S)
  then show ?case using lru_purgeNext_walking [OF 4] by fastforce
next
  case (5 p w S)
  then obtain xs where "lru_ok pl p xs" "S = snd ` set xs" "0 < nwalkers p" by (auto simp: lru_walking_def)
  then show ?case using lru_ok_walkers [of pl p xs "nwalkers p - 1"] by (auto simp: lru_purgeDone_def lru_manages_def)
qed

section \<open>The order of purging\<close>

text \<open>Locked entries at the front are moved behind the others, one by one.\<close>

lemma purge_skip:
  assumes "lru_ok pl st (ls @ (m, e) # rest)" "\<forall>x \<in> snd ` set ls. is_locked (ents st) x"
    "current w = first_or (map fst ls) (Some m)" "scanned w + int (length ls) \<le> max_scan w"
    "start w \<notin> Some ` set (tl (map fst ls @ [m]))"
  shows "\<exists>st' w'. lru_purgeNext w st = lru_purgeNext w' st' \<and> lru_ok pl st' ((m, e) # rest @ ls) \<and>
    ents st' = ents st \<and> nwalkers st' = nwalkers st \<and> current w' = Some m \<and>
    scanned w' = scanned w + int (length ls) \<and> max_scan w' = max_scan w"
  using assms
proof (induction ls arbitrary: st w rest)
  case Nil
  then show ?case by auto
next
  case (Cons x ls)
  obtain m0 e0 where x: "x = (m0, e0)" by (cases x)
  from purge_locked [of pl st "[]" m0 e0 "ls @ (m, e) # rest" w] Cons.prems x obtain w' st' where n:
    "lru_purgeNext w st = lru_purgeNext w' st'" "lru_ok pl st' (ls @ (m, e) # rest @ [(m0, e0)])"
    "ents st' = ents st" "nwalkers st' = nwalkers st"
    "w' = (advance (first_or (map fst (ls @ (m, e) # rest)) None) w)\<lparr>plocked := plocked w + 1\<rparr>" by auto
  have "start w \<notin> Some ` set (map fst ls @ [m])" using Cons.prems(5) by simp
  then have "current w' = first_or (map fst ls) (Some m)" "start w' \<notin> Some ` set (tl (map fst ls @ [m]))"
    using n(5) by (cases ls; auto)+
  then show ?case using Cons.IH [OF n(2), of w'] Cons.prems n x by (simp add: add.assoc)
qed

text \<open>The entry a fresh walker finds, and what the list is then.\<close>

lemma purge_first:
  assumes "lru_ok pl st (ls @ (m, e) # rest)" "\<forall>x \<in> snd ` set ls. is_locked (ents st) x"
    "current w = first_or (map fst ls) (Some m)" "start w = current w" "scanned w + int (length ls) \<le> max_scan w"
    "\<not> is_locked (ents st) e \<or> scanned w + int (length ls) = max_scan w"
  shows "\<exists>st' w'. lru_purgeNext w st = Inr (st', w', if scanned w + int (length ls) < max_scan w then Some e else None) \<and>
    lru_ok pl st' (if scanned w + int (length ls) < max_scan w then rest @ ls else (m, e) # rest @ ls)"
proof -
  have "distinct (map fst ls @ [m])" using lru_okD(9) [OF assms(1)] by auto
  then have "start w \<notin> Some ` set (tl (map fst ls @ [m]))" using assms(3,4) by (cases ls) auto
  from purge_skip [OF assms(1-3,5) this] obtain st' w' where s: "lru_purgeNext w st = lru_purgeNext w' st'"
    "lru_ok pl st' ((m, e) # rest @ ls)" "ents st' = ents st" "current w' = Some m"
    "scanned w' = scanned w + int (length ls)" "max_scan w' = max_scan w" by blast
  then show ?thesis
    using purge_unlocked [of pl st' "[]" m e "rest @ ls" w'] purge_stops [of w' st'] assms(5,6) by auto
qed

lemma find_take:
  assumes "\<forall>y \<in> set ls. \<not> P y" "P x"
  shows "find P (take n (ls @ x # rest)) = (if length ls < n then Some x else None)"
  using assms
proof (induction ls arbitrary: n)
  case Nil
  then show ?case by (cases n) auto
next
  case (Cons y ls)
  then show ?case by (cases n) auto
qed

lemma map_snd_split: "map snd xs = as @ e # bs \<Longrightarrow> \<exists>ls m rest. xs = ls @ (m, e) # rest \<and> map snd ls = as \<and> map snd rest = bs"
  by (clarsimp simp: map_eq_append_conv map_eq_Cons_conv) blast

text \<open>The entries in the order of the list, the least recently used first.\<close>

definition lru_order :: "place \<Rightarrow> lru_state \<Rightarrow> nat list \<Rightarrow> bool" where
  "lru_order pl st es \<longleftrightarrow> (\<exists>xs. lru_ok pl st xs \<and> es = map snd xs)"

lemma lru_order_split:
  assumes "lru_order pl st (as @ e # bs)"
  obtains xs m ys where "lru_ok pl st (xs @ (m, e) # ys)" "map snd xs = as" "map snd ys = bs"
  using assms unfolding lru_order_def by (metis map_snd_split)

lemma lru_order_manages: "lru_order pl st es \<Longrightarrow> lru_manages pl st (set es)"
  by (auto simp: lru_order_def lru_manages_def)

lemma lru_order_purge:
  assumes "lru_order pl st es" "0 \<le> n"
  shows "\<exists>st1 w st2 w' es'. lru_purgeInit n st = Inr (st1, w) \<and>
    lru_purgeNext w st1 = Inr (st2, w', find (\<lambda>e. \<not> is_locked (ents st) e) (take (nat n) es)) \<and>
    lru_order pl st2 es' \<and> set es' = set es - set_option (find (\<lambda>e. \<not> is_locked (ents st) e) (take (nat n) es))"
proof -
  let ?P = "\<lambda>e. \<not> is_locked (ents st) e"
  let ?st = "st\<lparr>nwalkers := nwalkers st + 1\<rparr>" and ?h = "dhead (lru_list st)"
  let ?w = "\<lparr>current = ?h, start = ?h, scanned = 0, max_scan = n, plocked = 0\<rparr>"
  obtain xs where xs: "lru_ok pl st xs" "es = map snd xs" using assms by (auto simp: lru_order_def)
  have ok: "lru_ok pl ?st xs" using lru_ok_walkers [OF xs(1)] lru_okD(8) [OF xs(1)] by simp
  have h: "?h = first_or (map fst xs) None" using lru_okD(1) [OF xs(1)] by (simp add: dlist_def)
  have "\<exists>st2 w' es'. lru_purgeNext ?w ?st = Inr (st2, w', find ?P (take (nat n) es)) \<and>
    lru_order pl st2 es' \<and> set es' = set es - set_option (find ?P (take (nat n) es))"
  proof (cases "\<forall>y \<in> set es. is_locked (ents st) y")
    case True
    have "lru_walking pl ?st ?w (set es)"
      using ok xs(2) lru_okD(8) [OF xs(1)] first_or_inside [of xs "[]" "[]"] by (auto simp: lru_walking_def h)
    from lru_purgeNext_walking [OF this] obtain st' w' r where r: "lru_purgeNext ?w ?st = Inr (st', w', r)"
      "case r of None \<Rightarrow> lru_walking pl st' w' (set es) | Some e \<Rightarrow> e \<in> set es \<and> \<not> is_locked (ents ?st) e \<and> lru_walking pl st' w' (set es - {e})"
      by blast
    moreover have "r = None" using r(2) True by (cases r) auto
    moreover have "find ?P (take (nat n) es) = None" using True by (auto simp: find_None_iff dest: in_set_takeD)
    ultimately show ?thesis by (auto simp: lru_walking_def lru_order_def)
  next
    case False
    then obtain as e bs where es: "es = as @ e # bs" "?P e" "\<forall>y \<in> set as. is_locked (ents st) y"
      using split_list_first_prop [of es ?P] by auto
    have f: "find ?P (take (nat n) es) = (if length as < nat n then Some e else None)"
      unfolding es(1) by (rule find_take) (use es in auto)
    have dist: "distinct es" using lru_okD(2) [OF xs(1)] xs(2) by simp
    show ?thesis
    proof (cases "length as < nat n")
      case True
      obtain ls m rest where x: "xs = ls @ (m, e) # rest" "map snd ls = as" "map snd rest = bs"
        using xs(2) es(1) map_snd_split by metis
      have "int (length ls) < n" using True x(2) by auto
      then obtain st' w' where n: "lru_purgeNext ?w ?st = Inr (st', w', Some e)" "lru_ok pl st' (rest @ ls)"
        using purge_first [of pl ?st ls m e rest ?w] ok x es h by auto
      have "lru_order pl st' (bs @ as)" using n(2) x by (auto simp: lru_order_def)
      moreover have "set (bs @ as) = set es - {e}" using es(1) dist by auto
      ultimately show ?thesis using n(1) f True by auto
    next
      case stop: False
      let ?ls = "take (nat n) xs" and ?x = "xs ! nat n" and ?rest = "drop (Suc (nat n)) xs"
      have len: "nat n < length xs" using stop es(1) arg_cong [OF xs(2), of length] by simp
      then have x: "xs = ?ls @ (fst ?x, snd ?x) # ?rest" by (simp add: id_take_nth_drop)
      have "snd ` set ?ls = set (take (nat n) es)" using xs(2) by (metis list.set_map take_map)
      moreover have "take (nat n) es = take (nat n) as" using stop es(1) by simp
      ultimately have "\<forall>y \<in> snd ` set ?ls. is_locked (ents st) y" using es(3) by (auto dest: in_set_takeD)
      moreover have "?h = first_or (map fst ?ls) (Some (fst ?x))" by (subst h, subst x) simp
      ultimately obtain st' w' where n: "lru_purgeNext ?w ?st = Inr (st', w', None)"
        "lru_ok pl st' ((fst ?x, snd ?x) # ?rest @ ?ls)"
        using purge_first [of pl ?st ?ls "fst ?x" "snd ?x" ?rest ?w] ok x len assms(2) by auto
      have "set (map snd ((fst ?x, snd ?x) # ?rest @ ?ls)) = set es" unfolding xs(2) by (subst (4) x) auto
      then show ?thesis using n f stop by (auto simp: lru_order_def)
    qed
  qed
  then show ?thesis by (auto simp: lru_purgeInit_def)
qed

section \<open>Properties\<close>

text \<open>
  C23. The LRU policy refines a list of entries in the order of use: a new entry is appended, a
  referenced entry moves to the end, a removed one leaves, and the pointer structure of nodes,
  the count and the pointers in the entries stay consistent. No operation touches a node that is
  not allocated, and no node is leaked.
\<close>

theorem lru_refines_recency_list:
  assumes "lru_order pl st (as @ e # bs)" "has_data pl (ents st) new None"
  shows "\<exists>st1 st2 st3. lru_add new pl st = Inr st1 \<and> lru_order pl st1 (as @ e # bs @ [new]) \<and>
    lru_referenced e pl st = Inr st2 \<and> lru_order pl st2 (as @ bs @ [e]) \<and>
    lru_remove e pl st = Inr st3 \<and> lru_order pl st3 (as @ bs)"
proof -
  obtain xs m ys where x: "lru_ok pl st (xs @ (m, e) # ys)" "map snd xs = as" "map snd ys = bs"
    by (rule lru_order_split [OF assms(1)])
  then show ?thesis
    using lru_add_ok [OF x(1) assms(2)] lru_referenced_ok [OF x(1)] lru_remove_ok [OF x(1)]
    by (fastforce simp: lru_order_def)
qed

text \<open>
  A fresh purge walker hands out the least recently used entry that is not locked, provided
  it is among the first \<^verbatim>\<open>max_scan\<close> entries, and nothing otherwise; the policy then manages all
  the other entries, the locked ones it passed included.
\<close>

theorem lru_purges_oldest_unlocked:
  assumes "lru_order pl st es" "0 \<le> n"
  shows "\<exists>st1 w st2 w' es'. lru_purgeInit n st = Inr (st1, w) \<and>
    lru_purgeNext w st1 = Inr (st2, w', find (\<lambda>e. \<not> is_locked (ents st) e) (take (nat n) es)) \<and>
    lru_order pl st2 es' \<and> set es' = set es - set_option (find (\<lambda>e. \<not> is_locked (ents st) e) (take (nat n) es))"
  using assms by (rule lru_order_purge)

section \<open>An example\<close>

text \<open>Three entries, the first of which is locked.\<close>

definition plain_entry :: store_entry where
  "plain_entry = \<lparr>repl = None, mem_repl = None, lastref = 0, swap_file_sz = 1, refcount = 1, lock_count = 0,
     store_status = STORE_OK, swap_status = SWAPOUT_DONE, entry_special = False, key_private = False\<rparr>"

definition demo_entries :: entries where
  "demo_entries = [1 \<mapsto> plain_entry\<lparr>lock_count := 1\<rparr>, 2 \<mapsto> plain_entry, 3 \<mapsto> plain_entry, 4 \<mapsto> plain_entry]"

definition demo_lru :: lru_state where
  "demo_lru = \<lparr>ents = demo_entries(1 \<mapsto> plain_entry\<lparr>lock_count := 1, repl := Some 0\<rparr>,
       2 \<mapsto> plain_entry\<lparr>repl := Some 1\<rparr>, 3 \<mapsto> plain_entry\<lparr>repl := Some 2\<rparr>),
     lnodes = [0 \<mapsto> \<lparr>ddata = Some 1, dprev = None, dnext = Some 1\<rparr>,
       1 \<mapsto> \<lparr>ddata = Some 2, dprev = Some 0, dnext = Some 2\<rparr>, 2 \<mapsto> \<lparr>ddata = Some 3, dprev = Some 1, dnext = None\<rparr>],
     next_node = 3, lru_list = \<lparr>dhead = Some 0, dtail = Some 2\<rparr>, lcount = 3, nwalkers = 0, ltype = TYPE_STORE_ENTRY\<rparr>"

lemmas demo_data = has_data_def node_data_def get_entry_def demo_entries_def plain_entry_def

lemma demo_lru_ok: "lru_ok Repl demo_lru [(0, 1), (1, 2), (2, 3)]"
  by (rule lru_okI) (auto simp: demo_lru_def dlist_def demo_data split: option.splits if_splits)

lemma demo_lru_order: "lru_order Repl demo_lru [1, 2, 3]"
  using demo_lru_ok by (auto simp: lru_order_def)

theorem lru_refines_recency_list_witness:
  "lru_order Repl demo_lru ([1] @ 2 # [3]) \<and> has_data Repl (ents demo_lru) 4 None \<and>
   (\<exists>st. lru_referenced 2 Repl demo_lru = Inr st \<and> lru_order Repl st [1, 3, 2])"
proof -
  have "has_data Repl (ents demo_lru) 4 None" by (simp add: demo_data demo_lru_def)
  then show ?thesis using demo_lru_order lru_refines_recency_list [of Repl demo_lru "[1]" 2 "[3]" 4] by auto
qed

theorem lru_purges_oldest_unlocked_witness:
  "lru_order Repl demo_lru [1, 2, 3] \<and>
   (\<exists>st1 w st2 w'. lru_purgeInit 100 demo_lru = Inr (st1, w) \<and> lru_purgeNext w st1 = Inr (st2, w', Some 2))"
proof -
  have "find (\<lambda>e. \<not> is_locked (ents demo_lru) e) (take (nat 100) [1, 2, 3]) = Some 2"
    by (simp add: is_locked_def demo_lru_def demo_entries_def plain_entry_def storeEntryLocked_def)
  then show ?thesis using demo_lru_order lru_purges_oldest_unlocked [OF demo_lru_order, of 100] by auto
qed

end
