(* ===== verification/Repl_Heap.thy ===== *)
theory Repl_Heap
  imports Removal_Policy Heap_Correct
begin

text \<open>
  The heap replacement policies, \<^verbatim>\<open>src/repl/heap/\<close>: the entries are the data of a heap whose keys are
  computed by one of three key functions; the purge walker takes the minimum until it finds an
  unlocked entry, keeps the locked ones aside and inserts them again when the walk is over.
  Keys and ages are rational numbers where the code has \<^verbatim>\<open>double\<close>; the function \<^verbatim>\<open>exp\<close> of the C library
  is a parameter. Theory \<open>Heap_Correct\<close> carries the heap itself. This is the second
  interpretation of the interface of \<open>Removal_Policy\<close>.
\<close>

section \<open>Key functions\<close>

type_synonym key_fun = "int \<Rightarrow> store_entry \<Rightarrow> rat \<Rightarrow> rat"

definition HeapKeyGen_StoreEntry_LFUDA :: "(rat \<Rightarrow> rat) \<Rightarrow> key_fun" where
  "HeapKeyGen_StoreEntry_LFUDA dexp curtime e age =
     (let tie = (if lastref e \<le> 0 then 0
                 else if curtime \<le> lastref e then 0
                 else 1 - dexp (of_int (lastref e - curtime) / 86400))
      in age + of_nat (refcount e) - tie)"

definition HeapKeyGen_StoreEntry_GDSF :: key_fun where
  "HeapKeyGen_StoreEntry_GDSF curtime e age =
     (let sz = (if swap_file_sz e \<noteq> 0 then of_nat (swap_file_sz e) else 1);
          tie = (if lastref e > 1 then 1 / of_int (lastref e) else 1)
      in age + of_nat (refcount e) / sz - tie)"

definition HeapKeyGen_StoreEntry_LRU :: key_fun where
  "HeapKeyGen_StoreEntry_LRU curtime e age = of_int (lastref e)"

section \<open>The policy\<close>

record heap_state =
  hents :: entries
  hheap :: "(rat, nat) heap"
  hcount :: int
  hwalkers :: int
  htype :: heap_entry_type
  curtime :: int

text \<open>The key function that the arguments of \<^verbatim>\<open>createRemovalPolicy_heap\<close> select; more than one argument is an error.\<close>

definition select_keyfunc :: "(rat \<Rightarrow> rat) \<Rightarrow> string list \<Rightarrow> key_fun res" where
  "select_keyfunc dexp args =
     (case args of
        [] \<Rightarrow> Inr HeapKeyGen_StoreEntry_LRU
      | keytype # args \<Rightarrow>
          res_bind (c_assert (args = [])) (\<lambda>_.
            Inr (if keytype = ''GDSF'' then HeapKeyGen_StoreEntry_GDSF
                 else if keytype = ''LFUDA'' then HeapKeyGen_StoreEntry_LFUDA dexp
                 else HeapKeyGen_StoreEntry_LRU)))"

definition createRemovalPolicy_heap :: "entries \<Rightarrow> int \<Rightarrow> heap_state" where
  "createRemovalPolicy_heap es now =
     \<lparr>hents = es, hheap = (new_heap 1000 0)\<lparr>hage := 1\<rparr>, hcount = 0, hwalkers = 0, htype = TYPE_UNKNOWN, curtime = now\<rparr>"

text \<open>A heap operation that fails touches a node that was freed.\<close>

definition heap_res :: "'a option \<Rightarrow> 'a res" where
  "heap_res r = (case r of None \<Rightarrow> Inl UseAfterFree | Some x \<Rightarrow> Inr x)"

lemma heap_res_Some [simp]: "heap_res (Some x) = Inr x"
  by (simp add: heap_res_def)

definition heap_add :: "key_fun \<Rightarrow> nat \<Rightarrow> place \<Rightarrow> heap_state \<Rightarrow> heap_state res" where
  "heap_add keyfunc entry pl st =
     res_bind (node_data pl entry (hents st)) (\<lambda>d.
     res_bind (c_assert (d = None)) (\<lambda>_.
     res_bind (get_entry entry (hents st)) (\<lambda>x.
       if entry_special x then Inr st
       else res_bind (heap_res (heap_insert (\<lambda>_. keyfunc (curtime st) x) (hheap st) entry)) (\<lambda>(hp, hnode).
            res_bind (set_node_data pl entry (Some hnode) (hents st)) (\<lambda>es.
            res_bind (if htype st = TYPE_UNKNOWN then guessType entry pl es else Inr (htype st)) (\<lambda>t.
              Inr (st\<lparr>hents := es, hheap := hp\<lparr>hage := hage hp + hage hp / 100000000\<rparr>,
                      hcount := hcount st + 1, htype := t\<rparr>)))))))"

definition heap_remove :: "nat \<Rightarrow> place \<Rightarrow> heap_state \<Rightarrow> heap_state res" where
  "heap_remove entry pl st =
     res_bind (node_data pl entry (hents st)) (\<lambda>d.
       case d of
         None \<Rightarrow> Inr st
       | Some hnode \<Rightarrow>
           res_bind (heap_res (heap_delete (hheap st) hnode)) (\<lambda>(hp, _).
           res_bind (set_node_data pl entry None (hents st)) (\<lambda>es.
             Inr (st\<lparr>hents := es, hheap := hp, hcount := hcount st - 1\<rparr>))))"

definition heap_referenced :: "key_fun \<Rightarrow> nat \<Rightarrow> place \<Rightarrow> heap_state \<Rightarrow> heap_state res" where
  "heap_referenced keyfunc entry pl st =
     res_bind (node_data pl entry (hents st)) (\<lambda>d.
       case d of
         None \<Rightarrow> Inr st
       | Some hnode \<Rightarrow>
           res_bind (get_entry entry (hents st)) (\<lambda>x.
           res_bind (heap_res (heap_update (\<lambda>_. keyfunc (curtime st) x) (hheap st) hnode entry)) (\<lambda>(hp, _).
             Inr (st\<lparr>hheap := hp\<rparr>))))"

section \<open>Walkers\<close>

definition heap_walkInit :: "heap_state \<Rightarrow> heap_state \<times> nat" where
  "heap_walkInit st = (st\<lparr>hwalkers := hwalkers st + 1\<rparr>, 0)"

definition heap_walkNext :: "nat \<Rightarrow> heap_state \<Rightarrow> (nat \<times> nat option) res" where
  "heap_walkNext current st =
     (if current \<ge> heap_nodes (hheap st) then Inr (current, None)
      else res_bind (heap_res (heap_peep (hheap st) current)) (\<lambda>e. Inr (current + 1, Some e)))"

definition heap_walkDone :: "heap_state \<Rightarrow> heap_state res" where
  "heap_walkDone st = res_bind (c_assert (hwalkers st > 0)) (\<lambda>_. Inr (st\<lparr>hwalkers := hwalkers st - 1\<rparr>))"

definition linklistPush :: "'a list \<Rightarrow> 'a \<Rightarrow> 'a list" where
  "linklistPush L p = L @ [p]"

fun linklistShift :: "'a list \<Rightarrow> 'a list \<times> 'a option" where
  "linklistShift [] = ([], None)"
| "linklistShift (p # L) = (L, Some p)"

record heap_walker =
  locked_entries :: "nat list"
  min_age :: rat

definition heap_purgeInit :: "int \<Rightarrow> heap_state \<Rightarrow> (heap_state \<times> heap_walker) res" where
  "heap_purgeInit max_scan st =
     Inr (st\<lparr>hwalkers := hwalkers st + 1\<rparr>, \<lparr>locked_entries = [], min_age = 0\<rparr>)"

text \<open>
  \<^verbatim>\<open>storeLockObject\<close>: the lock count is an unsigned short. Its notification of the policies does
  not reach a heap policy, which has no \<^verbatim>\<open>Referenced\<close> function.
\<close>

definition storeLockObject :: "nat \<Rightarrow> heap_state \<Rightarrow> heap_state res" where
  "storeLockObject entry st =
     res_bind (get_entry entry (hents st)) (\<lambda>x.
       Inr (st\<lparr>hents := (hents st)(entry \<mapsto> x\<lparr>lock_count := (lock_count x + 1) mod 65536, lastref := curtime st\<rparr>)\<rparr>))"

text \<open>\<^verbatim>\<open>storeUnlockObject\<close>, where \<open>last_unlock\<close> is what happens when the count reaches zero.\<close>

definition storeUnlockObject :: "(nat \<Rightarrow> heap_state \<Rightarrow> heap_state res) \<Rightarrow> nat \<Rightarrow> heap_state \<Rightarrow> heap_state res" where
  "storeUnlockObject last_unlock entry st =
     res_bind (get_entry entry (hents st)) (\<lambda>x.
       let c = (lock_count x + 65535) mod 65536;
           st = st\<lparr>hents := (hents st)(entry \<mapsto> x\<lparr>lock_count := c\<rparr>)\<rparr>
       in if c \<noteq> 0 then Inr st else last_unlock entry st)"

text \<open>
  The loop of \<^verbatim>\<open>heap_purgeNext\<close>. Every pass takes an entry out of the heap, so one pass more than
  the heap has nodes is enough fuel.
\<close>

fun purge_loop :: "nat \<Rightarrow> heap_walker \<Rightarrow> heap_state \<Rightarrow> (heap_state \<times> heap_walker \<times> nat option) res" where
  "purge_loop 0 w st = Inl Undefined"
| "purge_loop (Suc fuel) w st =
     (if \<not> heap_nodes (hheap st) > 0 then Inr (st, w, None)
      else res_bind (heap_res (heap_peepminkey (hheap st))) (\<lambda>age.
           res_bind (heap_res (heap_extractmin (hheap st))) (\<lambda>(hp, r).
           res_bind (heap_res r) (\<lambda>entry.
             let st = st\<lparr>hheap := hp\<rparr>
             in res_bind (entry_locked entry (hents st)) (\<lambda>lk.
                  if lk
                  then res_bind (storeLockObject entry st) (\<lambda>st.
                         purge_loop fuel (w\<lparr>locked_entries := linklistPush (locked_entries w) entry\<rparr>) st)
                  else res_bind (SET_POLICY_NODE (htype st) entry None (hents st)) (\<lambda>es.
                         Inr (st\<lparr>hents := es\<rparr>, w\<lparr>min_age := age\<rparr>, Some entry)))))))"

definition heap_purgeNext :: "heap_walker \<Rightarrow> heap_state \<Rightarrow> (heap_state \<times> heap_walker \<times> nat option) res" where
  "heap_purgeNext w st = purge_loop (heap_nodes (hheap st) + 1) w st"

text \<open>The loop of \<^verbatim>\<open>heap_purgeDone\<close> that inserts the locked entries again.\<close>

function reinsert :: "key_fun \<Rightarrow> (nat \<Rightarrow> heap_state \<Rightarrow> heap_state res) \<Rightarrow> nat list \<Rightarrow> heap_state \<Rightarrow> heap_state res" where
  "reinsert keyfunc last_unlock L st =
     (case linklistShift L of
        (_, None) \<Rightarrow> Inr st
      | (L', Some entry) \<Rightarrow>
          res_bind (get_entry entry (hents st)) (\<lambda>x.
          res_bind (heap_res (heap_insert (\<lambda>_. keyfunc (curtime st) x) (hheap st) entry)) (\<lambda>(hp, hnode).
          res_bind (SET_POLICY_NODE (htype st) entry (Some hnode) (hents st)) (\<lambda>es.
          res_bind (storeUnlockObject last_unlock entry (st\<lparr>hheap := hp, hents := es\<rparr>)) (\<lambda>st.
            reinsert keyfunc last_unlock L' st)))))"
  by pat_completeness auto
termination
proof (relation "measure (\<lambda>(k, u, L, st). length L)", goal_cases)
  case (2 keyfunc last_unlock L st x1 x2 entry)
  then show ?case by (cases L) auto
qed simp

declare reinsert.simps [simp del]

lemma reinsert_Nil [simp]: "reinsert keyfunc last_unlock [] st = Inr st"
  by (subst reinsert.simps) simp

lemma reinsert_Cons:
  "reinsert keyfunc last_unlock (entry # L) st =
     res_bind (get_entry entry (hents st)) (\<lambda>x.
     res_bind (heap_res (heap_insert (\<lambda>_. keyfunc (curtime st) x) (hheap st) entry)) (\<lambda>(hp, hnode).
     res_bind (SET_POLICY_NODE (htype st) entry (Some hnode) (hents st)) (\<lambda>es.
     res_bind (storeUnlockObject last_unlock entry (st\<lparr>hheap := hp, hents := es\<rparr>)) (reinsert keyfunc last_unlock L))))"
  by (subst reinsert.simps) simp

definition heap_purgeDone ::
  "key_fun \<Rightarrow> (nat \<Rightarrow> heap_state \<Rightarrow> heap_state res) \<Rightarrow> heap_walker \<Rightarrow> heap_state \<Rightarrow> heap_state res" where
  "heap_purgeDone keyfunc last_unlock w st =
     res_bind (c_assert (hwalkers st > 0)) (\<lambda>_.
       let st = st\<lparr>hwalkers := hwalkers st - 1\<rparr>;
           st = (if min_age w > 0 then st\<lparr>hheap := (hheap st)\<lparr>hage := min_age w\<rparr>\<rparr> else st)
       in reinsert keyfunc last_unlock (locked_entries w) st)"

definition heap_free :: "heap_state \<Rightarrow> unit res" where
  "heap_free st = res_bind (c_assert (hwalkers st \<noteq> 0)) (\<lambda>_. c_assert (hcount st \<noteq> 0))"

section \<open>The age of the heap\<close>

text \<open>Only the policy sets the age of a heap; the operations of the heap leave it.\<close>

lemma swap_age: "heap_swap_element hp a b = Some hp' \<Longrightarrow> hage hp' = hage hp"
  by (auto simp: heap_swap_element_def Let_def split: Option.bind_splits)

lemma ify_up_age: "heap_ify_up fuel hp elm = Some hp' \<Longrightarrow> hage hp' = hage hp"
proof (induction fuel arbitrary: hp)
  case 0
  then show ?case by (subst (asm) heap_ify_up.simps) (auto split: Option.bind_splits if_splits)
next
  case (Suc fuel)
  from Suc.prems show ?case
    by (subst (asm) heap_ify_up.simps) (auto split: Option.bind_splits if_splits dest!: Suc.IH swap_age)
qed

lemma ify_down_age: "heap_ify_down fuel hp elm = Some hp' \<Longrightarrow> hage hp' = hage hp"
proof (induction fuel arbitrary: hp)
  case 0
  then show ?case by (subst (asm) heap_ify_down.simps) (auto simp: Let_def split: Option.bind_splits if_splits)
next
  case (Suc fuel)
  from Suc.prems show ?case
    by (subst (asm) heap_ify_down.simps) (auto simp: Let_def split: Option.bind_splits if_splits dest!: Suc.IH swap_age)
qed

lemma heap_insert_age: "heap_insert g hp x = Some (hp', a) \<Longrightarrow> hage hp' = hage hp"
  by (auto simp: heap_insert_def heap_grow_def Let_def split: Option.bind_splits if_splits dest!: ify_up_age)

lemma heap_fix_age: "heap_fix hp elm = Some hp' \<Longrightarrow> hage hp' = hage hp"
  by (auto simp: heap_fix_def split: Option.bind_splits if_splits dest!: ify_up_age ify_down_age)

lemma heap_delete_age: "heap_delete hp elm = Some (hp', x) \<Longrightarrow> hage hp' = hage hp"
  by (auto simp: heap_delete_def heap_extractlast_def Let_def split: Option.bind_splits if_splits dest!: swap_age heap_fix_age)

lemma heap_extractmin_age: "heap_extractmin hp = Some (hp', r) \<Longrightarrow> hage hp' = hage hp"
  by (auto simp: heap_extractmin_def split: Option.bind_splits if_splits dest!: heap_delete_age)

section \<open>The invariant\<close>

lemma heap_rel_unique:
  assumes "heap_rel hp M" "(a, k, e) \<in># M" "(a, k', e') \<in># M"
  shows "k = k'" "e = e'" "(a, k, e) \<notin># M - {#(a, k, e)#}"
proof -
  obtain es where es: "hrep hp es" "M = mset es" using assms(1) by (auto simp: heap_rel_def)
  then have d: "distinct (map fst es)" by (simp add: hrep_def)
  show "k = k'" "e = e'" using d assms(2,3) es(2) eq_key_imp_eq_value [of es a "(k, e)" "(k', e')"] by auto
  have "distinct es" using d by (simp add: distinct_map)
  then have "count M (a, k, e) \<le> 1" using es(2) distinct_count_atmost_1 [of es] by auto
  then show "(a, k, e) \<notin># M - {#(a, k, e)#}" by (simp add: not_in_iff)
qed

text \<open>A locked entry holds a lock, so that locking it once more and unlocking it does not free it.\<close>

definition lock_held :: "entries \<Rightarrow> nat \<Rightarrow> bool" where
  "lock_held es e \<longleftrightarrow> (\<exists>x. es e = Some x \<and> (storeEntryLocked x \<longrightarrow> 0 < lock_count x \<and> lock_count x < 65535))"

definition in_heap :: "place \<Rightarrow> heap_state \<Rightarrow> (rat, nat) entry multiset \<Rightarrow> bool" where
  "in_heap pl st M \<longleftrightarrow> heap_rel (hheap st) M \<and> 0 \<le> hwalkers st \<and>
     (\<forall>a k e. (a, k, e) \<in># M \<longrightarrow> has_data pl (hents st) e (Some a) \<and> lock_held (hents st) e) \<and>
     (htype st = type_of pl \<or> htype st = TYPE_UNKNOWN \<and> M = {#})"

definition mdata :: "(rat, nat) entry multiset \<Rightarrow> nat set" where
  "mdata M = edata ` set_mset M"

lemma mdata_simps [simp]: "mdata {#} = {}" "mdata (add_mset (a, k, e) M) = insert e (mdata M)"
  by (simp_all add: mdata_def)

lemma mdata_iff: "e \<in> mdata M \<longleftrightarrow> (\<exists>a k. (a, k, e) \<in># M)"
  by (force simp: mdata_def)

lemma in_heap_unique:
  assumes "in_heap pl st M" "(a, k, e) \<in># M" "(a', k', e) \<in># M" shows "a' = a \<and> k' = k"
proof -
  have "has_data pl (hents st) e (Some a)" "has_data pl (hents st) e (Some a')" using assms by (auto simp: in_heap_def)
  then have "a' = a" using has_data_unique by fastforce
  then show ?thesis using heap_rel_unique(1) assms by (fastforce simp: in_heap_def)
qed

lemma mdata_remove:
  assumes "in_heap pl st M" "(a, k, e) \<in># M" shows "mdata (M - {#(a, k, e)#}) = mdata M - {e}"
proof -
  let ?N = "M - {#(a, k, e)#}"
  have "e \<notin> mdata ?N"
  proof
    assume "e \<in> mdata ?N"
    then obtain a' k' where n: "(a', k', e) \<in># ?N" by (auto simp: mdata_iff)
    then have "(a', k', e) \<in># M" by (rule in_diffD)
    then have "a' = a \<and> k' = k" by (rule in_heap_unique [OF assms])
    then show False using n heap_rel_unique(3) [of "hheap st" M a k e k e] assms by (simp add: in_heap_def)
  qed
  moreover have "mdata M = insert e (mdata ?N)" using assms(2) mdata_simps(2) [of a k e ?N] by simp
  ultimately show ?thesis by simp
qed

definition heap_manages :: "place \<Rightarrow> heap_state \<Rightarrow> nat set \<Rightarrow> bool" where
  "heap_manages pl st S \<longleftrightarrow> (\<exists>M. in_heap pl st M \<and> S = mdata M \<and> (\<forall>e a. has_data pl (hents st) e (Some a) \<longrightarrow> e \<in> S))"

text \<open>An entry the walker keeps aside: its node pointer may be stale, and it is locked once more.\<close>

definition aside :: "place \<Rightarrow> entries \<Rightarrow> nat \<Rightarrow> bool" where
  "aside pl es e \<longleftrightarrow> (\<exists>x v. es e = Some x \<and> has_data pl es e v \<and> 1 < lock_count x \<and> lock_count x < 65536)"

definition walk_rep :: "place \<Rightarrow> heap_state \<Rightarrow> heap_walker \<Rightarrow> (rat, nat) entry multiset \<Rightarrow> bool" where
  "walk_rep pl st w M \<longleftrightarrow>
     in_heap pl st M \<and> 0 < hwalkers st \<and> distinct (locked_entries w) \<and> mdata M \<inter> set (locked_entries w) = {} \<and>
     (\<forall>e \<in> set (locked_entries w). aside pl (hents st) e) \<and> (locked_entries w \<noteq> [] \<longrightarrow> htype st = type_of pl) \<and>
     (\<forall>e a. has_data pl (hents st) e (Some a) \<longrightarrow> e \<in> mdata M \<union> set (locked_entries w))"

definition heap_walking :: "place \<Rightarrow> heap_state \<Rightarrow> heap_walker \<Rightarrow> nat set \<Rightarrow> bool" where
  "heap_walking pl st w S \<longleftrightarrow> (\<exists>M. walk_rep pl st w M \<and> S = mdata M \<union> set (locked_entries w))"

lemma heap_purgeInit_walking:
  assumes "heap_manages pl st S"
  shows "\<exists>st' w. heap_purgeInit n st = Inr (st', w) \<and> heap_walking pl st' w S \<and> (\<forall>x. is_locked (hents st') x = is_locked (hents st) x)"
  using assms by (auto simp: heap_purgeInit_def heap_manages_def heap_walking_def walk_rep_def in_heap_def)

section \<open>Adding and removing\<close>

text \<open>Changing one entry in a way that keeps the others.\<close>

lemma lock_held_frame [simp]: "e \<noteq> e' \<Longrightarrow> lock_held (es(e := x)) e' = lock_held es e'"
  by (simp add: lock_held_def)

lemma aside_frame [simp]: "e \<noteq> e' \<Longrightarrow> aside pl (es(e := x)) e' = aside pl es e'"
  by (simp add: aside_def)

lemma lock_held_put [simp]: "es e = Some x \<Longrightarrow> lock_held (es(e \<mapsto> put_data pl v x)) e = lock_held es e"
  by (simp add: lock_held_def)

lemma in_heap_insert:
  assumes "in_heap pl st M" "has_data pl (hents st) e v" "e \<notin> mdata M" "lock_held (hents st) e"
  shows "\<exists>hp a es. heap_insert (\<lambda>_. keyf) (hheap st) e = Some (hp, a) \<and>
    set_node_data pl e (Some a) (hents st) = Inr es \<and> has_data pl es e (Some a) \<and> is_locked es = is_locked (hents st) \<and>
    (\<exists>x. hents st e = Some x \<and> es = (hents st)(e \<mapsto> put_data pl (Some a) x)) \<and>
    in_heap pl (st\<lparr>hents := es, hheap := hp, htype := type_of pl\<rparr>) (add_mset (a, keyf (hage (hheap st)), e) M)"
proof -
  let ?a = "hnext (hheap st)"
  obtain hp where hp: "heap_insert (\<lambda>_. keyf) (hheap st) e = Some (hp, ?a)"
    "heap_rel hp (add_mset (?a, keyf (hage (hheap st)), e) M)"
    using heap_insert_ok [of "hheap st" M "\<lambda>_. keyf" e] assms(1) by (auto simp: in_heap_def)
  obtain x where x: "hents st e = Some x" "set_node_data pl e (Some ?a) (hents st) = Inr ((hents st)(e \<mapsto> put_data pl (Some ?a) x))"
    "has_data pl ((hents st)(e \<mapsto> put_data pl (Some ?a) x)) e (Some ?a)"
    using set_node_data_ok [OF assms(2)] by blast
  let ?es = "(hents st)(e \<mapsto> put_data pl (Some ?a) x)"
  have "has_data pl ?es e' (Some a) \<and> lock_held ?es e'" if "(a, k, e') \<in># M" for a k e'
  proof -
    have "e' \<noteq> e" using that assms(3) by (auto simp: mdata_iff)
    then show ?thesis using that assms(1) by (auto simp: in_heap_def)
  qed
  moreover have "lock_held ?es e" using assms(4) x(1) by simp
  ultimately have "in_heap pl (st\<lparr>hents := ?es, hheap := hp, htype := type_of pl\<rparr>) (add_mset (?a, keyf (hage (hheap st)), e) M)"
    using hp(2) x(3) assms(1) by (auto simp: in_heap_def)
  then show ?thesis using hp(1) x by fastforce
qed

lemma in_heap_age: "in_heap pl st M \<Longrightarrow> in_heap pl (st\<lparr>hheap := (hheap st)\<lparr>hage := ag\<rparr>, hcount := c\<rparr>) M"
  by (simp add: in_heap_def heap_rel_def hrep_def)

lemma heap_add_ok:
  assumes "heap_manages pl st S" "has_data pl (hents st) e None" "lock_held (hents st) e"
    "\<forall>x. hents st e = Some x \<longrightarrow> \<not> entry_special x"
  shows "\<exists>st'. heap_add keyfunc e pl st = Inr st' \<and> heap_manages pl st' (insert e S)"
proof -
  obtain M where M: "in_heap pl st M" "S = mdata M" "\<And>e a. has_data pl (hents st) e (Some a) \<Longrightarrow> e \<in> S"
    using assms(1) by (auto simp: heap_manages_def)
  have n: "e \<notin> mdata M" using M(1) has_data_unique [OF assms(2)] by (auto simp: mdata_iff in_heap_def)
  obtain x where x: "hents st e = Some x" using assms(3) by (auto simp: lock_held_def)
  obtain hp a es where i: "heap_insert (\<lambda>_. keyfunc (curtime st) x) (hheap st) e = Some (hp, a)"
    "set_node_data pl e (Some a) (hents st) = Inr es" "has_data pl es e (Some a)" "es = (hents st)(e \<mapsto> put_data pl (Some a) x)"
    "in_heap pl (st\<lparr>hents := es, hheap := hp, htype := type_of pl\<rparr>) (add_mset (a, keyfunc (curtime st) x (hage (hheap st)), e) M)"
    using in_heap_insert [OF M(1) assms(2) n assms(3), of "keyfunc (curtime st) x"] x by auto
  have t: "(if htype st = TYPE_UNKNOWN then guessType e pl es else Inr (htype st)) = Inr (type_of pl)"
    using guessType_ok [OF i(3)] M(1) by (auto simp: in_heap_def)
  let ?st = "st\<lparr>hents := es, hheap := hp\<lparr>hage := hage hp + hage hp / 100000000\<rparr>, hcount := hcount st + 1, htype := type_of pl\<rparr>"
  have "heap_add keyfunc e pl st = Inr ?st"
    using assms(2,4) x i(1,2) t by (simp add: heap_add_def has_data_def get_entry_def)
  moreover have "in_heap pl ?st (add_mset (a, keyfunc (curtime st) x (hage (hheap st)), e) M)"
    using in_heap_age [OF i(5), where ag = "hage hp + hage hp / 100000000" and c = "hcount st + 1"] by (simp add: in_heap_def)
  moreover have "e' \<in> insert e S" if "has_data pl es e' (Some b)" for e' b
    using that M(3) i(4) by (cases "e' = e") auto
  ultimately show ?thesis using M(2) unfolding heap_manages_def by fastforce
qed

text \<open>Taking an entry out, common to \<^verbatim>\<open>heap_remove\<close> and \<^verbatim>\<open>heap_purgeNext\<close>.\<close>

lemma in_heap_remove:
  assumes "in_heap pl st M" "(a, k, e) \<in># M" "heap_rel hp (M - {#(a, k, e)#})"
    "\<And>e'. e' \<noteq> e \<Longrightarrow> es e' = hents st e'"
  shows "in_heap pl (st\<lparr>hents := es, hheap := hp\<rparr>) (M - {#(a, k, e)#})"
proof -
  have "has_data pl es e' (Some a') \<and> lock_held es e'" if "(a', k', e') \<in># M - {#(a, k, e)#}" for a' k' e'
  proof -
    have "e' \<in> mdata M - {e}" using that mdata_remove [OF assms(1,2)] mdata_iff by metis
    then have "es e' = hents st e'" using assms(4) by simp
    moreover have "has_data pl (hents st) e' (Some a') \<and> lock_held (hents st) e'"
      using in_diffD [OF that] assms(1) by (simp add: in_heap_def)
    ultimately show ?thesis by (simp add: has_data_def node_data_def get_entry_def lock_held_def)
  qed
  then show ?thesis using assms(1-3) by (auto simp: in_heap_def)
qed

lemma heap_remove_ok:
  assumes "heap_manages pl st S" "e \<in> S"
  shows "\<exists>st'. heap_remove e pl st = Inr st' \<and> heap_manages pl st' (S - {e})"
proof -
  obtain M where M: "in_heap pl st M" "S = mdata M" "\<And>e a. has_data pl (hents st) e (Some a) \<Longrightarrow> e \<in> S"
    using assms(1) by (auto simp: heap_manages_def)
  obtain a k where m: "(a, k, e) \<in># M" using assms(2) M(2) by (auto simp: mdata_iff)
  have d: "has_data pl (hents st) e (Some a)" using M(1) m by (simp add: in_heap_def)
  obtain hp where hp: "heap_delete (hheap st) a = Some (hp, e)" "heap_rel hp (M - {#(a, k, e)#})"
    using heap_delete_ok [of "hheap st" M a k e] M(1) m by (auto simp: in_heap_def)
  obtain x where x: "set_node_data pl e None (hents st) = Inr ((hents st)(e \<mapsto> put_data pl None x))"
    "has_data pl ((hents st)(e \<mapsto> put_data pl None x)) e None" using set_node_data_ok [OF d] by blast
  let ?es = "(hents st)(e \<mapsto> put_data pl None x)"
  have "heap_remove e pl st = Inr (st\<lparr>hents := ?es, hheap := hp, hcount := hcount st - 1\<rparr>)"
    using d hp(1) x(1) by (simp add: heap_remove_def has_data_def)
  moreover have "in_heap pl (st\<lparr>hents := ?es, hheap := hp, hcount := hcount st - 1\<rparr>) (M - {#(a, k, e)#})"
    using in_heap_remove [OF M(1) m hp(2), of ?es] by (simp add: in_heap_def)
  moreover have "e' \<in> S - {e}" if "has_data pl ?es e' (Some b)" for e' b
    using that M(3) has_data_unique [OF x(2)] by (cases "e' = e") auto
  ultimately show ?thesis using M(2) mdata_remove [OF M(1) m] unfolding heap_manages_def by fastforce
qed

section \<open>The purge walker\<close>

lemma heap_rel_nodes: "heap_rel hp M \<Longrightarrow> heap_nodes hp = size M"
  by (auto simp: heap_rel_def heap_nodes_def hrep_def)

lemma heap_rel_peepminkey:
  assumes "heap_rel hp M" "M \<noteq> {#}"
  shows "\<exists>k. heap_peepminkey hp = Some k \<and> (\<forall>e \<in># M. k \<le> ekey e) \<and> (\<exists>e \<in># M. k = ekey e)"
proof -
  obtain es where es: "hrep hp es" "ordered (length es) (ekeys es)" "M = mset es" using assms(1) by (auto simp: heap_rel_def)
  have ne: "0 < length es" using assms(2) es(3) by simp
  have "heap_peepminkey hp = Some (ekey (es ! 0))"
    using hrep_at [OF es(1) ne] hrep_exist [OF es(1), of 0] ne by (simp add: heap_peepminkey_def heap_peepkey_def)
  moreover have "ekey (es ! 0) \<le> ekey e" if "e \<in># M" for e
    using that es(3) ordered_min [OF es(2)] by (auto simp: in_set_conv_nth)
  ultimately show ?thesis using es(3) ne nth_mem by auto
qed

lemma place_data_lock [simp]: "place_data pl (x\<lparr>lock_count := c, lastref := t\<rparr>) = place_data pl x"
  "place_data pl (x\<lparr>lock_count := c\<rparr>) = place_data pl x"
  by (cases pl; simp)+

lemma has_data_lock:
  assumes "es e = Some x" "\<And>pl. place_data pl y = place_data pl x"
  shows "has_data pl (es(e \<mapsto> y)) e' v = has_data pl es e' v"
  using assms by (cases "e' = e") (simp_all add: has_data_def node_data_def get_entry_def)

lemma walk_rep_member:
  assumes "walk_rep pl st w M" "(a, k, e) \<in># M"
  shows "e \<in> mdata M" "e \<notin> set (locked_entries w)"
proof -
  show "e \<in> mdata M" using assms(2) by (auto simp: mdata_iff)
  then show "e \<notin> set (locked_entries w)" using assms(1) unfolding walk_rep_def by blast
qed

lemma walk_rep_locked:
  assumes r: "walk_rep pl st w M" and m: "(a, k, e) \<in># M" "heap_rel hp (M - {#(a, k, e)#})" "is_locked (hents st) e"
  shows "\<exists>st'. storeLockObject e (st\<lparr>hheap := hp\<rparr>) = Inr st' \<and> hheap st' = hp \<and>
    walk_rep pl st' (w\<lparr>locked_entries := linklistPush (locked_entries w) e\<rparr>) (M - {#(a, k, e)#}) \<and>
    is_locked (hents st') = is_locked (hents st)"
proof -
  have ih: "in_heap pl st M" using r by (simp add: walk_rep_def)
  have d: "has_data pl (hents st) e (Some a)" "lock_held (hents st) e" using ih m(1) by (auto simp: in_heap_def)
  obtain x where x: "hents st e = Some x" "storeEntryLocked x" "0 < lock_count x" "lock_count x < 65535"
    using d(2) m(3) by (auto simp: lock_held_def is_locked_def)
  let ?y = "x\<lparr>lock_count := lock_count x + 1, lastref := curtime st\<rparr>"
  let ?es = "(hents st)(e \<mapsto> ?y)"
  let ?st = "st\<lparr>hheap := hp, hents := ?es\<rparr>" and ?N = "M - {#(a, k, e)#}"
  have lock: "storeLockObject e (st\<lparr>hheap := hp\<rparr>) = Inr ?st"
    using x by (simp add: storeLockObject_def get_entry_def)
  have hd: "has_data pl ?es e' v = has_data pl (hents st) e' v" for e' v by (rule has_data_lock [of "hents st" e x]) (simp_all add: x(1))
  have "in_heap pl ?st ?N" using in_heap_remove [OF ih m(1,2), of ?es] by (simp add: in_heap_def)
  moreover have "e \<notin> set (locked_entries w)" by (rule walk_rep_member [OF r m(1)])
  moreover have "aside pl ?es e" using x(3,4) hd d(1) unfolding aside_def by auto
  moreover have "aside pl ?es e'" if "e' \<in> set (locked_entries w)" for e'
    using that r calculation(2) by (cases "e' = e") (auto simp: walk_rep_def)
  moreover have "htype st = type_of pl" using ih m(1) by (auto simp: in_heap_def)
  moreover have "is_locked ?es = is_locked (hents st)"
    using x(1,2) by (auto simp: is_locked_def fun_eq_iff storeEntryLocked_def)
  moreover have "e' \<in> mdata ?N \<union> set (locked_entries w @ [e])" if "has_data pl ?es e' (Some b)" for e' b
    using that r mdata_remove [OF ih m(1)] unfolding hd walk_rep_def by auto
  moreover have "mdata ?N \<inter> set (locked_entries w @ [e]) = {}"
    using r mdata_remove [OF ih m(1)] by (auto simp: walk_rep_def)
  ultimately have "walk_rep pl ?st (w\<lparr>locked_entries := linklistPush (locked_entries w) e\<rparr>) ?N" "is_locked ?es = is_locked (hents st)"
    using r unfolding walk_rep_def linklistPush_def by auto
  then show ?thesis using lock by (intro exI [of _ ?st]) simp
qed

lemma walk_rep_unlocked:
  assumes r: "walk_rep pl st w M" and m: "(a, k, e) \<in># M" "heap_rel hp (M - {#(a, k, e)#})"
  shows "\<exists>es. SET_POLICY_NODE (htype st) e None (hents st) = Inr es \<and>
    walk_rep pl (st\<lparr>hheap := hp, hents := es\<rparr>) w (M - {#(a, k, e)#}) \<and> is_locked es = is_locked (hents st)"
proof -
  have ih: "in_heap pl st M" using r by (simp add: walk_rep_def)
  have d: "has_data pl (hents st) e (Some a)" "htype st = type_of pl" using ih m(1) by (auto simp: in_heap_def)
  obtain x where x: "hents st e = Some x" "set_node_data pl e None (hents st) = Inr ((hents st)(e \<mapsto> put_data pl None x))"
    "has_data pl ((hents st)(e \<mapsto> put_data pl None x)) e None" using set_node_data_ok [OF d(1)] by blast
  let ?es = "(hents st)(e \<mapsto> put_data pl None x)" and ?N = "M - {#(a, k, e)#}"
  have "in_heap pl (st\<lparr>hheap := hp, hents := ?es\<rparr>) ?N" using in_heap_remove [OF ih m(1,2), of ?es] by (simp add: in_heap_def)
  moreover have "e \<notin> set (locked_entries w)" by (rule walk_rep_member [OF r m(1)])
  moreover have "aside pl ?es e'" if "e' \<in> set (locked_entries w)" for e'
    using that r calculation(2) by (cases "e' = e") (auto simp: walk_rep_def)
  moreover have "e' \<in> mdata ?N \<union> set (locked_entries w)" if "has_data pl ?es e' (Some b)" for e' b
    using that r mdata_remove [OF ih m(1)] has_data_unique [OF x(3)] by (cases "e' = e") (auto simp: walk_rep_def)
  moreover have "mdata ?N \<inter> set (locked_entries w) = {}"
    using r mdata_remove [OF ih m(1)] by (auto simp: walk_rep_def)
  ultimately have "walk_rep pl (st\<lparr>hheap := hp, hents := ?es\<rparr>) w ?N"
    using r d(2) unfolding walk_rep_def by auto
  then show ?thesis using x d(2) by auto
qed

text \<open>The walk leaves the age, and remembers the key of what it hands out.\<close>

lemma purge_loop_age:
  "purge_loop fuel w st = Inr (st', w', r) \<Longrightarrow> hage (hheap st') = hage (hheap st) \<and> (r = None \<longrightarrow> min_age w' = min_age w)"
proof (induction fuel arbitrary: w st)
  case (Suc fuel)
  show ?case
  proof (cases "heap_nodes (hheap st) > 0")
    case True
    then obtain age hp e lk where x: "heap_peepminkey (hheap st) = Some age" "heap_extractmin (hheap st) = Some (hp, Some e)"
      "entry_locked e (hents st) = Inr lk"
      using Suc.prems by (auto simp: heap_res_def res_bind_def Let_def split: option.splits sum.splits)
    note age = heap_extractmin_age [OF x(2)]
    show ?thesis
    proof (cases lk)
      case lk: True
      then obtain y where "get_entry e (hents st) = Inr y"
        using Suc.prems True x by (auto simp: storeLockObject_def res_bind_def Let_def split: sum.splits)
      then show ?thesis using Suc.prems True x lk age by (auto simp: storeLockObject_def dest!: Suc.IH)
    next
      case False
      then show ?thesis using Suc.prems True x age by (auto simp: res_bind_def Let_def split: sum.splits)
    qed
  qed (use Suc.prems in auto)
qed simp

text \<open>
  Enough fuel: the walk returns. The entry that it hands out has the smallest key of the
  entries that are not locked.
\<close>

lemma purge_loop_ok:
  assumes "walk_rep pl st w M" "size M < fuel"
  shows "\<exists>st' w' r. purge_loop fuel w st = Inr (st', w', r) \<and> is_locked (hents st') = is_locked (hents st) \<and>
    (\<exists>M'. walk_rep pl st' w' M' \<and>
      (case r of
         None \<Rightarrow> mdata M' \<union> set (locked_entries w') = mdata M \<union> set (locked_entries w) \<and> (\<forall>e \<in> mdata M. is_locked (hents st) e)
       | Some e \<Rightarrow> e \<in> mdata M \<and> \<not> is_locked (hents st) e \<and>
           mdata M' \<union> set (locked_entries w') = mdata M \<union> set (locked_entries w) - {e} \<and>
           (\<exists>a. (a, min_age w', e) \<in># M) \<and>
           (\<forall>a' k' e'. (a', k', e') \<in># M \<longrightarrow> \<not> is_locked (hents st) e' \<longrightarrow> min_age w' \<le> k')))"
  using assms
proof (induction fuel arbitrary: st w M)
  case (Suc fuel)
  have ih: "in_heap pl st M" and hr: "heap_rel (hheap st) M" using Suc.prems(1) by (auto simp: walk_rep_def in_heap_def)
  show ?case
  proof (cases "M = {#}")
    case True
    then show ?thesis using Suc.prems(1) heap_rel_nodes [OF hr] by auto
  next
    case False
    obtain a k e hp where x: "(a, k, e) \<in># M" "\<forall>y \<in># M. k \<le> ekey y" "heap_extractmin (hheap st) = Some (hp, Some e)"
      "heap_rel hp (M - {#(a, k, e)#})" using heap_extractmin_ok [OF hr False] by blast
    obtain k0 where k0: "heap_peepminkey (hheap st) = Some k0" "\<forall>y \<in># M. k0 \<le> ekey y" "\<exists>y \<in># M. k0 = ekey y"
      using heap_rel_peepminkey [OF hr False] by blast
    have k: "k0 = k" using k0(2,3) x(1,2) by (metis antisym fst_conv snd_conv)
    have nodes: "heap_nodes (hheap st) > 0" using heap_rel_nodes [OF hr] False by (simp add: nonempty_has_size)
    have lk: "entry_locked e (hents st) = Inr (is_locked (hents st) e)"
      using ih x(1) entry_locked_ok [of pl "hents st" e "Some a"] by (simp add: in_heap_def)
    have eM: "mdata (M - {#(a, k, e)#}) = mdata M - {e}" "e \<in> mdata M" "e \<notin> set (locked_entries w)"
      using mdata_remove [OF ih x(1)] walk_rep_member [OF Suc.prems(1) x(1)] by auto
    show ?thesis
    proof (cases "is_locked (hents st) e")
      case True
      let ?w = "w\<lparr>locked_entries := linklistPush (locked_entries w) e\<rparr>" and ?N = "M - {#(a, k, e)#}"
      obtain st1 where s1: "storeLockObject e (st\<lparr>hheap := hp\<rparr>) = Inr st1" "walk_rep pl st1 ?w ?N"
        "is_locked (hents st1) = is_locked (hents st)"
        using walk_rep_locked [OF Suc.prems(1) x(1,4) True] by blast
      have "size M = Suc (size ?N)" using x(1) by (metis insert_DiffM size_add_mset)
      then have "size ?N < fuel" using Suc.prems(2) by simp
      have step: "purge_loop (Suc fuel) w st = purge_loop fuel ?w st1"
        using nodes k0(1) x(3) lk True s1(1) by simp
      obtain st' w' r M' where R: "purge_loop fuel ?w st1 = Inr (st', w', r)" "is_locked (hents st') = is_locked (hents st)"
        "walk_rep pl st' w' M'"
        "case r of
           None \<Rightarrow> mdata M' \<union> set (locked_entries w') = mdata ?N \<union> set (locked_entries ?w) \<and> (\<forall>e \<in> mdata ?N. is_locked (hents st) e)
         | Some e' \<Rightarrow> e' \<in> mdata ?N \<and> \<not> is_locked (hents st) e' \<and>
             mdata M' \<union> set (locked_entries w') = mdata ?N \<union> set (locked_entries ?w) - {e'} \<and>
             (\<exists>a. (a, min_age w', e') \<in># ?N) \<and>
             (\<forall>a' k' e''. (a', k', e'') \<in># ?N \<longrightarrow> \<not> is_locked (hents st) e'' \<longrightarrow> min_age w' \<le> k')"
        using Suc.IH [OF s1(2) \<open>size ?N < fuel\<close>] unfolding s1(3) by blast
      have un: "mdata ?N \<union> set (locked_entries ?w) = mdata M \<union> set (locked_entries w)" using eM by (auto simp: linklistPush_def)
      have rest: "(a', k', e') \<in># ?N" if "(a', k', e') \<in># M" "\<not> is_locked (hents st) e'" for a' k' e'
        using that True by (auto simp: in_diff_count)
      show ?thesis
      proof (cases r)
        case None
        then show ?thesis using R True eM(1) unfolding step un by auto
      next
        case (Some e')
        then obtain b where b: "(b, min_age w', e') \<in># ?N" "\<not> is_locked (hents st) e'" "e' \<in> mdata M"
          "mdata M' \<union> set (locked_entries w') = mdata M \<union> set (locked_entries w) - {e'}"
          using R(4) eM(1) unfolding un by auto
        have "min_age w' \<le> k'" if "(a', k', e'') \<in># M" "\<not> is_locked (hents st) e''" for a' k' e''
          using rest [OF that] that(2) R(4) Some by auto
        then show ?thesis using R(1-3) Some b in_diffD [OF b(1)] unfolding step by fastforce
      qed
    next
      case False
      obtain es where es: "SET_POLICY_NODE (htype st) e None (hents st) = Inr es"
        "walk_rep pl (st\<lparr>hheap := hp, hents := es\<rparr>) w (M - {#(a, k, e)#})" "is_locked es = is_locked (hents st)"
        using walk_rep_unlocked [OF Suc.prems(1) x(1,4)] by blast
      have "purge_loop (Suc fuel) w st = Inr (st\<lparr>hheap := hp, hents := es\<rparr>, w\<lparr>min_age := k\<rparr>, Some e)"
        using nodes k0(1) x(3) lk False es(1) k by simp
      moreover have "walk_rep pl (st\<lparr>hheap := hp, hents := es\<rparr>) (w\<lparr>min_age := k\<rparr>) (M - {#(a, k, e)#})"
        using es(2) by (simp add: walk_rep_def)
      moreover have "mdata (M - {#(a, k, e)#}) \<union> set (locked_entries w) = mdata M \<union> set (locked_entries w) - {e}"
        using eM by auto
      moreover have "k \<le> k'" if "(a', k', e') \<in># M" for a' k' e' using bspec [OF x(2) that] by simp
      ultimately show ?thesis using es(3) eM(2) x(1) False
        by (intro exI [of _ "st\<lparr>hheap := hp, hents := es\<rparr>"] exI [of _ "w\<lparr>min_age := k\<rparr>"] exI [of _ "Some e"]
            exI [of _ "M - {#(a, k, e)#}"] conjI) auto
    qed
  qed
qed simp

lemma heap_purgeNext_walking:
  assumes "heap_walking pl st w S"
  shows "\<exists>st' w' r. heap_purgeNext w st = Inr (st', w', r) \<and>
    (case r of None \<Rightarrow> heap_walking pl st' w' S | Some e \<Rightarrow> e \<in> S \<and> \<not> is_locked (hents st) e \<and> heap_walking pl st' w' (S - {e})) \<and>
    (\<forall>x. is_locked (hents st') x = is_locked (hents st) x)"
proof -
  obtain M where M: "walk_rep pl st w M" "S = mdata M \<union> set (locked_entries w)" using assms by (auto simp: heap_walking_def)
  have "size M < heap_nodes (hheap st) + 1" using M(1) heap_rel_nodes by (fastforce simp: walk_rep_def in_heap_def)
  from purge_loop_ok [OF M(1) this] obtain st' w' r M' where R: "heap_purgeNext w st = Inr (st', w', r)"
    "is_locked (hents st') = is_locked (hents st)" "walk_rep pl st' w' M'"
    "case r of None \<Rightarrow> mdata M' \<union> set (locked_entries w') = S
     | Some e \<Rightarrow> e \<in> mdata M \<and> \<not> is_locked (hents st) e \<and> mdata M' \<union> set (locked_entries w') = S - {e}"
    unfolding heap_purgeNext_def M(2) by (fastforce split: option.splits)
  then show ?thesis using M(2) by (cases r) (auto simp: heap_walking_def)
qed

text \<open>After the walk the entries that were kept aside are in the heap again, with valid pointers.\<close>

lemma reinsert_ok:
  assumes "in_heap pl st M" "distinct L" "mdata M \<inter> set L = {}" "\<forall>e \<in> set L. aside pl (hents st) e"
    "L \<noteq> [] \<longrightarrow> htype st = type_of pl" "\<forall>e a. has_data pl (hents st) e (Some a) \<longrightarrow> e \<in> mdata M \<union> set L"
  shows "\<exists>st'. reinsert keyfunc last_unlock L st = Inr st' \<and> heap_manages pl st' (mdata M \<union> set L) \<and> hage (hheap st') = hage (hheap st)"
  using assms
proof (induction L arbitrary: st M)
  case Nil
  then show ?case by (auto simp: heap_manages_def)
next
  case (Cons e L)
  obtain x v where x: "hents st e = Some x" "has_data pl (hents st) e v" "1 < lock_count x" "lock_count x < 65536"
    using Cons.prems(4) by (auto simp: aside_def)
  let ?st0 = "st\<lparr>hents := (hents st)(e \<mapsto> x\<lparr>lock_count := lock_count x - 1\<rparr>)\<rparr>"
  have nM: "e \<notin> mdata M" using Cons.prems(3) by auto
  obtain hp where hp: "heap_insert (\<lambda>_. keyfunc (curtime st) x) (hheap st) e = Some (hp, hnext (hheap st))"
    "heap_rel hp (add_mset (hnext (hheap st), keyfunc (curtime st) x (hage (hheap st)), e) M)"
    using heap_insert_ok [of "hheap st" M "\<lambda>_. keyfunc (curtime st) x" e] Cons.prems(1) by (auto simp: in_heap_def)
  let ?a = "hnext (hheap st)" and ?k = "keyfunc (curtime st) x (hage (hheap st))"
  let ?y = "put_data pl (Some ?a) x"
  have sn: "set_node_data pl e (Some ?a) (hents st) = Inr ((hents st)(e \<mapsto> ?y))" "has_data pl ((hents st)(e \<mapsto> ?y)) e (Some ?a)"
    using set_node_data_ok [OF x(2), of "Some ?a"] x(1) by auto
  have ty: "htype st = type_of pl" using Cons.prems(5) by simp
  let ?z = "?y\<lparr>lock_count := lock_count x - 1\<rparr>"
  let ?es = "(hents st)(e \<mapsto> ?z)"
  let ?st = "st\<lparr>hheap := hp, hents := ?es\<rparr>" and ?M = "add_mset (?a, ?k, e) M"
  have "(lock_count x + 65535) mod 65536 = lock_count x - 1" "lock_count x - 1 \<noteq> 0"
    using x(3,4) by (auto simp: mod_if)
  then have un: "storeUnlockObject last_unlock e (st\<lparr>hheap := hp, hents := (hents st)(e \<mapsto> ?y)\<rparr>) = Inr ?st"
    by (simp add: storeUnlockObject_def get_entry_def Let_def)
  have step: "reinsert keyfunc last_unlock (e # L) st = reinsert keyfunc last_unlock L ?st"
    using x(1) hp(1) sn(1) ty un by (simp add: reinsert_Cons get_entry_def)
  have de: "has_data pl ?es e (Some ?a)"
    using sn(2) has_data_lock [of "(hents st)(e \<mapsto> ?y)" e ?y ?z pl e "Some ?a"] by simp
  have "0 < lock_count x - 1" "lock_count x - 1 < 65535" using x(3,4) by linarith+
  then have he: "lock_held ?es e" by (simp add: lock_held_def)
  have "has_data pl ?es e' (Some a) \<and> lock_held ?es e'" if "(a, k, e') \<in># M" for a k e'
  proof -
    have "e' \<noteq> e" using that nM by (auto simp: mdata_iff)
    then show ?thesis using that Cons.prems(1) by (auto simp: in_heap_def)
  qed
  then have "in_heap pl ?st ?M" using hp(2) de he Cons.prems(1) ty by (auto simp: in_heap_def)
  moreover have "mdata ?M \<inter> set L = {}" "distinct L" using Cons.prems(2,3) by auto
  moreover have "\<forall>e' \<in> set L. aside pl (hents ?st) e'"
  proof
    fix e' assume "e' \<in> set L"
    then have "e' \<noteq> e" using Cons.prems(2) by auto
    then show "aside pl (hents ?st) e'" using \<open>e' \<in> set L\<close> Cons.prems(4) by simp
  qed
  moreover have "\<forall>e' a. has_data pl (hents ?st) e' (Some a) \<longrightarrow> e' \<in> mdata ?M \<union> set L"
  proof (intro allI impI)
    fix e' a assume "has_data pl (hents ?st) e' (Some a)"
    then show "e' \<in> mdata ?M \<union> set L" using Cons.prems(6) by (cases "e' = e") auto
  qed
  moreover have ty': "L \<noteq> [] \<longrightarrow> htype ?st = type_of pl" using ty by simp
  ultimately have "\<exists>st'. reinsert keyfunc last_unlock L ?st = Inr st' \<and> heap_manages pl st' (mdata ?M \<union> set L) \<and>
      hage (hheap st') = hage (hheap ?st)"
    using Cons.IH [of ?st ?M] ty' by blast
  then show ?case unfolding step using heap_insert_age [OF hp(1)] by simp
qed

lemma heap_purgeDone_ok:
  assumes "heap_walking pl st w S"
  shows "\<exists>st'. heap_purgeDone keyfunc last_unlock w st = Inr st' \<and> heap_manages pl st' S \<and>
    hage (hheap st') = (if min_age w > 0 then min_age w else hage (hheap st))"
proof -
  obtain M where M: "walk_rep pl st w M" "S = mdata M \<union> set (locked_entries w)" using assms by (auto simp: heap_walking_def)
  let ?st = "st\<lparr>hwalkers := hwalkers st - 1\<rparr>"
  let ?st' = "if min_age w > 0 then ?st\<lparr>hheap := (hheap ?st)\<lparr>hage := min_age w\<rparr>\<rparr> else ?st"
  have "in_heap pl ?st' M" using M(1) by (simp add: walk_rep_def in_heap_def heap_rel_def hrep_def)
  moreover have "hents ?st' = hents st" "htype ?st' = htype st" by simp_all
  ultimately have "\<exists>st'. reinsert keyfunc last_unlock (locked_entries w) ?st' = Inr st' \<and> heap_manages pl st' S \<and> hage (hheap st') = hage (hheap ?st')"
    using reinsert_ok [of pl ?st' M "locked_entries w" keyfunc last_unlock] M by (simp add: walk_rep_def)
  moreover have "0 < hwalkers st" using M(1) by (simp add: walk_rep_def)
  moreover have "hage (hheap ?st') = (if min_age w > 0 then min_age w else hage (hheap st))" by simp
  ultimately show ?thesis unfolding heap_purgeDone_def Let_def by simp
qed

lemma heap_purgeDone_manages:
  "heap_walking pl st w S \<Longrightarrow> \<exists>st'. heap_purgeDone keyfunc last_unlock w st = Inr st' \<and> heap_manages pl st' S"
  using heap_purgeDone_ok by blast

definition heap_addable :: "place \<Rightarrow> heap_state \<Rightarrow> nat \<Rightarrow> bool" where
  "heap_addable pl st e \<longleftrightarrow> has_data pl (hents st) e None \<and> lock_held (hents st) e \<and>
     (\<forall>x. hents st e = Some x \<longrightarrow> \<not> entry_special x)"

interpretation hpol: removal_policy "heap_manages pl" "heap_walking pl" "heap_addable pl" "\<lambda>st. is_locked (hents st)"
  "\<lambda>e. heap_add keyfunc e pl" "\<lambda>e. heap_remove e pl" heap_purgeInit heap_purgeNext "heap_purgeDone keyfunc last_unlock"
  for pl keyfunc last_unlock
  by unfold_locales
    (auto simp: heap_addable_def intro: heap_add_ok heap_remove_ok heap_purgeInit_walking heap_purgeNext_walking heap_purgeDone_manages)

section \<open>Properties\<close>

text \<open>
  C25. A purge walk of a heap policy hands out an entry that is not locked and whose key is
  the smallest among the entries that are not locked, or nothing if every entry is locked; when
  the walk is over the policy manages every other entry again, those that were locked included,
  and its age is the key of the entry that was handed out if that is positive, and the old age otherwise. The walk returns:
  a pass of its loop removes a node. This holds in the states described by \<^const>\<open>in_heap\<close>: the heap has exactly the entries
  with a policy node, and an entry that counts as locked holds between 1 and 65534 locks, whether it is
  also pending or being swapped out; an entry that is locked without a lock count, which the walker
  would unlock for the last time, is not covered.
\<close>

theorem heap_purges_smallest_key:
  assumes "in_heap pl st M" "\<forall>e a. has_data pl (hents st) e (Some a) \<longrightarrow> e \<in> mdata M"
  shows "\<exists>st1 w st2 w' r st3. heap_purgeInit n st = Inr (st1, w) \<and> heap_purgeNext w st1 = Inr (st2, w', r) \<and>
    heap_purgeDone keyfunc last_unlock w' st2 = Inr st3 \<and> heap_manages pl st3 (mdata M - set_option r) \<and>
    (case r of
       None \<Rightarrow> (\<forall>e \<in> mdata M. is_locked (hents st) e) \<and> hage (hheap st3) = hage (hheap st)
     | Some e \<Rightarrow> \<not> is_locked (hents st) e \<and> (\<exists>a k. (a, k, e) \<in># M \<and>
         (\<forall>a' k' e'. (a', k', e') \<in># M \<longrightarrow> \<not> is_locked (hents st) e' \<longrightarrow> k \<le> k') \<and>
         hage (hheap st3) = (if k > 0 then k else hage (hheap st))))"
proof -
  let ?st = "st\<lparr>hwalkers := hwalkers st + 1\<rparr>" and ?w = "\<lparr>locked_entries = [], min_age = 0\<rparr>"
  have w: "walk_rep pl ?st ?w M" using assms by (simp add: walk_rep_def in_heap_def)
  have "size M < heap_nodes (hheap ?st) + 1" using assms(1) heap_rel_nodes by (fastforce simp: in_heap_def)
  moreover have sel: "hents ?st = hents st" "mdata M \<union> set (locked_entries ?w) = mdata M" by simp_all
  ultimately obtain st2 w' r M' where R: "heap_purgeNext ?w ?st = Inr (st2, w', r)" "walk_rep pl st2 w' M'"
    "case r of
       None \<Rightarrow> mdata M' \<union> set (locked_entries w') = mdata M \<and> (\<forall>e \<in> mdata M. is_locked (hents st) e)
     | Some e \<Rightarrow> e \<in> mdata M \<and> \<not> is_locked (hents st) e \<and> mdata M' \<union> set (locked_entries w') = mdata M - {e} \<and>
         (\<exists>a. (a, min_age w', e) \<in># M) \<and>
         (\<forall>a' k' e'. (a', k', e') \<in># M \<longrightarrow> \<not> is_locked (hents st) e' \<longrightarrow> min_age w' \<le> k')"
    using purge_loop_ok [OF w] unfolding heap_purgeNext_def sel by blast
  have "heap_walking pl st2 w' (mdata M - set_option r)"
    using R(2,3) unfolding heap_walking_def by (cases r) auto
  then obtain st3 where st3: "heap_purgeDone keyfunc last_unlock w' st2 = Inr st3" "heap_manages pl st3 (mdata M - set_option r)"
    "hage (hheap st3) = (if min_age w' > 0 then min_age w' else hage (hheap st2))" using heap_purgeDone_ok by blast
  have age: "hage (hheap st2) = hage (hheap st)" "r = None \<Longrightarrow> min_age w' = 0"
    using purge_loop_age [OF R(1) [unfolded heap_purgeNext_def]] by simp_all
  show ?thesis
  proof (cases r)
    case None
    then show ?thesis using R(1,3) st3 age by (auto simp: heap_purgeInit_def)
  next
    case (Some e)
    then obtain a where "(a, min_age w', e) \<in># M" "\<not> is_locked (hents st) e"
      "\<forall>a' k' e'. (a', k', e') \<in># M \<longrightarrow> \<not> is_locked (hents st) e' \<longrightarrow> min_age w' \<le> k'" using R(3) by auto
    then show ?thesis using R(1) st3 age(1) Some by (fastforce simp: heap_purgeInit_def)
  qed
qed

text \<open>
  The contract of maintenance, instantiated for a heap policy: with a \<^verbatim>\<open>storeRelease\<close> that disturbs neither the
  walk nor the locks of other entries, \<^verbatim>\<open>storeUfsDirMaintain\<close> returns, releases at most 80 entries, each once,
  each managed by the policy and none of them locked, and the policy goes on to manage exactly the others.
\<close>

lemma maintain_releases_unlocked_only:
  assumes release: "\<And>p w T e. heap_walking pl p w T \<Longrightarrow> e \<notin> T \<Longrightarrow>
      \<exists>p'. release e p = Inr p' \<and> heap_walking pl p' w T \<and> (\<forall>x \<in> T. is_locked (hents p') x = is_locked (hents p) x)"
    and "heap_manages pl st S" "max_size (sd st) \<noteq> low_size (sd st)"
  shows "\<exists>st' es. storeUfsDirMaintain heap_purgeInit heap_purgeNext (heap_purgeDone keyfunc last_unlock) sd release False st = Inr (st', es) \<and>
    distinct es \<and> set es \<subseteq> {e \<in> S. \<not> is_locked (hents st) e} \<and> length es \<le> 80 \<and> heap_manages pl st' (S - set es)"
proof -
  have "\<exists>f. fill_level (sd st) = Inr f" using assms(3) by (simp add: fill_level_def Let_def)
  then show ?thesis using hpol.maintain_ok [of pl release st S sd _ keyfunc last_unlock] release assms(2)
    unfolding hpol.releases_def by blast
qed

section \<open>An example\<close>

text \<open>Two entries with GDSF keys, of which the one with the smaller key is locked.\<close>

definition sample_entry :: "nat \<Rightarrow> store_entry" where
  "sample_entry locks = \<lparr>repl = None, mem_repl = None, lastref = 100, swap_file_sz = 1, refcount = 1, lock_count = locks,
     store_status = STORE_OK, swap_status = SWAPOUT_DONE, entry_special = False, key_private = False\<rparr>"

definition sample_policy :: heap_state where
  "sample_policy = \<lparr>hents = [1 \<mapsto> (sample_entry 1)\<lparr>repl := Some 0\<rparr>, 2 \<mapsto> (sample_entry 0)\<lparr>repl := Some 1\<rparr>],
     hheap = \<lparr>hsize = 2, hlast = 2, hage = 1, hnodes = [Some 0, Some 1],
       hstore = [0 \<mapsto> \<lparr>hkey = 5, hid = 0, hdata = 1\<rparr>, 1 \<mapsto> \<lparr>hkey = 7, hid = 1, hdata = 2\<rparr>], hnext = 2\<rparr>,
     hcount = 2, hwalkers = 0, htype = TYPE_STORE_ENTRY, curtime = 200\<rparr>"

lemma sample_heap: "in_heap Repl sample_policy {#(0, 5, 1), (1, 7, 2)#}"
proof -
  have "hrep (hheap sample_policy) [(0, 5, 1), (1, 7, 2)]"
    by (auto simp: hrep_def sample_policy_def enode_def less_Suc_eq numeral_2_eq_2)
  moreover have "ordered (Suc (Suc 0)) (ekeys [(0, 5 :: rat, 1 :: nat), (1 :: nat, 7, 2)])"
    by (auto simp: edges_def Parent_def less_Suc_eq numeral_2_eq_2)
  ultimately have "heap_rel (hheap sample_policy) {#(0, 5, 1), (1, 7, 2)#}"
    unfolding heap_rel_def by (intro exI [of _ "[(0, 5, 1), (1, 7, 2)]"]) simp
  then show ?thesis
    by (auto simp: in_heap_def sample_policy_def has_data_def node_data_def get_entry_def lock_held_def sample_entry_def storeEntryLocked_def)
qed

lemma sample_nodes: "\<forall>e a. has_data Repl (hents sample_policy) e (Some a) \<longrightarrow> e \<in> mdata {#(0, 5, 1), (1, 7, 2)#}"
  by (auto simp: sample_policy_def has_data_def node_data_def get_entry_def mdata_def split: option.splits if_splits)

lemma sample_locked: "is_locked (hents sample_policy) 1" "\<not> is_locked (hents sample_policy) 2"
  by (auto simp: is_locked_def sample_policy_def sample_entry_def storeEntryLocked_def)

theorem heap_purges_smallest_key_witness:
  "in_heap Repl sample_policy {#(0, 5, 1), (1, 7, 2)#} \<and>
   (\<exists>st1 w st2 w' st3. heap_purgeInit 100 sample_policy = Inr (st1, w) \<and> heap_purgeNext w st1 = Inr (st2, w', Some 2) \<and>
     heap_purgeDone HeapKeyGen_StoreEntry_GDSF (\<lambda>_. Inr) w' st2 = Inr st3 \<and> heap_manages Repl st3 {1} \<and> hage (hheap st3) = 7)"
proof -
  let ?M = "{#(0, 5, 1), (1, 7, 2)#} :: (rat, nat) entry multiset"
  obtain st1 w st2 w' r st3 where R: "heap_purgeInit 100 sample_policy = Inr (st1, w)" "heap_purgeNext w st1 = Inr (st2, w', r)"
    "heap_purgeDone HeapKeyGen_StoreEntry_GDSF (\<lambda>_. Inr) w' st2 = Inr st3" "heap_manages Repl st3 (mdata ?M - set_option r)"
    "case r of
       None \<Rightarrow> (\<forall>e \<in> mdata ?M. is_locked (hents sample_policy) e) \<and> hage (hheap st3) = hage (hheap sample_policy)
     | Some e \<Rightarrow> \<not> is_locked (hents sample_policy) e \<and> (\<exists>a k. (a, k, e) \<in># ?M \<and>
         (\<forall>a' k' e'. (a', k', e') \<in># ?M \<longrightarrow> \<not> is_locked (hents sample_policy) e' \<longrightarrow> k \<le> k') \<and>
         hage (hheap st3) = (if k > 0 then k else hage (hheap sample_policy)))"
    using heap_purges_smallest_key [OF sample_heap sample_nodes, of 100 HeapKeyGen_StoreEntry_GDSF "\<lambda>_. Inr"] by blast
  have "r = Some 2 \<and> hage (hheap st3) = 7" using R(5) sample_locked by (cases r) auto
  moreover have "mdata ?M - {2} = {1}" by auto
  ultimately show ?thesis using R(1-4) sample_heap by auto
qed

end
