(* ===== verification/Rfc1035.thy ===== *)
theory Rfc1035
  imports Header_Tools "HOL-Library.Word"
begin

unbundle bit_operations_syntax

text \<open>
  The codec for DNS messages, \<^verbatim>\<open>lib/rfc1035.c\<close>: building of queries, and unpacking of answers with
  compressed names. A message is a list of bytes of which the first \<open>sz\<close> were received; reading or
  writing outside of the array is \<^const>\<open>OutOfBounds\<close>. The name buffer is an array into which the
  unpacking writes at an offset, so that its bounds are part of the model. Fields of the header
  have the width of the C bit fields.
\<close>

section \<open>Numbers in network byte order\<close>

definition htons :: "16 word \<Rightarrow> string" where
  "htons w = [char_of (unat w div 256), char_of (unat w mod 256)]"

definition ntohs_at :: "string \<Rightarrow> nat \<Rightarrow> 16 word res" where
  "ntohs_at buf i = res_bind (get_byte buf i) (\<lambda>h. res_bind (get_byte buf (i + 1)) (\<lambda>l. Inr (of_nat (256 * h + l))))"

definition ntohl_at :: "string \<Rightarrow> nat \<Rightarrow> 32 word res" where
  "ntohl_at buf i =
     res_bind (get_byte buf i) (\<lambda>a. res_bind (get_byte buf (i + 1)) (\<lambda>b.
     res_bind (get_byte buf (i + 2)) (\<lambda>c. res_bind (get_byte buf (i + 3)) (\<lambda>d.
       Inr (of_nat (((a * 256 + b) * 256 + c) * 256 + d))))))"

definition RFC1035_MAXLABELSZ :: nat where "RFC1035_MAXLABELSZ = 63"
definition RFC1035_MAXHOSTNAMESZ :: nat where "RFC1035_MAXHOSTNAMESZ = 256"
definition RFC1035_TYPE_A :: "16 word" where "RFC1035_TYPE_A = 1"
definition RFC1035_TYPE_PTR :: "16 word" where "RFC1035_TYPE_PTR = 12"
definition RFC1035_CLASS_IN :: "16 word" where "RFC1035_CLASS_IN = 1"
definition rfc1035_unpack_error :: nat where "rfc1035_unpack_error = 15"

section \<open>Data\<close>

record rfc1035_rr =
  rr_name :: string
  rr_type :: "16 word"
  rr_class :: "16 word"
  ttl :: "32 word"
  rdlength :: nat
  rdata :: string

record rfc1035_query =
  qname :: string
  qtype :: "16 word"
  qclass :: "16 word"

record rfc1035_header =
  h_id :: "16 word"
  qr :: "1 word"
  opcode :: "4 word"
  aa :: "1 word"
  tc :: "1 word"
  rd :: "1 word"
  ra :: "1 word"
  rcode :: "4 word"
  qdcount :: "16 word"
  ancount :: "16 word"
  nscount :: "16 word"
  arcount :: "16 word"

record rfc1035_message =
  hdr :: rfc1035_header
  msg_query :: "rfc1035_query list"
  msg_answer :: "rfc1035_rr list"

section \<open>Packing\<close>

definition header_flags :: "rfc1035_header \<Rightarrow> 16 word" where
  "header_flags h =
     push_bit 15 (ucast (qr h)) OR push_bit 11 (ucast (opcode h)) OR push_bit 10 (ucast (aa h)) OR
     push_bit 9 (ucast (tc h)) OR push_bit 8 (ucast (rd h)) OR push_bit 7 (ucast (ra h)) OR ucast (rcode h)"

definition rfc1035HeaderPack :: "nat \<Rightarrow> rfc1035_header \<Rightarrow> string res" where
  "rfc1035HeaderPack sz h =
     res_bind (c_assert (sz \<ge> 12)) (\<lambda>_.
       Inr (htons (h_id h) @ htons (header_flags h) @ htons (qdcount h) @ htons (ancount h) @
            htons (nscount h) @ htons (arcount h)))"

text \<open>\<^term>\<open>None\<close> is the null label that ends a name.\<close>

definition rfc1035LabelPack :: "nat \<Rightarrow> string option \<Rightarrow> string res" where
  "rfc1035LabelPack sz label =
     (let text = (case label of None \<Rightarrow> [] | Some t \<Rightarrow> t)
      in res_bind (c_assert (CHR ''.'' \<notin> set text)) (\<lambda>_.
         let len = min (length text) RFC1035_MAXLABELSZ
         in res_bind (c_assert (sz \<ge> len + 1)) (\<lambda>_. Inr (char_of len # take len text))))"

text \<open>\<^verbatim>\<open>strtok\<close> with the separator \<^verbatim>\<open>.\<close>: the non-empty pieces.\<close>

fun strtok_dots :: "string \<Rightarrow> string \<Rightarrow> string list" where
  "strtok_dots tok [] = (if tok = [] then [] else [tok])"
| "strtok_dots tok (c # s) =
     (if c = CHR ''.'' then (if tok = [] then strtok_dots [] s else tok # strtok_dots [] s)
      else strtok_dots (tok @ [c]) s)"

fun pack_labels :: "nat \<Rightarrow> string list \<Rightarrow> string res" where
  "pack_labels sz [] = rfc1035LabelPack sz None"
| "pack_labels sz (t # ts) =
     res_bind (rfc1035LabelPack sz (Some t)) (\<lambda>b.
     res_bind (pack_labels (sz - length b) ts) (\<lambda>bs. Inr (b @ bs)))"

definition rfc1035NamePack :: "nat \<Rightarrow> string \<Rightarrow> string res" where
  "rfc1035NamePack sz name = pack_labels sz (strtok_dots [] name)"

text \<open>The type and the class are written without a check of the room; the assertion comes afterwards.\<close>

definition rfc1035QuestionPack :: "nat \<Rightarrow> string \<Rightarrow> 16 word \<Rightarrow> 16 word \<Rightarrow> string res" where
  "rfc1035QuestionPack sz name type cls =
     res_bind (rfc1035NamePack sz name) (\<lambda>b.
       if sz < length b + 4 then Inl OutOfBounds else Inr (b @ htons type @ htons cls))"

definition query_header :: "16 word \<Rightarrow> rfc1035_header" where
  "query_header qid = \<lparr>h_id = qid, qr = 0, opcode = 0, aa = 0, tc = 0, rd = 1, ra = 0, rcode = 0,
     qdcount = 1, ancount = 0, nscount = 0, arcount = 0\<rparr>"

definition build_query :: "string \<Rightarrow> nat \<Rightarrow> 16 word \<Rightarrow> 16 word \<Rightarrow> (string \<times> rfc1035_query) res" where
  "build_query name sz qid type =
     res_bind (rfc1035HeaderPack sz (query_header qid)) (\<lambda>h.
     res_bind (rfc1035QuestionPack (sz - length h) name type RFC1035_CLASS_IN) (\<lambda>q.
       Inr (h @ q, \<lparr>qname = take (RFC1035_MAXHOSTNAMESZ - 1) name, qtype = type, qclass = RFC1035_CLASS_IN\<rparr>)))"

definition rfc1035BuildAQuery :: "string \<Rightarrow> nat \<Rightarrow> 16 word \<Rightarrow> (string \<times> rfc1035_query) res" where
  "rfc1035BuildAQuery hostname sz qid = build_query hostname sz qid RFC1035_TYPE_A"

definition ptr_name :: "32 word \<Rightarrow> string" where
  "ptr_name addr =
     show_nat (unat (addr AND 255)) @ ''.'' @ show_nat (unat (drop_bit 8 addr AND 255)) @ ''.'' @
     show_nat (unat (drop_bit 16 addr AND 255)) @ ''.'' @ show_nat (unat (drop_bit 24 addr AND 255)) @ ''.in-addr.arpa.''"

definition rfc1035BuildPTRQuery :: "32 word \<Rightarrow> nat \<Rightarrow> 16 word \<Rightarrow> (string \<times> rfc1035_query) res" where
  "rfc1035BuildPTRQuery addr sz qid = build_query (take 31 (ptr_name addr)) sz qid RFC1035_TYPE_PTR"

definition rfc1035SetQueryID :: "string \<Rightarrow> 16 word \<Rightarrow> string res" where
  "rfc1035SetQueryID buf qid = (if length buf < 2 then Inl OutOfBounds else Inr (htons qid @ drop 2 buf))"

section \<open>Unpacking\<close>

definition rfc1035HeaderUnpack :: "string \<Rightarrow> nat \<Rightarrow> (rfc1035_header \<times> nat) option res" where
  "rfc1035HeaderUnpack buf sz =
     (if sz < 12 then Inr None
      else res_bind (ntohs_at buf 0) (\<lambda>i. res_bind (ntohs_at buf 2) (\<lambda>t. res_bind (ntohs_at buf 4) (\<lambda>qd.
           res_bind (ntohs_at buf 6) (\<lambda>an. res_bind (ntohs_at buf 8) (\<lambda>ns. res_bind (ntohs_at buf 10) (\<lambda>ar.
             Inr (Some (\<lparr>h_id = i, qr = ucast (drop_bit 15 t), opcode = ucast (drop_bit 11 t), aa = ucast (drop_bit 10 t),
               tc = ucast (drop_bit 9 t), rd = ucast (drop_bit 8 t), ra = ucast (drop_bit 7 t), rcode = ucast t,
               qdcount = qd, ancount = an, nscount = ns, arcount = ar\<rparr>, 12)))))))))"

text \<open>The end of \<^verbatim>\<open>rfc1035NameUnpack\<close>: the terminator replaces the last dot.\<close>

definition finish_name :: "nat \<Rightarrow> nat option \<Rightarrow> string \<Rightarrow> nat \<Rightarrow> nat \<Rightarrow> nat \<Rightarrow> (nat \<times> nat \<times> nat option \<times> string) res" where
  "finish_name off rdl nm base ns no =
     res_bind (put_bytes (base + (if no > 0 then no - 1 else 0)) [NUL] nm) (\<lambda>nm.
     res_bind (c_assert (no \<le> ns)) (\<lambda>_. Inr (0, off, rdl, nm)))"

text \<open>
  The loop of \<^verbatim>\<open>rfc1035NameUnpack\<close> with its recursive call. \<open>nm\<close> is the array that holds the name,
  \<open>base\<close> the index \<^verbatim>\<open>name\<close> points at, \<open>ns\<close> the room from there on and \<open>no\<close> the bytes used of it. The
  result is the status, the new offset, the length counter and the array. A recursive call goes
  one level deeper, an iteration uses up room, so the unpacking ends for every message.
\<close>

function name_loop ::
  "string \<Rightarrow> nat \<Rightarrow> nat \<Rightarrow> nat option \<Rightarrow> string \<Rightarrow> nat \<Rightarrow> nat \<Rightarrow> nat \<Rightarrow> nat \<Rightarrow> (nat \<times> nat \<times> nat option \<times> string) res" where
  "name_loop buf sz off rdl nm base ns no rdepth =
     (if off \<ge> sz then Inr (1, off, rdl, nm)
      else res_bind (get_byte buf off) (\<lambda>c.
        if c > 191 then
          (if rdepth > 64 then Inr (1, off, rdl, nm)
           else res_bind (ntohs_at buf off) (\<lambda>s.
             if off + 2 > sz then Inr (1, off + 2, rdl, nm)
             else let ptr = unat (s AND 0x3FFF)
                  in if ptr \<ge> sz then Inr (1, off + 2, rdl, nm)
                     else res_bind (c_assert (ns - no > 0)) (\<lambda>_.
                          res_bind (name_loop buf sz ptr rdl nm (base + no) (ns - no) 0 (rdepth + 1))
                            (\<lambda>(st, _, rdl, nm). Inr (st, off + 2, rdl, nm)))))
        else if c > RFC1035_MAXLABELSZ then Inr (1, off, rdl, nm)
        else if c = 0 then finish_name (off + 1) rdl nm base ns no
        else if c > ns - no - 1 then Inr (1, off + 1, rdl, nm)
        else if off + 1 + c \<ge> sz then Inr (1, off + 1, rdl, nm)
        else res_bind (get_bytes (off + 1) c buf) (\<lambda>label.
             res_bind (put_bytes (base + no) (label @ ''.'') nm) (\<lambda>nm.
               let rdl = map_option (\<lambda>n. (n + c + 1) mod 65536) rdl; no = no + c + 1
               in if no < ns then name_loop buf sz (off + 1 + c) rdl nm base ns no rdepth
                  else finish_name (off + 1 + c) rdl nm base ns no))))"
  by pat_completeness auto
termination
  by (relation "measures [\<lambda>(buf, sz, off, rdl, nm, base, ns, no, rdepth). 65 - rdepth,
                          \<lambda>(buf, sz, off, rdl, nm, base, ns, no, rdepth). ns - no]") auto

declare name_loop.simps [simp del]

definition rfc1035NameUnpack ::
  "string \<Rightarrow> nat \<Rightarrow> nat \<Rightarrow> nat option \<Rightarrow> string \<Rightarrow> nat \<Rightarrow> (nat \<times> nat \<times> nat option \<times> string) res" where
  "rfc1035NameUnpack buf sz off rdl nm ns =
     res_bind (c_assert (ns > 0)) (\<lambda>_. name_loop buf sz off rdl nm 0 ns 0 0)"

text \<open>A fresh array for a name; an array on the heap holds zeros in the model.\<close>

definition name_array :: string where
  "name_array = replicate RFC1035_MAXHOSTNAMESZ NUL"

definition rfc1035RRUnpack :: "string \<Rightarrow> nat \<Rightarrow> nat \<Rightarrow> (rfc1035_rr \<times> nat) option res" where
  "rfc1035RRUnpack buf sz off =
     res_bind (rfc1035NameUnpack buf sz off None name_array RFC1035_MAXHOSTNAMESZ) (\<lambda>(st, off, _, nm).
       if st \<noteq> 0 \<or> off + 10 > sz then Inr None
       else res_bind (ntohs_at buf off) (\<lambda>t. res_bind (ntohs_at buf (off + 2)) (\<lambda>cls.
            res_bind (ntohl_at buf (off + 4)) (\<lambda>tt. res_bind (ntohs_at buf (off + 8)) (\<lambda>l.
              let rdl = unat l; off = off + 10
              in if off + rdl > sz then Inr None
                 else if t = RFC1035_TYPE_PTR
                 then res_bind (rfc1035NameUnpack buf sz off (Some 0) name_array RFC1035_MAXHOSTNAMESZ) (\<lambda>(st, rdata_off, n, rd).
                        if st \<noteq> 0 \<or> rdata_off > off + rdl then Inr None
                        else Inr (Some (\<lparr>rr_name = cstr nm, rr_type = t, rr_class = cls, ttl = tt,
                                         rdlength = (case n of Some k \<Rightarrow> k | None \<Rightarrow> 0), rdata = cstr rd\<rparr>, off + rdl)))
                 else res_bind (get_bytes off rdl buf) (\<lambda>d.
                        Inr (Some (\<lparr>rr_name = cstr nm, rr_type = t, rr_class = cls, ttl = tt, rdlength = rdl, rdata = d\<rparr>,
                                   off + rdl))))))))"

definition rfc1035QueryUnpack :: "string \<Rightarrow> nat \<Rightarrow> nat \<Rightarrow> (rfc1035_query \<times> nat) option res" where
  "rfc1035QueryUnpack buf sz off =
     res_bind (rfc1035NameUnpack buf sz off None name_array RFC1035_MAXHOSTNAMESZ) (\<lambda>(st, off, _, nm).
       if st \<noteq> 0 \<or> off + 4 > sz then Inr None
       else res_bind (ntohs_at buf off) (\<lambda>t. res_bind (ntohs_at buf (off + 2)) (\<lambda>cls.
            Inr (Some (\<lparr>qname = cstr nm, qtype = t, qclass = cls\<rparr>, off + 4)))))"

text \<open>The records of the answer section, up to the first that is corrupt.\<close>

fun unpack_answers :: "string \<Rightarrow> nat \<Rightarrow> nat \<Rightarrow> nat \<Rightarrow> rfc1035_rr list res" where
  "unpack_answers buf sz off 0 = Inr []"
| "unpack_answers buf sz off (Suc n) =
     (if off \<ge> sz then Inr []
      else res_bind (rfc1035RRUnpack buf sz off) (\<lambda>r.
        case r of
          None \<Rightarrow> Inr []
        | Some (rr, off) \<Rightarrow> res_bind (unpack_answers buf sz off n) (\<lambda>rs. Inr (rr # rs))))"

text \<open>
  \<^verbatim>\<open>rfc1035MessageUnpack\<close>: the result and what is stored in \<^verbatim>\<open>*answer\<close>, with the outer \<^term>\<open>None\<close> when
  nothing is stored. A message must have exactly one question.
\<close>

definition rfc1035MessageUnpack :: "string \<Rightarrow> nat \<Rightarrow> (int \<times> rfc1035_message option option) res" where
  "rfc1035MessageUnpack buf sz =
     res_bind (rfc1035HeaderUnpack buf sz) (\<lambda>h.
       case h of
         None \<Rightarrow> Inr (- int rfc1035_unpack_error, None)
       | Some (h, off) \<Rightarrow>
           if qdcount h \<noteq> 1 then Inr (- int rfc1035_unpack_error, None)
           else res_bind (rfc1035QueryUnpack buf sz off) (\<lambda>q.
             case q of
               None \<Rightarrow> Inr (- int rfc1035_unpack_error, None)
             | Some (q, off) \<Rightarrow>
                 let msg = \<lparr>hdr = h, msg_query = [q], msg_answer = []\<rparr>
                 in if rcode h \<noteq> 0 then Inr (- int (unat (rcode h)), Some (Some msg))
                    else if ancount h = 0 then Inr (0, Some (Some msg))
                    else res_bind (unpack_answers buf sz off (unat (ancount h))) (\<lambda>rs.
                      if rs = [] then Inr (- int rfc1035_unpack_error, Some None)
                      else Inr (int (length rs), Some (Some (msg\<lparr>msg_answer := rs\<rparr>))))))"

text \<open>
  The error number and its text. \<^verbatim>\<open>rfc1035MessageUnpack\<close> clears them when the header is there and
  sets them on every error, so that they are given by its result.
\<close>

definition rfc1035SetErrno :: "nat \<Rightarrow> nat \<times> string" where
  "rfc1035SetErrno n =
     (n, if n = 0 then ''No error condition''
         else if n = 1 then ''Format Error: The name server was unable to interpret the query.''
         else if n = 2 then ''Server Failure: The name server was unable to process this query.''
         else if n = 3 then ''Name Error: The domain name does not exist.''
         else if n = 4 then ''Not Implemented: The name server does not support the requested kind of query.''
         else if n = 5 then ''Refused: The name server refuses to perform the specified operation.''
         else if n = rfc1035_unpack_error then ''The DNS reply message is corrupt or could not be safely parsed.''
         else ''Unknown Error'')"

definition unpack_errno :: "int \<Rightarrow> nat \<times> string option" where
  "unpack_errno result = (if result < 0 then map_prod id Some (rfc1035SetErrno (nat (- result))) else (0, None))"

fun trim_dots :: "nat \<Rightarrow> string \<Rightarrow> nat" where
  "trim_dots 0 s = 0"
| "trim_dots (Suc n) s = (if s ! n = CHR ''.'' then trim_dots n s else Suc n)"

text \<open>Zero for equal queries; the sign of another result has no meaning.\<close>

definition rfc1035QueryCompare :: "rfc1035_query \<Rightarrow> rfc1035_query \<Rightarrow> bool" where
  "rfc1035QueryCompare a b \<longleftrightarrow>
     (if qtype a \<noteq> qtype b \<or> qclass a \<noteq> qclass b then False
      else let la = length (qname a); lb = length (qname b);
               (la, lb) = (if la \<noteq> lb then (trim_dots la (qname a), trim_dots lb (qname b)) else (la, lb))
           in la = lb \<and> map tolower (take la (qname a)) = map tolower (take la (qname b)))"

end
