(* ===== verification/Rfc1035_Correct.thy ===== *)
theory Rfc1035_Correct
  imports Rfc1035
begin

text \<open>
  Correctness of the DNS codec: unpacking stays inside its arrays for every message, a query that
  is built is read back with its name, and what the unpacking of a whole message may return.
\<close>

section \<open>Bounds\<close>

lemma get_byte_ok [simp]: "i < length buf \<Longrightarrow> get_byte buf i = Inr (of_char (buf ! i))"
  by (simp add: get_byte_def)

lemma ntohs_ok: "i + 1 < length buf \<Longrightarrow> \<exists>w. ntohs_at buf i = Inr w"
  by (simp add: ntohs_at_def)

lemma ntohl_ok: "i + 3 < length buf \<Longrightarrow> \<exists>w. ntohl_at buf i = Inr w"
  by (simp add: ntohl_at_def)

lemma put_bytes_ok:
  "i + length bs \<le> length nm \<Longrightarrow> put_bytes i bs nm = Inr (take i nm @ bs @ drop (i + length bs) nm)"
  by (simp add: put_bytes_def)

text \<open>What every unpacking of a name guarantees.\<close>

definition name_result :: "nat \<Rightarrow> nat \<Rightarrow> string \<Rightarrow> nat \<Rightarrow> (nat \<times> nat \<times> nat option \<times> string) res \<Rightarrow> bool" where
  "name_result sz off nm base r \<longleftrightarrow> (\<exists>st off' rdl' nm'. r = Inr (st, off', rdl', nm') \<and> st \<le> 1 \<and>
     length nm' = length nm \<and> take base nm' = take base nm \<and>
     (st = 0 \<longrightarrow> off < off' \<and> off' \<le> sz \<and> NUL \<in> set (drop base nm')))"

lemma name_result_error: "name_result sz off nm base (Inr (Suc 0, off', rdl, nm))"
  by (simp add: name_result_def)

lemma finish_name_result:
  assumes "length nm = base + ns" "no \<le> ns" "0 < ns" "off < off'" "off' \<le> sz"
  shows "name_result sz off nm base (finish_name off' rdl nm base ns no)"
proof -
  let ?i = "base + (if no > 0 then no - 1 else 0)"
  have i: "?i + length [NUL] \<le> length nm" "base \<le> ?i" using assms by auto
  let ?nm = "take ?i nm @ [NUL] @ drop (Suc ?i) nm"
  have fin: "finish_name off' rdl nm base ns no = Inr (0, off', rdl, ?nm)"
    using put_bytes_ok [OF i(1)] assms(2) by (simp add: finish_name_def)
  have "drop base ?nm = drop base (take ?i nm) @ [NUL] @ drop (Suc ?i) nm" using i assms(1) by simp
  then have "NUL \<in> set (drop base ?nm)" by simp
  moreover have "take base ?nm = take base nm" using i assms(1) by simp
  moreover have "length ?nm = length nm" using i by simp
  ultimately show ?thesis unfolding fin name_result_def using assms(4,5) by blast
qed

lemma take_mono: "take m xs = take m ys \<Longrightarrow> k \<le> m \<Longrightarrow> take k xs = take k ys"
  by (metis min.absorb1 take_take)

lemma name_loop_safe:
  assumes "length nm = base + ns" "no < ns" "sz < length buf"
  shows "name_result sz off nm base (name_loop buf sz off rdl nm base ns no rdepth)"
  using assms
proof (induction buf sz off rdl nm base ns no rdepth rule: name_loop.induct)
  case (1 buf sz off rdl nm base ns no rdepth)
  show ?case
  proof (cases "off < sz")
    case False
    then show ?thesis by (subst name_loop.simps) (simp add: name_result_error)
  next
    case off: True
    then have b: "get_byte buf off = Inr (of_char (buf ! off))" using 1(5) by simp
    obtain s where s: "ntohs_at buf off = Inr s" using ntohs_ok [of off buf] off 1(5) by auto
    let ?c = "of_char (buf ! off) :: nat" and ?ptr = "unat (s AND 0x3FFF)"
    consider "191 < ?c" "64 < rdepth \<or> sz < off + 2 \<or> sz \<le> ?ptr"
      | "191 < ?c" "\<not> 64 < rdepth" "off + 2 \<le> sz" "?ptr < sz"
      | "RFC1035_MAXLABELSZ < ?c" "?c \<le> 191"
      | "?c = 0" | "0 < ?c" "?c \<le> RFC1035_MAXLABELSZ" "ns - no - 1 < ?c \<or> sz \<le> off + 1 + ?c"
      | "0 < ?c" "?c \<le> RFC1035_MAXLABELSZ" "?c \<le> ns - no - 1" "off + 1 + ?c < sz" by linarith
    then show ?thesis
    proof cases
      case 2
      have "name_result sz ?ptr nm (base + no) (name_loop buf sz ?ptr rdl nm (base + no) (ns - no) 0 (rdepth + 1))"
        using "1.IH"(1) [OF _ b] 2 off s 1(3-5) by (simp add: RFC1035_MAXLABELSZ_def)
      then obtain st off' rdl' nm' where r: "name_loop buf sz ?ptr rdl nm (base + no) (ns - no) 0 (rdepth + 1) = Inr (st, off', rdl', nm')"
        "st \<le> 1" "length nm' = length nm" "take (base + no) nm' = take (base + no) nm" "st = 0 \<longrightarrow> NUL \<in> set (drop (base + no) nm')"
        by (auto simp: name_result_def)
      have "name_loop buf sz off rdl nm base ns no rdepth = Inr (st, off + 2, rdl', nm')"
        using 2 off b s r(1) 1(4) by (subst name_loop.simps) simp
      moreover have "set (drop (base + no) nm') \<subseteq> set (drop base nm')"
        by (metis add.commute drop_drop set_drop_subset)
      ultimately show ?thesis unfolding name_result_def using r(2-5) take_mono [OF r(4), of base] 2(3) by auto
    next
      case 4
      then have "name_loop buf sz off rdl nm base ns no rdepth = finish_name (off + 1) rdl nm base ns no"
        using off b by (subst name_loop.simps) (simp add: RFC1035_MAXLABELSZ_def)
      then show ?thesis using finish_name_result [of nm base ns no off "off + 1" sz rdl] 1(3,4) off by simp
    next
      case 6
      obtain l where l: "get_bytes (off + 1) ?c buf = Inr l" "length l = ?c"
        using 6(4) 1(5) by (auto simp: get_bytes_def)
      let ?no = "no + ?c + 1" and ?rdl = "map_option (\<lambda>n. (n + ?c + 1) mod 65536) rdl"
      obtain nm1 where p: "put_bytes (base + no) (l @ ''.'') nm = Inr nm1" "length nm1 = length nm" "take base nm1 = take base nm"
        using put_bytes_ok [of "base + no" "l @ ''.''" nm] l(2) 6(3) 1(3,4) by auto
      have step: "name_loop buf sz off rdl nm base ns no rdepth =
        (if ?no < ns then name_loop buf sz (off + 1 + ?c) ?rdl nm1 base ns ?no rdepth else finish_name (off + 1 + ?c) ?rdl nm1 base ns ?no)"
        using 6 off b l(1) p(1) by (subst name_loop.simps) (simp add: RFC1035_MAXLABELSZ_def Let_def)
      have n1: "length nm1 = base + ns" "?no \<le> ns" "0 < ns" "off + ?c < off + 1 + ?c" "off + 1 + ?c \<le> sz"
        using p(2) 1(3,4) 6(3,4) by auto
      have "name_result sz (off + 1 + ?c) nm1 base (name_loop buf sz (off + 1 + ?c) ?rdl nm1 base ns ?no rdepth)" if "?no < ns"
        using "1.IH"(2) [OF _ b _ _ _ _ _ l(1) p(1) refl refl that] 6 off n1(1) that 1(5) by (simp add: RFC1035_MAXLABELSZ_def)
      moreover have "name_result sz (off + ?c) nm1 base (finish_name (off + 1 + ?c) ?rdl nm1 base ns ?no)"
        by (rule finish_name_result [OF n1])
      ultimately show ?thesis unfolding step using p(2,3) unfolding name_result_def by (cases "?no < ns") fastforce+
    qed (use off b s in \<open>(subst name_loop.simps, auto simp: name_result_error RFC1035_MAXLABELSZ_def)+\<close>)
  qed
qed

section \<open>The header\<close>

lemma length_htons [simp]: "length (htons w) = 2"
  by (simp add: htons_def)

lemma ntohs_htons: "length pre = i \<Longrightarrow> ntohs_at (pre @ htons w @ post) i = Inr w"
proof -
  have "unat w < 2 ^ 16" using unsigned_less [of w] by simp
  then have "unat w div 256 mod 256 = unat w div 256" by simp
  moreover have "of_nat (256 * (unat w div 256) + unat w mod 256) = w" by (simp only: mult_div_mod_eq) simp
  then have "256 * of_nat (unat w div 256) + of_nat (unat w mod 256) = w" by (metis of_nat_add of_nat_mult of_nat_numeral)
  ultimately show "length pre = i \<Longrightarrow> ?thesis"
    by (auto simp: ntohs_at_def htons_def nth_append get_byte_def)
qed

lemma header_flags_fields:
  "ucast (drop_bit 15 (header_flags h)) = qr h" "ucast (drop_bit 11 (header_flags h)) = opcode h"
  "ucast (drop_bit 10 (header_flags h)) = aa h" "ucast (drop_bit 9 (header_flags h)) = tc h"
  "ucast (drop_bit 8 (header_flags h)) = rd h" "ucast (drop_bit 7 (header_flags h)) = ra h"
  "ucast (header_flags h) = rcode h"
  by (rule bit_word_eqI, auto simp: header_flags_def bit_simps dest: bit_imp_le_length)+

lemma dns_header_round_trip:
  assumes "12 \<le> sz"
  shows "\<exists>b. rfc1035HeaderPack sz h = Inr b \<and> length b = 12 \<and> (\<forall>rest n. 12 \<le> n \<longrightarrow> rfc1035HeaderUnpack (b @ rest) n = Inr (Some (h, 12)))"
proof -
  let ?b = "htons (h_id h) @ htons (header_flags h) @ htons (qdcount h) @ htons (ancount h) @ htons (nscount h) @ htons (arcount h)"
  have "rfc1035HeaderUnpack (?b @ rest) n = Inr (Some (h, 12))" if "12 \<le> n" for rest n
  proof -
    have "ntohs_at (?b @ rest) 0 = Inr (h_id h)"
      "ntohs_at (?b @ rest) 2 = Inr (header_flags h)"
      "ntohs_at (?b @ rest) 4 = Inr (qdcount h)"
      "ntohs_at (?b @ rest) 6 = Inr (ancount h)"
      "ntohs_at (?b @ rest) 8 = Inr (nscount h)"
      "ntohs_at (?b @ rest) 10 = Inr (arcount h)"
      using ntohs_htons [of "[]" 0] ntohs_htons [of "htons (h_id h)" 2] ntohs_htons [of "htons (h_id h) @ htons (header_flags h)" 4]
        ntohs_htons [of "htons (h_id h) @ htons (header_flags h) @ htons (qdcount h)" 6]
        ntohs_htons [of "htons (h_id h) @ htons (header_flags h) @ htons (qdcount h) @ htons (ancount h)" 8]
        ntohs_htons [of "htons (h_id h) @ htons (header_flags h) @ htons (qdcount h) @ htons (ancount h) @ htons (nscount h)" 10]
      by simp_all
    then show ?thesis using that by (cases h) (simp add: rfc1035HeaderUnpack_def header_flags_fields)
  qed
  then show ?thesis using assms by (simp add: rfc1035HeaderPack_def)
qed

section \<open>Names\<close>

text \<open>The labels of a host name, its text, and its bytes in a message.\<close>

fun dotted :: "string list \<Rightarrow> string" where
  "dotted [] = []"
| "dotted [l] = l"
| "dotted (l # ls) = l @ CHR ''.'' # dotted ls"

definition good_label :: "string \<Rightarrow> bool" where
  "good_label l \<longleftrightarrow> l \<noteq> [] \<and> length l \<le> 63 \<and> CHR ''.'' \<notin> set l \<and> NUL \<notin> set l"

definition labels_text :: "string list \<Rightarrow> string" where
  "labels_text ls = concat (map (\<lambda>l. l @ ''.'') ls)"

definition wire :: "string list \<Rightarrow> string" where
  "wire ls = concat (map (\<lambda>l. char_of (length l) # l) ls) @ [NUL]"

lemma labels_text_simps [simp]: "labels_text [] = []" "labels_text (l # ls) = l @ CHR ''.'' # labels_text ls"
  by (simp_all add: labels_text_def)

lemma wire_simps [simp]: "wire [] = [NUL]" "wire (l # ls) = char_of (length l) # l @ wire ls"
  by (simp_all add: wire_def)

lemma length_wire: "length (wire ls) = length (labels_text ls) + 1"
  by (induction ls) auto

lemma labels_text_dotted: "ls \<noteq> [] \<Longrightarrow> labels_text ls = dotted ls @ ''.''"
  by (induction ls rule: dotted.induct) auto

lemma strtok_token: "CHR ''.'' \<notin> set l \<Longrightarrow> strtok_dots tok (l @ s) = strtok_dots (tok @ l) s"
  by (induction l arbitrary: tok) auto

lemma strtok_dotted:
  assumes "\<forall>l \<in> set ls. good_label l" shows "strtok_dots [] (dotted ls) = ls"
  using assms
proof (induction ls rule: dotted.induct)
  case (2 l)
  then show ?case using strtok_token [of l "[]" "[]"] by (simp add: good_label_def)
next
  case (3 l v va)
  then show ?case using strtok_token [of l "[]" "CHR ''.'' # dotted (v # va)"] by (simp add: good_label_def)
qed simp

lemma pack_labels_wire:
  assumes "\<forall>l \<in> set ls. good_label l" "length (wire ls) \<le> sz"
  shows "pack_labels sz ls = Inr (wire ls)"
  using assms
proof (induction ls arbitrary: sz)
  case Nil
  then show ?case by (simp add: rfc1035LabelPack_def char_of_def)
next
  case (Cons l ls)
  have "rfc1035LabelPack sz (Some l) = Inr (char_of (length l) # l)"
    using Cons.prems by (simp add: rfc1035LabelPack_def good_label_def RFC1035_MAXLABELSZ_def Let_def)
  then show ?case using Cons by simp
qed

lemma name_pack_wire:
  assumes "\<forall>l \<in> set ls. good_label l" "length (wire ls) \<le> sz"
  shows "rfc1035NamePack sz (dotted ls) = Inr (wire ls)"
  using pack_labels_wire [OF assms] strtok_dotted [OF assms(1)] by (simp add: rfc1035NamePack_def)

text \<open>One label of a name without compression.\<close>

lemma name_loop_label:
  assumes "good_label l" "no + length l + 1 < ns" "length nm = base + ns" "length pre = off"
    "off + length l + 1 < sz" "sz \<le> length (pre @ char_of (length l) # l @ post)"
  shows "name_loop (pre @ char_of (length l) # l @ post) sz off rdl nm base ns no rdepth =
    name_loop (pre @ char_of (length l) # l @ post) sz (off + 1 + length l) (map_option (\<lambda>n. (n + length l + 1) mod 65536) rdl)
      (take (base + no) nm @ (l @ ''.'') @ drop (base + no + length l + 1) nm) base ns (no + length l + 1) rdepth"
proof -
  let ?buf = "pre @ char_of (length l) # l @ post"
  have c: "get_byte ?buf off = Inr (length l)" using assms(1,4) by (simp add: get_byte_def nth_append good_label_def)
  have "get_bytes (off + 1) (length l) ?buf = Inr l" using assms(4) by (simp add: get_bytes_def)
  moreover have "put_bytes (base + no) (l @ ''.'') nm = Inr (take (base + no) nm @ (l @ ''.'') @ drop (base + no + length l + 1) nm)"
    using put_bytes_ok [of "base + no" "l @ ''.''" nm] assms(2,3) by simp
  ultimately show ?thesis using c assms(1,2,5)
    by (subst name_loop.simps) (auto simp: good_label_def RFC1035_MAXLABELSZ_def Let_def)
qed

lemma name_loop_wire:
  assumes "\<forall>l \<in> set ls. good_label l" "no + length (labels_text ls) < ns" "length nm = base + ns" "length pre = off"
    "off + length (wire ls) \<le> sz" "sz \<le> length (pre @ wire ls @ post)" "0 < no + length (labels_text ls)"
  shows "\<exists>rdl'. name_loop (pre @ wire ls @ post) sz off rdl nm base ns no rdepth = Inr (0, off + length (wire ls), rdl',
    (take (base + no) nm @ labels_text ls @ drop (base + no + length (labels_text ls)) nm)[base + no + length (labels_text ls) - 1 := NUL]) \<and>
    (rdl = None \<longrightarrow> rdl' = None)"
  using assms
proof (induction ls arbitrary: no nm pre off rdl)
  case Nil
  have "get_byte (pre @ wire [] @ post) off = Inr 0" using Nil(4) by (simp add: get_byte_def nth_append)
  then have "name_loop (pre @ wire [] @ post) sz off rdl nm base ns no rdepth = finish_name (off + 1) rdl nm base ns no"
    using Nil(5) by (subst name_loop.simps) (simp add: RFC1035_MAXLABELSZ_def)
  moreover have "put_bytes (base + (no - 1)) [NUL] nm = Inr (nm[base + no - 1 := NUL])"
    using Nil(2,3,7) by (simp add: put_bytes_def upd_conv_take_nth_drop)
  ultimately show ?case using Nil by (simp add: finish_name_def)
next
  case (Cons l ls)
  let ?nm = "take (base + no) nm @ (l @ ''.'') @ drop (base + no + length l + 1) nm"
  let ?pre = "pre @ char_of (length l) # l" and ?no = "no + length l + 1"
  have g: "good_label l" "\<forall>l \<in> set ls. good_label l" using Cons.prems(1) by simp_all
  have len: "length ?nm = base + ns" using Cons.prems(2,3) by simp
  have eq: "pre @ wire (l # ls) @ post = ?pre @ wire ls @ post" by simp
  have step: "name_loop (pre @ wire (l # ls) @ post) sz off rdl nm base ns no rdepth =
      name_loop (?pre @ wire ls @ post) sz (off + 1 + length l) (map_option (\<lambda>n. (n + length l + 1) mod 65536) rdl) ?nm base ns ?no rdepth"
    using name_loop_label [OF g(1), of no ns nm base pre off sz "wire ls @ post" rdl rdepth] Cons.prems(2-6) length_wire [of ls] by simp
  obtain rdl' where r: "name_loop (?pre @ wire ls @ post) sz (off + 1 + length l) (map_option (\<lambda>n. (n + length l + 1) mod 65536) rdl) ?nm base ns ?no rdepth =
      Inr (0, off + 1 + length l + length (wire ls), rdl',
        (take (base + ?no) ?nm @ labels_text ls @ drop (base + ?no + length (labels_text ls)) ?nm)[base + ?no + length (labels_text ls) - 1 := NUL])"
    "rdl = None \<longrightarrow> rdl' = None"
    using Cons.IH [OF g(2), of ?no ?nm ?pre "off + 1 + length l" "map_option (\<lambda>n. (n + length l + 1) mod 65536) rdl"] Cons.prems len by auto
  have "take (base + ?no) ?nm = take (base + no) nm @ l @ ''.''"
    "drop (base + ?no + length (labels_text ls)) ?nm = drop (base + no + length (labels_text (l # ls))) nm"
    using Cons.prems(2,3) by (simp_all add: ac_simps)
  then show ?case unfolding step r(1) using r(2) by (simp add: ac_simps)
qed

section \<open>Queries\<close>

lemma unpack_name:
  assumes "ls \<noteq> []" "\<forall>l \<in> set ls. good_label l" "length (dotted ls) \<le> 254" "length pre = off"
    "off + length (wire ls) \<le> sz" "sz \<le> length (pre @ wire ls @ post)"
  shows "\<exists>nm. rfc1035NameUnpack (pre @ wire ls @ post) sz off None name_array RFC1035_MAXHOSTNAMESZ =
    Inr (0, off + length (wire ls), None, nm) \<and> cstr nm = dotted ls"
proof -
  have t: "labels_text ls = dotted ls @ ''.''" by (rule labels_text_dotted [OF assms(1)])
  let ?nm = "(labels_text ls @ drop (length (labels_text ls)) name_array)[length (labels_text ls) - 1 := NUL]"
  have "name_loop (pre @ wire ls @ post) sz off None name_array 0 256 0 0 = Inr (0, off + length (wire ls), None, ?nm)"
    using name_loop_wire [OF assms(2), of 0 256 name_array 0 pre off sz post None 0] assms(3-6) t
    by (simp add: name_array_def RFC1035_MAXHOSTNAMESZ_def)
  moreover have "NUL \<notin> set (dotted ls)" using assms(2) by (induction ls rule: dotted.induct) (auto simp: good_label_def)
  then have "cstr ?nm = dotted ls"
    by (simp add: t list_update_append c_string_simps)
  ultimately show ?thesis by (simp add: rfc1035NameUnpack_def RFC1035_MAXHOSTNAMESZ_def)
qed

lemma query_round_trip:
  assumes "ls \<noteq> []" "\<forall>l \<in> set ls. good_label l" "length (dotted ls) \<le> 254" "length (dotted ls) + 18 \<le> sz"
  shows "\<exists>b q. build_query (dotted ls) sz qid type = Inr (b, q) \<and> length b = length (dotted ls) + 18 \<and> qname q = dotted ls \<and>
    rfc1035MessageUnpack b (length b) = Inr (0, Some (Some \<lparr>hdr = query_header qid,
      msg_query = [\<lparr>qname = dotted ls, qtype = type, qclass = RFC1035_CLASS_IN\<rparr>], msg_answer = []\<rparr>)) \<and>
    qtype q = type \<and> qclass q = RFC1035_CLASS_IN"
proof -
  have t: "length (wire ls) = length (dotted ls) + 2" using labels_text_dotted [OF assms(1)] length_wire [of ls] by simp
  obtain h where h: "rfc1035HeaderPack sz (query_header qid) = Inr h" "length h = 12"
    "\<And>rest n. 12 \<le> n \<Longrightarrow> rfc1035HeaderUnpack (h @ rest) n = Inr (Some (query_header qid, 12))"
    using dns_header_round_trip [of sz "query_header qid"] assms(4) by auto
  let ?q = "wire ls @ htons type @ htons RFC1035_CLASS_IN" and ?n = "length (dotted ls) + 18"
  have qp: "rfc1035QuestionPack (sz - 12) (dotted ls) type RFC1035_CLASS_IN = Inr ?q"
    using name_pack_wire [OF assms(2), of "sz - 12"] t assms(4) by (simp add: rfc1035QuestionPack_def)
  obtain nm where nm: "rfc1035NameUnpack (h @ ?q) ?n 12 None name_array RFC1035_MAXHOSTNAMESZ = Inr (0, 12 + length (wire ls), None, nm)"
    "cstr nm = dotted ls"
    using unpack_name [OF assms(1-3) h(2), of ?n "htons type @ htons RFC1035_CLASS_IN"] h(2) t by auto
  have "ntohs_at (h @ ?q) (12 + length (wire ls)) = Inr type" "ntohs_at (h @ ?q) (12 + length (wire ls) + 2) = Inr RFC1035_CLASS_IN"
    using ntohs_htons [of "h @ wire ls" "12 + length (wire ls)" type "htons RFC1035_CLASS_IN"]
      ntohs_htons [of "h @ wire ls @ htons type" "12 + length (wire ls) + 2" RFC1035_CLASS_IN "[]"] h(2) by simp_all
  then have "rfc1035QueryUnpack (h @ ?q) ?n 12 = Inr (Some (\<lparr>qname = dotted ls, qtype = type, qclass = RFC1035_CLASS_IN\<rparr>, 12 + length (wire ls) + 4))"
    using nm t by (simp add: rfc1035QueryUnpack_def)
  then have "rfc1035MessageUnpack (h @ ?q) ?n = Inr (0, Some (Some \<lparr>hdr = query_header qid,
      msg_query = [\<lparr>qname = dotted ls, qtype = type, qclass = RFC1035_CLASS_IN\<rparr>], msg_answer = []\<rparr>))"
    using h(3) by (simp add: rfc1035MessageUnpack_def query_header_def)
  moreover have "length (h @ ?q) = ?n" using h(2) t by simp
  moreover have "build_query (dotted ls) sz qid type =
      Inr (h @ ?q, \<lparr>qname = dotted ls, qtype = type, qclass = RFC1035_CLASS_IN\<rparr>)"
    using h(1,2) qp assms(3) by (simp add: build_query_def RFC1035_MAXHOSTNAMESZ_def)
  ultimately have "rfc1035MessageUnpack (h @ ?q) (length (h @ ?q)) = Inr (0, Some (Some \<lparr>hdr = query_header qid,
      msg_query = [\<lparr>qname = dotted ls, qtype = type, qclass = RFC1035_CLASS_IN\<rparr>], msg_answer = []\<rparr>))"
    "build_query (dotted ls) sz qid type = Inr (h @ ?q, \<lparr>qname = dotted ls, qtype = type, qclass = RFC1035_CLASS_IN\<rparr>)"
    "length (h @ ?q) = ?n" by metis+
  then show ?thesis by (intro exI [of _ "h @ ?q"] exI [of _ "\<lparr>qname = dotted ls, qtype = type, qclass = RFC1035_CLASS_IN\<rparr>"] conjI) simp_all
qed

section \<open>Whole messages\<close>

lemma name_unpack_safe:
  assumes "sz < length buf"
  shows "\<exists>st off' rdl' nm'. rfc1035NameUnpack buf sz off rdl name_array RFC1035_MAXHOSTNAMESZ = Inr (st, off', rdl', nm') \<and>
    (st = 0 \<longrightarrow> off < off' \<and> off' \<le> sz)"
  using name_loop_safe [of name_array 0 256 0 sz buf off rdl 0] assms
  by (auto simp: rfc1035NameUnpack_def name_result_def name_array_def RFC1035_MAXHOSTNAMESZ_def)

lemma rr_unpack_safe:
  assumes "sz < length buf"
  shows "\<exists>r. rfc1035RRUnpack buf sz off = Inr r \<and> (\<forall>rr off'. r = Some (rr, off') \<longrightarrow> off < off' \<and> off' \<le> sz)"
proof -
  obtain st off1 rdl nm where n: "rfc1035NameUnpack buf sz off None name_array RFC1035_MAXHOSTNAMESZ = Inr (st, off1, rdl, nm)"
    "st = 0 \<longrightarrow> off < off1 \<and> off1 \<le> sz" using name_unpack_safe [OF assms] by blast
  show ?thesis
  proof (cases "st \<noteq> 0 \<or> off1 + 10 > sz")
    case True
    then show ?thesis using n by (simp add: rfc1035RRUnpack_def)
  next
    case False
    obtain t cls tt l where f: "ntohs_at buf off1 = Inr t" "ntohs_at buf (off1 + 2) = Inr cls" "ntohl_at buf (off1 + 4) = Inr tt"
      "ntohs_at buf (off1 + 8) = Inr l"
      using ntohs_ok [of off1 buf] ntohs_ok [of "off1 + 2" buf] ntohl_ok [of "off1 + 4" buf] ntohs_ok [of "off1 + 8" buf] False assms by auto
    obtain st2 off2 rdl2 nm2 where n2: "rfc1035NameUnpack buf sz (off1 + 10) (Some 0) name_array RFC1035_MAXHOSTNAMESZ = Inr (st2, off2, rdl2, nm2)"
      using name_unpack_safe [OF assms] by blast
    have "get_bytes (off1 + 10) (unat l) buf = Inr (take (unat l) (drop (off1 + 10) buf))" if "off1 + 10 + unat l \<le> sz"
      using that assms by (simp add: get_bytes_def)
    then obtain d where d: "off1 + 10 + unat l \<le> sz \<longrightarrow> get_bytes (off1 + 10) (unat l) buf = Inr d" by blast
    have o: "off < off1 + 10 + unat l" "st = 0" "\<not> off1 + 10 > sz" using n(2) False by simp_all
    have eq: "rfc1035RRUnpack buf sz off =
        (if off1 + 10 + unat l > sz then Inr None
         else if t = RFC1035_TYPE_PTR
         then if st2 \<noteq> 0 \<or> off2 > off1 + 10 + unat l then Inr None
              else Inr (Some (\<lparr>rr_name = cstr nm, rr_type = t, rr_class = cls, ttl = tt,
                       rdlength = (case rdl2 of Some k \<Rightarrow> k | None \<Rightarrow> 0), rdata = cstr nm2\<rparr>, off1 + 10 + unat l))
         else res_bind (get_bytes (off1 + 10) (unat l) buf) (\<lambda>d.
                Inr (Some (\<lparr>rr_name = cstr nm, rr_type = t, rr_class = cls, ttl = tt, rdlength = unat l, rdata = d\<rparr>, off1 + 10 + unat l))))"
      by (simp only: rfc1035RRUnpack_def n(1) f n2 o res_bind_simps prod.case Let_def if_False simp_thms)
    show ?thesis
    proof (cases "off1 + 10 + unat l > sz")
      case True
      then show ?thesis by (simp add: eq)
    next
      case False
      have "rfc1035RRUnpack buf sz off = Inr None \<or> (\<exists>rr. rfc1035RRUnpack buf sz off = Inr (Some (rr, off1 + 10 + unat l)))"
        using d False by (simp only: eq if_False res_bind_simps not_less simp_thms split: if_split) blast
      then show ?thesis using o(1) False by (elim disjE exE) simp_all
    qed
  qed
qed

lemma answers_safe:
  assumes "sz < length buf"
  shows "\<exists>rs. unpack_answers buf sz off n = Inr rs \<and> length rs \<le> n"
proof (induction n arbitrary: off)
  case (Suc n)
  obtain r where r: "rfc1035RRUnpack buf sz off = Inr r" using rr_unpack_safe [OF assms] by blast
  show ?case
  proof (cases r)
    case None
    then show ?thesis using r by simp
  next
    case (Some p)
    obtain rs where "unpack_answers buf sz (snd p) n = Inr rs" "length rs \<le> n" using Suc.IH by blast
    then show ?thesis using r Some by (cases p) simp
  qed
qed simp

lemma message_safe:
  assumes "sz < length buf"
  shows "\<exists>r m. rfc1035MessageUnpack buf sz = Inr (r, m) \<and> - 15 \<le> r \<and>
    (0 < r \<longrightarrow> (\<exists>msg. m = Some (Some msg) \<and> r = int (length (msg_answer msg)) \<and> length (msg_answer msg) \<le> unat (ancount (hdr msg)))) \<and>
    (\<forall>msg. m = Some (Some msg) \<longrightarrow> length (msg_query msg) = 1)"
proof -
  obtain h where h: "rfc1035HeaderUnpack buf sz = Inr h"
    using ntohs_ok [of 0 buf] ntohs_ok [of 2 buf] ntohs_ok [of 4 buf] ntohs_ok [of 6 buf] ntohs_ok [of 8 buf] ntohs_ok [of 10 buf] assms
    by (cases "sz < 12") (auto simp: rfc1035HeaderUnpack_def)
  show ?thesis
  proof (cases "\<exists>hd off. h = Some (hd, off) \<and> qdcount hd = 1")
    case False
    then show ?thesis using h by (cases h) (auto simp: rfc1035MessageUnpack_def rfc1035_unpack_error_def)
  next
    case True
    then obtain hd off where hd: "h = Some (hd, off)" "qdcount hd = 1" by blast
    obtain st off1 rdl nm where n: "rfc1035NameUnpack buf sz off None name_array RFC1035_MAXHOSTNAMESZ = Inr (st, off1, rdl, nm)"
      using name_unpack_safe [OF assms] by blast
    obtain q where q: "rfc1035QueryUnpack buf sz off = Inr q"
      using n ntohs_ok [of off1 buf] ntohs_ok [of "off1 + 2" buf] assms
      by (cases "st \<noteq> 0 \<or> off1 + 4 > sz") (auto simp: rfc1035QueryUnpack_def)
    have "uint (rcode hd) < 2 ^ LENGTH(4)" by (rule unsigned_less)
    then have rc: "uint (rcode hd) \<le> 15" by simp
    show ?thesis
    proof (cases q)
      case None
      then show ?thesis using h hd q by (simp add: rfc1035MessageUnpack_def rfc1035_unpack_error_def)
    next
      case (Some p)
      obtain qq off2 where p: "p = (qq, off2)" by (cases p)
      obtain rs where "unpack_answers buf sz off2 (unat (ancount hd)) = Inr rs" "length rs \<le> unat (ancount hd)"
        using answers_safe [OF assms] by blast
      then show ?thesis using h hd q Some p rc
        by (auto simp: rfc1035MessageUnpack_def rfc1035_unpack_error_def Let_def)
    qed
  qed
qed

section \<open>Properties\<close>

text \<open>
  C24. Unpacking of a DNS message is safe: for every sequence of bytes that was received, with
  pointer loops, truncated or overlong names and wrong counts included, \<^verbatim>\<open>rfc1035MessageUnpack\<close> returns
  without touching memory outside of the message, the one byte behind it and the name arrays. A positive result is the number
  of records that were unpacked, at most the number the header announces, and a message that
  is handed to the caller has exactly one question.
\<close>

theorem dns_unpack_safe:
  assumes "sz < length buf"
  shows "\<exists>r m. rfc1035MessageUnpack buf sz = Inr (r, m) \<and> - 15 \<le> r \<and>
    (0 < r \<longrightarrow> (\<exists>msg. m = Some (Some msg) \<and> r = int (length (msg_answer msg)) \<and> length (msg_answer msg) \<le> unat (ancount (hdr msg)))) \<and>
    (\<forall>msg. m = Some (Some msg) \<longrightarrow> length (msg_query msg) = 1)"
  using assms by (rule message_safe)

text \<open>
  C26. A query for the address of a host is understood: if the host name consists of labels of 1
  to 63 bytes, is at most 254 bytes long and fits into the buffer, \<^verbatim>\<open>rfc1035BuildAQuery\<close> writes a message
  that \<^verbatim>\<open>rfc1035MessageUnpack\<close> reads back with the identifier, the name, the type and the class, and
  \<^verbatim>\<open>rfc1035QueryCompare\<close> recognises the question as the one that was asked.
\<close>

theorem dns_query_round_trip:
  assumes "ls \<noteq> []" "\<forall>l \<in> set ls. good_label l" "length (dotted ls) \<le> 254" "length (dotted ls) + 18 \<le> sz"
  shows "\<exists>b q msg. rfc1035BuildAQuery (dotted ls) sz qid = Inr (b, q) \<and> length b \<le> sz \<and>
    rfc1035MessageUnpack b (length b) = Inr (0, Some (Some msg)) \<and> h_id (hdr msg) = qid \<and>
    msg_query msg = [\<lparr>qname = dotted ls, qtype = RFC1035_TYPE_A, qclass = RFC1035_CLASS_IN\<rparr>] \<and>
    rfc1035QueryCompare q (hd (msg_query msg))"
proof -
  obtain b q where r: "build_query (dotted ls) sz qid RFC1035_TYPE_A = Inr (b, q)" "length b = length (dotted ls) + 18" "qname q = dotted ls"
    "rfc1035MessageUnpack b (length b) = Inr (0, Some (Some \<lparr>hdr = query_header qid,
      msg_query = [\<lparr>qname = dotted ls, qtype = RFC1035_TYPE_A, qclass = RFC1035_CLASS_IN\<rparr>], msg_answer = []\<rparr>))"
    "qtype q = RFC1035_TYPE_A" "qclass q = RFC1035_CLASS_IN"
    using query_round_trip [OF assms] by blast
  then show ?thesis using assms(4) by (simp add: rfc1035BuildAQuery_def rfc1035QueryCompare_def query_header_def)
qed

text \<open>
  The message is read one byte too far: a message of 13 bytes that ends with the first byte
  of a compression pointer makes \<^verbatim>\<open>rfc1035NameUnpack\<close> copy two bytes before it compares the offset with
  the size of the message.
\<close>

theorem dns_pointer_overread:
  "\<exists>buf. length buf = 13 \<and> rfc1035MessageUnpack buf (length buf) = Inl OutOfBounds \<and>
     rfc1035MessageUnpack (buf @ [NUL]) (length buf) = Inr (- 15, None)"
proof -
  let ?h = "query_header 7"
  obtain b where b: "length b = 12" "\<And>rest n. 12 \<le> n \<Longrightarrow> rfc1035HeaderUnpack (b @ rest) n = Inr (Some (?h, 12))"
    using dns_header_round_trip [of 12 ?h] by auto
  let ?buf = "b @ [CHR 0xC0]"
  have "rfc1035NameUnpack ?buf 13 12 None name_array RFC1035_MAXHOSTNAMESZ = Inl OutOfBounds"
    using b(1) unfolding rfc1035NameUnpack_def
    by (subst name_loop.simps) (simp add: RFC1035_MAXHOSTNAMESZ_def get_byte_def ntohs_at_def nth_append)
  then have "rfc1035MessageUnpack ?buf 13 = Inl OutOfBounds"
    using b(2) [of 13 "[CHR 0xC0]"] by (simp add: rfc1035MessageUnpack_def rfc1035QueryUnpack_def query_header_def)
  moreover have "rfc1035NameUnpack (?buf @ [NUL]) 13 12 None name_array RFC1035_MAXHOSTNAMESZ = Inr (1, 14, None, name_array)"
    using b(1) unfolding rfc1035NameUnpack_def
    by (subst name_loop.simps) (simp add: RFC1035_MAXHOSTNAMESZ_def get_byte_def ntohs_at_def nth_append)
  then have "rfc1035MessageUnpack (?buf @ [NUL]) 13 = Inr (- 15, None)"
    using b(2) [of 13 "[CHR 0xC0, NUL]"]
    by (simp add: rfc1035MessageUnpack_def rfc1035QueryUnpack_def query_header_def rfc1035_unpack_error_def)
  moreover have "length ?buf = 13" using b(1) by simp
  ultimately show ?thesis by (intro exI [of _ ?buf]) simp
qed

section \<open>Examples\<close>

theorem dns_unpack_safe_witness:
  "\<exists>r m. rfc1035MessageUnpack (replicate 20 (CHR 0xC0)) 19 = Inr (r, m) \<and> - 15 \<le> r"
  using dns_unpack_safe [of 19 "replicate 20 (CHR 0xC0)"] by auto

theorem dns_query_round_trip_witness:
  "\<exists>b q msg. rfc1035BuildAQuery ''v.youku.com'' 512 77 = Inr (b, q) \<and>
     rfc1035MessageUnpack b (length b) = Inr (0, Some (Some msg)) \<and> h_id (hdr msg) = 77 \<and>
     qname (hd (msg_query msg)) = ''v.youku.com''"
proof -
  let ?ls = "[''v'', ''youku'', ''com'']"
  have "\<forall>l \<in> set ?ls. good_label l" "dotted ?ls = ''v.youku.com''" by (simp_all add: good_label_def)
  then show ?thesis using dns_query_round_trip [of ?ls 512 77] by auto
qed

end
