(* ===== verification/Splay.thy ===== *)
theory Splay
  imports Prelude "HOL-Library.Tree"
begin

text \<open>
  Splay trees, \<^verbatim>\<open>lib/splay.c\<close>: the top-down splaying that brings the entry nearest to a key to the
  root, insertion and the traversal. The comparison function is a parameter, as in the code; it may
  fail. Links of the C nodes that are overwritten on the way down are kept in two lists of
  frames: a frame of the left tree is a node whose right link is open, a frame of the right tree a
  node whose left link is open, and the innermost frame comes first. The global
  \<^verbatim>\<open>splayLastResult\<close> is returned beside the tree.
\<close>

section \<open>Operations\<close>

type_synonym 'a left_frames = "('a tree \<times> 'a) list"
type_synonym 'a right_frames = "('a \<times> 'a tree) list"

fun plug_left :: "'a left_frames \<Rightarrow> 'a tree \<Rightarrow> 'a tree" where
  "plug_left [] t = t"
| "plug_left ((a, x) # fs) t = plug_left fs (Node a x t)"

fun plug_right :: "'a right_frames \<Rightarrow> 'a tree \<Rightarrow> 'a tree" where
  "plug_right [] t = t"
| "plug_right ((x, b) # fs) t = plug_right fs (Node t x b)"

text \<open>The last four assignments of \<^verbatim>\<open>splay_splay\<close>.\<close>

definition assemble :: "'a left_frames \<Rightarrow> 'a right_frames \<Rightarrow> 'a tree \<Rightarrow> 'a \<Rightarrow> 'a tree \<Rightarrow> 'a tree" where
  "assemble l r a x b = Node (plug_left l a) x (plug_right r b)"

text \<open>The loop; \<open>compare\<close> has the key as its first argument already.\<close>

function splay_loop :: "('a \<Rightarrow> int res) \<Rightarrow> 'a left_frames \<Rightarrow> 'a right_frames \<Rightarrow> 'a tree \<Rightarrow> (int \<times> 'a tree) res" where
  "splay_loop compare l r Leaf = Inl Undefined"
| "splay_loop compare l r (Node a x b) =
     res_bind (compare x) (\<lambda>res.
       if res < 0 then
         (case a of
            Leaf \<Rightarrow> Inr (res, assemble l r a x b)
          | Node aa y ab \<Rightarrow>
              res_bind (compare y) (\<lambda>res.
                if res < 0
                then if aa = Leaf then Inr (res, assemble l r aa y (Node ab x b))
                     else splay_loop compare l ((y, Node ab x b) # r) aa
                else splay_loop compare l ((x, b) # r) a))
       else if res > 0 then
         (case b of
            Leaf \<Rightarrow> Inr (res, assemble l r a x b)
          | Node ba y bb \<Rightarrow>
              res_bind (compare y) (\<lambda>res.
                if res > 0
                then if bb = Leaf then Inr (res, assemble l r (Node a x ba) y bb)
                     else splay_loop compare ((Node a x ba, y) # l) r bb
                else splay_loop compare ((a, x) # l) r b))
       else Inr (res, assemble l r a x b))"
  by pat_completeness auto
termination by (relation "measure (\<lambda>(compare, l, r, t). size t)") auto

declare splay_loop.simps(2) [simp del]

definition splay_splay :: "('a \<Rightarrow> int res) \<Rightarrow> 'a tree \<Rightarrow> (int \<times> 'a tree) res" where
  "splay_splay compare root = (if root = Leaf then Inr (- 1, Leaf) else splay_loop compare [] [] root)"

definition splay_insert :: "('a \<Rightarrow> 'a \<Rightarrow> int res) \<Rightarrow> 'a \<Rightarrow> 'a tree \<Rightarrow> (int \<times> 'a tree) res" where
  "splay_insert compare data root =
     res_bind (splay_splay (compare data) root) (\<lambda>(res, root).
       Inr (res, case root of
           Leaf \<Rightarrow> Node Leaf data Leaf
         | Node a x b \<Rightarrow>
             if res < 0 then Node a data (Node Leaf x b)
             else if res > 0 then Node (Node a x Leaf) data b
             else Node a x b))"

text \<open>\<^verbatim>\<open>splay_walk\<close> calls the function on every entry, with the state passed on; it may not be called on an empty tree.\<close>

fun walk_loop :: "('a \<Rightarrow> 's \<Rightarrow> 's) \<Rightarrow> 'a tree \<Rightarrow> 's \<Rightarrow> 's" where
  "walk_loop walkee Leaf s = s"
| "walk_loop walkee (Node a x b) s = walk_loop walkee b (walkee x (walk_loop walkee a s))"

definition splay_walk :: "('a \<Rightarrow> 's \<Rightarrow> 's) \<Rightarrow> 'a tree \<Rightarrow> 's \<Rightarrow> 's res" where
  "splay_walk walkee root s = (if root = Leaf then Inl Undefined else Inr (walk_loop walkee root s))"

text \<open>\<^verbatim>\<open>splay_destroy\<close> frees the entries; the model lists them in the order in which they are freed.\<close>

fun splay_destroy :: "'a tree \<Rightarrow> 'a list" where
  "splay_destroy Leaf = []"
| "splay_destroy (Node a x b) = splay_destroy a @ splay_destroy b @ [x]"

section \<open>Order of the entries\<close>

fun left_entries :: "'a left_frames \<Rightarrow> 'a list" where
  "left_entries [] = []"
| "left_entries ((a, x) # fs) = left_entries fs @ inorder a @ [x]"

fun right_entries :: "'a right_frames \<Rightarrow> 'a list" where
  "right_entries [] = []"
| "right_entries ((x, b) # fs) = x # inorder b @ right_entries fs"

lemma inorder_plug_left [simp]: "inorder (plug_left l t) = left_entries l @ inorder t"
  by (induction l arbitrary: t rule: left_entries.induct) simp_all

lemma inorder_plug_right [simp]: "inorder (plug_right r t) = inorder t @ right_entries r"
  by (induction r arbitrary: t rule: right_entries.induct) simp_all

text \<open>
  The key divides the entries: going from left to right, it is greater than the entries first, then
  equal to some, then less than the others.
\<close>

definition divides :: "('a \<Rightarrow> int) \<Rightarrow> 'a list \<Rightarrow> bool" where
  "divides f xs \<longleftrightarrow> sorted_wrt (\<lambda>x y. (f x < 0 \<longrightarrow> f y < 0) \<and> (f y > 0 \<longrightarrow> f x > 0)) xs"

lemma divides_append:
  "divides f (xs @ ys) \<longleftrightarrow>
     divides f xs \<and> divides f ys \<and> (\<forall>x\<in>set xs. \<forall>y\<in>set ys. (f x < 0 \<longrightarrow> f y < 0) \<and> (f y > 0 \<longrightarrow> f x > 0))"
  by (auto simp: divides_def sorted_wrt_append)

lemma divides_Cons:
  "divides f (x # ys) \<longleftrightarrow> divides f ys \<and> (\<forall>y\<in>set ys. (f x < 0 \<longrightarrow> f y < 0) \<and> (f y > 0 \<longrightarrow> f x > 0))"
  by (auto simp: divides_def)

lemma divides_Nil [simp]: "divides f []"
  by (simp add: divides_def)

text \<open>What splaying returns: the entries in the same order, with the entry that decided the result at the root.\<close>

definition splayed :: "('a \<Rightarrow> int) \<Rightarrow> 'a list \<Rightarrow> int \<Rightarrow> 'a tree \<Rightarrow> bool" where
  "splayed f xs res t \<longleftrightarrow> inorder t = xs \<and> (\<exists>a x b. t = Node a x b \<and> f x = res \<and>
     (res \<noteq> 0 \<longrightarrow> (\<forall>y\<in>set_tree a. f y > 0) \<and> (\<forall>y\<in>set_tree b. f y < 0)))"

lemma splayed_assemble:
  assumes "\<forall>y\<in>set (left_entries l) \<union> set_tree a. f y > 0 \<or> f x = 0" "\<forall>y\<in>set (right_entries r) \<union> set_tree b. f y < 0 \<or> f x = 0"
  shows "splayed f (left_entries l @ inorder (Node a x b) @ right_entries r) (f x) (assemble l r a x b)"
  using assms by (auto simp: splayed_def assemble_def simp flip: set_inorder)

text \<open>What the loop needs of its arguments, and what it does with them.\<close>

definition splayable :: "('a \<Rightarrow> int res) \<Rightarrow> ('a \<Rightarrow> int) \<Rightarrow> 'a left_frames \<Rightarrow> 'a right_frames \<Rightarrow> 'a tree \<Rightarrow> bool" where
  "splayable compare f l r t \<longleftrightarrow> t \<noteq> Leaf \<and> (\<forall>x\<in>set_tree t. compare x = Inr (f x)) \<and> divides f (inorder t) \<and>
     (\<forall>y\<in>set (left_entries l). f y > 0) \<and> (\<forall>y\<in>set (right_entries r). f y < 0)"

definition splays :: "('a \<Rightarrow> int res) \<Rightarrow> ('a \<Rightarrow> int) \<Rightarrow> 'a left_frames \<Rightarrow> 'a right_frames \<Rightarrow> 'a tree \<Rightarrow> bool" where
  "splays compare f l r t \<longleftrightarrow>
     (\<exists>res t'. splay_loop compare l r t = Inr (res, t') \<and> splayed f (left_entries l @ inorder t @ right_entries r) res t')"

lemma splays_stop:
  assumes "splayable compare f l r (Node a x b)" "f x = 0 \<or> f x < 0 \<and> a = Leaf \<or> f x > 0 \<and> b = Leaf"
  shows "splays compare f l r (Node a x b)"
proof -
  have x: "compare x = Inr (f x)" using assms(1) by (simp add: splayable_def)
  have "splay_loop compare l r (Node a x b) = Inr (f x, assemble l r a x b)"
    using assms(2) x by (elim disjE conjE) (simp_all add: splay_loop.simps(2))
  moreover have "splayed f (left_entries l @ inorder (Node a x b) @ right_entries r) (f x) (assemble l r a x b)"
    by (rule splayed_assemble) (use assms in \<open>auto simp: splayable_def divides_append divides_Cons\<close>)
  ultimately show ?thesis unfolding splays_def by blast
qed

lemma splays_left:
  assumes S: "splayable compare f l r (Node (Node aa y ab) x b)" "f x < 0"
    and IH: "\<And>l r t. size t < size (Node (Node aa y ab) x b) \<Longrightarrow> splayable compare f l r t \<Longrightarrow> splays compare f l r t"
  shows "splays compare f l r (Node (Node aa y ab) x b)"
proof -
  let ?t = "Node (Node aa y ab) x b"
  have step: "splay_loop compare l r ?t =
      (if f y < 0 then if aa = Leaf then Inr (f y, assemble l r aa y (Node ab x b)) else splay_loop compare l ((y, Node ab x b) # r) aa
       else splay_loop compare l ((x, b) # r) (Node aa y ab))"
    using S by (simp add: splayable_def splay_loop.simps(2))
  consider "\<not> f y < 0" | "f y < 0" "aa = Leaf" | "f y < 0" "aa \<noteq> Leaf" by blast
  then show ?thesis
  proof cases
    case 1
    then have "splays compare f l ((x, b) # r) (Node aa y ab)"
      by (intro IH) (use S in \<open>auto simp: splayable_def divides_append divides_Cons\<close>)
    then show ?thesis using 1 by (simp add: splays_def step)
  next
    case 2
    have "splayed f (left_entries l @ inorder (Node aa y (Node ab x b)) @ right_entries r) (f y) (assemble l r aa y (Node ab x b))"
      by (rule splayed_assemble) (use 2 S in \<open>auto simp: splayable_def divides_append divides_Cons\<close>)
    then show ?thesis unfolding splays_def step using 2 by simp
  next
    case 3
    then have "splays compare f l ((y, Node ab x b) # r) aa"
      by (intro IH) (use S in \<open>auto simp: splayable_def divides_append divides_Cons\<close>)
    then show ?thesis using 3 by (simp add: splays_def step)
  qed
qed

lemma splays_right:
  assumes S: "splayable compare f l r (Node a x (Node ba y bb))" "f x > 0"
    and IH: "\<And>l r t. size t < size (Node a x (Node ba y bb)) \<Longrightarrow> splayable compare f l r t \<Longrightarrow> splays compare f l r t"
  shows "splays compare f l r (Node a x (Node ba y bb))"
proof -
  let ?t = "Node a x (Node ba y bb)"
  have step: "splay_loop compare l r ?t =
      (if f y > 0 then if bb = Leaf then Inr (f y, assemble l r (Node a x ba) y bb) else splay_loop compare ((Node a x ba, y) # l) r bb
       else splay_loop compare ((a, x) # l) r (Node ba y bb))"
    using S by (simp add: splayable_def splay_loop.simps(2))
  consider "\<not> f y > 0" | "f y > 0" "bb = Leaf" | "f y > 0" "bb \<noteq> Leaf" by blast
  then show ?thesis
  proof cases
    case 1
    then have "splays compare f ((a, x) # l) r (Node ba y bb)"
      by (intro IH) (use S in \<open>auto simp: splayable_def divides_append divides_Cons\<close>)
    then show ?thesis using 1 by (simp add: splays_def step)
  next
    case 2
    have "splayed f (left_entries l @ inorder (Node (Node a x ba) y bb) @ right_entries r) (f y) (assemble l r (Node a x ba) y bb)"
      by (rule splayed_assemble) (use 2 S in \<open>auto simp: splayable_def divides_append divides_Cons\<close>)
    then show ?thesis unfolding splays_def step using 2 by simp
  next
    case 3
    then have "splays compare f ((Node a x ba, y) # l) r bb"
      by (intro IH) (use S in \<open>auto simp: splayable_def divides_append divides_Cons\<close>)
    then show ?thesis using 3 by (simp add: splays_def step)
  qed
qed

lemma splay_loop_splays: "splayable compare f l r t \<Longrightarrow> splays compare f l r t"
proof (induction "size t" arbitrary: l r t rule: less_induct)
  case less
  obtain a x b where t: "t = Node a x b" using less(2) unfolding splayable_def by (meson tree.exhaust)
  show ?case
  proof (cases "f x = 0 \<or> f x < 0 \<and> a = Leaf \<or> f x > 0 \<and> b = Leaf")
    case True
    with less(2) show ?thesis unfolding t by (rule splays_stop)
  next
    case False
    then consider "f x < 0" "a \<noteq> Leaf" | "f x > 0" "b \<noteq> Leaf" by linarith
    then show ?thesis
    proof cases
      case 1
      then obtain aa y ab where a: "a = Node aa y ab" by (cases a) auto
      show ?thesis unfolding t a by (rule splays_left) (use less 1 in \<open>simp_all add: t a\<close>)
    next
      case 2
      then obtain ba y bb where b: "b = Node ba y bb" by (cases b) auto
      show ?thesis unfolding t b by (rule splays_right) (use less 2 in \<open>simp_all add: t b\<close>)
    qed
  qed
qed

text \<open>Splaying: total, keeps the entries in order and finds an entry equal to the key if there is one.\<close>

lemma splay_splay_spec:
  assumes "t \<noteq> Leaf" "\<forall>x\<in>set_tree t. compare x = Inr (f x)" "divides f (inorder t)"
  shows "\<exists>res t'. splay_splay compare t = Inr (res, t') \<and> splayed f (inorder t) res t'"
  using splay_loop_splays [of compare f "[]" "[]" t] assms by (simp add: splayable_def splays_def splay_splay_def)

lemma splay_finds:
  assumes "\<forall>x\<in>set_tree t. compare x = Inr (f x)" "divides f (inorder t)"
  shows "\<exists>res t'. splay_splay compare t = Inr (res, t') \<and> inorder t' = inorder t \<and> (res = 0 \<longleftrightarrow> (\<exists>x\<in>set_tree t. f x = 0))"
proof (cases "t = Leaf")
  case True
  then show ?thesis by (simp add: splay_splay_def)
next
  case False
  obtain res t' where s: "splay_splay compare t = Inr (res, t')" and sp: "splayed f (inorder t) res t'"
    using splay_splay_spec [OF False assms] by blast
  then obtain a x b where t': "t' = Node a x b" "f x = res" "res \<noteq> 0 \<longrightarrow> (\<forall>y\<in>set_tree a. f y > 0) \<and> (\<forall>y\<in>set_tree b. f y < 0)"
    and io: "inorder t' = inorder t" by (auto simp: splayed_def)
  have "set_tree t = set_tree t'" by (metis io set_inorder)
  then have "res = 0 \<longleftrightarrow> (\<exists>x\<in>set_tree t. f x = 0)" using t' by force
  then show ?thesis using s io by blast
qed

text \<open>Insertion: at the place the key divides the entries, or not at all when an entry is equal to it.\<close>

lemma splay_insert_spec:
  assumes "\<forall>x\<in>set_tree t. compare d x = Inr (f x)" "divides f (inorder t)"
  shows "\<exists>res t'. splay_insert compare d t = Inr (res, t') \<and>
    ((\<exists>x\<in>set_tree t. f x = 0) \<and> t \<noteq> Leaf \<and> res = 0 \<and> inorder t' = inorder t \<or>
     res \<noteq> 0 \<and> (\<exists>xs ys. inorder t = xs @ ys \<and> inorder t' = xs @ d # ys \<and> (\<forall>x\<in>set xs. f x > 0) \<and> (\<forall>y\<in>set ys. f y < 0)))"
proof (cases "t = Leaf")
  case True
  then show ?thesis by (simp add: splay_insert_def splay_splay_def)
next
  case False
  obtain res t' where s: "splay_splay (compare d) t = Inr (res, t')" and sp: "splayed f (inorder t) res t'"
    using splay_splay_spec [OF False assms] by blast
  then obtain a x b where t': "t' = Node a x b" "f x = res" "res \<noteq> 0 \<longrightarrow> (\<forall>y\<in>set_tree a. f y > 0) \<and> (\<forall>y\<in>set_tree b. f y < 0)"
    and io: "inorder a @ x # inorder b = inorder t" by (auto simp: splayed_def)
  have x: "x \<in> set_tree t" using io by (metis in_set_conv_decomp set_inorder)
  consider "res = 0" | "res < 0" | "res > 0" by linarith
  then show ?thesis
  proof cases
    case 1
    then show ?thesis using s t' x io False by (auto simp: splay_insert_def)
  next
    case 2
    then have "splay_insert compare d t = Inr (res, Node a d (Node Leaf x b))" using s t' by (simp add: splay_insert_def)
    moreover have "inorder t = inorder a @ (x # inorder b)" "\<forall>y\<in>set (x # inorder b). f y < 0" using io t' 2 by auto
    moreover have "inorder (Node a d (Node Leaf x b)) = (inorder a) @ d # (x # inorder b)" by simp
    moreover have "\<forall>y\<in>set (inorder a). f y > 0" "res \<noteq> 0" using t' 2 by auto
    ultimately show ?thesis by blast
  next
    case 3
    then have "splay_insert compare d t = Inr (res, Node (Node a x Leaf) d b)" using s t' by (simp add: splay_insert_def)
    moreover have "inorder t = (inorder a @ [x]) @ inorder b" "\<forall>y\<in>set (inorder a @ [x]). f y > 0" using io t' 3 by auto
    moreover have "inorder (Node (Node a x Leaf) d b) = (inorder a @ [x]) @ d # (inorder b)" by simp
    moreover have "\<forall>y\<in>set (inorder b). f y < 0" "res \<noteq> 0" using t' 3 by auto
    ultimately show ?thesis by blast
  qed
qed

lemma walk_loop_fold: "walk_loop w t s = fold w (inorder t) s"
  by (induction t arbitrary: s) auto

lemma set_splay_destroy: "set (splay_destroy t) = set_tree t" "length (splay_destroy t) = size t"
  by (induction t) auto

end
