(* ===== verification/Acl_Tree.thy ===== *)
theory Acl_Tree
  imports Splay
begin

text \<open>
  The lists of addresses and of domains of the access controls are splay trees of entries that
  cover an interval of keys. One comparison places a key before, in or behind an entry, another
  one compares two entries when they are inserted, and finds them equal if they have a key in
  common. The locale states what such a pair of comparisons has to satisfy, and shows what looking
  up and inserting then do; theories \<open>Acl_Ip\<close> and \<open>Acl_Domain\<close> interpret it.
\<close>

text \<open>The entries of a configuration line, one after the other.\<close>

fun insert_entries :: "('d \<Rightarrow> 'd \<Rightarrow> int res) \<Rightarrow> 'd list \<Rightarrow> 'd tree \<Rightarrow> 'd tree res" where
  "insert_entries compare [] t = Inr t"
| "insert_entries compare (d # ds) t = res_bind (splay_insert compare d t) (\<lambda>(_, t). insert_entries compare ds t)"

text \<open>
  Two entries are compared by looking each one's first key up in the other: with the results \<open>r1\<close>
  and \<open>r2\<close> of these, \<open>both_ways r1 r2\<close> is returned.
\<close>

definition both_ways :: "int res \<Rightarrow> int res \<Rightarrow> int res" where
  "both_ways r1 r2 = res_bind r1 (\<lambda>r. if r \<noteq> 0 then r2 else Inr r)"

lemma both_ways_order:
  fixes lo :: "'d \<Rightarrow> 'o::linorder"
  assumes "r1 = Inr i" "i < 0 \<longleftrightarrow> lo b < lo a" "i > 0 \<longleftrightarrow> beyond a (lo b)"
    "r2 = Inr j" "j < 0 \<longleftrightarrow> lo a < lo b" "j > 0 \<longleftrightarrow> beyond b (lo a)"
    "\<And>d x. beyond d x \<Longrightarrow> d \<in> {a, b} \<Longrightarrow> lo d < x"
  shows "\<exists>r. both_ways r1 r2 = Inr r \<and> (r < 0 \<longleftrightarrow> beyond a (lo b)) \<and> (r > 0 \<longleftrightarrow> beyond b (lo a))"
proof (cases "i = 0")
  case True
  then have "\<not> lo b < lo a" "\<not> beyond a (lo b)" "\<not> beyond b (lo a)" using assms(2,3,7) by auto
  then show ?thesis using True assms(1) by (simp add: both_ways_def)
next
  case False
  then have "both_ways r1 r2 = Inr j" using assms(1,4) by (simp add: both_ways_def)
  moreover have "j < 0 \<longleftrightarrow> beyond a (lo b)" using assms(2,3,5,7) False by (metis insertI1 linorder_neqE not_less_iff_gr_or_eq)
  ultimately show ?thesis using assms(6) by blast
qed

locale acl_tree =
  fixes compare_key :: "'k \<Rightarrow> 'd \<Rightarrow> int res"
    and compare_entry :: "'d \<Rightarrow> 'd \<Rightarrow> int res"
    and pos :: "'k \<Rightarrow> 'o::linorder"
    and lo :: "'d \<Rightarrow> 'o"
    and beyond :: "'d \<Rightarrow> 'o \<Rightarrow> bool"
    and key_ok :: "'k \<Rightarrow> bool"
    and entry_ok :: "'d \<Rightarrow> bool"
  assumes compare_key: "key_ok k \<Longrightarrow> entry_ok d \<Longrightarrow> \<exists>r. compare_key k d = Inr r \<and> (r < 0 \<longleftrightarrow> pos k < lo d) \<and> (r > 0 \<longleftrightarrow> beyond d (pos k))"
    and compare_entry: "entry_ok a \<Longrightarrow> entry_ok b \<Longrightarrow> \<exists>r. compare_entry a b = Inr r \<and> (r < 0 \<longleftrightarrow> beyond a (lo b)) \<and> (r > 0 \<longleftrightarrow> beyond b (lo a))"
    and beyond_mono: "beyond d x \<Longrightarrow> x \<le> y \<Longrightarrow> beyond d y"
    and beyond_lo: "entry_ok d \<Longrightarrow> \<not> beyond d (lo d)"
begin

definition covers :: "'d \<Rightarrow> 'o \<Rightarrow> bool" where
  "covers d x \<longleftrightarrow> lo d \<le> x \<and> \<not> beyond d x"

definition meets :: "'d \<Rightarrow> 'd \<Rightarrow> bool" where
  "meets a b \<longleftrightarrow> \<not> beyond a (lo b) \<and> \<not> beyond b (lo a)"

definition tree_ok :: "'d tree \<Rightarrow> bool" where
  "tree_ok t \<longleftrightarrow> (\<forall>d\<in>set_tree t. entry_ok d) \<and> sorted_wrt (\<lambda>a b. beyond a (lo b)) (inorder t)"

text \<open>The entries that are kept: those that have no key in common with an earlier one.\<close>

fun kept :: "'d list \<Rightarrow> 'd list \<Rightarrow> 'd list" where
  "kept old [] = old"
| "kept old (d # ds) = kept (if \<exists>x\<in>set old. meets d x then old else d # old) ds"

lemma tree_ok_Leaf [simp]: "tree_ok Leaf"
  by (simp add: tree_ok_def)

lemma beyond_less: "entry_ok a \<Longrightarrow> beyond a x \<Longrightarrow> lo a < x"
  using beyond_lo beyond_mono leI by blast

lemma meets_covers: "entry_ok a \<Longrightarrow> entry_ok b \<Longrightarrow> meets a b \<longleftrightarrow> (\<exists>x. covers a x \<and> covers b x)"
  unfolding meets_def covers_def by (metis beyond_lo beyond_mono linear)

lemma meets_first: "entry_ok a \<Longrightarrow> entry_ok b \<Longrightarrow> meets a b \<longleftrightarrow> covers a (lo b) \<or> covers b (lo a)"
  unfolding meets_def covers_def by (metis beyond_less linear not_less)

lemma key_divides:
  assumes "key_ok k" "tree_ok t" "\<forall>x\<in>set_tree t. compare_key k x = Inr (f x)"
  shows "divides f (inorder t)"
  unfolding divides_def
proof (rule sorted_wrt_mono_rel)
  show "sorted_wrt (\<lambda>a b. beyond a (lo b)) (inorder t)" using assms(2) by (simp add: tree_ok_def)
  fix a b
  assume ab: "a \<in> set (inorder t)" "b \<in> set (inorder t)" "beyond a (lo b)"
  then have ok: "entry_ok a" "entry_ok b" using assms(2) by (auto simp: tree_ok_def)
  have f: "f d < 0 \<longleftrightarrow> pos k < lo d" "f d > 0 \<longleftrightarrow> beyond d (pos k)" if "d \<in> set_tree t" for d
    using compare_key [OF assms(1), of d] assms(2,3) that by (auto simp: tree_ok_def)
  show "(f a < 0 \<longrightarrow> f b < 0) \<and> (0 < f b \<longrightarrow> 0 < f a)"
    using f [of a] f [of b] ab ok beyond_less beyond_mono by (metis dual_order.strict_trans less_imp_le set_inorder)
qed

lemma entry_divides:
  assumes "entry_ok d" "tree_ok t" "\<forall>x\<in>set_tree t. compare_entry d x = Inr (f x)"
  shows "divides f (inorder t)"
  unfolding divides_def
proof (rule sorted_wrt_mono_rel)
  show "sorted_wrt (\<lambda>a b. beyond a (lo b)) (inorder t)" using assms(2) by (simp add: tree_ok_def)
  fix a b
  assume ab: "a \<in> set (inorder t)" "b \<in> set (inorder t)" "beyond a (lo b)"
  then have ok: "entry_ok a" "entry_ok b" using assms(2) by (auto simp: tree_ok_def)
  have f: "f x < 0 \<longleftrightarrow> beyond d (lo x)" "f x > 0 \<longleftrightarrow> beyond x (lo d)" if "x \<in> set_tree t" for x
    using compare_entry [OF assms(1), of x] assms(2,3) that by (auto simp: tree_ok_def)
  show "(f a < 0 \<longrightarrow> f b < 0) \<and> (0 < f b \<longrightarrow> 0 < f a)"
    using f [of a] f [of b] ab ok beyond_less beyond_mono by (metis less_imp_le set_inorder)
qed

lemma lookup:
  assumes "key_ok k" "tree_ok t"
  shows "\<exists>res t'. splay_splay (compare_key k) t = Inr (res, t') \<and> inorder t' = inorder t \<and>
    (res = 0 \<longleftrightarrow> (\<exists>d\<in>set_tree t. covers d (pos k)))"
proof -
  obtain f where f: "\<forall>x\<in>set_tree t. compare_key k x = Inr (f x)"
    using compare_key [OF assms(1)] assms(2) unfolding tree_ok_def by (metis (no_types))
  have "f d = 0 \<longleftrightarrow> covers d (pos k)" if "d \<in> set_tree t" for d
    using compare_key [OF assms(1), of d] assms(2) f that unfolding tree_ok_def covers_def
    by (metis Inr_inject linorder_neqE_linordered_idom not_less order_less_irrefl)
  then show ?thesis using splay_finds [OF f key_divides [OF assms f]] by auto
qed

lemma insert_entry:
  assumes "entry_ok d" "tree_ok t"
  shows "\<exists>res t'. splay_insert compare_entry d t = Inr (res, t') \<and> tree_ok t' \<and>
    (res = 0 \<longleftrightarrow> (\<exists>x\<in>set_tree t. meets d x)) \<and> set_tree t' = (if \<exists>x\<in>set_tree t. meets d x then set_tree t else insert d (set_tree t))"
proof -
  obtain f where f: "\<forall>x\<in>set_tree t. compare_entry d x = Inr (f x)"
    using compare_entry [OF assms(1)] assms(2) unfolding tree_ok_def by (metis (no_types))
  have sgn: "f x < 0 \<longleftrightarrow> beyond d (lo x)" "f x > 0 \<longleftrightarrow> beyond x (lo d)" if "x \<in> set_tree t" for x
    using compare_entry [OF assms(1), of x] assms(2) f that by (auto simp: tree_ok_def)
  have meets: "f x = 0 \<longleftrightarrow> meets d x" if "x \<in> set_tree t" for x using sgn [OF that] unfolding meets_def by linarith
  obtain res t' where ins: "splay_insert compare_entry d t = Inr (res, t')"
    and "(\<exists>x\<in>set_tree t. f x = 0) \<and> t \<noteq> Leaf \<and> res = 0 \<and> inorder t' = inorder t \<or>
      res \<noteq> 0 \<and> (\<exists>xs ys. inorder t = xs @ ys \<and> inorder t' = xs @ d # ys \<and> (\<forall>x\<in>set xs. f x > 0) \<and> (\<forall>y\<in>set ys. f y < 0))"
    using splay_insert_spec [of t compare_entry d f, OF f entry_divides [OF assms f]] by blast
  then consider (dup) "\<exists>x\<in>set_tree t. f x = 0" "res = 0" "inorder t' = inorder t"
    | (new) xs ys where "res \<noteq> 0" "inorder t = xs @ ys" "inorder t' = xs @ d # ys" "\<forall>x\<in>set xs. f x > 0" "\<forall>y\<in>set ys. f y < 0"
    by blast
  then show ?thesis
  proof cases
    case dup
    then have "set_tree t' = set_tree t" by (metis set_inorder)
    then show ?thesis using dup ins assms(2) meets by (auto simp: tree_ok_def)
  next
    case new
    have st: "set_tree t = set xs \<union> set ys" "set_tree t' = insert d (set_tree t)"
      using new(2,3) by (metis set_append set_inorder) (use new(2,3) in \<open>metis Un_insert_right list.simps(15) set_append set_inorder\<close>)
    have "\<not> (\<exists>x\<in>set_tree t. f x = 0)" using new(4,5) st(1) by auto
    moreover have "tree_ok t'" using assms new sgn st unfolding tree_ok_def by (auto simp: sorted_wrt_append)
    ultimately show ?thesis using ins st(2) meets new(1) by auto
  qed
qed

lemma insert_entries_kept:
  assumes "\<forall>d\<in>set ds. entry_ok d" "tree_ok t" "set_tree t = set old"
  shows "\<exists>t'. insert_entries compare_entry ds t = Inr t' \<and> tree_ok t' \<and> set_tree t' = set (kept old ds)"
  using assms
proof (induction ds arbitrary: t old)
  case (Cons d ds)
  obtain res t' where ins: "splay_insert compare_entry d t = Inr (res, t')" "tree_ok t'"
    "set_tree t' = (if \<exists>x\<in>set_tree t. meets d x then set_tree t else insert d (set_tree t))"
    using insert_entry [of d t] Cons.prems by auto
  then have "set_tree t' = set (if \<exists>x\<in>set old. meets d x then old else d # old)" using Cons.prems(3) by auto
  then show ?case using Cons.IH [OF _ ins(2)] Cons.prems(1) ins(1) by auto
qed simp

text \<open>Entries that have no keys in common are all kept.\<close>

lemma kept_all:
  assumes "\<forall>d\<in>set ds. \<forall>x\<in>set old. \<not> meets d x" "sorted_wrt (\<lambda>a b. \<not> meets b a) ds"
  shows "set (kept old ds) = set old \<union> set ds"
  using assms by (induction ds arbitrary: old) auto

text \<open>A list that is built from a configuration and then asked for a key.\<close>

theorem built_list_decides:
  assumes "\<forall>d\<in>set ds. entry_ok d" "key_ok k"
  shows "\<exists>t res t'. insert_entries compare_entry ds Leaf = Inr t \<and> splay_splay (compare_key k) t = Inr (res, t') \<and>
    tree_ok t' \<and> (res = 0 \<longleftrightarrow> (\<exists>d\<in>set (kept [] ds). covers d (pos k)))"
proof -
  obtain t where t: "insert_entries compare_entry ds Leaf = Inr t" "tree_ok t" "set_tree t = set (kept [] ds)"
    using insert_entries_kept [OF assms(1), of Leaf "[]"] by auto
  obtain res t' where l: "splay_splay (compare_key k) t = Inr (res, t')" "inorder t' = inorder t"
    "res = 0 \<longleftrightarrow> (\<exists>d\<in>set_tree t. covers d (pos k))" using lookup [OF assms(2) t(2)] by blast
  have "set_tree t' = set_tree t" by (metis l(2) set_inorder)
  then have "tree_ok t'" using t(2) l(2) by (simp add: tree_ok_def)
  then show ?thesis using t l by auto
qed

end

end
