(* ===== verification/Scanf.thy ===== *)
theory Scanf
  imports Header_Tools
begin

text \<open>
  What the configuration parsers use of \<^verbatim>\<open>sscanf\<close>: the conversions \<^verbatim>\<open>%d\<close> with single characters
  between them, and \<^verbatim>\<open>%[...]\<close>. A scan returns what was converted and the rest of the input.
\<close>

text \<open>\<^verbatim>\<open>%d\<close>: the value of \<^verbatim>\<open>strtol\<close>, stored in an \<^verbatim>\<open>int\<close>.\<close>

definition scan_d :: "string \<Rightarrow> (int \<times> string) option" where
  "scan_d s =
     (let s1 = dropWhile isspace_c s;
          s2 = (if s1 \<noteq> [] \<and> (hd s1 = CHR ''-'' \<or> hd s1 = CHR ''+'') then tl s1 else s1)
      in map_option (\<lambda>v. (trunc32 (max (- 9223372036854775808) (min 9223372036854775807 v)), dropWhile isdigit_c s2)) (strtoll s))"

text \<open>Several \<^verbatim>\<open>%d\<close> with the given characters between them, up to the first that fails.\<close>

fun scan_ds :: "char list \<Rightarrow> string \<Rightarrow> int list \<times> string" where
  "scan_ds seps s =
     (case scan_d s of
        None \<Rightarrow> ([], s)
      | Some (v, r) \<Rightarrow>
          (case seps of
             [] \<Rightarrow> ([v], r)
           | c # seps \<Rightarrow>
               if r \<noteq> [] \<and> hd r = c then let (vs, r) = scan_ds seps (tl r) in (v # vs, r) else ([v], r)))"

declare scan_ds.simps [simp del]

text \<open>
  \<^verbatim>\<open>%[...]\<close>, a non-empty run of characters of the set, and \<^verbatim>\<open>%s\<close>, stored in an array of \<open>n\<close> bytes. The
  conversions have no limit: what does not fit is written behind the array.
\<close>

definition scan_set :: "nat \<Rightarrow> (char \<Rightarrow> bool) \<Rightarrow> string \<Rightarrow> (string \<times> string) option res" where
  "scan_set n P s =
     (let w = takeWhile P s
      in if w = [] then Inr None else if length w \<ge> n then Inl OutOfBounds else Inr (Some (w, dropWhile P s)))"

definition scan_word :: "nat \<Rightarrow> string \<Rightarrow> (string \<times> string) option res" where
  "scan_word n s = scan_set n (\<lambda>c. \<not> isspace_c c) (dropWhile isspace_c s)"

section \<open>Scanning what was printed\<close>

lemma scan_d_show_nat:
  assumes "n < 2147483648" "r = [] \<or> \<not> isdigit_c (hd r)"
  shows "scan_d (show_nat n @ r) = Some (int n, r)"
proof -
  obtain c cs where c: "show_nat n = c # cs" by (cases "show_nat n") auto
  then have "isdigit_c c" using show_nat_digits [of n] by simp
  then have "dropWhile isspace_c (show_nat n @ r) = show_nat n @ r" "hd (show_nat n @ r) \<noteq> CHR ''-''"
    "hd (show_nat n @ r) \<noteq> CHR ''+''" using hd_digit by (auto simp: c)
  moreover have "dropWhile isdigit_c (show_nat n @ r) = r"
    using assms(2) show_nat_digits [of n] by (cases r) (auto simp: dropWhile_append)
  ultimately show ?thesis using strtoll_show_nat [OF assms(2), of n] assms(1) by (simp add: scan_d_def Let_def trunc32_id)
qed

lemma scan_ds_last: "n < 2147483648 \<Longrightarrow> scan_ds [] (show_nat n) = ([int n], [])"
  using scan_d_show_nat [of n "[]"] by (simp add: scan_ds.simps [of _ "show_nat n"])

lemma scan_ds_show:
  assumes "n < 2147483648" "\<not> isdigit_c c"
  shows "scan_ds (c # seps) (show_nat n @ c # r) = (let (vs, r) = scan_ds seps r in (int n # vs, r))"
    "scan_ds (c # seps) (show_nat n) = ([int n], [])"
  using scan_d_show_nat [of n "[]"] scan_d_show_nat [of n "c # r"] assms
  by (simp_all add: scan_ds.simps [of _ "show_nat n"] scan_ds.simps [of _ "show_nat n @ c # r"])

end
