(* ===== verification/Acl_Ip.thy ===== *)
theory Acl_Ip
  imports Acl_Tree Scanf "HOL-Library.Word"
begin

unbundle bit_operations_syntax

text \<open>
  Access controls by address, \<^verbatim>\<open>src/acl.c\<close>: parsing of the entries of an address list, the
  comparisons, and the test of a client address. Addresses are 32-bit words in host order; the code
  keeps them in network order, masks them bitwise and compares their \<^verbatim>\<open>ntohl\<close>. The result of
  \<^verbatim>\<open>gethostbyname\<close> is a parameter, and a configuration error that stops the program is \<^const>\<open>Fatal\<close>.
\<close>

section \<open>Data\<close>

type_synonym in_addr = "32 word"

record acl_ip_data =
  addr1 :: in_addr
  addr2 :: in_addr
  netmask :: in_addr

definition no_addr :: in_addr where "no_addr = - 1"
definition any_addr :: in_addr where "any_addr = 0"

section \<open>Parsing\<close>

definition safe_inet_addr :: "string \<Rightarrow> in_addr option" where
  "safe_inet_addr buf =
     (case scan_ds ''...'' buf of
        ([a1, a2, a3, a4], rest) \<Rightarrow>
          if rest \<noteq> [] then None
          else if a1 < 0 \<or> a1 > 255 \<or> a2 < 0 \<or> a2 > 255 \<or> a3 < 0 \<or> a3 > 255 \<or> a4 < 0 \<or> a4 > 255 then None
          else Some (of_int (((a1 * 256 + a2) * 256 + a3) * 256 + a4))
      | _ \<Rightarrow> None)"

text \<open>A single number is taken for the length of a netmask, also where an address is expected.\<close>

definition decode_addr :: "string \<Rightarrow> in_addr option res" where
  "decode_addr asc =
     (case fst (scan_ds ''...'' asc) of
        [_, _, _, _] \<Rightarrow> (case safe_inet_addr asc of None \<Rightarrow> Inl Fatal | Some a \<Rightarrow> Inr (Some a))
      | [a1] \<Rightarrow>
          if 0 \<le> a1 \<and> a1 < 33 then Inr (Some (if a1 \<noteq> 0 then push_bit (nat (32 - a1)) (- 1) else 0)) else Inr None
      | _ \<Rightarrow> Inr None)"

definition addr_char :: "char \<Rightarrow> bool" where
  "addr_char c \<longleftrightarrow> isdigit_c c \<or> c = CHR ''.''"

text \<open>
  The forms of an entry: two addresses and a mask, of which the last two may be empty. The parts are
  stored in arrays of 256 bytes.
\<close>

definition scan_part :: "char list \<Rightarrow> string \<Rightarrow> (string \<Rightarrow> string \<Rightarrow> 'a option res) \<Rightarrow> 'a option res" where
  "scan_part sep t k =
     res_bind (scan_set 256 addr_char t) (\<lambda>x. case x of
         None \<Rightarrow> Inr None
       | Some (a, r) \<Rightarrow> if prefix sep r then k a (drop (length sep) r) else Inr None)"

definition scan_acl1 :: "string \<Rightarrow> (string \<times> string \<times> string) option res" where
  "scan_acl1 t =
     scan_part ''-'' t (\<lambda>a r. scan_part ''/'' r (\<lambda>b r. scan_part [] r (\<lambda>m _. Inr (Some (a, b, m)))))"

definition scan_acl2 :: "string \<Rightarrow> (string \<times> string \<times> string) option res" where
  "scan_acl2 t = scan_part ''-'' t (\<lambda>a r. scan_part [] r (\<lambda>b r. Inr (if r = [] then Some (a, b, []) else None)))"

definition scan_acl3 :: "string \<Rightarrow> (string \<times> string \<times> string) option res" where
  "scan_acl3 t = scan_part ''/'' t (\<lambda>a r. scan_part [] r (\<lambda>m _. Inr (Some (a, [], m))))"

definition scan_acl4 :: "string \<Rightarrow> (string \<times> string \<times> string) option res" where
  "scan_acl4 t = scan_part [] t (\<lambda>a r. Inr (if r = [] then Some (a, [], []) else None))"

text \<open>\<^verbatim>\<open>"%[^/]/%s"\<close>.\<close>

definition scan_acl5 :: "string \<Rightarrow> (string \<times> string \<times> string) option res" where
  "scan_acl5 t =
     res_bind (scan_set 256 (\<lambda>c. c \<noteq> CHR ''/'') t) (\<lambda>x. case x of
         Some (a, _ # r) \<Rightarrow> res_bind (scan_word 256 r) (\<lambda>w. Inr (map_option (\<lambda>(m, _). (a, [], m)) w))
       | _ \<Rightarrow> Inr None)"

fun first_scan :: "(string \<Rightarrow> 'a option res) list \<Rightarrow> string \<Rightarrow> 'a option res" where
  "first_scan [] t = Inr None"
| "first_scan (f # fs) t = res_bind (f t) (\<lambda>x. case x of None \<Rightarrow> first_scan fs t | Some y \<Rightarrow> Inr (Some y))"

definition decode_opt :: "string \<Rightarrow> in_addr \<Rightarrow> in_addr option res" where
  "decode_opt s a = (if s = [] then Inr (Some a) else decode_addr s)"

text \<open>The end of \<^verbatim>\<open>aclParseIpData\<close>; an entry that is not understood is ignored.\<close>

definition decode_entry :: "string \<times> string \<times> string \<Rightarrow> acl_ip_data list res" where
  "decode_entry x =
     (case x of (a1, a2, m) \<Rightarrow>
        res_bind (decode_addr a1) (\<lambda>v1. case v1 of None \<Rightarrow> Inr [] | Some v1 \<Rightarrow>
        res_bind (decode_opt a2 0) (\<lambda>v2. case v2 of None \<Rightarrow> Inr [] | Some v2 \<Rightarrow>
        res_bind (decode_opt m no_addr) (\<lambda>vm. case vm of None \<Rightarrow> Inr [] | Some vm \<Rightarrow>
          Inr [\<lparr>addr1 = v1 AND vm, addr2 = v2 AND vm, netmask = vm\<rparr>]))))"

definition aclParseIpData :: "(string \<Rightarrow> in_addr list option) \<Rightarrow> string \<Rightarrow> acl_ip_data list res" where
  "aclParseIpData gethostbyname t =
     (if map tolower t = ''all'' then Inr [\<lparr>addr1 = 0, addr2 = 0, netmask = 0\<rparr>]
      else res_bind (first_scan [scan_acl1, scan_acl2, scan_acl3, scan_acl4, scan_acl5] t) (\<lambda>x. case x of
          Some x \<Rightarrow> decode_entry x
        | None \<Rightarrow>
            res_bind (scan_word 256 t) (\<lambda>w. case w of
               None \<Rightarrow> Inr []
             | Some (a, _) \<Rightarrow>
                 (case gethostbyname a of
                    None \<Rightarrow> Inr []
                  | Some [] \<Rightarrow> Inr [\<lparr>addr1 = 0, addr2 = 0, netmask = no_addr\<rparr>]
                  | Some as \<Rightarrow> Inr (map (\<lambda>a. \<lparr>addr1 = a, addr2 = 0, netmask = no_addr\<rparr>) as)))))"

section \<open>Comparison and lists\<close>

definition aclIpNetworkCompare2 :: "acl_ip_data \<Rightarrow> acl_ip_data \<Rightarrow> int" where
  "aclIpNetworkCompare2 p q =
     (let A = addr1 p AND netmask q; B = addr1 q; C = addr2 q
      in if C = 0 then (if A > B then 1 else if A < B then - 1 else 0)
         else (if A > C then 1 else if A < B then - 1 else 0))"

definition aclIpNetworkCompare :: "acl_ip_data \<Rightarrow> acl_ip_data \<Rightarrow> int res" where
  "aclIpNetworkCompare a b = both_ways (Inr (aclIpNetworkCompare2 b a)) (Inr (aclIpNetworkCompare2 a b))"

definition aclIpAddrNetworkCompare :: "acl_ip_data \<Rightarrow> acl_ip_data \<Rightarrow> int res" where
  "aclIpAddrNetworkCompare a b = Inr (aclIpNetworkCompare2 a b)"

fun aclParseIpList :: "(string \<Rightarrow> in_addr list option) \<Rightarrow> string list \<Rightarrow> acl_ip_data tree \<Rightarrow> acl_ip_data tree res" where
  "aclParseIpList gethostbyname [] t = Inr t"
| "aclParseIpList gethostbyname (tok # toks) t =
     res_bind (aclParseIpData gethostbyname tok) (\<lambda>qs.
     res_bind (insert_entries aclIpNetworkCompare qs t) (\<lambda>t. aclParseIpList gethostbyname toks t))"

definition aclMatchIp :: "acl_ip_data tree \<Rightarrow> in_addr \<Rightarrow> (bool \<times> acl_ip_data tree) res" where
  "aclMatchIp t c =
     res_bind (splay_splay (aclIpAddrNetworkCompare \<lparr>addr1 = c, addr2 = any_addr, netmask = no_addr\<rparr>) t)
       (\<lambda>(res, t). Inr (res = 0, t))"

section \<open>Networks\<close>

text \<open>The addresses of an entry, and the entries that are in order: a prefix mask, and no reversed range.\<close>

definition prefix_mask :: "in_addr \<Rightarrow> bool" where
  "prefix_mask m \<longleftrightarrow> (\<exists>n\<le>32. m = NOT (mask n))"

definition entry_ok :: "acl_ip_data \<Rightarrow> bool" where
  "entry_ok d \<longleftrightarrow> prefix_mask (netmask d) \<and> addr1 d AND netmask d = addr1 d \<and> addr2 d AND netmask d = addr2 d \<and>
     (addr2 d = 0 \<or> addr1 d \<le> addr2 d)"

definition in_network :: "acl_ip_data \<Rightarrow> in_addr \<Rightarrow> bool" where
  "in_network d c \<longleftrightarrow>
     (if addr2 d = 0 then c AND netmask d = addr1 d else addr1 d \<le> c AND netmask d \<and> c AND netmask d \<le> addr2 d)"

definition above_network :: "acl_ip_data \<Rightarrow> in_addr \<Rightarrow> bool" where
  "above_network d c \<longleftrightarrow> prefix_mask (netmask d) \<and> (if addr2 d = 0 then addr1 d else addr2 d) < c AND netmask d"

lemma unat_and_not_mask: "unat ((x :: in_addr) AND NOT (mask n)) = unat x div 2 ^ n * 2 ^ n"
proof -
  have "x AND NOT (mask n) = push_bit n (drop_bit n x)" by (rule bit_word_eqI) (auto simp: bit_simps)
  moreover have "unat (push_bit n (drop_bit n x)) = take_bit 32 (push_bit n (drop_bit n (take_bit 32 (unat x))))"
    by (simp only: unsigned_push_bit_eq unsigned_drop_bit_eq) simp
  moreover have "take_bit 32 (unat x) = unat x" using unsigned_less [of x] by (intro take_bit_nat_eq_self) simp
  moreover have "unat x div 2 ^ n * 2 ^ n < 2 ^ 32"
    by (rule le_less_trans [OF div_times_less_eq_dividend]) (use unsigned_less [of x] in simp)
  ultimately show ?thesis by (simp only: push_bit_eq_mult drop_bit_eq_div take_bit_nat_eq_self)
qed

lemma and_prefix_mono:
  assumes "prefix_mask m" "x \<le> y"
  shows "x AND m \<le> y AND m"
  using assms by (auto simp: prefix_mask_def word_le_nat_alt unat_and_not_mask intro: div_le_mono)

lemma and_prefix_less:
  assumes "prefix_mask m" "b AND m = b"
  shows "x AND m < b \<longleftrightarrow> x < b"
proof
  show "x < b" if "x AND m < b" using and_prefix_mono [OF assms(1), of b x] that assms(2) by (metis leD not_less)
  show "x AND m < b" if "x < b" using that word_and_le2 [of x m] by (metis order_le_less_trans word_and_le2 and.commute)
qed

lemma compare2_order:
  assumes "entry_ok d"
  shows "aclIpNetworkCompare2 p d < 0 \<longleftrightarrow> addr1 p < addr1 d" "aclIpNetworkCompare2 p d > 0 \<longleftrightarrow> above_network d (addr1 p)"
proof -
  have pm: "prefix_mask (netmask d)" using assms by (simp add: entry_ok_def)
  have lt: "addr1 p AND netmask d < addr1 d \<longleftrightarrow> addr1 p < addr1 d" using and_prefix_less assms by (simp add: entry_ok_def)
  have rng: "addr2 d = 0 \<or> \<not> (addr1 p AND netmask d < addr1 d \<and> addr2 d < addr1 p AND netmask d)"
    using assms by (auto simp: entry_ok_def)
  then show "aclIpNetworkCompare2 p d < 0 \<longleftrightarrow> addr1 p < addr1 d" "aclIpNetworkCompare2 p d > 0 \<longleftrightarrow> above_network d (addr1 p)"
    unfolding lt [symmetric] using pm by (auto simp: aclIpNetworkCompare2_def above_network_def Let_def)
qed

lemma above_network_mono: "above_network d x \<Longrightarrow> x \<le> y \<Longrightarrow> above_network d y"
  using and_prefix_mono by (auto simp: above_network_def intro: less_le_trans)

lemma above_network_first: "entry_ok d \<Longrightarrow> \<not> above_network d (addr1 d)"
  by (auto simp: above_network_def entry_ok_def)

lemma above_network_less: "entry_ok d \<Longrightarrow> above_network d x \<Longrightarrow> addr1 d < x"
  using above_network_first above_network_mono leI by blast

interpretation ip: acl_tree "\<lambda>c. aclIpAddrNetworkCompare \<lparr>addr1 = c, addr2 = any_addr, netmask = no_addr\<rparr>" aclIpNetworkCompare
  "\<lambda>c. c" addr1 above_network "\<lambda>_. True" entry_ok
proof unfold_locales
  fix k d
  assume "entry_ok d"
  then show "\<exists>r. aclIpAddrNetworkCompare \<lparr>addr1 = k, addr2 = any_addr, netmask = no_addr\<rparr> d = Inr r \<and>
      (r < 0 \<longleftrightarrow> k < addr1 d) \<and> (r > 0 \<longleftrightarrow> above_network d k)"
    using compare2_order by (simp add: aclIpAddrNetworkCompare_def)
next
  fix a b
  assume "entry_ok a" "entry_ok b"
  then show "\<exists>r. aclIpNetworkCompare a b = Inr r \<and> (r < 0 \<longleftrightarrow> above_network a (addr1 b)) \<and> (r > 0 \<longleftrightarrow> above_network b (addr1 a))"
    unfolding aclIpNetworkCompare_def using compare2_order above_network_less by (intro both_ways_order) auto
qed (auto intro: above_network_mono above_network_first dest: above_network_first)

lemma covers_in_network: "entry_ok d \<Longrightarrow> ip.covers d c \<longleftrightarrow> in_network d c"
  using and_prefix_less [of "netmask d" "addr1 d" c]
  by (auto simp: ip.covers_def in_network_def above_network_def entry_ok_def not_less)

text \<open>Of entries that have an address in common, only the first one is kept.\<close>

definition overlap :: "acl_ip_data \<Rightarrow> acl_ip_data \<Rightarrow> bool" where
  "overlap a b \<longleftrightarrow> (\<exists>c. in_network a c \<and> in_network b c)"

fun kept_networks :: "acl_ip_data list \<Rightarrow> acl_ip_data list \<Rightarrow> acl_ip_data list" where
  "kept_networks old [] = old"
| "kept_networks old (d # ds) = kept_networks (if \<exists>x\<in>set old. overlap d x then old else d # old) ds"

lemma meets_overlap: "entry_ok a \<Longrightarrow> entry_ok b \<Longrightarrow> ip.meets a b \<longleftrightarrow> overlap a b"
  by (simp add: ip.meets_covers covers_in_network overlap_def)

lemma kept_networks_eq:
  assumes "\<forall>d\<in>set ds. entry_ok d" "\<forall>d\<in>set old. entry_ok d"
  shows "ip.kept old ds = kept_networks old ds \<and> (\<forall>d\<in>set (kept_networks old ds). entry_ok d)"
  using assms
proof (induction ds arbitrary: old)
  case (Cons d ds)
  have "(\<exists>x\<in>set old. ip.meets d x) \<longleftrightarrow> (\<exists>x\<in>set old. overlap d x)" using Cons.prems meets_overlap by simp
  moreover have "\<forall>x\<in>set (if \<exists>x\<in>set old. overlap d x then old else d # old). entry_ok x" using Cons.prems by simp
  ultimately show ?case using Cons.IH Cons.prems(1) by (simp only: ip.kept.simps kept_networks.simps list.set_intros simp_thms) simp
qed simp

lemma insert_entries_append:
  "insert_entries cmp (xs @ ys) t = res_bind (insert_entries cmp xs t) (insert_entries cmp ys)"
proof (induction xs arbitrary: t)
  case (Cons x xs)
  then show ?case by (cases "splay_insert cmp x t") (auto split: prod.splits)
qed simp

lemma aclParseIpList_insert:
  assumes "list_all2 (\<lambda>tok qs. aclParseIpData g tok = Inr qs) toks qss"
  shows "aclParseIpList g toks t = insert_entries aclIpNetworkCompare (concat qss) t"
  using assms
proof (induction toks qss arbitrary: t rule: list_all2_induct)
  case (Cons tok toks qs qss)
  have "(\<lambda>t. aclParseIpList g toks t) = insert_entries aclIpNetworkCompare (concat qss)" using Cons(3) by auto
  then show ?case using Cons(1) by (simp add: insert_entries_append)
qed simp

definition ip_listed :: "acl_ip_data tree \<Rightarrow> in_addr \<Rightarrow> bool" where
  "ip_listed t c \<longleftrightarrow> (\<exists>e\<in>set_tree t. in_network e c)"

lemma set_tree_inorder: "inorder t' = inorder t \<Longrightarrow> set_tree t' = set_tree t"
  by (metis set_inorder)

lemma aclMatchIp_ok:
  assumes "ip.tree_ok t"
  shows "\<exists>t'. aclMatchIp t c = Inr (ip_listed t c, t') \<and> ip.tree_ok t' \<and> set_tree t' = set_tree t"
proof -
  obtain res t' where l: "splay_splay (aclIpAddrNetworkCompare \<lparr>addr1 = c, addr2 = any_addr, netmask = no_addr\<rparr>) t = Inr (res, t')"
    "inorder t' = inorder t" "res = 0 \<longleftrightarrow> (\<exists>d\<in>set_tree t. ip.covers d c)" using ip.lookup [OF _ assms, of c] by auto
  have s: "set_tree t' = set_tree t" by (rule set_tree_inorder) (rule l(2))
  have "ip.tree_ok t'" using assms l(2) s by (simp add: ip.tree_ok_def)
  moreover have "(\<exists>d\<in>set_tree t. ip.covers d c) \<longleftrightarrow> ip_listed t c"
    using assms covers_in_network unfolding ip.tree_ok_def ip_listed_def by blast
  ultimately show ?thesis using l(1,3) s by (auto simp: aclMatchIp_def)
qed

lemma ip_list_built:
  assumes "\<forall>d\<in>set ds. entry_ok d"
  shows "\<exists>t. insert_entries aclIpNetworkCompare ds Leaf = Inr t \<and> ip.tree_ok t \<and> set_tree t = set (kept_networks [] ds)"
  using ip.insert_entries_kept [OF assms, of Leaf "[]"] kept_networks_eq [OF assms, of "[]"] by auto

lemma ip_list_decides:
  assumes "\<forall>d\<in>set ds. entry_ok d"
  shows "\<exists>t t'. insert_entries aclIpNetworkCompare ds Leaf = Inr t \<and>
    aclMatchIp t c = Inr (\<exists>d\<in>set (kept_networks [] ds). in_network d c, t') \<and> ip.tree_ok t'"
proof -
  obtain t where t: "insert_entries aclIpNetworkCompare ds Leaf = Inr t" "ip.tree_ok t" "set_tree t = set (kept_networks [] ds)"
    using ip_list_built [OF assms] by blast
  show ?thesis using aclMatchIp_ok [OF t(2), of c] t(1,3) by (auto simp: ip_listed_def)
qed

text \<open>Lookups one after the other, each on the tree that the one before left.\<close>

fun match_each :: "acl_ip_data tree \<Rightarrow> in_addr list \<Rightarrow> (bool list \<times> acl_ip_data tree) res" where
  "match_each t [] = Inr ([], t)"
| "match_each t (c # cs) =
     res_bind (aclMatchIp t c) (\<lambda>(b, t). res_bind (match_each t cs) (\<lambda>(bs, t). Inr (b # bs, t)))"

lemma match_each_ok:
  assumes "ip.tree_ok t"
  shows "\<exists>t'. match_each t cs = Inr (map (ip_listed t) cs, t') \<and> ip.tree_ok t' \<and> set_tree t' = set_tree t"
  using assms
proof (induction cs arbitrary: t)
  case (Cons c cs)
  obtain t1 where t1: "aclMatchIp t c = Inr (ip_listed t c, t1)" "ip.tree_ok t1" "set_tree t1 = set_tree t"
    using aclMatchIp_ok [OF Cons.prems] by blast
  have "ip_listed t1 = ip_listed t" using t1(3) by (simp add: ip_listed_def fun_eq_iff)
  then show ?case using Cons.IH [OF t1(2)] t1 by auto
qed simp

section \<open>Dotted addresses\<close>

definition dotted_quad :: "nat \<Rightarrow> nat \<Rightarrow> nat \<Rightarrow> nat \<Rightarrow> string" where
  "dotted_quad a b c d = show_nat a @ ''.'' @ show_nat b @ ''.'' @ show_nat c @ ''.'' @ show_nat d"

definition quad_addr :: "nat \<Rightarrow> nat \<Rightarrow> nat \<Rightarrow> nat \<Rightarrow> in_addr" where
  "quad_addr a b c d = of_nat (((a * 256 + b) * 256 + c) * 256 + d)"

lemma scan_dotted:
  assumes "a < 256" "b < 256" "c < 256" "d < 256"
  shows "scan_ds ''...'' (dotted_quad a b c d) = ([int a, int b, int c, int d], [])"
  using assms by (simp add: dotted_quad_def scan_ds_show scan_ds_last isdigit_c_def)

lemma decode_dotted:
  assumes "a < 256" "b < 256" "c < 256" "d < 256"
  shows "decode_addr (dotted_quad a b c d) = Inr (Some (quad_addr a b c d))"
  using assms by (simp add: decode_addr_def safe_inet_addr_def scan_dotted quad_addr_def)

lemma decode_length:
  assumes "n \<le> 32"
  shows "decode_addr (show_nat n) = Inr (Some (NOT (mask (32 - n))))"
proof -
  have "push_bit k (- 1) = NOT (mask k :: in_addr)" for k by (rule bit_word_eqI) (auto simp: bit_simps)
  moreover have "NOT (mask 32) = (0 :: in_addr)" by (rule bit_word_eqI) (simp add: bit_simps)
  ultimately show ?thesis using assms by (auto simp: decode_addr_def scan_ds_show isdigit_c_def nat_diff_distrib)
qed

definition cidr :: "nat \<Rightarrow> nat \<Rightarrow> nat \<Rightarrow> nat \<Rightarrow> nat \<Rightarrow> string" where
  "cidr a b c d n = dotted_quad a b c d @ ''/'' @ show_nat n"

definition cidr_entry :: "nat \<Rightarrow> nat \<Rightarrow> nat \<Rightarrow> nat \<Rightarrow> nat \<Rightarrow> acl_ip_data" where
  "cidr_entry a b c d n = \<lparr>addr1 = quad_addr a b c d AND NOT (mask (32 - n)), addr2 = 0, netmask = NOT (mask (32 - n))\<rparr>"

lemma length_show_nat: "n < 256 \<Longrightarrow> length (show_nat n) \<le> 3"
  by (simp add: show_nat.simps [of n] show_nat.simps [of "n div 10"] show_nat.simps [of "n div 10 div 10"])

lemma show_nat_addr: "x \<in> set (show_nat n) \<Longrightarrow> addr_char x"
  using show_nat_digits by (auto simp: addr_char_def)

lemma dotted_quad_addr: "x \<in> set (dotted_quad a b c d) \<Longrightarrow> addr_char x"
  by (auto simp: dotted_quad_def addr_char_def dest: show_nat_digits [rule_format])

lemma scan_part_run:
  assumes "\<forall>x\<in>set w. addr_char x" "w \<noteq> []" "length w < 256" "r = [] \<or> \<not> addr_char (hd r)"
  shows "scan_part sep (w @ r) k = (if prefix sep r then k w (drop (length sep) r) else Inr None)"
proof -
  have "takeWhile addr_char (w @ r) = w" "dropWhile addr_char (w @ r) = r"
    using assms(1,4) by (cases r; auto simp: takeWhile_append dropWhile_append)+
  then show ?thesis using assms(2,3) by (simp add: scan_part_def scan_set_def)
qed

lemma dotted_quad_fits:
  assumes "a < 256" "b < 256" "c < 256" "d < 256"
  shows "dotted_quad a b c d \<noteq> []" "length (dotted_quad a b c d) < 256"
  using length_show_nat [OF assms(1)] length_show_nat [OF assms(2)] length_show_nat [OF assms(3)] length_show_nat [OF assms(4)]
  by (auto simp: dotted_quad_def)

lemma not_all:
  assumes "isdigit_c (hd t)" "t \<noteq> []"
  shows "map tolower t \<noteq> ''all''"
  using assms by (cases t) (auto simp: isdigit_c_def tolower_def)

lemma parse_cidr:
  assumes "a < 256" "b < 256" "c < 256" "d < 256" "n \<le> 32"
  shows "aclParseIpData g (cidr a b c d n) = Inr [cidr_entry a b c d n]"
proof -
  let ?q = "dotted_quad a b c d"
  note q = dotted_quad_fits [OF assms(1-4)]
  have slash: "\<not> addr_char (CHR ''/'')" by (simp add: addr_char_def isdigit_c_def)
  have run: "scan_part sep (cidr a b c d n) k = (if prefix sep (CHR ''/'' # show_nat n) then k ?q (drop (length sep) (CHR ''/'' # show_nat n)) else Inr None)"
    for sep and k :: "string \<Rightarrow> string \<Rightarrow> (string \<times> string \<times> string) option res"
    using scan_part_run [of ?q "CHR ''/'' # show_nat n" sep k] dotted_quad_addr q slash by (auto simp: cidr_def)
  have len: "scan_part [] (show_nat n) k = k (show_nat n) []" for k :: "string \<Rightarrow> string \<Rightarrow> (string \<times> string \<times> string) option res"
    using scan_part_run [of "show_nat n" "[]" "[]" k] show_nat_addr length_show_nat [of n] assms(5) by auto
  have first: "first_scan [scan_acl1, scan_acl2, scan_acl3, scan_acl4, scan_acl5] (cidr a b c d n) = Inr (Some (?q, [], show_nat n))"
    by (simp add: scan_acl1_def scan_acl2_def scan_acl3_def run len)
  have "map tolower (cidr a b c d n) \<noteq> ''all''"
    using show_nat_digits [of a] by (intro not_all) (cases "show_nat a"; auto simp: cidr_def dotted_quad_def)+
  then show ?thesis
    using first decode_dotted [OF assms(1-4)] decode_length [OF assms(5)]
    by (simp add: aclParseIpData_def decode_entry_def decode_opt_def cidr_entry_def)
qed

lemma cidr_entry_ok: "entry_ok (cidr_entry a b c d n)"
  by (auto simp: entry_ok_def cidr_entry_def prefix_mask_def and.assoc intro: exI [of _ "32 - n"])

lemma in_cidr: "in_network (cidr_entry a b c d n) x \<longleftrightarrow> drop_bit (32 - n) x = drop_bit (32 - n) (quad_addr a b c d)"
proof -
  have "x AND NOT (mask k) = push_bit k (drop_bit k x)" for x :: in_addr and k by (rule bit_word_eqI) (auto simp: bit_simps)
  moreover have "drop_bit k (push_bit k (drop_bit k x)) = drop_bit k x" for x :: in_addr and k
    by (rule bit_word_eqI) (auto simp: bit_simps dest: bit_imp_le_length)
  ultimately show ?thesis by (auto simp: in_network_def cidr_entry_def) (metis)
qed

section \<open>Properties\<close>

text \<open>
  C18. An address list decides membership. The entries of a configuration line are parsed and inserted
  one after the other; then an address is found exactly if it lies in one of the entries that were
  kept, where an entry is kept if it has no address in common with an entry kept before. This
  holds for every sequence of lookups, each made on the tree that the one before reshaped, and the tree that is left
  has exactly the kept entries, in order. The entries have prefix masks and ranges that are not
  reversed; they come in any order.
\<close>

theorem acl_ip_list_decides:
  assumes "list_all2 (\<lambda>tok qs. aclParseIpData g tok = Inr qs) toks qss" "\<forall>d\<in>set (concat qss). entry_ok d"
  shows "\<exists>t t'. aclParseIpList g toks Leaf = Inr t \<and>
    match_each t cs = Inr (map (\<lambda>c. \<exists>d\<in>set (kept_networks [] (concat qss)). in_network d c) cs, t') \<and>
    ip.tree_ok t' \<and> set_tree t' = set (kept_networks [] (concat qss))"
proof -
  obtain t where t: "insert_entries aclIpNetworkCompare (concat qss) Leaf = Inr t" "ip.tree_ok t"
    "set_tree t = set (kept_networks [] (concat qss))" using ip_list_built [OF assms(2)] by blast
  have "ip_listed t = (\<lambda>c. \<exists>d\<in>set (kept_networks [] (concat qss)). in_network d c)" using t(3) by (simp add: ip_listed_def fun_eq_iff)
  then show ?thesis using match_each_ok [OF t(2), of cs] t(1,3) aclParseIpList_insert [OF assms(1)] by auto
qed

text \<open>
  From the text of the configuration to the decision: the entry \<^verbatim>\<open>a.b.c.d/n\<close> matches exactly the
  addresses whose first \<open>n\<close> bits are those of \<^verbatim>\<open>a.b.c.d\<close>.
\<close>

theorem cidr_matches_prefix:
  assumes "a < 256" "b < 256" "c < 256" "d < 256" "n \<le> 32"
  shows "\<exists>t t'. aclParseIpList g [cidr a b c d n] Leaf = Inr t \<and>
    aclMatchIp t x = Inr (drop_bit (32 - n) x = drop_bit (32 - n) (quad_addr a b c d), t')"
proof -
  have "\<forall>e\<in>set [cidr_entry a b c d n]. entry_ok e" using cidr_entry_ok by simp
  from ip_list_decides [OF this, of x] obtain t t' where "insert_entries aclIpNetworkCompare [cidr_entry a b c d n] Leaf = Inr t"
    "aclMatchIp t x = Inr (drop_bit (32 - n) x = drop_bit (32 - n) (quad_addr a b c d), t')" by (auto simp: in_cidr)
  then show ?thesis using aclParseIpList_insert [of g "[cidr a b c d n]" "[[cidr_entry a b c d n]]"] parse_cidr [OF assms] by auto
qed

text \<open>
  The order of overlapping entries matters: when a network is listed behind a part of it, it is
  ignored, and its addresses outside that part are not matched.
\<close>

theorem larger_network_ignored:
  assumes "entry_ok a" "entry_ok b" "overlap a b" "in_network b c" "\<not> in_network a c"
  shows "\<exists>t t'. insert_entries aclIpNetworkCompare [a, b] Leaf = Inr t \<and> aclMatchIp t c = Inr (False, t')"
proof -
  have "kept_networks [] [a, b] = [a]" using assms(3) by (auto simp: overlap_def)
  then show ?thesis using ip_list_decides [of "[a, b]" c] assms by auto
qed

section \<open>Examples\<close>

lemma demo_networks:
  "in_network (cidr_entry 10 0 0 0 8) (quad_addr 10 2 0 1)" "\<not> in_network (cidr_entry 10 1 0 0 16) (quad_addr 10 2 0 1)"
  "overlap (cidr_entry 10 1 0 0 16) (cidr_entry 10 0 0 0 8)"
proof -
  show "in_network (cidr_entry 10 0 0 0 8) (quad_addr 10 2 0 1)" "\<not> in_network (cidr_entry 10 1 0 0 16) (quad_addr 10 2 0 1)"
    unfolding in_cidr by (simp_all add: quad_addr_def)
  have "in_network (cidr_entry 10 1 0 0 16) (quad_addr 10 1 0 0)" "in_network (cidr_entry 10 0 0 0 8) (quad_addr 10 1 0 0)"
    unfolding in_cidr by (simp_all add: quad_addr_def)
  then show "overlap (cidr_entry 10 1 0 0 16) (cidr_entry 10 0 0 0 8)" unfolding overlap_def by blast
qed

lemma demo_disjoint: "in_network (cidr_entry 192 168 1 0 24) c \<Longrightarrow> \<not> in_network (cidr_entry 10 1 0 0 16) c"
proof -
  assume "in_network (cidr_entry 192 168 1 0 24) c"
  then have "drop_bit 8 c = drop_bit 8 (quad_addr 192 168 1 0)" by (simp add: in_cidr)
  then have "drop_bit 8 (drop_bit 8 c) = drop_bit 8 (drop_bit 8 (quad_addr 192 168 1 0))" by simp
  then have "drop_bit 16 c = drop_bit 16 (quad_addr 192 168 1 0)" by (simp add: drop_bit_drop_bit)
  moreover have "drop_bit 16 (quad_addr 192 168 1 0) \<noteq> drop_bit 16 (quad_addr 10 1 0 0)" by (simp add: quad_addr_def)
  ultimately show ?thesis by (simp add: in_cidr)
qed

theorem acl_ip_list_decides_witness:
  "\<exists>t t'. aclParseIpList (\<lambda>_. None) [cidr 10 1 0 0 16, cidr 10 0 0 0 8, cidr 192 168 1 0 24] Leaf = Inr t \<and>
     match_each t [quad_addr 10 2 0 1, quad_addr 192 168 1 77] = Inr ([False, True], t') \<and>
     set_tree t' = {cidr_entry 192 168 1 0 24, cidr_entry 10 1 0 0 16}"
proof -
  let ?a = "cidr_entry 10 1 0 0 16" and ?b = "cidr_entry 10 0 0 0 8" and ?c = "cidr_entry 192 168 1 0 24"
  let ?toks = "[cidr 10 1 0 0 16, cidr 10 0 0 0 8, cidr 192 168 1 0 24]" and ?qs = "[[?a], [?b], [?c]]"
  let ?cs = "[quad_addr 10 2 0 1, quad_addr 192 168 1 77]"
  have toks: "list_all2 (\<lambda>tok qs. aclParseIpData (\<lambda>_. None) tok = Inr qs) ?toks ?qs"
    using parse_cidr [of 10 0 0 0 8] parse_cidr [of 10 1 0 0 16] parse_cidr [of 192 168 1 0 24] by simp
  have ok: "\<forall>d\<in>set (concat ?qs). entry_ok d" using cidr_entry_ok by simp
  have "\<not> overlap ?c ?a" using demo_disjoint by (auto simp: overlap_def)
  moreover have "overlap ?b ?a" using demo_networks(3) by (auto simp: overlap_def)
  ultimately have k: "kept_networks [] (concat ?qs) = [?c, ?a]" by simp
  have "in_network ?c (quad_addr 192 168 1 77)" "\<not> in_network ?c (quad_addr 10 2 0 1)" unfolding in_cidr by (simp_all add: quad_addr_def)
  then have "map (\<lambda>c. \<exists>d\<in>set [?c, ?a]. in_network d c) ?cs = [False, True]" using demo_networks(2) by simp
  moreover have "set [?c, ?a] = {?c, ?a}" by simp
  moreover obtain t t' where "aclParseIpList (\<lambda>_. None) ?toks Leaf = Inr t"
    "match_each t ?cs = Inr (map (\<lambda>c. \<exists>d\<in>set [?c, ?a]. in_network d c) ?cs, t')" "set_tree t' = set [?c, ?a]"
    using acl_ip_list_decides [OF toks ok, of ?cs] unfolding k by blast
  ultimately show ?thesis by (intro exI [of _ t] exI [of _ t']) (simp only: simp_thms)
qed

theorem cidr_matches_prefix_witness:
  "\<exists>t t'. aclParseIpList (\<lambda>_. None) [cidr 192 168 1 0 24] Leaf = Inr t \<and> aclMatchIp t (quad_addr 192 168 1 77) = Inr (True, t')"
proof -
  have "drop_bit 8 (quad_addr 192 168 1 77) = drop_bit 8 (quad_addr 192 168 1 0)" by (simp add: quad_addr_def)
  then show ?thesis using cidr_matches_prefix [of 192 168 1 0 24 "\<lambda>_. None" "quad_addr 192 168 1 77"] by simp
qed

theorem larger_network_ignored_witness:
  "\<exists>t t'. insert_entries aclIpNetworkCompare [cidr_entry 10 1 0 0 16, cidr_entry 10 0 0 0 8] Leaf = Inr t \<and>
     aclMatchIp t (quad_addr 10 2 0 1) = Inr (False, t')"
  using larger_network_ignored [OF cidr_entry_ok cidr_entry_ok demo_networks(3,1,2)] .

end
