(* ===== verification/Url.thy ===== *)
theory Url
  imports Rfc1738 Header_Tools
begin

text \<open>
  URLs, \<^verbatim>\<open>src/url.c\<close>: request methods with the table of extension methods, parsing of a URL into a
  request, the canonical URL that the store keys are computed from, and the comparison of host
  names with domains that the access lists use.

  The arguments are C strings without their terminator. The local arrays of \<^verbatim>\<open>urlParse\<close> have
  \<^verbatim>\<open>MAX_URL\<close> bytes and every copy into them is a part of the URL, which is shorter; the model keeps
  their contents. The configuration is a parameter, and the buffer of the escaping function, which
  \<open>Rfc1738\<close> models, is passed through.
\<close>

section \<open>Constants and data\<close>

definition MAX_URL :: nat where "MAX_URL = 8192"
definition MAX_LOGIN_SZ :: nat where "MAX_LOGIN_SZ = 128"
definition SQUIDHOSTNAMELEN :: nat where "SQUIDHOSTNAMELEN = 256"
definition CONNECT_PORT :: int where "CONNECT_PORT = 443"
definition CACHE_HTTP_PORT :: int where "CACHE_HTTP_PORT = 3128"

definition METHOD_NONE :: nat where "METHOD_NONE = 0"
definition METHOD_PUT :: nat where "METHOD_PUT = 3"
definition METHOD_CONNECT :: nat where "METHOD_CONNECT = 5"
definition METHOD_TRACE :: nat where "METHOD_TRACE = 6"
definition METHOD_PURGE :: nat where "METHOD_PURGE = 7"
definition METHOD_EXT00 :: nat where "METHOD_EXT00 = 30"
definition METHOD_ENUM_END :: nat where "METHOD_ENUM_END = 50"

datatype protocol_t =
  PROTO_NONE | PROTO_HTTP | PROTO_FTP | PROTO_GOPHER | PROTO_WAIS | PROTO_CACHEOBJ | PROTO_ICP | PROTO_HTCP |
  PROTO_URN | PROTO_WHOIS | PROTO_INTERNAL | PROTO_HTTPS

fun ProtocolStr :: "protocol_t \<Rightarrow> string" where
  "ProtocolStr PROTO_NONE = ''NONE''"
| "ProtocolStr PROTO_HTTP = ''http''"
| "ProtocolStr PROTO_FTP = ''ftp''"
| "ProtocolStr PROTO_GOPHER = ''gopher''"
| "ProtocolStr PROTO_WAIS = ''wais''"
| "ProtocolStr PROTO_CACHEOBJ = ''cache_object''"
| "ProtocolStr PROTO_ICP = ''icp''"
| "ProtocolStr PROTO_HTCP = ''htcp''"
| "ProtocolStr PROTO_URN = ''urn''"
| "ProtocolStr PROTO_WHOIS = ''whois''"
| "ProtocolStr PROTO_INTERNAL = ''internal''"
| "ProtocolStr PROTO_HTTPS = ''https''"

datatype uri_whitespace_t =
  URI_WHITESPACE_STRIP | URI_WHITESPACE_ALLOW | URI_WHITESPACE_ENCODE | URI_WHITESPACE_CHOP | URI_WHITESPACE_DENY

record url_config =
  appendDomain :: "string option"
  uri_whitespace :: uri_whitespace_t
  check_hostnames :: bool
  allow_underscore :: bool
  strip_query_terms :: bool

record url_request =
  u_method :: nat
  u_protocol :: protocol_t
  u_login :: string
  u_host :: string
  u_port :: int
  u_path :: string

section \<open>C library\<close>

definition strcaseeq :: "string \<Rightarrow> string \<Rightarrow> bool" where
  "strcaseeq a b \<longleftrightarrow> map tolower a = map tolower b"

text \<open>\<^verbatim>\<open>strrchr\<close>: what stands before and behind the last occurrence.\<close>

fun strrchr_split :: "char \<Rightarrow> string \<Rightarrow> (string \<times> string) option" where
  "strrchr_split c [] = None"
| "strrchr_split c (x # s) =
     (case strrchr_split c s of
        Some (a, b) \<Rightarrow> Some (x # a, b)
      | None \<Rightarrow> if x = c then Some ([], s) else None)"

definition w_space :: "char set" where
  "w_space = {CHR '' '', CHR 0x09, CHR 0x0A, CHR 0x0D}"

definition stringHasWhitespace :: "string \<Rightarrow> bool" where
  "stringHasWhitespace s \<longleftrightarrow> list_ex (\<lambda>c. c \<in> w_space) s"

definition stringHasCntl :: "string \<Rightarrow> bool" where
  "stringHasCntl s \<longleftrightarrow> list_ex (\<lambda>c. (of_char c :: nat) \<le> 0x1f \<or> 0x7f \<le> (of_char c :: nat) \<and> (of_char c :: nat) \<le> 0x9f) s"

section \<open>Methods\<close>

definition RequestMethods :: "string list" where
  "RequestMethods =
     [''NONE'', ''GET'', ''POST'', ''PUT'', ''HEAD'', ''CONNECT'', ''TRACE'', ''PURGE'', ''OPTIONS'', ''DELETE'',
      ''PROPFIND'', ''PROPPATCH'', ''MKCOL'', ''COPY'', ''MOVE'', ''LOCK'', ''UNLOCK'', ''BMOVE'', ''BDELETE'',
      ''BPROPFIND'', ''BPROPPATCH'', ''BCOPY'', ''SEARCH'', ''SUBSCRIBE'', ''UNSUBSCRIBE'', ''POLL'', ''REPORT'',
      ''MKACTIVITY'', ''CHECKOUT'', ''MERGE'',
      ''%EXT00'', ''%EXT01'', ''%EXT02'', ''%EXT03'', ''%EXT04'', ''%EXT05'', ''%EXT06'', ''%EXT07'', ''%EXT08'', ''%EXT09'',
      ''%EXT10'', ''%EXT11'', ''%EXT12'', ''%EXT13'', ''%EXT14'', ''%EXT15'', ''%EXT16'', ''%EXT17'', ''%EXT18'', ''%EXT19'',
      ''ERROR'']"

text \<open>The table is state: extension methods are added by the configuration. The argument is the name that is looked for.\<close>

definition urlParseMethod :: "string list \<Rightarrow> string \<Rightarrow> nat" where
  "urlParseMethod tab s =
     (if s \<noteq> [] \<and> hd s = CHR ''%'' then METHOD_NONE
      else (case find (\<lambda>m. strcaseeq s (tab ! m)) [1..<METHOD_ENUM_END] of Some m \<Rightarrow> m | None \<Rightarrow> METHOD_NONE))"

fun ext_add_loop :: "string \<Rightarrow> nat list \<Rightarrow> string list \<Rightarrow> string list" where
  "ext_add_loop mstr [] tab = tab"
| "ext_add_loop mstr (m # ms) tab =
     (if mstr = tab ! m then tab
      else if \<not> prefix ''%EXT'' (tab ! m) then ext_add_loop mstr ms tab
      else tab[m := mstr])"

definition urlExtMethodAdd :: "string \<Rightarrow> string list \<Rightarrow> string list" where
  "urlExtMethodAdd mstr tab = ext_add_loop mstr [1..<METHOD_ENUM_END] tab"

definition show_02d :: "nat \<Rightarrow> string" where
  "show_02d n = (if n < 10 then CHR ''0'' # show_nat n else show_nat n)"

definition free_extension_method :: "string list \<Rightarrow> string list" where
  "free_extension_method tab =
     foldl (\<lambda>tab m. if tab ! m = [] \<or> hd (tab ! m) \<noteq> CHR ''%'' then tab[m := ''%EXT_'' @ show_02d (m - METHOD_EXT00)] else tab)
       tab [METHOD_EXT00..<METHOD_ENUM_END]"

section \<open>Protocols\<close>

definition urlParseProtocol :: "string \<Rightarrow> protocol_t" where
  "urlParseProtocol s =
     (if strcaseeq s ''http'' then PROTO_HTTP
      else if strcaseeq s ''ftp'' then PROTO_FTP
      else if strcaseeq s ''https'' then PROTO_HTTPS
      else if strcaseeq s ''file'' then PROTO_FTP
      else if strcaseeq s ''gopher'' then PROTO_GOPHER
      else if strcaseeq s ''wais'' then PROTO_WAIS
      else if strcaseeq s ''cache_object'' then PROTO_CACHEOBJ
      else if strcaseeq s ''urn'' then PROTO_URN
      else if strcaseeq s ''whois'' then PROTO_WHOIS
      else if strcaseeq s ''internal'' then PROTO_INTERNAL
      else PROTO_NONE)"

fun urlDefaultPort :: "protocol_t \<Rightarrow> int" where
  "urlDefaultPort PROTO_HTTP = 80"
| "urlDefaultPort PROTO_HTTPS = 443"
| "urlDefaultPort PROTO_FTP = 21"
| "urlDefaultPort PROTO_GOPHER = 70"
| "urlDefaultPort PROTO_WAIS = 210"
| "urlDefaultPort PROTO_CACHEOBJ = CACHE_HTTP_PORT"
| "urlDefaultPort PROTO_INTERNAL = CACHE_HTTP_PORT"
| "urlDefaultPort PROTO_WHOIS = 43"
| "urlDefaultPort _ = 0"

section \<open>Parsing\<close>

text \<open>\<^verbatim>\<open>sscanf(url, "%[^:]:%d", host, &port)\<close>; the port keeps its value when no number follows.\<close>

definition parse_connect :: "string \<Rightarrow> (string \<times> int) option" where
  "parse_connect url =
     (let host = takeWhile (\<lambda>c. c \<noteq> CHR '':'') url; rest = dropWhile (\<lambda>c. c \<noteq> CHR '':'') url
      in if host = [] then None
         else Some (host, if rest = [] \<or> strtoll (tl rest) = None then CONNECT_PORT else atoi (tl rest)))"

text \<open>Protocol, host part and path of the URL; an empty path becomes a slash.\<close>

definition split_url :: "string \<Rightarrow> (string \<times> string \<times> string) option" where
  "split_url url =
     (let proto = takeWhile (\<lambda>c. c \<noteq> CHR '':'') url; src = dropWhile (\<lambda>c. c \<noteq> CHR '':'') url
      in if src = [] then None
         else if \<not> prefix ''://'' src then None
         else let src = drop 3 src;
                  host = takeWhile (\<lambda>c. c \<noteq> CHR ''/'') src;
                  urlpath = takeWhile (\<lambda>c. c \<noteq> CHR 0x0D \<and> c \<noteq> CHR 0x0A) (dropWhile (\<lambda>c. c \<noteq> CHR ''/'') src)
              in Some (proto, host, if urlpath = [] then ''/'' else urlpath))"

definition split_login :: "string \<Rightarrow> string \<times> string" where
  "split_login host = (case strrchr_split (CHR ''@'') host of None \<Rightarrow> ([], host) | Some (l, h) \<Rightarrow> (l, h))"

definition split_port :: "string \<Rightarrow> int \<Rightarrow> string \<times> int" where
  "split_port host port =
     (case strrchr_split (CHR '':'') host of
        None \<Rightarrow> (host, port)
      | Some (h, t) \<Rightarrow> (h, if t \<noteq> [] then atoi t else port))"

definition strip_whitespace :: "string \<Rightarrow> string" where
  "strip_whitespace s = filter (\<lambda>c. \<not> isspace_c c) s"

definition valid_hostname_char :: "bool \<Rightarrow> char \<Rightarrow> bool" where
  "valid_hostname_char underscore c \<longleftrightarrow>
     (let n = of_char c :: nat
      in 65 \<le> n \<and> n \<le> 90 \<or> 97 \<le> n \<and> n \<le> 122 \<or> 48 \<le> n \<and> n \<le> 57 \<or> c = CHR ''-'' \<or> c = CHR ''.'' \<or>
         underscore \<and> c = CHR ''_'')"

text \<open>
  \<^verbatim>\<open>strncat\<close> of the default domain; the room is computed in \<^verbatim>\<open>size_t\<close> and wraps around for a host
  that is longer than \<^verbatim>\<open>SQUIDHOSTNAMELEN - 1\<close>.
\<close>

definition append_domain :: "url_config \<Rightarrow> string \<Rightarrow> string" where
  "append_domain cfg host =
     (case appendDomain cfg of
        None \<Rightarrow> host
      | Some d \<Rightarrow>
          if CHR ''.'' \<in> set host then host
          else if length host \<le> SQUIDHOSTNAMELEN - 1 then host @ take (SQUIDHOSTNAMELEN - length host - 1) d
          else host @ d)"

definition trim_trailing_dots :: "string \<Rightarrow> string" where
  "trim_trailing_dots host = rev (dropWhile (\<lambda>c. c = CHR ''.'') (rev host))"

text \<open>The checks of the host name; \<^term>\<open>None\<close> when the URL is rejected.\<close>

definition normal_host :: "url_config \<Rightarrow> string \<Rightarrow> string option" where
  "normal_host cfg host =
     (let host = map tolower host;
          host = (if stringHasWhitespace host \<and> uri_whitespace cfg = URI_WHITESPACE_STRIP then strip_whitespace host else host)
      in if check_hostnames cfg \<and> \<not> list_all (valid_hostname_char (allow_underscore cfg)) host then None
         else let host = trim_trailing_dots (append_domain cfg host)
              in if strstr host ''..'' \<noteq> None \<or> (host \<noteq> [] \<and> hd host = CHR ''.'') then None else Some host)"

definition normal_path :: "url_config \<Rightarrow> escape_state \<Rightarrow> string \<Rightarrow> (escape_state \<times> string option) option" where
  "normal_path cfg esc urlpath =
     (if \<not> stringHasWhitespace urlpath then Some (esc, Some urlpath)
      else (case uri_whitespace cfg of
          URI_WHITESPACE_DENY \<Rightarrow> Some (esc, None)
        | URI_WHITESPACE_ALLOW \<Rightarrow> Some (esc, Some urlpath)
        | URI_WHITESPACE_ENCODE \<Rightarrow>
            map_option (\<lambda>(esc, t). (esc, Some (take (MAX_URL - 1) t))) (rfc1738_escape_unescaped urlpath esc)
        | URI_WHITESPACE_CHOP \<Rightarrow> Some (esc, Some (takeWhile (\<lambda>c. c \<notin> w_space) urlpath))
        | URI_WHITESPACE_STRIP \<Rightarrow> Some (esc, Some (strip_whitespace urlpath))))"

definition finish_parse ::
  "url_config \<Rightarrow> escape_state \<Rightarrow> nat \<Rightarrow> protocol_t \<Rightarrow> string \<Rightarrow> string \<Rightarrow> int \<Rightarrow> string \<Rightarrow> (escape_state \<times> url_request option) option" where
  "finish_parse cfg esc meth protocol login host port urlpath =
     (case normal_host cfg host of
        None \<Rightarrow> Some (esc, None)
      | Some host \<Rightarrow>
          if port < 1 \<or> port > 65535 then Some (esc, None)
          else map_option (\<lambda>(esc, p). (esc, map_option (\<lambda>p.
                 \<lparr>u_method = meth, u_protocol = protocol, u_login = take (MAX_LOGIN_SZ - 1) login,
                  u_host = take (SQUIDHOSTNAMELEN - 1) host, u_port = port, u_path = p\<rparr>) p))
               (normal_path cfg esc urlpath))"

definition urnParse :: "nat \<Rightarrow> string \<Rightarrow> url_request" where
  "urnParse meth urn = \<lparr>u_method = meth, u_protocol = PROTO_URN, u_login = [], u_host = [], u_port = 0, u_path = drop 4 urn\<rparr>"

text \<open>
  The outer \<^term>\<open>None\<close> is an overflow of the escaping buffer, which theory \<open>Rfc1738\<close> excludes; the
  inner one a URL that is rejected.
\<close>

definition urlParse :: "url_config \<Rightarrow> escape_state \<Rightarrow> nat \<Rightarrow> string \<Rightarrow> (escape_state \<times> url_request option) option" where
  "urlParse cfg esc meth url =
     (if length url + (case appendDomain cfg of None \<Rightarrow> 0 | Some d \<Rightarrow> length d) > MAX_URL - 1 then Some (esc, None)
      else if meth = METHOD_CONNECT
      then (case parse_connect url of
              None \<Rightarrow> Some (esc, None)
            | Some (host, port) \<Rightarrow> finish_parse cfg esc meth PROTO_NONE [] host port [])
      else if prefix ''urn:'' url then Some (esc, Some (urnParse meth url))
      else (case split_url url of
              None \<Rightarrow> Some (esc, None)
            | Some (proto, host, urlpath) \<Rightarrow>
                let protocol = urlParseProtocol proto;
                    (login, host) = split_login host;
                    (host, port) = split_port host (urlDefaultPort protocol)
                in finish_parse cfg esc meth protocol login host port urlpath))"

section \<open>Canonical URLs\<close>

definition port_text :: "url_request \<Rightarrow> string" where
  "port_text r = (if u_port r \<noteq> urlDefaultPort (u_protocol r) then '':'' @ show_int (u_port r) else [])"

definition urlCanonical :: "url_request \<Rightarrow> string" where
  "urlCanonical r = take (MAX_URL - 1)
     (if u_protocol r = PROTO_URN then ''urn:'' @ u_path r
      else if u_method r = METHOD_CONNECT then u_host r @ '':'' @ show_int (u_port r)
      else ProtocolStr (u_protocol r) @ ''://'' @ u_login r @ (if u_login r \<noteq> [] then ''@'' else []) @
           u_host r @ port_text r @ u_path r)"

definition urlCanonicalClean :: "url_config \<Rightarrow> escape_state \<Rightarrow> url_request \<Rightarrow> (escape_state \<times> string) option" where
  "urlCanonicalClean cfg esc r =
     (let buf =
        (if u_protocol r = PROTO_URN then take (MAX_URL - 1) (''urn:'' @ u_path r)
         else if u_method r = METHOD_CONNECT then take (MAX_URL - 1) (u_host r @ '':'' @ show_int (u_port r))
         else let loginbuf = (if u_login r \<noteq> [] then takeWhile (\<lambda>c. c \<noteq> CHR '':'') (u_login r) @ ''@'' else []);
                  buf = take (MAX_URL - 1) (ProtocolStr (u_protocol r) @ ''://'' @ loginbuf @ u_host r @ port_text r @ u_path r)
              in if strip_query_terms cfg \<and> CHR ''?'' \<in> set buf
                 then takeWhile (\<lambda>c. c \<noteq> CHR ''?'') buf @ ''?'' else buf)
      in if stringHasCntl buf
         then map_option (\<lambda>(esc, t). (esc, take (MAX_URL - 1) t)) (rfc1738_escape_unescaped buf esc)
         else Some (esc, buf))"

section \<open>Domains\<close>

text \<open>
  \<^verbatim>\<open>matchDomainName\<close>. The loop runs from the ends of the strings to the front: \<open>hl\<close> and \<open>dl\<close> are the
  indices after the decrements, so that an index below zero is a read in front of the string.
\<close>

function match_loop :: "string \<Rightarrow> string \<Rightarrow> nat \<Rightarrow> nat \<Rightarrow> int res" where
  "match_loop h d hl dl =
     (if hl = 0 \<or> dl = 0 then Inl OutOfBounds
      else let hc = h ! (hl - 1); dc = d ! (dl - 1)
           in if tolower hc = tolower dc
              then if hl = 1 \<and> dl = 1 then Inr 0
                   else if hl = 1 then Inr (if dl = 2 \<and> d ! 0 = CHR ''.'' then 0 else - 1)
                   else if dl = 1 then Inr (if d ! 0 = CHR ''.'' then 0 else 1)
                   else match_loop h d (hl - 1) (dl - 1)
              else if dc = CHR ''.'' then Inr 1
              else if hc = CHR ''.'' then Inr (- 1)
              else Inr (of_char (tolower hc) - of_char (tolower dc)))"
  by pat_completeness auto
termination by (relation "measure (\<lambda>(h, d, hl, dl). hl)") auto

declare match_loop.simps [simp del]

definition matchDomainName :: "string \<Rightarrow> string \<Rightarrow> int res" where
  "matchDomainName h d =
     (let h = dropWhile (\<lambda>c. c = CHR ''.'') h in match_loop h d (length h) (length d))"

section \<open>Requests\<close>

definition urlCheckRequest :: "url_request \<Rightarrow> bool" where
  "urlCheckRequest r \<longleftrightarrow>
     (if u_method r = METHOD_CONNECT \<or> u_method r = METHOD_TRACE \<or> u_method r = METHOD_PURGE then True
      else (case u_protocol r of
          PROTO_URN \<Rightarrow> True
        | PROTO_HTTP \<Rightarrow> True
        | PROTO_INTERNAL \<Rightarrow> True
        | PROTO_CACHEOBJ \<Rightarrow> True
        | PROTO_FTP \<Rightarrow> u_method r = METHOD_PUT \<or> u_method r = METHOD_GET \<or> u_method r = METHOD_HEAD
        | PROTO_GOPHER \<Rightarrow> u_method r = METHOD_GET \<or> u_method r = METHOD_HEAD
        | PROTO_WAIS \<Rightarrow> u_method r = METHOD_GET \<or> u_method r = METHOD_HEAD
        | PROTO_WHOIS \<Rightarrow> u_method r = METHOD_GET \<or> u_method r = METHOD_HEAD
        | _ \<Rightarrow> False))"

definition urlHostname :: "string \<Rightarrow> string option" where
  "urlHostname url =
     (let t = dropWhile (\<lambda>c. c \<noteq> CHR '':'') url
      in if t = [] then None
         else let host = take (SQUIDHOSTNAMELEN - 1) (dropWhile (\<lambda>c. c = CHR ''/'') (tl t));
                  host = takeWhile (\<lambda>c. c \<noteq> CHR ''/'') host;
                  host = takeWhile (\<lambda>c. c \<noteq> CHR '':'') host
              in Some (case strrchr_split (CHR ''@'') host of None \<Rightarrow> host | Some (_, h) \<Rightarrow> h))"

end
