(* ===== verification/Url_Correct.thy ===== *)
theory Url_Correct
  imports Url
begin

text \<open>
  Correctness of the URL functions: what a parsed request looks like, that the canonical URL of
  a request is parsed back to the request, that the domain comparison decides the relation its
  comment tabulates, and that an extension method is recognised after it was added.
\<close>

section \<open>Characters\<close>

lemma eq_char_of: "c = char_of (n :: nat) \<longleftrightarrow> take_bit 8 n = of_char c"
  by (metis char_of_eq_iff)

lemma tolower_cases: "tolower c = c \<or> (97 \<le> (of_char (tolower c) :: nat) \<and> (of_char (tolower c) :: nat) \<le> 122 \<and> 65 \<le> (of_char c :: nat) \<and> (of_char c :: nat) \<le> 90)"
  by (auto simp: tolower_def)

lemma tolower_idem [simp]: "tolower (tolower c) = tolower c"
  using tolower_cases [of c] by (auto simp: tolower_def)

lemma tolower_eq_iff:
  assumes "\<not> (65 \<le> (of_char x :: nat) \<and> (of_char x :: nat) \<le> 90)" "\<not> (97 \<le> (of_char x :: nat) \<and> (of_char x :: nat) \<le> 122)"
  shows "tolower c = x \<longleftrightarrow> c = x"
  using assms tolower_cases [of c] by (auto simp: tolower_def)

lemma tolower_dot [simp]: "tolower c = CHR ''.'' \<longleftrightarrow> c = CHR ''.''"
  by (rule tolower_eq_iff) simp_all

section \<open>Matching of domains\<close>

text \<open>
  A host matches a domain if they are equal, or if the domain begins with a dot and the host is
  the domain without the dot or ends with the domain. Case does not matter.
\<close>

definition domain_matches :: "string \<Rightarrow> string \<Rightarrow> bool" where
  "domain_matches h d \<longleftrightarrow>
     map tolower h = map tolower d \<or>
     (d \<noteq> [] \<and> hd d = CHR ''.'' \<and> (map tolower h = map tolower (tl d) \<or> suffix (map tolower d) (map tolower h)))"

lemma take_snoc: "0 < n \<Longrightarrow> n \<le> length xs \<Longrightarrow> take n xs = take (n - 1) xs @ [xs ! (n - 1)]"
  by (metis Suc_diff_1 Suc_le_lessD take_Suc_conv_app_nth)

lemma domain_matches_snoc:
  assumes "h \<noteq> []" "d \<noteq> []"
  shows "domain_matches (h @ [x]) (d @ [y]) \<longleftrightarrow> tolower x = tolower y \<and> domain_matches h d"
proof -
  have "hd (d @ [y]) = hd d" "tl (d @ [y]) = tl d @ [y]" using assms(2) by simp_all
  moreover have "suffix (map tolower (d @ [y])) (map tolower (h @ [x])) \<longleftrightarrow> tolower x = tolower y \<and> suffix (map tolower d) (map tolower h)"
    by (auto simp: suffix_def)
  ultimately show ?thesis using assms unfolding domain_matches_def by auto
qed

lemma domain_matches_short_host: "domain_matches [x] (D @ [y]) \<longleftrightarrow> tolower x = tolower y \<and> (D = [] \<or> D = ''.'')"
proof (cases D)
  case Nil
  then show ?thesis by (auto simp: domain_matches_def suffix_def Cons_eq_append_conv)
next
  case (Cons a D')
  have "\<not> suffix (map tolower (D @ [y])) (map tolower [x])" using Cons by (auto simp: suffix_def Cons_eq_append_conv)
  then show ?thesis using Cons unfolding domain_matches_def by (cases D') auto
qed

lemma domain_matches_short_domain: "H \<noteq> [] \<Longrightarrow> domain_matches (H @ [x]) [y] \<longleftrightarrow> tolower x = tolower y \<and> y = CHR ''.''"
  by (auto simp: domain_matches_def suffix_def)

lemma match_loop_iff:
  assumes "0 < hl" "0 < dl" "hl \<le> length h" "dl \<le> length d"
  shows "\<exists>r. match_loop h d hl dl = Inr r \<and> (r = 0 \<longleftrightarrow> domain_matches (take hl h) (take dl d))"
  using assms
proof (induction h d hl dl rule: match_loop.induct)
  case (1 h d hl dl)
  let ?x = "h ! (hl - 1)" and ?y = "d ! (dl - 1)"
  have th: "take hl h = take (hl - 1) h @ [?x]" and td: "take dl d = take (dl - 1) d @ [?y]"
    using 1(2-5) take_snoc by blast+
  show ?case
  proof (cases "hl = 1 \<or> dl = 1")
    case True
    have diff: "tolower ?x \<noteq> tolower ?y \<Longrightarrow> of_char (tolower ?x) - of_char (tolower ?y) \<noteq> (0 :: int)" by simp
    show ?thesis
    proof (cases "hl = 1")
      case hl: True
      have len: "length (take (dl - 1) d) = dl - 1" using 1(3,5) by simp
      have "take (dl - 1) d = ''.'' \<longleftrightarrow> dl = 2 \<and> d ! 0 = CHR ''.''"
        using 1(3,5) by (cases d; cases "tl d"; cases "dl - 1") (auto simp: take_Cons' split: if_splits)
      moreover have "take (dl - 1) d = [] \<longleftrightarrow> dl = 1" using 1(3,5) by auto
      ultimately show ?thesis using diff hl 1(2,3) domain_matches_short_host [of ?x "take (dl - 1) d" ?y] unfolding th td
        by (subst match_loop.simps) (auto simp: Let_def)
    next
      case hl: False
      then have dl: "dl = 1" and ne: "take (hl - 1) h \<noteq> []" using True 1(2,4) by auto
      then show ?thesis using diff hl 1(2,3) domain_matches_short_domain [OF ne, of ?x ?y] unfolding th td
        by (subst match_loop.simps) (auto simp: Let_def)
    qed
  next
    case False
    then have ne: "take (hl - 1) h \<noteq> []" "take (dl - 1) d \<noteq> []" using 1(2-5) by auto
    show ?thesis
    proof (cases "tolower ?x = tolower ?y")
      case True
      have step: "match_loop h d hl dl = match_loop h d (hl - 1) (dl - 1)"
        using True False 1(2,3) by (subst match_loop.simps) (simp add: Let_def)
      have "0 < hl - 1" "0 < dl - 1" "hl - 1 \<le> length h" "dl - 1 \<le> length d" using False 1(2-5) by auto
      then have "\<exists>r. match_loop h d (hl - 1) (dl - 1) = Inr r \<and> (r = 0 \<longleftrightarrow> domain_matches (take (hl - 1) h) (take (dl - 1) d))"
        using "1.IH" [OF _ refl refl True] False 1(2,3) by blast
      then show ?thesis using True unfolding step th td domain_matches_snoc [OF ne] by blast
    next
      case neq: False
      have "of_char (tolower ?x) - of_char (tolower ?y) \<noteq> (0 :: int)" using neq by simp
      then show ?thesis using neq False 1(2,3) unfolding th td domain_matches_snoc [OF ne]
        by (subst match_loop.simps) (auto simp: Let_def)
    qed
  qed
qed

section \<open>What a parsed request looks like\<close>

lemma strstr_sublist: "strstr s p \<noteq> None \<longleftrightarrow> sublist p s"
  by (induction s) (auto simp: sublist_Cons_right)

lemma trim_trailing_dots_set: "set (trim_trailing_dots host) \<subseteq> set host"
  by (auto simp: trim_trailing_dots_def dest: set_dropWhileD)

definition lower_domain :: "url_config \<Rightarrow> bool" where
  "lower_domain cfg \<longleftrightarrow> (\<forall>d. appendDomain cfg = Some d \<longrightarrow> map tolower d = d)"

lemma append_domain_lower:
  assumes "lower_domain cfg" "\<forall>c \<in> set host. tolower c = c"
  shows "\<forall>c \<in> set (append_domain cfg host). tolower c = c"
proof -
  have "\<forall>c \<in> set d. tolower c = c" if "appendDomain cfg = Some d" for d
    using assms(1) that unfolding lower_domain_def by (metis in_set_conv_nth length_map nth_map)
  then show ?thesis using assms(2) by (auto simp: append_domain_def split: option.splits dest: in_set_takeD)
qed

lemma normal_host_ok:
  assumes "normal_host cfg host = Some h"
  shows "\<not> sublist ''..'' h" "h = [] \<or> hd h \<noteq> CHR ''.''" "lower_domain cfg \<Longrightarrow> \<forall>c \<in> set h. tolower c = c"
proof -
  let ?l = "map tolower host"
  let ?s = "if stringHasWhitespace ?l \<and> uri_whitespace cfg = URI_WHITESPACE_STRIP then strip_whitespace ?l else ?l"
  have h: "h = trim_trailing_dots (append_domain cfg ?s)" "strstr h ''..'' = None" "h = [] \<or> hd h \<noteq> CHR ''.''"
    using assms by (auto simp: normal_host_def Let_def split: if_splits)
  show "\<not> sublist ''..'' h" "h = [] \<or> hd h \<noteq> CHR ''.''" using h(2,3) strstr_sublist [of h "''..''"] by auto
  assume "lower_domain cfg"
  moreover have "\<forall>c \<in> set ?s. tolower c = c" by (auto simp: strip_whitespace_def)
  ultimately have "\<forall>c \<in> set (append_domain cfg ?s). tolower c = c" by (rule append_domain_lower)
  then show "\<forall>c \<in> set h. tolower c = c" using trim_trailing_dots_set unfolding h(1) by blast
qed

definition request_ok :: "url_request \<Rightarrow> bool" where
  "request_ok r \<longleftrightarrow> 1 \<le> u_port r \<and> u_port r \<le> 65535 \<and> length (u_host r) < SQUIDHOSTNAMELEN \<and> length (u_login r) < MAX_LOGIN_SZ \<and>
     \<not> sublist ''..'' (u_host r) \<and> (u_host r = [] \<or> hd (u_host r) \<noteq> CHR ''.'') \<and> map tolower (u_host r) = u_host r"

lemma finish_parse_ok:
  assumes "finish_parse cfg esc meth protocol login host port urlpath = Some (esc', Some r)" "lower_domain cfg"
  shows "request_ok r \<and> u_method r = meth \<and> u_protocol r = protocol"
proof -
  obtain h p where h: "normal_host cfg host = Some h" "1 \<le> port" "port \<le> 65535"
    and r: "r = \<lparr>u_method = meth, u_protocol = protocol, u_login = take (MAX_LOGIN_SZ - 1) login,
      u_host = take (SQUIDHOSTNAMELEN - 1) h, u_port = port, u_path = p\<rparr>"
    using assms(1) by (auto simp: finish_parse_def split: option.splits if_splits)
  note n = normal_host_ok [OF h(1)]
  have "\<not> sublist ''..'' (take (SQUIDHOSTNAMELEN - 1) h)"
    using n(1) by (meson prefix_imp_sublist sublist_order.order.trans take_is_prefix)
  moreover have "take (SQUIDHOSTNAMELEN - 1) h = [] \<or> hd (take (SQUIDHOSTNAMELEN - 1) h) \<noteq> CHR ''.''"
    using n(2) by (cases h) (auto simp: SQUIDHOSTNAMELEN_def)
  moreover have "map tolower (take (SQUIDHOSTNAMELEN - 1) h) = take (SQUIDHOSTNAMELEN - 1) h"
    using n(3) [OF assms(2)] by (auto intro!: map_idI dest: in_set_takeD)
  moreover have "length (take (SQUIDHOSTNAMELEN - 1) h) < SQUIDHOSTNAMELEN" "length (take (MAX_LOGIN_SZ - 1) login) < MAX_LOGIN_SZ"
    by (auto simp: SQUIDHOSTNAMELEN_def MAX_LOGIN_SZ_def)
  ultimately show ?thesis using h(2,3) unfolding r request_ok_def by simp
qed

lemma urlParse_ok:
  assumes "urlParse cfg esc meth url = Some (esc', Some r)" "lower_domain cfg" "\<not> prefix ''urn:'' url"
  shows "request_ok r \<and> u_method r = meth"
  using assms finish_parse_ok [OF _ assms(2), of esc meth _ _ _ _ _ esc' r]
  by (fastforce simp: urlParse_def Let_def split: if_splits option.splits prod.splits)

section \<open>Canonical URLs are parsed back\<close>

lemma strrchr_None: "c \<notin> set s \<Longrightarrow> strrchr_split c s = None"
  by (induction s) auto

lemma strrchr_last: "c \<notin> set b \<Longrightarrow> strrchr_split c (a @ c # b) = Some (a, b)"
  by (induction a) (auto simp: strrchr_None)

text \<open>A request as \<^verbatim>\<open>urlParse\<close> produces it from a URL without white space.\<close>

definition plain_request :: "url_config \<Rightarrow> url_request \<Rightarrow> bool" where
  "plain_request cfg r \<longleftrightarrow>
     u_method r \<noteq> METHOD_CONNECT \<and> u_protocol r \<noteq> PROTO_URN \<and> urlParseProtocol (ProtocolStr (u_protocol r)) = u_protocol r \<and>
     length (u_login r) < MAX_LOGIN_SZ \<and> CHR ''/'' \<notin> set (u_login r) \<and>
     length (u_host r) < SQUIDHOSTNAMELEN \<and> normal_host cfg (u_host r) = Some (u_host r) \<and>
     set (u_host r) \<inter> {CHR ''/'', CHR '':'', CHR ''@''} = {} \<and> 1 \<le> u_port r \<and> u_port r \<le> 65535 \<and>
     u_path r \<noteq> [] \<and> hd (u_path r) = CHR ''/'' \<and> \<not> stringHasWhitespace (u_path r) \<and>
     length (urlCanonical r) + (case appendDomain cfg of None \<Rightarrow> 0 | Some d \<Rightarrow> length d) < MAX_URL \<and>
     length (urlCanonical r) < MAX_URL - 1"

lemma atoi_show: "1 \<le> p \<Longrightarrow> p \<le> 65535 \<Longrightarrow> atoi (show_int p) = p"
  using strtoll_show_nat [of "[]" "nat p"] by (simp add: atoi_def show_int_def trunc32_id)

lemma protocol_chars: "CHR '':'' \<notin> set (ProtocolStr p)" "\<not> prefix ''urn:'' (ProtocolStr p @ s)" if "p \<noteq> PROTO_URN"
  using that by (cases p; simp)+

lemma split_url_canonical:
  assumes "CHR '':'' \<notin> set proto" "CHR ''/'' \<notin> set host" "p \<noteq> []" "hd p = CHR ''/''" "\<not> stringHasWhitespace p"
  shows "split_url (proto @ ''://'' @ host @ p) = Some (proto, host, p)"
proof -
  have "takeWhile (\<lambda>c. c \<noteq> CHR '':'') (proto @ ''://'' @ host @ p) = proto"
    "dropWhile (\<lambda>c. c \<noteq> CHR '':'') (proto @ ''://'' @ host @ p) = ''://'' @ host @ p"
    using assms(1) by (auto simp: takeWhile_append dropWhile_append)
  moreover obtain p' where p: "p = CHR ''/'' # p'" using assms(3,4) by (cases p) auto
  then have "takeWhile (\<lambda>c. c \<noteq> CHR ''/'') (host @ p) = host" "dropWhile (\<lambda>c. c \<noteq> CHR ''/'') (host @ p) = p"
    using assms(2) by (auto simp: takeWhile_append dropWhile_append)
  moreover have "takeWhile (\<lambda>c. c \<noteq> CHR 0x0D \<and> c \<noteq> CHR 0x0A) p = p"
    using assms(5) by (auto simp: takeWhile_eq_all_conv stringHasWhitespace_def w_space_def list_ex_iff)
  ultimately show ?thesis using assms(3) by (simp add: split_url_def Let_def del: takeWhile_eq_all_conv)
qed

lemma canonical_round_trip:
  assumes "plain_request cfg r"
  shows "urlParse cfg esc (u_method r) (urlCanonical r) = Some (esc, Some r)"
proof -
  let ?hp = "u_host r @ port_text r"
  let ?auth = "u_login r @ (if u_login r \<noteq> [] then ''@'' else []) @ ?hp"
  let ?url = "ProtocolStr (u_protocol r) @ ''://'' @ ?auth @ u_path r"
  note P = assms [unfolded plain_request_def]
  have url: "urlCanonical r = ?url"
  proof -
    have "urlCanonical r = take (MAX_URL - 1) ?url" using P by (simp add: urlCanonical_def)
    moreover have "length (urlCanonical r) < MAX_URL - 1" using P by blast
    ultimately show ?thesis by (simp only: length_take min_less_iff_conj less_irrefl take_all_iff)
  qed
  have digits: "\<forall>c \<in> set (show_int (u_port r)). isdigit_c c" using P show_nat_digits by (simp add: show_int_def)
  have pt: "c \<in> set (port_text r) \<Longrightarrow> c = CHR '':'' \<or> isdigit_c c" for c using digits by (auto simp: port_text_def split: if_splits)
  have "CHR ''/'' \<notin> set ?auth" "CHR ''@'' \<notin> set ?hp"
    using P pt [of "CHR ''/''"] pt [of "CHR ''@''"] by (auto simp: isdigit_c_def)
  then have split: "split_url ?url = Some (ProtocolStr (u_protocol r), ?auth, u_path r)" "split_login ?auth = (u_login r, ?hp)"
    using split_url_canonical [of "ProtocolStr (u_protocol r)" ?auth "u_path r"] protocol_chars(1) P
      strrchr_last [of "CHR ''@''" ?hp "u_login r"] strrchr_None [of "CHR ''@''" ?hp]
    by (auto simp: split_login_def)
  have port: "split_port ?hp (urlDefaultPort (u_protocol r)) = (u_host r, u_port r)"
  proof (cases "u_port r = urlDefaultPort (u_protocol r)")
    case True
    then show ?thesis using P strrchr_None [of "CHR '':''" "u_host r"] by (auto simp: port_text_def split_port_def)
  next
    case False
    have "CHR '':'' \<notin> set (show_int (u_port r))" using digits by (auto simp: isdigit_c_def)
    then show ?thesis using False P strrchr_last [of "CHR '':''" "show_int (u_port r)" "u_host r"] atoi_show
      by (auto simp: port_text_def split_port_def show_int_def show_nat_not_Nil)
  qed
  have fin: "finish_parse cfg esc (u_method r) (u_protocol r) (u_login r) (u_host r) (u_port r) (u_path r) = Some (esc, Some r)"
  proof -
    have "take (MAX_LOGIN_SZ - 1) (u_login r) = u_login r" "take (SQUIDHOSTNAMELEN - 1) (u_host r) = u_host r"
      using P by (auto simp: SQUIDHOSTNAMELEN_def MAX_LOGIN_SZ_def)
    then show ?thesis using P by (cases r) (simp add: finish_parse_def normal_path_def)
  qed
  have "\<not> prefix ''urn:'' ?url" using protocol_chars(2) P by blast
  moreover have "length ?url + (case appendDomain cfg of None \<Rightarrow> 0 | Some d \<Rightarrow> length d) \<le> MAX_URL - 1"
    using P unfolding url MAX_URL_def by linarith
  ultimately show ?thesis unfolding url using P split port fin by (simp add: urlParse_def del: append_assoc)
qed

section \<open>Extension methods\<close>

text \<open>The first free slot gets the name, unless the name is in the table before it.\<close>

lemma find_past: "find P xs = None \<Longrightarrow> find P (xs @ ys) = find P ys"
  by (induction xs) (auto split: if_splits)

lemma ext_add_first:
  assumes "\<forall>m \<in> set ms. tab ! m \<noteq> mstr \<and> \<not> prefix ''%EXT'' (tab ! m)" "prefix ''%EXT'' (tab ! i)" "tab ! i \<noteq> mstr"
  shows "ext_add_loop mstr (ms @ i # ns) tab = tab[i := mstr]"
  using assms by (induction ms) auto

lemma ext_method_found:
  assumes "i \<in> {1..<METHOD_ENUM_END}" "METHOD_ENUM_END \<le> length tab" "prefix ''%EXT'' (tab ! i)"
    "\<forall>m \<in> {1..<i}. \<not> strcaseeq mstr (tab ! m) \<and> \<not> prefix ''%EXT'' (tab ! m)" "mstr \<noteq> []" "hd mstr \<noteq> CHR ''%''"
  shows "urlExtMethodAdd mstr tab = tab[i := mstr]" "urlParseMethod (urlExtMethodAdd mstr tab) mstr = i"
proof -
  have split: "[1..<METHOD_ENUM_END] = [1..<i] @ i # [Suc i..<METHOD_ENUM_END]"
    using assms(1) by (metis atLeastLessThan_iff less_imp_le_nat upt_add_eq_append upt_conv_Cons le_add_diff_inverse)
  have "tab ! i \<noteq> mstr" using assms(3,6) by (cases mstr) auto
  moreover have "\<forall>m \<in> set [1..<i]. tab ! m \<noteq> mstr \<and> \<not> prefix ''%EXT'' (tab ! m)" using assms(4) by (auto simp: strcaseeq_def)
  ultimately show add: "urlExtMethodAdd mstr tab = tab[i := mstr]"
    using ext_add_first assms(3) unfolding urlExtMethodAdd_def split by blast
  have "find (\<lambda>m. strcaseeq mstr (tab[i := mstr] ! m)) ([1..<i] @ i # ns) = Some i" for ns
  proof -
    have "find (\<lambda>m. strcaseeq mstr (tab[i := mstr] ! m)) [1..<i] = None" using assms(4) by (auto simp: find_None_iff)
    then show ?thesis using assms(1,2) by (simp add: find_past strcaseeq_def)
  qed
  then show "urlParseMethod (urlExtMethodAdd mstr tab) mstr = i" unfolding add urlParseMethod_def split using assms(6) by simp
qed

section \<open>Properties\<close>

text \<open>
  C30. What \<^verbatim>\<open>urlParse\<close> guarantees of a request: a port from 1 to 65535, a host name that fits its
  array, is in lower case and has neither a leading dot nor two dots in a row, and a login that
  fits its array. This holds for every URL that is not a URN and every method, provided the
  configured default domain is in lower case.
\<close>

theorem urlParse_well_formed:
  assumes "urlParse cfg esc meth url = Some (esc', Some r)" "lower_domain cfg" "\<not> prefix ''urn:'' url"
  shows "request_ok r \<and> u_method r = meth"
  using assms by (rule urlParse_ok)

text \<open>
  C29. The canonical URL names its request: parsing the URL that \<^verbatim>\<open>urlCanonical\<close> prints for a request
  gives the request back, with login, host, port and path; so two such requests with the same method and the same canonical
  URL are the same. This is for the requests that \<^const>\<open>plain_request\<close> describes: no \<^verbatim>\<open>CONNECT\<close> and no URN, a protocol that
  is parsed from its own name (not \<^verbatim>\<open>NONE\<close>, \<^verbatim>\<open>ICP\<close> or \<^verbatim>\<open>HTCP\<close>), a host in the form the parser leaves, without slash, colon and
  at sign, a login without slash, both within their buffers, a port from 1 to 65535, a path that
  starts with a slash and has no white space, and a URL below \<^const>\<open>MAX_URL\<close>.
\<close>

theorem urlCanonical_round_trip:
  assumes "plain_request cfg r"
  shows "urlParse cfg esc (u_method r) (urlCanonical r) = Some (esc, Some r) \<and>
    (\<forall>r'. plain_request cfg r' \<and> u_method r' = u_method r \<and> urlCanonical r' = urlCanonical r \<longrightarrow> r' = r)"
  using canonical_round_trip [OF assms] canonical_round_trip by (metis option.inject prod.inject)

text \<open>
  \<^verbatim>\<open>matchDomainName\<close> returns 0 exactly for the pairs of its table: the host, without its leading
  dots, equals the domain, or the domain begins with a dot and the host is the rest of the
  domain or ends with the domain. Case is ignored; the loop stays inside both strings.
\<close>

theorem matchDomainName_decides:
  assumes "dropWhile (\<lambda>c. c = CHR ''.'') h \<noteq> []" "d \<noteq> []"
  shows "\<exists>r. matchDomainName h d = Inr r \<and> (r = 0 \<longleftrightarrow> domain_matches (dropWhile (\<lambda>c. c = CHR ''.'') h) d)"
  using match_loop_iff [of "length (dropWhile (\<lambda>c. c = CHR ''.'') h)" "length d" "dropWhile (\<lambda>c. c = CHR ''.'') h" d] assms
  by (simp add: matchDomainName_def Let_def)

text \<open>
  A host name that is empty or consists of dots makes \<^verbatim>\<open>matchDomainName\<close> read in front of the
  string: it decrements the length of the host before the first comparison.
\<close>

theorem matchDomainName_empty_host:
  assumes "set h \<subseteq> {CHR ''.''}"
  shows "matchDomainName h d = Inl OutOfBounds"
proof -
  have "dropWhile (\<lambda>c. c = CHR ''.'') h = []" using assms by (induction h) auto
  then show ?thesis by (simp add: matchDomainName_def match_loop.simps)
qed

text \<open>
  An extension method is recognised once it is added: \<^verbatim>\<open>urlExtMethodAdd\<close> puts the name into the
  first free slot of the table, and \<^verbatim>\<open>urlParseMethod\<close> then returns the number of that slot for the name.
\<close>

theorem extension_method_recognised:
  assumes "i \<in> {1..<METHOD_ENUM_END}" "METHOD_ENUM_END \<le> length tab" "prefix ''%EXT'' (tab ! i)"
    "\<forall>m \<in> {1..<i}. \<not> strcaseeq mstr (tab ! m) \<and> \<not> prefix ''%EXT'' (tab ! m)" "mstr \<noteq> []" "hd mstr \<noteq> CHR ''%''"
  shows "urlExtMethodAdd mstr tab = tab[i := mstr] \<and> urlParseMethod (urlExtMethodAdd mstr tab) mstr = i"
  using ext_method_found [OF assms] by blast

section \<open>Examples\<close>

definition demo_cfg :: url_config where
  "demo_cfg = \<lparr>appendDomain = None, uri_whitespace = URI_WHITESPACE_STRIP, check_hostnames = True,
     allow_underscore = True, strip_query_terms = True\<rparr>"

definition demo_request :: url_request where
  "demo_request = \<lparr>u_method = 1, u_protocol = PROTO_HTTP, u_login = [], u_host = ''f.cn'', u_port = 8080, u_path = ''/a''\<rparr>"

lemma show_8080: "show_int 8080 = ''8080''"
  by (simp add: show_int_def show_nat.simps digit_char_def char_of_eq_iff)

lemma demo_canonical: "urlCanonical demo_request = ''http://f.cn:8080/a''"
  by (simp add: urlCanonical_def demo_request_def port_text_def show_8080 MAX_URL_def METHOD_CONNECT_def take_Cons')

lemma demo_plain: "plain_request demo_cfg demo_request"
  unfolding plain_request_def demo_canonical
  by (simp add: demo_request_def demo_cfg_def METHOD_CONNECT_def MAX_LOGIN_SZ_def SQUIDHOSTNAMELEN_def MAX_URL_def urlParseProtocol_def
      strcaseeq_def normal_host_def Let_def tolower_def valid_hostname_char_def append_domain_def trim_trailing_dots_def
      stringHasWhitespace_def w_space_def)

lemma demo_lower: "lower_domain demo_cfg"
  by (simp add: lower_domain_def demo_cfg_def)

theorem urlCanonical_round_trip_witness:
  "plain_request demo_cfg demo_request \<and> urlParse demo_cfg None 1 ''http://f.cn:8080/a'' = Some (None, Some demo_request)"
  using demo_plain urlCanonical_round_trip [OF demo_plain, of None] unfolding demo_canonical by (simp add: demo_request_def)

theorem urlParse_well_formed_witness:
  "urlParse demo_cfg None 1 ''http://f.cn:8080/a'' = Some (None, Some demo_request) \<and> request_ok demo_request"
proof -
  have p: "urlParse demo_cfg None 1 ''http://f.cn:8080/a'' = Some (None, Some demo_request)"
    using canonical_round_trip [OF demo_plain, of None] unfolding demo_canonical by (simp add: demo_request_def)
  moreover have "\<not> prefix ''urn:'' ''http://f.cn:8080/a''" by simp
  ultimately show ?thesis using urlParse_well_formed [OF p demo_lower] by simp
qed

theorem matchDomainName_decides_witness: "\<exists>r. matchDomainName ''.V.Youku.com'' ''.youku.COM'' = Inr r \<and> r = 0"
proof -
  have "domain_matches ''V.Youku.com'' ''.youku.COM''" by (simp add: domain_matches_def tolower_def suffix_Cons char_of_eq_iff eq_char_of)
  then show ?thesis using matchDomainName_decides [of "''.V.Youku.com''" "''.youku.COM''"] by simp
qed

theorem matchDomainName_empty_host_witness: "matchDomainName ''..'' ''.com'' = Inl OutOfBounds"
  using matchDomainName_empty_host [of "''..''" "''.com''"] by simp

theorem extension_method_recognised_witness:
  "RequestMethods ! 30 = ''%EXT00'' \<and> urlParseMethod (urlExtMethodAdd ''LINK'' RequestMethods) ''LINK'' = 30"
proof -
  have m: "{1..<30 :: nat} = {1, 2, 3, 4, 5, 6, 7, 8, 9, 10, 11, 12, 13, 14, 15, 16, 17, 18, 19, 20, 21, 22, 23, 24, 25, 26, 27, 28, 29}"
    by (auto simp: eval_nat_numeral less_Suc_eq)
  have "\<forall>m \<in> {1..<30}. \<not> strcaseeq ''LINK'' (RequestMethods ! m) \<and> \<not> prefix ''%EXT'' (RequestMethods ! m)"
    unfolding m by (simp add: RequestMethods_def strcaseeq_def tolower_def)
  moreover have slot: "RequestMethods ! 30 = ''%EXT00''" by (simp add: RequestMethods_def)
  moreover have "METHOD_ENUM_END \<le> length RequestMethods" "(30 :: nat) \<in> {1..<METHOD_ENUM_END}"
    by (simp_all add: RequestMethods_def METHOD_ENUM_END_def)
  ultimately show ?thesis using extension_method_recognised [of 30 RequestMethods "''LINK''"] by auto
qed

end
