(* ===== verification/Acl_Domain.thy ===== *)
theory Acl_Domain
  imports Acl_Tree Url_Correct "HOL-Library.List_Lexorder"
begin

text \<open>
  Access controls by domain, \<^verbatim>\<open>src/acl.c\<close>: the list of domains as a splay tree ordered by
  \<^verbatim>\<open>matchDomainName\<close>, which theory \<open>Url\<close> models. The comparison reads both names from the end, with
  the dot as the least character; a domain with a leading dot covers an interval of host names.
\<close>

section \<open>Lists of domains\<close>

definition aclHostDomainCompare :: "string \<Rightarrow> string \<Rightarrow> int res" where
  "aclHostDomainCompare h d = matchDomainName h d"

definition aclDomainCompare :: "string \<Rightarrow> string \<Rightarrow> int res" where
  "aclDomainCompare a b = both_ways (aclHostDomainCompare b a) (aclHostDomainCompare a b)"

fun aclParseDomainList :: "string list \<Rightarrow> string tree \<Rightarrow> string tree res" where
  "aclParseDomainList [] t = Inr t"
| "aclParseDomainList (tok # toks) t =
     res_bind (splay_insert aclDomainCompare (map tolower tok) t) (\<lambda>(_, t). aclParseDomainList toks t)"

definition aclMatchDomainList :: "string tree \<Rightarrow> string option \<Rightarrow> (bool \<times> string tree) res" where
  "aclMatchDomainList t host =
     (case host of
        None \<Rightarrow> Inr (False, t)
      | Some h \<Rightarrow> res_bind (splay_splay (aclHostDomainCompare h) t) (\<lambda>(res, t). Inr (res = 0, t)))"

section \<open>The order of the names\<close>

definition dkey :: "char \<Rightarrow> nat" where
  "dkey c = (if c = CHR ''.'' then 0 else Suc (of_char (tolower c)))"

definition rkey :: "string \<Rightarrow> nat list" where
  "rkey s = rev (map dkey s)"

definition core :: "string \<Rightarrow> string" where
  "core d = (if d \<noteq> [] \<and> hd d = CHR ''.'' then tl d else d)"

definition beyond_domain :: "string \<Rightarrow> nat list \<Rightarrow> bool" where
  "beyond_domain d x \<longleftrightarrow> rkey (core d) < x \<and> (d \<noteq> [] \<and> hd d = CHR ''.'' \<longrightarrow> \<not> prefix (rkey (core d) @ [0]) x)"

lemma rkey_snoc [simp]: "rkey (s @ [c]) = dkey c # rkey s"
  by (simp add: rkey_def)

lemma rkey_Nil [simp]: "rkey [] = []"
  by (simp add: rkey_def)

lemma core_snoc: "d \<noteq> [] \<Longrightarrow> core (d @ [y]) = core d @ [y]"
  by (simp add: core_def)

lemma dkey_eq: "dkey a = dkey b \<longleftrightarrow> tolower a = tolower b"
  using tolower_dot [of a] tolower_dot [of b] by (auto simp: dkey_def simp del: tolower_dot)

lemma dkey_zero: "dkey a = 0 \<longleftrightarrow> a = CHR ''.''"
  by (simp add: dkey_def)

text \<open>Between a name and one of its subdomains there are only subdomains.\<close>

lemma between_subdomains: "(l :: nat list) < x \<Longrightarrow> x \<le> l @ 0 # z \<Longrightarrow> prefix (l @ [0]) x"
proof (induction l arbitrary: x)
  case Nil
  then show ?case by (cases x) auto
next
  case (Cons a l)
  then show ?case by (cases x) auto
qed

lemma beyond_domain_mono: "beyond_domain d x \<Longrightarrow> x \<le> y \<Longrightarrow> beyond_domain d y"
proof -
  assume "beyond_domain d x" "x \<le> y"
  then have x: "rkey (core d) < x" "d \<noteq> [] \<and> hd d = CHR ''.'' \<longrightarrow> \<not> prefix (rkey (core d) @ [0]) x" by (simp_all add: beyond_domain_def)
  have "prefix (rkey (core d) @ [0]) x" if pre: "prefix (rkey (core d) @ [0]) y"
  proof -
    obtain z where "y = rkey (core d) @ 0 # z" using pre by (auto simp: prefix_def)
    then show ?thesis using between_subdomains [OF x(1)] \<open>x \<le> y\<close> by simp
  qed
  moreover have "rkey (core d) < y" using x(1) \<open>x \<le> y\<close> by simp
  ultimately show "beyond_domain d y" using x(2) by (auto simp: beyond_domain_def)
qed

text \<open>The sign of a comparison of the last \<open>hl\<close> and \<open>dl\<close> characters.\<close>

definition sign_ok :: "string \<Rightarrow> string \<Rightarrow> int \<Rightarrow> bool" where
  "sign_ok h d r \<longleftrightarrow> (r < 0 \<longleftrightarrow> rkey h < rkey (core d)) \<and> (r > 0 \<longleftrightarrow> beyond_domain d (rkey h))"

lemma sign_ok_snoc:
  assumes "tolower x = tolower y" "d \<noteq> []"
  shows "sign_ok (h @ [x]) (d @ [y]) r \<longleftrightarrow> sign_ok h d r"
proof -
  have "dkey x = dkey y" using assms(1) by (simp add: dkey_eq)
  then show ?thesis using assms(2) by (simp add: sign_ok_def beyond_domain_def core_snoc)
qed

lemma sign_ok_diff:
  assumes "tolower x \<noteq> tolower y" "r < 0 \<longleftrightarrow> dkey x < dkey y" "r > 0 \<longleftrightarrow> dkey y < dkey x"
  shows "sign_ok (h @ [x]) (d @ [y]) r"
proof -
  have "dkey x \<noteq> dkey y" using assms(1) by (simp add: dkey_eq)
  then show ?thesis
  proof (cases "d = [] \<and> y = CHR ''.''")
    case True
    then have "dkey y = 0" "core (d @ [y]) = []" by (simp_all add: core_def dkey_zero)
    then show ?thesis using assms(2,3) True \<open>dkey x \<noteq> dkey y\<close> by (auto simp: sign_ok_def beyond_domain_def)
  next
    case False
    then have "core (d @ [y]) = core d @ [y]" by (cases d) (auto simp: core_def)
    then show ?thesis using assms(2,3) \<open>dkey x \<noteq> dkey y\<close> by (auto simp: sign_ok_def beyond_domain_def)
  qed
qed

text \<open>The comparison of characters that differ, and the ends of the names.\<close>

lemma match_diff_sign:
  assumes "tolower x \<noteq> tolower y"
  shows "sign_ok (h @ [x]) (d @ [y])
    (if y = CHR ''.'' then 1 else if x = CHR ''.'' then - 1 else of_char (tolower x) - of_char (tolower y))"
proof (rule sign_ok_diff [OF assms])
  have int: "of_char c = int (of_char c)" for c using of_nat_of_char [where 'a = int, of c] by simp
  have "x \<noteq> y" using assms by blast
  then show "((if y = CHR ''.'' then 1 else if x = CHR ''.'' then - 1 else of_char (tolower x) - of_char (tolower y)) < (0 :: int)) = (dkey x < dkey y)"
    "(0 < (if y = CHR ''.'' then 1 else if x = CHR ''.'' then - 1 else of_char (tolower x) - of_char (tolower y) :: int)) = (dkey y < dkey x)"
    by (auto simp: dkey_def int [of "tolower x"] int [of "tolower y"])
qed

lemma match_end_host:
  assumes "tolower x = tolower y" "d \<noteq> []"
  shows "sign_ok [x] (d @ [y]) (if d = ''.'' then 0 else - 1)"
proof (cases "d = ''.''")
  case True
  have "rkey [x] = [dkey x]" "core (d @ [y]) = [y]" using True by (simp_all add: rkey_def core_def)
  moreover have "dkey x = dkey y" using assms(1) by (simp add: dkey_eq)
  ultimately show ?thesis using True by (simp add: sign_ok_def beyond_domain_def rkey_def)
next
  case False
  then obtain k ks where "rkey (core d) = k # ks" using assms(2)
    by (cases "rkey (core d)") (auto simp: rkey_def core_def split: if_splits, metis list.exhaust_sel)
  moreover have "dkey x = dkey y" using assms(1) by (simp add: dkey_eq)
  ultimately show ?thesis using False assms(2) by (auto simp: sign_ok_def beyond_domain_def core_snoc rkey_def)
qed

lemma match_end_domain:
  assumes "tolower x = tolower y"
  shows "sign_ok (h @ [x]) [y] (if y = CHR ''.'' \<or> h = [] then 0 else 1)"
proof -
  have k: "dkey x = dkey y" using assms by (simp add: dkey_eq)
  have "h \<noteq> [] \<Longrightarrow> [] < rkey h" by (cases "rkey h") (auto simp: rkey_def)
  then show ?thesis using k by (auto simp: sign_ok_def beyond_domain_def core_def rkey_def dkey_def)
qed

lemma match_loop_sign:
  assumes "0 < hl" "0 < dl" "hl \<le> length h" "dl \<le> length d"
  shows "\<exists>r. match_loop h d hl dl = Inr r \<and> sign_ok (take hl h) (take dl d) r"
  using assms
proof (induction h d hl dl rule: match_loop.induct)
  case (1 h d hl dl)
  let ?x = "h ! (hl - 1)" and ?y = "d ! (dl - 1)"
  have th: "take hl h = take (hl - 1) h @ [?x]" and td: "take dl d = take (dl - 1) d @ [?y]"
    using 1(2-5) take_snoc by blast+
  consider (diff) "tolower ?x \<noteq> tolower ?y" | (host) "tolower ?x = tolower ?y" "hl = 1" "dl \<noteq> 1"
    | (domain) "tolower ?x = tolower ?y" "dl = 1" | (both) "tolower ?x = tolower ?y" "hl \<noteq> 1" "dl \<noteq> 1" by blast
  then show ?case
  proof cases
    case diff
    then show ?thesis using match_diff_sign [OF diff, of "take (hl - 1) h" "take (dl - 1) d"] 1(2,3) unfolding th td
      by (subst match_loop.simps) (auto simp: Let_def)
  next
    case host
    have "take (dl - 1) d = ''.'' \<longleftrightarrow> dl = 2 \<and> d ! 0 = CHR ''.''"
      using 1(3,5) by (cases d; cases "tl d"; cases "dl - 1") (auto simp: take_Cons' split: if_splits)
    moreover have "take (dl - 1) d \<noteq> []" using 1(3,5) host by auto
    ultimately show ?thesis using match_end_host [OF host(1), of "take (dl - 1) d"] host 1(2,3) unfolding th td
      by (subst match_loop.simps) (auto simp: Let_def)
  next
    case domain
    have "take (hl - 1) h = [] \<longleftrightarrow> hl = 1" "take (dl - 1) d = []" using 1(2,4) domain by auto
    then show ?thesis using match_end_domain [OF domain(1), of "take (hl - 1) h"] domain 1(2,3) unfolding th td
      by (subst match_loop.simps) (auto simp: Let_def)
  next
    case both
    have ne: "take (dl - 1) d \<noteq> []" using both 1(3,5) by auto
    have step: "match_loop h d hl dl = match_loop h d (hl - 1) (dl - 1)"
      using both 1(2,3) by (subst match_loop.simps) (simp add: Let_def)
    have "0 < hl - 1" "0 < dl - 1" "hl - 1 \<le> length h" "dl - 1 \<le> length d" using both 1(2-5) by auto
    then have "\<exists>r. match_loop h d (hl - 1) (dl - 1) = Inr r \<and> sign_ok (take (hl - 1) h) (take (dl - 1) d) r"
      using "1.IH" [OF _ refl refl both(1)] both 1(2,3) by blast
    then show ?thesis unfolding step th td sign_ok_snoc [OF both(1) ne] .
  qed
qed

section \<open>The tree\<close>

abbreviation strip_dots :: "string \<Rightarrow> string" where
  "strip_dots \<equiv> dropWhile (\<lambda>c. c = CHR ''.'')"

text \<open>Names that have a character other than the dot, and domains with at most one dot in front.\<close>

definition host_ok :: "string \<Rightarrow> bool" where
  "host_ok h \<longleftrightarrow> strip_dots h \<noteq> []"

definition domain_ok :: "string \<Rightarrow> bool" where
  "domain_ok d \<longleftrightarrow> strip_dots d \<noteq> [] \<and> core d = strip_dots d"

lemma compare_host_domain:
  assumes "host_ok h" "domain_ok d"
  shows "\<exists>r. aclHostDomainCompare h d = Inr r \<and> (r < 0 \<longleftrightarrow> rkey (strip_dots h) < rkey (core d)) \<and>
    (r > 0 \<longleftrightarrow> beyond_domain d (rkey (strip_dots h)))"
proof -
  have "d \<noteq> []" using assms(2) by (auto simp: domain_ok_def)
  then show ?thesis
    using match_loop_sign [of "length (strip_dots h)" "length d" "strip_dots h" d] assms(1)
    by (simp add: aclHostDomainCompare_def matchDomainName_def host_ok_def sign_ok_def Let_def)
qed

lemma beyond_domain_less: "beyond_domain d x \<Longrightarrow> rkey (core d) < x"
  by (simp add: beyond_domain_def)

interpretation dom: acl_tree aclHostDomainCompare aclDomainCompare "\<lambda>h. rkey (strip_dots h)" "\<lambda>d. rkey (core d)"
  beyond_domain host_ok domain_ok
proof unfold_locales
  fix a b
  assume ab: "domain_ok a" "domain_ok b"
  then have "host_ok a" "host_ok b" "strip_dots a = core a" "strip_dots b = core b" by (simp_all add: host_ok_def domain_ok_def)
  then obtain i j where "aclHostDomainCompare b a = Inr i" "i < 0 \<longleftrightarrow> rkey (core b) < rkey (core a)" "i > 0 \<longleftrightarrow> beyond_domain a (rkey (core b))"
    "aclHostDomainCompare a b = Inr j" "j < 0 \<longleftrightarrow> rkey (core a) < rkey (core b)" "j > 0 \<longleftrightarrow> beyond_domain b (rkey (core a))"
    using compare_host_domain [of b a] compare_host_domain [of a b] ab by auto
  then show "\<exists>r. aclDomainCompare a b = Inr r \<and> (r < 0 \<longleftrightarrow> beyond_domain a (rkey (core b))) \<and> (r > 0 \<longleftrightarrow> beyond_domain b (rkey (core a)))"
    unfolding aclDomainCompare_def using beyond_domain_less by (intro both_ways_order [where lo = "\<lambda>d. rkey (core d)"]) auto
next
  fix d
  show "\<not> beyond_domain d (rkey (core d))" by (simp add: beyond_domain_def)
qed (fact compare_host_domain beyond_domain_mono)+

lemma covers_matches:
  assumes "host_ok h" "domain_ok d"
  shows "dom.covers d (rkey (strip_dots h)) \<longleftrightarrow> domain_matches (strip_dots h) d"
proof -
  have ne: "d \<noteq> []" "0 < length (strip_dots h)" using assms by (auto simp: domain_ok_def host_ok_def)
  obtain r where r: "match_loop (strip_dots h) d (length (strip_dots h)) (length d) = Inr r" "sign_ok (strip_dots h) d r"
    using match_loop_sign [of "length (strip_dots h)" "length d" "strip_dots h" d] ne by auto
  moreover have "r = 0 \<longleftrightarrow> domain_matches (strip_dots h) d"
    using match_loop_iff [of "length (strip_dots h)" "length d" "strip_dots h" d] ne r(1) by auto
  ultimately show ?thesis by (auto simp: dom.covers_def sign_ok_def not_less)
qed

text \<open>Two domains clash if one of them, taken as a host name, matches the other.\<close>

definition clash :: "string \<Rightarrow> string \<Rightarrow> bool" where
  "clash a b \<longleftrightarrow> domain_matches (strip_dots b) a \<or> domain_matches (strip_dots a) b"

fun kept_domains :: "string list \<Rightarrow> string list \<Rightarrow> string list" where
  "kept_domains old [] = old"
| "kept_domains old (d # ds) = kept_domains (if \<exists>x\<in>set old. clash d x then old else d # old) ds"

lemma meets_clash:
  assumes "domain_ok a" "domain_ok b"
  shows "dom.meets a b \<longleftrightarrow> clash a b"
  using covers_matches [of b a] covers_matches [of a b] assms
  by (simp add: dom.meets_first clash_def host_ok_def domain_ok_def)

lemma kept_domains_eq:
  assumes "\<forall>d\<in>set ds. domain_ok d" "\<forall>d\<in>set old. domain_ok d"
  shows "dom.kept old ds = kept_domains old ds \<and> (\<forall>d\<in>set (kept_domains old ds). domain_ok d)"
  using assms
proof (induction ds arbitrary: old)
  case (Cons d ds)
  have "(\<exists>x\<in>set old. dom.meets d x) \<longleftrightarrow> (\<exists>x\<in>set old. clash d x)" using Cons.prems meets_clash by simp
  moreover have "\<forall>x\<in>set (if \<exists>x\<in>set old. clash d x then old else d # old). domain_ok x" using Cons.prems by simp
  ultimately show ?case using Cons.IH Cons.prems(1) by (simp only: dom.kept.simps kept_domains.simps list.set_intros simp_thms) simp
qed simp

lemma aclParseDomainList_insert: "aclParseDomainList toks t = insert_entries aclDomainCompare (map (map tolower) toks) t"
proof (induction toks arbitrary: t)
  case (Cons tok toks)
  then have "(\<lambda>(_ :: int, t). aclParseDomainList toks t) = (\<lambda>(_, t). insert_entries aclDomainCompare (map (map tolower) toks) t)" by auto
  then show ?case by simp
qed simp

lemma kept_domains_all:
  assumes "\<forall>d\<in>set ds. \<forall>x\<in>set old. \<not> clash d x" "sorted_wrt (\<lambda>a b. \<not> clash b a) ds"
  shows "set (kept_domains old ds) = set old \<union> set ds"
  using assms by (induction ds arbitrary: old) auto

section \<open>Properties\<close>

text \<open>
  C17. A list of domains decides the relation that the comment of \<^verbatim>\<open>matchDomainName\<close> tabulates: after the
  domains were read from the configuration, a host is found in the splay tree exactly if it matches
  one of the domains that were kept. A domain is kept if it does not clash with one kept before.
  The comparison of host names with domains is not a total order, but it is consistent with the order in
  which the insertions arrange the domains, so that no lookup misses a match.
\<close>

theorem acl_domain_list_decides:
  assumes "\<forall>d\<in>set toks. domain_ok (map tolower d)" "host_ok h"
  shows "\<exists>t t'. aclParseDomainList toks Leaf = Inr t \<and>
    aclMatchDomainList t (Some h) =
      Inr (\<exists>d\<in>set (kept_domains [] (map (map tolower) toks)). domain_matches (strip_dots h) d, t') \<and> dom.tree_ok t'"
proof -
  let ?ds = "map (map tolower) toks"
  have ok: "\<forall>d\<in>set ?ds. domain_ok d" using assms(1) by simp
  obtain t res t' where "insert_entries aclDomainCompare ?ds Leaf = Inr t" "splay_splay (aclHostDomainCompare h) t = Inr (res, t')"
    "dom.tree_ok t'" "res = 0 \<longleftrightarrow> (\<exists>d\<in>set (dom.kept [] ?ds). dom.covers d (rkey (strip_dots h)))"
    using dom.built_list_decides [OF ok assms(2)] by blast
  moreover have "(\<exists>d\<in>set (dom.kept [] ?ds). dom.covers d (rkey (strip_dots h))) \<longleftrightarrow>
      (\<exists>d\<in>set (kept_domains [] ?ds). domain_matches (strip_dots h) d)"
    using kept_domains_eq [OF ok, of "[]"] covers_matches [OF assms(2)] by auto
  ultimately show ?thesis by (auto simp: aclMatchDomainList_def aclParseDomainList_insert)
qed

section \<open>Examples\<close>

theorem acl_domain_list_decides_witness:
  "\<exists>t t'. aclParseDomainList [''.Youku.com'', ''qq.com''] Leaf = Inr t \<and> aclMatchDomainList t (Some ''v.youku.com'') = Inr (True, t')"
proof -
  let ?toks = "[''.Youku.com'', ''qq.com'']"
  have low: "map (map tolower) ?toks = [''.youku.com'', ''qq.com'']" by (simp add: tolower_def char_of_eq_iff)
  have "domain_ok ''.youku.com''" "domain_ok ''qq.com''" by (simp_all add: domain_ok_def core_def)
  then have "\<forall>d\<in>set (map (map tolower) ?toks). domain_ok d" unfolding low by simp
  then have "\<forall>d\<in>set ?toks. domain_ok (map tolower d)" unfolding set_map by blast
  moreover have host: "host_ok ''v.youku.com''" by (simp add: host_ok_def)
  moreover have "domain_matches (strip_dots ''v.youku.com'') ''.youku.com''" "\<not> clash ''qq.com'' ''.youku.com''"
    by (simp_all add: clash_def domain_matches_def tolower_def suffix_Cons)
  then have "\<exists>d\<in>set (kept_domains [] (map (map tolower) ?toks)). domain_matches (strip_dots ''v.youku.com'') d" unfolding low by simp
  ultimately show ?thesis using acl_domain_list_decides [of ?toks "''v.youku.com''"] by (simp only: simp_thms) blast
qed

end
