(* ===== verification/Acl_Lists.thy ===== *)
theory Acl_Lists
  imports Scanf Url
begin

text \<open>
  The access controls of \<^verbatim>\<open>src/acl.c\<close> that are linked lists: numbers, ranges of ports, times of the week,
  words and request types. A search of a list of numbers moves what it finds to the second place.
  The tokens of a configuration line are the argument of the parsers; an error in the
  configuration is \<^const>\<open>Fatal\<close>.
\<close>

section \<open>Numbers\<close>

text \<open>\<^verbatim>\<open>xatol\<close>: the whole token must be a number; \<^verbatim>\<open>strtol\<close> saturates.\<close>

definition xatol :: "string \<Rightarrow> int res" where
  "xatol token =
     (case strtoll token of
        None \<Rightarrow> Inl Fatal
      | Some v \<Rightarrow>
          if snd (the (scan_d token)) \<noteq> [] then Inl Fatal
          else Inr (max (- 9223372036854775808) (min 9223372036854775807 v)))"

definition xatoi :: "string \<Rightarrow> int res" where
  "xatoi token = res_bind (xatol token) (\<lambda>v. Inr (trunc32 v))"

definition xatos :: "string \<Rightarrow> int res" where
  "xatos token = res_bind (xatol token) (\<lambda>v. if 0 \<le> v \<and> v < 65536 then Inr v else Inl Fatal)"

fun aclParseIntlist :: "string list \<Rightarrow> int list \<Rightarrow> int list res" where
  "aclParseIntlist [] l = Inr l"
| "aclParseIntlist (t # ts) l = res_bind (xatoi t) (\<lambda>i. aclParseIntlist ts (l @ [i]))"

fun aclParsePortRange :: "string list \<Rightarrow> (int \<times> int) list \<Rightarrow> (int \<times> int) list res" where
  "aclParsePortRange [] l = Inr l"
| "aclParsePortRange (a # ts) l =
     (let t = takeWhile (\<lambda>c. c \<noteq> CHR ''-'') a; b = dropWhile (\<lambda>c. c \<noteq> CHR ''-'') a
      in res_bind (xatos t) (\<lambda>port1.
         res_bind (if b \<noteq> [] then xatos (tl b) else Inr port1) (\<lambda>port2.
           if port2 \<ge> port1 then aclParsePortRange ts (l @ [(port1, port2)]) else Inl Fatal)))"

text \<open>Protocols are numbered in the order of their enumeration.\<close>

fun protocol_number :: "protocol_t \<Rightarrow> int" where
  "protocol_number PROTO_NONE = 0"
| "protocol_number PROTO_HTTP = 1"
| "protocol_number PROTO_FTP = 2"
| "protocol_number PROTO_GOPHER = 3"
| "protocol_number PROTO_WAIS = 4"
| "protocol_number PROTO_CACHEOBJ = 5"
| "protocol_number PROTO_ICP = 6"
| "protocol_number PROTO_HTCP = 7"
| "protocol_number PROTO_URN = 8"
| "protocol_number PROTO_WHOIS = 9"
| "protocol_number PROTO_INTERNAL = 10"
| "protocol_number PROTO_HTTPS = 11"

definition aclParseProtoList :: "string list \<Rightarrow> int list \<Rightarrow> int list" where
  "aclParseProtoList ts l = l @ map (\<lambda>t. protocol_number (urlParseProtocol t)) ts"

fun aclParseMethodList :: "string list \<Rightarrow> string list \<Rightarrow> int list \<Rightarrow> int list res" where
  "aclParseMethodList tab [] l = Inr l"
| "aclParseMethodList tab (t # ts) l =
     (let m = urlParseMethod tab t in if m = METHOD_NONE then Inl Fatal else aclParseMethodList tab ts (l @ [int m]))"

text \<open>
  The search of \<^verbatim>\<open>aclMatchInteger\<close> and \<^verbatim>\<open>aclMatchIntegerRange\<close>: \<open>seen\<close> are the elements in front of the
  current one, in reverse order.
\<close>

fun match_shift :: "('a \<Rightarrow> bool) \<Rightarrow> 'a list \<Rightarrow> 'a list \<Rightarrow> bool \<times> 'a list" where
  "match_shift P seen [] = (False, rev seen)"
| "match_shift P seen (x # xs) =
     (if P x then (True, case rev seen of [] \<Rightarrow> x # xs | first # mid \<Rightarrow> first # x # mid @ xs)
      else match_shift P (x # seen) xs)"

definition aclMatchInteger :: "int list \<Rightarrow> int \<Rightarrow> bool \<times> int list" where
  "aclMatchInteger data i = match_shift (\<lambda>x. x = i) [] data"

definition aclMatchIntegerRange :: "(int \<times> int) list \<Rightarrow> int \<Rightarrow> bool \<times> (int \<times> int) list" where
  "aclMatchIntegerRange data i = match_shift (\<lambda>(lo, hi). \<not> i < lo \<and> \<not> i > hi) [] data"

lemma match_shift_found: "fst (match_shift P seen xs) \<longleftrightarrow> (\<exists>x\<in>set xs. P x)"
  by (induction xs arbitrary: seen) auto

lemma match_shift_set: "set (snd (match_shift P seen xs)) = set seen \<union> set xs"
proof (induction xs arbitrary: seen)
  case (Cons x xs)
  show ?case
  proof (cases "P x")
    case True
    have "set (rev seen) = set seen" by simp
    then show ?thesis using True by (cases "rev seen") auto
  qed (simp add: Cons)
qed simp

section \<open>Times\<close>

record acl_time_data =
  weekbits :: nat
  start :: int
  stop :: int

definition ACL_ALLWEEK :: nat where "ACL_ALLWEEK = 0x7F"

definition day_bits :: "char \<Rightarrow> nat option" where
  "day_bits c =
     (if c = CHR ''S'' then Some 0x01
      else if c = CHR ''M'' then Some 0x02
      else if c = CHR ''T'' then Some 0x04
      else if c = CHR ''W'' then Some 0x08
      else if c = CHR ''H'' then Some 0x10
      else if c = CHR ''F'' then Some 0x20
      else if c = CHR ''A'' then Some 0x40
      else if c = CHR ''D'' then Some 0x3E
      else if c = CHR ''-'' then Some 0
      else None)"

fun parse_days :: "string \<Rightarrow> nat \<Rightarrow> nat res" where
  "parse_days [] bits = Inr bits"
| "parse_days (c # s) bits = (case day_bits c of None \<Rightarrow> Inl Fatal | Some b \<Rightarrow> parse_days s (or bits b))"

definition parse_hours :: "string \<Rightarrow> nat \<Rightarrow> acl_time_data res" where
  "parse_hours t bits =
     (case fst (scan_ds '':-:'' t) of
        [h1, m1, h2, m2] \<Rightarrow>
          if \<not> (0 \<le> h1 \<and> h1 < 24 \<and> (0 \<le> h2 \<and> h2 < 24 \<or> h2 = 24 \<and> m2 = 0) \<and> 0 \<le> m1 \<and> m1 < 60 \<and> 0 \<le> m2 \<and> m2 < 60)
          then Inl Fatal
          else if h1 * 60 + m1 > h2 * 60 + m2 then Inl Fatal
          else Inr \<lparr>weekbits = (if bits = 0 then ACL_ALLWEEK else bits), start = h1 * 60 + m1, stop = h2 * 60 + m2\<rparr>
      | _ \<Rightarrow> Inl Fatal)"

text \<open>\<^verbatim>\<open>aclParseTimeSpec\<close>; the days of a token hold for the time that follows, or for the whole day at the end.\<close>

fun time_spec_loop :: "string list \<Rightarrow> nat \<Rightarrow> acl_time_data list \<Rightarrow> acl_time_data list res" where
  "time_spec_loop [] bits l = Inr (if bits \<noteq> 0 then l @ [\<lparr>weekbits = bits, start = 0, stop = 1440\<rparr>] else l)"
| "time_spec_loop (t # ts) bits l =
     (if t = [] \<or> \<not> isdigit_c (hd t) then res_bind (parse_days t bits) (\<lambda>bits. time_spec_loop ts bits l)
      else res_bind (parse_hours t bits) (\<lambda>q. time_spec_loop ts 0 (l @ [q])))"

definition aclParseTimeSpec :: "string list \<Rightarrow> acl_time_data list \<Rightarrow> acl_time_data list res" where
  "aclParseTimeSpec ts l = time_spec_loop ts 0 l"

text \<open>\<^verbatim>\<open>aclMatchTime\<close>: the arguments are the hour, minute and day of the week of the local time.\<close>

definition aclMatchTime :: "acl_time_data list \<Rightarrow> int \<Rightarrow> int \<Rightarrow> nat \<Rightarrow> bool res" where
  "aclMatchTime data hour minute wday =
     res_bind (c_assert (data \<noteq> [])) (\<lambda>_.
       let t = hour * 60 + minute
       in Inr (list_ex (\<lambda>d. t \<ge> start d \<and> t \<le> stop d \<and> bit (weekbits d) wday) data))"

section \<open>Words and types\<close>

definition aclMatchWordList :: "string list \<Rightarrow> string \<Rightarrow> bool" where
  "aclMatchWordList w word \<longleftrightarrow> list_ex (\<lambda>k. k = word) w"

record acl_request_type =
  accelerated :: bool
  transparent :: bool
  internal :: bool

fun aclParseType :: "string list \<Rightarrow> acl_request_type \<Rightarrow> acl_request_type res" where
  "aclParseType [] type = Inr type"
| "aclParseType (t # ts) type =
     (if t = ''accelerated'' \<or> t = ''accel'' then aclParseType ts (type\<lparr>accelerated := True\<rparr>)
      else if t = ''transparent'' then aclParseType ts (type\<lparr>transparent := True\<rparr>)
      else if t = ''internal'' \<or> t = ''auth'' then aclParseType ts (type\<lparr>internal := True\<rparr>)
      else Inl Fatal)"

definition aclMatchType :: "acl_request_type \<Rightarrow> acl_request_type \<Rightarrow> bool" where
  "aclMatchType type flags \<longleftrightarrow>
     accelerated type \<and> accelerated flags \<or> transparent type \<and> transparent flags \<or> internal type \<and> internal flags"

section \<open>What the parsers produce\<close>

definition time_ok :: "acl_time_data \<Rightarrow> bool" where
  "time_ok d \<longleftrightarrow> 0 \<le> start d \<and> start d \<le> stop d \<and> stop d \<le> 1440 \<and> 0 < weekbits d \<and> weekbits d < 128"

lemma or_less_128: "(a :: nat) < 128 \<Longrightarrow> b < 128 \<Longrightarrow> or a b < 128"
proof -
  assume "a < 128" "b < 128"
  then have "take_bit 7 (or a b) = or a b" by (simp add: take_bit_nat_eq_self)
  then show ?thesis using take_bit_nat_less_exp [of 7 "or a b"] by simp
qed

lemma parse_days_ok: "parse_days t bits = Inr b \<Longrightarrow> bits < 128 \<Longrightarrow> b < 128"
proof (induction t bits rule: parse_days.induct)
  case (2 c s bits)
  then obtain d where d: "day_bits c = Some d" "parse_days s (or bits d) = Inr b" by (auto split: option.splits)
  have "d < 128" using d(1) by (auto simp: day_bits_def split: if_splits)
  then show ?case using 2(1) [OF d] or_less_128 2(3) by blast
qed simp

lemma parse_hours_ok:
  assumes "parse_hours t bits = Inr q" "bits < 128"
  shows "time_ok q"
  using assms by (auto simp: parse_hours_def time_ok_def ACL_ALLWEEK_def split: list.splits if_splits)

lemma time_spec_ok:
  assumes "time_spec_loop ts bits l = Inr l'" "bits < 128" "\<forall>d\<in>set l. time_ok d"
  shows "\<forall>d\<in>set l'. time_ok d"
  using assms
proof (induction ts bits l rule: time_spec_loop.induct)
  case (1 bits l)
  then show ?case by (auto simp: time_ok_def split: if_splits)
next
  case (2 t ts bits l)
  show ?case
  proof (cases "t = [] \<or> \<not> isdigit_c (hd t)")
    case True
    then obtain b where b: "parse_days t bits = Inr b" "time_spec_loop ts b l = Inr l'" using 2(3) by (auto simp: res_bind_Inr_iff)
    then show ?thesis using 2(1) [OF True b] parse_days_ok [OF b(1)] 2(4,5) by blast
  next
    case False
    then obtain q where q: "parse_hours t bits = Inr q" "time_spec_loop ts 0 (l @ [q]) = Inr l'" using 2(3) by (auto simp: res_bind_Inr_iff)
    then show ?thesis using 2(2) [OF False q] parse_hours_ok [OF q(1)] 2(4,5) by simp
  qed
qed

end
