(* ===== verification/Acl_Check.thy ===== *)
theory Acl_Check
  imports Acl_Ip Acl_Domain Acl_Lists Cbdata
begin

text \<open>
  Checking of a request against an access list, \<^verbatim>\<open>src/acl.c\<close>: the test of one access control, of the
  controls of a line, and the two ways to go through the lines: \<^verbatim>\<open>aclCheckFast\<close> at once, and
  \<^verbatim>\<open>aclCheck\<close>, which stops when it needs a lookup and is called again when the lookup is done.

  The access controls are shared by the lines; testing one rearranges its tree or its list, so they
  are part of the state. What the DNS caches, the local time and the client database answer is the
  environment of a call. Regular expressions, authentication, ident, AS numbers and external helpers
  are one kind of control, whose answer, and the lookups it asks for, are part of the environment. The
  lines are callback data, as in the code, and are locked in the registry of theory \<open>Cbdata\<close>. What
  is started for a lookup, the control that is kept for the external helper, and the release of
  authentication state when a check ends (\<^verbatim>\<open>aclCheckCleanup\<close>) are not modelled; the call of the callback is
  the answer that a check returns.
\<close>

section \<open>Data\<close>

datatype allow_t = ACCESS_DENIED | ACCESS_ALLOWED | ACCESS_REQ_PROXY_AUTH

datatype acl_lookup_state = ACL_LOOKUP_NONE | ACL_LOOKUP_NEEDED | ACL_LOOKUP_PENDING | ACL_LOOKUP_DONE | ACL_PROXY_AUTH_NEEDED

text \<open>The kinds of lookups; \<^verbatim>\<open>checklist->state\<close> is indexed by the type of the control.\<close>

datatype lookup = DstIP | DstASN | SrcDomain | DstDomain | ProxyAuth | Ident | External

datatype acl_data =
  ACL_SRC_IP "acl_ip_data tree"
| ACL_MY_IP "acl_ip_data tree"
| ACL_DST_IP "acl_ip_data tree"
| ACL_DST_DOMAIN "string tree"
| ACL_SRC_DOMAIN "string tree"
| ACL_TIME "acl_time_data list"
| ACL_MAXCONN int
| ACL_URL_PORT "(int \<times> int) list"
| ACL_MY_PORT "(int \<times> int) list"
| ACL_TYPE acl_request_type
| ACL_PROTO "int list"
| ACL_METHOD "int list"
| ACL_OTHER nat

record acl_request =
  r_host :: string
  r_port :: int
  r_protocol :: int
  r_method :: int
  r_flags :: acl_request_type
  r_client_addr :: in_addr
  r_indirect_client_addr :: in_addr
  r_my_addr :: in_addr
  r_my_port :: int

record aclCheck_t =
  ck_request :: "acl_request option"
  ck_conn :: "nat option"
  src_addr :: in_addr
  dst_addr :: in_addr
  my_addr :: in_addr
  my_port :: int
  lstate :: "lookup \<Rightarrow> acl_lookup_state"

definition set_lstate :: "lookup \<Rightarrow> acl_lookup_state \<Rightarrow> aclCheck_t \<Rightarrow> aclCheck_t" where
  "set_lstate l s ck = ck\<lparr>lstate := (lstate ck)(l := s)\<rparr>"

record acl_env =
  ipcache_gethostbyname :: "string \<Rightarrow> in_addr list option"
  fqdncache_gethostbyaddr :: "in_addr \<Rightarrow> string option"
  localtime :: "int \<times> int \<times> nat"
  clientdbEstablished :: "in_addr \<Rightarrow> int"
  match_other :: "nat \<Rightarrow> aclCheck_t \<Rightarrow> int \<times> aclCheck_t"
  acl_uses_indirect_client :: bool

text \<open>
  The addresses of a check are those of its request, where the caller set none. The option for indirect
  clients exists only in builds that follow \<^verbatim>\<open>X-Forwarded-For\<close>; it is off in others.
\<close>

definition aclChecklistCacheInit :: "acl_env \<Rightarrow> aclCheck_t \<Rightarrow> aclCheck_t" where
  "aclChecklistCacheInit env ck =
     (case ck_request ck of
        None \<Rightarrow> ck
      | Some request \<Rightarrow>
          if src_addr ck = 0
          then ck\<lparr>src_addr := (if acl_uses_indirect_client env then r_indirect_client_addr request else r_client_addr request),
                  my_addr := r_my_addr request, my_port := r_my_port request\<rparr>
          else ck)"

lemma aclChecklistCacheInit_keeps [simp]:
  "ck_request (aclChecklistCacheInit env ck) = ck_request ck" "lstate (aclChecklistCacheInit env ck) = lstate ck"
  by (simp_all add: aclChecklistCacheInit_def split: option.split)

text \<open>A control of a line, with \<open>1\<close>, or \<open>0\<close> where it is negated; a line and its address as callback data.\<close>

type_synonym acl_list = "(int \<times> nat) list"

record acl_access =
  allow :: allow_t
  line_acls :: acl_list
  line_ptr :: nat

section \<open>One access control\<close>

definition ipcacheCheckNumeric :: "string \<Rightarrow> in_addr option" where
  "ipcacheCheckNumeric name = safe_inet_addr name"

fun match_any_ip :: "acl_ip_data tree \<Rightarrow> in_addr list \<Rightarrow> (bool \<times> acl_ip_data tree) res" where
  "match_any_ip t [] = Inr (False, t)"
| "match_any_ip t (a # as) = res_bind (aclMatchIp t a) (\<lambda>(b, t). if b then Inr (True, t) else match_any_ip t as)"

definition answer_with :: "aclCheck_t \<Rightarrow> ('t \<Rightarrow> acl_data) \<Rightarrow> (bool \<times> 't) res \<Rightarrow> (int \<times> aclCheck_t \<times> acl_data) res" where
  "answer_with ck wrap m = res_bind m (\<lambda>(b, t). Inr (of_bool b, ck, wrap t))"

text \<open>The end of the tests of a domain: the name of an address, which may have to be looked up.\<close>

definition match_fqdn ::
  "acl_env \<Rightarrow> aclCheck_t \<Rightarrow> lookup \<Rightarrow> (string tree \<Rightarrow> acl_data) \<Rightarrow> string tree \<Rightarrow> in_addr \<Rightarrow> (int \<times> aclCheck_t \<times> acl_data) res" where
  "match_fqdn env ck l wrap t a =
     (case fqdncache_gethostbyaddr env a of
        Some fqdn \<Rightarrow> answer_with ck wrap (aclMatchDomainList t (Some fqdn))
      | None \<Rightarrow>
          if lstate ck l = ACL_LOOKUP_NONE then Inr (0, set_lstate l ACL_LOOKUP_NEEDED ck, wrap t)
          else answer_with ck wrap (aclMatchDomainList t (Some ''none'')))"

definition match_dst_ip :: "acl_env \<Rightarrow> aclCheck_t \<Rightarrow> acl_request \<Rightarrow> acl_ip_data tree \<Rightarrow> (int \<times> aclCheck_t \<times> acl_data) res" where
  "match_dst_ip env ck r t =
     (case ipcache_gethostbyname env (r_host r) of
        Some as \<Rightarrow> answer_with ck ACL_DST_IP (match_any_ip t as)
      | None \<Rightarrow>
          Inr (0, if lstate ck DstIP = ACL_LOOKUP_NONE then set_lstate DstIP ACL_LOOKUP_NEEDED ck else ck, ACL_DST_IP t))"

definition match_dst_domain :: "acl_env \<Rightarrow> aclCheck_t \<Rightarrow> acl_request \<Rightarrow> string tree \<Rightarrow> (int \<times> aclCheck_t \<times> acl_data) res" where
  "match_dst_domain env ck r t =
     res_bind (aclMatchDomainList t (Some (r_host r))) (\<lambda>(b, t).
       if b then Inr (1, ck, ACL_DST_DOMAIN t)
       else (case ipcacheCheckNumeric (r_host r) of
           None \<Rightarrow> Inr (0, ck, ACL_DST_DOMAIN t)
         | Some a \<Rightarrow> match_fqdn env ck DstDomain ACL_DST_DOMAIN t a))"

definition with_request ::
  "aclCheck_t \<Rightarrow> acl_data \<Rightarrow> (acl_request \<Rightarrow> (int \<times> aclCheck_t \<times> acl_data) res) \<Rightarrow> (int \<times> aclCheck_t \<times> acl_data) res" where
  "with_request ck ae k = (case ck_request ck of None \<Rightarrow> Inr (0, ck, ae) | Some r \<Rightarrow> k r)"

fun aclMatchAcl :: "acl_env \<Rightarrow> aclCheck_t \<Rightarrow> acl_data \<Rightarrow> (int \<times> aclCheck_t \<times> acl_data) res" where
  "aclMatchAcl env ck (ACL_SRC_IP t) = answer_with ck ACL_SRC_IP (aclMatchIp t (src_addr ck))"
| "aclMatchAcl env ck (ACL_MY_IP t) = answer_with ck ACL_MY_IP (aclMatchIp t (my_addr ck))"
| "aclMatchAcl env ck (ACL_DST_IP t) = with_request ck (ACL_DST_IP t) (\<lambda>r. match_dst_ip env ck r t)"
| "aclMatchAcl env ck (ACL_DST_DOMAIN t) = with_request ck (ACL_DST_DOMAIN t) (\<lambda>r. match_dst_domain env ck r t)"
| "aclMatchAcl env ck (ACL_SRC_DOMAIN t) = match_fqdn env ck SrcDomain ACL_SRC_DOMAIN t (src_addr ck)"
| "aclMatchAcl env ck (ACL_TIME l) =
     (case localtime env of (hour, minute, wday) \<Rightarrow>
        res_bind (aclMatchTime l hour minute wday) (\<lambda>b. Inr (of_bool b, ck, ACL_TIME l)))"
| "aclMatchAcl env ck (ACL_MAXCONN i) = Inr (of_bool (clientdbEstablished env (src_addr ck) > i), ck, ACL_MAXCONN i)"
| "aclMatchAcl env ck (ACL_URL_PORT l) =
     with_request ck (ACL_URL_PORT l) (\<lambda>r. answer_with ck ACL_URL_PORT (Inr (aclMatchIntegerRange l (r_port r))))"
| "aclMatchAcl env ck (ACL_MY_PORT l) = answer_with ck ACL_MY_PORT (Inr (aclMatchIntegerRange l (my_port ck)))"
| "aclMatchAcl env ck (ACL_TYPE ty) = with_request ck (ACL_TYPE ty) (\<lambda>r. Inr (of_bool (aclMatchType ty (r_flags r)), ck, ACL_TYPE ty))"
| "aclMatchAcl env ck (ACL_PROTO l) =
     with_request ck (ACL_PROTO l) (\<lambda>r. answer_with ck ACL_PROTO (Inr (aclMatchInteger l (r_protocol r))))"
| "aclMatchAcl env ck (ACL_METHOD l) =
     with_request ck (ACL_METHOD l) (\<lambda>r. answer_with ck ACL_METHOD (Inr (aclMatchInteger l (r_method r))))"
| "aclMatchAcl env ck (ACL_OTHER i) = (case match_other env i ck of (answer, ck) \<Rightarrow> Inr (answer, ck, ACL_OTHER i))"

section \<open>Lines\<close>

fun aclMatchAclList :: "acl_env \<Rightarrow> acl_list \<Rightarrow> aclCheck_t \<Rightarrow> acl_data list \<Rightarrow> (bool \<times> aclCheck_t \<times> acl_data list) res" where
  "aclMatchAclList env [] ck acls = Inr (True, ck, acls)"
| "aclMatchAclList env ((op, i) # list) ck acls =
     (if i \<ge> length acls then Inl OutOfBounds
      else res_bind (aclMatchAcl env ck (acls ! i)) (\<lambda>(answer, ck, ae).
        let acls = acls[i := ae]
        in if answer \<noteq> op then Inr (False, ck, acls) else aclMatchAclList env list ck acls))"

text \<open>\<^verbatim>\<open>aclCheckFast\<close>: the result is \<^term>\<open>True\<close> if access is allowed.\<close>

fun check_fast_loop :: "acl_env \<Rightarrow> acl_access list \<Rightarrow> allow_t \<Rightarrow> aclCheck_t \<Rightarrow> acl_data list \<Rightarrow> (bool \<times> aclCheck_t \<times> acl_data list) res" where
  "check_fast_loop env [] al ck acls = Inr (al = ACCESS_DENIED, ck, acls)"
| "check_fast_loop env (A # rest) al ck acls =
     res_bind (aclMatchAclList env (line_acls A) ck acls) (\<lambda>(answer, ck, acls).
       if answer then Inr (allow A = ACCESS_ALLOWED, ck, acls) else check_fast_loop env rest (allow A) ck acls)"

definition aclCheckFast :: "acl_env \<Rightarrow> acl_access list \<Rightarrow> aclCheck_t \<Rightarrow> acl_data list \<Rightarrow> (bool \<times> aclCheck_t \<times> acl_data list) res" where
  "aclCheckFast env A ck acls = check_fast_loop env A ACCESS_DENIED (aclChecklistCacheInit env ck) acls"

text \<open>A check of a request alone: the other fields of the checklist are zero.\<close>

definition aclCheckFastRequest :: "acl_env \<Rightarrow> acl_access list \<Rightarrow> acl_request \<Rightarrow> acl_data list \<Rightarrow> (bool \<times> acl_data list) res" where
  "aclCheckFastRequest env A request ac =
     res_bind (aclCheckFast env A \<lparr>ck_request = Some request, ck_conn = None, src_addr = 0, dst_addr = 0, my_addr = 0, my_port = 0,
         lstate = (\<lambda>_. ACL_LOOKUP_NONE)\<rparr> ac) (\<lambda>(r, _, ac). Inr (r, ac))"

text \<open>
  \<^verbatim>\<open>aclCheck\<close> ends with an answer for the callback, or with a lookup after which it is called again, at
  the line that is kept in the checklist; or it returns without either.
\<close>

datatype check_result = Answer allow_t | Wait lookup "acl_access list" | Dropped "acl_access list"

record check_state =
  acls :: "acl_data list"
  reg :: cbdata_state

text \<open>
  What the lookups that a line asked for mean for the loop: it is left, or the answer is given at
  once, or the result of the line counts.
\<close>

datatype pending = Suspend check_result | Force allow_t | Proceed

definition suspend :: "lookup \<Rightarrow> acl_access list \<Rightarrow> aclCheck_t \<Rightarrow> check_state \<Rightarrow> (pending \<times> aclCheck_t \<times> check_state) res" where
  "suspend l lines ck st = Inr (Suspend (Wait l lines), set_lstate l ACL_LOOKUP_PENDING ck, st)"

definition pending_lookup :: "acl_access list \<Rightarrow> aclCheck_t \<Rightarrow> check_state \<Rightarrow> (pending \<times> aclCheck_t \<times> check_state) res" where
  "pending_lookup lines ck st =
     (if lstate ck DstIP = ACL_LOOKUP_NEEDED then suspend DstIP lines ck st
      else if lstate ck DstASN = ACL_LOOKUP_NEEDED then suspend DstASN lines ck st
      else if lstate ck SrcDomain = ACL_LOOKUP_NEEDED then suspend SrcDomain lines ck st
      else if lstate ck DstDomain = ACL_LOOKUP_NEEDED then
        (case ipcacheCheckNumeric (case ck_request ck of None \<Rightarrow> [] | Some r \<Rightarrow> r_host r) of
           None \<Rightarrow> Inr (Suspend (Dropped lines), set_lstate DstDomain ACL_LOOKUP_DONE ck, st)
         | Some a \<Rightarrow> suspend DstDomain lines (ck\<lparr>dst_addr := a\<rparr>) st)
      else if lstate ck ProxyAuth = ACL_LOOKUP_NEEDED then suspend ProxyAuth lines ck st
      else if lstate ck ProxyAuth = ACL_PROXY_AUTH_NEEDED then Inr (Force ACCESS_REQ_PROXY_AUTH, ck, st)
      else if lstate ck Ident = ACL_LOOKUP_NEEDED then
        res_bind (cbdataValid (ck_conn ck) (reg st)) (\<lambda>v.
          if v then (if ck_conn ck = None then Inl Undefined else suspend Ident lines ck st)
          else res_bind (cbdataUnlock (ck_conn ck) (reg st)) (\<lambda>rg. Inr (Force ACCESS_DENIED, ck\<lparr>ck_conn := None\<rparr>, st\<lparr>reg := rg\<rparr>)))
      else if lstate ck External = ACL_LOOKUP_NEEDED then Inr (Suspend (Wait External lines), ck, st)
      else Inr (Proceed, ck, st))"

definition give_answer :: "acl_access \<Rightarrow> allow_t \<Rightarrow> aclCheck_t \<Rightarrow> check_state \<Rightarrow> (check_result \<times> aclCheck_t \<times> check_state) res" where
  "give_answer A al ck st = res_bind (cbdataUnlock (Some (line_ptr A)) (reg st)) (\<lambda>rg. Inr (Answer al, ck, st\<lparr>reg := rg\<rparr>))"

fun aclCheck :: "acl_env \<Rightarrow> acl_access list \<Rightarrow> allow_t \<Rightarrow> aclCheck_t \<Rightarrow> check_state \<Rightarrow> (check_result \<times> aclCheck_t \<times> check_state) res" where
  "aclCheck env [] al ck st = Inr (Answer (if al \<noteq> ACCESS_DENIED then ACCESS_DENIED else ACCESS_ALLOWED), ck, st)"
| "aclCheck env (A # rest) al ck st =
     res_bind (cbdataValid (Some (line_ptr A)) (reg st)) (\<lambda>v.
       if \<not> v then give_answer A (if al \<noteq> ACCESS_DENIED then ACCESS_DENIED else ACCESS_ALLOWED) ck st
       else res_bind (aclMatchAclList env (line_acls A) ck (acls st)) (\<lambda>(m, ck, as).
            res_bind (pending_lookup (A # rest) ck (st\<lparr>acls := as\<rparr>)) (\<lambda>(p, ck, st).
              case p of
                Suspend w \<Rightarrow> Inr (w, ck, st)
              | Force al \<Rightarrow> give_answer A al ck st
              | Proceed \<Rightarrow>
                  if m then give_answer A (allow A) ck st
                  else res_bind (cbdataLock (case rest of [] \<Rightarrow> None | B # _ \<Rightarrow> Some (line_ptr B)) (reg st)) (\<lambda>rg.
                       res_bind (cbdataUnlock (Some (line_ptr A)) rg) (\<lambda>rg.
                         aclCheck env rest (allow A) ck (st\<lparr>reg := rg\<rparr>))))))"

text \<open>The start of a check: the data of the callback are locked.\<close>

definition aclNBCheck ::
  "acl_env \<Rightarrow> acl_access list \<Rightarrow> nat option \<Rightarrow> aclCheck_t \<Rightarrow> check_state \<Rightarrow> (check_result \<times> aclCheck_t \<times> check_state) res" where
  "aclNBCheck env lines callback_data ck st =
     res_bind (cbdataLock callback_data (reg st)) (\<lambda>rg.
       aclCheck env lines ACCESS_DENIED (aclChecklistCacheInit env ck) (st\<lparr>reg := rg\<rparr>))"

text \<open>The callbacks of the lookups: the state is set, and the check goes on at its line. The callback for ident sets no state.\<close>

definition lookup_done :: "lookup \<Rightarrow> aclCheck_t \<Rightarrow> aclCheck_t" where
  "lookup_done l ck = (if l = Ident then ck else set_lstate l ACL_LOOKUP_DONE ck)"

text \<open>
  A check and the callbacks of its lookups, on a checklist that was filled in: each call of \<^verbatim>\<open>aclCheck\<close> has its own environment. \<^term>\<open>None\<close> is a check that
  waits for a lookup when the environments are used up.
\<close>

fun run_check :: "acl_env list \<Rightarrow> acl_access list \<Rightarrow> aclCheck_t \<Rightarrow> check_state \<Rightarrow> (allow_t \<times> check_state) option res" where
  "run_check [] lines ck st = Inr None"
| "run_check (env # envs) lines ck st =
     res_bind (aclCheck env lines ACCESS_DENIED ck st) (\<lambda>(w, ck, st).
       case w of
         Answer a \<Rightarrow> Inr (Some (a, st))
       | Wait l lines \<Rightarrow> run_check envs lines (lookup_done l ck) st
       | Dropped _ \<Rightarrow> Inr None)"

end
