(* ===== verification/Acl_Check_Correct.thy ===== *)
theory Acl_Check_Correct
  imports Acl_Check
begin

text \<open>
  Correctness of the access checks: what a list of lines decides, that both ways to go through it
  agree, that the locks on the lines are balanced, and that a check with lookups comes to an end.
\<close>

section \<open>What an access control answers\<close>

definition host_listed :: "string tree \<Rightarrow> string \<Rightarrow> bool" where
  "host_listed t h \<longleftrightarrow> (\<exists>d\<in>set_tree t. domain_matches (strip_dots h) d)"

definition fqdn_name :: "acl_env \<Rightarrow> in_addr \<Rightarrow> string" where
  "fqdn_name env a = (case fqdncache_gethostbyaddr env a of Some f \<Rightarrow> f | None \<Rightarrow> ''none'')"

definition of_request :: "aclCheck_t \<Rightarrow> (acl_request \<Rightarrow> bool) \<Rightarrow> int" where
  "of_request ck P = of_bool (case ck_request ck of None \<Rightarrow> False | Some r \<Rightarrow> P r)"

fun acl_answer :: "acl_env \<Rightarrow> aclCheck_t \<Rightarrow> acl_data \<Rightarrow> int" where
  "acl_answer env ck (ACL_SRC_IP t) = of_bool (ip_listed t (src_addr ck))"
| "acl_answer env ck (ACL_MY_IP t) = of_bool (ip_listed t (my_addr ck))"
| "acl_answer env ck (ACL_DST_IP t) =
     of_request ck (\<lambda>r. \<exists>as a. ipcache_gethostbyname env (r_host r) = Some as \<and> a \<in> set as \<and> ip_listed t a)"
| "acl_answer env ck (ACL_DST_DOMAIN t) =
     of_request ck (\<lambda>r. host_listed t (r_host r) \<or> (\<exists>a. ipcacheCheckNumeric (r_host r) = Some a \<and> host_listed t (fqdn_name env a)))"
| "acl_answer env ck (ACL_SRC_DOMAIN t) = of_bool (host_listed t (fqdn_name env (src_addr ck)))"
| "acl_answer env ck (ACL_TIME l) =
     of_bool (case localtime env of (h, m, d) \<Rightarrow> \<exists>x\<in>set l. start x \<le> h * 60 + m \<and> h * 60 + m \<le> stop x \<and> bit (weekbits x) d)"
| "acl_answer env ck (ACL_MAXCONN i) = of_bool (i < clientdbEstablished env (src_addr ck))"
| "acl_answer env ck (ACL_URL_PORT l) = of_request ck (\<lambda>r. \<exists>(lo, hi)\<in>set l. lo \<le> r_port r \<and> r_port r \<le> hi)"
| "acl_answer env ck (ACL_MY_PORT l) = of_bool (\<exists>(lo, hi)\<in>set l. lo \<le> my_port ck \<and> my_port ck \<le> hi)"
| "acl_answer env ck (ACL_TYPE ty) = of_request ck (\<lambda>r. aclMatchType ty (r_flags r))"
| "acl_answer env ck (ACL_PROTO l) = of_request ck (\<lambda>r. r_protocol r \<in> set l)"
| "acl_answer env ck (ACL_METHOD l) = of_request ck (\<lambda>r. r_method r \<in> set l)"
| "acl_answer env ck (ACL_OTHER i) = fst (match_other env i ck)"

text \<open>No lookup is needed for the answer: the caches know it, or the lookup was made.\<close>

fun acl_settled :: "acl_env \<Rightarrow> aclCheck_t \<Rightarrow> acl_data \<Rightarrow> bool" where
  "acl_settled env ck (ACL_DST_IP t) \<longleftrightarrow>
     (case ck_request ck of None \<Rightarrow> True | Some r \<Rightarrow> ipcache_gethostbyname env (r_host r) \<noteq> None \<or> lstate ck DstIP \<noteq> ACL_LOOKUP_NONE)"
| "acl_settled env ck (ACL_DST_DOMAIN t) \<longleftrightarrow>
     (case ck_request ck of None \<Rightarrow> True | Some r \<Rightarrow>
        (case ipcacheCheckNumeric (r_host r) of None \<Rightarrow> True | Some a \<Rightarrow>
           host_listed t (r_host r) \<or> fqdncache_gethostbyaddr env a \<noteq> None \<or> lstate ck DstDomain \<noteq> ACL_LOOKUP_NONE))"
| "acl_settled env ck (ACL_SRC_DOMAIN t) \<longleftrightarrow>
     fqdncache_gethostbyaddr env (src_addr ck) \<noteq> None \<or> lstate ck SrcDomain \<noteq> ACL_LOOKUP_NONE"
| "acl_settled env ck _ \<longleftrightarrow> True"

fun acl_ok :: "acl_data \<Rightarrow> bool" where
  "acl_ok (ACL_SRC_IP t) \<longleftrightarrow> ip.tree_ok t"
| "acl_ok (ACL_MY_IP t) \<longleftrightarrow> ip.tree_ok t"
| "acl_ok (ACL_DST_IP t) \<longleftrightarrow> ip.tree_ok t"
| "acl_ok (ACL_DST_DOMAIN t) \<longleftrightarrow> dom.tree_ok t"
| "acl_ok (ACL_SRC_DOMAIN t) \<longleftrightarrow> dom.tree_ok t"
| "acl_ok (ACL_TIME l) \<longleftrightarrow> l \<noteq> []"
| "acl_ok _ \<longleftrightarrow> True"

text \<open>
  Names that \<^verbatim>\<open>matchDomainName\<close> can compare, and no lookups by the controls that are not modelled.
\<close>

definition env_ok :: "acl_env \<Rightarrow> acl_request option \<Rightarrow> bool" where
  "env_ok env req \<longleftrightarrow> (\<forall>r. req = Some r \<longrightarrow> host_ok (r_host r)) \<and> (\<forall>a f. fqdncache_gethostbyaddr env a = Some f \<longrightarrow> host_ok f) \<and>
     (\<forall>i ck. snd (match_other env i ck) = ck)"

text \<open>The state a control leaves behind: lookups may have been asked for.\<close>

definition numeric_host :: "aclCheck_t \<Rightarrow> bool" where
  "numeric_host ck \<longleftrightarrow> (\<exists>r. ck_request ck = Some r \<and> ipcacheCheckNumeric (r_host r) \<noteq> None)"

definition may_ask :: "aclCheck_t \<Rightarrow> lookup \<Rightarrow> bool" where
  "may_ask ck l \<longleftrightarrow> lstate ck l = ACL_LOOKUP_NONE \<and> l \<in> {DstIP, SrcDomain, DstDomain} \<and> (l = DstDomain \<longrightarrow> numeric_host ck)"

definition asks :: "aclCheck_t \<Rightarrow> aclCheck_t \<Rightarrow> bool" where
  "asks ck ck' \<longleftrightarrow> (\<exists>f. ck' = ck\<lparr>lstate := f\<rparr> \<and> (\<forall>l. f l = lstate ck l \<or> may_ask ck l \<and> f l = ACL_LOOKUP_NEEDED))"

lemma asks_refl [simp]: "asks ck ck"
  unfolding asks_def by (rule exI [of _ "lstate ck"]) simp

lemma asks_set: "may_ask ck l \<Longrightarrow> asks ck (set_lstate l ACL_LOOKUP_NEEDED ck)"
  unfolding asks_def set_lstate_def by (rule exI [of _ "(lstate ck)(l := ACL_LOOKUP_NEEDED)"]) auto

lemma asks_fields: "asks ck ck' \<Longrightarrow> ck_request ck' = ck_request ck" "asks ck ck' \<Longrightarrow> ck_conn ck' = ck_conn ck"
  by (auto simp: asks_def)

lemma asks_lstate:
  assumes "asks ck ck'"
  shows "lstate ck' l = lstate ck l \<or> may_ask ck l \<and> lstate ck' l = ACL_LOOKUP_NEEDED"
  using assms by (auto simp: asks_def)

text \<open>Two forms of the same control.\<close>

definition same_acl :: "acl_data \<Rightarrow> acl_data \<Rightarrow> bool" where
  "same_acl d d' \<longleftrightarrow> (\<forall>env ck. acl_answer env ck d' = acl_answer env ck d \<and> acl_settled env ck d' = acl_settled env ck d) \<and>
     (acl_ok d \<longrightarrow> acl_ok d')"

lemma same_acl_refl [simp]: "same_acl d d"
  by (simp add: same_acl_def)

section \<open>The tests\<close>

lemma aclMatchDomainList_ok:
  assumes "dom.tree_ok t" "host_ok h"
  shows "\<exists>t'. aclMatchDomainList t (Some h) = Inr (host_listed t h, t') \<and> dom.tree_ok t' \<and> set_tree t' = set_tree t"
proof -
  obtain res t' where l: "splay_splay (aclHostDomainCompare h) t = Inr (res, t')" "inorder t' = inorder t"
    "res = 0 \<longleftrightarrow> (\<exists>d\<in>set_tree t. dom.covers d (rkey (strip_dots h)))" using dom.lookup [OF assms(2,1)] by auto
  have s: "set_tree t' = set_tree t" by (rule set_tree_inorder) (rule l(2))
  have "dom.tree_ok t'" using assms(1) l(2) s by (simp add: dom.tree_ok_def)
  moreover have "(\<exists>d\<in>set_tree t. dom.covers d (rkey (strip_dots h))) \<longleftrightarrow> host_listed t h"
    using assms covers_matches unfolding dom.tree_ok_def host_listed_def by blast
  ultimately show ?thesis using l(1,3) s by (auto simp: aclMatchDomainList_def)
qed

lemma match_any_ip_ok:
  assumes "ip.tree_ok t"
  shows "\<exists>t'. match_any_ip t as = Inr (\<exists>a\<in>set as. ip_listed t a, t') \<and> ip.tree_ok t' \<and> set_tree t' = set_tree t"
  using assms
proof (induction as arbitrary: t)
  case (Cons a as)
  obtain t1 where t1: "aclMatchIp t a = Inr (ip_listed t a, t1)" "ip.tree_ok t1" "set_tree t1 = set_tree t"
    using aclMatchIp_ok [OF Cons.prems] by blast
  obtain t2 where t2: "match_any_ip t1 as = Inr (\<exists>a\<in>set as. ip_listed t1 a, t2)" "ip.tree_ok t2" "set_tree t2 = set_tree t1"
    using Cons.IH [OF t1(2)] by blast
  have "ip_listed t1 x = ip_listed t x" for x using t1(3) by (simp add: ip_listed_def)
  then show ?case using t1 t2 by (cases "ip_listed t a") auto
qed auto

text \<open>Controls with the same entries are the same.\<close>

lemma same_acl_trees:
  assumes "set_tree t' = set_tree t"
  shows "ip.tree_ok t' \<Longrightarrow> wrap \<in> {ACL_SRC_IP, ACL_MY_IP, ACL_DST_IP} \<Longrightarrow> same_acl (wrap t) (wrap t')"
  using assms by (auto simp: same_acl_def ip_listed_def)

lemma same_acl_domains:
  assumes "set_tree t' = set_tree t" "dom.tree_ok t'"
  shows "same_acl (ACL_DST_DOMAIN t) (ACL_DST_DOMAIN t')" "same_acl (ACL_SRC_DOMAIN t) (ACL_SRC_DOMAIN t')"
proof -
  have "host_listed t' = host_listed t" using assms(1) by (simp add: host_listed_def fun_eq_iff)
  then show "same_acl (ACL_DST_DOMAIN t) (ACL_DST_DOMAIN t')" "same_acl (ACL_SRC_DOMAIN t) (ACL_SRC_DOMAIN t')"
    using assms(2) by (simp_all add: same_acl_def cong: option.case_cong)
qed

lemma same_acl_lists:
  assumes "set l' = set l"
  shows "same_acl (ACL_URL_PORT l) (ACL_URL_PORT l')" "same_acl (ACL_MY_PORT l) (ACL_MY_PORT l')"
  using assms by (auto simp: same_acl_def)

lemma same_acl_ints:
  assumes "set l' = set l"
  shows "same_acl (ACL_PROTO l) (ACL_PROTO l')" "same_acl (ACL_METHOD l) (ACL_METHOD l')"
  using assms by (auto simp: same_acl_def)

text \<open>
  The test of one control: it succeeds, keeps the control, and gives its answer if no lookup is
  needed; otherwise the answer is 0 and the lookup is asked for.
\<close>

definition match_ok :: "acl_env \<Rightarrow> aclCheck_t \<Rightarrow> acl_data \<Rightarrow> bool" where
  "match_ok env ck d \<longleftrightarrow> (\<exists>ans ck' d'. aclMatchAcl env ck d = Inr (ans, ck', d') \<and> same_acl d d' \<and> asks ck ck' \<and>
     (acl_settled env ck d \<longrightarrow> ans = acl_answer env ck d \<and> ck' = ck))"

lemma match_okI:
  assumes "aclMatchAcl env ck d = Inr (ans, ck', d')" "same_acl d d'" "asks ck ck'"
    "acl_settled env ck d \<Longrightarrow> ans = acl_answer env ck d \<and> ck' = ck"
  shows "match_ok env ck d"
  unfolding match_ok_def using assms by blast

lemma match_ok_ip:
  assumes "ip.tree_ok t"
  shows "match_ok env ck (ACL_SRC_IP t)" "match_ok env ck (ACL_MY_IP t)" "match_ok env ck (ACL_DST_IP t)"
proof -
  obtain t1 t2 where "aclMatchIp t (src_addr ck) = Inr (ip_listed t (src_addr ck), t1)" "ip.tree_ok t1" "set_tree t1 = set_tree t"
    "aclMatchIp t (my_addr ck) = Inr (ip_listed t (my_addr ck), t2)" "ip.tree_ok t2" "set_tree t2 = set_tree t"
    using aclMatchIp_ok [OF assms] by metis
  then show "match_ok env ck (ACL_SRC_IP t)" "match_ok env ck (ACL_MY_IP t)"
    by (auto intro!: match_okI same_acl_trees simp: answer_with_def)
  show "match_ok env ck (ACL_DST_IP t)"
  proof (cases "ck_request ck")
    case None
    then show ?thesis by (auto intro!: match_okI simp: with_request_def of_request_def)
  next
    case r: (Some r)
    show ?thesis
    proof (cases "ipcache_gethostbyname env (r_host r)")
      case None
      have "asks ck (set_lstate DstIP ACL_LOOKUP_NEEDED ck)" if "lstate ck DstIP = ACL_LOOKUP_NONE"
        using that by (simp add: asks_set may_ask_def)
      then show ?thesis using r None by (auto intro!: match_okI simp: with_request_def of_request_def match_dst_ip_def)
    next
      case (Some as)
      obtain t' where "match_any_ip t as = Inr (\<exists>a\<in>set as. ip_listed t a, t')" "ip.tree_ok t'" "set_tree t' = set_tree t"
        using match_any_ip_ok [OF assms] by blast
      then show ?thesis using r Some
        by (auto intro!: match_okI same_acl_trees simp: with_request_def of_request_def match_dst_ip_def answer_with_def)
    qed
  qed
qed

lemma match_fqdn_ok:
  assumes "dom.tree_ok t" "env_ok env req"
  shows "\<exists>t'. dom.tree_ok t' \<and> set_tree t' = set_tree t \<and>
    match_fqdn env ck l wrap t a =
      (if fqdncache_gethostbyaddr env a = None \<and> lstate ck l = ACL_LOOKUP_NONE then Inr (0, set_lstate l ACL_LOOKUP_NEEDED ck, wrap t')
       else Inr (of_bool (host_listed t (fqdn_name env a)), ck, wrap t'))"
proof (cases "fqdncache_gethostbyaddr env a = None \<and> lstate ck l = ACL_LOOKUP_NONE")
  case True
  then show ?thesis using assms(1) by (auto simp: match_fqdn_def)
next
  case False
  have "host_ok (fqdn_name env a)"
    using assms(2) by (auto simp: fqdn_name_def env_ok_def host_ok_def split: option.splits)
  from aclMatchDomainList_ok [OF assms(1) this] obtain t' where
    "aclMatchDomainList t (Some (fqdn_name env a)) = Inr (host_listed t (fqdn_name env a), t')" "dom.tree_ok t'" "set_tree t' = set_tree t"
    by blast
  then show ?thesis using False by (auto simp: match_fqdn_def answer_with_def fqdn_name_def split: option.splits)
qed

lemma match_ok_src_domain:
  assumes "dom.tree_ok t" "env_ok env (ck_request ck)"
  shows "match_ok env ck (ACL_SRC_DOMAIN t)"
proof -
  let ?ask = "fqdncache_gethostbyaddr env (src_addr ck) = None \<and> lstate ck SrcDomain = ACL_LOOKUP_NONE"
  have "asks ck (set_lstate SrcDomain ACL_LOOKUP_NEEDED ck)" if "lstate ck SrcDomain = ACL_LOOKUP_NONE"
    using that by (simp add: asks_set may_ask_def)
  moreover obtain t' where "dom.tree_ok t'" "set_tree t' = set_tree t"
    "aclMatchAcl env ck (ACL_SRC_DOMAIN t) =
      (if ?ask then Inr (0, set_lstate SrcDomain ACL_LOOKUP_NEEDED ck, ACL_SRC_DOMAIN t')
       else Inr (of_bool (host_listed t (fqdn_name env (src_addr ck))), ck, ACL_SRC_DOMAIN t'))"
    using match_fqdn_ok [OF assms, of ck SrcDomain ACL_SRC_DOMAIN "src_addr ck"] by auto
  ultimately show ?thesis using same_acl_domains(2) [of t' t]
    by (cases ?ask) (auto simp: match_ok_def simp del: aclMatchAcl.simps)
qed

lemma match_ok_dst_domain:
  assumes "dom.tree_ok t" "env_ok env (ck_request ck)"
  shows "match_ok env ck (ACL_DST_DOMAIN t)"
proof (cases "ck_request ck")
  case None
  then show ?thesis by (auto intro!: match_okI simp: with_request_def of_request_def)
next
  case r: (Some r)
  then have "host_ok (r_host r)" using assms(2) by (simp add: env_ok_def)
  from aclMatchDomainList_ok [OF assms(1) this] obtain t1 where
    t1: "aclMatchDomainList t (Some (r_host r)) = Inr (host_listed t (r_host r), t1)" "dom.tree_ok t1" "set_tree t1 = set_tree t" by blast
  show ?thesis
  proof (cases "host_listed t (r_host r) \<or> ipcacheCheckNumeric (r_host r) = None")
    case True
    then show ?thesis using r t1
      by (auto intro!: match_okI same_acl_domains simp: with_request_def of_request_def match_dst_domain_def)
  next
    case False
    then obtain a where a: "ipcacheCheckNumeric (r_host r) = Some a" by auto
    let ?ask = "fqdncache_gethostbyaddr env a = None \<and> lstate ck DstDomain = ACL_LOOKUP_NONE"
    have "asks ck (set_lstate DstDomain ACL_LOOKUP_NEEDED ck)" if "lstate ck DstDomain = ACL_LOOKUP_NONE"
      using that a r by (simp add: asks_set may_ask_def numeric_host_def)
    moreover obtain t' where "dom.tree_ok t'" "set_tree t' = set_tree t1"
      "match_fqdn env ck DstDomain ACL_DST_DOMAIN t1 a =
        (if ?ask then Inr (0, set_lstate DstDomain ACL_LOOKUP_NEEDED ck, ACL_DST_DOMAIN t')
         else Inr (of_bool (host_listed t1 (fqdn_name env a)), ck, ACL_DST_DOMAIN t'))"
      using match_fqdn_ok [OF t1(2) assms(2)] by blast
    moreover have "host_listed t1 = host_listed t" using t1(3) by (simp add: host_listed_def fun_eq_iff)
    ultimately show ?thesis using r t1(1,3) False a same_acl_domains(1) [of t' t]
      by (cases ?ask) (auto simp: match_ok_def with_request_def of_request_def match_dst_domain_def)
  qed
qed

lemma match_ok_request:
  assumes "aclMatchAcl env ck d = with_request ck d (\<lambda>r. answer_with ck wrap (Inr (m r)))"
    "\<And>r. same_acl d (wrap (snd (m r)))" "acl_answer env ck d = of_request ck (\<lambda>r. fst (m r))"
  shows "match_ok env ck d"
proof (cases "ck_request ck")
  case None
  then show ?thesis using assms(1,3) by (simp add: match_ok_def with_request_def of_request_def)
next
  case (Some r)
  obtain b l where "m r = (b, l)" by (cases "m r")
  then show ?thesis using Some assms(1,3) assms(2) [of r] by (simp add: match_ok_def with_request_def of_request_def answer_with_def)
qed

lemma aclMatchInteger_ok: "fst (aclMatchInteger l i) \<longleftrightarrow> i \<in> set l" "set (snd (aclMatchInteger l i)) = set l"
  by (auto simp: aclMatchInteger_def match_shift_found match_shift_set)

lemma aclMatchIntegerRange_ok:
  "fst (aclMatchIntegerRange l i) \<longleftrightarrow> (\<exists>(lo, hi)\<in>set l. lo \<le> i \<and> i \<le> hi)" "set (snd (aclMatchIntegerRange l i)) = set l"
  by (auto simp: aclMatchIntegerRange_def match_shift_found match_shift_set not_less)

lemma aclMatchAcl_ok:
  assumes "acl_ok d" "env_ok env (ck_request ck)"
  shows "match_ok env ck d"
proof (cases d)
  case (ACL_URL_PORT l)
  show ?thesis unfolding ACL_URL_PORT
    by (rule match_ok_request [where wrap = ACL_URL_PORT and m = "\<lambda>r. aclMatchIntegerRange l (r_port r)"])
      (simp_all add: aclMatchIntegerRange_ok same_acl_lists)
next
  case (ACL_MY_PORT l)
  obtain b l' where m: "aclMatchIntegerRange l (my_port ck) = (b, l')" by (cases "aclMatchIntegerRange l (my_port ck)")
  then have "b \<longleftrightarrow> (\<exists>(lo, hi)\<in>set l. lo \<le> my_port ck \<and> my_port ck \<le> hi)" "set l' = set l"
    using aclMatchIntegerRange_ok [of l "my_port ck"] by simp_all
  then show ?thesis using same_acl_lists(2) [of l' l] by (simp add: ACL_MY_PORT match_ok_def answer_with_def m)
next
  case (ACL_PROTO l)
  show ?thesis unfolding ACL_PROTO
    by (rule match_ok_request [where wrap = ACL_PROTO and m = "\<lambda>r. aclMatchInteger l (r_protocol r)"])
      (simp_all add: aclMatchInteger_ok same_acl_ints)
next
  case (ACL_METHOD l)
  show ?thesis unfolding ACL_METHOD
    by (rule match_ok_request [where wrap = ACL_METHOD and m = "\<lambda>r. aclMatchInteger l (r_method r)"])
      (simp_all add: aclMatchInteger_ok same_acl_ints)
next
  case (ACL_TIME l)
  then show ?thesis using assms(1) by (cases "localtime env") (auto simp: match_ok_def aclMatchTime_def list_ex_iff Let_def)
next
  case (ACL_TYPE ty)
  then show ?thesis by (cases "ck_request ck") (auto simp: match_ok_def with_request_def of_request_def)
next
  case (ACL_OTHER i)
  have "snd (match_other env i ck) = ck" using assms(2) by (simp add: env_ok_def)
  then show ?thesis by (simp add: ACL_OTHER match_ok_def split_beta)
qed (use assms match_ok_ip match_ok_src_domain match_ok_dst_domain in \<open>auto simp: match_ok_def\<close>)

section \<open>Lines\<close>

definition same_acls :: "acl_data list \<Rightarrow> acl_data list \<Rightarrow> bool" where
  "same_acls as as' \<longleftrightarrow> list_all2 same_acl as as'"

definition acls_ok :: "acl_access list \<Rightarrow> acl_data list \<Rightarrow> bool" where
  "acls_ok lines as \<longleftrightarrow> (\<forall>d\<in>set as. acl_ok d) \<and> (\<forall>A\<in>set lines. \<forall>(op, i)\<in>set (line_acls A). i < length as)"

definition line_matches :: "acl_env \<Rightarrow> aclCheck_t \<Rightarrow> acl_data list \<Rightarrow> acl_list \<Rightarrow> bool" where
  "line_matches env ck as l \<longleftrightarrow> (\<forall>(op, i)\<in>set l. acl_answer env ck (as ! i) = op)"

definition line_settled :: "acl_env \<Rightarrow> aclCheck_t \<Rightarrow> acl_data list \<Rightarrow> acl_list \<Rightarrow> bool" where
  "line_settled env ck as l \<longleftrightarrow> (\<forall>(op, i)\<in>set l. acl_settled env ck (as ! i))"

lemma same_acl_trans: "same_acl a b \<Longrightarrow> same_acl b c \<Longrightarrow> same_acl a c"
  by (simp add: same_acl_def)

lemma same_acls_refl [simp]: "same_acls as as"
  by (simp add: same_acls_def list_all2_refl)

lemma same_acls_trans: "same_acls a b \<Longrightarrow> same_acls b c \<Longrightarrow> same_acls a c"
  unfolding same_acls_def by (rule list_all2_trans [OF same_acl_trans])

lemma same_acls_update: "i < length as \<Longrightarrow> same_acl (as ! i) d \<Longrightarrow> same_acls as (as[i := d])"
  unfolding same_acls_def by (auto simp: list_all2_conv_all_nth nth_list_update)

lemma same_acls_nth:
  assumes "same_acls as as'" "i < length as"
  shows "acl_answer env ck (as' ! i) = acl_answer env ck (as ! i)" "acl_settled env ck (as' ! i) = acl_settled env ck (as ! i)"
  using assms by (auto simp: same_acls_def list_all2_conv_all_nth same_acl_def)

lemma same_acls_ok: "same_acls as as' \<Longrightarrow> acls_ok lines as \<Longrightarrow> acls_ok lines as'"
  by (simp add: same_acls_def acls_ok_def list_all2_conv_all_nth same_acl_def all_set_conv_all_nth [of as] all_set_conv_all_nth [of as'])

lemma same_acls_line:
  assumes "same_acls as as'" "\<forall>(op, i)\<in>set l. i < length as"
  shows "line_matches env ck as' l = line_matches env ck as l" "line_settled env ck as' l = line_settled env ck as l"
  using assms(2) same_acls_nth [OF assms(1)] by (simp_all add: line_matches_def line_settled_def split_beta cong: ball_cong)

lemma asks_trans:
  assumes "asks a b" "asks b c"
  shows "asks a c"
proof -
  obtain f g where b: "b = a\<lparr>lstate := f\<rparr>" "\<forall>l. f l = lstate a l \<or> may_ask a l \<and> f l = ACL_LOOKUP_NEEDED"
    and c: "c = b\<lparr>lstate := g\<rparr>" "\<forall>l. g l = lstate b l \<or> may_ask b l \<and> g l = ACL_LOOKUP_NEEDED"
    using assms unfolding asks_def by blast
  have "may_ask b l \<longrightarrow> f l = lstate a l \<longrightarrow> may_ask a l" for l by (simp add: b(1) may_ask_def numeric_host_def)
  moreover have "lstate b = f" by (simp add: b(1))
  ultimately have "\<forall>l. g l = lstate a l \<or> may_ask a l \<and> g l = ACL_LOOKUP_NEEDED" using b(2) c(2) by metis
  then show ?thesis unfolding asks_def using b(1) c(1) by (intro exI [of _ g]) simp
qed

lemma aclMatchAclList_ok:
  assumes "\<forall>d\<in>set as. acl_ok d" "\<forall>(op, i)\<in>set l. i < length as" "env_ok env (ck_request ck)"
  shows "\<exists>m ck' as'. aclMatchAclList env l ck as = Inr (m, ck', as') \<and> same_acls as as' \<and> asks ck ck' \<and>
    (line_settled env ck as l \<longrightarrow> ck' = ck \<and> m = line_matches env ck as l)"
  using assms
proof (induction l arbitrary: ck as)
  case Nil
  have "line_matches env ck as []" by (simp add: line_matches_def)
  then show ?case by auto
next
  case (Cons x l)
  obtain op i where x: "x = (op, i)" by (cases x)
  have i: "i < length as" "acl_ok (as ! i)" using Cons.prems(1,2) x by auto
  obtain ans ck1 d where d: "aclMatchAcl env ck (as ! i) = Inr (ans, ck1, d)" "same_acl (as ! i) d" "asks ck ck1"
    "acl_settled env ck (as ! i) \<longrightarrow> ans = acl_answer env ck (as ! i) \<and> ck1 = ck"
    using aclMatchAcl_ok [OF i(2) Cons.prems(3)] by (auto simp: match_ok_def)
  let ?as = "as[i := d]"
  have same: "same_acls as ?as" using same_acls_update i(1) d(2) by blast
  have "\<forall>d\<in>set ?as. acl_ok d" using same_acls_ok [OF same, of "[]"] Cons.prems(1) by (simp add: acls_ok_def)
  moreover have idx: "\<forall>(op, i)\<in>set l. i < length as" using Cons.prems(2) by auto
  ultimately obtain m ck2 as2 where m: "aclMatchAclList env l ck1 ?as = Inr (m, ck2, as2)" "same_acls ?as as2" "asks ck1 ck2"
    "line_settled env ck1 ?as l \<longrightarrow> ck2 = ck1 \<and> m = line_matches env ck1 ?as l"
    using Cons.IH [of ?as ck1] asks_fields(1) [OF d(3)] Cons.prems(3) by auto
  show ?case
  proof (cases "ans = op")
    case True
    have "line_settled env ck as (x # l) \<longrightarrow> ck2 = ck \<and> m = line_matches env ck as (x # l)"
      using d(4) m(4) same_acls_line [OF same idx] True by (auto simp: line_settled_def line_matches_def x)
    then show ?thesis using True d(1,3) m i same_acls_trans [OF same m(2)] asks_trans [OF d(3) m(3)] by (simp add: x)
  next
    case False
    then have "line_settled env ck as (x # l) \<longrightarrow> ck1 = ck \<and> \<not> line_matches env ck as (x # l)"
      using d(4) by (auto simp: line_settled_def line_matches_def x)
    then show ?thesis using False d i same by (auto simp: x)
  qed
qed

text \<open>
  The decision of an access list: the first line all of whose controls match, or else the opposite
  of the last line. \<open>al\<close> is the setting of the line before.
\<close>

fun decision :: "acl_env \<Rightarrow> aclCheck_t \<Rightarrow> acl_data list \<Rightarrow> acl_access list \<Rightarrow> allow_t \<Rightarrow> allow_t" where
  "decision env ck as [] al = (if al \<noteq> ACCESS_DENIED then ACCESS_DENIED else ACCESS_ALLOWED)"
| "decision env ck as (A # rest) al = (if line_matches env ck as (line_acls A) then allow A else decision env ck as rest (allow A))"

lemma decision_same:
  assumes "same_acls as as'" "acls_ok lines as"
  shows "decision env ck as' lines al = decision env ck as lines al"
  using assms(2) same_acls_line(1) [OF assms(1)] by (induction lines arbitrary: al) (auto simp: acls_ok_def)

lemma check_fast_ok:
  assumes "acls_ok lines as" "env_ok env (ck_request ck)" "\<forall>A\<in>set lines. line_settled env ck as (line_acls A)"
  shows "\<exists>as'. check_fast_loop env lines al ck as = Inr (decision env ck as lines al = ACCESS_ALLOWED, ck, as') \<and> same_acls as as'"
  using assms
proof (induction lines arbitrary: al as)
  case (Cons A rest)
  have pre: "\<forall>d\<in>set as. acl_ok d" "\<forall>(op, i)\<in>set (line_acls A). i < length as" "line_settled env ck as (line_acls A)"
    using Cons.prems by (auto simp: acls_ok_def)
  obtain as1 where m: "aclMatchAclList env (line_acls A) ck as = Inr (line_matches env ck as (line_acls A), ck, as1)" "same_acls as as1"
    using aclMatchAclList_ok [OF pre(1,2) Cons.prems(2)] pre(3) by blast
  have "acls_ok rest as" using Cons.prems(1) by (simp add: acls_ok_def)
  then have ok: "acls_ok rest as1" "acls_ok rest as" using same_acls_ok [OF m(2)] by simp_all
  moreover have "\<forall>B\<in>set rest. line_settled env ck as1 (line_acls B)"
    using Cons.prems(1,3) same_acls_line(2) [OF m(2)] by (auto simp: acls_ok_def)
  ultimately obtain as2 where "check_fast_loop env rest (allow A) ck as1 = Inr (decision env ck as1 rest (allow A) = ACCESS_ALLOWED, ck, as2)"
    "same_acls as1 as2" using Cons.IH [of as1 "allow A"] Cons.prems(2) by blast
  then show ?case using m same_acls_trans decision_same [OF m(2) ok(2)] by auto
qed auto

section \<open>The check with locks\<close>

text \<open>The lines are valid callback data, and the first of them is locked.\<close>

definition regs_ok :: "cbdata_state \<Rightarrow> acl_access list \<Rightarrow> bool" where
  "regs_ok rg lines \<longleftrightarrow> cb_ok rg \<and> distinct (map line_ptr lines) \<and>
     (\<forall>A\<in>set lines. is_valid rg (line_ptr A) \<and> lock_count rg (line_ptr A) \<noteq> None) \<and>
     (\<forall>A rest. lines = A # rest \<longrightarrow> (\<exists>n. lock_count rg (line_ptr A) = Some (Suc n)))"

definition unlocked :: "(nat \<Rightarrow> nat option) \<Rightarrow> acl_access list \<Rightarrow> nat \<Rightarrow> nat option" where
  "unlocked f lines = (case lines of [] \<Rightarrow> f | A # _ \<Rightarrow> f(line_ptr A := map_option (\<lambda>n. n - 1) (f (line_ptr A))))"

lemma regs_ok_first:
  assumes "regs_ok rg (A # rest)"
  shows "cbdataValid (Some (line_ptr A)) rg = Inr True"
    "\<exists>rg'. cbdataUnlock (Some (line_ptr A)) rg = Inr rg' \<and> cb_ok rg' \<and> lock_count rg' = unlocked (lock_count rg) (A # rest) \<and>
       is_valid rg' = is_valid rg"
proof -
  obtain n where n: "lock_count rg (line_ptr A) = Some (Suc n)" using assms by (auto simp: regs_ok_def)
  then show "cbdataValid (Some (line_ptr A)) rg = Inr True" using assms valid_ok [OF n] by (simp add: regs_ok_def)
  show "\<exists>rg'. cbdataUnlock (Some (line_ptr A)) rg = Inr rg' \<and> cb_ok rg' \<and> lock_count rg' = unlocked (lock_count rg) (A # rest) \<and>
       is_valid rg' = is_valid rg"
    using unlock_ok [of rg, OF _ n] assms n by (auto simp: regs_ok_def unlocked_def)
qed

text \<open>Going to the next line: it is locked, then the lock on the line before is given up.\<close>

lemma regs_ok_next:
  assumes "regs_ok rg (A # rest)"
  shows "\<exists>rg1 rg2. cbdataLock (case rest of [] \<Rightarrow> None | B # _ \<Rightarrow> Some (line_ptr B)) rg = Inr rg1 \<and>
    cbdataUnlock (Some (line_ptr A)) rg1 = Inr rg2 \<and> regs_ok rg2 rest \<and>
    unlocked (lock_count rg2) rest = unlocked (lock_count rg) (A # rest)"
proof (cases rest)
  case Nil
  then show ?thesis using regs_ok_first(2) [OF assms] by (auto simp: cbdataLock_def regs_ok_def unlocked_def)
next
  case (Cons B more)
  obtain n m where n: "lock_count rg (line_ptr A) = Some (Suc n)" and m: "lock_count rg (line_ptr B) = Some m"
    using assms Cons by (auto simp: regs_ok_def)
  have ne: "line_ptr B \<noteq> line_ptr A" "cb_ok rg" using assms Cons by (auto simp: regs_ok_def)
  obtain rg1 where r1: "cbdataLock (Some (line_ptr B)) rg = Inr rg1" "cb_ok rg1"
    "lock_count rg1 = (lock_count rg)(line_ptr B := Some (Suc m))" "is_valid rg1 = is_valid rg"
    using lock_ok [OF ne(2) m] by blast
  have n1: "lock_count rg1 (line_ptr A) = Some (Suc n)" "is_valid rg1 (line_ptr A)" using r1 n ne assms by (auto simp: regs_ok_def)
  obtain rg2 where r2: "cbdataUnlock (Some (line_ptr A)) rg1 = Inr rg2" "cb_ok rg2"
    "lock_count rg2 = (lock_count rg1)(line_ptr A := Some n)" "is_valid rg2 = is_valid rg1"
    using unlock_ok [OF r1(2) n1(1)] n1(2) by auto
  have "regs_ok rg2 rest" using assms r1 r2 Cons by (auto simp: regs_ok_def)
  moreover have "unlocked (lock_count rg2) rest = unlocked (lock_count rg) (A # rest)"
    using r1(3) r2(3) n m ne(1) Cons by (auto simp: unlocked_def fun_eq_iff)
  ultimately show ?thesis using r1(1) r2(1) Cons by auto
qed


text \<open>The data of the callback are locked, too.\<close>

definition locked :: "(nat \<Rightarrow> nat option) \<Rightarrow> nat option \<Rightarrow> nat \<Rightarrow> nat option" where
  "locked f ptr = (case ptr of None \<Rightarrow> f | Some p \<Rightarrow> f(p := map_option Suc (f p)))"

lemma regs_ok_lock:
  assumes "regs_ok rg lines" "\<forall>p. ptr = Some p \<longrightarrow> lock_count rg p \<noteq> None"
  shows "\<exists>rg'. cbdataLock ptr rg = Inr rg' \<and> regs_ok rg' lines \<and> lock_count rg' = locked (lock_count rg) ptr"
proof (cases ptr)
  case None
  then show ?thesis using assms(1) by (simp add: cbdataLock_def locked_def)
next
  case (Some p)
  then obtain m where m: "lock_count rg p = Some m" using assms(2) by auto
  obtain rg' where r: "cbdataLock (Some p) rg = Inr rg'" "cb_ok rg'" "lock_count rg' = (lock_count rg)(p := Some (Suc m))" "is_valid rg' = is_valid rg"
    using lock_ok [OF _ m] assms(1) by (auto simp: regs_ok_def)
  then have "regs_ok rg' lines" using assms(1) by (auto simp: regs_ok_def)
  then show ?thesis using r Some m by (simp add: locked_def)
qed

text \<open>No lookup is outstanding.\<close>

definition quiet :: "aclCheck_t \<Rightarrow> bool" where
  "quiet ck \<longleftrightarrow> (\<forall>l. lstate ck l \<notin> {ACL_LOOKUP_NEEDED, ACL_PROXY_AUTH_NEEDED})"

lemma quiet_no_lookup: "quiet ck \<Longrightarrow> pending_lookup lines ck st = Inr (Proceed, ck, st)"
  by (simp add: quiet_def pending_lookup_def)

lemma aclCheck_settled:
  assumes "acls_ok lines (acls st)" "env_ok env (ck_request ck)" "\<forall>A\<in>set lines. line_settled env ck (acls st) (line_acls A)"
    "quiet ck" "regs_ok (reg st) lines"
  shows "\<exists>st'. aclCheck env lines al ck st = Inr (Answer (decision env ck (acls st) lines al), ck, st') \<and>
    same_acls (acls st) (acls st') \<and> cb_ok (reg st') \<and> lock_count (reg st') = unlocked (lock_count (reg st)) lines"
  using assms
proof (induction lines arbitrary: al st)
  case Nil
  then show ?case by (simp add: unlocked_def regs_ok_def)
next
  case (Cons A rest)
  have pre: "\<forall>d\<in>set (acls st). acl_ok d" "\<forall>(op, i)\<in>set (line_acls A). i < length (acls st)" "line_settled env ck (acls st) (line_acls A)"
    using Cons.prems by (auto simp: acls_ok_def)
  obtain as1 where m: "aclMatchAclList env (line_acls A) ck (acls st) = Inr (line_matches env ck (acls st) (line_acls A), ck, as1)"
    "same_acls (acls st) as1" using aclMatchAclList_ok [OF pre(1,2) Cons.prems(2)] pre(3) by blast
  note v = regs_ok_first [OF Cons.prems(5)] and q = quiet_no_lookup [OF Cons.prems(4)]
  show ?case
  proof (cases "line_matches env ck (acls st) (line_acls A)")
    case True
    obtain rg where "cbdataUnlock (Some (line_ptr A)) (reg st) = Inr rg" "cb_ok rg" "lock_count rg = unlocked (lock_count (reg st)) (A # rest)"
      using v(2) by blast
    then show ?thesis using True m v(1) q by (simp add: give_answer_def)
  next
    case False
    obtain rg1 rg2 where r: "cbdataLock (case rest of [] \<Rightarrow> None | B # _ \<Rightarrow> Some (line_ptr B)) (reg st) = Inr rg1"
      "cbdataUnlock (Some (line_ptr A)) rg1 = Inr rg2" "regs_ok rg2 rest"
      "unlocked (lock_count rg2) rest = unlocked (lock_count (reg st)) (A # rest)" using regs_ok_next [OF Cons.prems(5)] by blast
    let ?st = "st\<lparr>acls := as1, reg := rg2\<rparr>"
    have ok: "acls_ok rest (acls st)" using Cons.prems(1) by (simp add: acls_ok_def)
    then have "acls_ok rest (acls ?st)" using same_acls_ok [OF m(2)] by simp
    moreover have "\<forall>B\<in>set rest. line_settled env ck (acls ?st) (line_acls B)"
      using Cons.prems(1,3) same_acls_line(2) [OF m(2)] by (auto simp: acls_ok_def)
    ultimately obtain st' where "aclCheck env rest (allow A) ck ?st = Inr (Answer (decision env ck as1 rest (allow A)), ck, st')"
      "same_acls as1 (acls st')" "cb_ok (reg st')" "lock_count (reg st') = unlocked (lock_count rg2) rest"
      using Cons.IH [of ?st "allow A"] Cons.prems(2,4) r(3) by auto
    then show ?thesis using False m v(1) q r same_acls_trans [OF m(2)] decision_same [OF m(2) ok] by simp
  qed
qed

section \<open>Lookups\<close>

text \<open>The lookups that may still be started, and the states between two calls.\<close>

definition open_lookups :: "aclCheck_t \<Rightarrow> nat" where
  "open_lookups ck = card {l \<in> {DstIP, SrcDomain, DstDomain}. lstate ck l \<in> {ACL_LOOKUP_NONE, ACL_LOOKUP_NEEDED}}"

definition resumable :: "aclCheck_t \<Rightarrow> bool" where
  "resumable ck \<longleftrightarrow>
     (\<forall>l. l \<notin> {DstIP, SrcDomain, DstDomain} \<longrightarrow> lstate ck l \<notin> {ACL_LOOKUP_NEEDED, ACL_PROXY_AUTH_NEEDED}) \<and>
     (lstate ck DstDomain = ACL_LOOKUP_NEEDED \<longrightarrow> numeric_host ck)"

lemma asks_open: "asks ck ck' \<Longrightarrow> open_lookups ck' = open_lookups ck"
proof -
  assume a: "asks ck ck'"
  have "lstate ck' l \<in> {ACL_LOOKUP_NONE, ACL_LOOKUP_NEEDED} \<longleftrightarrow> lstate ck l \<in> {ACL_LOOKUP_NONE, ACL_LOOKUP_NEEDED}" for l
    using asks_lstate [OF a, of l] by (auto simp: may_ask_def)
  then show ?thesis by (simp add: open_lookups_def)
qed

lemma asks_resumable: "asks ck ck' \<Longrightarrow> resumable ck \<Longrightarrow> resumable ck'"
  unfolding resumable_def numeric_host_def using asks_lstate [of ck ck'] asks_fields(1) [of ck ck']
  by (metis (lifting) insertI1 insertI2 insertCI may_ask_def numeric_host_def)

lemma lookup_done_open:
  assumes "lstate ck l = ACL_LOOKUP_NEEDED" "l \<in> {DstIP, SrcDomain, DstDomain}" "lstate ck' = (lstate ck)(l := ACL_LOOKUP_PENDING)"
  shows "open_lookups (lookup_done l ck') < open_lookups ck"
proof -
  have "{k \<in> {DstIP, SrcDomain, DstDomain}. lstate (lookup_done l ck') k \<in> {ACL_LOOKUP_NONE, ACL_LOOKUP_NEEDED}} \<subset>
      {k \<in> {DstIP, SrcDomain, DstDomain}. lstate ck k \<in> {ACL_LOOKUP_NONE, ACL_LOOKUP_NEEDED}}"
    using assms by (auto simp: lookup_done_def set_lstate_def)
  then show ?thesis unfolding open_lookups_def by (rule psubset_card_mono [rotated]) simp
qed

lemma lookup_done_resumable:
  assumes "resumable ck" "l \<in> {DstIP, SrcDomain, DstDomain}" "lstate ck' = (lstate ck)(l := ACL_LOOKUP_PENDING)" "ck_request ck' = ck_request ck"
  shows "resumable (lookup_done l ck')" "ck_request (lookup_done l ck') = ck_request ck"
  using assms by (auto simp: resumable_def lookup_done_def set_lstate_def numeric_host_def)

text \<open>What happens after a line was tested: the loop goes on, or a lookup is waited for.\<close>

lemma pending_lookup_waits:
  assumes "resumable ck"
  shows "pending_lookup lines ck st = Inr (Proceed, ck, st) \<or>
    (\<exists>l ck'. pending_lookup lines ck st = Inr (Suspend (Wait l lines), ck', st) \<and> resumable (lookup_done l ck') \<and>
       open_lookups (lookup_done l ck') < open_lookups ck \<and> ck_request (lookup_done l ck') = ck_request ck)"
proof (cases "\<exists>l\<in>{DstIP, SrcDomain, DstDomain}. lstate ck l = ACL_LOOKUP_NEEDED")
  case False
  then show ?thesis using assms by (simp add: pending_lookup_def resumable_def)
next
  case True
  have asn: "lstate ck DstASN \<noteq> ACL_LOOKUP_NEEDED" using assms by (simp add: resumable_def)
  obtain l ck' where l: "l \<in> {DstIP, SrcDomain, DstDomain}" "lstate ck l = ACL_LOOKUP_NEEDED"
    "lstate ck' = (lstate ck)(l := ACL_LOOKUP_PENDING)" "ck_request ck' = ck_request ck"
    "pending_lookup lines ck st = Inr (Suspend (Wait l lines), ck', st)"
  proof (cases "lstate ck DstIP = ACL_LOOKUP_NEEDED")
    case True
    then show thesis by (intro that [of DstIP]) (auto simp: pending_lookup_def suspend_def set_lstate_def)
  next
    case ip: False
    show thesis
    proof (cases "lstate ck SrcDomain = ACL_LOOKUP_NEEDED")
      case True
      then show thesis using ip asn by (intro that [of SrcDomain]) (auto simp: pending_lookup_def suspend_def set_lstate_def)
    next
      case False
      then have d: "lstate ck DstDomain = ACL_LOOKUP_NEEDED" using True ip by auto
      then obtain r a where "ck_request ck = Some r" "ipcacheCheckNumeric (r_host r) = Some a"
        using assms by (auto simp: resumable_def numeric_host_def)
      then show thesis using ip asn False d by (intro that [of DstDomain]) (auto simp: pending_lookup_def suspend_def set_lstate_def)
    qed
  qed
  then show ?thesis using lookup_done_open [OF l(2,1,3)] lookup_done_resumable [OF assms l(1,3,4)] by blast
qed

lemma aclCheck_progress:
  assumes "acls_ok lines (acls st)" "env_ok env (ck_request ck)" "regs_ok (reg st) lines" "resumable ck"
  shows "\<exists>w ck' st'. aclCheck env lines al ck st = Inr (w, ck', st') \<and>
    ((\<exists>a. w = Answer a) \<or>
     (\<exists>l lines'. w = Wait l lines' \<and> resumable (lookup_done l ck') \<and> open_lookups (lookup_done l ck') < open_lookups ck \<and>
        ck_request (lookup_done l ck') = ck_request ck \<and> regs_ok (reg st') lines' \<and> acls_ok lines' (acls st')))"
  using assms
proof (induction lines arbitrary: al ck st)
  case (Cons A rest)
  have pre: "\<forall>d\<in>set (acls st). acl_ok d" "\<forall>(op, i)\<in>set (line_acls A). i < length (acls st)"
    using Cons.prems(1) by (auto simp: acls_ok_def)
  obtain m ck1 as1 where m: "aclMatchAclList env (line_acls A) ck (acls st) = Inr (m, ck1, as1)" "same_acls (acls st) as1" "asks ck ck1"
    using aclMatchAclList_ok [OF pre Cons.prems(2)] by blast
  let ?st = "st\<lparr>acls := as1\<rparr>"
  note v = regs_ok_first [OF Cons.prems(3)] and re = asks_resumable [OF m(3) Cons.prems(4)] and req = asks_fields(1) [OF m(3)]
  have ok: "acls_ok (A # rest) as1" using same_acls_ok [OF m(2) Cons.prems(1)] .
  from pending_lookup_waits [OF re, of "A # rest" ?st] show ?case
  proof (elim disjE exE conjE)
    fix l ck2
    assume "pending_lookup (A # rest) ck1 ?st = Inr (Suspend (Wait l (A # rest)), ck2, ?st)" "resumable (lookup_done l ck2)"
      "open_lookups (lookup_done l ck2) < open_lookups ck1" "ck_request (lookup_done l ck2) = ck_request ck1"
    then show ?thesis using m(1) v(1) Cons.prems(3) ok asks_open [OF m(3)] req by simp
  next
    assume p: "pending_lookup (A # rest) ck1 ?st = Inr (Proceed, ck1, ?st)"
    show ?thesis
    proof (cases m)
      case True
      then show ?thesis using p m(1) v by (auto simp: give_answer_def)
    next
      case False
      obtain rg1 rg2 where r: "cbdataLock (case rest of [] \<Rightarrow> None | B # _ \<Rightarrow> Some (line_ptr B)) (reg st) = Inr rg1"
        "cbdataUnlock (Some (line_ptr A)) rg1 = Inr rg2" "regs_ok rg2 rest" using regs_ok_next [OF Cons.prems(3)] by blast
      have "acls_ok rest (acls (st\<lparr>acls := as1, reg := rg2\<rparr>))" using ok by (simp add: acls_ok_def)
      from Cons.IH [OF this _ _ re, of "allow A"] r(3) Cons.prems(2) show ?thesis
        using False p m(1) v(1) r(1,2) asks_open [OF m(3)] req by simp
    qed
  qed
qed auto

lemma run_check_ends:
  assumes "\<forall>env\<in>set envs. env_ok env (ck_request ck)" "acls_ok lines (acls st)" "regs_ok (reg st) lines" "resumable ck"
    "open_lookups ck < length envs"
  shows "\<exists>a st'. run_check envs lines ck st = Inr (Some (a, st'))"
  using assms
proof (induction envs lines ck st rule: run_check.induct)
  case (2 env envs lines ck st)
  obtain w ck' st' where c: "aclCheck env lines ACCESS_DENIED ck st = Inr (w, ck', st')"
    and w: "(\<exists>a. w = Answer a) \<or>
     (\<exists>l lines'. w = Wait l lines' \<and> resumable (lookup_done l ck') \<and> open_lookups (lookup_done l ck') < open_lookups ck \<and>
        ck_request (lookup_done l ck') = ck_request ck \<and> regs_ok (reg st') lines' \<and> acls_ok lines' (acls st'))"
    using aclCheck_progress [of lines st env ck ACCESS_DENIED] 2(2-5) by auto
  then consider a where "w = Answer a" | l lines' where "w = Wait l lines'" "resumable (lookup_done l ck')"
      "open_lookups (lookup_done l ck') < open_lookups ck" "ck_request (lookup_done l ck') = ck_request ck"
      "regs_ok (reg st') lines'" "acls_ok lines' (acls st')" by blast
  then show ?case
  proof cases
    case 1
    then show ?thesis using c by simp
  next
    case wait: (2 l lines')
    have "\<forall>e\<in>set envs. env_ok e (ck_request (lookup_done l ck'))" using 2(2) wait(4) by simp
    moreover have "open_lookups (lookup_done l ck') < length envs" using wait(3) 2(6) by simp
    ultimately have "\<exists>a st''. run_check envs lines' (lookup_done l ck') st' = Inr (Some (a, st''))"
      using 2(1) [OF c refl refl wait(1)] wait by blast
    then show ?thesis using c wait(1) by simp
  qed
qed simp

section \<open>Properties\<close>

text \<open>
  C15. An access list decides by its first matching line. Let the addresses of the check be those the
  caller set, or else those of its request. When the caches know what the controls ask for, \<^verbatim>\<open>aclNBCheck\<close> answers
  with the setting of the first line whose controls all match these, or, if there is none, with the opposite of the
  last line; \<^verbatim>\<open>aclCheckFast\<close> allows access exactly if that answer is to allow it. The controls keep
  their meaning, although the tests rearrange them, and the check gives up exactly the one lock on a line
  that it was handed, and takes one on the data of its callback.
\<close>

theorem access_list_first_match:
  assumes "acls_ok lines (acls st)" "env_ok env (ck_request ck)"
    "\<forall>A\<in>set lines. line_settled env (aclChecklistCacheInit env ck) (acls st) (line_acls A)"
    "quiet ck" "regs_ok (reg st) lines" "\<forall>p. cb = Some p \<longrightarrow> lock_count (reg st) p \<noteq> None"
  defines "ck' \<equiv> aclChecklistCacheInit env ck"
  shows "\<exists>st' as'. aclNBCheck env lines cb ck st = Inr (Answer (decision env ck' (acls st) lines ACCESS_DENIED), ck', st') \<and>
    same_acls (acls st) (acls st') \<and> lock_count (reg st') = unlocked (locked (lock_count (reg st)) cb) lines \<and>
    aclCheckFast env lines ck (acls st) = Inr (decision env ck' (acls st) lines ACCESS_DENIED = ACCESS_ALLOWED, ck', as') \<and>
    same_acls (acls st) as' \<and>
    (case ck_request ck of
       Some r \<Rightarrow> if src_addr ck \<noteq> 0 then ck' = ck
         else src_addr ck' = (if acl_uses_indirect_client env then r_indirect_client_addr r else r_client_addr r) \<and>
           my_addr ck' = r_my_addr r \<and> my_port ck' = r_my_port r
     | None \<Rightarrow> ck' = ck)"
proof -
  obtain rg where rg: "cbdataLock cb (reg st) = Inr rg" "regs_ok rg lines" "lock_count rg = locked (lock_count (reg st)) cb"
    using regs_ok_lock [OF assms(5,6)] by blast
  have e: "env_ok env (ck_request ck')" "quiet ck'" using assms(2,4) by (simp_all add: ck'_def quiet_def)
  note l = assms(3) [folded ck'_def]
  obtain st' where "aclCheck env lines ACCESS_DENIED ck' (st\<lparr>reg := rg\<rparr>) = Inr (Answer (decision env ck' (acls st) lines ACCESS_DENIED), ck', st')"
    "same_acls (acls st) (acls st')" "lock_count (reg st') = unlocked (lock_count rg) lines"
    using aclCheck_settled [of lines "st\<lparr>reg := rg\<rparr>" env ck' ACCESS_DENIED] assms(1) e l rg(2) by auto
  moreover obtain as' where "check_fast_loop env lines ACCESS_DENIED ck' (acls st) =
      Inr (decision env ck' (acls st) lines ACCESS_DENIED = ACCESS_ALLOWED, ck', as')" "same_acls (acls st) as'"
    using check_fast_ok [OF assms(1) e(1) l, of ACCESS_DENIED] by blast
  moreover have "case ck_request ck of
       Some r \<Rightarrow> if src_addr ck \<noteq> 0 then ck' = ck
         else src_addr ck' = (if acl_uses_indirect_client env then r_indirect_client_addr r else r_client_addr r) \<and>
           my_addr ck' = r_my_addr r \<and> my_port ck' = r_my_port r
     | None \<Rightarrow> ck' = ck" by (simp add: ck'_def aclChecklistCacheInit_def split: option.split)
  ultimately show ?thesis unfolding aclNBCheck_def aclCheckFast_def ck'_def [symmetric] using rg(1,3) by auto
qed

text \<open>
  C16. Every check is answered. Whatever the caches answer at each call of \<^verbatim>\<open>aclCheck\<close>, a check waits for
  at most three lookups, one of each kind, before its callback is called: a lookup that was made
  is not made again, even if it failed. This holds for lists whose other controls start no lookups.
\<close>

theorem access_check_answered:
  assumes "\<forall>env\<in>set envs. env_ok env (ck_request ck)" "acls_ok lines (acls st)" "regs_ok (reg st) lines" "resumable ck" "3 < length envs"
  shows "\<exists>a st'. run_check envs lines ck st = Inr (Some (a, st'))"
proof -
  have "open_lookups ck \<le> card {DstIP, SrcDomain, DstDomain}" unfolding open_lookups_def by (rule card_mono) auto
  also have "\<dots> = 3" by simp
  finally show ?thesis using run_check_ends [OF assms(1-4)] assms(5) by simp
qed

text \<open>
  C19. When the access list is freed by a reconfiguration while a check waits for a lookup, the check is
  answered with \<^verbatim>\<open>ACCESS_ALLOWED\<close>, whatever the lines say; the comment in the code asks for
  \<^verbatim>\<open>ACCESS_DENIED\<close>. The answer is the opposite of the initial value of the answer, as if an empty list
  had been gone through.
\<close>

theorem freed_access_list_allows:
  assumes "cb_ok (reg st)" "lock_count (reg st) (line_ptr A) = Some (Suc n)" "\<not> is_valid (reg st) (line_ptr A)"
  shows "\<exists>st'. aclCheck env (A # rest) ACCESS_DENIED ck st = Inr (Answer ACCESS_ALLOWED, ck, st')"
  using unlock_ok [OF assms(1,2)] valid_ok [OF assms(2)] assms(3) by (auto simp: give_answer_def)

section \<open>Examples\<close>

definition demo_env :: acl_env where
  "demo_env = \<lparr>ipcache_gethostbyname = (\<lambda>_. None), fqdncache_gethostbyaddr = (\<lambda>_. None), localtime = (12, 30, 3),
     clientdbEstablished = (\<lambda>_. 0), match_other = (\<lambda>_ ck. (0, ck)), acl_uses_indirect_client = False\<rparr>"

definition demo_check :: aclCheck_t where
  "demo_check = \<lparr>ck_request = None, ck_conn = None, src_addr = quad_addr 10 2 0 1, dst_addr = 0, my_addr = 0, my_port = 3128,
     lstate = (\<lambda>_. ACL_LOOKUP_NONE)\<rparr>"

definition demo_acls :: "acl_data list" where
  "demo_acls = [ACL_SRC_IP (Node Leaf (cidr_entry 10 0 0 0 8) Leaf), ACL_MY_PORT [(1, 65535)], ACL_SRC_DOMAIN (Node Leaf ''.youku.com'' Leaf)]"

text \<open>Local clients are allowed, all others are denied; then, with a control that needs a lookup.\<close>

definition demo_lines :: "acl_access list" where
  "demo_lines = [\<lparr>allow = ACCESS_ALLOWED, line_acls = [(1, 0)], line_ptr = 0\<rparr>, \<lparr>allow = ACCESS_DENIED, line_acls = [(1, 1)], line_ptr = 1\<rparr>]"

definition demo_lookup_lines :: "acl_access list" where
  "demo_lookup_lines = [\<lparr>allow = ACCESS_ALLOWED, line_acls = [(1, 2)], line_ptr = 0\<rparr>, \<lparr>allow = ACCESS_DENIED, line_acls = [(1, 1)], line_ptr = 1\<rparr>]"

definition demo_registry :: "bool \<Rightarrow> cbdata_state" where
  "demo_registry v = \<lparr>cells = [0 \<mapsto> \<lparr>cvalid = v, locks = 1, ctype = 1\<rparr>, 1 \<mapsto> \<lparr>cvalid = True, locks = 0, ctype = 1\<rparr>],
     cbdata_types = replicate 2 \<lparr>pool = None, free_func = None\<rparr>, cbdataCount = 2, next_cell = 2, freed = []\<rparr>"

definition demo_state :: "bool \<Rightarrow> check_state" where
  "demo_state v = \<lparr>acls = demo_acls, reg = demo_registry v\<rparr>"

lemma demo_cb_ok: "cb_ok (demo_registry v)"
proof -
  have "dom (cells (demo_registry v)) = {0, 1}" by (auto simp: demo_registry_def split: if_splits)
  then show ?thesis unfolding cb_ok_def by (auto simp: demo_registry_def split: if_splits)
qed

lemma demo_regs_ok: "regs_ok (reg (demo_state True)) demo_lines" "regs_ok (reg (demo_state True)) demo_lookup_lines"
  using demo_cb_ok [of True]
  by (auto simp: regs_ok_def demo_state_def demo_lines_def demo_lookup_lines_def is_valid_def lock_count_def demo_registry_def)

lemma demo_acls_ok: "acls_ok demo_lines (acls (demo_state v))" "acls_ok demo_lookup_lines (acls (demo_state v))"
proof -
  have "domain_ok ''.youku.com''" by (simp add: domain_ok_def core_def)
  then show "acls_ok demo_lines (acls (demo_state v))" "acls_ok demo_lookup_lines (acls (demo_state v))"
    by (simp_all add: acls_ok_def demo_state_def demo_acls_def demo_lines_def demo_lookup_lines_def ip.tree_ok_def dom.tree_ok_def cidr_entry_ok)
qed

lemma demo_env_ok: "env_ok demo_env (ck_request demo_check)"
  by (simp add: env_ok_def demo_env_def demo_check_def)

text \<open>A request of a local client, whose addresses the caller does not set.\<close>

definition demo_acl_request :: acl_request where
  "demo_acl_request = \<lparr>r_host = ''f.cn'', r_port = 80, r_protocol = 1, r_method = 1,
     r_flags = \<lparr>accelerated = False, transparent = False, internal = False\<rparr>, r_client_addr = quad_addr 10 2 0 1,
     r_indirect_client_addr = 0, r_my_addr = 0, r_my_port = 3128\<rparr>"

definition demo_request_check :: aclCheck_t where
  "demo_request_check = \<lparr>ck_request = Some demo_acl_request, ck_conn = None, src_addr = 0, dst_addr = 0, my_addr = 0, my_port = 0,
     lstate = (\<lambda>_. ACL_LOOKUP_NONE)\<rparr>"

theorem access_list_first_match_witness:
  "\<exists>ck' st' as'. aclNBCheck demo_env demo_lines (Some 1) demo_request_check (demo_state True) = Inr (Answer ACCESS_ALLOWED, ck', st') \<and>
     aclCheckFast demo_env demo_lines demo_request_check demo_acls = Inr (True, ck', as')"
proof -
  let ?ck = "aclChecklistCacheInit demo_env demo_request_check"
  have ck: "src_addr ?ck = quad_addr 10 2 0 1" by (simp add: aclChecklistCacheInit_def demo_request_check_def demo_acl_request_def demo_env_def)
  have "\<forall>A\<in>set demo_lines. line_settled demo_env ?ck (acls (demo_state True)) (line_acls A)" "quiet demo_request_check"
    "env_ok demo_env (ck_request demo_request_check)" "\<forall>p. Some 1 = Some p \<longrightarrow> lock_count (reg (demo_state True)) p \<noteq> None"
    by (simp_all add: demo_lines_def line_settled_def demo_state_def demo_acls_def quiet_def demo_request_check_def demo_acl_request_def
        env_ok_def demo_env_def host_ok_def lock_count_def demo_registry_def)
  moreover have "decision demo_env ?ck (acls (demo_state True)) demo_lines ACCESS_DENIED = ACCESS_ALLOWED"
    using demo_networks(1) ck by (simp add: demo_lines_def line_matches_def demo_state_def demo_acls_def ip_listed_def)
  moreover have "acls (demo_state True) = demo_acls" by (simp add: demo_state_def)
  ultimately show ?thesis
    using access_list_first_match [OF demo_acls_ok(1) _ _ _ demo_regs_ok(1), where env = demo_env and ck = demo_request_check and cb = "Some 1"] by auto
qed

theorem access_check_answered_witness:
  "\<exists>a st'. run_check (replicate 4 demo_env) demo_lookup_lines demo_check (demo_state True) = Inr (Some (a, st'))"
proof -
  have "resumable demo_check" by (simp add: resumable_def demo_check_def)
  then show ?thesis using access_check_answered [OF _ demo_acls_ok(2) demo_regs_ok(2), of "replicate 4 demo_env" demo_check] demo_env_ok by simp
qed

theorem freed_access_list_allows_witness:
  "\<exists>st'. aclCheck demo_env demo_lines ACCESS_DENIED demo_check (demo_state False) = Inr (Answer ACCESS_ALLOWED, demo_check, st')"
proof -
  have "lock_count (demo_registry False) 0 = Some (Suc 0)" "\<not> is_valid (demo_registry False) 0"
    by (simp_all add: lock_count_def is_valid_def demo_registry_def)
  then show ?thesis
    using freed_access_list_allows [of "demo_state False" "hd demo_lines" 0 demo_env "tl demo_lines" demo_check] demo_cb_ok [of False]
    by (simp add: demo_state_def demo_lines_def)
qed

end
