(* ===== verification/SwapMeta.thy ===== *)
theory SwapMeta
  imports Prelude
begin

text \<open>
  The header of a swap file, \<^verbatim>\<open>src/store_swapmeta.c\<close>, and what \<^verbatim>\<open>storeClientReadHeader\<close> of
  \<^verbatim>\<open>src/store_client.c\<close> does with it. A header is a list of entries with a type, a length and a
  value. Buffers are lists of bytes, and reading outside of a buffer is \<^const>\<open>OutOfBounds\<close>; the
  reader of a header is not told how long its buffer is. An \<^verbatim>\<open>int\<close> has 32 bits and is stored with its
  low byte first.
\<close>

section \<open>Constants and data\<close>

definition STORE_META_OK :: nat where "STORE_META_OK = 0x03"
definition STORE_META_KEY :: nat where "STORE_META_KEY = 3"
definition STORE_META_URL :: nat where "STORE_META_URL = 4"
definition STORE_META_STD :: nat where "STORE_META_STD = 5"
definition STORE_META_VARY_HEADERS :: nat where "STORE_META_VARY_HEADERS = 8"
definition STORE_META_STD_LFS :: nat where "STORE_META_STD_LFS = 9"
definition STORE_META_OBJSIZE :: nat where "STORE_META_OBJSIZE = 10"
definition STORE_META_STOREURL :: nat where "STORE_META_STOREURL = 11"
definition STORE_META_END :: nat where "STORE_META_END = 12"
definition MD5_DIGEST_LENGTH :: nat where "MD5_DIGEST_LENGTH = 16"

text \<open>The length of an entry is the length of its value.\<close>

record tlv =
  tlv_type :: nat
  tlv_value :: string

record mem_object =
  m_url :: string
  vary_headers :: "string option"
  store_url :: "string option"
  object_sz :: int
  swap_hdr_sz :: nat

text \<open>
  Of an entry: its key, the bytes of its times and counters, whether it is being written to disk, the size
  of its file and its object in memory.
\<close>

record swap_entry =
  se_key :: string
  key_private :: bool
  se_std :: string
  swapout_writing :: bool
  swap_file_sz :: int
  se_mem :: mem_object

section \<open>Integers in memory\<close>

definition put_int :: "int \<Rightarrow> string" where
  "put_int i =
     (let n = nat (i mod 2 ^ 32)
      in [char_of (n mod 256), char_of (n div 256 mod 256), char_of (n div 65536 mod 256), char_of (n div 16777216 mod 256)])"

definition get_int :: "nat \<Rightarrow> string \<Rightarrow> int res" where
  "get_int j buf =
     res_bind (get_bytes j 4 buf) (\<lambda>b.
       let n = of_char (b ! 0) + 256 * of_char (b ! 1) + 65536 * of_char (b ! 2) + 16777216 * of_char (b ! 3) :: nat
       in Inr (if n \<ge> 2147483648 then int n - 4294967296 else int n))"

text \<open>\<^verbatim>\<open>squid_off_t\<close>, 64 bits.\<close>

definition put_off :: "int \<Rightarrow> string" where
  "put_off i = put_int i @ put_int (i div 2 ^ 32)"

section \<open>Building and packing\<close>

definition storeSwapTLVAdd :: "nat \<Rightarrow> string \<Rightarrow> tlv list \<Rightarrow> tlv list" where
  "storeSwapTLVAdd type ptr T = T @ [\<lparr>tlv_type = type, tlv_value = ptr\<rparr>]"

definition c_bytes :: "string \<Rightarrow> string" where
  "c_bytes s = s @ [NUL]"

text \<open>The standard metadata has the type of the configuration in which sizes and file sizes have the same width.\<close>

definition storeSwapMetaBuild :: "swap_entry \<Rightarrow> tlv list res" where
  "storeSwapMetaBuild e =
     res_bind (c_assert (swapout_writing e)) (\<lambda>_.
      let m = se_mem e;
          T = storeSwapTLVAdd STORE_META_KEY (take MD5_DIGEST_LENGTH (se_key e)) [];
          T = storeSwapTLVAdd STORE_META_STD (se_std e) T;
          T = storeSwapTLVAdd STORE_META_URL (c_bytes (m_url m)) T;
          T = (if object_sz m > - 1 then storeSwapTLVAdd STORE_META_OBJSIZE (put_off (object_sz m)) T else T);
          T = (case vary_headers m of Some v \<Rightarrow> storeSwapTLVAdd STORE_META_VARY_HEADERS (c_bytes v) T | None \<Rightarrow> T)
      in Inr (case store_url m of Some u \<Rightarrow> storeSwapTLVAdd STORE_META_STOREURL (c_bytes u) T | None \<Rightarrow> T))"

definition pack_tlv :: "tlv \<Rightarrow> string" where
  "pack_tlv t = char_of (tlv_type t) # put_int (int (length (tlv_value t))) @ tlv_value t"

definition meta_length :: "tlv list \<Rightarrow> nat" where
  "meta_length T = 5 + sum_list (map (\<lambda>t. 5 + length (tlv_value t)) T)"

definition storeSwapMetaPack :: "tlv list \<Rightarrow> string" where
  "storeSwapMetaPack T = char_of STORE_META_OK # put_int (int (meta_length T)) @ concat (map pack_tlv T)"

section \<open>Unpacking\<close>

text \<open>
  The loop of \<^verbatim>\<open>storeSwapMetaUnpack\<close>. The type is a signed \<^verbatim>\<open>char\<close>. The difference of \<open>buflen\<close> and \<open>j\<close> is
  compared with a \<^verbatim>\<open>size_t\<close>: if it is negative, it counts as large.
\<close>

function unpack_loop :: "string \<Rightarrow> int \<Rightarrow> nat \<Rightarrow> tlv list res" where
  "unpack_loop buf buflen j =
     (if 0 \<le> buflen - int j \<and> buflen - int j < 5 then Inr []
      else res_bind (get_byte buf j) (\<lambda>type.
        if type = 0 \<or> type > 127 \<or> type > STORE_META_END + 10 then Inr []
        else res_bind (get_int (j + 1) buf) (\<lambda>len.
          if len < 0 \<or> len > 65536 then Inr []
          else if int j + 5 + len > buflen then Inr []
          else res_bind (get_bytes (j + 5) (nat len) buf) (\<lambda>v.
            res_bind (unpack_loop buf buflen (j + 5 + nat len)) (\<lambda>T. Inr (\<lparr>tlv_type = type, tlv_value = v\<rparr> # T))))))"
  by pat_completeness auto
termination by (relation "measure (\<lambda>(buf, buflen, j). length buf - j)") (auto simp: get_byte_def split: if_splits)

declare unpack_loop.simps [simp del]

text \<open>
  The result and what is stored in \<^verbatim>\<open>*hdr_len\<close>, if anything is. The first test of \<open>buflen\<close> is a comparison
  with a \<^verbatim>\<open>size_t\<close>, too.
\<close>

definition storeSwapMetaUnpack :: "string \<Rightarrow> (tlv list \<times> int option) res" where
  "storeSwapMetaUnpack buf =
     res_bind (get_byte buf 0) (\<lambda>b.
       if b \<noteq> STORE_META_OK then Inr ([], None)
       else res_bind (get_int 1 buf) (\<lambda>buflen.
         if 0 \<le> buflen \<and> buflen \<le> 5 then Inr ([], None)
         else res_bind (unpack_loop buf buflen 5) (\<lambda>T. Inr (T, Some buflen))))"

section \<open>Reading the header of a swap file\<close>

text \<open>\<^verbatim>\<open>xstrdup\<close> of a value, which need not have a terminator.\<close>

definition dup_value :: "string \<Rightarrow> string res" where
  "dup_value v = (if NUL \<in> set v then Inr (cstr v) else Inl OutOfBounds)"

text \<open>Whether \<^verbatim>\<open>strcmp\<close> finds that a string and a value differ.\<close>

fun strcmp_differs :: "string \<Rightarrow> string \<Rightarrow> bool res" where
  "strcmp_differs w [] = Inl OutOfBounds"
| "strcmp_differs [] (c # v) = Inr (c \<noteq> NUL)"
| "strcmp_differs (a # w) (c # v) = (if a \<noteq> c then Inr True else strcmp_differs w v)"

record header_scan =
  sc_ok :: bool
  sc_url :: "string option"
  sc_store_url :: "string option"
  sc_vary :: "string option"

fun scan_tlvs :: "swap_entry \<Rightarrow> tlv list \<Rightarrow> header_scan \<Rightarrow> header_scan res" where
  "scan_tlvs e [] s = Inr s"
| "scan_tlvs e (t # T) s =
     (if \<not> sc_ok s then Inr s
      else if tlv_type t = STORE_META_KEY then
        res_bind (c_assert (length (tlv_value t) = MD5_DIGEST_LENGTH)) (\<lambda>_.
          scan_tlvs e T (if \<not> key_private e \<and> tlv_value t \<noteq> take MD5_DIGEST_LENGTH (se_key e) then s\<lparr>sc_ok := False\<rparr> else s))
      else if tlv_type t = STORE_META_URL then res_bind (dup_value (tlv_value t)) (\<lambda>u. scan_tlvs e T (s\<lparr>sc_url := Some u\<rparr>))
      else if tlv_type t = STORE_META_STOREURL then res_bind (dup_value (tlv_value t)) (\<lambda>u. scan_tlvs e T (s\<lparr>sc_store_url := Some u\<rparr>))
      else if tlv_type t = STORE_META_VARY_HEADERS then
        (case sc_vary s of
           Some w \<Rightarrow> res_bind (strcmp_differs w (tlv_value t)) (\<lambda>d. scan_tlvs e T (if d then s\<lparr>sc_ok := False\<rparr> else s))
         | None \<Rightarrow> res_bind (dup_value (tlv_value t)) (\<lambda>v. scan_tlvs e T (s\<lparr>sc_vary := Some v\<rparr>)))
      else scan_tlvs e T s)"

text \<open>
  The test of the URLs. The comparison of the URL of the request with the URL in the header is commented
  out in the code.
\<close>

definition check_urls :: "swap_entry \<Rightarrow> header_scan \<Rightarrow> bool \<times> string option" where
  "check_urls e s =
     (let mine = store_url (se_mem e)
      in case sc_url s of
           None \<Rightarrow> (False, mine)
         | Some _ \<Rightarrow>
             (case sc_store_url s of
                None \<Rightarrow> (sc_ok s, mine)
              | Some u \<Rightarrow>
                  (case mine of
                     None \<Rightarrow> (sc_ok s, Some u)
                   | Some w \<Rightarrow> if map tolower w = map tolower u then (sc_ok s, mine) else (False, mine))))"

datatype read_result = CallbackError | CallbackData string | ReadAgain

text \<open>
  \<^verbatim>\<open>storeClientReadHeader\<close>: \<open>arr\<close> is the array of the client, of which \<open>len\<close> bytes were read. The result is what
  the callback gets, and the entry. Parsing of the reply headers is not modelled.
\<close>

definition storeClientReadHeader :: "swap_entry \<Rightarrow> string \<Rightarrow> int \<Rightarrow> nat \<Rightarrow> (read_result \<times> swap_entry) res" where
  "storeClientReadHeader e arr len copy_offset =
     (if len < 0 then Inr (CallbackError, e)
      else res_bind (storeSwapMetaUnpack arr) (\<lambda>(T, hdr_len).
        let hdr_sz = (case hdr_len of None \<Rightarrow> 0 | Some l \<Rightarrow> l)
        in if hdr_sz > len then Inr (CallbackError, e)
           else if T = [] then Inr (CallbackError, e)
           else res_bind (scan_tlvs e T \<lparr>sc_ok = True, sc_url = None, sc_store_url = None, sc_vary = vary_headers (se_mem e)\<rparr>) (\<lambda>s.
             let (ok, su) = check_urls e s;
                 e = e\<lparr>se_mem := (se_mem e)\<lparr>vary_headers := sc_vary s, store_url := su\<rparr>\<rparr>
             in if \<not> ok then Inr (CallbackError, e)
                else let e = e\<lparr>se_mem := (se_mem e)\<lparr>swap_hdr_sz := nat hdr_sz, object_sz := swap_file_sz e - hdr_sz\<rparr>\<rparr>;
                         body_sz = nat (len - hdr_sz)
                     in if copy_offset < body_sz
                        then res_bind (get_bytes (nat hdr_sz) (min (length arr) body_sz) arr) (\<lambda>d. Inr (CallbackData d, e))
                        else Inr (ReadAgain, e))))"

end
