(* ===== verification/SwapMeta_Correct.thy ===== *)
theory SwapMeta_Correct
  imports SwapMeta
begin

text \<open>
  Correctness of the swap headers: what is packed is read back, from the front of a longer file too; a
  header that does not fit its buffer is read across the end of the buffer; a header that fits is never
  read outside of it. The last part states which files \<^const>\<open>storeClientReadHeader\<close> accepts.
\<close>

section \<open>Integers and buffers\<close>

lemma length_put_int [simp]: "length (put_int i) = 4"
  by (simp add: put_int_def Let_def)

lemma get_byte_append [simp]: "get_byte (pre @ c # rest) (length pre) = Inr (of_char c)"
  by (simp add: get_byte_def)

lemma get_bytes_append: "i = length pre \<Longrightarrow> n = length v \<Longrightarrow> get_bytes i n (pre @ v @ rest) = Inr v"
  by (simp add: get_bytes_def)

lemma base_256:
  assumes "n < 2 ^ 32"
  shows "n mod 256 + 256 * (n div 256 mod 256) + 65536 * (n div 65536 mod 256) + 16777216 * (n div 16777216 mod 256) = (n::nat)"
proof -
  have "n div 65536 = n div 256 div 256" "n div 16777216 = n div 65536 div 256" by (simp_all add: div_mult2_eq [symmetric])
  moreover have "n div 16777216 mod 256 = n div 16777216" using assms by (intro mod_less) simp
  ultimately show ?thesis
    using div_mult_mod_eq [of n 256] div_mult_mod_eq [of "n div 256" 256] div_mult_mod_eq [of "n div 65536" 256] by linarith
qed

lemma get_int_put_int:
  assumes n: "n < 2 ^ 31" and j: "j = length pre"
  shows "get_int j (pre @ put_int (int n) @ rest) = Inr (int n)"
proof -
  have 1: "get_bytes j 4 (pre @ put_int (int n) @ rest) = Inr (put_int (int n))" using j by (intro get_bytes_append) simp_all
  have 2: "nat (int n mod 2 ^ 32) = n" using n by (simp add: nat_mod_as_int zmod_int [symmetric])
  have 3: "put_int (int n) = [char_of (n mod 256), char_of (n div 256 mod 256), char_of (n div 65536 mod 256), char_of (n div 16777216 mod 256)]"
    by (simp only: put_int_def Let_def 2)
  show ?thesis using base_256 [of n] n unfolding get_int_def 1 by (simp add: 3 Let_def)
qed

section \<open>Round trip\<close>

definition wf_tlv :: "tlv \<Rightarrow> bool" where
  "wf_tlv t \<longleftrightarrow> 0 < tlv_type t \<and> tlv_type t \<le> STORE_META_END + 10 \<and> length (tlv_value t) \<le> 65536"

lemma length_pack_tlv [simp]: "length (pack_tlv t) = 5 + length (tlv_value t)"
  by (simp add: pack_tlv_def)

lemma length_concat_pack: "length (concat (map pack_tlv T)) + 5 = meta_length T"
  by (simp add: meta_length_def length_concat comp_def)

lemma length_pack: "length (storeSwapMetaPack T) = meta_length T"
  using length_concat_pack [of T] by (simp add: storeSwapMetaPack_def)

lemma type_char: "wf_tlv t \<Longrightarrow> of_char (char_of (tlv_type t) :: char) = tlv_type t"
  by (simp add: wf_tlv_def STORE_META_END_def)

text \<open>One round of the loop, at an entry that fits the stated length, in terms of the rest of the loop.\<close>

lemma unpack_step:
  assumes "wf_tlv t" "int (length pre + length (pack_tlv t)) \<le> buflen"
  shows "unpack_loop (pre @ pack_tlv t @ rest) buflen (length pre) =
    res_bind (unpack_loop (pre @ pack_tlv t @ rest) buflen (length pre + length (pack_tlv t))) (\<lambda>T. Inr (t # T))"
proof -
  let ?v = "tlv_value t" let ?b = "pre @ pack_tlv t @ rest" let ?n = "put_int (int (length (tlv_value t)))"
  have l: "length ?v \<le> 65536" and ty: "0 < tlv_type t" "tlv_type t \<le> 22" using assms(1) by (simp_all add: wf_tlv_def STORE_META_END_def)
  have 1: "get_byte ?b (length pre) = Inr (tlv_type t)" using type_char [OF assms(1)] by (simp add: pack_tlv_def)
  have b: "?b = (pre @ [char_of (tlv_type t)]) @ ?n @ (?v @ rest)" by (simp add: pack_tlv_def)
  have 2: "get_int (length pre + 1) ?b = Inr (int (length ?v))" unfolding b using l by (intro get_int_put_int) simp_all
  have b': "?b = (pre @ [char_of (tlv_type t)] @ ?n) @ ?v @ rest" by (simp add: pack_tlv_def)
  have 3: "get_bytes (length pre + 5) (nat (int (length ?v))) ?b = Inr ?v" unfolding b' by (intro get_bytes_append) simp_all
  have e: "\<lparr>tlv_type = tlv_type t, tlv_value = ?v\<rparr> = t" by simp
  show ?thesis
    using assms(2) l ty by (subst unpack_loop.simps) (simp add: 1 2 [simplified] 3 [simplified] e STORE_META_END_def add.assoc)
qed

lemma unpack_loop_pack:
  "\<forall>t \<in> set T. wf_tlv t \<Longrightarrow>
   unpack_loop (pre @ concat (map pack_tlv T) @ rest) (int (length pre + length (concat (map pack_tlv T)))) (length pre) = Inr T"
proof (induction T arbitrary: pre)
  case Nil
  show ?case by (subst unpack_loop.simps) simp
next
  case (Cons t T)
  show ?case
    using Cons.prems Cons.IH [of "pre @ pack_tlv t"] unpack_step [of t pre "int (length pre + length (concat (map pack_tlv (t # T))))" "concat (map pack_tlv T) @ rest"]
    by (simp add: add.assoc)
qed

lemma unpack_pack:
  assumes "T \<noteq> []" "\<forall>t \<in> set T. wf_tlv t" "meta_length T < 2 ^ 31"
  shows "storeSwapMetaUnpack (storeSwapMetaPack T @ rest) = Inr (T, Some (int (meta_length T)))"
proof -
  let ?n = "put_int (int (meta_length T))" let ?c = "char_of STORE_META_OK :: char"
  let ?b = "storeSwapMetaPack T @ rest"
  have b: "?b = [?c] @ ?n @ (concat (map pack_tlv T) @ rest)" by (simp add: storeSwapMetaPack_def)
  have 1: "get_byte ?b 0 = Inr STORE_META_OK" by (simp add: b get_byte_def STORE_META_OK_def)
  have 2: "get_int 1 ?b = Inr (int (meta_length T))" unfolding b using assms(3) by (intro get_int_put_int) simp_all
  have 3: "unpack_loop ?b (int (meta_length T)) 5 = Inr T"
    using unpack_loop_pack [OF assms(2), of "[?c] @ ?n" rest] by (simp add: b length_concat_pack [symmetric] add.commute)
  have "meta_length T > 5" using assms(1) by (cases T) (simp_all add: meta_length_def)
  thus ?thesis using 1 2 3 by (simp add: storeSwapMetaUnpack_def)
qed

section \<open>Headers that are longer than the buffer\<close>

lemma get_outside:
  "length buf \<le> i \<Longrightarrow> get_byte buf i = Inl OutOfBounds"
  "length buf < i + n \<Longrightarrow> get_bytes i n buf = Inl OutOfBounds"
  by (simp_all add: get_byte_def get_bytes_def)

lemma get_int_outside: "length buf < j + 4 \<Longrightarrow> get_int j buf = Inl OutOfBounds"
  by (simp add: get_int_def get_bytes_def)

lemma get_byte_take: "i < k \<Longrightarrow> get_byte (take k buf) i = get_byte buf i"
  by (simp add: get_byte_def)

lemma get_bytes_take: "i + n \<le> k \<Longrightarrow> get_bytes i n (take k buf) = get_bytes i n buf"
  by (auto simp: get_bytes_def drop_take min_def)

lemma get_int_take: "j + 4 \<le> k \<Longrightarrow> get_int j (take k buf) = get_int j buf"
  by (simp add: get_int_def get_bytes_take)

text \<open>An entry that is cut.\<close>

lemma unpack_cut_entry:
  assumes wf: "wf_tlv t" and fits: "int (length pre + length (pack_tlv t)) \<le> buflen" and k: "length pre \<le> k" "k < length pre + length (pack_tlv t)"
  shows "unpack_loop (take k (pre @ pack_tlv t @ rest)) buflen (length pre) = Inl OutOfBounds"
proof -
  let ?v = "tlv_value t" let ?b = "pre @ pack_tlv t @ rest" let ?n = "put_int (int (length (tlv_value t)))"
  have l: "length ?v \<le> 65536" and ty: "0 < tlv_type t" "tlv_type t \<le> 22" using wf by (simp_all add: wf_tlv_def STORE_META_END_def)
  have len: "length (take k ?b) = k" using k by simp
  have b: "?b = (pre @ [char_of (tlv_type t)]) @ ?n @ (?v @ rest)" by (simp add: pack_tlv_def)
  consider "k = length pre" | "length pre < k" "k < length pre + 5" | "length pre + 5 \<le> k" using k(1) by linarith
  thus ?thesis
  proof cases
    case 1
    hence "get_byte (take k ?b) (length pre) = Inl OutOfBounds" using len by (intro get_outside) simp
    thus ?thesis using fits by (subst unpack_loop.simps) simp
  next
    case 2
    have "get_byte (take k ?b) (length pre) = Inr (tlv_type t)" unfolding get_byte_take [OF 2(1)] using type_char [OF wf] by (simp add: pack_tlv_def)
    moreover have "get_int (length pre + 1) (take k ?b) = Inl OutOfBounds" using len 2 by (intro get_int_outside) simp
    ultimately show ?thesis using fits ty by (subst unpack_loop.simps) (simp add: STORE_META_END_def)
  next
    case 3
    hence k': "length pre < k" "length pre + 1 + 4 \<le> k" by simp_all
    have "get_byte (take k ?b) (length pre) = Inr (tlv_type t)" unfolding get_byte_take [OF k'(1)] using type_char [OF wf] by (simp add: pack_tlv_def)
    moreover have "get_int (length pre + 1) (take k ?b) = get_int (length pre + 1) ?b" by (rule get_int_take [OF k'(2)])
    moreover have "get_int (length pre + 1) ?b = Inr (int (length ?v))" unfolding b using l by (intro get_int_put_int) simp_all
    moreover have "get_bytes (length pre + 5) (length ?v) (take k ?b) = Inl OutOfBounds" using len k by (intro get_outside) simp
    ultimately show ?thesis using fits ty l by (subst unpack_loop.simps) (simp add: STORE_META_END_def)
  qed
qed

lemma unpack_loop_cut:
  "\<forall>t \<in> set T. wf_tlv t \<Longrightarrow> length pre \<le> k \<Longrightarrow> k < length pre + length (concat (map pack_tlv T)) \<Longrightarrow>
   unpack_loop (take k (pre @ concat (map pack_tlv T))) (int (length pre + length (concat (map pack_tlv T)))) (length pre) = Inl OutOfBounds"
proof (induction T arbitrary: pre)
  case Nil
  thus ?case by simp
next
  case (Cons t T)
  let ?R = "concat (map pack_tlv T)" let ?bl = "int (length pre + length (concat (map pack_tlv (t # T))))"
  have wf: "wf_tlv t" and fits: "int (length pre + length (pack_tlv t)) \<le> ?bl" using Cons.prems(1) by simp_all
  show ?case
  proof (cases "k < length pre + length (pack_tlv t)")
    case True
    thus ?thesis using unpack_cut_entry [OF wf fits Cons.prems(2) True, of ?R] by simp
  next
    case False
    hence k: "length (pre @ pack_tlv t) \<le> k" by simp
    have tk: "take k (pre @ pack_tlv t @ ?R) = pre @ pack_tlv t @ take (k - length pre - length (pack_tlv t)) ?R" using k by simp
    have "unpack_loop (take k ((pre @ pack_tlv t) @ ?R)) (int (length (pre @ pack_tlv t) + length ?R)) (length (pre @ pack_tlv t)) = Inl OutOfBounds"
      using Cons.prems by (intro Cons.IH k) simp_all
    hence "unpack_loop (take k (pre @ pack_tlv t @ ?R)) ?bl (length pre + length (pack_tlv t)) = Inl OutOfBounds" by (simp add: add.assoc)
    hence "unpack_loop (take k (pre @ pack_tlv t @ ?R)) ?bl (length pre) = Inl OutOfBounds"
      using unpack_step [OF wf fits, of "take (k - length pre - length (pack_tlv t)) ?R"] unfolding tk by (simp only: res_bind_simps)
    thus ?thesis by simp
  qed
qed

section \<open>Headers that fit the buffer\<close>

lemma get_inside: "i < length buf \<Longrightarrow> get_byte buf i = Inr (of_char (buf ! i))"
  by (simp add: get_byte_def)

lemma get_int_inside: "j + 4 \<le> length buf \<Longrightarrow> \<exists>n. get_int j buf = Inr n"
  by (simp add: get_int_def get_bytes_def Let_def)

lemma unpack_loop_in_bounds:
  "buflen \<le> int (length buf) \<Longrightarrow> int j \<le> buflen \<or> j + 5 \<le> length buf \<Longrightarrow>
   \<exists>T. unpack_loop buf buflen j = Inr T \<and> (T = [] \<or> int (j + length (concat (map pack_tlv T))) \<le> buflen)"
proof (induction buf buflen j rule: unpack_loop.induct)
  case (1 buf buflen j)
  show ?case
  proof (cases "0 \<le> buflen - int j \<and> buflen - int j < 5")
    case True
    thus ?thesis by (subst unpack_loop.simps) simp
  next
    case stop: False
    hence in5: "j + 5 \<le> length buf" using "1.prems" by linarith
    obtain ty where ty: "get_byte buf j = Inr ty" using in5 by (simp add: get_inside)
    obtain len where len: "get_int (j + 1) buf = Inr len" using get_int_inside [of "j + 1" buf] in5 by auto
    show ?thesis
    proof (cases "ty = 0 \<or> ty > 127 \<or> ty > STORE_META_END + 10 \<or> len < 0 \<or> len > 65536 \<or> int j + 5 + len > buflen")
      case True
      hence "unpack_loop buf buflen j = Inr []" using stop ty len by (subst unpack_loop.simps) auto
      thus ?thesis by simp
    next
      case go: False
      hence nxt: "int (j + 5 + nat len) \<le> buflen" by simp
      hence fit: "\<not> length buf < j + 5 + nat len" using "1.prems"(1) by linarith
      hence v: "get_bytes (j + 5) (nat len) buf = Inr (take (nat len) (drop (j + 5) buf))" by (simp add: get_bytes_def)
      obtain T where T: "unpack_loop buf buflen (j + 5 + nat len) = Inr T" "T = [] \<or> int (j + 5 + nat len + length (concat (map pack_tlv T))) \<le> buflen"
        using "1.IH" [OF stop ty _ len _ _ v] go nxt "1.prems"(1) by auto
      have "length (take (nat len) (drop (j + 5) buf)) = nat len" using fit by simp
      moreover have "unpack_loop buf buflen j = Inr (\<lparr>tlv_type = ty, tlv_value = take (nat len) (drop (j + 5) buf)\<rparr> # T)"
        using stop go ty len v T(1) by (subst unpack_loop.simps) auto
      ultimately show ?thesis using T(2) nxt by auto
    qed
  qed
qed

section \<open>The header of an entry\<close>

text \<open>A string of C, short enough for a header.\<close>

definition short_string :: "string \<Rightarrow> bool" where
  "short_string s \<longleftrightarrow> NUL \<notin> set s \<and> length s < 65536"

definition wf_entry :: "swap_entry \<Rightarrow> bool" where
  "wf_entry e \<longleftrightarrow> swapout_writing e \<and> length (se_key e) = MD5_DIGEST_LENGTH \<and> length (se_std e) \<le> 65536 \<and> short_string (m_url (se_mem e)) \<and>
     (case vary_headers (se_mem e) of None \<Rightarrow> True | Some v \<Rightarrow> short_string v) \<and> (case store_url (se_mem e) of None \<Rightarrow> True | Some u \<Rightarrow> short_string u)"

definition entry_tlvs :: "swap_entry \<Rightarrow> tlv list" where
  "entry_tlvs e =
     [\<lparr>tlv_type = STORE_META_KEY, tlv_value = se_key e\<rparr>, \<lparr>tlv_type = STORE_META_STD, tlv_value = se_std e\<rparr>,
      \<lparr>tlv_type = STORE_META_URL, tlv_value = m_url (se_mem e) @ [NUL]\<rparr>] @
     (if object_sz (se_mem e) > - 1 then [\<lparr>tlv_type = STORE_META_OBJSIZE, tlv_value = put_off (object_sz (se_mem e))\<rparr>] else []) @
     (case vary_headers (se_mem e) of None \<Rightarrow> [] | Some v \<Rightarrow> [\<lparr>tlv_type = STORE_META_VARY_HEADERS, tlv_value = v @ [NUL]\<rparr>]) @
     (case store_url (se_mem e) of None \<Rightarrow> [] | Some u \<Rightarrow> [\<lparr>tlv_type = STORE_META_STOREURL, tlv_value = u @ [NUL]\<rparr>])"

lemma build_entry: "wf_entry e \<Longrightarrow> storeSwapMetaBuild e = Inr (entry_tlvs e)"
  by (simp add: storeSwapMetaBuild_def wf_entry_def entry_tlvs_def storeSwapTLVAdd_def c_bytes_def Let_def split: option.split)

lemmas meta_types = STORE_META_KEY_def STORE_META_URL_def STORE_META_STD_def STORE_META_VARY_HEADERS_def STORE_META_OBJSIZE_def STORE_META_STOREURL_def STORE_META_END_def

lemma wf_entry_tlvs: "wf_entry e \<Longrightarrow> \<forall>t \<in> set (entry_tlvs e). wf_tlv t"
  by (auto simp: entry_tlvs_def wf_entry_def wf_tlv_def meta_types MD5_DIGEST_LENGTH_def short_string_def put_off_def split: option.split_asm if_split_asm)

lemma meta_length_entry: "wf_entry e \<Longrightarrow> meta_length (entry_tlvs e) < 2 ^ 31"
  by (auto simp: entry_tlvs_def wf_entry_def meta_length_def MD5_DIGEST_LENGTH_def short_string_def put_off_def split: option.split)

section \<open>Which files are accepted\<close>

lemma dup_value_string: "short_string s \<Longrightarrow> dup_value (s @ [NUL]) = Inr s"
  by (simp add: dup_value_def short_string_def cstr_append_NUL)

lemma strcmp_differs_string: "NUL \<notin> set w \<Longrightarrow> NUL \<notin> set v \<Longrightarrow> strcmp_differs w (v @ [NUL]) = Inr (w \<noteq> v)"
proof (induction w arbitrary: v)
  case Nil
  thus ?case by (cases v) auto
next
  case (Cons a w)
  thus ?case by (cases v) auto
qed

text \<open>
  The entry \<open>e\<close> of the reader accepts the file that was written for \<open>e0\<close>: the keys agree, unless that of the
  reader is private; a selection by \<^verbatim>\<open>Vary\<close> and a rewritten URL agree if both have one.
\<close>

definition accepts_file :: "swap_entry \<Rightarrow> swap_entry \<Rightarrow> bool" where
  "accepts_file e e0 \<longleftrightarrow>
     (key_private e \<or> se_key e = se_key e0) \<and>
     (case (vary_headers (se_mem e), vary_headers (se_mem e0)) of (Some v, Some v0) \<Rightarrow> v = v0 | _ \<Rightarrow> True) \<and>
     (case (store_url (se_mem e), store_url (se_mem e0)) of (Some u, Some u0) \<Rightarrow> map tolower u = map tolower u0 | _ \<Rightarrow> True)"

definition c_string_opt :: "string option \<Rightarrow> bool" where
  "c_string_opt v \<longleftrightarrow> (case v of None \<Rightarrow> True | Some s \<Rightarrow> NUL \<notin> set s)"

text \<open>The scan of the header of \<open>e0\<close>, entry by entry.\<close>

definition scan_start :: "swap_entry \<Rightarrow> header_scan" where
  "scan_start e = \<lparr>sc_ok = True, sc_url = None, sc_store_url = None, sc_vary = vary_headers (se_mem e)\<rparr>"

lemma scan_stopped: "\<not> sc_ok s \<Longrightarrow> scan_tlvs e T s = Inr s"
  by (cases T) simp_all

lemma scan_front:
  assumes "length (se_key e) = MD5_DIGEST_LENGTH" "wf_entry e0"
  shows "scan_tlvs e (\<lparr>tlv_type = STORE_META_KEY, tlv_value = se_key e0\<rparr> # \<lparr>tlv_type = STORE_META_STD, tlv_value = se_std e0\<rparr> #
      \<lparr>tlv_type = STORE_META_URL, tlv_value = m_url (se_mem e0) @ [NUL]\<rparr> # T) (scan_start e) =
    (if key_private e \<or> se_key e = se_key e0 then scan_tlvs e T ((scan_start e)\<lparr>sc_url := Some (m_url (se_mem e0))\<rparr>) else Inr ((scan_start e)\<lparr>sc_ok := False\<rparr>))"
  using assms by (auto simp: wf_entry_def scan_start_def meta_types dup_value_string)

lemma scan_objsize: "scan_tlvs e ((if b then [\<lparr>tlv_type = STORE_META_OBJSIZE, tlv_value = v\<rparr>] else []) @ T) s = scan_tlvs e T s"
  by (cases "sc_ok s") (simp_all add: meta_types scan_stopped)

lemma scan_vary:
  assumes "sc_ok s" "c_string_opt (sc_vary s)" "case w of None \<Rightarrow> True | Some v \<Rightarrow> short_string v"
  shows "scan_tlvs e ((case w of None \<Rightarrow> [] | Some v \<Rightarrow> [\<lparr>tlv_type = STORE_META_VARY_HEADERS, tlv_value = v @ [NUL]\<rparr>]) @ T) s =
    (case (sc_vary s, w) of
       (_, None) \<Rightarrow> scan_tlvs e T s
     | (None, Some v) \<Rightarrow> scan_tlvs e T (s\<lparr>sc_vary := Some v\<rparr>)
     | (Some u, Some v) \<Rightarrow> if u = v then scan_tlvs e T s else Inr (s\<lparr>sc_ok := False\<rparr>))"
proof (cases w)
  case (Some v)
  hence v: "short_string v" "NUL \<notin> set v" using assms(3) by (simp_all add: short_string_def)
  show ?thesis
  proof (cases "sc_vary s")
    case None
    thus ?thesis using assms(1) v Some by (simp add: meta_types dup_value_string)
  next
    case (Some u)
    hence "strcmp_differs u (v @ [NUL]) = Inr (u \<noteq> v)" using assms(2) v by (intro strcmp_differs_string) (simp_all add: c_string_opt_def)
    thus ?thesis using assms(1) Some \<open>w = Some v\<close> by (simp add: meta_types scan_stopped)
  qed
qed (cases "sc_vary s"; simp)

lemma scan_store_url:
  assumes "sc_ok s" "case w of None \<Rightarrow> True | Some u \<Rightarrow> short_string u" "sc_store_url s = None"
  shows "scan_tlvs e (case w of None \<Rightarrow> [] | Some u \<Rightarrow> [\<lparr>tlv_type = STORE_META_STOREURL, tlv_value = u @ [NUL]\<rparr>]) s = Inr (s\<lparr>sc_store_url := w\<rparr>)"
  using assms by (cases w) (simp_all add: meta_types dup_value_string)

lemma scan_entry:
  assumes "length (se_key e) = MD5_DIGEST_LENGTH" "wf_entry e0" "c_string_opt (vary_headers (se_mem e))"
  shows "\<exists>s. scan_tlvs e (entry_tlvs e0) (scan_start e) = Inr s \<and> fst (check_urls e s) = accepts_file e e0 \<and>
    (accepts_file e e0 \<longrightarrow> snd (check_urls e s) = (case store_url (se_mem e) of None \<Rightarrow> store_url (se_mem e0) | Some u \<Rightarrow> Some u) \<and>
       sc_vary s = (case vary_headers (se_mem e) of None \<Rightarrow> vary_headers (se_mem e0) | Some v \<Rightarrow> Some v))"
proof (cases "key_private e \<or> se_key e = se_key e0")
  case False
  hence "scan_tlvs e (entry_tlvs e0) (scan_start e) = Inr ((scan_start e)\<lparr>sc_ok := False\<rparr>)" using scan_front [OF assms(1,2)] by (simp add: entry_tlvs_def)
  thus ?thesis using False by (simp add: check_urls_def scan_start_def accepts_file_def)
next
  case True
  let ?s = "(scan_start e)\<lparr>sc_url := Some (m_url (se_mem e0))\<rparr>"
  let ?V = "vary_headers (se_mem e)" let ?W = "vary_headers (se_mem e0)"
  have wf: "case ?W of None \<Rightarrow> True | Some v \<Rightarrow> short_string v" "case store_url (se_mem e0) of None \<Rightarrow> True | Some u \<Rightarrow> short_string u"
    using assms(2) by (simp_all add: wf_entry_def)
  have s: "sc_ok ?s" "c_string_opt (sc_vary ?s)" "sc_store_url ?s = None" "sc_vary ?s = ?V" using assms(3) by (simp_all add: scan_start_def)
  let ?r = "case (?V, ?W) of (Some u, Some v) \<Rightarrow> (if u = v then ?s\<lparr>sc_store_url := store_url (se_mem e0)\<rparr> else ?s\<lparr>sc_ok := False\<rparr>)
    | (None, Some v) \<Rightarrow> ?s\<lparr>sc_vary := Some v, sc_store_url := store_url (se_mem e0)\<rparr> | (_, None) \<Rightarrow> ?s\<lparr>sc_store_url := store_url (se_mem e0)\<rparr>"
  let ?tl = "case store_url (se_mem e0) of None \<Rightarrow> [] | Some u \<Rightarrow> [\<lparr>tlv_type = STORE_META_STOREURL, tlv_value = u @ [NUL]\<rparr>]"
  have last: "sc_ok s' \<Longrightarrow> sc_store_url s' = None \<Longrightarrow> scan_tlvs e ?tl s' = Inr (s'\<lparr>sc_store_url := store_url (se_mem e0)\<rparr>)" for s'
    using wf(2) by (rule scan_store_url [rotated])
  have "scan_tlvs e (entry_tlvs e0) (scan_start e) = (case (?V, ?W) of (_, None) \<Rightarrow> scan_tlvs e ?tl ?s
      | (None, Some v) \<Rightarrow> scan_tlvs e ?tl (?s\<lparr>sc_vary := Some v\<rparr>) | (Some u, Some v) \<Rightarrow> if u = v then scan_tlvs e ?tl ?s else Inr (?s\<lparr>sc_ok := False\<rparr>))"
    unfolding entry_tlvs_def append.simps scan_front [OF assms(1,2)] if_P [OF True] scan_objsize scan_vary [OF s(1,2) wf(1)] s(4) by (rule refl)
  also have "\<dots> = Inr ?r"
    using last [OF s(1,3)] last [of "?s\<lparr>sc_vary := w\<rparr>" for w] s(1,3) by (cases ?V; cases ?W) simp_all
  finally have "scan_tlvs e (entry_tlvs e0) (scan_start e) = Inr ?r" .
  moreover have "fst (check_urls e ?r) = accepts_file e e0 \<and>
    (accepts_file e e0 \<longrightarrow> snd (check_urls e ?r) = (case store_url (se_mem e) of None \<Rightarrow> store_url (se_mem e0) | Some u \<Rightarrow> Some u) \<and>
       sc_vary ?r = (case ?V of None \<Rightarrow> ?W | Some v \<Rightarrow> Some v))"
    using True by (auto simp: check_urls_def scan_start_def accepts_file_def Let_def split: option.split if_split_asm)
  ultimately show ?thesis by blast
qed

section \<open>Properties\<close>

text \<open>
  C27. Swap headers round trip: a list of entries that is packed, whatever follows it in the file, is
  unpacked to the same list and the length of the header, as long as the types and lengths are those the
  reader allows and the length of the header is an \<^verbatim>\<open>int\<close>.
\<close>

theorem swap_header_round_trip:
  assumes "T \<noteq> []" "\<forall>t \<in> set T. wf_tlv t" "meta_length T < 2 ^ 31"
  shows "storeSwapMetaUnpack (storeSwapMetaPack T @ rest) = Inr (T, Some (int (length (storeSwapMetaPack T))))"
  using unpack_pack [OF assms] by (simp add: length_pack)

theorem swap_header_round_trip_witness:
  "storeSwapMetaUnpack (storeSwapMetaPack [\<lparr>tlv_type = 4, tlv_value = ''u''\<rparr>] @ ''body'') = Inr ([\<lparr>tlv_type = 4, tlv_value = ''u''\<rparr>], Some 11)"
  using swap_header_round_trip [of "[\<lparr>tlv_type = 4, tlv_value = ''u''\<rparr>]" "''body''"]
  by (simp add: wf_tlv_def STORE_META_END_def meta_length_def length_pack)

text \<open>
  A header is read without regard to the size of the buffer: whenever only a part of a header is in
  the buffer, \<^const>\<open>storeSwapMetaUnpack\<close> reads behind the end of the buffer, however the header was cut; the caller
  compares the length of the header with what it has read only afterwards.
\<close>

theorem swap_header_cut:
  assumes "\<forall>t \<in> set T. wf_tlv t" "meta_length T < 2 ^ 31" "k < length (storeSwapMetaPack T)" "T \<noteq> []"
  shows "storeSwapMetaUnpack (take k (storeSwapMetaPack T)) = Inl OutOfBounds"
proof -
  let ?n = "put_int (int (meta_length T))" let ?c = "char_of STORE_META_OK :: char" let ?b = "storeSwapMetaPack T"
  have b: "?b = ([?c] @ ?n) @ concat (map pack_tlv T)" by (simp add: storeSwapMetaPack_def)
  have len: "length (take k ?b) = k" using assms(3) by simp
  consider "k = 0" | "0 < k" "k < 5" | "5 \<le> k" by linarith
  thus ?thesis
  proof cases
    case 1
    thus ?thesis by (simp add: storeSwapMetaUnpack_def get_byte_def)
  next
    case 2
    have "get_byte (take k ?b) 0 = Inr STORE_META_OK" unfolding get_byte_take [OF 2(1)] by (simp add: storeSwapMetaPack_def get_byte_def STORE_META_OK_def)
    moreover have "get_int 1 (take k ?b) = Inl OutOfBounds" using 2 len by (intro get_int_outside) simp
    ultimately show ?thesis by (simp add: storeSwapMetaUnpack_def)
  next
    case 3
    hence k: "0 < k" "1 + 4 \<le> k" by simp_all
    have "get_byte (take k ?b) 0 = Inr STORE_META_OK" unfolding get_byte_take [OF k(1)] by (simp add: storeSwapMetaPack_def get_byte_def STORE_META_OK_def)
    moreover have "get_int 1 (take k ?b) = Inr (int (meta_length T))"
      unfolding get_int_take [OF k(2)] using get_int_put_int [OF assms(2), of 1 "[?c]" "concat (map pack_tlv T)"] by (simp add: b)
    moreover have "unpack_loop (take k ?b) (int (meta_length T)) 5 = Inl OutOfBounds"
      using unpack_loop_cut [OF assms(1), of "[?c] @ ?n" k] 3 assms(3) by (simp add: b length_concat_pack [symmetric] add.commute)
    moreover have "meta_length T > 5" using assms(4) by (cases T) (simp_all add: meta_length_def)
    ultimately show ?thesis by (simp add: storeSwapMetaUnpack_def)
  qed
qed

theorem swap_header_cut_witness:
  "storeSwapMetaUnpack (take 10 (storeSwapMetaPack [\<lparr>tlv_type = 4, tlv_value = ''u''\<rparr>])) = Inl OutOfBounds"
  using swap_header_cut [of "[\<lparr>tlv_type = 4, tlv_value = ''u''\<rparr>]" 10] by (simp add: wf_tlv_def STORE_META_END_def meta_length_def length_pack)

text \<open>
  C28. Whatever the bytes of a file are: if its stated length is within the buffer, and the buffer has ten
  bytes, \<^const>\<open>storeSwapMetaUnpack\<close> reads nothing outside of the buffer, and the entries it returns are together
  not longer than the stated length.
\<close>

theorem swap_header_in_bounds:
  assumes "10 \<le> length buf" "get_int 1 buf = Inr l" "l \<le> int (length buf)"
  shows "\<exists>T h. storeSwapMetaUnpack buf = Inr (T, h) \<and> (T \<noteq> [] \<longrightarrow> h = Some l \<and> int (meta_length T) \<le> l)"
proof (cases "buf ! 0 = char_of STORE_META_OK \<and> \<not> (0 \<le> l \<and> l \<le> 5)")
  case True
  have "int 5 \<le> l \<or> 5 + 5 \<le> length buf" using assms(1) by simp
  then obtain T where "unpack_loop buf l 5 = Inr T" "T = [] \<or> int (5 + length (concat (map pack_tlv T))) \<le> l"
    using unpack_loop_in_bounds [OF assms(3)] by blast
  moreover have "buf \<noteq> []" using assms(1) by auto
  ultimately show ?thesis using True assms(2) length_concat_pack [of T]
    by (cases "T = []") (simp_all add: storeSwapMetaUnpack_def get_byte_def STORE_META_OK_def)
next
  case False
  have "of_char (buf ! 0) = STORE_META_OK \<Longrightarrow> buf ! 0 = char_of STORE_META_OK" by (metis char_of_char)
  thus ?thesis using False assms(1,2) by (auto simp: storeSwapMetaUnpack_def get_byte_def)
qed

theorem swap_header_in_bounds_witness:
  "\<exists>T h. storeSwapMetaUnpack (storeSwapMetaPack [\<lparr>tlv_type = 4, tlv_value = ''u''\<rparr>]) = Inr (T, h) \<and> (T \<noteq> [] \<longrightarrow> h = Some 11 \<and> int (meta_length T) \<le> 11)"
  using swap_header_in_bounds [of "storeSwapMetaPack [\<lparr>tlv_type = 4, tlv_value = ''u''\<rparr>]" 11]
  by (simp add: length_pack meta_length_def storeSwapMetaPack_def get_int_put_int [of 11 1 "[char_of STORE_META_OK]", simplified])

text \<open>
  C20. Which files a reader accepts: on the header that was written for the entry \<open>e0\<close> (its strings below 64 kB), followed by the body,
  \<^const>\<open>storeClientReadHeader\<close> for the entry \<open>e\<close> delivers the body, or reads on, exactly if the keys agree or the key of
  the reader is private, and \<^verbatim>\<open>Vary\<close> selections and, without case, rewritten URLs agree where both have them; it takes these
  from the file where the entry has none and sets the sizes. In particular a file with a rewritten URL is accepted for a
  reader that has none, although the comment in the code calls such an access illegal. The URL of the
  reader has no effect, because its comparison is commented out in the code.
\<close>

theorem swap_file_accepted:
  assumes "length (se_key e) = MD5_DIGEST_LENGTH" "wf_entry e0" "c_string_opt (vary_headers (se_mem e))"
    and "storeSwapMetaBuild e0 = Inr T" "arr = storeSwapMetaPack T @ body"
  shows "if accepts_file e e0
    then storeClientReadHeader e arr (int (length arr)) copy_offset =
      Inr (if copy_offset < length body then CallbackData body else ReadAgain,
           e\<lparr>se_mem := (se_mem e)\<lparr>vary_headers := (case vary_headers (se_mem e) of None \<Rightarrow> vary_headers (se_mem e0) | Some v \<Rightarrow> Some v),
                       store_url := (case store_url (se_mem e) of None \<Rightarrow> store_url (se_mem e0) | Some u \<Rightarrow> Some u),
                       swap_hdr_sz := length (storeSwapMetaPack T), object_sz := swap_file_sz e - int (length (storeSwapMetaPack T))\<rparr>\<rparr>)
    else \<exists>e'. storeClientReadHeader e arr (int (length arr)) copy_offset = Inr (CallbackError, e')"
proof -
  let ?h = "length (storeSwapMetaPack T)"
  have T: "T = entry_tlvs e0" using assms(4) build_entry [OF assms(2)] by simp
  hence ne: "T \<noteq> []" by (simp add: entry_tlvs_def)
  have u: "storeSwapMetaUnpack arr = Inr (T, Some (int ?h))"
    unfolding assms(5) length_pack T by (rule unpack_pack [OF ne [unfolded T] wf_entry_tlvs [OF assms(2)] meta_length_entry [OF assms(2)]])
  obtain s ok su where s: "scan_tlvs e T (scan_start e) = Inr s" "check_urls e s = (ok, su)" "ok = accepts_file e e0"
    "accepts_file e e0 \<Longrightarrow> su = (case store_url (se_mem e) of None \<Rightarrow> store_url (se_mem e0) | Some u \<Rightarrow> Some u)"
    "accepts_file e e0 \<Longrightarrow> sc_vary s = (case vary_headers (se_mem e) of None \<Rightarrow> vary_headers (se_mem e0) | Some v \<Rightarrow> Some v)"
    using scan_entry [OF assms(1-3)] unfolding T by (metis prod.collapse)
  have len: "length arr = ?h + length body" "nat (int (length arr) - int ?h) = length body" by (simp_all add: assms(5))
  have d: "get_bytes ?h (length body) arr = Inr body" by (simp add: assms(5) get_bytes_def)
  show ?thesis
    using s ne by (simp add: storeClientReadHeader_def u len(1) d scan_start_def [symmetric])
qed

text \<open>A reader of another URL, without a rewritten one, whose key is that of a file with a rewritten URL.\<close>

definition sample_entry :: "string \<Rightarrow> string option \<Rightarrow> swap_entry" where
  "sample_entry url su = \<lparr>se_key = replicate 16 CHR ''k'', key_private = False, se_std = [], swapout_writing = True, swap_file_sz = 70,
     se_mem = \<lparr>m_url = url, vary_headers = None, store_url = su, object_sz = - 1, swap_hdr_sz = 0\<rparr>\<rparr>"

lemma sample_entry_wf: "wf_entry (sample_entry ''a'' (Some ''s''))"
  by (simp add: wf_entry_def sample_entry_def MD5_DIGEST_LENGTH_def short_string_def)

theorem swap_file_accepted_witness:
  "\<exists>e'. storeClientReadHeader (sample_entry ''b'' None) (storeSwapMetaPack (entry_tlvs (sample_entry ''a'' (Some ''s''))) @ ''body'')
     (int (length (storeSwapMetaPack (entry_tlvs (sample_entry ''a'' (Some ''s''))) @ ''body''))) 0 = Inr (CallbackData ''body'', e') \<and> store_url (se_mem e') = Some ''s''"
proof -
  have "length (se_key (sample_entry ''b'' None)) = MD5_DIGEST_LENGTH" "c_string_opt (vary_headers (se_mem (sample_entry ''b'' None)))" "accepts_file (sample_entry ''b'' None) (sample_entry ''a'' (Some ''s''))"
    by (simp_all add: sample_entry_def MD5_DIGEST_LENGTH_def c_string_opt_def accepts_file_def)
  moreover have "store_url (se_mem (sample_entry url su)) = su" for url su by (simp add: sample_entry_def)
  ultimately show ?thesis using swap_file_accepted [OF _ sample_entry_wf _ build_entry [OF sample_entry_wf] refl, of "sample_entry ''b'' None" "''body''" 0] by simp
qed

end
