(* ===== verification/Http_Header_Table.thy ===== *)
theory Http_Header_Table
  imports Header_Tools
begin

text \<open>
  The known header fields: the enumeration of \<^verbatim>\<open>src/enums.h\<close>, the tables of \<^verbatim>\<open>src/HttpHeader.c\<close> with their names
  and types, and the lookup of a field by its name. The masks that say which fields are lists are sets of
  identifiers; they are computed when the module is initialised, which must not fail an assertion.
\<close>

section \<open>Identifiers\<close>

named_theorems hdr_ids \<open>the values of the enumeration of header fields\<close>

definition HDR_ACCEPT :: nat where [hdr_ids]: "HDR_ACCEPT = 0"
definition HDR_ACCEPT_CHARSET :: nat where [hdr_ids]: "HDR_ACCEPT_CHARSET = 1"
definition HDR_ACCEPT_ENCODING :: nat where [hdr_ids]: "HDR_ACCEPT_ENCODING = 2"
definition HDR_ACCEPT_LANGUAGE :: nat where [hdr_ids]: "HDR_ACCEPT_LANGUAGE = 3"
definition HDR_ACCEPT_RANGES :: nat where [hdr_ids]: "HDR_ACCEPT_RANGES = 4"
definition HDR_AGE :: nat where [hdr_ids]: "HDR_AGE = 5"
definition HDR_ALLOW :: nat where [hdr_ids]: "HDR_ALLOW = 6"
definition HDR_AUTHORIZATION :: nat where [hdr_ids]: "HDR_AUTHORIZATION = 7"
definition HDR_CACHE_CONTROL :: nat where [hdr_ids]: "HDR_CACHE_CONTROL = 8"
definition HDR_CONNECTION :: nat where [hdr_ids]: "HDR_CONNECTION = 9"
definition HDR_CONTENT_BASE :: nat where [hdr_ids]: "HDR_CONTENT_BASE = 10"
definition HDR_CONTENT_DISPOSITION :: nat where [hdr_ids]: "HDR_CONTENT_DISPOSITION = 11"
definition HDR_CONTENT_ENCODING :: nat where [hdr_ids]: "HDR_CONTENT_ENCODING = 12"
definition HDR_CONTENT_LANGUAGE :: nat where [hdr_ids]: "HDR_CONTENT_LANGUAGE = 13"
definition HDR_CONTENT_LENGTH :: nat where [hdr_ids]: "HDR_CONTENT_LENGTH = 14"
definition HDR_CONTENT_LOCATION :: nat where [hdr_ids]: "HDR_CONTENT_LOCATION = 15"
definition HDR_CONTENT_MD5 :: nat where [hdr_ids]: "HDR_CONTENT_MD5 = 16"
definition HDR_CONTENT_RANGE :: nat where [hdr_ids]: "HDR_CONTENT_RANGE = 17"
definition HDR_CONTENT_TYPE :: nat where [hdr_ids]: "HDR_CONTENT_TYPE = 18"
definition HDR_TE :: nat where [hdr_ids]: "HDR_TE = 19"
definition HDR_TRANSFER_ENCODING :: nat where [hdr_ids]: "HDR_TRANSFER_ENCODING = 20"
definition HDR_TRAILER :: nat where [hdr_ids]: "HDR_TRAILER = 21"
definition HDR_COOKIE :: nat where [hdr_ids]: "HDR_COOKIE = 22"
definition HDR_DATE :: nat where [hdr_ids]: "HDR_DATE = 23"
definition HDR_ETAG :: nat where [hdr_ids]: "HDR_ETAG = 24"
definition HDR_EXPIRES :: nat where [hdr_ids]: "HDR_EXPIRES = 25"
definition HDR_FROM :: nat where [hdr_ids]: "HDR_FROM = 26"
definition HDR_HOST :: nat where [hdr_ids]: "HDR_HOST = 27"
definition HDR_IF_MATCH :: nat where [hdr_ids]: "HDR_IF_MATCH = 28"
definition HDR_IF_MODIFIED_SINCE :: nat where [hdr_ids]: "HDR_IF_MODIFIED_SINCE = 29"
definition HDR_IF_NONE_MATCH :: nat where [hdr_ids]: "HDR_IF_NONE_MATCH = 30"
definition HDR_IF_RANGE :: nat where [hdr_ids]: "HDR_IF_RANGE = 31"
definition HDR_LAST_MODIFIED :: nat where [hdr_ids]: "HDR_LAST_MODIFIED = 32"
definition HDR_LINK :: nat where [hdr_ids]: "HDR_LINK = 33"
definition HDR_LOCATION :: nat where [hdr_ids]: "HDR_LOCATION = 34"
definition HDR_MAX_FORWARDS :: nat where [hdr_ids]: "HDR_MAX_FORWARDS = 35"
definition HDR_MIME_VERSION :: nat where [hdr_ids]: "HDR_MIME_VERSION = 36"
definition HDR_PRAGMA :: nat where [hdr_ids]: "HDR_PRAGMA = 37"
definition HDR_PROXY_AUTHENTICATE :: nat where [hdr_ids]: "HDR_PROXY_AUTHENTICATE = 38"
definition HDR_PROXY_AUTHENTICATION_INFO :: nat where [hdr_ids]: "HDR_PROXY_AUTHENTICATION_INFO = 39"
definition HDR_PROXY_AUTHORIZATION :: nat where [hdr_ids]: "HDR_PROXY_AUTHORIZATION = 40"
definition HDR_PROXY_CONNECTION :: nat where [hdr_ids]: "HDR_PROXY_CONNECTION = 41"
definition HDR_PUBLIC :: nat where [hdr_ids]: "HDR_PUBLIC = 42"
definition HDR_RANGE :: nat where [hdr_ids]: "HDR_RANGE = 43"
definition HDR_REQUEST_RANGE :: nat where [hdr_ids]: "HDR_REQUEST_RANGE = 44"
definition HDR_REFERER :: nat where [hdr_ids]: "HDR_REFERER = 45"
definition HDR_RETRY_AFTER :: nat where [hdr_ids]: "HDR_RETRY_AFTER = 46"
definition HDR_SERVER :: nat where [hdr_ids]: "HDR_SERVER = 47"
definition HDR_SET_COOKIE :: nat where [hdr_ids]: "HDR_SET_COOKIE = 48"
definition HDR_UPGRADE :: nat where [hdr_ids]: "HDR_UPGRADE = 49"
definition HDR_USER_AGENT :: nat where [hdr_ids]: "HDR_USER_AGENT = 50"
definition HDR_VARY :: nat where [hdr_ids]: "HDR_VARY = 51"
definition HDR_VIA :: nat where [hdr_ids]: "HDR_VIA = 52"
definition HDR_EXPECT :: nat where [hdr_ids]: "HDR_EXPECT = 53"
definition HDR_WARNING :: nat where [hdr_ids]: "HDR_WARNING = 54"
definition HDR_WWW_AUTHENTICATE :: nat where [hdr_ids]: "HDR_WWW_AUTHENTICATE = 55"
definition HDR_AUTHENTICATION_INFO :: nat where [hdr_ids]: "HDR_AUTHENTICATION_INFO = 56"
definition HDR_X_CACHE :: nat where [hdr_ids]: "HDR_X_CACHE = 57"
definition HDR_X_CACHE_LOOKUP :: nat where [hdr_ids]: "HDR_X_CACHE_LOOKUP = 58"
definition HDR_X_FORWARDED_FOR :: nat where [hdr_ids]: "HDR_X_FORWARDED_FOR = 59"
definition HDR_X_REQUEST_URI :: nat where [hdr_ids]: "HDR_X_REQUEST_URI = 60"
definition HDR_X_SQUID_ERROR :: nat where [hdr_ids]: "HDR_X_SQUID_ERROR = 61"
definition HDR_NEGOTIATE :: nat where [hdr_ids]: "HDR_NEGOTIATE = 62"
definition HDR_X_ERROR_URL :: nat where [hdr_ids]: "HDR_X_ERROR_URL = 63"
definition HDR_X_ERROR_STATUS :: nat where [hdr_ids]: "HDR_X_ERROR_STATUS = 64"
definition HDR_X_HTTP09_FIRST_LINE :: nat where [hdr_ids]: "HDR_X_HTTP09_FIRST_LINE = 65"
definition HDR_FRONT_END_HTTPS :: nat where [hdr_ids]: "HDR_FRONT_END_HTTPS = 66"
definition HDR_PROXY_SUPPORT :: nat where [hdr_ids]: "HDR_PROXY_SUPPORT = 67"
definition HDR_KEEP_ALIVE :: nat where [hdr_ids]: "HDR_KEEP_ALIVE = 68"
definition HDR_OTHER :: nat where [hdr_ids]: "HDR_OTHER = 69"
definition HDR_ENUM_END :: nat where [hdr_ids]: "HDR_ENUM_END = 70"

definition ftInt :: nat where "ftInt = HDR_ENUM_END + 1"
definition ftStr :: nat where "ftStr = HDR_ENUM_END + 2"
definition ftDate_1123 :: nat where "ftDate_1123 = HDR_ENUM_END + 3"
definition ftETag :: nat where "ftETag = HDR_ENUM_END + 4"
definition ftPCc :: nat where "ftPCc = HDR_ENUM_END + 5"
definition ftPContRange :: nat where "ftPContRange = HDR_ENUM_END + 6"
definition ftPRange :: nat where "ftPRange = HDR_ENUM_END + 7"
definition ftDate_1123_or_ETag :: nat where "ftDate_1123_or_ETag = HDR_ENUM_END + 8"
definition ftSize :: nat where "ftSize = HDR_ENUM_END + 9"

lemmas field_types = ftInt_def ftStr_def ftDate_1123_def ftETag_def ftPCc_def ftPContRange_def ftPRange_def ftDate_1123_or_ETag_def ftSize_def

section \<open>Tables\<close>

text \<open>Name, identifier and type.\<close>

type_synonym field_attrs = "string \<times> nat \<times> nat"

definition HeadersAttrs :: "field_attrs list" where
  "HeadersAttrs = [
     (''Accept'', HDR_ACCEPT, ftStr),
     (''Accept-Charset'', HDR_ACCEPT_CHARSET, ftStr),
     (''Accept-Encoding'', HDR_ACCEPT_ENCODING, ftStr),
     (''Accept-Language'', HDR_ACCEPT_LANGUAGE, ftStr),
     (''Accept-Ranges'', HDR_ACCEPT_RANGES, ftStr),
     (''Age'', HDR_AGE, ftInt),
     (''Allow'', HDR_ALLOW, ftStr),
     (''Authorization'', HDR_AUTHORIZATION, ftStr),
     (''Cache-Control'', HDR_CACHE_CONTROL, ftPCc),
     (''Connection'', HDR_CONNECTION, ftStr),
     (''Content-Base'', HDR_CONTENT_BASE, ftStr),
     (''Content-Disposition'', HDR_CONTENT_DISPOSITION, ftStr),
     (''Content-Encoding'', HDR_CONTENT_ENCODING, ftStr),
     (''Content-Language'', HDR_CONTENT_LANGUAGE, ftStr),
     (''Content-Length'', HDR_CONTENT_LENGTH, ftSize),
     (''Content-Location'', HDR_CONTENT_LOCATION, ftStr),
     (''Content-MD5'', HDR_CONTENT_MD5, ftStr),
     (''Content-Range'', HDR_CONTENT_RANGE, ftPContRange),
     (''Content-Type'', HDR_CONTENT_TYPE, ftStr),
     (''Cookie'', HDR_COOKIE, ftStr),
     (''Date'', HDR_DATE, ftDate_1123),
     (''ETag'', HDR_ETAG, ftStr),
     (''Expires'', HDR_EXPIRES, ftDate_1123),
     (''From'', HDR_FROM, ftStr),
     (''Host'', HDR_HOST, ftStr),
     (''If-Match'', HDR_IF_MATCH, ftStr),
     (''If-Modified-Since'', HDR_IF_MODIFIED_SINCE, ftDate_1123),
     (''If-None-Match'', HDR_IF_NONE_MATCH, ftStr),
     (''If-Range'', HDR_IF_RANGE, ftDate_1123_or_ETag),
     (''Last-Modified'', HDR_LAST_MODIFIED, ftDate_1123),
     (''Link'', HDR_LINK, ftStr),
     (''Location'', HDR_LOCATION, ftStr),
     (''Max-Forwards'', HDR_MAX_FORWARDS, ftInt),
     (''Mime-Version'', HDR_MIME_VERSION, ftStr),
     (''Pragma'', HDR_PRAGMA, ftStr),
     (''Proxy-Authenticate'', HDR_PROXY_AUTHENTICATE, ftStr),
     (''Proxy-Authentication-Info'', HDR_PROXY_AUTHENTICATION_INFO, ftStr),
     (''Proxy-Authorization'', HDR_PROXY_AUTHORIZATION, ftStr),
     (''Proxy-Connection'', HDR_PROXY_CONNECTION, ftStr),
     (''Proxy-support'', HDR_PROXY_SUPPORT, ftStr),
     (''Public'', HDR_PUBLIC, ftStr),
     (''Range'', HDR_RANGE, ftPRange),
     (''Referer'', HDR_REFERER, ftStr),
     (''Request-Range'', HDR_REQUEST_RANGE, ftPRange),
     (''Retry-After'', HDR_RETRY_AFTER, ftStr),
     (''Server'', HDR_SERVER, ftStr),
     (''Set-Cookie'', HDR_SET_COOKIE, ftStr),
     (''Transfer-Encoding'', HDR_TRANSFER_ENCODING, ftStr),
     (''Te'', HDR_TE, ftStr),
     (''Trailer'', HDR_TRAILER, ftStr),
     (''Upgrade'', HDR_UPGRADE, ftStr),
     (''User-Agent'', HDR_USER_AGENT, ftStr),
     (''Vary'', HDR_VARY, ftStr),
     (''Via'', HDR_VIA, ftStr),
     (''Expect'', HDR_EXPECT, ftStr),
     (''Warning'', HDR_WARNING, ftStr),
     (''WWW-Authenticate'', HDR_WWW_AUTHENTICATE, ftStr),
     (''Authentication-Info'', HDR_AUTHENTICATION_INFO, ftStr),
     (''X-Cache'', HDR_X_CACHE, ftStr),
     (''X-Cache-Lookup'', HDR_X_CACHE_LOOKUP, ftStr),
     (''X-Forwarded-For'', HDR_X_FORWARDED_FOR, ftStr),
     (''X-Request-URI'', HDR_X_REQUEST_URI, ftStr),
     (''X-Squid-Error'', HDR_X_SQUID_ERROR, ftStr),
     (''X-HTTP09-First-Line'', HDR_X_HTTP09_FIRST_LINE, ftStr),
     (''Negotiate'', HDR_NEGOTIATE, ftStr),
     (''X-Error-URL'', HDR_X_ERROR_URL, ftStr),
     (''X-Error-Status'', HDR_X_ERROR_STATUS, ftInt),
     (''Front-End-Https'', HDR_FRONT_END_HTTPS, ftStr),
     (''Keep-Alive'', HDR_KEEP_ALIVE, ftStr),
     (''Other:'', HDR_OTHER, ftStr)]"

definition ListHeadersArr :: "nat list" where
  "ListHeadersArr = [HDR_ACCEPT, HDR_ACCEPT_CHARSET, HDR_ACCEPT_ENCODING, HDR_ACCEPT_LANGUAGE, HDR_ACCEPT_RANGES,
     HDR_ALLOW, HDR_CACHE_CONTROL, HDR_CONTENT_ENCODING, HDR_CONTENT_LANGUAGE, HDR_CONNECTION,
     HDR_IF_MATCH, HDR_IF_NONE_MATCH, HDR_LINK, HDR_PRAGMA, HDR_PROXY_CONNECTION,
     HDR_PROXY_SUPPORT, HDR_TE, HDR_TRAILER, HDR_TRANSFER_ENCODING, HDR_UPGRADE,
     HDR_VARY, HDR_VIA, HDR_WWW_AUTHENTICATE, HDR_AUTHENTICATION_INFO, HDR_PROXY_AUTHENTICATION_INFO,
     HDR_EXPECT, HDR_X_FORWARDED_FOR]"

definition GeneralHeadersArr :: "nat list" where
  "GeneralHeadersArr = [HDR_CACHE_CONTROL, HDR_CONNECTION, HDR_DATE, HDR_PRAGMA, HDR_TRANSFER_ENCODING,
     HDR_TRAILER, HDR_UPGRADE, HDR_VIA]"

definition EntityHeadersArr :: "nat list" where
  "EntityHeadersArr = [HDR_ALLOW, HDR_CONTENT_BASE, HDR_CONTENT_DISPOSITION, HDR_CONTENT_ENCODING, HDR_CONTENT_LANGUAGE,
     HDR_CONTENT_LENGTH, HDR_CONTENT_LOCATION, HDR_CONTENT_MD5, HDR_CONTENT_RANGE, HDR_CONTENT_TYPE,
     HDR_ETAG, HDR_EXPIRES, HDR_LAST_MODIFIED, HDR_LINK, HDR_OTHER]"

definition ReplyHeadersArr :: "nat list" where
  "ReplyHeadersArr = [HDR_ACCEPT, HDR_ACCEPT_CHARSET, HDR_ACCEPT_ENCODING, HDR_ACCEPT_LANGUAGE, HDR_ACCEPT_RANGES,
     HDR_AGE, HDR_LOCATION, HDR_MAX_FORWARDS, HDR_MIME_VERSION, HDR_PUBLIC,
     HDR_RETRY_AFTER, HDR_SERVER, HDR_SET_COOKIE, HDR_VARY, HDR_WARNING,
     HDR_PROXY_CONNECTION, HDR_X_CACHE, HDR_X_CACHE_LOOKUP, HDR_X_REQUEST_URI, HDR_X_SQUID_ERROR]"

definition RequestHeadersArr :: "nat list" where
  "RequestHeadersArr = [HDR_AUTHORIZATION, HDR_FROM, HDR_HOST, HDR_IF_MATCH, HDR_IF_MODIFIED_SINCE,
     HDR_IF_NONE_MATCH, HDR_IF_RANGE, HDR_MAX_FORWARDS, HDR_PROXY_CONNECTION, HDR_PROXY_AUTHORIZATION,
     HDR_RANGE, HDR_REFERER, HDR_REQUEST_RANGE, HDR_USER_AGENT, HDR_X_FORWARDED_FOR,
     HDR_TE, HDR_EXPECT]"

section \<open>The table of fields\<close>

record HttpHeaderFieldInfo =
  fi_id :: nat
  fi_type :: nat
  fi_name :: string

text \<open>The loop of \<^verbatim>\<open>httpHeaderBuildFieldsInfo\<close>; the table starts with zeros. The counters of a field are not modelled.\<close>

fun build_loop :: "field_attrs list \<Rightarrow> nat \<Rightarrow> HttpHeaderFieldInfo list \<Rightarrow> HttpHeaderFieldInfo list res" where
  "build_loop [] count table = Inr table"
| "build_loop ((name, i, type) # attrs) count table =
     res_bind (c_assert (i < count)) (\<lambda>_.
       res_bind (c_assert (fi_id (table ! i) = 0 \<and> fi_type (table ! i) = 0)) (\<lambda>_.
         res_bind (str_make name) (\<lambda>nm.
           res_bind (c_assert (length nm \<noteq> 0)) (\<lambda>_.
             build_loop attrs count (table[i := \<lparr>fi_id = i, fi_type = type, fi_name = nm\<rparr>])))))"

definition httpHeaderBuildFieldsInfo :: "field_attrs list \<Rightarrow> nat \<Rightarrow> HttpHeaderFieldInfo list res" where
  "httpHeaderBuildFieldsInfo attrs count =
     res_bind (c_assert (count \<noteq> 0)) (\<lambda>_.
       build_loop attrs count (replicate count \<lparr>fi_id = 0, fi_type = 0, fi_name = []\<rparr>))"

definition Headers :: "HttpHeaderFieldInfo list" where
  "Headers = (case httpHeaderBuildFieldsInfo HeadersAttrs HDR_ENUM_END of Inl _ \<Rightarrow> [] | Inr t \<Rightarrow> t)"

definition header_name :: "nat \<Rightarrow> string" where
  "header_name i = fi_name (Headers ! i)"

definition header_type :: "nat \<Rightarrow> nat" where
  "header_type i = fi_type (Headers ! i)"

text \<open>\<^verbatim>\<open>httpHeaderIdByName\<close>; the result -1 is \<^const>\<open>None\<close>.\<close>

fun id_loop :: "string \<Rightarrow> int \<Rightarrow> HttpHeaderFieldInfo list \<Rightarrow> nat \<Rightarrow> nat option" where
  "id_loop name name_len [] i = None"
| "id_loop name name_len (f # info) i =
     (if name_len \<ge> 0 \<and> name_len \<noteq> int (length (fi_name f)) then id_loop name name_len info (i + 1)
      else if strncaseeq name (fi_name f) (if name_len < 0 then length (fi_name f) + 1 else nat name_len) then Some i
      else id_loop name name_len info (i + 1))"

definition httpHeaderIdByName :: "string \<Rightarrow> int \<Rightarrow> HttpHeaderFieldInfo list \<Rightarrow> nat \<Rightarrow> nat option" where
  "httpHeaderIdByName name name_len info n = id_loop name name_len (take n info) 0"

definition httpHeaderIdByNameDef :: "string \<Rightarrow> int \<Rightarrow> nat option" where
  "httpHeaderIdByNameDef name name_len = httpHeaderIdByName name name_len Headers HDR_ENUM_END"

definition httpHeaderNameById :: "int \<Rightarrow> string res" where
  "httpHeaderNameById i = res_bind (c_assert (0 \<le> i \<and> i < int HDR_ENUM_END)) (\<lambda>_. Inr (header_name (nat i)))"

section \<open>Masks\<close>

text \<open>A mask has a bit for each field, in as many bytes as are needed.\<close>

type_synonym HttpHeaderMask = "nat set"

definition mask_bits :: nat where
  "mask_bits = 8 * ((HDR_ENUM_END + 7) div 8)"

text \<open>\<^verbatim>\<open>httpHeaderMaskInit\<close>, which is called with 0 only.\<close>

definition httpHeaderMaskInit :: HttpHeaderMask where
  "httpHeaderMaskInit = {}"

fun calc_loop :: "nat list \<Rightarrow> HttpHeaderMask \<Rightarrow> HttpHeaderMask res" where
  "calc_loop [] m = Inr m"
| "calc_loop (e # enums) m = res_bind (c_assert (e \<notin> m)) (\<lambda>_. calc_loop enums (insert e m))"

definition httpHeaderCalcMask :: "HttpHeaderMask \<Rightarrow> nat list \<Rightarrow> HttpHeaderMask res" where
  "httpHeaderCalcMask m enums = res_bind (c_assert (length enums < mask_bits)) (\<lambda>_. calc_loop enums m)"

text \<open>
  \<^verbatim>\<open>httpHeaderInitModule\<close>: the masks of the fields that are lists, of replies and of requests. Statistics and
  the registration with the cache manager are not modelled.
\<close>

definition httpHeaderInitModule :: "(HttpHeaderMask \<times> HttpHeaderMask \<times> HttpHeaderMask) res" where
  "httpHeaderInitModule =
     res_bind (c_assert (mask_bits \<ge> HDR_ENUM_END)) (\<lambda>_.
     res_bind (c_assert (length HeadersAttrs = HDR_ENUM_END)) (\<lambda>_.
     res_bind (httpHeaderBuildFieldsInfo HeadersAttrs HDR_ENUM_END) (\<lambda>_.
     res_bind (httpHeaderCalcMask httpHeaderMaskInit ListHeadersArr) (\<lambda>list_mask.
     res_bind (httpHeaderCalcMask httpHeaderMaskInit ReplyHeadersArr) (\<lambda>m1.
     res_bind (httpHeaderCalcMask m1 GeneralHeadersArr) (\<lambda>m2.
     res_bind (httpHeaderCalcMask m2 EntityHeadersArr) (\<lambda>reply_mask.
     res_bind (httpHeaderCalcMask httpHeaderMaskInit RequestHeadersArr) (\<lambda>m3.
     res_bind (httpHeaderCalcMask m3 GeneralHeadersArr) (\<lambda>m4.
     res_bind (httpHeaderCalcMask m4 EntityHeadersArr) (\<lambda>request_mask.
       Inr (list_mask, reply_mask, request_mask)))))))))))"

definition ListHeadersMask :: HttpHeaderMask where
  "ListHeadersMask = (case httpHeaderInitModule of Inl _ \<Rightarrow> {} | Inr (m, _) \<Rightarrow> m)"

section \<open>What the table holds\<close>

lemma build_loop_ok:
  "distinct (map (fst \<circ> snd) attrs) \<Longrightarrow> length table = count \<Longrightarrow>
   \<forall>(nm, i, ty) \<in> set attrs. i < count \<and> nm \<noteq> [] \<and> length nm < str_limit \<and> fi_id (table ! i) = 0 \<and> fi_type (table ! i) = 0 \<Longrightarrow>
   \<exists>t. build_loop attrs count table = Inr t \<and> length t = count \<and>
     (\<forall>(nm, i, ty) \<in> set attrs. t ! i = \<lparr>fi_id = i, fi_type = ty, fi_name = nm\<rparr>) \<and> (\<forall>i. i \<notin> fst ` snd ` set attrs \<longrightarrow> t ! i = table ! i)"
proof (induction attrs arbitrary: table)
  case Nil
  thus ?case by simp
next
  case (Cons a attrs)
  obtain nm i ty where a: "a = (nm, i, ty)" by (cases a)
  let ?t = "table[i := \<lparr>fi_id = i, fi_type = ty, fi_name = nm\<rparr>]"
  have new: "i \<notin> fst ` snd ` set attrs" using Cons.prems(1) by (auto simp: a image_comp)
  hence other: "j \<noteq> i" if "(nm', j, ty') \<in> set attrs" for nm' j ty' using that by force
  have "\<exists>t. build_loop attrs count ?t = Inr t \<and> length t = count \<and>
     (\<forall>(nm, i, ty) \<in> set attrs. t ! i = \<lparr>fi_id = i, fi_type = ty, fi_name = nm\<rparr>) \<and> (\<forall>i. i \<notin> fst ` snd ` set attrs \<longrightarrow> t ! i = ?t ! i)"
    using Cons.prems other by (intro Cons.IH) (fastforce simp: a)+
  then obtain t where t: "build_loop attrs count ?t = Inr t" "length t = count"
    "\<forall>(nm, i, ty) \<in> set attrs. t ! i = \<lparr>fi_id = i, fi_type = ty, fi_name = nm\<rparr>" "\<forall>i. i \<notin> fst ` snd ` set attrs \<longrightarrow> t ! i = ?t ! i" by blast
  have i: "i < count" "nm \<noteq> []" "length nm < str_limit" "fi_id (table ! i) = 0" "fi_type (table ! i) = 0" using Cons.prems(3) by (auto simp: a)
  have "build_loop (a # attrs) count table = Inr t" using i t(1) by (simp add: a str_make_def)
  moreover have "t ! i = \<lparr>fi_id = i, fi_type = ty, fi_name = nm\<rparr>" using t(4) new i(1) Cons.prems(2) by simp
  ultimately show ?case using t by (auto simp: a)
qed

lemma attrs_ids: "distinct (map (fst \<circ> snd) HeadersAttrs)" "\<forall>(nm, i, ty) \<in> set HeadersAttrs. i < HDR_ENUM_END"
  unfolding HeadersAttrs_def by (simp_all add: hdr_ids)

lemma attrs_names: "\<forall>(nm, i, ty) \<in> set HeadersAttrs. nm \<noteq> [] \<and> length nm < 100 \<and> NUL \<notin> set nm"
  unfolding HeadersAttrs_def by simp

lemma attrs_length: "length HeadersAttrs = HDR_ENUM_END"
  unfolding HeadersAttrs_def by (simp add: hdr_ids)

lemma toupper_table:
  "toupper CHR ''-'' = CHR ''-''"
  "toupper CHR ''0'' = CHR ''0''"
  "toupper CHR ''5'' = CHR ''5''"
  "toupper CHR ''9'' = CHR ''9''"
  "toupper CHR '':'' = CHR '':''"
  "toupper CHR ''A'' = CHR ''A''"
  "toupper CHR ''B'' = CHR ''B''"
  "toupper CHR ''C'' = CHR ''C''"
  "toupper CHR ''D'' = CHR ''D''"
  "toupper CHR ''E'' = CHR ''E''"
  "toupper CHR ''F'' = CHR ''F''"
  "toupper CHR ''H'' = CHR ''H''"
  "toupper CHR ''I'' = CHR ''I''"
  "toupper CHR ''K'' = CHR ''K''"
  "toupper CHR ''L'' = CHR ''L''"
  "toupper CHR ''M'' = CHR ''M''"
  "toupper CHR ''N'' = CHR ''N''"
  "toupper CHR ''O'' = CHR ''O''"
  "toupper CHR ''P'' = CHR ''P''"
  "toupper CHR ''R'' = CHR ''R''"
  "toupper CHR ''S'' = CHR ''S''"
  "toupper CHR ''T'' = CHR ''T''"
  "toupper CHR ''U'' = CHR ''U''"
  "toupper CHR ''V'' = CHR ''V''"
  "toupper CHR ''W'' = CHR ''W''"
  "toupper CHR ''X'' = CHR ''X''"
  "toupper CHR ''a'' = CHR ''A''"
  "toupper CHR ''b'' = CHR ''B''"
  "toupper CHR ''c'' = CHR ''C''"
  "toupper CHR ''d'' = CHR ''D''"
  "toupper CHR ''e'' = CHR ''E''"
  "toupper CHR ''f'' = CHR ''F''"
  "toupper CHR ''g'' = CHR ''G''"
  "toupper CHR ''h'' = CHR ''H''"
  "toupper CHR ''i'' = CHR ''I''"
  "toupper CHR ''k'' = CHR ''K''"
  "toupper CHR ''l'' = CHR ''L''"
  "toupper CHR ''m'' = CHR ''M''"
  "toupper CHR ''n'' = CHR ''N''"
  "toupper CHR ''o'' = CHR ''O''"
  "toupper CHR ''p'' = CHR ''P''"
  "toupper CHR ''q'' = CHR ''Q''"
  "toupper CHR ''r'' = CHR ''R''"
  "toupper CHR ''s'' = CHR ''S''"
  "toupper CHR ''t'' = CHR ''T''"
  "toupper CHR ''u'' = CHR ''U''"
  "toupper CHR ''v'' = CHR ''V''"
  "toupper CHR ''w'' = CHR ''W''"
  "toupper CHR ''x'' = CHR ''X''"
  "toupper CHR ''y'' = CHR ''Y''"
  "toupper CHR ''z'' = CHR ''Z''"
  by code_simp+

lemma attrs_distinct: "distinct (map (map toupper \<circ> fst) HeadersAttrs)"
  unfolding HeadersAttrs_def by (simp add: toupper_table)

lemma Headers_built:
  "httpHeaderBuildFieldsInfo HeadersAttrs HDR_ENUM_END = Inr Headers" "length Headers = HDR_ENUM_END"
  "\<forall>(nm, i, ty) \<in> set HeadersAttrs. Headers ! i = \<lparr>fi_id = i, fi_type = ty, fi_name = nm\<rparr>"
proof -
  have "\<exists>t. build_loop HeadersAttrs HDR_ENUM_END (replicate HDR_ENUM_END \<lparr>fi_id = 0, fi_type = 0, fi_name = []\<rparr>) = Inr t \<and> length t = HDR_ENUM_END \<and>
     (\<forall>(nm, i, ty) \<in> set HeadersAttrs. t ! i = \<lparr>fi_id = i, fi_type = ty, fi_name = nm\<rparr>) \<and>
     (\<forall>i. i \<notin> fst ` snd ` set HeadersAttrs \<longrightarrow> t ! i = replicate HDR_ENUM_END \<lparr>fi_id = 0, fi_type = 0, fi_name = []\<rparr> ! i)"
    using attrs_ids attrs_names by (intro build_loop_ok) (fastforce simp: str_limit_def)+
  moreover have "HDR_ENUM_END \<noteq> 0" by (simp add: hdr_ids)
  ultimately obtain t where t: "httpHeaderBuildFieldsInfo HeadersAttrs HDR_ENUM_END = Inr t" "length t = HDR_ENUM_END"
    "\<forall>(nm, i, ty) \<in> set HeadersAttrs. t ! i = \<lparr>fi_id = i, fi_type = ty, fi_name = nm\<rparr>" by (auto simp: httpHeaderBuildFieldsInfo_def)
  hence "Headers = t" by (simp add: Headers_def)
  with t show "httpHeaderBuildFieldsInfo HeadersAttrs HDR_ENUM_END = Inr Headers" "length Headers = HDR_ENUM_END"
    "\<forall>(nm, i, ty) \<in> set HeadersAttrs. Headers ! i = \<lparr>fi_id = i, fi_type = ty, fi_name = nm\<rparr>" by simp_all
qed

lemma header_name_attr: "(nm, i, ty) \<in> set HeadersAttrs \<Longrightarrow> header_name i = nm \<and> header_type i = ty"
  using Headers_built(3) by (auto simp: header_name_def header_type_def)

text \<open>Every identifier is in the table.\<close>

lemma attr_exists: "i < HDR_ENUM_END \<Longrightarrow> \<exists>nm ty. (nm, i, ty) \<in> set HeadersAttrs"
proof -
  assume i: "i < HDR_ENUM_END"
  let ?ids = "map (fst \<circ> snd) HeadersAttrs"
  have "set ?ids \<subseteq> {..<HDR_ENUM_END}" using attrs_ids(2) by auto
  moreover have "card (set ?ids) = card {..<HDR_ENUM_END}" using distinct_card [OF attrs_ids(1)] attrs_length by simp
  ultimately have "set ?ids = {..<HDR_ENUM_END}" by (intro card_subset_eq) simp_all
  hence "i \<in> set ?ids" using i by simp
  then obtain a where "a \<in> set HeadersAttrs" "i = fst (snd a)" by auto
  hence "(fst a, i, snd (snd a)) \<in> set HeadersAttrs" by simp
  thus ?thesis by blast
qed

lemma header_name_plain: "i < HDR_ENUM_END \<Longrightarrow> header_name i \<noteq> [] \<and> length (header_name i) < 100 \<and> NUL \<notin> set (header_name i)"
  using attr_exists [of i] attrs_names header_name_attr by fastforce

lemma header_name_inj:
  assumes "i < HDR_ENUM_END" "j < HDR_ENUM_END" "map toupper (header_name i) = map toupper (header_name j)"
  shows "i = j"
proof -
  obtain n t n' t' where m: "(n, i, t) \<in> set HeadersAttrs" "(n', j, t') \<in> set HeadersAttrs" using attr_exists assms(1,2) by metis
  have "inj_on (map toupper \<circ> fst) (set HeadersAttrs)" using attrs_distinct by (simp add: distinct_map)
  moreover have "(map toupper \<circ> fst) (n, i, t) = (map toupper \<circ> fst) (n', j, t')"
    using assms(3) header_name_attr [OF m(1)] header_name_attr [OF m(2)] by simp
  ultimately have "(n, i, t) = (n', j, t')" using m by (rule inj_onD)
  thus ?thesis by simp
qed

section \<open>Lookup by name\<close>

lemma strncaseeq_name: "length name = length nm \<Longrightarrow> strncaseeq (name @ rest) nm (length name) \<longleftrightarrow> map toupper name = map toupper nm"
  by (simp add: strncaseeq_def)

text \<open>The loop finds the first field whose name is the given one but for the case of letters.\<close>

lemma id_loop_find:
  "id_loop (name @ rest) (int (length name)) info i =
     (case find (\<lambda>(k, f). map toupper (fi_name f) = map toupper name) (enumerate i info) of None \<Rightarrow> None | Some (k, _) \<Rightarrow> Some k)"
proof (induction info arbitrary: i)
  case (Cons f info)
  have "length name \<noteq> length (fi_name f) \<Longrightarrow> map toupper (fi_name f) \<noteq> map toupper name" by (metis length_map)
  thus ?case using Cons strncaseeq_name [of name "fi_name f" rest] by (auto simp: eq_commute)
qed simp

lemma id_by_name_known:
  assumes "i < HDR_ENUM_END" "map toupper name = map toupper (header_name i)"
  shows "httpHeaderIdByName (name @ rest) (int (length name)) Headers HDR_ENUM_END = Some i"
proof -
  have "find (\<lambda>(k, f). map toupper (fi_name f) = map toupper name) (enumerate 0 Headers) = Some (i, Headers ! i)"
    unfolding find_Some_iff using assms header_name_inj [OF less_trans assms(1)]
    by (intro exI [of _ i]) (fastforce simp: Headers_built(2) nth_enumerate_eq header_name_def [symmetric])
  thus ?thesis by (simp add: httpHeaderIdByName_def id_loop_find Headers_built(2))
qed

lemma id_by_name_Some:
  assumes "httpHeaderIdByName (name @ rest) (int (length name)) Headers HDR_ENUM_END = Some i"
  shows "i < HDR_ENUM_END \<and> map toupper name = map toupper (header_name i)"
proof -
  obtain f where "find (\<lambda>(k, f). map toupper (fi_name f) = map toupper name) (enumerate 0 Headers) = Some (i, f)"
    using assms by (auto simp: httpHeaderIdByName_def id_loop_find Headers_built(2) split: option.splits)
  thus ?thesis unfolding find_Some_iff by (auto simp: Headers_built(2) nth_enumerate_eq header_name_def)
qed

section \<open>The masks\<close>

lemma calc_loop_ok: "distinct xs \<Longrightarrow> set xs \<inter> m = {} \<Longrightarrow> calc_loop xs m = Inr (m \<union> set xs)"
  by (induction xs arbitrary: m) auto

lemma calc_mask_ok: "distinct xs \<Longrightarrow> set xs \<inter> m = {} \<Longrightarrow> length xs < mask_bits \<Longrightarrow> httpHeaderCalcMask m xs = Inr (m \<union> set xs)"
  by (simp add: httpHeaderCalcMask_def calc_loop_ok)

lemmas header_arrays = ListHeadersArr_def GeneralHeadersArr_def EntityHeadersArr_def ReplyHeadersArr_def RequestHeadersArr_def

lemma arrays_distinct: "distinct ListHeadersArr" "distinct (ReplyHeadersArr @ GeneralHeadersArr @ EntityHeadersArr)"
  "distinct (RequestHeadersArr @ GeneralHeadersArr @ EntityHeadersArr)"
  unfolding header_arrays by (simp_all add: hdr_ids)

lemma arrays_short: "length ListHeadersArr < mask_bits" "length GeneralHeadersArr < mask_bits" "length EntityHeadersArr < mask_bits"
  "length ReplyHeadersArr < mask_bits" "length RequestHeadersArr < mask_bits"
  unfolding header_arrays by (simp_all add: mask_bits_def HDR_ENUM_END_def)

lemma module_initialised:
  "httpHeaderInitModule = Inr (set ListHeadersArr, set ReplyHeadersArr \<union> set GeneralHeadersArr \<union> set EntityHeadersArr,
     set RequestHeadersArr \<union> set GeneralHeadersArr \<union> set EntityHeadersArr)"
proof -
  have d: "distinct ReplyHeadersArr" "distinct RequestHeadersArr" "distinct GeneralHeadersArr" "distinct EntityHeadersArr"
    "set GeneralHeadersArr \<inter> set ReplyHeadersArr = {}" "set EntityHeadersArr \<inter> (set ReplyHeadersArr \<union> set GeneralHeadersArr) = {}"
    "set GeneralHeadersArr \<inter> set RequestHeadersArr = {}" "set EntityHeadersArr \<inter> (set RequestHeadersArr \<union> set GeneralHeadersArr) = {}"
    using arrays_distinct by auto
  show ?thesis
    by (simp add: httpHeaderInitModule_def httpHeaderMaskInit_def attrs_length Headers_built(1) calc_mask_ok arrays_short arrays_distinct(1) d)
      (simp add: mask_bits_def HDR_ENUM_END_def)
qed

lemma list_mask_eq: "ListHeadersMask = set ListHeadersArr"
  by (simp add: ListHeadersMask_def module_initialised)

lemma list_mask_members:
  "HDR_CACHE_CONTROL \<in> ListHeadersMask" "HDR_CONNECTION \<in> ListHeadersMask" "HDR_PROXY_CONNECTION \<in> ListHeadersMask"
  "HDR_CONTENT_LENGTH \<notin> ListHeadersMask" "HDR_RANGE \<notin> ListHeadersMask" "HDR_REQUEST_RANGE \<notin> ListHeadersMask" "HDR_CONTENT_RANGE \<notin> ListHeadersMask"
  "HDR_OTHER \<notin> ListHeadersMask"
  unfolding list_mask_eq ListHeadersArr_def by (simp_all add: hdr_ids)

end
