(* ===== verification/Http_Header.thy ===== *)
theory Http_Header
  imports Http_Header_Table Url
begin

text \<open>
  Message headers, \<^verbatim>\<open>src/HttpHeader.c\<close> and \<^verbatim>\<open>src/HttpHeaderTools.c\<close>. A header is an array of entries, in which a
  deleted entry leaves a hole, a mask of the fields that are present and the length of the packed header.
  The array \<^verbatim>\<open>entries\<close> is the list of its used slots. A loop over \<^verbatim>\<open>httpHeaderGetEntry\<close> runs over the visited slots;
  the bodies of these loops change no slot but the current one. Strings are lists of characters with the
  limit of the strings of \<^verbatim>\<open>src/String.c\<close>. Counters for statistics are not modelled.
\<close>

section \<open>Data\<close>

datatype http_hdr_owner_type = hoNone | hoHtcpReply | hoRequest | hoReply

record HttpHeaderEntry =
  he_id :: nat
  he_name :: string
  he_value :: string

record HttpHeader =
  hd_entries :: "HttpHeaderEntry option list"
  hd_mask :: HttpHeaderMask
  hd_owner :: http_hdr_owner_type
  hd_len :: int

definition HttpHeaderInitPos :: int where
  "HttpHeaderInitPos = - 1"

text \<open>What an entry adds to the length: its name, a colon and a space, its value, and the end of the line.\<close>

definition entry_size :: "HttpHeaderEntry \<Rightarrow> int" where
  "entry_size e = int (length (he_name e)) + 2 + int (length (he_value e)) + 2"

section \<open>Headers\<close>

definition httpHeaderInit :: "http_hdr_owner_type \<Rightarrow> HttpHeader res" where
  "httpHeaderInit owner =
     res_bind (c_assert (owner \<noteq> hoNone)) (\<lambda>_.
       Inr \<lparr>hd_entries = [], hd_mask = httpHeaderMaskInit, hd_owner = owner, hd_len = 0\<rparr>)"

function scan_slots :: "HttpHeaderEntry option list \<Rightarrow> nat \<Rightarrow> int \<times> HttpHeaderEntry option" where
  "scan_slots items pos =
     (if pos < length items
      then (case items ! pos of Some e \<Rightarrow> (int pos, Some e) | None \<Rightarrow> scan_slots items (pos + 1))
      else (int pos, None))"
  by pat_completeness auto
termination by (relation "measure (\<lambda>(items, pos). length items - pos)") auto

declare scan_slots.simps [simp del]

definition httpHeaderGetEntry :: "HttpHeader \<Rightarrow> int \<Rightarrow> (int \<times> HttpHeaderEntry option) res" where
  "httpHeaderGetEntry hdr pos =
     res_bind (c_assert (HttpHeaderInitPos \<le> pos \<and> pos < int (length (hd_entries hdr)))) (\<lambda>_.
       Inr (scan_slots (hd_entries hdr) (nat (pos + 1))))"

text \<open>The positions and entries that a loop over \<^const>\<open>httpHeaderGetEntry\<close> visits.\<close>

lemma scan_slots_forward: "scan_slots items pos = (p, Some e) \<Longrightarrow> int pos \<le> p \<and> p < int (length items)"
proof (induction items pos rule: scan_slots.induct)
  case (1 items pos)
  show ?case
  proof (cases "pos < length items")
    case True
    show ?thesis
    proof (cases "items ! pos")
      case None
      have s: "scan_slots items pos = scan_slots items (pos + 1)" by (subst scan_slots.simps) (simp add: True None)
      have "int (pos + 1) \<le> p \<and> p < int (length items)" by (rule "1.IH" [OF True None]) (use "1.prems" s in simp)
      thus ?thesis by simp
    next
      case (Some a)
      have "scan_slots items pos = (int pos, Some a)" by (subst scan_slots.simps) (simp add: True Some)
      thus ?thesis using "1.prems" True by simp
    qed
  next
    case False
    have "scan_slots items pos = (int pos, None)" by (subst scan_slots.simps) (simp add: False)
    thus ?thesis using "1.prems" by simp
  qed
qed

function visit_from :: "HttpHeader \<Rightarrow> int \<Rightarrow> (int \<times> HttpHeaderEntry) list res" where
  "visit_from hdr pos =
     res_bind (httpHeaderGetEntry hdr pos) (\<lambda>(pos, eo).
       case eo of None \<Rightarrow> Inr [] | Some e \<Rightarrow> res_bind (visit_from hdr pos) (\<lambda>vs. Inr ((pos, e) # vs)))"
  by pat_completeness auto
termination
  by (relation "measure (\<lambda>(hdr, pos). nat (int (length (hd_entries hdr)) - pos))")
    (auto simp: httpHeaderGetEntry_def c_assert_def HttpHeaderInitPos_def dest!: scan_slots_forward split: if_splits)

declare visit_from.simps [simp del]

definition visit :: "HttpHeader \<Rightarrow> (int \<times> HttpHeaderEntry) list res" where
  "visit hdr = visit_from hdr HttpHeaderInitPos"

text \<open>A loop with the body \<open>f\<close>.\<close>

fun each :: "(int \<times> HttpHeaderEntry \<Rightarrow> 's \<Rightarrow> 's res) \<Rightarrow> (int \<times> HttpHeaderEntry) list \<Rightarrow> 's \<Rightarrow> 's res" where
  "each f [] s = Inr s"
| "each f (v # vs) s = res_bind (f v s) (\<lambda>s. each f vs s)"

section \<open>Entries\<close>

definition httpHeaderEntryCreate :: "nat \<Rightarrow> string \<Rightarrow> string \<Rightarrow> HttpHeaderEntry res" where
  "httpHeaderEntryCreate i name value =
     res_bind (c_assert (i < HDR_ENUM_END)) (\<lambda>_.
     res_bind (if i \<noteq> HDR_OTHER then Inr (header_name i) else str_make name) (\<lambda>nm.
     res_bind (str_make value) (\<lambda>v. Inr \<lparr>he_id = i, he_name = nm, he_value = v\<rparr>)))"

text \<open>\<^verbatim>\<open>httpHeaderEntryCreate2\<close> with counted strings, and \<^verbatim>\<open>httpHeaderEntryClone\<close>.\<close>

definition httpHeaderEntryClone :: "HttpHeaderEntry \<Rightarrow> HttpHeaderEntry res" where
  "httpHeaderEntryClone e = httpHeaderEntryCreate (he_id e) (he_name e) (he_value e)"

definition httpHeaderAddEntry :: "HttpHeader \<Rightarrow> HttpHeaderEntry \<Rightarrow> HttpHeader res" where
  "httpHeaderAddEntry hdr e =
     res_bind (c_assert (he_id e < HDR_ENUM_END)) (\<lambda>_.
       Inr (hdr\<lparr>hd_mask := insert (he_id e) (hd_mask hdr), hd_entries := hd_entries hdr @ [Some e], hd_len := hd_len hdr + entry_size e\<rparr>))"

text \<open>\<^verbatim>\<open>arrayInsert\<close> puts an entry behind the others if the position is beyond the end.\<close>

definition httpHeaderInsertEntry :: "HttpHeader \<Rightarrow> HttpHeaderEntry \<Rightarrow> nat \<Rightarrow> HttpHeader res" where
  "httpHeaderInsertEntry hdr e pos =
     res_bind (c_assert (he_id e < HDR_ENUM_END)) (\<lambda>_.
       Inr (hdr\<lparr>hd_mask := insert (he_id e) (hd_mask hdr), hd_entries := take pos (hd_entries hdr) @ Some e # drop pos (hd_entries hdr),
                hd_len := hd_len hdr + entry_size e\<rparr>))"

definition httpHeaderAddClone :: "HttpHeader \<Rightarrow> HttpHeaderEntry \<Rightarrow> HttpHeader res" where
  "httpHeaderAddClone hdr e = res_bind (httpHeaderEntryClone e) (\<lambda>c. httpHeaderAddEntry hdr c)"

definition httpHeaderAppend :: "HttpHeader \<Rightarrow> HttpHeader \<Rightarrow> HttpHeader res" where
  "httpHeaderAppend dest src = res_bind (visit src) (\<lambda>vs. each (\<lambda>(_, e) dest. httpHeaderAddClone dest e) vs dest)"

section \<open>Deletion\<close>

definition httpHeaderDelAt :: "int \<Rightarrow> HttpHeader \<Rightarrow> HttpHeader res" where
  "httpHeaderDelAt pos hdr =
     res_bind (c_assert (HttpHeaderInitPos \<le> pos \<and> pos < int (length (hd_entries hdr)))) (\<lambda>_.
       if pos < 0 then Inl OutOfBounds
       else case hd_entries hdr ! nat pos of
              None \<Rightarrow> Inl Undefined
            | Some e \<Rightarrow>
                let len = hd_len hdr - entry_size e
                in res_bind (c_assert (len \<ge> 0)) (\<lambda>_.
                     Inr (hdr\<lparr>hd_entries := (hd_entries hdr)[nat pos := None], hd_len := len\<rparr>)))"

definition httpHeaderDelById :: "nat \<Rightarrow> HttpHeader \<Rightarrow> (HttpHeader \<times> nat) res" where
  "httpHeaderDelById i hdr =
     res_bind (c_assert (i < HDR_ENUM_END)) (\<lambda>_.
     res_bind (c_assert (i \<noteq> HDR_OTHER)) (\<lambda>_.
       if i \<notin> hd_mask hdr then Inr (hdr, 0)
       else res_bind (visit hdr) (\<lambda>vs.
         res_bind (each (\<lambda>(pos, e) (hdr, count).
             if he_id e = i then res_bind (httpHeaderDelAt pos hdr) (\<lambda>hdr. Inr (hdr, count + 1)) else Inr (hdr, count)) vs (hdr, 0)) (\<lambda>(hdr, count).
           res_bind (c_assert (count \<noteq> 0)) (\<lambda>_. Inr (hdr\<lparr>hd_mask := hd_mask hdr - {i}\<rparr>, count))))))"

definition httpHeaderDelByName :: "string \<Rightarrow> HttpHeader \<Rightarrow> (HttpHeader \<times> nat) res" where
  "httpHeaderDelByName name hdr =
     res_bind (visit hdr) (\<lambda>vs.
       each (\<lambda>(pos, e) (hdr, count).
         if strcaseeq (he_name e) name then res_bind (httpHeaderDelAt pos hdr) (\<lambda>hdr. Inr (hdr, count + 1))
         else Inr (hdr\<lparr>hd_mask := insert (he_id e) (hd_mask hdr)\<rparr>, count)) vs (hdr\<lparr>hd_mask := httpHeaderMaskInit\<rparr>, 0))"

definition httpHeaderRefreshMask :: "HttpHeader \<Rightarrow> HttpHeader res" where
  "httpHeaderRefreshMask hdr =
     res_bind (visit hdr) (\<lambda>vs.
       each (\<lambda>(_, e) hdr. Inr (hdr\<lparr>hd_mask := insert (he_id e) (hd_mask hdr)\<rparr>)) vs (hdr\<lparr>hd_mask := httpHeaderMaskInit\<rparr>))"

text \<open>
  \<^verbatim>\<open>httpHeaderRepack\<close> moves the entries to the front, with \<open>dp\<close> at the slot that is read and \<open>pos\<close> at the slot
  that is written, and shrinks the array.
\<close>

function repack_loop :: "nat \<Rightarrow> nat \<Rightarrow> HttpHeaderEntry option list \<Rightarrow> HttpHeaderEntry option list \<times> nat" where
  "repack_loop dp pos items =
     (if dp < length items
      then (case items ! dp of
              None \<Rightarrow> repack_loop (dp + 1) pos items
            | Some e \<Rightarrow>
                let items1 = items[pos := Some e];
                    items2 = (if dp \<noteq> pos then items1[dp := None] else items1)
                in repack_loop (dp + 1) (pos + 1) items2)
      else (items, pos))"
  by pat_completeness auto
termination by (relation "measure (\<lambda>(dp, pos, items). length items - dp)") (auto simp: Let_def split: if_splits)

declare repack_loop.simps [simp del]

definition httpHeaderRepack :: "HttpHeader \<Rightarrow> HttpHeader res" where
  "httpHeaderRepack hdr =
     (let (items, pos) = repack_loop 0 0 (hd_entries hdr)
      in res_bind (c_assert (pos \<le> length items)) (\<lambda>_. Inr (hdr\<lparr>hd_entries := take pos items\<rparr>)))"

definition delete_like :: "HttpHeaderEntry \<Rightarrow> HttpHeader \<Rightarrow> HttpHeader res" where
  "delete_like e old =
     res_bind (if he_id e \<noteq> HDR_OTHER then httpHeaderDelById (he_id e) old else httpHeaderDelByName (he_name e) old) (\<lambda>(old, _). Inr old)"

definition denied :: "HttpHeaderMask option \<Rightarrow> HttpHeaderEntry \<Rightarrow> bool" where
  "denied denied_mask e \<longleftrightarrow> (case denied_mask of None \<Rightarrow> False | Some m \<Rightarrow> he_id e \<in> m)"

definition httpHeaderUpdate :: "HttpHeader \<Rightarrow> HttpHeader \<Rightarrow> HttpHeaderMask option \<Rightarrow> HttpHeader res" where
  "httpHeaderUpdate old fresh denied_mask =
     res_bind (visit fresh) (\<lambda>vs.
     res_bind (each (\<lambda>(_, e) old. if denied denied_mask e then Inr old else delete_like e old) vs old) (\<lambda>old.
     res_bind (each (\<lambda>(_, e) old. if denied denied_mask e then Inr old else httpHeaderAddClone old e) vs old) (\<lambda>old.
       httpHeaderRepack old)))"

section \<open>Lookup\<close>

fun first_with :: "nat \<Rightarrow> (int \<times> HttpHeaderEntry) list \<Rightarrow> HttpHeaderEntry option" where
  "first_with i [] = None"
| "first_with i ((_, e) # vs) = (if he_id e = i then Some e else first_with i vs)"

definition httpHeaderFindEntry :: "HttpHeader \<Rightarrow> nat \<Rightarrow> HttpHeaderEntry option res" where
  "httpHeaderFindEntry hdr i =
     res_bind (c_assert (i < HDR_ENUM_END)) (\<lambda>_.
     res_bind (c_assert (i \<notin> ListHeadersMask)) (\<lambda>_.
       if i \<notin> hd_mask hdr then Inr None
       else res_bind (visit hdr) (\<lambda>vs.
         case first_with i vs of Some e \<Rightarrow> Inr (Some e) | None \<Rightarrow> Inl AssertFailed)))"

definition httpHeaderFindLastEntry :: "HttpHeader \<Rightarrow> nat \<Rightarrow> HttpHeaderEntry option res" where
  "httpHeaderFindLastEntry hdr i =
     res_bind (c_assert (i < HDR_ENUM_END)) (\<lambda>_.
     res_bind (c_assert (i \<notin> ListHeadersMask)) (\<lambda>_.
       if i \<notin> hd_mask hdr then Inr None
       else res_bind (visit hdr) (\<lambda>vs.
         res_bind (each (\<lambda>(_, e) r. Inr (if he_id e = i then Some e else r)) vs None) (\<lambda>r.
           res_bind (c_assert (r \<noteq> None)) (\<lambda>_. Inr r)))))"

text \<open>A string that may be null.\<close>

definition list_add :: "string option \<Rightarrow> string \<Rightarrow> char \<Rightarrow> string option res" where
  "list_add s item del = res_bind (strListAdd (case s of None \<Rightarrow> [] | Some v \<Rightarrow> v) item del) (\<lambda>v. Inr (Some v))"

definition httpHeaderGetList :: "HttpHeader \<Rightarrow> nat \<Rightarrow> string option res" where
  "httpHeaderGetList hdr i =
     res_bind (c_assert (i \<in> ListHeadersMask)) (\<lambda>_.
       if i \<notin> hd_mask hdr then Inr None
       else res_bind (visit hdr) (\<lambda>vs.
         res_bind (each (\<lambda>(_, e) s. if he_id e = i then list_add s (he_value e) CHR '','' else Inr s) vs None) (\<lambda>s.
           res_bind (c_assert (s \<noteq> None)) (\<lambda>_. Inr s))))"

definition httpHeaderGetStrOrList :: "HttpHeader \<Rightarrow> nat \<Rightarrow> string option res" where
  "httpHeaderGetStrOrList hdr i =
     (if i \<in> ListHeadersMask then httpHeaderGetList hdr i
      else res_bind (httpHeaderFindEntry hdr i) (\<lambda>eo.
        case eo of Some e \<Rightarrow> res_bind (str_make (he_value e)) (\<lambda>v. Inr (Some v)) | None \<Rightarrow> Inr None))"

definition httpHeaderGetByName :: "HttpHeader \<Rightarrow> string \<Rightarrow> string option res" where
  "httpHeaderGetByName hdr name =
     (case httpHeaderIdByNameDef name (int (length name)) of
        Some i \<Rightarrow> httpHeaderGetStrOrList hdr i
      | None \<Rightarrow>
          res_bind (visit hdr) (\<lambda>vs.
            each (\<lambda>(_, e) s. if he_id e = HDR_OTHER \<and> strcaseeq (he_name e) name then list_add s (he_value e) CHR '','' else Inr s) vs None))"

text \<open>
  The loop of \<^verbatim>\<open>httpHeaderGetListMember\<close> and \<^verbatim>\<open>httpHeaderGetByNameListMember\<close> over the items of the value. The
  comparison is not bounded by the length of the item.
\<close>

fun find_member :: "string \<Rightarrow> (string \<times> nat) list \<Rightarrow> string option res" where
  "find_member member [] = Inr None"
| "find_member member ((item, ilen) # items) =
     (let mlen = length member
      in if take mlen item = member \<and> nth_opt item mlen = Some (CHR ''='')
         then res_bind (c_assert (int ilen - int mlen - 1 \<ge> 0)) (\<lambda>_.
                res_bind (str_append [] (take (ilen - mlen - 1) (drop (mlen + 1) item))) (\<lambda>v. Inr (Some v)))
         else find_member member items)"

definition httpHeaderGetListMember :: "HttpHeader \<Rightarrow> nat \<Rightarrow> string \<Rightarrow> char \<Rightarrow> string option res" where
  "httpHeaderGetListMember hdr i member separator =
     res_bind (c_assert (i < HDR_ENUM_END)) (\<lambda>_.
     res_bind (httpHeaderGetStrOrList hdr i) (\<lambda>header.
       case header of None \<Rightarrow> Inr None | Some h \<Rightarrow> find_member member (list_items separator h)))"

definition httpHeaderGetByNameListMember :: "HttpHeader \<Rightarrow> string \<Rightarrow> string \<Rightarrow> char \<Rightarrow> string option res" where
  "httpHeaderGetByNameListMember hdr name member separator =
     res_bind (httpHeaderGetByName hdr name) (\<lambda>header.
       case header of None \<Rightarrow> Inr None | Some h \<Rightarrow> find_member member (list_items separator h))"

definition httpHeaderHas :: "HttpHeader \<Rightarrow> nat \<Rightarrow> bool res" where
  "httpHeaderHas hdr i =
     res_bind (c_assert (i < HDR_ENUM_END)) (\<lambda>_. res_bind (c_assert (i \<noteq> HDR_OTHER)) (\<lambda>_. Inr (i \<in> hd_mask hdr)))"

definition httpHeaderHasConnDir :: "HttpHeader \<Rightarrow> string \<Rightarrow> bool res" where
  "httpHeaderHasConnDir hdr directive =
     res_bind (httpHeaderHas hdr HDR_PROXY_CONNECTION) (\<lambda>p.
     res_bind (httpHeaderHas hdr HDR_CONNECTION) (\<lambda>c.
       if \<not> p \<and> \<not> c then Inr False
       else res_bind (httpHeaderGetList hdr (if p then HDR_PROXY_CONNECTION else HDR_CONNECTION)) (\<lambda>list.
         Inr (case list of None \<Rightarrow> False | Some l \<Rightarrow> strListIsMember l directive CHR '',''))))"

section \<open>Packing\<close>

definition CRLF :: string where
  "CRLF = [CHR 0x0D, CHR 0x0A]"

definition httpHeaderEntryPackInto :: "HttpHeaderEntry \<Rightarrow> string" where
  "httpHeaderEntryPackInto e = he_name e @ '': '' @ he_value e @ CRLF"

definition httpHeaderPackInto :: "HttpHeader \<Rightarrow> string res" where
  "httpHeaderPackInto hdr = res_bind (visit hdr) (\<lambda>vs. each (\<lambda>(_, e) p. Inr (p @ httpHeaderEntryPackInto e)) vs [])"

section \<open>Parsing\<close>

definition index_of :: "char \<Rightarrow> string \<Rightarrow> nat option" where
  "index_of c s = (if c \<in> set s then Some (length (takeWhile (\<lambda>x. x \<noteq> c) s)) else None)"

text \<open>
  \<^verbatim>\<open>httpHeaderEntryParseCreate\<close> on the text of a field. \<^const>\<open>None\<close> is the null pointer. The name is copied only if
  it is not that of a known field.
\<close>

definition parse_value :: "string \<Rightarrow> string" where
  "parse_value text = rtrim (dropWhile isspace_c text)"

definition httpHeaderEntryParseCreate :: "bool \<Rightarrow> string \<Rightarrow> HttpHeaderEntry option res" where
  "httpHeaderEntryParseCreate relaxed field =
     (case index_of CHR '':'' field of
        None \<Rightarrow> Inr None
      | Some colon \<Rightarrow>
          if colon = 0 \<or> colon > 65534 then Inr None
          else let name = (if relaxed \<and> isspace_c (field ! (colon - 1)) then rtrim (take colon field) else take colon field)
               in if name = [] then Inr None
                  else let i = (case httpHeaderIdByName field (int (length name)) Headers HDR_ENUM_END of None \<Rightarrow> HDR_OTHER | Some k \<Rightarrow> k)
                       in res_bind (c_assert (i < HDR_ENUM_END)) (\<lambda>_.
                            res_bind (if i = HDR_OTHER then str_make name else Inr (header_name i)) (\<lambda>nm.
                              let value = parse_value (drop (colon + 1) field)
                              in if length value > 65534 then Inr None
                                 else res_bind (str_make value) (\<lambda>v. Inr (Some \<lparr>he_id = i, he_name = nm, he_value = v\<rparr>)))))"

text \<open>
  One line: the text up to the line feed without the carriage return in front of it, or without two of them
  in relaxed mode, these carriage returns, and the rest. \<^const>\<open>None\<close> is a missing line feed.
\<close>

definition split_line :: "bool \<Rightarrow> string \<Rightarrow> (string \<times> string \<times> string) option" where
  "split_line relaxed s =
     (case index_of CHR 0x0A s of
        None \<Rightarrow> None
      | Some n \<Rightarrow>
          let line = take n s; rest = drop (n + 1) s;
              k1 = (if line \<noteq> [] \<and> last line = CHR 0x0D then n - 1 else n);
              k = (if k1 < n \<and> relaxed \<and> k1 > 1 \<and> line ! (k1 - 1) = CHR 0x0D then k1 - 1 else k1)
          in Some (take k line, drop k line, rest))"

text \<open>
  The inner loop: the lines of one field, with \<open>before\<close> the text of its earlier lines. In relaxed mode stray
  carriage returns are overwritten with spaces. \<^const>\<open>None\<close> is a reset of the header.
\<close>

definition strip_cr :: "string \<Rightarrow> string" where
  "strip_cr = map (\<lambda>c. if c = CHR 0x0D then CHR '' '' else c)"

lemma split_line_shorter: "split_line relaxed s = Some (l, cr, rest) \<Longrightarrow> length rest < length s"
  by (auto simp: split_line_def index_of_def Let_def split: if_splits) (metis length_pos_if_in_set diff_less zero_less_Suc)+

function read_field :: "bool \<Rightarrow> string \<Rightarrow> string \<Rightarrow> (string \<times> string) option" where
  "read_field relaxed before s =
     (case split_line relaxed s of
        None \<Rightarrow> None
      | Some (line, cr, rest) \<Rightarrow>
          if CHR 0x0D \<in> set line \<and> \<not> relaxed then None
          else let line = strip_cr line
               in if length line = 1 \<and> before \<noteq> [] then None
                  else if rest \<noteq> [] \<and> (hd rest = CHR '' '' \<or> hd rest = CHR 0x09)
                       then read_field relaxed (before @ line @ cr @ [CHR 0x0A]) rest
                       else Some (before @ line, rest))"
  by pat_completeness auto
termination by (relation "measure (\<lambda>(relaxed, before, s). length s)") (auto dest: split_line_shorter)

declare read_field.simps [simp del]

lemma read_field_shorter: "read_field relaxed before s = Some (f, rest) \<Longrightarrow> length rest < length s"
proof (induction relaxed before s rule: read_field.induct)
  case (1 relaxed before s)
  show ?case
  proof (cases "split_line relaxed s")
    case None
    thus ?thesis using "1.prems" by (subst (asm) read_field.simps) simp
  next
    case (Some x)
    obtain line cr r where x: "x = (line, cr, r)" by (cases x)
    have r: "length r < length s" using Some x split_line_shorter by blast
    show ?thesis
      using "1.prems" [unfolded read_field.simps [of relaxed before s] Some x option.case prod.case] "1.IH" [OF Some [unfolded x] refl refl _ refl] r
      by (auto simp: Let_def split: if_splits)
  qed
qed

text \<open>What is done with the entry of a field: add it, skip it, or give up.\<close>

datatype field_action = AddField HttpHeader | SkipField | ResetHeader

definition content_length_action :: "bool \<Rightarrow> HttpHeader \<Rightarrow> HttpHeaderEntry \<Rightarrow> field_action res" where
  "content_length_action relaxed hdr e =
     (case httpHeaderParseSize (he_value e) of (ok1, l1) \<Rightarrow>
        if \<not> ok1 then Inr ResetHeader
        else res_bind (httpHeaderFindEntry hdr (he_id e)) (\<lambda>e2o.
          case e2o of
            None \<Rightarrow> Inr (AddField hdr)
          | Some e2 \<Rightarrow>
              if he_value e \<noteq> he_value e2
              then if \<not> relaxed then Inr ResetHeader
                   else (case httpHeaderParseSize (he_value e2) of (ok2, l2) \<Rightarrow>
                           if \<not> ok2 then Inr ResetHeader
                           else if l1 > l2 then res_bind (httpHeaderDelById (he_id e2) hdr) (\<lambda>(hdr, _). Inr (AddField hdr))
                           else Inr SkipField)
              else Inr (if relaxed then SkipField else ResetHeader)))"

definition field_decision :: "bool \<Rightarrow> HttpHeader \<Rightarrow> HttpHeaderEntry \<Rightarrow> field_action res" where
  "field_decision relaxed hdr e =
     res_bind (if he_id e = HDR_CONTENT_LENGTH then content_length_action relaxed hdr e else Inr (AddField hdr)) (\<lambda>a.
       case a of
         AddField hdr \<Rightarrow> Inr (if he_id e = HDR_OTHER \<and> stringHasWhitespace (he_name e) \<and> \<not> relaxed then ResetHeader else AddField hdr)
       | _ \<Rightarrow> Inr a)"

text \<open>\<^verbatim>\<open>httpHeaderReset\<close>; the result of the parser is 0 then.\<close>

definition httpHeaderReset :: "HttpHeader \<Rightarrow> (bool \<times> HttpHeader) res" where
  "httpHeaderReset hdr =
     res_bind (c_assert (hd_owner hdr \<noteq> hoNone)) (\<lambda>_. res_bind (httpHeaderInit (hd_owner hdr)) (\<lambda>h. Inr (False, h)))"

function parse_fields :: "bool \<Rightarrow> HttpHeader \<Rightarrow> string \<Rightarrow> (bool \<times> HttpHeader) res" where
  "parse_fields relaxed hdr s =
     (if s = [] then Inr (True, hdr)
      else case read_field relaxed [] s of
             None \<Rightarrow> httpHeaderReset hdr
           | Some (field, rest) \<Rightarrow>
               if field = [] then (if rest \<noteq> [] then httpHeaderReset hdr else Inr (True, hdr))
               else res_bind (httpHeaderEntryParseCreate relaxed field) (\<lambda>eo.
                 case eo of
                   None \<Rightarrow> if relaxed then parse_fields relaxed hdr rest else httpHeaderReset hdr
                 | Some e \<Rightarrow>
                     res_bind (field_decision relaxed hdr e) (\<lambda>a.
                       case a of
                         AddField hdr \<Rightarrow> res_bind (httpHeaderAddEntry hdr e) (\<lambda>hdr. parse_fields relaxed hdr rest)
                       | SkipField \<Rightarrow> parse_fields relaxed hdr rest
                       | ResetHeader \<Rightarrow> httpHeaderReset hdr)))"
  by pat_completeness auto
termination by (relation "measure (\<lambda>(relaxed, hdr, s). length s)") (auto dest: read_field_shorter)

declare parse_fields.simps [simp del]

definition httpHeaderParse :: "bool \<Rightarrow> HttpHeader \<Rightarrow> string \<Rightarrow> (bool \<times> HttpHeader) res" where
  "httpHeaderParse relaxed hdr text = (if NUL \<in> set text then httpHeaderReset hdr else parse_fields relaxed hdr text)"

end
