(* ===== verification/Http_Header_Correct.thy ===== *)
theory Http_Header_Correct
  imports Http_Header
begin

text \<open>
  Correctness of the message headers. A header stands for the list of its entries, \<open>header_list\<close>. On a header
  that satisfies \<open>wf_header\<close> every operation keeps the invariant, does on the list what it is named after, and
  fails no assertion. The parser keeps it for any input; what is packed is parsed back.
\<close>

section \<open>Loops over the entries\<close>

fun live :: "'a option list \<Rightarrow> 'a list" where
  "live [] = []"
| "live (None # xs) = live xs"
| "live (Some x # xs) = x # live xs"

fun slots_from :: "nat \<Rightarrow> 'a option list \<Rightarrow> (int \<times> 'a) list" where
  "slots_from i [] = []"
| "slots_from i (None # xs) = slots_from (Suc i) xs"
| "slots_from i (Some x # xs) = (int i, x) # slots_from (Suc i) xs"

definition header_list :: "HttpHeader \<Rightarrow> HttpHeaderEntry list" where
  "header_list h = live (hd_entries h)"

lemma live_append [simp]: "live (xs @ ys) = live xs @ live ys"
  by (induction xs rule: live.induct) simp_all

lemma live_map_Some [simp]: "live (map Some xs) = xs"
  by (induction xs) simp_all

lemma live_replicate_None [simp]: "live (replicate n None) = []"
  by (induction n) simp_all

lemma snd_slots [simp]: "map snd (slots_from i xs) = live xs"
  by (induction i xs rule: slots_from.induct) simp_all

lemma scan_slots_hit: "pos < length items \<Longrightarrow> items ! pos = Some e \<Longrightarrow> scan_slots items pos = (int pos, Some e)"
  by (subst scan_slots.simps) simp

lemma scan_slots_hole: "pos < length items \<Longrightarrow> items ! pos = None \<Longrightarrow> scan_slots items pos = scan_slots items (Suc pos)"
  by (subst scan_slots.simps) simp

lemma scan_slots_end: "scan_slots items (length items) = (int (length items), None)"
  by (subst scan_slots.simps) simp

lemma get_entry: "pos \<le> length (hd_entries h) \<Longrightarrow> httpHeaderGetEntry h (int pos - 1) = Inr (scan_slots (hd_entries h) pos)"
  by (simp add: httpHeaderGetEntry_def HttpHeaderInitPos_def c_assert_def)

text \<open>The loop over \<^const>\<open>httpHeaderGetEntry\<close> visits every entry once, in order, and ends without failing an assertion.\<close>

lemma visit_from_slots: "hd_entries h = pre @ xs \<Longrightarrow> visit_from h (int (length pre) - 1) = Inr (slots_from (length pre) xs)"
proof (induction xs arbitrary: pre)
  case Nil
  hence "httpHeaderGetEntry h (int (length pre) - 1) = Inr (int (length pre), None)"
    using get_entry [of "length pre" h] scan_slots_end [of pre] by simp
  thus ?case by (subst visit_from.simps) simp
next
  case (Cons x xs)
  have i: "length pre \<le> length (hd_entries h)" "length pre < length (hd_entries h)" "hd_entries h ! length pre = x" using Cons.prems by simp_all
  have IH: "visit_from h (int (length pre)) = Inr (slots_from (Suc (length pre)) xs)" using Cons.IH [of "pre @ [x]"] Cons.prems by simp
  show ?case
  proof (cases x)
    case None
    have "Suc (length pre) \<le> length (hd_entries h)" using i(2) by simp
    hence "httpHeaderGetEntry h (int (length pre) - 1) = httpHeaderGetEntry h (int (length pre))"
      using get_entry [OF i(1)] get_entry [of "Suc (length pre)" h] scan_slots_hole [OF i(2)] i(3) None by simp
    hence "visit_from h (int (length pre) - 1) = visit_from h (int (length pre))"
      by (simp only: visit_from.simps [of h "int (length pre) - 1"] visit_from.simps [of h "int (length pre)"])
    thus ?thesis using IH None by simp
  next
    case (Some e)
    hence "httpHeaderGetEntry h (int (length pre) - 1) = Inr (int (length pre), Some e)"
      using get_entry [OF i(1)] scan_slots_hit [OF i(2)] i(3) by simp
    thus ?thesis using IH Some by (subst visit_from.simps) simp
  qed
qed

lemma visit_slots [simp]: "visit h = Inr (slots_from 0 (hd_entries h))"
  using visit_from_slots [of h "[]"] by (simp add: visit_def HttpHeaderInitPos_def)

text \<open>A loop that does not use the position.\<close>

fun each_entry :: "(HttpHeaderEntry \<Rightarrow> 's \<Rightarrow> 's res) \<Rightarrow> HttpHeaderEntry list \<Rightarrow> 's \<Rightarrow> 's res" where
  "each_entry f [] s = Inr s"
| "each_entry f (e # es) s = res_bind (f e s) (\<lambda>s. each_entry f es s)"

lemma each_each_entry: "each (\<lambda>(p, e) s. f e s) vs s = each_entry f (map snd vs) s"
proof (induction vs arbitrary: s)
  case (Cons v vs)
  hence "each (\<lambda>(p, e) s. f e s) vs = each_entry f (map snd vs)" by (intro ext)
  thus ?case by (cases v) simp
qed simp

lemma each_slots [simp]: "each (\<lambda>(p, e) s. f e s) (slots_from i xs) s = each_entry f (live xs) s"
  by (simp add: each_each_entry)

lemma each_entry_pure: "each_entry (\<lambda>e s. Inr (g e s)) es s = Inr (fold g es s)"
  by (induction es arbitrary: s) simp_all

section \<open>The invariant\<close>

definition wf_field :: "HttpHeaderEntry \<Rightarrow> bool" where
  "wf_field e \<longleftrightarrow> he_id e < HDR_ENUM_END \<and> (he_id e \<noteq> HDR_OTHER \<longrightarrow> he_name e = header_name (he_id e)) \<and>
     length (he_name e) < str_limit \<and> length (he_value e) < str_limit"

definition total_size :: "HttpHeaderEntry list \<Rightarrow> int" where
  "total_size es = sum_list (map entry_size es)"

definition wf_header :: "HttpHeader \<Rightarrow> bool" where
  "wf_header h \<longleftrightarrow> hd_owner h \<noteq> hoNone \<and> hd_mask h = he_id ` set (header_list h) \<and> hd_len h = total_size (header_list h) \<and>
     (\<forall>e \<in> set (header_list h). wf_field e)"

lemma entry_size_nonneg: "0 \<le> entry_size e"
  by (simp add: entry_size_def)

lemma total_size_simps [simp]: "total_size [] = 0" "total_size (e # es) = entry_size e + total_size es" "total_size (es @ fs) = total_size es + total_size fs"
  by (simp_all add: total_size_def)

lemma total_size_filter: "total_size (filter P es) + total_size (filter (\<lambda>e. \<not> P e) es) = total_size es"
  by (induction es) simp_all

lemma total_size_nonneg: "0 \<le> total_size es"
  by (induction es) (simp_all add: entry_size_nonneg)

section \<open>Adding\<close>

lemma clone_field: "wf_field e \<Longrightarrow> httpHeaderEntryClone e = Inr e"
  by (auto simp: wf_field_def httpHeaderEntryClone_def httpHeaderEntryCreate_def str_make_def c_assert_def)

definition added :: "HttpHeader \<Rightarrow> HttpHeaderEntry \<Rightarrow> HttpHeader" where
  "added h e = h\<lparr>hd_mask := insert (he_id e) (hd_mask h), hd_entries := hd_entries h @ [Some e], hd_len := hd_len h + entry_size e\<rparr>"

lemma add_entry: "wf_field e \<Longrightarrow> httpHeaderAddEntry h e = Inr (added h e)"
  by (simp add: wf_field_def httpHeaderAddEntry_def c_assert_def added_def)

lemma added_list [simp]: "header_list (added h e) = header_list h @ [e]" "hd_owner (added h e) = hd_owner h"
  by (simp_all add: added_def header_list_def)

lemma added_wf: "wf_header h \<Longrightarrow> wf_field e \<Longrightarrow> wf_header (added h e)"
  by (simp add: wf_header_def) (auto simp: added_def)

lemma add_all:
  "\<forall>e \<in> set es. wf_field e \<Longrightarrow>
   each_entry (\<lambda>e h. if P e then Inr h else httpHeaderAddClone h e) es h = Inr (fold (\<lambda>e h. added h e) (filter (\<lambda>e. \<not> P e) es) h)"
  by (induction es arbitrary: h) (simp_all add: httpHeaderAddClone_def clone_field add_entry)

lemma fold_added_list: "header_list (fold (\<lambda>e h. added h e) es h) = header_list h @ es"
  by (induction es arbitrary: h) simp_all

lemma fold_added_wf: "wf_header h \<Longrightarrow> \<forall>e \<in> set es. wf_field e \<Longrightarrow> wf_header (fold (\<lambda>e h. added h e) es h)"
  by (induction es arbitrary: h) (simp_all add: added_wf)

section \<open>Deleting\<close>

definition del_entries :: "(HttpHeaderEntry \<Rightarrow> bool) \<Rightarrow> HttpHeaderEntry option list \<Rightarrow> HttpHeaderEntry option list" where
  "del_entries P = map (\<lambda>x. case x of None \<Rightarrow> None | Some e \<Rightarrow> if P e then None else Some e)"

lemma live_del_entries [simp]: "live (del_entries P xs) = filter (\<lambda>e. \<not> P e) (live xs)"
  unfolding del_entries_def by (induction xs rule: live.induct) simp_all

text \<open>A loop that deletes the entries with \<open>P\<close> and changes the mask with \<open>f\<close> for the others.\<close>

definition del_step :: "(HttpHeaderEntry \<Rightarrow> bool) \<Rightarrow> (nat \<Rightarrow> HttpHeaderMask \<Rightarrow> HttpHeaderMask) \<Rightarrow> int \<times> HttpHeaderEntry \<Rightarrow> HttpHeader \<times> nat \<Rightarrow> (HttpHeader \<times> nat) res" where
  "del_step P f = (\<lambda>(pos, e) (h, count).
     if P e then res_bind (httpHeaderDelAt pos h) (\<lambda>h. Inr (h, count + 1)) else Inr (h\<lparr>hd_mask := f (he_id e) (hd_mask h)\<rparr>, count))"

lemma del_at:
  assumes "hd_entries h = pre @ Some e # xs" "hd_len h \<ge> entry_size e"
  shows "httpHeaderDelAt (int (length pre)) h = Inr (h\<lparr>hd_entries := pre @ None # xs, hd_len := hd_len h - entry_size e\<rparr>)"
  using assms by (simp add: httpHeaderDelAt_def HttpHeaderInitPos_def c_assert_def Let_def)

lemma del_loop:
  "hd_entries h = pre @ xs \<Longrightarrow> total_size (filter P (live xs)) \<le> hd_len h \<Longrightarrow>
   each (del_step P f) (slots_from (length pre) xs) (h, c) =
     Inr (h\<lparr>hd_entries := pre @ del_entries P xs, hd_len := hd_len h - total_size (filter P (live xs)),
            hd_mask := fold f (map he_id (filter (\<lambda>e. \<not> P e) (live xs))) (hd_mask h)\<rparr>, c + length (filter P (live xs)))"
proof (induction xs arbitrary: pre h c)
  case Nil
  thus ?case by (simp add: del_entries_def)
next
  case (Cons x xs)
  show ?case
  proof (cases x)
    case None
    thus ?thesis using Cons.IH [of h "pre @ [None]" c] Cons.prems by (simp add: del_entries_def)
  next
    case (Some e)
    show ?thesis
    proof (cases "P e")
      case True
      have big: "entry_size e \<le> hd_len h" "total_size (filter P (live xs)) \<le> hd_len h - entry_size e"
        using Cons.prems(2) total_size_nonneg [of "filter P (live xs)"] by (simp_all add: Some True)
      let ?h = "h\<lparr>hd_entries := pre @ None # xs, hd_len := hd_len h - entry_size e\<rparr>"
      have "del_step P f (int (length pre), e) (h, c) = Inr (?h, c + 1)"
        using del_at [of h pre e xs] Cons.prems(1) big(1) True Some by (simp add: del_step_def)
      moreover note Cons.IH [of ?h "pre @ [None]" "c + 1"]
      ultimately show ?thesis using Cons.prems(1) big(2) by (simp add: Some True del_entries_def)
    next
      case False
      let ?h = "h\<lparr>hd_mask := f (he_id e) (hd_mask h)\<rparr>"
      have "del_step P f (int (length pre), e) (h, c) = Inr (?h, c)" using False by (simp add: del_step_def)
      moreover note Cons.IH [of ?h "pre @ [Some e]" c]
      ultimately show ?thesis using Cons.prems by (simp add: Some False del_entries_def)
    qed
  qed
qed

lemma fold_insert_mask: "fold insert xs m = set xs \<union> (m :: nat set)"
  by (induction xs arbitrary: m) auto

definition deleted :: "(HttpHeaderEntry \<Rightarrow> bool) \<Rightarrow> HttpHeader \<Rightarrow> HttpHeader" where
  "deleted P h = h\<lparr>hd_entries := del_entries P (hd_entries h), hd_len := hd_len h - total_size (filter P (header_list h)),
     hd_mask := he_id ` set (filter (\<lambda>e. \<not> P e) (header_list h))\<rparr>"

lemma deleted_list [simp]: "header_list (deleted P h) = filter (\<lambda>e. \<not> P e) (header_list h)" "hd_owner (deleted P h) = hd_owner h"
  by (simp_all add: deleted_def header_list_def)

lemma deleted_wf: "wf_header h \<Longrightarrow> wf_header (deleted P h)"
  using total_size_filter [of P "header_list h"] by (simp add: wf_header_def) (auto simp: deleted_def)

lemma small_part: "wf_header h \<Longrightarrow> total_size (filter P (header_list h)) \<le> hd_len h"
  using total_size_filter [of P "header_list h"] total_size_nonneg [of "filter (\<lambda>e. \<not> P e) (header_list h)"] by (simp add: wf_header_def)

lemma del_by_name:
  assumes "wf_header h"
  shows "httpHeaderDelByName name h = Inr (deleted (\<lambda>e. strcaseeq (he_name e) name) h, length (filter (\<lambda>e. strcaseeq (he_name e) name) (header_list h)))"
proof -
  let ?P = "\<lambda>e. strcaseeq (he_name e) name"
  have "httpHeaderDelByName name h = each (del_step ?P insert) (slots_from 0 (hd_entries h)) (h\<lparr>hd_mask := httpHeaderMaskInit\<rparr>, 0)"
    by (simp add: httpHeaderDelByName_def del_step_def)
  thus ?thesis using del_loop [of "h\<lparr>hd_mask := httpHeaderMaskInit\<rparr>" "[]" "hd_entries h" ?P insert 0] small_part [OF assms, of ?P]
    by (simp add: header_list_def deleted_def fold_insert_mask httpHeaderMaskInit_def)
qed

lemma del_by_id:
  assumes "wf_header h" "i < HDR_ENUM_END" "i \<noteq> HDR_OTHER"
  shows "httpHeaderDelById i h = Inr (deleted (\<lambda>e. he_id e = i) h, length (filter (\<lambda>e. he_id e = i) (header_list h)))"
proof (cases "i \<in> hd_mask h")
  case False
  hence none: "filter (\<lambda>e. he_id e = i) (header_list h) = []" "filter (\<lambda>e. he_id e \<noteq> i) (header_list h) = header_list h"
    using assms(1) by (auto simp: wf_header_def filter_empty_conv filter_id_conv)
  have "del_entries (\<lambda>e. he_id e = i) xs = xs" if "filter (\<lambda>e. he_id e = i) (live xs) = []" for xs
    using that unfolding del_entries_def by (induction xs rule: live.induct) (auto split: if_splits)
  hence "deleted (\<lambda>e. he_id e = i) h = h" using none assms(1) by (simp add: deleted_def header_list_def wf_header_def)
  thus ?thesis using False none(1) assms(2,3) by (simp add: httpHeaderDelById_def)
next
  case True
  let ?P = "\<lambda>e. he_id e = i"
  have some: "filter ?P (header_list h) \<noteq> []" using True assms(1) by (auto simp: wf_header_def filter_empty_conv)
  have fm: "fold (\<lambda>_ m. m) xs m = m" for xs :: "nat list" and m :: HttpHeaderMask by (induction xs) simp_all
  have m: "hd_mask h - {i} = he_id ` {e \<in> set (header_list h). he_id e \<noteq> i}" using assms(1) by (auto simp: wf_header_def)
  have "each (\<lambda>(pos, e) (hdr, count). if he_id e = i then res_bind (httpHeaderDelAt pos hdr) (\<lambda>hdr. Inr (hdr, count + 1)) else Inr (hdr, count))
      (slots_from 0 (hd_entries h)) (h, 0) = each (del_step ?P (\<lambda>_ m. m)) (slots_from 0 (hd_entries h)) (h, 0)"
    by (rule arg_cong [where f = "\<lambda>b. each b _ _"]) (auto simp: del_step_def fun_eq_iff)
  also have "\<dots> = Inr (h\<lparr>hd_entries := del_entries ?P (hd_entries h), hd_len := hd_len h - total_size (filter ?P (header_list h))\<rparr>, length (filter ?P (header_list h)))"
    using del_loop [of h "[]" "hd_entries h" ?P "\<lambda>_ m. m" 0] small_part [OF assms(1), of ?P] by (simp add: header_list_def fm)
  finally show ?thesis using True some assms(2,3) by (simp add: httpHeaderDelById_def deleted_def m)
qed

lemma refresh_mask: "httpHeaderRefreshMask h = Inr (h\<lparr>hd_mask := he_id ` set (header_list h)\<rparr>)"
proof -
  have "fold (\<lambda>e h. h\<lparr>hd_mask := insert (he_id e) (hd_mask h)\<rparr>) es h = h\<lparr>hd_mask := he_id ` set es \<union> hd_mask h\<rparr>" for es :: "HttpHeaderEntry list" and h :: HttpHeader
    by (induction es arbitrary: h) simp_all
  thus ?thesis by (simp add: httpHeaderRefreshMask_def each_entry_pure httpHeaderMaskInit_def header_list_def)
qed

section \<open>Repacking\<close>

lemma repack_loop_eq:
  "repack_loop (length A + k) (length A) (map Some A @ replicate k None @ C) =
     (map Some (A @ live C) @ replicate (k + length C - length (live C)) None, length A + length (live C))"
proof (induction C arbitrary: A k)
  case Nil
  show ?case by (subst repack_loop.simps) simp
next
  case (Cons x C)
  let ?items = "map Some A @ replicate k None @ x # C"
  have at: "length A + k < length ?items" "?items ! (length A + k) = x" by (simp_all add: nth_append)
  have le: "length (live C) \<le> length C" for C :: "'b option list" by (induction C rule: live.induct) simp_all
  show ?case
  proof (cases x)
    case None
    have "?items = map Some A @ replicate (Suc k) None @ C" by (simp add: None replicate_app_Cons_same)
    hence "repack_loop (Suc (length A + k)) (length A) ?items = (map Some (A @ live C) @ replicate (Suc k + length C - length (live C)) None, length A + length (live C))"
      using Cons.IH [of A "Suc k"] by (simp only: add_Suc_right)
    thus ?thesis using at None by (subst repack_loop.simps) simp
  next
    case (Some e)
    have i: "(if length A + k \<noteq> length A then (?items[length A := Some e])[length A + k := None] else ?items[length A := Some e]) =
        map Some (A @ [e]) @ replicate k None @ C"
      by (cases k) (simp_all add: Some list_update_append replicate_app_Cons_same)
    have "repack_loop (length A + k + 1) (length A + 1) (map Some (A @ [e]) @ replicate k None @ C) =
        (map Some (A @ e # live C) @ replicate (k + length C - length (live C)) None, length A + Suc (length (live C)))"
      using Cons.IH [of "A @ [e]" k] by (simp add: add.commute add.left_commute)
    moreover have "repack_loop (length A + k) (length A) ?items = repack_loop (length A + k + 1) (length A + 1)
        (if length A + k \<noteq> length A then (?items[length A := Some e])[length A + k := None] else ?items[length A := Some e])"
      unfolding repack_loop.simps [of "length A + k" "length A" ?items] if_P [OF at(1)] at(2) unfolding Some option.case Let_def by (rule refl)
    ultimately show ?thesis unfolding i using Some by simp
  qed
qed

lemma repack: "httpHeaderRepack h = Inr (h\<lparr>hd_entries := map Some (header_list h)\<rparr>)"
proof -
  have "length (live xs) \<le> length xs" for xs :: "HttpHeaderEntry option list" by (induction xs rule: live.induct) simp_all
  thus ?thesis using repack_loop_eq [of "[]" 0 "hd_entries h"] by (simp add: httpHeaderRepack_def header_list_def)
qed

lemma repack_wf: "wf_header h \<Longrightarrow> wf_header (h\<lparr>hd_entries := map Some (header_list h)\<rparr>)"
  by (simp add: wf_header_def header_list_def)

section \<open>Updating\<close>

text \<open>A fresh entry \<open>f\<close> replaces the old entry \<open>e\<close>.\<close>

definition replaces :: "HttpHeaderEntry \<Rightarrow> HttpHeaderEntry \<Rightarrow> bool" where
  "replaces f e \<longleftrightarrow> (if he_id f \<noteq> HDR_OTHER then he_id e = he_id f else strcaseeq (he_name e) (he_name f))"

lemma delete_like_eq: "wf_header h \<Longrightarrow> wf_field f \<Longrightarrow> delete_like f h = Inr (deleted (replaces f) h)"
proof -
  assume h: "wf_header h" "wf_field f"
  have "replaces f = (if he_id f \<noteq> HDR_OTHER then (\<lambda>e. he_id e = he_id f) else (\<lambda>e. strcaseeq (he_name e) (he_name f)))"
    by (auto simp: replaces_def fun_eq_iff)
  thus ?thesis using h by (simp add: delete_like_def del_by_id del_by_name wf_field_def)
qed

lemma delete_all:
  "wf_header h \<Longrightarrow> \<forall>f \<in> set fs. wf_field f \<Longrightarrow>
   \<exists>h'. each_entry (\<lambda>f h. if P f then Inr h else delete_like f h) fs h = Inr h' \<and> wf_header h' \<and> hd_owner h' = hd_owner h \<and>
     header_list h' = filter (\<lambda>e. \<not> (\<exists>f \<in> set (filter (\<lambda>f. \<not> P f) fs). replaces f e)) (header_list h)"
proof (induction fs arbitrary: h)
  case (Cons f fs)
  show ?case
  proof (cases "P f")
    case True
    thus ?thesis using Cons by simp
  next
    case False
    have wf: "wf_header (deleted (replaces f) h)" using Cons.prems(1) by (rule deleted_wf)
    obtain h' where h': "each_entry (\<lambda>f h. if P f then Inr h else delete_like f h) fs (deleted (replaces f) h) = Inr h'" "wf_header h'" "hd_owner h' = hd_owner h"
      "header_list h' = filter (\<lambda>e. \<not> (\<exists>f \<in> set (filter (\<lambda>f. \<not> P f) fs). replaces f e)) (filter (\<lambda>e. \<not> replaces f e) (header_list h))"
      using Cons.IH [OF wf] Cons.prems(2) by auto
    have "header_list h' = filter (\<lambda>e. \<not> (\<exists>f \<in> set (filter (\<lambda>f. \<not> P f) (f # fs)). replaces f e)) (header_list h)"
      unfolding h'(4) using False by (simp add: conj_commute)
    thus ?thesis using h' False Cons.prems by (simp add: delete_like_eq)
  qed
qed simp

lemma update_list:
  assumes "wf_header old" "\<forall>e \<in> set (header_list fresh). wf_field e"
  shows "\<exists>h. httpHeaderUpdate old fresh m = Inr h \<and> wf_header h \<and> hd_owner h = hd_owner old \<and> hd_entries h = map Some (header_list h) \<and>
    header_list h = filter (\<lambda>e. \<not> (\<exists>f \<in> set (filter (\<lambda>f. \<not> denied m f) (header_list fresh)). replaces f e)) (header_list old) @ filter (\<lambda>f. \<not> denied m f) (header_list fresh)"
proof -
  let ?F = "header_list fresh" let ?N = "filter (\<lambda>f. \<not> denied m f) (header_list fresh)"
  obtain h1 where h1: "each_entry (\<lambda>f h. if denied m f then Inr h else delete_like f h) ?F old = Inr h1" "wf_header h1" "hd_owner h1 = hd_owner old"
    "header_list h1 = filter (\<lambda>e. \<not> (\<exists>f \<in> set ?N. replaces f e)) (header_list old)"
    using delete_all [OF assms(1,2), of "denied m"] by auto
  let ?h = "fold (\<lambda>e h. added h e) ?N h1"
  have wf: "wf_header ?h" using h1(2) assms(2) by (intro fold_added_wf) auto
  have "httpHeaderUpdate old fresh m = httpHeaderRepack ?h"
    using h1(1) add_all [OF assms(2), of "denied m" h1] by (simp add: httpHeaderUpdate_def header_list_def)
  moreover have "hd_owner ?h = hd_owner old" using h1(3) by (induction ?N arbitrary: h1) (auto simp: fold_invariant [where P = "\<lambda>h. hd_owner h = hd_owner old" and Q = "\<lambda>_. True"])
  ultimately show ?thesis using repack [of ?h] repack_wf [OF wf] h1(4) fold_added_list [of ?N h1] by (simp add: header_list_def)
qed

section \<open>Looking up\<close>

lemma first_with_find: "first_with i vs = find (\<lambda>e. he_id e = i) (map snd vs)"
  by (induction i vs rule: first_with.induct) simp_all

lemma find_entry:
  assumes "wf_header h" "i < HDR_ENUM_END" "i \<notin> ListHeadersMask"
  shows "httpHeaderFindEntry h i = Inr (find (\<lambda>e. he_id e = i) (header_list h))"
proof (cases "i \<in> hd_mask h")
  case True
  hence "find (\<lambda>e. he_id e = i) (header_list h) \<noteq> None" using assms(1) by (auto simp: wf_header_def find_None_iff)
  thus ?thesis using True assms(2,3) by (auto simp: httpHeaderFindEntry_def first_with_find header_list_def)
next
  case False
  hence "find (\<lambda>e. he_id e = i) (header_list h) = None" using assms(1) by (auto simp: wf_header_def find_None_iff)
  thus ?thesis using False assms(2,3) by (simp add: httpHeaderFindEntry_def)
qed

text \<open>The values of a list, joined; a separator is put behind what is not empty.\<close>

definition join_value :: "string \<Rightarrow> string \<Rightarrow> string" where
  "join_value v s = (if s = [] then v else s @ '', '' @ v)"

lemma list_add_join:
  "length (case s of None \<Rightarrow> [] | Some v \<Rightarrow> v) + length v + 2 < str_limit \<Longrightarrow>
   list_add s v CHR '','' = Inr (Some (join_value v (case s of None \<Rightarrow> [] | Some v \<Rightarrow> v)))"
  by (auto simp: list_add_def strListAdd_def str_append_def join_value_def)

lemma length_join_value: "length (join_value v s) \<le> length s + length v + 2"
  by (simp add: join_value_def)

lemma join_all:
  "length (case s of None \<Rightarrow> [] | Some v \<Rightarrow> v) + sum_list (map (\<lambda>e. length (he_value e) + 2) (filter Q es)) < str_limit \<Longrightarrow>
   each_entry (\<lambda>e s. if Q e then list_add s (he_value e) CHR '','' else Inr s) es s =
     Inr (if filter Q es = [] then s else Some (fold join_value (map he_value (filter Q es)) (case s of None \<Rightarrow> [] | Some v \<Rightarrow> v)))"
proof (induction es arbitrary: s)
  case (Cons e es)
  let ?s = "case s of None \<Rightarrow> [] | Some v \<Rightarrow> v"
  show ?case
  proof (cases "Q e")
    case True
    have "length (join_value (he_value e) ?s) + sum_list (map (\<lambda>e. length (he_value e) + 2) (filter Q es)) < str_limit"
      using Cons.prems True length_join_value [of "he_value e" ?s] by simp
    moreover have "list_add s (he_value e) CHR '','' = Inr (Some (join_value (he_value e) ?s))"
      using Cons.prems True by (intro list_add_join) simp
    ultimately show ?thesis using Cons.IH [of "Some (join_value (he_value e) ?s)"] True by simp
  qed (use Cons in simp)
qed simp

lemma get_list:
  assumes "wf_header h" "i \<in> ListHeadersMask" "sum_list (map (\<lambda>e. length (he_value e) + 2) (filter (\<lambda>e. he_id e = i) (header_list h))) < str_limit"
  shows "httpHeaderGetList h i = Inr (if filter (\<lambda>e. he_id e = i) (header_list h) = [] then None
    else Some (fold join_value (map he_value (filter (\<lambda>e. he_id e = i) (header_list h))) []))"
proof (cases "i \<in> hd_mask h")
  case True
  hence "filter (\<lambda>e. he_id e = i) (header_list h) \<noteq> []" using assms(1) by (auto simp: wf_header_def filter_empty_conv)
  thus ?thesis using True assms(2,3) join_all [of None "\<lambda>e. he_id e = i" "header_list h"] by (simp add: httpHeaderGetList_def header_list_def)
next
  case False
  hence "filter (\<lambda>e. he_id e = i) (header_list h) = []" using assms(1) by (auto simp: wf_header_def filter_empty_conv)
  thus ?thesis using False assms(2) by (simp add: httpHeaderGetList_def)
qed

section \<open>Packing\<close>

lemma pack_header: "httpHeaderPackInto h = Inr (concat (map httpHeaderEntryPackInto (header_list h)))"
proof -
  have "fold (\<lambda>e p. p @ httpHeaderEntryPackInto e) es p = p @ concat (map httpHeaderEntryPackInto es)" for es p by (induction es arbitrary: p) simp_all
  thus ?thesis by (simp add: httpHeaderPackInto_def each_entry_pure header_list_def)
qed

lemma length_pack_entry: "int (length (httpHeaderEntryPackInto e)) = entry_size e"
  by (simp add: httpHeaderEntryPackInto_def entry_size_def CRLF_def)

lemma length_pack_entries: "int (length (concat (map httpHeaderEntryPackInto es))) = total_size es"
  by (induction es) (simp_all add: length_pack_entry)

section \<open>Parsing keeps the invariant\<close>

text \<open>At most one entry has the length of the content, and its value is a number.\<close>

definition one_length :: "HttpHeader \<Rightarrow> bool" where
  "one_length h \<longleftrightarrow> length (filter (\<lambda>e. he_id e = HDR_CONTENT_LENGTH) (header_list h)) \<le> 1 \<and>
     (\<forall>e \<in> set (header_list h). he_id e = HDR_CONTENT_LENGTH \<longrightarrow> fst (httpHeaderParseSize (he_value e)))"

lemma empty_header: "owner \<noteq> hoNone \<Longrightarrow> \<exists>h. httpHeaderInit owner = Inr h \<and> wf_header h \<and> one_length h \<and> header_list h = [] \<and> hd_owner h = owner"
  by (simp add: httpHeaderInit_def wf_header_def one_length_def header_list_def httpHeaderMaskInit_def)

lemma reset_header: "wf_header h \<Longrightarrow> \<exists>h'. httpHeaderReset h = Inr (False, h') \<and> wf_header h' \<and> one_length h' \<and> header_list h' = [] \<and> hd_owner h' = hd_owner h"
  using empty_header [of "hd_owner h"] by (auto simp: httpHeaderReset_def wf_header_def)

lemma id_found_bound: "httpHeaderIdByName field n Headers HDR_ENUM_END = Some k \<Longrightarrow> k < HDR_ENUM_END"
proof -
  have "id_loop field n info i = Some k \<Longrightarrow> k < i + length info" for info i
    by (induction field n info i rule: id_loop.induct) (auto split: if_splits)
  from this [of Headers 0] show "httpHeaderIdByName field n Headers HDR_ENUM_END = Some k \<Longrightarrow> k < HDR_ENUM_END"
    by (simp add: httpHeaderIdByName_def Headers_built(2))
qed

lemma length_rtrim_take: "length (rtrim (take n s)) \<le> n"
  using length_rtrim [of "take n s"] by simp

lemma length_parse_value: "length (parse_value s) \<le> length s"
  using length_rtrim [of "dropWhile isspace_c s"] length_dropWhile_le [of isspace_c s] by (simp add: parse_value_def)

lemma entry_parse: "\<exists>eo. httpHeaderEntryParseCreate relaxed field = Inr eo \<and> (\<forall>e. eo = Some e \<longrightarrow> wf_field e)"
proof (cases "index_of CHR '':'' field")
  case None
  thus ?thesis by (simp add: httpHeaderEntryParseCreate_def)
next
  case (Some colon)
  define name where "name = (if relaxed \<and> isspace_c (field ! (colon - 1)) then rtrim (take colon field) else take colon field)"
  define i where "i = (case httpHeaderIdByName field (int (length name)) Headers HDR_ENUM_END of None \<Rightarrow> HDR_OTHER | Some k \<Rightarrow> k)"
  define v where "v = parse_value (drop (colon + 1) field)"
  have eq: "httpHeaderEntryParseCreate relaxed field = (if colon = 0 \<or> colon > 65534 \<or> name = [] then Inr None
      else res_bind (c_assert (i < HDR_ENUM_END)) (\<lambda>_. res_bind (if i = HDR_OTHER then str_make name else Inr (header_name i)) (\<lambda>nm.
        if length v > 65534 then Inr None else res_bind (str_make v) (\<lambda>v. Inr (Some \<lparr>he_id = i, he_name = nm, he_value = v\<rparr>)))))"
    unfolding httpHeaderEntryParseCreate_def Some option.case Let_def name_def [symmetric] unfolding i_def [symmetric] v_def [symmetric]
    by (cases "colon = 0 \<or> colon > 65534"; cases "name = []"; simp)
  have i: "i < HDR_ENUM_END" using id_found_bound by (auto simp: i_def HDR_OTHER_def HDR_ENUM_END_def split: option.split)
  show ?thesis
  proof (cases "colon = 0 \<or> colon > 65534 \<or> name = [] \<or> length v > 65534")
    case True
    have "colon \<le> 65534 \<Longrightarrow> length name < str_limit" using length_rtrim_take [of colon field] by (auto simp: name_def str_limit_def)
    thus ?thesis using True i by (auto simp: eq str_make_def)
  next
    case False
    hence n: "length name < str_limit" "length v < str_limit" using length_rtrim_take [of colon field] by (auto simp: name_def str_limit_def)
    thus ?thesis using False i header_name_plain [OF i] by (auto simp: eq str_make_def wf_field_def str_limit_def)
  qed
qed

lemma filter_one: "length (filter P xs) \<le> 1 \<Longrightarrow> find P xs = None \<Longrightarrow> filter P xs = []"
  by (simp add: find_None_iff filter_empty_conv)

text \<open>What the parser does with an entry keeps the invariant, too.\<close>

definition good_action :: "HttpHeader \<Rightarrow> HttpHeaderEntry \<Rightarrow> field_action \<Rightarrow> bool" where
  "good_action h e a \<longleftrightarrow> (case a of AddField h' \<Rightarrow> wf_header h' \<and> one_length (added h' e) \<and> hd_owner h' = hd_owner h | _ \<Rightarrow> True)"

lemma one_length_added:
  "one_length h \<Longrightarrow> he_id e \<noteq> HDR_CONTENT_LENGTH \<Longrightarrow> one_length (added h e)"
  "filter (\<lambda>e. he_id e = HDR_CONTENT_LENGTH) (header_list h) = [] \<Longrightarrow> fst (httpHeaderParseSize (he_value e)) \<Longrightarrow> one_length (added h e)"
  by (auto simp: one_length_def filter_empty_conv)

lemma content_length_good:
  assumes "wf_header h" "one_length h" "he_id e = HDR_CONTENT_LENGTH"
  shows "\<exists>a. content_length_action relaxed h e = Inr a \<and> good_action h e a"
proof -
  let ?P = "\<lambda>e. he_id e = HDR_CONTENT_LENGTH"
  obtain ok1 l1 where p1: "httpHeaderParseSize (he_value e) = (ok1, l1)" by fastforce
  have id: "HDR_CONTENT_LENGTH < HDR_ENUM_END" "HDR_CONTENT_LENGTH \<noteq> HDR_OTHER" by (simp_all add: hdr_ids)
  have f: "httpHeaderFindEntry h (he_id e) = Inr (find ?P (header_list h))"
    unfolding assms(3) by (rule find_entry [OF assms(1) id(1) list_mask_members(4)])
  show ?thesis
  proof (cases "find ?P (header_list h)")
    case None
    have "filter ?P (header_list h) = []" using None by (simp add: find_None_iff filter_empty_conv)
    hence "ok1 \<Longrightarrow> one_length (added h e)" using p1 by (intro one_length_added(2)) simp_all
    thus ?thesis using p1 f None assms(1) by (cases ok1) (simp_all add: content_length_action_def good_action_def)
  next
    case (Some e2)
    hence e2: "he_id e2 = HDR_CONTENT_LENGTH" by (auto simp: find_Some_iff)
    obtain ok2 l2 where p2: "httpHeaderParseSize (he_value e2) = (ok2, l2)" by fastforce
    have d: "httpHeaderDelById (he_id e2) h = Inr (deleted ?P h, length (filter ?P (header_list h)))" unfolding e2 by (rule del_by_id [OF assms(1) id])
    have "ok1 \<Longrightarrow> good_action h e (AddField (deleted ?P h))"
      using assms(1) p1 by (auto simp: good_action_def deleted_wf intro!: one_length_added(2))
    thus ?thesis using p1 p2 f d Some by (auto simp: content_length_action_def good_action_def)
  qed
qed

lemma field_decision_good:
  assumes "wf_header h" "one_length h"
  shows "\<exists>a. field_decision relaxed h e = Inr a \<and> good_action h e a"
proof (cases "he_id e = HDR_CONTENT_LENGTH")
  case True
  obtain a where a: "content_length_action relaxed h e = Inr a" "good_action h e a" using content_length_good [OF assms True] by blast
  thus ?thesis using True by (cases a) (auto simp: field_decision_def good_action_def)
next
  case False
  thus ?thesis using assms one_length_added(1) [OF assms(2) False] by (auto simp: field_decision_def good_action_def)
qed

lemma parse_fields_good:
  "wf_header h \<Longrightarrow> one_length h \<Longrightarrow>
   \<exists>ok h'. parse_fields relaxed h s = Inr (ok, h') \<and> wf_header h' \<and> one_length h' \<and> hd_owner h' = hd_owner h \<and> (\<not> ok \<longrightarrow> header_list h' = [])"
proof (induction relaxed h s rule: parse_fields.induct)
  case (1 relaxed h s)
  note reset = reset_header [OF "1.prems"(1)]
  show ?case
  proof (cases "s = [] \<or> read_field relaxed [] s = None \<or> (\<exists>rest. read_field relaxed [] s = Some ([], rest))")
    case True
    thus ?thesis using reset "1.prems" by (subst parse_fields.simps) (cases "s = []"; auto)
  next
    case False
    then obtain field rest where rf: "read_field relaxed [] s = Some (field, rest)" "field \<noteq> []" "s \<noteq> []"
      by (cases "read_field relaxed [] s") auto
    obtain eo where eo: "httpHeaderEntryParseCreate relaxed field = Inr eo" "\<forall>e. eo = Some e \<longrightarrow> wf_field e" using entry_parse by blast
    have eq: "parse_fields relaxed h s = (case eo of None \<Rightarrow> if relaxed then parse_fields relaxed h rest else httpHeaderReset h
        | Some e \<Rightarrow> res_bind (field_decision relaxed h e) (\<lambda>a. case a of AddField hdr \<Rightarrow> res_bind (httpHeaderAddEntry hdr e) (\<lambda>hdr. parse_fields relaxed hdr rest)
           | SkipField \<Rightarrow> parse_fields relaxed h rest | ResetHeader \<Rightarrow> httpHeaderReset h))"
      by (subst parse_fields.simps) (simp add: rf eo(1))
    show ?thesis
    proof (cases eo)
      case None
      thus ?thesis using eq reset "1.IH"(1) [OF rf(3,1) refl rf(2) eo(1)] "1.prems" by (cases relaxed) auto
    next
      case (Some e)
      obtain a where a: "field_decision relaxed h e = Inr a" "good_action h e a" using field_decision_good [OF "1.prems"] by blast
      have wf: "wf_field e" using eo(2) Some by simp
      show ?thesis
      proof (cases a)
        case (AddField h1)
        have g: "wf_header (added h1 e)" "one_length (added h1 e)" "hd_owner (added h1 e) = hd_owner h"
          using a(2) AddField wf by (simp_all add: good_action_def added_wf)
        have "parse_fields relaxed h s = parse_fields relaxed (added h1 e) rest" using eq Some a(1) AddField add_entry [OF wf, of h1] by simp
        thus ?thesis using "1.IH"(2) [OF rf(3,1) refl rf(2) eo(1) Some a(1) AddField add_entry [OF wf] g(1,2)] g(3) by simp
      next
        case SkipField
        thus ?thesis using eq Some a(1) "1.IH"(3) [OF rf(3,1) refl rf(2) eo(1) Some a(1) SkipField "1.prems"] by simp
      next
        case ResetHeader
        thus ?thesis using eq Some a(1) reset by auto
      qed
    qed
  qed
qed

section \<open>Parsing what was packed\<close>

lemma index_of_append: "c \<notin> set a \<Longrightarrow> index_of c (a @ c # b) = Some (length a)"
  unfolding index_of_def by (subst takeWhile_append2) auto

lemma split_line_plain:
  assumes "CHR 0x0A \<notin> set l" "CHR 0x0D \<notin> set l"
  shows "split_line relaxed (l @ CRLF @ rest) = Some (l, [CHR 0x0D], rest)"
proof -
  have i: "index_of CHR 0x0A ((l @ [CHR 0x0D]) @ CHR 0x0A # rest) = Some (length l + 1)"
    using index_of_append [of "CHR 0x0A" "l @ [CHR 0x0D]" rest] assms(1) by simp
  have "l \<noteq> [] \<Longrightarrow> l ! (length l - 1) \<noteq> CHR 0x0D" using assms(2) by (metis last_conv_nth last_in_set)
  hence "\<not> (1 < length l \<and> (l @ [CHR 0x0D]) ! (length l - 1) = CHR 0x0D)" by (cases "l = []") (simp_all add: nth_append)
  thus ?thesis using i by (auto simp: split_line_def CRLF_def Let_def)
qed

lemma strip_cr_plain: "CHR 0x0D \<notin> set l \<Longrightarrow> strip_cr l = l"
  unfolding strip_cr_def by (induction l) auto

lemma read_field_plain:
  assumes "CHR 0x0A \<notin> set l" "CHR 0x0D \<notin> set l" "rest = [] \<or> hd rest \<noteq> CHR '' '' \<and> hd rest \<noteq> CHR 0x09"
  shows "read_field relaxed [] (l @ CRLF @ rest) = Some (l, rest)"
  using assms by (subst read_field.simps) (auto simp: split_line_plain strip_cr_plain Let_def)

text \<open>Entries whose text is parsed back: the names of extension fields are tokens that are not known names.\<close>

definition unknown_name :: "string \<Rightarrow> bool" where
  "unknown_name name \<longleftrightarrow> httpHeaderIdByNameDef name (int (length name)) = None"

definition token_name :: "string \<Rightarrow> bool" where
  "token_name name \<longleftrightarrow> name \<noteq> [] \<and> (\<forall>c \<in> set name. \<not> isspace_c c \<and> c \<noteq> CHR '':'' \<and> c \<noteq> NUL)"

definition text_value :: "string \<Rightarrow> bool" where
  "text_value v \<longleftrightarrow> (\<forall>c \<in> set v. c \<noteq> CHR 0x0A \<and> c \<noteq> CHR 0x0D \<and> c \<noteq> NUL) \<and> (v \<noteq> [] \<longrightarrow> \<not> isspace_c (hd v) \<and> \<not> isspace_c (last v))"

definition plain_field :: "HttpHeaderEntry \<Rightarrow> bool" where
  "plain_field e \<longleftrightarrow> wf_field e \<and> text_value (he_value e) \<and> (he_id e = HDR_OTHER \<longrightarrow> token_name (he_name e) \<and> unknown_name (he_name e))"

lemma known_names_token: "\<forall>(nm, i, ty) \<in> set HeadersAttrs. i \<noteq> HDR_OTHER \<longrightarrow> token_name nm"
  unfolding HeadersAttrs_def token_name_def isspace_c_def by (simp add: hdr_ids)

lemma plain_name: "plain_field e \<Longrightarrow> token_name (he_name e)"
proof (cases "he_id e = HDR_OTHER")
  case False
  moreover assume "plain_field e"
  ultimately have "he_id e < HDR_ENUM_END" "he_name e = header_name (he_id e)" by (auto simp: plain_field_def wf_field_def)
  then obtain nm ty where "(nm, he_id e, ty) \<in> set HeadersAttrs" "he_name e = nm" using attr_exists header_name_attr by metis
  thus ?thesis using known_names_token False by auto
qed (simp add: plain_field_def)

lemma lookup_rest: "httpHeaderIdByName (name @ rest) (int (length name)) Headers HDR_ENUM_END = httpHeaderIdByName name (int (length name)) Headers HDR_ENUM_END"
  using id_loop_find [of name rest] id_loop_find [of name "[]"] by (simp add: httpHeaderIdByName_def)

lemma plain_lookup:
  assumes "plain_field e"
  shows "(case httpHeaderIdByName (he_name e @ rest) (int (length (he_name e))) Headers HDR_ENUM_END of None \<Rightarrow> HDR_OTHER | Some k \<Rightarrow> k) = he_id e"
proof (cases "he_id e = HDR_OTHER")
  case True
  hence "unknown_name (he_name e)" using assms by (simp add: plain_field_def)
  thus ?thesis using True by (simp add: lookup_rest unknown_name_def httpHeaderIdByNameDef_def)
next
  case False
  thus ?thesis using assms id_by_name_known [of "he_id e" "he_name e" rest] by (simp add: plain_field_def wf_field_def)
qed

lemma parse_value_text: "text_value v \<Longrightarrow> parse_value (CHR '' '' # v) = v"
proof (cases v rule: rev_cases)
  case (snoc w c)
  moreover assume "text_value v"
  ultimately have "\<not> isspace_c (hd v)" "\<not> isspace_c c" "v \<noteq> []" by (auto simp: text_value_def)
  moreover have "isspace_c CHR '' ''" by (simp add: isspace_c_def)
  moreover have "dropWhile isspace_c v = v" using calculation(1,3) by (cases v) auto
  ultimately show ?thesis using snoc by (simp add: parse_value_def rtrim_def)
qed (simp add: parse_value_def rtrim_def isspace_c_def)

lemma token_chars:
  assumes "token_name s"
  shows "CHR 0x0A \<notin> set s" "CHR 0x0D \<notin> set s" "CHR '' '' \<notin> set s" "CHR 0x09 \<notin> set s" "s \<noteq> []"
proof -
  have "isspace_c CHR 0x0A" "isspace_c CHR 0x0D" "isspace_c CHR '' ''" "isspace_c CHR 0x09" by (simp_all add: isspace_c_def)
  thus "CHR 0x0A \<notin> set s" "CHR 0x0D \<notin> set s" "CHR '' '' \<notin> set s" "CHR 0x09 \<notin> set s" "s \<noteq> []"
    using assms unfolding token_name_def by blast+
qed

lemma parse_plain_entry:
  assumes "plain_field e"
  shows "httpHeaderEntryParseCreate relaxed (he_name e @ '': '' @ he_value e) = Inr (Some e)"
proof -
  let ?n = "he_name e" let ?f = "he_name e @ '': '' @ he_value e"
  have tok: "?n \<noteq> []" "CHR '':'' \<notin> set ?n" "\<not> isspace_c (last ?n)" using plain_name [OF assms] by (auto simp: token_name_def)
  have wf: "he_id e < HDR_ENUM_END" "he_id e \<noteq> HDR_OTHER \<Longrightarrow> he_name e = header_name (he_id e)" "length ?n < str_limit" "length (he_value e) < str_limit"
    using assms by (simp_all add: plain_field_def wf_field_def)
  have i: "index_of CHR '':'' ?f = Some (length ?n)" using index_of_append [OF tok(2)] by simp
  have "?f ! (length ?n - 1) = last ?n" using tok(1) by (simp add: nth_append last_conv_nth)
  hence nm: "(if relaxed \<and> isspace_c (?f ! (length ?n - 1)) then rtrim (take (length ?n) ?f) else take (length ?n) ?f) = ?n" using tok(3) by simp
  have v: "parse_value (drop (length ?n + 1) ?f) = he_value e" using assms by (simp add: parse_value_text plain_field_def)
  show ?thesis
    unfolding httpHeaderEntryParseCreate_def i option.case Let_def nm plain_lookup [OF assms] v
    using tok(1) wf by (auto simp: str_make_def str_limit_def)
qed

lemma parse_plain_step:
  assumes "plain_field e" "rest = [] \<or> hd rest \<noteq> CHR '' '' \<and> hd rest \<noteq> CHR 0x09"
    and "wf_header h" "one_length (added h e)"
  shows "parse_fields relaxed h (httpHeaderEntryPackInto e @ rest) = parse_fields relaxed (added h e) rest"
proof -
  let ?l = "he_name e @ '': '' @ he_value e"
  have tok: "token_name (he_name e)" by (rule plain_name [OF assms(1)])
  have "text_value (he_value e)" using assms(1) by (simp add: plain_field_def)
  hence chars: "CHR 0x0A \<notin> set ?l" "CHR 0x0D \<notin> set ?l" using token_chars [OF tok] by (auto simp: text_value_def)
  have rf: "read_field relaxed [] (?l @ CRLF @ rest) = Some (?l, rest)" by (rule read_field_plain [OF chars assms(2)])
  have w: "\<not> stringHasWhitespace (he_name e)" using token_chars [OF tok] by (auto simp: stringHasWhitespace_def list_ex_iff w_space_def)
  have cl: "content_length_action relaxed h e = Inr (AddField h)" if "he_id e = HDR_CONTENT_LENGTH"
  proof -
    have "filter (\<lambda>e. he_id e = HDR_CONTENT_LENGTH) (header_list h) = []" "fst (httpHeaderParseSize (he_value e))"
      using assms(4) that by (auto simp: one_length_def)
    moreover have "HDR_CONTENT_LENGTH < HDR_ENUM_END" by (simp add: hdr_ids)
    hence "httpHeaderFindEntry h (he_id e) = Inr (find (\<lambda>e. he_id e = HDR_CONTENT_LENGTH) (header_list h))"
      unfolding that using find_entry [OF assms(3) _ list_mask_members(4)] by simp
    moreover have "find (\<lambda>e. he_id e = HDR_CONTENT_LENGTH) (header_list h) = None" using calculation(1) by (simp add: find_None_iff filter_empty_conv)
    ultimately show ?thesis by (simp add: content_length_action_def case_prod_beta)
  qed
  have "field_decision relaxed h e = Inr (AddField h)" using w cl by (simp add: field_decision_def)
  moreover have "httpHeaderAddEntry h e = Inr (added h e)" using assms(1) by (intro add_entry) (simp add: plain_field_def)
  moreover have "httpHeaderEntryPackInto e @ rest = ?l @ CRLF @ rest" by (simp add: httpHeaderEntryPackInto_def)
  ultimately show ?thesis using rf parse_plain_entry [OF assms(1), of relaxed] by (subst parse_fields.simps) (simp add: CRLF_def)
qed

lemma one_length_prefix: "one_length (fold (\<lambda>e h. added h e) es h) \<Longrightarrow> one_length h"
  by (simp add: one_length_def fold_added_list)

lemma parse_packed:
  "\<forall>e \<in> set es. plain_field e \<Longrightarrow> wf_header h \<Longrightarrow> one_length (fold (\<lambda>e h. added h e) es h) \<Longrightarrow> tail = [] \<or> tail = CRLF \<Longrightarrow>
   parse_fields relaxed h (concat (map httpHeaderEntryPackInto es) @ tail) = Inr (True, fold (\<lambda>e h. added h e) es h)"
proof (induction es arbitrary: h)
  case Nil
  have "read_field relaxed [] CRLF = Some ([], [])" using read_field_plain [of "[]" "[]"] by simp
  thus ?case using Nil.prems(4) by (subst parse_fields.simps) (auto simp: CRLF_def)
next
  case (Cons e es)
  let ?rest = "concat (map httpHeaderEntryPackInto es) @ tail"
  have "?rest = [] \<or> hd ?rest \<noteq> CHR '' '' \<and> hd ?rest \<noteq> CHR 0x09"
  proof (cases es)
    case (Cons f fs)
    hence "token_name (he_name f)" using Cons.prems(1) by (intro plain_name) simp
    hence "hd (he_name f) \<in> set (he_name f)" "CHR '' '' \<notin> set (he_name f)" "CHR 0x09 \<notin> set (he_name f)" "he_name f \<noteq> []"
      by (simp_all add: token_chars)
    hence "hd (he_name f) \<noteq> CHR '' ''" "hd (he_name f) \<noteq> CHR 0x09" "he_name f \<noteq> []" by metis+
    thus ?thesis unfolding Cons by (simp add: httpHeaderEntryPackInto_def)
  qed (use Cons.prems(4) in \<open>auto simp: CRLF_def\<close>)
  moreover have "wf_header (added h e)" using Cons.prems(1,2) by (simp add: added_wf plain_field_def)
  ultimately show ?case
    using parse_plain_step [of e ?rest h relaxed] Cons.IH [of "added h e"] Cons.prems one_length_prefix [of es "added h e"] by simp
qed

lemma parse_header_good:
  assumes "wf_header hdr" "one_length hdr"
  shows "\<exists>ok hdr'. httpHeaderParse relaxed hdr buf = Inr (ok, hdr') \<and> wf_header hdr' \<and> one_length hdr' \<and> (\<not> ok \<longrightarrow> header_list hdr' = [])"
  using reset_header [OF assms(1)] parse_fields_good [OF assms, of relaxed buf] by (auto simp: httpHeaderParse_def)

lemma pack_parse_header:
  assumes "wf_header hdr" "one_length hdr" "\<forall>e \<in> set (header_list hdr). plain_field e" "tail = [] \<or> tail = CRLF"
    and "httpHeaderInit (hd_owner hdr) = Inr fresh"
  shows "\<exists>text hdr'. httpHeaderPackInto hdr = Inr text \<and> int (length text) = hd_len hdr \<and>
    httpHeaderParse relaxed fresh (text @ tail) = Inr (True, hdr') \<and> header_list hdr' = header_list hdr \<and> wf_header hdr'"
proof -
  let ?t = "concat (map httpHeaderEntryPackInto (header_list hdr))" let ?h = "fold (\<lambda>e h. added h e) (header_list hdr) fresh"
  have fresh: "wf_header fresh" "header_list fresh = []" using assms(1,5) empty_header [of "hd_owner hdr"] by (auto simp: wf_header_def)
  have list: "header_list ?h = header_list hdr" by (simp add: fold_added_list fresh(2))
  have "one_length ?h" using assms(2) by (simp add: one_length_def list)
  hence p: "parse_fields relaxed fresh (?t @ tail) = Inr (True, ?h)" by (intro parse_packed assms(3,4) fresh(1))
  have nul: "NUL \<notin> set (httpHeaderEntryPackInto e)" if "plain_field e" for e
    using plain_name [OF that] that by (auto simp: httpHeaderEntryPackInto_def CRLF_def token_name_def plain_field_def text_value_def)
  have "NUL \<notin> set (?t @ tail)" using nul assms(3,4) by (auto simp: CRLF_def)
  moreover have "wf_header ?h" using assms(1) fresh(1) by (intro fold_added_wf) (auto simp: wf_header_def)
  ultimately show ?thesis using p list pack_header [of hdr] length_pack_entries [of "header_list hdr"] assms(1) by (simp add: httpHeaderParse_def wf_header_def)
qed

section \<open>Properties\<close>

text \<open>
  C6. Parsing any text into a header, in strict or relaxed mode, ends and fails no assertion. The header
  satisfies its invariant afterwards: the mask says which fields are present, the length is that of the
  packed header, known fields have their names; the header is empty if the text is refused. At most one
  field states the length of the content, and its value is a number, whatever the text has.
\<close>

theorem header_parse_safe:
  assumes "wf_header hdr" "one_length hdr"
  shows "\<exists>ok hdr'. httpHeaderParse relaxed hdr buf = Inr (ok, hdr') \<and> wf_header hdr' \<and> one_length hdr' \<and> (\<not> ok \<longrightarrow> header_list hdr' = [])"
  using assms by (rule parse_header_good)

text \<open>A header with one field of each kind.\<close>

definition sample_header :: HttpHeader where
  "sample_header = fold (\<lambda>e h. added h e)
     [\<lparr>he_id = HDR_CONTENT_LENGTH, he_name = ''Content-Length'', he_value = ''5''\<rparr>, \<lparr>he_id = HDR_OTHER, he_name = ''X-Id'', he_value = ''a b''\<rparr>]
     \<lparr>hd_entries = [], hd_mask = {}, hd_owner = hoReply, hd_len = 0\<rparr>"

lemma empty_good: "wf_header \<lparr>hd_entries = [], hd_mask = {}, hd_owner = hoReply, hd_len = 0\<rparr>" "one_length \<lparr>hd_entries = [], hd_mask = {}, hd_owner = hoReply, hd_len = 0\<rparr>"
  by (simp_all add: wf_header_def one_length_def header_list_def)

theorem header_parse_safe_witness:
  "\<exists>ok hdr'. httpHeaderParse True \<lparr>hd_entries = [], hd_mask = {}, hd_owner = hoReply, hd_len = 0\<rparr> ''Content-Length: 5'' = Inr (ok, hdr') \<and>
     wf_header hdr' \<and> one_length hdr' \<and> (\<not> ok \<longrightarrow> header_list hdr' = [])"
  by (rule header_parse_safe [OF empty_good])

text \<open>
  C12. Headers round trip: packing a header gives a text of the length the header states, and parsing this
  text, alone or with the empty line that ends a header, in both modes, gives a header with the same
  entries. The values are texts without line breaks and without white space at their ends, the names of
  extension fields are tokens other than the known names, and there is at most one content length.
\<close>

theorem header_round_trip:
  assumes "wf_header hdr" "one_length hdr" "\<forall>e \<in> set (header_list hdr). plain_field e" "tail = [] \<or> tail = CRLF"
    and "httpHeaderInit (hd_owner hdr) = Inr fresh"
  shows "\<exists>text hdr'. httpHeaderPackInto hdr = Inr text \<and> int (length text) = hd_len hdr \<and>
    httpHeaderParse relaxed fresh (text @ tail) = Inr (True, hdr') \<and> header_list hdr' = header_list hdr"
  using pack_parse_header [OF assms] by blast

lemma sample_header_list: "header_list sample_header =
   [\<lparr>he_id = HDR_CONTENT_LENGTH, he_name = ''Content-Length'', he_value = ''5''\<rparr>, \<lparr>he_id = HDR_OTHER, he_name = ''X-Id'', he_value = ''a b''\<rparr>]"
  by (simp add: sample_header_def header_list_def added_def)

lemma content_length_name: "header_name HDR_CONTENT_LENGTH = ''Content-Length''"
  using header_name_attr [of "''Content-Length''" HDR_CONTENT_LENGTH ftSize] by (simp add: HeadersAttrs_def)

lemma sample_header_good: "wf_header sample_header" "one_length sample_header"
proof -
  have f: "wf_field \<lparr>he_id = HDR_CONTENT_LENGTH, he_name = ''Content-Length'', he_value = ''5''\<rparr>" "wf_field \<lparr>he_id = HDR_OTHER, he_name = ''X-Id'', he_value = ''a b''\<rparr>"
    by (simp_all add: wf_field_def content_length_name str_limit_def)
      (simp_all add: hdr_ids)
  show "wf_header sample_header" unfolding sample_header_def using f empty_good(1) by (intro fold_added_wf) simp_all
  have "HDR_OTHER \<noteq> HDR_CONTENT_LENGTH" by (simp add: hdr_ids)
  thus "one_length sample_header"
    by (simp add: one_length_def sample_header_list httpHeaderParseSize_def strtoll_def isspace_c_def isdigit_c_def digits_val_def int64_ok_def)
qed

lemma x_id_unknown: "unknown_name ''X-Id''"
  unfolding unknown_name_def httpHeaderIdByNameDef_def
proof (rule ccontr)
  assume "httpHeaderIdByName ''X-Id'' (int (length ''X-Id'')) Headers HDR_ENUM_END \<noteq> None"
  then obtain i where "i < HDR_ENUM_END" "map toupper ''X-Id'' = map toupper (header_name i)"
    using id_by_name_Some [of "''X-Id''" "[]"] by auto
  then obtain nm ty where "(nm, i, ty) \<in> set HeadersAttrs" "map toupper ''X-Id'' = map toupper nm" using attr_exists header_name_attr by metis
  thus False unfolding HeadersAttrs_def by (auto simp: toupper_table)
qed

theorem header_round_trip_witness:
  "\<exists>text hdr'. httpHeaderPackInto sample_header = Inr text \<and> int (length text) = hd_len sample_header \<and>
    httpHeaderParse False \<lparr>hd_entries = [], hd_mask = {}, hd_owner = hoReply, hd_len = 0\<rparr> (text @ CRLF) = Inr (True, hdr') \<and> header_list hdr' = header_list sample_header"
proof (rule header_round_trip [OF sample_header_good])
  have "hd_owner sample_header = hoReply" by (simp add: sample_header_def)
  thus "httpHeaderInit (hd_owner sample_header) = Inr \<lparr>hd_entries = [], hd_mask = {}, hd_owner = hoReply, hd_len = 0\<rparr>"
    by (simp add: httpHeaderInit_def httpHeaderMaskInit_def)
  show "\<forall>e \<in> set (header_list sample_header). plain_field e"
    using sample_header_good(1) x_id_unknown
    by (simp add: sample_header_list plain_field_def wf_header_def text_value_def token_name_def isspace_c_def HDR_CONTENT_LENGTH_def HDR_OTHER_def)
qed simp

text \<open>
  C11. Updating a stored header from a fresh one: every fresh entry that is not denied replaces the old
  entries of the same field, by identifier or, for extension fields, by name; the other old entries stay in
  their order and the fresh ones follow in theirs. The result has no holes and satisfies the invariant.
\<close>

theorem header_update_replaces:
  assumes "wf_header old" "wf_header fresh"
  shows "\<exists>h. httpHeaderUpdate old fresh m = Inr h \<and> wf_header h \<and> hd_entries h = map Some (header_list h) \<and>
    header_list h = filter (\<lambda>e. \<not> (\<exists>f \<in> set (filter (\<lambda>f. \<not> denied m f) (header_list fresh)). replaces f e)) (header_list old) @ filter (\<lambda>f. \<not> denied m f) (header_list fresh)"
  using update_list [OF assms(1), of fresh m] assms(2) by (auto simp: wf_header_def)

theorem header_update_replaces_witness:
  "\<exists>h. httpHeaderUpdate sample_header sample_header None = Inr h \<and> wf_header h \<and> hd_entries h = map Some (header_list h) \<and>
    header_list h = filter (\<lambda>e. \<not> (\<exists>f \<in> set (filter (\<lambda>f. \<not> denied None f) (header_list sample_header)). replaces f e)) (header_list sample_header) @
      filter (\<lambda>f. \<not> denied None f) (header_list sample_header)"
  by (rule header_update_replaces [OF sample_header_good(1) sample_header_good(1)])

end
