(* ===== verification/HttpHdrCc.thy ===== *)
theory HttpHdrCc
  imports Http_Header_Table
begin

text \<open>
  The \<^verbatim>\<open>Cache-Control\<close> header, \<^verbatim>\<open>src/HttpHdrCc.c\<close>: parsing, packing and joining of its directives. The mask is the
  set of directives that are present. What is packed is parsed back, but for \<^verbatim>\<open>stale-if-error\<close>, whose value is
  not written.
\<close>

section \<open>Directives\<close>

named_theorems cc_ids \<open>the values of the enumeration of cache directives\<close>

definition CC_PUBLIC :: nat where [cc_ids]: "CC_PUBLIC = 0"
definition CC_PRIVATE :: nat where [cc_ids]: "CC_PRIVATE = 1"
definition CC_NO_CACHE :: nat where [cc_ids]: "CC_NO_CACHE = 2"
definition CC_NO_STORE :: nat where [cc_ids]: "CC_NO_STORE = 3"
definition CC_NO_TRANSFORM :: nat where [cc_ids]: "CC_NO_TRANSFORM = 4"
definition CC_MUST_REVALIDATE :: nat where [cc_ids]: "CC_MUST_REVALIDATE = 5"
definition CC_PROXY_REVALIDATE :: nat where [cc_ids]: "CC_PROXY_REVALIDATE = 6"
definition CC_MAX_AGE :: nat where [cc_ids]: "CC_MAX_AGE = 7"
definition CC_S_MAXAGE :: nat where [cc_ids]: "CC_S_MAXAGE = 8"
definition CC_MAX_STALE :: nat where [cc_ids]: "CC_MAX_STALE = 9"
definition CC_ONLY_IF_CACHED :: nat where [cc_ids]: "CC_ONLY_IF_CACHED = 10"
definition CC_STALE_WHILE_REVALIDATE :: nat where [cc_ids]: "CC_STALE_WHILE_REVALIDATE = 11"
definition CC_STALE_IF_ERROR :: nat where [cc_ids]: "CC_STALE_IF_ERROR = 12"
definition CC_OTHER :: nat where [cc_ids]: "CC_OTHER = 13"
definition CC_ENUM_END :: nat where [cc_ids]: "CC_ENUM_END = 14"

definition CcAttrs :: "field_attrs list" where
  "CcAttrs = [
     (''public'', CC_PUBLIC, 0), (''private'', CC_PRIVATE, 0), (''no-cache'', CC_NO_CACHE, 0), (''no-store'', CC_NO_STORE, 0),
     (''no-transform'', CC_NO_TRANSFORM, 0), (''must-revalidate'', CC_MUST_REVALIDATE, 0), (''proxy-revalidate'', CC_PROXY_REVALIDATE, 0),
     (''only-if-cached'', CC_ONLY_IF_CACHED, 0), (''max-age'', CC_MAX_AGE, 0), (''s-maxage'', CC_S_MAXAGE, 0), (''max-stale'', CC_MAX_STALE, 0),
     (''stale-while-revalidate'', CC_STALE_WHILE_REVALIDATE, 0), (''stale-if-error'', CC_STALE_IF_ERROR, 0), (''Other,'', CC_OTHER, 0)]"

definition CcFieldsInfo :: "HttpHeaderFieldInfo list" where
  "CcFieldsInfo = (case httpHeaderBuildFieldsInfo CcAttrs CC_ENUM_END of Inl _ \<Rightarrow> [] | Inr t \<Rightarrow> t)"

record cc_header =
  ch_mask :: "nat set"
  ch_max_age :: int
  ch_s_maxage :: int
  ch_max_stale :: int
  ch_stale_while_revalidate :: int
  ch_stale_if_error :: int
  ch_other :: string

text \<open>The object is allocated with zeros. The last assignment subtracts one from the zero of \<^verbatim>\<open>stale_if_error\<close>.\<close>

definition httpHdrCcCreate :: cc_header where
  "httpHdrCcCreate =
     (let stale_if_error = 0
      in \<lparr>ch_mask = {}, ch_max_age = stale_if_error - 1, ch_s_maxage = stale_if_error - 1, ch_max_stale = stale_if_error - 1,
          ch_stale_while_revalidate = 0, ch_stale_if_error = stale_if_error, ch_other = []\<rparr>)"

section \<open>Parsing\<close>

text \<open>A value that is behind the equals sign, if there is one: whether it is a number, and the number or -1.\<close>

definition cc_int :: "string option \<Rightarrow> bool \<times> int" where
  "cc_int p = (case p of None \<Rightarrow> (False, - 1) | Some s \<Rightarrow> (let (ok, v) = httpHeaderParseInt s in if ok then (True, v) else (False, - 1)))"

definition set_bit_if :: "bool \<Rightarrow> nat \<Rightarrow> cc_header \<Rightarrow> cc_header" where
  "set_bit_if ok type cc = cc\<lparr>ch_mask := (if ok then insert type (ch_mask cc) else ch_mask cc - {type})\<rparr>"

text \<open>The body of the loop of \<^verbatim>\<open>httpHdrCcParseInit\<close>, for an item and its length.\<close>

definition cc_step :: "string \<times> nat \<Rightarrow> cc_header \<Rightarrow> cc_header res" where
  "cc_step = (\<lambda>(item, ilen) cc.
     let eq = (if CHR ''='' \<in> set (take ilen item) then Some (length (takeWhile (\<lambda>c. c \<noteq> CHR ''='') item)) else None);
         nlen = (case eq of None \<Rightarrow> ilen | Some k \<Rightarrow> k);
         p = map_option (\<lambda>k. drop (k + 1) item) eq;
         type = (case httpHeaderIdByName item (int nlen) CcFieldsInfo CC_ENUM_END of None \<Rightarrow> CC_OTHER | Some t \<Rightarrow> t)
     in if type \<in> ch_mask cc then Inr cc
        else if type = CC_MAX_AGE then (let (ok, v) = cc_int p in Inr (set_bit_if ok type (cc\<lparr>ch_max_age := v\<rparr>)))
        else if type = CC_S_MAXAGE then (let (ok, v) = cc_int p in Inr (set_bit_if ok type (cc\<lparr>ch_s_maxage := v\<rparr>)))
        else if type = CC_MAX_STALE then (let (ok, v) = cc_int p in Inr (set_bit_if (p = None \<or> ok) type (cc\<lparr>ch_max_stale := v\<rparr>)))
        else if type = CC_STALE_WHILE_REVALIDATE then (let (ok, v) = cc_int p in Inr (set_bit_if ok type (cc\<lparr>ch_stale_while_revalidate := v\<rparr>)))
        else if type = CC_STALE_IF_ERROR then (let (ok, v) = cc_int p in Inr (set_bit_if ok type (cc\<lparr>ch_stale_if_error := v\<rparr>)))
        else if type = CC_OTHER then
          res_bind (if ch_other cc \<noteq> [] then str_append (ch_other cc) '', '' else Inr (ch_other cc)) (\<lambda>s.
            res_bind (str_append s (take ilen item)) (\<lambda>s. Inr (set_bit_if True type (cc\<lparr>ch_other := s\<rparr>))))
        else Inr (set_bit_if True type cc))"

fun cc_items :: "(string \<times> nat) list \<Rightarrow> cc_header \<Rightarrow> cc_header res" where
  "cc_items [] cc = Inr cc"
| "cc_items (i # is) cc = res_bind (cc_step i cc) (\<lambda>cc. cc_items is cc)"

definition httpHdrCcParseInit :: "cc_header \<Rightarrow> string \<Rightarrow> (cc_header \<times> bool) res" where
  "httpHdrCcParseInit cc str = res_bind (cc_items (list_items CHR '','' str) cc) (\<lambda>cc. Inr (cc, ch_mask cc \<noteq> {}))"

definition httpHdrCcParseCreate :: "string \<Rightarrow> cc_header option res" where
  "httpHdrCcParseCreate str = res_bind (httpHdrCcParseInit httpHdrCcCreate str) (\<lambda>(cc, ok). Inr (if ok then Some cc else None))"

section \<open>Other operations\<close>

definition httpHdrCcDup :: "cc_header \<Rightarrow> cc_header" where
  "httpHdrCcDup cc =
     httpHdrCcCreate\<lparr>ch_mask := ch_mask cc, ch_max_age := ch_max_age cc, ch_s_maxage := ch_s_maxage cc, ch_max_stale := ch_max_stale cc\<rparr>"

definition cc_name :: "nat \<Rightarrow> string" where
  "cc_name flag = fi_name (CcFieldsInfo ! flag)"

text \<open>The text of one directive.\<close>

definition cc_text :: "cc_header \<Rightarrow> nat \<Rightarrow> string" where
  "cc_text cc flag = cc_name flag @
     (if flag = CC_MAX_AGE then ''='' @ show_int (ch_max_age cc) else []) @
     (if flag = CC_S_MAXAGE then ''='' @ show_int (ch_s_maxage cc) else []) @
     (if flag = CC_MAX_STALE \<and> ch_max_stale cc \<ge> 0 then ''='' @ show_int (ch_max_stale cc) else []) @
     (if flag = CC_STALE_WHILE_REVALIDATE then ''='' @ show_int (ch_stale_while_revalidate cc) else [])"

fun pack_flags :: "cc_header \<Rightarrow> nat list \<Rightarrow> nat \<Rightarrow> string \<times> nat" where
  "pack_flags cc [] pcount = ([], pcount)"
| "pack_flags cc (flag # flags) pcount =
     (if flag \<in> ch_mask cc \<and> flag \<noteq> CC_OTHER
      then let (s, n) = pack_flags cc flags (pcount + 1) in ((if pcount \<noteq> 0 then '', '' else []) @ cc_text cc flag @ s, n)
      else pack_flags cc flags pcount)"

definition httpHdrCcPackInto :: "cc_header \<Rightarrow> string" where
  "httpHdrCcPackInto cc =
     (let (s, pcount) = pack_flags cc [0..<CC_ENUM_END] 0
      in s @ (if ch_other cc \<noteq> [] then (if pcount \<noteq> 0 then '', '' else []) @ ch_other cc else []))"

definition httpHdrCcJoinWith :: "cc_header \<Rightarrow> cc_header \<Rightarrow> cc_header" where
  "httpHdrCcJoinWith cc new_cc =
     cc\<lparr>ch_max_age := (if ch_max_age cc < 0 then ch_max_age new_cc else ch_max_age cc),
        ch_s_maxage := (if ch_s_maxage cc < 0 then ch_s_maxage new_cc else ch_s_maxage cc),
        ch_max_stale := (if ch_max_stale cc < 0 then ch_max_stale new_cc else ch_max_stale cc),
        ch_mask := ch_mask cc \<union> ch_mask new_cc\<rparr>"

definition httpHdrCcSetMaxAge :: "cc_header \<Rightarrow> int \<Rightarrow> cc_header" where
  "httpHdrCcSetMaxAge cc max_age = set_bit_if (max_age \<ge> 0) CC_MAX_AGE (cc\<lparr>ch_max_age := max_age\<rparr>)"

definition httpHdrCcSetSMaxAge :: "cc_header \<Rightarrow> int \<Rightarrow> cc_header" where
  "httpHdrCcSetSMaxAge cc s_maxage = set_bit_if (s_maxage \<ge> 0) CC_S_MAXAGE (cc\<lparr>ch_s_maxage := s_maxage\<rparr>)"

section \<open>The table of directives\<close>

lemma CcFieldsInfo_built:
  "httpHeaderBuildFieldsInfo CcAttrs CC_ENUM_END = Inr CcFieldsInfo" "length CcFieldsInfo = CC_ENUM_END"
  "\<forall>(nm, i, ty) \<in> set CcAttrs. CcFieldsInfo ! i = \<lparr>fi_id = i, fi_type = ty, fi_name = nm\<rparr>"
proof -
  have "\<exists>t. build_loop CcAttrs CC_ENUM_END (replicate CC_ENUM_END \<lparr>fi_id = 0, fi_type = 0, fi_name = []\<rparr>) = Inr t \<and> length t = CC_ENUM_END \<and>
     (\<forall>(nm, i, ty) \<in> set CcAttrs. t ! i = \<lparr>fi_id = i, fi_type = ty, fi_name = nm\<rparr>) \<and>
     (\<forall>i. i \<notin> fst ` snd ` set CcAttrs \<longrightarrow> t ! i = replicate CC_ENUM_END \<lparr>fi_id = 0, fi_type = 0, fi_name = []\<rparr> ! i)"
    by (intro build_loop_ok) (simp_all add: CcAttrs_def cc_ids str_limit_def)
  moreover have "CC_ENUM_END \<noteq> 0" by (simp add: cc_ids)
  ultimately obtain t where t: "httpHeaderBuildFieldsInfo CcAttrs CC_ENUM_END = Inr t" "length t = CC_ENUM_END"
    "\<forall>(nm, i, ty) \<in> set CcAttrs. t ! i = \<lparr>fi_id = i, fi_type = ty, fi_name = nm\<rparr>" by (auto simp: httpHeaderBuildFieldsInfo_def)
  hence "CcFieldsInfo = t" by (simp add: CcFieldsInfo_def)
  with t show "httpHeaderBuildFieldsInfo CcAttrs CC_ENUM_END = Inr CcFieldsInfo" "length CcFieldsInfo = CC_ENUM_END"
    "\<forall>(nm, i, ty) \<in> set CcAttrs. CcFieldsInfo ! i = \<lparr>fi_id = i, fi_type = ty, fi_name = nm\<rparr>" by simp_all
qed

lemma CcFieldsInfo_names: "map fi_name CcFieldsInfo = [''public'', ''private'', ''no-cache'', ''no-store'', ''no-transform'', ''must-revalidate'',
    ''proxy-revalidate'', ''max-age'', ''s-maxage'', ''max-stale'', ''only-if-cached'', ''stale-while-revalidate'', ''stale-if-error'', ''Other,'']"
  (is "_ = ?ns")
proof (rule nth_equalityI)
  show "length (map fi_name CcFieldsInfo) = length ?ns" using CcFieldsInfo_built(2) by (simp add: cc_ids)
  fix i assume "i < length (map fi_name CcFieldsInfo)"
  hence "i < 14" using CcFieldsInfo_built(2) by (simp add: cc_ids)
  hence "i = 0 \<or> i = 1 \<or> i = 2 \<or> i = 3 \<or> i = 4 \<or> i = 5 \<or> i = 6 \<or> i = 7 \<or> i = 8 \<or> i = 9 \<or> i = 10 \<or> i = 11 \<or> i = 12 \<or> i = 13" by presburger
  thus "map fi_name CcFieldsInfo ! i = ?ns ! i"
    using CcFieldsInfo_built(2,3) unfolding CcAttrs_def by (auto simp: cc_ids)
qed

lemma cc_name_simps: "cc_name 0 = ''public''" "cc_name (Suc 0) = ''private''" "cc_name 2 = ''no-cache''" "cc_name 3 = ''no-store''" "cc_name 4 = ''no-transform''"
  "cc_name 5 = ''must-revalidate''" "cc_name 6 = ''proxy-revalidate''" "cc_name 7 = ''max-age''" "cc_name 8 = ''s-maxage''" "cc_name 9 = ''max-stale''"
  "cc_name 10 = ''only-if-cached''" "cc_name 11 = ''stale-while-revalidate''" "cc_name 12 = ''stale-if-error''"
  using CcFieldsInfo_names CcFieldsInfo_built(2) by (simp_all add: cc_name_def cc_ids nth_map [symmetric, of _ CcFieldsInfo fi_name])

text \<open>The names of the directives are plain items without an equals sign.\<close>

definition cc_token :: "string \<Rightarrow> bool" where
  "cc_token s \<longleftrightarrow> plain CHR '','' s \<and> CHR ''='' \<notin> set s"

lemma flag_cases: "f < CC_OTHER \<Longrightarrow> f \<in> set [0, Suc 0, 2, 3, 4, 5, 6, 7, 8, 9, 10, 11, 12]"
proof -
  assume "f < CC_OTHER"
  hence "f = 0 \<or> f = Suc 0 \<or> f = 2 \<or> f = 3 \<or> f = 4 \<or> f = 5 \<or> f = 6 \<or> f = 7 \<or> f = 8 \<or> f = 9 \<or> f = 10 \<or> f = 11 \<or> f = 12"
    unfolding CC_OTHER_def by presburger
  thus ?thesis by simp
qed

lemma cc_name_token: "f < CC_OTHER \<Longrightarrow> cc_token (cc_name f)"
proof -
  have "\<forall>f \<in> set [0, Suc 0, 2, 3, 4, 5, 6, 7, 8, 9, 10, 11, 12]. cc_token (cc_name f)"
    by (simp add: cc_name_simps cc_token_def plain_def isspace_c_def)
  thus "f < CC_OTHER \<Longrightarrow> cc_token (cc_name f)" using flag_cases by blast
qed

lemma toupper_comma: "toupper CHR '','' = CHR '',''"
  by code_simp

lemma cc_names_distinct: "distinct (map (\<lambda>f. map toupper (fi_name f)) CcFieldsInfo)"
proof -
  have "map (\<lambda>f. map toupper (fi_name f)) CcFieldsInfo = map (map toupper) (map fi_name CcFieldsInfo)" by simp
  thus ?thesis unfolding CcFieldsInfo_names by (simp add: toupper_table toupper_comma)
qed

lemma cc_lookup:
  assumes "f < CC_ENUM_END"
  shows "httpHeaderIdByName (cc_name f @ rest) (int (length (cc_name f))) CcFieldsInfo CC_ENUM_END = Some f"
proof -
  have f: "f < length CcFieldsInfo" using assms CcFieldsInfo_built(2) by simp
  have other: "map toupper (fi_name (CcFieldsInfo ! j)) \<noteq> map toupper (cc_name f)" if "j < f" for j
    using nth_eq_iff_index_eq [OF cc_names_distinct, of j f] that f by (simp add: cc_name_def)
  have "find (\<lambda>(k, i). map toupper (fi_name i) = map toupper (cc_name f)) (enumerate 0 CcFieldsInfo) = Some (f, CcFieldsInfo ! f)"
    unfolding find_Some_iff using f other by (intro exI [of _ f]) (simp add: nth_enumerate_eq cc_name_def)
  thus ?thesis by (simp add: httpHeaderIdByName_def id_loop_find CcFieldsInfo_built(2))
qed

section \<open>Parsing what was packed\<close>

text \<open>The packed text: every directive but the first has a separator in front of it.\<close>

definition tail_text :: "string list \<Rightarrow> string" where
  "tail_text ts = concat (map (\<lambda>t. '', '' @ t) ts)"

lemma tail_text_simps [simp]: "tail_text [] = []" "tail_text (t # ts) = '', '' @ t @ tail_text ts"
  by (simp_all add: tail_text_def)

lemma pack_flags_tail: "n \<noteq> 0 \<Longrightarrow> fst (pack_flags cc flags n) = tail_text (map (cc_text cc) (filter (\<lambda>f. f \<in> ch_mask cc \<and> f \<noteq> CC_OTHER) flags))"
  by (induction cc flags n rule: pack_flags.induct) (simp_all add: case_prod_beta Let_def)

lemma pack_flags_first:
  "fst (pack_flags cc flags 0) = (case map (cc_text cc) (filter (\<lambda>f. f \<in> ch_mask cc \<and> f \<noteq> CC_OTHER) flags) of [] \<Rightarrow> [] | t # ts \<Rightarrow> t @ tail_text ts)"
  by (induction flags) (simp_all add: case_prod_beta Let_def pack_flags_tail)

lemma items_step:
  assumes "plain CHR '','' t" "w = [] \<or> w = '', ''"
  shows "list_items CHR '','' (w @ t @ tail_text ts) = (t @ tail_text ts, length t) # list_items CHR '','' (tail_text ts)"
proof -
  have "tail_text ts = [] \<or> hd (tail_text ts) = CHR '','' \<or> hd (tail_text ts) = CHR '',''" by (cases ts) simp_all
  moreover have "\<forall>c \<in> set w. item_sep CHR '','' c" using assms(2) by (auto simp: item_sep_def)
  ultimately have "strListGetItem CHR '','' (w @ t @ tail_text ts) = Some (t @ tail_text ts, length t, tail_text ts)"
    using assms(1) by (intro strListGetItem_plain) simp_all
  thus ?thesis by (rule list_items_step(2))
qed

text \<open>Values that can be written and read.\<close>

definition cc_value_ok :: "int \<Rightarrow> bool" where
  "cc_value_ok v \<longleftrightarrow> 0 \<le> v \<and> int32_ok v"

definition cc_values_ok :: "cc_header \<Rightarrow> bool" where
  "cc_values_ok cc \<longleftrightarrow>
     (CC_MAX_AGE \<in> ch_mask cc \<longrightarrow> cc_value_ok (ch_max_age cc)) \<and> (CC_S_MAXAGE \<in> ch_mask cc \<longrightarrow> cc_value_ok (ch_s_maxage cc)) \<and>
     (CC_MAX_STALE \<in> ch_mask cc \<longrightarrow> ch_max_stale cc = - 1 \<or> cc_value_ok (ch_max_stale cc)) \<and>
     (CC_STALE_WHILE_REVALIDATE \<in> ch_mask cc \<longrightarrow> cc_value_ok (ch_stale_while_revalidate cc))"

text \<open>What parsing the text of a directive adds to \<open>c\<close>.\<close>

definition take_flag :: "cc_header \<Rightarrow> nat \<Rightarrow> cc_header \<Rightarrow> cc_header" where
  "take_flag cc f c =
     (if f = CC_STALE_IF_ERROR then c\<lparr>ch_stale_if_error := - 1\<rparr>
      else c\<lparr>ch_mask := insert f (ch_mask c),
             ch_max_age := (if f = CC_MAX_AGE then ch_max_age cc else ch_max_age c),
             ch_s_maxage := (if f = CC_S_MAXAGE then ch_s_maxage cc else ch_s_maxage c),
             ch_max_stale := (if f = CC_MAX_STALE then ch_max_stale cc else ch_max_stale c),
             ch_stale_while_revalidate := (if f = CC_STALE_WHILE_REVALIDATE then ch_stale_while_revalidate cc else ch_stale_while_revalidate c)\<rparr>)"

lemma parse_int_show: "cc_value_ok v \<Longrightarrow> t = [] \<or> hd t = CHR '','' \<Longrightarrow> httpHeaderParseInt (show_int v @ t) = (True, v)"
proof -
  assume v: "cc_value_ok v" and t: "t = [] \<or> hd t = CHR '',''"
  have "t = [] \<or> \<not> isdigit_c (hd t)" using t by (auto simp: isdigit_c_def)
  hence "strtoll (show_int v @ t) = Some v" using v strtoll_show_nat [of t "nat v"] by (simp add: show_int_def cc_value_ok_def)
  moreover have "int64_ok v" using v by (simp add: cc_value_ok_def int32_ok_def int64_ok_def)
  ultimately show ?thesis using v by (simp add: httpHeaderParseInt_def cc_value_ok_def)
qed

text \<open>The value that the text of a directive states.\<close>

definition cc_stated :: "cc_header \<Rightarrow> nat \<Rightarrow> int option" where
  "cc_stated cc f =
     (if f = CC_MAX_AGE then Some (ch_max_age cc) else if f = CC_S_MAXAGE then Some (ch_s_maxage cc)
      else if f = CC_MAX_STALE then (if ch_max_stale cc \<ge> 0 then Some (ch_max_stale cc) else None)
      else if f = CC_STALE_WHILE_REVALIDATE then Some (ch_stale_while_revalidate cc) else None)"

lemma cc_text_stated: "cc_text cc f = cc_name f @ (case cc_stated cc f of None \<Rightarrow> [] | Some v \<Rightarrow> CHR ''='' # show_int v)"
  by (simp add: cc_text_def cc_stated_def cc_ids)

lemma cc_stated_ok: "cc_values_ok cc \<Longrightarrow> f \<in> ch_mask cc \<Longrightarrow> cc_stated cc f = Some v \<Longrightarrow> cc_value_ok v"
  by (auto simp: cc_stated_def cc_values_ok_def cc_value_ok_def split: if_splits)

lemma show_int_plain: "cc_value_ok v \<Longrightarrow> show_int v \<noteq> [] \<and> (\<forall>c \<in> set (show_int v). c \<noteq> CHR 0x22 \<and> c \<noteq> CHR '','' \<and> \<not> isspace_c c)"
  using show_nat_digits [of "nat v"] hd_digit by (auto simp: show_int_def cc_value_ok_def)

lemma cc_text_plain:
  assumes "cc_values_ok cc" "f \<in> ch_mask cc" "f < CC_OTHER"
  shows "plain CHR '','' (cc_text cc f)"
proof -
  have n: "plain CHR '','' (cc_name f)" using cc_name_token [OF assms(3)] by (simp add: cc_token_def)
  show ?thesis
  proof (cases "cc_stated cc f")
    case None
    thus ?thesis using n by (simp add: cc_text_stated)
  next
    case (Some v)
    have v: "show_int v \<noteq> []" "\<forall>c \<in> set (show_int v). c \<noteq> CHR 0x22 \<and> c \<noteq> CHR '','' \<and> \<not> isspace_c c"
      using show_int_plain cc_stated_ok [OF assms(1,2) Some] by blast+
    thus ?thesis using n last_in_set [OF v(1)] unfolding cc_text_stated Some by (auto simp: plain_def)
  qed
qed

text \<open>The type and the parameter that the loop finds in the text of a directive.\<close>

lemma cc_split:
  assumes "f < CC_OTHER" "item = cc_text cc f @ rest" "ilen = length (cc_text cc f)"
  defines "eq \<equiv> (if CHR ''='' \<in> set (take ilen item) then Some (length (takeWhile (\<lambda>c. c \<noteq> CHR ''='') item)) else None)"
  shows "(case eq of None \<Rightarrow> ilen | Some k \<Rightarrow> k) = length (cc_name f)"
    "map_option (\<lambda>k. drop (k + 1) item) eq = map_option (\<lambda>v. show_int v @ rest) (cc_stated cc f)"
proof -
  have n: "CHR ''='' \<notin> set (cc_name f)" using cc_name_token [OF assms(1)] by (simp add: cc_token_def)
  have "eq = (case cc_stated cc f of None \<Rightarrow> None | Some v \<Rightarrow> Some (length (cc_name f)))"
  proof (cases "cc_stated cc f")
    case None
    thus ?thesis using n by (simp add: eq_def assms(2,3) cc_text_stated)
  next
    case (Some v)
    have "takeWhile (\<lambda>c. c \<noteq> CHR ''='') item = cc_name f"
      unfolding assms(2) cc_text_stated Some using n by (subst append_assoc) (subst takeWhile_append2; auto)
    moreover have "CHR ''='' \<in> set (take ilen item)" unfolding assms(2,3) cc_text_stated Some by simp
    ultimately show ?thesis using Some by (simp add: eq_def)
  qed
  thus "(case eq of None \<Rightarrow> ilen | Some k \<Rightarrow> k) = length (cc_name f)"
    "map_option (\<lambda>k. drop (k + 1) item) eq = map_option (\<lambda>v. show_int v @ rest) (cc_stated cc f)"
    by (auto simp: assms(2,3) cc_text_stated split: option.split)
qed

lemma cc_step_text:
  assumes "cc_values_ok cc" "f \<in> ch_mask cc" "f < CC_OTHER" "f \<notin> ch_mask c" "rest = [] \<or> hd rest = CHR '',''"
  shows "cc_step (cc_text cc f @ rest, length (cc_text cc f)) c = Inr (take_flag cc f c)"
proof -
  let ?p = "map_option (\<lambda>v. show_int v @ rest) (cc_stated cc f)"
  have "f < CC_ENUM_END" using assms(3) by (simp add: cc_ids)
  hence ty: "httpHeaderIdByName (cc_text cc f @ rest) (int (length (cc_name f))) CcFieldsInfo CC_ENUM_END = Some f"
    unfolding cc_text_stated append_assoc by (rule cc_lookup)
  have p: "cc_int ?p = (case cc_stated cc f of None \<Rightarrow> (False, - 1) | Some v \<Rightarrow> (True, v))"
    using cc_stated_ok [OF assms(1,2)] parse_int_show [OF _ assms(5)] by (simp add: cc_int_def split: option.split)
  have ms: "f = CC_MAX_STALE \<Longrightarrow> ch_max_stale cc = - 1 \<or> 0 \<le> ch_max_stale cc" using assms(1,2) by (auto simp: cc_values_ok_def cc_value_ok_def)
  have "cc_step (cc_text cc f @ rest, length (cc_text cc f)) c =
     (if f = CC_MAX_AGE then (let (ok, v) = cc_int ?p in Inr (set_bit_if ok f (c\<lparr>ch_max_age := v\<rparr>)))
      else if f = CC_S_MAXAGE then (let (ok, v) = cc_int ?p in Inr (set_bit_if ok f (c\<lparr>ch_s_maxage := v\<rparr>)))
      else if f = CC_MAX_STALE then (let (ok, v) = cc_int ?p in Inr (set_bit_if (?p = None \<or> ok) f (c\<lparr>ch_max_stale := v\<rparr>)))
      else if f = CC_STALE_WHILE_REVALIDATE then (let (ok, v) = cc_int ?p in Inr (set_bit_if ok f (c\<lparr>ch_stale_while_revalidate := v\<rparr>)))
      else if f = CC_STALE_IF_ERROR then (let (ok, v) = cc_int ?p in Inr (set_bit_if ok f (c\<lparr>ch_stale_if_error := v\<rparr>)))
      else Inr (set_bit_if True f c))"
    using assms(3,4) unfolding cc_step_def case_prod_conv Let_def cc_split [OF assms(3) refl refl, of cc rest] ty option.case by (simp add: cc_ids)
  also have "\<dots> = Inr (take_flag cc f c)"
    using assms(4) ms unfolding p by (auto simp: take_flag_def set_bit_if_def cc_stated_def cc_ids)
  finally show ?thesis .
qed

lemma cc_items_text:
  "cc_values_ok cc \<Longrightarrow> set fs \<subseteq> ch_mask cc \<Longrightarrow> \<forall>f \<in> set fs. f < CC_OTHER \<and> f \<notin> ch_mask c \<Longrightarrow> distinct fs \<Longrightarrow>
   cc_items (list_items CHR '','' (tail_text (map (cc_text cc) fs))) c = Inr (fold (take_flag cc) fs c)"
proof (induction fs arbitrary: c)
  case Nil
  show ?case by (simp add: list_items_step(1))
next
  case (Cons f fs)
  let ?t = "tail_text (map (cc_text cc) fs)"
  have f: "f \<in> ch_mask cc" "f < CC_OTHER" "f \<notin> ch_mask c" using Cons.prems by simp_all
  have "?t = [] \<or> hd ?t = CHR '',''" by (cases fs) simp_all
  hence step: "cc_step (cc_text cc f @ ?t, length (cc_text cc f)) c = Inr (take_flag cc f c)" by (rule cc_step_text [OF Cons.prems(1) f])
  have "\<forall>g \<in> set fs. g < CC_OTHER \<and> g \<notin> ch_mask (take_flag cc f c)" using Cons.prems(3,4) by (auto simp: take_flag_def)
  hence "cc_items (list_items CHR '','' ?t) (take_flag cc f c) = Inr (fold (take_flag cc) fs (take_flag cc f c))"
    using Cons.prems by (intro Cons.IH) simp_all
  thus ?case using step items_step [OF cc_text_plain [OF Cons.prems(1) f(1,2)], of "'', ''" "map (cc_text cc) fs"] by simp
qed

lemma cc_items_packed:
  assumes "cc_values_ok cc" "set fs \<subseteq> ch_mask cc" "\<forall>f \<in> set fs. f < CC_OTHER \<and> f \<notin> ch_mask c" "distinct fs"
  shows "cc_items (list_items CHR '','' (case map (cc_text cc) fs of [] \<Rightarrow> [] | t # ts \<Rightarrow> t @ tail_text ts)) c = Inr (fold (take_flag cc) fs c)"
proof (cases fs)
  case Nil
  thus ?thesis by (simp add: list_items_step(1))
next
  case (Cons f gs)
  have "list_items CHR '','' (cc_text cc f @ tail_text (map (cc_text cc) gs)) = list_items CHR '','' (tail_text (map (cc_text cc) fs))"
    using items_step [OF cc_text_plain [OF assms(1)], of f "[]" "map (cc_text cc) gs"] items_step [OF cc_text_plain [OF assms(1)], of f "'', ''" "map (cc_text cc) gs"] assms(2,3)
    by (simp add: Cons)
  thus ?thesis using cc_items_text [OF assms] by (simp add: Cons)
qed

lemma fold_take_flag:
  "fold (take_flag cc) fs c = c\<lparr>ch_mask := ch_mask c \<union> (set fs - {CC_STALE_IF_ERROR}),
     ch_max_age := (if CC_MAX_AGE \<in> set fs then ch_max_age cc else ch_max_age c),
     ch_s_maxage := (if CC_S_MAXAGE \<in> set fs then ch_s_maxage cc else ch_s_maxage c),
     ch_max_stale := (if CC_MAX_STALE \<in> set fs then ch_max_stale cc else ch_max_stale c),
     ch_stale_while_revalidate := (if CC_STALE_WHILE_REVALIDATE \<in> set fs then ch_stale_while_revalidate cc else ch_stale_while_revalidate c),
     ch_stale_if_error := (if CC_STALE_IF_ERROR \<in> set fs then - 1 else ch_stale_if_error c)\<rparr>"
proof (induction fs arbitrary: c)
  case (Cons f fs)
  show ?case unfolding fold.simps o_apply Cons.IH by (rule cc_header.equality) (auto simp: take_flag_def cc_ids)
qed simp

text \<open>The values of the directives that are not present are those of a new object.\<close>

definition cc_normal :: "cc_header \<Rightarrow> bool" where
  "cc_normal cc \<longleftrightarrow> cc_values_ok cc \<and> (\<forall>f \<in> ch_mask cc. f < CC_OTHER) \<and> ch_other cc = [] \<and>
     (CC_MAX_AGE \<notin> ch_mask cc \<longrightarrow> ch_max_age cc = - 1) \<and> (CC_S_MAXAGE \<notin> ch_mask cc \<longrightarrow> ch_s_maxage cc = - 1) \<and>
     (CC_MAX_STALE \<notin> ch_mask cc \<longrightarrow> ch_max_stale cc = - 1) \<and> (CC_STALE_WHILE_REVALIDATE \<notin> ch_mask cc \<longrightarrow> ch_stale_while_revalidate cc = 0) \<and>
     (CC_STALE_IF_ERROR \<notin> ch_mask cc \<longrightarrow> ch_stale_if_error cc = 0)"

lemma cc_parse_pack:
  assumes "cc_normal cc" "ch_mask cc - {CC_STALE_IF_ERROR} \<noteq> {}"
  shows "httpHdrCcParseCreate (httpHdrCcPackInto cc) =
    Inr (Some (if CC_STALE_IF_ERROR \<in> ch_mask cc then cc\<lparr>ch_mask := ch_mask cc - {CC_STALE_IF_ERROR}, ch_stale_if_error := - 1\<rparr> else cc))"
proof -
  let ?fs = "filter (\<lambda>f. f \<in> ch_mask cc \<and> f \<noteq> CC_OTHER) [0..<CC_ENUM_END]"
  have fs: "set ?fs = ch_mask cc" "distinct ?fs" using assms(1) by (auto simp: cc_normal_def cc_ids)
  have "httpHdrCcPackInto cc = (case map (cc_text cc) ?fs of [] \<Rightarrow> [] | t # ts \<Rightarrow> t @ tail_text ts)"
    using assms(1) pack_flags_first [of cc "[0..<CC_ENUM_END]"] by (simp add: httpHdrCcPackInto_def cc_normal_def case_prod_beta Let_def)
  moreover have "\<forall>f \<in> set ?fs. f < CC_OTHER \<and> f \<notin> ch_mask httpHdrCcCreate" using assms(1) fs(1) by (auto simp: cc_normal_def httpHdrCcCreate_def)
  ultimately have "cc_items (list_items CHR '','' (httpHdrCcPackInto cc)) httpHdrCcCreate = Inr (fold (take_flag cc) ?fs httpHdrCcCreate)"
    using cc_items_packed [of cc ?fs httpHdrCcCreate] assms(1) fs by (simp add: cc_normal_def)
  moreover have "fold (take_flag cc) ?fs httpHdrCcCreate =
      (if CC_STALE_IF_ERROR \<in> ch_mask cc then cc\<lparr>ch_mask := ch_mask cc - {CC_STALE_IF_ERROR}, ch_stale_if_error := - 1\<rparr> else cc)" (is "?a = ?b")
    using assms(1) unfolding fold_take_flag fs(1) by (intro cc_header.equality) (simp_all add: httpHdrCcCreate_def cc_normal_def)
  moreover have "ch_mask ?b \<noteq> {}" using assms(2) by auto
  ultimately show ?thesis by (simp add: httpHdrCcParseCreate_def httpHdrCcParseInit_def)
qed

text \<open>
  Cache directives round trip, but for one: what \<^const>\<open>httpHdrCcPackInto\<close> writes is read back by
  \<^const>\<open>httpHdrCcParseCreate\<close> with the same directives and values, except that \<^verbatim>\<open>stale-if-error\<close> is written without its
  value, so that the reader drops it.
\<close>

theorem cache_control_round_trip:
  assumes "cc_normal cc" "ch_mask cc - {CC_STALE_IF_ERROR} \<noteq> {}"
  shows "httpHdrCcParseCreate (httpHdrCcPackInto cc) =
    Inr (Some (if CC_STALE_IF_ERROR \<in> ch_mask cc then cc\<lparr>ch_mask := ch_mask cc - {CC_STALE_IF_ERROR}, ch_stale_if_error := - 1\<rparr> else cc))"
  by (rule cc_parse_pack [OF assms])

theorem cache_control_round_trip_witness:
  "httpHdrCcParseCreate (httpHdrCcPackInto (httpHdrCcSetMaxAge httpHdrCcCreate 60)) = Inr (Some (httpHdrCcSetMaxAge httpHdrCcCreate 60))"
proof -
  have "cc_normal (httpHdrCcSetMaxAge httpHdrCcCreate 60)"
    by (simp add: cc_normal_def cc_values_ok_def cc_value_ok_def int32_ok_def httpHdrCcSetMaxAge_def set_bit_if_def httpHdrCcCreate_def cc_ids)
  moreover have "CC_STALE_IF_ERROR \<notin> ch_mask (httpHdrCcSetMaxAge httpHdrCcCreate 60)" "ch_mask (httpHdrCcSetMaxAge httpHdrCcCreate 60) \<noteq> {}"
    by (simp_all add: httpHdrCcSetMaxAge_def set_bit_if_def httpHdrCcCreate_def cc_ids)
  ultimately show ?thesis using cache_control_round_trip [of "httpHdrCcSetMaxAge httpHdrCcCreate 60"] by simp
qed

end
