(* ===== verification/Rfc1123.thy ===== *)
theory Rfc1123
  imports Header_Tools "HOL-Library.Signed_Division"
begin

text \<open>
  Dates in headers, \<^verbatim>\<open>lib/rfc1123.c\<close>: printing a time and parsing the three formats that are in use. \<^verbatim>\<open>gmtime\<close> and
  \<^verbatim>\<open>timegm\<close> of the C library are modelled on the proleptic Gregorian calendar without leap seconds; times are
  seconds since 1970. Every time up to the year 9999 is parsed back from what is printed.
\<close>

section \<open>The calendar\<close>

record tm =
  tm_sec :: int
  tm_min :: int
  tm_hour :: int
  tm_mday :: int
  tm_mon :: int
  tm_year :: int
  tm_wday :: int

definition leap_year :: "int \<Rightarrow> bool" where
  "leap_year y \<longleftrightarrow> y mod 4 = 0 \<and> y mod 100 \<noteq> 0 \<or> y mod 400 = 0"

text \<open>Days from the start of 1970 to the start of a year.\<close>

definition days_before_year :: "int \<Rightarrow> int" where
  "days_before_year y = 365 * (y - 1970) + (y - 1) div 4 - (y - 1) div 100 + (y - 1) div 400 - 477"

definition days_in_month :: "int \<Rightarrow> nat \<Rightarrow> int" where
  "days_in_month y m = [31, if leap_year y then 29 else 28, 31, 30, 31, 30, 31, 31, 30, 31, 30, 31] ! m"

definition days_before_month :: "int \<Rightarrow> nat \<Rightarrow> int" where
  "days_before_month y m = sum_list (map (days_in_month y) [0..<m])"

lemma days_before_year_step: "days_before_year (y + 1) = days_before_year y + (if leap_year y then 366 else 365)"
proof -
  have d: "y div k = (y - 1) div k + (if y mod k = 0 then 1 else 0)" if "k > 0" for k :: int
  proof (cases "y mod k = 0")
    case True
    then obtain q where q: "y = q * k" by (metis div_mult_mod_eq add.right_neutral)
    have "(q * k - 1) div k = q - 1" using that by (intro int_div_pos_eq [where r = "k - 1"]) (simp_all add: algebra_simps)
    thus ?thesis using q that by simp
  next
    case False
    have "0 \<le> y mod k - 1" "y mod k - 1 < k" using False that pos_mod_sign [of k y] pos_mod_bound [of k y] by linarith+
    hence "(y - 1) div k = y div k" by (intro int_div_pos_eq [where r = "y mod k - 1"]) simp_all
    thus ?thesis using False by simp
  qed
  have m: "y mod 400 = 0 \<Longrightarrow> y mod 100 = 0" "y mod 100 = 0 \<Longrightarrow> y mod 4 = 0"
    using dvd_trans [of 100 400 y] dvd_trans [of 4 100 y] by (simp_all add: mod_eq_0_iff_dvd)
  define q where "q k = (y - 1) div k" for k
  define z where "z k \<longleftrightarrow> y mod k = 0" for k
  have e: "y div k = q k + of_bool (z k)" if "k > 0" for k using d [OF that] unfolding q_def z_def of_bool_def .
  have "days_before_year (y + 1) = 365 * (y - 1969) + y div 4 - y div 100 + y div 400 - 477" by (simp add: days_before_year_def)
  also have "\<dots> = 365 * (y - 1969) + (q 4 + of_bool (z 4)) - (q 100 + of_bool (z 100)) + (q 400 + of_bool (z 400)) - 477"
    unfolding e [OF zero_less_numeral] ..
  finally have n: "days_before_year (y + 1) = 365 * (y - 1969) + (q 4 + of_bool (z 4)) - (q 100 + of_bool (z 100)) + (q 400 + of_bool (z 400)) - 477" .
  have b: "days_before_year y = 365 * (y - 1970) + q 4 - q 100 + q 400 - 477" by (simp add: days_before_year_def q_def)
  have l: "leap_year y \<longleftrightarrow> z 4 \<and> \<not> z 100 \<or> z 400" by (simp add: leap_year_def z_def)
  have "z 400 \<Longrightarrow> z 100" "z 100 \<Longrightarrow> z 4" using m by (simp_all add: z_def)
  thus ?thesis unfolding n b l by (cases "z 4"; cases "z 100"; cases "z 400") simp_all
qed

text \<open>The last year that starts at or before day \<open>d\<close>, from a year that does.\<close>

function year_from :: "int \<Rightarrow> int \<Rightarrow> int" where
  "year_from d y = (if days_before_year (y + 1) \<le> d then year_from d (y + 1) else y)"
  by pat_completeness auto
termination by (relation "measure (\<lambda>(d, y). nat (d - days_before_year y))") (auto simp: days_before_year_step split: if_splits)

declare year_from.simps [simp del]

function month_from :: "int \<Rightarrow> nat \<Rightarrow> int \<Rightarrow> nat \<times> int" where
  "month_from y m r = (if m < 11 \<and> r \<ge> days_in_month y m then month_from y (m + 1) (r - days_in_month y m) else (m, r))"
  by pat_completeness auto
termination by (relation "measure (\<lambda>(y, m, r). 11 - m)") auto

declare month_from.simps [simp del]

text \<open>\<^verbatim>\<open>gmtime\<close>, and \<^verbatim>\<open>timegm\<close> for a month from 0 to 11.\<close>

definition gmtime :: "int \<Rightarrow> tm" where
  "gmtime t =
     (let d = t div 86400; s = t mod 86400; y = year_from d (1970 + min (d div 366) (d div 365)); (m, r) = month_from y 0 (d - days_before_year y)
      in \<lparr>tm_sec = s mod 60, tm_min = s div 60 mod 60, tm_hour = s div 3600, tm_mday = r + 1, tm_mon = int m, tm_year = y - 1900, tm_wday = (d + 4) mod 7\<rparr>)"

definition timegm :: "tm \<Rightarrow> int" where
  "timegm tm =
     (let y = 1900 + tm_year tm; d = days_before_year y + days_before_month y (nat (tm_mon tm)) + tm_mday tm - 1
      in ((d * 24 + tm_hour tm) * 60 + tm_min tm) * 60 + tm_sec tm)"

section \<open>Parsing\<close>

definition month_names :: "string list" where
  "month_names = [''Jan'', ''Feb'', ''Mar'', ''Apr'', ''May'', ''Jun'', ''Jul'', ''Aug'', ''Sep'', ''Oct'', ''Nov'', ''Dec'']"

text \<open>The character at a position of a string as a signed \<^verbatim>\<open>char\<close>, or its terminator.\<close>

definition char_at :: "string \<Rightarrow> nat \<Rightarrow> int" where
  "char_at s i = (if i < length s then (of_char (s ! i) + 128) mod 256 - 128 else 0)"

definition make_num :: "string \<Rightarrow> int" where
  "make_num s = (if 48 \<le> char_at s 0 \<and> char_at s 0 \<le> 57 then 10 * (char_at s 0 - 48) + char_at s 1 - 48 else char_at s 1 - 48)"

text \<open>A month of fewer than three characters is compared with its terminator and does not match.\<close>

definition make_month :: "string \<Rightarrow> nat option" where
  "make_month s =
     (if length s < 3 then None
      else map_option fst (find (\<lambda>(i, n). n = [toupper (s ! 0), tolower (s ! 1), tolower (s ! 2)]) (enumerate 0 month_names)))"

definition tmSaneValues :: "tm \<Rightarrow> bool" where
  "tmSaneValues tm \<longleftrightarrow> \<not> (tm_sec tm < 0 \<or> tm_sec tm > 59) \<and> \<not> (tm_min tm < 0 \<or> tm_min tm > 59) \<and> \<not> (tm_hour tm < 0 \<or> tm_hour tm > 23) \<and>
     \<not> (tm_mday tm < 1 \<or> tm_mday tm > 31) \<and> \<not> (tm_mon tm < 0 \<or> tm_mon tm > 11)"

text \<open>What stands behind the first occurrence of a character.\<close>

definition after_char :: "char \<Rightarrow> string \<Rightarrow> string option" where
  "after_char c s = (if c \<in> set s then Some (tl (dropWhile (\<lambda>x. x \<noteq> c) s)) else None)"

definition parse_date_elements :: "string option \<Rightarrow> string option \<Rightarrow> string option \<Rightarrow> string option \<Rightarrow> tm option" where
  "parse_date_elements day month year time =
     (case (day, month, year, time) of
        (Some d, Some mo, Some y, Some ti) \<Rightarrow>
          (case make_month mo of
             None \<Rightarrow> None
           | Some m \<Rightarrow>
               let y0 = atoi y;
                   yr = (if length y = 4 then y0 - 1900 else if y0 < 70 then y0 + 100 else if y0 > 19000 then y0 - 19000 else y0)
               in case after_char CHR '':'' ti of
                    None \<Rightarrow> None
                  | Some t1 \<Rightarrow>
                      let sec = (case after_char CHR '':'' t1 of None \<Rightarrow> 0 | Some t2 \<Rightarrow> atoi t2);
                          tm = \<lparr>tm_sec = sec, tm_min = atoi t1, tm_hour = make_num ti, tm_mday = atoi d, tm_mon = int m, tm_year = yr, tm_wday = 0\<rparr>
                      in if tmSaneValues tm then Some tm else None)
      | _ \<Rightarrow> None)"

text \<open>The tokens that \<^verbatim>\<open>strtok\<close> finds between commas and spaces.\<close>

definition date_sep :: "char \<Rightarrow> bool" where
  "date_sep c \<longleftrightarrow> c = CHR '','' \<or> c = CHR '' ''"

function date_tokens :: "string \<Rightarrow> string list" where
  "date_tokens s =
     (let t = dropWhile date_sep s
      in if t = [] then [] else takeWhile (\<lambda>c. \<not> date_sep c) t # date_tokens (dropWhile (\<lambda>c. \<not> date_sep c) t))"
  by pat_completeness auto
termination
proof (relation "measure length", goal_cases)
  case (2 s t)
  hence "\<not> date_sep (hd t)" using hd_dropWhile [of date_sep s] by simp
  hence "length (dropWhile (\<lambda>c. \<not> date_sep c) t) < length t" using 2(2) by (cases t) (auto simp: le_imp_less_Suc length_dropWhile_le)
  thus ?case using 2(1) length_dropWhile_le [of date_sep s] by simp
qed simp

declare date_tokens.simps [simp del]

record date_parts =
  dp_wday :: "string option"
  dp_day :: "string option"
  dp_month :: "string option"
  dp_year :: "string option"
  dp_time :: "string option"
  dp_zone :: "string option"

text \<open>The body of the loop; \<^const>\<open>None\<close> is the return of a null pointer.\<close>

definition date_step :: "string \<Rightarrow> date_parts \<Rightarrow> date_parts option" where
  "date_step t p =
     (if isdigit_c (hd t)
      then if dp_day p = None
           then case after_char CHR ''-'' t of
                  None \<Rightarrow> Some (p\<lparr>dp_day := Some t\<rparr>)
                | Some r \<Rightarrow>
                    (case after_char CHR ''-'' r of
                       None \<Rightarrow> None
                     | Some y \<Rightarrow>
                         Some (p\<lparr>dp_day := Some (takeWhile (\<lambda>c. c \<noteq> CHR ''-'') t), dp_month := Some (takeWhile (\<lambda>c. c \<noteq> CHR ''-'') r), dp_year := Some y\<rparr>))
           else if CHR '':'' \<in> set t then Some (p\<lparr>dp_time := Some t\<rparr>)
           else if dp_year p = None then Some (p\<lparr>dp_year := Some t\<rparr>)
           else Some p
      else if dp_wday p = None then Some (p\<lparr>dp_wday := Some t\<rparr>)
      else if dp_month p = None then Some (p\<lparr>dp_month := Some t\<rparr>)
      else if dp_zone p = None then Some (p\<lparr>dp_zone := Some t\<rparr>)
      else Some p)"

fun date_loop :: "string list \<Rightarrow> date_parts \<Rightarrow> date_parts option" where
  "date_loop [] p = Some p"
| "date_loop (t # ts) p = (case date_step t p of None \<Rightarrow> None | Some p \<Rightarrow> date_loop ts p)"

definition TIMEBUFLEN :: nat where
  "TIMEBUFLEN = 128"

definition parse_date :: "string \<Rightarrow> nat \<Rightarrow> tm option" where
  "parse_date str len =
     (let tmp = cstr (take (min len (TIMEBUFLEN - 1)) str)
      in case date_loop (date_tokens tmp) \<lparr>dp_wday = None, dp_day = None, dp_month = None, dp_year = None, dp_time = None, dp_zone = None\<rparr> of
           None \<Rightarrow> None
         | Some p \<Rightarrow> parse_date_elements (dp_day p) (dp_month p) (dp_year p) (dp_time p))"

definition parse_rfc1123 :: "string \<Rightarrow> nat \<Rightarrow> int" where
  "parse_rfc1123 str len = (case parse_date str len of None \<Rightarrow> - 1 | Some tm \<Rightarrow> timegm tm)"

section \<open>Printing\<close>

definition day_names :: "string list" where
  "day_names = [''Sun'', ''Mon'', ''Tue'', ''Wed'', ''Thu'', ''Fri'', ''Sat'']"

definition digit :: "int \<Rightarrow> char" where
  "digit n = char_of (nat (n + 48))"

definition two_digits :: "int \<Rightarrow> string" where
  "two_digits n = [digit (n div 10 mod 10), digit (n mod 10)]"

definition four_digits :: "int \<Rightarrow> string" where
  "four_digits y = [digit (y sdiv 1000 smod 10), digit (y sdiv 100 smod 10), digit (y sdiv 10 smod 10), digit (y smod 10)]"

definition short_int :: "int \<Rightarrow> int" where
  "short_int n = (n + 32768) mod 65536 - 32768"

definition mkrfc1123 :: "int \<Rightarrow> string" where
  "mkrfc1123 t =
     (let gmt = gmtime t; y = short_int (1900 + tm_year gmt)
      in day_names ! nat (tm_wday gmt) @ '', '' @ two_digits (tm_mday gmt) @ '' '' @ month_names ! nat (tm_mon gmt) @ '' '' @
         four_digits y @ '' '' @
         two_digits (tm_hour gmt) @ '':'' @ two_digits (tm_min gmt) @ '':'' @ two_digits (tm_sec gmt) @ '' GMT'')"


section \<open>The calendar is inverted\<close>

lemma year_from_brackets:
  "days_before_year y \<le> d \<Longrightarrow> days_before_year (year_from d y) \<le> d \<and> d < days_before_year (year_from d y + 1)"
proof (induction d y rule: year_from.induct)
  case (1 d y)
  thus ?case by (subst (1 2) year_from.simps) (simp del: days_before_year_step)
qed

lemma year_start: "days_before_year (1970 + min (d div 366) (d div 365)) \<le> d"
proof -
  have up: "days_before_year (1970 + int n) \<le> 366 * int n" for n
  proof (induction n)
    case 0
    show ?case by (simp add: days_before_year_def)
  next
    case (Suc n)
    thus ?case using days_before_year_step [of "1970 + int n"] by (simp add: algebra_simps split: if_splits)
  qed
  have down: "days_before_year (1970 - int n) \<le> - 365 * int n" for n
  proof (induction n)
    case 0
    show ?case by (simp add: days_before_year_def)
  next
    case (Suc n)
    thus ?case using days_before_year_step [of "1969 - int n"] by (simp add: algebra_simps split: if_splits)
  qed
  show ?thesis
  proof (cases "0 \<le> d")
    case True
    have "d div 366 \<le> d div 365" "0 \<le> d div 366" "366 * (d div 366) \<le> d" using True by (auto intro: zdiv_mono2)
    thus ?thesis using up [of "nat (d div 366)"] by (simp add: min_def)
  next
    case False
    have "d div 365 \<le> d div 366" "d div 365 < 0" "365 * (d div 365) \<le> d" using False by (auto intro: zdiv_mono2_neg)
    thus ?thesis using down [of "nat (- (d div 365))"] by (simp add: min_def)
  qed
qed

lemma days_before_month_step: "days_before_month y (Suc m) = days_before_month y m + days_in_month y m"
  by (simp add: days_before_month_def)

lemma days_of_year: "days_before_month y 11 + 31 = (if leap_year y then 366 else 365)"
  by (simp add: days_before_month_def days_in_month_def upt_rec)

lemma month_from_inverts:
  assumes "m \<le> 11" "0 \<le> r" "month_from y m r = (m', r')"
  shows "days_before_month y m' + r' = days_before_month y m + r \<and> 0 \<le> r' \<and> m' \<le> 11 \<and> (m' < 11 \<longrightarrow> r' < days_in_month y m')"
  using assms
proof (induction y m r rule: month_from.induct)
  case (1 y m r)
  show ?case
  proof (cases "m < 11 \<and> r \<ge> days_in_month y m")
    case True
    thus ?thesis using 1 by (auto simp: month_from.simps [of y m r] days_before_month_step)
  next
    case False
    thus ?thesis using 1 by (auto simp: month_from.simps [of y m r])
  qed
qed

lemma days_in_month_le:
  assumes "m \<le> 11"
  shows "days_in_month y m \<le> 31"
proof -
  let ?ms = "[31, if leap_year y then 29 else 28, 31, 30, 31, 30, 31, 31, 30, 31, 30, 31] :: int list"
  have "?ms ! m \<in> set ?ms" using assms by (intro nth_mem) simp
  thus ?thesis by (auto simp: days_in_month_def split: if_splits)
qed

lemma gmtime_inverts:
  "timegm (gmtime t) = t \<and> tmSaneValues (gmtime t) \<and> 0 \<le> tm_wday (gmtime t) \<and> tm_wday (gmtime t) < 7 \<and>
   days_before_year (1900 + tm_year (gmtime t)) \<le> t div 86400 \<and> t div 86400 < days_before_year (1901 + tm_year (gmtime t))"
proof -
  define d where "d = t div 86400"
  define s where "s = t mod 86400"
  define y where "y = year_from d (1970 + min (d div 366) (d div 365))"
  obtain m r where mr: "month_from y 0 (d - days_before_year y) = (m, r)" by fastforce
  have y: "days_before_year y \<le> d" "d < days_before_year (y + 1)" using year_from_brackets [OF year_start [of d]] by (simp_all add: y_def)
  have m: "days_before_month y m + r = d - days_before_year y" "0 \<le> r" "m \<le> 11" "m < 11 \<Longrightarrow> r < days_in_month y m"
    using month_from_inverts [OF _ _ mr] y by (auto simp: days_before_month_def)
  have r: "r \<le> 30"
  proof (cases "m < 11")
    case True
    thus ?thesis using m(4) days_in_month_le [OF m(3), of y] by simp
  next
    case False
    hence "m = 11" using m(3) by simp
    thus ?thesis using m(1) y(2) days_before_year_step [of y] days_of_year [of y] by (simp split: if_splits)
  qed
  have g: "gmtime t = \<lparr>tm_sec = s mod 60, tm_min = s div 60 mod 60, tm_hour = s div 3600, tm_mday = r + 1, tm_mon = int m, tm_year = y - 1900, tm_wday = (d + 4) mod 7\<rparr>"
    by (simp add: gmtime_def Let_def mr flip: d_def s_def y_def)
  have s: "0 \<le> s" "s < 86400" "t = d * 86400 + s" by (simp_all add: s_def d_def)
  have "s div 3600 = s div 60 div 60" using zdiv_zmult2_eq [of 60 s 60] by simp
  hence "s = (s div 3600 * 60 + s div 60 mod 60) * 60 + s mod 60" by simp
  hence "timegm (gmtime t) = t" using m(1) s(3) unfolding g by (simp add: timegm_def)
  moreover have "tmSaneValues (gmtime t)" using r m s(1,2) unfolding g tmSaneValues_def by auto
  ultimately show ?thesis using y by (simp add: g add.commute [of 1] flip: d_def)
qed

lemma days_before_year_mono: "y \<le> z \<Longrightarrow> days_before_year y \<le> days_before_year z"
proof (induction "nat (z - y)" arbitrary: z)
  case (Suc n)
  hence "days_before_year y \<le> days_before_year (z - 1)" by simp
  thus ?case using days_before_year_step [of "z - 1"] by (simp split: if_splits)
qed simp

text \<open>The years 0 to 9999, which are printed with four digits.\<close>

lemma year_in_range:
  assumes "- 62167219200 \<le> t" "t < 253402300800"
  shows "0 \<le> 1900 + tm_year (gmtime t)" "1900 + tm_year (gmtime t) \<le> 9999"
proof -
  let ?y = "1900 + tm_year (gmtime t)"
  have "days_before_year 0 = - 719528" "days_before_year 10000 = 2932897" by (simp_all add: days_before_year_def)
  moreover have "- 719528 \<le> t div 86400" "t div 86400 < 2932897" using assms by linarith+
  ultimately show "0 \<le> ?y" "?y \<le> 9999"
    using gmtime_inverts [of t] days_before_year_mono [of "?y + 1" 0] days_before_year_mono [of 10000 ?y] by fastforce+
qed

section \<open>Reading what was printed\<close>

lemma date_tokens_sep [simp]: "date_sep c \<Longrightarrow> date_tokens (c # s) = date_tokens s"
  by (subst (1 2) date_tokens.simps) simp

lemma date_tokens_Nil [simp]: "date_tokens [] = []"
  by (subst date_tokens.simps) simp

lemma date_tokens_word:
  assumes "w \<noteq> []" "list_all (\<lambda>c. \<not> date_sep c) w" "r = [] \<or> date_sep (hd r)"
  shows "date_tokens (w @ r) = w # date_tokens r"
proof -
  have "dropWhile date_sep (w @ r) = w @ r" using assms(1,2) by (cases w) auto
  moreover have "takeWhile (\<lambda>c. \<not> date_sep c) (w @ r) = w @ takeWhile (\<lambda>c. \<not> date_sep c) r"
    "dropWhile (\<lambda>c. \<not> date_sep c) (w @ r) = dropWhile (\<lambda>c. \<not> date_sep c) r"
    using assms(2) by (auto simp: list_all_iff intro: takeWhile_append2 dropWhile_append2)
  moreover have "takeWhile (\<lambda>c. \<not> date_sep c) r = []" "dropWhile (\<lambda>c. \<not> date_sep c) r = r" using assms(3) by (cases r; simp)+
  ultimately show ?thesis using assms(1) by (subst date_tokens.simps) (simp add: Let_def)
qed

lemma digit_char_digit: "0 \<le> n \<Longrightarrow> digit n = digit_char (nat n)"
  by (simp add: digit_def digit_char_def nat_add_distrib add.commute)

lemma strtoll_digits:
  assumes "ds \<noteq> []" "list_all isdigit_c ds" "r = [] \<or> \<not> isdigit_c (hd r)"
  shows "strtoll (ds @ r) = Some (int (digits_val ds))"
proof -
  obtain c cs where c: "ds = c # cs" using assms(1) by (cases ds) auto
  hence "isdigit_c c" using assms(2) by simp
  moreover have "takeWhile isdigit_c (ds @ r) = ds @ takeWhile isdigit_c r" using assms(2) by (auto simp: list_all_iff intro: takeWhile_append2)
  moreover have "takeWhile isdigit_c r = []" using assms(3) by (cases r) auto
  ultimately show ?thesis using hd_digit [of c] by (simp add: strtoll_def c)
qed

lemma atoi_digits:
  assumes "ds \<noteq> []" "list_all isdigit_c ds" "r = [] \<or> \<not> isdigit_c (hd r)" "int (digits_val ds) < 2147483648"
  shows "atoi (ds @ r) = int (digits_val ds)"
  using assms(4) by (simp add: atoi_def strtoll_digits [OF assms(1-3)] trunc32_id)

lemma two_digits_read:
  assumes "0 \<le> n" "n < 100"
  shows "list_all isdigit_c (two_digits n)" "int (digits_val (two_digits n)) = n" "two_digits n \<noteq> []" "make_num (two_digits n @ r) = n"
proof -
  have n: "0 \<le> n div 10" "n div 10 < 10" "0 \<le> n mod 10" "n mod 10 < 10" "n div 10 mod 10 = n div 10" using assms by auto
  have d: "two_digits n = [digit_char (nat (n div 10)), digit_char (nat (n mod 10))]" using n by (simp add: two_digits_def digit_char_digit)
  show "list_all isdigit_c (two_digits n)" "two_digits n \<noteq> []" using n by (simp_all add: d)
  show "int (digits_val (two_digits n)) = n" using n by (simp add: d digits_val_def)
  have c: "(of_char (digit_char (nat k)) :: int) = 48 + k" if "0 \<le> k" "k < 10" for k
    using that of_char_digit [of "nat k"] by (metis of_char_eq_iff of_nat_of_char int_nat_eq nat_less_iff of_nat_add of_nat_numeral)
  show "make_num (two_digits n @ r) = n" using n c [of "n div 10"] c [of "n mod 10"] by (simp add: d make_num_def char_at_def)
qed

lemma four_digits_read:
  assumes "0 \<le> y" "y < 10000"
  shows "list_all isdigit_c (four_digits y)" "int (digits_val (four_digits y)) = y" "length (four_digits y) = 4"
proof -
  have s: "y sdiv k = y div k" if "k > 0" for k using assms that by (cases "y = 0") (simp_all add: signed_divide_int_def)
  have r: "m smod 10 = m mod 10" if "m \<ge> 0" for m :: int using that by (cases "m = 0") (simp_all add: signed_modulo_int_def)
  have q: "y div 100 = y div 10 div 10" "y div 1000 = y div 10 div 10 div 10"
    using zdiv_zmult2_eq [of 10 y 10] zdiv_zmult2_eq [of 10 "y div 10" 10] zdiv_zmult2_eq [of 10 y 100] by simp_all
  have b: "y div 10 div 10 div 10 < 10" "0 \<le> y div 10 div 10 div 10" using assms by linarith+
  have d: "four_digits y = [digit_char (nat (y div 10 div 10 div 10)), digit_char (nat (y div 10 div 10 mod 10)), digit_char (nat (y div 10 mod 10)), digit_char (nat (y mod 10))]"
    using assms b by (simp add: four_digits_def s r q digit_char_digit)
  have m: "nat (k mod 10) < 10" for k :: int using pos_mod_bound [of 10 k] by linarith
  have "nat (y div 10 div 10 div 10) < 10" using b by linarith
  thus "list_all isdigit_c (four_digits y)" "length (four_digits y) = 4" using m by (simp_all add: d)
  have v: "int (digits_val [digit_char (nat a), digit_char (nat e), digit_char (nat f), digit_char (nat h)]) = 10 * (10 * (10 * a + e) + f) + h"
    if "0 \<le> a" "a < 10" "0 \<le> e" "e < 10" "0 \<le> f" "f < 10" "0 \<le> h" "h < 10" for a e f h
    using that by (simp add: digits_val_def)
  have "10 * (10 * (10 * (y div 10 div 10 div 10) + y div 10 div 10 mod 10) + y div 10 mod 10) + y mod 10 = y"
    by (simp only: mult_div_mod_eq)
  thus "int (digits_val (four_digits y)) = y" unfolding d
    by (subst v [OF b(2,1) pos_mod_sign pos_mod_bound pos_mod_sign pos_mod_bound pos_mod_sign pos_mod_bound]) (assumption | rule zero_less_numeral)+
qed

lemma month_name_known:
  assumes "m < 12"
  shows "make_month (month_names ! m) = Some m" "month_names ! m \<noteq> []" "list_all (\<lambda>c. \<not> date_sep c \<and> \<not> isdigit_c c \<and> c \<noteq> CHR 0x00) (month_names ! m)"
    "length (month_names ! m) = 3"
proof -
  have "\<forall>m\<in>set [0..<12]. make_month (month_names ! m) = Some m \<and> length (month_names ! m) = 3 \<and>
    list_all (\<lambda>c. \<not> date_sep c \<and> \<not> isdigit_c c \<and> c \<noteq> CHR 0x00) (month_names ! m)" by code_simp
  hence "make_month (month_names ! m) = Some m \<and> length (month_names ! m) = 3 \<and>
    list_all (\<lambda>c. \<not> date_sep c \<and> \<not> isdigit_c c \<and> c \<noteq> CHR 0x00) (month_names ! m)" using assms by simp
  thus "make_month (month_names ! m) = Some m" "month_names ! m \<noteq> []" "list_all (\<lambda>c. \<not> date_sep c \<and> \<not> isdigit_c c \<and> c \<noteq> CHR 0x00) (month_names ! m)"
    "length (month_names ! m) = 3" by auto
qed

lemma day_name_known:
  assumes "d < 7"
  shows "day_names ! d \<noteq> []" "list_all (\<lambda>c. \<not> date_sep c \<and> \<not> isdigit_c c \<and> c \<noteq> CHR 0x00) (day_names ! d)" "length (day_names ! d) = 3"
proof -
  have "\<forall>d\<in>set [0..<7]. length (day_names ! d) = 3 \<and> list_all (\<lambda>c. \<not> date_sep c \<and> \<not> isdigit_c c \<and> c \<noteq> CHR 0x00) (day_names ! d)" by code_simp
  hence "length (day_names ! d) = 3 \<and> list_all (\<lambda>c. \<not> date_sep c \<and> \<not> isdigit_c c \<and> c \<noteq> CHR 0x00) (day_names ! d)" using assms by simp
  thus "day_names ! d \<noteq> []" "list_all (\<lambda>c. \<not> date_sep c \<and> \<not> isdigit_c c \<and> c \<noteq> CHR 0x00) (day_names ! d)" "length (day_names ! d) = 3" by auto
qed

lemma digit_plain: "isdigit_c c \<Longrightarrow> \<not> date_sep c \<and> c \<noteq> CHR '':'' \<and> c \<noteq> CHR ''-'' \<and> c \<noteq> CHR 0x00"
  by (auto simp: isdigit_c_def date_sep_def)

lemma after_char_first: "list_all (\<lambda>x. x \<noteq> c) ds \<Longrightarrow> after_char c (ds @ c # r) = Some r"
  by (induction ds) (auto simp: after_char_def)

text \<open>The six words of a date in the format that is printed.\<close>

lemma date_words:
  assumes "list_all (\<lambda>c. \<not> date_sep c) w" "list_all (\<lambda>c. \<not> date_sep c) d" "list_all (\<lambda>c. \<not> date_sep c) m" "list_all (\<lambda>c. \<not> date_sep c) y"
    "list_all (\<lambda>c. \<not> date_sep c) h" "w \<noteq> []" "d \<noteq> []" "m \<noteq> []" "y \<noteq> []" "h \<noteq> []"
  shows "date_tokens (w @ '', '' @ d @ '' '' @ m @ '' '' @ y @ '' '' @ h @ '' GMT'') = [w, d, m, y, h, ''GMT'']"
proof -
  have sp: "date_sep CHR '' ''" "date_sep CHR '',''" by (simp_all add: date_sep_def)
  have g: "date_tokens ''GMT'' = [''GMT'']" using date_tokens_word [of "''GMT''" "[]"] by (simp add: date_sep_def)
  show ?thesis using sp g assms by (simp add: date_tokens_word)
qed

lemma date_loop_words:
  assumes "\<not> isdigit_c (hd w)" "isdigit_c (hd d)" "CHR ''-'' \<notin> set d" "\<not> isdigit_c (hd m)" "isdigit_c (hd y)" "CHR '':'' \<notin> set y" "isdigit_c (hd h)" "CHR '':'' \<in> set h"
  shows "date_loop [w, d, m, y, h, ''GMT''] \<lparr>dp_wday = None, dp_day = None, dp_month = None, dp_year = None, dp_time = None, dp_zone = None\<rparr>
    = Some \<lparr>dp_wday = Some w, dp_day = Some d, dp_month = Some m, dp_year = Some y, dp_time = Some h, dp_zone = Some ''GMT''\<rparr>"
  using assms by (simp add: date_step_def after_char_def isdigit_c_def [of "CHR ''G''"])

lemma parse_printed_elements:
  assumes "0 \<le> d" "d < 100" "m < 12" "0 \<le> y" "y < 10000" "0 \<le> hh" "hh < 100" "0 \<le> mm" "mm < 100" "0 \<le> ss" "ss < 100"
    and tm: "tm = \<lparr>tm_sec = ss, tm_min = mm, tm_hour = hh, tm_mday = d, tm_mon = int m, tm_year = y - 1900, tm_wday = 0\<rparr>" and "tmSaneValues tm"
  shows "parse_date_elements (Some (two_digits d)) (Some (month_names ! m)) (Some (four_digits y)) (Some (two_digits hh @ '':'' @ two_digits mm @ '':'' @ two_digits ss)) = Some tm"
proof -
  have no: "list_all (\<lambda>x. x \<noteq> CHR '':'') (two_digits n)" if "0 \<le> n" "n < 100" for n
    using two_digits_read(1) [OF that] digit_plain by (auto simp: list_all_iff)
  have a: "after_char CHR '':'' (two_digits hh @ '':'' @ two_digits mm @ '':'' @ two_digits ss) = Some (two_digits mm @ '':'' @ two_digits ss)"
    "after_char CHR '':'' (two_digits mm @ '':'' @ two_digits ss) = Some (two_digits ss)"
    using no [of hh] no [of mm] assms by (simp_all add: after_char_first)
  have at: "atoi (two_digits n @ r) = n" if "0 \<le> n" "n < 100" "r = [] \<or> \<not> isdigit_c (hd r)" for n r
    using two_digits_read [of n] that atoi_digits [of "two_digits n" r] by simp
  have ay: "atoi (four_digits y) = y" using four_digits_read [OF assms(4,5)] atoi_digits [of "four_digits y" "[]"] assms by (cases "four_digits y") auto
  have "atoi (two_digits mm @ '':'' @ two_digits ss) = mm" using at [of mm "'':'' @ two_digits ss"] assms by (simp add: isdigit_c_def)
  thus ?thesis
    using a ay at [of d "[]"] at [of ss "[]"] assms two_digits_read(4) [of hh "'':'' @ two_digits mm @ '':'' @ two_digits ss"]
    by (simp add: parse_date_elements_def month_name_known(1) four_digits_read(3) Let_def)
qed

text \<open>The words of a date.\<close>

lemma printed_ranges:
  assumes "- 62167219200 \<le> t" "t < 253402300800"
  shows "0 \<le> tm_sec (gmtime t)" "tm_sec (gmtime t) < 100" "0 \<le> tm_min (gmtime t)" "tm_min (gmtime t) < 100" "0 \<le> tm_hour (gmtime t)" "tm_hour (gmtime t) < 100"
    "0 \<le> tm_mday (gmtime t)" "tm_mday (gmtime t) < 100" "0 \<le> tm_mon (gmtime t)" "nat (tm_mon (gmtime t)) < 12" "0 \<le> 1900 + tm_year (gmtime t)" "1900 + tm_year (gmtime t) < 10000"
    "nat (tm_wday (gmtime t)) < 7"
  using gmtime_inverts [of t] year_in_range [OF assms] by (auto simp: tmSaneValues_def)

lemma printed_words:
  assumes "- 62167219200 \<le> t" "t < 253402300800"
  shows "mkrfc1123 t = day_names ! nat (tm_wday (gmtime t)) @ '', '' @ two_digits (tm_mday (gmtime t)) @ '' '' @ month_names ! nat (tm_mon (gmtime t)) @ '' '' @
    four_digits (1900 + tm_year (gmtime t)) @ '' '' @
    (two_digits (tm_hour (gmtime t)) @ '':'' @ two_digits (tm_min (gmtime t)) @ '':'' @ two_digits (tm_sec (gmtime t))) @ '' GMT''"
proof -
  have "short_int (1900 + tm_year (gmtime t)) = 1900 + tm_year (gmtime t)" using printed_ranges(11,12) [OF assms] by (simp add: short_int_def)
  thus ?thesis unfolding mkrfc1123_def Let_def by simp
qed

lemma printed_text:
  assumes "- 62167219200 \<le> t" "t < 253402300800"
  shows "length (mkrfc1123 t) = 29" "\<forall>c \<in> set (mkrfc1123 t). 32 \<le> (of_char c :: nat)" "\<not> isspace_c (hd (mkrfc1123 t))" "last (mkrfc1123 t) = CHR ''T''"
proof -
  let ?g = "gmtime t"
  have names: "\<forall>n \<in> set (day_names @ month_names). length n = 3 \<and> list_all (\<lambda>c. 33 \<le> (of_char c :: nat)) n" by code_simp
  have "length day_names = 7" "length month_names = 12" by (simp_all add: day_names_def month_names_def)
  hence w: "day_names ! nat (tm_wday ?g) \<in> set (day_names @ month_names)" "month_names ! nat (tm_mon ?g) \<in> set (day_names @ month_names)"
    using printed_ranges(10,13) [OF assms] nth_mem [of "nat (tm_wday ?g)" day_names] nth_mem [of "nat (tm_mon ?g)" month_names] by simp_all
  note n = bspec [OF names w(1)] bspec [OF names w(2)]
  note r = printed_ranges [OF assms]
  note d = two_digits_read [OF r(7,8)] two_digits_read [OF r(5,6)] two_digits_read [OF r(3,4)] two_digits_read [OF r(1,2)] four_digits_read [OF r(11,12)]
  have dd: "\<forall>c \<in> set u. 32 \<le> (of_char c :: nat)" if "list_all isdigit_c u" for u using that by (auto simp: list_all_iff isdigit_c_def)
  have nn: "\<forall>c \<in> set u. 32 \<le> (of_char c :: nat)" if "list_all (\<lambda>c. 33 \<le> (of_char c :: nat)) u" for u using that by (auto simp: list_all_iff)
  show "length (mkrfc1123 t) = 29" unfolding printed_words [OF assms] using n d(19) by (simp add: two_digits_def)
  show "\<forall>c \<in> set (mkrfc1123 t). 32 \<le> (of_char c :: nat)"
    unfolding printed_words [OF assms] set_append ball_Un using dd [OF d(1)] dd [OF d(5)] dd [OF d(9)] dd [OF d(13)] dd [OF d(17)] nn [OF conjunct2 [OF n(1)]] nn [OF conjunct2 [OF n(2)]] by simp
  obtain c cs where c: "day_names ! nat (tm_wday ?g) = c # cs" using n(1) by (cases "day_names ! nat (tm_wday ?g)") auto
  show "\<not> isspace_c (hd (mkrfc1123 t))" unfolding printed_words [OF assms] c using n(1) by (auto simp: c isspace_c_def)
  show "last (mkrfc1123 t) = CHR ''T''" unfolding printed_words [OF assms] by simp
qed

lemma parse_printed:
  assumes "- 62167219200 \<le> t" "t < 253402300800"
  shows "parse_rfc1123 (mkrfc1123 t) (length (mkrfc1123 t)) = t"
proof -
  let ?g = "gmtime t" let ?w = "day_names ! nat (tm_wday ?g)" and ?d = "two_digits (tm_mday ?g)" and ?m = "month_names ! nat (tm_mon ?g)" and ?y = "four_digits (1900 + tm_year ?g)"
  let ?h = "two_digits (tm_hour ?g) @ '':'' @ two_digits (tm_min ?g) @ '':'' @ two_digits (tm_sec ?g)"
  note r = printed_ranges [OF assms] and s = printed_words [OF assms] and p = printed_text [OF assms]
  note w = day_name_known [OF r(13)] and m = month_name_known [OF r(10)]
  note d = two_digits_read [OF r(7,8)] two_digits_read [OF r(5,6)] two_digits_read [OF r(3,4)] two_digits_read [OF r(1,2)] four_digits_read [OF r(11,12)]
  have yn: "?y \<noteq> []" using d by auto
  have "NUL \<notin> set (mkrfc1123 t)" using p(2) by auto
  hence c: "cstr (take (min (length (mkrfc1123 t)) (TIMEBUFLEN - 1)) (mkrfc1123 t)) = mkrfc1123 t" using p(1) by (simp add: TIMEBUFLEN_def cstr_id)
  have q: "list_all (\<lambda>c. \<not> date_sep c) u" if "list_all isdigit_c u" for u using that digit_plain by (auto simp: list_all_iff)
  have q': "list_all (\<lambda>c. \<not> date_sep c) ?w" "list_all (\<lambda>c. \<not> date_sep c) ?m" "\<not> date_sep CHR '':''"
    using w(2) m(3) by (simp_all add: list_all_iff date_sep_def)
  have t: "date_tokens (mkrfc1123 t) = [?w, ?d, ?m, ?y, ?h, ''GMT'']"
    unfolding s by (rule date_words) (simp_all add: q q' yn d w(1) m(2))
  have h: "isdigit_c (hd (u @ v))" if "list_all isdigit_c u" "u \<noteq> []" for u v using that by (cases u) auto
  have h': "isdigit_c (hd ?d)" "isdigit_c (hd ?y)" "\<not> isdigit_c (hd ?w)" "\<not> isdigit_c (hd ?m)" "isdigit_c (hd (two_digits (tm_hour ?g)))"
    using h [OF d(5), of "[]"] d(7) h [OF d(1), of "[]"] h [OF d(17) yn, of "[]"] d(3) w(1,2) m(2,3) by (simp_all add: list_all_iff)
  have n: "CHR ''-'' \<notin> set ?d" "CHR '':'' \<notin> set ?y" using d(1,17) digit_plain by (auto simp: list_all_iff)
  have l: "date_loop [?w, ?d, ?m, ?y, ?h, ''GMT''] \<lparr>dp_wday = None, dp_day = None, dp_month = None, dp_year = None, dp_time = None, dp_zone = None\<rparr>
    = Some \<lparr>dp_wday = Some ?w, dp_day = Some ?d, dp_month = Some ?m, dp_year = Some ?y, dp_time = Some ?h, dp_zone = Some ''GMT''\<rparr>"
    by (rule date_loop_words) (simp_all add: h h' n d)
  have g: "timegm ?g = t" "tmSaneValues ?g" using gmtime_inverts [of t] by simp_all
  have e: "parse_date_elements (Some ?d) (Some ?m) (Some ?y) (Some ?h) = Some (?g\<lparr>tm_wday := 0\<rparr>)"
    using r g(2) by (intro parse_printed_elements) (auto simp: tmSaneValues_def intro: tm.equality)
  have "timegm (?g\<lparr>tm_wday := 0\<rparr>) = t" using g(1) by (simp add: timegm_def)
  thus ?thesis unfolding parse_rfc1123_def parse_date_def Let_def c t l by (simp add: e [simplified])
qed

text \<open>
  C38. A time of the years 0 to 9999 is read back from the date that is printed for it.
\<close>
theorem date_round_trip:
  assumes "- 62167219200 \<le> t" "t < 253402300800"
  shows "parse_rfc1123 (mkrfc1123 t) (length (mkrfc1123 t)) = t"
  using assms by (rule parse_printed)

theorem date_round_trip_witness: "parse_rfc1123 (mkrfc1123 784111777) (length (mkrfc1123 784111777)) = 784111777"
  using date_round_trip [of 784111777] by simp

end
