(* ===== verification/Http_Header_Values.thy ===== *)
theory Http_Header_Values
  imports Http_Header_Correct HttpHdrCc HttpHdrContRange Base64 Rfc1123 Acl_Check
begin

text \<open>
  Typed access to header fields, \<^verbatim>\<open>httpHeaderPut...\<close> and \<^verbatim>\<open>httpHeaderGet...\<close> of \<^verbatim>\<open>src/HttpHeader.c\<close>, and the filter of
  \<^verbatim>\<open>src/HttpHeaderTools.c\<close> that removes or replaces fields by access lists. What is put is what is got. The
  filter replaces a value without adjusting the length of the header.
\<close>

section \<open>Putting\<close>

definition put_entry :: "HttpHeader \<Rightarrow> nat \<Rightarrow> string \<Rightarrow> HttpHeader res" where
  "put_entry hdr i val = res_bind (httpHeaderEntryCreate i [] val) (\<lambda>e. httpHeaderAddEntry hdr e)"

definition httpHeaderPutInt :: "HttpHeader \<Rightarrow> nat \<Rightarrow> int \<Rightarrow> HttpHeader res" where
  "httpHeaderPutInt hdr i number =
     res_bind (c_assert (i < HDR_ENUM_END)) (\<lambda>_. res_bind (c_assert (header_type i = ftInt)) (\<lambda>_.
     res_bind (c_assert (number \<ge> 0)) (\<lambda>_. put_entry hdr i (show_int number))))"

definition httpHeaderPutSize :: "HttpHeader \<Rightarrow> nat \<Rightarrow> int \<Rightarrow> HttpHeader res" where
  "httpHeaderPutSize hdr i number =
     res_bind (c_assert (i < HDR_ENUM_END)) (\<lambda>_. res_bind (c_assert (header_type i = ftSize)) (\<lambda>_.
     res_bind (c_assert (number \<ge> 0)) (\<lambda>_. put_entry hdr i (show_int number))))"

definition httpHeaderPutTime :: "HttpHeader \<Rightarrow> nat \<Rightarrow> int \<Rightarrow> HttpHeader res" where
  "httpHeaderPutTime hdr i htime =
     res_bind (c_assert (i < HDR_ENUM_END)) (\<lambda>_. res_bind (c_assert (header_type i = ftDate_1123)) (\<lambda>_.
     res_bind (c_assert (htime \<ge> 0)) (\<lambda>_. put_entry hdr i (mkrfc1123 htime))))"

definition httpHeaderInsertTime :: "HttpHeader \<Rightarrow> nat \<Rightarrow> nat \<Rightarrow> int \<Rightarrow> HttpHeader res" where
  "httpHeaderInsertTime hdr pos i htime =
     res_bind (c_assert (i < HDR_ENUM_END)) (\<lambda>_. res_bind (c_assert (header_type i = ftDate_1123)) (\<lambda>_.
     res_bind (c_assert (htime \<ge> 0)) (\<lambda>_.
     res_bind (httpHeaderEntryCreate i [] (mkrfc1123 htime)) (\<lambda>e. httpHeaderInsertEntry hdr e pos))))"

definition httpHeaderPutStr :: "HttpHeader \<Rightarrow> nat \<Rightarrow> string \<Rightarrow> HttpHeader res" where
  "httpHeaderPutStr hdr i str =
     res_bind (c_assert (i < HDR_ENUM_END)) (\<lambda>_. res_bind (c_assert (header_type i = ftStr)) (\<lambda>_. put_entry hdr i str))"

definition httpHeaderPutAuth :: "HttpHeader \<Rightarrow> string \<Rightarrow> string \<Rightarrow> HttpHeader res" where
  "httpHeaderPutAuth hdr auth_scheme realm =
     httpHeaderPutStr hdr HDR_WWW_AUTHENTICATE (auth_scheme @ '' realm='' @ [CHR 0x22] @ realm @ [CHR 0x22])"

text \<open>A field that has one val: the old ones are deleted.\<close>

definition replace_field :: "HttpHeader \<Rightarrow> nat \<Rightarrow> string \<Rightarrow> HttpHeader res" where
  "replace_field hdr i val = res_bind (httpHeaderDelById i hdr) (\<lambda>(hdr, _). put_entry hdr i val)"

definition httpHeaderPutCc :: "HttpHeader \<Rightarrow> cc_header \<Rightarrow> HttpHeader res" where
  "httpHeaderPutCc hdr cc = replace_field hdr HDR_CACHE_CONTROL (httpHdrCcPackInto cc)"

definition httpHeaderPutContRange :: "HttpHeader \<Rightarrow> HttpHdrContRange \<Rightarrow> HttpHeader res" where
  "httpHeaderPutContRange hdr cr = res_bind (httpHdrContRangePackInto cr) (\<lambda>t. replace_field hdr HDR_CONTENT_RANGE t)"

definition httpHeaderPutRange :: "HttpHeader \<Rightarrow> HttpHdrRange \<Rightarrow> HttpHeader res" where
  "httpHeaderPutRange hdr rg = res_bind (httpHdrRangePackInto rg) (\<lambda>t. replace_field hdr HDR_RANGE t)"

definition httpHeaderPutExt :: "HttpHeader \<Rightarrow> string \<Rightarrow> string \<Rightarrow> HttpHeader res" where
  "httpHeaderPutExt hdr name val = res_bind (httpHeaderEntryCreate HDR_OTHER name val) (\<lambda>e. httpHeaderAddEntry hdr e)"

definition httpHeaderAddContRange :: "HttpHeader \<Rightarrow> HttpHdrRangeSpec \<Rightarrow> int \<Rightarrow> HttpHeader res" where
  "httpHeaderAddContRange hdr spec ent_len =
     res_bind (c_assert (ent_len \<ge> 0)) (\<lambda>_.
     res_bind (httpHdrContRangeSet httpHdrContRangeCreate spec ent_len) (\<lambda>cr. httpHeaderPutContRange hdr cr))"

section \<open>Getting\<close>

definition httpHeaderGetInt :: "HttpHeader \<Rightarrow> nat \<Rightarrow> int res" where
  "httpHeaderGetInt hdr i =
     res_bind (c_assert (i < HDR_ENUM_END)) (\<lambda>_. res_bind (c_assert (header_type i = ftInt)) (\<lambda>_.
     res_bind (httpHeaderFindEntry hdr i) (\<lambda>eo. Inr (case eo of None \<Rightarrow> - 1 | Some e \<Rightarrow> snd (httpHeaderParseInt (he_value e))))))"

definition httpHeaderGetSize :: "HttpHeader \<Rightarrow> nat \<Rightarrow> int res" where
  "httpHeaderGetSize hdr i =
     res_bind (c_assert (i < HDR_ENUM_END)) (\<lambda>_. res_bind (c_assert (header_type i = ftSize)) (\<lambda>_.
     res_bind (httpHeaderFindEntry hdr i) (\<lambda>eo. Inr (case eo of None \<Rightarrow> - 1 | Some e \<Rightarrow> snd (httpHeaderParseSize (he_value e))))))"

definition httpHeaderGetTime :: "HttpHeader \<Rightarrow> nat \<Rightarrow> int res" where
  "httpHeaderGetTime hdr i =
     res_bind (c_assert (i < HDR_ENUM_END)) (\<lambda>_. res_bind (c_assert (header_type i = ftDate_1123)) (\<lambda>_.
     res_bind (httpHeaderFindEntry hdr i) (\<lambda>eo. Inr (case eo of None \<Rightarrow> - 1 | Some e \<Rightarrow> parse_rfc1123 (he_value e) (length (he_value e))))))"

record TimeOrTag =
  tt_tag :: "string option"
  tt_time :: int
  tt_valid :: bool

definition httpHeaderGetTimeOrTag :: "HttpHeader \<Rightarrow> nat \<Rightarrow> TimeOrTag res" where
  "httpHeaderGetTimeOrTag hdr i =
     res_bind (c_assert (header_type i = ftDate_1123_or_ETag)) (\<lambda>_.
     res_bind (httpHeaderFindEntry hdr i) (\<lambda>eo.
       case eo of
         None \<Rightarrow> Inr \<lparr>tt_tag = None, tt_time = - 1, tt_valid = False\<rparr>
       | Some e \<Rightarrow>
           let str = he_value e
           in if take 1 str = [CHR 0x22] \<or> take 2 str = ''W/'' then Inr \<lparr>tt_tag = Some str, tt_time = - 1, tt_valid = True\<rparr>
              else let t = parse_rfc1123 str (length str) in Inr \<lparr>tt_tag = None, tt_time = t, tt_valid = (t \<ge> 0)\<rparr>))"

definition httpHeaderGetStr :: "HttpHeader \<Rightarrow> nat \<Rightarrow> string option res" where
  "httpHeaderGetStr hdr i =
     res_bind (c_assert (i < HDR_ENUM_END)) (\<lambda>_. res_bind (c_assert (header_type i = ftStr)) (\<lambda>_.
     res_bind (httpHeaderFindEntry hdr i) (\<lambda>eo. Inr (map_option he_value eo))))"

definition httpHeaderGetLastStr :: "HttpHeader \<Rightarrow> nat \<Rightarrow> string option res" where
  "httpHeaderGetLastStr hdr i =
     res_bind (c_assert (i < HDR_ENUM_END)) (\<lambda>_. res_bind (c_assert (header_type i = ftStr)) (\<lambda>_.
     res_bind (httpHeaderFindLastEntry hdr i) (\<lambda>eo. Inr (map_option he_value eo))))"

definition httpHeaderGetCc :: "HttpHeader \<Rightarrow> cc_header option res" where
  "httpHeaderGetCc hdr =
     (if HDR_CACHE_CONTROL \<notin> hd_mask hdr then Inr None
      else res_bind (httpHeaderGetList hdr HDR_CACHE_CONTROL) (\<lambda>s. case s of None \<Rightarrow> Inr None | Some v \<Rightarrow> httpHdrCcParseCreate v))"

definition httpHeaderGetRange :: "HttpHeader \<Rightarrow> HttpHdrRange option res" where
  "httpHeaderGetRange hdr =
     res_bind (httpHeaderFindEntry hdr HDR_RANGE) (\<lambda>eo.
       case eo of
         Some e \<Rightarrow> httpHdrRangeParseCreate (he_value e)
       | None \<Rightarrow>
           res_bind (httpHeaderFindEntry hdr HDR_REQUEST_RANGE) (\<lambda>eo.
             case eo of Some e \<Rightarrow> httpHdrRangeParseCreate (he_value e) | None \<Rightarrow> Inr None))"

definition httpHeaderGetContRange :: "HttpHeader \<Rightarrow> HttpHdrContRange option res" where
  "httpHeaderGetContRange hdr =
     res_bind (httpHeaderFindEntry hdr HDR_CONTENT_RANGE) (\<lambda>eo.
       case eo of Some e \<Rightarrow> httpHdrContRangeParseCreate (he_value e) | None \<Rightarrow> Inr None)"

definition httpHeaderGetAuth :: "HttpHeader \<Rightarrow> nat \<Rightarrow> string \<Rightarrow> string option res" where
  "httpHeaderGetAuth hdr i auth_scheme =
     res_bind (httpHeaderGetStr hdr i) (\<lambda>fo.
       case fo of
         None \<Rightarrow> Inr None
       | Some field \<Rightarrow>
           let l = length auth_scheme; rest = drop l field
           in if l = 0 \<or> \<not> strncaseeq field auth_scheme l then Inr None
              else if rest = [] \<or> \<not> isspace_c (hd rest) then Inr None
              else let cookie = dropWhile isspace_c rest
                   in Inr (if cookie = [] then None else Some (base64_decode cookie)))"

section \<open>Filtering\<close>

record header_mangler =
  hm_access_list :: "acl_access list option"
  hm_replacement :: "string option"

text \<open>The configuration: one rule for each known field, and rules for extension fields by name.\<close>

record mangler_config =
  header_access :: "nat \<Rightarrow> header_mangler"
  other_access :: "(string \<times> header_mangler) list"

text \<open>Whether the field is kept, and its entry with a new value, if it is replaced.\<close>

definition httpHdrMangle :: "acl_env \<Rightarrow> mangler_config \<Rightarrow> acl_request \<Rightarrow> HttpHeaderEntry \<Rightarrow> acl_data list \<Rightarrow> (bool \<times> HttpHeaderEntry \<times> acl_data list) res" where
  "httpHdrMangle env cfg request e ac =
     (case (if he_id e = HDR_OTHER then map_option snd (find (\<lambda>(n, _). n = he_name e) (other_access cfg)) else Some (header_access cfg (he_id e))) of
        None \<Rightarrow> Inr (True, e, ac)
      | Some hm \<Rightarrow>
          (case hm_access_list hm of
             None \<Rightarrow> Inr (True, e, ac)
           | Some A \<Rightarrow>
               res_bind (aclCheckFastRequest env A request ac) (\<lambda>(allowed, ac).
                 if allowed then Inr (True, e, ac)
                 else case hm_replacement hm of
                        None \<Rightarrow> Inr (False, e, ac)
                      | Some r \<Rightarrow> res_bind (str_make r) (\<lambda>v. Inr (True, e\<lparr>he_value := v\<rparr>, ac)))))"

definition httpHdrMangleList :: "acl_env \<Rightarrow> mangler_config \<Rightarrow> acl_request \<Rightarrow> HttpHeader \<Rightarrow> acl_data list \<Rightarrow> (HttpHeader \<times> acl_data list) res" where
  "httpHdrMangleList env cfg request l ac =
     res_bind (visit l) (\<lambda>vs.
     res_bind (each (\<lambda>(p, e) (l, ac, removed).
         res_bind (httpHdrMangle env cfg request e ac) (\<lambda>(keep, e', ac).
           let l = l\<lparr>hd_entries := (hd_entries l)[nat p := Some e']\<rparr>
           in if keep then Inr (l, ac, removed)
              else res_bind (httpHeaderDelAt p l) (\<lambda>l. Inr (l, ac, removed + 1)))) vs (l, ac, 0::nat)) (\<lambda>(l, ac, removed).
       if removed \<noteq> 0 then res_bind (httpHeaderRefreshMask l) (\<lambda>l. Inr (l, ac)) else Inr (l, ac)))"

section \<open>What is put is got\<close>

lemma put_known:
  assumes "i < HDR_ENUM_END" "i \<noteq> HDR_OTHER" "length v < str_limit"
  shows "put_entry h i v = Inr (added h \<lparr>he_id = i, he_name = header_name i, he_value = v\<rparr>)" "wf_field \<lparr>he_id = i, he_name = header_name i, he_value = v\<rparr>"
proof -
  show wf: "wf_field \<lparr>he_id = i, he_name = header_name i, he_value = v\<rparr>"
    using assms header_name_plain [OF assms(1)] by (simp add: wf_field_def str_limit_def)
  show "put_entry h i v = Inr (added h \<lparr>he_id = i, he_name = header_name i, he_value = v\<rparr>)"
    using assms add_entry [OF wf] by (simp add: put_entry_def httpHeaderEntryCreate_def str_make_def)
qed

definition absent :: "nat \<Rightarrow> HttpHeader \<Rightarrow> bool" where
  "absent i h \<longleftrightarrow> (\<forall>e \<in> set (header_list h). he_id e \<noteq> i)"

lemma find_added: "absent (he_id e) h \<Longrightarrow> find (\<lambda>f. he_id f = he_id e) (header_list (added h e)) = Some e"
proof -
  have "find P (xs @ [e]) = Some e" if "\<forall>x \<in> set xs. \<not> P x" "P e" for P xs using that by (induction xs) auto
  thus "absent (he_id e) h \<Longrightarrow> find (\<lambda>f. he_id f = he_id e) (header_list (added h e)) = Some e" by (simp add: absent_def)
qed

text \<open>A field is put where there was none and looked up.\<close>

lemma put_find:
  assumes "wf_header h" "absent i h" "i < HDR_ENUM_END" "i \<noteq> HDR_OTHER" "i \<notin> ListHeadersMask" "length v < str_limit"
  shows "\<exists>h'. put_entry h i v = Inr h' \<and> wf_header h' \<and> httpHeaderFindEntry h' i = Inr (Some \<lparr>he_id = i, he_name = header_name i, he_value = v\<rparr>)"
proof -
  let ?e = "\<lparr>he_id = i, he_name = header_name i, he_value = v\<rparr>"
  have wf: "wf_header (added h ?e)" using put_known(2) [OF assms(3,4,6)] by (rule added_wf [OF assms(1)])
  have "httpHeaderFindEntry (added h ?e) i = Inr (Some ?e)"
    using find_entry [OF wf assms(3,5)] find_added [of ?e h] assms(2) by simp
  thus ?thesis using put_known(1) [OF assms(3,4,6)] wf by blast
qed

lemma deleted_absent: "absent i (deleted (\<lambda>e. he_id e = i) h)"
  by (simp add: absent_def)

lemma replace_field_eq:
  assumes "wf_header h" "i < HDR_ENUM_END" "i \<noteq> HDR_OTHER"
  shows "replace_field h i v = put_entry (deleted (\<lambda>e. he_id e = i) h) i v"
  by (simp add: replace_field_def del_by_id [OF assms])

lemma typed_not_other: "header_type i = ftInt \<or> header_type i = ftSize \<Longrightarrow> i < HDR_ENUM_END \<Longrightarrow> i \<noteq> HDR_OTHER \<and> i \<notin> ListHeadersMask"
proof -
  have "\<forall>(nm, i, ty) \<in> set HeadersAttrs. ty = ftInt \<or> ty = ftSize \<longrightarrow> i \<noteq> HDR_OTHER \<and> i \<notin> set ListHeadersArr"
    unfolding HeadersAttrs_def ListHeadersArr_def by (simp add: hdr_ids field_types)
  thus "header_type i = ftInt \<or> header_type i = ftSize \<Longrightarrow> i < HDR_ENUM_END \<Longrightarrow> i \<noteq> HDR_OTHER \<and> i \<notin> ListHeadersMask"
    using attr_exists [of i] header_name_attr unfolding list_mask_eq by fastforce
qed

lemma length_show_nat_log: "n < 10 ^ k \<Longrightarrow> k > 0 \<Longrightarrow> length (show_nat n) \<le> k"
proof (induction n arbitrary: k rule: show_nat.induct)
  case (1 n)
  show ?case
  proof (cases "n < 10")
    case False
    hence "k \<noteq> 1" using "1.prems" by auto
    then obtain j where k: "k = Suc j" "j > 0" using "1.prems"(2) by (cases k) auto
    hence "n div 10 < 10 ^ j" using "1.prems"(1) by (simp add: less_mult_imp_div_less)
    hence "length (show_nat (n div 10)) \<le> j" using "1.IH" [OF False] k(2) by blast
    thus ?thesis using False k by (subst show_nat.simps) simp
  qed (use "1.prems" in \<open>subst show_nat.simps, simp\<close>)
qed

lemma show_int_short: "0 \<le> v \<Longrightarrow> int64_ok v \<Longrightarrow> length (show_int v) < str_limit"
proof -
  assume v: "0 \<le> v" "int64_ok v"
  hence "nat v < 10 ^ 19" by (simp add: int64_ok_def nat_less_iff)
  thus ?thesis using v length_show_nat_log [of "nat v" 19] by (simp add: show_int_def str_limit_def)
qed

text \<open>
  C13. What is put into a header is what is got from it: a number put into a field that was absent is the
  number that is read, for sizes up to 64 bits; cache directives that are put replace the old ones, and
  are the ones that are read, except that \<^verbatim>\<open>stale-if-error\<close> is lost, as its value is not packed. This is for known
  directives, at least one of them other than \<^verbatim>\<open>stale-if-error\<close>, with values of at least 0 that fit an \<^verbatim>\<open>int\<close> and
  a text that fits a string; extension directives are not covered.
\<close>

theorem header_put_get:
  assumes "wf_header h" "i < HDR_ENUM_END" "header_type i = ftSize" "absent i h" "0 \<le> n" "int64_ok n"
    and "cc_normal cc" "ch_mask cc - {CC_STALE_IF_ERROR} \<noteq> {}" "length (httpHdrCcPackInto cc) + 2 < str_limit"
  shows "\<exists>h1 h2. httpHeaderPutSize h i n = Inr h1 \<and> wf_header h1 \<and> httpHeaderGetSize h1 i = Inr n \<and>
    httpHeaderPutCc h1 cc = Inr h2 \<and> wf_header h2 \<and>
    httpHeaderGetCc h2 = Inr (Some (if CC_STALE_IF_ERROR \<in> ch_mask cc
      then cc\<lparr>ch_mask := ch_mask cc - {CC_STALE_IF_ERROR}, ch_stale_if_error := - 1\<rparr> else cc))"
proof -
  let ?v = "httpHdrCcPackInto cc" let ?c = "HDR_CACHE_CONTROL"
  have i: "i \<noteq> HDR_OTHER" "i \<notin> ListHeadersMask" using typed_not_other assms(2,3) by blast+
  obtain h1 where h1: "put_entry h i (show_int n) = Inr h1" "wf_header h1"
    "httpHeaderFindEntry h1 i = Inr (Some \<lparr>he_id = i, he_name = header_name i, he_value = show_int n\<rparr>)"
    using put_find [OF assms(1,4,2) i show_int_short [OF assms(5,6)]] by blast
  have put: "httpHeaderPutSize h i n = Inr h1" "httpHeaderGetSize h1 i = Inr n"
    using h1 assms(2,3,5) parseSize_show_int [OF assms(5,6), of "[]"] by (simp_all add: httpHeaderPutSize_def httpHeaderGetSize_def)
  have c: "?c < HDR_ENUM_END" "?c \<noteq> HDR_OTHER" by (simp_all add: hdr_ids)
  let ?e = "\<lparr>he_id = ?c, he_name = header_name ?c, he_value = ?v\<rparr>" let ?d = "deleted (\<lambda>e. he_id e = ?c) h1"
  have len: "length ?v < str_limit" using assms(9) by simp
  have pc: "httpHeaderPutCc h1 cc = Inr (added ?d ?e)"
    unfolding httpHeaderPutCc_def replace_field_eq [OF h1(2) c] by (rule put_known(1) [OF c len])
  have wf: "wf_header (added ?d ?e)" by (intro added_wf deleted_wf h1(2) put_known(2) [OF c len])
  have f: "filter (\<lambda>e. he_id e = ?c) (header_list (added ?d ?e)) = [?e]" by simp
  have "httpHeaderGetList (added ?d ?e) ?c = Inr (Some ?v)"
    using get_list [OF wf list_mask_members(1)] assms(9) unfolding f by (simp add: join_value_def)
  moreover have "?c \<in> hd_mask (added ?d ?e)" by (simp add: added_def)
  ultimately have "httpHeaderGetCc (added ?d ?e) = httpHdrCcParseCreate ?v" by (simp add: httpHeaderGetCc_def)
  note got = this [unfolded cc_parse_pack [OF assms(7,8)]]
  show ?thesis using put pc wf h1(2) got by blast
qed

theorem header_put_get_witness:
  "\<exists>h1 h2. httpHeaderPutSize \<lparr>hd_entries = [], hd_mask = {}, hd_owner = hoReply, hd_len = 0\<rparr> HDR_CONTENT_LENGTH 4096 = Inr h1 \<and>
     httpHeaderGetSize h1 HDR_CONTENT_LENGTH = Inr 4096 \<and>
     httpHeaderPutCc h1 (httpHdrCcCreate\<lparr>ch_mask := {CC_PUBLIC, CC_STALE_IF_ERROR}, ch_stale_if_error := 60\<rparr>) = Inr h2 \<and>
     httpHeaderGetCc h2 = Inr (Some (httpHdrCcCreate\<lparr>ch_mask := {CC_PUBLIC}, ch_stale_if_error := - 1\<rparr>))"
proof -
  let ?cc = "httpHdrCcCreate\<lparr>ch_mask := {CC_PUBLIC, CC_STALE_IF_ERROR}, ch_stale_if_error := 60\<rparr>"
  have t: "header_type HDR_CONTENT_LENGTH = ftSize" using header_name_attr [of "''Content-Length''" HDR_CONTENT_LENGTH ftSize] by (simp add: HeadersAttrs_def)
  have i: "HDR_CONTENT_LENGTH < HDR_ENUM_END" by (simp add: hdr_ids)
  have n: "cc_normal ?cc" by (auto simp: cc_normal_def cc_values_ok_def httpHdrCcCreate_def cc_ids)
  have m: "ch_mask ?cc - {CC_STALE_IF_ERROR} = {CC_PUBLIC}" by (auto simp: cc_ids)
  have "httpHdrCcPackInto ?cc = ''public, stale-if-error''"
    using cc_name_simps by (simp add: httpHdrCcPackInto_def cc_ids upt_rec cc_text_def httpHdrCcCreate_def numeral_eq_Suc)
  hence l: "length (httpHdrCcPackInto ?cc) + 2 < str_limit" by (simp add: str_limit_def)
  have a: "absent HDR_CONTENT_LENGTH \<lparr>hd_entries = [], hd_mask = {}, hd_owner = hoReply, hd_len = 0\<rparr>" by (simp add: absent_def header_list_def)
  have "(0 :: int) \<le> 4096" "int64_ok 4096" by (simp_all add: int64_ok_def)
  from header_put_get [OF empty_good(1) i t a this n _ l] m show ?thesis by fastforce
qed

section \<open>Replacing by access lists\<close>

lemma each_append: "each f (us @ vs) s = res_bind (each f us s) (each f vs)"
  by (induction us arbitrary: s) (simp_all add: res_bind_def split: sum.split)

lemma each_skip: "(\<And>v. v \<in> set vs \<Longrightarrow> f v s = Inr s) \<Longrightarrow> each f vs s = Inr s"
  by (induction vs) simp_all

lemma slots_append: "slots_from i (xs @ ys) = slots_from i xs @ slots_from (i + length xs) ys"
  by (induction i xs rule: slots_from.induct) simp_all

lemma slots_at: "(p, f) \<in> set (slots_from i xs) \<Longrightarrow> \<exists>k < length xs. p = int (i + k) \<and> xs ! k = Some f"
proof (induction i xs rule: slots_from.induct)
  case (2 i xs)
  then obtain k where "k < length xs" "p = int (i + 1 + k)" "xs ! k = Some f" by auto
  thus ?case by (intro exI [of _ "Suc k"]) simp
next
  case (3 i e xs)
  show ?case
  proof (cases "(p, f) \<in> set (slots_from (i + 1) xs)")
    case True
    then obtain k where "k < length xs" "p = int (i + 1 + k)" "xs ! k = Some f" using 3(1) by auto
    thus ?thesis by (intro exI [of _ "Suc k"]) simp
  next
    case False
    thus ?thesis using 3(2) by (intro exI [of _ 0]) simp
  qed
qed simp

text \<open>No access list is configured for the field.\<close>

definition no_rule :: "mangler_config \<Rightarrow> HttpHeaderEntry \<Rightarrow> bool" where
  "no_rule cfg f \<longleftrightarrow>
     (if he_id f = HDR_OTHER then \<forall>x. find (\<lambda>(n, _). n = he_name f) (other_access cfg) = Some x \<longrightarrow> hm_access_list (snd x) = None
      else hm_access_list (header_access cfg (he_id f)) = None)"

lemma mangle_no_rule: "no_rule cfg f \<Longrightarrow> httpHdrMangle env cfg request f ac = Inr (True, f, ac)"
  by (auto simp: no_rule_def httpHdrMangle_def split: if_splits option.split)

text \<open>
  C39. A known field that its access list denies and that has a replacement, in a header where no other field
  has the same identifier or an access list, gets the new value, but the length of the header stays what it was: it
  differs from the length of the packed text by the difference of the values. Deleting the field
  afterwards fails the assertion of \<^const>\<open>httpHeaderDelAt\<close> exactly if the new value is longer than the old one by more
  than the size of all the other fields together; otherwise the field is removed, and the length stays wrong by
  the difference.
\<close>

theorem mangle_keeps_old_length:
  assumes "wf_header h" "hd_entries h = pre @ Some e # post" "he_id e \<noteq> HDR_OTHER"
    and others: "\<forall>f. Some f \<in> set (pre @ post) \<longrightarrow> he_id f \<noteq> he_id e \<and> no_rule cfg f"
    and rule: "header_access cfg (he_id e) = \<lparr>hm_access_list = Some A, hm_replacement = Some r\<rparr>"
      "aclCheckFastRequest env A request ac = Inr (False, ac')" "length r < str_limit"
  defines "d \<equiv> int (length r) - int (length (he_value e))"
  shows "\<exists>h' text. httpHdrMangleList env cfg request h ac = Inr (h', ac') \<and>
    hd_entries h' = pre @ Some (e\<lparr>he_value := r\<rparr>) # post \<and> hd_len h' = hd_len h \<and>
    httpHeaderPackInto h' = Inr text \<and> int (length text) = hd_len h' + d \<and>
    httpHeaderDelById (he_id e) h' =
      (if total_size (live (pre @ post)) < d then Inl AssertFailed
       else Inr (h'\<lparr>hd_entries := pre @ None # post, hd_len := total_size (live (pre @ post)) - d, hd_mask := hd_mask h' - {he_id e}\<rparr>, 1))"
proof -
  let ?e = "e\<lparr>he_value := r\<rparr>" let ?h = "h\<lparr>hd_entries := pre @ Some ?e # post\<rparr>" let ?n = "length pre"
  have wf: "hd_len h = total_size (live (pre @ post)) + entry_size e" "he_id e \<in> hd_mask h" "he_id e < HDR_ENUM_END"
    using assms(1,2) by (simp_all add: wf_header_def header_list_def wf_field_def)
  have size: "entry_size ?e = entry_size e + d" by (simp add: entry_size_def d_def)
  have slots: "slots_from 0 (pre @ Some x # post) = slots_from 0 pre @ (int ?n, x) # slots_from (?n + 1) post" for x
    by (simp add: slots_append)
  have other: "Some f \<in> set (pre @ post) \<and> (pre @ x # post) ! nat p = Some f"
    if "(p, f) \<in> set (slots_from 0 pre) \<or> (p, f) \<in> set (slots_from (?n + 1) post)" for p f x
    using that
  proof
    assume "(p, f) \<in> set (slots_from 0 pre)"
    then obtain k where "k < ?n" "p = int k" "pre ! k = Some f" using slots_at [of p f 0 pre] by auto
    thus ?thesis using nth_mem [of k pre] by (auto simp: nth_append)
  next
    assume "(p, f) \<in> set (slots_from (?n + 1) post)"
    then obtain k where k: "k < length post" "p = int (?n + 1 + k)" "post ! k = Some f" using slots_at [of p f "?n + 1" post] by auto
    have "(pre @ x # post) ! (?n + 1 + k) = Some f" using k(3) by (simp add: nth_append)
    thus ?thesis using k nth_mem [of k post] by (simp only: nat_int) auto
  qed
  define step where "step = (\<lambda>(p, e) (l, ac, removed :: nat).
     res_bind (httpHdrMangle env cfg request e ac) (\<lambda>(keep, e', ac).
       let l = l\<lparr>hd_entries := (hd_entries l)[nat p := Some e']\<rparr>
       in if keep then Inr (l, ac, removed) else res_bind (httpHeaderDelAt p l) (\<lambda>l. Inr (l, ac, removed + 1))))"
  have skip: "step (p, f) (l, a, 0) = Inr (l, a, 0)"
    if "(p, f) \<in> set (slots_from 0 pre) \<or> (p, f) \<in> set (slots_from (?n + 1) post)" "hd_entries l = pre @ x # post" for p f l a x
  proof -
    have "no_rule cfg f" "hd_entries l ! nat p = Some f" using other [OF that(1)] others that(2) by auto
    hence "httpHdrMangle env cfg request f a = Inr (True, f, a)" "(hd_entries l)[nat p := Some f] = hd_entries l"
      using mangle_no_rule list_update_id [of "hd_entries l" "nat p"] by auto
    thus ?thesis by (simp add: step_def)
  qed
  have at: "step (int ?n, e) (h, ac, 0) = Inr (?h, ac', 0)"
    using rule assms(2,3) by (simp add: step_def httpHdrMangle_def str_make_def)
  have m: "httpHdrMangleList env cfg request h ac = Inr (?h, ac')"
  proof -
    have "each step (slots_from 0 pre) (h, ac, 0) = Inr (h, ac, 0)" "each step (slots_from (?n + 1) post) (?h, ac', 0) = Inr (?h, ac', 0)"
      by (rule each_skip, use skip assms(2) in force)+
    hence "each step (slots_from 0 (hd_entries h)) (h, ac, 0) = Inr (?h, ac', 0)" using at by (simp add: assms(2) slots each_append)
    thus ?thesis by (simp add: httpHdrMangleList_def step_def)
  qed
  have pack: "httpHeaderPackInto ?h = Inr (concat (map httpHeaderEntryPackInto (live (pre @ Some ?e # post))))" using pack_header [of ?h] by (simp add: header_list_def)
  have len: "int (length (concat (map httpHeaderEntryPackInto (live (pre @ Some ?e # post))))) = hd_len ?h + d"
    unfolding length_pack_entries using wf(1) size by simp
  define del where "del = (\<lambda>(pos, e' :: HttpHeaderEntry) (hdr, count :: nat).
     if he_id e' = he_id e then res_bind (httpHeaderDelAt pos hdr) (\<lambda>hdr. Inr (hdr, count + 1)) else Inr (hdr, count))"
  have stay: "each del (slots_from 0 pre) s = Inr s" "each del (slots_from (?n + 1) post) s = Inr s" for s
    by (rule each_skip, use other others in \<open>force simp: del_def\<close>)+
  let ?h2 = "?h\<lparr>hd_entries := pre @ None # post, hd_len := total_size (live (pre @ post)) - d\<rparr>"
  have "httpHeaderDelAt (int ?n) ?h = (if total_size (live (pre @ post)) < d then Inl AssertFailed else Inr ?h2)"
    using wf(1) size by (simp add: httpHeaderDelAt_def HttpHeaderInitPos_def Let_def c_assert_def)
  hence "del (int ?n, ?e) (?h, 0) = (if total_size (live (pre @ post)) < d then Inl AssertFailed else Inr (?h2, 1))"
    by (simp add: del_def)
  hence "each del (slots_from 0 (hd_entries ?h)) (?h, 0) = (if total_size (live (pre @ post)) < d then Inl AssertFailed else Inr (?h2, 1))"
    by (simp add: slots each_append stay [simplified])
  hence "httpHeaderDelById (he_id e) ?h =
      (if total_size (live (pre @ post)) < d then Inl AssertFailed else Inr (?h2\<lparr>hd_mask := hd_mask ?h - {he_id e}\<rparr>, 1))"
    using wf(2,3) assms(3) by (simp add: httpHeaderDelById_def del_def)
  moreover have "hd_entries ?h = pre @ Some ?e # post" "hd_len ?h = hd_len h" by simp_all
  ultimately show ?thesis using m pack len by (intro exI [of _ ?h] exI [of _ "concat (map httpHeaderEntryPackInto (live (pre @ Some ?e # post)))"] conjI)
     (assumption | simp)+
qed

text \<open>A rule that denies every user agent and replaces it.\<close>

theorem mangle_keeps_old_length_witness:
  "\<exists>env cfg request h ac h' text. httpHdrMangleList env cfg request h ac = Inr (h', ac) \<and> length (header_list h) = 2 \<and> httpHeaderPackInto h' = Inr text \<and>
     int (length text) = hd_len h' + 17 \<and> httpHeaderDelById HDR_USER_AGENT h' = Inl AssertFailed"
proof -
  let ?e = "\<lparr>he_id = HDR_USER_AGENT, he_name = header_name HDR_USER_AGENT, he_value = ''x''\<rparr>"
  let ?f = "\<lparr>he_id = HDR_AGE, he_name = header_name HDR_AGE, he_value = ''1''\<rparr>"
  let ?h = "added (added \<lparr>hd_entries = [], hd_mask = {}, hd_owner = hoReply, hd_len = 0\<rparr> ?e) ?f"
  let ?A = "[\<lparr>allow = ACCESS_DENIED, line_acls = [], line_ptr = 0\<rparr>]"
  let ?cfg = "\<lparr>header_access = (\<lambda>i. if i = HDR_USER_AGENT then \<lparr>hm_access_list = Some ?A, hm_replacement = Some ''Nobody and nowhere''\<rparr>
      else \<lparr>hm_access_list = None, hm_replacement = None\<rparr>), other_access = []\<rparr>"
  have u: "HDR_USER_AGENT < HDR_ENUM_END" "HDR_USER_AGENT \<noteq> HDR_OTHER" "HDR_AGE < HDR_ENUM_END" "HDR_AGE \<noteq> HDR_OTHER" "HDR_AGE \<noteq> HDR_USER_AGENT"
    by (simp_all add: hdr_ids)
  have age: "header_name HDR_AGE = ''Age''" using header_name_attr [of "''Age''" HDR_AGE ftInt] by (simp add: HeadersAttrs_def)
  have wf: "wf_header ?h" by (intro added_wf empty_good put_known(2) u) (simp_all add: str_limit_def)
  have chk: "aclCheckFastRequest undefined ?A undefined [] = Inr (False, [])"
    by (simp add: aclCheckFastRequest_def aclCheckFast_def)
  have en: "hd_entries ?h = [] @ Some ?e # [Some ?f]" by (simp add: added_def)
  have others: "\<forall>g. Some g \<in> set ([] @ [Some ?f]) \<longrightarrow> he_id g \<noteq> he_id ?e \<and> no_rule ?cfg g" using u by (simp add: no_rule_def)
  have rl: "header_access ?cfg (he_id ?e) = \<lparr>hm_access_list = Some ?A, hm_replacement = Some ''Nobody and nowhere''\<rparr>"
    "length ''Nobody and nowhere'' < str_limit" by (simp_all add: str_limit_def)
  have "he_id ?e \<noteq> HDR_OTHER" using u by simp
  from mangle_keeps_old_length [OF wf en this others rl(1) chk rl(2)] obtain h' packed where
    "httpHdrMangleList undefined ?cfg undefined ?h [] = Inr (h', [])" "httpHeaderPackInto h' = Inr packed" "int (length packed) = hd_len h' + 17"
    "httpHeaderDelById HDR_USER_AGENT h' = Inl AssertFailed"
    by (auto simp: total_size_def entry_size_def age)
  moreover have "length (header_list ?h) = 2" unfolding header_list_def en by simp
  ultimately show ?thesis by blast
qed

end
