(* ===== verification/Http_Msg.thy ===== *)
theory Http_Msg
  imports Http_Header_Values
begin

text \<open>
  Start lines and the extent of headers, \<^verbatim>\<open>src/HttpMsg.c\<close>, \<^verbatim>\<open>headersEnd\<close> of \<^verbatim>\<open>src/mime.c\<close> and \<^verbatim>\<open>httpRequestPack\<close> of
  \<^verbatim>\<open>src/HttpRequest.c\<close>: a request that arrives in a buffer is split into its method, URL, version and header. Any
  bytes are split without an access outside the buffer, and a request that was packed is recovered. Offsets
  are exact integers: buffers are smaller than 2 GB.
\<close>

abbreviation CR :: char where "CR \<equiv> CHR 0x0D"

abbreviation LF :: char where "LF \<equiv> CHR 0x0A"

definition byte_at :: "string \<Rightarrow> nat \<Rightarrow> char res" where
  "byte_at buf i = (if i < length buf then Inr (buf ! i) else Inl OutOfBounds)"

lemma byte_at_in [simp]: "i < length buf \<Longrightarrow> byte_at buf i = Inr (buf ! i)"
  by (simp add: byte_at_def)

lemma byte_at_SomeD: "byte_at buf i = Inr c \<Longrightarrow> i < length buf \<and> c = buf ! i"
  by (simp add: byte_at_def split: if_splits)

section \<open>The end of a header\<close>

definition scan_state :: "nat \<Rightarrow> char \<Rightarrow> nat" where
  "scan_state st c =
     (if st = 0 then (if c = LF then 1 else 0)
      else if st = 1 then (if c = CR then 2 else if c = LF then 3 else 0)
      else if st = 2 then (if c = LF then 3 else 0)
      else st)"

fun headers_scan :: "string \<Rightarrow> nat \<Rightarrow> nat \<Rightarrow> nat \<times> nat" where
  "headers_scan [] e st = (e, st)"
| "headers_scan (c # s) e st = (if st < 3 then headers_scan s (e + 1) (scan_state st c) else (e, st))"

definition headersEnd :: "string \<Rightarrow> nat \<Rightarrow> nat" where
  "headersEnd mime l = (let (e, st) = headers_scan (take l mime) 0 1 in if st = 3 then e else 0)"

text \<open>
  \<^verbatim>\<open>httpMsgIsolateHeaders\<close> on a buffer and the offset of its \<^verbatim>\<open>parse_start\<close>: the new \<^verbatim>\<open>parse_start\<close> and the block of
  headers, or \<^const>\<open>None\<close> for a failure. Both loops compare bytes without looking at the ends of the buffer.
\<close>

fun back_over_cr :: "string \<Rightarrow> nat \<Rightarrow> nat res" where
  "back_over_cr buf 0 = Inl OutOfBounds"
| "back_over_cr buf (Suc b) = res_bind (byte_at buf b) (\<lambda>c. if c = CR then back_over_cr buf b else Inr (Suc b))"

function skip_empty_line :: "string \<Rightarrow> nat \<Rightarrow> nat res" where
  "skip_empty_line buf p =
     res_bind (byte_at buf p) (\<lambda>c. if c = CR then skip_empty_line buf (p + 1) else if c = LF then Inr (p + 1) else Inr p)"
  by pat_completeness auto
termination by (relation "measure (\<lambda>(buf, p). length buf - p)") (auto dest: byte_at_SomeD)

declare skip_empty_line.simps [simp del]

definition httpMsgIsolateHeaders :: "string \<Rightarrow> nat \<Rightarrow> nat \<Rightarrow> (nat \<times> nat \<times> nat) option res" where
  "httpMsgIsolateHeaders buf p l =
     (let en = headersEnd (drop p buf) l
      in if en \<noteq> 0
         then res_bind (byte_at buf (p + en - 1)) (\<lambda>c.
              res_bind (c_assert (c = LF)) (\<lambda>_.
              res_bind (back_over_cr buf (p + en - 1)) (\<lambda>b.
              res_bind (byte_at buf (b - 1)) (\<lambda>c.
              res_bind (c_assert (c = LF)) (\<lambda>_. Inr (Some (p + en, p, b)))))))
         else res_bind (byte_at buf p) (\<lambda>c.
                if c \<noteq> CR \<and> c \<noteq> LF then Inr None
                else res_bind (skip_empty_line buf p) (\<lambda>q. Inr (Some (q, p, p)))))"

section \<open>Persistence\<close>

record http_version_t =
  ver_major :: nat
  ver_minor :: nat

definition httpMsgIsPersistent :: "http_version_t \<Rightarrow> HttpHeader \<Rightarrow> bool res" where
  "httpMsgIsPersistent http_ver hdr =
     res_bind (httpHeaderHasConnDir hdr ''close'') (\<lambda>close.
       if close then Inr False
       else if ver_major http_ver \<ge> 1 \<and> ver_minor http_ver \<ge> 1 \<or> ver_major http_ver > 1 then Inr True
       else res_bind (httpHeaderGetStr hdr HDR_USER_AGENT) (\<lambda>agent.
            res_bind (case agent of
                        None \<Rightarrow> Inr False
                      | Some a \<Rightarrow> res_bind (httpHeaderHas hdr HDR_VIA) (\<lambda>via.
                          Inr (\<not> via \<and> (strncaseeq a ''Mozilla/3.'' 10 \<or> strncaseeq a ''Netscape/3.'' 11)))) (\<lambda>broken.
              if broken then Inr False else httpHeaderHasConnDir hdr ''keep-alive'')))"

section \<open>The request line\<close>

record HttpMsgBuf =
  hm_buf :: string
  hm_size :: nat
  h_start :: int
  h_end :: int
  h_len :: int
  req_start :: int
  req_end :: int
  r_len :: int
  m_start :: int
  m_end :: int
  m_len :: int
  u_start :: int
  u_end :: int
  u_len :: int
  v_start :: int
  v_end :: int
  v_len :: int
  v_maj :: int
  v_min :: int

definition HttpMsgBufInit :: "HttpMsgBuf \<Rightarrow> string \<Rightarrow> nat \<Rightarrow> HttpMsgBuf" where
  "HttpMsgBufInit h buf sz =
     h\<lparr>hm_buf := buf, hm_size := sz, req_start := - 1, req_end := - 1, h_start := - 1, h_end := - 1,
       r_len := 0, u_len := 0, m_len := 0, v_len := 0, h_len := 0\<rparr>"

text \<open>The loops \<^verbatim>\<open>for (; i < e && P(buf[i]); i++)\<close>.\<close>

function scan_chars :: "(char \<Rightarrow> bool) \<Rightarrow> string \<Rightarrow> nat \<Rightarrow> nat \<Rightarrow> nat" where
  "scan_chars P buf i e = (if i < e \<and> P (buf ! i) then scan_chars P buf (i + 1) e else i)"
  by pat_completeness auto
termination by (relation "measure (\<lambda>(P, buf, i, e). e - i)") auto

declare scan_chars.simps [simp del]

text \<open>The end of the line and the last white space before it.\<close>

function line_scan :: "string \<Rightarrow> nat \<Rightarrow> nat \<Rightarrow> int \<Rightarrow> (nat option \<times> int) res" where
  "line_scan buf i re last_whitespace =
     (if i \<le> re
      then res_bind (byte_at buf i) (\<lambda>c.
             if c = LF then Inr (Some i, last_whitespace)
             else res_bind (if c = CR then res_bind (byte_at buf (i + 1)) (\<lambda>d. Inr (d = LF)) else Inr False) (\<lambda>eol.
               if eol then Inr (Some i, last_whitespace)
               else line_scan buf (i + 1) re (if c = CHR '' '' \<or> c = CHR 0x09 then int i else last_whitespace)))
      else Inr (None, last_whitespace))"
  by pat_completeness auto
termination by (relation "measure (\<lambda>(buf, i, re, w). re + 1 - i)") auto

declare line_scan.simps [simp del]

text \<open>A number of the version, stopped when it reaches 65536.\<close>

function digits_loop :: "string \<Rightarrow> nat \<Rightarrow> nat \<Rightarrow> int \<Rightarrow> int \<times> nat" where
  "digits_loop buf i e v =
     (if i < e \<and> isdigit_c (buf ! i) \<and> v < 65536 then digits_loop buf (i + 1) e (v * 10 + (int (of_char (buf ! i)) - 48)) else (v, i))"
  by pat_completeness auto
termination by (relation "measure (\<lambda>(buf, i, e, v). e - i)") auto

declare digits_loop.simps [simp del]

definition finish :: "int \<Rightarrow> int \<Rightarrow> int \<Rightarrow> HttpMsgBuf \<Rightarrow> (int \<times> HttpMsgBuf) res" where
  "finish retcode maj mi h = Inr (retcode, h\<lparr>v_maj := maj, v_min := mi\<rparr>)"

definition line_done :: "int \<Rightarrow> int \<Rightarrow> HttpMsgBuf \<Rightarrow> (int \<times> HttpMsgBuf) res" where
  "line_done maj mi h =
     res_bind (c_assert (maj \<noteq> - 1)) (\<lambda>_. res_bind (c_assert (mi \<noteq> - 1)) (\<lambda>_.
       finish 1 maj mi (h\<lparr>u_len := u_end h - u_start h + 1\<rparr>)))"

text \<open>A line without a version.\<close>

definition simple_line :: "nat \<Rightarrow> HttpMsgBuf \<Rightarrow> (int \<times> HttpMsgBuf) res" where
  "simple_line line_end h =
     (let h = h\<lparr>u_end := int line_end - 1\<rparr>
      in res_bind (c_assert (u_end h \<ge> u_start h)) (\<lambda>_. line_done 0 9 h))"

text \<open>The version at offset \<open>i\<close>, behind the white space at \<open>lw\<close>.\<close>

definition version_line :: "nat \<Rightarrow> nat \<Rightarrow> int \<Rightarrow> HttpMsgBuf \<Rightarrow> (int \<times> HttpMsgBuf) res" where
  "version_line re i lw h =
     (let buf = hm_buf h; h = h\<lparr>v_start := int i\<rparr>; (maj, i) = digits_loop buf (i + 5) re 0
      in if i \<ge> re \<or> maj \<ge> 65536 then finish (- 1) maj (- 1) h
         else if buf ! i \<noteq> CHR ''.'' then finish 0 maj (- 1) h
         else if i + 1 \<ge> re then finish (- 1) maj (- 1) h
         else let (mi, i) = digits_loop buf (i + 1) re 0
              in if mi \<ge> 65536 then finish (- 1) maj mi h
                 else line_done maj mi (h\<lparr>v_end := int i, v_len := int i - v_start h + 1, u_end := lw - 1\<rparr>))"

definition url_line :: "nat \<Rightarrow> nat \<Rightarrow> HttpMsgBuf \<Rightarrow> (int \<times> HttpMsgBuf) res" where
  "url_line re i h =
     (let buf = hm_buf h
      in res_bind (line_scan buf i re (- 1)) (\<lambda>(le, lw).
           case le of
             None \<Rightarrow> finish (- 1) (- 1) (- 1) h
           | Some line_end \<Rightarrow>
               if lw = - 1 then simple_line line_end h
               else let i = scan_chars isspace_c buf (nat lw) (re + 1)
                    in if i > re then finish (- 1) (- 1) (- 1) h
                       else if i + 5 \<ge> re \<or> \<not> strncaseeq (drop i buf) ''HTTP/'' 5 then simple_line line_end h
                       else version_line re i lw h))"

definition httpMsgParseRequestLine :: "HttpMsgBuf \<Rightarrow> (int \<times> HttpMsgBuf) res" where
  "httpMsgParseRequestLine h =
     (let buf = hm_buf h
      in case index_of LF (take (hm_size h) buf) of
           None \<Rightarrow> finish 0 (- 1) (- 1) h
         | Some re \<Rightarrow>
             let h = h\<lparr>req_end := int re\<rparr>; i = scan_chars isspace_c buf 0 re
             in if i \<ge> re then finish 0 (- 1) (- 1) h
                else let h = h\<lparr>m_start := int i, req_start := int i, r_len := int re - int i + 1\<rparr>; j = scan_chars (\<lambda>c. \<not> isspace_c c) buf i re
                     in if j \<ge> re then finish (- 1) (- 1) (- 1) h
                        else let h = h\<lparr>m_end := int j - 1, m_len := (int j - 1) - int i + 1\<rparr>; k = scan_chars isspace_c buf j re
                             in if k \<ge> re then finish (- 1) (- 1) (- 1) h
                                else url_line re k (h\<lparr>u_start := int k\<rparr>))"

section \<open>The header of a request\<close>

fun find_scan :: "string \<Rightarrow> nat \<Rightarrow> nat \<Rightarrow> int \<Rightarrow> nat \<times> nat \<times> int" where
  "find_scan [] e st he = (e, st, he)"
| "find_scan (c # s) e st he =
     (if st < 3 then find_scan s (e + 1) (scan_state st c) (if st = 0 \<and> c = LF then int e else he) else (e, st, he))"

definition httpMsgFindHeadersEnd :: "HttpMsgBuf \<Rightarrow> nat \<times> HttpMsgBuf" where
  "httpMsgFindHeadersEnd h =
     (if v_maj h = 0 \<and> v_min h = 9 then (1, h)
      else let (e, st, he) = find_scan (take (hm_size h) (hm_buf h)) 0 1 (- 1)
           in if st = 3 then (e, h\<lparr>h_end := he, h_start := req_end h + 1, h_len := he - (req_end h + 1)\<rparr>) else (0, h))"

text \<open>A block that ends before it starts, or that is not inside the buffer, is an access outside the buffer.\<close>

definition httpMsgParseRequestHeader :: "bool \<Rightarrow> HttpHeader \<Rightarrow> HttpMsgBuf \<Rightarrow> (bool \<times> HttpHeader) res" where
  "httpMsgParseRequestHeader relaxed hdr h =
     (if 0 \<le> h_start h \<and> h_start h \<le> h_end h + 1 \<and> h_end h + 1 \<le> int (length (hm_buf h))
      then httpHeaderParse relaxed hdr (take (nat (h_end h + 1 - h_start h)) (drop (nat (h_start h)) (hm_buf h)))
      else Inl OutOfBounds)"

section \<open>Packing\<close>

definition httpRequestPack :: "string \<Rightarrow> string \<Rightarrow> http_version_t \<Rightarrow> HttpHeader \<Rightarrow> string res" where
  "httpRequestPack meth urlpath ver hdr =
     res_bind (httpHeaderPackInto hdr) (\<lambda>t.
       Inr (meth @ '' '' @ urlpath @ '' HTTP/'' @ show_nat (ver_major ver) @ ''.'' @ show_nat (ver_minor ver) @ CRLF @ t @ CRLF))"

definition httpRequestPrefixLen :: "string \<Rightarrow> string \<Rightarrow> HttpHeader \<Rightarrow> int" where
  "httpRequestPrefixLen meth urlpath hdr = int (length meth) + 1 + int (length urlpath) + 1 + 4 + 1 + 3 + 2 + hd_len hdr + 2"

section \<open>What the loops find\<close>

lemma scan_chars_finds:
  "i \<le> e \<Longrightarrow> i \<le> scan_chars P buf i e \<and> scan_chars P buf i e \<le> e \<and> (\<forall>k. i \<le> k \<and> k < scan_chars P buf i e \<longrightarrow> P (buf ! k)) \<and>
    (scan_chars P buf i e < e \<longrightarrow> \<not> P (buf ! scan_chars P buf i e))"
proof (induction P buf i e rule: scan_chars.induct)
  case (1 P buf i e)
  show ?case
  proof (cases "i < e \<and> P (buf ! i)")
    case True
    hence s: "scan_chars P buf i e = scan_chars P buf (i + 1) e" by (subst scan_chars.simps) simp
    have "k = i \<or> i + 1 \<le> k" if "i \<le> k" for k using that by auto
    thus ?thesis unfolding s using "1.IH" [OF True] True by (metis Suc_eq_plus1 Suc_leD Suc_leI)
  next
    case False
    hence "scan_chars P buf i e = i" by (subst scan_chars.simps) auto
    thus ?thesis using False "1.prems" by auto
  qed
qed

lemma line_scan_finds:
  assumes "re < length buf" "buf ! re = LF" "i \<le> re"
  shows "\<exists>le lw'. line_scan buf i re lw = Inr (Some le, lw') \<and> i \<le> le \<and> le \<le> re \<and> (buf ! le = LF \<or> buf ! le = CR) \<and>
    (lw' = lw \<or> int i \<le> lw' \<and> lw' < int le \<and> isspace_c (buf ! nat lw'))"
  using assms
proof (induction buf i re lw rule: line_scan.induct)
  case (1 buf i re lw)
  let ?c = "buf ! i"
  let ?w = "if ?c = CHR '' '' \<or> ?c = CHR 0x09 then int i else lw"
  have i: "byte_at buf i = Inr ?c" using "1.prems" by simp
  show ?case
  proof (cases "?c = LF \<or> ?c = CR \<and> buf ! (i + 1) = LF")
    case True
    have "i + 1 < length buf" if "?c = CR" using "1.prems" that by (cases "i = re") auto
    hence "line_scan buf i re lw = Inr (Some i, lw)" using True i "1.prems" by (subst line_scan.simps) auto
    thus ?thesis using True "1.prems" by auto
  next
    case False
    have l: "i < re" using False "1.prems" by (cases "i = re") auto
    hence eol: "(if ?c = CR then res_bind (byte_at buf (i + 1)) (\<lambda>d. Inr (d = LF)) else Inr False) = Inr False"
      using False "1.prems" by simp
    have s: "line_scan buf i re lw = line_scan buf (i + 1) re ?w"
      using False l i eol by (subst line_scan.simps) (simp del: byte_at_in)
    have "\<exists>le lw'. line_scan buf (i + 1) re ?w = Inr (Some le, lw') \<and> i + 1 \<le> le \<and> le \<le> re \<and> (buf ! le = LF \<or> buf ! le = CR) \<and>
        (lw' = ?w \<or> int (i + 1) \<le> lw' \<and> lw' < int le \<and> isspace_c (buf ! nat lw'))"
      using "1.IH" [of ?c False] False l i eol "1.prems" by simp
    thus ?thesis unfolding s by (fastforce simp: isspace_c_def split: if_splits)
  qed
qed

lemma digits_loop_finds:
  "0 \<le> v \<Longrightarrow> digits_loop buf i e v = (v', i') \<Longrightarrow> 0 \<le> v' \<and> i \<le> i' \<and> (i' \<le> e \<or> i' = i)"
proof (induction buf i e v rule: digits_loop.induct)
  case (1 buf i e v)
  show ?case
  proof (cases "i < e \<and> isdigit_c (buf ! i) \<and> v < 65536")
    case True
    have "0 \<le> int (of_char (buf ! i)) - 48" using True by (simp add: isdigit_c_def)
    thus ?thesis using "1.IH" [OF True] "1.prems" True by (subst (asm) (2) digits_loop.simps) fastforce
  next
    case False
    thus ?thesis using "1.prems" by (subst (asm) digits_loop.simps) auto
  qed
qed

section \<open>Any bytes\<close>

text \<open>Two states of the buffer that agree on the request line up to the start of the URL.\<close>

definition same_start :: "HttpMsgBuf \<Rightarrow> HttpMsgBuf \<Rightarrow> bool" where
  "same_start h h' \<longleftrightarrow> hm_buf h' = hm_buf h \<and> hm_size h' = hm_size h \<and> req_start h' = req_start h \<and> req_end h' = req_end h \<and>
     m_start h' = m_start h \<and> m_end h' = m_end h \<and> m_len h' = m_len h \<and> u_start h' = u_start h"

definition url_parsed :: "HttpMsgBuf \<Rightarrow> nat \<Rightarrow> int \<times> HttpMsgBuf \<Rightarrow> bool" where
  "url_parsed h re res \<longleftrightarrow> same_start h (snd res) \<and> fst res \<in> {- 1, 0, 1} \<and>
     (fst res = 1 \<longrightarrow> u_start h \<le> u_end (snd res) \<and> u_end (snd res) < int re \<and> u_len (snd res) = u_end (snd res) - u_start h + 1 \<and>
        0 \<le> v_maj (snd res) \<and> 0 \<le> v_min (snd res))"

lemma finish_parsed: "r \<in> {- 1, 0} \<Longrightarrow> same_start h h' \<Longrightarrow> \<exists>res. finish r maj mi h' = Inr res \<and> url_parsed h re res"
  by (auto simp: finish_def url_parsed_def same_start_def)

lemma line_done_parsed:
  assumes "0 \<le> maj" "0 \<le> mi" "same_start h h'" "u_start h \<le> u_end h'" "u_end h' < int re"
  shows "\<exists>res. line_done maj mi h' = Inr res \<and> url_parsed h re res"
  using assms by (auto simp: line_done_def finish_def url_parsed_def same_start_def)

lemma simple_line_parsed:
  assumes "u_start h < int le" "le \<le> re"
  shows "\<exists>res. simple_line le h = Inr res \<and> url_parsed h re res"
  using assms line_done_parsed [of 0 9 h "h\<lparr>u_end := int le - 1\<rparr>" re] by (simp add: simple_line_def same_start_def Let_def)

lemma version_line_parsed:
  assumes "u_start h < lw" "lw \<le> int re"
  shows "\<exists>res. version_line re i lw h = Inr res \<and> url_parsed h re res"
proof -
  let ?h = "h\<lparr>v_start := int i\<rparr>"
  have s: "same_start h ?h" by (simp add: same_start_def)
  obtain maj i1 where d1: "digits_loop (hm_buf h) (i + 5) re 0 = (maj, i1)" by fastforce
  obtain mi i2 where d2: "digits_loop (hm_buf h) (i1 + 1) re 0 = (mi, i2)" by fastforce
  have "0 \<le> maj" "0 \<le> mi" using digits_loop_finds [OF _ d1] digits_loop_finds [OF _ d2] by simp_all
  moreover have "same_start h (?h\<lparr>v_end := int i2, v_len := int i2 - v_start ?h + 1, u_end := lw - 1\<rparr>)" by (simp add: same_start_def)
  ultimately have "\<exists>res. line_done maj mi (?h\<lparr>v_end := int i2, v_len := int i2 - v_start ?h + 1, u_end := lw - 1\<rparr>) = Inr res \<and> url_parsed h re res"
    using assms by (intro line_done_parsed) simp_all
  thus ?thesis using finish_parsed [OF _ s] unfolding version_line_def by (simp add: Let_def d1 d2 [simplified])
qed

lemma url_line_parsed:
  assumes "re < length (hm_buf h)" "hm_buf h ! re = LF" "k < re" "\<not> isspace_c (hm_buf h ! k)" "u_start h = int k"
  shows "\<exists>res. url_line re k h = Inr res \<and> url_parsed h re res"
proof -
  obtain le lw where l: "line_scan (hm_buf h) k re (- 1) = Inr (Some le, lw)" "k \<le> le" "le \<le> re" "hm_buf h ! le = LF \<or> hm_buf h ! le = CR"
    "lw = - 1 \<or> int k \<le> lw \<and> lw < int le \<and> isspace_c (hm_buf h ! nat lw)"
    using line_scan_finds [OF assms(1,2), of k "- 1"] assms(3) by auto
  have "k \<noteq> le" using l(4) assms(4) by (auto simp: isspace_c_def)
  hence a: "\<exists>res. simple_line le h = Inr res \<and> url_parsed h re res" using l(2,3) assms(5) by (intro simple_line_parsed) simp_all
  have b: "\<exists>res. version_line re i lw h = Inr res \<and> url_parsed h re res" if "lw \<noteq> - 1" for i
  proof (rule version_line_parsed)
    have "lw \<noteq> int k" using that l(5) assms(4) by auto
    thus "u_start h < lw" "lw \<le> int re" using that l(3,5) assms(5) by auto
  qed
  have s: "same_start h h" by (simp add: same_start_def)
  show ?thesis using a b finish_parsed [OF _ s] by (simp add: url_line_def Let_def l(1))
qed

text \<open>The parts of a request line that was parsed are inside the line, and the method is a word.\<close>

definition request_parts :: "HttpMsgBuf \<Rightarrow> bool" where
  "request_parts h \<longleftrightarrow> 0 \<le> m_start h \<and> m_start h \<le> m_end h \<and> m_end h < u_start h \<and> u_start h \<le> u_end h \<and> u_end h < req_end h \<and>
     req_end h < int (hm_size h) \<and> m_len h = m_end h - m_start h + 1 \<and> u_len h = u_end h - u_start h + 1 \<and> 0 \<le> v_maj h \<and> 0 \<le> v_min h \<and>
     index_of LF (take (hm_size h) (hm_buf h)) = Some (nat (req_end h)) \<and>
     (\<forall>k. m_start h \<le> int k \<and> int k \<le> m_end h \<longrightarrow> \<not> isspace_c (hm_buf h ! k))"

lemma index_of_finds:
  assumes "index_of c s = Some n"
  shows "n < length s" "s ! n = c" "c \<notin> set (take n s)"
proof -
  have n: "c \<in> set s" "n = length (takeWhile (\<lambda>x. x \<noteq> c) s)" using assms by (auto simp: index_of_def split: if_splits)
  have "c \<in> set t \<Longrightarrow> length (takeWhile (\<lambda>x. x \<noteq> c) t) < length t" for t by (induction t) auto
  thus "n < length s" using n by simp
  show "s ! n = c" using nth_length_takeWhile [of "\<lambda>x. x \<noteq> c" s] n \<open>n < length s\<close> by simp
  have "take n s = takeWhile (\<lambda>x. x \<noteq> c) s" using n(2) by (metis takeWhile_eq_take)
  thus "c \<notin> set (take n s)" by (metis set_takeWhileD)
qed

lemma request_line_parsed:
  assumes "hm_size h \<le> length (hm_buf h)"
  shows "\<exists>r h'. httpMsgParseRequestLine h = Inr (r, h') \<and> r \<in> {- 1, 0, 1} \<and> hm_buf h' = hm_buf h \<and> hm_size h' = hm_size h \<and> (r = 1 \<longrightarrow> request_parts h')"
proof (cases "index_of LF (take (hm_size h) (hm_buf h))")
  case None
  thus ?thesis by (simp add: httpMsgParseRequestLine_def finish_def)
next
  case (Some re)
  let ?b = "hm_buf h" let ?i = "scan_chars isspace_c ?b 0 re" let ?j = "scan_chars (\<lambda>c. \<not> isspace_c c) ?b ?i re" let ?k = "scan_chars isspace_c ?b ?j re"
  have re: "re < hm_size h" "re < length ?b" "?b ! re = LF" using index_of_finds [OF Some] assms by auto
  let ?h1 = "h\<lparr>req_end := int re\<rparr>" let ?h2 = "?h1\<lparr>m_start := int ?i, req_start := int ?i, r_len := int re - int ?i + 1\<rparr>"
  let ?h3 = "?h2\<lparr>m_end := int ?j - 1, m_len := (int ?j - 1) - int ?i + 1\<rparr>" let ?h4 = "?h3\<lparr>u_start := int ?k\<rparr>"
  note i = scan_chars_finds [of 0 re isspace_c ?b]
  show ?thesis
  proof (cases "?i < re \<and> ?j < re \<and> ?k < re")
    case True
    note j = scan_chars_finds [of ?i re "\<lambda>c. \<not> isspace_c c" ?b]
    note k = scan_chars_finds [of ?j re isspace_c ?b]
    have m: "?i < ?j" using i j True by (metis le_neq_implies_less zero_le less_imp_le)
    have "?j \<noteq> ?k" using j k True by (metis less_imp_le)
    hence n: "?j < ?k" using k True by simp
    obtain res where res: "url_line re ?k ?h4 = Inr res" "url_parsed ?h4 re res"
      using url_line_parsed [of re ?h4 ?k] re k True by auto
    have "httpMsgParseRequestLine h = Inr res" using True res(1) by (simp add: httpMsgParseRequestLine_def Some Let_def)
    moreover have "request_parts (snd res)" if "fst res = 1"
      using that res(2) re m n Some j True by (auto simp: url_parsed_def same_start_def request_parts_def)
    ultimately show ?thesis using res(2) by (cases res) (auto simp: url_parsed_def same_start_def)
  next
    case False
    thus ?thesis by (auto simp: httpMsgParseRequestLine_def Some Let_def finish_def)
  qed
qed

section \<open>Where the header ends\<close>

lemma find_scan_line:
  "LF \<notin> set l \<Longrightarrow> find_scan (l @ s) e 0 he = find_scan s (e + length l) 0 he"
  by (induction l arbitrary: e) (auto simp: scan_state_def)

lemma find_scan_first:
  assumes "LF \<notin> set l" "\<exists>c \<in> set l. c \<noteq> CR" "st < 3"
  shows "find_scan (l @ s) e st he = find_scan s (e + length l) 0 he"
  using assms
proof (induction l arbitrary: e st)
  case (Cons c l)
  show ?case
  proof (cases "c = CR \<and> (\<exists>d \<in> set l. d \<noteq> CR)")
    case True
    thus ?thesis using Cons.IH [of "scan_state st c" "e + 1"] Cons.prems by (auto simp: scan_state_def)
  next
    case False
    hence "scan_state st c = 0" using Cons.prems by (auto simp: scan_state_def)
    thus ?thesis using Cons.prems find_scan_line [of l s "e + 1" he] by auto
  qed
qed simp

text \<open>
  What the scan has seen behind the line feed that ends the request line: a text without an empty line, which ends
  in a line feed (state 1), in a line feed and a carriage return (state 2), or otherwise (state 0); or
  such a text and the empty line that follows it (state 3).
\<close>

definition no_blank_line :: "string \<Rightarrow> bool" where
  "no_blank_line t \<longleftrightarrow> \<not> sublist [LF, LF] (LF # t) \<and> \<not> sublist [LF, CR, LF] (LF # t)"

definition line_ends :: "string \<Rightarrow> bool" where
  "line_ends t \<longleftrightarrow> last (LF # t) = LF"

definition header_block :: "string \<Rightarrow> string \<Rightarrow> bool" where
  "header_block t eol \<longleftrightarrow> no_blank_line t \<and> line_ends t \<and> (eol = [LF] \<or> eol = [CR, LF])"

definition scanned :: "nat \<Rightarrow> string \<Rightarrow> nat \<Rightarrow> int \<Rightarrow> bool" where
  "scanned e0 t st he \<longleftrightarrow>
     (if st = 0 then no_blank_line t \<and> \<not> line_ends t \<and> \<not> (\<exists>u. t = u @ [CR] \<and> line_ends u)
      else if st = 1 then no_blank_line t \<and> line_ends t \<and> he = int (e0 + length t) - 1
      else if st = 2 then \<exists>u. t = u @ [CR] \<and> no_blank_line u \<and> line_ends u \<and> he = int (e0 + length u) - 1
      else \<exists>u eol. t = u @ eol \<and> header_block u eol \<and> he = int (e0 + length u) - 1)"

lemma line_ends_suffix: "line_ends t \<longleftrightarrow> suffix [LF] (LF # t)"
  by (cases t rule: rev_cases) (auto simp: line_ends_def suffix_Cons)

lemma line_ends_snoc [simp]: "line_ends (t @ [c]) \<longleftrightarrow> c = LF"
  by (simp add: line_ends_def)

lemma no_blank_line_snoc:
  "no_blank_line (t @ [c]) \<longleftrightarrow> no_blank_line t \<and> (c = LF \<longrightarrow> \<not> line_ends t \<and> \<not> (\<exists>u. t = u @ [CR] \<and> line_ends u))"
proof -
  have 1: "sublist [LF, LF] (LF # t @ [c]) \<longleftrightarrow> c = LF \<and> line_ends t \<or> sublist [LF, LF] (LF # t)"
    using snoc_sublist_snoc [of "[LF]" LF "LF # t" c] by (auto simp: line_ends_suffix)
  have 2: "sublist [LF, CR, LF] (LF # t @ [c]) \<longleftrightarrow> c = LF \<and> suffix [LF, CR] (LF # t) \<or> sublist [LF, CR, LF] (LF # t)"
    using snoc_sublist_snoc [of "[LF, CR]" LF "LF # t" c] by auto
  have 3: "suffix [LF, CR] (LF # t) \<longleftrightarrow> (\<exists>u. t = u @ [CR] \<and> line_ends u)"
  proof (cases t rule: rev_cases)
    case (snoc u d)
    show ?thesis using snoc_suffix_snoc [of "[LF]" CR "LF # u" d] by (auto simp: snoc line_ends_suffix)
  qed (auto simp: suffix_Cons)
  show ?thesis unfolding no_blank_line_def 1 2 3 by blast
qed

lemma scanned_step:
  assumes "scanned e0 t st he" "st < 3"
  shows "scanned e0 (t @ [c]) (scan_state st c) (if st = 0 \<and> c = LF then int (e0 + length t) else he)"
proof -
  consider "st = 0" | "st = 1" | "st = 2" using assms(2) by linarith
  thus ?thesis
  proof cases
    case 1
    thus ?thesis using assms(1) by (auto simp: scanned_def scan_state_def no_blank_line_snoc)
  next
    case 2
    thus ?thesis using assms(1) by (auto simp: scanned_def scan_state_def no_blank_line_snoc header_block_def)
  next
    case 3
    then obtain u where u: "t = u @ [CR]" "no_blank_line u" "line_ends u" "he = int (e0 + length u) - 1"
      using assms(1) by (auto simp: scanned_def)
    show ?thesis
    proof (cases "c = LF")
      case True
      have "t @ [c] = u @ [CR, LF] \<and> header_block u [CR, LF] \<and> he = int (e0 + length u) - 1"
        using u True by (simp add: header_block_def)
      hence "\<exists>u eol. t @ [c] = u @ eol \<and> header_block u eol \<and> he = int (e0 + length u) - 1" by blast
      thus ?thesis using 3 True by (simp add: scanned_def scan_state_def)
    next
      case False
      have "no_blank_line t" "\<not> line_ends t" using u by (simp_all add: no_blank_line_snoc)
      hence "no_blank_line (t @ [c])" "\<not> line_ends (t @ [c])" "\<not> (\<exists>v. t @ [c] = v @ [CR] \<and> line_ends v)"
        using False by (auto simp: no_blank_line_snoc)
      thus ?thesis using 3 False by (simp add: scanned_def scan_state_def)
    qed
  qed
qed

lemma find_scan_scanned:
  assumes "find_scan s (e0 + length t) st he = (e', st', he')" "scanned e0 t st he" "st \<le> 3"
  shows "\<exists>k \<le> length s. e' = e0 + length t + k \<and> scanned e0 (t @ take k s) st' he' \<and> st' \<le> 3 \<and> (st' < 3 \<longrightarrow> k = length s)"
  using assms
proof (induction s arbitrary: t st he)
  case (Cons c s)
  show ?case
  proof (cases "st < 3")
    case True
    let ?he = "if st = 0 \<and> c = LF then int (e0 + length t) else he"
    have "find_scan s (e0 + length (t @ [c])) (scan_state st c) ?he = (e', st', he')" "scan_state st c \<le> 3"
      using Cons.prems(1) True by (simp_all add: scan_state_def)
    from Cons.IH [OF this(1) scanned_step [OF Cons.prems(2) True] this(2)] obtain k where
      "k \<le> length s" "e' = e0 + length (t @ [c]) + k" "scanned e0 ((t @ [c]) @ take k s) st' he'" "st' \<le> 3" "st' < 3 \<longrightarrow> k = length s" by blast
    thus ?thesis by (intro exI [of _ "Suc k"]) simp
  qed (use Cons.prems in \<open>auto intro!: exI [of _ 0]\<close>)
qed simp

text \<open>
  The header of a request that was parsed: the bytes between the request line and the first empty line
  behind it, or nothing, if there is no empty line.
\<close>

definition header_found :: "HttpMsgBuf \<Rightarrow> nat \<Rightarrow> HttpMsgBuf \<Rightarrow> string \<Rightarrow> bool" where
  "header_found h n h' block \<longleftrightarrow> n \<le> hm_size h \<and> hm_buf h' = hm_buf h \<and>
     (\<exists>eol. header_block block eol \<and> take n (hm_buf h) = take (nat (req_end h) + 1) (hm_buf h) @ block @ eol) \<and>
     h_start h' = req_end h + 1 \<and> h_end h' = req_end h + int (length block) \<and> h_len h' = int (length block) - 1"

lemma headers_end_found:
  assumes "request_parts h" "hm_size h \<le> length (hm_buf h)" "httpMsgFindHeadersEnd h = (n, h')" "(v_maj h, v_min h) \<noteq> (0, 9)"
  shows "if n = 0 then h' = h \<and> no_blank_line (drop (nat (req_end h) + 1) (take (hm_size h) (hm_buf h)))
    else \<exists>block. header_found h n h' block"
proof -
  let ?t = "take (hm_size h) (hm_buf h)" let ?re = "nat (req_end h)" let ?r = "drop (?re + 1) ?t"
  have r: "0 \<le> req_end h" "index_of LF ?t = Some ?re" using assms(1) by (simp_all add: request_parts_def)
  note i = index_of_finds [OF r(2)]
  have t: "?t = take ?re ?t @ LF # ?r" using i(1,2) by (metis Suc_eq_plus1 id_take_nth_drop)
  have m: "nat (m_start h) < ?re" "\<not> isspace_c (hm_buf h ! nat (m_start h))" using assms(1) by (auto simp: request_parts_def)
  hence "hm_buf h ! nat (m_start h) \<in> set (take ?re ?t)" using i(1) by (auto simp: in_set_conv_nth intro!: exI [of _ "nat (m_start h)"])
  moreover have "hm_buf h ! nat (m_start h) \<noteq> CR" using m(2) by (auto simp: isspace_c_def)
  ultimately have c: "\<exists>c \<in> set (take ?re ?t). c \<noteq> CR" by blast
  obtain e st he where f: "find_scan ?t 0 1 (- 1) = (e, st, he)" by (metis prod_cases3)
  have "find_scan ?t 0 1 (- 1) = find_scan (LF # ?r) ?re 0 (- 1)"
    by (subst t, subst find_scan_first) (use i c in simp_all)
  also have "\<dots> = find_scan ?r (?re + 1 + length []) 1 (int ?re)" by (simp add: scan_state_def)
  finally have "find_scan ?r (?re + 1 + length []) 1 (int ?re) = (e, st, he)" using f by simp
  moreover have "scanned (?re + 1) [] 1 (int ?re)" by (simp add: scanned_def no_blank_line_def line_ends_def sublist_Cons_right)
  ultimately obtain k where k: "k \<le> length ?r" "e = ?re + 1 + k" "scanned (?re + 1) (take k ?r) st he" "st \<le> 3" "st < 3 \<longrightarrow> k = length ?r"
    using find_scan_scanned [of ?r "?re + 1" "[]" 1 "int ?re" e st he] by auto
  have ne: "\<not> (v_maj h = 0 \<and> v_min h = 9)" using assms(4) by simp
  have q: "httpMsgFindHeadersEnd h = (if st = 3 then (e, h\<lparr>h_end := he, h_start := req_end h + 1, h_len := he - (req_end h + 1)\<rparr>) else (0, h))"
    unfolding httpMsgFindHeadersEnd_def if_not_P [OF ne] f by simp
  show ?thesis
  proof (cases "st = 3")
    case False
    hence "no_blank_line (take k ?r)" using k(3,4) by (auto simp: scanned_def no_blank_line_snoc split: if_splits)
    thus ?thesis using q False assms(3) k(4,5) by simp
  next
    case True
    then obtain block eol where b: "take k ?r = block @ eol" "header_block block eol" "he = int (?re + 1 + length block) - 1"
      using k(3) by (auto simp: scanned_def)
    have n: "n = ?re + 1 + k" "h' = h\<lparr>h_end := he, h_start := req_end h + 1, h_len := he - (req_end h + 1)\<rparr>"
      using q True assms(3) k(2) by simp_all
    have size: "n \<le> hm_size h" "k \<le> hm_size h - (?re + 1)" using n(1) k(1) assms(2) i(1) by simp_all
    have "take k ?r = take k (drop (?re + 1) (hm_buf h))" using size(2) by (simp add: drop_take min_absorb1)
    hence "take n (hm_buf h) = take (?re + 1) (hm_buf h) @ block @ eol"
      unfolding n(1) take_add b(1) [symmetric] by (rule arg_cong [OF sym])
    hence "header_found h n h' block" unfolding header_found_def using size(1) n(2) b(2,3) r(1) by auto
    thus ?thesis using n(1) by auto
  qed
qed

lemma found_block:
  assumes "header_found h n h' block" "hm_size h \<le> length (hm_buf h)" "0 \<le> req_end h"
  shows "httpMsgParseRequestHeader relaxed hdr h' = httpHeaderParse relaxed hdr block"
proof -
  let ?re = "nat (req_end h)"
  obtain eol where e: "take n (hm_buf h) = take (?re + 1) (hm_buf h) @ block @ eol" "eol \<noteq> []" "n \<le> length (hm_buf h)"
    using assms(1,2) by (auto simp: header_found_def header_block_def)
  hence l: "n = length (take (?re + 1) (hm_buf h)) + length block + length eol" by (metis length_append add.assoc length_take min_absorb2)
  have "?re + 1 \<le> length (hm_buf h)"
  proof (rule ccontr)
    assume "\<not> ?re + 1 \<le> length (hm_buf h)"
    hence "length (take (?re + 1) (hm_buf h)) = length (hm_buf h)" by simp
    thus False using l e(2,3) by (metis add_leE le_antisym length_greater_0_conv less_add_same_cancel1 linorder_not_le not_add_less1 trans_le_add1)
  qed
  hence re: "length (take (?re + 1) (hm_buf h)) = ?re + 1" by simp
  have "hm_buf h = take (?re + 1) (hm_buf h) @ block @ eol @ drop n (hm_buf h)"
    using e(1) append_take_drop_id [of n "hm_buf h"] by simp
  hence "drop (?re + 1) (hm_buf h) = block @ eol @ drop n (hm_buf h)" using re by (metis append_eq_conv_conj)
  hence "take (length block) (drop (?re + 1) (hm_buf h)) = block" by simp
  moreover have "nat (req_end h + 1) = ?re + 1" using assms(3) by simp
  moreover have "req_end h + int (length block) + 1 \<le> int (length (hm_buf h))" using l re e(3) assms(3) by simp
  ultimately show ?thesis
    using assms(1,3) l re e(3) unfolding httpMsgParseRequestHeader_def header_found_def by (simp add: nat_add_distrib)
qed

section \<open>A packed request\<close>

lemma drop_ConsD: "drop i buf = c # r \<Longrightarrow> buf ! i = c \<and> drop (i + 1) buf = r \<and> i < length buf"
  by (metis Suc_eq_plus1 drop_Suc drop_eq_Nil hd_drop_conv_nth leI list.distinct(1) list.sel(1,3) tl_drop)

lemma scan_chars_word:
  assumes "drop i buf = w @ r" "list_all P w" "i + length w \<le> e" "i + length w = e \<or> r = [] \<or> \<not> P (hd r)" "length buf \<ge> e"
  shows "scan_chars P buf i e = i + length w"
  using assms
proof (induction w arbitrary: i)
  case Nil
  have "i < e \<Longrightarrow> r \<noteq> [] \<and> buf ! i = hd r" using Nil.prems(1,5) by (metis append_Nil drop_eq_Nil hd_drop_conv_nth le_less_trans not_le order_less_le_trans)
  thus ?case using Nil.prems by (subst scan_chars.simps) auto
next
  case (Cons c w)
  have "buf ! i = c" "drop (i + 1) buf = w @ r" "i < length buf"
    using drop_ConsD [of i buf c] Cons.prems(1) by simp_all
  thus ?case using Cons.IH [of "i + 1"] Cons.prems by (subst scan_chars.simps) auto
qed

lemma line_scan_word:
  assumes "drop i buf = w @ r" "list_all (\<lambda>c. c \<noteq> LF \<and> c \<noteq> CR \<and> c \<noteq> CHR '' '' \<and> c \<noteq> CHR 0x09) w" "i + length w \<le> re" "re < length buf"
  shows "line_scan buf i re lw = line_scan buf (i + length w) re lw"
  using assms
proof (induction w arbitrary: i)
  case (Cons c w)
  have "buf ! i = c" "drop (i + 1) buf = w @ r" "i < length buf"
    using drop_ConsD [of i buf c] Cons.prems(1) by simp_all
  thus ?case using Cons.IH [of "i + 1"] Cons.prems by (subst line_scan.simps) simp
qed simp

lemma digits_loop_word:
  assumes "drop i buf = ds @ r" "list_all isdigit_c ds" "i + length ds \<le> e" "length buf \<ge> e" "i + length ds = e \<or> r = [] \<or> \<not> isdigit_c (hd r)"
    "0 \<le> v" "foldl (\<lambda>v c. 10 * v + (int (of_char c) - 48)) v ds < 65536"
  shows "digits_loop buf i e v = (foldl (\<lambda>v c. 10 * v + (int (of_char c) - 48)) v ds, i + length ds)"
  using assms
proof (induction ds arbitrary: i v)
  case Nil
  have "i < e \<Longrightarrow> r \<noteq> [] \<and> buf ! i = hd r" using Nil.prems(1,4) by (metis append_Nil drop_eq_Nil hd_drop_conv_nth le_less_trans not_le order_less_le_trans)
  thus ?case using Nil.prems by (subst digits_loop.simps) auto
next
  case (Cons c ds)
  let ?v = "10 * v + (int (of_char c) - 48)"
  have c: "buf ! i = c" "drop (i + 1) buf = ds @ r" "i < length buf"
    using drop_ConsD [of i buf c] Cons.prems(1) by simp_all
  have d: "0 \<le> int (of_char x) - 48" if "isdigit_c x" for x using that by (simp add: isdigit_c_def)
  have mono: "u \<le> foldl (\<lambda>v c. 10 * v + (int (of_char c) - 48)) u xs" if "list_all isdigit_c xs" "0 \<le> u" for xs u
    using that
  proof (induction xs arbitrary: u)
    case (Cons x xs)
    have "u \<le> 10 * u + (int (of_char x) - 48)" "0 \<le> 10 * u + (int (of_char x) - 48)" using d [of x] Cons.prems by auto
    thus ?case using Cons.IH [of "10 * u + (int (of_char x) - 48)"] Cons.prems by simp
  qed simp
  have v: "0 \<le> ?v" "v \<le> ?v" using d [of c] Cons.prems by auto
  hence "v < 65536" using mono [of ds ?v] Cons.prems by simp
  thus ?case using Cons.IH [of "i + 1" ?v] Cons.prems c v by (subst digits_loop.simps) (simp add: mult.commute)
qed

lemma foldl_digits:
  "list_all isdigit_c ds \<Longrightarrow> foldl (\<lambda>v c. 10 * v + (int (of_char c) - 48)) (int v) ds = int (foldl (\<lambda>v c. 10 * v + (of_char c - 48)) v ds)"
proof (induction ds arbitrary: v)
  case (Cons c ds)
  have "48 \<le> (of_char c :: nat)" using Cons.prems by (simp add: isdigit_c_def)
  hence e: "10 * int v + (int (of_char c) - 48) = int (10 * v + (of_char c - 48))" by linarith
  have "list_all isdigit_c ds" using Cons.prems by simp
  thus ?case unfolding foldl_Cons e by (rule Cons.IH)
qed simp

lemma digits_loop_show:
  assumes "drop i buf = show_nat n @ r" "i + length (show_nat n) \<le> e" "length buf \<ge> e" "r = [] \<or> \<not> isdigit_c (hd r)" "n < 65536"
  shows "digits_loop buf i e 0 = (int n, i + length (show_nat n))"
proof -
  have d: "list_all isdigit_c (show_nat n)" using show_nat_digits [of n] by (simp add: list_all_iff)
  have "foldl (\<lambda>v c. 10 * v + (int (of_char c) - 48)) 0 (show_nat n) = int n"
    using foldl_digits [OF d, of 0] digits_val_show_nat [of n] by (simp add: digits_val_def)
  thus ?thesis using digits_loop_word [OF assms(1) d assms(2,3), of 0] assms(4,5) by simp
qed

definition word :: "string \<Rightarrow> bool" where
  "word w \<longleftrightarrow> w \<noteq> [] \<and> list_all (\<lambda>c. \<not> isspace_c c) w"

lemma not_space: "\<not> isspace_c c \<Longrightarrow> c \<noteq> LF \<and> c \<noteq> CR \<and> c \<noteq> CHR '' '' \<and> c \<noteq> CHR 0x09"
  by (auto simp: isspace_c_def)

lemma show_nat_word: "word (show_nat n)"
  using show_nat_digits [of n] hd_digit(1) by (auto simp: word_def list_all_iff)

lemma version_line_packed:
  assumes "drop i (hm_buf h) = ''HTTP/'' @ show_nat maj @ ''.'' @ show_nat mi @ CR # LF # r" "maj < 65536" "mi < 65536"
    and re: "re = i + 5 + length (show_nat maj) + 1 + length (show_nat mi) + 1"
  shows "version_line re i lw h = line_done (int maj) (int mi) (h\<lparr>v_start := int i, v_end := int (re - 1), v_len := int (re - 1) - int i + 1, u_end := lw - 1\<rparr>)"
proof -
  let ?b = "hm_buf h" let ?j = "i + 5 + length (show_nat maj)"
  have d: "drop (i + 5) ?b = show_nat maj @ ''.'' @ show_nat mi @ CR # LF # r" using arg_cong [OF assms(1), of "drop 5"] by (simp add: add.commute)
  have j: "drop ?j ?b = ''.'' @ show_nat mi @ CR # LF # r" using arg_cong [OF d, of "drop (length (show_nat maj))"] by (simp add: add.commute)
  have dot: "?b ! ?j = CHR ''.''" and k: "drop (?j + 1) ?b = show_nat mi @ CR # LF # r" using drop_ConsD [of ?j ?b "CHR ''.''"] j by simp_all
  have len: "length ?b \<ge> re" using arg_cong [OF k, of length] by (simp add: re)
  have 1: "digits_loop ?b (i + 5) re 0 = (int maj, ?j)" using d len assms(2) by (intro digits_loop_show [OF d]) (simp_all add: re isdigit_c_def)
  have 2: "digits_loop ?b (?j + 1) re 0 = (int mi, ?j + 1 + length (show_nat mi))"
    using len assms(3) by (intro digits_loop_show [OF k]) (simp_all add: re isdigit_c_def)
  show ?thesis using assms(2,3) dot unfolding version_line_def Let_def 1 prod.case 2 by (simp add: re algebra_simps)
qed

lemma url_line_packed:
  assumes "drop k (hm_buf h) = url @ '' HTTP/'' @ show_nat maj @ ''.'' @ show_nat mi @ CR # LF # r" "word url" "maj < 65536" "mi < 65536"
    and re: "re = k + length url + 6 + length (show_nat maj) + 1 + length (show_nat mi) + 1" and "u_start h = int k"
  shows "\<exists>h'. url_line re k h = Inr (1, h') \<and> same_start h h' \<and> u_end h' = int (k + length url) - 1 \<and> v_maj h' = int maj \<and> v_min h' = int mi"
proof -
  let ?b = "hm_buf h" let ?s = "k + length url" let ?v = "''HTTP/'' @ show_nat maj @ ''.'' @ show_nat mi"
  have s: "drop ?s ?b = CHR '' '' # ?v @ CR # LF # r" using arg_cong [OF assms(1), of "drop (length url)"] by (simp add: add.commute)
  have sp: "?b ! ?s = CHR '' ''" "drop (?s + 1) ?b = ?v @ CR # LF # r" using drop_ConsD [OF s] by simp_all
  have r1: "re - 1 = ?s + 1 + length ?v" by (simp add: re)
  have e: "drop (re - 1) ?b = CR # LF # r" unfolding r1 using sp(2) drop_drop [of "length ?v" "?s + 1" ?b] by (simp add: add.commute)
  have le: "?b ! (re - 1) = CR" "?b ! re = LF" "re < length ?b" using drop_ConsD [OF e] drop_ConsD [of re ?b LF r] by (auto simp: re)
  have wu: "list_all (\<lambda>c. c \<noteq> LF \<and> c \<noteq> CR \<and> c \<noteq> CHR '' '' \<and> c \<noteq> CHR 0x09) url" using assms(2) not_space by (auto simp: word_def list_all_iff)
  have wv: "list_all (\<lambda>c. c \<noteq> LF \<and> c \<noteq> CR \<and> c \<noteq> CHR '' '' \<and> c \<noteq> CHR 0x09) ?v"
    using show_nat_word [of maj] show_nat_word [of mi] not_space by (auto simp: word_def list_all_iff)
  have "line_scan ?b k re (- 1) = line_scan ?b ?s re (- 1)" by (rule line_scan_word [OF assms(1) wu]) (use le re in simp_all)
  also have "\<dots> = line_scan ?b (?s + 1) re (int ?s)" using sp(1) le(3) by (subst line_scan.simps) (simp add: re)
  also have "\<dots> = line_scan ?b (re - 1) re (int ?s)" unfolding r1 by (rule line_scan_word [OF sp(2) wv]) (use le r1 re in simp_all)
  also have "\<dots> = Inr (Some (re - 1), int ?s)" using le by (subst line_scan.simps) (simp add: re)
  finally have l: "line_scan ?b k re (- 1) = Inr (Some (re - 1), int ?s)" .
  have i: "scan_chars isspace_c ?b ?s (re + 1) = ?s + 1"
    using scan_chars_word [of ?s ?b "'' ''" "?v @ CR # LF # r" isspace_c "re + 1"] s le by (simp add: re isspace_c_def)
  have h: "strncaseeq (drop (?s + 1) ?b) ''HTTP/'' 5" unfolding sp(2) by (simp add: strncaseeq_def)
  have "url_line re k h = version_line re (?s + 1) (int ?s) h"
    unfolding url_line_def Let_def l res_bind_simps prod.case option.case nat_int i using h by (simp add: re)
  also have "\<dots> = line_done (int maj) (int mi) (h\<lparr>v_start := int (?s + 1), v_end := int (re - 1), v_len := int (re - 1) - int (?s + 1) + 1, u_end := int ?s - 1\<rparr>)"
    by (rule version_line_packed) (use sp(2) assms(3,4) re in simp_all)
  finally show ?thesis by (simp add: line_done_def finish_def same_start_def)
qed

lemma request_line_packed:
  assumes b: "hm_buf h = meth @ '' '' @ url @ '' HTTP/'' @ show_nat maj @ ''.'' @ show_nat mi @ CR # LF # r" and "hm_size h = length (hm_buf h)"
    and w: "word meth" "word url" and v: "maj < 65536" "mi < 65536"
  shows "\<exists>h'. httpMsgParseRequestLine h = Inr (1, h') \<and> hm_buf h' = hm_buf h \<and> hm_size h' = hm_size h \<and>
    m_start h' = 0 \<and> m_end h' = int (length meth) - 1 \<and> u_start h' = int (length meth) + 1 \<and> u_end h' = int (length meth) + int (length url) \<and>
    v_maj h' = int maj \<and> v_min h' = int mi \<and> req_end h' = int (length (meth @ '' '' @ url @ '' HTTP/'' @ show_nat maj @ ''.'' @ show_nat mi @ [CR]))"
proof -
  let ?b = "hm_buf h" let ?l = "meth @ '' '' @ url @ '' HTTP/'' @ show_nat maj @ ''.'' @ show_nat mi @ [CR]" let ?m = "length meth"
  let ?re = "length ?l"
  have "LF \<notin> set u" if "word u" for u using that not_space by (auto simp: word_def list_all_iff)
  hence nl: "LF \<notin> set ?l" using w show_nat_word by simp
  have l: "?b = ?l @ LF # r" by (simp add: b)
  have tw: "takeWhile (\<lambda>x. x \<noteq> LF) (xs @ LF # ys) = xs" if "LF \<notin> set xs" for xs ys using that by (induction xs) auto
  have re: "index_of LF (take (hm_size h) ?b) = Some ?re" using tw [OF nl, of r] unfolding index_of_def assms(2) l by simp
  have len: "?re < length ?b" by (simp add: l)
  obtain c ms where m: "meth = c # ms" using w(1) by (cases meth) (auto simp: word_def)
  have "\<not> isspace_c (?b ! 0)" using w(1) by (simp add: b m word_def)
  hence i: "scan_chars isspace_c ?b 0 ?re = 0" by (subst scan_chars.simps) simp
  have j: "scan_chars (\<lambda>c. \<not> isspace_c c) ?b 0 ?re = ?m"
    using scan_chars_word [of 0 ?b meth "drop ?m ?b" "\<lambda>c. \<not> isspace_c c" ?re] w(1) len by (simp add: b word_def isspace_c_def)
  have k0: "drop ?m ?b = '' '' @ url @ '' HTTP/'' @ show_nat maj @ ''.'' @ show_nat mi @ CR # LF # r" by (simp add: b)
  have k1: "drop (?m + 1) ?b = url @ '' HTTP/'' @ show_nat maj @ ''.'' @ show_nat mi @ CR # LF # r" using drop_ConsD [of ?m ?b "CHR '' ''"] k0 by simp
  have "\<not> isspace_c (hd (url @ '' HTTP/'' @ show_nat maj @ ''.'' @ show_nat mi @ CR # LF # r))" using w(2) by (cases url) (auto simp: word_def)
  hence k: "scan_chars isspace_c ?b ?m ?re = ?m + 1" using scan_chars_word [OF k0, of isspace_c ?re] len by (simp add: isspace_c_def)
  let ?h4 = "h\<lparr>req_end := int ?re, m_start := int 0, req_start := int 0, r_len := int ?re - int 0 + 1, m_end := int ?m - 1, m_len := (int ?m - 1) - int 0 + 1, u_start := int (?m + 1)\<rparr>"
  obtain h' where h': "url_line ?re (?m + 1) ?h4 = Inr (1, h')" "same_start ?h4 h'" "u_end h' = int (?m + 1 + length url) - 1" "v_maj h' = int maj" "v_min h' = int mi"
    using url_line_packed [of "?m + 1" ?h4 url maj mi r ?re] k1 w(2) v by auto
  have lt: "\<not> 0 \<ge> ?re" "\<not> ?m \<ge> ?re" "\<not> ?m + 1 \<ge> ?re" by simp_all
  have "httpMsgParseRequestLine h = url_line ?re (?m + 1) ?h4"
    unfolding httpMsgParseRequestLine_def Let_def re option.case i j k if_not_P [OF lt(1)] if_not_P [OF lt(2)] if_not_P [OF lt(3)] by simp
  thus ?thesis using h' by (simp add: same_start_def)
qed

lemma find_scan_fields:
  assumes "\<forall>e \<in> set es. plain_field e"
  shows "find_scan (concat (map httpHeaderEntryPackInto es) @ s) e 1 he =
    find_scan s (e + length (concat (map httpHeaderEntryPackInto es))) 1 (if es = [] then he else int (e + length (concat (map httpHeaderEntryPackInto es))) - 1)"
  using assms
proof (induction es arbitrary: e he)
  case (Cons f es)
  let ?l = "he_name f @ '': '' @ he_value f @ [CR]" let ?r = "concat (map httpHeaderEntryPackInto es)"
  have n: "token_name (he_name f)" "text_value (he_value f)" using plain_name [of f] Cons.prems by (auto simp: plain_field_def)
  have "isspace_c LF" by (simp add: isspace_c_def)
  hence "LF \<notin> set (he_name f)" using n(1) unfolding token_name_def by blast
  moreover have "LF \<notin> set (he_value f)" using n(2) unfolding text_value_def by blast
  ultimately have "LF \<notin> set ?l" by simp
  moreover have "CHR '':'' \<in> set ?l" by simp
  ultimately have 1: "find_scan (?l @ LF # ?r @ s) e 1 he = find_scan (LF # ?r @ s) (e + length ?l) 0 he" by (intro find_scan_first) (auto intro: bexI [of _ "CHR '':''"])
  have "find_scan (?r @ s) (e + length ?l + 1) 1 (int (e + length ?l)) =
    find_scan s (e + length ?l + 1 + length ?r) 1 (if es = [] then int (e + length ?l) else int (e + length ?l + 1 + length ?r) - 1)"
    using Cons.prems by (intro Cons.IH) simp
  also have "(if es = [] then int (e + length ?l) else int (e + length ?l + 1 + length ?r) - 1) = int (e + length ?l + 1 + length ?r) - 1" by simp
  finally have 2: "find_scan (LF # ?r @ s) (e + length ?l) 0 he = find_scan s (e + length ?l + 1 + length ?r) 1 (int (e + length ?l + 1 + length ?r) - 1)"
    by (simp add: scan_state_def)
  have p: "httpHeaderEntryPackInto f = ?l @ [LF]" by (simp add: httpHeaderEntryPackInto_def CRLF_def)
  show ?case unfolding list.map concat.simps p append.assoc append_Cons append_Nil using 1 2 by (simp add: add.assoc)
qed simp

text \<open>
  C8. A request survives the wire: a request that was packed, with a body behind it, is parsed. The method
  and the URL are found at their places, the version is the one that was sent, the end of the header is
  where the body starts, and the fields of the header are the ones that were packed. Method and URL are words without
  white space, the numbers of the version are below 65536 and not 0.9, the fields have values without line
  breaks and without white space at their ends, and at most one states a content length.
\<close>

theorem request_round_trip:
  assumes "wf_header hdr" "one_length hdr" "\<forall>e \<in> set (header_list hdr). plain_field e" "httpHeaderInit (hd_owner hdr) = Inr fresh"
    and w: "word meth" "word url" and v: "ver_major ver < 65536" "ver_minor ver < 65536" "(ver_major ver, ver_minor ver) \<noteq> (0, 9)"
    and h: "httpRequestPack meth url ver hdr = Inr msg" "hm_buf h = msg @ body" "hm_size h = length (hm_buf h)"
  shows "\<exists>h1 h2 hdr'. httpMsgParseRequestLine h = Inr (1, h1) \<and>
    take (nat (m_end h1 - m_start h1 + 1)) (drop (nat (m_start h1)) (hm_buf h)) = meth \<and>
    take (nat (u_end h1 - u_start h1 + 1)) (drop (nat (u_start h1)) (hm_buf h)) = url \<and>
    v_maj h1 = int (ver_major ver) \<and> v_min h1 = int (ver_minor ver) \<and> httpMsgFindHeadersEnd h1 = (length msg, h2) \<and>
    httpMsgParseRequestHeader relaxed fresh h2 = Inr (True, hdr') \<and> header_list hdr' = header_list hdr"
proof -
  let ?b = "hm_buf h" let ?l = "meth @ '' '' @ url @ '' HTTP/'' @ show_nat (ver_major ver) @ ''.'' @ show_nat (ver_minor ver) @ [CR]" let ?re = "length ?l"
  obtain t hdr' where t: "httpHeaderPackInto hdr = Inr t" "httpHeaderParse relaxed fresh t = Inr (True, hdr')" "header_list hdr' = header_list hdr"
    using pack_parse_header [OF assms(1-3) _ assms(4), of "[]" relaxed] by auto
  have te: "t = concat (map httpHeaderEntryPackInto (header_list hdr))" using t(1) pack_header [of hdr] by simp
  have m: "msg = ?l @ LF # t @ CRLF" using h(1) t(1) by (simp add: httpRequestPack_def CRLF_def)
  obtain h1 where h1: "httpMsgParseRequestLine h = Inr (1, h1)" "hm_buf h1 = ?b" "hm_size h1 = hm_size h" "m_start h1 = 0" "m_end h1 = int (length meth) - 1"
    "u_start h1 = int (length meth) + 1" "u_end h1 = int (length meth) + int (length url)" "v_maj h1 = int (ver_major ver)" "v_min h1 = int (ver_minor ver)" "req_end h1 = int ?re"
    using request_line_packed [OF _ h(3) w v(1,2), of "t @ CRLF @ body"] h(2) m by auto
  have "LF \<notin> set u" if "word u" for u using that not_space by (auto simp: word_def list_all_iff)
  hence nl: "LF \<notin> set ?l" using w show_nat_word by simp
  have "CHR '' '' \<in> set ?l" by simp
  hence "find_scan (?l @ LF # t @ CRLF @ body) 0 1 (- 1) = find_scan (LF # t @ CRLF @ body) ?re 0 (- 1)" using find_scan_first [OF nl, of 1 _ 0] by fastforce
  also have "\<dots> = find_scan (t @ CRLF @ body) (?re + 1) 1 (int ?re)" by (simp add: scan_state_def)
  also have "\<dots> = find_scan (CRLF @ body) (?re + 1 + length t) 1 (int (?re + 1 + length t) - 1)"
    unfolding te using find_scan_fields [OF assms(3), of "CRLF @ body" "?re + 1" "int ?re"] by (simp split: if_splits)
  also have "\<dots> = (length msg, 3, int (?re + length t))" using m by (cases body) (simp_all add: CRLF_def scan_state_def)
  finally have f: "find_scan (take (hm_size h1) (hm_buf h1)) 0 1 (- 1) = (length msg, 3, int (?re + length t))" using h1(2,3) h(2,3) m by simp
  let ?h2 = "h1\<lparr>h_end := int (?re + length t), h_start := req_end h1 + 1, h_len := int (?re + length t) - (req_end h1 + 1)\<rparr>"
  have ne: "\<not> (v_maj h1 = 0 \<and> v_min h1 = 9)" using v(3) h1(8,9) by auto
  have e: "httpMsgFindHeadersEnd h1 = (length msg, ?h2)" unfolding httpMsgFindHeadersEnd_def if_not_P [OF ne] f by simp
  obtain l where l: "?l = l" by simp
  have d: "drop (?re + 1) ?b = t @ CRLF @ body" unfolding h(2) m l by simp
  have "httpMsgParseRequestHeader relaxed fresh ?h2 = httpHeaderParse relaxed fresh t"
    using h1(2,10) d h(2) m by (simp add: httpMsgParseRequestHeader_def nat_add_distrib)
  moreover have "take (nat (m_end h1 - m_start h1 + 1)) (drop (nat (m_start h1)) ?b) = meth" using h1 h(2) m by simp
  moreover have "take (nat (u_end h1 - u_start h1 + 1)) (drop (nat (u_start h1)) ?b) = url" using h1 h(2) m by (simp add: nat_add_distrib)
  ultimately show ?thesis using h1 e t by auto
qed

lemma plain_sample: "\<forall>e \<in> set (header_list sample_header). plain_field e"
  using sample_header_good(1) x_id_unknown
  by (simp add: sample_header_list plain_field_def wf_header_def text_value_def token_name_def isspace_c_def HDR_CONTENT_LENGTH_def HDR_OTHER_def)

text \<open>A message buffer that holds some text.\<close>

definition msg_buf :: "string \<Rightarrow> HttpMsgBuf" where
  "msg_buf s = \<lparr>hm_buf = s, hm_size = length s, h_start = 0, h_end = 0, h_len = 0, req_start = 0, req_end = 0, r_len = 0, m_start = 0, m_end = 0, m_len = 0,
     u_start = 0, u_end = 0, u_len = 0, v_start = 0, v_end = 0, v_len = 0, v_maj = 0, v_min = 0\<rparr>"

theorem request_round_trip_witness:
  "\<exists>msg h1 h2 hdr' fresh. httpRequestPack ''PUT'' ''/a'' \<lparr>ver_major = 1, ver_minor = 1\<rparr> sample_header = Inr msg \<and>
     httpMsgParseRequestLine (msg_buf (msg @ ''12345'')) = Inr (1, h1) \<and> httpMsgFindHeadersEnd h1 = (length msg, h2) \<and>
     httpMsgParseRequestHeader True fresh h2 = Inr (True, hdr') \<and> header_list hdr' = header_list sample_header"
proof -
  obtain fresh where f: "httpHeaderInit (hd_owner sample_header) = Inr fresh" using empty_header [of "hd_owner sample_header"] sample_header_good(1) by (auto simp: wf_header_def)
  obtain msg where m: "httpRequestPack ''PUT'' ''/a'' \<lparr>ver_major = 1, ver_minor = 1\<rparr> sample_header = Inr msg" by (simp add: httpRequestPack_def pack_header)
  have w: "word ''PUT''" "word ''/a''" by (simp_all add: word_def isspace_c_def)
  show ?thesis
    using request_round_trip [OF sample_header_good plain_sample f w _ _ _ m, of "msg_buf (msg @ ''12345'')" "''12345''" True] m by (auto simp: msg_buf_def)
qed

text \<open>
  C7. A request line and header can be any bytes: parsing them ends, fails no assertion and reads nothing
  outside the buffer. If a line was parsed, its method and URL lie inside it, in this order and not empty,
  and the method has no white space. For HTTP/0.9 the end of the header is said to be found at once, and no header is set.
  For other versions it is found exactly if an empty line follows the request line in the buffer: the header is then
  all the bytes between the request line and the first empty line behind it, the number that is returned is
  their length with both lines, and exactly these bytes are parsed, into a header that satisfies its invariant.
\<close>

theorem request_parse_safe:
  assumes "hm_size h \<le> length (hm_buf h)" "wf_header hdr" "one_length hdr"
  shows "\<exists>r h1. httpMsgParseRequestLine h = Inr (r, h1) \<and> r \<in> {- 1, 0, 1} \<and>
    (r = 1 \<longrightarrow> request_parts h1 \<and> hm_buf h1 = hm_buf h \<and> hm_size h1 = hm_size h \<and>
      (\<forall>n h2. httpMsgFindHeadersEnd h1 = (n, h2) \<longrightarrow>
         (if (v_maj h1, v_min h1) = (0, 9) then n = 1 \<and> h2 = h1
          else if n = 0 then no_blank_line (drop (nat (req_end h1) + 1) (take (hm_size h) (hm_buf h)))
          else \<exists>block ok hdr'. header_found h1 n h2 block \<and> httpMsgParseRequestHeader relaxed hdr h2 = Inr (ok, hdr') \<and>
            httpHeaderParse relaxed hdr block = Inr (ok, hdr') \<and> wf_header hdr' \<and> one_length hdr')))"
proof -
  obtain r h1 where r: "httpMsgParseRequestLine h = Inr (r, h1)" "r \<in> {- 1, 0, 1}" "hm_buf h1 = hm_buf h" "hm_size h1 = hm_size h" "r = 1 \<longrightarrow> request_parts h1"
    using request_line_parsed [OF assms(1)] by blast
  have "if (v_maj h1, v_min h1) = (0, 9) then n = 1 \<and> h2 = h1
      else if n = 0 then no_blank_line (drop (nat (req_end h1) + 1) (take (hm_size h) (hm_buf h)))
      else \<exists>block ok hdr'. header_found h1 n h2 block \<and> httpMsgParseRequestHeader relaxed hdr h2 = Inr (ok, hdr') \<and>
        httpHeaderParse relaxed hdr block = Inr (ok, hdr') \<and> wf_header hdr' \<and> one_length hdr'"
    if q: "r = 1" "httpMsgFindHeadersEnd h1 = (n, h2)" for n h2
  proof (cases "(v_maj h1, v_min h1) = (0, 9)")
    case True
    thus ?thesis using q(2) by (simp add: httpMsgFindHeadersEnd_def)
  next
    case False
    have p: "request_parts h1" "hm_size h1 \<le> length (hm_buf h1)" using r q(1) assms(1) by simp_all
    hence re: "0 \<le> req_end h1" by (simp add: request_parts_def)
    show ?thesis
    proof (cases "n = 0")
      case True
      thus ?thesis using headers_end_found [OF p q(2) False] False r(3,4) by simp
    next
      case n: False
      then obtain block where b: "header_found h1 n h2 block" using headers_end_found [OF p q(2) False] by auto
      moreover obtain ok hdr' where "httpHeaderParse relaxed hdr block = Inr (ok, hdr')" "wf_header hdr'" "one_length hdr'"
        using parse_header_good [OF assms(2,3), of relaxed block] by auto
      ultimately show ?thesis using found_block [OF b p(2) re] n False by auto
    qed
  qed
  thus ?thesis using r by blast
qed

theorem request_parse_safe_witness:
  "\<exists>r h1. httpMsgParseRequestLine (msg_buf (''GET /a HTTP/1.1'' @ CRLF @ ''Host: b'' @ CRLF @ CRLF)) = Inr (r, h1) \<and> r \<in> {- 1, 0, 1} \<and>
    (r = 1 \<longrightarrow> request_parts h1 \<and>
      (\<forall>n h2. httpMsgFindHeadersEnd h1 = (n, h2) \<and> (v_maj h1, v_min h1) \<noteq> (0, 9) \<and> n \<noteq> 0 \<longrightarrow>
         (\<exists>block ok hdr'. header_found h1 n h2 block \<and>
            httpMsgParseRequestHeader False \<lparr>hd_entries = [], hd_mask = {}, hd_owner = hoReply, hd_len = 0\<rparr> h2 = Inr (ok, hdr') \<and> wf_header hdr')))"
proof -
  let ?h = "msg_buf (''GET /a HTTP/1.1'' @ CRLF @ ''Host: b'' @ CRLF @ CRLF)"
  have "hm_size ?h \<le> length (hm_buf ?h)" by (simp add: msg_buf_def)
  from request_parse_safe [OF this empty_good, where relaxed = False] show ?thesis by (fastforce split: if_splits)
qed

end
