(* ===== verification/Http_Reply.thy ===== *)
theory Http_Reply
  imports Http_Msg
begin

text \<open>
  Replies: status lines, \<^verbatim>\<open>src/HttpStatusLine.c\<close>, and \<^verbatim>\<open>src/HttpReply.c\<close>, which packs and parses replies and keeps
  the values of important header fields beside the header. A reply that the proxy makes is read back from
  its packed form with the same status, dates, type and length. The clock, the names of the program and two
  configuration flags are an argument.
\<close>

section \<open>Status lines\<close>

definition HTTP_OK :: int where "HTTP_OK = 200"

definition HTTP_NO_CONTENT :: int where "HTTP_NO_CONTENT = 204"

definition HTTP_NOT_MODIFIED :: int where "HTTP_NOT_MODIFIED = 304"

definition HTTP_INTERNAL_SERVER_ERROR :: int where "HTTP_INTERNAL_SERVER_ERROR = 500"

definition HTTP_INVALID_HEADER :: int where "HTTP_INVALID_HEADER = 600"

record HttpStatusLine =
  sl_version :: http_version_t
  sl_reason :: "string option"
  sl_status :: int

definition httpStatusLineSet :: "HttpStatusLine \<Rightarrow> http_version_t \<Rightarrow> int \<Rightarrow> string option \<Rightarrow> HttpStatusLine" where
  "httpStatusLineSet sline version status reason = sline\<lparr>sl_version := version, sl_status := status, sl_reason := reason\<rparr>"

definition httpStatusLineInit :: "HttpStatusLine \<Rightarrow> HttpStatusLine" where
  "httpStatusLineInit sline = httpStatusLineSet sline \<lparr>ver_major = 0, ver_minor = 0\<rparr> 0 None"

definition httpStatusLineClean :: "HttpStatusLine \<Rightarrow> HttpStatusLine" where
  "httpStatusLineClean sline = httpStatusLineSet sline \<lparr>ver_major = 0, ver_minor = 0\<rparr> HTTP_INTERNAL_SERVER_ERROR None"

definition status_strings :: "(int \<times> string) list" where
  "status_strings =
    [(0, ''Init''),
     (100, ''Continue''),
     (101, ''Switching Protocols''),
     (200, ''OK''),
     (201, ''Created''),
     (202, ''Accepted''),
     (203, ''Non-Authoritative Information''),
     (204, ''No Content''),
     (205, ''Reset Content''),
     (206, ''Partial Content''),
     (300, ''Multiple Choices''),
     (301, ''Moved Permanently''),
     (302, ''Moved Temporarily''),
     (303, ''See Other''),
     (304, ''Not Modified''),
     (305, ''Use Proxy''),
     (307, ''Temporary Redirect''),
     (400, ''Bad Request''),
     (401, ''Unauthorized''),
     (402, ''Payment Required''),
     (403, ''Forbidden''),
     (404, ''Not Found''),
     (405, ''Method Not Allowed''),
     (406, ''Not Acceptable''),
     (407, ''Proxy Authentication Required''),
     (408, ''Request Time-out''),
     (409, ''Conflict''),
     (410, ''Gone''),
     (411, ''Length Required''),
     (412, ''Precondition Failed''),
     (413, ''Request Entity Too Large''),
     (414, ''Request-URI Too Long''),
     (415, ''Unsupported Media Type''),
     (500, ''Internal Server Error''),
     (501, ''Not Implemented''),
     (502, ''Bad Gateway''),
     (503, ''Service Unavailable''),
     (504, ''Gateway Time-out''),
     (505, ''HTTP Version not supported''),
     (417, ''Expectation failed'')]"

definition httpStatusString :: "int \<Rightarrow> string" where
  "httpStatusString status = (case map_of status_strings status of Some p \<Rightarrow> p | None \<Rightarrow> ''Unknown'')"

definition httpStatusLineReason :: "HttpStatusLine \<Rightarrow> string" where
  "httpStatusLineReason sline = (case sl_reason sline of Some r \<Rightarrow> r | None \<Rightarrow> httpStatusString (sl_status sline))"

text \<open>\<^verbatim>\<open>%3d\<close>\<close>

definition show_3d :: "int \<Rightarrow> string" where
  "show_3d n = (let s = show_int n in replicate (3 - length s) CHR '' '' @ s)"

definition httpStatusLinePackInto :: "HttpStatusLine \<Rightarrow> string" where
  "httpStatusLinePackInto sline =
     ''HTTP/'' @ show_nat (ver_major (sl_version sline)) @ ''.'' @ show_nat (ver_minor (sl_version sline)) @ '' '' @ show_3d (sl_status sline) @ '' '' @
     httpStatusLineReason sline @ CRLF"

text \<open>The status is read without a bound; a number that does not fit is undefined.\<close>

function status_loop :: "string \<Rightarrow> nat \<Rightarrow> nat \<Rightarrow> int \<Rightarrow> (int \<times> nat) res" where
  "status_loop buf i e v =
     (if i < e \<and> isdigit_c (buf ! i)
      then let v' = v * 10 + (int (of_char (buf ! i)) - 48) in if int32_ok v' then status_loop buf (i + 1) e v' else Inl Undefined
      else Inr (v, i))"
  by pat_completeness auto
termination by (relation "measure (\<lambda>(buf, i, e, v). e - i)") auto

declare status_loop.simps [simp del]

text \<open>\<^verbatim>\<open>httpStatusLineParse\<close> on a buffer that starts with the line; \<open>e\<close> is the offset of the line feed.\<close>

definition httpStatusLineParse :: "HttpStatusLine \<Rightarrow> string \<Rightarrow> nat \<Rightarrow> (bool \<times> HttpStatusLine) res" where
  "httpStatusLineParse sline buf e =
     (let sline = sline\<lparr>sl_status := HTTP_INVALID_HEADER\<rparr>
      in if \<not> strncaseeq buf ''HTTP/'' 5 then Inr (False, sline)
         else res_bind (byte_at buf 5) (\<lambda>c.
           if \<not> isdigit_c c then Inr (False, sline)
           else let (maj, i) = digits_loop buf 5 e 0
                in if i \<ge> e \<or> maj \<ge> 65536 then Inr (False, sline)
                   else if buf ! i \<noteq> CHR ''.'' then Inr (False, sline)
                   else let (mi, i) = digits_loop buf (i + 1) e 0
                        in if i \<ge> e \<or> mi \<ge> 65536 then Inr (False, sline)
                           else res_bind (status_loop buf (i + 1) e 0) (\<lambda>(status, i).
                             if i \<ge> e then Inr (False, sline)
                             else Inr (True, sline\<lparr>sl_version := \<lparr>ver_major = nat maj, ver_minor = nat mi\<rparr>, sl_status := status\<rparr>))))"

section \<open>Replies\<close>

record http_reply =
  rp_hdr_sz :: nat
  rp_content_length :: int
  rp_date :: int
  rp_last_modified :: int
  rp_expires :: int
  rp_content_type :: "string option"
  rp_cache_control :: "cc_header option"
  rp_content_range :: "HttpHdrContRange option"
  rp_keep_alive :: bool
  rp_pstate :: nat
  rp_sline :: HttpStatusLine
  rp_header :: HttpHeader
  rp_body :: string

definition psReadyToParseStartLine :: nat where "psReadyToParseStartLine = 0"

definition psParsed :: nat where "psParsed = 2"

record reply_env =
  squid_curtime :: int
  vary_ignore_expire :: bool
  relaxed_header_parser :: bool
  visible_appname_string :: string
  full_appname_string :: string

text \<open>The expiration time that cache directives give, if any.\<close>

definition cc_expiration :: "reply_env \<Rightarrow> http_reply \<Rightarrow> int option" where
  "cc_expiration env rep =
     (case rp_cache_control rep of
        None \<Rightarrow> None
      | Some cc \<Rightarrow>
          if rp_date rep \<ge> 0
          then if ch_s_maxage cc \<ge> 0 then Some (rp_date rep + ch_s_maxage cc)
               else if ch_max_age cc \<ge> 0 then Some (rp_date rep + ch_max_age cc)
               else None
          else if ch_s_maxage cc \<ge> 0 then Some (squid_curtime env)
          else if ch_max_age cc \<ge> 0 then Some (squid_curtime env)
          else None)"

definition httpReplyHdrExpirationTime :: "reply_env \<Rightarrow> http_reply \<Rightarrow> int res" where
  "httpReplyHdrExpirationTime env rep =
     (case cc_expiration env rep of
        Some t \<Rightarrow> Inr t
      | None \<Rightarrow>
          res_bind (if vary_ignore_expire env then httpHeaderHas (rp_header rep) HDR_VARY else Inr False) (\<lambda>vary.
          res_bind (if vary then res_bind (httpHeaderGetTime (rp_header rep) HDR_DATE) (\<lambda>d.
                                 res_bind (httpHeaderGetTime (rp_header rep) HDR_EXPIRES) (\<lambda>e. Inr (d = e)))
                    else Inr False) (\<lambda>same.
            if same then Inr (- 1)
            else res_bind (httpHeaderHas (rp_header rep) HDR_EXPIRES) (\<lambda>has.
              if has then res_bind (httpHeaderGetTime (rp_header rep) HDR_EXPIRES) (\<lambda>e. Inr (if e < 0 then squid_curtime env else e))
              else Inr (- 1)))))"

definition httpReplyHdrCacheInit :: "reply_env \<Rightarrow> http_reply \<Rightarrow> http_reply res" where
  "httpReplyHdrCacheInit env rep =
     (let hdr = rp_header rep
      in res_bind (httpHeaderGetSize hdr HDR_CONTENT_LENGTH) (\<lambda>clen.
         res_bind (httpHeaderGetTime hdr HDR_DATE) (\<lambda>date.
         res_bind (httpHeaderGetTime hdr HDR_LAST_MODIFIED) (\<lambda>lmt.
         res_bind (httpHeaderGetStr hdr HDR_CONTENT_TYPE) (\<lambda>str.
         res_bind (case str of
                     None \<Rightarrow> Inr None
                   | Some s \<Rightarrow> res_bind (str_make (takeWhile (\<lambda>c. c \<noteq> CHR '';'' \<and> c \<noteq> CHR 0x09 \<and> c \<noteq> CHR '' '') s)) (\<lambda>t. Inr (Some t))) (\<lambda>ct.
         res_bind (httpHeaderGetCc hdr) (\<lambda>cc.
         res_bind (httpHeaderGetContRange hdr) (\<lambda>cr.
         res_bind (httpMsgIsPersistent (sl_version (rp_sline rep)) hdr) (\<lambda>ka.
           let rep = rep\<lparr>rp_content_length := clen, rp_date := date, rp_last_modified := lmt, rp_content_type := ct, rp_cache_control := cc,
                 rp_content_range := cr, rp_keep_alive := ka\<rparr>
           in res_bind (httpReplyHdrExpirationTime env rep) (\<lambda>t. Inr (rep\<lparr>rp_expires := t\<rparr>)))))))))))"

text \<open>What \<^verbatim>\<open>httpReplyHdrCacheClean\<close> frees is overwritten when the reply is used again.\<close>

definition httpReplyInit :: "reply_env \<Rightarrow> http_reply \<Rightarrow> http_reply res" where
  "httpReplyInit env rep =
     res_bind (httpHeaderInit hoReply) (\<lambda>hdr.
     res_bind (httpReplyHdrCacheInit env (rep\<lparr>rp_hdr_sz := 0, rp_pstate := psReadyToParseStartLine, rp_body := [], rp_header := hdr\<rparr>)) (\<lambda>rep.
       Inr (rep\<lparr>rp_sline := httpStatusLineInit (rp_sline rep)\<rparr>)))"

definition httpReplyClean :: "http_reply \<Rightarrow> http_reply" where
  "httpReplyClean rep = rep\<lparr>rp_body := [], rp_content_type := None, rp_cache_control := None, rp_content_range := None, rp_sline := httpStatusLineClean (rp_sline rep)\<rparr>"

definition httpReplyReset :: "reply_env \<Rightarrow> http_reply \<Rightarrow> http_reply res" where
  "httpReplyReset env rep = httpReplyInit env (httpReplyClean rep)"

definition httpReplyParseError :: "reply_env \<Rightarrow> http_reply \<Rightarrow> (int \<times> http_reply) res" where
  "httpReplyParseError env rep =
     res_bind (httpReplyReset env rep) (\<lambda>rep. Inr (- 1, rep\<lparr>rp_sline := (rp_sline rep)\<lparr>sl_status := HTTP_INVALID_HEADER\<rparr>\<rparr>))"

definition httpReplyParseStep :: "reply_env \<Rightarrow> http_reply \<Rightarrow> string \<Rightarrow> nat \<Rightarrow> (int \<times> http_reply) res" where
  "httpReplyParseStep env rep buf len =
     res_bind (c_assert (rp_pstate rep < psParsed)) (\<lambda>_.
       case index_of LF (take len buf) of
         None \<Rightarrow> httpReplyParseError env rep
       | Some n \<Rightarrow>
           let i = n + 1
           in if i \<ge> len then httpReplyParseError env rep
              else res_bind (httpStatusLineParse (rp_sline rep) buf n) (\<lambda>(ok, sline).
                let rep = rep\<lparr>rp_sline := sline\<rparr>
                in if \<not> ok then httpReplyParseError env rep
                   else let rep = rep\<lparr>rp_pstate := rp_pstate rep + 1\<rparr>
                        in res_bind (httpMsgIsolateHeaders buf i (len - i)) (\<lambda>blk.
                          case blk of
                            None \<Rightarrow> httpReplyParseError env rep
                          | Some (parse_start, blk_start, blk_end) \<Rightarrow>
                              if blk_end < blk_start then Inl OutOfBounds
                              else res_bind (httpHeaderParse (relaxed_header_parser env) (rp_header rep) (take (blk_end - blk_start) (drop blk_start buf))) (\<lambda>(ok, hdr).
                                let rep = rep\<lparr>rp_header := hdr\<rparr>
                                in if \<not> ok then httpReplyParseError env rep
                                   else res_bind (httpReplyHdrCacheInit env rep) (\<lambda>rep.
                                     Inr (1, rep\<lparr>rp_hdr_sz := parse_start, rp_pstate := rp_pstate rep + 1\<rparr>))))))"

definition httpReplyParse :: "reply_env \<Rightarrow> http_reply \<Rightarrow> string \<Rightarrow> nat \<Rightarrow> (bool \<times> http_reply) res" where
  "httpReplyParse env rep buf e =
     res_bind (httpReplyReset env rep) (\<lambda>rep.
     res_bind (httpReplyParseStep env rep buf e) (\<lambda>(r, rep). Inr (r = 1, rep)))"

definition httpReplyPackInto :: "http_reply \<Rightarrow> string res" where
  "httpReplyPackInto rep =
     res_bind (httpHeaderPackInto (rp_header rep)) (\<lambda>t. Inr (httpStatusLinePackInto (rp_sline rep) @ t @ CRLF @ rp_body rep))"

definition ImsEntries :: "nat list" where
  "ImsEntries = [HDR_DATE, HDR_CONTENT_TYPE, HDR_EXPIRES, HDR_LAST_MODIFIED, HDR_ETAG]"

fun pack_ims :: "HttpHeader \<Rightarrow> nat list \<Rightarrow> string res" where
  "pack_ims hdr [] = Inr []"
| "pack_ims hdr (i # ids) =
     res_bind (httpHeaderFindEntry hdr i) (\<lambda>eo.
     res_bind (pack_ims hdr ids) (\<lambda>t. Inr ((case eo of None \<Rightarrow> [] | Some e \<Rightarrow> httpHeaderEntryPackInto e) @ t)))"

definition httpPacked304Reply :: "http_reply \<Rightarrow> int \<Rightarrow> string res" where
  "httpPacked304Reply rep http11 =
     res_bind (pack_ims (rp_header rep) ImsEntries) (\<lambda>t. Inr (''HTTP/1.'' @ show_int http11 @ '' 304 Not Modified'' @ CRLF @ t @ CRLF))"

definition httpReplySetHeaders :: "reply_env \<Rightarrow> http_reply \<Rightarrow> int \<Rightarrow> string option \<Rightarrow> string option \<Rightarrow> int \<Rightarrow> int \<Rightarrow> int \<Rightarrow> http_reply res" where
  "httpReplySetHeaders env reply status reason ct clen lmt expires =
     (let sline = httpStatusLineSet (rp_sline reply) \<lparr>ver_major = 1, ver_minor = 0\<rparr> status reason; now = squid_curtime env
      in res_bind (httpHeaderPutStr (rp_header reply) HDR_SERVER (visible_appname_string env)) (\<lambda>hdr.
         res_bind (httpHeaderPutTime hdr HDR_DATE now) (\<lambda>hdr.
         res_bind (case ct of None \<Rightarrow> Inr hdr | Some c \<Rightarrow> httpHeaderPutStr hdr HDR_CONTENT_TYPE c) (\<lambda>hdr.
         res_bind (if clen \<ge> 0 then httpHeaderPutSize hdr HDR_CONTENT_LENGTH clen else Inr hdr) (\<lambda>hdr.
         res_bind (if expires \<ge> 0 then httpHeaderPutTime hdr HDR_EXPIRES expires else Inr hdr) (\<lambda>hdr.
         res_bind (if lmt > 0 then httpHeaderPutTime hdr HDR_LAST_MODIFIED lmt else Inr hdr) (\<lambda>hdr.
           Inr (reply\<lparr>rp_sline := sline, rp_header := hdr, rp_content_type := ct, rp_date := now, rp_content_length := clen, rp_expires := expires,
                 rp_last_modified := lmt, rp_pstate := psParsed\<rparr>))))))))"

definition httpRedirectReply :: "reply_env \<Rightarrow> http_reply \<Rightarrow> int \<Rightarrow> string \<Rightarrow> http_reply res" where
  "httpRedirectReply env reply status loc =
     (let sline = httpStatusLineSet (rp_sline reply) \<lparr>ver_major = 1, ver_minor = 1\<rparr> status (Some (httpStatusString status)); now = squid_curtime env
      in res_bind (httpHeaderPutStr (rp_header reply) HDR_SERVER (full_appname_string env)) (\<lambda>hdr.
         res_bind (httpHeaderPutTime hdr HDR_DATE now) (\<lambda>hdr.
         res_bind (httpHeaderPutSize hdr HDR_CONTENT_LENGTH 0) (\<lambda>hdr.
         res_bind (httpHeaderPutStr hdr HDR_LOCATION loc) (\<lambda>hdr.
           Inr (reply\<lparr>rp_sline := sline, rp_header := hdr, rp_date := now, rp_content_length := 0, rp_pstate := psParsed\<rparr>))))))"

definition Denied304HeadersArr :: "nat list" where
  "Denied304HeadersArr = [HDR_CONTENT_ENCODING, HDR_CONTENT_LANGUAGE, HDR_CONTENT_LENGTH, HDR_CONTENT_LOCATION, HDR_CONTENT_RANGE]"

definition Denied304HeadersMask :: HttpHeaderMask where
  "Denied304HeadersMask = set Denied304HeadersArr"

definition httpReplyUpdateOnNotModified :: "reply_env \<Rightarrow> http_reply \<Rightarrow> http_reply \<Rightarrow> http_reply res" where
  "httpReplyUpdateOnNotModified env rep freshRep =
     res_bind (httpHeaderDelById HDR_AGE (rp_header rep)) (\<lambda>(hdr, _).
     res_bind (httpHeaderUpdate hdr (rp_header freshRep) (Some Denied304HeadersMask)) (\<lambda>hdr.
       httpReplyHdrCacheInit env (rep\<lparr>rp_header := hdr\<rparr>)))"

text \<open>\<^verbatim>\<open>httpReplyClone\<close> appends the body of the new reply, which is empty, to itself.\<close>

definition httpReplyClone :: "reply_env \<Rightarrow> http_reply \<Rightarrow> http_reply \<Rightarrow> http_reply res" where
  "httpReplyClone env blank src =
     res_bind (httpReplyInit env blank) (\<lambda>dst.
     res_bind (httpHeaderAppend (rp_header dst) (rp_header src)) (\<lambda>hdr.
       httpReplyHdrCacheInit env (dst\<lparr>rp_hdr_sz := rp_hdr_sz src, rp_pstate := rp_pstate src, rp_sline := rp_sline src, rp_header := hdr,
         rp_body := rp_body dst @ rp_body dst\<rparr>)))"

definition httpReplyBodySize :: "nat \<Rightarrow> http_reply \<Rightarrow> int" where
  "httpReplyBodySize meth reply =
     (if ver_major (sl_version (rp_sline reply)) < 1 then - 1
      else if meth = METHOD_HEAD then 0
      else if sl_status (rp_sline reply) = HTTP_OK then rp_content_length reply
      else if sl_status (rp_sline reply) = HTTP_NO_CONTENT then 0
      else if sl_status (rp_sline reply) = HTTP_NOT_MODIFIED then 0
      else if sl_status (rp_sline reply) < HTTP_OK then 0
      else rp_content_length reply)"

section \<open>The values beside a header\<close>

text \<open>The fields that the values come from.\<close>

lemma reply_fields:
  "i \<in> {HDR_SERVER, HDR_DATE, HDR_CONTENT_TYPE, HDR_CONTENT_LENGTH, HDR_EXPIRES, HDR_LAST_MODIFIED, HDR_CONTENT_RANGE, HDR_USER_AGENT} \<Longrightarrow>
     i < HDR_ENUM_END \<and> i \<noteq> HDR_OTHER \<and> i \<notin> ListHeadersMask"
  unfolding list_mask_eq ListHeadersArr_def by (auto simp: hdr_ids)

lemma reply_types:
  "header_type HDR_SERVER = ftStr" "header_type HDR_DATE = ftDate_1123" "header_type HDR_CONTENT_TYPE = ftStr" "header_type HDR_CONTENT_LENGTH = ftSize"
  "header_type HDR_EXPIRES = ftDate_1123" "header_type HDR_LAST_MODIFIED = ftDate_1123" "header_type HDR_USER_AGENT = ftStr"
  using header_name_attr [of "''Server''" HDR_SERVER ftStr] header_name_attr [of "''Date''" HDR_DATE ftDate_1123]
    header_name_attr [of "''Content-Type''" HDR_CONTENT_TYPE ftStr] header_name_attr [of "''Content-Length''" HDR_CONTENT_LENGTH ftSize]
    header_name_attr [of "''Expires''" HDR_EXPIRES ftDate_1123] header_name_attr [of "''Last-Modified''" HDR_LAST_MODIFIED ftDate_1123]
    header_name_attr [of "''User-Agent''" HDR_USER_AGENT ftStr] by (simp_all add: HeadersAttrs_def)

definition field_value :: "nat \<Rightarrow> HttpHeaderEntry list \<Rightarrow> string option" where
  "field_value i es = map_option he_value (find (\<lambda>e. he_id e = i) es)"

definition time_value :: "nat \<Rightarrow> HttpHeaderEntry list \<Rightarrow> int" where
  "time_value i es = (case field_value i es of None \<Rightarrow> - 1 | Some v \<Rightarrow> parse_rfc1123 v (length v))"

definition size_value :: "nat \<Rightarrow> HttpHeaderEntry list \<Rightarrow> int" where
  "size_value i es = (case field_value i es of None \<Rightarrow> - 1 | Some v \<Rightarrow> snd (httpHeaderParseSize v))"

definition media_type :: "string \<Rightarrow> string" where
  "media_type = takeWhile (\<lambda>c. c \<noteq> CHR '';'' \<and> c \<noteq> CHR 0x09 \<and> c \<noteq> CHR '' '')"

lemma get_time_value:
  assumes "wf_header h" "i \<in> {HDR_DATE, HDR_EXPIRES, HDR_LAST_MODIFIED}"
  shows "httpHeaderGetTime h i = Inr (time_value i (header_list h))"
  using find_entry [OF assms(1), of i] reply_fields [of i] assms(2) reply_types
  by (auto simp: httpHeaderGetTime_def time_value_def field_value_def split: option.split)

lemma get_size_value: "wf_header h \<Longrightarrow> httpHeaderGetSize h HDR_CONTENT_LENGTH = Inr (size_value HDR_CONTENT_LENGTH (header_list h))"
  using find_entry [of h HDR_CONTENT_LENGTH] reply_fields [of HDR_CONTENT_LENGTH] reply_types
  by (auto simp: httpHeaderGetSize_def size_value_def field_value_def split: option.split)

lemma get_str_value: "wf_header h \<Longrightarrow> i \<in> {HDR_CONTENT_TYPE, HDR_USER_AGENT} \<Longrightarrow> httpHeaderGetStr h i = Inr (field_value i (header_list h))"
  using find_entry [of h i] reply_fields [of i] reply_types by (auto simp: httpHeaderGetStr_def field_value_def)

text \<open>A header without the fields that the proxy reads lists and ranges from.\<close>

definition simple_header :: "HttpHeaderEntry list \<Rightarrow> bool" where
  "simple_header es \<longleftrightarrow> (\<forall>e \<in> set es. he_id e \<notin> {HDR_CACHE_CONTROL, HDR_CONTENT_RANGE, HDR_CONNECTION, HDR_PROXY_CONNECTION, HDR_USER_AGENT, HDR_VARY})"

lemma absent_field: "wf_header h \<Longrightarrow> \<forall>e \<in> set (header_list h). he_id e \<noteq> i \<Longrightarrow> i < HDR_ENUM_END \<Longrightarrow> i \<noteq> HDR_OTHER \<Longrightarrow> httpHeaderHas h i = Inr False"
  by (auto simp: httpHeaderHas_def wf_header_def)

lemma cache_init_simple:
  assumes wf: "wf_header (rp_header rep)" and si: "simple_header (header_list (rp_header rep))"
    and ver: "ver_major (sl_version (rp_sline rep)) \<le> 1" "ver_minor (sl_version (rp_sline rep)) = 0"
  shows "httpReplyHdrCacheInit env rep = (let es = header_list (rp_header rep); ex = time_value HDR_EXPIRES es in
    Inr (rep\<lparr>rp_content_length := size_value HDR_CONTENT_LENGTH es, rp_date := time_value HDR_DATE es, rp_last_modified := time_value HDR_LAST_MODIFIED es,
      rp_content_type := map_option media_type (field_value HDR_CONTENT_TYPE es), rp_cache_control := None, rp_content_range := None, rp_keep_alive := False,
      rp_expires := (if field_value HDR_EXPIRES es = None then - 1 else if ex < 0 then squid_curtime env else ex)\<rparr>))"
proof -
  let ?h = "rp_header rep" let ?es = "header_list ?h"
  have no: "httpHeaderHas ?h i = Inr False" if "i \<in> {HDR_CONNECTION, HDR_PROXY_CONNECTION, HDR_VARY}" for i
    using that si by (intro absent_field [OF wf]) (auto simp: simple_header_def hdr_ids)
  have c: "httpHeaderHasConnDir ?h d = Inr False" for d using no by (simp add: httpHeaderHasConnDir_def)
  have ua: "field_value HDR_USER_AGENT ?es = None" using si by (auto simp: field_value_def simple_header_def find_None_iff)
  have ka: "httpMsgIsPersistent (sl_version (rp_sline rep)) ?h = Inr False" using c ver get_str_value [OF wf, of HDR_USER_AGENT] ua by (simp add: httpMsgIsPersistent_def)
  have cc: "httpHeaderGetCc ?h = Inr None" using wf si by (auto simp: httpHeaderGetCc_def wf_header_def simple_header_def)
  have "find (\<lambda>e. he_id e = HDR_CONTENT_RANGE) ?es = None" using si by (auto simp: simple_header_def find_None_iff)
  hence cr: "httpHeaderGetContRange ?h = Inr None"
    using find_entry [OF wf, of HDR_CONTENT_RANGE] reply_fields [of HDR_CONTENT_RANGE] by (simp add: httpHeaderGetContRange_def)
  have "length v < str_limit" if "field_value HDR_CONTENT_TYPE ?es = Some v" for v
    using that wf by (auto simp: field_value_def find_Some_iff wf_header_def wf_field_def)
  hence ty: "(case field_value HDR_CONTENT_TYPE ?es of None \<Rightarrow> Inr None
      | Some s \<Rightarrow> res_bind (str_make (takeWhile (\<lambda>c. c \<noteq> CHR '';'' \<and> c \<noteq> CHR 0x09 \<and> c \<noteq> CHR '' '') s)) (\<lambda>t. Inr (Some t)))
    = Inr (map_option media_type (field_value HDR_CONTENT_TYPE ?es))"
    using length_takeWhile_le le_less_trans by (fastforce simp: str_make_def media_type_def split: option.split)
  have ex: "httpHeaderHas ?h HDR_EXPIRES = Inr (field_value HDR_EXPIRES ?es \<noteq> None)"
    using wf by (auto simp: httpHeaderHas_def wf_header_def field_value_def find_None_iff hdr_ids)
  show ?thesis
    using get_time_value [OF wf] get_size_value [OF wf] get_str_value [OF wf, of HDR_CONTENT_TYPE] ty cc cr ka ex no [of HDR_VARY]
    by (simp add: httpReplyHdrCacheInit_def httpReplyHdrExpirationTime_def cc_expiration_def Let_def)
qed

section \<open>A packed reply\<close>

lemma status_loop_word:
  assumes "drop i buf = ds @ r" "list_all isdigit_c ds" "i + length ds \<le> e" "length buf \<ge> e" "i + length ds = e \<or> r = [] \<or> \<not> isdigit_c (hd r)"
    "foldl (\<lambda>v c. 10 * v + (of_char c - 48)) v ds < 2147483648"
  shows "status_loop buf i e (int v) = Inr (int (foldl (\<lambda>v c. 10 * v + (of_char c - 48)) v ds), i + length ds)"
  using assms
proof (induction ds arbitrary: i v)
  case Nil
  have "i < e \<Longrightarrow> r \<noteq> [] \<and> buf ! i = hd r" using Nil.prems(1,4) by (metis append_Nil drop_eq_Nil hd_drop_conv_nth le_less_trans not_le order_less_le_trans)
  thus ?case using Nil.prems by (subst status_loop.simps) auto
next
  case (Cons c ds)
  let ?v = "10 * v + (of_char c - 48)"
  have c: "buf ! i = c" "drop (i + 1) buf = ds @ r" "i < length buf" "isdigit_c c"
    using drop_ConsD [of i buf c] Cons.prems(1,2) by simp_all
  have mono: "u \<le> foldl (\<lambda>v c. 10 * v + (of_char c - 48)) u xs" for xs :: string and u :: nat
  proof (induction xs arbitrary: u)
    case (Cons x xs)
    show ?case using Cons [of "10 * u + (of_char x - 48)"] by simp
  qed simp
  have "?v < 2147483648" using mono [of ?v ds] Cons.prems(6) by simp
  hence ok: "int32_ok (int ?v)" by (simp add: int32_ok_def)
  have "48 \<le> (of_char c :: nat)" using c(4) by (simp add: isdigit_c_def)
  hence e: "int v * 10 + (int (of_char c) - 48) = int ?v" by linarith
  have "status_loop buf i e (int v) = status_loop buf (i + 1) e (int ?v)"
    using Cons.prems(3) c ok by (subst status_loop.simps) (simp add: e del: of_nat_add of_nat_mult)
  thus ?case using Cons.IH [of "i + 1" ?v] Cons.prems c by simp
qed

lemma status_line_packed:
  assumes b: "buf = ''HTTP/'' @ show_nat maj @ ''.'' @ show_nat mi @ '' '' @ show_nat st @ '' '' @ r @ LF # rest" and v: "maj < 65536" "mi < 65536" "st < 2147483648"
    and e: "e = length (''HTTP/'' @ show_nat maj @ ''.'' @ show_nat mi @ '' '' @ show_nat st @ '' '' @ r)"
  shows "httpStatusLineParse sl buf e = Inr (True, sl\<lparr>sl_version := \<lparr>ver_major = maj, ver_minor = mi\<rparr>, sl_status := int st\<rparr>)"
proof -
  let ?a = "length (show_nat maj)" let ?m = "length (show_nat mi)" let ?s = "length (show_nat st)"
  have h: "strncaseeq buf ''HTTP/'' 5" by (simp add: b strncaseeq_def)
  have d5: "drop 5 buf = show_nat maj @ ''.'' @ show_nat mi @ '' '' @ show_nat st @ '' '' @ r @ LF # rest" by (simp add: b)
  obtain c cs where c: "show_nat maj = c # cs" "isdigit_c c" using show_nat_digits [of maj] by (cases "show_nat maj") auto
  have 5: "byte_at buf 5 = Inr c" using drop_ConsD [of 5 buf c] d5 c(1) by simp
  have len: "length buf \<ge> e" by (simp add: b e)
  have 1: "digits_loop buf 5 e 0 = (int maj, 5 + ?a)" by (rule digits_loop_show [OF d5 _ len _ v(1)]) (simp_all add: e isdigit_c_def)
  have "drop (5 + ?a) buf = ''.'' @ show_nat mi @ '' '' @ show_nat st @ '' '' @ r @ LF # rest" using d5 drop_drop [of ?a 5 buf] by (simp add: add.commute)
  hence dot: "buf ! (5 + ?a) = CHR ''.''" and d6: "drop (5 + ?a + 1) buf = show_nat mi @ '' '' @ show_nat st @ '' '' @ r @ LF # rest"
    using drop_ConsD [of "5 + ?a" buf "CHR ''.''"] by simp_all
  have 2: "digits_loop buf (5 + ?a + 1) e 0 = (int mi, 5 + ?a + 1 + ?m)" by (rule digits_loop_show [OF d6 _ len _ v(2)]) (simp_all add: e isdigit_c_def)
  have "drop (5 + ?a + 1 + ?m) buf = '' '' @ show_nat st @ '' '' @ r @ LF # rest" using d6 drop_drop [of ?m "5 + ?a + 1" buf] by (simp add: add.commute)
  hence d7: "drop (5 + ?a + 1 + ?m + 1) buf = show_nat st @ '' '' @ r @ LF # rest" using drop_ConsD [of "5 + ?a + 1 + ?m" buf "CHR '' ''"] by simp
  have ds: "list_all isdigit_c (show_nat st)" using show_nat_digits [of st] by (simp add: list_all_iff)
  have vs: "foldl (\<lambda>v c. 10 * v + (of_char c - 48)) 0 (show_nat st) = st" using digits_val_show_nat [of st] by (simp add: digits_val_def)
  have 3: "status_loop buf (5 + ?a + 1 + ?m + 1) e 0 = Inr (int st, 5 + ?a + 1 + ?m + 1 + ?s)"
    using status_loop_word [OF d7 ds _ len, of 0] v(3) by (simp add: vs e isdigit_c_def)
  have "\<not> (5 + ?a \<ge> e \<or> int maj \<ge> 65536)" "\<not> (5 + ?a + 1 + ?m \<ge> e \<or> int mi \<ge> 65536)" "\<not> 5 + ?a + 1 + ?m + 1 + ?s \<ge> e" using v by (simp_all add: e)
  thus ?thesis unfolding httpStatusLineParse_def Let_def 5 1 2 3 res_bind_simps prod.case using h c(2) dot 2 3 by simp
qed

lemma headers_scan_find: "headers_scan s e st = (fst (find_scan s e st he), fst (snd (find_scan s e st he)))"
  by (induction s arbitrary: e st he) auto

lemma headers_end_packed:
  assumes "\<forall>e \<in> set es. plain_field e" "t = concat (map httpHeaderEntryPackInto es)"
  shows "headersEnd (t @ CRLF @ body) (length t + 2) = length t + 2"
proof -
  have tk: "take (length t + 2) (t @ CRLF @ body) = t @ CRLF" by (simp add: CRLF_def)
  have "find_scan (t @ CRLF) 0 1 (- 1) = find_scan CRLF (length t) 1 (if es = [] then - 1 else int (length t) - 1)"
    using find_scan_fields [OF assms(1), of CRLF 0 "- 1"] unfolding assms(2) by simp
  hence "find_scan (t @ CRLF) 0 1 (- 1) = (length t + 2, 3, if es = [] then - 1 else int (length t) - 1)" by (simp add: CRLF_def scan_state_def)
  thus ?thesis unfolding headersEnd_def tk using headers_scan_find [of "t @ CRLF" 0 1 "- 1"] by simp
qed

lemma isolate_packed:
  assumes es: "\<forall>e \<in> set es. plain_field e" "t = concat (map httpHeaderEntryPackInto es)" and b: "buf = l @ LF # t @ CRLF @ body"
  shows "httpMsgIsolateHeaders buf (length l + 1) (length t + 2) = Inr (Some (length l + 1 + length t + 2, length l + 1, length l + 1 + length t))"
proof -
  let ?p = "length l + 1" let ?n = "length t"
  have d: "drop ?p buf = t @ CRLF @ body" by (simp add: b)
  have en: "headersEnd (drop ?p buf) (?n + 2) = ?n + 2" unfolding d by (rule headers_end_packed [OF es])
  have b2: "buf = (l @ LF # t) @ CR # LF # body" by (simp add: b CRLF_def)
  have cr: "buf ! (?p + ?n) = CR" unfolding b2 by (subst nth_append) simp
  have lf: "buf ! (?p + ?n + 1) = LF" unfolding b2 by (subst nth_append) (simp add: nth_Cons')
  have "\<exists>u. LF # t = u @ [LF]"
  proof (cases es rule: rev_cases)
    case (snoc fs f)
    thus ?thesis unfolding es(2) by (simp add: httpHeaderEntryPackInto_def CRLF_def)
  qed (simp add: es(2))
  then obtain u where u: "LF # t = u @ [LF]" by blast
  have "length u = ?n" using arg_cong [OF u, of length] by simp
  moreover have "buf = (l @ u) @ LF # CR # LF # body" using u b2 by simp
  ultimately have nl: "buf ! (?p + ?n - 1) = LF" by (simp add: nth_append)
  have len: "?p + ?n + 1 < length buf" by (simp add: b CRLF_def)
  obtain k where k: "?p + ?n = Suc k" "buf ! k = LF" "k < length buf" using nl len by auto
  have "back_over_cr buf (?p + ?n + 1) = back_over_cr buf (?p + ?n)" using cr len by simp
  also have "\<dots> = Inr (?p + ?n)" using k by simp
  finally have bk: "back_over_cr buf (?p + ?n + 1) = Inr (?p + ?n)" .
  have e: "?p + (?n + 2) - 1 = ?p + ?n + 1" by simp
  show ?thesis unfolding httpMsgIsolateHeaders_def Let_def en e bk byte_at_in [OF len] lf using nl len by simp
qed

lemma reset_reply:
  "\<exists>rep'. httpReplyReset env rep = Inr rep' \<and> rp_pstate rep' = 0 \<and> httpHeaderInit hoReply = Inr (rp_header rep') \<and> rp_body rep' = [] \<and>
     rp_sline rep' = \<lparr>sl_version = \<lparr>ver_major = 0, ver_minor = 0\<rparr>, sl_reason = None, sl_status = 0\<rparr>"
proof -
  obtain h where h: "httpHeaderInit hoReply = Inr h" "wf_header h" "header_list h = []" using empty_header [of hoReply] by auto
  let ?r = "(httpReplyClean rep)\<lparr>rp_hdr_sz := 0, rp_pstate := psReadyToParseStartLine, rp_body := [], rp_header := h\<rparr>"
  have "httpReplyHdrCacheInit env ?r = (let es = header_list (rp_header ?r); ex = time_value HDR_EXPIRES es in
    Inr (?r\<lparr>rp_content_length := size_value HDR_CONTENT_LENGTH es, rp_date := time_value HDR_DATE es, rp_last_modified := time_value HDR_LAST_MODIFIED es,
      rp_content_type := map_option media_type (field_value HDR_CONTENT_TYPE es), rp_cache_control := None, rp_content_range := None, rp_keep_alive := False,
      rp_expires := (if field_value HDR_EXPIRES es = None then - 1 else if ex < 0 then squid_curtime env else ex)\<rparr>))"
    using h by (intro cache_init_simple) (simp_all add: simple_header_def httpReplyClean_def httpStatusLineClean_def httpStatusLineSet_def)
  thus ?thesis using h by (simp add: httpReplyReset_def httpReplyInit_def Let_def psReadyToParseStartLine_def httpStatusLineInit_def httpStatusLineSet_def)
qed

text \<open>A reply that was packed is parsed up to the values that are taken from its header.\<close>

lemma parse_packed_reply:
  assumes wf: "wf_header (rp_header rep)" "one_length (rp_header rep)" "\<forall>e \<in> set (header_list (rp_header rep)). plain_field e" "hd_owner (rp_header rep) = hoReply"
    and v: "ver_major (sl_version (rp_sline rep)) < 65536" "ver_minor (sl_version (rp_sline rep)) < 65536" "100 \<le> sl_status (rp_sline rep)" "sl_status (rp_sline rep) < 2147483648"
      "LF \<notin> set (httpStatusLineReason (rp_sline rep))"
    and pk: "httpReplyPackInto (rep\<lparr>rp_body := []\<rparr>) = Inr msg"
  shows "\<exists>r0 hdr. httpReplyReset env old = Inr r0 \<and> wf_header hdr \<and> header_list hdr = header_list (rp_header rep) \<and>
    httpReplyParse env old (msg @ body) (length msg) =
      res_bind (httpReplyHdrCacheInit env (r0\<lparr>rp_sline := (rp_sline r0)\<lparr>sl_version := sl_version (rp_sline rep), sl_status := sl_status (rp_sline rep)\<rparr>, rp_pstate := 1, rp_header := hdr\<rparr>))
        (\<lambda>r. Inr (True, r\<lparr>rp_hdr_sz := length msg, rp_pstate := rp_pstate r + 1\<rparr>))"
proof -
  let ?sl = "rp_sline rep" let ?es = "header_list (rp_header rep)" let ?t = "concat (map httpHeaderEntryPackInto ?es)"
  define maj where "maj = ver_major (sl_version ?sl)"
  define mi where "mi = ver_minor (sl_version ?sl)"
  define st where "st = nat (sl_status ?sl)"
  define reason where "reason = httpStatusLineReason ?sl @ [CR]"
  define l where "l = ''HTTP/'' @ show_nat maj @ ''.'' @ show_nat mi @ '' '' @ show_nat st @ '' '' @ reason"
  obtain r0 where r0: "httpReplyReset env old = Inr r0" "rp_pstate r0 = 0" "httpHeaderInit hoReply = Inr (rp_header r0)"
    using reset_reply [of env old] by blast
  obtain hdr where hdr: "httpHeaderParse (relaxed_header_parser env) (rp_header r0) ?t = Inr (True, hdr)" "header_list hdr = ?es" "wf_header hdr"
    using pack_parse_header [OF wf(1-3), of "[]" "rp_header r0" "relaxed_header_parser env"] r0(3) wf(4) pack_header [of "rp_header rep"] by auto
  have st: "100 \<le> st" "int st = sl_status ?sl" "st < 2147483648" using v(3,4) by (simp_all add: st_def nat_less_iff)
  have "show_nat st = show_nat (st div 10) @ [digit_char (st mod 10)]" by (subst show_nat.simps) (use st(1) in simp)
  moreover have "show_nat (st div 10) = show_nat (st div 10 div 10) @ [digit_char (st div 10 mod 10)]" by (subst show_nat.simps) (use st(1) in auto)
  ultimately have "length (show_nat st) \<ge> 3" using show_nat_not_Nil [of "st div 10 div 10"] by (cases "show_nat (st div 10 div 10)") auto
  hence s3: "show_3d (sl_status ?sl) = show_nat st" using st by (simp add: show_3d_def show_int_def Let_def st_def)
  have m: "msg = l @ LF # ?t @ CRLF"
    using pk by (simp add: httpReplyPackInto_def pack_header httpStatusLinePackInto_def s3 CRLF_def l_def reason_def maj_def mi_def)
  have "LF \<notin> set (show_nat n)" for n using show_nat_digits [of n] by (auto simp: isdigit_c_def)
  hence nl: "LF \<notin> set l" using v(5) by (simp add: l_def reason_def)
  have tw: "takeWhile (\<lambda>x. x \<noteq> LF) (xs @ LF # ys) = xs" if "LF \<notin> set xs" for xs ys using that by (induction xs) auto
  have ix: "index_of LF (take (length msg) (msg @ body)) = Some (length l)" using tw [OF nl, of "?t @ CRLF"] unfolding index_of_def m by simp
  have sl: "httpStatusLineParse (rp_sline r0) (msg @ body) (length l) =
      Inr (True, (rp_sline r0)\<lparr>sl_version := sl_version ?sl, sl_status := sl_status ?sl\<rparr>)"
    using status_line_packed [of "msg @ body" maj mi st reason "?t @ CRLF @ body" "length l" "rp_sline r0"] v st by (simp add: m l_def maj_def mi_def)
  have bl: "httpMsgIsolateHeaders (msg @ body) (length l + 1) (length msg - (length l + 1)) = Inr (Some (length msg, length l + 1, length l + 1 + length ?t))"
    using isolate_packed [OF wf(3) refl, of "msg @ body" l body] by (simp add: m CRLF_def)
  have tk: "take (length l + 1 + length ?t - (length l + 1)) (drop (length l + 1) (msg @ body)) = ?t" by (simp add: m)
  have lt: "\<not> length l + 1 \<ge> length msg" "\<not> length l + 1 + length ?t < length l + 1" by (simp_all add: m CRLF_def)
  have "httpReplyParseStep env r0 (msg @ body) (length msg) =
      res_bind (httpReplyHdrCacheInit env (r0\<lparr>rp_sline := (rp_sline r0)\<lparr>sl_version := sl_version ?sl, sl_status := sl_status ?sl\<rparr>, rp_pstate := 1, rp_header := hdr\<rparr>))
        (\<lambda>r. Inr (1, r\<lparr>rp_hdr_sz := length msg, rp_pstate := rp_pstate r + 1\<rparr>))"
    unfolding httpReplyParseStep_def Let_def ix option.case if_not_P [OF lt(1)] sl res_bind_simps prod.case using r0(2) bl lt(2) hdr(1) tk by (simp add: psParsed_def)
  hence "httpReplyParse env old (msg @ body) (length msg) =
      res_bind (httpReplyHdrCacheInit env (r0\<lparr>rp_sline := (rp_sline r0)\<lparr>sl_version := sl_version ?sl, sl_status := sl_status ?sl\<rparr>, rp_pstate := 1, rp_header := hdr\<rparr>))
        (\<lambda>r. Inr (True, r\<lparr>rp_hdr_sz := length msg, rp_pstate := rp_pstate r + 1\<rparr>))"
    by (simp add: httpReplyParse_def r0(1) res_bind_def split: sum.split)
  thus ?thesis using r0(1) hdr by blast
qed

section \<open>Replies that the proxy makes\<close>

definition known_field :: "nat \<Rightarrow> string \<Rightarrow> HttpHeaderEntry" where
  "known_field i v = \<lparr>he_id = i, he_name = header_name i, he_value = v\<rparr>"

lemma known_field_simps [simp]: "he_id (known_field i v) = i" "he_value (known_field i v) = v"
  by (simp_all add: known_field_def)

definition printable_time :: "int \<Rightarrow> bool" where
  "printable_time t \<longleftrightarrow> 0 \<le> t \<and> t < 253402300800"

lemma printable_time_text: "printable_time t \<Longrightarrow> text_value (mkrfc1123 t) \<and> length (mkrfc1123 t) < str_limit \<and> parse_rfc1123 (mkrfc1123 t) (length (mkrfc1123 t)) = t"
  using printed_text [of t] parse_printed [of t] unfolding printable_time_def text_value_def by (fastforce simp: str_limit_def isspace_c_def)

lemma show_int_text: "0 \<le> n \<Longrightarrow> text_value (show_int n)"
proof -
  have "text_value ds" if "list_all isdigit_c ds" for ds
  proof (cases ds rule: rev_cases)
    case (snoc xs x)
    have "hd ds \<in> set ds" using snoc by (intro hd_in_set) simp
    hence "\<not> isspace_c (hd ds)" using that hd_digit(1) by (auto simp: list_all_iff)
    moreover have "\<not> isspace_c (last ds)" using that hd_digit(1) snoc by auto
    ultimately show ?thesis using that by (auto simp: text_value_def list_all_iff isdigit_c_def)
  qed (simp add: text_value_def)
  thus "0 \<le> n \<Longrightarrow> text_value (show_int n)" using show_nat_digits by (simp add: show_int_def list_all_iff)
qed

lemma put_reply_field:
  assumes "i \<in> {HDR_SERVER, HDR_DATE, HDR_CONTENT_TYPE, HDR_CONTENT_LENGTH, HDR_EXPIRES, HDR_LAST_MODIFIED}" "length v < str_limit"
  shows "put_entry h i v = Inr (added h (known_field i v))" "text_value v \<Longrightarrow> plain_field (known_field i v)"
  using put_known(1) [of i v h] put_known(2) [of i v] reply_fields [of i] assms by (auto simp: known_field_def plain_field_def)

lemma put_reply_values:
  "length v < str_limit \<Longrightarrow> i \<in> {HDR_SERVER, HDR_CONTENT_TYPE} \<Longrightarrow> httpHeaderPutStr h i v = Inr (added h (known_field i v))"
  "printable_time t \<Longrightarrow> i \<in> {HDR_DATE, HDR_EXPIRES, HDR_LAST_MODIFIED} \<Longrightarrow> httpHeaderPutTime h i t = Inr (added h (known_field i (mkrfc1123 t)))"
  "0 \<le> n \<Longrightarrow> int64_ok n \<Longrightarrow> httpHeaderPutSize h HDR_CONTENT_LENGTH n = Inr (added h (known_field HDR_CONTENT_LENGTH (show_int n)))"
  using reply_fields reply_types put_reply_field(1) printable_time_text show_int_short
  by (auto simp: httpHeaderPutStr_def httpHeaderPutTime_def httpHeaderPutSize_def printable_time_def)

text \<open>The fields of a reply that the proxy makes.\<close>

definition made_fields :: "reply_env \<Rightarrow> string option \<Rightarrow> int \<Rightarrow> int \<Rightarrow> int \<Rightarrow> HttpHeaderEntry list" where
  "made_fields env ct clen lmt expires =
     [known_field HDR_SERVER (visible_appname_string env), known_field HDR_DATE (mkrfc1123 (squid_curtime env))] @
     (case ct of None \<Rightarrow> [] | Some c \<Rightarrow> [known_field HDR_CONTENT_TYPE c]) @
     (if clen \<ge> 0 then [known_field HDR_CONTENT_LENGTH (show_int clen)] else []) @
     (if expires \<ge> 0 then [known_field HDR_EXPIRES (mkrfc1123 expires)] else []) @
     (if lmt > 0 then [known_field HDR_LAST_MODIFIED (mkrfc1123 lmt)] else [])"

text \<open>The arguments are texts without line breaks, a length of 64 bits or none, and times up to the year 9999 or none.\<close>

definition makeable :: "reply_env \<Rightarrow> int \<Rightarrow> string option \<Rightarrow> string option \<Rightarrow> int \<Rightarrow> int \<Rightarrow> int \<Rightarrow> bool" where
  "makeable env status reason ct clen lmt expires \<longleftrightarrow>
     text_value (visible_appname_string env) \<and> length (visible_appname_string env) < str_limit \<and> printable_time (squid_curtime env) \<and>
     100 \<le> status \<and> status < 1000 \<and> (\<forall>r. reason = Some r \<longrightarrow> LF \<notin> set r) \<and> (\<forall>c. ct = Some c \<longrightarrow> text_value c \<and> length c < str_limit) \<and>
     (clen = - 1 \<or> 0 \<le> clen \<and> int64_ok clen) \<and> (lmt = - 1 \<or> lmt \<noteq> 0 \<and> printable_time lmt) \<and> (expires = - 1 \<or> printable_time expires)"

lemma set_headers_made:
  assumes "makeable env status reason ct clen lmt expires"
  shows "httpReplySetHeaders env reply status reason ct clen lmt expires =
    Inr (reply\<lparr>rp_sline := httpStatusLineSet (rp_sline reply) \<lparr>ver_major = 1, ver_minor = 0\<rparr> status reason,
      rp_header := fold (\<lambda>e h. added h e) (made_fields env ct clen lmt expires) (rp_header reply), rp_content_type := ct, rp_date := squid_curtime env,
      rp_content_length := clen, rp_expires := expires, rp_last_modified := lmt, rp_pstate := psParsed\<rparr>)"
proof -
  note m = assms [unfolded makeable_def]
  have 1: "(case ct of None \<Rightarrow> Inr h | Some c \<Rightarrow> httpHeaderPutStr h HDR_CONTENT_TYPE c) =
    Inr (fold (\<lambda>e h. added h e) (case ct of None \<Rightarrow> [] | Some c \<Rightarrow> [known_field HDR_CONTENT_TYPE c]) h)" for h
    using m put_reply_values(1) by (auto split: option.split)
  have 2: "(if clen \<ge> 0 then httpHeaderPutSize h HDR_CONTENT_LENGTH clen else Inr h) =
    Inr (fold (\<lambda>e h. added h e) (if clen \<ge> 0 then [known_field HDR_CONTENT_LENGTH (show_int clen)] else []) h)" for h
    using m put_reply_values(3) by auto
  have 3: "(if expires \<ge> 0 then httpHeaderPutTime h HDR_EXPIRES expires else Inr h) =
    Inr (fold (\<lambda>e h. added h e) (if expires \<ge> 0 then [known_field HDR_EXPIRES (mkrfc1123 expires)] else []) h)" for h
    using m put_reply_values(2) by auto
  have 4: "(if lmt > 0 then httpHeaderPutTime h HDR_LAST_MODIFIED lmt else Inr h) =
    Inr (fold (\<lambda>e h. added h e) (if lmt > 0 then [known_field HDR_LAST_MODIFIED (mkrfc1123 lmt)] else []) h)" for h
    using m put_reply_values(2) by auto
  have 5: "httpHeaderPutStr h HDR_SERVER (visible_appname_string env) = Inr (added h (known_field HDR_SERVER (visible_appname_string env)))"
    "httpHeaderPutTime h HDR_DATE (squid_curtime env) = Inr (added h (known_field HDR_DATE (mkrfc1123 (squid_curtime env))))" for h
    using m put_reply_values(1,2) by auto
  show ?thesis unfolding httpReplySetHeaders_def Let_def 5 res_bind_simps 1 2 3 4 by (simp add: made_fields_def)
qed

lemma made_plain:
  assumes "makeable env status reason ct clen lmt expires"
  shows "\<forall>e \<in> set (made_fields env ct clen lmt expires). plain_field e"
  using assms put_reply_field(2) printable_time_text show_int_text show_int_short
  by (auto simp: made_fields_def makeable_def split: option.split)

lemma made_values:
  assumes "makeable env status reason ct clen lmt expires" "es = made_fields env ct clen lmt expires"
  shows "simple_header es" "size_value HDR_CONTENT_LENGTH es = clen" "time_value HDR_DATE es = squid_curtime env" "time_value HDR_LAST_MODIFIED es = lmt"
    "field_value HDR_CONTENT_TYPE es = ct" "field_value HDR_EXPIRES es = None \<longleftrightarrow> expires = - 1" "time_value HDR_EXPIRES es = expires"
    "length (filter (\<lambda>e. he_id e = HDR_CONTENT_LENGTH) es) \<le> 1" "\<forall>e \<in> set es. he_id e = HDR_CONTENT_LENGTH \<longrightarrow> fst (httpHeaderParseSize (he_value e))"
proof -
  note m = assms(1) [unfolded makeable_def]
  have p: "0 \<le> clen \<Longrightarrow> httpHeaderParseSize (show_int clen) = (True, clen)" using m parseSize_show_int [of clen "[]"] by auto
  have t: "parse_rfc1123 (mkrfc1123 t) (length (mkrfc1123 t)) = t" if "printable_time t" for t using that printable_time_text by blast
  have neg: "clen < 0 \<Longrightarrow> clen = - 1" "lmt \<le> 0 \<Longrightarrow> lmt = - 1" "expires < 0 \<Longrightarrow> expires = - 1" using m by (auto simp: printable_time_def)
  show "simple_header es" unfolding assms(2) made_fields_def simple_header_def by (auto simp: hdr_ids split: option.splits if_splits)
  show "size_value HDR_CONTENT_LENGTH es = clen" using p neg unfolding assms(2) made_fields_def size_value_def field_value_def by (auto simp: hdr_ids split: option.split)
  show "time_value HDR_DATE es = squid_curtime env" using t m unfolding assms(2) made_fields_def time_value_def field_value_def by (simp add: hdr_ids)
  show "time_value HDR_LAST_MODIFIED es = lmt" using t m neg unfolding assms(2) made_fields_def time_value_def field_value_def by (auto simp: hdr_ids split: option.split)
  show "field_value HDR_CONTENT_TYPE es = ct" unfolding assms(2) made_fields_def field_value_def by (auto simp: hdr_ids split: option.split)
  show "field_value HDR_EXPIRES es = None \<longleftrightarrow> expires = - 1" using neg unfolding assms(2) made_fields_def field_value_def by (auto simp: hdr_ids split: option.split)
  show "time_value HDR_EXPIRES es = expires" using t m neg unfolding assms(2) made_fields_def time_value_def field_value_def by (auto simp: hdr_ids split: option.split)
  show "length (filter (\<lambda>e. he_id e = HDR_CONTENT_LENGTH) es) \<le> 1" unfolding assms(2) made_fields_def by (auto simp: hdr_ids split: option.split)
  show "\<forall>e \<in> set es. he_id e = HDR_CONTENT_LENGTH \<longrightarrow> fst (httpHeaderParseSize (he_value e))" using p unfolding assms(2) made_fields_def by (auto simp: hdr_ids split: option.split)
qed

lemma status_strings_plain: "LF \<notin> set (httpStatusString st)"
proof -
  have "\<forall>(c, p) \<in> set status_strings. LF \<notin> set p" by code_simp
  thus ?thesis using map_of_SomeD [of status_strings st] by (cases "map_of status_strings st") (auto simp: httpStatusString_def)
qed

text \<open>
  C9. A reply that the proxy makes is read back: a new reply with a status, a type, a length and times is
  packed, and parsing what was packed, with a body behind it and into any other reply, gives the status,
  the fields, and the values beside the header: the length, the three times, and the type up to its
  parameters. The size of the header is that of the packed head.
\<close>

theorem reply_round_trip:
  assumes "makeable env status reason ct clen lmt expires" "httpReplyReset env blank = Inr rep0"
  shows "\<exists>rep head rep'. httpReplySetHeaders env rep0 status reason ct clen lmt expires = Inr rep \<and> httpReplyPackInto rep = Inr head \<and>
    httpReplyParse env other (head @ body) (length head) = Inr (True, rep') \<and> rp_hdr_sz rep' = length head \<and>
    sl_status (rp_sline rep') = status \<and> header_list (rp_header rep') = header_list (rp_header rep) \<and>
    rp_content_length rep' = clen \<and> rp_date rep' = squid_curtime env \<and> rp_last_modified rep' = lmt \<and> rp_expires rep' = expires \<and>
    rp_content_type rep' = map_option media_type ct"
proof -
  define es where "es = made_fields env ct clen lmt expires"
  obtain rep where rep: "httpReplySetHeaders env rep0 status reason ct clen lmt expires = Inr rep" "rp_sline rep = \<lparr>sl_version = \<lparr>ver_major = 1, ver_minor = 0\<rparr>, sl_reason = reason, sl_status = status\<rparr>"
    "rp_header rep = fold (\<lambda>e h. added h e) es (rp_header rep0)" "rp_body rep = rp_body rep0"
    using set_headers_made [OF assms(1), of rep0] by (simp add: es_def httpStatusLineSet_def)
  have r0: "httpHeaderInit hoReply = Inr (rp_header rep0)" "rp_body rep0 = []" using reset_reply [of env blank] assms(2) by auto
  hence h0: "wf_header (rp_header rep0)" "header_list (rp_header rep0) = []" "hd_owner (rp_header rep0) = hoReply" using empty_header [of hoReply] by auto
  note v = made_values [OF assms(1) es_def] and p = made_plain [OF assms(1), folded es_def]
  have l: "header_list (rp_header rep) = es" by (simp add: rep(3) fold_added_list h0(2))
  have wf: "wf_header (rp_header rep)" unfolding rep(3) using p by (intro fold_added_wf h0(1)) (auto simp: plain_field_def)
  have own: "hd_owner (fold (\<lambda>e h. added h e) xs h) = hd_owner h" for xs h by (induction xs arbitrary: h) simp_all
  have one: "one_length (rp_header rep)" using v(8,9) by (simp add: one_length_def l)
  obtain head where head: "httpReplyPackInto rep = Inr head" by (simp add: httpReplyPackInto_def pack_header)
  have nb: "rep\<lparr>rp_body := []\<rparr> = rep" using rep(4) r0(2) by simp
  note m = assms(1) [unfolded makeable_def]
  have nl: "LF \<notin> set (httpStatusLineReason (rp_sline rep))" using m status_strings_plain by (auto simp: httpStatusLineReason_def rep(2) split: option.split)
  have a: "\<forall>e \<in> set (header_list (rp_header rep)). plain_field e" "hd_owner (rp_header rep) = hoReply"
    "ver_major (sl_version (rp_sline rep)) < 65536" "ver_minor (sl_version (rp_sline rep)) < 65536" "100 \<le> sl_status (rp_sline rep)" "sl_status (rp_sline rep) < 2147483648"
    "httpReplyPackInto (rep\<lparr>rp_body := []\<rparr>) = Inr head"
    using p l own h0(3) m head nb by (simp_all add: rep(2,3))
  obtain r1 hdr where r1: "wf_header hdr" "header_list hdr = es"
    "httpReplyParse env other (head @ body) (length head) =
      res_bind (httpReplyHdrCacheInit env (r1\<lparr>rp_sline := (rp_sline r1)\<lparr>sl_version := sl_version (rp_sline rep), sl_status := sl_status (rp_sline rep)\<rparr>, rp_pstate := 1, rp_header := hdr\<rparr>))
        (\<lambda>r. Inr (True, r\<lparr>rp_hdr_sz := length head, rp_pstate := rp_pstate r + 1\<rparr>))"
    using parse_packed_reply [OF wf one a(1-6) nl a(7), of env other body] unfolding l by blast
  let ?r = "r1\<lparr>rp_sline := (rp_sline r1)\<lparr>sl_version := sl_version (rp_sline rep), sl_status := sl_status (rp_sline rep)\<rparr>, rp_pstate := 1, rp_header := hdr\<rparr>"
  have "simple_header (header_list (rp_header ?r))" using v(1) r1(2) by simp
  hence c: "httpReplyHdrCacheInit env ?r = (let es = header_list (rp_header ?r); ex = time_value HDR_EXPIRES es in
    Inr (?r\<lparr>rp_content_length := size_value HDR_CONTENT_LENGTH es, rp_date := time_value HDR_DATE es, rp_last_modified := time_value HDR_LAST_MODIFIED es,
      rp_content_type := map_option media_type (field_value HDR_CONTENT_TYPE es), rp_cache_control := None, rp_content_range := None, rp_keep_alive := False,
      rp_expires := (if field_value HDR_EXPIRES es = None then - 1 else if ex < 0 then squid_curtime env else ex)\<rparr>))"
    using r1(1) by (intro cache_init_simple) (simp_all add: rep(2))
  have ex: "expires < 0 \<Longrightarrow> expires = - 1" using m by (auto simp: printable_time_def)
  have "\<exists>rep'. httpReplyParse env other (head @ body) (length head) = Inr (True, rep') \<and> rp_hdr_sz rep' = length head \<and>
    sl_status (rp_sline rep') = status \<and> header_list (rp_header rep') = header_list (rp_header rep) \<and>
    rp_content_length rep' = clen \<and> rp_date rep' = squid_curtime env \<and> rp_last_modified rep' = lmt \<and> rp_expires rep' = expires \<and>
    rp_content_type rep' = map_option media_type ct"
    unfolding r1(3) c l by (simp add: Let_def r1(2) v rep(2) ex)
  thus ?thesis using rep(1) head by blast
qed

theorem reply_round_trip_witness:
  "\<exists>rep0 rep head rep'. httpReplySetHeaders \<lparr>squid_curtime = 784111777, vary_ignore_expire = False, relaxed_header_parser = True, visible_appname_string = ''squid'', full_appname_string = ''squid''\<rparr>
      rep0 404 None (Some ''text/html; charset=utf-8'') 17 (- 1) 784111777 = Inr rep \<and> httpReplyPackInto rep = Inr head \<and>
    httpReplyParse \<lparr>squid_curtime = 784111777, vary_ignore_expire = False, relaxed_header_parser = True, visible_appname_string = ''squid'', full_appname_string = ''squid''\<rparr>
      rep0 (head @ ''body'') (length head) = Inr (True, rep') \<and> rp_content_length rep' = 17 \<and> rp_expires rep' = 784111777 \<and> rp_content_type rep' = Some ''text/html''"
proof -
  let ?env = "\<lparr>squid_curtime = 784111777, vary_ignore_expire = False, relaxed_header_parser = True, visible_appname_string = ''squid'', full_appname_string = ''squid''\<rparr>"
  have m: "makeable ?env 404 None (Some ''text/html; charset=utf-8'') 17 (- 1) 784111777"
    by (simp add: makeable_def text_value_def isspace_c_def printable_time_def int64_ok_def str_limit_def)
  obtain rep0 where r: "httpReplyReset ?env undefined = Inr rep0" using reset_reply by blast
  show ?thesis using reply_round_trip [OF m r, of rep0 "''body''"] by (auto simp: media_type_def)
qed

section \<open>Validation\<close>

lemma toupper_tolower: "toupper (tolower c) = toupper c"
  by (simp add: toupper_def tolower_def)

lemma strcaseeq_upper: "strcaseeq a b \<Longrightarrow> map toupper a = map toupper b"
  unfolding strcaseeq_def by (metis (no_types, lifting) comp_apply list.map_comp map_eq_conv toupper_tolower)

lemma other_keeps_known:
  assumes "wf_field e" "he_id e \<noteq> HDR_OTHER" "he_id f = HDR_OTHER" "unknown_name (he_name f)"
  shows "\<not> replaces f e"
proof
  assume "replaces f e"
  hence "map toupper (he_name f) = map toupper (header_name (he_id e))" using assms(1-3) strcaseeq_upper by (fastforce simp: replaces_def wf_field_def)
  hence "httpHeaderIdByNameDef (he_name f) (int (length (he_name f))) = Some (he_id e)"
    using id_by_name_known [of "he_id e" "he_name f" "[]"] assms(1) by (simp add: wf_field_def httpHeaderIdByNameDef_def)
  thus False using assms(4) by (simp add: unknown_name_def)
qed

text \<open>
  C10. A stored reply that was validated. Of the stored fields, an age is removed, and so is every field that the
  304 answer brings anew, by identifier or, for extension fields, by name; the others keep their order, and
  the fields of the answer follow in theirs, except those that describe the stored body. These (encoding,
  language, length, location and range of the content) stay exactly as they were stored, whatever the answer says. The
  values beside the header are computed from the result. Extension fields of the answer are assumed not to have the name of
  a known field, as the parser makes them.
\<close>

theorem not_modified_keeps_body:
  assumes "wf_header (rp_header rep)" "wf_header (rp_header freshRep)" "\<forall>f \<in> set (header_list (rp_header freshRep)). he_id f = HDR_OTHER \<longrightarrow> unknown_name (he_name f)"
  defines "news \<equiv> filter (\<lambda>f. he_id f \<notin> Denied304HeadersMask) (header_list (rp_header freshRep))"
  shows "\<exists>h. httpReplyUpdateOnNotModified env rep freshRep = httpReplyHdrCacheInit env (rep\<lparr>rp_header := h\<rparr>) \<and> wf_header h \<and>
    header_list h = filter (\<lambda>e. he_id e \<noteq> HDR_AGE \<and> \<not> (\<exists>f \<in> set news. replaces f e)) (header_list (rp_header rep)) @ news \<and>
    (\<forall>i \<in> Denied304HeadersMask. filter (\<lambda>e. he_id e = i) (header_list h) = filter (\<lambda>e. he_id e = i) (header_list (rp_header rep)))"
proof -
  let ?F = "header_list (rp_header freshRep)"
  let ?d = "deleted (\<lambda>e. he_id e = HDR_AGE) (rp_header rep)"
  have nw: "filter (\<lambda>f. \<not> denied (Some Denied304HeadersMask) f) ?F = news" by (simp add: news_def denied_def)
  have age: "httpHeaderDelById HDR_AGE (rp_header rep) = Inr (?d, length (filter (\<lambda>e. he_id e = HDR_AGE) (header_list (rp_header rep))))"
    by (rule del_by_id [OF assms(1)]) (simp_all add: hdr_ids)
  have wff: "\<forall>e \<in> set ?F. wf_field e" using assms(2) by (simp add: wf_header_def)
  obtain h where h: "httpHeaderUpdate ?d (rp_header freshRep) (Some Denied304HeadersMask) = Inr h" "wf_header h"
    "header_list h = filter (\<lambda>e. \<not> (\<exists>f \<in> set news. replaces f e)) (header_list ?d) @ news"
    using update_list [OF deleted_wf [OF assms(1)] wff, of "\<lambda>e. he_id e = HDR_AGE" "Some Denied304HeadersMask"] unfolding nw by blast
  have keep: "\<not> replaces f e" if "f \<in> set news" "e \<in> set (header_list (rp_header rep))" "he_id e \<in> Denied304HeadersMask" for f e
  proof (cases "he_id f = HDR_OTHER")
    case True
    have "he_id e \<noteq> HDR_OTHER" using that(3) by (auto simp: Denied304HeadersMask_def Denied304HeadersArr_def hdr_ids)
    thus ?thesis using other_keeps_known [of e f] True that(1,2) assms(1,3) by (auto simp: wf_header_def news_def)
  next
    case False
    thus ?thesis using that(1,3) by (auto simp: replaces_def news_def)
  qed
  have "filter (\<lambda>e. he_id e = i) (header_list h) = filter (\<lambda>e. he_id e = i) (header_list (rp_header rep))" if i: "i \<in> Denied304HeadersMask" for i
  proof -
    have n: "filter (\<lambda>e. he_id e = i) news = []" using i by (auto simp: filter_empty_conv news_def)
    have a: "i \<noteq> HDR_AGE" using i by (auto simp: Denied304HeadersMask_def Denied304HeadersArr_def hdr_ids)
    have "filter (\<lambda>e. he_id e = i) (filter (\<lambda>e. \<not> (\<exists>f \<in> set news. replaces f e)) (header_list ?d)) = filter (\<lambda>e. he_id e = i) (header_list (rp_header rep))"
      unfolding deleted_list filter_filter by (rule filter_cong [OF refl]) (use keep i a in blast)
    thus ?thesis unfolding h(3) filter_append n by simp
  qed
  moreover have "header_list h = filter (\<lambda>e. he_id e \<noteq> HDR_AGE \<and> \<not> (\<exists>f \<in> set news. replaces f e)) (header_list (rp_header rep)) @ news"
    unfolding h(3) deleted_list filter_filter by (metis (no_types, lifting))
  ultimately show ?thesis using h(2) by (intro exI [of _ h]) (simp add: httpReplyUpdateOnNotModified_def age h(1))
qed

text \<open>A stored reply with a length, a server and an age, and an answer with another length and another server.\<close>

definition stored_fields :: "HttpHeaderEntry list" where
  "stored_fields = [\<lparr>he_id = HDR_CONTENT_LENGTH, he_name = header_name HDR_CONTENT_LENGTH, he_value = ''5''\<rparr>,
     \<lparr>he_id = HDR_SERVER, he_name = header_name HDR_SERVER, he_value = ''old''\<rparr>, \<lparr>he_id = HDR_AGE, he_name = header_name HDR_AGE, he_value = ''9''\<rparr>]"

definition answer_fields :: "HttpHeaderEntry list" where
  "answer_fields = [\<lparr>he_id = HDR_CONTENT_LENGTH, he_name = header_name HDR_CONTENT_LENGTH, he_value = ''0''\<rparr>,
     \<lparr>he_id = HDR_SERVER, he_name = header_name HDR_SERVER, he_value = ''new''\<rparr>]"

definition header_of :: "HttpHeaderEntry list \<Rightarrow> HttpHeader" where
  "header_of es = fold (\<lambda>e h. added h e) es \<lparr>hd_entries = [], hd_mask = {}, hd_owner = hoReply, hd_len = 0\<rparr>"

lemma header_of_fields:
  assumes "es = stored_fields \<or> es = answer_fields"
  shows "wf_header (header_of es)" "header_list (header_of es) = es"
proof -
  have "\<forall>e \<in> set es. wf_field e" using assms
    by (auto simp: stored_fields_def answer_fields_def intro!: put_known(2)) (simp_all add: hdr_ids str_limit_def)
  thus "wf_header (header_of es)" unfolding header_of_def by (intro fold_added_wf empty_good(1)) simp_all
  show "header_list (header_of es) = es" by (simp add: header_of_def fold_added_list) (simp add: header_list_def)
qed

theorem not_modified_keeps_body_witness:
  "\<exists>env rep freshRep h. rp_header rep = header_of stored_fields \<and> rp_header freshRep = header_of answer_fields \<and>
     httpReplyUpdateOnNotModified env rep freshRep = httpReplyHdrCacheInit env (rep\<lparr>rp_header := h\<rparr>) \<and>
     header_list h = [hd stored_fields, answer_fields ! 1]"
proof -
  let ?r = "undefined\<lparr>rp_header := header_of stored_fields\<rparr> :: http_reply" let ?f = "undefined\<lparr>rp_header := header_of answer_fields\<rparr> :: http_reply"
  note s = header_of_fields [of stored_fields, simplified] and a = header_of_fields [of answer_fields, simplified]
  have "\<forall>f \<in> set answer_fields. he_id f = HDR_OTHER \<longrightarrow> unknown_name (he_name f)" by (simp add: answer_fields_def hdr_ids)
  hence "\<exists>h. httpReplyUpdateOnNotModified undefined ?r ?f = httpReplyHdrCacheInit undefined (?r\<lparr>rp_header := h\<rparr>) \<and>
    header_list h = filter (\<lambda>e. he_id e \<noteq> HDR_AGE \<and> \<not> (\<exists>f \<in> set (filter (\<lambda>f. he_id f \<notin> Denied304HeadersMask) answer_fields). replaces f e)) stored_fields @
      filter (\<lambda>f. he_id f \<notin> Denied304HeadersMask) answer_fields"
    using not_modified_keeps_body [of ?r ?f undefined] s a by auto
  moreover have "filter (\<lambda>f. he_id f \<notin> Denied304HeadersMask) answer_fields = [answer_fields ! 1]"
    by (simp add: answer_fields_def Denied304HeadersMask_def Denied304HeadersArr_def hdr_ids)
  moreover have "filter (\<lambda>e. he_id e \<noteq> HDR_AGE \<and> \<not> (\<exists>f \<in> set [answer_fields ! 1]. replaces f e)) stored_fields = [hd stored_fields]"
    by (simp add: answer_fields_def stored_fields_def replaces_def hdr_ids)
  ultimately have "\<exists>h. rp_header ?r = header_of stored_fields \<and> rp_header ?f = header_of answer_fields \<and>
    httpReplyUpdateOnNotModified undefined ?r ?f = httpReplyHdrCacheInit undefined (?r\<lparr>rp_header := h\<rparr>) \<and>
    header_list h = [hd stored_fields, answer_fields ! 1]" by simp
  thus ?thesis by blast
qed

section \<open>Beyond the end\<close>

text \<open>
  C40. A reply whose status line is followed by carriage returns only is not taken for an empty header: the
  loop that skips the empty line runs beyond the end of the buffer.
\<close>

theorem isolate_overread:
  assumes "buf = l @ replicate (Suc n) CR"
  shows "httpMsgIsolateHeaders buf (length l) (Suc n) = Inl OutOfBounds"
proof -
  have h0: "headers_scan (replicate k CR) e 0 = (e + k, 0)" for k e by (induction k arbitrary: e) (simp_all add: scan_state_def)
  have "snd (headers_scan (replicate (Suc n) CR) 0 1) \<noteq> 3" using h0 by (cases n) (simp_all add: scan_state_def)
  hence en: "headersEnd (drop (length l) buf) (Suc n) = 0"
    unfolding headersEnd_def assms by (cases "headers_scan (replicate (Suc n) CR) 0 1") (simp del: replicate_Suc)
  have sk: "skip_empty_line buf p = Inl OutOfBounds" if "length l \<le> p" "p \<le> length buf" for p
    using that
  proof (induction "length buf - p" arbitrary: p)
    case 0
    thus ?case by (subst skip_empty_line.simps) (simp add: byte_at_def)
  next
    case (Suc k)
    have "buf ! p = CR" using Suc.hyps(2) Suc.prems unfolding assms by (simp add: nth_append del: replicate_Suc)
    thus ?case using Suc.hyps(1) [of "p + 1"] Suc.hyps(2) Suc.prems by (subst skip_empty_line.simps) simp
  qed
  have "byte_at buf (length l) = Inr CR" by (simp add: assms nth_append)
  thus ?thesis unfolding httpMsgIsolateHeaders_def Let_def en using sk [of "length l"] by (simp add: assms del: replicate_Suc)
qed

theorem isolate_overread_witness: "httpMsgIsolateHeaders (''HTTP/1.0 200 OK'' @ [LF, CR]) (length ''HTTP/1.0 200 OK'' + 1) 1 = Inl OutOfBounds"
  using isolate_overread [of "''HTTP/1.0 200 OK'' @ [LF, CR]" "''HTTP/1.0 200 OK'' @ [LF]" 0] by simp

end
