(* ===== verification/Spec2Isabelle.thy ===== *)
theory Spec2Isabelle
  imports Store_Index Heap_Correct Rfc1738 Base64 Stmem Filemap CacheDigest HttpHdrContRange Refresh Events
    Repl_Lru Repl_Heap Rfc1035_Correct Acl_Check_Correct SwapMeta_Correct Http_Reply
begin

text \<open>
  A verification development for Squid 2.7.STABLE9 with the video-caching patch: a caching web
  proxy that gives the many URLs of one video the same key in its store, so that the video is
  fetched once and served from the cache afterwards. File names below are relative to
  \<^verbatim>\<open>src/squid-2.7.STABLE9-new/\<close> unless they start with \<^verbatim>\<open>libvideoreg\<close>.

  \<^bold>\<open>How the program works.\<close> A request URL is upper-cased and searched by two Aho-Corasick
  automata (\<^verbatim>\<open>src/acsmDFA.c\<close>) that were compiled from keyword files; the flag of the keyword that is
  found says whether the URL is excluded from rewriting and which site it belongs to. The site's
  extractor (\<^verbatim>\<open>libvideoreg/src/videoreg.c\<close>) copies the video's file name out of the URL, and the MD5
  digest of method and name (\<^verbatim>\<open>lib/md5.c\<close>, \<^verbatim>\<open>src/store_key_md5.c\<close>) is the key under which the store
  (\<^verbatim>\<open>src/store.c\<close>) keeps the entry in a chained hash table (\<^verbatim>\<open>lib/hash.c\<close>). Whether a stored entry may
  be served is decided by the freshness rules (\<^verbatim>\<open>src/refresh.c\<close>); which bytes of it are sent, by the
  range headers (\<^verbatim>\<open>src/HttpHdrRange.c\<close>, \<^verbatim>\<open>src/HttpHdrContRange.c\<close>), read from the pages of the memory
  object (\<^verbatim>\<open>src/stmem.c\<close>) or from a swap file that starts with metadata (\<^verbatim>\<open>src/store_swapmeta.c\<close>); which entries
  leave the cache, by the replacement policies (\<^verbatim>\<open>src/repl/\<close>). Messages are parsed and packed by
  \<^verbatim>\<open>src/HttpMsg.c\<close>, \<^verbatim>\<open>src/HttpReply.c\<close> and \<^verbatim>\<open>src/HttpHeader.c\<close>, URLs by \<^verbatim>\<open>src/url.c\<close>; whether a request is
  allowed, by the access lists of \<^verbatim>\<open>src/acl.c\<close>. Deferred work runs from a timer queue (\<^verbatim>\<open>src/event.c\<close>) whose entries hold
  references in the callback data registry (\<^verbatim>\<open>src/cbdata.c\<close>).

  \<^bold>\<open>Theories, in dependency order.\<close>
  \<^item> \<open>Prelude\<close>: C strings in buffers, character classes, machine integers, the result type
    (\<open>error + 'a\<close>, where an out-of-bounds access or a failed \<^verbatim>\<open>assert\<close> is a value) and its \<open>res_bind\<close>.
  \<^item> \<open>Acsm\<close>: the queue, the state table, \<^verbatim>\<open>acsmAddPattern\<close>, \<^verbatim>\<open>acsmCompile_cap\<close> (trie, failure links,
    goto completion) and \<^verbatim>\<open>acsmSearch_cap\<close>. \<open>Acsm_Spec\<close> is the specification by suffixes and
    prefixes of keywords, \<open>Acsm_Trie\<close>, \<open>Acsm_Dfa\<close> and \<open>Acsm_Correct\<close> prove the phases against it.
    \<open>Keyword_File\<close> parses the keyword files with the fixed buffers of the code; \<open>Keyword_Matcher\<close>
    composes parsing, compilation and search.
  \<^item> \<open>Videoreg\<close>: the extractors of the sites, each on its \<^verbatim>\<open>idbuf\<close>.
  \<^item> \<open>Md5\<close>, \<open>StoreKey\<close>: the buffered digest against the padded reference on the whole message, and
    the public and private keys, their text form, comparison and bucket counts.
  \<^item> \<open>Hash_Table\<close>: \<^verbatim>\<open>hash_join\<close>, \<^verbatim>\<open>hash_lookup\<close>, \<^verbatim>\<open>hash_remove_link\<close> and the traversal cursor, under
    the locale \<open>hash_keys\<close>, interpreted on the string hashes and, in \<open>Store_Index\<close>, on the store keys.
    \<open>Store_Index\<close> has the functions of \<^verbatim>\<open>src/store.c\<close> on the index.
  \<^item> \<open>Heap\<close>, \<open>Heap_Correct\<close>: the pointer heap of \<^verbatim>\<open>lib/heap.c\<close> with its node array and back indices.
  \<^item> \<open>Rfc1738\<close>, \<open>Base64\<close>: the escapers and the codec of \<^verbatim>\<open>lib/\<close>.
  \<^item> \<open>Stmem\<close>, \<open>Filemap\<close>, \<open>CacheDigest\<close>: memory pages, the bit map of swap file numbers, the Bloom filter.
  \<^item> \<open>Arrays\<close>: \<^verbatim>\<open>lib/Array.c\<close> and \<^verbatim>\<open>lib/Stack.c\<close>, under the locale \<open>stack\<close>.
  \<^item> \<open>Header_Tools\<close>, \<open>HttpHdrRange\<close>, \<open>Range_Correct\<close>, \<open>HttpHdrContRange\<close>: header values, byte ranges.
  \<^item> \<open>Refresh\<close>: \<^verbatim>\<open>src/refresh.c\<close>, with its statistics.
  \<^item> \<open>Cbdata\<close>, \<open>Events\<close>: reference counts with the locale \<open>callback_registry\<close>, and the timer queue as
    a step relation whose reachable states never call a handler on freed data.
  \<^item> \<open>Dlink\<close>, \<open>Removal_Policy\<close>, \<open>Repl_Lru\<close>, \<open>Repl_Heap\<close>: the doubly linked lists of \<^verbatim>\<open>src/tools.c\<close> with their
    pointers, the contract of a replacement policy, and both policies of \<^verbatim>\<open>src/repl/\<close>. The list policy refines
    a list in order of recency; the heap policies purge the smallest key and age by it; the maintenance of a cache
    directory releases only unlocked entries, given what releasing one does.
  \<^item> \<open>Rfc1035\<close>, \<open>Rfc1035_Correct\<close>: the DNS message codec: what its unpacker reads and returns on any message, and that it understands queries.
  \<^item> \<open>Url\<close>, \<open>Url_Correct\<close>: \<^verbatim>\<open>urlParse\<close>, canonical URLs, domain matching.
  \<^item> \<open>Splay\<close>, \<open>Acl_Tree\<close>, \<open>Scanf\<close>, \<open>Acl_Ip\<close>, \<open>Acl_Domain\<close>, \<open>Acl_Lists\<close>, \<open>Acl_Check\<close>, \<open>Acl_Check_Correct\<close>:
    the splay trees of \<^verbatim>\<open>lib/splay.c\<close>, address, domain, number and time lists of \<^verbatim>\<open>src/acl.c\<close>, and both checks
    of an access list. A list decides as the set of its entries, a check as the first line that matches.
  \<^item> \<open>SwapMeta\<close>, \<open>SwapMeta_Correct\<close>: the header of a swap file, and the checks of its reader.
  \<^item> \<open>Squid_String\<close>: the counted strings of \<^verbatim>\<open>src/String.c\<close> with their 16-bit sizes, refined by lists.
  \<^item> \<open>Http_Header_Table\<close>, \<open>Http_Header\<close>, \<open>Http_Header_Correct\<close>: the table of known fields and the header object
    with its gaps, mask and length. Parsing any text keeps the invariant; packing and parsing are inverse;
    an update replaces exactly the fields that are named.
  \<^item> \<open>HttpHdrCc\<close>, \<open>Rfc1123\<close>, \<open>Http_Header_Values\<close>: cache directives, dates, and typed access to header fields.
  \<^item> \<open>Http_Msg\<close>, \<open>Http_Reply\<close>: request lines, the extent of headers, status lines and replies. Any bytes are
    parsed as a request without an access outside the buffer, and what was packed is recovered.

  \<^bold>\<open>Fuel and bounds.\<close> Loops that the code leaves to its data carry fuel, and a lemma shows that the
  fuel given is enough: the breadth-first loop of the automaton and the walk along failure links
  (number of states), \<^verbatim>\<open>heap_ify_up\<close>/\<^verbatim>\<open>down\<close> (number of nodes), the search for a free file number
  (size of the map), the bucket counts (31 doublings), the traversal of a hash table (number of
  slots), \<^verbatim>\<open>eventRun\<close> (number of events and one), the purge loop of the heap policies (number of nodes and
  one), an access check (one step for each of its four lookups). Counters that can wrap are words or have the
  wrap-around written out (\<open>wrap32\<close>, \<open>to_int32\<close>, \<open>trunc32\<close>).

  \<^bold>\<open>Parameters.\<close> What is not part of the sources is an argument: the regular expression matcher of the
  refresh patterns, the handlers of events, \<^verbatim>\<open>drand48\<close>, and the multiplication of a time by a
  percentage (\<^verbatim>\<open>double\<close> arithmetic; other \<^verbatim>\<open>double\<close> values of the code are rationals), \<^verbatim>\<open>exp\<close> in the keys of the
  heap policies, what releasing an entry and its last lock do, \<^verbatim>\<open>gethostbyname\<close>, and the environment of an
  access check (names, addresses and the controls that ask other programs). The clock, the program names and
  the flags that replies depend on are a record. \<^verbatim>\<open>gmtime\<close>, \<^verbatim>\<open>timegm\<close>, \<^verbatim>\<open>strtok\<close>, \<^verbatim>\<open>sscanf\<close> and other functions of
  the C library are modelled from their documentation.

  \<^bold>\<open>Not modelled.\<close> The event-driven I/O of the client, server, peer and disk sides, the configuration
  parser, authentication, delay pools, SNMP, the DNS resolver around its codec, and the bundled libraries: they are
  dominated by socket and file operations and timers, or are third-party code. Of the modelled files,
  statistics pages, debugging output and functions that only free memory are left out.
\<close>

section \<open>Keys, matchers and the index together\<close>

lemma index_ok_caps: "index_ok (st\<lparr>acsm_caps := c\<rparr>) = index_ok st"
  by (simp add: index_ok_def)

section \<open>Properties\<close>

text \<open>
  C4. A cached video is found again: an entry that is put into the store's index under the
  public key of a Youku URL is returned by \<^verbatim>\<open>storeGetPublic\<close> for another URL of the same video, with another host,
  session component and query; the entry is not in the index before. The name of the video ends in \<^verbatim>\<open>.flv\<close> or \<^verbatim>\<open>.mp4\<close> and has at
  most 1024 bytes. Both URLs are ASCII and shorter than 2048 bytes, recognised with flag 100 and not excluded; the suffix of
  the name is the first \<^verbatim>\<open>.flv\<close> of the URL or, if it has none, the first \<^verbatim>\<open>.mp4\<close>, and \<^verbatim>\<open>.flv?nk=\<close> and \<^verbatim>\<open>.mp4?nk=\<close> do not
  occur. This composes the keyword
  matchers, the extraction of the name, the digest, the key comparison and the hash table.
\<close>

theorem cached_video_is_found:
  assumes "index_ok st" "e \<notin> set (links (store_table st))" "matchers_serve ex kw (acsm_caps st)" "length stale = 64"
    and u: "youku_url video url" "recognised ex kw url"
    and v: "youku_url video url'" "recognised ex kw url'"
  shows "\<exists>caps key st1 st2. storeKeyPublic stale (acsm_caps st) url mth = Inr (caps, key) \<and>
    storeHashInsert e key (st\<lparr>acsm_caps := caps\<rparr>) = Inr st1 \<and>
    storeGetPublic stale url' mth st1 = Inr (st2, Some e)"
proof -
  let ?key = "md5_reference (char_of mth # video)"
  obtain caps where c: "matchers_serve ex kw caps" "storeKeyPublic stale (acsm_caps st) url mth = Inr (caps, ?key)"
    using public_key_of_name [OF assms(3,4) u(2) youku_cache_name [OF u]] by blast
  have i: "index_ok (st\<lparr>acsm_caps := caps\<rparr>)" "e \<notin> set (links (store_table (st\<lparr>acsm_caps := caps\<rparr>)))"
    using assms(1,2) by (simp_all add: index_ok_caps)
  obtain st1 where s1: "storeHashInsert e ?key (st\<lparr>acsm_caps := caps\<rparr>) = Inr st1" "acsm_caps st1 = caps"
    "storeGet ?key st1 = Inr (Some e)"
    using storeHashInsert_ok [OF i length_md5_reference] by fastforce
  obtain caps' where "storeKeyPublic stale (acsm_caps st1) url' mth = Inr (caps', ?key)"
    using public_key_of_name [OF c(1) assms(4) v(2) youku_cache_name [OF v]] s1(2) by auto
  then have "storeGetPublic stale url' mth st1 = Inr (st1\<lparr>acsm_caps := caps'\<rparr>, Some e)"
    by (simp add: storeGetPublic_def s1(3))
  with c(2) s1(1) show ?thesis by blast
qed

lemma empty_store:
  assumes "matchers_serve ex kw caps"
  shows "\<exists>st. index_ok st \<and> 7 \<notin> set (links (store_table st)) \<and> matchers_serve ex kw (acsm_caps st)"
proof -
  obtain n where n: "storeKeyHashBuckets 100 = Some n" using storeKeyHashBuckets_ok [of 100] by auto
  let ?st = "\<lparr>store_table = store_table_create n, hash_key = (\<lambda>_. None),
    entries = (\<lambda>_. \<lparr>e_mem = None, e_swap_filen = - 1, e_private = False\<rparr>), key_counter = 0, swap_log = [], acsm_caps = caps\<rparr>"
  have "index_ok ?st" using table_create_good [OF _ n] by (simp add: index_ok_def)
  moreover have "links (store_table ?st) = []" by (simp add: links_def store_table_create_def hash_create_def Let_def)
  ultimately show ?thesis using assms by (intro exI [of _ ?st]) simp
qed

theorem cached_video_is_found_witness:
  "\<exists>st caps key st1 st2. storeKeyPublic (replicate 64 NUL) (acsm_caps st) ''a/youku/6/03.mp4'' 1 = Inr (caps, key) \<and>
    storeHashInsert 7 key (st\<lparr>acsm_caps := caps\<rparr>) = Inr st1 \<and>
    storeGetPublic (replicate 64 NUL) ''b/youku/77/03.mp4?x'' 1 st1 = Inr (st2, Some 7)"
proof -
  obtain caps where "matchers_serve (file_keywords demo_exclusions) (file_keywords demo_file) caps" using demo_matchers by blast
  then obtain st where st: "index_ok st" "7 \<notin> set (links (store_table st))"
    "matchers_serve (file_keywords demo_exclusions) (file_keywords demo_file) (acsm_caps st)" using empty_store by blast
  have "\<exists>caps key st1 st2. storeKeyPublic (replicate 64 NUL) (acsm_caps st) ''a/youku/6/03.mp4'' 1 = Inr (caps, key) \<and>
    storeHashInsert 7 key (st\<lparr>acsm_caps := caps\<rparr>) = Inr st1 \<and>
    storeGetPublic (replicate 64 NUL) ''b/youku/77/03.mp4?x'' 1 st1 = Inr (st2, Some 7)"
    by (rule cached_video_is_found [OF st _ demo_urls(1) demo_recognised(1) demo_urls(2) demo_recognised(2)]) simp
  then show ?thesis by blast
qed

end
